(* ===== verification/Prelude.thy ===== *)
theory Prelude
  imports Main "HOL-Library.Word"
begin

text \<open>
  Shared ground of the development: the JavaScript values the program computes with
  (bytes, UTF-16 code units, non-negative doubles), errors as values, and the generic
  lemmas the components use.

  \<^item> A \<open>Uint8Array\<close> is a list of 8-bit words, a string is a list of 16-bit code units.
  \<^item> A thrown error is the left value of a sum; its message is kept without the parts
    interpolated at run time. A \<open>GitError\<close> whose message is text of the other side is a
    \<open>RemoteError\<close> with its code and that text.
  \<^item> A non-negative integer \<open>number\<close> below \<open>2 ^ 53\<close> is a \<open>nat\<close>; where the code lets a
    number grow past that, \<open>jsnum\<close> keeps the rounding, \<open>Infinity\<close> and \<open>NaN\<close>, and \<open>double_of_int\<close>
    rounds an integer sum or difference to the double it becomes.
\<close>

unbundle bit_operations_syntax

section \<open>Types\<close>

type_synonym byte = "8 word"
type_synonym bytes = "byte list"
type_synonym unit16 = "16 word"
type_synonym jstring = "unit16 list"

named_theorems js_simps \<open>evaluation rules for the JavaScript primitives\<close>
named_theorems byte_simps \<open>bit operations of single bytes as arithmetic\<close>

text \<open>ASCII literals of the source, as code units and as bytes.\<close>

definition units :: "string \<Rightarrow> jstring" where
  "units s = map (\<lambda>c. word_of_nat (of_char c)) s"

definition ascii :: "string \<Rightarrow> bytes" where
  "ascii s = map (\<lambda>c. word_of_nat (of_char c)) s"

section \<open>Errors\<close>

datatype error =
    CorruptError string
  | GitError string string
  | RemoteError string jstring
  | RangeError string
  | TypeError string
  | JsError string
  | IgnoreLimitError string nat nat

type_synonym 'a result = "error + 'a"

definition bindR :: "'a result \<Rightarrow> ('a \<Rightarrow> 'b result) \<Rightarrow> 'b result" where
  "bindR r f = (case r of Inl e \<Rightarrow> Inl e | Inr x \<Rightarrow> f x)"

lemma bindR_simps [simp]:
  "bindR (Inl e) f = Inl e"
  "bindR (Inr x) f = f x"
  by (simp_all add: bindR_def)

lemma bindR_Inr_iff [simp]: "bindR r f = Inr y \<longleftrightarrow> (\<exists>x. r = Inr x \<and> f x = Inr y)"
  by (cases r) auto

lemma bindR_assoc [simp]: "bindR (bindR r f) g = bindR r (\<lambda>x. bindR (f x) g)"
  by (cases r) simp_all

lemma bindR_return [simp]: "bindR r Inr = r"
  by (cases r) simp_all

text \<open>A guard of the source that throws.\<close>

definition guardR :: "bool \<Rightarrow> error \<Rightarrow> unit result" where
  "guardR ok e = (if ok then Inr () else Inl e)"

lemma guardR_simps [simp]:
  "guardR True e = Inr ()"
  "guardR False e = Inl e"
  "guardR b e = Inr u \<longleftrightarrow> b"
  by (simp_all add: guardR_def)

text \<open>A loop over a list that stops at the first error.\<close>

fun foldR :: "('a \<Rightarrow> 's \<Rightarrow> 's result) \<Rightarrow> 'a list \<Rightarrow> 's \<Rightarrow> 's result" where
  "foldR f [] s = Inr s"
| "foldR f (x # xs) s = bindR (f x s) (foldR f xs)"

lemma foldR_append [simp]: "foldR f (xs @ ys) s = bindR (foldR f xs s) (foldR f ys)"
proof (induction xs arbitrary: s)
  case (Cons x xs)
  then show ?case by (cases "f x s") simp_all
qed simp

lemma foldR_invariant:
  assumes run: "foldR f xs s = Inr s'" and start: "P s"
    and step: "\<And>x s s'. x \<in> set xs \<Longrightarrow> P s \<Longrightarrow> f x s = Inr s' \<Longrightarrow> P s'"
  shows "P s'"
  using run start step
proof (induction xs arbitrary: s)
  case (Cons x xs)
  from Cons.prems(1) obtain t where t: "f x s = Inr t" "foldR f xs t = Inr s'" by auto
  have "P t" using Cons.prems(3) [of x s t] Cons.prems(2) t(1) by simp
  then show ?case using Cons.IH [OF t(2)] Cons.prems(3) by (meson list.set_intros(2))
qed simp

text \<open>\<open>Set.prototype.add\<close>, over the elements in insertion order.\<close>

definition set_add :: "'a \<Rightarrow> 'a list \<Rightarrow> 'a list" where
  "set_add x xs = (if x \<in> set xs then xs else xs @ [x])"

lemma set_set_add [simp]: "set (set_add x xs) = insert x (set xs)"
  by (auto simp: set_add_def)

section \<open>Bits of a byte\<close>

lemma unat_byte_less [simp]: "unat (b :: byte) < 256"
  using unsigned_less [of b] by simp

lemma unat_unit16_less [simp]: "unat (u :: unit16) < 65536"
  using unsigned_less [of u] by simp

lemma byte_and_7f [byte_simps]: "unat ((b :: byte) AND 0x7f) = unat b mod 128"
proof -
  have m: "(0x7f :: byte) = mask 7" by (simp add: mask_eq_exp_minus_1)
  show ?thesis unfolding m
    by (simp add: take_bit_eq_mask [symmetric] take_bit_eq_mod unat_mod_distrib)
qed

lemma byte_and_0f [byte_simps]: "unat ((b :: byte) AND 0x0f) = unat b mod 16"
proof -
  have m: "(0x0f :: byte) = mask 4" by (simp add: mask_eq_exp_minus_1)
  show ?thesis unfolding m
    by (simp add: take_bit_eq_mask [symmetric] take_bit_eq_mod unat_mod_distrib)
qed

lemma word_and_exp: "(w :: 'a::len word) AND 2 ^ n = 0 \<longleftrightarrow> \<not> bit w n"
proof -
  have "w AND 2 ^ n = 0 \<longleftrightarrow> (\<forall>m. \<not> bit (w AND 2 ^ n) m)"
    by (metis bit_0_eq bit_eqI bot_apply bot_bool_def)
  also have "\<dots> \<longleftrightarrow> \<not> bit w n"
    by (auto simp: bit_and_iff bit_exp_iff dest: bit_imp_le_length)
  finally show ?thesis .
qed

lemma bit_unat_odd: "bit (w :: 'a::len word) n \<longleftrightarrow> odd (unat w div 2 ^ n)"
  by (simp add: bit_unsigned_iff flip: bit_iff_odd)

lemma byte_and_80 [byte_simps]: "(b :: byte) AND 0x80 = 0 \<longleftrightarrow> unat b < 128"
proof -
  have "even (n div 128) \<longleftrightarrow> n < 128" if "n < 256" for n :: nat
  proof (cases "n < 128")
    case False
    then have "n div 128 = 1" using that by (intro div_nat_eqI) simp_all
    then show ?thesis using False by simp
  qed simp
  then show ?thesis using word_and_exp [of b 7] unat_byte_less [of b] by (simp add: bit_unat_odd)
qed

lemma unat_word_of_nat_byte [simp]: "n < 256 \<Longrightarrow> unat (word_of_nat n :: byte) = n"
  by (simp add: unsigned_of_nat take_bit_nat_eq_self)

lemma unat_word_of_nat_unit [simp]: "n < 65536 \<Longrightarrow> unat (word_of_nat n :: unit16) = n"
  by (simp add: unsigned_of_nat take_bit_nat_eq_self)

section \<open>Numbers\<close>

definition max_safe_integer :: nat where
  "max_safe_integer = 2 ^ 53 - 1"

definition is_safe :: "nat \<Rightarrow> bool" where
  "is_safe n \<longleftrightarrow> n \<le> max_safe_integer"

lemma is_safe_mono: "is_safe n \<Longrightarrow> m \<le> n \<Longrightarrow> is_safe m"
  by (simp add: is_safe_def)

fun bit_width :: "nat \<Rightarrow> nat" where
  "bit_width n = (if n = 0 then 0 else Suc (bit_width (n div 2)))"

declare bit_width.simps [simp del]

text \<open>Round to nearest, ties to even, with 53 significant bits: what a double stores.\<close>

definition double_of_nat :: "nat \<Rightarrow> nat" where
  "double_of_nat n =
     (if n < 2 ^ 53 then n
      else let e = bit_width n - 53; q = n div 2 ^ e; r = n mod 2 ^ e
           in (if 2 * r < 2 ^ e \<or> (2 * r = 2 ^ e \<and> even q) then q else q + 1) * 2 ^ e)"

datatype jsnum = Fin nat | PInf | NaN

definition to_num :: "nat \<Rightarrow> jsnum" where
  "to_num n = (if n < 2 ^ 53 then Fin n
               else if double_of_nat n < 2 ^ 1024 then Fin (double_of_nat n) else PInf)"

fun num_add :: "jsnum \<Rightarrow> jsnum \<Rightarrow> jsnum" where
  "num_add (Fin a) (Fin b) = to_num (a + b)"
| "num_add NaN y = NaN"
| "num_add x NaN = NaN"
| "num_add x y = PInf"

text \<open>\<open>x * 2 ** k\<close> for a small integer \<open>x\<close>: \<open>2 ** 1024\<close> is \<open>Infinity\<close>, and \<open>0 * Infinity\<close> is \<open>NaN\<close>.\<close>

definition num_scale :: "nat \<Rightarrow> nat \<Rightarrow> jsnum" where
  "num_scale x k = (if k < 1024 then to_num (x * 2 ^ k) else if x = 0 then NaN else PInf)"

fun num_gt :: "jsnum \<Rightarrow> nat \<Rightarrow> bool" where
  "num_gt (Fin n) k = (k < n)"
| "num_gt PInf k = True"
| "num_gt NaN k = False"

lemma to_num_small [simp]: "n < 2 ^ 53 \<Longrightarrow> to_num n = Fin n"
  by (simp add: to_num_def)

lemma bit_width_le: "n \<noteq> 0 \<Longrightarrow> 2 ^ (bit_width n - 1) \<le> n"
proof (induction n rule: bit_width.induct)
  case (1 n)
  show ?case
  proof (cases "n div 2 = 0")
    case True
    with "1.prems" show ?thesis
      by (simp add: bit_width.simps [of n] bit_width.simps [of 0])
  next
    case False
    have IH: "2 ^ (bit_width (n div 2) - 1) \<le> n div 2" using "1.IH" "1.prems" False by simp
    have "bit_width (n div 2) \<noteq> 0" using False by (subst bit_width.simps) simp
    then have "(2::nat) ^ (bit_width n - 1) = 2 * 2 ^ (bit_width (n div 2) - 1)"
      using "1.prems" by (simp add: bit_width.simps [of n] flip: power_Suc)
    then show ?thesis using IH by simp
  qed
qed

text \<open>Rounding never brings a number back under \<open>2 ^ 53\<close>.\<close>

lemma double_of_nat_ge: "2 ^ 53 \<le> n \<Longrightarrow> 2 ^ 53 \<le> double_of_nat n"
proof -
  assume n: "2 ^ 53 \<le> n"
  let ?e = "bit_width n - 53"
  let ?q = "n div 2 ^ ?e"
  show ?thesis
  proof (cases "?e = 0")
    case True
    with n show ?thesis by (simp add: double_of_nat_def Let_def)
  next
    case False
    from n have n0: "n \<noteq> 0" by (intro notI) simp
    have "(2::nat) ^ (52 + ?e) \<le> n" using bit_width_le [OF n0] False by simp
    then have q: "2 ^ 52 \<le> ?q" by (simp add: power_add less_eq_div_iff_mult_less_eq)
    have "double_of_nat n = (if 2 * (n mod 2 ^ ?e) < 2 ^ ?e \<or> (2 * (n mod 2 ^ ?e) = 2 ^ ?e \<and> even ?q)
           then ?q else ?q + 1) * 2 ^ ?e"
      using n by (simp add: double_of_nat_def Let_def)
    then have "?q * 2 ^ ?e \<le> double_of_nat n" by simp
    moreover have "2 ^ 52 * 2 ^ 1 \<le> ?q * 2 ^ ?e"
      using q False by (intro mult_le_mono power_increasing) auto
    moreover have "(2::nat) ^ 53 = 2 ^ 52 * 2 ^ 1" by simp
    ultimately show ?thesis by linarith
  qed
qed

text \<open>The sum or difference of two numbers that are integers, as a double stores it.\<close>

definition double_of_int :: "int \<Rightarrow> int" where
  "double_of_int x = (if x < 0 then - int (double_of_nat (nat (- x))) else int (double_of_nat (nat x)))"

lemma double_of_int_exact: "\<bar>x\<bar> < 2 ^ 53 \<Longrightarrow> double_of_int x = x"
proof -
  assume x: "\<bar>x\<bar> < 2 ^ 53"
  then have "nat x < 2 ^ 53" "nat (- x) < 2 ^ 53" by (simp_all add: nat_less_iff)
  then show ?thesis by (simp add: double_of_int_def double_of_nat_def)
qed

lemma to_num_Fin: "to_num n = Fin m \<Longrightarrow> m < 2 ^ 53 \<Longrightarrow> n = m"
  using double_of_nat_ge [of n] by (auto simp: to_num_def split: if_splits)

end
