(* ===== verification/Text.thy ===== *)
theory Text
  imports Prelude
begin

text \<open>
  The string operations of the standard library the program uses, polymorphic in the
  element so that they serve strings (code units) and byte arrays alike.
\<close>

section \<open>String primitives\<close>

definition charCodeAt :: "'a list \<Rightarrow> nat \<Rightarrow> 'a option" where
  "charCodeAt s i = (if i < length s then Some (s ! i) else None)"

definition startsWith :: "'a list \<Rightarrow> 'a list \<Rightarrow> bool" where
  "startsWith s p \<longleftrightarrow> take (length p) s = p"

definition endsWith :: "'a list \<Rightarrow> 'a list \<Rightarrow> bool" where
  "endsWith s p \<longleftrightarrow> length p \<le> length s \<and> drop (length s - length p) s = p"

text \<open>\<open>indexOf\<close> of a substring: the first position at which it starts.\<close>

fun indexOf :: "'a list \<Rightarrow> 'a list \<Rightarrow> nat option" where
  "indexOf [] p = (if p = [] then Some 0 else None)"
| "indexOf (x # xs) p = (if startsWith (x # xs) p then Some 0 else map_option Suc (indexOf xs p))"

definition indexOf_from :: "'a list \<Rightarrow> 'a list \<Rightarrow> nat \<Rightarrow> nat option" where
  "indexOf_from s p i = map_option (\<lambda>k. i + k) (indexOf (drop i s) p)"

text \<open>\<open>lastIndexOf\<close> of a single unit.\<close>

fun lastIndexOf :: "'a list \<Rightarrow> 'a \<Rightarrow> nat option" where
  "lastIndexOf [] c = None"
| "lastIndexOf (x # xs) c =
     (case lastIndexOf xs c of Some k \<Rightarrow> Some (Suc k) | None \<Rightarrow> if x = c then Some 0 else None)"

text \<open>\<open>split\<close> at a single unit and \<open>join\<close>.\<close>

fun split_at :: "'a \<Rightarrow> 'a list \<Rightarrow> 'a list list" where
  "split_at c [] = [[]]"
| "split_at c (x # xs) =
     (if x = c then [] # split_at c xs
      else case split_at c xs of [] \<Rightarrow> [[x]] | p # ps \<Rightarrow> (x # p) # ps)"

fun join_with :: "'a list \<Rightarrow> 'a list list \<Rightarrow> 'a list" where
  "join_with sep [] = []"
| "join_with sep [p] = p"
| "join_with sep (p # q # ps) = p @ sep @ join_with sep (q # ps)"

lemma startsWith_append [simp]: "startsWith (p @ s) p"
  by (simp add: startsWith_def)

lemma startsWith_iff: "startsWith s p \<longleftrightarrow> (\<exists>t. s = p @ t)"
  by (auto simp: startsWith_def) (metis append_take_drop_id)

lemma startsWith_Cons [simp]: "startsWith (x # xs) (y # ys) \<longleftrightarrow> x = y \<and> startsWith xs ys"
  by (auto simp: startsWith_def)

lemma startsWith_Nil [simp]: "startsWith s []" "startsWith [] p \<longleftrightarrow> p = []"
  by (auto simp: startsWith_def)

lemma endsWith_iff: "endsWith s p \<longleftrightarrow> (\<exists>t. s = t @ p)"
  by (auto simp: endsWith_def) (metis append_take_drop_id)

lemma split_at_not_Nil [simp]: "split_at c xs \<noteq> []"
  by (cases xs) (auto split: list.splits)

lemma split_at_parts: "p \<in> set (split_at c xs) \<Longrightarrow> c \<notin> set p"
  by (induction xs arbitrary: p) (auto split: list.splits if_splits)

lemma split_at_subset: "p \<in> set (split_at c xs) \<Longrightarrow> set p \<subseteq> set xs"
proof (induction xs arbitrary: p)
  case (Cons x xs)
  then show ?case by (fastforce split: list.splits if_splits)
qed simp

lemma join_with_Cons: "ps \<noteq> [] \<Longrightarrow> join_with sep (p # ps) = p @ sep @ join_with sep ps"
  by (cases ps) auto

lemma join_split_at [simp]: "join_with [c] (split_at c xs) = xs"
proof (induction xs)
  case (Cons x xs)
  obtain q qs where q: "split_at c xs = q # qs" by (cases "split_at c xs") auto
  show ?case using Cons q by (cases qs) auto
qed simp

lemma split_at_no_sep: "c \<notin> set p \<Longrightarrow> split_at c p = [p]"
  by (induction p) auto

lemma split_at_append: "c \<notin> set p \<Longrightarrow> split_at c (p @ c # s) = p # split_at c s"
  by (induction p) auto

lemma split_at_join:
  "ps \<noteq> [] \<Longrightarrow> \<forall>p \<in> set ps. c \<notin> set p \<Longrightarrow> split_at c (join_with [c] ps) = ps"
proof (induction ps)
  case (Cons p ps)
  then show ?case
    by (cases "ps = []") (simp_all add: split_at_no_sep join_with_Cons split_at_append)
qed simp

lemma indexOf_Some:
  "indexOf s p = Some k \<Longrightarrow> k + length p \<le> length s \<and> take (length p) (drop k s) = p"
proof (induction s arbitrary: k)
  case (Cons x xs)
  show ?case
  proof (cases "startsWith (x # xs) p")
    case True
    moreover have "length p \<le> length (x # xs)"
      using True by (metis append_eq_conv_conj length_append le_add1 startsWith_iff)
    ultimately show ?thesis using Cons.prems by (simp add: startsWith_def)
  next
    case False
    with Cons.prems obtain j where "indexOf xs p = Some j" "k = Suc j" by auto
    with Cons.IH show ?thesis by auto
  qed
qed (auto split: if_splits)

lemma indexOf_unit_append: "c \<notin> set xs \<Longrightarrow> indexOf (xs @ c # ys) [c] = Some (length xs)"
  by (induction xs) auto

lemma indexOf_unit_None: "c \<notin> set xs \<Longrightarrow> indexOf xs [c] = None"
  by (induction xs) auto

lemma lastIndexOf_None [simp]: "lastIndexOf xs c = None \<longleftrightarrow> c \<notin> set xs"
  by (induction xs) (auto split: option.splits)

lemma lastIndexOf_append: "c \<notin> set ys \<Longrightarrow> lastIndexOf (xs @ c # ys) c = Some (length xs)"
proof (induction xs)
  case Nil
  then have "lastIndexOf ys c = None" by simp
  then show ?case by (simp del: lastIndexOf_None)
qed simp

section \<open>Numbers as text\<close>

text \<open>One digit as \<open>toString(radix)\<close> writes it, and the value \<open>parseInt\<close> reads from a unit.\<close>

definition digit_unit :: "nat \<Rightarrow> unit16" where
  "digit_unit n = (if n < 10 then word_of_nat (0x30 + n) else word_of_nat (0x57 + n))"

definition digit_value :: "unit16 \<Rightarrow> nat option" where
  "digit_value u =
     (if 0x30 \<le> u \<and> u \<le> 0x39 then Some (unat u - 0x30)
      else if 0x61 \<le> u \<and> u \<le> 0x7a then Some (unat u - 0x57)
      else if 0x41 \<le> u \<and> u \<le> 0x5a then Some (unat u - 0x37)
      else None)"

fun to_radix :: "nat \<Rightarrow> nat \<Rightarrow> jstring" where
  "to_radix r n = (if r < 2 \<or> n < r then [digit_unit n] else to_radix r (n div r) @ [digit_unit (n mod r)])"

declare to_radix.simps [simp del]

definition padStart :: "'a list \<Rightarrow> nat \<Rightarrow> 'a \<Rightarrow> 'a list" where
  "padStart s n c = replicate (n - length s) c @ s"

text \<open>\<open>StrWhiteSpaceChar\<close>: what \<open>trim\<close> and \<open>parseInt\<close> skip.\<close>

definition is_space :: "unit16 \<Rightarrow> bool" where
  "is_space u \<longleftrightarrow>
     (9 \<le> u \<and> u \<le> 13) \<or> u = 0x20 \<or> u = 0xa0 \<or> u = 0x1680 \<or> (0x2000 \<le> u \<and> u \<le> 0x200a) \<or>
     u = 0x2028 \<or> u = 0x2029 \<or> u = 0x202f \<or> u = 0x205f \<or> u = 0x3000 \<or> u = 0xfeff"

definition trim :: "jstring \<Rightarrow> jstring" where
  "trim s = rev (dropWhile is_space (rev (dropWhile is_space s)))"

definition is_digit_of :: "nat \<Rightarrow> unit16 \<Rightarrow> bool" where
  "is_digit_of r u \<longleftrightarrow> (case digit_value u of Some d \<Rightarrow> d < r | None \<Rightarrow> False)"

definition digits_value :: "nat \<Rightarrow> jstring \<Rightarrow> nat" where
  "digits_value r ds = foldl (\<lambda>acc u. acc * r + the (digit_value u)) 0 ds"

text \<open>\<open>Number.parseInt(s, radix)\<close>: sign and magnitude, \<open>None\<close> for \<open>NaN\<close>.\<close>

definition parseInt :: "nat \<Rightarrow> jstring \<Rightarrow> (bool \<times> jsnum) option" where
  "parseInt r s =
     (let s1 = dropWhile is_space s;
          neg = (s1 \<noteq> [] \<and> hd s1 = 0x2d);
          s2 = (if s1 \<noteq> [] \<and> (hd s1 = 0x2d \<or> hd s1 = 0x2b) then tl s1 else s1);
          s3 = (if r = 16 \<and> (startsWith s2 [0x30, 0x78] \<or> startsWith s2 [0x30, 0x58]) then drop 2 s2 else s2);
          ds = takeWhile (is_digit_of r) s3
      in if ds = [] then None else Some (neg, to_num (digits_value r ds)))"

lemma digit_value_unit: "n < 36 \<Longrightarrow> digit_value (digit_unit n) = Some n"
proof -
  assume n: "n < 36"
  show ?thesis
  proof (cases "n < 10")
    case True
    then have "unat (word_of_nat (0x30 + n) :: unit16) = 0x30 + n" by (intro unat_word_of_nat_unit) simp
    then show ?thesis using True
      by (simp add: digit_value_def digit_unit_def word_le_nat_alt del: of_nat_add)
  next
    case False
    then have "unat (word_of_nat (0x57 + n) :: unit16) = 0x57 + n" using n by (intro unat_word_of_nat_unit) simp
    then show ?thesis using False n
      by (simp add: digit_value_def digit_unit_def word_le_nat_alt del: of_nat_add)
  qed
qed

lemma is_digit_of_unit: "n < r \<Longrightarrow> r \<le> 36 \<Longrightarrow> is_digit_of r (digit_unit n)"
  by (simp add: is_digit_of_def digit_value_unit)

lemma to_radix_digits: "2 \<le> r \<Longrightarrow> r \<le> 36 \<Longrightarrow> \<forall>u \<in> set (to_radix r n). is_digit_of r u"
proof (induction r n rule: to_radix.induct)
  case (1 r n)
  then show ?case by (subst to_radix.simps) (auto simp: is_digit_of_unit)
qed

lemma to_radix_nonempty [simp]: "to_radix r n \<noteq> []"
  by (subst to_radix.simps) simp

lemma digits_value_append:
  "digits_value r (xs @ [u]) = digits_value r xs * r + the (digit_value u)"
  by (simp add: digits_value_def)

lemma digits_value_to_radix: "2 \<le> r \<Longrightarrow> r \<le> 36 \<Longrightarrow> digits_value r (to_radix r n) = n"
proof (induction r n rule: to_radix.induct)
  case (1 r n)
  show ?case
  proof (cases "n < r")
    case True
    then show ?thesis using 1 by (subst to_radix.simps) (simp add: digits_value_def digit_value_unit)
  next
    case False
    then have "digits_value r (to_radix r (n div r)) = n div r" using 1 by simp
    moreover have "n mod r < r" using 1(2) by (intro mod_less_divisor) simp
    then have "digit_value (digit_unit (n mod r)) = Some (n mod r)"
      using 1(3) by (intro digit_value_unit) simp
    ultimately show ?thesis using False 1(2,3)
      by (subst to_radix.simps) (simp add: digits_value_append)
  qed
qed

lemma foldl_zeros: "foldl (\<lambda>acc u. acc * r + the (digit_value u)) 0 (replicate k 0x30) = (0::nat)"
  by (induction k) (simp_all add: digit_value_def)

lemma digits_value_pad [simp]: "digits_value r (padStart ds n 0x30) = digits_value r ds"
  by (simp add: digits_value_def padStart_def foldl_zeros)

text \<open>The number of digits of a number below a power of the radix.\<close>

lemma length_to_radix: "2 \<le> r \<Longrightarrow> 0 < k \<Longrightarrow> n < r ^ k \<Longrightarrow> length (to_radix r n) \<le> k"
proof (induction k arbitrary: n)
  case (Suc k)
  show ?case
  proof (cases "n < r")
    case True
    then show ?thesis by (subst to_radix.simps) simp
  next
    case False
    then have "k \<noteq> 0" using Suc.prems(3) by (intro notI) simp
    moreover have "n div r < r ^ k" using Suc.prems by (simp add: less_mult_imp_div_less mult.commute)
    ultimately have "length (to_radix r (n div r)) \<le> k" using Suc by simp
    then show ?thesis using False Suc.prems(1) by (subst to_radix.simps) simp
  qed
qed simp

lemma length_padStart: "length s \<le> n \<Longrightarrow> length (padStart s n c) = n"
  by (simp add: padStart_def)

end
