(* ===== verification/Utf8.thy ===== *)
theory Utf8
  imports Text
begin

text \<open>
  The UTF-8 codecs of the standard library: \<open>TextEncoder\<close>, and \<open>TextDecoder\<close> in its lenient
  and its fatal mode. They follow the WHATWG Encoding Standard; the decoder drops a leading
  byte order mark, as a \<open>TextDecoder\<close> without \<open>ignoreBOM\<close> does. The lemmas show when
  decoding inverts encoding and when encoding inverts a fatal decoding.
\<close>

section \<open>UTF-16 code points\<close>

definition is_high :: "unit16 \<Rightarrow> bool" where
  "is_high u \<longleftrightarrow> 0xd800 \<le> u \<and> u \<le> 0xdbff"

definition is_low :: "unit16 \<Rightarrow> bool" where
  "is_low u \<longleftrightarrow> 0xdc00 \<le> u \<and> u \<le> 0xdfff"

definition pair_point :: "unit16 \<Rightarrow> unit16 \<Rightarrow> nat" where
  "pair_point h l = 0x10000 + (unat h - 0xd800) * 1024 + (unat l - 0xdc00)"

text \<open>The code points of a string; an unpaired surrogate reads as U+FFFD.\<close>

fun code_points :: "jstring \<Rightarrow> nat list" where
  "code_points [] = []"
| "code_points (u # us) =
     (if is_high u then
        (case us of
           v # vs \<Rightarrow> if is_low v then pair_point u v # code_points vs else 0xfffd # code_points us
         | [] \<Rightarrow> [0xfffd])
      else if is_low u then 0xfffd # code_points us
      else unat u # code_points us)"

fun well_formed :: "jstring \<Rightarrow> bool" where
  "well_formed [] = True"
| "well_formed (u # us) =
     (if is_high u then (case us of v # vs \<Rightarrow> is_low v \<and> well_formed vs | [] \<Rightarrow> False)
      else \<not> is_low u \<and> well_formed us)"

definition scalar :: "nat \<Rightarrow> bool" where
  "scalar c \<longleftrightarrow> c < 0xd800 \<or> 0xe000 \<le> c \<and> c < 0x110000"

definition point_units :: "nat \<Rightarrow> jstring" where
  "point_units c =
     (if c < 0x10000 then [word_of_nat c]
      else [word_of_nat (0xd800 + (c - 0x10000) div 1024), word_of_nat (0xdc00 + (c - 0x10000) mod 1024)])"

lemma high_unat: "is_high u \<longleftrightarrow> 0xd800 \<le> unat u \<and> unat u \<le> 0xdbff"
  by (simp add: is_high_def word_le_nat_alt)

lemma low_unat: "is_low u \<longleftrightarrow> 0xdc00 \<le> unat u \<and> unat u \<le> 0xdfff"
  by (simp add: is_low_def word_le_nat_alt)

lemma scalar_pair: "is_high h \<Longrightarrow> is_low l \<Longrightarrow> scalar (pair_point h l)"
  unfolding high_unat low_unat scalar_def pair_point_def by arith

lemma scalar_plain: "\<not> is_high u \<Longrightarrow> \<not> is_low u \<Longrightarrow> scalar (unat u)"
  using unat_unit16_less [of u] unfolding high_unat low_unat scalar_def by arith

lemma scalar_fffd: "scalar 0xfffd"
  by (simp add: scalar_def)

declare code_points.simps(2) [simp del] well_formed.simps(2) [simp del]

text \<open>The four shapes of a non-empty string the two functions distinguish.\<close>

lemma code_points_cases:
  "is_high u \<Longrightarrow> is_low v \<Longrightarrow> code_points (u # v # vs) = pair_point u v # code_points vs"
  "is_high u \<Longrightarrow> (\<And>v vs. us = v # vs \<Longrightarrow> \<not> is_low v) \<Longrightarrow> code_points (u # us) = 0xfffd # code_points us"
  "\<not> is_high u \<Longrightarrow> is_low u \<Longrightarrow> code_points (u # us) = 0xfffd # code_points us"
  "\<not> is_high u \<Longrightarrow> \<not> is_low u \<Longrightarrow> code_points (u # us) = unat u # code_points us"
  by (simp_all add: code_points.simps(2) split: list.split)

lemma units_induct [case_names Nil Pair LoneHigh LoneLow Plain]:
  assumes "P []"
    and "\<And>u v vs. is_high u \<Longrightarrow> is_low v \<Longrightarrow> P vs \<Longrightarrow> P (u # v # vs)"
    and "\<And>u us. is_high u \<Longrightarrow> (\<And>v vs. us = v # vs \<Longrightarrow> \<not> is_low v) \<Longrightarrow> P us \<Longrightarrow> P (u # us)"
    and "\<And>u us. \<not> is_high u \<Longrightarrow> is_low u \<Longrightarrow> P us \<Longrightarrow> P (u # us)"
    and "\<And>u us. \<not> is_high u \<Longrightarrow> \<not> is_low u \<Longrightarrow> P us \<Longrightarrow> P (u # us)"
  shows "P s"
proof (induction s rule: length_induct)
  case (1 s)
  show ?case
  proof (cases s)
    case Nil
    then show ?thesis using assms(1) by simp
  next
    case (Cons u us)
    have IH: "P us" using 1 Cons by simp
    show ?thesis
    proof (cases "is_high u \<and> (\<exists>v vs. us = v # vs \<and> is_low v)")
      case True
      then obtain v vs where "us = v # vs" "is_low v" by blast
      then show ?thesis using assms(2) True 1 Cons by simp
    next
      case False
      then show ?thesis using assms(3-5) IH Cons by blast
    qed
  qed
qed

lemma code_points_scalar: "\<forall>c \<in> set (code_points s). scalar c"
  by (induction s rule: units_induct)
    (simp_all add: code_points_cases scalar_pair scalar_plain scalar_fffd)

lemma point_units_pair:
  assumes "is_high h" and "is_low l"
  shows "point_units (pair_point h l) = [h, l]"
proof -
  define a b where "a = unat h - 0xd800" and "b = unat l - 0xdc00"
  have b: "b < 1024" using assms(2) unfolding low_unat b_def by arith
  have u: "0xd800 + a = unat h" "0xdc00 + b = unat l"
    using assms unfolding high_unat low_unat a_def b_def by arith+
  have p: "pair_point h l = 0x10000 + (a * 1024 + b)" by (simp add: pair_point_def a_def b_def)
  have "(a * 1024 + b) div 1024 = a" "(a * 1024 + b) mod 1024 = b" using b by auto
  then have "point_units (pair_point h l) = [word_of_nat (0xd800 + a), word_of_nat (0xdc00 + b)]"
    unfolding p point_units_def by (simp del: of_nat_add)
  then show ?thesis unfolding u by simp
qed

lemma point_units_plain [simp]: "point_units (unat u) = [u]"
  using unat_unit16_less [of u] by (simp add: point_units_def)

lemma points_units_inverse: "well_formed s \<Longrightarrow> concat (map point_units (code_points s)) = s"
proof (induction s rule: units_induct)
  case (LoneHigh u us)
  then show ?case by (cases us) (simp_all add: well_formed.simps(2))
qed (simp_all add: code_points_cases well_formed.simps(2) point_units_pair)

lemma code_points_point_units: "scalar c \<Longrightarrow> code_points (point_units c @ s) = c # code_points s"
proof -
  assume c: "scalar c"
  show ?thesis
  proof (cases "c < 0x10000")
    case True
    then have "unat (word_of_nat c :: unit16) = c" by simp
    then have "\<not> is_high (word_of_nat c)" "\<not> is_low (word_of_nat c)"
      using True c by (auto simp: high_unat low_unat scalar_def)
    with True show ?thesis by (simp add: point_units_def code_points_cases(4))
  next
    case False
    define q r where "q = (c - 0x10000) div 1024" and "r = (c - 0x10000) mod 1024"
    have qr: "c = 0x10000 + (q * 1024 + r)" using False by (simp add: q_def r_def)
    have r: "r < 1024" by (simp add: r_def)
    have q: "q < 1024" using c unfolding qr scalar_def by arith
    have U: "unat (word_of_nat (0xd800 + q) :: unit16) = 0xd800 + q"
        "unat (word_of_nat (0xdc00 + r) :: unit16) = 0xdc00 + r"
      using q r by (intro unat_word_of_nat_unit; arith)+
    have H: "is_high (word_of_nat (0xd800 + q))" unfolding high_unat U using q by arith
    have L: "is_low (word_of_nat (0xdc00 + r))" unfolding low_unat U using r by arith
    have "point_units c = [word_of_nat (0xd800 + q), word_of_nat (0xdc00 + r)]"
      unfolding point_units_def q_def r_def using False by (simp del: of_nat_add)
    then have "code_points (point_units c @ s)
        = pair_point (word_of_nat (0xd800 + q)) (word_of_nat (0xdc00 + r)) # code_points s"
      using H L by (simp only: append_Cons append_Nil code_points_cases(1))
    also have "pair_point (word_of_nat (0xd800 + q)) (word_of_nat (0xdc00 + r)) = c"
      unfolding pair_point_def U qr by simp
    finally show ?thesis .
  qed
qed

section \<open>UTF-8\<close>

definition encode_point :: "nat \<Rightarrow> bytes" where
  "encode_point c =
     (if c < 0x80 then [word_of_nat c]
      else if c < 0x800 then [word_of_nat (0xc0 + c div 64), word_of_nat (0x80 + c mod 64)]
      else if c < 0x10000 then
        [word_of_nat (0xe0 + c div 4096), word_of_nat (0x80 + c div 64 mod 64),
         word_of_nat (0x80 + c mod 64)]
      else
        [word_of_nat (0xf0 + c div 262144), word_of_nat (0x80 + c div 4096 mod 64),
         word_of_nat (0x80 + c div 64 mod 64), word_of_nat (0x80 + c mod 64)])"

definition utf8_encode :: "jstring \<Rightarrow> bytes" where
  "utf8_encode s = concat (map encode_point (code_points s))"

text \<open>
  The decoder's state: the code point read so far, how many continuation bytes are still
  needed, and the range the next one must lie in. \<open>None\<close> in the output is a decoding error.
\<close>

record decoder =
  point :: nat
  needed :: nat
  lower :: nat
  upper :: nat

definition fresh :: decoder where
  "fresh = \<lparr>point = 0, needed = 0, lower = 0x80, upper = 0xbf\<rparr>"

definition lead_byte :: "nat \<Rightarrow> decoder option" where
  "lead_byte b =
     (if 0xc2 \<le> b \<and> b \<le> 0xdf then Some \<lparr>point = b mod 32, needed = 1, lower = 0x80, upper = 0xbf\<rparr>
      else if 0xe0 \<le> b \<and> b \<le> 0xef then
        Some \<lparr>point = b mod 16, needed = 2, lower = if b = 0xe0 then 0xa0 else 0x80,
              upper = if b = 0xed then 0x9f else 0xbf\<rparr>
      else if 0xf0 \<le> b \<and> b \<le> 0xf4 then
        Some \<lparr>point = b mod 8, needed = 3, lower = if b = 0xf0 then 0x90 else 0x80,
              upper = if b = 0xf4 then 0x8f else 0xbf\<rparr>
      else None)"

function decode_from :: "decoder \<Rightarrow> bytes \<Rightarrow> nat option list" where
  "decode_from d [] = (if needed d = 0 then [] else [None])"
| "decode_from d (b # bs) =
     (if needed d = 0 then
        (if unat b < 0x80 then Some (unat b) # decode_from fresh bs
         else case lead_byte (unat b) of
           Some d' \<Rightarrow> decode_from d' bs
         | None \<Rightarrow> None # decode_from fresh bs)
      else if unat b < lower d \<or> upper d < unat b then None # decode_from fresh (b # bs)
      else if needed d = 1 then Some (point d * 64 + unat b mod 64) # decode_from fresh bs
      else decode_from
             \<lparr>point = point d * 64 + unat b mod 64, needed = needed d - 1, lower = 0x80, upper = 0xbf\<rparr> bs)"
  by pat_completeness auto
termination
  by (relation "measure (\<lambda>(d, bs). 2 * length bs + (if needed d = 0 then 0 else 1))")
    (auto simp: fresh_def)

definition drop_bom :: "nat option list \<Rightarrow> nat option list" where
  "drop_bom ps = (case ps of Some c # qs \<Rightarrow> if c = 0xfeff then qs else ps | _ \<Rightarrow> ps)"

text \<open>\<open>new TextDecoder().decode\<close>: errors become U+FFFD.\<close>

definition utf8_decode :: "bytes \<Rightarrow> jstring" where
  "utf8_decode bs =
     concat (map (\<lambda>p. point_units (case p of Some c \<Rightarrow> c | None \<Rightarrow> 0xfffd)) (drop_bom (decode_from fresh bs)))"

text \<open>\<open>new TextDecoder("utf-8", { fatal: true }).decode\<close>: an error throws, here \<open>None\<close>.\<close>

definition utf8_decode_fatal :: "bytes \<Rightarrow> jstring option" where
  "utf8_decode_fatal bs =
     (let ps = decode_from fresh bs
      in if None \<in> set ps then None
         else Some (concat (map (\<lambda>p. point_units (the p)) (drop_bom ps))))"

section \<open>Decoding inverts encoding\<close>

declare decode_from.simps(2) [simp del]

lemma decode_ascii: "unat b < 0x80 \<Longrightarrow> decode_from fresh (b # bs) = Some (unat b) # decode_from fresh bs"
  by (simp add: decode_from.simps(2) fresh_def)

lemma decode_lead: "lead_byte (unat b) = Some d \<Longrightarrow> decode_from fresh (b # bs) = decode_from d bs"
  by (auto simp: decode_from.simps(2) fresh_def lead_byte_def split: if_splits)

lemma decode_continue:
  "needed d = Suc (Suc n) \<Longrightarrow> lower d \<le> unat b \<Longrightarrow> unat b \<le> upper d \<Longrightarrow>
     decode_from d (b # bs)
       = decode_from \<lparr>point = point d * 64 + unat b mod 64, needed = Suc n, lower = 0x80, upper = 0xbf\<rparr> bs"
  by (simp add: decode_from.simps(2))

lemma decode_last:
  "needed d = 1 \<Longrightarrow> lower d \<le> unat b \<Longrightarrow> unat b \<le> upper d \<Longrightarrow>
     decode_from d (b # bs) = Some (point d * 64 + unat b mod 64) # decode_from fresh bs"
  by (simp add: decode_from.simps(2))

text \<open>The digits of a code point in base 64, and the bytes made of them.\<close>

lemma unat_lead_bytes:
  "q < 32 \<Longrightarrow> unat (word_of_nat (0xc0 + q) :: byte) = 0xc0 + q"
  "q < 16 \<Longrightarrow> unat (word_of_nat (0xe0 + q) :: byte) = 0xe0 + q"
  "q < 8 \<Longrightarrow> unat (word_of_nat (0xf0 + q) :: byte) = 0xf0 + q"
  "r < 64 \<Longrightarrow> unat (word_of_nat (0x80 + r) :: byte) = 0x80 + r"
  by (intro unat_word_of_nat_byte; arith)+

lemma continuation_mod: "r < 64 \<Longrightarrow> (0x80 + r) mod 64 = (r :: nat)"
  by (simp add: mod_add_left_eq [symmetric])

lemma base64_digits: "r < 64 \<Longrightarrow> (x * 64 + r) div 64 = x" "r < 64 \<Longrightarrow> (x * 64 + r) mod 64 = (r :: nat)"
  by simp_all

lemma div_64_chain: "(c :: nat) div 4096 = c div 64 div 64" "(c :: nat) div 262144 = c div 64 div 64 div 64"
  by (simp_all add: div_mult2_eq [symmetric])

lemma encode_point_2:
  assumes "2 \<le> q" "q < 32" "r < 64"
  shows "encode_point (q * 64 + r) = [word_of_nat (0xc0 + q), word_of_nat (0x80 + r)]"
  using assms by (simp add: encode_point_def base64_digits del: of_nat_add)

lemma encode_point_3:
  assumes "q < 16" "m < 64" "r < 64" "0x800 \<le> (q * 64 + m) * 64 + r"
  shows "encode_point ((q * 64 + m) * 64 + r)
           = [word_of_nat (0xe0 + q), word_of_nat (0x80 + m), word_of_nat (0x80 + r)]"
proof -
  have "\<not> (q * 64 + m) * 64 + r < 0x800" "\<not> (q * 64 + m) * 64 + r < 0x80"
      "(q * 64 + m) * 64 + r < 0x10000" using assms by (simp_all add: add_mult_distrib)
  then show ?thesis using assms(2,3)
    by (simp only: encode_point_def if_True if_False div_64_chain base64_digits)
qed

lemma encode_point_4:
  assumes "m < 64" "n < 64" "r < 64" "0x10000 \<le> ((q * 64 + m) * 64 + n) * 64 + r"
  shows "encode_point (((q * 64 + m) * 64 + n) * 64 + r)
           = [word_of_nat (0xf0 + q), word_of_nat (0x80 + m), word_of_nat (0x80 + n), word_of_nat (0x80 + r)]"
proof -
  let ?c = "((q * 64 + m) * 64 + n) * 64 + r"
  have "\<not> ?c < 0x10000" "\<not> ?c < 0x800" "\<not> ?c < 0x80" using assms(4) by linarith+
  then show ?thesis using assms(1-3)
    by (simp only: encode_point_def if_True if_False div_64_chain base64_digits)
qed

lemma decode_encode_2:
  assumes "2 \<le> q" "q < 32" "r < 64"
  shows "decode_from fresh (word_of_nat (0xc0 + q) # word_of_nat (0x80 + r) # bs)
           = Some (q * 64 + r) # decode_from fresh bs"
proof -
  have "(0xc0 + q) mod 32 = q" using assms by (simp add: mod_add_left_eq [symmetric])
  then have "lead_byte (0xc0 + q) = Some \<lparr>point = q, needed = 1, lower = 0x80, upper = 0xbf\<rparr>"
    using assms by (simp add: lead_byte_def)
  then show ?thesis
    using assms by (simp add: decode_lead unat_lead_bytes decode_last continuation_mod del: of_nat_add)
qed

text \<open>A decoder in the middle of a sequence reads the remaining digits.\<close>

lemma decode_two_more:
  assumes "needed d = 2" "m < 64" "r < 64" "lower d \<le> 0x80 + m" "0x80 + m \<le> upper d"
  shows "decode_from d (word_of_nat (0x80 + m) # word_of_nat (0x80 + r) # bs)
           = Some ((point d * 64 + m) * 64 + r) # decode_from fresh bs"
proof -
  have "decode_from d (word_of_nat (0x80 + m) # word_of_nat (0x80 + r) # bs)
      = decode_from \<lparr>point = point d * 64 + m, needed = Suc 0, lower = 0x80, upper = 0xbf\<rparr>
          (word_of_nat (0x80 + r) # bs)"
    using assms by (subst decode_continue [where n = 0])
      (simp_all only: unat_lead_bytes continuation_mod numeral_2_eq_2)
  also have "\<dots> = Some ((point d * 64 + m) * 64 + r) # decode_from fresh bs"
    using assms by (subst decode_last)
      (simp_all add: unat_lead_bytes continuation_mod del: of_nat_add)
  finally show ?thesis .
qed

lemma decode_three_more:
  assumes "needed d = 3" "m < 64" "n < 64" "r < 64" "lower d \<le> 0x80 + m" "0x80 + m \<le> upper d"
  shows "decode_from d (word_of_nat (0x80 + m) # word_of_nat (0x80 + n) # word_of_nat (0x80 + r) # bs)
           = Some (((point d * 64 + m) * 64 + n) * 64 + r) # decode_from fresh bs"
proof -
  have "decode_from d (word_of_nat (0x80 + m) # word_of_nat (0x80 + n) # word_of_nat (0x80 + r) # bs)
      = decode_from \<lparr>point = point d * 64 + m, needed = 2, lower = 0x80, upper = 0xbf\<rparr>
          (word_of_nat (0x80 + n) # word_of_nat (0x80 + r) # bs)"
    using assms by (subst decode_continue [where n = 1])
      (simp_all only: unat_lead_bytes continuation_mod One_nat_def numeral_2_eq_2 numeral_3_eq_3)
  also have "\<dots> = Some (((point d * 64 + m) * 64 + n) * 64 + r) # decode_from fresh bs"
    using assms by (subst decode_two_more) simp_all
  finally show ?thesis .
qed

lemma decode_encode_3:
  assumes "q < 16" "m < 64" "r < 64" "0x800 \<le> (q * 64 + m) * 64 + r" "scalar ((q * 64 + m) * 64 + r)"
  shows "decode_from fresh (word_of_nat (0xe0 + q) # word_of_nat (0x80 + m) # word_of_nat (0x80 + r) # bs)
           = Some ((q * 64 + m) * 64 + r) # decode_from fresh bs"
proof -
  have "(0xe0 + q) mod 16 = q" using assms by (simp add: mod_add_left_eq [symmetric])
  then have lead: "lead_byte (0xe0 + q) = Some \<lparr>point = q, needed = 2,
      lower = if q = 0 then 0xa0 else 0x80, upper = if q = 13 then 0x9f else 0xbf\<rparr>"
    using assms(1) by (simp add: lead_byte_def)
  have "q = 0 \<Longrightarrow> 32 \<le> m" using assms(3,4) by simp
  moreover have "q = 13 \<Longrightarrow> m < 32" using assms(2,3,5) unfolding scalar_def by auto
  ultimately have "decode_from \<lparr>point = q, needed = 2,
      lower = if q = 0 then 0xa0 else 0x80, upper = if q = 13 then 0x9f else 0xbf\<rparr>
      (word_of_nat (0x80 + m) # word_of_nat (0x80 + r) # bs)
        = Some ((q * 64 + m) * 64 + r) # decode_from fresh bs"
    using assms by (subst decode_two_more) auto
  moreover have "unat (word_of_nat (0xe0 + q) :: byte) = 0xe0 + q" using assms(1) by (rule unat_lead_bytes)
  ultimately show ?thesis using lead by (simp only: decode_lead)
qed

lemma decode_encode_4:
  assumes "m < 64" "n < 64" "r < 64" "0x10000 \<le> ((q * 64 + m) * 64 + n) * 64 + r"
    "((q * 64 + m) * 64 + n) * 64 + r < 0x110000"
  shows "decode_from fresh
      (word_of_nat (0xf0 + q) # word_of_nat (0x80 + m) # word_of_nat (0x80 + n) # word_of_nat (0x80 + r) # bs)
           = Some (((q * 64 + m) * 64 + n) * 64 + r) # decode_from fresh bs"
proof -
  have q: "q < 5" using assms(5) by (simp add: add_mult_distrib)
  have "(0xf0 + q) mod 8 = q" using q by (simp add: mod_add_left_eq [symmetric])
  then have lead: "lead_byte (0xf0 + q) = Some \<lparr>point = q, needed = 3,
      lower = if q = 0 then 0x90 else 0x80, upper = if q = 4 then 0x8f else 0xbf\<rparr>"
    using q by (simp add: lead_byte_def)
  have "q = 0 \<Longrightarrow> 16 \<le> m" using assms(2,3,4) by (simp add: add_mult_distrib)
  moreover have "q = 4 \<Longrightarrow> m < 16" using assms(5) by (simp add: add_mult_distrib)
  ultimately have "decode_from \<lparr>point = q, needed = 3,
      lower = if q = 0 then 0x90 else 0x80, upper = if q = 4 then 0x8f else 0xbf\<rparr>
      (word_of_nat (0x80 + m) # word_of_nat (0x80 + n) # word_of_nat (0x80 + r) # bs)
        = Some (((q * 64 + m) * 64 + n) * 64 + r) # decode_from fresh bs"
    using assms(1-3) by (subst decode_three_more) auto
  moreover have "unat (word_of_nat (0xf0 + q) :: byte) = 0xf0 + q" using q by (intro unat_lead_bytes) simp
  ultimately show ?thesis using lead by (simp only: decode_lead)
qed

text \<open>Every code point is a numeral of one of the four shapes.\<close>

lemma encode_point_cases:
  assumes "c < 0x110000"
  obtains (One) "c < 0x80" "encode_point c = [word_of_nat c]"
  | (Two) q r where "c = q * 64 + r" "2 \<le> q" "q < 32" "r < 64"
  | (Three) q m r where "c = (q * 64 + m) * 64 + r" "q < 16" "m < 64" "r < 64" "0x800 \<le> c"
  | (Four) q m n r where "c = ((q * 64 + m) * 64 + n) * 64 + r" "q < 5" "m < 64" "n < 64" "r < 64" "0x10000 \<le> c"
proof -
  define r n m q where "r = c mod 64" and "n = c div 64 mod 64" and "m = c div 64 div 64 mod 64"
    and "q = c div 64 div 64 div 64"
  have lt: "r < 64" "n < 64" "m < 64" by (simp_all add: r_def n_def m_def)
  have c2: "c div 64 = c div 64 div 64 * 64 + n" "c div 64 div 64 = q * 64 + m" "c = c div 64 * 64 + r"
    by (simp_all add: n_def m_def q_def r_def)
  consider "c < 0x80" | "0x80 \<le> c" "c < 0x800" | "0x800 \<le> c" "c < 0x10000" | "0x10000 \<le> c" by linarith
  then show ?thesis
  proof cases
    case 1
    then show ?thesis by (intro One) (simp_all add: encode_point_def)
  next
    case 2
    then show ?thesis using c2(3) lt by (intro Two [of "c div 64" r]) auto
  next
    case 3
    have "c div 64 div 64 < 16" using 3 by (simp add: less_mult_imp_div_less)
    then show ?thesis using 3 c2 lt by (intro Three [of "c div 64 div 64" n r]) auto
  next
    case 4
    have "c = ((q * 64 + m) * 64 + n) * 64 + r" using c2 by simp
    moreover from this have "q < 5" using assms by (simp add: add_mult_distrib)
    ultimately show ?thesis using 4 lt by (intro Four [of q m n r])
  qed
qed

lemma decode_encode_point:
  assumes "scalar c"
  shows "decode_from fresh (encode_point c @ bs) = Some c # decode_from fresh bs"
proof -
  have lt: "c < 0x110000" using assms by (auto simp: scalar_def)
  from lt show ?thesis
  proof (cases rule: encode_point_cases)
    case One
    then show ?thesis by (simp add: decode_ascii)
  next
    case (Two q r)
    then show ?thesis using encode_point_2 decode_encode_2 by simp
  next
    case (Three q m r)
    then show ?thesis using encode_point_3 decode_encode_3 assms by simp
  next
    case (Four q m n r)
    then show ?thesis using encode_point_4 decode_encode_4 lt by simp
  qed
qed

lemma decode_encode_points:
  "\<forall>c \<in> set cs. scalar c \<Longrightarrow> decode_from fresh (concat (map encode_point cs)) = map Some cs"
proof (induction cs)
  case Nil
  then show ?case by (simp add: fresh_def)
next
  case (Cons c cs)
  then show ?case by (simp add: decode_encode_point)
qed

lemma decode_utf8_encode: "decode_from fresh (utf8_encode s) = map Some (code_points s)"
  by (simp add: utf8_encode_def decode_encode_points code_points_scalar)

definition has_bom :: "jstring \<Rightarrow> bool" where
  "has_bom s \<longleftrightarrow> (\<exists>t. s = 0xfeff # t)"

lemma code_points_hd_feff:
  "code_points s = 0xfeff # cs \<longleftrightarrow> (\<exists>t. s = 0xfeff # t \<and> code_points t = cs)"
proof (cases s rule: code_points.cases)
  case (2 u us)
  consider "is_high u" | "\<not> is_high u" "is_low u" | "\<not> is_high u" "\<not> is_low u" by blast
  then show ?thesis
  proof cases
    case 1
    have "u \<noteq> 0xfeff" using 1 by (auto simp: is_high_def)
    moreover have "pair_point u v \<noteq> 0xfeff" for v by (simp add: pair_point_def)
    ultimately show ?thesis using 1 2 by (simp add: code_points.simps(2) split: list.split)
  next
    case a: 2
    have "u \<noteq> 0xfeff" using a by (auto simp: is_low_def)
    then show ?thesis using a 2 by (simp add: code_points_cases)
  next
    case 3
    have "unat u = 0xfeff \<longleftrightarrow> u = 0xfeff" using word_unat_eq_iff [of u "0xfeff"] by simp
    then show ?thesis using 3 2 by (simp add: code_points_cases)
  qed
qed simp

lemma drop_bom_utf8_encode: "\<not> has_bom s \<Longrightarrow> drop_bom (map Some (code_points s)) = map Some (code_points s)"
  by (cases "code_points s") (auto simp: drop_bom_def has_bom_def code_points_hd_feff)

text \<open>A well-formed string that does not start with U+FEFF survives both decoders.\<close>

lemma utf8_decode_encode: "well_formed s \<Longrightarrow> \<not> has_bom s \<Longrightarrow> utf8_decode (utf8_encode s) = s"
  by (simp add: utf8_decode_def decode_utf8_encode drop_bom_utf8_encode comp_def points_units_inverse)

lemma utf8_decode_fatal_encode:
  "well_formed s \<Longrightarrow> \<not> has_bom s \<Longrightarrow> utf8_decode_fatal (utf8_encode s) = Some s"
  by (simp add: utf8_decode_fatal_def decode_utf8_encode drop_bom_utf8_encode comp_def points_units_inverse
      image_iff)

section \<open>Encoding inverts fatal decoding\<close>

lemma decode_last_inv:
  "needed d = 1 \<Longrightarrow> decode_from d bs = Some c # ps \<Longrightarrow>
     \<exists>b rest. bs = b # rest \<and> lower d \<le> unat b \<and> unat b \<le> upper d \<and>
       c = point d * 64 + unat b mod 64 \<and> ps = decode_from fresh rest"
  by (cases bs) (auto simp: decode_from.simps(2) split: if_splits)

lemma decode_continue_inv:
  "needed d = Suc (Suc n) \<Longrightarrow> decode_from d bs = Some c # ps \<Longrightarrow>
     \<exists>b rest. bs = b # rest \<and> lower d \<le> unat b \<and> unat b \<le> upper d \<and>
       decode_from \<lparr>point = point d * 64 + unat b mod 64, needed = Suc n, lower = 0x80, upper = 0xbf\<rparr> rest
         = Some c # ps"
  by (cases bs) (auto simp: decode_from.simps(2) split: if_splits)

lemma continuation_byte: "0x80 \<le> unat b \<Longrightarrow> unat b \<le> 0xbf \<Longrightarrow> b = word_of_nat (0x80 + unat (b :: byte) mod 64)"
proof -
  assume "0x80 \<le> unat b" and "unat b \<le> 0xbf"
  then have "unat b mod 64 = unat b - 0x80" by (simp add: le_mod_geq)
  then have "0x80 + unat b mod 64 = unat b" using \<open>0x80 \<le> unat b\<close> by simp
  then show ?thesis by simp
qed

lemma two_more_inv:
  assumes "needed d = 2" "decode_from d bs = Some c # ps" "0x80 \<le> lower d" "upper d \<le> 0xbf"
  shows "\<exists>m r rest. m < 64 \<and> r < 64 \<and> bs = word_of_nat (0x80 + m) # word_of_nat (0x80 + r) # rest \<and>
           lower d \<le> 0x80 + m \<and> 0x80 + m \<le> upper d \<and>
           c = (point d * 64 + m) * 64 + r \<and> ps = decode_from fresh rest"
proof -
  from assms(1,2) decode_continue_inv [of d 0 bs c ps] obtain b1 bs1 where
    b1: "bs = b1 # bs1" "lower d \<le> unat b1" "unat b1 \<le> upper d" and
    d1: "decode_from \<lparr>point = point d * 64 + unat b1 mod 64, needed = Suc 0, lower = 0x80, upper = 0xbf\<rparr> bs1
          = Some c # ps" by auto
  from decode_last_inv [OF _ d1] obtain b2 rest where
    b2: "bs1 = b2 # rest" "0x80 \<le> unat b2" "unat b2 \<le> 0xbf"
      "c = (point d * 64 + unat b1 mod 64) * 64 + unat b2 mod 64" "ps = decode_from fresh rest" by auto
  have c1: "b1 = word_of_nat (0x80 + unat b1 mod 64)" using b1 assms(3,4) by (intro continuation_byte) auto
  have c2: "b2 = word_of_nat (0x80 + unat b2 mod 64)" using b2 by (intro continuation_byte) auto
  have "0x80 + unat b1 mod 64 = unat b1" using c1 unat_lead_bytes(4) [of "unat b1 mod 64"] by simp
  then show ?thesis using b1 b2 c1 c2
    by (intro exI [of _ "unat b1 mod 64"] exI [of _ "unat b2 mod 64"] exI [of _ rest]) (simp del: of_nat_add)
qed

lemma three_more_inv:
  assumes "needed d = 3" "decode_from d bs = Some c # ps" "0x80 \<le> lower d" "upper d \<le> 0xbf"
  shows "\<exists>m n r rest. m < 64 \<and> n < 64 \<and> r < 64 \<and>
           bs = word_of_nat (0x80 + m) # word_of_nat (0x80 + n) # word_of_nat (0x80 + r) # rest \<and>
           lower d \<le> 0x80 + m \<and> 0x80 + m \<le> upper d \<and>
           c = ((point d * 64 + m) * 64 + n) * 64 + r \<and> ps = decode_from fresh rest"
proof -
  from assms(1,2) decode_continue_inv [of d 1 bs c ps] obtain b1 bs1 where
    b1: "bs = b1 # bs1" "lower d \<le> unat b1" "unat b1 \<le> upper d" and
    d1: "decode_from \<lparr>point = point d * 64 + unat b1 mod 64, needed = 2, lower = 0x80, upper = 0xbf\<rparr> bs1
          = Some c # ps" by (auto simp: numeral_2_eq_2)
  from two_more_inv [OF _ d1] obtain n r rest where
    nr: "n < 64" "r < 64" "bs1 = word_of_nat (0x80 + n) # word_of_nat (0x80 + r) # rest"
      "c = ((point d * 64 + unat b1 mod 64) * 64 + n) * 64 + r" "ps = decode_from fresh rest" by auto
  have c1: "b1 = word_of_nat (0x80 + unat b1 mod 64)" using b1 assms(3,4) by (intro continuation_byte) auto
  have "0x80 + unat b1 mod 64 = unat b1" using c1 unat_lead_bytes(4) [of "unat b1 mod 64"] by simp
  then show ?thesis using b1 nr c1
    by (intro exI [of _ "unat b1 mod 64"] exI [of _ n] exI [of _ r] exI [of _ rest]) (simp del: of_nat_add)
qed

lemma decode_fresh_inv:
  assumes "decode_from fresh bs = Some c # ps"
  shows "\<exists>rest. bs = encode_point c @ rest \<and> ps = decode_from fresh rest \<and> scalar c"
proof (cases bs)
  case Nil
  then show ?thesis using assms by (simp add: fresh_def)
next
  case (Cons b bs1)
  let ?b = "unat b"
  have word: "b = word_of_nat k" if "?b = k" for k using that by auto
  consider "?b < 0x80" | d where "\<not> ?b < 0x80" "lead_byte ?b = Some d" | "\<not> ?b < 0x80" "lead_byte ?b = None" by fastforce
  then show ?thesis
  proof cases
    case 1
    then show ?thesis using assms Cons
      by (intro exI [of _ bs1]) (auto simp: decode_ascii encode_point_def scalar_def)
  next
    case (2 d)
    then have d1: "decode_from d bs1 = Some c # ps" using assms Cons decode_lead by simp
    from 2 consider
        (two) q where "?b = 0xc0 + q" "2 \<le> q" "q < 32" "d = \<lparr>point = ?b mod 32, needed = 1, lower = 0x80, upper = 0xbf\<rparr>"
      | (three) q where "?b = 0xe0 + q" "q < 16" "d = \<lparr>point = ?b mod 16, needed = 2,
            lower = if ?b = 0xe0 then 0xa0 else 0x80, upper = if ?b = 0xed then 0x9f else 0xbf\<rparr>"
      | (four) q where "?b = 0xf0 + q" "q < 5" "d = \<lparr>point = ?b mod 8, needed = 3,
            lower = if ?b = 0xf0 then 0x90 else 0x80, upper = if ?b = 0xf4 then 0x8f else 0xbf\<rparr>"
      unfolding lead_byte_def
      by (auto split: if_splits simp: le_iff_add)
    then show ?thesis
    proof cases
      case two
      have m: "?b mod 32 = q" using two by (simp add: mod_add_left_eq [symmetric])
      from decode_last_inv [OF _ d1] two m obtain b2 rest where
        b2: "bs1 = b2 # rest" "0x80 \<le> unat b2" "unat b2 \<le> 0xbf" "c = q * 64 + unat b2 mod 64" "ps = decode_from fresh rest"
        by auto
      have "b2 = word_of_nat (0x80 + unat b2 mod 64)" using b2 by (intro continuation_byte) auto
      moreover have "unat b2 mod 64 < 64" by simp
      then have "scalar c" using b2(4) two(3) unfolding scalar_def by linarith
      ultimately show ?thesis using b2 Cons two word [OF two(1)] encode_point_2 [of q "unat b2 mod 64"]
        by (intro exI [of _ rest]) (simp del: of_nat_add)
    next
      case three
      have m: "?b mod 16 = q" using three by (simp add: mod_add_left_eq [symmetric])
      have d: "point d = q" "needed d = 2" "lower d = (if q = 0 then 0xa0 else 0x80)"
        "upper d = (if q = 13 then 0x9f else 0xbf)" "0x80 \<le> lower d" "upper d \<le> 0xbf"
        using three m by auto
      from two_more_inv [OF d(2) d1 d(5,6)] obtain n r rest where
        nr: "n < 64" "r < 64" "bs1 = word_of_nat (0x80 + n) # word_of_nat (0x80 + r) # rest"
          "c = (q * 64 + n) * 64 + r" "ps = decode_from fresh rest"
          "(if q = 0 then 0xa0 else 0x80) \<le> 0x80 + n" "0x80 + n \<le> (if q = 13 then 0x9f else 0xbf)"
        unfolding d(1,3,4) by blast
      have "0x800 \<le> c" using nr by (cases "q = 0") auto
      moreover have "scalar c" using nr three(2) unfolding scalar_def by (cases "q < 13"; cases "q = 13") auto
      ultimately show ?thesis using nr Cons three word [OF three(1)] encode_point_3 [of q n r]
        by (intro exI [of _ rest]) (simp del: of_nat_add)
    next
      case four
      have m: "?b mod 8 = q" using four by (simp add: mod_add_left_eq [symmetric])
      have d: "point d = q" "needed d = 3" "lower d = (if q = 0 then 0x90 else 0x80)"
        "upper d = (if q = 4 then 0x8f else 0xbf)" "0x80 \<le> lower d" "upper d \<le> 0xbf"
        using four m by auto
      from three_more_inv [OF d(2) d1 d(5,6)] obtain k n r rest where
        nr: "k < 64" "n < 64" "r < 64" "bs1 = word_of_nat (0x80 + k) # word_of_nat (0x80 + n) # word_of_nat (0x80 + r) # rest"
          "c = ((q * 64 + k) * 64 + n) * 64 + r" "ps = decode_from fresh rest"
          "(if q = 0 then 0x90 else 0x80) \<le> 0x80 + k" "0x80 + k \<le> (if q = 4 then 0x8f else 0xbf)"
        unfolding d(1,3,4) by blast
      have "0x10000 \<le> c" using nr by (cases "q = 0") auto
      moreover have "scalar c" using nr four(2) \<open>0x10000 \<le> c\<close> unfolding scalar_def by (cases "q = 4") auto
      ultimately show ?thesis using nr Cons four word [OF four(1)] encode_point_4 [of k n r q]
        by (intro exI [of _ rest]) (simp del: of_nat_add)
    qed
  next
    case 3
    then show ?thesis using assms Cons by (simp add: decode_from.simps(2) fresh_def)
  qed
qed

lemma decode_nonempty: "needed d \<noteq> 0 \<Longrightarrow> decode_from d bs \<noteq> []"
  by (induction bs arbitrary: d) (simp_all add: decode_from.simps(2))

lemma decode_all_Some:
  "decode_from fresh bs = map Some cs \<Longrightarrow> bs = concat (map encode_point cs) \<and> (\<forall>c \<in> set cs. scalar c)"
proof (induction cs arbitrary: bs)
  case Nil
  then show ?case
  proof (cases bs)
    case (Cons b bs')
    have "needed d \<noteq> 0" if "lead_byte (unat b) = Some d" for d
      using that by (auto simp: lead_byte_def split: if_splits)
    then have "decode_from fresh (b # bs') \<noteq> []"
      by (simp add: decode_from.simps(2) decode_nonempty fresh_def split: option.split)
    then show ?thesis using Nil Cons by simp
  qed simp
next
  case (Cons c cs)
  from decode_fresh_inv [of bs c "map Some cs"] Cons.prems obtain rest where
    "bs = encode_point c @ rest" "map Some cs = decode_from fresh rest" "scalar c" by auto
  then show ?case using Cons.IH [of rest] by simp
qed

lemma units_of_scalars:
  "\<forall>c \<in> set cs. scalar c \<Longrightarrow>
     code_points (concat (map point_units cs)) = cs \<and> well_formed (concat (map point_units cs))"
proof (induction cs)
  case (Cons c cs)
  let ?s = "concat (map point_units cs)"
  have IH: "code_points ?s = cs" "well_formed ?s" and c: "scalar c" using Cons by auto
  have "well_formed (point_units c @ ?s)"
  proof -
    have cp: "code_points (point_units c @ ?s) = c # code_points ?s" using c by (rule code_points_point_units)
    show ?thesis
    proof (cases "c < 0x10000")
      case True
      then have "\<not> is_high (word_of_nat c)" "\<not> is_low (word_of_nat c)"
        using c by (auto simp: high_unat low_unat scalar_def)
      then show ?thesis using True IH by (simp add: point_units_def well_formed.simps(2))
    next
      case False
      then obtain h l where hl: "point_units c = [h, l]" by (simp add: point_units_def)
      show ?thesis
      proof (cases "is_high h \<and> is_low l")
        case True
        then show ?thesis using hl IH by (simp add: well_formed.simps(2))
      next
        case no: False
        have "hd (code_points (h # l # ?s)) = c" using cp hl by simp
        then have "c = 0xfffd \<or> c = unat h" using no
          by (auto simp: code_points.simps(2) split: if_splits)
        then have "c < 0x10000" using unat_unit16_less [of h] by auto
        then show ?thesis using False by simp
      qed
    qed
  qed
  then show ?case using IH c by (simp add: code_points_point_units)
qed simp

text \<open>A fatal decoding loses nothing but a leading byte order mark.\<close>

lemma utf8_decode_fatal_Some:
  assumes "utf8_decode_fatal bs = Some s"
  shows "well_formed s \<and> (bs = utf8_encode s \<or> bs = [0xef, 0xbb, 0xbf] @ utf8_encode s)"
proof -
  let ?ps = "decode_from fresh bs"
  from assms have nn: "None \<notin> set ?ps" by (auto simp: utf8_decode_fatal_def Let_def split: if_splits)
  define cs where "cs = map the ?ps"
  have "Some (the p) = p" if "p \<in> set ?ps" for p using that nn by (metis option.collapse)
  then have cs: "?ps = map Some cs" unfolding cs_def map_map by (intro map_idI [symmetric]) simp
  then have enc: "bs = concat (map encode_point cs)" "\<forall>c \<in> set cs. scalar c" using decode_all_Some by auto
  have s: "s = concat (map (\<lambda>p. point_units (the p)) (drop_bom (map Some cs)))"
    using assms nn cs by (simp add: utf8_decode_fatal_def Let_def split: if_splits)
  show ?thesis
  proof (cases "\<exists>ds. cs = 0xfeff # ds")
    case True
    then obtain ds where ds: "cs = 0xfeff # ds" by blast
    then have "s = concat (map point_units ds)" using s by (simp add: drop_bom_def comp_def)
    then have "code_points s = ds" "well_formed s" using units_of_scalars [of ds] enc(2) ds by auto
    moreover have "encode_point 0xfeff = [0xef, 0xbb, 0xbf]" by (simp add: encode_point_def)
    ultimately show ?thesis using enc(1) ds by (simp add: utf8_encode_def)
  next
    case False
    then have "drop_bom (map Some cs) = map Some cs" by (cases cs) (auto simp: drop_bom_def)
    then have "s = concat (map point_units cs)" using s by (simp add: comp_def)
    then have "code_points s = cs" "well_formed s" using units_of_scalars enc(2) by auto
    then show ?thesis using enc(1) by (simp add: utf8_encode_def)
  qed
qed

text \<open>ASCII text encodes to itself.\<close>

lemma code_points_ascii: "\<forall>u \<in> set s. unat u < 0x80 \<Longrightarrow> code_points s = map unat s"
proof (induction s)
  case (Cons u us)
  then have "\<not> is_high u" "\<not> is_low u" by (auto simp: high_unat low_unat)
  then show ?case using Cons by (simp add: code_points_cases)
qed simp

lemma utf8_encode_ascii: "\<forall>u \<in> set s. unat u < 0x80 \<Longrightarrow> utf8_encode s = map (\<lambda>u. word_of_nat (unat u)) s"
  by (simp add: utf8_encode_def code_points_ascii encode_point_def comp_def cong: map_cong)

lemma utf8_encode_Nil [simp]: "utf8_encode [] = []"
  by (simp add: utf8_encode_def)

lemma code_points_append: "well_formed p \<Longrightarrow> code_points (p @ q) = code_points p @ code_points q"
proof (induction p rule: units_induct)
  case (LoneHigh u us)
  then show ?case by (auto simp: well_formed.simps(2) split: list.splits)
qed (simp_all add: code_points_cases well_formed.simps(2))

lemma utf8_encode_append: "well_formed p \<Longrightarrow> utf8_encode (p @ q) = utf8_encode p @ utf8_encode q"
  by (simp add: utf8_encode_def code_points_append)

lemma word_of_nat_byte_0: "0 < n \<Longrightarrow> n < 256 \<Longrightarrow> (word_of_nat n :: byte) \<noteq> 0"
  by (metis unat_word_of_nat_byte unat_0 less_numeral_extra(3))

text \<open>NUL bytes come from NUL units only.\<close>

lemma encode_point_0: "scalar c \<Longrightarrow> 0 \<in> set (encode_point c) \<longleftrightarrow> c = 0"
proof -
  assume c: "scalar c"
  have cont: "(word_of_nat (0x80 + k mod 64) :: byte) \<noteq> 0" for k
    by (rule word_of_nat_byte_0) (use mod_less_divisor [of 64 k] in linarith)+
  have two: "(word_of_nat (0xc0 + c div 64) :: byte) \<noteq> 0" if "c < 0x800"
    by (rule word_of_nat_byte_0) (use that in \<open>simp_all add: less_mult_imp_div_less\<close>)
  have three: "(word_of_nat (0xe0 + c div 4096) :: byte) \<noteq> 0" if "c < 0x10000"
    by (rule word_of_nat_byte_0) (use that in \<open>simp_all add: less_mult_imp_div_less\<close>)
  have four: "(word_of_nat (0xf0 + c div 262144) :: byte) \<noteq> 0"
    by (rule word_of_nat_byte_0) (use c in \<open>auto simp: scalar_def\<close>)
  have one: "(word_of_nat c :: byte) = 0 \<longleftrightarrow> c = 0" if "c < 0x80"
    using word_of_nat_byte_0 [of c] that by (cases "c = 0") auto
  show ?thesis using cont [of c] cont [of "c div 64"] cont [of "c div 4096"] two three four one
    by (auto simp: encode_point_def simp del: of_nat_add)
qed

lemma code_points_0: "0 \<in> set (code_points s) \<longleftrightarrow> 0 \<in> set s"
proof (induction s rule: units_induct)
  case (Plain u us)
  have "0 = unat u \<longleftrightarrow> 0 = u" by (metis unat_0 unat_eq_zero)
  then show ?case using Plain by (auto simp: code_points_cases)
qed (auto simp: code_points_cases pair_point_def high_unat low_unat)

lemma utf8_encode_0: "0 \<in> set (utf8_encode s) \<longleftrightarrow> 0 \<in> set s"
proof -
  have "0 \<in> set (utf8_encode s) \<longleftrightarrow> (\<exists>c \<in> set (code_points s). 0 \<in> set (encode_point c))"
    by (auto simp: utf8_encode_def)
  also have "\<dots> \<longleftrightarrow> 0 \<in> set (code_points s)" using code_points_scalar [of s] encode_point_0 by blast
  finally show ?thesis by (simp add: code_points_0)
qed

end
