(* ===== verification/Streams.thy ===== *)
theory Streams
  imports Utf8
begin

text \<open>
  \<open>packages/git/src/common/streams.ts\<close>, lines 1-57: the path order every walk is sorted by. The main
  fact: \<open>comparePaths\<close>, which reads UTF-16 code units, is the order of the UTF-8 encodings. The
  lookahead and the merges of sorted streams are in \<open>Joins\<close>.
\<close>

section \<open>The path order\<close>

definition REPLACEMENT :: nat where
  "REPLACEMENT = 0xfffd"

text \<open>\<open>NaN & mask\<close> is 0: a read past the end has no bits.\<close>

definition masked :: "unit16 option \<Rightarrow> unit16 \<Rightarrow> unit16" where
  "masked u m = (case u of Some w \<Rightarrow> w AND m | None \<Rightarrow> 0)"

definition pointAt :: "jstring \<Rightarrow> nat \<Rightarrow> nat" where
  "pointAt text index =
     (let unit = charCodeAt text index in
      if masked unit 0xf800 \<noteq> 0xd800 then unat (the unit)
      else if masked unit 0xfc00 = 0xd800 then
        (let low = charCodeAt text (index + 1) in
         if masked low 0xfc00 = 0xdc00
         then 0x10000 + (unat (the unit) - 0xd800) * 2 ^ 10 + (unat (the low) - 0xdc00)
         else REPLACEMENT)
      else REPLACEMENT)"

function compare_loop :: "jstring \<Rightarrow> jstring \<Rightarrow> nat \<Rightarrow> nat \<Rightarrow> int" where
  "compare_loop left right i j =
     (if i < length left \<and> j < length right then
        if left ! i = right ! j \<and> (left ! i) AND 0xf800 \<noteq> 0xd800
        then compare_loop left right (i + 1) (j + 1)
        else (let lp = pointAt left i; rp = pointAt right j in
              if lp \<noteq> rp then (if lp < rp then -1 else 1)
              else (let width = (if 0x10000 \<le> lp then 2 else 1)
                    in compare_loop left right (i + width) (j + width)))
      else if i < length left then 1
      else if j < length right then -1
      else 0)"
  by pat_completeness auto
termination
  by (relation "measure (\<lambda>(l, r, i, j). length l - i)") auto

declare compare_loop.simps [simp del]

definition comparePaths :: "jstring \<Rightarrow> jstring \<Rightarrow> int" where
  "comparePaths left right = compare_loop left right 0 0"

subsection \<open>The order it decides\<close>

text \<open>Three-way lexicographic comparison, shorter first.\<close>

fun lex_cmp :: "'a::linorder list \<Rightarrow> 'a list \<Rightarrow> int" where
  "lex_cmp [] [] = 0"
| "lex_cmp [] (y # ys) = -1"
| "lex_cmp (x # xs) [] = 1"
| "lex_cmp (x # xs) (y # ys) = (if x < y then -1 else if y < x then 1 else lex_cmp xs ys)"

lemma lex_cmp_range: "lex_cmp xs ys \<in> {-1, 0, 1}"
  by (induction xs ys rule: lex_cmp.induct) auto

lemma lex_cmp_eq_0 [simp]: "lex_cmp xs ys = 0 \<longleftrightarrow> xs = ys"
  by (induction xs ys rule: lex_cmp.induct) auto

lemma lex_cmp_refl [simp]: "lex_cmp xs xs = 0"
  by simp

lemma lex_cmp_swap: "lex_cmp ys xs = - lex_cmp xs ys"
  by (induction xs ys rule: lex_cmp.induct) auto

lemma lex_cmp_trans: "lex_cmp xs ys < 0 \<Longrightarrow> lex_cmp ys zs < 0 \<Longrightarrow> lex_cmp xs zs < 0"
proof (induction xs ys arbitrary: zs rule: lex_cmp.induct)
  case (2 y ys)
  then show ?case by (cases zs) auto
next
  case (4 x xs y ys)
  then show ?case by (cases zs) (auto split: if_splits)
qed auto

lemma lex_cmp_prefix [simp]: "lex_cmp (p @ xs) (p @ ys) = lex_cmp xs ys"
  by (induction p) auto

lemma unat_clear_low: "unat ((u :: 'a::len word) AND NOT (mask n)) = unat u div 2 ^ n * 2 ^ n"
proof -
  have "u AND NOT (mask n) = push_bit n (drop_bit n u)"
    by (rule bit_word_eqI) (auto simp: bit_simps)
  then have "unat (u AND NOT (mask n)) = take_bit LENGTH('a) (unat u div 2 ^ n * 2 ^ n)"
    by (simp only: unsigned_push_bit_eq unsigned_drop_bit_eq push_bit_eq_mult [where 'a = nat]
        drop_bit_eq_div [where 'a = nat] take_bit_nat_eq_self [OF unsigned_less])
  moreover have "unat u div 2 ^ n * 2 ^ n < 2 ^ LENGTH('a)"
    using unsigned_less [of u] by (meson div_times_less_eq_dividend order_le_less_trans)
  ultimately show ?thesis by (simp add: take_bit_nat_eq_self)
qed

lemma surrogate_masks:
  "(u :: unit16) AND 0xf800 = 0xd800 \<longleftrightarrow> is_high u \<or> is_low u"
  "(u :: unit16) AND 0xfc00 = 0xd800 \<longleftrightarrow> is_high u"
  "(u :: unit16) AND 0xfc00 = 0xdc00 \<longleftrightarrow> is_low u"
proof -
  have "(0xf800 :: unit16) = NOT (mask 11)" "(0xfc00 :: unit16) = NOT (mask 10)"
    by (simp_all add: mask_eq_exp_minus_1)
  then have m: "unat (u AND 0xf800) = unat u div 2 ^ 11 * 2 ^ 11" "unat (u AND 0xfc00) = unat u div 2 ^ 10 * 2 ^ 10"
    by (simp_all only: unat_clear_low)
  have div: "n div k * k = q * k \<longleftrightarrow> q * k \<le> n \<and> n < Suc q * k" if "0 < k" for n k q :: nat
  proof -
    have "n div k * k = q * k \<longleftrightarrow> q \<le> n div k \<and> n div k < Suc q" using that by auto
    then show ?thesis using that by (simp only: less_eq_div_iff_mult_less_eq div_less_iff_less_mult)
  qed
  have D: "n div 2 ^ 11 * 2 ^ 11 = 55296 \<longleftrightarrow> 55296 \<le> n \<and> n < 57344"
      "n div 2 ^ 10 * 2 ^ 10 = 55296 \<longleftrightarrow> 55296 \<le> n \<and> n < 56320"
      "n div 2 ^ 10 * 2 ^ 10 = 56320 \<longleftrightarrow> 56320 \<le> n \<and> n < 57344" for n :: nat
    using div [of "2 ^ 11" n 27] div [of "2 ^ 10" n 54] div [of "2 ^ 10" n 55] by simp_all
  show "(u :: unit16) AND 0xf800 = 0xd800 \<longleftrightarrow> is_high u \<or> is_low u"
    unfolding word_unat_eq_iff m high_unat low_unat by (auto simp: D)
  show "(u :: unit16) AND 0xfc00 = 0xd800 \<longleftrightarrow> is_high u"
    unfolding word_unat_eq_iff m high_unat by (auto simp: D)
  show "(u :: unit16) AND 0xfc00 = 0xdc00 \<longleftrightarrow> is_low u"
    unfolding word_unat_eq_iff m low_unat by (auto simp: D)
qed

definition point_width :: "nat \<Rightarrow> nat" where
  "point_width c = (if 0x10000 \<le> c then 2 else 1)"

lemma pointAt_code_points:
  assumes "i < length s"
  shows "code_points (drop i s) = pointAt s i # code_points (drop (i + point_width (pointAt s i)) s)"
proof -
  let ?u = "s ! i"
  have d: "drop i s = ?u # drop (Suc i) s" using assms by (simp add: Cons_nth_drop_Suc)
  have at: "charCodeAt s i = Some ?u" using assms by (simp add: charCodeAt_def)
  show ?thesis
  proof (cases "is_high ?u")
    case True
    show ?thesis
    proof (cases "Suc i < length s \<and> is_low (s ! Suc i)")
      case low: True
      then have d2: "drop (Suc i) s = s ! Suc i # drop (Suc (Suc i)) s" by (simp add: Cons_nth_drop_Suc)
      have "pointAt s i = pair_point ?u (s ! Suc i)"
        using True low by (simp add: pointAt_def at charCodeAt_def masked_def surrogate_masks pair_point_def Let_def)
      moreover have "point_width (pair_point ?u (s ! Suc i)) = 2" by (simp add: point_width_def pair_point_def)
      ultimately show ?thesis using True low by (simp add: d d2 code_points_cases(1))
    next
      case no: False
      have "pointAt s i = REPLACEMENT" using True no assms
        by (auto simp: pointAt_def at charCodeAt_def masked_def surrogate_masks Let_def)
      moreover have "code_points (?u # drop (Suc i) s) = 0xfffd # code_points (drop (Suc i) s)"
        using True no by (intro code_points_cases(2)) (auto simp: drop_eq_Nil nth_via_drop dest: nth_via_drop)
      ultimately show ?thesis by (simp add: d point_width_def REPLACEMENT_def)
    qed
  next
    case False
    show ?thesis
    proof (cases "is_low ?u")
      case True
      then show ?thesis using False
        by (simp add: d code_points_cases pointAt_def at masked_def surrogate_masks REPLACEMENT_def Let_def point_width_def)
    next
      case no: False
      then have "pointAt s i = unat ?u" using False by (simp add: pointAt_def at masked_def surrogate_masks Let_def)
      moreover have "\<not> 0x10000 \<le> unat ?u" by (simp add: not_le)
      ultimately show ?thesis using False no by (simp add: d code_points_cases point_width_def)
    qed
  qed
qed

lemma pointAt_plain: "i < length s \<Longrightarrow> (s ! i) AND 0xf800 \<noteq> 0xd800 \<Longrightarrow> pointAt s i = unat (s ! i)"
  by (simp add: pointAt_def charCodeAt_def masked_def)

lemma compare_loop_points:
  "compare_loop l r i j = lex_cmp (code_points (drop i l)) (code_points (drop j r))"
proof (induction l r i j rule: compare_loop.induct)
  case (1 l r i j)
  show ?case
  proof (cases "i < length l \<and> j < length r")
    case True
    note points = pointAt_code_points [of i l] pointAt_code_points [of j r]
    show ?thesis
    proof (cases "l ! i = r ! j \<and> (l ! i) AND 0xf800 \<noteq> 0xd800")
      case same: True
      then have "pointAt l i = unat (l ! i)" "pointAt r j = unat (l ! i)"
        using True pointAt_plain [of i l] pointAt_plain [of j r] by auto
      moreover have "point_width (unat (l ! i)) = 1"
        by (simp add: point_width_def not_le)
      moreover have "compare_loop l r i j = compare_loop l r (i + 1) (j + 1)"
        by (subst compare_loop.simps) (simp only: True same [THEN conjunct1] same [THEN conjunct2, unfolded same [THEN conjunct1]] not_False_eq_True simp_thms if_True)
      ultimately show ?thesis using 1(1) [OF True same] True points by simp
    next
      case False
      show ?thesis
      proof (cases "pointAt l i = pointAt r j")
        case eq: True
        have "compare_loop l r i j
            = compare_loop l r (i + point_width (pointAt l i)) (j + point_width (pointAt l i))"
          using True False eq by (auto simp: compare_loop.simps [of l r i j] point_width_def Let_def)
        also have "\<dots> = lex_cmp (code_points (drop (i + point_width (pointAt l i)) l))
             (code_points (drop (j + point_width (pointAt l i)) r))"
          using 1(2) [OF True False refl refl _ refl] eq by (simp add: point_width_def)
        finally show ?thesis using True eq points by simp
      next
        case ne: False
        then show ?thesis using True False points
          by (auto simp: compare_loop.simps [of l r i j] Let_def)
      qed
    qed
  next
    case False
    have "code_points (drop i l) \<noteq> []" if "i < length l" for i l using pointAt_code_points [OF that] by simp
    then show ?thesis using False
      by (cases "i < length l"; cases "j < length r")
        (auto simp: compare_loop.simps [of l r i j] pointAt_code_points)
  qed
qed

lemma comparePaths_points: "comparePaths l r = lex_cmp (code_points l) (code_points r)"
  by (simp add: comparePaths_def compare_loop_points)

subsection \<open>Code point order is UTF-8 byte order\<close>

lemma word_of_nat_less_byte: "m < n \<Longrightarrow> n < 256 \<Longrightarrow> (word_of_nat m :: byte) < word_of_nat n"
  by (simp add: word_less_nat_alt)

lemma lex_cmp_less_hd: "m < n \<Longrightarrow> n < 256 \<Longrightarrow> lex_cmp (word_of_nat m # xs) ((word_of_nat n :: byte) # ys) = -1"
  by (simp add: word_of_nat_less_byte)

lemma lex_cmp_same_hd [simp]: "lex_cmp (x # xs) (x # ys) = lex_cmp xs ys"
  by simp

text \<open>Base-64 numerals compare by their most significant differing digit.\<close>

lemma base64_less:
  "r' < 64 \<Longrightarrow> (x :: nat) * 64 + r < x' * 64 + r' \<longleftrightarrow> x < x' \<or> (x = x' \<and> r < r')" if "r < 64"
  using that by linarith

lemma lex_cmp_bytes: "lex_cmp (x # xs) (y # ys)
    = (if unat (x :: byte) < unat y then -1 else if unat y < unat x then 1 else lex_cmp xs ys)"
  by (simp add: word_less_nat_alt)

lemma encode_point_mono:
  assumes "a < b" and "b < 0x110000"
  shows "lex_cmp (encode_point a @ x) (encode_point b @ y) = -1"
proof -
  have a: "a < 0x110000" using assms by simp
  from assms(2) show ?thesis
  proof (cases rule: encode_point_cases)
    case b: One
    then have "encode_point a = [word_of_nat a]" using assms(1) by (simp add: encode_point_def)
    then show ?thesis using b assms(1) by (simp add: lex_cmp_bytes del: lex_cmp.simps)
  next
    case b: (Two q r)
    from a show ?thesis
    proof (cases rule: encode_point_cases)
      case One
      then show ?thesis using b encode_point_2 [of q r]
        by (simp add: lex_cmp_bytes unat_lead_bytes del: lex_cmp.simps of_nat_add)
    next
      case (Two q' r')
      then show ?thesis using b assms(1) encode_point_2 [of q r] encode_point_2 [of q' r']
        by (auto simp: lex_cmp_bytes unat_lead_bytes base64_less simp del: lex_cmp.simps of_nat_add)
    qed (use b assms(1) in auto)
  next
    case b: (Three q m r)
    from a show ?thesis
    proof (cases rule: encode_point_cases)
      case One
      then show ?thesis using b encode_point_3 [of q m r]
        by (simp add: lex_cmp_bytes unat_lead_bytes del: lex_cmp.simps of_nat_add)
    next
      case (Two q' r')
      then show ?thesis using b encode_point_3 [of q m r] encode_point_2 [of q' r']
        by (simp add: lex_cmp_bytes unat_lead_bytes del: lex_cmp.simps of_nat_add)
    next
      case (Three q' m' r')
      then show ?thesis using b assms(1) encode_point_3 [of q m r] encode_point_3 [of q' m' r']
        by (auto simp: lex_cmp_bytes unat_lead_bytes base64_less simp del: lex_cmp.simps of_nat_add)
    qed (use b assms(1) in auto)
  next
    case b: (Four q m n r)
    from a show ?thesis
    proof (cases rule: encode_point_cases)
      case One
      then show ?thesis using b encode_point_4 [of m n r q]
        by (simp add: lex_cmp_bytes unat_lead_bytes del: lex_cmp.simps of_nat_add)
    next
      case (Two q' r')
      then show ?thesis using b encode_point_4 [of m n r q] encode_point_2 [of q' r']
        by (simp add: lex_cmp_bytes unat_lead_bytes del: lex_cmp.simps of_nat_add)
    next
      case (Three q' m' r')
      then show ?thesis using b encode_point_4 [of m n r q] encode_point_3 [of q' m' r']
        by (simp add: lex_cmp_bytes unat_lead_bytes del: lex_cmp.simps of_nat_add)
    next
      case (Four q' m' n' r')
      then show ?thesis using b assms(1) encode_point_4 [of m n r q] encode_point_4 [of m' n' r' q']
        by (auto simp: lex_cmp_bytes unat_lead_bytes base64_less simp del: lex_cmp.simps of_nat_add)
    qed
  qed
qed

lemma lex_cmp_encode:
  assumes "\<forall>c \<in> set xs. scalar c" and "\<forall>c \<in> set ys. scalar c"
  shows "lex_cmp (concat (map encode_point xs)) (concat (map encode_point ys)) = lex_cmp xs ys"
  using assms
proof (induction xs ys rule: lex_cmp.induct)
  case (2 y ys)
  have "encode_point y \<noteq> []" by (simp add: encode_point_def)
  then show ?case by (cases "encode_point y") auto
next
  case (3 x xs)
  have "encode_point x \<noteq> []" by (simp add: encode_point_def)
  then show ?case by (cases "encode_point x") auto
next
  case (4 x xs y ys)
  have lt: "x < 0x110000" "y < 0x110000" using 4(2,3) by (auto simp: scalar_def)
  consider "x < y" | "y < x" | "x = y" by linarith
  then show ?case
  proof cases
    case 1
    then show ?thesis using encode_point_mono lt by simp
  next
    case 2
    have "lex_cmp (encode_point y @ concat (map encode_point ys)) (encode_point x @ concat (map encode_point xs)) = -1"
      using 2 lt by (intro encode_point_mono)
    then show ?thesis using 2 lex_cmp_swap [of "encode_point y @ concat (map encode_point ys)"] by simp
  next
    case 3
    then show ?thesis using 4 by simp
  qed
qed simp

lemma comparePaths_utf8_order: "comparePaths l r = lex_cmp (utf8_encode l) (utf8_encode r)"
  by (simp add: comparePaths_points utf8_encode_def lex_cmp_encode code_points_scalar)

lemma comparePaths_swap: "comparePaths r l = - comparePaths l r"
  unfolding comparePaths_points by (rule lex_cmp_swap)

lemma comparePaths_refl [simp]: "comparePaths s s = 0"
  by (simp add: comparePaths_points)

lemma comparePaths_trans: "comparePaths a b < 0 \<Longrightarrow> comparePaths b c < 0 \<Longrightarrow> comparePaths a c < 0"
  by (auto simp: comparePaths_points intro: lex_cmp_trans)

lemma lex_cmp_trans_le: "lex_cmp a b \<le> 0 \<Longrightarrow> lex_cmp b c \<le> 0 \<Longrightarrow> lex_cmp a c \<le> 0"
  by (metis lex_cmp_eq_0 lex_cmp_trans order_le_less)

lemma comparePaths_trans_le: "comparePaths a b \<le> 0 \<Longrightarrow> comparePaths b c \<le> 0 \<Longrightarrow> comparePaths a c \<le> 0"
  by (auto simp: comparePaths_points intro: lex_cmp_trans_le)

lemma comparePaths_eq_0: "well_formed a \<Longrightarrow> well_formed b \<Longrightarrow> comparePaths a b = 0 \<longleftrightarrow> a = b"
  by (auto simp: comparePaths_points) (metis points_units_inverse)

section \<open>Properties\<close>

text \<open>
  C4: \<open>comparePaths\<close>, which reads UTF-16 code units and encodes nothing, orders two strings exactly as their
  UTF-8 encodings are ordered byte by byte; it is antisymmetric and transitive.
\<close>

theorem comparePaths_utf8:
  "comparePaths l r = lex_cmp (utf8_encode l) (utf8_encode r) \<and> comparePaths r l = - comparePaths l r
   \<and> (comparePaths l r \<le> 0 \<and> comparePaths r t \<le> 0 \<longrightarrow> comparePaths l t \<le> 0)"
  using comparePaths_utf8_order comparePaths_swap comparePaths_trans_le by blast

theorem comparePaths_utf8_witness: "comparePaths [0x61] [0x61] \<le> 0 \<and> comparePaths [0x61] [] = - comparePaths [] [0x61]"
  using comparePaths_utf8 [of "[0x61]" "[0x61]" "[0x61]"] comparePaths_utf8 [of "[]" "[0x61]" "[]"] by simp

end
