(* ===== verification/Joins.thy ===== *)
theory Joins
  imports Streams
begin

text \<open>
  \<open>packages/git/src/common/streams.ts\<close>, lines 58-242: the one-item lookahead \<open>peekable\<close> and
  the merges \<open>joinSorted\<close> and \<open>joinSorted3\<close> of path-sorted streams.

  The merges see their sources only through the lookahead interface; the locale
  \<open>lookahead\<close> states its laws, \<open>peekable\<close> is interpreted in it, and the merges are shown to
  compute a merge of the sources' remaining items. A source is the list of the items it still
  yields; a generator run to its end is the list of its rows.
\<close>

section \<open>The lookahead interface\<close>

locale lookahead =
  fixes peek_op :: "'s \<Rightarrow> 'a option \<times> 's"
    and next_op :: "'s \<Rightarrow> 'a option \<times> 's"
    and items :: "'s \<Rightarrow> 'a list"
    and invar :: "'s \<Rightarrow> bool"
  assumes peek_fst: "invar s \<Longrightarrow> fst (peek_op s) = (case items s of [] \<Rightarrow> None | x # _ \<Rightarrow> Some x)"
    and peek_items: "invar s \<Longrightarrow> items (snd (peek_op s)) = items s"
    and peek_invar: "invar s \<Longrightarrow> invar (snd (peek_op s))"
    and next_fst: "invar s \<Longrightarrow> fst (next_op s) = (case items s of [] \<Rightarrow> None | x # _ \<Rightarrow> Some x)"
    and next_items: "invar s \<Longrightarrow> items (snd (next_op s)) = tl (items s)"
    and next_invar: "invar s \<Longrightarrow> invar (snd (next_op s))"
begin

text \<open>Looking ahead and then taking: the item seen is the item taken.\<close>

lemma peek_then_next:
  assumes "invar s" and "peek_op s = (Some x, s')"
  shows "items s = x # items (snd (next_op s'))" and "fst (next_op s') = Some x" and "invar s'"
    and "invar (snd (next_op s'))"
proof -
  have i: "items s' = items s" "invar s'" using peek_items peek_invar assms by fastforce+
  obtain xs where xs: "items s = x # xs" using peek_fst [OF assms(1)] assms(2) by (cases "items s") auto
  show "items s = x # items (snd (next_op s'))" using next_items [OF i(2)] i xs by simp
  show "fst (next_op s') = Some x" using next_fst [OF i(2)] i xs by simp
  show "invar s'" by (rule i(2))
  show "invar (snd (next_op s'))" by (rule next_invar [OF i(2)])
qed

lemma peek_None:
  assumes "invar s" and "peek_op s = (None, s')"
  shows "items s = []" and "items s' = []" and "invar s'"
proof -
  show e: "items s = []" using peek_fst [OF assms(1)] assms(2) by (cases "items s") auto
  show "items s' = []" using peek_items [OF assms(1)] assms(2) e by simp
  show "invar s'" using peek_invar [OF assms(1)] assms(2) by simp
qed

lemma peek_Some:
  assumes "invar s" and "peek_op s = (Some x, s')"
  shows "items s' = items s" and "invar s'" and "\<exists>xs. items s = x # xs"
  using peek_items [OF assms(1)] peek_invar [OF assms(1)] peek_then_next(1) [OF assms] assms(2) by auto

end

section \<open>peekable\<close>

record 'a peekable =
  source :: "'a list"
  ahead :: "'a option"
  buffered :: bool
  drained :: bool
  closed :: bool

definition peekable_of :: "'a list \<Rightarrow> 'a peekable" where
  "peekable_of xs = \<lparr>source = xs, ahead = None, buffered = False, drained = False, closed = False\<rparr>"

definition fill :: "'a peekable \<Rightarrow> 'a peekable" where
  "fill p =
     (if buffered p \<or> drained p then p
      else case source p of
        [] \<Rightarrow> p\<lparr>drained := True\<rparr>
      | x # xs \<Rightarrow> p\<lparr>source := xs, ahead := Some x, buffered := True\<rparr>)"

definition peek :: "'a peekable \<Rightarrow> 'a option \<times> 'a peekable" where
  "peek p = (let p' = fill p in (if buffered p' then ahead p' else None, p'))"

definition next_item :: "'a peekable \<Rightarrow> 'a option \<times> 'a peekable" where
  "next_item p =
     (let p' = fill p in
      if \<not> buffered p' then (None, p')
      else (ahead p', p'\<lparr>ahead := None, buffered := False\<rparr>))"

definition close :: "'a peekable \<Rightarrow> 'a peekable" where
  "close p = (if closed p then p
              else p\<lparr>closed := True, drained := True, buffered := False, ahead := None\<rparr>)"

text \<open>The items still to come, and when the buffer is consistent.\<close>

definition remaining :: "'a peekable \<Rightarrow> 'a list" where
  "remaining p = (if buffered p then [the (ahead p)] else []) @ (if drained p then [] else source p)"

definition peek_ok :: "'a peekable \<Rightarrow> bool" where
  "peek_ok p \<longleftrightarrow> (buffered p \<longrightarrow> ahead p \<noteq> None) \<and> (buffered p \<longrightarrow> \<not> drained p)"

lemma fill_remaining: "peek_ok p \<Longrightarrow> remaining (fill p) = remaining p"
  by (auto simp: fill_def remaining_def split: list.splits)

lemma fill_ok: "peek_ok p \<Longrightarrow> peek_ok (fill p)"
  by (auto simp: fill_def peek_ok_def split: list.splits)

interpretation pk: lookahead peek next_item remaining peek_ok
proof (unfold_locales, goal_cases)
  case (1 s)
  then show ?case
    by (auto simp: peek_def Let_def fill_def remaining_def peek_ok_def split: list.splits)
next
  case (2 s)
  then show ?case by (simp add: peek_def Let_def fill_remaining)
next
  case (3 s)
  then show ?case by (simp add: peek_def Let_def fill_ok)
next
  case (4 s)
  then show ?case
    by (auto simp: next_item_def Let_def fill_def remaining_def peek_ok_def split: list.splits)
next
  case (5 s)
  then show ?case
    by (auto simp: next_item_def Let_def fill_def remaining_def peek_ok_def split: list.splits)
next
  case (6 s)
  then show ?case
    by (auto simp: next_item_def Let_def fill_def peek_ok_def split: list.splits)
qed

lemma remaining_peekable_of [simp]: "remaining (peekable_of xs) = xs" "peek_ok (peekable_of xs)"
  by (simp_all add: remaining_def peekable_of_def peek_ok_def)

lemma close_remaining: "closed p \<longrightarrow> drained p \<and> \<not> buffered p \<Longrightarrow> remaining (close p) = []"
  by (auto simp: close_def remaining_def)

text \<open>A count of what a lookahead may still deliver, for termination.\<close>

definition pending :: "'a peekable \<Rightarrow> nat" where
  "pending p = (if buffered p then 1 else 0) + (if drained p then 0 else length (source p))"

lemma peek_pending: "peek p = (v, p') \<Longrightarrow> pending p' \<le> pending p"
  by (auto simp: peek_def Let_def fill_def pending_def split: list.splits if_splits)

lemma next_pending:
  "peek p = (Some x, p') \<Longrightarrow> pending (snd (next_item p')) < pending p"
  by (auto simp: peek_def next_item_def Let_def fill_def pending_def split: list.splits if_splits)

section \<open>joinSorted\<close>

datatype ('l, 'r) joinedRow = JoinedRow (row_path: jstring) (row_left: "'l option") (row_right: "'r option")

function join_loop ::
  "('l \<Rightarrow> jstring) \<Rightarrow> ('r \<Rightarrow> jstring) \<Rightarrow> 'l peekable \<Rightarrow> 'r peekable \<Rightarrow> ('l, 'r) joinedRow list" where
  "join_loop kl kr L R =
     (case (peek L, peek R) of
        ((None, L1), (None, R1)) \<Rightarrow> []
      | ((None, L1), (Some r, R1)) \<Rightarrow>
          JoinedRow (kr r) None (Some r) # join_loop kl kr L1 (snd (next_item R1))
      | ((Some l, L1), (None, R1)) \<Rightarrow>
          JoinedRow (kl l) (Some l) None # join_loop kl kr (snd (next_item L1)) R1
      | ((Some l, L1), (Some r, R1)) \<Rightarrow>
          (let order = comparePaths (kl l) (kr r) in
           JoinedRow (if order \<le> 0 then kl l else kr r)
             (if order \<le> 0 then Some l else None) (if order \<ge> 0 then Some r else None)
           # join_loop kl kr
               (if order \<le> 0 then snd (next_item L1) else L1)
               (if order \<ge> 0 then snd (next_item R1) else R1)))"
  by pat_completeness auto
termination
proof (relation "measure (\<lambda>(kl, kr, L, R). pending L + pending R)", goal_cases)
  case (2 kl kr L R lv rv a L1 b R1 r)
  then have "peek L = (None, L1)" "peek R = (Some r, R1)" by auto
  then show ?case using next_pending [of R] peek_pending [of L] by fastforce
next
  case (3 kl kr L R lv rv a L1 l b R1)
  then have "peek L = (Some l, L1)" "peek R = (None, R1)" by auto
  then show ?case using next_pending [of L] peek_pending [of R] by fastforce
next
  case (4 kl kr L R lv rv a L1 l b R1 r order)
  then have "peek L = (Some l, L1)" "peek R = (Some r, R1)" by auto
  then have "pending L1 \<le> pending L" "pending R1 \<le> pending R"
    "pending (snd (next_item L1)) < pending L" "pending (snd (next_item R1)) < pending R"
    using next_pending [of L l L1] next_pending [of R r R1] peek_pending [of L] peek_pending [of R] by auto
  then show ?case by auto
qed auto

declare join_loop.simps [simp del]

definition joinSorted ::
  "('l \<Rightarrow> jstring) \<Rightarrow> ('r \<Rightarrow> jstring) \<Rightarrow> 'l list \<Rightarrow> 'r list \<Rightarrow> ('l, 'r) joinedRow list" where
  "joinSorted kl kr left right = join_loop kl kr (peekable_of left) (peekable_of right)"

subsection \<open>What it computes\<close>

text \<open>The merge of two lists by the path order.\<close>

fun join_lists :: "('l \<Rightarrow> jstring) \<Rightarrow> ('r \<Rightarrow> jstring) \<Rightarrow> 'l list \<Rightarrow> 'r list \<Rightarrow> ('l, 'r) joinedRow list" where
  "join_lists kl kr [] [] = []"
| "join_lists kl kr [] (r # rs) = JoinedRow (kr r) None (Some r) # join_lists kl kr [] rs"
| "join_lists kl kr (l # ls) [] = JoinedRow (kl l) (Some l) None # join_lists kl kr ls []"
| "join_lists kl kr (l # ls) (r # rs) =
     (if comparePaths (kl l) (kr r) < 0 then JoinedRow (kl l) (Some l) None # join_lists kl kr ls (r # rs)
      else if comparePaths (kl l) (kr r) > 0 then JoinedRow (kr r) None (Some r) # join_lists kl kr (l # ls) rs
      else JoinedRow (kl l) (Some l) (Some r) # join_lists kl kr ls rs)"

lemma join_loop_lists:
  "peek_ok L \<Longrightarrow> peek_ok R \<Longrightarrow> join_loop kl kr L R = join_lists kl kr (remaining L) (remaining R)"
proof (induction kl kr L R rule: join_loop.induct)
  case (1 kl kr L R)
  obtain lv L1 rv R1 where P: "peek L = (lv, L1)" "peek R = (rv, R1)" by fastforce
  show ?case
  proof (cases lv)
    case None
    note L = pk.peek_None [OF 1(4) P(1) [unfolded None]]
    show ?thesis
    proof (cases rv)
      case rn: None
      then show ?thesis using L pk.peek_None [OF 1(5)] P None by (simp add: join_loop.simps [of kl kr L R])
    next
      case (Some r)
      note R = pk.peek_then_next [OF 1(5) P(2) [unfolded Some]]
      have "join_loop kl kr L1 (snd (next_item R1)) = join_lists kl kr (remaining L1) (remaining (snd (next_item R1)))"
        using 1(1) P None Some L R by simp
      then show ?thesis using P None Some L R by (simp add: join_loop.simps [of kl kr L R])
    qed
  next
    case l: (Some l)
    note L = pk.peek_then_next [OF 1(4) P(1) [unfolded l]] and Lp = pk.peek_Some [OF 1(4) P(1) [unfolded l]]
    show ?thesis
    proof (cases rv)
      case rn: None
      note R = pk.peek_None [OF 1(5) P(2) [unfolded rn]]
      have "join_loop kl kr (snd (next_item L1)) R1 = join_lists kl kr (remaining (snd (next_item L1))) (remaining R1)"
        using 1(2) P l rn L R by simp
      then show ?thesis using P l rn L R by (simp add: join_loop.simps [of kl kr L R])
    next
      case r: (Some r)
      note R = pk.peek_then_next [OF 1(5) P(2) [unfolded r]] and Rp = pk.peek_Some [OF 1(5) P(2) [unfolded r]]
      let ?o = "comparePaths (kl l) (kr r)"
      let ?L = "if ?o \<le> 0 then snd (next_item L1) else L1" and ?R = "if ?o \<ge> 0 then snd (next_item R1) else R1"
      have IH: "join_loop kl kr ?L ?R = join_lists kl kr (remaining ?L) (remaining ?R)"
        using 1(3) [OF _ P(1) [symmetric] l P(2) [symmetric] r refl] L R P l r by auto
      have "join_loop kl kr L R = JoinedRow (if ?o \<le> 0 then kl l else kr r)
          (if ?o \<le> 0 then Some l else None) (if ?o \<ge> 0 then Some r else None) # join_loop kl kr ?L ?R"
        using P l r by (subst join_loop.simps) (simp add: Let_def)
      then show ?thesis using IH L(1) R(1) Lp(1) Rp(1) by auto
    qed
  qed
qed

lemma joinSorted_lists: "joinSorted kl kr left right = join_lists kl kr left right"
  by (simp add: joinSorted_def join_loop_lists)

text \<open>A list of keys in ascending path order.\<close>

definition path_sorted :: "jstring list \<Rightarrow> bool" where
  "path_sorted ps = sorted_wrt (\<lambda>a b. comparePaths a b \<le> 0) ps"

lemma join_lists_left: "List.map_filter row_left (join_lists kl kr ls rs) = ls"
  by (induction kl kr ls rs rule: join_lists.induct) auto

lemma join_lists_right: "List.map_filter row_right (join_lists kl kr ls rs) = rs"
  by (induction kl kr ls rs rule: join_lists.induct) auto

lemma join_lists_keys:
  "row \<in> set (join_lists kl kr ls rs) \<Longrightarrow>
     (\<forall>l. row_left row = Some l \<longrightarrow> row_path row = kl l) \<and>
     (\<forall>r. row_right row = Some r \<longrightarrow> comparePaths (row_path row) (kr r) = 0) \<and>
     (row_left row \<noteq> None \<or> row_right row \<noteq> None)"
  by (induction kl kr ls rs rule: join_lists.induct) (auto split: if_splits)

lemma join_lists_paths:
  "row \<in> set (join_lists kl kr ls rs) \<Longrightarrow>
     (\<exists>l \<in> set ls. row_path row = kl l) \<or> (\<exists>r \<in> set rs. row_path row = kr r)"
  by (induction kl kr ls rs rule: join_lists.induct) (auto split: if_splits)

lemma path_sorted_Cons: "path_sorted (p # ps) \<longleftrightarrow> (\<forall>q \<in> set ps. comparePaths p q \<le> 0) \<and> path_sorted ps"
  by (simp add: path_sorted_def)

lemma comparePaths_neg_swap: "comparePaths a b > 0 \<longleftrightarrow> comparePaths b a < 0"
  using comparePaths_swap [of a b] by simp

lemma join_lists_sorted:
  "path_sorted (map kl ls) \<Longrightarrow> path_sorted (map kr rs) \<Longrightarrow> path_sorted (map row_path (join_lists kl kr ls rs))"
proof (induction kl kr ls rs rule: join_lists.induct)
  case (2 kl kr r rs)
  then show ?case using join_lists_paths [of _ kl kr "[]" rs] by (fastforce simp: path_sorted_Cons)
next
  case (3 kl kr l ls)
  then show ?case using join_lists_paths [of _ kl kr ls "[]"] by (fastforce simp: path_sorted_Cons)
next
  case (4 kl kr l ls r rs)
  let ?o = "comparePaths (kl l) (kr r)"
  have lr: "\<forall>r' \<in> set (r # rs). comparePaths (kl l) (kr r') \<le> 0" if "?o \<le> 0"
    using that 4(5) comparePaths_trans_le [OF that] by (auto simp: path_sorted_Cons)
  have rl: "\<forall>l' \<in> set (l # ls). comparePaths (kr r) (kl l') \<le> 0" if "?o \<ge> 0"
  proof -
    have o: "comparePaths (kr r) (kl l) \<le> 0" using that comparePaths_swap [of "kl l" "kr r"] by simp
    show ?thesis using o 4(4) comparePaths_trans_le [OF o] by (auto simp: path_sorted_Cons)
  qed
  consider "?o < 0" | "?o > 0" | "?o = 0" by linarith
  then show ?case
  proof cases
    case 1
    then show ?thesis using 4 lr join_lists_paths [of _ kl kr ls "r # rs"]
      by (fastforce simp: path_sorted_Cons)
  next
    case 2
    then show ?thesis using 4 rl join_lists_paths [of _ kl kr "l # ls" rs]
      by (fastforce simp: path_sorted_Cons)
  next
    case 3
    then show ?thesis using 4 lr join_lists_paths [of _ kl kr ls rs]
      by (fastforce simp: path_sorted_Cons)
  qed
qed (simp add: path_sorted_def)

text \<open>With strictly ascending keys on both sides every path is one row.\<close>

definition path_strict :: "jstring list \<Rightarrow> bool" where
  "path_strict ps = sorted_wrt (\<lambda>a b. comparePaths a b < 0) ps"

lemma path_strict_Cons: "path_strict (p # ps) \<longleftrightarrow> (\<forall>q \<in> set ps. comparePaths p q < 0) \<and> path_strict ps"
  by (simp add: path_strict_def)

lemma comparePaths_le_less_trans: "comparePaths a b \<le> 0 \<Longrightarrow> comparePaths b c < 0 \<Longrightarrow> comparePaths a c < 0"
  by (metis comparePaths_points lex_cmp_eq_0 lex_cmp_trans order_le_less)

lemma join_lists_strict:
  "path_strict (map kl ls) \<Longrightarrow> path_strict (map kr rs) \<Longrightarrow> path_strict (map row_path (join_lists kl kr ls rs))"
proof (induction kl kr ls rs rule: join_lists.induct)
  case (2 kl kr r rs)
  then show ?case using join_lists_paths [of _ kl kr "[]" rs] by (fastforce simp: path_strict_Cons)
next
  case (3 kl kr l ls)
  then show ?case using join_lists_paths [of _ kl kr ls "[]"] by (fastforce simp: path_strict_Cons)
next
  case (4 kl kr l ls r rs)
  let ?o = "comparePaths (kl l) (kr r)"
  have lr: "\<forall>r' \<in> set rs. comparePaths (kl l) (kr r') < 0" if "?o \<le> 0"
    using 4(5) comparePaths_le_less_trans [OF that] by (auto simp: path_strict_Cons)
  have rl: "\<forall>l' \<in> set ls. comparePaths (kr r) (kl l') < 0" if "?o \<ge> 0"
  proof -
    have "comparePaths (kr r) (kl l) \<le> 0" using that comparePaths_swap [of "kl l" "kr r"] by simp
    then show ?thesis using 4(4) comparePaths_le_less_trans by (auto simp: path_strict_Cons)
  qed
  consider "?o < 0" | "?o > 0" | "?o = 0" by linarith
  then show ?case
  proof cases
    case 1
    then show ?thesis using 4 lr join_lists_paths [of _ kl kr ls "r # rs"]
      by (fastforce simp: path_strict_Cons)
  next
    case 2
    then have "comparePaths (kr r) (kl l) < 0" by (simp only: comparePaths_neg_swap)
    then show ?thesis using 2 4 rl join_lists_paths [of _ kl kr "l # ls" rs]
      by (fastforce simp: path_strict_Cons)
  next
    case 3
    then show ?thesis using 4 lr join_lists_paths [of _ kl kr ls rs]
      by (fastforce simp: path_strict_Cons)
  qed
qed (simp add: path_strict_def)

section \<open>joinSorted3\<close>

datatype ('a, 'b, 'c) joinedRow3 =
  JoinedRow3 (row3_path: jstring) (row_a: "'a option") (row_b: "'b option") (row_c: "'c option")

definition lower_to :: "jstring option \<Rightarrow> jstring \<Rightarrow> jstring" where
  "lower_to key path = (case key of Some k \<Rightarrow> if comparePaths k path < 0 then k else path | None \<Rightarrow> path)"

definition least_path :: "jstring option \<Rightarrow> jstring option \<Rightarrow> jstring option \<Rightarrow> jstring" where
  "least_path keyA keyB keyC =
     (let path = (case keyA of Some k \<Rightarrow> k | None \<Rightarrow>
                   case keyB of Some k \<Rightarrow> k | None \<Rightarrow>
                   case keyC of Some k \<Rightarrow> k | None \<Rightarrow> []);
          path = lower_to keyB path;
          path = lower_to keyC path
      in path)"

lemma least_path_member:
  "keyA \<noteq> None \<or> keyB \<noteq> None \<or> keyC \<noteq> None \<Longrightarrow>
     keyA = Some (least_path keyA keyB keyC) \<or> keyB = Some (least_path keyA keyB keyC) \<or>
     keyC = Some (least_path keyA keyB keyC)"
  by (auto simp: least_path_def lower_to_def Let_def split: option.splits)

definition take_head :: "bool \<Rightarrow> 'a peekable \<Rightarrow> 'a peekable" where
  "take_head t p = (if t then snd (next_item p) else p)"

lemma take_head_pending:
  assumes "t \<longrightarrow> fst (peek p) \<noteq> None"
  shows "pending (take_head t (snd (peek p))) + (if t then 1 else 0) \<le> pending p"
proof (cases "peek p")
  case (Pair v p')
  then show ?thesis using assms next_pending [of p _ p'] peek_pending [of p v p']
    by (cases v) (auto simp: take_head_def Suc_le_eq)
qed

function join3_loop ::
  "('a \<Rightarrow> jstring) \<Rightarrow> ('b \<Rightarrow> jstring) \<Rightarrow> ('c \<Rightarrow> jstring) \<Rightarrow> 'a peekable \<Rightarrow> 'b peekable \<Rightarrow> 'c peekable
     \<Rightarrow> ('a, 'b, 'c) joinedRow3 list" where
  "join3_loop ka kb kc A B C =
     (let headA = fst (peek A); A1 = snd (peek A);
          headB = fst (peek B); B1 = snd (peek B);
          headC = fst (peek C); C1 = snd (peek C)
      in if headA = None \<and> headB = None \<and> headC = None then []
         else
           (let keyA = map_option ka headA; keyB = map_option kb headB; keyC = map_option kc headC;
                path = least_path keyA keyB keyC;
                takeA = (keyA = Some path); takeB = (keyB = Some path); takeC = (keyC = Some path)
            in JoinedRow3 path (if takeA then headA else None) (if takeB then headB else None)
                 (if takeC then headC else None)
               # join3_loop ka kb kc (take_head takeA A1) (take_head takeB B1) (take_head takeC C1)))"
  by pat_completeness auto
termination
proof (relation "measure (\<lambda>(ka, kb, kc, A, B, C). pending A + pending B + pending C)", goal_cases)
  case (2 ka kb kc A B C headA A1 headB B1 headC C1 keyA keyB keyC path takeA takeB takeC)
  have some: "takeA \<longrightarrow> fst (peek A) \<noteq> None" "takeB \<longrightarrow> fst (peek B) \<noteq> None"
      "takeC \<longrightarrow> fst (peek C) \<noteq> None" using 2 by auto
  have "takeA \<or> takeB \<or> takeC" using least_path_member [of keyA keyB keyC] 2 by auto
  then have "pending (take_head takeA A1) + pending (take_head takeB B1) + pending (take_head takeC C1)
      < pending A + pending B + pending C"
    using take_head_pending [OF some(1)] take_head_pending [OF some(2)] take_head_pending [OF some(3)]
    unfolding 2(2,4,6) by (auto split: if_splits)
  then show ?case by simp
qed auto

declare join3_loop.simps [simp del]

definition joinSorted3 ::
  "('a \<Rightarrow> jstring) \<Rightarrow> ('b \<Rightarrow> jstring) \<Rightarrow> ('c \<Rightarrow> jstring) \<Rightarrow> 'a list \<Rightarrow> 'b list \<Rightarrow> 'c list
     \<Rightarrow> ('a, 'b, 'c) joinedRow3 list" where
  "joinSorted3 ka kb kc as bs cs = join3_loop ka kb kc (peekable_of as) (peekable_of bs) (peekable_of cs)"

subsection \<open>What it computes\<close>

definition head :: "'a list \<Rightarrow> 'a option" where
  "head xs = (case xs of [] \<Rightarrow> None | x # _ \<Rightarrow> Some x)"

lemma head_simps [simp]: "head [] = None" "head (x # xs) = Some x" "head xs = None \<longleftrightarrow> xs = []"
  by (simp_all add: head_def split: list.split)

definition drop_head :: "bool \<Rightarrow> 'a list \<Rightarrow> 'a list" where
  "drop_head t xs = (if t then tl xs else xs)"

lemma drop_head_length: "t \<longrightarrow> xs \<noteq> [] \<Longrightarrow> length (drop_head t xs) + (if t then 1 else 0) \<le> length xs"
  by (cases xs) (auto simp: drop_head_def)

function join3_lists ::
  "('a \<Rightarrow> jstring) \<Rightarrow> ('b \<Rightarrow> jstring) \<Rightarrow> ('c \<Rightarrow> jstring) \<Rightarrow> 'a list \<Rightarrow> 'b list \<Rightarrow> 'c list
     \<Rightarrow> ('a, 'b, 'c) joinedRow3 list" where
  "join3_lists ka kb kc as bs cs =
     (if as = [] \<and> bs = [] \<and> cs = [] then []
      else
        (let keyA = map_option ka (head as); keyB = map_option kb (head bs); keyC = map_option kc (head cs);
             path = least_path keyA keyB keyC;
             takeA = (keyA = Some path); takeB = (keyB = Some path); takeC = (keyC = Some path)
         in JoinedRow3 path (if takeA then head as else None) (if takeB then head bs else None)
              (if takeC then head cs else None)
            # join3_lists ka kb kc (drop_head takeA as) (drop_head takeB bs) (drop_head takeC cs)))"
  by pat_completeness auto
termination
proof (relation "measure (\<lambda>(ka, kb, kc, as, bs, cs). length as + length bs + length cs)", goal_cases)
  case (2 ka kb kc as bs cs keyA keyB keyC path takeA takeB takeC)
  have some: "takeA \<longrightarrow> as \<noteq> []" "takeB \<longrightarrow> bs \<noteq> []" "takeC \<longrightarrow> cs \<noteq> []"
    unfolding 2(2,3,4,6,7,8) by auto
  have "keyA \<noteq> None \<or> keyB \<noteq> None \<or> keyC \<noteq> None" using 2(1) unfolding 2(2,3,4) by simp
  from least_path_member [OF this] have "takeA \<or> takeB \<or> takeC" unfolding 2(6,7,8) 2(5) .
  then have "length (drop_head takeA as) + length (drop_head takeB bs) + length (drop_head takeC cs)
      < length as + length bs + length cs"
    using drop_head_length [OF some(1)] drop_head_length [OF some(2)] drop_head_length [OF some(3)]
    by (auto split: if_splits)
  then show ?case by simp
qed auto

declare join3_lists.simps [simp del]

lemma peek_head: "peek_ok p \<Longrightarrow> fst (peek p) = head (remaining p)"
  by (simp add: pk.peek_fst head_def)

lemma take_head_remaining:
  "peek_ok p \<Longrightarrow> remaining (take_head t (snd (peek p))) = drop_head t (remaining p)"
  "peek_ok p \<Longrightarrow> peek_ok (take_head t (snd (peek p)))"
  by (simp_all add: take_head_def drop_head_def pk.next_items pk.peek_items pk.peek_invar pk.next_invar)

lemma join3_loop_lists:
  "peek_ok A \<Longrightarrow> peek_ok B \<Longrightarrow> peek_ok C \<Longrightarrow>
     join3_loop ka kb kc A B C = join3_lists ka kb kc (remaining A) (remaining B) (remaining C)"
proof (induction ka kb kc A B C rule: join3_loop.induct)
  case (1 ka kb kc A B C)
  note heads = peek_head [OF 1(2)] peek_head [OF 1(3)] peek_head [OF 1(4)]
  note rests = take_head_remaining(1) [OF 1(2)] take_head_remaining(1) [OF 1(3)] take_head_remaining(1) [OF 1(4)]
  note oks = take_head_remaining(2) [OF 1(2)] take_head_remaining(2) [OF 1(3)] take_head_remaining(2) [OF 1(4)]
  show ?case
  proof (cases "remaining A = [] \<and> remaining B = [] \<and> remaining C = []")
    case True
    then show ?thesis by (simp add: join3_loop.simps [of ka kb kc A B C] join3_lists.simps heads)
  next
    case False
    let ?kA = "map_option ka (head (remaining A))" and ?kB = "map_option kb (head (remaining B))"
      and ?kC = "map_option kc (head (remaining C))"
    let ?p = "least_path ?kA ?kB ?kC"
    have "join3_loop ka kb kc (take_head (?kA = Some ?p) (snd (peek A))) (take_head (?kB = Some ?p) (snd (peek B)))
          (take_head (?kC = Some ?p) (snd (peek C)))
        = join3_lists ka kb kc (drop_head (?kA = Some ?p) (remaining A)) (drop_head (?kB = Some ?p) (remaining B))
          (drop_head (?kC = Some ?p) (remaining C))"
      using 1(1) [OF refl refl refl refl refl refl _ refl refl refl refl refl refl refl] False
      by (simp add: heads rests oks)
    then show ?thesis using False
      by (simp add: join3_loop.simps [of ka kb kc A B C] join3_lists.simps [of ka kb kc "remaining A"] heads Let_def)
  qed
qed

lemma joinSorted3_lists: "joinSorted3 ka kb kc as bs cs = join3_lists ka kb kc as bs cs"
  by (simp add: joinSorted3_def join3_loop_lists)

lemma map_filter_head:
  "t \<longrightarrow> xs \<noteq> [] \<Longrightarrow> (case (if t then head xs else None) of None \<Rightarrow> drop_head t xs | Some x \<Rightarrow> x # drop_head t xs) = xs"
  by (cases xs) (auto simp: drop_head_def)

lemma join3_lists_Nil [simp]: "join3_lists ka kb kc [] [] [] = []"
  by (simp add: join3_lists.simps)

lemma join3_lists_step:
  assumes "\<not> (as = [] \<and> bs = [] \<and> cs = [])"
    and "p = least_path (map_option ka (head as)) (map_option kb (head bs)) (map_option kc (head cs))"
    and "a = (map_option ka (head as) = Some p)" "b = (map_option kb (head bs) = Some p)"
      "c = (map_option kc (head cs) = Some p)"
  shows "join3_lists ka kb kc as bs cs
       = JoinedRow3 p (if a then head as else None) (if b then head bs else None) (if c then head cs else None)
         # join3_lists ka kb kc (drop_head a as) (drop_head b bs) (drop_head c cs)"
  unfolding assms(2-5) using assms(1) by (subst join3_lists.simps) (simp only: Let_def if_False)

lemma join3_lists_sides:
  "List.map_filter row_a (join3_lists ka kb kc as bs cs) = as \<and>
   List.map_filter row_b (join3_lists ka kb kc as bs cs) = bs \<and>
   List.map_filter row_c (join3_lists ka kb kc as bs cs) = cs"
proof (induction ka kb kc as bs cs rule: join3_lists.induct)
  case (1 ka kb kc as bs cs)
  show ?case
  proof (cases "as = [] \<and> bs = [] \<and> cs = []")
    case False
    define p where "p = least_path (map_option ka (head as)) (map_option kb (head bs)) (map_option kc (head cs))"
    define a b c where "a = (map_option ka (head as) = Some p)" and "b = (map_option kb (head bs) = Some p)"
      and "c = (map_option kc (head cs) = Some p)"
    have some: "a \<longrightarrow> as \<noteq> []" "b \<longrightarrow> bs \<noteq> []" "c \<longrightarrow> cs \<noteq> []" by (auto simp: a_def b_def c_def)
    show ?thesis unfolding join3_lists_step [OF False p_def a_def b_def c_def]
      using 1 [OF False refl refl refl p_def a_def b_def c_def]
        map_filter_head [OF some(1)] map_filter_head [OF some(2)] map_filter_head [OF some(3)]
      by (simp only: map_filter_simps joinedRow3.sel simp_thms)
  qed simp
qed

lemma set_drop_head: "set (drop_head t xs) \<subseteq> set xs"
  by (cases xs) (auto simp: drop_head_def)

lemma path_sorted_drop_head: "path_sorted (map k xs) \<Longrightarrow> path_sorted (map k (drop_head t xs))"
  by (cases xs) (auto simp: drop_head_def path_sorted_def)

lemma head_key: "map_option k (head xs) = Some p \<Longrightarrow> p \<in> k ` set xs"
  by (cases xs) auto

text \<open>Every row carries one of the keys, and every item it holds has the row's path.\<close>

lemma join3_lists_rows:
  "row \<in> set (join3_lists ka kb kc as bs cs) \<Longrightarrow>
     row3_path row \<in> ka ` set as \<union> kb ` set bs \<union> kc ` set cs \<and>
     map_option ka (row_a row) \<in> {None, Some (row3_path row)} \<and>
     map_option kb (row_b row) \<in> {None, Some (row3_path row)} \<and>
     map_option kc (row_c row) \<in> {None, Some (row3_path row)}"
proof (induction ka kb kc as bs cs rule: join3_lists.induct)
  case (1 ka kb kc as bs cs)
  show ?case
  proof (cases "as = [] \<and> bs = [] \<and> cs = []")
    case True
    then show ?thesis using 1(2) by simp
  next
    case False
    define p where "p = least_path (map_option ka (head as)) (map_option kb (head bs)) (map_option kc (head cs))"
    define a b c where "a = (map_option ka (head as) = Some p)" and "b = (map_option kb (head bs) = Some p)"
      and "c = (map_option kc (head cs) = Some p)"
    note step = join3_lists_step [OF False p_def a_def b_def c_def]
    note IH = 1(1) [OF False refl refl refl p_def a_def b_def c_def] and row = 1(2)
    have "a \<or> b \<or> c" unfolding a_def b_def c_def p_def using False by (intro least_path_member) auto
    then have p: "p \<in> ka ` set as \<union> kb ` set bs \<union> kc ` set cs"
      unfolding a_def b_def c_def
      using head_key [of ka as p] head_key [of kb bs p] head_key [of kc cs p] by blast
    from row consider (here) "row3_path row = p" "row_a row = (if a then head as else None)"
        "row_b row = (if b then head bs else None)" "row_c row = (if c then head cs else None)"
      | (later) "row \<in> set (join3_lists ka kb kc (drop_head a as) (drop_head b bs) (drop_head c cs))"
      unfolding step by auto
    then show ?thesis
    proof cases
      case here
      have "map_option ka (if a then head as else None) \<in> {None, Some p}"
          "map_option kb (if b then head bs else None) \<in> {None, Some p}"
          "map_option kc (if c then head cs else None) \<in> {None, Some p}"
        using a_def b_def c_def by (cases a; cases b; cases c; simp)+
      then show ?thesis unfolding here using p by simp
    next
      case later
      have "ka ` set (drop_head a as) \<union> kb ` set (drop_head b bs) \<union> kc ` set (drop_head c cs)
          \<subseteq> ka ` set as \<union> kb ` set bs \<union> kc ` set cs"
        using set_drop_head by (meson Un_mono image_mono)
      then show ?thesis using IH [OF later] by blast
    qed
  qed
qed

lemma lower_to_le:
  "comparePaths (lower_to key p) p \<le> 0"
  "key = Some k \<Longrightarrow> comparePaths (lower_to key p) k \<le> 0"
  using comparePaths_swap [of "the key" p] by (auto simp: lower_to_def split: option.split)

lemma least_path_le:
  "keyA = Some k \<Longrightarrow> comparePaths (least_path keyA keyB keyC) k \<le> 0"
  "keyB = Some k \<Longrightarrow> comparePaths (least_path keyA keyB keyC) k \<le> 0"
  "keyC = Some k \<Longrightarrow> comparePaths (least_path keyA keyB keyC) k \<le> 0"
  unfolding least_path_def Let_def
  using comparePaths_trans_le [OF lower_to_le(1) lower_to_le(1)]
    comparePaths_trans_le [OF lower_to_le(1) lower_to_le(2)] lower_to_le(2) by auto

lemma head_least:
  assumes "path_sorted (map k xs)" and "\<And>q. map_option k (head xs) = Some q \<Longrightarrow> comparePaths p q \<le> 0"
    and "x \<in> set xs"
  shows "comparePaths p (k x) \<le> 0"
  using assms comparePaths_trans_le by (cases xs) (auto simp: path_sorted_Cons)

lemma join3_lists_sorted:
  "path_sorted (map ka as) \<Longrightarrow> path_sorted (map kb bs) \<Longrightarrow> path_sorted (map kc cs) \<Longrightarrow>
     path_sorted (map row3_path (join3_lists ka kb kc as bs cs))"
proof (induction ka kb kc as bs cs rule: join3_lists.induct)
  case (1 ka kb kc as bs cs)
  show ?case
  proof (cases "as = [] \<and> bs = [] \<and> cs = []")
    case True
    then show ?thesis by (simp add: path_sorted_def)
  next
    case False
    define p where "p = least_path (map_option ka (head as)) (map_option kb (head bs)) (map_option kc (head cs))"
    define a b c where "a = (map_option ka (head as) = Some p)" and "b = (map_option kb (head bs) = Some p)"
      and "c = (map_option kc (head cs) = Some p)"
    let ?rest = "join3_lists ka kb kc (drop_head a as) (drop_head b bs) (drop_head c cs)"
    have least: "x \<in> set as \<Longrightarrow> comparePaths p (ka x) \<le> 0" "y \<in> set bs \<Longrightarrow> comparePaths p (kb y) \<le> 0"
        "z \<in> set cs \<Longrightarrow> comparePaths p (kc z) \<le> 0" for x y z
      unfolding p_def
      by (rule head_least [OF 1(2) least_path_le(1)] head_least [OF 1(3) least_path_le(2)]
          head_least [OF 1(4) least_path_le(3)]; assumption)+
    have "comparePaths p (row3_path row) \<le> 0" if "row \<in> set ?rest" for row
    proof -
      have "row3_path row \<in> ka ` set as \<union> kb ` set bs \<union> kc ` set cs"
        using join3_lists_rows [OF that] set_drop_head [of a as] set_drop_head [of b bs] set_drop_head [of c cs] by auto
      then consider x where "x \<in> set as" "row3_path row = ka x" | x where "x \<in> set bs" "row3_path row = kb x"
        | x where "x \<in> set cs" "row3_path row = kc x" by blast
      then show ?thesis
        by cases (simp_all add: least)
    qed
    moreover have "path_sorted (map row3_path ?rest)"
      by (rule 1(1) [OF False refl refl refl p_def a_def b_def c_def path_sorted_drop_head [OF 1(2)]
            path_sorted_drop_head [OF 1(3)] path_sorted_drop_head [OF 1(4)]])
    ultimately show ?thesis unfolding join3_lists_step [OF False p_def a_def b_def c_def]
      by (simp add: path_sorted_Cons)
  qed
qed

text \<open>From strictly ascending inputs no path comes twice, so the items of one path are in one row.\<close>

lemma path_strict_drop_head: "path_strict (map k xs) \<Longrightarrow> path_strict (map k (drop_head t xs))"
  by (cases xs) (auto simp: drop_head_def path_strict_def)

lemma strict_drop_head_not:
  assumes "path_strict (map k xs)" "\<And>q. map_option k (head xs) = Some q \<Longrightarrow> comparePaths p q \<le> 0" "t = (map_option k (head xs) = Some p)"
  shows "p \<notin> k ` set (drop_head t xs)"
proof (cases xs)
  case (Cons x ys)
  have "comparePaths p (k y) < 0" if "y \<in> set ys" for y
    using assms(1,2) that comparePaths_le_less_trans [of p "k x" "k y"] by (auto simp: Cons path_strict_Cons)
  then have "p \<notin> k ` set ys" using comparePaths_refl [of p] by fastforce
  then show ?thesis using assms(3) by (auto simp: Cons drop_head_def)
qed (simp add: drop_head_def)

lemma join3_lists_distinct:
  "path_strict (map ka as) \<Longrightarrow> path_strict (map kb bs) \<Longrightarrow> path_strict (map kc cs) \<Longrightarrow>
     distinct (map row3_path (join3_lists ka kb kc as bs cs))"
proof (induction ka kb kc as bs cs rule: join3_lists.induct)
  case (1 ka kb kc as bs cs)
  show ?case
  proof (cases "as = [] \<and> bs = [] \<and> cs = []")
    case True
    then show ?thesis by simp
  next
    case False
    define p where "p = least_path (map_option ka (head as)) (map_option kb (head bs)) (map_option kc (head cs))"
    define a b c where "a = (map_option ka (head as) = Some p)" and "b = (map_option kb (head bs) = Some p)"
      and "c = (map_option kc (head cs) = Some p)"
    let ?rest = "join3_lists ka kb kc (drop_head a as) (drop_head b bs) (drop_head c cs)"
    have "p \<notin> ka ` set (drop_head a as)"
      by (rule strict_drop_head_not [OF 1(2) _ a_def]) (unfold p_def, rule least_path_le(1))
    moreover have "p \<notin> kb ` set (drop_head b bs)"
      by (rule strict_drop_head_not [OF 1(3) _ b_def]) (unfold p_def, rule least_path_le(2))
    moreover have "p \<notin> kc ` set (drop_head c cs)"
      by (rule strict_drop_head_not [OF 1(4) _ c_def]) (unfold p_def, rule least_path_le(3))
    ultimately have "p \<notin> row3_path ` set ?rest" using join3_lists_rows [of _ ka kb kc "drop_head a as" "drop_head b bs" "drop_head c cs"] by blast
    moreover have "distinct (map row3_path ?rest)"
      by (rule 1(1) [OF False refl refl refl p_def a_def b_def c_def path_strict_drop_head [OF 1(2)]
            path_strict_drop_head [OF 1(3)] path_strict_drop_head [OF 1(4)]])
    ultimately show ?thesis unfolding join3_lists_step [OF False p_def a_def b_def c_def] by simp
  qed
qed

lemma paired_row:
  assumes "distinct (map path rows)" "List.map_filter side rows = xs"
    and "\<And>row. row \<in> set rows \<Longrightarrow> map_option k (side row) \<in> {None, Some (path row)}"
    and "row \<in> set rows" "x \<in> set xs" "k x = path row"
  shows "side row = Some x"
proof -
  have "x \<in> set (List.map_filter side rows)" using assms(2,5) by simp
  then obtain row' where r: "row' \<in> set rows" "side row' = Some x" by (auto simp: List.map_filter_def)
  then have "path row' = path row" using assms(3) [OF r(1)] assms(6) by simp
  then have "row' = row" using assms(1,4) r(1) by (auto simp: distinct_map dest: inj_onD)
  then show ?thesis using r(2) by simp
qed

section \<open>Properties\<close>

text \<open>
  C20: \<open>joinSorted\<close> loses and invents nothing: the left items of its rows are the left input in order, the right
  items the right input, every row has an item and the path of its items, and from ascending inputs its rows
  ascend, strictly when both inputs do.
\<close>

theorem joinSorted_correct:
  assumes "path_sorted (map kl ls)" "path_sorted (map kr rs)"
  defines "rows \<equiv> joinSorted kl kr ls rs"
  shows "List.map_filter row_left rows = ls \<and> List.map_filter row_right rows = rs
     \<and> path_sorted (map row_path rows)
     \<and> (\<forall>row \<in> set rows. (\<forall>l. row_left row = Some l \<longrightarrow> row_path row = kl l)
          \<and> (\<forall>r. row_right row = Some r \<longrightarrow> comparePaths (row_path row) (kr r) = 0)
          \<and> (row_left row \<noteq> None \<or> row_right row \<noteq> None))
     \<and> (path_strict (map kl ls) \<and> path_strict (map kr rs) \<longrightarrow> path_strict (map row_path rows))"
  unfolding rows_def joinSorted_lists
  using join_lists_left [of kl kr ls rs] join_lists_right [of kl kr ls rs] join_lists_sorted [OF assms(1,2)]
    join_lists_keys [of _ kl kr ls rs] join_lists_strict [of kl ls kr rs] by blast

theorem joinSorted_correct_witness:
  "List.map_filter row_left (joinSorted id id [[0x61]] [[0x61], [0x62]]) = [[0x61]]"
proof -
  have "path_sorted (map id [[0x61]])" "path_sorted (map id [[0x61], [0x62]])"
    by (simp_all add: path_sorted_def comparePaths_points code_points.simps(2) is_high_def is_low_def)
  from joinSorted_correct [OF this] show ?thesis by simp
qed

text \<open>
  C21: \<open>joinSorted3\<close> likewise: each input comes back in order from its side of the rows, every row carries one of
  the keys and only items with its path, and from ascending inputs the rows ascend. From strictly ascending inputs no
  path comes in two rows, and a row holds the item of every side that has one with its path.
\<close>

theorem joinSorted3_correct:
  assumes "path_sorted (map ka as)" "path_sorted (map kb bs)" "path_sorted (map kc cs)"
  defines "rows \<equiv> joinSorted3 ka kb kc as bs cs"
  shows "List.map_filter row_a rows = as \<and> List.map_filter row_b rows = bs \<and> List.map_filter row_c rows = cs
     \<and> path_sorted (map row3_path rows)
     \<and> (\<forall>row \<in> set rows. row3_path row \<in> ka ` set as \<union> kb ` set bs \<union> kc ` set cs
          \<and> map_option ka (row_a row) \<in> {None, Some (row3_path row)}
          \<and> map_option kb (row_b row) \<in> {None, Some (row3_path row)}
          \<and> map_option kc (row_c row) \<in> {None, Some (row3_path row)})
     \<and> (path_strict (map ka as) \<and> path_strict (map kb bs) \<and> path_strict (map kc cs) \<longrightarrow>
          distinct (map row3_path rows) \<and>
          (\<forall>row \<in> set rows. (\<forall>x \<in> set as. ka x = row3_path row \<longrightarrow> row_a row = Some x)
             \<and> (\<forall>x \<in> set bs. kb x = row3_path row \<longrightarrow> row_b row = Some x)
             \<and> (\<forall>x \<in> set cs. kc x = row3_path row \<longrightarrow> row_c row = Some x)))"
proof -
  let ?rows = "join3_lists ka kb kc as bs cs"
  note sides = join3_lists_sides [of ka kb kc as bs cs] and keys = join3_lists_rows [of _ ka kb kc as bs cs]
  have "(\<forall>x \<in> set as. ka x = row3_path row \<longrightarrow> row_a row = Some x) \<and> (\<forall>x \<in> set bs. kb x = row3_path row \<longrightarrow> row_b row = Some x)
      \<and> (\<forall>x \<in> set cs. kc x = row3_path row \<longrightarrow> row_c row = Some x)"
    if "distinct (map row3_path ?rows)" "row \<in> set ?rows" for row
    using paired_row [OF that(1), of row_a as ka row] paired_row [OF that(1), of row_b bs kb row] paired_row [OF that(1), of row_c cs kc row]
      sides keys that(2) by blast
  then show ?thesis unfolding rows_def joinSorted3_lists
    using sides keys join3_lists_sorted [OF assms(1-3)] join3_lists_distinct [of ka as kb bs kc cs] by blast
qed

theorem joinSorted3_correct_witness:
  "List.map_filter row_b (joinSorted3 id id id [[0x61]] [[0x61], [0x62]] []) = [[0x61], [0x62]] \<and>
   distinct (map row3_path (joinSorted3 id id id [[0x61]] [[0x61], [0x62]] ([] :: jstring list)))"
proof -
  have "path_sorted (map id [[0x61]])" "path_sorted (map id [[0x61], [0x62]])" "path_sorted (map id [])"
    "path_strict (map id [[0x61]])" "path_strict (map id [[0x61], [0x62]])" "path_strict (map id [])"
    by (simp_all add: path_sorted_def path_strict_def comparePaths_points code_points.simps(2) is_high_def is_low_def)
  with joinSorted3_correct [OF this(1-3)] show ?thesis by simp
qed

end
