(* ===== verification/Paths.thy ===== *)
theory Paths
  imports Streams Text "HOL-Library.Sublist"
begin

text \<open>
  Git-side path helpers (\<open>packages/git/src/common/paths.ts\<close>): the normal form of an
  absolute path, joining and relativising, ancestors, and the canonical-path test that
  guards the fast path of \<open>joinPath\<close>.

  The reference is a path as its list of segments: \<open>resolve\<close> is the fold of the source over
  them, and the lemmas reduce every operation to that list.
\<close>

section \<open>Normal form\<close>

abbreviation slash :: unit16 where "slash \<equiv> 0x2f"
abbreviation dot :: unit16 where "dot \<equiv> 0x2e"

definition resolve :: "jstring list \<Rightarrow> jstring \<Rightarrow> jstring list" where
  "resolve parts segment =
     (if segment = [] \<or> segment = [dot] then parts
      else if segment = [dot, dot] then butlast parts
      else parts @ [segment])"

definition normalizePath :: "jstring \<Rightarrow> jstring" where
  "normalizePath path =
     (let absolute = (if startsWith path [slash] then path else slash # path);
          parts = foldl resolve [] (split_at slash absolute)
      in slash # join_with [slash] parts)"

section \<open>The canonical-path test\<close>

definition unit_between :: "unit16 option \<Rightarrow> unit16 \<Rightarrow> unit16 \<Rightarrow> bool" where
  "unit_between u lo hi = (case u of Some v \<Rightarrow> lo \<le> v \<and> v \<le> hi | None \<Rightarrow> False)"

text \<open>The loop reads past the end as \<open>NaN\<close> (here \<open>None\<close>), for which every comparison is false.\<close>

function canonical_loop :: "jstring \<Rightarrow> nat \<Rightarrow> nat \<Rightarrow> bool" where
  "canonical_loop path segmentStart index =
     (if index > length path then True
      else
        let code = charCodeAt path index
        in if index = length path \<or> code = Some slash then
             let len = index - segmentStart
             in if len = 0 \<or> (len = 1 \<and> charCodeAt path segmentStart = Some dot)
                   \<or> (len = 2 \<and> charCodeAt path segmentStart = Some dot
                       \<and> charCodeAt path (segmentStart + 1) = Some dot)
                then False
                else canonical_loop path (index + 1) (index + 1)
           else if code = Some 0 then False
           else if unit_between code 0xd800 0xdbff then
             (case charCodeAt path (index + 1) of
                Some low \<Rightarrow> if low < 0xdc00 \<or> low > 0xdfff then False
                            else canonical_loop path segmentStart (index + 2)
              | None \<Rightarrow> canonical_loop path segmentStart (index + 2))
           else if unit_between code 0xdc00 0xdfff then False
           else canonical_loop path segmentStart (index + 1))"
  by pat_completeness auto
termination
  by (relation "measure (\<lambda>(path, _, index). Suc (length path) - index)") auto

declare canonical_loop.simps [simp del]

definition isCanonicalPathSegments :: "jstring \<Rightarrow> nat \<Rightarrow> bool" where
  "isCanonicalPathSegments path firstSegment = canonical_loop path firstSegment firstSegment"

definition isCanonicalAbsolutePath :: "jstring \<Rightarrow> bool" where
  "isCanonicalAbsolutePath path =
     (if length path < 2 \<or> charCodeAt path 0 \<noteq> Some slash \<or> charCodeAt path (length path - 1) = Some slash
      then False else isCanonicalPathSegments path 1)"

definition isCanonicalGitPath :: "jstring \<Rightarrow> bool" where
  "isCanonicalGitPath path =
     (if path = [] \<or> charCodeAt path 0 = Some slash \<or> charCodeAt path (length path - 1) = Some slash
      then False else isCanonicalPathSegments path 0)"

section \<open>Joining, splitting, relativising\<close>

definition strip_trailing :: "unit16 \<Rightarrow> jstring \<Rightarrow> jstring" where
  "strip_trailing c s = rev (dropWhile (\<lambda>u. u = c) (rev s))"

definition joinPath :: "jstring \<Rightarrow> jstring \<Rightarrow> jstring" where
  "joinPath root relative =
     (if relative = [] \<or> relative = [dot] then normalizePath root
      else if isCanonicalGitPath relative \<and> root = [slash] then slash # relative
      else if isCanonicalGitPath relative \<and> isCanonicalAbsolutePath root then root @ [slash] @ relative
      else normalizePath (strip_trailing slash root @ [slash] @ relative))"

definition subtreeSuccessor :: "jstring \<Rightarrow> jstring" where
  "subtreeSuccessor path =
     (let normalized = normalizePath path in if normalized = [slash] then [0x30] else normalized @ [0x30])"

definition splitPath :: "jstring \<Rightarrow> jstring list" where
  "splitPath path = filter (\<lambda>segment. segment \<noteq> []) (split_at slash (normalizePath path))"

definition relativeTo :: "jstring \<Rightarrow> jstring \<Rightarrow> jstring option" where
  "relativeTo root path =
     (let base = normalizePath root; target = normalizePath path
      in if target = base then Some []
         else let prefix = (if base = [slash] then [slash] else base @ [slash])
              in if startsWith target prefix then Some (drop (length prefix) target) else None)"

fun shared_from :: "jstring list \<Rightarrow> jstring list \<Rightarrow> nat" where
  "shared_from (x # xs) (y # ys) = (if x = y then Suc (shared_from xs ys) else 0)"
| "shared_from _ _ = 0"

definition relativePath :: "jstring \<Rightarrow> jstring \<Rightarrow> jstring" where
  "relativePath base target =
     (let from = splitPath base; to = splitPath target; shared = shared_from from to;
          parts = replicate (length from - shared) [dot, dot] @ drop shared to
      in if parts = [] then [dot] else join_with [slash] parts)"

definition dirnameOf :: "jstring \<Rightarrow> jstring" where
  "dirnameOf path =
     (let normalized = normalizePath path
      in case lastIndexOf normalized slash of
           None \<Rightarrow> [slash]
         | Some k \<Rightarrow> if k = 0 then [slash] else take k normalized)"

definition basenameOf :: "jstring \<Rightarrow> jstring" where
  "basenameOf path =
     (let normalized = normalizePath path
      in case lastIndexOf normalized slash of None \<Rightarrow> normalized | Some k \<Rightarrow> drop (k + 1) normalized)"

definition gitParentPath :: "jstring \<Rightarrow> jstring" where
  "gitParentPath path = (case lastIndexOf path slash of None \<Rightarrow> [] | Some k \<Rightarrow> take k path)"

definition gitBasename :: "jstring \<Rightarrow> jstring" where
  "gitBasename path = (case lastIndexOf path slash of None \<Rightarrow> path | Some k \<Rightarrow> drop (k + 1) path)"

definition gitPathDepth :: "jstring \<Rightarrow> nat" where
  "gitPathDepth path =
     (if path = [] then 0
      else foldl (\<lambda>depth code. if code = slash then depth + 1 else depth) 1 path)"

definition isPathRoot :: "jstring \<Rightarrow> jstring \<Rightarrow> bool" where
  "isPathRoot root path =
     (let normalizedRoot = normalizePath root; normalizedPath = normalizePath path
      in if normalizedRoot = [slash] then startsWith normalizedPath [slash]
         else normalizedPath = normalizedRoot \<or>
              (startsWith normalizedPath normalizedRoot \<and>
               charCodeAt normalizedPath (length normalizedRoot) = Some slash))"

definition relativeExcludeRoots :: "jstring \<Rightarrow> jstring list option \<Rightarrow> jstring list" where
  "relativeExcludeRoots root paths =
     List.map_filter (\<lambda>path. case relativeTo root path of
         None \<Rightarrow> None | Some relative \<Rightarrow> if relative = [] then None else Some relative)
       (case paths of None \<Rightarrow> [] | Some ps \<Rightarrow> ps)"

definition isExcluded :: "jstring \<Rightarrow> jstring list \<Rightarrow> bool" where
  "isExcluded path roots = list_ex (\<lambda>root. isPathRoot root path) roots"

definition isNestedPath :: "jstring \<Rightarrow> jstring \<Rightarrow> bool" where
  "isNestedPath root path =
     (let normalizedRoot = normalizePath root; normalizedPath = normalizePath path
      in normalizedPath \<noteq> normalizedRoot \<and> isPathRoot normalizedRoot normalizedPath)"

function lower_bound_loop :: "jstring list \<Rightarrow> jstring \<Rightarrow> nat \<Rightarrow> nat \<Rightarrow> nat" where
  "lower_bound_loop values wanted low high =
     (if low < high then
        let middle = low + (high - low) div 2
        in case charCodeAt values middle of
             Some value \<Rightarrow>
               if comparePaths value wanted < 0 then lower_bound_loop values wanted (middle + 1) high
               else lower_bound_loop values wanted low middle
           | None \<Rightarrow> lower_bound_loop values wanted low middle
      else low)"
  by pat_completeness auto
termination
  by (relation "measure (\<lambda>(_, _, low, high). high - low)") auto

declare lower_bound_loop.simps [simp del]

definition lowerBoundPath :: "jstring list \<Rightarrow> jstring \<Rightarrow> nat" where
  "lowerBoundPath values wanted = lower_bound_loop values wanted 0 (length values)"

section \<open>Segments\<close>

definition normal_segment :: "jstring \<Rightarrow> bool" where
  "normal_segment s \<longleftrightarrow> s \<noteq> [] \<and> s \<noteq> [dot] \<and> s \<noteq> [dot, dot] \<and> slash \<notin> set s"

definition segments :: "jstring \<Rightarrow> jstring list" where
  "segments path = foldl resolve [] (split_at slash path)"

lemma resolve_normal:
  "\<forall>s \<in> set parts. normal_segment s \<Longrightarrow> slash \<notin> set segment \<Longrightarrow> s \<in> set (resolve parts segment) \<Longrightarrow>
     normal_segment s"
  by (auto simp: resolve_def normal_segment_def dest: in_set_butlastD split: if_splits)

lemma foldl_resolve_normal:
  "\<forall>s \<in> set parts. normal_segment s \<Longrightarrow> \<forall>s \<in> set ss. slash \<notin> set s \<Longrightarrow>
     s \<in> set (foldl resolve parts ss) \<Longrightarrow> normal_segment s"
proof (induction ss arbitrary: parts)
  case (Cons x xs)
  have "\<forall>s \<in> set (resolve parts x). normal_segment s" using Cons.prems resolve_normal by auto
  then show ?case using Cons by simp
qed simp

lemma segments_normal: "s \<in> set (segments path) \<Longrightarrow> normal_segment s"
  unfolding segments_def by (rule foldl_resolve_normal [of "[]"]) (auto dest: split_at_parts)

lemma foldl_resolve_append:
  "\<forall>s \<in> set ss. normal_segment s \<Longrightarrow> foldl resolve parts ss = parts @ ss"
  by (induction ss arbitrary: parts) (auto simp: resolve_def normal_segment_def)

lemma resolve_Nil [simp]: "resolve parts [] = parts" "resolve parts [dot] = parts"
  "resolve parts [dot, dot] = butlast parts"
  by (simp_all add: resolve_def)

lemma split_at_sep_append: "split_at c (xs @ c # ys) = split_at c xs @ split_at c ys"
proof (induction xs)
  case (Cons x xs)
  obtain p ps where "split_at c xs = p # ps" by (cases "split_at c xs") auto
  then show ?case using Cons by simp
qed simp

lemma normalizePath_segments: "normalizePath path = slash # join_with [slash] (segments path)"
  by (cases path) (auto simp: normalizePath_def segments_def Let_def)

lemma segments_join:
  "\<forall>s \<in> set ss. normal_segment s \<Longrightarrow> segments (join_with [slash] ss) = ss"
proof (cases "ss = []")
  case False
  assume "\<forall>s \<in> set ss. normal_segment s"
  with False show ?thesis
    by (simp add: segments_def split_at_join normal_segment_def foldl_resolve_append)
qed (simp add: segments_def)

lemma segments_slash [simp]: "segments (slash # path) = segments path"
  by (simp add: segments_def)

lemma segments_normalizePath [simp]: "segments (normalizePath path) = segments path"
  by (simp add: normalizePath_segments segments_join segments_normal)

lemma normalizePath_idem [simp]: "normalizePath (normalizePath path) = normalizePath path"
  using normalizePath_segments [of "normalizePath path"] normalizePath_segments [of path]
  by (simp add: segments_join segments_normal)

lemma segments_append:
  "segments (root @ slash # relative) = foldl resolve (segments root) (split_at slash relative)"
  by (simp add: segments_def split_at_sep_append)

lemma join_segments_inj:
  assumes "\<forall>s \<in> set xs. normal_segment s" "\<forall>s \<in> set ys. normal_segment s"
  shows "join_with [slash] xs = join_with [slash] ys \<longleftrightarrow> xs = ys"
  by (metis assms segments_join)

lemma normalizePath_eq_iff: "normalizePath p = normalizePath q \<longleftrightarrow> segments p = segments q"
  by (simp add: normalizePath_segments join_segments_inj segments_normal)

lemma normalizePath_root_iff: "normalizePath p = [slash] \<longleftrightarrow> segments p = []"
  using normalizePath_eq_iff [of p "[]"] by (simp add: segments_def normalizePath_def)

lemma splitPath_segments: "splitPath path = segments path"
proof -
  let ?ss = "segments path"
  have "filter (\<lambda>s. s \<noteq> []) (split_at slash (join_with [slash] ?ss)) = ?ss"
  proof (cases "?ss = []")
    case False
    then have "split_at slash (join_with [slash] ?ss) = ?ss"
      by (rule split_at_join) (auto dest: segments_normal simp: normal_segment_def)
    then show ?thesis by (auto simp: filter_id_conv normal_segment_def dest: segments_normal)
  qed simp
  then show ?thesis by (simp add: splitPath_def normalizePath_segments)
qed

lemma segments_snoc_join:
  "\<forall>s \<in> set (xs @ ys). normal_segment s \<Longrightarrow> ys \<noteq> [] \<Longrightarrow>
     join_with [slash] (xs @ ys)
       = (if xs = [] then join_with [slash] ys else join_with [slash] xs @ slash # join_with [slash] ys)"
proof (induction xs)
  case (Cons x xs)
  then show ?case by (cases xs) (simp_all add: join_with_Cons)
qed simp

section \<open>Joining\<close>

lemma takeWhile_rev_strip: "s = strip_trailing c s @ replicate (length s - length (strip_trailing c s)) c"
proof -
  let ?t = "takeWhile (\<lambda>u. u = c) (rev s)"
  have "?t = replicate (length ?t) c" by (rule replicate_eqI) (auto dest: set_takeWhileD)
  then have "rev ?t = replicate (length ?t) c" by (metis rev_replicate)
  moreover have s: "s = strip_trailing c s @ rev ?t"
    unfolding strip_trailing_def by (metis rev_append rev_rev_ident takeWhile_dropWhile_id)
  then have "length s - length (strip_trailing c s) = length ?t"
    by (metis diff_add_inverse length_append length_rev)
  ultimately show ?thesis using s by simp
qed

lemma split_at_replicate: "split_at c (replicate n c) = replicate (Suc n) []"
  by (induction n) simp_all

lemma foldl_resolve_empties [simp]: "foldl resolve parts (replicate n []) = parts"
  by (induction n) simp_all

lemma segments_strip: "segments (strip_trailing slash root) = segments root"
proof -
  let ?s = "strip_trailing slash root"
  define n where "n = length root - length ?s"
  have root: "root = ?s @ replicate n slash" using takeWhile_rev_strip [of root slash] by (simp add: n_def)
  show ?thesis
  proof (cases n)
    case 0
    then show ?thesis using root by simp
  next
    case (Suc k)
    then have "segments root = foldl resolve (segments ?s) (split_at slash (replicate k slash))"
      using root segments_append [of ?s "replicate k slash"] by simp
    then show ?thesis by (simp add: split_at_replicate del: replicate.simps)
  qed
qed

text \<open>What a segment of an accepted path may look like.\<close>

fun paired :: "jstring \<Rightarrow> bool" where
  "paired [] = True"
| "paired (u # us) =
     (if 0xd800 \<le> u \<and> u \<le> 0xdbff then
        (case us of [] \<Rightarrow> True | low # rest \<Rightarrow> 0xdc00 \<le> low \<and> low \<le> 0xdfff \<and> paired rest)
      else u \<noteq> 0 \<and> \<not> (0xdc00 \<le> u \<and> u \<le> 0xdfff) \<and> paired us)"

lemma split_current:
  assumes "slash \<notin> set (drop start (take index path))" "start \<le> index" "index < length path"
  shows "path ! index = slash \<Longrightarrow>
      split_at slash (drop start path) = drop start (take index path) # split_at slash (drop (Suc index) path)"
    and "path ! index \<noteq> slash \<Longrightarrow> slash \<notin> set (drop start (take (Suc index) path))"
proof -
  have "path = take index path @ path ! index # drop (Suc index) path"
    using assms(3) by (simp add: id_take_nth_drop)
  then have "drop start path = drop start (take index path) @ path ! index # drop (Suc index) path"
    using assms(2,3) by (metis drop_append length_take min.absorb4 diff_is_0_eq drop0)
  then show "path ! index = slash \<Longrightarrow>
      split_at slash (drop start path) = drop start (take index path) # split_at slash (drop (Suc index) path)"
    using split_at_append [OF assms(1)] by simp
  show "path ! index \<noteq> slash \<Longrightarrow> slash \<notin> set (drop start (take (Suc index) path))"
    using assms by (simp add: take_Suc_conv_app_nth)
qed

lemma short_list_cases:
  obtains "s = []" | u where "s = [u]" | u v where "s = [u, v]" | "length s > 2"
  by (cases s; cases "tl s"; cases "tl (tl s)") auto

lemma normal_long: "length s > 2 \<Longrightarrow> normal_segment s \<longleftrightarrow> slash \<notin> set s"
  by (auto simp: normal_segment_def)

lemma normal_snoc: "slash \<notin> set (s @ [u]) \<Longrightarrow> u \<noteq> dot \<Longrightarrow> normal_segment (s @ [u])"
  by (cases s) (auto simp: normal_segment_def)

lemma segment_test:
  assumes "start \<le> index" "index \<le> length path" "slash \<notin> set (drop start (take index path))"
  shows "(index - start = 0 \<or> (index - start = 1 \<and> charCodeAt path start = Some dot)
           \<or> (index - start = 2 \<and> charCodeAt path start = Some dot \<and> charCodeAt path (start + 1) = Some dot))
      \<longleftrightarrow> \<not> normal_segment (drop start (take index path))"
proof -
  let ?s = "drop start (take index path)"
  have len: "length ?s = index - start" using assms by simp
  have nth: "charCodeAt path (start + i) = Some (?s ! i)" if "i < index - start" for i
    using that assms by (simp add: charCodeAt_def)
  show ?thesis
  proof (cases ?s rule: short_list_cases)
    case 1 then show ?thesis using len by (simp add: normal_segment_def)
  next
    case (2 u) then show ?thesis using len nth [of 0] assms(3) by (auto simp: normal_segment_def)
  next
    case (3 u v)
    then show ?thesis using len nth [of 0] nth [of 1] assms(3) by (auto simp: normal_segment_def)
  next
    case 4 then show ?thesis using len assms(3) normal_long [OF 4] by simp
  qed
qed

lemma canonical_loop_unit:
  assumes "index < length path" "u = path ! index" "u \<noteq> slash"
  shows "canonical_loop path start index =
          (if u = 0 then False
           else if 0xd800 \<le> u \<and> u \<le> 0xdbff then
             (case charCodeAt path (index + 1) of
                Some low \<Rightarrow> if low < 0xdc00 \<or> low > 0xdfff then False else canonical_loop path start (index + 2)
              | None \<Rightarrow> canonical_loop path start (index + 2))
           else if 0xdc00 \<le> u \<and> u \<le> 0xdfff then False
           else canonical_loop path start (index + 1))"
  by (subst canonical_loop.simps) (use assms in \<open>simp add: Let_def unit_between_def charCodeAt_def\<close>)

lemma canonical_loop_iff:
  "start \<le> index \<Longrightarrow> index \<le> length path \<Longrightarrow> slash \<notin> set (drop start (take index path)) \<Longrightarrow>
     canonical_loop path start index
       \<longleftrightarrow> (\<forall>s \<in> set (split_at slash (drop start path)). normal_segment s) \<and> paired (drop index path)"
proof (induction path start index rule: canonical_loop.induct)
  case (1 path start index)
  note IH = 1(1-4) and prems = 1(5-7)
  let ?s = "drop start (take index path)"
  note test = segment_test [OF prems]
  show ?case
  proof (cases "index = length path")
    case True
    then have "canonical_loop path start index \<longleftrightarrow> normal_segment ?s"
      by (subst canonical_loop.simps) (use test True in \<open>simp add: Let_def canonical_loop.simps [of path "Suc (length path)"]\<close>)
    moreover have "split_at slash (drop start path) = [?s]"
      using prems True by (simp add: split_at_no_sep)
    ultimately show ?thesis using True by simp
  next
    case False
    then have lt: "index < length path" using prems by simp
    define u where "u = path ! index"
    have code: "charCodeAt path index = Some u" using lt by (simp add: charCodeAt_def u_def)
    have tail: "drop index path = u # drop (Suc index) path" using lt by (simp add: Cons_nth_drop_Suc u_def)
    note split = split_current [OF prems(3,1) lt]
    show ?thesis
    proof (cases "u = slash")
      case True
      then have "canonical_loop path start index
          \<longleftrightarrow> normal_segment ?s \<and> canonical_loop path (index + 1) (index + 1)"
        by (subst canonical_loop.simps) (use test False prems code in \<open>simp add: Let_def\<close>)
      moreover have "canonical_loop path (index + 1) (index + 1)
          \<longleftrightarrow> (\<forall>s \<in> set (split_at slash (drop (Suc index) path)). normal_segment s) \<and> paired (drop (Suc index) path)"
        if "normal_segment ?s"
        using IH(1) [OF _ refl _ refl] that test code True lt prems by simp
      ultimately show ?thesis using split(1) True tail by (auto simp: u_def)
    next
      case noslash: False
      note open1 = split(2) [folded u_def, OF noslash]
      note step = canonical_loop_unit [OF lt u_def noslash]
      consider "u = 0" | (lone) "0xd800 \<le> u" "u \<le> 0xdbff" "Suc index = length path"
        | (pair) "0xd800 \<le> u" "u \<le> 0xdbff" "Suc index < length path"
        | (low) "0xdc00 \<le> u" "u \<le> 0xdfff" "\<not> (0xd800 \<le> u \<and> u \<le> 0xdbff)"
        | (plain) "u \<noteq> 0" "\<not> (0xd800 \<le> u \<and> u \<le> 0xdbff)" "\<not> (0xdc00 \<le> u \<and> u \<le> 0xdfff)"
        using lt by force
      then show ?thesis
      proof cases
        case 1
        then show ?thesis using step tail by simp
      next
        case lone
        have "drop start path = drop start (take (Suc index) path)" using lone(3) by simp
        then have split: "split_at slash (drop start path) = [drop start (take (Suc index) path)]"
          using open1 by (simp add: split_at_no_sep)
        have "drop start (take (Suc index) path) = ?s @ [u]"
          using lt prems by (simp add: take_Suc_conv_app_nth u_def)
        moreover have "u \<noteq> dot" using lone(1) by auto
        ultimately have "normal_segment (drop start (take (Suc index) path))"
          using open1 normal_snoc by metis
        moreover have "canonical_loop path start index"
          using step lone tail by (auto simp: charCodeAt_def canonical_loop.simps)
        ultimately show ?thesis using split tail lone by simp
      next
        case pair
        define low where "low = path ! Suc index"
        have low: "charCodeAt path (index + 1) = Some low" using pair by (simp add: charCodeAt_def low_def)
        have tail2: "drop (Suc index) path = low # drop (Suc (Suc index)) path"
          using pair(3) by (simp add: Cons_nth_drop_Suc low_def)
        show ?thesis
        proof (cases "low < 0xdc00 \<or> low > 0xdfff")
          case True
          then show ?thesis using step low pair tail tail2 by auto
        next
          case inrange: False
          then have "low \<noteq> slash" by auto
          then have open2: "slash \<notin> set (drop start (take (index + 2) path))"
            using split_current(2) [OF open1 _ pair(3)] prems by (simp add: low_def)
          have "canonical_loop path start (index + 2)
              \<longleftrightarrow> (\<forall>s \<in> set (split_at slash (drop start path)). normal_segment s) \<and> paired (drop (index + 2) path)"
            by (rule IH(3) [OF _ refl _ _ _ low inrange])
              (use lt code noslash pair prems open2 in \<open>auto simp: unit_between_def\<close>)
          then show ?thesis using step low pair tail tail2 inrange by auto
        qed
      next
        case low
        then show ?thesis using step tail by auto
      next
        case plain
        have "canonical_loop path start (index + 1)
            \<longleftrightarrow> (\<forall>s \<in> set (split_at slash (drop start path)). normal_segment s) \<and> paired (drop (index + 1) path)"
          by (rule IH(4) [OF _ refl])
            (use lt code noslash plain prems open1 in \<open>auto simp: unit_between_def\<close>)
        then show ?thesis using step tail plain by auto
      qed
    qed
  qed
qed

lemma canonical_git_segments:
  "isCanonicalGitPath path \<Longrightarrow> segments path = split_at slash path \<and> (\<forall>s \<in> set (segments path). normal_segment s)"
  using canonical_loop_iff [of 0 0 path]
  by (auto simp: isCanonicalGitPath_def isCanonicalPathSegments_def segments_def foldl_resolve_append
      split: if_splits)

lemma canonical_absolute_segments:
  assumes "isCanonicalAbsolutePath path"
  shows "path = slash # join_with [slash] (segments path)"
proof -
  from assms obtain rest where path: "path = slash # rest"
    by (cases path) (auto simp: isCanonicalAbsolutePath_def charCodeAt_def split: if_splits)
  have "canonical_loop path 1 1" "1 \<le> length path"
    using assms by (auto simp: isCanonicalAbsolutePath_def isCanonicalPathSegments_def split: if_splits)
  then have "\<forall>s \<in> set (split_at slash rest). normal_segment s"
    using canonical_loop_iff [of 1 1 path] path by simp
  then show ?thesis by (simp add: path) (simp add: segments_def foldl_resolve_append)
qed

lemma joinPath_normalizePath: "joinPath root relative = normalizePath (root @ slash # relative)"
proof -
  have empty: "normalizePath root = normalizePath (root @ slash # relative)"
    if "relative = [] \<or> relative = [dot]"
    using that by (auto simp: normalizePath_eq_iff segments_append)
  have strip: "normalizePath (strip_trailing slash root @ slash # relative) = normalizePath (root @ slash # relative)"
    by (simp add: normalizePath_eq_iff segments_append segments_strip)
  have canonical: "segments (root @ slash # relative) = segments root @ segments relative"
      "relative = join_with [slash] (segments relative)" "segments relative \<noteq> []"
    if "isCanonicalGitPath relative"
    using canonical_git_segments [OF that] by (simp_all add: segments_append foldl_resolve_append)
  have fast_root: "slash # relative = normalizePath ([slash] @ slash # relative)" if "isCanonicalGitPath relative"
    using canonical(2) [OF that] by (subst normalizePath_segments) simp
  have fast: "root @ slash # relative = normalizePath (root @ slash # relative)"
    if "isCanonicalGitPath relative" "isCanonicalAbsolutePath root"
  proof -
    have root: "root = slash # join_with [slash] (segments root)"
      by (rule canonical_absolute_segments [OF that(2)])
    have "segments root \<noteq> []"
      using root that(2) by (intro notI) (simp add: isCanonicalAbsolutePath_def)
    then have "join_with [slash] (segments root @ segments relative)
        = join_with [slash] (segments root) @ slash # join_with [slash] (segments relative)"
      using canonical(3) [OF that(1)] by (subst segments_snoc_join) (auto dest: segments_normal)
    then show ?thesis
      unfolding normalizePath_segments canonical(1) [OF that(1)] using root canonical(2) [OF that(1)] by simp
  qed
  show ?thesis
    using empty strip fast_root fast by (simp add: joinPath_def)
qed

text \<open>The test in full: the segments are normal, and every surrogate but a trailing high one is paired.\<close>

lemma isCanonicalGitPath_iff:
  "isCanonicalGitPath path \<longleftrightarrow> (\<forall>s \<in> set (split_at slash path). normal_segment s) \<and> paired path"
proof -
  have ends: "charCodeAt path 0 \<noteq> Some slash \<and> charCodeAt path (length path - 1) \<noteq> Some slash \<and> path \<noteq> []"
    if normal: "\<forall>s \<in> set (split_at slash path). normal_segment s"
  proof -
    have "[] \<notin> set (split_at slash path)" using normal by (auto simp: normal_segment_def)
    moreover have "[] \<in> set (split_at slash path)"
      if "path = [] \<or> (\<exists>t. path = slash # t) \<or> (\<exists>t. path = t @ [slash])"
      using that by (auto simp: split_at_sep_append)
    moreover have "\<exists>t. path = slash # t" if "charCodeAt path 0 = Some slash"
      using that by (cases path) (auto simp: charCodeAt_def split: if_splits)
    moreover have "\<exists>t. path = t @ [slash]" if "charCodeAt path (length path - 1) = Some slash"
      using that by (cases path rule: rev_cases) (auto simp: charCodeAt_def split: if_splits)
    ultimately show ?thesis by blast
  qed
  then show ?thesis
    using canonical_loop_iff [of 0 0 path] by (auto simp: isCanonicalGitPath_def isCanonicalPathSegments_def)
qed

section \<open>Prefixes of segments\<close>

lemma join_startsWith:
  assumes "\<forall>s \<in> set xs. normal_segment s" "\<forall>s \<in> set ys. normal_segment s" "xs \<noteq> []"
  shows "startsWith (join_with [slash] ys) (join_with [slash] xs @ [slash]) \<longleftrightarrow> strict_prefix xs ys"
proof
  assume "startsWith (join_with [slash] ys) (join_with [slash] xs @ [slash])"
  then obtain t where t: "join_with [slash] ys = join_with [slash] xs @ slash # t"
    by (auto simp: startsWith_iff)
  then have "ys \<noteq> []" by (auto simp: startsWith_iff)
  then have "ys = split_at slash (join_with [slash] ys)"
    using assms(2) by (simp add: split_at_join normal_segment_def)
  also have "\<dots> = xs @ split_at slash t"
    unfolding t using assms by (simp add: split_at_sep_append split_at_join normal_segment_def)
  finally show "strict_prefix xs ys" by (metis append_Nil2 prefixI prefix_order.le_imp_less_or_eq same_append_eq split_at_not_Nil)
next
  assume "strict_prefix xs ys"
  then obtain zs where "ys = xs @ zs" "zs \<noteq> []" by (auto simp: strict_prefix_def prefix_def)
  then show "startsWith (join_with [slash] ys) (join_with [slash] xs @ [slash])"
    using assms by (simp add: segments_snoc_join startsWith_iff)
qed

lemma isPathRoot_prefix: "isPathRoot root path \<longleftrightarrow> prefix (segments root) (segments path)"
proof (cases "segments root = []")
  case True
  then show ?thesis by (simp add: isPathRoot_def normalizePath_root_iff) (simp add: normalizePath_segments)
next
  case False
  let ?r = "join_with [slash] (segments root)" and ?p = "join_with [slash] (segments path)"
  have "startsWith ?p ?r \<and> charCodeAt ?p (length ?r) = Some slash \<longleftrightarrow> startsWith ?p (?r @ [slash])"
    by (auto simp: startsWith_iff charCodeAt_def nth_append split: if_splits)
      (metis append_Nil2 hd_conv_nth less_irrefl list.collapse)
  also have "\<dots> \<longleftrightarrow> strict_prefix (segments root) (segments path)"
    by (rule join_startsWith) (auto simp: False dest: segments_normal)
  finally have "startsWith ?p ?r \<and> charCodeAt ?p (length ?r) = Some slash
      \<longleftrightarrow> strict_prefix (segments root) (segments path)" .
  then show ?thesis using False
    by (auto simp: isPathRoot_def normalizePath_root_iff normalizePath_eq_iff)
      (auto simp: normalizePath_segments charCodeAt_def split: if_splits)
qed

lemma relativeTo_segments:
  "relativeTo root path =
     (if prefix (segments root) (segments path)
      then Some (join_with [slash] (drop (length (segments root)) (segments path))) else None)"
proof -
  let ?r = "segments root" and ?p = "segments path"
  consider (same) "?p = ?r" | (root) "?r = []" "?p \<noteq> []" | (strict) "?r \<noteq> []" "strict_prefix ?r ?p"
    | (none) "?r \<noteq> []" "?p \<noteq> ?r" "\<not> strict_prefix ?r ?p" by metis
  then show ?thesis
  proof cases
    case same
    then show ?thesis by (simp add: relativeTo_def normalizePath_eq_iff Let_def)
  next
    case root
    then have "normalizePath root = [slash]" by (simp add: normalizePath_root_iff)
    moreover have "normalizePath path \<noteq> [slash]" using root by (simp add: normalizePath_root_iff)
    ultimately show ?thesis using root by (simp add: relativeTo_def Let_def) (simp add: normalizePath_segments)
  next
    case strict
    then obtain zs where zs: "?p = ?r @ zs" "zs \<noteq> []" by (auto simp: strict_prefix_def prefix_def)
    have "join_with [slash] (?r @ zs) = join_with [slash] ?r @ slash # join_with [slash] zs"
      using segments_snoc_join [of ?r zs] segments_normal [of _ path] zs strict(1) by metis
    then show ?thesis using strict zs
      by (simp add: relativeTo_def normalizePath_eq_iff normalizePath_root_iff Let_def)
        (simp add: normalizePath_segments startsWith_iff zs(1))
  next
    case none
    then have "\<not> startsWith (join_with [slash] ?p) (join_with [slash] ?r @ [slash])"
      by (subst join_startsWith) (auto dest: segments_normal)
    then show ?thesis using none
      by (simp add: relativeTo_def normalizePath_eq_iff normalizePath_root_iff Let_def)
        (simp add: normalizePath_segments strict_prefix_def)
  qed
qed

section \<open>Parent traversal, ancestors\<close>

lemma shared_from_take: "take (shared_from xs ys) xs = take (shared_from xs ys) ys"
  by (induction xs ys rule: shared_from.induct) auto

lemma shared_from_le: "shared_from xs ys \<le> length xs"
  by (induction xs ys rule: shared_from.induct) auto

lemma foldl_resolve_up: "foldl resolve parts (replicate n [dot, dot]) = take (length parts - n) parts"
proof (induction n arbitrary: parts)
  case (Suc n)
  have "foldl resolve parts (replicate (Suc n) [dot, dot]) = take (length (butlast parts) - n) (butlast parts)"
    using Suc [of "butlast parts"] by simp
  then show ?case by (simp add: butlast_conv_take min_def)
qed simp

lemma normal_no_slash: "s \<in> set (segments p) \<Longrightarrow> slash \<notin> set s"
  by (auto dest: segments_normal simp: normal_segment_def)

text \<open>Walking \<open>relativePath base target\<close> from \<open>base\<close> arrives at \<open>target\<close>.\<close>

lemma joinPath_relativePath: "joinPath base (relativePath base target) = normalizePath target"
proof -
  let ?from = "segments base" and ?to = "segments target"
  let ?n = "shared_from ?from ?to"
  let ?parts = "replicate (length ?from - ?n) [dot, dot] @ drop ?n ?to"
  have "foldl resolve ?from ?parts = ?to"
    using shared_from_take [of ?from ?to]
    by (simp add: foldl_resolve_up foldl_resolve_append shared_from_le
        segments_normal [of _ target] in_set_dropD [of _ ?n ?to])
  moreover have "split_at slash (relativePath base target) = (if ?parts = [] then [[dot]] else ?parts)"
  proof -
    have "\<forall>p \<in> set ?parts. slash \<notin> set p" by (auto dest: in_set_dropD normal_no_slash)
    moreover have "relativePath base target = (if ?parts = [] then [dot] else join_with [slash] ?parts)"
      by (simp add: relativePath_def splitPath_segments Let_def)
    ultimately show ?thesis using split_at_join [of ?parts slash] by (cases "?parts = []") simp_all
  qed
  ultimately have "segments (base @ slash # relativePath base target) = ?to"
    by (auto simp: segments_append split: if_splits)
  then show ?thesis by (simp add: joinPath_normalizePath normalizePath_eq_iff)
qed

lemma normalizePath_snoc:
  assumes "segments path = xs @ [x]"
  shows "normalizePath path = (if xs = [] then [] else slash # join_with [slash] xs) @ slash # x" "slash \<notin> set x"
  using assms segments_normal [of _ path] segments_snoc_join [of xs "[x]"] normal_no_slash [of x path]
  by (auto simp: normalizePath_segments)

lemma dirnameOf_segments: "dirnameOf path = slash # join_with [slash] (butlast (segments path))"
proof (cases "segments path" rule: rev_cases)
  case Nil
  then show ?thesis by (simp add: dirnameOf_def normalizePath_segments)
next
  case (snoc xs x)
  then show ?thesis using normalizePath_snoc [OF snoc] by (auto simp: dirnameOf_def Let_def lastIndexOf_append)
qed

lemma basenameOf_segments: "basenameOf path = (if segments path = [] then [] else last (segments path))"
proof (cases "segments path" rule: rev_cases)
  case Nil
  then show ?thesis by (simp add: basenameOf_def normalizePath_segments)
next
  case (snoc xs x)
  then show ?thesis using normalizePath_snoc [OF snoc] by (auto simp: basenameOf_def Let_def lastIndexOf_append)
qed

lemma segments_dirnameOf: "segments (dirnameOf path) = butlast (segments path)"
proof -
  have "\<forall>s \<in> set (butlast (segments path)). normal_segment s" by (auto dest: in_set_butlastD segments_normal)
  then show ?thesis by (simp add: dirnameOf_segments segments_join)
qed

lemma dirnameOf_normal: "normalizePath (dirnameOf path) = dirnameOf path"
  by (simp add: normalizePath_segments [of "dirnameOf path"] segments_dirnameOf) (simp add: dirnameOf_segments)

lemma dirnameOf_normalizePath: "dirnameOf (normalizePath path) = dirnameOf path"
  by (simp add: dirnameOf_segments)

function ancestors_loop :: "jstring \<Rightarrow> jstring list" where
  "ancestors_loop ancestor =
     (if ancestor = [slash] then [[slash]] else ancestor # ancestors_loop (dirnameOf ancestor))"
  by pat_completeness auto
termination
proof (relation "measure (\<lambda>a. if a = [slash] then 0 else Suc (length (segments a)))", goal_cases)
  case (2 ancestor)
  then show ?case
    using segments_dirnameOf [of ancestor] dirnameOf_segments [of ancestor]
    by (cases "segments ancestor") simp_all
qed simp

declare ancestors_loop.simps [simp del]

definition ancestorsOf :: "jstring \<Rightarrow> jstring list" where
  "ancestorsOf path = ancestors_loop (dirnameOf path)"

lemma ancestors_loop_normal:
  "a \<in> set (ancestors_loop (normalizePath path)) \<longleftrightarrow> (\<exists>xs. prefix xs (segments path) \<and> a = slash # join_with [slash] xs)"
proof (induction "length (segments path)" arbitrary: path)
  case 0
  then have "normalizePath path = [slash]" by (simp add: normalizePath_root_iff)
  then show ?case using 0 by (auto simp: ancestors_loop.simps)
next
  case (Suc n)
  let ?s = "segments path"
  have ne: "?s \<noteq> []" using Suc(2) by auto
  have "normalizePath path \<noteq> [slash]" using ne by (simp add: normalizePath_root_iff)
  moreover have dn: "dirnameOf (normalizePath path) = normalizePath (dirnameOf path)"
    by (simp add: dirnameOf_normal dirnameOf_normalizePath)
  ultimately have "set (ancestors_loop (normalizePath path))
      = insert (normalizePath path) (set (ancestors_loop (normalizePath (dirnameOf path))))"
    by (subst ancestors_loop.simps) simp
  moreover have "length (segments (dirnameOf path)) = n" using Suc(2) by (simp add: segments_dirnameOf)
  then have "a \<in> set (ancestors_loop (normalizePath (dirnameOf path)))
      \<longleftrightarrow> (\<exists>xs. prefix xs (butlast ?s) \<and> a = slash # join_with [slash] xs)"
    using Suc(1) [of "dirnameOf path"] by (simp add: segments_dirnameOf)
  moreover have "prefix xs ?s \<longleftrightarrow> xs = ?s \<or> prefix xs (butlast ?s)" for xs
    using ne by (metis append_butlast_last_id prefix_snoc)
  ultimately show ?case using normalizePath_segments [of path] by auto
qed

lemma isNestedPath_prefix: "isNestedPath root path \<longleftrightarrow> strict_prefix (segments root) (segments path)"
  by (auto simp: isNestedPath_def isPathRoot_prefix normalizePath_eq_iff strict_prefix_def)

lemma ancestorsOf_iff:
  assumes "normalizePath path \<noteq> [slash]"
  shows "a \<in> set (ancestorsOf path) \<longleftrightarrow> normalizePath a = a \<and> isNestedPath a path"
proof -
  let ?s = "segments path"
  have ne: "?s \<noteq> []" using assms by (simp add: normalizePath_root_iff)
  have "a \<in> set (ancestorsOf path) \<longleftrightarrow> (\<exists>xs. prefix xs (butlast ?s) \<and> a = slash # join_with [slash] xs)"
    unfolding ancestorsOf_def using ancestors_loop_normal [of a "dirnameOf path"] by (simp add: segments_dirnameOf dirnameOf_normal)
  also have "\<dots> \<longleftrightarrow> (\<exists>xs. strict_prefix xs ?s \<and> a = slash # join_with [slash] xs)"
    using ne by (metis append_butlast_last_id prefix_snoc strict_prefix_def append_self_conv not_Cons_self2 prefix_order.antisym prefixI)
  also have "\<dots> \<longleftrightarrow> normalizePath a = a \<and> strict_prefix (segments a) ?s" (is "?L \<longleftrightarrow> ?R")
  proof
    assume ?L
    then obtain xs where xs: "strict_prefix xs ?s" "a = slash # join_with [slash] xs" by blast
    have "\<forall>x \<in> set xs. normal_segment x"
      using xs(1) by (auto simp: strict_prefix_def dest: set_mono_prefix segments_normal)
    then show ?R using xs by (simp add: normalizePath_segments segments_join)
  qed (metis normalizePath_segments)
  finally show ?thesis by (simp add: isNestedPath_prefix)
qed

section \<open>Binary search\<close>

lemma comparePaths_le_less:
  assumes "comparePaths a b \<le> 0" "comparePaths b c < 0"
  shows "comparePaths a c < 0"
  using assms comparePaths_trans_le [of c a b] comparePaths_swap [of c a] comparePaths_swap [of c b] by linarith

lemma sorted_split_point:
  assumes "sorted_wrt (\<lambda>p q. comparePaths p q \<le> 0) values" "m < length values" "i < length values"
  shows "comparePaths (values ! m) wanted < 0 \<Longrightarrow> i \<le> m \<Longrightarrow> comparePaths (values ! i) wanted < 0"
    and "comparePaths (values ! m) wanted \<ge> 0 \<Longrightarrow> m \<le> i \<Longrightarrow> comparePaths (values ! i) wanted \<ge> 0"
proof -
  have le: "comparePaths (values ! j) (values ! k) \<le> 0" if "j \<le> k" "k < length values" for j k
    using that assms(1) by (cases "j = k") (auto simp: sorted_wrt_iff_nth_less)
  show "comparePaths (values ! i) wanted < 0" if "comparePaths (values ! m) wanted < 0" "i \<le> m"
    using comparePaths_le_less [OF le [OF that(2) assms(2)] that(1)] .
  show "comparePaths (values ! i) wanted \<ge> 0" if "comparePaths (values ! m) wanted \<ge> 0" "m \<le> i"
    using comparePaths_le_less [OF le [OF that(2) assms(3)], of wanted] that(1) by linarith
qed

lemma lower_bound_loop_spec:
  "sorted_wrt (\<lambda>p q. comparePaths p q \<le> 0) values \<Longrightarrow> low \<le> high \<Longrightarrow> high \<le> length values \<Longrightarrow>
     \<forall>i < low. comparePaths (values ! i) wanted < 0 \<Longrightarrow>
     \<forall>i. high \<le> i \<and> i < length values \<longrightarrow> comparePaths (values ! i) wanted \<ge> 0 \<Longrightarrow>
     lower_bound_loop values wanted low high \<le> length values
       \<and> (\<forall>i < lower_bound_loop values wanted low high. comparePaths (values ! i) wanted < 0)
       \<and> (\<forall>i. lower_bound_loop values wanted low high \<le> i \<and> i < length values \<longrightarrow> comparePaths (values ! i) wanted \<ge> 0)"
proof (induction "values" wanted low high rule: lower_bound_loop.induct)
  case (1 "values" wanted low high)
  note IH = 1(2,3) and prems = 1(4-8)
  show ?case
  proof (cases "low < high")
    case False
    then show ?thesis using prems by (simp add: lower_bound_loop.simps)
  next
    case True
    define middle where "middle = low + (high - low) div 2"
    have mid: "low \<le> middle" "middle < high" "middle < length values" using True prems(3) by (auto simp: middle_def)
    then have at: "charCodeAt values middle = Some (values ! middle)" by (simp add: charCodeAt_def)
    note point = sorted_split_point [OF prems(1) mid(3)]
    show ?thesis
    proof (cases "comparePaths (values ! middle) wanted < 0")
      case less: True
      have "lower_bound_loop values wanted low high = lower_bound_loop values wanted (middle + 1) high"
        by (subst lower_bound_loop.simps) (use True at less in \<open>simp add: middle_def [symmetric]\<close>)
      moreover have "\<forall>i < middle + 1. comparePaths (values ! i) wanted < 0" using point(1) less mid by simp
      ultimately show ?thesis using IH(1) [OF True middle_def at less prems(1) _ prems(3) _ prems(5)] mid by simp
    next
      case ge: False
      have "lower_bound_loop values wanted low high = lower_bound_loop values wanted low middle"
        by (subst lower_bound_loop.simps) (use True at ge in \<open>simp add: middle_def [symmetric]\<close>)
      moreover have "\<forall>i. middle \<le> i \<and> i < length values \<longrightarrow> comparePaths (values ! i) wanted \<ge> 0"
        using point(2) ge by simp
      ultimately show ?thesis using IH(2) [OF True middle_def at ge prems(1) mid(1) _ prems(4)] mid by simp
    qed
  qed
qed

lemma gitPathDepth_split: "gitPathDepth path = (if path = [] then 0 else length (split_at slash path))"
proof -
  have "foldl (\<lambda>depth code. if code = slash then depth + 1 else depth) d path = d + length (split_at slash path) - 1" for d
    by (induction path arbitrary: d) (auto split: list.splits)
  then show ?thesis by (simp add: gitPathDepth_def)
qed

section \<open>The range of a subtree\<close>

lemma well_formed_prefix_points:
  assumes "well_formed p" "well_formed q" "prefix (code_points p) (code_points q)"
  shows "startsWith q p"
  using assms points_units_inverse [of p] points_units_inverse [of q]
  by (metis concat_append map_append prefix_def startsWith_append)

lemma lex_cmp_between:
  "lex_cmp (p @ [n]) q \<le> 0 \<and> lex_cmp q (p @ [Suc n]) < 0 \<longleftrightarrow> prefix (p @ [n]) q"
proof (induction p arbitrary: q)
  case Nil
  show ?case by (cases q; cases "tl q") (auto simp: less_Suc_eq)
next
  case (Cons x p)
  show ?case using Cons [of "tl q"] by (cases q) (auto split: if_splits)
qed

lemma subtree_range:
  assumes "well_formed base" "well_formed q"
  shows "comparePaths (base @ [slash]) q \<le> 0 \<and> comparePaths q (base @ [0x30]) < 0
     \<longleftrightarrow> startsWith q (base @ [slash])"
proof -
  have cp: "code_points [slash] = [47]" "code_points [0x30] = [48]"
    by (simp_all add: code_points.simps(2) is_high_def is_low_def)
  have wf: "well_formed (base @ [slash])" using assms(1)
  proof (induction base rule: units_induct)
    case (LoneHigh u us)
    then show ?case by (auto simp: well_formed.simps(2) split: list.splits)
  qed (simp_all add: well_formed.simps(2), simp_all add: is_high_def is_low_def)
  have "startsWith q (base @ [slash]) \<longleftrightarrow> prefix (code_points base @ [47]) (code_points q)"
  proof
    assume "startsWith q (base @ [slash])"
    then obtain t where "q = (base @ [slash]) @ t" by (auto simp: startsWith_iff)
    then show "prefix (code_points base @ [47]) (code_points q)"
      using code_points_append [OF wf, of t] code_points_append [OF assms(1), of "[slash]"] cp by simp
  next
    assume "prefix (code_points base @ [47]) (code_points q)"
    then show "startsWith q (base @ [slash])"
      using well_formed_prefix_points [OF wf assms(2)] code_points_append [OF assms(1), of "[slash]"] cp by simp
  qed
  then show ?thesis
    using lex_cmp_between [of "code_points base" 47 "code_points q"]
    by (simp add: comparePaths_points code_points_append [OF assms(1)] cp)
qed

section \<open>Properties\<close>

lemma relativeTo_joinPath:
  assumes "relativeTo root path = Some r"
  shows "joinPath root r = normalizePath path"
proof -
  obtain zs where zs: "segments path = segments root @ zs" "r = join_with [slash] zs"
    using assms by (auto simp: relativeTo_segments prefix_def split: if_splits)
  have normal: "\<forall>s \<in> set zs. normal_segment s" using segments_normal [of _ path] zs(1) by auto
  have "segments (root @ slash # r) = segments path"
  proof (cases "zs = []")
    case True
    then show ?thesis using zs by (simp add: segments_append)
  next
    case False
    then have "split_at slash r = zs" using normal zs(2) by (simp add: split_at_join normal_segment_def)
    then show ?thesis using zs(1) normal by (simp add: segments_append foldl_resolve_append)
  qed
  then show ?thesis by (simp add: joinPath_normalizePath normalizePath_eq_iff)
qed

text \<open>
  C37: \<open>joinPath\<close> is normalisation of the two halves joined by a slash, on its fast paths too, and its
  result is a fixed point of \<open>normalizePath\<close>.
\<close>

theorem joinPath_correct:
  "joinPath root relative = normalizePath (root @ [0x2f] @ relative)
   \<and> normalizePath (joinPath root relative) = joinPath root relative"
  by (simp add: joinPath_normalizePath)

text \<open>
  \<open>relativePath\<close> and \<open>relativeTo\<close> are inverted by \<open>joinPath\<close>: what they return leads from the base
  to the normalised target, and \<open>relativeTo\<close> returns null exactly when the path is outside the root.
\<close>

theorem relative_roundtrip:
  "joinPath base (relativePath base target) = normalizePath target
   \<and> (case relativeTo base target of
        None \<Rightarrow> \<not> isPathRoot base target
      | Some r \<Rightarrow> isPathRoot base target \<and> joinPath base r = normalizePath target)"
  using relativeTo_joinPath [of base target]
  by (auto simp: joinPath_relativePath relativeTo_segments isPathRoot_prefix split: option.splits if_splits)

text \<open>
  C38: \<open>isCanonicalGitPath\<close> accepts exactly the paths whose segments are non-empty, not \<open>.\<close> or \<open>..\<close>,
  with no NUL and every surrogate paired, but for a high surrogate at the very end, which it lets pass.
\<close>

theorem isCanonicalGitPath_exact:
  "isCanonicalGitPath path \<longleftrightarrow> list_all normal_segment (split_at 0x2f path) \<and> paired path"
  by (simp add: isCanonicalGitPath_iff list_all_iff)

lemma canonical_lone_high: "isCanonicalGitPath [0x61, 0xd800] \<and> \<not> isCanonicalGitPath [0xd800, 0x61]"
  by (simp add: isCanonicalGitPath_iff normal_segment_def)

text \<open>
  the ancestors of a path other than the root are exactly the normalised paths it is nested in.
\<close>

theorem ancestorsOf_exact:
  assumes "normalizePath path \<noteq> [0x2f]"
  shows "set (ancestorsOf path) = {a. normalizePath a = a \<and> isNestedPath a path}"
  using ancestorsOf_iff [OF assms] by blast

theorem ancestorsOf_exact_witness:
  "set (ancestorsOf (units ''/a/b'')) = {a. normalizePath a = a \<and> isNestedPath a (units ''/a/b'')}"
proof (rule ancestorsOf_exact)
  show "normalizePath (units ''/a/b'') \<noteq> [0x2f]"
    by (simp add: normalizePath_def units_def Let_def resolve_def)
qed

text \<open>
  On a list sorted by \<open>comparePaths\<close>, \<open>lowerBoundPath\<close> returns the index that separates the values
  before the wanted path from the others.
\<close>

theorem lowerBoundPath_correct:
  assumes "sorted_wrt (\<lambda>p q. comparePaths p q \<le> 0) values"
  shows "lowerBoundPath values wanted \<le> length values
     \<and> (\<forall>i < lowerBoundPath values wanted. comparePaths (values ! i) wanted < 0)
     \<and> (\<forall>i. lowerBoundPath values wanted \<le> i \<and> i < length values \<longrightarrow> comparePaths (values ! i) wanted \<ge> 0)"
  unfolding lowerBoundPath_def using lower_bound_loop_spec [OF assms, of 0 "length values" wanted] by simp

theorem lowerBoundPath_correct_witness:
  "sorted_wrt (\<lambda>p q. comparePaths p q \<le> 0) [[0x61], [0x62 :: unit16]]
   \<and> lowerBoundPath [[0x61], [0x62]] [0x62] \<le> 2"
proof
  show sorted: "sorted_wrt (\<lambda>p q. comparePaths p q \<le> 0) [[0x61], [0x62 :: unit16]]"
    by (simp add: comparePaths_points code_points.simps(2) is_high_def is_low_def)
  show "lowerBoundPath [[0x61], [0x62]] [0x62] \<le> 2" using lowerBoundPath_correct [OF sorted, of "[0x62]"] by simp
qed

text \<open>
  the byte range from \<open>path/\<close> up to \<open>subtreeSuccessor\<close> holds exactly the paths below the directory.
\<close>

theorem subtreeSuccessor_range:
  assumes "well_formed (normalizePath path)" "well_formed q" "normalizePath path \<noteq> [0x2f]"
  shows "comparePaths (normalizePath path @ [0x2f]) q \<le> 0 \<and> comparePaths q (subtreeSuccessor path) < 0
     \<longleftrightarrow> startsWith q (normalizePath path @ [0x2f])"
  using subtree_range [OF assms(1,2)] assms(3) by (simp add: subtreeSuccessor_def Let_def)

theorem subtreeSuccessor_range_witness:
  "comparePaths (units ''/a/'') (units ''/a/b'') \<le> 0 \<and> comparePaths (units ''/a/b'') (subtreeSuccessor (units ''a'')) < 0"
proof -
  have norm: "normalizePath (units ''a'') = units ''/a''"
    by (simp add: normalizePath_def units_def Let_def resolve_def)
  have "comparePaths (normalizePath (units ''a'') @ [0x2f]) (units ''/a/b'') \<le> 0
      \<and> comparePaths (units ''/a/b'') (subtreeSuccessor (units ''a'')) < 0
     \<longleftrightarrow> startsWith (units ''/a/b'') (normalizePath (units ''a'') @ [0x2f])"
    by (rule subtreeSuccessor_range, unfold norm) (simp_all add: units_def well_formed.simps(2) is_high_def is_low_def)
  then show ?thesis unfolding norm by (simp add: units_def)
qed

end
