(* ===== verification/RefName.thy ===== *)
theory RefName
  imports Paths
begin

text \<open>
  Ref names (\<open>packages/git/src/common/ref-name.ts\<close>): the text check that counts UTF-8 bytes
  without encoding, and Git's \<open>check-ref-format\<close> syntax, both against declarative
  descriptions of what they accept.
\<close>

section \<open>checkRefText\<close>

definition MAX_REF_NAME_BYTES :: nat where
  "MAX_REF_NAME_BYTES = 1024"

datatype RefTextProblem = InvalidCharacter | NoncanonicalUtf16 | TooLong

record RefTextCheck =
  rt_bytes :: nat
  rt_problem :: "RefTextProblem option"

definition over_limit :: "nat option \<Rightarrow> nat \<Rightarrow> bool" where
  "over_limit limit bytes = (case limit of None \<Rightarrow> False | Some l \<Rightarrow> l < bytes)"

fun check_ref_loop :: "nat option \<Rightarrow> nat \<Rightarrow> jstring \<Rightarrow> RefTextCheck" where
  "check_ref_loop limit bytes [] = \<lparr>rt_bytes = bytes, rt_problem = None\<rparr>"
| "check_ref_loop limit bytes (u # us) =
     (if u = 0 \<or> u = 0x0a \<or> u = 0x0d then \<lparr>rt_bytes = bytes, rt_problem = Some InvalidCharacter\<rparr>
      else if is_high u then
        (case us of
           low # rest \<Rightarrow>
             if is_low low then
               (if over_limit limit (bytes + 4) then \<lparr>rt_bytes = bytes + 4, rt_problem = Some TooLong\<rparr>
                else check_ref_loop limit (bytes + 4) rest)
             else \<lparr>rt_bytes = bytes, rt_problem = Some NoncanonicalUtf16\<rparr>
         | [] \<Rightarrow> \<lparr>rt_bytes = bytes, rt_problem = Some NoncanonicalUtf16\<rparr>)
      else if is_low u then \<lparr>rt_bytes = bytes, rt_problem = Some NoncanonicalUtf16\<rparr>
      else
        let bytes' = bytes + (if u < 0x80 then 1 else if u < 0x800 then 2 else 3)
        in if over_limit limit bytes' then \<lparr>rt_bytes = bytes', rt_problem = Some TooLong\<rparr>
           else check_ref_loop limit bytes' us)"

definition checkRefText :: "jstring \<Rightarrow> nat option \<Rightarrow> RefTextCheck" where
  "checkRefText v limit = check_ref_loop limit 0 v"

section \<open>check-ref-format\<close>

definition FORBIDDEN :: jstring where
  "FORBIDDEN = [0x20, 0x7e, 0x5e, 0x3a, 0x3f, 0x2a, 0x5b, 0x5c]"

definition LOCK :: jstring where
  "LOCK = units ''.lock''"

function ref_syntax_loop :: "jstring \<Rightarrow> nat option \<Rightarrow> nat \<Rightarrow> nat \<Rightarrow> nat \<Rightarrow> bool" where
  "ref_syntax_loop v wildcard stop componentStart index =
     (if index < stop then
        let code = charCodeAt v index
        in if code = Some slash then
             (if index = componentStart \<or> charCodeAt v componentStart = Some dot
                  \<or> endsWith (take index v) LOCK
              then False
              else ref_syntax_loop v wildcard stop (index + 1) (index + 1))
           else
             let follow = charCodeAt v (index + 1)
             in if (code = Some dot \<and> follow = Some dot) \<or> (code = Some 0x40 \<and> follow = Some 0x7b) then False
                else if (case code of
                           Some c \<Rightarrow> c < 0x20 \<or> c = 0x7f \<or> (c \<in> set FORBIDDEN \<and> wildcard \<noteq> Some index)
                         | None \<Rightarrow> wildcard \<noteq> Some index)
                then False
                else ref_syntax_loop v wildcard stop componentStart (index + 1)
      else charCodeAt v componentStart \<noteq> Some dot \<and> \<not> endsWith (take stop v) LOCK)"
  by pat_completeness auto
termination
  by (relation "measure (\<lambda>(_, _, stop, _, index). stop - index)") auto

declare ref_syntax_loop.simps [simp del]

definition hasCanonicalRefSyntaxWithWildcard :: "jstring \<Rightarrow> nat option \<Rightarrow> int \<Rightarrow> int \<Rightarrow> bool" where
  "hasCanonicalRefSyntaxWithWildcard v wildcard start stop =
     (if \<bar>start\<bar> > int max_safe_integer \<or> \<bar>stop\<bar> > int max_safe_integer \<or> start < 0 \<or> start \<ge> stop
         \<or> stop > int (length v)
      then False
      else
        let s = nat start; e = nat stop
        in if (e - s = 1 \<and> charCodeAt v s = Some 0x40) \<or> charCodeAt v s = Some slash
              \<or> charCodeAt v (e - 1) = Some slash \<or> charCodeAt v (e - 1) = Some dot
              \<or> startsWith (drop s v) (units ''ref: '')
           then False
           else ref_syntax_loop v wildcard e s s)"

definition hasCanonicalRefSyntax :: "jstring \<Rightarrow> int \<Rightarrow> int \<Rightarrow> bool" where
  "hasCanonicalRefSyntax v start stop = hasCanonicalRefSyntaxWithWildcard v None start stop"

text \<open>The default range is the whole string.\<close>

definition hasCanonicalRefSyntax_whole :: "jstring \<Rightarrow> bool" where
  "hasCanonicalRefSyntax_whole v = hasCanonicalRefSyntax v 0 (int (length v))"

definition hasCanonicalRefPatternSyntax :: "jstring \<Rightarrow> nat option \<Rightarrow> bool" where
  "hasCanonicalRefPatternSyntax v wildcard = hasCanonicalRefSyntaxWithWildcard v wildcard 0 (int (length v))"

section \<open>What the text check accepts\<close>

definition plain_text :: "jstring \<Rightarrow> bool" where
  "plain_text v \<longleftrightarrow> well_formed v \<and> 0 \<notin> set v \<and> 0x0a \<notin> set v \<and> 0x0d \<notin> set v"

lemma over_limit_mono: "over_limit limit a \<Longrightarrow> a \<le> b \<Longrightarrow> over_limit limit b"
  by (auto simp: over_limit_def split: option.splits)

lemma encode_length_plain:
  "\<not> is_high u \<Longrightarrow> \<not> is_low u \<Longrightarrow>
     length (encode_point (unat u)) = (if u < 0x80 then 1 else if u < 0x800 then 2 else 3)"
  using unat_unit16_less [of u] by (simp add: encode_point_def word_less_nat_alt)

lemma encode_length_pair: "is_high h \<Longrightarrow> is_low l \<Longrightarrow> length (encode_point (pair_point h l)) = 4"
  by (simp add: encode_point_def pair_point_def)

lemma surrogate_not_control: "is_high u \<or> is_low u \<Longrightarrow> u \<noteq> 0 \<and> u \<noteq> 0x0a \<and> u \<noteq> 0x0d"
  by (auto simp: is_high_def is_low_def)

lemma high_not_low: "is_high u \<Longrightarrow> \<not> is_low u"
  by (auto simp: high_unat low_unat)

lemma plain_text_cases:
  "plain_text []"
  "is_high u \<Longrightarrow> is_low l \<Longrightarrow> plain_text (u # l # us) \<longleftrightarrow> plain_text us"
  "is_high u \<Longrightarrow> (\<And>v vs. us = v # vs \<Longrightarrow> \<not> is_low v) \<Longrightarrow> \<not> plain_text (u # us)"
  "\<not> is_high u \<Longrightarrow> is_low u \<Longrightarrow> \<not> plain_text (u # us)"
  "\<not> is_high u \<Longrightarrow> \<not> is_low u \<Longrightarrow>
     plain_text (u # us) \<longleftrightarrow> u \<noteq> 0 \<and> u \<noteq> 0x0a \<and> u \<noteq> 0x0d \<and> plain_text us"
proof -
  assume "is_high u" "is_low l"
  then show "plain_text (u # l # us) \<longleftrightarrow> plain_text us"
    using surrogate_not_control [of u] surrogate_not_control [of l]
    by (auto simp: plain_text_def well_formed.simps(2))
next
  assume "is_high u" "\<And>v vs. us = v # vs \<Longrightarrow> \<not> is_low v"
  then show "\<not> plain_text (u # us)" by (cases us) (auto simp: plain_text_def well_formed.simps(2))
qed (auto simp: plain_text_def well_formed.simps(2))

lemma utf8_encode_cases:
  "is_high u \<Longrightarrow> is_low l \<Longrightarrow> length (utf8_encode (u # l # us)) = 4 + length (utf8_encode us)"
  "\<not> is_high u \<Longrightarrow> \<not> is_low u \<Longrightarrow> length (utf8_encode (u # us))
     = (if u < 0x80 then 1 else if u < 0x800 then 2 else 3) + length (utf8_encode us)"
  by (simp_all add: utf8_encode_def code_points_cases encode_length_plain encode_length_pair)

lemma check_ref_loop_ok:
  "(rt_problem (check_ref_loop limit bytes v) = None \<longleftrightarrow>
      plain_text v \<and> (v = [] \<or> \<not> over_limit limit (bytes + length (utf8_encode v))))
   \<and> (rt_problem (check_ref_loop limit bytes v) = None \<longrightarrow>
      rt_bytes (check_ref_loop limit bytes v) = bytes + length (utf8_encode v))"
proof (induction v arbitrary: bytes rule: units_induct)
  case Nil
  show ?case by (simp add: plain_text_cases)
next
  case (Pair u l us)
  have step: "check_ref_loop limit bytes (u # l # us) =
      (if over_limit limit (bytes + 4) then \<lparr>rt_bytes = bytes + 4, rt_problem = Some TooLong\<rparr>
       else check_ref_loop limit (bytes + 4) us)"
    using Pair(1,2) surrogate_not_control [of u] by simp
  show ?case unfolding step
    using Pair(3) [of "bytes + 4"] over_limit_mono [of limit "bytes + 4" "bytes + 4 + length (utf8_encode us)"]
    by (auto simp: plain_text_cases Pair utf8_encode_cases add.assoc)
next
  case (LoneHigh u us)
  then show ?case using plain_text_cases(3) [of u us] by (auto split: list.split)
next
  case (LoneLow u us)
  then show ?case using plain_text_cases(4) [of u us] by auto
next
  case (Plain u us)
  define w where "w = (if u < 0x80 then 1 else if u < 0x800 then 2 else (3::nat))"
  have step: "check_ref_loop limit bytes (u # us) =
     (if u = 0 \<or> u = 0x0a \<or> u = 0x0d then \<lparr>rt_bytes = bytes, rt_problem = Some InvalidCharacter\<rparr>
      else if over_limit limit (bytes + w) then \<lparr>rt_bytes = bytes + w, rt_problem = Some TooLong\<rparr>
      else check_ref_loop limit (bytes + w) us)"
    using Plain(1,2) by (simp add: Let_def w_def)
  have len: "length (utf8_encode (u # us)) = w + length (utf8_encode us)"
    using Plain(1,2) by (simp add: utf8_encode_cases w_def)
  show ?case unfolding step len
    using Plain(3) [of "bytes + w"] over_limit_mono [of limit "bytes + w" "bytes + w + length (utf8_encode us)"]
    by (auto simp: plain_text_cases Plain add.assoc)
qed

section \<open>What the syntax check accepts\<close>

definition good_unit :: "unit16 \<Rightarrow> bool" where
  "good_unit c \<longleftrightarrow> \<not> (c < 0x20 \<or> c = 0x7f \<or> c \<in> set FORBIDDEN)"

definition good_component :: "jstring \<Rightarrow> bool" where
  "good_component c \<longleftrightarrow> c \<noteq> [] \<and> hd c \<noteq> dot \<and> \<not> endsWith c LOCK"

text \<open>The rules of \<open>check-ref-format\<close>, one conjunct each.\<close>

definition ref_format :: "jstring \<Rightarrow> bool" where
  "ref_format v \<longleftrightarrow>
     v \<noteq> [0x40] \<and> (\<forall>c \<in> set (split_at slash v). good_component c) \<and> last v \<noteq> dot
     \<and> \<not> sublist [dot, dot] v \<and> \<not> sublist [0x40, 0x7b] v \<and> (\<forall>u \<in> set v. good_unit u)"

definition weak_component :: "jstring \<Rightarrow> bool" where
  "weak_component c \<longleftrightarrow> (c = [] \<or> hd c \<noteq> dot) \<and> \<not> endsWith c LOCK"

definition clean_units :: "jstring \<Rightarrow> bool" where
  "clean_units v \<longleftrightarrow> \<not> sublist [dot, dot] v \<and> \<not> sublist [0x40, 0x7b] v \<and> (\<forall>u \<in> set v. good_unit u)"

lemma clean_units_Cons:
  "clean_units (u # us) \<longleftrightarrow>
     \<not> (u = dot \<and> us \<noteq> [] \<and> hd us = dot) \<and> \<not> (u = 0x40 \<and> us \<noteq> [] \<and> hd us = 0x7b) \<and> good_unit u \<and> clean_units us"
  by (cases us) (auto simp: clean_units_def sublist_Cons_right)

lemma clean_units_Nil [simp]: "clean_units []"
  by (simp add: clean_units_def)

lemma component_lock:
  assumes "pre = [] \<or> last pre = slash"
  shows "endsWith (pre @ c) LOCK \<longleftrightarrow> endsWith c LOCK"
proof
  assume "endsWith (pre @ c) LOCK"
  then obtain t where "pre @ c = t @ LOCK" by (auto simp: endsWith_iff)
  then obtain us where "pre = t @ us \<and> us @ c = LOCK \<or> pre @ us = t \<and> c = us @ LOCK"
    by (auto simp: append_eq_append_conv2)
  moreover have "us = []" if "pre = t @ us" "us @ c = LOCK"
  proof (rule ccontr)
    assume "us \<noteq> []"
    then have "slash \<in> set us" using assms that(1) by (metis append_is_Nil_conv last_appendR last_in_set)
    then have "slash \<in> set LOCK" using that(2) by (metis Un_iff set_append)
    then show False by (simp add: LOCK_def units_def)
  qed
  ultimately show "endsWith c LOCK" by (auto simp: endsWith_iff)
qed (auto simp: endsWith_iff)

lemma component_start:
  assumes "cs \<le> index" "index \<le> length v"
  shows "index \<noteq> cs \<and> charCodeAt v cs \<noteq> Some dot
     \<longleftrightarrow> drop cs (take index v) \<noteq> [] \<and> hd (drop cs (take index v)) \<noteq> dot"
  using assms by (auto simp: charCodeAt_def hd_drop_conv_nth)

definition loop_accepts :: "jstring \<Rightarrow> nat \<Rightarrow> nat \<Rightarrow> bool" where
  "loop_accepts v cs index \<longleftrightarrow>
     (\<forall>c \<in> set (butlast (split_at slash (drop cs v))). good_component c)
     \<and> weak_component (last (split_at slash (drop cs v))) \<and> clean_units (drop index v)"

lemma ref_syntax_loop_iff:
  "cs \<le> index \<Longrightarrow> index \<le> length v \<Longrightarrow> slash \<notin> set (drop cs (take index v)) \<Longrightarrow>
     take cs v = [] \<or> last (take cs v) = slash \<Longrightarrow>
     ref_syntax_loop v None (length v) cs index \<longleftrightarrow> loop_accepts v cs index"
proof (induction "length v - index" arbitrary: cs index rule: less_induct)
  case less
  note IH = less(1) and prems = less(2-5)
  have lock: "endsWith (take k v) LOCK \<longleftrightarrow> endsWith (drop cs (take k v)) LOCK" if "cs \<le> k" for k
  proof -
    have "take k v = take cs v @ drop cs (take k v)" using append_take_drop_id [of cs "take k v"] that by (simp add: min_absorb1)
    then show ?thesis using component_lock [OF prems(4), of "drop cs (take k v)"] by simp
  qed
  show ?case
  proof (cases "index = length v")
    case True
    then have "split_at slash (drop cs v) = [drop cs v]" using prems(3) by (simp add: split_at_no_sep)
    moreover have "endsWith v LOCK \<longleftrightarrow> endsWith (drop cs v) LOCK" using lock [of "length v"] prems(1,2) by simp
    moreover have "charCodeAt v cs \<noteq> Some dot \<longleftrightarrow> drop cs v = [] \<or> hd (drop cs v) \<noteq> dot"
      by (auto simp: charCodeAt_def hd_drop_conv_nth)
    ultimately show ?thesis
      using True by (subst ref_syntax_loop.simps) (simp add: loop_accepts_def weak_component_def)
  next
    case False
    then have lt: "index < length v" using prems by simp
    define u where "u = v ! index"
    have code: "charCodeAt v index = Some u" using lt by (simp add: charCodeAt_def u_def)
    have tail: "drop index v = u # drop (Suc index) v" using lt by (simp add: Cons_nth_drop_Suc u_def)
    show ?thesis
    proof (cases "u = slash")
      case True
      have "ref_syntax_loop v None (length v) cs index \<longleftrightarrow>
          good_component (drop cs (take index v)) \<and> ref_syntax_loop v None (length v) (index + 1) (index + 1)"
        unfolding good_component_def using component_start [OF prems(1,2)] lock [OF prems(1)]
        by (subst ref_syntax_loop.simps) (simp only: lt code True if_True Let_def simp_thms split: if_split; blast)
      moreover have "ref_syntax_loop v None (length v) (index + 1) (index + 1) \<longleftrightarrow> loop_accepts v (index + 1) (index + 1)"
        using lt True by (intro IH) (auto simp: take_Suc_conv_app_nth u_def)
      moreover have "split_at slash (drop cs v) = drop cs (take index v) # split_at slash (drop (Suc index) v)"
        using split_current(1) [OF prems(3,1) lt] True by (simp add: u_def)
      moreover have "good_unit slash" by (simp add: good_unit_def FORBIDDEN_def)
      ultimately show ?thesis using True tail by (auto simp: loop_accepts_def clean_units_Cons)
    next
      case noslash: False
      let ?next = "drop (Suc index) v"
      have follow: "charCodeAt v (index + 1) = Some x \<longleftrightarrow> ?next \<noteq> [] \<and> hd ?next = x" for x
        using lt by (auto simp: charCodeAt_def hd_drop_conv_nth)
      have step: "ref_syntax_loop v None (length v) cs index \<longleftrightarrow>
          \<not> (u = dot \<and> ?next \<noteq> [] \<and> hd ?next = dot) \<and> \<not> (u = 0x40 \<and> ?next \<noteq> [] \<and> hd ?next = 0x7b)
          \<and> good_unit u \<and> ref_syntax_loop v None (length v) cs (index + 1)"
        by (subst ref_syntax_loop.simps) (simp only: lt code if_True if_False Let_def option.inject noslash
            option.case follow good_unit_def option.distinct simp_thms not_False_eq_True if_cancel
            cong: conj_cong split: if_split; blast)
      moreover have "ref_syntax_loop v None (length v) cs (index + 1) \<longleftrightarrow> loop_accepts v cs (index + 1)"
        using lt prems split_current(2) [OF prems(3,1) lt] noslash by (intro IH) (auto simp: u_def)
      ultimately show ?thesis using tail by (auto simp: loop_accepts_def clean_units_Cons)
    qed
  qed
qed

lemma ref_prefix_unclean: "startsWith v (units ''ref: '') \<Longrightarrow> \<not> clean_units v"
proof
  assume "startsWith v (units ''ref: '')" "clean_units v"
  then have "0x3a \<in> set v" "\<forall>u \<in> set v. good_unit u"
    by (auto simp: startsWith_iff units_def clean_units_def)
  then show False by (auto simp: good_unit_def FORBIDDEN_def)
qed

lemma split_ends:
  "v \<noteq> [] \<Longrightarrow> hd v = slash \<Longrightarrow> [] \<in> set (split_at slash v)"
  "v \<noteq> [] \<Longrightarrow> last v = slash \<longleftrightarrow> last (split_at slash v) = []"
proof -
  show "v \<noteq> [] \<Longrightarrow> hd v = slash \<Longrightarrow> [] \<in> set (split_at slash v)" by (cases v) auto
  assume "v \<noteq> []"
  then obtain w c where v: "v = w @ [c]" by (cases v rule: rev_cases) auto
  show "last v = slash \<longleftrightarrow> last (split_at slash v) = []"
  proof (cases "c = slash")
    case False
    have "last (split_at slash (w @ [c])) \<noteq> []"
    proof (induction w)
      case (Cons x xs)
      obtain p ps where "split_at slash (xs @ [c]) = p # ps" by (cases "split_at slash (xs @ [c])") auto
      then show ?case using Cons by auto
    qed (simp add: False)
    then show ?thesis using v False by simp
  qed (simp add: v split_at_sep_append)
qed

lemma all_components:
  "v \<noteq> [] \<Longrightarrow> (\<forall>c \<in> set (butlast (split_at slash v)). good_component c) \<and> weak_component (last (split_at slash v))
       \<and> last v \<noteq> slash \<longleftrightarrow> (\<forall>c \<in> set (split_at slash v). good_component c)"
proof -
  assume v: "v \<noteq> []"
  have "set (split_at slash v) = insert (last (split_at slash v)) (set (butlast (split_at slash v)))"
    by (metis append_butlast_last_id list.simps(15) rotate1.simps(2) set_rotate1 split_at_not_Nil)
  then show ?thesis using split_ends(2) [OF v] by (auto simp: good_component_def weak_component_def)
qed

lemma ref_syntax_whole:
  assumes "length v \<le> max_safe_integer"
  shows "hasCanonicalRefSyntax_whole v \<longleftrightarrow> v \<noteq> [] \<and> ref_format v"
proof (cases "v = []")
  case False
  have ends: "charCodeAt v 0 = Some x \<longleftrightarrow> hd v = x" "charCodeAt v (length v - Suc 0) = Some x \<longleftrightarrow> last v = x" for x
    using False by (simp_all add: charCodeAt_def hd_conv_nth last_conv_nth)
  have one: "length v - 0 = 1 \<and> hd v = 0x40 \<longleftrightarrow> v = [0x40]" by (cases v) auto
  have "hasCanonicalRefSyntax_whole v \<longleftrightarrow>
      v \<noteq> [0x40] \<and> hd v \<noteq> slash \<and> last v \<noteq> slash \<and> last v \<noteq> dot \<and> \<not> startsWith v (units ''ref: '')
      \<and> ref_syntax_loop v None (length v) 0 0"
    using assms False one
    by (auto simp: hasCanonicalRefSyntax_whole_def hasCanonicalRefSyntax_def
        hasCanonicalRefSyntaxWithWildcard_def Let_def ends)
  also have "\<dots> \<longleftrightarrow> v \<noteq> [0x40] \<and> hd v \<noteq> slash \<and> last v \<noteq> slash \<and> last v \<noteq> dot
      \<and> \<not> startsWith v (units ''ref: '') \<and> loop_accepts v 0 0"
    using ref_syntax_loop_iff [of 0 0 v] by simp
  also have "\<dots> \<longleftrightarrow> ref_format v"
    using all_components [OF False] split_ends(1) [OF False] ref_prefix_unclean [of v]
    by (auto simp: loop_accepts_def ref_format_def clean_units_def [symmetric] good_component_def)
  finally show ?thesis using False by simp
qed (simp add: hasCanonicalRefSyntax_whole_def hasCanonicalRefSyntax_def hasCanonicalRefSyntaxWithWildcard_def)

section \<open>Properties\<close>

text \<open>
  A text passes \<open>checkRefText\<close> exactly when it is well-formed UTF-16 without NUL, LF and CR whose UTF-8
  encoding is within the limit, and the byte count it then reports is the length of that encoding.
\<close>

theorem checkRefText_exact:
  "(rt_problem (checkRefText v bound) = None \<longleftrightarrow>
      plain_text v \<and> (case bound of None \<Rightarrow> True | Some limit \<Rightarrow> length (utf8_encode v) \<le> limit))
   \<and> (rt_problem (checkRefText v bound) = None \<longrightarrow> rt_bytes (checkRefText v bound) = length (utf8_encode v))"
  using check_ref_loop_ok [of bound 0 v] by (auto simp: checkRefText_def over_limit_def split: option.split)

theorem checkRefText_exact_witness:
  "rt_problem (checkRefText [0xe9] None) = None \<and> rt_bytes (checkRefText [0xe9] None) = length (utf8_encode [0xe9])"
proof
  show "rt_problem (checkRefText [0xe9] None) = None"
    by (simp add: checkRefText_def is_high_def is_low_def over_limit_def)
  then show "rt_bytes (checkRefText [0xe9] None) = length (utf8_encode [0xe9])"
    using checkRefText_exact [of "[0xe9]" None] by blast
qed

text \<open>
  C39: \<open>hasCanonicalRefSyntax\<close> over a whole string decides the rules of \<open>git check-ref-format\<close>, stated
  declaratively: components, no double dot, no at-sign before an open brace, no final dot, no forbidden character.
\<close>

theorem hasCanonicalRefSyntax_exact:
  assumes "length v \<le> max_safe_integer"
  shows "hasCanonicalRefSyntax_whole v \<longleftrightarrow> v \<noteq> [] \<and> ref_format v"
  by (rule ref_syntax_whole [OF assms])

theorem hasCanonicalRefSyntax_exact_witness:
  "hasCanonicalRefSyntax_whole (units ''refs/heads/a'') \<longleftrightarrow> units ''refs/heads/a'' \<noteq> [] \<and> ref_format (units ''refs/heads/a'')"
  by (rule hasCanonicalRefSyntax_exact) (simp add: units_def max_safe_integer_def)

end
