(* ===== verification/Bytes.thy ===== *)
theory Bytes
  imports Utf8
begin

text \<open>
  \<open>packages/git/src/common/bytes.ts\<close>: concatenation, hexadecimal text and object ids.
  \<open>fromHex\<close> inverts \<open>toHex\<close> on every byte array, and \<open>toHex\<close> inverts \<open>fromHex\<close> on lower-case
  text of even length; the bytes of a twenty-byte hash print as an object id.
\<close>

section \<open>Definitions\<close>

text \<open>\<open>Uint8Array.prototype.set\<close>, inside the bounds.\<close>

definition set_at :: "bytes \<Rightarrow> nat \<Rightarrow> bytes \<Rightarrow> bytes" where
  "set_at out offset part = take offset out @ part @ drop (offset + length part) out"

fun concat_into :: "bytes \<Rightarrow> nat \<Rightarrow> bytes list \<Rightarrow> bytes" where
  "concat_into out offset [] = out"
| "concat_into out offset (part # parts) = concat_into (set_at out offset part) (offset + length part) parts"

definition concat_bytes :: "bytes list \<Rightarrow> bytes" where
  "concat_bytes parts =
     (if length parts = 1 then hd parts
      else concat_into (replicate (sum_list (map length parts)) 0) 0 parts)"

definition HEX :: "jstring list" where
  "HEX = map (\<lambda>i. padStart (to_radix 16 i) 2 0x30) [0..<256]"

definition toHex :: "bytes \<Rightarrow> jstring" where
  "toHex bs = concat (map (\<lambda>b. HEX ! unat b) bs)"

text \<open>Storing a number into a \<open>Uint8Array\<close>: \<open>NaN\<close> and \<open>Infinity\<close> store 0, others reduce modulo 256.\<close>

definition to_uint8 :: "(bool \<times> jsnum) option \<Rightarrow> byte" where
  "to_uint8 v = (case v of
      Some (neg, Fin n) \<Rightarrow> if neg then - word_of_nat n else word_of_nat n
    | _ \<Rightarrow> 0)"

definition fromHex :: "jstring \<Rightarrow> bytes" where
  "fromHex hex = map (\<lambda>i. to_uint8 (parseInt 16 (take 2 (drop (i * 2) hex)))) [0..<length hex div 2]"

fun equal_from :: "bytes \<Rightarrow> bytes \<Rightarrow> bool" where
  "equal_from (a # as) (b # bs) = (if a \<noteq> b then False else equal_from as bs)"
| "equal_from _ _ = True"

definition equalBytes :: "bytes \<Rightarrow> bytes \<Rightarrow> bool" where
  "equalBytes a b = (if length a \<noteq> length b then False else equal_from a b)"

definition ZERO_OID :: jstring where
  "ZERO_OID = replicate 40 0x30"

definition is_lower_hex :: "unit16 \<Rightarrow> bool" where
  "is_lower_hex u \<longleftrightarrow> (0x30 \<le> u \<and> u \<le> 0x39) \<or> (0x61 \<le> u \<and> u \<le> 0x66)"

definition isOid :: "jstring \<Rightarrow> bool" where
  "isOid v \<longleftrightarrow> length v = 40 \<and> list_all is_lower_hex v"

definition isAbbreviatedOid :: "jstring \<Rightarrow> bool" where
  "isAbbreviatedOid v \<longleftrightarrow> 4 \<le> length v \<and> length v \<le> 40 \<and> list_all is_lower_hex v"

section \<open>Lemmas\<close>

lemma concat_into_eq:
  "concat_into (pre @ replicate (sum_list (map length parts)) 0) (length pre) parts = pre @ concat parts"
proof (induction parts arbitrary: pre)
  case (Cons part parts)
  have "set_at (pre @ replicate (sum_list (map length (part # parts))) 0) (length pre) part
      = (pre @ part) @ replicate (sum_list (map length parts)) 0"
    by (simp add: set_at_def)
  then show ?case using Cons.IH [of "pre @ part"] by (simp del: append_assoc)
qed simp

lemma concat_bytes_concat: "concat_bytes parts = concat parts"
proof (cases "length parts = 1")
  case True
  then obtain p where "parts = [p]" by (cases parts) auto
  then show ?thesis by (simp add: concat_bytes_def)
next
  case False
  then show ?thesis using concat_into_eq [of "[]" parts] by (simp add: concat_bytes_def)
qed

lemma equal_from_eq: "length a = length b \<Longrightarrow> equal_from a b \<longleftrightarrow> a = b"
  by (induction a b rule: equal_from.induct) auto

lemma equalBytes_eq [simp]: "equalBytes a b \<longleftrightarrow> a = b"
  by (auto simp: equalBytes_def equal_from_eq)

lemma HEX_nth: "n < 256 \<Longrightarrow> HEX ! n = [digit_unit (n div 16), digit_unit (n mod 16)]"
proof -
  assume n: "n < 256"
  have zero: "digit_unit 0 = 0x30" by (simp add: digit_unit_def)
  have "padStart (to_radix 16 n) 2 0x30 = [digit_unit (n div 16), digit_unit (n mod 16)]"
  proof (cases "n < 16")
    case True
    then show ?thesis by (simp add: to_radix.simps [of 16 n] padStart_def zero numeral_2_eq_2)
  next
    case False
    then have "n div 16 < 16" using n by (simp add: less_mult_imp_div_less)
    then show ?thesis using False
      by (simp add: to_radix.simps [of 16 n] to_radix.simps [of 16 "n div 16"] padStart_def)
  qed
  then show ?thesis using n by (simp add: HEX_def)
qed

lemma length_toHex [simp]: "length (toHex bs) = 2 * length bs"
  by (induction bs) (simp_all add: toHex_def HEX_nth)

lemma digit_unit_not_prefix: "n < 16 \<Longrightarrow> digit_unit n \<noteq> 0x78 \<and> digit_unit n \<noteq> 0x58 \<and> digit_unit n \<noteq> 0x2d
    \<and> digit_unit n \<noteq> 0x2b \<and> \<not> is_space (digit_unit n)"
proof -
  assume n: "n < 16"
  have "unat (digit_unit n) = (if n < 10 then 0x30 + n else 0x57 + n)"
    using n by (simp add: digit_unit_def del: of_nat_add)
  then show ?thesis using n
    by (auto simp: word_unat_eq_iff is_space_def word_le_nat_alt split: if_splits)
qed

lemma parseInt_hex_pair:
  assumes "a < 16" "b < 16"
  shows "parseInt 16 [digit_unit a, digit_unit b] = Some (False, Fin (a * 16 + b))"
  using assms digit_unit_not_prefix [OF assms(1)] digit_unit_not_prefix [OF assms(2)]
  by (simp add: parseInt_def is_digit_of_unit digits_value_def digit_value_unit)

lemma fromHex_Cons:
  "fromHex (x # y # hex) = to_uint8 (parseInt 16 [x, y]) # fromHex hex"
proof -
  have "[0..<length (x # y # hex) div 2] = 0 # map Suc [0..<length hex div 2]"
    by (simp add: map_Suc_upt upt_conv_Cons)
  then show ?thesis unfolding fromHex_def by (simp add: comp_def)
qed

lemma toHex_Cons: "toHex (b # bs) = digit_unit (unat b div 16) # digit_unit (unat b mod 16) # toHex bs"
  by (simp add: toHex_def HEX_nth)

lemma byte_div_16_less: "unat (b :: byte) div 16 < 16"
  using unat_byte_less [of b] by (simp add: less_mult_imp_div_less)

lemma fromHex_toHex: "fromHex (toHex bs) = bs"
proof (induction bs)
  case Nil
  then show ?case by (simp add: toHex_def fromHex_def)
next
  case (Cons b bs)
  then show ?case
    by (simp add: toHex_Cons fromHex_Cons parseInt_hex_pair byte_div_16_less to_uint8_def)
qed

lemma lower_hex_digit: "is_lower_hex u \<Longrightarrow> \<exists>n < 16. u = digit_unit n"
proof -
  assume u: "is_lower_hex u"
  define n where "n = (if u \<le> 0x39 then unat u - 0x30 else unat u - 0x57)"
  have n: "unat u = (if n < 10 then 0x30 + n else 0x57 + n)" "n < 16"
    using u by (auto simp: n_def is_lower_hex_def word_le_nat_alt)
  have "u = word_of_nat (unat u)" by simp
  then have "u = digit_unit n" unfolding n(1) digit_unit_def by (cases "n < 10") simp_all
  then show ?thesis using n(2) by blast
qed

lemma is_lower_hex_digit: "n < 16 \<Longrightarrow> is_lower_hex (digit_unit n)"
  by (simp add: is_lower_hex_def digit_unit_def word_le_nat_alt del: of_nat_add)

lemma toHex_fromHex:
  "even (length hex) \<Longrightarrow> list_all is_lower_hex hex \<Longrightarrow> toHex (fromHex hex) = hex"
proof (induction hex rule: induct_list012)
  case 1
  then show ?case by (simp add: toHex_def fromHex_def)
next
  case (3 x y hex)
  from 3(4) obtain a b where ab: "x = digit_unit a" "a < 16" "y = digit_unit b" "b < 16"
    using lower_hex_digit [of x] lower_hex_digit [of y] by auto
  have "a * 16 + b < 256" using ab by simp
  then have "unat (word_of_nat (a * 16 + b) :: byte) = a * 16 + b" by (rule unat_word_of_nat_byte)
  moreover have "(a * 16 + b) div 16 = a" "(a * 16 + b) mod 16 = b" using ab by auto
  ultimately show ?case using 3 ab
    by (simp add: fromHex_Cons parseInt_hex_pair to_uint8_def toHex_Cons del: of_nat_add)
qed simp

lemma list_all_lower_toHex: "list_all is_lower_hex (toHex bs)"
  by (induction bs) (simp_all add: toHex_Cons is_lower_hex_digit byte_div_16_less toHex_def [of "[]"])

lemma isOid_toHex: "length bs = 20 \<Longrightarrow> isOid (toHex bs)"
  by (simp add: isOid_def list_all_lower_toHex)

lemma isOid_imp_abbreviated: "isOid v \<Longrightarrow> isAbbreviatedOid v"
  by (simp add: isOid_def isAbbreviatedOid_def)

section \<open>Properties\<close>

text \<open>
  hexadecimal text and bytes convert without loss: \<open>fromHex\<close> inverts \<open>toHex\<close>, twenty bytes print as an
  object id, and an object id reads to twenty bytes that print as it.
\<close>

theorem hex_roundtrip:
  "fromHex (toHex bs) = bs \<and> (isOid (toHex bs) \<longleftrightarrow> length bs = 20)
   \<and> (isOid v \<longrightarrow> length (fromHex v) = 20 \<and> toHex (fromHex v) = v)"
  by (auto simp: fromHex_toHex isOid_def list_all_lower_toHex toHex_fromHex) (simp add: fromHex_def)

theorem hex_roundtrip_witness: "toHex (fromHex ZERO_OID) = ZERO_OID"
proof -
  have "isOid ZERO_OID" by (simp add: isOid_def ZERO_OID_def list_all_iff is_lower_hex_def)
  then show ?thesis using hex_roundtrip [of "[]" ZERO_OID] by simp
qed

end
