(* ===== verification/Objects.thy ===== *)
theory Objects
  imports Bytes
begin

text \<open>
  Commit and tag objects (\<open>packages/git/src/common/objects.ts\<close>): identity lines, the header block with
  its continuation lines, and the readers and writers. Writing then reading returns the commit or tag,
  under the conditions its text format needs. SHA-1 comes from \<open>node:crypto\<close> and is a parameter.
\<close>

section \<open>Data\<close>

datatype ObjectType = Commit | Tree | Blob | Tag

fun type_text :: "ObjectType \<Rightarrow> jstring" where
  "type_text Commit = units ''commit''"
| "type_text Tree = units ''tree''"
| "type_text Blob = units ''blob''"
| "type_text Tag = units ''tag''"

fun TYPE_NUMBER :: "ObjectType \<Rightarrow> nat" where
  "TYPE_NUMBER Commit = 1"
| "TYPE_NUMBER Tree = 2"
| "TYPE_NUMBER Blob = 3"
| "TYPE_NUMBER Tag = 4"

definition NUMBER_TYPE :: "nat \<Rightarrow> ObjectType option" where
  "NUMBER_TYPE n =
     (if n = 1 then Some Commit else if n = 2 then Some Tree else if n = 3 then Some Blob
      else if n = 4 then Some Tag else None)"

definition MAX_OBJECT_BYTES :: nat where
  "MAX_OBJECT_BYTES = 48 * 1024 * 1024"

record Person =
  person_name :: jstring
  email :: jstring
  timestamp :: int
  timezoneOffset :: int

record CommitData =
  commit_tree :: jstring
  parent :: "jstring list"
  author :: Person
  committer :: Person
  gpgsig :: "jstring option"
  commit_message :: jstring

record TagData =
  tag_object :: jstring
  tag_type :: ObjectType
  tag_name :: jstring
  tagger :: "Person option"
  tag_message :: jstring

section \<open>Numbers as text\<close>

text \<open>
  \<open>String(n)\<close> of an integral double: the shortest decimal digits that read back as \<open>n\<close>, padded with
  zeros below \<open>10 ^ 21\<close> and in exponent form from there on.
\<close>

definition short_digits :: "nat \<Rightarrow> nat \<Rightarrow> nat \<Rightarrow> nat option" where
  "short_digits n len k =
     (let unit = 10 ^ (len - k); lo = n div unit; good = (\<lambda>d. to_num (d * unit) = Fin n)
      in if good lo \<and> (\<not> good (lo + 1) \<or> 2 * (n mod unit) \<le> unit) then Some lo
         else if good (lo + 1) then Some (lo + 1) else None)"

fun shortest_from :: "nat \<Rightarrow> nat \<Rightarrow> nat \<Rightarrow> nat \<Rightarrow> nat \<times> nat" where
  "shortest_from n len k 0 = (n, 0)"
| "shortest_from n len k (Suc fuel) =
     (case short_digits n len k of Some d \<Rightarrow> (d, len - k) | None \<Rightarrow> shortest_from n len (k + 1) fuel)"

definition nat_text :: "nat \<Rightarrow> jstring" where
  "nat_text n =
     (if n < 2 ^ 53 then to_radix 10 n
      else
        let len = length (to_radix 10 n); (d, zeros) = shortest_from n len 1 len; ds = to_radix 10 d
        in if n < 10 ^ 21 then ds @ replicate zeros 0x30
           else let frac = rev (dropWhile (\<lambda>u. u = 0x30) (rev (tl ds)))
                in [hd ds] @ (if frac = [] then [] else 0x2e # frac) @ units ''e+''
                   @ to_radix 10 (length ds + zeros - 1))"

definition number_text :: "int \<Rightarrow> jstring" where
  "number_text n = (if n < 0 then 0x2d # nat_text (nat (- n)) else nat_text (nat n))"

section \<open>Object header\<close>

definition objectHeader :: "ObjectType \<Rightarrow> nat \<Rightarrow> bytes" where
  "objectHeader type n = utf8_encode (type_text type @ [0x20] @ nat_text n @ [0])"

definition hashObject :: "(bytes \<Rightarrow> bytes) \<Rightarrow> ObjectType \<Rightarrow> bytes \<Rightarrow> jstring" where
  "hashObject sha1 type data = toHex (sha1 (objectHeader type (length data) @ data))"

section \<open>Identity lines\<close>

definition formatTimezone :: "int \<Rightarrow> jstring" where
  "formatTimezone offsetMinutes =
     (let east = - offsetMinutes; sign = (if east < 0 then 0x2d else 0x2b); magnitude = nat \<bar>east\<bar>
      in [sign] @ padStart (nat_text (magnitude div 60)) 2 0x30 @ padStart (nat_text (magnitude mod 60)) 2 0x30)"

definition formatPerson :: "Person \<Rightarrow> jstring" where
  "formatPerson p =
     person_name p @ units '' <'' @ email p @ units ''> '' @ number_text (timestamp p) @ [0x20]
     @ formatTimezone (timezoneOffset p)"

text \<open>A finite \<open>parseInt\<close> result; \<open>NaN\<close> and the infinities are \<open>None\<close>.\<close>

definition finite_int :: "(bool \<times> jsnum) option \<Rightarrow> int option" where
  "finite_int v = (case v of
      Some (neg, Fin n) \<Rightarrow> Some (if neg then - int n else int n)
    | _ \<Rightarrow> None)"

definition is_digit :: "unit16 \<Rightarrow> bool" where
  "is_digit u \<longleftrightarrow> 0x30 \<le> u \<and> u \<le> 0x39"

definition is_zone :: "jstring \<Rightarrow> bool" where
  "is_zone z \<longleftrightarrow> length z = 5 \<and> (hd z = 0x2b \<or> hd z = 0x2d) \<and> list_all is_digit (tl z)"

definition parsePerson :: "jstring \<Rightarrow> Person" where
  "parsePerson line =
     (let opening = indexOf line (units '' <'');
          close = (case opening of None \<Rightarrow> None | Some o' \<Rightarrow> indexOf_from line [0x3e] (o' + 2))
      in case (opening, close) of
           (Some o', Some c) \<Rightarrow>
             let rest = split_at 0x20 (trim (drop (c + 1) line));
                 stamp = (case rest of first # _ \<Rightarrow> finite_int (parseInt 10 first) | [] \<Rightarrow> Some 0);
                 offset =
                   (case rest of
                      _ # zone # _ \<Rightarrow>
                        if is_zone zone then
                          let minutes = the (finite_int (parseInt 10 (take 2 (drop 1 zone)))) * 60
                                        + the (finite_int (parseInt 10 (drop 3 zone)))
                          in if minutes = 0 then 0 else if hd zone = 0x2d then minutes else - minutes
                        else 0
                    | _ \<Rightarrow> 0)
             in \<lparr>person_name = take o' line, email = drop (o' + 2) (take c line),
                 timestamp = (case stamp of Some t \<Rightarrow> t | None \<Rightarrow> 0), timezoneOffset = offset\<rparr>
         | _ \<Rightarrow> \<lparr>person_name = line, email = [], timestamp = 0, timezoneOffset = 0\<rparr>)"

section \<open>Header blocks\<close>

text \<open>One line of the loop: the state pairs each header with the continuation lines pushed for it.\<close>

definition header_line :: "(jstring \<times> jstring \<times> jstring list) list \<Rightarrow> jstring \<Rightarrow> (jstring \<times> jstring \<times> jstring list) list" where
  "header_line headers line =
     (if startsWith line [0x20] \<and> headers \<noteq> [] then
        (case last headers of (key, val, extra) \<Rightarrow> butlast headers @ [(key, val, extra @ [tl line])])
      else
        case indexOf line [0x20] of
          Some space \<Rightarrow>
            if space > 0 then headers @ [(take space line, drop (space + 1) line, [])] else headers
        | None \<Rightarrow> headers)"

definition with_extra :: "jstring \<times> jstring \<times> jstring list \<Rightarrow> jstring \<times> jstring" where
  "with_extra h = (case h of (key, val, extra) \<Rightarrow>
     (key, if extra \<noteq> [] then val @ [0x0a] @ join_with [0x0a] extra else val))"

definition splitHeaders :: "jstring \<Rightarrow> (jstring \<times> jstring) list \<times> jstring" where
  "splitHeaders text =
     (let blank = indexOf text [0x0a, 0x0a];
          head = (case blank of None \<Rightarrow> text | Some b \<Rightarrow> take b text);
          message = (case blank of None \<Rightarrow> [] | Some b \<Rightarrow> drop (b + 2) text)
      in (map with_extra (foldl header_line [] (split_at 0x0a head)), message))"

section \<open>Commits\<close>

definition no_person :: Person where
  "no_person = \<lparr>person_name = [], email = [], timestamp = 0, timezoneOffset = 0\<rparr>"

definition commit_header :: "jstring \<times> jstring \<Rightarrow> CommitData \<times> bool \<Rightarrow> (CommitData \<times> bool) result" where
  "commit_header h s = (case h of (key, val) \<Rightarrow> case s of (commit, sawTree) \<Rightarrow>
     if key = units ''tree'' then
       (if \<not> isOid val then Inl (CorruptError ''commit has a malformed tree oid'')
        else Inr (commit\<lparr>commit_tree := val\<rparr>, True))
     else if key = units ''parent'' then
       (if \<not> isOid val then Inl (CorruptError ''commit has a malformed parent oid'')
        else Inr (commit\<lparr>parent := parent commit @ [val]\<rparr>, sawTree))
     else if key = units ''author'' then Inr (commit\<lparr>author := parsePerson val\<rparr>, sawTree)
     else if key = units ''committer'' then Inr (commit\<lparr>committer := parsePerson val\<rparr>, sawTree)
     else if key = units ''gpgsig'' then Inr (commit\<lparr>gpgsig := Some val\<rparr>, sawTree)
     else Inr (commit, sawTree))"

definition parseCommitText :: "jstring \<Rightarrow> CommitData result" where
  "parseCommitText text =
     (let (headers, message) = splitHeaders text;
          commit = \<lparr>commit_tree = [], parent = [], author = no_person, committer = no_person,
                    gpgsig = None, commit_message = message\<rparr>
      in bindR (foldR commit_header headers (commit, False))
           (\<lambda>(commit', sawTree). if sawTree then Inr commit'
              else Inl (CorruptError ''commit is missing its tree header'')))"

definition parseCommit :: "bytes \<Rightarrow> CommitData result" where
  "parseCommit data = parseCommitText (utf8_decode data)"

definition parseReplayCommit :: "bytes \<Rightarrow> CommitData result" where
  "parseReplayCommit data =
     (case utf8_decode_fatal data of
        None \<Rightarrow> Inl (GitError ''EUNSUPPORTED'' ''replay does not support non-UTF-8 commit objects'')
      | Some text \<Rightarrow>
          let blank = indexOf text [0x0a, 0x0a];
              head = (case blank of None \<Rightarrow> text | Some b \<Rightarrow> take b text)
          in if list_ex (\<lambda>line. startsWith line (units ''encoding '')) (split_at 0x0a head)
             then Inl (GitError ''EUNSUPPORTED'' ''replay does not support commit encoding headers'')
             else parseCommitText text)"

definition commit_lines :: "CommitData \<Rightarrow> jstring list" where
  "commit_lines commit =
     [units ''tree '' @ commit_tree commit]
     @ map (\<lambda>p. units ''parent '' @ p) (parent commit)
     @ [units ''author '' @ formatPerson (author commit), units ''committer '' @ formatPerson (committer commit)]
     @ (case gpgsig commit of
          None \<Rightarrow> []
        | Some sig \<Rightarrow> [units ''gpgsig '' @ join_with [0x0a, 0x20] (split_at 0x0a sig)])"

definition serializeCommit :: "CommitData \<Rightarrow> bytes" where
  "serializeCommit commit =
     utf8_encode (join_with [0x0a] (commit_lines commit) @ [0x0a, 0x0a] @ commit_message commit)"

section \<open>Tags\<close>

definition type_of_text :: "jstring \<Rightarrow> ObjectType option" where
  "type_of_text v =
     (if v = units ''commit'' then Some Commit else if v = units ''tree'' then Some Tree
      else if v = units ''blob'' then Some Blob else if v = units ''tag'' then Some Tag else None)"

definition tag_header :: "jstring \<times> jstring \<Rightarrow> TagData \<times> bool \<Rightarrow> (TagData \<times> bool) result" where
  "tag_header h s = (case h of (key, val) \<Rightarrow> case s of (tag, sawObject) \<Rightarrow>
     if key = units ''object'' then
       (if \<not> isOid val then Inl (CorruptError ''tag has a malformed object oid'')
        else Inr (tag\<lparr>tag_object := val\<rparr>, True))
     else if key = units ''type'' then
       (case type_of_text val of
          None \<Rightarrow> Inl (CorruptError ''tag has an unknown target type'')
        | Some t \<Rightarrow> Inr (tag\<lparr>tag_type := t\<rparr>, sawObject))
     else if key = units ''tag'' then Inr (tag\<lparr>tag_name := val\<rparr>, sawObject)
     else if key = units ''tagger'' then Inr (tag\<lparr>tagger := Some (parsePerson val)\<rparr>, sawObject)
     else Inr (tag, sawObject))"

definition parseTag :: "bytes \<Rightarrow> TagData result" where
  "parseTag data =
     (let (headers, message) = splitHeaders (utf8_decode data);
          tag = \<lparr>tag_object = [], tag_type = Commit, tag_name = [], tagger = None, tag_message = message\<rparr>
      in bindR (foldR tag_header headers (tag, False))
           (\<lambda>(tag', sawObject). if sawObject then Inr tag'
              else Inl (CorruptError ''tag is missing its object header'')))"

definition tag_lines :: "TagData \<Rightarrow> jstring list" where
  "tag_lines tag =
     [units ''object '' @ tag_object tag, units ''type '' @ type_text (tag_type tag), units ''tag '' @ tag_name tag]
     @ (case tagger tag of None \<Rightarrow> [] | Some p \<Rightarrow> [units ''tagger '' @ formatPerson p])"

definition serializeTag :: "TagData \<Rightarrow> bytes" where
  "serializeTag tag = utf8_encode (join_with [0x0a] (tag_lines tag) @ [0x0a, 0x0a] @ tag_message tag)"

section \<open>Reading numbers back\<close>

lemma is_digit_of_10: "is_digit_of 10 u \<longleftrightarrow> is_digit u"
proof -
  have "\<not> 0x57 + 10 > unat u" if "0x61 \<le> unat u" using that by simp
  then show ?thesis
    by (auto simp: is_digit_of_def digit_value_def is_digit_def word_le_nat_alt split: if_splits)
qed

lemma digit_facts: "is_digit u \<Longrightarrow> \<not> is_space u \<and> u \<noteq> 0x2d \<and> u \<noteq> 0x2b \<and> u \<noteq> 0x20 \<and> u \<noteq> 0x0a"
  by (auto simp: is_digit_def is_space_def word_le_nat_alt word_unat_eq_iff)

lemma takeWhile_all: "\<forall>u \<in> set ds. P u \<Longrightarrow> takeWhile P ds = ds"
  by (simp add: takeWhile_eq_all_conv)

lemma parseInt_digits:
  assumes "ds \<noteq> []" "\<forall>u \<in> set ds. is_digit u"
  shows "parseInt 10 ds = Some (False, to_num (digits_value 10 ds))"
    and "parseInt 10 (0x2d # ds) = Some (True, to_num (digits_value 10 ds))"
proof -
  have all: "takeWhile (is_digit_of 10) ds = ds" using assms by (simp add: is_digit_of_10 takeWhile_all)
  obtain d rest where ds: "ds = d # rest" using assms(1) by (cases ds) auto
  have d: "\<not> is_space d" "d \<noteq> 0x2d" "d \<noteq> 0x2b" using assms(2) ds digit_facts by auto
  have "dropWhile is_space ds = ds" using d ds by simp
  then show "parseInt 10 ds = Some (False, to_num (digits_value 10 ds))"
    unfolding parseInt_def using all d ds assms(1) by (simp add: Let_def)
  have "\<not> is_space 0x2d" by (simp add: is_space_def)
  then show "parseInt 10 (0x2d # ds) = Some (True, to_num (digits_value 10 ds))"
    unfolding parseInt_def by (simp add: Let_def all assms(1) del: takeWhile_eq_all_conv)
qed

lemma nat_text_digits: "n < 2 ^ 53 \<Longrightarrow> \<forall>u \<in> set (nat_text n). is_digit u"
  using to_radix_digits [of 10 n] by (simp add: nat_text_def is_digit_of_10)

lemma nat_text_nonempty: "n < 2 ^ 53 \<Longrightarrow> nat_text n \<noteq> []"
  by (simp add: nat_text_def)

lemma finite_int_nat_text:
  assumes "n < 2 ^ 53"
  shows "finite_int (parseInt 10 (nat_text n)) = Some (int n)"
    and "finite_int (parseInt 10 (0x2d # nat_text n)) = Some (- int n)"
  using parseInt_digits [OF nat_text_nonempty nat_text_digits, OF assms assms] assms
  by (simp_all add: finite_int_def nat_text_def digits_value_to_radix)

lemma finite_int_number_text: "\<bar>t\<bar> \<le> int max_safe_integer \<Longrightarrow> finite_int (parseInt 10 (number_text t)) = Some t"
  using finite_int_nat_text [of "nat t"] finite_int_nat_text [of "nat (- t)"]
  by (auto simp: number_text_def max_safe_integer_def)

lemma number_text_units:
  assumes "\<bar>t\<bar> \<le> int max_safe_integer"
  shows "number_text t \<noteq> []" "u \<in> set (number_text t) \<Longrightarrow> \<not> is_space u \<and> u \<noteq> 0x20 \<and> u \<noteq> 0x0a"
proof -
  have lt: "nat t < 2 ^ 53" "nat (- t) < 2 ^ 53" using assms by (auto simp: max_safe_integer_def)
  show "number_text t \<noteq> []" using nat_text_nonempty [OF lt(1)] by (simp add: number_text_def)
  show "u \<in> set (number_text t) \<Longrightarrow> \<not> is_space u \<and> u \<noteq> 0x20 \<and> u \<noteq> 0x0a"
    using nat_text_digits [OF lt(1)] nat_text_digits [OF lt(2)] digit_facts [of u]
    by (auto simp: number_text_def is_space_def split: if_splits)
qed

text \<open>Two decimal digits.\<close>

lemma two_digits:
  assumes "n < 100"
  shows "length (padStart (nat_text n) 2 0x30) = 2" "\<forall>u \<in> set (padStart (nat_text n) 2 0x30). is_digit u"
    "finite_int (parseInt 10 (padStart (nat_text n) 2 0x30)) = Some (int n)"
proof -
  have n: "n < 2 ^ 53" using assms by simp
  have rad: "nat_text n = to_radix 10 n" using n by (simp add: nat_text_def)
  show len: "length (padStart (nat_text n) 2 0x30) = 2"
    unfolding rad using assms by (intro length_padStart length_to_radix) simp_all
  show digits: "\<forall>u \<in> set (padStart (nat_text n) 2 0x30). is_digit u"
    using nat_text_digits [OF n] by (auto simp: padStart_def is_digit_def)
  have "padStart (nat_text n) 2 0x30 \<noteq> []" using len by auto
  then show "finite_int (parseInt 10 (padStart (nat_text n) 2 0x30)) = Some (int n)"
    using parseInt_digits(1) [OF _ digits] n assms by (simp add: finite_int_def) (simp add: rad digits_value_to_radix)
qed

section \<open>Identity lines round-trip\<close>

definition person_ok :: "Person \<Rightarrow> bool" where
  "person_ok p \<longleftrightarrow>
     indexOf (person_name p) (units '' <'') = None \<and> 0x3e \<notin> set (email p)
     \<and> 0x0a \<notin> set (person_name p) \<and> 0x0a \<notin> set (email p)
     \<and> \<bar>timestamp p\<bar> \<le> int max_safe_integer \<and> \<bar>timezoneOffset p\<bar> < 6000"

lemma indexOf_pair:
  assumes "a \<noteq> b" "indexOf xs [a, b] = None"
  shows "indexOf (xs @ a # b # ys) [a, b] = Some (length xs)"
  using assms(2)
proof (induction xs)
  case (Cons x xs)
  then show ?case using assms(1) by (cases xs) (auto split: if_splits)
qed simp

lemma zone_facts:
  assumes "\<bar>off\<bar> < 6000"
  shows "is_zone (formatTimezone off)"
    and "the (finite_int (parseInt 10 (take 2 (drop 1 (formatTimezone off))))) * 60
           + the (finite_int (parseInt 10 (drop 3 (formatTimezone off)))) = \<bar>off\<bar>"
    and "hd (formatTimezone off) = (if off > 0 then 0x2d else 0x2b)"
    and "u \<in> set (formatTimezone off) \<Longrightarrow> \<not> is_space u \<and> u \<noteq> 0x20 \<and> u \<noteq> 0x0a"
proof -
  define m where "m = nat \<bar>off\<bar>"
  define h l where "h = padStart (nat_text (m div 60)) 2 0x30" and "l = padStart (nat_text (m mod 60)) 2 (0x30 :: unit16)"
  have z: "formatTimezone off = (if off > 0 then 0x2d else 0x2b) # h @ l"
    by (auto simp: formatTimezone_def Let_def m_def h_def l_def)
  have m: "m div 60 < 100" "m mod 60 < 100" using assms by (auto simp: m_def less_mult_imp_div_less)
  note hi = two_digits [OF m(1), folded h_def] and ld = two_digits [OF m(2), folded l_def]
  show "is_zone (formatTimezone off)" unfolding z using hi ld by (auto simp: is_zone_def list_all_iff)
  have "take 2 (drop 1 (formatTimezone off)) = h" "drop 3 (formatTimezone off) = l"
    unfolding z using hi(1) by (simp_all add: numeral_3_eq_3 numeral_2_eq_2)
  then show "the (finite_int (parseInt 10 (take 2 (drop 1 (formatTimezone off))))) * 60
           + the (finite_int (parseInt 10 (drop 3 (formatTimezone off)))) = \<bar>off\<bar>"
    using hi(3) ld(3) by (simp add: zdiv_int zmod_int m_def)
  show "hd (formatTimezone off) = (if off > 0 then 0x2d else 0x2b)" unfolding z by simp
  show "u \<in> set (formatTimezone off) \<Longrightarrow> \<not> is_space u \<and> u \<noteq> 0x20 \<and> u \<noteq> 0x0a"
    unfolding z using hi(2) ld(2) digit_facts [of u] by (auto simp: is_space_def split: if_splits)
qed

lemma trim_solid:
  assumes "xs \<noteq> []" "\<not> is_space (hd xs)" "\<not> is_space (last xs)"
  shows "trim (0x20 # xs) = xs"
proof -
  have sp: "is_space 0x20" by (simp add: is_space_def)
  have "dropWhile is_space xs = xs" using assms(1,2) by (cases xs) auto
  moreover have "dropWhile is_space (rev xs) = rev xs"
    using assms(1,3) by (cases xs rule: rev_cases) auto
  ultimately show ?thesis using sp by (simp add: trim_def)
qed

lemma parsePerson_formatPerson:
  assumes "person_ok p"
  shows "parsePerson (formatPerson p) = p"
proof -
  define T where "T = number_text (timestamp p)"
  define Z where "Z = formatTimezone (timezoneOffset p)"
  let ?tail = "0x20 # T @ 0x20 # Z"
  note ok = assms [unfolded person_ok_def]
  note T = number_text_units [of "timestamp p", folded T_def] and Z = zone_facts [of "timezoneOffset p", folded Z_def]
  have line: "formatPerson p = person_name p @ 0x20 # 0x3c # email p @ 0x3e # ?tail"
    by (simp add: formatPerson_def units_def T_def Z_def)
  have op: "indexOf (formatPerson p) (units '' <'') = Some (length (person_name p))"
    unfolding line using ok indexOf_pair [of "0x20 :: unit16" "0x3c" "person_name p"] by (simp add: units_def)
  have close: "indexOf_from (formatPerson p) [0x3e] (length (person_name p) + 2)
      = Some (length (person_name p) + 2 + length (email p))"
    unfolding line indexOf_from_def using ok indexOf_unit_append [of "0x3e" "email p" ?tail] by simp
  have "Z \<noteq> []" using Z(1) ok by (auto simp: is_zone_def)
  have solid: "trim ?tail = T @ 0x20 # Z"
    by (rule trim_solid) (use ok T Z \<open>Z \<noteq> []\<close> in \<open>auto simp: last_append\<close>)
  have parts: "split_at 0x20 (trim ?tail) = [T, Z]"
  proof -
    have "0x20 \<notin> set T" "0x20 \<notin> set Z" using ok T(2) Z(4) by blast+
    then show ?thesis by (simp add: solid split_at_append split_at_no_sep)
  qed
  have rest: "split_at 0x20 (trim (drop (Suc (length (person_name p) + 2 + length (email p))) (formatPerson p)))
      = [T, Z]"
  proof -
    let ?pre = "person_name p @ 0x20 # 0x3c # email p @ [0x3e]"
    have "formatPerson p = ?pre @ ?tail" "Suc (length (person_name p) + 2 + length (email p)) = length ?pre"
      by (simp_all add: line)
    then have "drop (Suc (length (person_name p) + 2 + length (email p))) (formatPerson p) = ?tail"
      by (metis append_eq_conv_conj)
    then show ?thesis using parts by simp
  qed
  have stamp: "finite_int (parseInt 10 T) = Some (timestamp p)"
    using ok finite_int_number_text by (simp add: T_def)
  show ?thesis
    unfolding parsePerson_def Let_def op option.case close prod.case Suc_eq_plus1 [symmetric] rest list.case stamp
    using ok Z(1-3) by (simp add: line)
qed

section \<open>Header blocks round-trip\<close>

lemma indexOf_skip: "c \<notin> set xs \<Longrightarrow> indexOf (xs @ ys) [c, d] = map_option (\<lambda>k. length xs + k) (indexOf ys [c, d])"
  by (induction xs; cases "indexOf ys [c, d]") auto

lemma indexOf_blank:
  "lines \<noteq> [] \<Longrightarrow> \<forall>l \<in> set lines. l \<noteq> [] \<and> c \<notin> set l \<Longrightarrow>
     indexOf (join_with [c] lines @ c # c # rest) [c, c] = Some (length (join_with [c] lines))"
proof (induction lines)
  case (Cons l ls)
  show ?case
  proof (cases "ls = []")
    case True
    then show ?thesis using Cons.prems by (simp add: indexOf_skip)
  next
    case False
    then obtain u us where u: "join_with [c] ls = u # us" "u \<noteq> c"
      using Cons.prems(2) by (cases ls; cases "tl ls"; cases "hd ls") auto
    then show ?thesis using Cons False
      by (simp add: join_with_Cons indexOf_skip)
  qed
qed simp

definition good_key :: "jstring \<Rightarrow> bool" where
  "good_key k \<longleftrightarrow> k \<noteq> [] \<and> 0x20 \<notin> set k \<and> 0x0a \<notin> set k"

lemma header_line_plain:
  assumes "good_key k"
  shows "header_line hs (k @ 0x20 # v) = hs @ [(k, v, [])]"
proof -
  have "\<not> startsWith (k @ 0x20 # v) [0x20]" using assms by (cases k) (auto simp: good_key_def)
  moreover have "indexOf (k @ 0x20 # v) [0x20] = Some (length k)"
    using assms by (simp add: good_key_def indexOf_unit_append)
  ultimately show ?thesis using assms by (simp add: header_line_def good_key_def)
qed

lemma foldl_plain:
  "\<forall>(k, v) \<in> set kvs. good_key k \<Longrightarrow>
     foldl header_line hs (map (\<lambda>(k, v). k @ 0x20 # v) kvs) = hs @ map (\<lambda>(k, v). (k, v, [])) kvs"
  by (induction kvs arbitrary: hs) (auto simp: header_line_plain)

lemma foldl_continued:
  "foldl header_line (hs @ [(k, v, extra)]) (map ((#) 0x20) ls) = hs @ [(k, v, extra @ ls)]"
  by (induction ls arbitrary: extra) (simp_all add: header_line_def)

lemma splitHeaders_lines:
  assumes "lines \<noteq> []" "\<forall>l \<in> set lines. l \<noteq> [] \<and> 0x0a \<notin> set l"
  shows "splitHeaders (join_with [0x0a] lines @ [0x0a, 0x0a] @ message)
       = (map with_extra (foldl header_line [] lines), message)"
  using assms indexOf_blank [of lines "0x0a" message] split_at_join [of lines "0x0a"]
  by (simp add: splitHeaders_def Let_def)

lemma splitHeaders_plain:
  assumes "kvs \<noteq> []" "\<forall>(k, v) \<in> set kvs. good_key k \<and> 0x0a \<notin> set v"
  shows "splitHeaders (join_with [0x0a] (map (\<lambda>(k, v). k @ 0x20 # v) kvs) @ [0x0a, 0x0a] @ message) = (kvs, message)"
proof -
  let ?lines = "map (\<lambda>(k, v). k @ 0x20 # v) kvs"
  have "splitHeaders (join_with [0x0a] ?lines @ [0x0a, 0x0a] @ message)
      = (map with_extra (foldl header_line [] ?lines), message)"
    by (rule splitHeaders_lines) (use assms in \<open>auto simp: good_key_def\<close>)
  moreover have "foldl header_line [] ?lines = map (\<lambda>(k, v). (k, v, [])) kvs"
    using foldl_plain [of kvs "[]"] assms(2) by auto
  ultimately show ?thesis by (simp add: with_extra_def comp_def case_prod_unfold)
qed

lemma join_with_hd: "join_with sep ((p @ x) # xs) = p @ join_with sep (x # xs)"
  by (cases xs) simp_all

lemma join_continued: "join_with [c, d] (l # ls) = join_with [c] (l # map ((#) d) ls)"
proof (induction ls arbitrary: l)
  case (Cons x xs)
  then show ?case using join_with_hd [of "[c]" "[d]" x] by simp
qed simp

lemma join_with_snoc_join:
  "ys \<noteq> [] \<Longrightarrow> join_with sep (xs @ [join_with sep ys]) = join_with sep (xs @ ys)"
  by (induction xs) (simp_all add: join_with_Cons)

lemma continued_lines:
  assumes "split_at 0x0a val = l # ls"
  shows "join_with [0x0a] (plain @ [key @ 0x20 # join_with [0x0a, 0x20] (split_at 0x0a val)])
     = join_with [0x0a] (plain @ (key @ 0x20 # l) # map ((#) 0x20) ls)"
proof -
  have "key @ 0x20 # join_with [0x0a, 0x20] (split_at 0x0a val) = join_with [0x0a] ((key @ 0x20 # l) # map ((#) 0x20) ls)"
    unfolding assms join_continued using join_with_hd [of "[0x0a]" "key @ [0x20]" l] by simp
  then show ?thesis
    using join_with_snoc_join [of "(key @ 0x20 # l) # map ((#) 0x20) ls" "[0x0a]" plain] by simp
qed

text \<open>A last header whose value spans several lines, written with a leading blank on each further line.\<close>

lemma splitHeaders_continued:
  assumes "\<forall>(k, v) \<in> set kvs. good_key k \<and> 0x0a \<notin> set v" "good_key key"
  shows "splitHeaders (join_with [0x0a] (map (\<lambda>(k, v). k @ 0x20 # v) kvs
            @ [key @ 0x20 # join_with [0x0a, 0x20] (split_at 0x0a val)]) @ [0x0a, 0x0a] @ message)
       = (kvs @ [(key, val)], message)"
proof -
  obtain l ls where split: "split_at 0x0a val = l # ls" by (cases "split_at 0x0a val") auto
  have nolf: "\<forall>x \<in> set (l # ls). 0x0a \<notin> set x" unfolding split [symmetric] by (blast dest: split_at_parts)
  have keys: "\<forall>(k, v) \<in> set kvs. good_key k" using assms(1) by auto
  let ?plain = "map (\<lambda>(k, v). k @ 0x20 # v) kvs"
  let ?lines = "?plain @ (key @ 0x20 # l) # map ((#) 0x20) ls"
  note continued_lines [OF split, of ?plain key]
  moreover have "splitHeaders (join_with [0x0a] ?lines @ [0x0a, 0x0a] @ message)
      = (map with_extra (foldl header_line [] ?lines), message)"
    by (rule splitHeaders_lines) (use assms nolf in \<open>auto simp: good_key_def\<close>)
  moreover have "foldl header_line [] ?lines = map (\<lambda>(k, v). (k, v, [])) kvs @ [(key, l, ls)]"
    using foldl_plain [of kvs "[]", OF keys] assms foldl_continued [of "map (\<lambda>(k, v). (k, v, [])) kvs" key l "[]" ls]
    by (auto simp: header_line_plain)
  moreover have "with_extra (key, l, ls) = (key, val)"
  proof -
    have "val = join_with [0x0a] (l # ls)" using join_split_at [of "0x0a" val] split by simp
    then show ?thesis by (cases ls) (simp_all add: with_extra_def)
  qed
  ultimately show ?thesis by (simp add: with_extra_def comp_def case_prod_unfold)
qed

section \<open>Commits and tags round-trip\<close>

definition commit_pairs :: "CommitData \<Rightarrow> (jstring \<times> jstring) list" where
  "commit_pairs c = (units ''tree'', commit_tree c) # map (\<lambda>p. (units ''parent'', p)) (parent c)
     @ [(units ''author'', formatPerson (author c)), (units ''committer'', formatPerson (committer c))]"

definition commit_ok :: "CommitData \<Rightarrow> bool" where
  "commit_ok c \<longleftrightarrow> isOid (commit_tree c) \<and> (\<forall>p \<in> set (parent c). isOid p)
     \<and> person_ok (author c) \<and> person_ok (committer c)"

lemma isOid_no_lf: "isOid v \<Longrightarrow> 0x0a \<notin> set v"
  by (auto simp: isOid_def list_all_iff is_lower_hex_def)

lemma formatPerson_no_lf: "person_ok p \<Longrightarrow> 0x0a \<notin> set (formatPerson p)"
  using number_text_units(2) [of "timestamp p" "0x0a"] zone_facts(4) [of "timezoneOffset p" "0x0a"]
  by (auto simp: person_ok_def formatPerson_def units_def)

lemma commit_pairs_ok: "commit_ok c \<Longrightarrow> \<forall>(k, v) \<in> set (commit_pairs c). good_key k \<and> 0x0a \<notin> set v"
  by (auto simp: commit_pairs_def commit_ok_def isOid_no_lf formatPerson_no_lf)
    (simp_all add: good_key_def units_def)

lemma commit_lines_pairs:
  "commit_lines c = map (\<lambda>(k, v). k @ 0x20 # v) (commit_pairs c)
     @ (case gpgsig c of None \<Rightarrow> []
        | Some sig \<Rightarrow> [units ''gpgsig'' @ 0x20 # join_with [0x0a, 0x20] (split_at 0x0a sig)])"
  by (simp add: commit_lines_def commit_pairs_def units_def comp_def split: option.split)

lemma splitHeaders_commit:
  assumes "commit_ok c"
  shows "splitHeaders (join_with [0x0a] (commit_lines c) @ [0x0a, 0x0a] @ commit_message c)
     = (commit_pairs c @ (case gpgsig c of None \<Rightarrow> [] | Some sig \<Rightarrow> [(units ''gpgsig'', sig)]), commit_message c)"
proof -
  have "good_key (units ''gpgsig'')" by (simp add: good_key_def units_def)
  moreover have "commit_pairs c \<noteq> []" by (simp add: commit_pairs_def)
  ultimately show ?thesis
    using splitHeaders_plain [of "commit_pairs c"] splitHeaders_continued [of "commit_pairs c" "units ''gpgsig''"]
      commit_pairs_ok [OF assms]
    by (simp add: commit_lines_pairs split: option.split)
qed

lemma foldR_parents:
  "\<forall>p \<in> set ps. isOid p \<Longrightarrow>
     foldR commit_header (map (\<lambda>p. (units ''parent'', p)) ps) (c, saw) = Inr (c\<lparr>parent := parent c @ ps\<rparr>, saw)"
proof (induction ps arbitrary: c)
  case (Cons p ps)
  have "units ''parent'' \<noteq> units ''tree''" by (simp add: units_def)
  then show ?case using Cons by (simp add: commit_header_def)
qed simp

lemma parseCommitText_lines:
  assumes "commit_ok c"
  shows "parseCommitText (join_with [0x0a] (commit_lines c) @ [0x0a, 0x0a] @ commit_message c) = Inr c"
proof -
  have ok: "isOid (commit_tree c)" "\<forall>p \<in> set (parent c). isOid p"
      "parsePerson (formatPerson (author c)) = author c" "parsePerson (formatPerson (committer c)) = committer c"
    using assms by (simp_all add: commit_ok_def parsePerson_formatPerson)
  have keys: "units ''author'' \<noteq> units ''tree''" "units ''author'' \<noteq> units ''parent''"
      "units ''committer'' \<noteq> units ''tree''" "units ''committer'' \<noteq> units ''parent''"
      "units ''committer'' \<noteq> units ''author''" "units ''gpgsig'' \<noteq> units ''tree''"
      "units ''gpgsig'' \<noteq> units ''parent''" "units ''gpgsig'' \<noteq> units ''author''"
      "units ''gpgsig'' \<noteq> units ''committer''"
    by (simp_all add: units_def)
  show ?thesis
    unfolding parseCommitText_def splitHeaders_commit [OF assms] commit_pairs_def
    using ok by (simp add: commit_header_def foldR_parents keys del: bindR_Inr_iff split: option.split)
qed

definition tag_pairs :: "TagData \<Rightarrow> (jstring \<times> jstring) list" where
  "tag_pairs t = [(units ''object'', tag_object t), (units ''type'', type_text (tag_type t)), (units ''tag'', tag_name t)]
     @ (case tagger t of None \<Rightarrow> [] | Some p \<Rightarrow> [(units ''tagger'', formatPerson p)])"

definition tag_ok :: "TagData \<Rightarrow> bool" where
  "tag_ok t \<longleftrightarrow> isOid (tag_object t) \<and> 0x0a \<notin> set (tag_name t)
     \<and> (case tagger t of None \<Rightarrow> True | Some p \<Rightarrow> person_ok p)"

lemma tag_lines_pairs: "tag_lines t = map (\<lambda>(k, v). k @ 0x20 # v) (tag_pairs t)"
  by (simp add: tag_lines_def tag_pairs_def units_def split: option.split)

lemma type_text_inverse [simp]: "type_of_text (type_text t) = Some t"
  by (cases t) (simp_all add: type_of_text_def units_def)

lemma tag_pairs_ok: "tag_ok t \<Longrightarrow> \<forall>(k, v) \<in> set (tag_pairs t). good_key k \<and> 0x0a \<notin> set v"
proof -
  assume ok: "tag_ok t"
  have "0x0a \<notin> set (type_text (tag_type t))" by (cases "tag_type t") (simp_all add: units_def)
  moreover have "good_key (units ''object'')" "good_key (units ''type'')" "good_key (units ''tag'')" "good_key (units ''tagger'')"
    by (simp_all add: good_key_def units_def)
  ultimately show ?thesis using ok
    by (auto simp: tag_pairs_def tag_ok_def isOid_no_lf formatPerson_no_lf split: option.splits)
qed

lemma text_no_bom:
  "\<not> has_bom (join_with [0x0a] (commit_lines c) @ s)" "\<not> has_bom (join_with [0x0a] (tag_lines t) @ s)"
  by (simp_all add: commit_lines_def tag_lines_def units_def has_bom_def join_with_Cons)

lemma parseTag_lines:
  assumes "tag_ok t"
  shows "splitHeaders (join_with [0x0a] (tag_lines t) @ [0x0a, 0x0a] @ tag_message t) = (tag_pairs t, tag_message t)"
  unfolding tag_lines_pairs by (rule splitHeaders_plain [OF _ tag_pairs_ok [OF assms]]) (simp add: tag_pairs_def)

lemma foldR_tag_pairs:
  assumes "tag_ok t"
  shows "foldR tag_header (tag_pairs t)
     (\<lparr>tag_object = [], tag_type = Commit, tag_name = [], tagger = None, tag_message = tag_message t\<rparr>, False)
     = Inr (t, True)"
proof -
  have keys: "units ''type'' \<noteq> units ''object''" "units ''tag'' \<noteq> units ''object''" "units ''tag'' \<noteq> units ''type''"
      "units ''tagger'' \<noteq> units ''object''" "units ''tagger'' \<noteq> units ''type''" "units ''tagger'' \<noteq> units ''tag''"
    by (simp_all add: units_def)
  have ok: "isOid (tag_object t)" "\<And>p. tagger t = Some p \<Longrightarrow> parsePerson (formatPerson p) = p"
    using assms by (simp_all add: tag_ok_def parsePerson_formatPerson)
  show ?thesis unfolding tag_pairs_def using ok
    by (cases "tagger t") (simp_all add: tag_header_def keys)
qed

lemma commit_physical:
  assumes "commit_ok c"
  shows "\<exists>lines. lines \<noteq> [] \<and> (\<forall>l \<in> set lines. l \<noteq> [] \<and> 0x0a \<notin> set l \<and> \<not> startsWith l (units ''encoding ''))
     \<and> join_with [0x0a] lines = join_with [0x0a] (commit_lines c)"
proof -
  let ?plain = "map (\<lambda>(k, v). k @ 0x20 # v) (commit_pairs c)"
  have plain: "\<forall>l \<in> set ?plain. l \<noteq> [] \<and> 0x0a \<notin> set l \<and> \<not> startsWith l (units ''encoding '')"
    using commit_pairs_ok [OF assms] by (auto simp: good_key_def commit_pairs_def) (auto simp: units_def)
  show ?thesis
  proof (cases "gpgsig c")
    case None
    moreover have "?plain \<noteq> []" by (simp add: commit_pairs_def)
    ultimately show ?thesis using plain by (intro exI [of _ ?plain]) (simp add: commit_lines_pairs)
  next
    case (Some sig)
    obtain l ls where split: "split_at 0x0a sig = l # ls" by (cases "split_at 0x0a sig") auto
    have nolf: "\<forall>x \<in> set (l # ls). 0x0a \<notin> set x" unfolding split [symmetric] by (blast dest: split_at_parts)
    have "join_with [0x0a] (commit_lines c) = join_with [0x0a] (?plain @ (units ''gpgsig'' @ 0x20 # l) # map ((#) 0x20) ls)"
      using continued_lines [OF split, of ?plain "units ''gpgsig''"] Some by (simp add: commit_lines_pairs)
    then show ?thesis using plain nolf
      by (intro exI [of _ "?plain @ (units ''gpgsig'' @ 0x20 # l) # map ((#) 0x20) ls"]) (auto simp: units_def)
  qed
qed

section \<open>Properties\<close>

text \<open>
  \<open>parsePerson\<close> reads back every identity line \<open>formatPerson\<close> writes, time zone included.
\<close>

theorem person_roundtrip:
  assumes "person_ok p"
  shows "parsePerson (formatPerson p) = p"
  by (rule parsePerson_formatPerson [OF assms])

definition sample_person :: Person where
  "sample_person = \<lparr>person_name = units ''A B'', email = units ''a@b'', timestamp = 12, timezoneOffset = -60\<rparr>"

theorem person_roundtrip_witness: "parsePerson (formatPerson sample_person) = sample_person"
  by (rule person_roundtrip) (simp add: person_ok_def sample_person_def units_def max_safe_integer_def)

text \<open>
  C36: a commit with valid ids and identities comes back unchanged from both readers, \<open>parseCommit\<close> and
  \<open>parseReplayCommit\<close>, signature and message included.
\<close>

theorem commit_roundtrip:
  assumes "commit_ok c"
    and "well_formed (join_with [0x0a] (commit_lines c) @ [0x0a, 0x0a] @ commit_message c)"
  shows "parseCommit (serializeCommit c) = Inr c \<and> parseReplayCommit (serializeCommit c) = Inr c"
proof
  let ?text = "join_with [0x0a] (commit_lines c) @ [0x0a, 0x0a] @ commit_message c"
  show "parseCommit (serializeCommit c) = Inr c"
    unfolding parseCommit_def serializeCommit_def
    using utf8_decode_encode [OF assms(2) text_no_bom(1)] parseCommitText_lines [OF assms(1)] by simp
  obtain lines where lines: "lines \<noteq> []"
      "\<forall>l \<in> set lines. l \<noteq> [] \<and> 0x0a \<notin> set l \<and> \<not> startsWith l (units ''encoding '')"
      "join_with [0x0a] lines = join_with [0x0a] (commit_lines c)"
    using commit_physical [OF assms(1)] by blast
  have "indexOf ?text [0x0a, 0x0a] = Some (length (join_with [0x0a] (commit_lines c)))"
    using indexOf_blank [of lines "0x0a" "commit_message c"] lines by simp
  moreover have "split_at 0x0a (join_with [0x0a] (commit_lines c)) = lines"
    using split_at_join [of lines "0x0a"] lines by metis
  ultimately show "parseReplayCommit (serializeCommit c) = Inr c"
    unfolding parseReplayCommit_def serializeCommit_def
    using utf8_decode_fatal_encode [OF assms(2) text_no_bom(1)] parseCommitText_lines [OF assms(1)] lines(2)
    by (simp add: list_ex_iff)
qed

definition sample_commit :: CommitData where
  "sample_commit = \<lparr>commit_tree = replicate 40 0x61, parent = [ZERO_OID], author = sample_person,
     committer = sample_person, gpgsig = Some (units ''x'' @ [0x0a] @ units ''y''), commit_message = units ''m''\<rparr>"

lemma to_radix_eval:
  "n < 10 \<Longrightarrow> to_radix 10 n = [digit_unit n]"
  "10 \<le> n \<Longrightarrow> to_radix 10 n = to_radix 10 (n div 10) @ [digit_unit (n mod 10)]"
  by (simp_all add: to_radix.simps [of 10 n])

lemma well_formed_plain: "list_all (\<lambda>u. u < 0x80) s \<Longrightarrow> well_formed s"
  by (induction s) (auto simp: well_formed.simps(2) high_unat low_unat word_less_nat_alt)

lemma nat_text_eval: "n < 10 ^ 15 \<Longrightarrow> nat_text n = to_radix 10 n"
  by (simp add: nat_text_def)

lemma sample_person_text:
  "formatPerson sample_person = units ''A B <a@b> 12 +0100''"
  by (simp add: sample_person_def formatPerson_def formatTimezone_def number_text_def nat_text_eval to_radix_eval
      digit_unit_def padStart_def units_def Let_def)

theorem commit_roundtrip_witness:
  "parseCommit (serializeCommit sample_commit) = Inr sample_commit
   \<and> parseReplayCommit (serializeCommit sample_commit) = Inr sample_commit"
proof (rule commit_roundtrip)
  show "commit_ok sample_commit"
    by (simp add: commit_ok_def sample_commit_def isOid_def ZERO_OID_def list_all_iff is_lower_hex_def
        person_ok_def sample_person_def units_def max_safe_integer_def)
  show "well_formed (join_with [0x0a] (commit_lines sample_commit) @ [0x0a, 0x0a] @ commit_message sample_commit)"
    by (rule well_formed_plain)
      (simp add: sample_commit_def commit_lines_def sample_person_text ZERO_OID_def units_def list_all_iff [of _ "replicate _ _"])
qed

text \<open>
  An annotated tag with a valid target, a one-line name and a valid tagger comes back unchanged.
\<close>

theorem tag_roundtrip:
  assumes "tag_ok t"
    and "well_formed (join_with [0x0a] (tag_lines t) @ [0x0a, 0x0a] @ tag_message t)"
  shows "parseTag (serializeTag t) = Inr t"
  unfolding parseTag_def serializeTag_def utf8_decode_encode [OF assms(2) text_no_bom(2)] parseTag_lines [OF assms(1)]
  using foldR_tag_pairs [OF assms(1)] by (simp del: bindR_Inr_iff)

definition sample_tag :: TagData where
  "sample_tag = \<lparr>tag_object = ZERO_OID, tag_type = Commit, tag_name = units ''v1'', tagger = Some sample_person,
     tag_message = units ''m''\<rparr>"

theorem tag_roundtrip_witness: "parseTag (serializeTag sample_tag) = Inr sample_tag"
proof (rule tag_roundtrip)
  show "tag_ok sample_tag"
    by (simp add: tag_ok_def sample_tag_def isOid_def ZERO_OID_def list_all_iff is_lower_hex_def
        person_ok_def sample_person_def units_def max_safe_integer_def)
  show "well_formed (join_with [0x0a] (tag_lines sample_tag) @ [0x0a, 0x0a] @ tag_message sample_tag)"
    by (rule well_formed_plain)
      (simp add: sample_tag_def tag_lines_def sample_person_text ZERO_OID_def units_def list_all_iff [of _ "replicate _ _"])
qed

end
