(* ===== verification/Sorting.thy ===== *)
theory Sorting
  imports Streams "HOL-Library.Multiset"
begin

text \<open>
  \<open>Array.prototype.sort\<close> with a comparison function. The sort of the language is stable; insertion from the right
  keeps equal items in order. What a client needs of its comparison is the locale \<open>comparator\<close>; comparing by a key
  with \<open>comparePaths\<close> gives one.
\<close>

fun insert_cmp :: "('a \<Rightarrow> 'a \<Rightarrow> int) \<Rightarrow> 'a \<Rightarrow> 'a list \<Rightarrow> 'a list" where
  "insert_cmp cmp x [] = [x]"
| "insert_cmp cmp x (y # ys) = (if cmp x y \<le> 0 then x # y # ys else y # insert_cmp cmp x ys)"

definition sort_cmp :: "('a \<Rightarrow> 'a \<Rightarrow> int) \<Rightarrow> 'a list \<Rightarrow> 'a list" where
  "sort_cmp cmp xs = foldr (insert_cmp cmp) xs []"

lemma insert_cmp_mset [simp]: "mset (insert_cmp cmp x ys) = add_mset x (mset ys)"
  by (induction ys) auto

lemma sort_cmp_mset [simp]: "mset (sort_cmp cmp xs) = mset xs"
  by (induction xs) (simp_all add: sort_cmp_def)

lemma sort_cmp_set [simp]: "set (sort_cmp cmp xs) = set xs"
  by (metis sort_cmp_mset set_mset_mset)

lemma set_insert_cmp [simp]: "set (insert_cmp cmp x ys) = insert x (set ys)"
  by (metis insert_cmp_mset set_mset_add_mset_insert set_mset_mset)

locale comparator =
  fixes cmp :: "'a \<Rightarrow> 'a \<Rightarrow> int"
  assumes swap: "cmp b a = - cmp a b"
    and trans_le: "cmp a b \<le> 0 \<Longrightarrow> cmp b c \<le> 0 \<Longrightarrow> cmp a c \<le> 0"
begin

lemma insert_sorted: "sorted_wrt (\<lambda>a b. cmp a b \<le> 0) ys \<Longrightarrow> sorted_wrt (\<lambda>a b. cmp a b \<le> 0) (insert_cmp cmp x ys)"
proof (induction ys)
  case (Cons y ys)
  then show ?case using trans_le [of x y] swap [of x y] by auto
qed simp

lemma sort_sorted: "sorted_wrt (\<lambda>a b. cmp a b \<le> 0) (sort_cmp cmp xs)"
proof (induction xs)
  case (Cons x xs)
  then show ?case using insert_sorted by (simp add: sort_cmp_def)
qed (simp add: sort_cmp_def)

text \<open>When no two items compare equal the sorted order of a multiset of items is unique.\<close>

lemma sort_unique:
  "mset xs = mset ys \<Longrightarrow> sorted_wrt (\<lambda>a b. cmp a b \<le> 0) xs \<Longrightarrow> sorted_wrt (\<lambda>a b. cmp a b \<le> 0) ys \<Longrightarrow>
     \<forall>a \<in> set xs. \<forall>b \<in> set xs. cmp a b = 0 \<longrightarrow> a = b \<Longrightarrow> xs = ys"
proof (induction xs arbitrary: ys)
  case (Cons x xs)
  then obtain y ys' where ys: "ys = y # ys'" by (cases ys) auto
  have x: "x \<in> set ys" and y: "y \<in> set (x # xs)"
    using Cons.prems(1) ys by (metis list.set_intros(1) set_mset_mset)+
  have refl: "cmp a a = 0" for a using swap [of a a] by simp
  have "cmp x y \<le> 0" using Cons.prems(2) y refl by auto
  moreover have "cmp y x \<le> 0" using Cons.prems(3) x ys refl by auto
  ultimately have "cmp x y = 0" using swap [of x y] by simp
  then have "x = y" using Cons.prems(4) y by (meson list.set_intros(1))
  then show ?case using Cons ys by simp
qed simp

end

definition by_path :: "('a \<Rightarrow> jstring) \<Rightarrow> 'a \<Rightarrow> 'a \<Rightarrow> int" where
  "by_path key a b = comparePaths (key a) (key b)"

interpretation paths: comparator "by_path key"
  by unfold_locales (auto simp: by_path_def comparePaths_swap [symmetric] intro: comparePaths_trans_le)

end
