(* ===== verification/Trees.thy ===== *)
theory Trees
  imports Objects Sorting
begin

text \<open>
  Tree objects (\<open>packages/git/src/common/trees.ts\<close>): the whole-buffer reader \<open>parseTree\<close>, the incremental
  \<open>TreeParser\<close> with its growing byte fields, tree order, and the writer \<open>serializeTree\<close>.

  The incremental parser is a state machine fed one byte at a time; a \<open>push\<close> returns what the generator
  yields, the error it throws if it does, and the parser it leaves. The engine's largest typed array is
  a parameter of the byte field.
\<close>

section \<open>Modes and names\<close>

record TreeEntry =
  mode :: jstring
  entry_name :: jstring
  oid :: jstring

record ParsedTreeEntry =
  entry :: TreeEntry
  nameBytes :: bytes
  ordinal :: nat
  entry_observed :: nat

record TreeParseResult =
  result_count :: nat
  result_observed :: nat

definition MODE_FILE :: jstring where "MODE_FILE = units ''100644''"
definition MODE_EXECUTABLE :: jstring where "MODE_EXECUTABLE = units ''100755''"
definition MODE_SYMLINK :: jstring where "MODE_SYMLINK = units ''120000''"
definition MODE_TREE :: jstring where "MODE_TREE = units ''40000''"
definition MODE_COMMIT :: jstring where "MODE_COMMIT = units ''160000''"

definition decodeTreeName :: "bytes \<Rightarrow> jstring result" where
  "decodeTreeName bs =
     (case utf8_decode_fatal bs of
        Some s \<Rightarrow> Inr s
      | None \<Rightarrow> Inl (GitError ''EUNSUPPORTED'' ''tree names must be valid UTF-8''))"

definition isTreeMode :: "jstring \<Rightarrow> bool" where
  "isTreeMode m \<longleftrightarrow> m = units ''40000'' \<or> m = units ''040000''"

definition displayMode :: "jstring \<Rightarrow> jstring" where
  "displayMode m = padStart m 6 0x30"

definition typeForMode :: "jstring \<Rightarrow> ObjectType" where
  "typeForMode m = (if isTreeMode m then Tree else if m = MODE_COMMIT then Commit else Blob)"

section \<open>parseTree\<close>

text \<open>The loop over the data, with the part before \<open>pos\<close> already dropped.\<close>

function parse_tree_loop :: "bytes \<Rightarrow> TreeEntry list result" where
  "parse_tree_loop data =
     (if data = [] then Inr []
      else
        let m = takeWhile (\<lambda>b. b \<noteq> 0x20) data; after = dropWhile (\<lambda>b. b \<noteq> 0x20) data
        in if after = [] then Inl (CorruptError ''malformed tree entry'')
           else
             let n = takeWhile (\<lambda>b. b \<noteq> 0) (tl after); rest = dropWhile (\<lambda>b. b \<noteq> 0) (tl after)
             in if length rest < 21 then Inl (CorruptError ''malformed tree entry'')
                else bindR (decodeTreeName n) (\<lambda>name.
                       bindR (parse_tree_loop (drop 21 rest)) (\<lambda>entries.
                         Inr (\<lparr>mode = utf8_decode m, entry_name = name, oid = toHex (take 20 (drop 1 rest))\<rparr> # entries))))"
  by pat_completeness auto
termination
proof (relation "measure length", goal_cases)
  case (2 data m after n rest name)
  have "length rest \<le> length data"
    using 2 length_dropWhile_le [of "\<lambda>b. b \<noteq> 0x20" data] length_dropWhile_le [of "\<lambda>b. b \<noteq> 0" "tl after"] by simp
  then show ?case using 2 by simp
qed simp

declare parse_tree_loop.simps [simp del]

definition parseTree :: "bytes \<Rightarrow> TreeEntry list result" where
  "parseTree data = parse_tree_loop data"

section \<open>ByteField\<close>

record ByteField =
  bf_alloc :: nat
  bf_limit :: "nat option"
  bf_label :: string
  bf_bytes :: bytes
  bf_length :: nat

definition newByteField :: "nat \<Rightarrow> nat option \<Rightarrow> string \<Rightarrow> ByteField" where
  "newByteField alloc limit label =
     \<lparr>bf_alloc = alloc, bf_limit = limit, bf_label = label, bf_bytes = replicate 64 0, bf_length = 0\<rparr>"

definition allocation_error :: "ByteField \<Rightarrow> error" where
  "allocation_error f = GitError ''E2BIG'' (''tree '' @ bf_label f @ '' allocation exceeds the platform limit'')"

definition byte_field_grow :: "ByteField \<Rightarrow> ByteField result" where
  "byte_field_grow f =
     (let next = (case bf_limit f of None \<Rightarrow> length (bf_bytes f) * 2 | Some l \<Rightarrow> min (length (bf_bytes f) * 2) l)
      in if \<not> is_safe next \<or> next \<le> length (bf_bytes f) then Inl (allocation_error f)
         else if next > bf_alloc f then Inl (allocation_error f)
         else Inr (f\<lparr>bf_bytes := set_at (replicate next 0) 0 (bf_bytes f)\<rparr>))"

definition byte_field_push :: "ByteField \<Rightarrow> byte \<Rightarrow> ByteField result" where
  "byte_field_push f b =
     (if (case bf_limit f of None \<Rightarrow> False | Some l \<Rightarrow> bf_length f \<ge> l)
      then Inl (CorruptError (''tree '' @ bf_label f @ '' is too long''))
      else bindR (if bf_length f = length (bf_bytes f) then byte_field_grow f else Inr f)
             (\<lambda>g. Inr (g\<lparr>bf_bytes := (bf_bytes g)[bf_length g := b], bf_length := bf_length g + 1\<rparr>)))"

definition byte_field_take :: "ByteField \<Rightarrow> bytes \<times> ByteField" where
  "byte_field_take f = (take (bf_length f) (bf_bytes f), f\<lparr>bf_length := 0\<rparr>)"

definition byte_field_dispose :: "ByteField \<Rightarrow> ByteField" where
  "byte_field_dispose f = f\<lparr>bf_bytes := [], bf_length := 0\<rparr>"

section \<open>TreeParser\<close>

datatype parser_state = ModeState | NameState | OidState

record TreeParser =
  tp_mode :: ByteField
  tp_name :: ByteField
  tp_oid :: bytes
  tp_state :: parser_state
  tp_modeText :: jstring
  tp_nameBytes :: bytes
  tp_oidAt :: nat
  tp_entryCount :: nat
  tp_observedSize :: nat
  tp_finished :: bool

definition newTreeParser :: "nat \<Rightarrow> TreeParser" where
  "newTreeParser alloc =
     \<lparr>tp_mode = newByteField alloc (Some 6) ''mode'', tp_name = newByteField alloc None ''entry name'',
      tp_oid = replicate 20 0, tp_state = ModeState, tp_modeText = [], tp_nameBytes = [], tp_oidAt = 0,
      tp_entryCount = 0, tp_observedSize = 0, tp_finished = False\<rparr>"

definition tree_parser_dispose :: "TreeParser \<Rightarrow> TreeParser" where
  "tree_parser_dispose p =
     p\<lparr>tp_mode := byte_field_dispose (tp_mode p), tp_name := byte_field_dispose (tp_name p), tp_oid := [],
       tp_nameBytes := [], tp_modeText := []\<rparr>"

text \<open>One iteration of the loop in \<open>push\<close>: the parser it leaves, and the entry it yields or the error it throws.\<close>

definition tree_step :: "TreeParser \<Rightarrow> byte \<Rightarrow> TreeParser \<times> ParsedTreeEntry option result" where
  "tree_step p0 b =
     (let p = p0\<lparr>tp_observedSize := tp_observedSize p0 + 1\<rparr>
      in if \<not> is_safe (tp_observedSize p)
         then (p, Inl (CorruptError ''tree object size exceeds the safe integer range''))
         else case tp_state p of
           ModeState \<Rightarrow>
             if b = 0x20 then
               (let (bs, m) = byte_field_take (tp_mode p)
                in (p\<lparr>tp_mode := m, tp_modeText := utf8_decode bs, tp_state := NameState\<rparr>, Inr None))
             else (case byte_field_push (tp_mode p) b of
                     Inl e \<Rightarrow> (p, Inl e)
                   | Inr m \<Rightarrow> (p\<lparr>tp_mode := m\<rparr>, Inr None))
         | NameState \<Rightarrow>
             if b = 0 then
               (let (bs, n) = byte_field_take (tp_name p)
                in (p\<lparr>tp_name := n, tp_nameBytes := bs, tp_state := OidState, tp_oidAt := 0\<rparr>, Inr None))
             else (case byte_field_push (tp_name p) b of
                     Inl e \<Rightarrow> (p, Inl e)
                   | Inr n \<Rightarrow> (p\<lparr>tp_name := n\<rparr>, Inr None))
         | OidState \<Rightarrow>
             let q = p\<lparr>tp_oid := (tp_oid p)[tp_oidAt p := b], tp_oidAt := tp_oidAt p + 1\<rparr>
             in if tp_oidAt q = length (tp_oid q) then
                  (case decodeTreeName (tp_nameBytes q) of
                     Inl e \<Rightarrow> (q, Inl e)
                   | Inr name \<Rightarrow>
                       (q\<lparr>tp_entryCount := tp_entryCount q + 1, tp_state := ModeState, tp_modeText := [],
                          tp_nameBytes := []\<rparr>,
                        Inr (Some \<lparr>entry = \<lparr>mode = tp_modeText q, entry_name = name, oid = toHex (tp_oid q)\<rparr>,
                                   nameBytes = tp_nameBytes q, ordinal = tp_entryCount q,
                                   entry_observed = tp_observedSize q\<rparr>)))
                else (q, Inr None))"

fun push_loop :: "TreeParser \<Rightarrow> bytes \<Rightarrow> TreeParser \<times> ParsedTreeEntry list \<times> error option" where
  "push_loop p [] = (p, [], None)"
| "push_loop p (b # bs) =
     (case tree_step p b of
        (q, Inl e) \<Rightarrow> (tree_parser_dispose q, [], Some e)
      | (q, Inr y) \<Rightarrow>
          let (r, ys, e) = push_loop q bs
          in (r, (case y of None \<Rightarrow> ys | Some x \<Rightarrow> x # ys), e))"

definition tree_parser_push :: "TreeParser \<Rightarrow> bytes \<Rightarrow> TreeParser \<times> ParsedTreeEntry list \<times> error option" where
  "tree_parser_push p chunk =
     (if tp_finished p then (p, [], Some (JsError ''tree parser is already finished'')) else push_loop p chunk)"

definition tree_parser_finish :: "TreeParser \<Rightarrow> TreeParser \<times> TreeParseResult result" where
  "tree_parser_finish p =
     (if tp_finished p then (p, Inl (JsError ''tree parser is already finished''))
      else
        let q = p\<lparr>tp_finished := True\<rparr>
        in (tree_parser_dispose q,
            if tp_state q \<noteq> ModeState \<or> bf_length (tp_mode q) \<noteq> 0 then Inl (CorruptError ''malformed tree entry'')
            else Inr \<lparr>result_count = tp_entryCount q, result_observed = tp_observedSize q\<rparr>))"

fun push_chunks :: "TreeParser \<Rightarrow> bytes list \<Rightarrow> TreeParser \<times> ParsedTreeEntry list \<times> error option" where
  "push_chunks p [] = (p, [], None)"
| "push_chunks p (c # cs) =
     (case tree_parser_push p c of
        (q, ys, Some e) \<Rightarrow> (q, ys, Some e)
      | (q, ys, None) \<Rightarrow> let (r, zs, e) = push_chunks q cs in (r, ys @ zs, e))"

text \<open>What the generator yields, and the error that ends it, if any.\<close>

definition parseTreeStream :: "nat \<Rightarrow> bytes list \<Rightarrow> ParsedTreeEntry list \<times> error option" where
  "parseTreeStream alloc chunks =
     (case push_chunks (newTreeParser alloc) chunks of
        (p, ys, Some e) \<Rightarrow> (ys, Some e)
      | (p, ys, None) \<Rightarrow>
          (ys, case snd (tree_parser_finish p) of Inl e \<Rightarrow> Some e | Inr _ \<Rightarrow> None))"

section \<open>Order and writing\<close>

definition tree_key :: "TreeEntry \<Rightarrow> jstring" where
  "tree_key e = (if isTreeMode (mode e) then entry_name e @ [0x2f] else entry_name e)"

definition compareTreeEntries :: "TreeEntry \<Rightarrow> TreeEntry \<Rightarrow> int" where
  "compareTreeEntries a b = comparePaths (tree_key a) (tree_key b)"

definition written_mode :: "TreeEntry \<Rightarrow> jstring" where
  "written_mode e = dropWhile (\<lambda>u. u = 0x30) (mode e)"

definition oid_bytes :: "jstring \<Rightarrow> bytes" where
  "oid_bytes v = map (\<lambda>i. to_uint8 (parseInt 16 (take 2 (drop (i * 2) v)))) [0..<20]"

definition serializeTree :: "TreeEntry list \<Rightarrow> bytes" where
  "serializeTree entries =
     concat_bytes (concat (map (\<lambda>e.
       [utf8_encode (written_mode e @ [0x20] @ entry_name e @ [0]), oid_bytes (oid e)])
       (sort_cmp compareTreeEntries entries)))"

section \<open>Byte buffers\<close>

text \<open>What the tree parser relies on of a byte field: pushes append, \<open>take\<close> returns everything and empties it.\<close>

locale byte_buffer =
  fixes push :: "'f \<Rightarrow> byte \<Rightarrow> 'f result" and take_all :: "'f \<Rightarrow> bytes \<times> 'f"
    and content :: "'f \<Rightarrow> bytes" and ok :: "'f \<Rightarrow> bool"
  assumes push_appends: "ok f \<Longrightarrow> push f b = Inr g \<Longrightarrow> ok g \<and> content g = content f @ [b]"
    and take_empties: "ok f \<Longrightarrow> take_all f = (bs, g) \<Longrightarrow> bs = content f \<and> ok g \<and> content g = []"
begin

lemma push_all:
  "ok f \<Longrightarrow> foldR (\<lambda>b f. push f b) bs f = Inr g \<Longrightarrow> ok g \<and> content g = content f @ bs"
proof (induction bs arbitrary: f)
  case (Cons b bs)
  then obtain h where h: "push f b = Inr h" "foldR (\<lambda>b f. push f b) bs h = Inr g" by auto
  then show ?case using push_appends [OF Cons.prems(1) h(1)] Cons.IH [of h] by simp
qed simp

lemma push_then_take:
  assumes "ok f" "content f = []" "foldR (\<lambda>b f. push f b) bs f = Inr g" "take_all g = (cs, h)"
  shows "cs = bs \<and> content h = []"
  using push_all [OF assms(1,3)] take_empties [OF _ assms(4)] assms(2) by simp

end

definition field_content :: "ByteField \<Rightarrow> bytes" where
  "field_content f = take (bf_length f) (bf_bytes f)"

definition field_ok :: "ByteField \<Rightarrow> bool" where
  "field_ok f \<longleftrightarrow> bf_length f \<le> length (bf_bytes f) \<and> 0 < length (bf_bytes f)"

lemma set_at_grow: "length bs \<le> n \<Longrightarrow> set_at (replicate n 0) 0 bs = bs @ replicate (n - length bs) 0"
  by (simp add: set_at_def)

lemma byte_field_grow_Inr:
  assumes "byte_field_grow f = Inr h"
  obtains k where "0 < k" "h = f\<lparr>bf_bytes := bf_bytes f @ replicate k 0\<rparr>"
proof -
  let ?n = "case bf_limit f of None \<Rightarrow> length (bf_bytes f) * 2 | Some l \<Rightarrow> min (length (bf_bytes f) * 2) l"
  have "length (bf_bytes f) < ?n" "h = f\<lparr>bf_bytes := set_at (replicate ?n 0) 0 (bf_bytes f)\<rparr>"
    using assms by (simp_all add: byte_field_grow_def Let_def split: if_split_asm)
  then show ?thesis using that [of "?n - length (bf_bytes f)"] by (simp add: set_at_grow)
qed

lemma byte_field_push_Inr:
  assumes "field_ok f" "byte_field_push f b = Inr g"
  shows "field_ok g" "field_content g = field_content f @ [b]" "bf_length g = bf_length f + 1"
    "bf_limit g = bf_limit f" "bf_alloc g = bf_alloc f" "bf_label g = bf_label f"
    "length (bf_bytes f) \<le> length (bf_bytes g)"
    "\<And>l. bf_limit f = Some l \<Longrightarrow> bf_length f < l"
proof -
  obtain h where run: "(if bf_length f = length (bf_bytes f) then byte_field_grow f else Inr f) = Inr h"
      and g: "g = h\<lparr>bf_bytes := (bf_bytes h)[bf_length h := b], bf_length := bf_length h + 1\<rparr>"
    using assms(2) by (auto simp: byte_field_push_def split: if_split_asm)
  have "bf_length h = bf_length f \<and> bf_limit h = bf_limit f \<and> bf_alloc h = bf_alloc f \<and> bf_label h = bf_label f
      \<and> bf_length f < length (bf_bytes h) \<and> length (bf_bytes f) \<le> length (bf_bytes h)
      \<and> take (bf_length f) (bf_bytes h) = take (bf_length f) (bf_bytes f)"
    using run assms(1) by (auto simp: field_ok_def elim!: byte_field_grow_Inr split: if_split_asm)
  note h = g this
  show "field_ok g" "bf_length g = bf_length f + 1" "bf_limit g = bf_limit f" "bf_alloc g = bf_alloc f"
    "bf_label g = bf_label f" "length (bf_bytes f) \<le> length (bf_bytes g)" using h by (auto simp: field_ok_def)
  show "field_content g = field_content f @ [b]"
    using h by (simp add: field_content_def take_Suc_conv_app_nth)
  show "\<And>l. bf_limit f = Some l \<Longrightarrow> bf_length f < l"
    using assms(2) by (auto simp: byte_field_push_def split: if_splits)
qed

interpretation bf: byte_buffer byte_field_push byte_field_take field_content field_ok
proof
  fix f b g
  assume "field_ok f" "byte_field_push f b = Inr g"
  then show "field_ok g \<and> field_content g = field_content f @ [b]" using byte_field_push_Inr by blast
next
  fix f bs g
  assume "field_ok f" "byte_field_take f = (bs, g)"
  then show "bs = field_content f \<and> field_ok g \<and> field_content g = []"
    by (auto simp: byte_field_take_def field_content_def field_ok_def)
qed

text \<open>When a push fails: the limit is reached, or the doubled buffer is beyond what the engine gives.\<close>

definition too_big :: "nat \<Rightarrow> nat \<Rightarrow> bool" where
  "too_big alloc n \<longleftrightarrow> \<not> (is_safe (2 * n) \<and> 2 * n \<le> alloc)"

lemma too_big_mono: "too_big alloc m \<Longrightarrow> m \<le> n \<Longrightarrow> too_big alloc n"
  by (auto simp: too_big_def is_safe_def)

lemma byte_field_push_Inl:
  assumes "field_ok f" "byte_field_push f b = Inl e"
  shows "bf_limit f = None \<Longrightarrow> too_big (bf_alloc f) (bf_length f)"
    and "bf_limit f = Some l \<Longrightarrow> l < length (bf_bytes f) \<Longrightarrow>
      e = CorruptError (''tree '' @ bf_label f @ '' is too long'')"
  using assms by (auto simp: byte_field_push_def byte_field_grow_def Let_def field_ok_def too_big_def mult.commute
      split: if_split_asm)

section \<open>The incremental parser, phase by phase\<close>

lemma tree_step_finished: "tree_step p b = (q, r) \<Longrightarrow> tp_finished q = tp_finished p"
  by (auto simp: tree_step_def Let_def byte_field_take_def split: if_splits parser_state.splits sum.splits)

lemma push_loop_finished: "push_loop p bs = (q, ys, r) \<Longrightarrow> tp_finished q = tp_finished p"
proof (induction bs arbitrary: p ys)
  case (Cons b bs)
  then show ?case
    by (auto simp: tree_parser_dispose_def Let_def dest!: tree_step_finished split: prod.splits sum.splits)
qed simp

lemma push_loop_append:
  "push_loop p (xs @ ys) =
     (case push_loop p xs of
        (q, es, Some e) \<Rightarrow> (q, es, Some e)
      | (q, es, None) \<Rightarrow> (case push_loop q ys of (r, fs, e) \<Rightarrow> (r, es @ fs, e)))"
proof (induction xs arbitrary: p)
  case (Cons b bs)
  then show ?case by (auto simp: Let_def split: prod.splits sum.splits option.splits)
qed (simp split: prod.splits)

lemma push_chunks_concat:
  "\<not> tp_finished p \<Longrightarrow> push_chunks p cs = push_loop p (concat cs)"
proof (induction cs arbitrary: p)
  case (Cons c cs)
  obtain q ys r where push: "push_loop p c = (q, ys, r)" by (cases "push_loop p c") auto
  then have "\<not> tp_finished q" using push_loop_finished Cons.prems by blast
  then show ?case using Cons push
    by (auto simp: tree_parser_push_def push_loop_append Let_def split: option.splits prod.splits)
qed simp

lemma parseTreeStream_concat: "parseTreeStream alloc cs = parseTreeStream alloc [concat cs]"
proof -
  have "\<not> tp_finished (newTreeParser alloc)" by (simp add: newTreeParser_def)
  then have "push_chunks (newTreeParser alloc) cs = push_chunks (newTreeParser alloc) [concat cs]"
    using push_chunks_concat [of _ cs] push_chunks_concat [of _ "[concat cs]"] by simp
  then show ?thesis by (simp add: parseTreeStream_def)
qed

definition parser_ok :: "nat \<Rightarrow> TreeParser \<Rightarrow> bool" where
  "parser_ok alloc p \<longleftrightarrow>
     field_ok (tp_mode p) \<and> bf_limit (tp_mode p) = Some 6 \<and> bf_label (tp_mode p) = ''mode''
     \<and> 6 < length (bf_bytes (tp_mode p)) \<and> bf_length (tp_mode p) \<le> 6
     \<and> field_ok (tp_name p) \<and> bf_limit (tp_name p) = None \<and> bf_alloc (tp_name p) = alloc
     \<and> bf_length (tp_name p) \<le> tp_observedSize p \<and> length (tp_oid p) = 20"

definition mode_too_long :: error where
  "mode_too_long = CorruptError ''tree mode is too long''"

lemma too_big_unsafe: "\<not> is_safe n \<Longrightarrow> too_big alloc n"
  by (auto simp: too_big_def is_safe_def)

lemma step_unsafe:
  "\<not> is_safe (tp_observedSize p + 1) \<Longrightarrow>
     \<exists>q. tree_step p b = (q, Inl (CorruptError ''tree object size exceeds the safe integer range''))"
  by (simp add: tree_step_def Let_def)

text \<open>The three kinds of step, from a parser in order.\<close>

lemma step_mode:
  assumes ok: "parser_ok alloc p" and st: "tp_state p = ModeState" and b: "b \<noteq> 0x20"
  obtains (big) q e where "tree_step p b = (q, Inl e)" "too_big alloc (tp_observedSize p + 1)"
    | (long) q where "tree_step p b = (q, Inl mode_too_long)" "bf_length (tp_mode p) = 6"
    | (pushed) m where "tree_step p b = (p\<lparr>tp_observedSize := tp_observedSize p + 1, tp_mode := m\<rparr>, Inr None)"
        "field_content m = field_content (tp_mode p) @ [b]" "bf_length m = bf_length (tp_mode p) + 1"
        "parser_ok alloc (p\<lparr>tp_observedSize := tp_observedSize p + 1, tp_mode := m\<rparr>)"
proof (cases "is_safe (tp_observedSize p + 1)")
  case False
  then show ?thesis using big too_big_unsafe [OF False] by (simp add: tree_step_def Let_def)
next
  case True
  have mok: "field_ok (tp_mode p)" "bf_limit (tp_mode p) = Some 6" "bf_label (tp_mode p) = ''mode''"
    "6 < length (bf_bytes (tp_mode p))" "bf_length (tp_mode p) \<le> 6" using ok by (simp_all add: parser_ok_def)
  show ?thesis
  proof (cases "byte_field_push (tp_mode p) b")
    case (Inl e)
    have "e = mode_too_long" using byte_field_push_Inl(2) [OF mok(1) Inl mok(2,4)] mok(3) by (simp add: mode_too_long_def)
    moreover have "bf_length (tp_mode p) = 6"
      using Inl mok by (auto simp: byte_field_push_def split: if_split_asm)
    ultimately show ?thesis using long True st b Inl by (simp add: tree_step_def Let_def)
  next
    case (Inr m)
    note push = byte_field_push_Inr [OF mok(1) Inr]
    have "parser_ok alloc (p\<lparr>tp_observedSize := tp_observedSize p + 1, tp_mode := m\<rparr>)"
      using ok push(1,3,4,6,7) push(8) [OF mok(2)] by (simp add: parser_ok_def)
    then show ?thesis using pushed True st b Inr push(2,3) by (simp add: tree_step_def Let_def)
  qed
qed

lemma step_name:
  assumes ok: "parser_ok alloc p" and st: "tp_state p = NameState" and b: "b \<noteq> 0"
  shows "(\<exists>q e. tree_step p b = (q, Inl e) \<and> too_big alloc (tp_observedSize p + 1))
     \<or> (\<exists>n. tree_step p b = (p\<lparr>tp_observedSize := tp_observedSize p + 1, tp_name := n\<rparr>, Inr None)
         \<and> field_content n = field_content (tp_name p) @ [b]
         \<and> parser_ok alloc (p\<lparr>tp_observedSize := tp_observedSize p + 1, tp_name := n\<rparr>))"
proof (cases "is_safe (tp_observedSize p + 1)")
  case False
  then show ?thesis by (simp add: tree_step_def Let_def too_big_unsafe)
next
  case True
  have nok: "field_ok (tp_name p)" using ok by (simp add: parser_ok_def)
  show ?thesis
  proof (cases "byte_field_push (tp_name p) b")
    case (Inl e)
    have "too_big alloc (bf_length (tp_name p))"
      using byte_field_push_Inl(1) [OF nok Inl] ok by (simp add: parser_ok_def)
    then have "too_big alloc (tp_observedSize p + 1)"
      by (rule too_big_mono) (use ok in \<open>simp add: parser_ok_def\<close>)
    then show ?thesis using True st b Inl by (simp add: tree_step_def Let_def)
  next
    case (Inr n)
    note push = byte_field_push_Inr [OF nok Inr]
    have "parser_ok alloc (p\<lparr>tp_observedSize := tp_observedSize p + 1, tp_name := n\<rparr>)"
      using ok push(1,3,4,5) by (simp add: parser_ok_def)
    then show ?thesis using True st b Inr push(2) by (auto simp: tree_step_def Let_def)
  qed
qed

lemma step_oid:
  assumes ok: "parser_ok alloc p" and st: "tp_state p = OidState" and at: "tp_oidAt p < 19"
  shows "(\<exists>q e. tree_step p b = (q, Inl e) \<and> too_big alloc (tp_observedSize p + 1))
     \<or> tree_step p b = (p\<lparr>tp_observedSize := tp_observedSize p + 1, tp_oid := (tp_oid p)[tp_oidAt p := b],
                          tp_oidAt := tp_oidAt p + 1\<rparr>, Inr None)"
  using assms too_big_unsafe [of "tp_observedSize p + 1" alloc]
  by (simp add: tree_step_def Let_def parser_ok_def)

lemma step_oid_last:
  assumes "is_safe (tp_observedSize p + 1)" "tp_state p = OidState" "tp_oidAt p + 1 = length (tp_oid p)"
  shows "tree_step p b =
    (case decodeTreeName (tp_nameBytes p) of
       Inl e \<Rightarrow> (p\<lparr>tp_observedSize := tp_observedSize p + 1, tp_oid := (tp_oid p)[tp_oidAt p := b],
                   tp_oidAt := tp_oidAt p + 1\<rparr>, Inl e)
     | Inr name \<Rightarrow>
         (p\<lparr>tp_observedSize := tp_observedSize p + 1, tp_oid := (tp_oid p)[tp_oidAt p := b],
            tp_oidAt := tp_oidAt p + 1, tp_entryCount := tp_entryCount p + 1, tp_state := ModeState,
            tp_modeText := [], tp_nameBytes := []\<rparr>,
          Inr (Some \<lparr>entry = \<lparr>mode = tp_modeText p, entry_name = name,
                              oid = toHex ((tp_oid p)[tp_oidAt p := b])\<rparr>,
                     nameBytes = tp_nameBytes p, ordinal = tp_entryCount p,
                     entry_observed = tp_observedSize p + 1\<rparr>)))"
  using assms by (simp add: tree_step_def Let_def split: sum.split)

text \<open>Whole phases: a run of mode bytes, of name bytes, of id bytes.\<close>

lemma mode_phase:
  "parser_ok alloc p \<Longrightarrow> tp_state p = ModeState \<Longrightarrow> 0x20 \<notin> set xs \<Longrightarrow>
     (\<exists>q e. push_loop p xs = (q, [], Some e) \<and> too_big alloc (tp_observedSize p + length xs))
     \<or> (\<exists>q. push_loop p xs = (q, [], Some mode_too_long) \<and> 6 < bf_length (tp_mode p) + length xs)
     \<or> (\<exists>m. push_loop p xs = (p\<lparr>tp_observedSize := tp_observedSize p + length xs, tp_mode := m\<rparr>, [], None)
         \<and> field_content m = field_content (tp_mode p) @ xs \<and> bf_length (tp_mode p) + length xs \<le> 6
         \<and> parser_ok alloc (p\<lparr>tp_observedSize := tp_observedSize p + length xs, tp_mode := m\<rparr>))"
proof (induction xs arbitrary: p)
  case Nil
  then have "bf_length (tp_mode p) \<le> 6" by (simp add: parser_ok_def)
  then show ?case using Nil by (intro disjI2 exI [of _ "tp_mode p"]) simp
next
  case (Cons b bs)
  have b: "b \<noteq> 0x20" using Cons.prems by auto
  from Cons.prems(1,2) b show ?case
  proof (cases rule: step_mode)
    case big
    then show ?thesis by (auto elim!: too_big_mono)
  next
    case long
    then show ?thesis by auto
  next
    case (pushed m)
    from Cons.IH [OF pushed(4)] show ?thesis using Cons.prems pushed(1-3) by auto
  qed
qed

lemma name_phase:
  "parser_ok alloc p \<Longrightarrow> tp_state p = NameState \<Longrightarrow> 0 \<notin> set xs \<Longrightarrow>
     (\<exists>q e. push_loop p xs = (q, [], Some e) \<and> too_big alloc (tp_observedSize p + length xs))
     \<or> (\<exists>n. push_loop p xs = (p\<lparr>tp_observedSize := tp_observedSize p + length xs, tp_name := n\<rparr>, [], None)
         \<and> field_content n = field_content (tp_name p) @ xs
         \<and> parser_ok alloc (p\<lparr>tp_observedSize := tp_observedSize p + length xs, tp_name := n\<rparr>))"
proof (induction xs arbitrary: p)
  case Nil
  then show ?case by (intro disjI2 exI [of _ "tp_name p"]) simp
next
  case (Cons b bs)
  have b: "b \<noteq> 0" using Cons.prems by auto
  from step_name [OF Cons.prems(1,2) b] show ?case
  proof
    assume "\<exists>q e. tree_step p b = (q, Inl e) \<and> too_big alloc (tp_observedSize p + 1)"
    then show ?thesis by (auto elim!: too_big_mono)
  next
    assume "\<exists>n. tree_step p b = (p\<lparr>tp_observedSize := tp_observedSize p + 1, tp_name := n\<rparr>, Inr None)
         \<and> field_content n = field_content (tp_name p) @ [b]
         \<and> parser_ok alloc (p\<lparr>tp_observedSize := tp_observedSize p + 1, tp_name := n\<rparr>)"
    then obtain n where n: "tree_step p b = (p\<lparr>tp_observedSize := tp_observedSize p + 1, tp_name := n\<rparr>, Inr None)"
        "field_content n = field_content (tp_name p) @ [b]"
        "parser_ok alloc (p\<lparr>tp_observedSize := tp_observedSize p + 1, tp_name := n\<rparr>)" by blast
    from Cons.IH [OF n(3)] show ?thesis using Cons.prems n(1,2) by auto
  qed
qed

lemma oid_phase:
  "parser_ok alloc p \<Longrightarrow> tp_state p = OidState \<Longrightarrow> tp_oidAt p + length xs \<le> 19 \<Longrightarrow>
     (\<exists>q e. push_loop p xs = (q, [], Some e) \<and> too_big alloc (tp_observedSize p + length xs))
     \<or> push_loop p xs = (p\<lparr>tp_observedSize := tp_observedSize p + length xs,
           tp_oid := take (tp_oidAt p) (tp_oid p) @ xs @ drop (tp_oidAt p + length xs) (tp_oid p),
           tp_oidAt := tp_oidAt p + length xs\<rparr>, [], None)"
proof (induction xs arbitrary: p)
  case (Cons b bs)
  let ?q = "p\<lparr>tp_observedSize := tp_observedSize p + 1, tp_oid := (tp_oid p)[tp_oidAt p := b], tp_oidAt := tp_oidAt p + 1\<rparr>"
  have at: "tp_oidAt p < 19" "tp_oidAt p < length (tp_oid p)" using Cons.prems by (auto simp: parser_ok_def)
  have ok: "parser_ok alloc ?q" using Cons.prems(1) by (auto simp: parser_ok_def)
  from step_oid [OF Cons.prems(1,2) at(1), of b] show ?case
  proof
    assume "\<exists>q e. tree_step p b = (q, Inl e) \<and> too_big alloc (tp_observedSize p + 1)"
    then show ?thesis by (auto elim!: too_big_mono)
  next
    assume "tree_step p b = (?q, Inr None)"
    then show ?thesis using Cons.IH [OF ok] Cons.prems at
      by (auto simp: take_Suc_conv_app_nth)
  qed
qed simp

text \<open>Between entries.\<close>

definition idle :: "nat \<Rightarrow> TreeParser \<Rightarrow> bool" where
  "idle alloc p \<longleftrightarrow> parser_ok alloc p \<and> tp_state p = ModeState \<and> bf_length (tp_mode p) = 0 \<and> bf_length (tp_name p) = 0"

definition refused :: "nat \<Rightarrow> nat \<Rightarrow> TreeParser \<times> ParsedTreeEntry list \<times> error option \<Rightarrow> bool" where
  "refused alloc n r \<longleftrightarrow> (\<exists>q e. r = (q, [], Some e)) \<and> too_big alloc n"

text \<open>Stopped inside a mode of more than six bytes.\<close>

definition stopped_long :: "TreeParser \<times> ParsedTreeEntry list \<times> error option \<Rightarrow> bool" where
  "stopped_long r \<longleftrightarrow> (\<exists>q. r = (q, [], Some mode_too_long))"

lemma stopped_long_append: "stopped_long (push_loop p xs) \<Longrightarrow> stopped_long (push_loop p (xs @ ys))"
  by (auto simp: stopped_long_def push_loop_append)

lemma refused_append:
  "refused alloc m (push_loop p xs) \<Longrightarrow> m \<le> n \<Longrightarrow> refused alloc n (push_loop p (xs @ ys))"
  by (auto simp: refused_def push_loop_append elim: too_big_mono)

lemma refused_next:
  "push_loop p xs = (q, [], None) \<Longrightarrow> refused alloc m (push_loop q ys) \<Longrightarrow> m \<le> n \<Longrightarrow>
     refused alloc n (push_loop p (xs @ ys))"
  by (auto simp: refused_def push_loop_append elim: too_big_mono)

lemma field_content_empty: "field_ok f \<Longrightarrow> field_content f = [] \<longleftrightarrow> bf_length f = 0"
  by (auto simp: field_content_def field_ok_def)

lemma reach_name:
  assumes "idle alloc p" "0x20 \<notin> set m"
  shows "refused alloc (tp_observedSize p + length m + 1) (push_loop p (m @ [0x20]))
     \<or> 6 < length m \<and> stopped_long (push_loop p (m @ [0x20]))
     \<or> length m \<le> 6 \<and> (\<exists>q. push_loop p (m @ [0x20]) = (q, [], None) \<and> parser_ok alloc q \<and> tp_state q = NameState
         \<and> tp_modeText q = utf8_decode m \<and> bf_length (tp_mode q) = 0 \<and> bf_length (tp_name q) = 0
         \<and> tp_observedSize q = tp_observedSize p + length m + 1 \<and> tp_entryCount q = tp_entryCount p)"
proof -
  have pre: "parser_ok alloc p" "tp_state p = ModeState" "bf_length (tp_mode p) = 0"
    using assms by (auto simp: idle_def)
  consider (bad) "refused alloc (tp_observedSize p + length m) (push_loop p m)"
    | (long) "6 < length m" "stopped_long (push_loop p m)"
    | (good) f where "push_loop p m = (p\<lparr>tp_observedSize := tp_observedSize p + length m, tp_mode := f\<rparr>, [], None)"
      "field_content f = field_content (tp_mode p) @ m"
      "parser_ok alloc (p\<lparr>tp_observedSize := tp_observedSize p + length m, tp_mode := f\<rparr>)" "length m \<le> 6"
    using mode_phase [OF pre(1,2) assms(2)] unfolding refused_def stopped_long_def pre(3) by auto
  then show ?thesis
  proof cases
    case bad
    then show ?thesis using refused_append [OF bad, of "tp_observedSize p + length m + 1" "[0x20]"] by simp
  next
    case long
    then show ?thesis using stopped_long_append [OF long(2), of "[0x20]"] by simp
  next
    case f: good
  have "field_content f = m" using f(2) assms(1) field_content_empty [of "tp_mode p"] by (simp add: idle_def parser_ok_def)
  then have bs: "byte_field_take f = (m, f\<lparr>bf_length := 0\<rparr>)" by (simp add: byte_field_take_def field_content_def)
  show ?thesis
  proof (cases "is_safe (tp_observedSize p + length m + 1)")
    case False
    then have "refused alloc (tp_observedSize p + length m + 1) (push_loop p (m @ [0x20]))"
      using f(1) too_big_unsafe [OF False] by (simp add: refused_def push_loop_append tree_step_def Let_def)
    then show ?thesis by simp
  next
    case True
    then show ?thesis using f(1,3,4) bs assms(1)
      by (auto simp: push_loop_append tree_step_def Let_def idle_def parser_ok_def field_ok_def)
  qed
  qed
qed

lemma reach_oid:
  assumes "parser_ok alloc p" "tp_state p = NameState" "bf_length (tp_name p) = 0" "0 \<notin> set n"
  shows "refused alloc (tp_observedSize p + length n + 1) (push_loop p (n @ [0]))
     \<or> (\<exists>q. push_loop p (n @ [0]) = (q, [], None) \<and> parser_ok alloc q \<and> tp_state q = OidState
         \<and> tp_nameBytes q = n \<and> tp_oidAt q = 0 \<and> tp_modeText q = tp_modeText p \<and> tp_mode q = tp_mode p
         \<and> bf_length (tp_name q) = 0
         \<and> tp_observedSize q = tp_observedSize p + length n + 1 \<and> tp_entryCount q = tp_entryCount p)"
proof -
  consider (bad) "refused alloc (tp_observedSize p + length n) (push_loop p n)"
    | (good) f where "push_loop p n = (p\<lparr>tp_observedSize := tp_observedSize p + length n, tp_name := f\<rparr>, [], None)"
      "field_content f = field_content (tp_name p) @ n"
      "parser_ok alloc (p\<lparr>tp_observedSize := tp_observedSize p + length n, tp_name := f\<rparr>)"
    using name_phase [OF assms(1,2,4)] unfolding refused_def by blast
  then show ?thesis
  proof cases
    case bad
    then show ?thesis using refused_append [OF bad, of "tp_observedSize p + length n + 1" "[0]"] by simp
  next
    case f: good
    have "field_content f = n" using f(2) assms field_content_empty [of "tp_name p"] by (simp add: parser_ok_def)
    then have bs: "byte_field_take f = (n, f\<lparr>bf_length := 0\<rparr>)" by (simp add: byte_field_take_def field_content_def)
    show ?thesis
    proof (cases "is_safe (tp_observedSize p + length n + 1)")
      case False
      then have "refused alloc (tp_observedSize p + length n + 1) (push_loop p (n @ [0]))"
        using f(1) too_big_unsafe [OF False] by (simp add: refused_def push_loop_append tree_step_def Let_def)
      then show ?thesis by simp
    next
      case True
      then show ?thesis using f(1,3) bs assms
        by (auto simp: push_loop_append tree_step_def Let_def parser_ok_def field_ok_def)
    qed
  qed
qed

lemma reach_entry:
  assumes ok: "parser_ok alloc p" and st: "tp_state p = OidState" "tp_oidAt p = 0"
    and len: "bf_length (tp_mode p) = 0" "bf_length (tp_name p) = 0" and o: "length bs = 20"
  shows "refused alloc (tp_observedSize p + 20) (push_loop p bs)
     \<or> (case decodeTreeName (tp_nameBytes p) of
          Inl e \<Rightarrow> (\<exists>q. push_loop p bs = (q, [], Some e))
        | Inr name \<Rightarrow> (\<exists>q x. push_loop p bs = (q, [x], None) \<and> idle alloc q
            \<and> entry x = \<lparr>mode = tp_modeText p, entry_name = name, oid = toHex bs\<rparr>
            \<and> nameBytes x = tp_nameBytes p \<and> ordinal x = tp_entryCount p
            \<and> tp_observedSize q = tp_observedSize p + 20 \<and> tp_entryCount q = tp_entryCount p + 1))"
proof -
  obtain xs b where bs: "bs = xs @ [b]" using o by (cases bs rule: rev_cases) auto
  have xs: "length xs = 19" using o bs by simp
  define q where "q = p\<lparr>tp_observedSize := tp_observedSize p + 19, tp_oid := xs @ drop 19 (tp_oid p), tp_oidAt := 19\<rparr>"
  have "length (drop 19 (tp_oid p)) = 1" using ok by (simp add: parser_ok_def)
  then have last: "(xs @ drop 19 (tp_oid p))[19 := b] = xs @ [b]"
    using xs by (cases "drop 19 (tp_oid p)") (auto simp: list_update_append)
  have obs: "tp_observedSize q + 1 = tp_observedSize p + 20" by (simp add: q_def)
  consider (bad) "refused alloc (tp_observedSize p + 19) (push_loop p xs)" | (good) "push_loop p xs = (q, [], None)"
    using oid_phase [OF ok st(1), of xs] st(2) xs unfolding refused_def q_def by auto
  then show ?thesis
  proof cases
    case bad
    then show ?thesis using refused_append [OF bad, of "tp_observedSize p + 20" "[b]"] bs by simp
  next
    case good
    show ?thesis
    proof (cases "is_safe (tp_observedSize p + 20)")
      case False
      then have "refused alloc (tp_observedSize p + 20) (push_loop p bs)"
        using good too_big_unsafe [OF False] step_unsafe [of q b, unfolded obs, OF False]
        by (auto simp: bs refused_def push_loop_append)
      then show ?thesis by simp
    next
      case True
      have oid: "(tp_oid q)[tp_oidAt q := b] = bs" using last bs by (simp add: q_def)
      have "is_safe (tp_observedSize q + 1)" unfolding obs by (rule True)
      moreover have "tp_state q = OidState" "tp_oidAt q + 1 = length (tp_oid q)"
        using st xs ok by (simp_all add: q_def parser_ok_def)
      ultimately have ready: "is_safe (tp_observedSize q + 1)" "tp_state q = OidState" "tp_oidAt q + 1 = length (tp_oid q)"
        by simp_all
      note step = step_oid_last [OF ready, of b, unfolded oid obs]
      have same: "tp_nameBytes q = tp_nameBytes p" "tp_modeText q = tp_modeText p" "tp_entryCount q = tp_entryCount p"
        "tp_mode q = tp_mode p" "tp_name q = tp_name p" by (simp_all add: q_def)
      show ?thesis
      proof (cases "decodeTreeName (tp_nameBytes p)")
        case (Inl e)
        then show ?thesis using good step by (simp add: bs push_loop_append same)
      next
        case (Inr name)
        then show ?thesis using good step ok len o same
          by (simp add: bs push_loop_append idle_def parser_ok_def)
      qed
    qed
  qed
qed

section \<open>The incremental parser against parseTree\<close>

definition run_error :: "TreeParser \<times> ParsedTreeEntry list \<times> error option \<Rightarrow> error option" where
  "run_error r = (case r of (q, ys, e) \<Rightarrow> case e of Some x \<Rightarrow> Some x
     | None \<Rightarrow> if tp_state q \<noteq> ModeState \<or> bf_length (tp_mode q) \<noteq> 0 then Some (CorruptError ''malformed tree entry'') else None)"

text \<open>
  Whether an entry the reader comes to has a mode of more than six bytes: the whole-buffer reader accepts
  it and the incremental one refuses it. An entry after one that is cut or whose name does not decode is
  not come to.
\<close>

function long_mode :: "bytes \<Rightarrow> bool" where
  "long_mode data \<longleftrightarrow>
     (let m = takeWhile (\<lambda>b. b \<noteq> 0x20) data; after = tl (dropWhile (\<lambda>b. b \<noteq> 0x20) data);
          n = takeWhile (\<lambda>b. b \<noteq> 0) after; rest = dropWhile (\<lambda>b. b \<noteq> 0) after
      in if 6 < length m then True
         else if length rest < 21 then False
         else case decodeTreeName n of Inl e \<Rightarrow> False | Inr name \<Rightarrow> long_mode (drop 21 rest))"
  by pat_completeness auto
termination
proof (relation "measure length", goal_cases)
  case (2 data m after n rest name)
  have "length rest \<le> length data"
    using 2 length_dropWhile_le [of "\<lambda>b. b \<noteq> 0x20" data] length_dropWhile_le [of "\<lambda>b. b \<noteq> 0" after] by simp
  then show ?case using 2 by simp
qed simp

declare long_mode.simps [simp del]

text \<open>
  How a run of \<open>n\<close> bytes, its entries numbered from \<open>k\<close>, compares with what the whole-buffer reader
  gives; \<open>long\<close> says that a mode is too long.
\<close>

definition agrees ::
  "nat \<Rightarrow> nat \<Rightarrow> nat \<Rightarrow> bool \<Rightarrow> TreeParser \<times> ParsedTreeEntry list \<times> error option \<Rightarrow> TreeEntry list result \<Rightarrow> bool" where
  "agrees alloc n k long r parsed \<longleftrightarrow>
     (case run_error r of
        None \<Rightarrow> \<not> long \<and> parsed = Inr (map entry (fst (snd r)))
          \<and> map ordinal (fst (snd r)) = [k..<k + length (fst (snd r))]
      | Some e \<Rightarrow> too_big alloc n \<or> (if long then e = mode_too_long else parsed = Inl e))"

lemma refused_agrees: "refused alloc m r \<Longrightarrow> m \<le> n \<Longrightarrow> agrees alloc n k long r parsed"
  by (auto simp: refused_def agrees_def run_error_def elim: too_big_mono)

lemma stopped_agrees: "stopped_long r \<Longrightarrow> agrees alloc n k True r parsed"
  by (auto simp: stopped_long_def agrees_def run_error_def)

lemma takeWhile_dropWhile_split:
  assumes "dropWhile (\<lambda>x. x \<noteq> c) xs \<noteq> []"
  shows "xs = takeWhile (\<lambda>x. x \<noteq> c) xs @ c # tl (dropWhile (\<lambda>x. x \<noteq> c) xs)"
  using assms by (induction xs) auto

lemma takeWhile_no: "c \<notin> set (takeWhile (\<lambda>x. x \<noteq> c) xs)"
  by (auto dest: set_takeWhileD)

lemma takeWhile_to:
  fixes xs :: bytes
  assumes "c \<notin> set xs"
  shows "takeWhile (\<lambda>b. b \<noteq> c) (xs @ c # ys) = xs" "dropWhile (\<lambda>b. b \<noteq> c) (xs @ c # ys) = c # ys"
    "takeWhile (\<lambda>b. b \<noteq> c) xs = xs" "dropWhile (\<lambda>b. b \<noteq> c) xs = []"
  using assms by (induction xs) auto

lemma parse_tree_cases:
  "parse_tree_loop [] = Inr []"
  "m \<noteq> [] \<Longrightarrow> 0x20 \<notin> set m \<Longrightarrow> parse_tree_loop m = Inl (CorruptError ''malformed tree entry'')"
  "0x20 \<notin> set m \<Longrightarrow> 0 \<notin> set n \<Longrightarrow> rest = [] \<or> (length rest < 21 \<and> hd rest = 0) \<Longrightarrow>
     parse_tree_loop (m @ 0x20 # n @ rest) = Inl (CorruptError ''malformed tree entry'')"
  "0x20 \<notin> set m \<Longrightarrow> 0 \<notin> set n \<Longrightarrow> length h = 20 \<Longrightarrow>
     parse_tree_loop (m @ 0x20 # n @ 0 # h @ rest) = bindR (decodeTreeName n) (\<lambda>name.
       bindR (parse_tree_loop rest) (\<lambda>entries.
         Inr (\<lparr>mode = utf8_decode m, entry_name = name, oid = toHex h\<rparr> # entries)))"
proof -
  show "parse_tree_loop [] = Inr []" by (simp add: parse_tree_loop.simps)
  show "parse_tree_loop m = Inl (CorruptError ''malformed tree entry'')" if "m \<noteq> []" "0x20 \<notin> set m"
    using that by (simp add: parse_tree_loop.simps [of m] takeWhile_to)
  show "parse_tree_loop (m @ 0x20 # n @ rest) = Inl (CorruptError ''malformed tree entry'')"
    if "0x20 \<notin> set m" "0 \<notin> set n" "rest = [] \<or> (length rest < 21 \<and> hd rest = 0)"
    using that
    by (cases rest) (simp_all add: parse_tree_loop.simps [of "m @ 0x20 # _"] Let_def takeWhile_to)
  show "parse_tree_loop (m @ 0x20 # n @ 0 # h @ rest) = bindR (decodeTreeName n) (\<lambda>name.
       bindR (parse_tree_loop rest) (\<lambda>entries.
         Inr (\<lparr>mode = utf8_decode m, entry_name = name, oid = toHex h\<rparr> # entries)))"
    if "0x20 \<notin> set m" "0 \<notin> set n" "length h = 20"
    using that by (simp add: parse_tree_loop.simps [of "m @ 0x20 # _"] Let_def takeWhile_to)
qed

lemma long_mode_cases:
  "0x20 \<notin> set m \<Longrightarrow> long_mode m \<longleftrightarrow> 6 < length m"
  "0x20 \<notin> set m \<Longrightarrow> 0 \<notin> set n \<Longrightarrow> rest = [] \<or> (length rest < 21 \<and> hd rest = 0) \<Longrightarrow>
     long_mode (m @ 0x20 # n @ rest) \<longleftrightarrow> 6 < length m"
  "0x20 \<notin> set m \<Longrightarrow> 0 \<notin> set n \<Longrightarrow> length h = 20 \<Longrightarrow>
     long_mode (m @ 0x20 # n @ 0 # h @ rest) \<longleftrightarrow>
       6 < length m \<or> (case decodeTreeName n of Inl e \<Rightarrow> False | Inr name \<Rightarrow> long_mode rest)"
proof -
  show "long_mode m \<longleftrightarrow> 6 < length m" if "0x20 \<notin> set m"
    using that by (simp add: long_mode.simps [of m] takeWhile_to)
  show "long_mode (m @ 0x20 # n @ rest) \<longleftrightarrow> 6 < length m"
    if "0x20 \<notin> set m" "0 \<notin> set n" "rest = [] \<or> (length rest < 21 \<and> hd rest = 0)"
    using that by (cases rest) (simp_all add: long_mode.simps [of "m @ 0x20 # _"] Let_def takeWhile_to)
  show "long_mode (m @ 0x20 # n @ 0 # h @ rest) \<longleftrightarrow>
       6 < length m \<or> (case decodeTreeName n of Inl e \<Rightarrow> False | Inr name \<Rightarrow> long_mode rest)"
    if "0x20 \<notin> set m" "0 \<notin> set n" "length h = 20"
    using that by (simp add: long_mode.simps [of "m @ 0x20 # _"] Let_def takeWhile_to cong: sum.case_cong)
qed

text \<open>Every byte string is empty, cut inside its first entry, or a whole entry and a rest.\<close>

lemma tree_bytes_cases:
  fixes data :: bytes
  obtains (empty) "data = []"
    | (in_mode) "data \<noteq> []" "0x20 \<notin> set data"
    | (in_name) m n where "data = m @ 0x20 # n" "0x20 \<notin> set m" "0 \<notin> set n"
    | (in_oid) m n h where "data = m @ 0x20 # n @ 0 # h" "0x20 \<notin> set m" "0 \<notin> set n" "length h < 20"
    | (whole) m n h rest where "data = m @ 0x20 # n @ 0 # h @ rest" "0x20 \<notin> set m" "0 \<notin> set n" "length h = 20"
proof -
  have split: "\<exists>xs ys. zs = xs @ c # ys \<and> c \<notin> set xs" if "c \<in> set zs" for c :: byte and zs
    using that by (metis split_list_first)
  show ?thesis
  proof (cases "0x20 \<in> set data")
    case False
    then show ?thesis using empty in_mode by (cases "data = []") auto
  next
    case True
    then obtain m after where m: "data = m @ 0x20 # after" "0x20 \<notin> set m" using split by blast
    show ?thesis
    proof (cases "0 \<in> set after")
      case False
      then show ?thesis using in_name m by blast
    next
      case True
      then obtain n h where n: "after = n @ 0 # h" "0 \<notin> set n" using split by blast
      show ?thesis
      proof (cases "length h < 20")
        case True
        then show ?thesis using in_oid [of m n h] m n by simp
      next
        case False
        then show ?thesis using whole [of m n "take 20 h" "drop 20 h"] m n by simp
      qed
    qed
  qed
qed

lemma reach_oid_from_idle:
  assumes "idle alloc p" "0x20 \<notin> set m" "0 \<notin> set n"
  shows "refused alloc (tp_observedSize p + length m + length n + 2) (push_loop p (m @ 0x20 # n @ [0]))
     \<or> 6 < length m \<and> stopped_long (push_loop p (m @ 0x20 # n @ [0]))
     \<or> length m \<le> 6 \<and> (\<exists>q. push_loop p (m @ 0x20 # n @ [0]) = (q, [], None) \<and> parser_ok alloc q \<and> tp_state q = OidState
         \<and> tp_nameBytes q = n \<and> tp_oidAt q = 0 \<and> tp_modeText q = utf8_decode m
         \<and> bf_length (tp_mode q) = 0 \<and> bf_length (tp_name q) = 0
         \<and> tp_observedSize q = tp_observedSize p + length m + length n + 2 \<and> tp_entryCount q = tp_entryCount p)"
proof -
  consider (bad) "refused alloc (tp_observedSize p + length m + 1) (push_loop p (m @ [0x20]))"
    | (long) "6 < length m" "stopped_long (push_loop p (m @ [0x20]))"
    | (good) q where "push_loop p (m @ [0x20]) = (q, [], None)" "parser_ok alloc q" "tp_state q = NameState"
      "tp_modeText q = utf8_decode m" "bf_length (tp_mode q) = 0" "bf_length (tp_name q) = 0"
      "tp_observedSize q = tp_observedSize p + length m + 1" "tp_entryCount q = tp_entryCount p" "length m \<le> 6"
    using reach_name [OF assms(1,2)] by blast
  then show ?thesis
  proof cases
    case bad
    then show ?thesis using refused_append [of alloc _ p "m @ [0x20]" _ "n @ [0]"] by fastforce
  next
    case long
    then show ?thesis using stopped_long_append [of p "m @ [0x20]" "n @ [0]"] by simp
  next
    case q: good
    have whole: "push_loop p (m @ 0x20 # n @ [0]) = push_loop q (n @ [0])"
      using q(1) push_loop_append [of p "m @ [0x20]" "n @ [0]"] by (simp split: prod.split)
    from reach_oid [OF q(2,3,6) assms(3)] show ?thesis unfolding whole using q(4-9) by (auto simp: add_ac)
  qed
qed

lemma agrees_Cons:
  assumes "push_loop q h = (r, [x], None)" "ordinal x = k" "agrees alloc n (k + 1) long (push_loop r rest) parsed"
  shows "agrees alloc n k long (push_loop q (h @ rest)) (bindR parsed (\<lambda>entries. Inr (entry x # entries)))"
proof -
  obtain r' ys e where rest: "push_loop r rest = (r', ys, e)" by (cases "push_loop r rest") auto
  have run: "push_loop q (h @ rest) = (r', x # ys, e)" using assms(1) rest by (simp add: push_loop_append)
  have "run_error (push_loop q (h @ rest)) = run_error (push_loop r rest)"
    unfolding run rest by (simp add: run_error_def)
  moreover have "[k..<k + length (x # ys)] = k # [k + 1..<k + 1 + length ys]"
    by (simp add: upt_conv_Cons del: upt_Suc)
  ultimately show ?thesis using assms(2,3) unfolding agrees_def run rest
    by (auto split: option.splits if_splits simp del: upt_Suc)
qed

lemma whole_agrees:
  assumes idle: "idle alloc p"
    and whole: "data = m @ 0x20 # n @ 0 # h @ rest" "0x20 \<notin> set m" "0 \<notin> set n" "length h = 20"
    and next_agrees: "\<And>r. idle alloc r \<Longrightarrow>
      agrees alloc (tp_observedSize r + length rest) (tp_entryCount r) (long_mode rest) (push_loop r rest)
        (parse_tree_loop rest)"
  shows "agrees alloc (tp_observedSize p + length data) (tp_entryCount p) (long_mode data) (push_loop p data)
    (parse_tree_loop data)"
proof -
  have data: "data = (m @ 0x20 # n @ [0]) @ h @ rest" using whole(1) by simp
  note parsed = parse_tree_cases(4) [OF whole(2-4), of rest, folded whole(1)]
  note mode = long_mode_cases(3) [OF whole(2-4), of rest, folded whole(1)]
  consider (bad) "refused alloc (tp_observedSize p + length m + length n + 2) (push_loop p (m @ 0x20 # n @ [0]))"
    | (long) "6 < length m" "stopped_long (push_loop p (m @ 0x20 # n @ [0]))"
    | (good) q where "push_loop p (m @ 0x20 # n @ [0]) = (q, [], None)" "parser_ok alloc q" "tp_state q = OidState"
      "tp_nameBytes q = n" "tp_oidAt q = 0" "tp_modeText q = utf8_decode m" "bf_length (tp_mode q) = 0"
      "bf_length (tp_name q) = 0" "tp_observedSize q = tp_observedSize p + length m + length n + 2"
      "tp_entryCount q = tp_entryCount p" "length m \<le> 6"
    using reach_oid_from_idle [OF idle whole(2,3)] by blast
  then show ?thesis
  proof cases
    case bad
    show ?thesis using refused_agrees [OF refused_append [OF bad order_refl, of "h @ rest"]] data by simp
  next
    case long
    show ?thesis using stopped_agrees [OF stopped_long_append [OF long(2), of "h @ rest"]] mode long(1) data by simp
  next
    case good
    have run: "push_loop p data = push_loop q (h @ rest)"
      unfolding data push_loop_append [of p "m @ 0x20 # n @ [0]"] good(1) by (simp split: prod.split)
    consider (bad) "refused alloc (tp_observedSize q + 20) (push_loop q h)"
      | (undecoded) r e where "decodeTreeName n = Inl e" "push_loop q h = (r, [], Some e)"
      | (entry) name r x where "decodeTreeName n = Inr name" "push_loop q h = (r, [x], None)" "idle alloc r"
          "entry x = \<lparr>mode = utf8_decode m, entry_name = name, oid = toHex h\<rparr>" "ordinal x = tp_entryCount p"
          "tp_observedSize r = tp_observedSize q + 20" "tp_entryCount r = tp_entryCount p + 1"
      using reach_entry [OF good(2,3,5,7,8) whole(4)] good(4,6,10) by (auto split: sum.splits)
    then show ?thesis
    proof cases
      case bad
      show ?thesis unfolding run
        using refused_agrees [OF refused_append [OF bad order_refl, of rest]] good(9) data whole(4) by simp
    next
      case undecoded
      show ?thesis unfolding run parsed mode using undecoded good(11)
        by (simp add: push_loop_append agrees_def run_error_def)
    next
      case entry
      have size: "tp_observedSize r + length rest = tp_observedSize p + length data"
        using entry(6) good(9) data whole(4) by simp
      then show ?thesis unfolding run parsed mode
        using agrees_Cons [OF entry(2,5)] next_agrees [OF entry(3)] entry(1,4,7) good(11) by simp
    qed
  qed
qed

lemma stream_agrees:
  "idle alloc p \<Longrightarrow>
     agrees alloc (tp_observedSize p + length data) (tp_entryCount p) (long_mode data) (push_loop p data)
       (parse_tree_loop data)"
proof (induction data arbitrary: p rule: length_induct)
  case (1 data)
  have idle: "idle alloc p" by fact
  then have ok: "parser_ok alloc p" "tp_state p = ModeState" "bf_length (tp_mode p) = 0" by (auto simp: idle_def)
  show ?case
  proof (cases data rule: tree_bytes_cases)
    case empty
    then show ?thesis using idle by (simp add: agrees_def run_error_def idle_def parse_tree_cases long_mode_cases)
  next
    case in_mode
    have "field_content (tp_mode p) = []" using ok(3) by (simp add: field_content_def)
    then consider (bad) "refused alloc (tp_observedSize p + length data) (push_loop p data)"
      | (long) "6 < length data" "stopped_long (push_loop p data)"
      | (cut) "length data \<le> 6" "run_error (push_loop p data) = Some (CorruptError ''malformed tree entry'')"
      using mode_phase [OF ok(1,2) in_mode(2)] in_mode(1) ok(3)
      by (auto simp: refused_def stopped_long_def run_error_def field_content_def)
    then show ?thesis
    proof cases
      case bad
      then show ?thesis by (rule refused_agrees) simp
    next
      case long
      then show ?thesis using stopped_agrees long_mode_cases(1) [OF in_mode(2)] by simp
    qed (simp add: agrees_def parse_tree_cases(2) [OF in_mode] long_mode_cases(1) [OF in_mode(2)])
  next
    case (in_name m n)
    have malformed: "parse_tree_loop data = Inl (CorruptError ''malformed tree entry'')"
      using parse_tree_cases(3) [OF in_name(2,3), of "[]"] in_name(1) by simp
    have mode: "long_mode data \<longleftrightarrow> 6 < length m"
      using long_mode_cases(2) [OF in_name(2,3), of "[]"] in_name(1) by simp
    consider (bad) "refused alloc (tp_observedSize p + length m + 1) (push_loop p (m @ [0x20]))"
      | (long) "6 < length m" "stopped_long (push_loop p (m @ [0x20]))"
      | (good) q where "push_loop p (m @ [0x20]) = (q, [], None)" "parser_ok alloc q" "tp_state q = NameState"
        "tp_observedSize q = tp_observedSize p + length m + 1" "length m \<le> 6"
      using reach_name [OF idle in_name(2)] by blast
    then show ?thesis
    proof cases
      case bad
      show ?thesis using refused_agrees [OF refused_append [OF bad order_refl, of n]] in_name(1) by simp
    next
      case long
      show ?thesis using stopped_agrees [OF stopped_long_append [OF long(2), of n]] mode long(1) in_name(1) by simp
    next
      case q: good
      have "push_loop p data = push_loop p ((m @ [0x20]) @ n)" using in_name(1) by simp
      then show ?thesis
        using name_phase [OF q(2,3) in_name(3)] q(1,3-5) malformed mode in_name(1)
        unfolding push_loop_append [of p "m @ [0x20]"] by (auto simp: agrees_def run_error_def add_ac)
    qed
  next
    case (in_oid m n h)
    have malformed: "parse_tree_loop data = Inl (CorruptError ''malformed tree entry'')"
      using parse_tree_cases(3) [OF in_oid(2,3), of "0 # h"] in_oid(1,4) by simp
    have mode: "long_mode data \<longleftrightarrow> 6 < length m"
      using long_mode_cases(2) [OF in_oid(2,3), of "0 # h"] in_oid(1,4) by simp
    have data: "data = (m @ 0x20 # n @ [0]) @ h" using in_oid(1) by simp
    consider (bad) "refused alloc (tp_observedSize p + length m + length n + 2) (push_loop p (m @ 0x20 # n @ [0]))"
      | (long) "6 < length m" "stopped_long (push_loop p (m @ 0x20 # n @ [0]))"
      | (good) q where "push_loop p (m @ 0x20 # n @ [0]) = (q, [], None)" "parser_ok alloc q" "tp_state q = OidState"
        "tp_oidAt q = 0" "tp_observedSize q = tp_observedSize p + length m + length n + 2" "length m \<le> 6"
      using reach_oid_from_idle [OF idle in_oid(2,3)] by blast
    then show ?thesis
    proof cases
      case bad
      show ?thesis using refused_agrees [OF refused_append [OF bad order_refl, of h]] data by simp
    next
      case long
      show ?thesis using stopped_agrees [OF stopped_long_append [OF long(2), of h]] mode long(1) data by simp
    next
      case good
      have run: "push_loop p data = push_loop q h"
        unfolding data push_loop_append [of p "m @ 0x20 # n @ [0]"] good(1) by (simp split: prod.split)
      show ?thesis unfolding run malformed mode
        using oid_phase [OF good(2,3), of h] good in_oid(4) by (auto simp: agrees_def run_error_def data add_ac)
    qed
  next
    case (whole m n h rest)
    then show ?thesis using whole_agrees [OF idle whole] 1(1) by simp
  qed
qed

lemma newTreeParser_idle: "idle alloc (newTreeParser alloc)"
  by (simp add: idle_def parser_ok_def newTreeParser_def newByteField_def field_ok_def)

lemma parseTreeStream_run_error:
  "parseTreeStream alloc chunks =
     (let r = push_loop (newTreeParser alloc) (concat chunks) in (fst (snd r), run_error r))"
proof -
  have fresh: "\<not> tp_finished (newTreeParser alloc)" by (simp add: newTreeParser_def)
  obtain q ys e where r: "push_loop (newTreeParser alloc) (concat chunks) = (q, ys, e)"
    by (cases "push_loop (newTreeParser alloc) (concat chunks)") auto
  have "\<not> tp_finished q" using push_loop_finished [OF r] fresh by simp
  then show ?thesis unfolding parseTreeStream_def push_chunks_concat [OF fresh] r
    by (auto simp: run_error_def tree_parser_finish_def Let_def split: option.splits)
qed

section \<open>Sorting and writing\<close>

interpretation tree: comparator compareTreeEntries
  by unfold_locales (auto simp: compareTreeEntries_def comparePaths_swap [symmetric] intro: comparePaths_trans_le)

lemma oid_bytes_fromHex: "length v = 40 \<Longrightarrow> oid_bytes v = fromHex v"
  by (simp add: oid_bytes_def fromHex_def)

definition entry_ok :: "TreeEntry \<Rightarrow> bool" where
  "entry_ok e \<longleftrightarrow> isOid (oid e) \<and> list_all is_digit (mode e)
     \<and> well_formed (entry_name e) \<and> \<not> has_bom (entry_name e) \<and> 0 \<notin> set (entry_name e)"

definition written :: "TreeEntry \<Rightarrow> TreeEntry" where
  "written e = e\<lparr>mode := written_mode e\<rparr>"

lemma digits_encode:
  assumes "list_all is_digit ds"
  shows "well_formed ds" "\<not> has_bom ds" "0x20 \<notin> set (utf8_encode ds)"
proof -
  have ascii: "list_all (\<lambda>u. u < 0x80) ds" using assms by (induction ds) (auto simp: is_digit_def word_less_nat_alt word_le_nat_alt)
  then show "well_formed ds" by (rule well_formed_plain)
  show "\<not> has_bom ds" using assms by (auto simp: has_bom_def is_digit_def)
  have lt: "\<forall>u \<in> set ds. unat u < 0x80" using ascii by (simp add: list_all_iff word_less_nat_alt)
  have "word_of_nat (unat u) \<noteq> (0x20 :: byte)" if "u \<in> set ds" for u
  proof -
    have "unat (word_of_nat (unat u) :: byte) = unat u" using lt that by (intro unat_word_of_nat_byte) auto
    moreover have "unat u \<noteq> 0x20" using assms that by (auto simp: list_all_iff is_digit_def word_le_nat_alt)
    ultimately show ?thesis by auto
  qed
  then show "0x20 \<notin> set (utf8_encode ds)" unfolding utf8_encode_ascii [OF lt] by force
qed

lemma written_mode_digits: "entry_ok e \<Longrightarrow> list_all is_digit (written_mode e)"
  by (auto simp: entry_ok_def written_mode_def list_all_iff dest: set_dropWhileD)

lemma encode_entry:
  assumes "entry_ok e"
  shows "utf8_encode (written_mode e @ [0x20] @ entry_name e @ [0])
     = utf8_encode (written_mode e) @ 0x20 # utf8_encode (entry_name e) @ [0]"
proof -
  have sp: "utf8_encode ([0x20] @ s) = 0x20 # utf8_encode s" for s
    using utf8_encode_append [of "[0x20]" s] utf8_encode_ascii [of "[0x20]"]
    by (simp add: well_formed.simps(2) is_high_def is_low_def)
  have nul: "utf8_encode [0] = [0]" using utf8_encode_ascii [of "[0]"] by simp
  show ?thesis
    using assms utf8_encode_append [OF digits_encode(1) [OF written_mode_digits [OF assms]]] sp
      utf8_encode_append [of "entry_name e" "[0]"] nul by (simp add: entry_ok_def)
qed

lemma oid_bytes_ok: "isOid v \<Longrightarrow> length (oid_bytes v) = 20 \<and> toHex (oid_bytes v) = v"
  by (simp add: oid_bytes_fromHex isOid_def toHex_fromHex) (simp add: fromHex_def)

lemma parse_written:
  "\<forall>e \<in> set es. entry_ok e \<Longrightarrow>
     parse_tree_loop (concat (concat (map (\<lambda>e.
       [utf8_encode (written_mode e @ [0x20] @ entry_name e @ [0]), oid_bytes (oid e)]) es))) = Inr (map written es)"
proof (induction es)
  case (Cons e es)
  have ok: "entry_ok e" using Cons.prems by simp
  note d = digits_encode [OF written_mode_digits [OF ok]]
  let ?rest = "concat (concat (map (\<lambda>e.
       [utf8_encode (written_mode e @ [0x20] @ entry_name e @ [0]), oid_bytes (oid e)]) es))"
  have name: "decodeTreeName (utf8_encode (entry_name e)) = Inr (entry_name e)"
    using ok by (simp add: decodeTreeName_def entry_ok_def utf8_decode_fatal_encode)
  have "0 \<notin> set (utf8_encode (entry_name e))" using ok by (simp add: utf8_encode_0 entry_ok_def)
  moreover have "length (oid_bytes (oid e)) = 20" "toHex (oid_bytes (oid e)) = oid e"
    using ok oid_bytes_ok by (auto simp: entry_ok_def)
  moreover have "parse_tree_loop ?rest = Inr (map written es)" using Cons by simp
  ultimately show ?case
    using parse_tree_cases(4) [OF d(3), of "utf8_encode (entry_name e)" "oid_bytes (oid e)" ?rest] name
      utf8_decode_encode [OF d(1,2)]
    unfolding list.map concat.simps encode_entry [OF ok] by (simp add: written_def)
qed (simp add: parse_tree_cases)

section \<open>Names as bytes\<close>

lemma utf8_encode_bom: "utf8_encode (0xfeff # s) = [0xef, 0xbb, 0xbf] @ utf8_encode s"
  by (simp add: utf8_encode_def code_points_cases is_high_def is_low_def encode_point_def)

lemma well_formed_bom: "well_formed (0xfeff # s) = well_formed s"
  by (simp add: well_formed.simps(2) is_high_def is_low_def)

lemma decode_bom:
  "decode_from fresh ([0xef, 0xbb, 0xbf] @ utf8_encode s) = Some 0xfeff # map Some (code_points s)"
  using decode_utf8_encode [of "0xfeff # s"] unfolding utf8_encode_bom
  by (simp add: code_points_cases is_high_def is_low_def)

lemma decodeTreeName_encode:
  assumes "well_formed t"
  shows "decodeTreeName (utf8_encode t) = Inr (if has_bom t then tl t else t)"
proof (cases "has_bom t")
  case True
  then obtain s where t: "t = 0xfeff # s" by (auto simp: has_bom_def)
  then have "well_formed s" using assms by (simp add: well_formed_bom)
  then show ?thesis unfolding t utf8_encode_bom decodeTreeName_def utf8_decode_fatal_def decode_bom
    by (auto simp: has_bom_def drop_bom_def comp_def points_units_inverse)
qed (use assms in \<open>simp add: decodeTreeName_def utf8_decode_fatal_encode\<close>)

lemma utf8_encode_starts_bom:
  assumes "well_formed t"
  shows "take 3 (utf8_encode t) = [0xef, 0xbb, 0xbf] \<longleftrightarrow> has_bom t"
proof
  assume "take 3 (utf8_encode t) = [0xef, 0xbb, 0xbf]"
  then obtain bs where bs: "utf8_encode t = [0xef, 0xbb, 0xbf] @ bs" by (metis append_take_drop_id)
  have "\<exists>cs. decode_from fresh ([0xef, 0xbb, 0xbf] @ bs) = Some 0xfeff # cs"
    by (simp add: decode_from.simps(2) fresh_def lead_byte_def)
  then have "\<exists>cs. code_points t = 0xfeff # cs" using decode_utf8_encode [of t] unfolding bs by auto
  then show "has_bom t" by (auto simp: code_points_hd_feff has_bom_def)
qed (auto simp: has_bom_def utf8_encode_bom)

lemma decodeTreeName_Inr:
  "decodeTreeName bs = Inr s \<longleftrightarrow>
     (\<exists>t. well_formed t \<and> bs = utf8_encode t \<and> s = (if has_bom t then tl t else t))"
proof
  assume "decodeTreeName bs = Inr s"
  then have s: "utf8_decode_fatal bs = Some s" by (simp add: decodeTreeName_def split: option.splits)
  have wf: "well_formed s" using utf8_decode_fatal_Some [OF s] by simp
  consider "bs = utf8_encode s" | "bs = utf8_encode (0xfeff # s)"
    using utf8_decode_fatal_Some [OF s] by (auto simp: utf8_encode_bom)
  then show "\<exists>t. well_formed t \<and> bs = utf8_encode t \<and> s = (if has_bom t then tl t else t)"
  proof cases
    case 1
    then show ?thesis using wf decodeTreeName_encode [OF wf] \<open>decodeTreeName bs = Inr s\<close> by auto
  next
    case 2
    then show ?thesis using wf by (intro exI [of _ "0xfeff # s"]) (simp add: well_formed_bom has_bom_def)
  qed
qed (auto simp: decodeTreeName_encode)

lemma decodeTreeName_reencode:
  assumes "decodeTreeName bs = Inr s"
  shows "utf8_encode s = bs \<longleftrightarrow> take 3 bs \<noteq> [0xef, 0xbb, 0xbf]"
proof -
  obtain t where t: "well_formed t" "bs = utf8_encode t" "s = (if has_bom t then tl t else t)"
    using assms decodeTreeName_Inr by blast
  then show ?thesis using utf8_encode_starts_bom [OF t(1)] by (auto simp: has_bom_def utf8_encode_bom)
qed

section \<open>Properties\<close>

text \<open>
  C1: the incremental parser agrees with \<open>parseTree\<close>, however the data is cut into chunks. When it ends
  without error no mode is longer than six bytes and its entries are those of \<open>parseTree\<close>, numbered from
  zero. When it throws on data that can be buffered (twice its size is allocatable and a safe integer),
  the error is that a mode is too long exactly when the data comes to an entry whose mode has more than
  six bytes, and the error of \<open>parseTree\<close> in every other case.
\<close>

theorem parseTreeStream_agrees:
  "case parseTreeStream alloc chunks of
     (es, None) \<Rightarrow> \<not> long_mode (concat chunks)
       \<and> parseTree (concat chunks) = Inr (map entry es) \<and> map ordinal es = [0..<length es]
   | (es, Some e) \<Rightarrow>
       (if long_mode (concat chunks) then e = CorruptError ''tree mode is too long''
        else parseTree (concat chunks) = Inl e)
       \<or> alloc < 2 * length (concat chunks) \<or> max_safe_integer < 2 * length (concat chunks)"
  using stream_agrees [OF newTreeParser_idle, of alloc "concat chunks"]
  unfolding parseTreeStream_run_error Let_def parseTree_def agrees_def
  by (auto simp: newTreeParser_def mode_too_long_def too_big_def is_safe_def not_le split: option.splits if_splits)

text \<open>
  C5: \<open>parseTree\<close> reads back what \<open>serializeTree\<close> writes: the entries in tree order, their modes without
  leading zeros.
\<close>

theorem tree_roundtrip:
  assumes "\<forall>e \<in> set es. entry_ok e"
  shows "parseTree (serializeTree es) = Inr (map written (sort_cmp compareTreeEntries es))
     \<and> sorted_wrt (\<lambda>a b. compareTreeEntries a b \<le> 0) (sort_cmp compareTreeEntries es)
     \<and> mset (sort_cmp compareTreeEntries es) = mset es"
  using parse_written [of "sort_cmp compareTreeEntries es"] assms tree.sort_sorted [of es]
  by (simp add: parseTree_def serializeTree_def concat_bytes_concat)

definition sample_entry :: TreeEntry where
  "sample_entry = \<lparr>mode = units ''040000'', entry_name = units ''src'', oid = ZERO_OID\<rparr>"

theorem tree_roundtrip_witness:
  "parseTree (serializeTree [sample_entry]) = Inr [written sample_entry]"
proof -
  have "\<forall>e \<in> set [sample_entry]. entry_ok e"
    by (simp add: sample_entry_def entry_ok_def isOid_def ZERO_OID_def list_all_iff is_lower_hex_def units_def
        is_digit_def well_formed.simps(2) is_high_def is_low_def has_bom_def)
  from tree_roundtrip [OF this] show ?thesis by (simp add: sort_cmp_def)
qed

text \<open>
  The bytes of a tree, and so its object id, do not depend on the order its entries are given in, when
  no two of them have the same sort key.
\<close>

theorem serializeTree_canonical:
  assumes "mset xs = mset ys"
    and "\<forall>a \<in> set xs. \<forall>b \<in> set xs. compareTreeEntries a b = 0 \<longrightarrow> a = b"
  shows "serializeTree xs = serializeTree ys"
proof -
  have "sort_cmp compareTreeEntries xs = sort_cmp compareTreeEntries ys"
    by (rule tree.sort_unique) (use assms in \<open>auto simp: tree.sort_sorted\<close>)
  then show ?thesis by (simp add: serializeTree_def)
qed

theorem serializeTree_canonical_witness:
  "serializeTree [sample_entry, sample_entry\<lparr>entry_name := units ''a''\<rparr>]
   = serializeTree [sample_entry\<lparr>entry_name := units ''a''\<rparr>, sample_entry]"
  by (rule serializeTree_canonical)
    (auto simp: sample_entry_def compareTreeEntries_def tree_key_def isTreeMode_def comparePaths_points
      code_points.simps(2) units_def is_high_def is_low_def)

text \<open>
  C40: \<open>decodeTreeName\<close> accepts exactly the UTF-8 encodings of well-formed text, and returns that text
  without a leading U+FEFF. So encoding the decoded name gives its bytes back exactly when they do not
  start with the byte order mark EF BB BF: a name that starts with it decodes like the name without it,
  and writing the decoded entry changes the bytes.
\<close>

theorem decodeTreeName_drops_bom:
  "(decodeTreeName bs = Inr s \<longleftrightarrow>
      (\<exists>t. well_formed t \<and> bs = utf8_encode t \<and> s = (if has_bom t then tl t else t)))
   \<and> (decodeTreeName bs = Inr s \<longrightarrow> (utf8_encode s = bs \<longleftrightarrow> take 3 bs \<noteq> [0xef, 0xbb, 0xbf]))"
  using decodeTreeName_Inr decodeTreeName_reencode by blast

theorem decodeTreeName_drops_bom_witness:
  "decodeTreeName [0xef, 0xbb, 0xbf, 0x61] = Inr [0x61] \<and> utf8_encode [0x61] \<noteq> [0xef, 0xbb, 0xbf, 0x61]"
proof -
  have "decodeTreeName [0xef, 0xbb, 0xbf, 0x61] = Inr [0x61]"
    by (simp add: decodeTreeName_def utf8_decode_fatal_def decode_from.simps(2) fresh_def lead_byte_def Let_def
        drop_bom_def point_units_def)
  then show ?thesis using decodeTreeName_drops_bom [of "[0xef, 0xbb, 0xbf, 0x61]" "[0x61]"] by simp
qed

end
