(* ===== verification/Lru.thy ===== *)
theory Lru
  imports Prelude "HOL-Library.Monad_Syntax"
begin

text \<open>
  The byte-budgeted cache (\<open>packages/git/src/common/lru.ts\<close>). Its recency list is doubly linked through
  mutable nodes, so the model keeps an explicit store from addresses to nodes. It refines a plain list of
  entries, oldest first; the eviction loop, which follows pointers, is a partial function that is shown to
  return on every well-formed cache.

  The byte count is a double: a sum or difference of \<open>2 ^ 53\<close> or more is rounded. With a budget whose five quarters are
  below \<open>2 ^ 53\<close> it never is, and the count is exact; the constructor accepts larger budgets too.
\<close>

section \<open>The cache\<close>

definition MIN_ENTRY_BYTES :: nat where
  "MIN_ENTRY_BYTES = 256"

record ('k, 'v) lru_node =
  node_key :: 'k
  node_value :: 'v
  node_bytes :: nat
  older :: "nat option"
  newer :: "nat option"

record ('k, 'v) byte_lru =
  lru_entries :: "'k \<Rightarrow> nat option"
  lru_oldest :: "nat option"
  lru_newest :: "nat option"
  lru_sizeOf :: "'v \<Rightarrow> int"
  lru_budget :: nat
  lru_bytes :: int
  lru_store :: "nat \<Rightarrow> ('k, 'v) lru_node option"
  lru_fresh :: nat

text \<open>The budget is checked by the constructor.\<close>

definition newByteLru :: "int \<Rightarrow> ('v \<Rightarrow> int) \<Rightarrow> ('k, 'v) byte_lru result" where
  "newByteLru budget sizeOf =
     (if \<bar>budget\<bar> > int max_safe_integer \<or> budget < 0
      then Inl (RangeError ''LRU budget must be a safe nonnegative integer'')
      else Inr \<lparr>lru_entries = Map.empty, lru_oldest = None, lru_newest = None, lru_sizeOf = sizeOf,
                lru_budget = nat budget, lru_bytes = 0, lru_store = Map.empty, lru_fresh = 0\<rparr>)"

definition node_at :: "('k, 'v) byte_lru \<Rightarrow> nat \<Rightarrow> ('k, 'v) lru_node" where
  "node_at c a = the (lru_store c a)"

definition set_node :: "nat \<Rightarrow> (('k, 'v) lru_node \<Rightarrow> ('k, 'v) lru_node) \<Rightarrow> ('k, 'v) byte_lru \<Rightarrow> ('k, 'v) byte_lru" where
  "set_node a f c = c\<lparr>lru_store := (lru_store c)(a := map_option f (lru_store c a))\<rparr>"

definition lru_append :: "nat \<Rightarrow> ('k, 'v) byte_lru \<Rightarrow> ('k, 'v) byte_lru" where
  "lru_append a c =
     (let c1 = set_node a (\<lambda>n. n\<lparr>older := lru_newest c, newer := None\<rparr>) c;
          c2 = (case lru_newest c1 of
                  None \<Rightarrow> c1\<lparr>lru_oldest := Some a\<rparr>
                | Some b \<Rightarrow> set_node b (\<lambda>n. n\<lparr>newer := Some a\<rparr>) c1)
      in c2\<lparr>lru_newest := Some a\<rparr>)"

definition lru_unlink :: "nat \<Rightarrow> ('k, 'v) byte_lru \<Rightarrow> ('k, 'v) byte_lru" where
  "lru_unlink a c =
     (let c1 = (case older (node_at c a) of
                  None \<Rightarrow> c\<lparr>lru_oldest := newer (node_at c a)\<rparr>
                | Some p \<Rightarrow> set_node p (\<lambda>n. n\<lparr>newer := newer (node_at c a)\<rparr>) c);
          c2 = (case newer (node_at c1 a) of
                  None \<Rightarrow> c1\<lparr>lru_newest := older (node_at c1 a)\<rparr>
                | Some q \<Rightarrow> set_node q (\<lambda>n. n\<lparr>older := older (node_at c1 a)\<rparr>) c1)
      in set_node a (\<lambda>n. n\<lparr>older := None, newer := None\<rparr>) c2)"

definition lru_remove :: "nat \<Rightarrow> ('k, 'v) byte_lru \<Rightarrow> ('k, 'v) byte_lru" where
  "lru_remove a c =
     (let c1 = lru_unlink a c
      in c1\<lparr>lru_entries := (lru_entries c1)(node_key (node_at c1 a) := None),
            lru_bytes := double_of_int (lru_bytes c1 - int (node_bytes (node_at c1 a)))\<rparr>)"

partial_function (option) lru_evict :: "('k, 'v) byte_lru \<Rightarrow> ('k, 'v) byte_lru option" where
  "lru_evict c =
     (if lru_bytes c > int (lru_budget c) \<and> lru_oldest c \<noteq> None
      then lru_evict (lru_remove (the (lru_oldest c)) c) else Some c)"

definition lru_get :: "'k \<Rightarrow> ('k, 'v) byte_lru \<Rightarrow> 'v option \<times> ('k, 'v) byte_lru" where
  "lru_get k c =
     (case lru_entries c k of
        None \<Rightarrow> (None, c)
      | Some a \<Rightarrow> let c1 = lru_append a (lru_unlink a c) in (Some (node_value (node_at c1 a)), c1))"

definition lru_has :: "'k \<Rightarrow> ('k, 'v) byte_lru \<Rightarrow> bool" where
  "lru_has k c = (lru_entries c k \<noteq> None)"

definition lru_delete :: "'k \<Rightarrow> ('k, 'v) byte_lru \<Rightarrow> ('k, 'v) byte_lru" where
  "lru_delete k c = (case lru_entries c k of None \<Rightarrow> c | Some a \<Rightarrow> lru_remove a c)"

definition entryBytes :: "('k, 'v) byte_lru \<Rightarrow> 'v \<Rightarrow> nat result" where
  "entryBytes c v =
     (if \<bar>lru_sizeOf c v\<bar> > int max_safe_integer \<or> lru_sizeOf c v < 0
      then Inl (RangeError ''LRU entry size must be a safe nonnegative integer'')
      else Inr (max (nat (lru_sizeOf c v)) MIN_ENTRY_BYTES))"

text \<open>\<open>None\<close> would be a \<open>set\<close> whose eviction never returns.\<close>

definition lru_set :: "'k \<Rightarrow> 'v \<Rightarrow> ('k, 'v) byte_lru \<Rightarrow> ('k, 'v) byte_lru result option" where
  "lru_set k v c =
     (case entryBytes c v of
        Inl e \<Rightarrow> Some (Inl e)
      | Inr n \<Rightarrow>
          if 4 * n > lru_budget c then Some (Inr c)
          else
            let c1 = lru_delete k c; a = lru_fresh c1;
                c2 = c1\<lparr>lru_store := (lru_store c1)(a \<mapsto>
                         \<lparr>node_key = k, node_value = v, node_bytes = n, older = None, newer = None\<rparr>),
                       lru_fresh := a + 1\<rparr>;
                c3 = c2\<lparr>lru_entries := (lru_entries c2)(k \<mapsto> a)\<rparr>;
                c4 = lru_append a c3;
                c5 = c4\<lparr>lru_bytes := double_of_int (lru_bytes c4 + int n)\<rparr>
            in map_option Inr (lru_evict c5))"

definition lru_clear :: "('k, 'v) byte_lru \<Rightarrow> ('k, 'v) byte_lru" where
  "lru_clear c = c\<lparr>lru_entries := Map.empty, lru_oldest := None, lru_newest := None, lru_bytes := 0\<rparr>"

section \<open>The linked list\<close>

fun first_or :: "nat option \<Rightarrow> nat list \<Rightarrow> nat option" where
  "first_or n [] = n"
| "first_or n (a # as) = Some a"

fun linked :: "(nat \<Rightarrow> ('k, 'v) lru_node option) \<Rightarrow> nat option \<Rightarrow> nat list \<Rightarrow> nat option \<Rightarrow> bool" where
  "linked h p [] n = True"
| "linked h p (a # as) n \<longleftrightarrow>
     (\<exists>x. h a = Some x \<and> older x = p \<and> newer x = first_or n as) \<and> linked h (Some a) as n"

definition last_or :: "nat option \<Rightarrow> nat list \<Rightarrow> nat option" where
  "last_or p as = (if as = [] then p else Some (last as))"

lemma last_or_simps [simp]: "last_or p [] = p" "last_or p (a # as) = last_or (Some a) as"
  "last_or p (as @ [a]) = Some a"
  by (simp_all add: last_or_def)

lemma first_or_append [simp]: "first_or n (as @ bs) = first_or (first_or n bs) as"
  by (cases as) simp_all

lemma linked_append: "linked h p (as @ bs) n \<longleftrightarrow> linked h p as (first_or n bs) \<and> linked h (last_or p as) bs n"
  by (induction as arbitrary: p) auto

lemma linked_cong:
  "(\<And>a. a \<in> set as \<Longrightarrow> h' a = h a) \<Longrightarrow> linked h' p as n \<longleftrightarrow> linked h p as n"
  by (induction as arbitrary: p) auto

text \<open>Changing only the link fields at one end of a segment.\<close>

lemma linked_newer:
  assumes "linked h p (as @ [a]) n" "distinct (as @ [a])" "h a = Some x"
  shows "linked (h(a := Some (x\<lparr>newer := n'\<rparr>))) p (as @ [a]) n'"
proof -
  have "linked h p as (Some a)" "older x = last_or p as" using assms by (auto simp: linked_append)
  moreover have "linked (h(a := Some (x\<lparr>newer := n'\<rparr>))) p as (Some a) \<longleftrightarrow> linked h p as (Some a)"
    using assms(2) by (intro linked_cong) auto
  ultimately show ?thesis by (simp add: linked_append)
qed

lemma linked_older:
  assumes "linked h p (a # as) n" "distinct (a # as)" "h a = Some x"
  shows "linked (h(a := Some (x\<lparr>older := p'\<rparr>))) p' (a # as) n"
proof -
  have "linked (h(a := Some (x\<lparr>older := p'\<rparr>))) (Some a) as n \<longleftrightarrow> linked h (Some a) as n"
    using assms(2) by (intro linked_cong) auto
  then show ?thesis using assms by simp
qed

definition chain :: "('k, 'v) byte_lru \<Rightarrow> nat list \<Rightarrow> bool" where
  "chain c as \<longleftrightarrow> linked (lru_store c) None as None \<and> distinct as
     \<and> lru_oldest c = first_or None as \<and> lru_newest c = last_or None as"

text \<open>What a change of links leaves alone.\<close>

definition payload :: "('k, 'v) byte_lru \<Rightarrow> nat \<Rightarrow> ('k \<times> 'v \<times> nat) option" where
  "payload c a = map_option (\<lambda>n. (node_key n, node_value n, node_bytes n)) (lru_store c a)"

definition same_contents :: "('k, 'v) byte_lru \<Rightarrow> ('k, 'v) byte_lru \<Rightarrow> bool" where
  "same_contents c d \<longleftrightarrow> payload d = payload c \<and> lru_entries d = lru_entries c \<and> lru_bytes d = lru_bytes c
     \<and> lru_budget d = lru_budget c \<and> lru_sizeOf d = lru_sizeOf c \<and> lru_fresh d = lru_fresh c"

lemma set_node_simps [simp]:
  "lru_entries (set_node a f c) = lru_entries c" "lru_bytes (set_node a f c) = lru_bytes c"
  "lru_budget (set_node a f c) = lru_budget c" "lru_sizeOf (set_node a f c) = lru_sizeOf c"
  "lru_fresh (set_node a f c) = lru_fresh c" "lru_oldest (set_node a f c) = lru_oldest c"
  "lru_newest (set_node a f c) = lru_newest c"
  "lru_store (set_node a f c) = (lru_store c)(a := map_option f (lru_store c a))"
  by (simp_all add: set_node_def)

lemma set_node_contents:
  assumes "\<And>n. node_key (f n) = node_key n \<and> node_value (f n) = node_value n \<and> node_bytes (f n) = node_bytes n"
  shows "payload (set_node a f c) = payload c"
  using assms by (auto simp: payload_def fun_eq_iff option.map_comp comp_def)

lemma payload_ends [simp]:
  "payload (c\<lparr>lru_oldest := x\<rparr>) = payload c" "payload (c\<lparr>lru_newest := x\<rparr>) = payload c"
  by (simp_all add: payload_def fun_eq_iff)

lemma lru_append_contents: "same_contents c (lru_append a c)"
  by (simp add: lru_append_def Let_def same_contents_def set_node_contents split: option.split)

lemma lru_unlink_contents: "same_contents c (lru_unlink a c)"
  by (simp add: lru_unlink_def Let_def same_contents_def set_node_contents split: option.split)

lemma lru_append_chain:
  assumes "chain c as" "a \<notin> set as" "lru_store c a \<noteq> None"
  shows "chain (lru_append a c) (as @ [a])"
proof (cases as rule: rev_cases)
  case Nil
  then show ?thesis using assms by (auto simp: chain_def lru_append_def)
next
  case (snoc bs b)
  obtain x where x: "lru_store c a = Some x" using assms(3) by blast
  let ?h = "(lru_store c)(a := Some (x\<lparr>older := Some b, newer := None\<rparr>))"
  have ne: "a \<noteq> b" "a \<notin> set bs" using assms(2) snoc by auto
  have linked: "linked (lru_store c) None (bs @ [b]) None" "distinct (bs @ [b])" using assms(1) snoc by (auto simp: chain_def)
  then obtain y where y: "lru_store c b = Some y" by (auto simp: linked_append)
  have "linked ?h None (bs @ [b]) None \<longleftrightarrow> linked (lru_store c) None (bs @ [b]) None"
    using ne by (intro linked_cong) auto
  then have "linked (?h(b := Some (y\<lparr>newer := Some a\<rparr>))) None (bs @ [b]) (Some a)"
    using linked_newer [of ?h None bs b None y "Some a"] linked y ne by simp
  then have "linked (?h(b := Some (y\<lparr>newer := Some a\<rparr>))) None ((bs @ [b]) @ [a]) None"
    unfolding linked_append [of _ _ "bs @ [b]"] using ne by simp
  then show ?thesis using assms(1,2) snoc x y ne by (auto simp: chain_def lru_append_def last_or_def)
qed

text \<open>Unlinking: the left neighbour, then the right one, then the node itself.\<close>

lemma linked_relink_left:
  assumes "linked h None (xs @ a # ys) None" "distinct (xs @ a # ys)" "h1 = (case last_or None xs of None \<Rightarrow> h
      | Some p \<Rightarrow> h(p := map_option (\<lambda>n. n\<lparr>newer := first_or None ys\<rparr>) (h p)))"
  shows "linked h1 None xs (first_or None ys)" "\<And>b. b \<notin> set xs \<Longrightarrow> h1 b = h b"
proof -
  show "linked h1 None xs (first_or None ys)"
  proof (cases xs rule: rev_cases)
    case (snoc zs p)
    then obtain x where "h p = Some x" using assms(1) by (auto simp: linked_append)
    then show ?thesis using linked_newer [of h None zs p "Some a" x] assms snoc by (simp add: linked_append)
  qed simp
  show "\<And>b. b \<notin> set xs \<Longrightarrow> h1 b = h b"
    using assms(3) by (auto simp: last_or_def split: if_splits)
qed

lemma linked_relink_right:
  assumes "linked h (Some a) ys None" "distinct ys" "h2 = (case first_or None ys of None \<Rightarrow> h
      | Some q \<Rightarrow> h(q := map_option (\<lambda>n. n\<lparr>older := p\<rparr>) (h q)))"
  shows "linked h2 p ys None" "\<And>b. b \<notin> set ys \<Longrightarrow> h2 b = h b"
proof -
  show "linked h2 p ys None"
  proof (cases ys)
    case (Cons q zs)
    then obtain x where "h q = Some x" using assms(1) by auto
    then show ?thesis using linked_older [of h "Some a" q zs None x] assms Cons by simp
  qed simp
  show "\<And>b. b \<notin> set ys \<Longrightarrow> h2 b = h b" using assms(3) by (cases ys) auto
qed

lemma lru_unlink_chain:
  assumes "chain c (xs @ a # ys)"
  shows "chain (lru_unlink a c) (xs @ ys)"
proof -
  have h: "linked (lru_store c) None (xs @ a # ys) None" "distinct (xs @ a # ys)" using assms by (auto simp: chain_def)
  obtain x where x: "lru_store c a = Some x" "older x = last_or None xs" "newer x = first_or None ys"
    using h(1) by (auto simp: linked_append)
  define c1 where "c1 = (case older (node_at c a) of None \<Rightarrow> c\<lparr>lru_oldest := newer (node_at c a)\<rparr>
      | Some p \<Rightarrow> set_node p (\<lambda>n. n\<lparr>newer := newer (node_at c a)\<rparr>) c)"
  define c2 where "c2 = (case newer (node_at c1 a) of None \<Rightarrow> c1\<lparr>lru_newest := older (node_at c1 a)\<rparr>
      | Some q \<Rightarrow> set_node q (\<lambda>n. n\<lparr>older := older (node_at c1 a)\<rparr>) c1)"
  have s1: "lru_store c1 = (case last_or None xs of None \<Rightarrow> lru_store c
      | Some p \<Rightarrow> (lru_store c)(p := map_option (\<lambda>n. n\<lparr>newer := first_or None ys\<rparr>) (lru_store c p)))"
    using x by (simp add: c1_def node_at_def split: option.split)
  note left = linked_relink_left [OF h s1]
  have a1: "lru_store c1 a = Some x" using left(2) [of a] h(2) x(1) by auto
  have s2: "lru_store c2 = (case first_or None ys of None \<Rightarrow> lru_store c1
      | Some q \<Rightarrow> (lru_store c1)(q := map_option (\<lambda>n. n\<lparr>older := last_or None xs\<rparr>) (lru_store c1 q)))"
    using x a1 by (simp add: c2_def node_at_def split: option.split)
  have "linked (lru_store c1) (Some a) ys None \<longleftrightarrow> linked (lru_store c) (Some a) ys None"
    using left(2) h(2) by (intro linked_cong) auto
  then have "linked (lru_store c1) (Some a) ys None" using h(1) by (simp add: linked_append)
  note right = linked_relink_right [OF this _ s2]
  have final: "lru_unlink a c = set_node a (\<lambda>n. n\<lparr>older := None, newer := None\<rparr>) c2"
    by (simp only: lru_unlink_def Let_def c1_def c2_def)
  have cong: "linked (lru_store (lru_unlink a c)) p zs n \<longleftrightarrow> linked (lru_store c2) p zs n" if "a \<notin> set zs" for p zs n
    using that unfolding final by (intro linked_cong) auto
  have "linked (lru_store c2) None xs (first_or None ys) \<longleftrightarrow> linked (lru_store c1) None xs (first_or None ys)"
    using right(2) h(2) by (intro linked_cong) auto
  then have "linked (lru_store (lru_unlink a c)) None (xs @ ys) None"
    using left(1) right(1) h(2) by (simp add: linked_append cong)
  moreover have "lru_oldest (lru_unlink a c) = first_or None (xs @ ys)"
    unfolding final using assms x
    by (cases xs) (auto simp: c2_def c1_def chain_def node_at_def last_or_def split: option.splits)
  moreover have "lru_newest (lru_unlink a c) = last_or None (xs @ ys)"
  proof -
    have "lru_newest c1 = lru_newest c" by (simp add: c1_def split: option.split)
    then show ?thesis unfolding final using assms x a1
      by (cases ys) (auto simp: c2_def chain_def node_at_def last_or_def)
  qed
  ultimately show ?thesis using h(2) by (simp add: chain_def)
qed

section \<open>Refinement to a list of entries\<close>

text \<open>The reference: entries from the least to the most recently used.\<close>

type_synonym ('k, 'v) item = "'k \<times> 'v \<times> nat"

definition item_find :: "'k \<Rightarrow> ('k, 'v) item list \<Rightarrow> 'v option" where
  "item_find k items = map_option (\<lambda>(_, v, _). v) (find (\<lambda>(k', _). k' = k) items)"

definition item_delete :: "'k \<Rightarrow> ('k, 'v) item list \<Rightarrow> ('k, 'v) item list" where
  "item_delete k items = filter (\<lambda>(k', _). k' \<noteq> k) items"

definition item_touch :: "'k \<Rightarrow> ('k, 'v) item list \<Rightarrow> ('k, 'v) item list" where
  "item_touch k items =
     (case find (\<lambda>(k', _). k' = k) items of None \<Rightarrow> items | Some it \<Rightarrow> item_delete k items @ [it])"

definition item_total :: "('k, 'v) item list \<Rightarrow> nat" where
  "item_total items = sum_list (map (\<lambda>(_, _, n). n) items)"

fun item_trim :: "nat \<Rightarrow> ('k, 'v) item list \<Rightarrow> ('k, 'v) item list" where
  "item_trim budget [] = []"
| "item_trim budget (x # xs) = (if item_total (x # xs) > budget then item_trim budget xs else x # xs)"

definition item_set :: "nat \<Rightarrow> nat \<Rightarrow> 'k \<Rightarrow> 'v \<Rightarrow> ('k, 'v) item list \<Rightarrow> ('k, 'v) item list" where
  "item_set budget n k v items =
     (if 4 * n > budget then items else item_trim budget (item_delete k items @ [(k, v, n)]))"

definition lru_ok :: "('k, 'v) byte_lru \<Rightarrow> nat list \<Rightarrow> bool" where
  "lru_ok c as \<longleftrightarrow> chain c as
     \<and> (\<forall>k a. lru_entries c k = Some a \<longleftrightarrow> a \<in> set as \<and> map_option fst (payload c a) = Some k)
     \<and> lru_bytes c = int (item_total (map (\<lambda>a. the (payload c a)) as)) \<and> (\<forall>a \<in> set as. a < lru_fresh c)"

definition lru_repr :: "('k, 'v) byte_lru \<Rightarrow> ('k, 'v) item list \<Rightarrow> bool" where
  "lru_repr c items \<longleftrightarrow> (\<exists>as. lru_ok c as \<and> items = map (\<lambda>a. the (payload c a)) as)"

lemma chain_payload: "chain c as \<Longrightarrow> a \<in> set as \<Longrightarrow> \<exists>k v n. payload c a = Some (k, v, n)"
proof -
  assume "chain c as" "a \<in> set as"
  moreover have "linked h p as n \<Longrightarrow> a \<in> set as \<Longrightarrow> h a \<noteq> None" for h :: "nat \<Rightarrow> ('a, 'b) lru_node option" and p n
    by (induction as arbitrary: p) auto
  ultimately show ?thesis by (auto simp: chain_def payload_def)
qed

lemma lru_ok_key:
  assumes "lru_ok c as" "a \<in> set as" "b \<in> set as" "map_option fst (payload c a) = map_option fst (payload c b)"
  shows "a = b"
proof -
  obtain k where "map_option fst (payload c a) = Some k"
    using chain_payload [of c as a] assms(1,2) by (auto simp: lru_ok_def)
  then have "lru_entries c k = Some a" "lru_entries c k = Some b" using assms unfolding lru_ok_def by metis+
  then show ?thesis by simp
qed

text \<open>An entry of the map splits the list, and no other entry has its key.\<close>

lemma lru_ok_split:
  assumes "lru_ok c as" "lru_entries c k = Some a"
  obtains xs ys v n where "as = xs @ a # ys" "payload c a = Some (k, v, n)"
    "\<forall>b \<in> set xs \<union> set ys. fst (the (payload c b)) \<noteq> k" "a \<notin> set xs \<union> set ys"
proof -
  have a: "a \<in> set as" "map_option fst (payload c a) = Some k" using assms by (auto simp: lru_ok_def)
  then obtain xs ys where split: "as = xs @ a # ys" by (meson split_list)
  have d: "a \<notin> set xs \<union> set ys" using assms(1) split by (auto simp: lru_ok_def chain_def)
  have "fst (the (payload c b)) \<noteq> k" if "b \<in> set xs \<union> set ys" for b
  proof
    assume k: "fst (the (payload c b)) = k"
    have b: "b \<in> set as" using that split by auto
    then have "map_option fst (payload c b) = Some k"
      using k chain_payload [of c as b] assms(1) by (auto simp: lru_ok_def)
    then have "b = a" using lru_ok_key [OF assms(1) b a(1)] a(2) by simp
    then show False using d that by blast
  qed
  moreover obtain v n where "payload c a = Some (k, v, n)"
    using chain_payload [of c as a] a assms(1) by (auto simp: lru_ok_def)
  ultimately show ?thesis using that split d by blast
qed

lemma item_split:
  assumes "\<forall>it \<in> set xs \<union> set ys. fst it \<noteq> k"
  shows "item_find k (xs @ (k, v, n) # ys) = Some v" "item_delete k (xs @ (k, v, n) # ys) = xs @ ys"
    "item_touch k (xs @ (k, v, n) # ys) = xs @ ys @ [(k, v, n)]" "item_find k (xs @ ys) = None"
    "item_delete k (xs @ ys) = xs @ ys" "item_touch k (xs @ ys) = xs @ ys"
proof -
  have none: "find (\<lambda>(k', _). k' = k) zs = None" "filter (\<lambda>(k', _). k' \<noteq> k) zs = zs"
    if "\<forall>it \<in> set zs. fst it \<noteq> k" for zs :: "('a \<times> 'b \<times> nat) list" using that by (induction zs) auto
  have hit: "find (\<lambda>(k', _). k' = k) (xs @ (k, v, n) # ys) = Some (k, v, n)"
    using assms by (induction xs) auto
  show "item_find k (xs @ (k, v, n) # ys) = Some v" by (simp add: item_find_def hit)
  show "item_delete k (xs @ (k, v, n) # ys) = xs @ ys" using none(2) [of xs] none(2) [of ys] assms by (simp add: item_delete_def)
  then show "item_touch k (xs @ (k, v, n) # ys) = xs @ ys @ [(k, v, n)]" by (simp add: item_touch_def hit)
  show "item_find k (xs @ ys) = None" "item_delete k (xs @ ys) = xs @ ys" "item_touch k (xs @ ys) = xs @ ys"
    using none [of "xs @ ys"] assms by (auto simp: item_find_def item_delete_def item_touch_def)
qed

lemma item_total_simps [simp]: "item_total [] = 0" "item_total (x # xs) = snd (snd x) + item_total xs"
  "item_total (xs @ ys) = item_total xs + item_total ys"
  by (simp_all add: item_total_def case_prod_unfold)

lemma node_payload:
  "payload c a = Some (k, v, n) \<Longrightarrow>
     node_key (node_at c a) = k \<and> node_value (node_at c a) = v \<and> node_bytes (node_at c a) = n"
  by (auto simp: payload_def node_at_def)

lemma lru_remove_ok:
  assumes "lru_ok c (xs @ a # ys)" "payload c a = Some (k, v, n)"
    "\<forall>b \<in> set xs \<union> set ys. fst (the (payload c b)) \<noteq> k" "a \<notin> set xs \<union> set ys" "lru_bytes c < 2 ^ 53"
  shows "lru_ok (lru_remove a c) (xs @ ys)" "payload (lru_remove a c) = payload c"
    "lru_budget (lru_remove a c) = lru_budget c" "lru_sizeOf (lru_remove a c) = lru_sizeOf c"
proof -
  let ?c1 = "lru_unlink a c"
  have same: "payload ?c1 = payload c" "lru_entries ?c1 = lru_entries c" "lru_bytes ?c1 = lru_bytes c"
      "lru_budget ?c1 = lru_budget c" "lru_sizeOf ?c1 = lru_sizeOf c" "lru_fresh ?c1 = lru_fresh c"
    using lru_unlink_contents [of c a] by (simp_all add: same_contents_def)
  have node: "node_key (node_at ?c1 a) = k" "node_bytes (node_at ?c1 a) = n"
    using node_payload [of ?c1 a k v n] assms(2) same(1) by auto
  have fields: "lru_store (lru_remove a c) = lru_store ?c1" "lru_oldest (lru_remove a c) = lru_oldest ?c1"
      "lru_newest (lru_remove a c) = lru_newest ?c1" "lru_fresh (lru_remove a c) = lru_fresh c"
      "lru_entries (lru_remove a c) = (lru_entries c)(k := None)" "lru_bytes (lru_remove a c) = double_of_int (lru_bytes c - int n)"
    by (simp_all add: lru_remove_def Let_def same node)
  show payload: "payload (lru_remove a c) = payload c" using fields(1) same(1) by (simp add: payload_def fun_eq_iff)
  show "lru_budget (lru_remove a c) = lru_budget c" "lru_sizeOf (lru_remove a c) = lru_sizeOf c"
    by (simp_all add: lru_remove_def Let_def same)
  have "chain ?c1 (xs @ ys)" using assms(1) by (intro lru_unlink_chain) (simp add: lru_ok_def)
  then have "chain (lru_remove a c) (xs @ ys)" using fields by (simp add: chain_def)
  moreover have "lru_entries (lru_remove a c) k' = Some b \<longleftrightarrow> b \<in> set (xs @ ys) \<and> map_option fst (payload c b) = Some k'" for k' b
  proof -
    have "map_option fst (payload c b) \<noteq> Some k" if "b \<in> set (xs @ ys)"
    proof
      assume "map_option fst (payload c b) = Some k"
      then have "fst (the (payload c b)) = k" by (cases "payload c b") auto
      then show False using assms(3) that by auto
    qed
    moreover have "lru_entries c k' = Some b \<longleftrightarrow> b \<in> set (xs @ a # ys) \<and> map_option fst (payload c b) = Some k'"
      using assms(1) unfolding lru_ok_def by blast
    ultimately show ?thesis unfolding fields(5) using assms(2) by (cases "k' = k") auto
  qed
  moreover have "lru_bytes (lru_remove a c) = int (item_total (map (\<lambda>b. the (payload c b)) (xs @ ys)))"
  proof -
    have "lru_bytes c - int n = int (item_total (map (\<lambda>b. the (payload c b)) (xs @ ys)))" using assms(1,2) by (simp add: lru_ok_def)
    then show ?thesis using assms(5) fields(6) by (simp add: double_of_int_exact)
  qed
  ultimately show "lru_ok (lru_remove a c) (xs @ ys)"
    using assms(1) payload fields(4) by (simp add: lru_ok_def)
qed

lemma lru_repr_bytes: "lru_repr c items \<Longrightarrow> lru_bytes c = int (item_total items)"
  by (auto simp: lru_repr_def lru_ok_def)

lemma lru_delete_repr:
  assumes "lru_repr c items" "item_total items < 2 ^ 53"
  shows "lru_repr (lru_delete k c) (item_delete k items)" "lru_budget (lru_delete k c) = lru_budget c"
    "lru_sizeOf (lru_delete k c) = lru_sizeOf c"
proof -
  have bound: "lru_bytes c < 2 ^ 53" using lru_repr_bytes [OF assms(1)] assms(2) by simp
  obtain as where as: "lru_ok c as" "items = map (\<lambda>a. the (payload c a)) as" using assms(1) by (auto simp: lru_repr_def)
  have "lru_repr (lru_delete k c) (item_delete k items) \<and> lru_budget (lru_delete k c) = lru_budget c
      \<and> lru_sizeOf (lru_delete k c) = lru_sizeOf c"
  proof (cases "lru_entries c k")
    case None
    have "fst it \<noteq> k" if it: "it \<in> set items" for it
    proof
      assume "fst it = k"
      then obtain a where a: "a \<in> set as" "fst (the (payload c a)) = k" using it as(2) by auto
      then have "map_option fst (payload c a) = Some k" using chain_payload [of c as a] as(1) by (auto simp: lru_ok_def)
      then show False using None a(1) as(1) by (metis lru_ok_def option.distinct(1))
    qed
    then have "item_delete k items = items" using item_split(5) [of items "[]" k] by simp
    then show ?thesis using None assms by (simp add: lru_delete_def)
  next
    case (Some a)
    obtain xs ys v n where split: "as = xs @ a # ys" "payload c a = Some (k, v, n)"
        "\<forall>b \<in> set xs \<union> set ys. fst (the (payload c b)) \<noteq> k" "a \<notin> set xs \<union> set ys"
      using lru_ok_split [OF as(1) Some] by blast
    note rm = lru_remove_ok [OF as(1) [unfolded split(1)] split(2-4) bound]
    have "item_delete k items = map (\<lambda>a. the (payload c a)) (xs @ ys)"
      using item_split(2) [of "map (\<lambda>a. the (payload c a)) xs" "map (\<lambda>a. the (payload c a)) ys" k v n] split as(2) by auto
    then show ?thesis using Some rm by (auto simp: lru_delete_def lru_repr_def)
  qed
  then show "lru_repr (lru_delete k c) (item_delete k items)" "lru_budget (lru_delete k c) = lru_budget c"
    "lru_sizeOf (lru_delete k c) = lru_sizeOf c" by blast+
qed

lemma lru_ok_missing:
  assumes "lru_ok c as" "lru_entries c k = None" "items = map (\<lambda>a. the (payload c a)) as"
  shows "\<forall>it \<in> set items. fst it \<noteq> k"
proof (intro ballI notI)
  fix it assume "it \<in> set items" "fst it = k"
  then obtain a where a: "a \<in> set as" "fst (the (payload c a)) = k" using assms(3) by auto
  then have "map_option fst (payload c a) = Some k" using chain_payload [of c as a] assms(1) by (auto simp: lru_ok_def)
  then show False using assms(1,2) a(1) by (metis lru_ok_def option.distinct(1))
qed

lemma lru_get_repr:
  assumes "lru_repr c items"
  shows "fst (lru_get k c) = item_find k items \<and> lru_repr (snd (lru_get k c)) (item_touch k items)
     \<and> lru_budget (snd (lru_get k c)) = lru_budget c \<and> lru_sizeOf (snd (lru_get k c)) = lru_sizeOf c"
proof -
  obtain as where as: "lru_ok c as" "items = map (\<lambda>a. the (payload c a)) as" using assms by (auto simp: lru_repr_def)
  show ?thesis
  proof (cases "lru_entries c k")
    case None
    have "item_find k items = None" "item_touch k items = items"
      using item_split(4,6) [of items "[]" k] lru_ok_missing [OF as(1) None as(2)] by simp_all
    then show ?thesis using None assms by (simp add: lru_get_def)
  next
    case (Some a)
    obtain xs ys v n where split: "as = xs @ a # ys" "payload c a = Some (k, v, n)"
        "\<forall>b \<in> set xs \<union> set ys. fst (the (payload c b)) \<noteq> k" "a \<notin> set xs \<union> set ys"
      using lru_ok_split [OF as(1) Some] by blast
    let ?I = "\<lambda>a. the (payload c a)" and ?d = "lru_append a (lru_unlink a c)"
    have others: "\<forall>it \<in> set (map ?I xs) \<union> set (map ?I ys). fst it \<noteq> k" using split(3) by auto
    have same: "same_contents c ?d"
      using lru_unlink_contents [of c a] lru_append_contents [of "lru_unlink a c" a] by (auto simp: same_contents_def)
    have "chain (lru_unlink a c) (xs @ ys)" using as(1) split(1) lru_unlink_chain by (auto simp: lru_ok_def)
    moreover have "lru_store (lru_unlink a c) a \<noteq> None"
      using split(2) lru_unlink_contents [of c a] by (auto simp: same_contents_def payload_def fun_eq_iff dest!: spec [of _ a])
    ultimately have "chain ?d ((xs @ ys) @ [a])" using lru_append_chain [of "lru_unlink a c" "xs @ ys" a] split(4) by simp
    then have "lru_ok ?d ((xs @ ys) @ [a])"
      using as(1) same split(1) by (auto simp: lru_ok_def same_contents_def)
    moreover have "map (\<lambda>a. the (payload ?d a)) ((xs @ ys) @ [a]) = item_touch k items" "item_find k items = Some v"
      using item_split(1,3) [OF others, of v n] same split(1,2) as(2) by (simp_all add: same_contents_def)
    moreover have "node_value (node_at ?d a) = v" using node_payload [of ?d a k v n] same split(2) by (simp add: same_contents_def)
    ultimately show ?thesis using Some same by (auto simp: lru_get_def Let_def lru_repr_def same_contents_def)
  qed
qed

lemma lru_evict_repr:
  "lru_repr c items \<Longrightarrow> item_total items < 2 ^ 53 \<Longrightarrow>
     \<exists>d. lru_evict c = Some d \<and> lru_repr d (item_trim (lru_budget c) items) \<and> lru_budget d = lru_budget c
       \<and> lru_sizeOf d = lru_sizeOf c"
proof (induction items arbitrary: c)
  case Nil
  then have "lru_bytes c = 0" by (auto simp: lru_repr_def lru_ok_def)
  then show ?case using Nil by (simp add: lru_evict.simps)
next
  case (Cons it items)
  obtain as where as: "lru_ok c as" "it # items = map (\<lambda>a. the (payload c a)) as" using Cons.prems by (auto simp: lru_repr_def)
  then obtain a bs where bs: "as = a # bs" "it = the (payload c a)" "items = map (\<lambda>a. the (payload c a)) bs" by (cases as) auto
  have bytes: "lru_bytes c = int (item_total (it # items))" "lru_oldest c = Some a"
    using as bs(1) by (auto simp: lru_ok_def chain_def)
  show ?case
  proof (cases "item_total (it # items) > lru_budget c")
    case False
    then show ?thesis using bytes Cons.prems by (simp add: lru_evict.simps del: item_total_simps)
  next
    case True
    obtain k v n where p: "payload c a = Some (k, v, n)" using chain_payload [of c as a] as(1) bs(1) by (auto simp: lru_ok_def)
    then have "lru_entries c k = Some a" using as(1) bs(1) by (simp add: lru_ok_def)
    then obtain xs ys where "as = xs @ a # ys" "\<forall>b \<in> set xs \<union> set ys. fst (the (payload c b)) \<noteq> k" "a \<notin> set xs \<union> set ys"
      using lru_ok_split [OF as(1), of k a] by metis
    then have rest: "\<forall>b \<in> set [] \<union> set bs. fst (the (payload c b)) \<noteq> k" "a \<notin> set [] \<union> set bs"
      using bs(1) by (cases xs; auto)+
    have bound: "lru_bytes c < 2 ^ 53" using bytes(1) Cons.prems(2) by simp
    note rm = lru_remove_ok [of c "[]" a bs, simplified append_Nil, OF as(1) [unfolded bs(1)] p rest bound]
    have "lru_repr (lru_remove a c) items" using rm bs(3) unfolding lru_repr_def by auto
    moreover have "item_total items < 2 ^ 53" using Cons.prems(2) by simp
    moreover have "lru_evict c = lru_evict (lru_remove a c)"
      using True bytes by (subst lru_evict.simps) (simp del: item_total_simps)
    ultimately show ?thesis using Cons.IH [of "lru_remove a c"] True rm(3,4) by (simp del: item_total_simps)
  qed
qed

lemma item_delete_keys: "\<forall>it \<in> set (item_delete k items). fst it \<noteq> k"
  by (auto simp: item_delete_def)

text \<open>Inserting a new newest node for a key that is not there.\<close>

lemma lru_insert_repr:
  assumes "lru_repr c items" "\<forall>it \<in> set items. fst it \<noteq> k" "a = lru_fresh c"
    and d: "d = lru_append a (c\<lparr>lru_store := (lru_store c)(a \<mapsto>
        \<lparr>node_key = k, node_value = v, node_bytes = n, older = None, newer = None\<rparr>),
      lru_fresh := a + 1, lru_entries := (lru_entries c)(k \<mapsto> a)\<rparr>)"
    and bound: "item_total items + n < 2 ^ 53"
  shows "lru_repr (d\<lparr>lru_bytes := double_of_int (lru_bytes d + int n)\<rparr>) (items @ [(k, v, n)])"
    "lru_budget d = lru_budget c" "lru_sizeOf d = lru_sizeOf c"
proof -
  obtain as where as: "lru_ok c as" "items = map (\<lambda>a. the (payload c a)) as" using assms(1) by (auto simp: lru_repr_def)
  let ?c = "c\<lparr>lru_store := (lru_store c)(a \<mapsto>
        \<lparr>node_key = k, node_value = v, node_bytes = n, older = None, newer = None\<rparr>),
      lru_fresh := a + 1, lru_entries := (lru_entries c)(k \<mapsto> a)\<rparr>"
  have a: "a \<notin> set as" using as(1) assms(3) by (auto simp: lru_ok_def)
  have "linked (lru_store ?c) None as None \<longleftrightarrow> linked (lru_store c) None as None"
    using a by (intro linked_cong) auto
  then have "chain ?c as" using as(1) by (simp add: lru_ok_def chain_def)
  then have chain: "chain d (as @ [a])" using lru_append_chain [of ?c as a] a d by simp
  have same: "same_contents ?c d" unfolding d by (rule lru_append_contents)
  have pay: "payload d = (payload c)(a \<mapsto> (k, v, n))" using same by (auto simp: same_contents_def payload_def fun_eq_iff)
  have keys: "map_option fst (payload c b) \<noteq> Some k" if "b \<in> set as" for b
    using assms(2) as(2) that by (cases "payload c b") force+
  have "lru_entries d k' = Some b \<longleftrightarrow> b \<in> set (as @ [a]) \<and> map_option fst (payload d b) = Some k'" for k' b
  proof -
    have "lru_entries c k' = Some b \<longleftrightarrow> b \<in> set as \<and> map_option fst (payload c b) = Some k'"
      using as(1) unfolding lru_ok_def by blast
    moreover have "lru_entries d = (lru_entries c)(k \<mapsto> a)" using same by (simp add: same_contents_def)
    ultimately show ?thesis unfolding pay using a keys [of b] by auto
  qed
  moreover have "map (\<lambda>b. the (payload d b)) (as @ [a]) = items @ [(k, v, n)]" using as(2) a pay by auto
  moreover have "double_of_int (lru_bytes d + int n) = int (item_total (items @ [(k, v, n)]))"
  proof -
    have "lru_bytes d + int n = int (item_total items + n)" using same as by (simp add: same_contents_def lru_ok_def)
    moreover have "\<bar>int (item_total items + n)\<bar> < 2 ^ 53" using bound by simp
    ultimately show ?thesis by (simp add: double_of_int_exact)
  qed
  moreover have "\<forall>b \<in> set (as @ [a]). b < lru_fresh d"
    using same as(1) assms(3) by (auto simp: same_contents_def lru_ok_def)
  ultimately show "lru_repr (d\<lparr>lru_bytes := double_of_int (lru_bytes d + int n)\<rparr>) (items @ [(k, v, n)])"
    using chain unfolding lru_repr_def lru_ok_def
    by (intro exI [of _ "as @ [a]"]) (auto simp: chain_def payload_def)
  show "lru_budget d = lru_budget c" "lru_sizeOf d = lru_sizeOf c" using same by (simp_all add: same_contents_def)
qed

text \<open>A budget whose five quarters are below \<open>2 ^ 53\<close>: no count on the way to an eviction is rounded.\<close>

definition exact_budget :: "nat \<Rightarrow> bool" where
  "exact_budget budget = (5 * budget < 2 ^ 55)"

lemma exact_budget_bound: "exact_budget budget \<Longrightarrow> 4 * n \<le> budget \<Longrightarrow> m \<le> budget \<Longrightarrow> m + n < 2 ^ 53"
  by (simp add: exact_budget_def)

lemma item_total_delete: "item_total (item_delete k items) \<le> item_total items"
  by (induction items) (auto simp: item_delete_def)

lemma lru_set_repr:
  assumes "lru_repr c items" "entryBytes c v = Inr n" "item_total items \<le> lru_budget c" "exact_budget (lru_budget c)"
  shows "\<exists>d. lru_set k v c = Some (Inr d) \<and> lru_repr d (item_set (lru_budget c) n k v items)
     \<and> lru_budget d = lru_budget c \<and> lru_sizeOf d = lru_sizeOf c"
proof (cases "4 * n > lru_budget c")
  case True
  then show ?thesis using assms by (auto simp: lru_set_def item_set_def)
next
  case False
  have small: "item_total items < 2 ^ 53" using exact_budget_bound [OF assms(4) _ assms(3), of 0] by simp
  have bound: "item_total (item_delete k items) + n < 2 ^ 53"
    using exact_budget_bound [OF assms(4) _ order_trans [OF item_total_delete assms(3)], of n k] False by simp
  note del = lru_delete_repr [OF assms(1) small, of k]
  define d where "d = lru_append (lru_fresh (lru_delete k c)) (lru_delete k c\<lparr>lru_store :=
      (lru_store (lru_delete k c))(lru_fresh (lru_delete k c) \<mapsto>
        \<lparr>node_key = k, node_value = v, node_bytes = n, older = None, newer = None\<rparr>),
      lru_fresh := lru_fresh (lru_delete k c) + 1,
      lru_entries := (lru_entries (lru_delete k c))(k \<mapsto> lru_fresh (lru_delete k c))\<rparr>)"
  note ins = lru_insert_repr [OF del(1) item_delete_keys refl d_def bound]
  have "lru_set k v c = map_option Inr (lru_evict (d\<lparr>lru_bytes := double_of_int (lru_bytes d + int n)\<rparr>))"
    using False assms(2) by (simp add: lru_set_def Let_def d_def)
  then show ?thesis using lru_evict_repr [OF ins(1)] ins(2,3) del(2,3) False bound by (auto simp: item_set_def)
qed

lemma item_total_touch: "lru_repr c items \<Longrightarrow> item_total (item_touch k items) = item_total items"
proof -
  assume "lru_repr c items"
  then obtain as where as: "lru_ok c as" "items = map (\<lambda>a. the (payload c a)) as" by (auto simp: lru_repr_def)
  show ?thesis
  proof (cases "lru_entries c k")
    case None
    then show ?thesis using item_split(6) [of items "[]" k] lru_ok_missing [OF as(1) None as(2)] by simp
  next
    case (Some a)
    obtain xs ys v n where split: "as = xs @ a # ys" "payload c a = Some (k, v, n)"
        "\<forall>b \<in> set xs \<union> set ys. fst (the (payload c b)) \<noteq> k"
      using lru_ok_split [OF as(1) Some] by metis
    let ?I = "\<lambda>a. the (payload c a)"
    have "\<forall>it \<in> set (map ?I xs) \<union> set (map ?I ys). fst it \<noteq> k" using split(3) by auto
    from item_split(3) [OF this, of v n] show ?thesis using split(1,2) as(2) by simp
  qed
qed

lemma item_trim_within: "item_total (item_trim budget items) \<le> budget"
  by (induction items) (auto simp del: item_total_simps(2))

lemma item_trim_suffix: "\<exists>dropped. items = dropped @ item_trim budget items"
  by (induction items) (auto simp: Cons_eq_append_conv)

lemma item_trim_last: "snd (snd it) \<le> budget \<Longrightarrow> \<exists>xs. item_trim budget (items @ [it]) = xs @ [it]"
  by (induction items) auto

lemma item_find_last: "\<forall>x \<in> set xs. fst x \<noteq> k \<Longrightarrow> item_find k (xs @ [(k, v, n)]) = Some v"
  using item_split(1) [of xs "[]" k v n] by simp

section \<open>The interface its clients rely on\<close>

locale recency_cache =
  fixes get :: "'k \<Rightarrow> 'c \<Rightarrow> 'v option \<times> 'c" and put :: "'k \<Rightarrow> 'v \<Rightarrow> 'c \<Rightarrow> 'c result option"
    and del :: "'k \<Rightarrow> 'c \<Rightarrow> 'c" and cost :: "'c \<Rightarrow> 'v \<Rightarrow> nat result" and budget :: "'c \<Rightarrow> nat"
    and repr :: "'c \<Rightarrow> ('k, 'v) item list \<Rightarrow> bool"
  assumes get_finds: "repr c items \<Longrightarrow> fst (get k c) = item_find k items \<and> repr (snd (get k c)) (item_touch k items)"
    and put_sets: "repr c items \<Longrightarrow> cost c v = Inr n \<Longrightarrow>
      \<exists>d. put k v c = Some (Inr d) \<and> repr d (item_set (budget c) n k v items) \<and> budget d = budget c"
    and put_fails: "cost c v = Inl e \<Longrightarrow> put k v c = Some (Inl e)"
    and del_removes: "repr c items \<Longrightarrow> repr (del k c) (item_delete k items)"
begin

lemma get_after_del: "repr c items \<Longrightarrow> fst (get k (del k c)) = None"
  using get_finds [OF del_removes, of c items k k] item_split(4) [OF ballI, of "item_delete k items" "[]" k]
    item_delete_keys [of k items] by auto

lemma get_after_put:
  assumes "repr c items" "cost c v = Inr n" "4 * n \<le> budget c" "put k v c = Some (Inr d)"
  shows "fst (get k d) = Some v"
proof -
  let ?new = "item_delete k items @ [(k, v, n)]"
  have d: "repr d (item_trim (budget c) ?new)"
    using put_sets [OF assms(1,2), of k] assms(3,4) by (auto simp: item_set_def)
  obtain xs where xs: "item_trim (budget c) ?new = xs @ [(k, v, n)]"
    using item_trim_last [of "(k, v, n)" "budget c" "item_delete k items"] assms(3) by auto
  obtain dropped where "?new = dropped @ xs @ [(k, v, n)]" using item_trim_suffix [of ?new "budget c"] xs by metis
  then have "\<forall>x \<in> set xs. fst x \<noteq> k" using item_delete_keys [of k items] by auto
  then show ?thesis using get_finds [OF d, of k] item_find_last xs by metis
qed

lemma put_within:
  assumes "repr c items" "cost c v = Inr n" "item_total items \<le> budget c"
  shows "\<exists>d items'. put k v c = Some (Inr d) \<and> repr d items' \<and> item_total items' \<le> budget d"
proof -
  have "item_total (item_set (budget c) n k v items) \<le> budget c"
    using assms(3) by (simp add: item_set_def item_trim_within)
  then show ?thesis using put_sets [OF assms(1,2), of k] by metis
qed

end

text \<open>A cache between operations: it represents the entries, they are within the budget, and the budget is exact.\<close>

definition lru_holds :: "('k, 'v) byte_lru \<Rightarrow> ('k, 'v) item list \<Rightarrow> bool" where
  "lru_holds c items \<longleftrightarrow> lru_repr c items \<and> item_total items \<le> lru_budget c \<and> exact_budget (lru_budget c)"

lemma lru_holds_small: "lru_holds c items \<Longrightarrow> item_total items < 2 ^ 53"
  using exact_budget_bound [of "lru_budget c" 0 "item_total items"] by (simp add: lru_holds_def)

lemma lru_get_holds:
  assumes "lru_holds c items"
  shows "fst (lru_get k c) = item_find k items \<and> lru_holds (snd (lru_get k c)) (item_touch k items)"
  using lru_get_repr [of c items k] item_total_touch [of c items k] assms by (simp add: lru_holds_def)

lemma lru_set_holds:
  assumes "lru_holds c items" "entryBytes c v = Inr n"
  shows "\<exists>d. lru_set k v c = Some (Inr d) \<and> lru_holds d (item_set (lru_budget c) n k v items) \<and> lru_budget d = lru_budget c \<and> lru_sizeOf d = lru_sizeOf c"
proof -
  have "item_total (item_set (lru_budget c) n k v items) \<le> lru_budget c"
    using assms(1) by (simp add: item_set_def item_trim_within lru_holds_def)
  then show ?thesis using lru_set_repr [of c items v n k] assms by (auto simp: lru_holds_def)
qed

lemma lru_delete_holds:
  assumes "lru_holds c items"
  shows "lru_holds (lru_delete k c) (item_delete k items)"
  using lru_delete_repr [of c items k] lru_holds_small [OF assms] item_total_delete [of k items] assms by (simp add: lru_holds_def)

interpretation lru: recency_cache lru_get lru_set lru_delete entryBytes lru_budget lru_holds
proof
  fix c :: "('a, 'b) byte_lru" and items k v n
  assume "lru_holds c items" "entryBytes c v = Inr n"
  from lru_set_holds [OF this, of k] show "\<exists>d. lru_set k v c = Some (Inr d) \<and> lru_holds d (item_set (lru_budget c) n k v items) \<and> lru_budget d = lru_budget c"
    by blast
qed (simp_all add: lru_get_holds lru_delete_holds lru_set_def)

section \<open>Reachable caches\<close>

inductive lru_reachable :: "('v \<Rightarrow> int) \<Rightarrow> nat \<Rightarrow> ('k, 'v) byte_lru \<Rightarrow> bool" for sizeOf budget where
  created: "newByteLru (int budget) sizeOf = Inr c \<Longrightarrow> lru_reachable sizeOf budget c"
| got: "lru_reachable sizeOf budget c \<Longrightarrow> lru_reachable sizeOf budget (snd (lru_get k c))"
| put: "lru_reachable sizeOf budget c \<Longrightarrow> lru_set k v c = Some (Inr d) \<Longrightarrow> lru_reachable sizeOf budget d"
| deleted: "lru_reachable sizeOf budget c \<Longrightarrow> lru_reachable sizeOf budget (lru_delete k c)"
| cleared: "lru_reachable sizeOf budget c \<Longrightarrow> lru_reachable sizeOf budget (lru_clear c)"

lemma lru_clear_repr: "lru_repr (lru_clear c) []"
  by (auto simp: lru_repr_def lru_ok_def lru_clear_def chain_def intro!: exI [of _ "[]"])

lemma lru_reachable_holds:
  "lru_reachable sizeOf budget c \<Longrightarrow> exact_budget budget \<Longrightarrow> \<exists>items. lru_holds c items \<and> lru_budget c = budget \<and> lru_sizeOf c = sizeOf"
proof (induction rule: lru_reachable.induct)
  case (created c)
  then have "c = \<lparr>lru_entries = Map.empty, lru_oldest = None, lru_newest = None, lru_sizeOf = sizeOf,
      lru_budget = budget, lru_bytes = 0, lru_store = Map.empty, lru_fresh = 0\<rparr>"
    by (auto simp: newByteLru_def split: if_splits)
  then show ?case using created(2) by (auto simp: lru_holds_def lru_repr_def lru_ok_def chain_def intro!: exI [of _ "[]"])
next
  case (got c k)
  then obtain items where "lru_holds c items" "lru_budget c = budget" "lru_sizeOf c = sizeOf" by blast
  then show ?case using lru_get_repr [of c items k] lru_get_holds [of c items k] by (auto simp: lru_holds_def [of c])
next
  case (put c k v d)
  then obtain items where items: "lru_holds c items" "lru_budget c = budget" "lru_sizeOf c = sizeOf" by blast
  obtain n where n: "entryBytes c v = Inr n" using put(2) by (cases "entryBytes c v") (auto simp: lru_set_def)
  show ?case using lru_set_holds [OF items(1) n, of k] items(2,3) put(2) by auto
next
  case (deleted c k)
  then obtain items where items: "lru_holds c items" "lru_budget c = budget" "lru_sizeOf c = sizeOf" by blast
  then have "lru_budget (lru_delete k c) = budget" "lru_sizeOf (lru_delete k c) = sizeOf"
    using lru_delete_repr(2,3) [of c items k] lru_holds_small [OF items(1)] by (auto simp: lru_holds_def)
  then show ?case using lru_delete_holds [OF items(1)] by blast
next
  case (cleared c)
  then show ?case using lru_clear_repr [of c] by (auto simp: lru_clear_def lru_holds_def intro!: exI [of _ "[]"])
qed

section \<open>Properties\<close>

text \<open>
  C22: in every cache reachable by any sequence of operations, with a budget whose five quarters are below \<open>2 ^ 53\<close>, the
  linked nodes represent a list of entries, and the bytes accounted for are the sum of the entries and never exceed the
  budget: the count, a double, is never rounded.
\<close>

theorem lru_budget_invariant:
  assumes "lru_reachable sizeOf budget c" "5 * budget < 4 * 2 ^ 53"
  shows "\<exists>items. lru_repr c items \<and> lru_bytes c = int (item_total items) \<and> item_total items \<le> budget"
  using lru_reachable_holds [OF assms(1)] assms(2) lru_repr_bytes by (auto simp: lru_holds_def exact_budget_def)

theorem lru_budget_invariant_witness:
  "\<exists>c :: (nat, nat) byte_lru. newByteLru 4096 int = Inr c
     \<and> (\<exists>items. lru_repr c items \<and> lru_bytes c = int (item_total items) \<and> item_total items \<le> 4096)"
proof -
  obtain c :: "(nat, nat) byte_lru" where c: "newByteLru 4096 int = Inr c"
    by (simp add: newByteLru_def max_safe_integer_def)
  then have "lru_reachable int 4096 c" by (intro created) simp
  from lru_budget_invariant [OF this] c show ?thesis by simp
qed

text \<open>
  C23: the cache refines the list of entries: on a cache that represents entries within its budget, the budget being one
  whose five quarters are below \<open>2 ^ 53\<close>, \<open>get\<close> finds and touches, \<open>delete\<close> removes, and \<open>set\<close> returns, its eviction loop
  included, with the value readable unless its entry takes more than a quarter of the budget, in which case nothing
  changes, a previous value of the key included. What each leaves is such a cache again.
\<close>

theorem lru_refines_list:
  assumes "lru_repr c items" "item_total items \<le> lru_budget c" "5 * lru_budget c < 4 * 2 ^ 53"
  shows "fst (lru_get k c) = item_find k items \<and> lru_holds (snd (lru_get k c)) (item_touch k items)
     \<and> lru_holds (lru_delete k c) (item_delete k items) \<and> fst (lru_get k (lru_delete k c)) = None
     \<and> (case entryBytes c v of
          Inl e \<Rightarrow> lru_set k v c = Some (Inl e)
        | Inr n \<Rightarrow> (\<exists>d. lru_set k v c = Some (Inr d) \<and> lru_holds d (item_set (lru_budget c) n k v items)
            \<and> (if 4 * n \<le> lru_budget c then fst (lru_get k d) = Some v else d = c)))"
proof -
  have holds: "lru_holds c items" using assms by (simp add: lru_holds_def exact_budget_def)
  have "case entryBytes c v of
          Inl e \<Rightarrow> lru_set k v c = Some (Inl e)
        | Inr n \<Rightarrow> (\<exists>d. lru_set k v c = Some (Inr d) \<and> lru_holds d (item_set (lru_budget c) n k v items)
            \<and> (if 4 * n \<le> lru_budget c then fst (lru_get k d) = Some v else d = c))"
  proof (cases "entryBytes c v")
    case (Inr n)
    obtain d where d: "lru_set k v c = Some (Inr d)" "lru_holds d (item_set (lru_budget c) n k v items)"
      using lru_set_holds [OF holds Inr, of k] by blast
    have "d = c" if "\<not> 4 * n \<le> lru_budget c" using d(1) that Inr by (simp add: lru_set_def)
    then show ?thesis using Inr d lru.get_after_put [OF holds Inr _ d(1)] by simp
  qed (simp add: lru.put_fails)
  then show ?thesis using lru.get_finds [OF holds] lru.del_removes [OF holds] lru.get_after_del [OF holds] by blast
qed

theorem lru_refines_list_witness:
  "\<exists>c :: (nat, nat) byte_lru. newByteLru 4096 int = Inr c
     \<and> (\<exists>d. lru_set 7 300 c = Some (Inr d) \<and> fst (lru_get 7 d) = Some 300)"
proof -
  obtain c :: "(nat, nat) byte_lru" where c: "newByteLru 4096 int = Inr c"
      and fields: "lru_budget c = 4096" "lru_sizeOf c = int" "lru_repr c []"
    by (auto simp: newByteLru_def max_safe_integer_def lru_repr_def lru_ok_def chain_def intro!: exI [of _ "[]"])
  have "entryBytes c 300 = Inr 300"
    using fields by (simp add: entryBytes_def max_safe_integer_def MIN_ENTRY_BYTES_def)
  then show ?thesis using lru_refines_list [OF fields(3), of 7 300] fields(1) c by auto
qed

end
