(* ===== verification/Pktline.thy ===== *)
theory Pktline
  imports Bytes
begin

text \<open>
  Pkt-line framing (\<open>packages/git/src/protocol/pktline.ts\<close>, \<open>stream.ts\<close>): the writer, the strict length
  parser, and the pull reader over a chunked source.

  An asynchronous source is the list of what its iterator delivers: chunks, an error it throws, or the abort
  signal firing while the reader waits; the end of the list is the end of the stream. The reader is reduced
  to its unread bytes and how the stream ends, so that chunk boundaries disappear.
\<close>

section \<open>Writing\<close>

definition MAX_PKT_FRAME_BYTES :: nat where
  "MAX_PKT_FRAME_BYTES = 65520"

definition MAX_PKT_PAYLOAD_BYTES :: nat where
  "MAX_PKT_PAYLOAD_BYTES = MAX_PKT_FRAME_BYTES - 4"

definition concat_chunks :: "bytes list \<Rightarrow> bytes" where
  "concat_chunks chunks = concat_into (replicate (foldl (\<lambda>total chunk. total + length chunk) 0 chunks) 0) 0 chunks"

definition FLUSH :: bytes where
  "FLUSH = utf8_encode (units ''0000'')"

definition DELIM :: bytes where
  "DELIM = utf8_encode (units ''0001'')"

datatype pkt_payload = TextPayload jstring | BytesPayload bytes

definition payload_body :: "pkt_payload \<Rightarrow> bytes" where
  "payload_body p = (case p of TextPayload s \<Rightarrow> utf8_encode s | BytesPayload bs \<Rightarrow> bs)"

definition pkt :: "pkt_payload \<Rightarrow> bytes result" where
  "pkt p =
     (let body = payload_body p
      in if length body > MAX_PKT_PAYLOAD_BYTES then Inl (JsError ''pkt-line payload too long'')
         else Inr (concat_chunks [utf8_encode (padStart (to_radix 16 (length body + 4)) 4 0x30), body]))"

fun mapR :: "('a \<Rightarrow> 'b result) \<Rightarrow> 'a list \<Rightarrow> 'b list result" where
  "mapR f [] = Inr []"
| "mapR f (x # xs) = bindR (f x) (\<lambda>y. bindR (mapR f xs) (\<lambda>ys. Inr (y # ys)))"

definition pktLines :: "pkt_payload list \<Rightarrow> bytes result" where
  "pktLines payloads = bindR (mapR pkt payloads) (\<lambda>chunks. Inr (concat_chunks chunks))"

section \<open>Reading\<close>

datatype Pkt = Line bytes | Flush | Delim

definition pkt_bytes :: "Pkt \<Rightarrow> bytes" where
  "pkt_bytes p = (case p of Line bs \<Rightarrow> bs | _ \<Rightarrow> [])"

definition pktText :: "Pkt \<Rightarrow> jstring" where
  "pktText p = (let t = utf8_decode (pkt_bytes p) in if endsWith t [0x0a] then butlast t else t)"

definition aborted_error :: error where
  "aborted_error = GitError ''EABORTED'' ''network operation aborted''"

datatype source_event = Chunk bytes | SourceFails error | SignalAborts

record ByteReader =
  br_source :: "source_event list"
  br_return :: "error option"
  br_aborted :: bool
  br_chunk :: bytes
  br_offset :: nat
  br_done :: bool

definition newByteReader :: "source_event list \<Rightarrow> error option \<Rightarrow> bool \<Rightarrow> ByteReader" where
  "newByteReader source on_return aborted =
     \<lparr>br_source = source, br_return = on_return, br_aborted = aborted, br_chunk = [], br_offset = 0, br_done = False\<rparr>"

definition throwIfAborted :: "ByteReader \<Rightarrow> unit result" where
  "throwIfAborted r = (if br_aborted r then Inl aborted_error else Inr ())"

text \<open>Releasing settles once; \<open>br_return\<close> is the error the source's own \<open>return\<close> throws, if it does.\<close>

definition br_release :: "ByteReader \<Rightarrow> unit result \<times> ByteReader" where
  "br_release r =
     (case br_return r of None \<Rightarrow> Inr () | Some e \<Rightarrow> Inl e, r\<lparr>br_chunk := [], br_offset := 0, br_done := True\<rparr>)"

text \<open>The loop of \<open>#advance\<close>, while the source is not done.\<close>

fun advance_loop :: "source_event list \<Rightarrow> ByteReader \<Rightarrow> bool result \<times> ByteReader" where
  "advance_loop [] r = (Inr False, r\<lparr>br_source := [], br_done := True\<rparr>)"
| "advance_loop (Chunk c # es) r =
     (if length c = 0 then advance_loop es r
      else (Inr True, r\<lparr>br_source := es, br_chunk := c, br_offset := 0\<rparr>))"
| "advance_loop (SourceFails e # es) r = (Inl e, r\<lparr>br_source := es\<rparr>)"
| "advance_loop (SignalAborts # es) r = (Inl aborted_error, r\<lparr>br_source := es, br_aborted := True\<rparr>)"

definition br_advance :: "ByteReader \<Rightarrow> bool result \<times> ByteReader" where
  "br_advance r = (if br_done r then (Inr False, r) else advance_loop (br_source r) r)"

lemma advance_loop_shorter:
  "advance_loop es r = (Inr True, r') \<Longrightarrow> length (br_source r') < length es"
  by (induction es r rule: advance_loop.induct) (auto split: if_splits)

lemma br_advance_shorter: "br_advance r = (Inr True, r') \<Longrightarrow> length (br_source r') < length (br_source r)"
  by (auto simp: br_advance_def dest: advance_loop_shorter split: if_splits)

function take_across :: "nat \<Rightarrow> bytes \<Rightarrow> nat \<Rightarrow> ByteReader \<Rightarrow> bytes option result \<times> ByteReader" where
  "take_across len out written r =
     (if written < len then
        let remaining = length (br_chunk r) - br_offset r;
            n = min remaining (len - written);
            out1 = (if remaining > 0 then set_at out written (take n (drop (br_offset r) (br_chunk r))) else out);
            r1 = (if remaining > 0 then r\<lparr>br_offset := br_offset r + n\<rparr> else r);
            written1 = (if remaining > 0 then written + n else written)
        in if written1 < len then
             (case br_advance r1 of
                (Inl e, r2) \<Rightarrow> (Inl e, r2)
              | (Inr False, r2) \<Rightarrow> (Inl (CorruptError ''truncated pkt-line''), r2)
              | (Inr True, r2) \<Rightarrow> take_across len out1 written1 r2)
           else (Inr (Some out1), r1)
      else (Inr (Some out), r))"
  by pat_completeness auto
termination
  by (relation "measure (\<lambda>(_, _, _, r). length (br_source r))")
    (auto simp: Let_def dest!: br_advance_shorter [OF sym] split: if_splits)

declare take_across.simps [simp del]

definition takeExact :: "nat \<Rightarrow> ByteReader \<Rightarrow> bytes option result \<times> ByteReader" where
  "takeExact len r =
     (if len = 0 then (Inr (Some []), r)
      else
        let (got, r1) = (if br_offset r = length (br_chunk r) then br_advance r else (Inr True, r))
        in case got of
             Inl e \<Rightarrow> (Inl e, r1)
           | Inr False \<Rightarrow> (Inr None, r1)
           | Inr True \<Rightarrow>
               if length (br_chunk r1) - br_offset r1 \<ge> len
               then (Inr (Some (take len (drop (br_offset r1) (br_chunk r1)))), r1\<lparr>br_offset := br_offset r1 + len\<rparr>)
               else take_across len (replicate len 0) 0 r1)"

definition length_digit :: "byte \<Rightarrow> nat option" where
  "length_digit c =
     (if 0x30 \<le> c \<and> c \<le> 0x39 then Some (unat c - 0x30)
      else if 0x61 \<le> c \<and> c \<le> 0x66 then Some (unat c - 0x57)
      else if 0x41 \<le> c \<and> c \<le> 0x46 then Some (unat c - 0x37)
      else None)"

fun parse_length_loop :: "nat \<Rightarrow> bytes \<Rightarrow> nat result" where
  "parse_length_loop acc [] = Inr acc"
| "parse_length_loop acc (c # cs) =
     (case length_digit c of
        None \<Rightarrow> Inl (CorruptError ''bad pkt-line length'')
      | Some d \<Rightarrow> parse_length_loop (push_bit 4 acc OR d) cs)"

definition parseLength :: "bytes \<Rightarrow> nat result" where
  "parseLength buffer = parse_length_loop 0 (take 4 buffer)"

definition is_corrupt :: "error \<Rightarrow> bool" where
  "is_corrupt e = (case e of CorruptError _ \<Rightarrow> True | _ \<Rightarrow> False)"

text \<open>The body of the outer \<open>try\<close>; an error then releases the reader.\<close>

definition read_frame :: "ByteReader \<Rightarrow> Pkt option result \<times> ByteReader" where
  "read_frame r =
     (case throwIfAborted r of
        Inl e \<Rightarrow> (Inl e, r)
      | Inr _ \<Rightarrow>
          (case takeExact 4 r of
             (Inl e, r1) \<Rightarrow> (Inl (if is_corrupt e then CorruptError ''truncated pkt-line length'' else e), r1)
           | (Inr None, r1) \<Rightarrow>
               (case br_release r1 of (Inl e, r2) \<Rightarrow> (Inl e, r2) | (Inr _, r2) \<Rightarrow> (Inr None, r2))
           | (Inr (Some header), r1) \<Rightarrow>
               (case parseLength header of
                  Inl e \<Rightarrow> (Inl e, r1)
                | Inr n \<Rightarrow>
                    if n = 0 then (Inr (Some Flush), r1)
                    else if n = 1 then (Inr (Some Delim), r1)
                    else if n < 4 then (Inl (CorruptError ''bad pkt-line length''), r1)
                    else if n > MAX_PKT_FRAME_BYTES then (Inl (CorruptError ''pkt-line exceeds 65520 bytes''), r1)
                    else (case takeExact (n - 4) r1 of
                            (Inl e, r2) \<Rightarrow> (Inl e, r2)
                          | (Inr None, r2) \<Rightarrow> (Inl (CorruptError ''truncated pkt-line''), r2)
                          | (Inr (Some p), r2) \<Rightarrow> (Inr (Some (Line p)), r2)))))"

definition readPkt :: "ByteReader \<Rightarrow> Pkt option result \<times> ByteReader" where
  "readPkt r = (case read_frame r of (Inl e, r1) \<Rightarrow> (Inl e, snd (br_release r1)) | ok \<Rightarrow> ok)"

text \<open>\<open>rest\<close>: the chunks the generator yields, and the error that ends it.\<close>

function rest_loop :: "ByteReader \<Rightarrow> bytes list \<times> error option \<times> ByteReader" where
  "rest_loop r =
     (case br_advance r of
        (Inl e, r1) \<Rightarrow> ([], Some e, r1)
      | (Inr False, r1) \<Rightarrow> ([], None, r1)
      | (Inr True, r1) \<Rightarrow>
          (case rest_loop (r1\<lparr>br_offset := length (br_chunk r1)\<rparr>) of (cs, e, r2) \<Rightarrow> (br_chunk r1 # cs, e, r2)))"
  by pat_completeness auto
termination
  by (relation "measure (\<lambda>r. length (br_source r))") (auto dest!: br_advance_shorter [OF sym])

declare rest_loop.simps [simp del]

definition br_rest :: "ByteReader \<Rightarrow> bytes list \<times> error option \<times> ByteReader" where
  "br_rest r =
     (case throwIfAborted r of
        Inl e \<Rightarrow> ([], Some e, snd (br_release r))
      | Inr _ \<Rightarrow>
          let first = (if br_offset r < length (br_chunk r) then [drop (br_offset r) (br_chunk r)] else []);
              r1 = (if br_offset r < length (br_chunk r) then r\<lparr>br_offset := length (br_chunk r)\<rparr> else r);
              (cs, e, r2) = rest_loop r1;
              (released, r3) = br_release r2
          in (first @ cs, case released of Inl f \<Rightarrow> Some f | Inr _ \<Rightarrow> e, r3))"

section \<open>Unread bytes\<close>

datatype ending = Ended | Failed error

fun stream_of :: "source_event list \<Rightarrow> bytes \<times> ending" where
  "stream_of [] = ([], Ended)"
| "stream_of (Chunk c # es) = (case stream_of es of (bs, e) \<Rightarrow> (c @ bs, e))"
| "stream_of (SourceFails e # es) = ([], Failed e)"
| "stream_of (SignalAborts # es) = ([], Failed aborted_error)"

definition unread :: "ByteReader \<Rightarrow> bytes \<times> ending" where
  "unread r =
     (let (bs, e) = (if br_done r then ([], Ended) else stream_of (br_source r))
      in (drop (br_offset r) (br_chunk r) @ bs, e))"

definition reader_ok :: "ByteReader \<Rightarrow> bool" where
  "reader_ok r \<longleftrightarrow> br_offset r \<le> length (br_chunk r) \<and> \<not> br_aborted r \<and> br_return r = None"

lemma advance_loop_stream:
  "advance_loop es r = (res, r') \<Longrightarrow>
     (case stream_of es of (bs, e) \<Rightarrow>
        (bs = [] \<and> (case e of Ended \<Rightarrow> res = Inr False \<and> br_done r' | Failed x \<Rightarrow> res = Inl x)
           \<and> br_chunk r' = br_chunk r \<and> br_offset r' = br_offset r)
        \<or> (bs \<noteq> [] \<and> res = Inr True \<and> br_done r' = br_done r \<and> br_offset r' = 0 \<and> br_chunk r' \<noteq> []
           \<and> (br_chunk r' @ fst (stream_of (br_source r')), snd (stream_of (br_source r'))) = (bs, e)))
     \<and> br_return r' = br_return r \<and> (br_aborted r' = br_aborted r \<or> res = Inl aborted_error)"
  by (induction es r rule: advance_loop.induct) (auto split: prod.splits if_splits)

lemma br_advance_return: "br_advance r = (res, r') \<Longrightarrow> br_return r' = br_return r"
  using advance_loop_stream [of "br_source r" r res r'] by (auto simp: br_advance_def split: if_splits)

text \<open>Advancing an exhausted chunk keeps the unread bytes and tells whether there are any.\<close>

lemma br_advance_unread:
  assumes "br_advance r = (res, r')" "br_offset r = length (br_chunk r)" "reader_ok r" "unread r = (bs, e)"
  shows "(case e of
            Ended \<Rightarrow> res = Inr (bs \<noteq> [])
          | Failed x \<Rightarrow> res = (if bs = [] then Inl x else Inr True))
     \<and> (case res of
          Inl x \<Rightarrow> bs = [] \<and> e = Failed x
        | Inr got \<Rightarrow> unread r' = (bs, e) \<and> reader_ok r' \<and> got = (bs \<noteq> [])
            \<and> (got \<longrightarrow> br_chunk r' \<noteq> [] \<and> br_offset r' = 0))"
proof (cases "br_done r")
  case True
  then show ?thesis using assms by (auto simp: br_advance_def unread_def reader_ok_def)
next
  case False
  then have run: "advance_loop (br_source r) r = (res, r')" using assms(1) by (simp add: br_advance_def)
  show ?thesis using advance_loop_stream [OF run] assms(2-4) False
    by (auto simp: unread_def reader_ok_def Let_def split: prod.splits ending.splits sum.splits)
qed

definition ending_error :: "ending \<Rightarrow> error" where
  "ending_error e = (case e of Ended \<Rightarrow> CorruptError ''truncated pkt-line'' | Failed x \<Rightarrow> x)"

lemma unread_consume:
  assumes "reader_ok r" "unread r = (bs, e)" "n \<le> length (br_chunk r) - br_offset r"
  shows "unread (r\<lparr>br_offset := br_offset r + n\<rparr>) = (drop n bs, e)" "reader_ok (r\<lparr>br_offset := br_offset r + n\<rparr>)"
    "take n (drop (br_offset r) (br_chunk r)) = take n bs" "n \<le> length bs"
  using assms by (auto simp: unread_def reader_ok_def Let_def add.commute split: prod.splits if_splits)

lemma set_at_fill:
  "length out = len \<Longrightarrow> written + length part \<le> len \<Longrightarrow>
     length (set_at out written part) = len \<and> take (written + length part) (set_at out written part) = take written out @ part"
  by (simp add: set_at_def)

lemma take_across_step:
  assumes "written < len" "n = min (length (br_chunk r) - br_offset r) (len - written)"
    "part = take n (drop (br_offset r) (br_chunk r))" "r1 = r\<lparr>br_offset := br_offset r + n\<rparr>"
  shows "take_across len out written r =
      (if written + n < len then
         (case br_advance r1 of
            (Inl e, r2) \<Rightarrow> (Inl e, r2)
          | (Inr False, r2) \<Rightarrow> (Inl (CorruptError ''truncated pkt-line''), r2)
          | (Inr True, r2) \<Rightarrow> take_across len (set_at out written part) (written + n) r2)
       else (Inr (Some (set_at out written part)), r1))"
proof (cases "length (br_chunk r) - br_offset r = 0")
  case True
  then have "n = 0" "part = []" "r1 = r" using assms by auto
  moreover have "set_at out written [] = out" by (simp add: set_at_def)
  ultimately have same: "set_at out written part = out" "written + n = written" "r1 = r" by simp_all
  show ?thesis unfolding same using True assms(1) by (subst take_across.simps) (simp add: Let_def)
next
  case False
  then show ?thesis unfolding assms(2-4) using assms(1) by (subst take_across.simps) (simp add: Let_def)
qed

lemma take_across_unread:
  "length out = len \<Longrightarrow> written < len \<Longrightarrow> reader_ok r \<Longrightarrow> unread r = (bs, e) \<Longrightarrow>
     (if len - written \<le> length bs
      then \<exists>r'. take_across len out written r = (Inr (Some (take written out @ take (len - written) bs)), r')
             \<and> reader_ok r' \<and> unread r' = (drop (len - written) bs, e)
      else fst (take_across len out written r) = Inl (ending_error e))"
proof (induction "length (br_source r)" arbitrary: out written r bs rule: less_induct)
  case less
  note prems = less.prems
  define n where "n = min (length (br_chunk r) - br_offset r) (len - written)"
  define part where "part = take n (drop (br_offset r) (br_chunk r))"
  define r1 where "r1 = r\<lparr>br_offset := br_offset r + n\<rparr>"
  have n: "n \<le> length (br_chunk r) - br_offset r" "n \<le> len - written" by (simp_all add: n_def)
  note eat = unread_consume [OF prems(3,4) n(1), folded r1_def part_def]
  have part: "length part = n" using n(1) by (simp add: part_def)
  let ?out = "set_at out written part"
  have fill: "length ?out = len" "take (written + n) ?out = take written out @ take n bs"
    using set_at_fill [OF prems(1), of written part] n(2) prems(2) part eat(3) by simp_all
  note step = take_across_step [OF prems(2) n_def part_def r1_def, of out]
  show ?case
  proof (cases "written + n < len")
    case False
    then have "n = len - written" "written + n = len" using n(2) prems(2) by auto
    then show ?thesis using step eat fill by auto
  next
    case unfilled: True
    then have ex: "br_offset r1 = length (br_chunk r1)" using prems(3) by (auto simp: n_def r1_def reader_ok_def)
    obtain res r2 where adv: "br_advance r1 = (res, r2)" by (cases "br_advance r1") auto
    note got = br_advance_unread [OF adv ex eat(2,1)]
    consider x where "res = Inl x" | "res = Inr False" | "res = Inr True" by (cases res) (auto split: bool.splits)
    then show ?thesis
    proof cases
      case 1
      then show ?thesis using got eat step adv unfilled by (auto simp: reader_ok_def ending_error_def)
    next
      case 2
      then show ?thesis using got eat step adv unfilled by (auto simp: reader_ok_def ending_error_def split: ending.splits)
    next
      case 3
      have r2: "unread r2 = (drop n bs, e)" "reader_ok r2" using got eat(2) 3 by (auto simp: reader_ok_def)
      have "length (br_source r2) < length (br_source r)" using br_advance_shorter adv 3 by (fastforce simp: r1_def)
      note IH = less.hyps [OF this fill(1) unfilled r2(2,1)]
      have run: "take_across len out written r = take_across len ?out (written + n) r2" using step adv 3 unfilled by simp
      have e1: "take (written + n) ?out @ take (len - (written + n)) (drop n bs) = take written out @ take (len - written) bs"
      proof -
        have "len - written = n + (len - (written + n))" using n(2) by simp
        then have "take (len - written) bs = take n bs @ take (len - (written + n)) (drop n bs)" by (metis take_add)
        then show ?thesis using fill(2) by simp
      qed
      have e2: "len - (written + n) \<le> length (drop n bs) \<longleftrightarrow> len - written \<le> length bs" using eat(4) unfilled by auto
      have e3: "drop (len - (written + n)) (drop n bs) = drop (len - written) bs"
      proof -
        have "len - (written + n) + n = len - written" using n(2) by simp
        then show ?thesis by simp
      qed
      show ?thesis using IH unfolding run e1 e2 e3 .
    qed
  qed
qed

text \<open>\<open>takeExact\<close> by unread bytes alone.\<close>

lemma takeExact_unread:
  assumes "reader_ok r" "unread r = (bs, e)" "0 < len"
  shows "if len \<le> length bs
     then \<exists>r'. takeExact len r = (Inr (Some (take len bs)), r') \<and> reader_ok r' \<and> unread r' = (drop len bs, e)
     else if bs = [] \<and> e = Ended then \<exists>r'. takeExact len r = (Inr None, r') \<and> reader_ok r' \<and> unread r' = ([], Ended)
     else fst (takeExact len r) = Inl (ending_error e)"
proof -
  have main: "if len \<le> length bs
     then \<exists>r'. (if length (br_chunk q) - br_offset q \<ge> len
         then (Inr (Some (take len (drop (br_offset q) (br_chunk q)))), q\<lparr>br_offset := br_offset q + len\<rparr>)
         else take_across len (replicate len 0) 0 q) = (Inr (Some (take len bs)), r') \<and> reader_ok r' \<and> unread r' = (drop len bs, e)
     else fst (if length (br_chunk q) - br_offset q \<ge> len
         then (Inr (Some (take len (drop (br_offset q) (br_chunk q)))), q\<lparr>br_offset := br_offset q + len\<rparr>)
         else take_across len (replicate len 0) 0 q) = Inl (ending_error e)"
    if "reader_ok q" "unread q = (bs, e)" for q
    using unread_consume [OF that, of len] take_across_unread [of "replicate len 0" len 0 q bs e] that assms(3) by auto
  show ?thesis
  proof (cases "br_offset r = length (br_chunk r)")
    case False
    then have "bs \<noteq> []" using assms by (auto simp: unread_def reader_ok_def Let_def split: prod.splits if_splits)
    then show ?thesis using main [OF assms(1,2)] False assms(3) by (simp add: takeExact_def)
  next
    case True
    obtain res r1 where adv: "br_advance r = (res, r1)" by (cases "br_advance r") auto
    note got = br_advance_unread [OF adv True assms(1,2)]
    have run: "takeExact len r = (case res of Inl e \<Rightarrow> (Inl e, r1) | Inr False \<Rightarrow> (Inr None, r1)
        | Inr True \<Rightarrow> (if length (br_chunk r1) - br_offset r1 \<ge> len
         then (Inr (Some (take len (drop (br_offset r1) (br_chunk r1)))), r1\<lparr>br_offset := br_offset r1 + len\<rparr>)
         else take_across len (replicate len 0) 0 r1))"
      using adv True assms(3) by (simp add: takeExact_def)
    consider x where "res = Inl x" | "res = Inr False" | "res = Inr True" by (cases res) (auto split: bool.splits)
    then show ?thesis
    proof cases
      case 1
      then show ?thesis using got run assms by (auto simp: reader_ok_def ending_error_def)
    next
      case 2
      then show ?thesis using got run assms by (auto simp: reader_ok_def split: ending.splits)
    next
      case 3
      then have "reader_ok r1" "unread r1 = (bs, e)" "bs \<noteq> []" using got assms(1) by (auto simp: reader_ok_def)
      then show ?thesis using main [of r1] run 3 by simp
    qed
  qed
qed

section \<open>Frames\<close>

lemma push_bit_or: "d < 16 \<Longrightarrow> push_bit 4 n OR d = 16 * n + (d :: nat)"
proof -
  assume "d < 16"
  then have "d = take_bit 4 d" by (simp add: take_bit_nat_eq_self)
  moreover have "push_bit 4 n OR take_bit 4 d = push_bit 4 n + take_bit 4 d"
    by (rule disjunctive_add [symmetric]) (auto simp: bit_push_bit_iff bit_take_bit_iff)
  ultimately show ?thesis by (simp add: push_bit_eq_mult)
qed

text \<open>The frame at the front of the unread bytes, or the error of a stream that ends there.\<close>

definition frame_of :: "bytes \<Rightarrow> ending \<Rightarrow> (Pkt option \<times> bytes) result" where
  "frame_of bs e =
     (if length bs < 4 then
        (if bs = [] \<and> e = Ended then Inr (None, [])
         else Inl (if is_corrupt (ending_error e) then CorruptError ''truncated pkt-line length'' else ending_error e))
      else case parseLength (take 4 bs) of
        Inl x \<Rightarrow> Inl x
      | Inr n \<Rightarrow>
          if n = 0 then Inr (Some Flush, drop 4 bs)
          else if n = 1 then Inr (Some Delim, drop 4 bs)
          else if n < 4 then Inl (CorruptError ''bad pkt-line length'')
          else if n > MAX_PKT_FRAME_BYTES then Inl (CorruptError ''pkt-line exceeds 65520 bytes'')
          else if n \<le> length bs then Inr (Some (Line (take (n - 4) (drop 4 bs))), drop n bs)
          else Inl (ending_error e))"

lemma takeExact_payload:
  assumes "reader_ok r" "unread r = (bs, e)"
  shows "if len \<le> length bs
     then \<exists>r'. takeExact len r = (Inr (Some (take len bs)), r') \<and> reader_ok r' \<and> unread r' = (drop len bs, e)
     else fst (takeExact len r) = Inr None \<and> e = Ended \<or> fst (takeExact len r) = Inl (ending_error e)"
proof (cases "len = 0")
  case True
  then show ?thesis using assms by (simp add: takeExact_def)
next
  case False
  then show ?thesis using takeExact_unread [OF assms, of len] by (auto split: if_splits)
qed

lemma readPkt_frame:
  assumes "reader_ok r" "unread r = (bs, e)"
  shows "case frame_of bs e of
     Inl x \<Rightarrow> fst (readPkt r) = Inl x
   | Inr (p, rest) \<Rightarrow> \<exists>r'. readPkt r = (Inr p, r') \<and> reader_ok r' \<and> unread r' = (rest, e)"
proof (cases "length bs < 4")
  case short: True
  note header = takeExact_unread [OF assms, of 4]
  have alive: "throwIfAborted r = Inr ()" using assms(1) by (simp add: throwIfAborted_def reader_ok_def)
  show ?thesis
  proof (cases "bs = [] \<and> e = Ended")
    case True
    then obtain r1 where r1: "takeExact 4 r = (Inr None, r1)" "reader_ok r1" "unread r1 = ([], Ended)"
      using header short by auto
    then have "readPkt r = (Inr None, r1\<lparr>br_chunk := [], br_offset := 0, br_done := True\<rparr>)"
      using alive by (simp add: readPkt_def read_frame_def br_release_def reader_ok_def)
    then show ?thesis using True r1 by (simp add: frame_of_def unread_def reader_ok_def)
  next
    case False
    then have "fst (takeExact 4 r) = Inl (ending_error e)" using header short by auto
    then show ?thesis using False short alive
      by (cases "takeExact 4 r") (auto simp: frame_of_def readPkt_def read_frame_def)
  qed
next
  case False
  have alive: "throwIfAborted r = Inr ()" using assms(1) by (simp add: throwIfAborted_def reader_ok_def)
  obtain r1 where r1: "takeExact 4 r = (Inr (Some (take 4 bs)), r1)" "reader_ok r1" "unread r1 = (drop 4 bs, e)"
    using takeExact_unread [OF assms, of 4] False by auto
  show ?thesis
  proof (cases "parseLength (take 4 bs)")
    case (Inl x)
    then show ?thesis using False r1(1) alive by (simp add: frame_of_def readPkt_def read_frame_def)
  next
    case (Inr n)
    have size: "n - 4 \<le> length (drop 4 bs) \<longleftrightarrow> n \<le> length bs" "drop (n - 4) (drop 4 bs) = drop n bs" if "4 \<le> n"
      using that False by auto
    show ?thesis using takeExact_payload [OF r1(2,3), of "n - 4"] False r1 alive Inr size
      by (cases "takeExact (n - 4) r1")
        (auto simp: frame_of_def readPkt_def read_frame_def ending_error_def split: if_splits)
  qed
qed

lemma hex_unit_facts:
  assumes "is_lower_hex u"
  shows "unat u < 0x80" "length_digit (word_of_nat (unat u)) = digit_value u" "\<exists>d < 16. digit_value u = Some d"
proof -
  show lt: "unat u < 0x80" using assms by (auto simp: is_lower_hex_def word_le_nat_alt)
  have b: "unat (word_of_nat (unat u) :: byte) = unat u" using lt by (intro unat_word_of_nat_byte) simp
  show "length_digit (word_of_nat (unat u)) = digit_value u" "\<exists>d < 16. digit_value u = Some d"
    using assms b by (auto simp: length_digit_def digit_value_def is_lower_hex_def word_le_nat_alt)
qed

lemma parse_length_hex:
  "list_all is_lower_hex us \<Longrightarrow>
     parse_length_loop acc (map (\<lambda>u. word_of_nat (unat u)) us)
       = Inr (foldl (\<lambda>n u. n * 16 + the (digit_value u)) acc us)"
proof (induction us arbitrary: acc)
  case (Cons u us)
  then obtain d where "digit_value u = Some d" "d < 16" using hex_unit_facts(3) by auto
  then show ?case using Cons hex_unit_facts(2) [of u] push_bit_or [of d acc] by (simp add: mult.commute)
qed simp

lemma to_radix_lower_hex: "list_all is_lower_hex (to_radix 16 n)"
proof (induction n rule: less_induct)
  case (less n)
  show ?case
  proof (cases "n < 16")
    case True
    then show ?thesis by (subst to_radix.simps) (simp add: is_lower_hex_digit)
  next
    case False
    then have "list_all is_lower_hex (to_radix 16 (n div 16))" by (intro less.IH) simp
    then show ?thesis using False by (subst to_radix.simps) (simp add: is_lower_hex_digit)
  qed
qed

lemma concat_chunks_concat: "concat_chunks chunks = concat chunks"
proof -
  have "foldl (\<lambda>total chunk. total + length chunk) n cs = n + sum_list (map length cs)" for n and cs :: "bytes list"
    by (induction cs arbitrary: n) simp_all
  then show ?thesis using concat_into_eq [of "[]" chunks] by (simp add: concat_chunks_def)
qed

lemma pkt_header:
  assumes "n < 65536"
  defines "h \<equiv> utf8_encode (padStart (to_radix 16 n) 4 0x30)"
  shows "length h = 4" "parseLength h = Inr n"
proof -
  let ?us = "padStart (to_radix 16 n) 4 0x30"
  have hex: "list_all is_lower_hex ?us"
    using to_radix_lower_hex [of n] by (auto simp: padStart_def list_all_iff is_lower_hex_def)
  have len: "length ?us = 4" using assms(1) by (intro length_padStart length_to_radix) simp_all
  have bytes: "h = map (\<lambda>u. word_of_nat (unat u)) ?us"
    unfolding h_def using hex hex_unit_facts(1) by (intro utf8_encode_ascii) (auto simp: list_all_iff)
  show "length h = 4" using len bytes by simp
  have "parseLength h = Inr (digits_value 16 ?us)"
    using parse_length_hex [OF hex, of 0] len by (simp add: parseLength_def bytes digits_value_def)
  then show "parseLength h = Inr n" by (simp add: digits_value_to_radix)
qed

lemma pkt_frame:
  assumes "pkt p = Inr bs"
  shows "frame_of (bs @ rest) e = Inr (Some (Line (payload_body p)), rest)"
proof -
  let ?n = "length (payload_body p) + 4"
  have n: "?n < 65536" "?n \<le> MAX_PKT_FRAME_BYTES"
    using assms by (auto simp: pkt_def Let_def MAX_PKT_PAYLOAD_BYTES_def MAX_PKT_FRAME_BYTES_def split: if_splits)
  note h = pkt_header [OF n(1)]
  have bs: "bs = utf8_encode (padStart (to_radix 16 ?n) 4 0x30) @ payload_body p"
    using assms by (auto simp: pkt_def Let_def concat_chunks_concat split: if_splits)
  show ?thesis unfolding bs using h n(2) by (simp add: frame_of_def)
qed

lemma control_frames:
  "frame_of (FLUSH @ rest) e = Inr (Some Flush, rest)" "frame_of (DELIM @ rest) e = Inr (Some Delim, rest)"
proof -
  have h: "FLUSH = [0x30, 0x30, 0x30, 0x30]" "DELIM = [0x30, 0x30, 0x30, 0x31]"
    unfolding FLUSH_def DELIM_def using utf8_encode_ascii by (simp_all add: units_def)
  show "frame_of (FLUSH @ rest) e = Inr (Some Flush, rest)" "frame_of (DELIM @ rest) e = Inr (Some Delim, rest)"
    unfolding h by (simp_all add: frame_of_def parseLength_def length_digit_def)
qed

lemma rest_loop_unread:
  "reader_ok r \<Longrightarrow> br_offset r = length (br_chunk r) \<Longrightarrow> unread r = (bs, e) \<Longrightarrow> rest_loop r = (cs, err, r') \<Longrightarrow>
     concat cs = bs \<and> err = (case e of Ended \<Rightarrow> None | Failed x \<Rightarrow> Some x) \<and> br_return r' = None"
proof (induction "length (br_source r)" arbitrary: r bs cs err r' rule: less_induct)
  case less
  obtain res r1 where adv: "br_advance r = (res, r1)" by (cases "br_advance r") auto
  note got = br_advance_unread [OF adv less.prems(2,1,3)]
  have ret: "br_return r1 = None" using br_advance_return [OF adv] less.prems(1) by (simp add: reader_ok_def)
  consider x where "res = Inl x" | "res = Inr False" | "res = Inr True" by (cases res) (auto split: bool.splits)
  then show ?case
  proof cases
    case 1
    then show ?thesis using got ret adv less.prems(4) by (subst (asm) rest_loop.simps) auto
  next
    case 2
    then show ?thesis using got ret adv less.prems(4) by (subst (asm) rest_loop.simps) (auto split: ending.splits)
  next
    case 3
    let ?r = "r1\<lparr>br_offset := length (br_chunk r1)\<rparr>"
    obtain ds f r2 where rec: "rest_loop ?r = (ds, f, r2)" by (cases "rest_loop ?r") auto
    have out: "cs = br_chunk r1 # ds" "err = f" "r' = r2"
      using less.prems(4) adv 3 rec by (auto simp: rest_loop.simps [of r])
    have r1: "reader_ok r1" "unread r1 = (bs, e)" "br_offset r1 = 0" using got 3 by auto
    have "unread ?r = (drop (length (br_chunk r1)) bs, e)" "reader_ok ?r" "take (length (br_chunk r1)) bs = br_chunk r1"
      using unread_consume [OF r1(1,2), of "length (br_chunk r1)"] r1(3) by simp_all
    moreover have "length (br_source ?r) < length (br_source r)" using br_advance_shorter adv 3 by fastforce
    ultimately have "concat ds = drop (length (br_chunk r1)) bs
        \<and> f = (case e of Ended \<Rightarrow> None | Failed x \<Rightarrow> Some x) \<and> br_return r2 = None"
      using less.hyps [of ?r] rec by simp
    then show ?thesis using out \<open>take (length (br_chunk r1)) bs = br_chunk r1\<close>
      by (metis append_take_drop_id concat.simps(2))
  qed
qed

lemma br_rest_unread:
  assumes "reader_ok r" "unread r = (bs, e)" "br_rest r = (cs, err, r')"
  shows "concat cs = bs \<and> err = (case e of Ended \<Rightarrow> None | Failed x \<Rightarrow> Some x)"
proof -
  let ?k = "length (br_chunk r) - br_offset r"
  let ?r = "r\<lparr>br_offset := br_offset r + ?k\<rparr>"
  note eat = unread_consume [OF assms(1,2) order_refl]
  have exhausted: "br_offset ?r = length (br_chunk ?r)" using assms(1) by (simp add: reader_ok_def)
  obtain ds f r2 where rec: "rest_loop ?r = (ds, f, r2)" by (cases "rest_loop ?r") auto
  note loop = rest_loop_unread [OF eat(2) exhausted eat(1) rec]
  have alive: "throwIfAborted r = Inr ()" using assms(1) by (simp add: throwIfAborted_def reader_ok_def)
  have "concat cs = drop (br_offset r) (br_chunk r) @ concat ds \<and> err = f"
  proof (cases "br_offset r < length (br_chunk r)")
    case True
    then have "?r = r\<lparr>br_offset := length (br_chunk r)\<rparr>" by simp
    then show ?thesis using assms(3) True rec loop alive by (auto simp: br_rest_def br_release_def)
  next
    case False
    then have "?r = r" using assms(1) by (simp add: reader_ok_def)
    then show ?thesis using assms(3) False rec loop alive by (auto simp: br_rest_def br_release_def)
  qed
  moreover have "drop (br_offset r) (br_chunk r) = take ?k bs" using eat(3) by simp
  ultimately show ?thesis using loop by simp
qed

section \<open>Properties\<close>

text \<open>
  C30: what \<open>readPkt\<close> returns is determined by the unread bytes and how the stream ends: the frame at their
  front, end of stream, or the error of a truncated or malformed frame; the rest of the bytes stays unread.
  Where the source cuts its chunks never shows.
\<close>

theorem readPkt_chunk_independent:
  assumes "reader_ok r" "reader_ok q" "unread r = unread q"
  shows "fst (readPkt r) = fst (readPkt q)
     \<and> (case frame_of (fst (unread r)) (snd (unread r)) of
          Inl x \<Rightarrow> fst (readPkt r) = Inl x
        | Inr (p, rest) \<Rightarrow> fst (readPkt r) = Inr p \<and> unread (snd (readPkt r)) = (rest, snd (unread r))
            \<and> reader_ok (snd (readPkt r)))"
  using readPkt_frame [OF assms(1), of "fst (unread r)" "snd (unread r)"]
    readPkt_frame [OF assms(2), of "fst (unread r)" "snd (unread r)"] assms(3)
  by (auto split: sum.splits prod.splits)

theorem readPkt_chunk_independent_witness:
  "fst (readPkt (newByteReader [Chunk [0x30, 0x30], Chunk [0x30, 0x30]] None False))
   = fst (readPkt (newByteReader [Chunk [0x30], Chunk [], Chunk [0x30, 0x30, 0x30]] None False))"
  by (rule conjunct1 [OF readPkt_chunk_independent]) (simp_all add: reader_ok_def newByteReader_def unread_def)

text \<open>
  C31: a written pkt-line is read back: whatever the chunks, the reader returns the payload and leaves exactly the
  bytes after the frame; a flush and a delimiter packet likewise.
\<close>

theorem pkt_roundtrip:
  assumes "pkt p = Inr bs" "reader_ok r"
  shows "(unread r = (bs @ rest, e) \<longrightarrow>
       fst (readPkt r) = Inr (Some (Line (payload_body p))) \<and> unread (snd (readPkt r)) = (rest, e))
     \<and> (unread r = (FLUSH @ rest, e) \<longrightarrow> fst (readPkt r) = Inr (Some Flush) \<and> unread (snd (readPkt r)) = (rest, e))
     \<and> (unread r = (DELIM @ rest, e) \<longrightarrow> fst (readPkt r) = Inr (Some Delim) \<and> unread (snd (readPkt r)) = (rest, e))"
  using readPkt_frame [OF assms(2), of _ e] pkt_frame [OF assms(1)] control_frames by fastforce

theorem pkt_roundtrip_witness:
  "fst (readPkt (newByteReader [Chunk [0x30, 0x30, 0x30], Chunk [0x35, 0x61]] None False)) = Inr (Some (Line [0x61]))"
proof -
  have "to_radix 16 5 = [0x35]" by (subst to_radix.simps) (simp add: digit_unit_def)
  then have "pkt (BytesPayload [0x61]) = Inr [0x30, 0x30, 0x30, 0x35, 0x61]"
    using utf8_encode_ascii [of "[0x30, 0x30, 0x30, 0x35]"]
    by (simp add: pkt_def payload_body_def MAX_PKT_PAYLOAD_BYTES_def MAX_PKT_FRAME_BYTES_def concat_chunks_concat
        padStart_def numeral_3_eq_3)
  from pkt_roundtrip [OF this, of "newByteReader [Chunk [0x30, 0x30, 0x30], Chunk [0x35, 0x61]] None False" "[]" Ended]
  show ?thesis by (simp add: reader_ok_def newByteReader_def unread_def payload_body_def)
qed

text \<open>
  \<open>rest\<close> yields exactly the unread bytes, in order, and fails only as the source does.
\<close>

theorem rest_complete:
  assumes "reader_ok r" "unread r = (bs, e)"
  shows "concat (fst (br_rest r)) = bs \<and> fst (snd (br_rest r)) = (case e of Ended \<Rightarrow> None | Failed x \<Rightarrow> Some x)"
  using br_rest_unread [OF assms, of "fst (br_rest r)" "fst (snd (br_rest r))" "snd (snd (br_rest r))"] by simp

theorem rest_complete_witness:
  "concat (fst (br_rest (newByteReader [Chunk [1], Chunk [], Chunk [2, 3]] None False))) = [1, 2, 3]"
  using rest_complete [of "newByteReader [Chunk [1], Chunk [], Chunk [2, 3]] None False" "[1, 2, 3]" Ended]
  by (simp add: reader_ok_def newByteReader_def unread_def)

end
