(* ===== verification/Actions.thy ===== *)
theory Actions
  imports Prelude
begin

text \<open>
  Operations that change a state and may throw: a function from the state to a result and the state it leaves,
  the state of a throw included, so that what a \<open>catch\<close> or \<open>finally\<close> of the source finds is there.
\<close>

type_synonym ('s, 'a) action = "'s \<Rightarrow> 'a result \<times> 's"

definition returnS :: "'a \<Rightarrow> ('s, 'a) action" where
  "returnS x s = (Inr x, s)"

definition throwS :: "error \<Rightarrow> ('s, 'a) action" where
  "throwS e s = (Inl e, s)"

definition bindS :: "('s, 'a) action \<Rightarrow> ('a \<Rightarrow> ('s, 'b) action) \<Rightarrow> ('s, 'b) action" where
  "bindS m f s = (case m s of (Inl e, t) \<Rightarrow> (Inl e, t) | (Inr x, t) \<Rightarrow> f x t)"

text \<open>A computation that reads no state.\<close>

definition liftS :: "'a result \<Rightarrow> ('s, 'a) action" where
  "liftS r s = (r, s)"

text \<open>\<open>try m catch (error) { h; throw error }\<close>: an error of the handler replaces the first.\<close>

definition cleanupS :: "('s, 'a) action \<Rightarrow> ('s, unit) action \<Rightarrow> ('s, 'a) action" where
  "cleanupS m h s = (case m s of
      (Inl e, t) \<Rightarrow> (case h t of (Inl e', u) \<Rightarrow> (Inl e', u) | (Inr _, u) \<Rightarrow> (Inl e, u))
    | (Inr x, t) \<Rightarrow> (Inr x, t))"

lemma returnS_apply [simp]: "returnS x s = (Inr x, s)" by (simp add: returnS_def)

lemma throwS_apply [simp]: "throwS e s = (Inl e, s)" by (simp add: throwS_def)

lemma liftS_apply [simp]: "liftS r s = (r, s)" by (simp add: liftS_def)

lemma bindS_Inr: "m s = (Inr x, t) \<Longrightarrow> bindS m f s = f x t" by (simp add: bindS_def)

lemma bindS_Inl: "m s = (Inl e, t) \<Longrightarrow> bindS m f s = (Inl e, t)" by (simp add: bindS_def)

lemma bindS_Inr_iff: "bindS m f s = (Inr y, u) \<longleftrightarrow> (\<exists>x t. m s = (Inr x, t) \<and> f x t = (Inr y, u))"
  by (auto simp: bindS_def split: prod.splits sum.splits)

lemma bindS_lift_Inr [simp]: "bindS (liftS (Inr x)) f s = f x s" by (simp add: bindS_def)

lemma bindS_lift_Inl [simp]: "bindS (liftS (Inl e)) f s = (Inl e, s)" by (simp add: bindS_def)

lemma bindS_return [simp]: "bindS (returnS x) f s = f x s" by (simp add: bindS_def)

lemma bindS_throw [simp]: "bindS (throwS e) f s = (Inl e, s)" by (simp add: bindS_def)

lemma bindS_assoc: "bindS (bindS m f) g = bindS m (\<lambda>x. bindS (f x) g)"
  by (rule ext) (simp add: bindS_def split: prod.split sum.split)

lemma cleanupS_Inr: "m s = (Inr x, t) \<Longrightarrow> cleanupS m h s = (Inr x, t)" by (simp add: cleanupS_def)

end
