(* ===== verification/Chunks.thy ===== *)
theory Chunks
  imports Actions Bytes
begin

text \<open>
  \<open>packages/git/src/store/pack/chunks.ts\<close>: the pool of fixed-size chunks and the byte sequences kept in them, and
  \<open>FlatByteSource\<close> of \<open>store/pack/shared.ts\<close>. A chunk is an address of an explicit store of arrays, so that
  sharing between two sequences would show: the pool never hands out a chunk it has handed out before, and a write
  to one sequence leaves every other one as it was.
\<close>

section \<open>Definitions\<close>

definition PACK_CHUNK_BYTES :: nat where
  "PACK_CHUNK_BYTES = 64 * 1024"

definition safe_nonneg :: "int \<Rightarrow> bool" where
  "safe_nonneg n \<longleftrightarrow> 0 \<le> n \<and> n \<le> int max_safe_integer"

definition chunks_for :: "nat \<Rightarrow> nat" where
  "chunks_for n = (n + PACK_CHUNK_BYTES - 1) div PACK_CHUNK_BYTES"

definition chunkFootprint :: "int \<Rightarrow> nat result" where
  "chunkFootprint n =
     bindR (guardR (safe_nonneg n) (RangeError ''invalid chunked byte length'')) (\<lambda>_.
     let footprint = chunks_for (nat n) * PACK_CHUNK_BYTES in
     bindR (guardR (is_safe footprint) (RangeError ''chunked byte length is too large'')) (\<lambda>_.
     Inr footprint))"

subsection \<open>The pool\<close>

record ChunkPool =
  pool_free :: "nat list"
  pool_checkedOut :: "nat set"
  pool_allocatedBytes :: nat
  pool_maxAllocatedBytes :: nat

record chunk_memory =
  arrays :: "bytes list"
  pool :: ChunkPool

definition newChunkPool :: "int \<Rightarrow> ChunkPool result" where
  "newChunkPool limit =
     bindR (guardR (safe_nonneg limit) (RangeError ''invalid chunk pool allocation limit'')) (\<lambda>_.
     Inr \<lparr>pool_free = [], pool_checkedOut = {}, pool_allocatedBytes = 0, pool_maxAllocatedBytes = nat limit\<rparr>)"

definition checkedOutBytes :: "ChunkPool \<Rightarrow> nat" where
  "checkedOutBytes p = card (pool_checkedOut p) * PACK_CHUNK_BYTES"

definition preflight :: "int \<Rightarrow> ChunkPool \<Rightarrow> unit result" where
  "preflight count p =
     bindR (guardR (safe_nonneg count) (RangeError ''invalid chunk allocation count'')) (\<lambda>_.
     let needed = nat (max 0 (count - int (length (pool_free p)))) * PACK_CHUNK_BYTES in
     guardR (is_safe needed \<and> int needed \<le> int (pool_maxAllocatedBytes p) - int (pool_allocatedBytes p))
       (RangeError ''chunk pool allocation limit exceeded''))"

definition allocate_chunk :: "chunk_memory \<Rightarrow> nat \<times> chunk_memory" where
  "allocate_chunk m = (length (arrays m),
     m\<lparr>arrays := arrays m @ [replicate PACK_CHUNK_BYTES 0],
       pool := (pool m)\<lparr>pool_allocatedBytes := pool_allocatedBytes (pool m) + PACK_CHUNK_BYTES\<rparr>\<rparr>)"

definition pop_free :: "chunk_memory \<Rightarrow> nat \<times> chunk_memory" where
  "pop_free m = (last (pool_free (pool m)), m\<lparr>pool := (pool m)\<lparr>pool_free := butlast (pool_free (pool m))\<rparr>\<rparr>)"

definition pool_acquire :: "(chunk_memory, nat) action" where
  "pool_acquire m =
     bindS (liftS (preflight 1 (pool m))) (\<lambda>_ m.
     let (chunk, m1) = (if pool_free (pool m) = [] then allocate_chunk m else pop_free m) in
     if chunk \<in> pool_checkedOut (pool m1) then (Inl (JsError ''chunk pool returned an owned chunk''), m1)
     else (Inr chunk, m1\<lparr>pool := (pool m1)\<lparr>pool_checkedOut := insert chunk (pool_checkedOut (pool m1))\<rparr>\<rparr>)) m"

definition chunk_length :: "chunk_memory \<Rightarrow> nat \<Rightarrow> nat" where
  "chunk_length m chunk = (if chunk < length (arrays m) then length (arrays m ! chunk) else 0)"

definition pool_release :: "nat \<Rightarrow> (chunk_memory, unit) action" where
  "pool_release chunk m =
     (if chunk_length m chunk \<noteq> PACK_CHUNK_BYTES \<or> chunk \<notin> pool_checkedOut (pool m)
      then (Inl (JsError ''chunk is not owned by this pool''), m)
      else (Inr (), m\<lparr>pool := (pool m)\<lparr>pool_checkedOut := pool_checkedOut (pool m) - {chunk},
                                       pool_free := pool_free (pool m) @ [chunk]\<rparr>\<rparr>))"

definition assertIdle :: "ChunkPool \<Rightarrow> unit result" where
  "assertIdle p = guardR (card (pool_checkedOut p) = 0) (JsError ''chunk pool still has owned chunks'')"

definition pool_dispose :: "(chunk_memory, unit) action" where
  "pool_dispose m = bindS (liftS (assertIdle (pool m))) (\<lambda>_ m.
     (Inr (), m\<lparr>pool := (pool m)\<lparr>pool_free := [], pool_allocatedBytes := 0\<rparr>\<rparr>)) m"

subsection \<open>Chunked bytes\<close>

record ChunkedBytes =
  cb_length :: nat
  cb_chunks :: "nat list"
  cb_released :: bool

fun acquire_loop :: "nat \<Rightarrow> nat list \<Rightarrow> chunk_memory \<Rightarrow> error option \<times> nat list \<times> chunk_memory" where
  "acquire_loop 0 chunks m = (None, chunks, m)"
| "acquire_loop (Suc n) chunks m =
     (case pool_acquire m of
        (Inl e, m') \<Rightarrow> (Some e, chunks, m')
      | (Inr chunk, m') \<Rightarrow> acquire_loop n (chunks @ [chunk]) m')"

fun release_loop :: "nat list \<Rightarrow> (chunk_memory, unit) action" where
  "release_loop [] = returnS ()"
| "release_loop (chunk # chunks) = bindS (pool_release chunk) (\<lambda>_. release_loop chunks)"

definition cb_allocate :: "int \<Rightarrow> (chunk_memory, ChunkedBytes) action" where
  "cb_allocate n m =
     (if \<not> safe_nonneg n then (Inl (RangeError ''invalid chunked byte length''), m)
      else let count = chunks_for (nat n) in
        case preflight (int count) (pool m) of
          Inl e \<Rightarrow> (Inl e, m)
        | Inr _ \<Rightarrow>
            (case acquire_loop count [] m of
               (None, chunks, m') \<Rightarrow> (Inr \<lparr>cb_length = nat n, cb_chunks = chunks, cb_released = False\<rparr>, m')
             | (Some e, chunks, m') \<Rightarrow> bindS (release_loop chunks) (\<lambda>_. throwS e) m'))"

definition assertOwned :: "ChunkedBytes \<Rightarrow> unit result" where
  "assertOwned cb = guardR (\<not> cb_released cb) (JsError ''chunked bytes were released'')"

definition assertRange :: "int \<Rightarrow> int \<Rightarrow> ChunkedBytes \<Rightarrow> unit result" where
  "assertRange offset n cb =
     bindR (assertOwned cb) (\<lambda>_.
     guardR (safe_nonneg offset \<and> safe_nonneg n \<and> offset \<le> int (cb_length cb) - n)
       (RangeError ''chunked byte range is out of bounds''))"

definition cb_chunk :: "nat \<Rightarrow> ChunkedBytes \<Rightarrow> nat result" where
  "cb_chunk index cb =
     bindR (assertOwned cb) (\<lambda>_.
     if index < length (cb_chunks cb) then Inr (cb_chunks cb ! index)
     else Inl (RangeError ''chunk index is out of range''))"

text \<open>\<open>chunk.set(part, offset)\<close> on the array at an address.\<close>

definition poke :: "nat \<Rightarrow> nat \<Rightarrow> bytes \<Rightarrow> chunk_memory \<Rightarrow> chunk_memory" where
  "poke chunk offset part m = m\<lparr>arrays := (arrays m)[chunk := set_at (arrays m ! chunk) offset part]\<rparr>"

lemma PACK_CHUNK_pos [simp]: "0 < PACK_CHUNK_BYTES" by (simp add: PACK_CHUNK_BYTES_def)

lemma loop_progress: "a < n \<Longrightarrow> 0 < k \<Longrightarrow> n - (a + min (n - a) k) < n - (a :: nat)"
  by (auto simp: min_def)

function write_loop :: "ChunkedBytes \<Rightarrow> bytes \<Rightarrow> nat \<Rightarrow> nat \<Rightarrow> (chunk_memory, unit) action" where
  "write_loop cb bs sourceOffset targetOffset m =
     (if sourceOffset < length bs then
        (let inChunk = targetOffset mod PACK_CHUNK_BYTES;
             n = min (length bs - sourceOffset) (PACK_CHUNK_BYTES - inChunk)
         in case cb_chunk (targetOffset div PACK_CHUNK_BYTES) cb of
              Inl e \<Rightarrow> (Inl e, m)
            | Inr chunk \<Rightarrow> write_loop cb bs (sourceOffset + n) (targetOffset + n)
                (poke chunk inChunk (take n (drop sourceOffset bs)) m))
      else (Inr (), m))"
  by pat_completeness auto
termination
  by (relation "measure (\<lambda>(cb, bs, sourceOffset, t, m). length bs - sourceOffset)") (auto intro!: loop_progress)

declare write_loop.simps [simp del]

definition cb_write :: "int \<Rightarrow> bytes \<Rightarrow> ChunkedBytes \<Rightarrow> (chunk_memory, unit) action" where
  "cb_write offset bs cb m =
     bindS (liftS (assertRange offset (int (length bs)) cb)) (\<lambda>_. write_loop cb bs 0 (nat offset)) m"

function copy_loop :: "ChunkedBytes \<Rightarrow> ChunkedBytes \<Rightarrow> nat \<Rightarrow> nat \<Rightarrow> nat \<Rightarrow> nat \<Rightarrow> (chunk_memory, unit) action" where
  "copy_loop src target targetOffset sourceOffset n copied m =
     (if copied < n then
        (let sourceAt = sourceOffset + copied; targetAt = targetOffset + copied;
             sourceInChunk = sourceAt mod PACK_CHUNK_BYTES; targetInChunk = targetAt mod PACK_CHUNK_BYTES;
             copyLength = min (n - copied) (min (PACK_CHUNK_BYTES - sourceInChunk) (PACK_CHUNK_BYTES - targetInChunk))
         in case cb_chunk (sourceAt div PACK_CHUNK_BYTES) src of
              Inl e \<Rightarrow> (Inl e, m)
            | Inr chunk \<Rightarrow>
                (case cb_chunk (targetAt div PACK_CHUNK_BYTES) target of
                   Inl e \<Rightarrow> (Inl e, m)
                 | Inr targetChunk \<Rightarrow> copy_loop src target targetOffset sourceOffset n (copied + copyLength)
                     (poke targetChunk targetInChunk
                        (take copyLength (drop sourceInChunk (arrays m ! chunk))) m)))
      else (Inr (), m))"
  by pat_completeness auto
termination
  by (relation "measure (\<lambda>(src, target, t, s, n, copied, m). n - copied)") (auto intro!: loop_progress)

declare copy_loop.simps [simp del]

definition cb_copyTo :: "ChunkedBytes \<Rightarrow> int \<Rightarrow> int \<Rightarrow> int \<Rightarrow> ChunkedBytes \<Rightarrow> (chunk_memory, unit) action" where
  "cb_copyTo target targetOffset sourceOffset n src m =
     bindS (liftS (assertRange sourceOffset n src)) (\<lambda>_.
     bindS (liftS (assertRange targetOffset n target)) (\<lambda>_.
     copy_loop src target (nat targetOffset) (nat sourceOffset) (nat n) 0)) m"

definition cb_byteAt :: "int \<Rightarrow> ChunkedBytes \<Rightarrow> chunk_memory \<Rightarrow> byte result" where
  "cb_byteAt index cb m =
     bindR (assertRange index 1 cb) (\<lambda>_.
     bindR (cb_chunk (nat index div PACK_CHUNK_BYTES) cb) (\<lambda>chunk.
     Inr (arrays m ! chunk ! (nat index mod PACK_CHUNK_BYTES))))"

text \<open>The pieces the \<open>chunks()\<close> generator yields, read without a write between two of them.\<close>

fun pieces :: "chunk_memory \<Rightarrow> nat \<Rightarrow> nat \<Rightarrow> nat list \<Rightarrow> bytes list" where
  "pieces m len offset [] = []"
| "pieces m len offset (chunk # chunks) =
     (let n = min PACK_CHUNK_BYTES (len - offset)
      in take n (arrays m ! chunk) # pieces m len (offset + n) chunks)"

definition cb_pieces :: "ChunkedBytes \<Rightarrow> chunk_memory \<Rightarrow> bytes list result" where
  "cb_pieces cb m = bindR (assertOwned cb) (\<lambda>_. Inr (pieces m (cb_length cb) 0 (cb_chunks cb)))"

definition toUint8Array :: "ChunkedBytes \<Rightarrow> chunk_memory \<Rightarrow> bytes result" where
  "toUint8Array cb m = bindR (assertOwned cb) (\<lambda>_.
     Inr (concat_into (replicate (cb_length cb) 0) 0 (pieces m (cb_length cb) 0 (cb_chunks cb))))"

definition cb_release :: "ChunkedBytes \<Rightarrow> chunk_memory \<Rightarrow> unit result \<times> ChunkedBytes \<times> chunk_memory" where
  "cb_release cb m =
     (if cb_released cb then (Inl (JsError ''chunked bytes were already released''), cb, m)
      else case release_loop (cb_chunks cb) m of
        (Inl e, m') \<Rightarrow> (Inl e, cb\<lparr>cb_released := True\<rparr>, m')
      | (Inr _, m') \<Rightarrow> (Inr (), cb\<lparr>cb_released := True, cb_chunks := []\<rparr>, m'))"

definition cb_fromBytes :: "bytes \<Rightarrow> (chunk_memory, ChunkedBytes) action" where
  "cb_fromBytes bs =
     bindS (cb_allocate (int (length bs))) (\<lambda>result.
     cleanupS (bindS (cb_write 0 bs result) (\<lambda>_. returnS result))
       (\<lambda>m. case cb_release result m of (r, _, m') \<Rightarrow> (r, m')))"

subsection \<open>Byte sources\<close>

datatype ByteSource = Flat bytes | Chunked ChunkedBytes

definition source_length :: "ByteSource \<Rightarrow> nat" where
  "source_length src = (case src of Flat bs \<Rightarrow> length bs | Chunked cb \<Rightarrow> cb_length cb)"

definition flat_byteAt :: "int \<Rightarrow> bytes \<Rightarrow> byte result" where
  "flat_byteAt index bs =
     (if 0 \<le> index \<and> index < int (length bs) then Inr (bs ! nat index)
      else Inl (RangeError ''byte source index is out of range''))"

definition flat_copyTo :: "ChunkedBytes \<Rightarrow> int \<Rightarrow> int \<Rightarrow> int \<Rightarrow> bytes \<Rightarrow> (chunk_memory, unit) action" where
  "flat_copyTo target targetOffset sourceOffset n bs =
     (if safe_nonneg sourceOffset \<and> safe_nonneg n \<and> sourceOffset \<le> int (length bs) - n
      then cb_write targetOffset (take (nat n) (drop (nat sourceOffset) bs)) target
      else throwS (RangeError ''byte source range is out of bounds''))"

definition source_byteAt :: "int \<Rightarrow> ByteSource \<Rightarrow> chunk_memory \<Rightarrow> byte result" where
  "source_byteAt index src m = (case src of Flat bs \<Rightarrow> flat_byteAt index bs | Chunked cb \<Rightarrow> cb_byteAt index cb m)"

definition source_copyTo :: "ChunkedBytes \<Rightarrow> int \<Rightarrow> int \<Rightarrow> int \<Rightarrow> ByteSource \<Rightarrow> (chunk_memory, unit) action" where
  "source_copyTo target targetOffset sourceOffset n src =
     (case src of
        Flat bs \<Rightarrow> flat_copyTo target targetOffset sourceOffset n bs
      | Chunked cb \<Rightarrow> cb_copyTo target targetOffset sourceOffset n cb)"

definition source_pieces :: "ByteSource \<Rightarrow> chunk_memory \<Rightarrow> bytes list result" where
  "source_pieces src m = (case src of Flat bs \<Rightarrow> Inr [bs] | Chunked cb \<Rightarrow> cb_pieces cb m)"

section \<open>Addresses and bytes\<close>

definition memory_ok :: "chunk_memory \<Rightarrow> bool" where
  "memory_ok m \<longleftrightarrow> distinct (pool_free (pool m)) \<and> finite (pool_checkedOut (pool m))
     \<and> set (pool_free (pool m)) \<inter> pool_checkedOut (pool m) = {}
     \<and> (\<forall>i \<in> set (pool_free (pool m)) \<union> pool_checkedOut (pool m).
           i < length (arrays m) \<and> length (arrays m ! i) = PACK_CHUNK_BYTES)
     \<and> pool_allocatedBytes (pool m) = (length (pool_free (pool m)) + card (pool_checkedOut (pool m))) * PACK_CHUNK_BYTES
     \<and> pool_allocatedBytes (pool m) \<le> pool_maxAllocatedBytes (pool m)
     \<and> is_safe (pool_maxAllocatedBytes (pool m))"

definition cb_ok :: "chunk_memory \<Rightarrow> ChunkedBytes \<Rightarrow> bool" where
  "cb_ok m cb \<longleftrightarrow> \<not> cb_released cb \<and> is_safe (cb_length cb) \<and> length (cb_chunks cb) = chunks_for (cb_length cb)
     \<and> distinct (cb_chunks cb) \<and> set (cb_chunks cb) \<subseteq> pool_checkedOut (pool m)"

text \<open>The byte at an index, through the address of its chunk, and the whole sequence.\<close>

definition cell :: "chunk_memory \<Rightarrow> ChunkedBytes \<Rightarrow> nat \<Rightarrow> byte" where
  "cell m cb i = arrays m ! (cb_chunks cb ! (i div PACK_CHUNK_BYTES)) ! (i mod PACK_CHUNK_BYTES)"

definition contents :: "chunk_memory \<Rightarrow> ChunkedBytes \<Rightarrow> bytes" where
  "contents m cb = map (cell m cb) [0..<cb_length cb]"

definition apart :: "ChunkedBytes \<Rightarrow> ChunkedBytes \<Rightarrow> bool" where
  "apart a b \<longleftrightarrow> set (cb_chunks a) \<inter> set (cb_chunks b) = {}"

lemma length_contents [simp]: "length (contents m cb) = cb_length cb"
  by (simp add: contents_def)

lemma chunks_for_le_iff: "chunks_for n \<le> k \<longleftrightarrow> n \<le> k * PACK_CHUNK_BYTES"
proof -
  obtain c where c: "PACK_CHUNK_BYTES = Suc c" using PACK_CHUNK_pos gr0_implies_Suc by blast
  have "chunks_for n \<le> k \<longleftrightarrow> n + PACK_CHUNK_BYTES - 1 < Suc k * PACK_CHUNK_BYTES"
    unfolding chunks_for_def less_Suc_eq_le [symmetric] by (rule div_less_iff_less_mult) simp
  then show ?thesis by (simp add: c add.commute less_Suc_eq_le)
qed

lemma chunks_for_le: "chunks_for n \<le> n"
  using PACK_CHUNK_pos by (auto simp: chunks_for_le_iff Suc_le_eq)

lemma chunk_index: "i < n \<Longrightarrow> i div PACK_CHUNK_BYTES < chunks_for n"
proof (rule ccontr)
  assume i: "i < n" and "\<not> ?thesis"
  then have "n \<le> i div PACK_CHUNK_BYTES * PACK_CHUNK_BYTES" by (simp add: chunks_for_le_iff [symmetric])
  also have "\<dots> \<le> i" by simp
  finally show False using i by simp
qed

lemma chunk_index_ok: "cb_ok m cb \<Longrightarrow> i < cb_length cb \<Longrightarrow> i div PACK_CHUNK_BYTES < length (cb_chunks cb)"
  by (simp add: cb_ok_def chunk_index)

lemma cb_chunk_ok: "cb_ok m cb \<Longrightarrow> i < cb_length cb \<Longrightarrow>
    cb_chunk (i div PACK_CHUNK_BYTES) cb = Inr (cb_chunks cb ! (i div PACK_CHUNK_BYTES))"
  using chunk_index_ok [of m cb i] by (simp add: cb_chunk_def assertOwned_def cb_ok_def)

lemma owned_array:
  "memory_ok m \<Longrightarrow> cb_ok m cb \<Longrightarrow> j < length (cb_chunks cb) \<Longrightarrow>
     cb_chunks cb ! j < length (arrays m) \<and> length (arrays m ! (cb_chunks cb ! j)) = PACK_CHUNK_BYTES"
  unfolding memory_ok_def cb_ok_def by (meson UnI2 nth_mem subsetD)

lemma length_set_at [simp]: "offset + length part \<le> length out \<Longrightarrow> length (set_at out offset part) = length out"
  by (simp add: set_at_def)

lemma nth_set_at: "offset + length part \<le> length out \<Longrightarrow> k < length out \<Longrightarrow>
    set_at out offset part ! k = (if offset \<le> k \<and> k < offset + length part then part ! (k - offset) else out ! k)"
  by (auto simp: set_at_def nth_append)

lemma pool_poke [simp]: "pool (poke c off part m) = pool m" by (simp add: poke_def)

lemma length_arrays_poke [simp]: "length (arrays (poke c off part m)) = length (arrays m)" by (simp add: poke_def)

lemma arrays_poke_other: "d \<noteq> c \<Longrightarrow> arrays (poke c off part m) ! d = arrays m ! d" by (simp add: poke_def)

lemma arrays_poke_same:
  "c < length (arrays m) \<Longrightarrow> arrays (poke c off part m) ! c = set_at (arrays m ! c) off part" by (simp add: poke_def)

lemma memory_ok_poke:
  assumes "memory_ok m" "c \<in> pool_checkedOut (pool m)" "off + length part \<le> PACK_CHUNK_BYTES"
  shows "memory_ok (poke c off part m)"
proof -
  have "length (arrays (poke c off part m) ! i) = length (arrays m ! i)" for i
    using assms unfolding memory_ok_def by (cases "i = c") (auto simp: arrays_poke_other arrays_poke_same)
  then show ?thesis using assms(1) by (simp add: memory_ok_def)
qed

lemma cb_ok_pool: "cb_ok m cb \<Longrightarrow> pool m' = pool m \<Longrightarrow> cb_ok m' cb" by (simp add: cb_ok_def)

text \<open>Writing a piece into the chunk of an index changes exactly the cells it covers.\<close>

lemma cell_poke:
  assumes ok: "memory_ok m" "cb_ok m cb" and j: "j < length (cb_chunks cb)"
    and fits: "off + length part \<le> PACK_CHUNK_BYTES" and i: "i < cb_length cb"
  shows "cell (poke (cb_chunks cb ! j) off part m) cb i =
    (if j * PACK_CHUNK_BYTES + off \<le> i \<and> i < j * PACK_CHUNK_BYTES + off + length part
     then part ! (i - (j * PACK_CHUNK_BYTES + off)) else cell m cb i)"
proof (cases "i div PACK_CHUNK_BYTES = j")
  case True
  have split: "i = j * PACK_CHUNK_BYTES + i mod PACK_CHUNK_BYTES" using True by (metis div_mult_mod_eq)
  show ?thesis
    using owned_array [OF ok j] fits True
    by (subst (2 3 4) split) (simp add: cell_def arrays_poke_same nth_set_at)
next
  case False
  have k: "i div PACK_CHUNK_BYTES < length (cb_chunks cb)" by (rule chunk_index_ok [OF ok(2) i])
  have "cb_chunks cb ! (i div PACK_CHUNK_BYTES) \<noteq> cb_chunks cb ! j"
    using False k j ok(2) by (simp add: cb_ok_def nth_eq_iff_index_eq)
  moreover have "\<not> (j * PACK_CHUNK_BYTES + off \<le> i \<and> i < j * PACK_CHUNK_BYTES + off + length part)"
  proof
    assume "j * PACK_CHUNK_BYTES + off \<le> i \<and> i < j * PACK_CHUNK_BYTES + off + length part"
    then have "i div PACK_CHUNK_BYTES = j" using fits by (intro div_nat_eqI) (simp_all add: mult.commute)
    with False show False by simp
  qed
  ultimately show ?thesis by (simp only: cell_def arrays_poke_other if_False not_False_eq_True)
qed

lemma cell_poke_apart:
  assumes "c \<notin> set (cb_chunks cb)" "cb_ok m cb" "i < cb_length cb"
  shows "cell (poke c off part m) cb i = cell m cb i"
proof -
  have "cb_chunks cb ! (i div PACK_CHUNK_BYTES) \<noteq> c" using assms(1) nth_mem [OF chunk_index_ok [OF assms(2,3)]] by metis
  then show ?thesis by (simp add: cell_def arrays_poke_other)
qed

text \<open>What an operation on one sequence leaves alone: the pool and every array the sequence does not own.\<close>

definition frame :: "ChunkedBytes \<Rightarrow> chunk_memory \<Rightarrow> chunk_memory \<Rightarrow> bool" where
  "frame cb m m' \<longleftrightarrow> memory_ok m' \<and> pool m' = pool m \<and> length (arrays m') = length (arrays m)
     \<and> (\<forall>d. d \<notin> set (cb_chunks cb) \<longrightarrow> arrays m' ! d = arrays m ! d)"

definition spliced :: "ChunkedBytes \<Rightarrow> nat \<Rightarrow> bytes \<Rightarrow> chunk_memory \<Rightarrow> chunk_memory \<Rightarrow> bool" where
  "spliced cb off bs m m' \<longleftrightarrow> frame cb m m' \<and> contents m' cb = set_at (contents m cb) off bs"

lemma frame_cb_ok: "frame cb m m' \<Longrightarrow> cb_ok m d \<longleftrightarrow> cb_ok m' d"
  by (simp add: frame_def cb_ok_def)

lemma frame_apart:
  assumes "frame cb m m'" "cb_ok m d" "apart cb d"
  shows "contents m' d = contents m d"
proof -
  have "cell m' d i = cell m d i" if "i < cb_length d" for i
  proof -
    have "d_chunk \<notin> set (cb_chunks cb)" if "d_chunk \<in> set (cb_chunks d)" for d_chunk
      using that assms(3) by (auto simp: apart_def)
    then have "cb_chunks d ! (i div PACK_CHUNK_BYTES) \<notin> set (cb_chunks cb)"
      using nth_mem [OF chunk_index_ok [OF assms(2) that]] by blast
    then show ?thesis using assms(1) by (simp add: frame_def cell_def)
  qed
  then show ?thesis by (simp add: contents_def)
qed

lemma set_at_compose:
  "off + length a + length b \<le> length v \<Longrightarrow> set_at (set_at v off a) (off + length a) b = set_at v off (a @ b)"
  by (simp add: set_at_def drop_append ac_simps)

lemma set_at_empty [simp]: "set_at v off [] = v" by (simp add: set_at_def)

lemma spliced_trans:
  assumes "spliced cb off a m m1" "spliced cb (off + length a) b m1 m2"
    and "off + length a + length b \<le> cb_length cb"
  shows "spliced cb off (a @ b) m m2"
  using assms set_at_compose [of off a b "contents m cb"] by (auto simp: spliced_def frame_def)

lemma spliced_refl: "memory_ok m \<Longrightarrow> spliced cb off [] m m" by (simp add: spliced_def frame_def)

lemma spliced_poke:
  assumes ok: "memory_ok m" "cb_ok m cb" and part: "part \<noteq> []" "t + length part \<le> cb_length cb"
    and fits: "t mod PACK_CHUNK_BYTES + length part \<le> PACK_CHUNK_BYTES"
  shows "spliced cb t part m (poke (cb_chunks cb ! (t div PACK_CHUNK_BYTES)) (t mod PACK_CHUNK_BYTES) part m)"
    (is "spliced cb t part m ?m'")
proof -
  have "t < cb_length cb" using part by (cases part) auto
  then have j: "t div PACK_CHUNK_BYTES < length (cb_chunks cb)" by (rule chunk_index_ok [OF ok(2)])
  then have owned: "cb_chunks cb ! (t div PACK_CHUNK_BYTES) \<in> set (cb_chunks cb)" by simp
  have "frame cb m ?m'"
    unfolding frame_def
  proof (intro conjI allI impI)
    show "memory_ok ?m'" using memory_ok_poke [OF ok(1) _ fits] ok(2) owned by (auto simp: cb_ok_def)
    fix d assume "d \<notin> set (cb_chunks cb)"
    with owned show "arrays ?m' ! d = arrays m ! d" by (intro arrays_poke_other) metis
  qed simp_all
  moreover have "contents ?m' cb = set_at (contents m cb) t part"
  proof (rule nth_equalityI)
    show "length (contents ?m' cb) = length (set_at (contents m cb) t part)" using part by simp
    fix i assume "i < length (contents ?m' cb)"
    then have i: "i < cb_length cb" by simp
    have "t div PACK_CHUNK_BYTES * PACK_CHUNK_BYTES + t mod PACK_CHUNK_BYTES = t" by simp
    then show "contents ?m' cb ! i = set_at (contents m cb) t part ! i"
      using i part(2) by (simp add: contents_def nth_set_at cell_poke [OF ok j fits i])
  qed
  ultimately show ?thesis by (simp add: spliced_def)
qed

section \<open>Writing and copying\<close>

lemma chunk_room: "n \<le> PACK_CHUNK_BYTES - t mod PACK_CHUNK_BYTES \<Longrightarrow> t mod PACK_CHUNK_BYTES + n \<le> PACK_CHUNK_BYTES"
  using mod_less_divisor [OF PACK_CHUNK_pos, of t] by linarith

lemma write_loop_spliced:
  assumes "memory_ok m" "cb_ok m cb" "s \<le> length bs" "t + (length bs - s) \<le> cb_length cb"
  shows "\<exists>m'. write_loop cb bs s t m = (Inr (), m') \<and> spliced cb t (drop s bs) m m'"
  using assms
proof (induction cb bs s t m rule: write_loop.induct)
  case (1 cb bs s t m)
  show ?case
  proof (cases "s < length bs")
    case True
    define n where "n = min (length bs - s) (PACK_CHUNK_BYTES - t mod PACK_CHUNK_BYTES)"
    define part where "part = take n (drop s bs)"
    define m1 where "m1 = poke (cb_chunks cb ! (t div PACK_CHUNK_BYTES)) (t mod PACK_CHUNK_BYTES) part m"
    have n: "0 < n" "n \<le> length bs - s" "t mod PACK_CHUNK_BYTES + n \<le> PACK_CHUNK_BYTES"
      unfolding n_def using True by (auto intro!: chunk_room)
    then have len: "length part = n" by (simp add: part_def)
    have chunk: "cb_chunk (t div PACK_CHUNK_BYTES) cb = Inr (cb_chunks cb ! (t div PACK_CHUNK_BYTES))"
      using "1.prems"(2,4) True by (intro cb_chunk_ok [of m]) auto
    have first: "spliced cb t part m m1"
      unfolding m1_def using n len "1.prems" by (intro spliced_poke) auto
    then have ok: "memory_ok m1" "cb_ok m1 cb"
      using "1.prems"(2) frame_cb_ok [of cb m m1 cb] by (auto simp: spliced_def frame_def)
    have "\<exists>m'. write_loop cb bs (s + n) (t + n) m1 = (Inr (), m') \<and> spliced cb (t + n) (drop (s + n) bs) m1 m'"
      using "1.IH" [OF True refl n_def chunk, folded part_def, folded m1_def, OF ok] n(2) "1.prems"(3,4) by simp
    then obtain m' where m': "write_loop cb bs (s + n) (t + n) m1 = (Inr (), m')"
      "spliced cb (t + length part) (drop (s + n) bs) m1 m'" using len by blast
    have whole: "part @ drop (s + n) bs = drop s bs"
      using append_take_drop_id [of n "drop s bs"] by (simp add: part_def add.commute)
    have "spliced cb t (part @ drop (s + n) bs) m m'"
      using n(2) len "1.prems"(3,4) by (intro spliced_trans [OF first m'(2)]) simp
    then show ?thesis using m'(1) True chunk unfolding whole
      by (subst write_loop.simps) (simp add: Let_def flip: n_def part_def m1_def)
  next
    case False
    then show ?thesis using "1.prems" by (subst write_loop.simps) (simp add: spliced_refl)
  qed
qed

lemma assertRange_ok:
  "cb_ok m cb \<Longrightarrow> off + n \<le> cb_length cb \<Longrightarrow> assertRange (int off) (int n) cb = Inr ()"
  by (auto simp: assertRange_def assertOwned_def cb_ok_def safe_nonneg_def is_safe_def)

lemma cb_write_ok:
  assumes "memory_ok m" "cb_ok m cb" "off + length bs \<le> cb_length cb"
  shows "\<exists>m'. cb_write (int off) bs cb m = (Inr (), m') \<and> spliced cb off bs m m'"
  using write_loop_spliced [of m cb 0 bs off] assms assertRange_ok [OF assms(2,3)]
  by (simp add: cb_write_def)

text \<open>A run of cells inside one chunk is a run of its array.\<close>

lemma contents_run:
  assumes ok: "memory_ok m" "cb_ok m cb" and n: "at + n \<le> cb_length cb" "at mod PACK_CHUNK_BYTES + n \<le> PACK_CHUNK_BYTES" "0 < n"
  shows "take n (drop (at mod PACK_CHUNK_BYTES) (arrays m ! (cb_chunks cb ! (at div PACK_CHUNK_BYTES))))
       = take n (drop at (contents m cb))"
proof (rule nth_equalityI)
  have len: "length (arrays m ! (cb_chunks cb ! (at div PACK_CHUNK_BYTES))) = PACK_CHUNK_BYTES"
    using owned_array [OF ok chunk_index_ok [OF ok(2), of at]] n by simp
  then show "length (take n (drop (at mod PACK_CHUNK_BYTES) (arrays m ! (cb_chunks cb ! (at div PACK_CHUNK_BYTES)))))
      = length (take n (drop at (contents m cb)))" using n by simp
  fix i assume "i < length (take n (drop (at mod PACK_CHUNK_BYTES) (arrays m ! (cb_chunks cb ! (at div PACK_CHUNK_BYTES)))))"
  then have i: "i < n" by simp
  then have small: "at mod PACK_CHUNK_BYTES + i < PACK_CHUNK_BYTES" using n by simp
  have "at + i = at div PACK_CHUNK_BYTES * PACK_CHUNK_BYTES + (at mod PACK_CHUNK_BYTES + i)" by simp
  then have "(at + i) div PACK_CHUNK_BYTES = at div PACK_CHUNK_BYTES" "(at + i) mod PACK_CHUNK_BYTES = at mod PACK_CHUNK_BYTES + i"
    using small by (metis PACK_CHUNK_pos add.commute add_cancel_left_left div_less div_mult_self1 less_not_refl3,
                    metis small mod_less mod_mult_self3)
  then show "take n (drop (at mod PACK_CHUNK_BYTES) (arrays m ! (cb_chunks cb ! (at div PACK_CHUNK_BYTES)))) ! i
      = take n (drop at (contents m cb)) ! i"
    using i n len small by (simp add: contents_def cell_def)
qed

lemma copy_loop_spliced:
  assumes "memory_ok m" "cb_ok m src" "cb_ok m target" "apart target src" "c \<le> n"
    "so + n \<le> cb_length src" "to + n \<le> cb_length target"
  shows "\<exists>m'. copy_loop src target to so n c m = (Inr (), m')
     \<and> spliced target (to + c) (take (n - c) (drop (so + c) (contents m src))) m m'"
  using assms
proof (induction src target to so n c m rule: copy_loop.induct)
  case (1 src target to so n c m)
  show ?case
  proof (cases "c < n")
    case True
    define k where "k = min (n - c) (min (PACK_CHUNK_BYTES - (so + c) mod PACK_CHUNK_BYTES)
                                         (PACK_CHUNK_BYTES - (to + c) mod PACK_CHUNK_BYTES))"
    have k: "0 < k" "k \<le> n - c" "(so + c) mod PACK_CHUNK_BYTES + k \<le> PACK_CHUNK_BYTES"
        "(to + c) mod PACK_CHUNK_BYTES + k \<le> PACK_CHUNK_BYTES"
      unfolding k_def using True by (auto intro!: chunk_room)
    define part where "part = take k (drop ((so + c) mod PACK_CHUNK_BYTES)
                                        (arrays m ! (cb_chunks src ! ((so + c) div PACK_CHUNK_BYTES))))"
    have part: "part = take k (drop (so + c) (contents m src))"
      unfolding part_def using "1.prems" k True by (intro contents_run) auto
    then have len: "length part = k" using k "1.prems" by simp
    define m1 where "m1 = poke (cb_chunks target ! ((to + c) div PACK_CHUNK_BYTES)) ((to + c) mod PACK_CHUNK_BYTES) part m"
    have chunk: "cb_chunk ((so + c) div PACK_CHUNK_BYTES) src = Inr (cb_chunks src ! ((so + c) div PACK_CHUNK_BYTES))"
        "cb_chunk ((to + c) div PACK_CHUNK_BYTES) target = Inr (cb_chunks target ! ((to + c) div PACK_CHUNK_BYTES))"
      using "1.prems" True by (auto intro!: cb_chunk_ok [of m])
    have first: "spliced target (to + c) part m m1"
      unfolding m1_def using k len "1.prems" by (intro spliced_poke) auto
    then have fr: "frame target m m1" by (simp add: spliced_def)
    have ok: "memory_ok m1" "cb_ok m1 src" "cb_ok m1 target" using fr "1.prems" frame_cb_ok [OF fr] by (auto simp: frame_def)
    have same: "contents m1 src = contents m src" using fr "1.prems" by (intro frame_apart)
    have "\<exists>m'. copy_loop src target to so n (c + k) m1 = (Inr (), m')
        \<and> spliced target (to + (c + k)) (take (n - (c + k)) (drop (so + (c + k)) (contents m src))) m1 m'"
      using "1.IH" [OF True refl refl refl refl k_def chunk, folded part_def, folded m1_def, OF ok] k(2) "1.prems"(4-7) same by simp
    then obtain m' where m': "copy_loop src target to so n (c + k) m1 = (Inr (), m')"
      "spliced target (to + c + length part) (take (n - (c + k)) (drop (so + (c + k)) (contents m src))) m1 m'"
      using len by (auto simp: add.assoc)
    have whole: "part @ take (n - (c + k)) (drop (so + (c + k)) (contents m src)) = take (n - c) (drop (so + c) (contents m src))"
    proof -
      have "n - c = k + (n - (c + k))" using k(2) by simp
      then show ?thesis by (simp only: take_add part drop_drop) (simp add: ac_simps)
    qed
    have "spliced target (to + c) (take (n - c) (drop (so + c) (contents m src))) m m'"
      unfolding whole [symmetric] using k(2) len "1.prems" by (intro spliced_trans [OF first m'(2)]) simp
    then show ?thesis using m'(1) True chunk
      by (subst copy_loop.simps) (simp add: Let_def flip: k_def part_def m1_def)
  next
    case False
    then show ?thesis using "1.prems" by (subst copy_loop.simps) (simp add: spliced_refl)
  qed
qed

lemma cb_copyTo_ok:
  assumes "memory_ok m" "cb_ok m src" "cb_ok m target" "apart target src"
    "so + n \<le> cb_length src" "to + n \<le> cb_length target"
  shows "\<exists>m'. cb_copyTo target (int to) (int so) (int n) src m = (Inr (), m')
     \<and> spliced target to (take n (drop so (contents m src))) m m'"
  using copy_loop_spliced [of m src target 0 n so to] assms assertRange_ok [OF assms(2,5)] assertRange_ok [OF assms(3,6)]
  by (simp add: cb_copyTo_def)

section \<open>Reading\<close>

lemma cb_byteAt_ok:
  assumes "cb_ok m cb" "i < cb_length cb"
  shows "cb_byteAt (int i) cb m = Inr (contents m cb ! i)"
  using assertRange_ok [OF assms(1), of i 1] assms cb_chunk_ok [OF assms]
  by (simp add: cb_byteAt_def contents_def cell_def)

lemma concat_pieces:
  assumes "memory_ok m" "cb_ok m cb" "cb_chunks cb = done @ rest" "off = min (cb_length cb) (length done * PACK_CHUNK_BYTES)"
  shows "concat (pieces m (cb_length cb) off rest) = drop off (contents m cb)"
  using assms(3,4)
proof (induction rest arbitrary: "done" off)
  case Nil
  have "cb_length cb \<le> chunks_for (cb_length cb) * PACK_CHUNK_BYTES" by (simp flip: chunks_for_le_iff)
  then have "off = cb_length cb" using Nil assms(2) by (simp add: cb_ok_def)
  then show ?case by simp
next
  case (Cons c rest)
  let ?n = "min PACK_CHUNK_BYTES (cb_length cb - off)"
  have len: "length (cb_chunks cb) = chunks_for (cb_length cb)" using assms(2) by (simp add: cb_ok_def)
  have at: "length done * PACK_CHUNK_BYTES < cb_length cb"
  proof (rule ccontr)
    assume "\<not> ?thesis"
    then have "chunks_for (cb_length cb) \<le> length done" by (simp add: chunks_for_le_iff)
    then show False using len Cons.prems(1) by simp
  qed
  then have off: "off = length done * PACK_CHUNK_BYTES" using Cons.prems(2) by simp
  have idx: "off div PACK_CHUNK_BYTES = length done" "off mod PACK_CHUNK_BYTES = 0" by (simp_all add: off)
  have "take ?n (arrays m ! c) = take ?n (drop off (contents m cb))"
    using contents_run [OF assms(1,2), of off ?n] at Cons.prems(1) off by (simp add: idx nth_append)
  moreover have "concat (pieces m (cb_length cb) (off + ?n) rest) = drop (off + ?n) (contents m cb)"
    using Cons.prems at off by (intro Cons.IH [of "done @ [c]"]) auto
  ultimately show ?case
    using append_take_drop_id [of ?n "drop off (contents m cb)"] by (simp add: Let_def add.commute)
qed

lemma cb_pieces_ok:
  assumes "memory_ok m" "cb_ok m cb"
  shows "\<exists>ps. cb_pieces cb m = Inr ps \<and> concat ps = contents m cb"
  using concat_pieces [OF assms, of "[]" "cb_chunks cb" 0] assms(2)
  by (simp add: cb_pieces_def assertOwned_def cb_ok_def)

lemma toUint8Array_ok:
  assumes "memory_ok m" "cb_ok m cb"
  shows "toUint8Array cb m = Inr (contents m cb)"
proof -
  have *: "concat (pieces m (cb_length cb) 0 (cb_chunks cb)) = contents m cb"
    using concat_pieces [OF assms, of "[]" "cb_chunks cb" 0] by simp
  have "concat_into (replicate (length (concat ps)) 0) 0 ps = concat ps" for ps
    using concat_into_eq [of "[]" ps] by (simp add: length_concat)
  from this [of "pieces m (cb_length cb) 0 (cb_chunks cb)"] * show ?thesis
    using assms(2) by (simp add: toUint8Array_def assertOwned_def cb_ok_def)
qed

section \<open>Owning chunks\<close>

text \<open>How many chunks the pool can still hand out.\<close>

definition room :: "chunk_memory \<Rightarrow> nat" where
  "room m = length (pool_free (pool m)) + (pool_maxAllocatedBytes (pool m) - pool_allocatedBytes (pool m)) div PACK_CHUNK_BYTES"

lemma preflight_iff:
  assumes "memory_ok m" "is_safe k"
  shows "preflight (int k) (pool m) =
    (if k \<le> room m then Inr () else Inl (RangeError ''chunk pool allocation limit exceeded''))"
proof -
  let ?f = "length (pool_free (pool m))" and ?left = "pool_maxAllocatedBytes (pool m) - pool_allocatedBytes (pool m)"
  have needed: "nat (max 0 (int k - int ?f)) = k - ?f" by simp
  have roomy: "k \<le> room m \<longleftrightarrow> (k - ?f) * PACK_CHUNK_BYTES \<le> ?left"
    unfolding room_def by (simp add: less_eq_div_iff_mult_less_eq [symmetric] le_diff_conv add.commute)
  have left: "?left \<le> max_safe_integer" using assms(1) unfolding memory_ok_def is_safe_def by linarith
  have int_left: "int x \<le> int (pool_maxAllocatedBytes (pool m)) - int (pool_allocatedBytes (pool m)) \<longleftrightarrow> x \<le> ?left" for x
    using assms(1) unfolding memory_ok_def by linarith
  have "safe_nonneg (int k)" using assms(2) by (simp add: safe_nonneg_def is_safe_def)
  moreover have "(is_safe ((k - ?f) * PACK_CHUNK_BYTES) \<and> (k - ?f) * PACK_CHUNK_BYTES \<le> ?left) = (k \<le> room m)"
    unfolding roomy is_safe_def using left by (meson order_trans)
  ultimately show ?thesis unfolding preflight_def needed Let_def int_left by (simp only: guardR_def bindR_simps if_True)
qed

definition grown :: "nat list \<Rightarrow> chunk_memory \<Rightarrow> chunk_memory \<Rightarrow> bool" where
  "grown cs m m' \<longleftrightarrow> memory_ok m' \<and> distinct cs \<and> set cs \<inter> pool_checkedOut (pool m) = {}
     \<and> pool_checkedOut (pool m') = pool_checkedOut (pool m) \<union> set cs \<and> room m' + length cs = room m
     \<and> pool_maxAllocatedBytes (pool m') = pool_maxAllocatedBytes (pool m)
     \<and> (\<forall>d \<in> pool_checkedOut (pool m). arrays m' ! d = arrays m ! d)"

lemma grown_trans:
  assumes "grown cs m m1" "grown ds m1 m2"
  shows "grown (cs @ ds) m m2"
  using assms unfolding grown_def by auto

lemma pool_acquire_ok:
  assumes ok: "memory_ok m" and room: "0 < room m"
  shows "\<exists>c m'. pool_acquire m = (Inr c, m') \<and> grown [c] m m'"
proof (cases "pool_free (pool m) = []")
  case True
  let ?m' = "m\<lparr>arrays := arrays m @ [replicate PACK_CHUNK_BYTES 0],
       pool := (pool m)\<lparr>pool_allocatedBytes := pool_allocatedBytes (pool m) + PACK_CHUNK_BYTES,
                        pool_checkedOut := insert (length (arrays m)) (pool_checkedOut (pool m))\<rparr>\<rparr>"
  have fresh: "length (arrays m) \<notin> pool_checkedOut (pool m)" using ok by (auto simp: memory_ok_def)
  let ?left = "pool_maxAllocatedBytes (pool m) - pool_allocatedBytes (pool m)"
  have left: "0 < ?left div PACK_CHUNK_BYTES" using room True by (simp add: room_def)
  then have fits: "PACK_CHUNK_BYTES \<le> ?left" by (simp add: div_greater_zero_iff)
  have "pool_maxAllocatedBytes (pool m) - (pool_allocatedBytes (pool m) + PACK_CHUNK_BYTES) = ?left - PACK_CHUNK_BYTES" by simp
  then have "room ?m' + 1 = room m" using True fits le_div_geq [OF PACK_CHUNK_pos fits] by (simp add: room_def)
  moreover have "memory_ok ?m'" using ok True fits fresh unfolding memory_ok_def by (auto simp: nth_append)
  moreover have "pool_acquire m = (Inr (length (arrays m)), ?m')"
    using preflight_iff [OF ok, of 1] room True fresh
    by (simp add: pool_acquire_def allocate_chunk_def is_safe_def max_safe_integer_def)
  ultimately show ?thesis using ok fresh by (auto simp: grown_def memory_ok_def nth_append)
next
  case False
  then obtain rest c where split: "pool_free (pool m) = rest @ [c]" by (cases "pool_free (pool m)" rule: rev_cases) auto
  let ?m' = "m\<lparr>pool := (pool m)\<lparr>pool_free := rest, pool_checkedOut := insert c (pool_checkedOut (pool m))\<rparr>\<rparr>"
  have fresh: "c \<notin> pool_checkedOut (pool m)" using ok by (auto simp: memory_ok_def split)
  have "room ?m' + 1 = room m" by (simp add: room_def split)
  moreover have "memory_ok ?m'" using ok fresh by (simp add: memory_ok_def split)
  moreover have "pool_acquire m = (Inr c, ?m')"
    using preflight_iff [OF ok, of 1] room fresh
    by (simp add: pool_acquire_def pop_free_def is_safe_def max_safe_integer_def split)
  ultimately show ?thesis using fresh by (auto simp: grown_def)
qed

lemma acquire_loop_ok:
  assumes "memory_ok m" "n \<le> room m"
  shows "\<exists>cs m'. acquire_loop n chunks m = (None, chunks @ cs, m') \<and> length cs = n \<and> grown cs m m'"
  using assms
proof (induction n arbitrary: chunks m)
  case 0
  then show ?case by (auto simp: grown_def)
next
  case (Suc n)
  then obtain c m1 where c: "pool_acquire m = (Inr c, m1)" "grown [c] m m1" using pool_acquire_ok [of m] by auto
  then obtain cs m' where cs: "acquire_loop n (chunks @ [c]) m1 = (None, (chunks @ [c]) @ cs, m')" "length cs = n" "grown cs m1 m'"
    using Suc.IH [of m1 "chunks @ [c]"] Suc.prems by (auto simp: grown_def)
  then show ?case using c grown_trans [OF c(2) cs(3)] by (intro exI [of _ "c # cs"] exI [of _ m']) simp
qed

lemma cb_allocate_ok:
  assumes ok: "memory_ok m" and n: "is_safe n" "chunks_for n \<le> room m"
  shows "\<exists>cb m'. cb_allocate (int n) m = (Inr cb, m') \<and> cb_length cb = n \<and> cb_ok m' cb \<and> grown (cb_chunks cb) m m'"
proof -
  have "is_safe (chunks_for n)" using n(1) chunks_for_le by (rule is_safe_mono)
  then have "preflight (int (chunks_for n)) (pool m) = Inr ()" using preflight_iff [OF ok] n(2) by simp
  moreover obtain cs m' where cs: "acquire_loop (chunks_for n) [] m = (None, cs, m')" "length cs = chunks_for n" "grown cs m m'"
    using acquire_loop_ok [OF ok n(2), of "[]"] by auto
  ultimately show ?thesis using n(1)
    by (auto simp: cb_allocate_def safe_nonneg_def is_safe_def cb_ok_def grown_def Let_def)
qed

lemma cb_allocate_refused:
  assumes ok: "memory_ok m" and n: "is_safe n" "room m < chunks_for n"
  shows "cb_allocate (int n) m = (Inl (RangeError ''chunk pool allocation limit exceeded''), m)"
proof -
  have "is_safe (chunks_for n)" using n(1) chunks_for_le by (rule is_safe_mono)
  then show ?thesis using preflight_iff [OF ok, of "chunks_for n"] n
    by (simp add: cb_allocate_def safe_nonneg_def is_safe_def Let_def)
qed

lemma pool_release_ok:
  assumes ok: "memory_ok m" and c: "c \<in> pool_checkedOut (pool m)"
  shows "\<exists>m'. pool_release c m = (Inr (), m') \<and> memory_ok m' \<and> arrays m' = arrays m
     \<and> pool_checkedOut (pool m') = pool_checkedOut (pool m) - {c} \<and> room m' = Suc (room m)
     \<and> pool_maxAllocatedBytes (pool m') = pool_maxAllocatedBytes (pool m)"
proof -
  let ?m' = "m\<lparr>pool := (pool m)\<lparr>pool_checkedOut := pool_checkedOut (pool m) - {c}, pool_free := pool_free (pool m) @ [c]\<rparr>\<rparr>"
  have "card (pool_checkedOut (pool m)) = Suc (card (pool_checkedOut (pool m) - {c}))"
    using ok c by (intro card.remove) (simp_all add: memory_ok_def)
  then have "memory_ok ?m'" using ok c unfolding memory_ok_def by auto
  moreover have "chunk_length m c = PACK_CHUNK_BYTES" using ok c by (auto simp: memory_ok_def chunk_length_def)
  ultimately show ?thesis using c by (simp add: pool_release_def room_def)
qed

lemma release_loop_ok:
  assumes "memory_ok m" "distinct cs" "set cs \<subseteq> pool_checkedOut (pool m)"
  shows "\<exists>m'. release_loop cs m = (Inr (), m') \<and> memory_ok m' \<and> arrays m' = arrays m
     \<and> pool_checkedOut (pool m') = pool_checkedOut (pool m) - set cs \<and> room m' = room m + length cs
     \<and> pool_maxAllocatedBytes (pool m') = pool_maxAllocatedBytes (pool m)"
  using assms
proof (induction cs arbitrary: m)
  case (Cons c cs)
  then obtain m1 where m1: "pool_release c m = (Inr (), m1)" "memory_ok m1" "arrays m1 = arrays m"
      "pool_checkedOut (pool m1) = pool_checkedOut (pool m) - {c}" "room m1 = Suc (room m)"
      "pool_maxAllocatedBytes (pool m1) = pool_maxAllocatedBytes (pool m)"
    using pool_release_ok [of m c] by auto
  moreover have "set cs \<subseteq> pool_checkedOut (pool m) - {c}" "S - insert c (set cs) = S - {c} - set cs" for S
    using Cons.prems by auto
  ultimately show ?case using Cons.IH [of m1] Cons.prems(2) by (simp add: bindS_Inr)
qed simp

lemma cb_release_ok:
  assumes "memory_ok m" "cb_ok m cb"
  shows "\<exists>m'. cb_release cb m = (Inr (), cb\<lparr>cb_released := True, cb_chunks := []\<rparr>, m') \<and> memory_ok m' \<and> arrays m' = arrays m
     \<and> pool_checkedOut (pool m') = pool_checkedOut (pool m) - set (cb_chunks cb) \<and> room m' = room m + length (cb_chunks cb)
     \<and> pool_maxAllocatedBytes (pool m') = pool_maxAllocatedBytes (pool m)"
  using release_loop_ok [OF assms(1), of "cb_chunks cb"] assms(2) by (auto simp: cb_release_def cb_ok_def)

lemma grown_contents:
  assumes "grown cs m m'" "cb_ok m cb"
  shows "cb_ok m' cb \<and> contents m' cb = contents m cb"
proof -
  have "cell m' cb i = cell m cb i" if "i < cb_length cb" for i
  proof -
    have "cb_chunks cb ! (i div PACK_CHUNK_BYTES) \<in> pool_checkedOut (pool m)"
      using assms(2) nth_mem [OF chunk_index_ok [OF assms(2) that]] unfolding cb_ok_def by blast
    then show ?thesis using assms(1) by (simp add: grown_def cell_def)
  qed
  then show ?thesis using assms by (auto simp: contents_def grown_def cb_ok_def)
qed

section \<open>The contract of a byte source\<close>

text \<open>
  What a client of the \<open>ByteSource\<close> interface relies on: a source has bytes, they do not change when some other
  sequence is written, and \<open>copyTo\<close> splices a range of them into its target.
\<close>

locale byte_source =
  fixes len :: "'s \<Rightarrow> nat"
    and bytes_of :: "chunk_memory \<Rightarrow> 's \<Rightarrow> bytes"
    and valid :: "chunk_memory \<Rightarrow> 's \<Rightarrow> bool"
    and separate :: "ChunkedBytes \<Rightarrow> 's \<Rightarrow> bool"
    and byteAt :: "int \<Rightarrow> 's \<Rightarrow> chunk_memory \<Rightarrow> byte result"
    and copyTo :: "ChunkedBytes \<Rightarrow> int \<Rightarrow> int \<Rightarrow> int \<Rightarrow> 's \<Rightarrow> (chunk_memory, unit) action"
    and all_pieces :: "'s \<Rightarrow> chunk_memory \<Rightarrow> bytes list result"
  assumes bytes_length: "valid m s \<Longrightarrow> length (bytes_of m s) = len s"
    and byteAt_nth: "valid m s \<Longrightarrow> i < len s \<Longrightarrow> byteAt (int i) s m = Inr (bytes_of m s ! i)"
    and copyTo_splices: "memory_ok m \<Longrightarrow> valid m s \<Longrightarrow> cb_ok m target \<Longrightarrow> separate target s \<Longrightarrow> so + n \<le> len s \<Longrightarrow>
      to + n \<le> cb_length target \<Longrightarrow>
      \<exists>m'. copyTo target (int to) (int so) (int n) s m = (Inr (), m') \<and> spliced target to (take n (drop so (bytes_of m s))) m m'"
    and frame_keeps: "frame target m m' \<Longrightarrow> valid m s \<Longrightarrow> separate target s \<Longrightarrow> valid m' s \<and> bytes_of m' s = bytes_of m s"
    and pieces_concat: "memory_ok m \<Longrightarrow> valid m s \<Longrightarrow> \<exists>ps. all_pieces s m = Inr ps \<and> concat ps = bytes_of m s"
begin

text \<open>Copying two ranges one after the other writes their concatenation.\<close>

lemma copy_twice:
  assumes "memory_ok m" "valid m s" "cb_ok m target" "separate target s"
    "so1 + n1 \<le> len s" "so2 + n2 \<le> len s" "to + n1 + n2 \<le> cb_length target"
  shows "\<exists>m'. bindS (copyTo target (int to) (int so1) (int n1) s)
      (\<lambda>_. copyTo target (int (to + n1)) (int so2) (int n2) s) m = (Inr (), m')
    \<and> spliced target to (take n1 (drop so1 (bytes_of m s)) @ take n2 (drop so2 (bytes_of m s))) m m'"
proof -
  obtain m1 where m1: "copyTo target (int to) (int so1) (int n1) s m = (Inr (), m1)"
      "spliced target to (take n1 (drop so1 (bytes_of m s))) m m1"
    using copyTo_splices [OF assms(1-5), of to] assms(7) by auto
  then have fr: "frame target m m1" by (simp add: spliced_def)
  have keep: "valid m1 s" "bytes_of m1 s = bytes_of m s" "memory_ok m1" "cb_ok m1 target"
    using frame_keeps [OF fr assms(2,4)] frame_cb_ok [OF fr] fr assms(3) by (auto simp: frame_def)
  obtain m2 where m2: "copyTo target (int (to + n1)) (int so2) (int n2) s m1 = (Inr (), m2)"
      "spliced target (to + n1) (take n2 (drop so2 (bytes_of m s))) m1 m2"
    using copyTo_splices [OF keep(3,1,4) assms(4,6), of "to + n1"] assms(7) keep(2) by auto
  have "length (take n1 (drop so1 (bytes_of m s))) = n1" "length (take n2 (drop so2 (bytes_of m s))) \<le> n2"
    using bytes_length [OF assms(2)] assms(5) by auto
  then show ?thesis using spliced_trans [OF m1(2), of "take n2 (drop so2 (bytes_of m s))" m2] m1(1) m2 assms(7) by (simp add: bindS_Inr)
qed

end

definition source_bytes :: "chunk_memory \<Rightarrow> ByteSource \<Rightarrow> bytes" where
  "source_bytes m src = (case src of Flat bs \<Rightarrow> bs | Chunked cb \<Rightarrow> contents m cb)"

definition source_valid :: "chunk_memory \<Rightarrow> ByteSource \<Rightarrow> bool" where
  "source_valid m src = (case src of Flat bs \<Rightarrow> is_safe (length bs) | Chunked cb \<Rightarrow> memory_ok m \<and> cb_ok m cb)"

definition source_separate :: "ChunkedBytes \<Rightarrow> ByteSource \<Rightarrow> bool" where
  "source_separate target src = (case src of Flat bs \<Rightarrow> True | Chunked cb \<Rightarrow> apart target cb)"

interpretation flat: byte_source length "\<lambda>m bs. bs" "\<lambda>m bs. is_safe (length bs)" "\<lambda>target bs. True"
    "\<lambda>i bs m. flat_byteAt i bs" flat_copyTo "\<lambda>bs m. Inr [bs]"
proof (unfold_locales, goal_cases)
  case (3 m s target so n to)
  then show ?case using cb_write_ok [of m target to "take n (drop so s)"]
    by (auto simp: flat_copyTo_def safe_nonneg_def is_safe_def)
qed (auto simp: flat_byteAt_def frame_def)

interpretation chunked: byte_source cb_length contents "\<lambda>m cb. memory_ok m \<and> cb_ok m cb" apart cb_byteAt cb_copyTo cb_pieces
proof (unfold_locales, goal_cases)
  case (3 m s target so n to)
  then show ?case by (intro cb_copyTo_ok) auto
next
  case (4 target m m' s)
  then show ?case using frame_apart [of target m m' s] frame_cb_ok [of target m m' s] by (simp add: frame_def)
qed (auto simp: cb_byteAt_ok cb_pieces_ok)

lemmas source_cases = source_length_def source_bytes_def source_valid_def source_separate_def
  source_byteAt_def source_copyTo_def source_pieces_def

interpretation src: byte_source source_length source_bytes source_valid source_separate source_byteAt source_copyTo source_pieces
proof (unfold_locales, goal_cases)
  case (1 m s)
  then show ?case by (cases s) (simp_all add: source_cases)
next
  case (2 m s i)
  then show ?case using flat.byteAt_nth chunked.byteAt_nth by (cases s) (simp_all add: source_cases)
next
  case (3 m s target so n to)
  then show ?case using flat.copyTo_splices [of m _ target so n to] chunked.copyTo_splices [of m _ target so n to]
    by (cases s) (simp_all add: source_cases)
next
  case (4 target m m' s)
  then show ?case using chunked.frame_keeps [of target m m'] by (cases s) (auto simp: source_cases)
next
  case (5 m s)
  then show ?case using chunked.pieces_concat [of m] by (cases s) (simp_all add: source_cases)
qed

section \<open>States of a pool and its sequences\<close>

text \<open>
  The calls a client makes, with the sequences it holds: an allocation that is refused holds nothing new, a copy is
  between two different sequences, and a released sequence is no longer held.
\<close>

inductive chunk_run :: "nat \<Rightarrow> chunk_memory \<Rightarrow> ChunkedBytes list \<Rightarrow> bool" for limit where
  start: "newChunkPool (int limit) = Inr p \<Longrightarrow> chunk_run limit \<lparr>arrays = [], pool = p\<rparr> []"
| allocated: "chunk_run limit m live \<Longrightarrow> cb_allocate (int n) m = (Inr cb, m') \<Longrightarrow> is_safe n \<Longrightarrow> chunk_run limit m' (cb # live)"
| refused: "chunk_run limit m live \<Longrightarrow> cb_allocate (int n) m = (Inl e, m') \<Longrightarrow> is_safe n \<Longrightarrow> chunk_run limit m' live"
| written: "chunk_run limit m live \<Longrightarrow> cb \<in> set live \<Longrightarrow> cb_write off bs cb m = (r, m') \<Longrightarrow> chunk_run limit m' live"
| copied: "chunk_run limit m live \<Longrightarrow> source \<in> set live \<Longrightarrow> target \<in> set live \<Longrightarrow> source \<noteq> target \<Longrightarrow>
    cb_copyTo target to so n source m = (r, m') \<Longrightarrow> chunk_run limit m' live"
| released: "chunk_run limit m (xs @ cb # ys) \<Longrightarrow> cb_release cb m = (r, cb', m') \<Longrightarrow> chunk_run limit m' (xs @ ys)"
| disposed: "chunk_run limit m live \<Longrightarrow> pool_dispose m = (r, m') \<Longrightarrow> chunk_run limit m' live"

definition chunk_inv :: "nat \<Rightarrow> chunk_memory \<Rightarrow> ChunkedBytes list \<Rightarrow> bool" where
  "chunk_inv limit m live \<longleftrightarrow> memory_ok m \<and> pool_maxAllocatedBytes (pool m) = limit
     \<and> list_all (cb_ok m) live \<and> sorted_wrt apart live
     \<and> pool_checkedOut (pool m) = (\<Union>cb \<in> set live. set (cb_chunks cb))"

lemma apart_sym: "apart a b \<longleftrightarrow> apart b a" by (auto simp: apart_def)

lemma sorted_wrt_apart: "sorted_wrt apart live \<Longrightarrow> a \<in> set live \<Longrightarrow> b \<in> set live \<Longrightarrow> a \<noteq> b \<Longrightarrow> apart a b"
  by (induction live) (auto simp: apart_sym)

lemma chunk_inv_same:
  assumes "chunk_inv limit m live" "memory_ok m'" "pool m' = pool m"
  shows "chunk_inv limit m' live"
  using assms by (auto simp: chunk_inv_def cb_ok_def list_all_iff)

lemma assertRange_cases:
  assumes "assertRange off n cb = Inr ()"
  obtains a b where "off = int a" "n = int b" "a + b \<le> cb_length cb"
proof (rule that [of "nat off" "nat n"])
qed (use assms in \<open>auto simp: assertRange_def assertOwned_def guardR_def safe_nonneg_def split: if_splits\<close>)

lemma chunk_inv_write:
  assumes inv: "chunk_inv limit m live" and cb: "cb \<in> set live" and run: "cb_write off bs cb m = (r, m')"
  shows "chunk_inv limit m' live"
proof (cases "assertRange off (int (length bs)) cb")
  case (Inl e)
  then show ?thesis using run inv by (simp add: cb_write_def)
next
  case (Inr u)
  then obtain a where a: "off = int a" "a + length bs \<le> cb_length cb" by (auto elim: assertRange_cases)
  have "memory_ok m" "cb_ok m cb" using inv cb by (auto simp: chunk_inv_def list_all_iff)
  then show ?thesis using cb_write_ok [OF _ _ a(2), of m] a run inv
    by (auto simp: spliced_def frame_def intro: chunk_inv_same)
qed

lemma chunk_inv_copy:
  assumes inv: "chunk_inv limit m live" and in_live: "source \<in> set live" "target \<in> set live" and ne: "source \<noteq> target"
    and run: "cb_copyTo target to so n source m = (r, m')"
  shows "chunk_inv limit m' live"
proof (cases "assertRange so n source = Inr () \<and> assertRange to n target = Inr ()")
  case True
  then obtain a k where a: "so = int a" "n = int k" "a + k \<le> cb_length source" by (auto elim: assertRange_cases)
  from True obtain b k' where b: "to = int b" "n = int k'" "b + k' \<le> cb_length target" by (auto elim: assertRange_cases)
  have ok: "memory_ok m" "cb_ok m source" "cb_ok m target" "apart target source"
    using inv in_live ne sorted_wrt_apart [of live target source] by (auto simp: chunk_inv_def list_all_iff)
  show ?thesis using cb_copyTo_ok [OF ok a(3), of b] a b run inv
    by (auto simp: spliced_def frame_def intro: chunk_inv_same)
next
  case False
  then have "m' = m" using run by (auto simp: cb_copyTo_def bindS_def split: sum.splits)
  then show ?thesis using inv by simp
qed

lemma chunk_inv_release:
  assumes inv: "chunk_inv limit m (xs @ cb # ys)" and run: "cb_release cb m = (r, cb', m')"
  shows "chunk_inv limit m' (xs @ ys)"
proof -
  have ok: "memory_ok m" "cb_ok m cb" using inv by (auto simp: chunk_inv_def)
  have m': "memory_ok m'" "pool_checkedOut (pool m') = pool_checkedOut (pool m) - set (cb_chunks cb)"
      "pool_maxAllocatedBytes (pool m') = pool_maxAllocatedBytes (pool m)"
    using cb_release_ok [OF ok] run by auto
  have sep: "apart cb d" if "d \<in> set xs \<union> set ys" for d
    using that inv apart_sym by (auto simp: chunk_inv_def sorted_wrt_append)
  then have "pool_checkedOut (pool m') = (\<Union>d \<in> set (xs @ ys). set (cb_chunks d))"
    using inv m'(2) by (fastforce simp: chunk_inv_def apart_def)
  then show ?thesis using inv m'(1,3) by (auto simp: chunk_inv_def list_all_iff cb_ok_def sorted_wrt_append)
qed

lemma chunk_run_inv: "chunk_run limit m live \<Longrightarrow> chunk_inv limit m live"
proof (induction rule: chunk_run.induct)
  case (start p)
  then show ?case
    by (auto simp: newChunkPool_def guardR_def safe_nonneg_def chunk_inv_def memory_ok_def is_safe_def split: if_splits)
next
  case (allocated m live n cb m')
  then have ok: "memory_ok m" by (simp add: chunk_inv_def)
  have "chunks_for n \<le> room m" using cb_allocate_refused [OF ok allocated(3)] allocated(2) by (rule_tac ccontr) auto
  from cb_allocate_ok [OF ok allocated(3) this] allocated(2)
  have cb: "cb_ok m' cb" "grown (cb_chunks cb) m m'" by auto
  then show ?case using allocated(4) cb grown_contents [OF cb(2)]
    by (auto simp: chunk_inv_def list_all_iff grown_def apart_def)
next
  case (refused m live n e m')
  then have ok: "memory_ok m" by (simp add: chunk_inv_def)
  have "\<not> chunks_for n \<le> room m" using cb_allocate_ok [OF ok refused(3)] refused(2) by auto
  then show ?case using cb_allocate_refused [OF ok refused(3)] refused(2,4) by auto
next
  case (disposed m live r m')
  then show ?case
    by (auto simp: pool_dispose_def bindS_def assertIdle_def guardR_def chunk_inv_def memory_ok_def list_all_iff cb_ok_def split: if_splits)
qed (auto intro: chunk_inv_write chunk_inv_copy chunk_inv_release)

section \<open>Properties\<close>

text \<open>
  C3: in every state a client of a chunk pool can reach, the sequences it holds own disjoint chunks, the pool has
  allocated no more than its limit and lent no more than it allocated, every held sequence can be read out and
  released, and an allocation either is refused with the state unchanged or gives a sequence apart from all others
  that leaves their bytes as they were.
\<close>

theorem chunk_pool_safe:
  assumes "chunk_run limit m live" "is_safe n"
  shows "sorted_wrt apart live
     \<and> checkedOutBytes (pool m) \<le> pool_allocatedBytes (pool m) \<and> pool_allocatedBytes (pool m) \<le> limit
     \<and> list_all (\<lambda>cb. toUint8Array cb m = Inr (contents m cb) \<and> fst (cb_release cb m) = Inr ()) live
     \<and> (if chunks_for n \<le> room m
         then \<exists>cb m'. cb_allocate (int n) m = (Inr cb, m') \<and> cb_length cb = n
                \<and> list_all (\<lambda>d. apart cb d \<and> contents m' d = contents m d) live
         else cb_allocate (int n) m = (Inl (RangeError ''chunk pool allocation limit exceeded''), m))"
proof (intro conjI)
  have inv: "chunk_inv limit m live" using assms(1) by (rule chunk_run_inv)
  then have ok: "memory_ok m" and live: "cb \<in> set live \<Longrightarrow> cb_ok m cb" for cb
    by (auto simp: chunk_inv_def list_all_iff)
  show "sorted_wrt apart live" using inv by (simp add: chunk_inv_def)
  show "checkedOutBytes (pool m) \<le> pool_allocatedBytes (pool m)" using ok by (simp add: memory_ok_def checkedOutBytes_def)
  show "pool_allocatedBytes (pool m) \<le> limit" using inv unfolding chunk_inv_def memory_ok_def by metis
  show "list_all (\<lambda>cb. toUint8Array cb m = Inr (contents m cb) \<and> fst (cb_release cb m) = Inr ()) live"
    using toUint8Array_ok [OF ok] cb_release_ok [OF ok] live by (fastforce simp: list_all_iff)
  show "if chunks_for n \<le> room m
         then \<exists>cb m'. cb_allocate (int n) m = (Inr cb, m') \<and> cb_length cb = n
                \<and> list_all (\<lambda>d. apart cb d \<and> contents m' d = contents m d) live
         else cb_allocate (int n) m = (Inl (RangeError ''chunk pool allocation limit exceeded''), m)"
  proof (cases "chunks_for n \<le> room m")
    case True
    obtain cb m' where cb: "cb_allocate (int n) m = (Inr cb, m')" "cb_length cb = n" "grown (cb_chunks cb) m m'"
      using cb_allocate_ok [OF ok assms(2) True] by auto
    have "apart cb d \<and> contents m' d = contents m d" if "d \<in> set live" for d
      using grown_contents [OF cb(3) live [OF that]] cb(3) live [OF that] by (auto simp: grown_def cb_ok_def apart_def)
    then show ?thesis using True cb(1,2) by (auto simp: list_all_iff)
  next
    case False
    then show ?thesis using cb_allocate_refused [OF ok assms(2)] by simp
  qed
qed

lemma fresh_pool: "newChunkPool (int max_safe_integer) =
    Inr \<lparr>pool_free = [], pool_checkedOut = {}, pool_allocatedBytes = 0, pool_maxAllocatedBytes = max_safe_integer\<rparr>"
  by (simp add: newChunkPool_def safe_nonneg_def)

lemma fresh_room: "3 \<le> room \<lparr>arrays = [], pool = \<lparr>pool_free = [], pool_checkedOut = {}, pool_allocatedBytes = 0,
    pool_maxAllocatedBytes = max_safe_integer\<rparr>\<rparr>"
  by (simp add: room_def max_safe_integer_def PACK_CHUNK_BYTES_def)

theorem chunk_pool_safe_witness:
  "\<exists>p cb m'. newChunkPool (int max_safe_integer) = Inr p
     \<and> cb_allocate 3 \<lparr>arrays = [], pool = p\<rparr> = (Inr cb, m') \<and> cb_length cb = 3"
proof -
  have "is_safe 3" by (simp add: is_safe_def max_safe_integer_def)
  moreover have "chunks_for 3 \<le> 3" by (rule chunks_for_le)
  ultimately show ?thesis
    using chunk_pool_safe [OF start [OF fresh_pool], of 3] fresh_pool order_trans [OF _ fresh_room] by auto
qed

text \<open>
  C32: copying a range of a byte source, flat or chunked, into a sequence replaces exactly that range of its bytes
  with the source's, across every chunk boundary, and leaves the source and every other sequence as they were.
\<close>

theorem source_copy_splices:
  assumes "memory_ok m" "source_valid m s" "cb_ok m target" "source_separate target s"
    "so + n \<le> source_length s" "to + n \<le> cb_length target"
  shows "\<exists>m'. source_copyTo target (int to) (int so) (int n) s m = (Inr (), m')
     \<and> contents m' target = take to (contents m target) @ take n (drop so (source_bytes m s)) @ drop (to + n) (contents m target)
     \<and> source_bytes m' s = source_bytes m s
     \<and> (cb_ok m d \<and> apart target d \<longrightarrow> contents m' d = contents m d)"
proof -
  obtain m' where m': "source_copyTo target (int to) (int so) (int n) s m = (Inr (), m')"
      "spliced target to (take n (drop so (source_bytes m s))) m m'"
    using src.copyTo_splices [OF assms] by blast
  then have fr: "frame target m m'" by (simp add: spliced_def)
  have "length (take n (drop so (source_bytes m s))) = n" using src.bytes_length [OF assms(2)] assms(5) by simp
  then show ?thesis
    using m' src.frame_keeps [OF fr assms(2,4)] frame_apart [OF fr] by (simp add: spliced_def set_at_def)
qed

theorem source_copy_splices_witness:
  "\<exists>m target m'. cb_length target = 3
     \<and> source_copyTo target 0 1 3 (Flat [9, 1, 2, 3]) m = (Inr (), m') \<and> contents m' target = [1, 2, 3]"
proof -
  let ?m = "\<lparr>arrays = [], pool = \<lparr>pool_free = [], pool_checkedOut = {}, pool_allocatedBytes = 0,
    pool_maxAllocatedBytes = max_safe_integer\<rparr>\<rparr>"
  have ok: "memory_ok ?m" using chunk_run_inv [OF start [OF fresh_pool]] by (simp add: chunk_inv_def)
  have n: "is_safe 3" "is_safe (length [9, 1, 2, 3 :: byte])" by (simp_all add: is_safe_def max_safe_integer_def)
  obtain cb m where cb: "cb_length cb = 3" "cb_ok m cb" "memory_ok m"
    using cb_allocate_ok [OF ok n(1) order_trans [OF chunks_for_le fresh_room]] by (auto simp: grown_def)
  have valid: "source_valid m (Flat [9, 1, 2, 3])" "source_separate cb (Flat [9, 1, 2, 3])"
      "1 + 3 \<le> source_length (Flat [9, 1, 2, 3])" "0 + 3 \<le> cb_length cb"
    using n cb(1) by (simp_all add: source_cases)
  obtain m' where "source_copyTo cb 0 1 3 (Flat [9, 1, 2, 3]) m = (Inr (), m')" "contents m' cb = [1, 2, 3]"
    using source_copy_splices [OF cb(3) valid(1) cb(2) valid(2-4), of cb] cb(1)
    by (auto simp: source_bytes_def eval_nat_numeral)
  with cb(1) show ?thesis by blast
qed

end
