(* ===== verification/Delta.thy ===== *)
theory Delta
  imports Chunks
begin

text \<open>
  \<open>packages/git/src/store/pack/delta.ts\<close> and \<open>store/pack/shared-delta.ts\<close>: the incremental \<open>DeltaApplier\<close>, which
  writes into pool-owned chunks, the buffered \<open>applyDelta\<close>, the delta header encoder and the header readers of the
  ingest. The incremental applier accepts a delta exactly when the buffered one does, with the same bytes, whatever
  chunks the delta comes in and whatever the reused chunks held before.
\<close>

section \<open>The buffered reader\<close>

definition MAX_DELTA_TARGET :: nat where
  "MAX_DELTA_TARGET = 512 * 1024 * 1024"

definition MAX_DELTA_WORKING_BYTES :: nat where
  "MAX_DELTA_WORKING_BYTES = 48 * 1024 * 1024"

definition MAX_DELTA_INSTRUCTION_BYTES :: nat where
  "MAX_DELTA_INSTRUCTION_BYTES = 48 * 1024 * 1024"

definition delta_next :: "bytes \<Rightarrow> nat \<Rightarrow> (byte \<times> nat) result" where
  "delta_next delta pos =
     (if length delta \<le> pos then Inl (CorruptError ''delta truncated'') else Inr (delta ! pos, pos + 1))"

function apply_varint :: "bytes \<Rightarrow> nat \<Rightarrow> jsnum \<Rightarrow> nat \<Rightarrow> (jsnum \<times> nat) result" where
  "apply_varint delta pos res shift =
     (case delta_next delta pos of
        Inl e \<Rightarrow> Inl e
      | Inr (b, pos') \<Rightarrow>
          (let res' = num_add res (num_scale (unat (b AND 0x7f)) shift)
           in if b AND 0x80 \<noteq> 0 then apply_varint delta pos' res' (shift + 7) else Inr (res', pos')))"
  by pat_completeness auto
termination
  by (relation "measure (\<lambda>(delta, pos, r, s). length delta - pos)") (auto simp: delta_next_def split: if_splits)

declare apply_varint.simps [simp del]

text \<open>\<open>m > n\<close> for a number \<open>n\<close> of the source, false against \<open>NaN\<close>.\<close>

fun num_less :: "jsnum \<Rightarrow> nat \<Rightarrow> bool" where
  "num_less (Fin n) m = (n < m)"
| "num_less PInf m = False"
| "num_less NaN m = False"

text \<open>\<open>if (command & bit) x = next()\<close>, with 0 when the bit is clear.\<close>

definition opt_next :: "bytes \<Rightarrow> nat \<Rightarrow> bool \<Rightarrow> (nat \<times> nat) result" where
  "opt_next delta pos flag =
     (if flag then bindR (delta_next delta pos) (\<lambda>(b, pos'). Inr (unat b, pos')) else Inr (0, pos))"

definition copy_args :: "bytes \<Rightarrow> nat \<Rightarrow> byte \<Rightarrow> (nat \<times> nat \<times> nat) result" where
  "copy_args delta pos command =
     bindR (opt_next delta pos (command AND 0x01 \<noteq> 0)) (\<lambda>(a, pos).
     bindR (opt_next delta pos (command AND 0x02 \<noteq> 0)) (\<lambda>(b, pos).
     bindR (opt_next delta pos (command AND 0x04 \<noteq> 0)) (\<lambda>(c, pos).
     bindR (opt_next delta pos (command AND 0x08 \<noteq> 0)) (\<lambda>(d, pos).
     bindR (opt_next delta pos (command AND 0x10 \<noteq> 0)) (\<lambda>(x, pos).
     bindR (opt_next delta pos (command AND 0x20 \<noteq> 0)) (\<lambda>(y, pos).
     bindR (opt_next delta pos (command AND 0x40 \<noteq> 0)) (\<lambda>(z, pos).
     let offset = (a OR push_bit 8 b OR push_bit 16 c) + d * 0x1000000;
         sz = x OR push_bit 8 y OR push_bit 16 z
     in Inr (offset, if sz = 0 then 0x10000 else sz, pos))))))))"

text \<open>\<open>out.set(part, written)\<close>, which throws when the part does not fit.\<close>

definition out_set :: "bytes \<Rightarrow> nat \<Rightarrow> bytes \<Rightarrow> bytes result" where
  "out_set out written part =
     (if length out < written + length part then Inl (RangeError ''offset is out of bounds'') else Inr (set_at out written part))"

definition apply_copy :: "bytes \<Rightarrow> jsnum \<Rightarrow> nat \<Rightarrow> nat \<Rightarrow> bytes \<Rightarrow> nat \<Rightarrow> bytes result" where
  "apply_copy base targetSize offset sz out written =
     bindR (guardR (offset + sz \<le> length base) (CorruptError ''delta copy out of range'')) (\<lambda>_.
     bindR (guardR (\<not> num_less targetSize (written + sz)) (CorruptError ''delta copy overflows target'')) (\<lambda>_.
     out_set out written (take sz (drop offset base))))"

definition apply_literal :: "jsnum \<Rightarrow> bytes \<Rightarrow> nat \<Rightarrow> nat \<Rightarrow> bytes \<Rightarrow> nat \<Rightarrow> bytes result" where
  "apply_literal targetSize delta pos command out written =
     bindR (guardR (pos + command \<le> length delta) (CorruptError ''delta literal truncated'')) (\<lambda>_.
     bindR (guardR (\<not> num_less targetSize (written + command)) (CorruptError ''delta literal overflows target'')) (\<lambda>_.
     out_set out written (take command (drop pos delta))))"

lemma delta_next_grows: "delta_next delta pos = Inr (b, pos') \<Longrightarrow> pos' = Suc pos \<and> pos < length delta"
  by (auto simp: delta_next_def split: if_splits)

lemma opt_next_grows: "opt_next delta pos f = Inr (b, pos') \<Longrightarrow> pos \<le> pos'"
  by (auto simp: opt_next_def dest: delta_next_grows split: if_splits)

lemma copy_args_grows: "copy_args delta pos command = Inr (off, sz, pos') \<Longrightarrow> pos \<le> pos'"
  by (auto simp: copy_args_def Let_def dest!: opt_next_grows)

function apply_loop :: "bytes \<Rightarrow> bytes \<Rightarrow> jsnum \<Rightarrow> nat \<Rightarrow> bytes \<Rightarrow> nat \<Rightarrow> (bytes \<times> nat) result" where
  "apply_loop base delta targetSize pos out written =
     (if pos < length delta then
        (let command = delta ! pos; pos = pos + 1 in
         if command AND 0x80 \<noteq> 0 then
           (case copy_args delta pos command of
              Inl e \<Rightarrow> Inl e
            | Inr (offset, sz, pos) \<Rightarrow>
                (case apply_copy base targetSize offset sz out written of
                   Inl e \<Rightarrow> Inl e
                 | Inr out \<Rightarrow> apply_loop base delta targetSize pos out (written + sz)))
         else if command \<noteq> 0 then
           (case apply_literal targetSize delta pos (unat command) out written of
              Inl e \<Rightarrow> Inl e
            | Inr out \<Rightarrow> apply_loop base delta targetSize (pos + unat command) out (written + unat command))
         else Inl (CorruptError ''invalid delta opcode 0''))
      else Inr (out, written))"
  by pat_completeness auto
termination
  by (relation "measure (\<lambda>(base, delta, t, pos, out, w). length delta - pos)")
     (auto dest!: copy_args_grows)

declare apply_loop.simps [simp del]

definition typed_length :: "jsnum \<Rightarrow> nat" where
  "typed_length n = (case n of Fin k \<Rightarrow> k | _ \<Rightarrow> 0)"

definition applyDelta :: "bytes \<Rightarrow> bytes \<Rightarrow> bytes result" where
  "applyDelta base delta =
     bindR (apply_varint delta 0 (Fin 0) 0) (\<lambda>(sourceSize, pos).
     bindR (apply_varint delta pos (Fin 0) 0) (\<lambda>(targetSize, pos).
     bindR (guardR (sourceSize = Fin (length base)) (CorruptError ''delta base size mismatch'')) (\<lambda>_.
     bindR (guardR (\<not> num_gt targetSize MAX_DELTA_TARGET) (CorruptError ''delta target too large'')) (\<lambda>_.
     bindR (apply_loop base delta targetSize pos (replicate (typed_length targetSize) 0) 0) (\<lambda>(out, written).
     bindR (guardR (targetSize = Fin written) (CorruptError ''delta target size mismatch'')) (\<lambda>_.
     Inr out))))))"

fun encode_size :: "nat \<Rightarrow> bytes" where
  "encode_size value =
     (let byte = value mod 128; value = value div 128
      in if 0 < value then word_of_nat (byte + 0x80) # encode_size value else [word_of_nat byte])"

declare encode_size.simps [simp del]

definition encodeDeltaHeader :: "nat \<Rightarrow> nat \<Rightarrow> bytes" where
  "encodeDeltaHeader sourceSize targetSize = encode_size sourceSize @ encode_size targetSize"

section \<open>Readers of the header\<close>

definition MAX_PACK_DELTA_WORKING_BYTES :: nat where
  "MAX_PACK_DELTA_WORKING_BYTES = 48 * 1024 * 1024"

function bounded_varint :: "bytes \<Rightarrow> nat \<Rightarrow> jsnum \<Rightarrow> nat \<Rightarrow> (jsnum \<times> nat) result" where
  "bounded_varint delta at v shift =
     (if length delta \<le> at then Inl (CorruptError ''delta truncated'')
      else let b = delta ! at; v' = num_add v (num_scale (unat (b AND 0x7f)) shift); shift' = shift + 7
        in if 56 < shift' then Inl (CorruptError ''delta size is invalid'')
           else if b AND 0x80 \<noteq> 0 then bounded_varint delta (at + 1) v' shift' else Inr (v', at + 1))"
  by pat_completeness auto
termination
  by (relation "measure (\<lambda>(delta, at, v, s). length delta - at)") (auto simp: Let_def)

declare bounded_varint.simps [simp del]

definition validateDeltaWorkingSet :: "bytes \<Rightarrow> bytes \<Rightarrow> nat \<Rightarrow> nat result" where
  "validateDeltaWorkingSet base delta expectedTargetSize =
     bindR (bounded_varint delta 0 (Fin 0) 0) (\<lambda>(sourceSize, at).
     bindR (bounded_varint delta at (Fin 0) 0) (\<lambda>(targetSize, at).
     bindR (guardR (sourceSize = Fin (length base)) (CorruptError ''delta base size mismatch'')) (\<lambda>_.
     bindR (guardR (targetSize = Fin expectedTargetSize) (CorruptError ''delta target size mismatch'')) (\<lambda>_.
     let workingBytes = length base + length delta + expectedTargetSize in
     bindR (guardR (is_safe workingBytes \<and> workingBytes \<le> MAX_PACK_DELTA_WORKING_BYTES)
       (CorruptError ''delta working set exceeds 48 MiB'')) (\<lambda>_.
     Inr expectedTargetSize)))))"

definition checkDeltaInflateBudget :: "bytes \<Rightarrow> int \<Rightarrow> unit result" where
  "checkDeltaInflateBudget base deltaSize =
     guardR (safe_nonneg deltaSize \<and> int (length base) + deltaSize \<le> int MAX_PACK_DELTA_WORKING_BYTES)
       (CorruptError ''delta input exceeds the bounded working set'')"

record DeltaHeaderProbe =
  pr_value :: jsnum
  pr_shift :: nat
  pr_field :: nat
  pr_sourceSize :: "jsnum option"
  pr_targetSize :: "jsnum option"

definition newDeltaHeaderProbe :: DeltaHeaderProbe where
  "newDeltaHeaderProbe = \<lparr>pr_value = Fin 0, pr_shift = 0, pr_field = 0, pr_sourceSize = None, pr_targetSize = None\<rparr>"

definition safe_num :: "jsnum \<Rightarrow> bool" where
  "safe_num n \<longleftrightarrow> (case n of Fin k \<Rightarrow> is_safe k | _ \<Rightarrow> False)"

fun probe_loop :: "bytes \<Rightarrow> (DeltaHeaderProbe, unit) action" where
  "probe_loop [] p = (Inr (), p)"
| "probe_loop (b # bs) p =
     (let v = num_add (pr_value p) (num_scale (unat (b AND 0x7f)) (pr_shift p));
          p = p\<lparr>pr_value := v, pr_shift := pr_shift p + 7\<rparr>
      in if 56 < pr_shift p \<or> \<not> safe_num v then (Inl (CorruptError ''delta size is invalid''), p)
         else if b AND 0x80 \<noteq> 0 then probe_loop bs p
         else let p = (if pr_field p = 0 then p\<lparr>pr_sourceSize := Some v\<rparr> else p\<lparr>pr_targetSize := Some v\<rparr>);
                  p = p\<lparr>pr_field := pr_field p + 1, pr_value := Fin 0, pr_shift := 0\<rparr>
              in if pr_targetSize p \<noteq> None then (Inr (), p) else probe_loop bs p)"

definition probe_update :: "bytes \<Rightarrow> (DeltaHeaderProbe, unit) action" where
  "probe_update bs p = (if pr_targetSize p \<noteq> None then (Inr (), p) else probe_loop bs p)"

definition probe_finish :: "DeltaHeaderProbe \<Rightarrow> (jsnum \<times> jsnum) result" where
  "probe_finish p = (case (pr_sourceSize p, pr_targetSize p) of
      (Some s, Some t) \<Rightarrow> Inr (s, t)
    | _ \<Rightarrow> Inl (CorruptError ''delta header is truncated''))"

section \<open>The incremental applier\<close>

datatype DeltaPhase = SourceSize | TargetSize | Opcode | Copy | Literal

text \<open>\<open>#copyBit\<close>, a power of two in the source, is kept as its exponent.\<close>

record DeltaApplier =
  da_base :: ByteSource
  da_expected :: "nat option"
  da_maxWorking :: nat
  da_maxInstruction :: nat
  da_phase :: DeltaPhase
  da_sizeValue :: nat
  da_sizeMultiplier :: nat
  da_target :: "ChunkedBytes option"
  da_targetSize :: nat
  da_written :: nat
  da_instructionBytes :: nat
  da_copyCommand :: byte
  da_copyBit :: nat
  da_copyOffset :: nat
  da_copySize :: nat
  da_literalRemaining :: nat
  da_failed :: bool
  da_finished :: bool

record delta_state =
  ds_memory :: chunk_memory
  ds_applier :: DeltaApplier

text \<open>The limits as they are given: absent fields take their defaults.\<close>

record DeltaLimits =
  expectedTargetSize :: "int option"
  maxWorkingBytes :: "int option"
  maxInstructionBytes :: "int option"

definition newDeltaApplier :: "ByteSource \<Rightarrow> DeltaLimits \<Rightarrow> DeltaApplier result" where
  "newDeltaApplier base limits =
     (let working = (case maxWorkingBytes limits of Some n \<Rightarrow> n | None \<Rightarrow> int MAX_DELTA_WORKING_BYTES);
          instruction = (case maxInstructionBytes limits of Some n \<Rightarrow> n | None \<Rightarrow> int MAX_DELTA_INSTRUCTION_BYTES)
      in bindR (guardR (pred_option safe_nonneg (expectedTargetSize limits) \<and> safe_nonneg working \<and> safe_nonneg instruction)
           (RangeError ''invalid delta limits'')) (\<lambda>_.
         Inr \<lparr>da_base = base, da_expected = map_option nat (expectedTargetSize limits), da_maxWorking = nat working,
              da_maxInstruction = nat instruction, da_phase = SourceSize, da_sizeValue = 0, da_sizeMultiplier = 1,
              da_target = None, da_targetSize = 0, da_written = 0, da_instructionBytes = 0, da_copyCommand = 0,
              da_copyBit = 0, da_copyOffset = 0, da_copySize = 0, da_literalRemaining = 0, da_failed = False,
              da_finished = False\<rparr>))"

definition da_targetSize_getter :: "DeltaApplier \<Rightarrow> nat option" where
  "da_targetSize_getter d = (if da_phase d = SourceSize \<or> da_phase d = TargetSize then None else Some (da_targetSize d))"

definition sizeByte :: "byte \<Rightarrow> DeltaApplier \<Rightarrow> (bool \<times> DeltaApplier) result" where
  "sizeByte b d =
     (let addition = unat (b AND 0x7f) * da_sizeMultiplier d in
      bindR (guardR (is_safe addition \<and> is_safe (da_sizeValue d + addition)) (CorruptError ''delta size is invalid'')) (\<lambda>_.
      let d = d\<lparr>da_sizeValue := da_sizeValue d + addition\<rparr> in
      if b AND 0x80 = 0 then Inr (True, d)
      else let d = d\<lparr>da_sizeMultiplier := da_sizeMultiplier d * 128\<rparr> in
        bindR (guardR (is_safe (da_sizeMultiplier d)) (CorruptError ''delta size is invalid'')) (\<lambda>_. Inr (False, d))))"

definition resetSize :: "DeltaApplier \<Rightarrow> DeltaApplier" where
  "resetSize d = d\<lparr>da_sizeValue := 0, da_sizeMultiplier := 1\<rparr>"

definition set_applier :: "DeltaApplier \<Rightarrow> delta_state \<Rightarrow> delta_state" where
  "set_applier d s = s\<lparr>ds_applier := d\<rparr>"

text \<open>An operation on the chunks, inside the applier's state.\<close>

definition on_memory :: "(chunk_memory, 'a) action \<Rightarrow> (delta_state, 'a) action" where
  "on_memory f s = (case f (ds_memory s) of (r, m) \<Rightarrow> (r, s\<lparr>ds_memory := m\<rparr>))"

definition admitTarget :: "nat \<Rightarrow> (delta_state, unit) action" where
  "admitTarget targetSize s =
     (let d = ds_applier s in
      bindS (liftS (guardR (targetSize \<le> MAX_DELTA_TARGET) (CorruptError ''delta target too large''))) (\<lambda>_.
      bindS (liftS (guardR (da_expected d = None \<or> da_expected d = Some targetSize) (CorruptError ''delta target size mismatch''))) (\<lambda>_.
      bindS (liftS (chunkFootprint (int (source_length (da_base d))))) (\<lambda>baseBytes.
      bindS (liftS (chunkFootprint (int targetSize))) (\<lambda>targetBytes.
      bindS (liftS (guardR (baseBytes \<le> da_maxWorking d \<and> int targetBytes \<le> int (da_maxWorking d) - int baseBytes)
        (CorruptError ''delta working set exceeds 48 MiB''))) (\<lambda>_ s.
      let s = set_applier (d\<lparr>da_targetSize := targetSize\<rparr>) s in
      bindS (on_memory (cb_allocate (int targetSize))) (\<lambda>cb s.
      (Inr (), set_applier ((ds_applier s)\<lparr>da_target := Some cb\<rparr>) s)) s))))) s)"

definition copyByte :: "nat \<Rightarrow> byte \<Rightarrow> DeltaApplier \<Rightarrow> DeltaApplier" where
  "copyByte k b d =
     (if k \<le> 3
      then let multiplier = (if k = 0 then 1 else if k = 1 then 0x100 else if k = 2 then 0x10000 else 0x1000000)
           in d\<lparr>da_copyOffset := da_copyOffset d + unat b * multiplier\<rparr>
      else let multiplier = (if k = 4 then 1 else if k = 5 then 0x100 else 0x10000)
           in d\<lparr>da_copySize := da_copySize d + unat b * multiplier\<rparr>)"

definition requireTarget :: "DeltaApplier \<Rightarrow> ChunkedBytes result" where
  "requireTarget d = (case da_target d of None \<Rightarrow> Inl (JsError ''delta target is unavailable'') | Some cb \<Rightarrow> Inr cb)"

definition applyCopy :: "(delta_state, unit) action" where
  "applyCopy s =
     (let d = ds_applier s; n = (if da_copySize d = 0 then 0x10000 else da_copySize d) in
      bindS (liftS (guardR (int (da_copyOffset d) \<le> int (source_length (da_base d)) - int n) (CorruptError ''delta copy out of range''))) (\<lambda>_.
      bindS (liftS (guardR (int n \<le> int (da_targetSize d) - int (da_written d)) (CorruptError ''delta copy overflows target''))) (\<lambda>_.
      bindS (liftS (requireTarget d)) (\<lambda>target.
      bindS (on_memory (source_copyTo target (int (da_written d)) (int (da_copyOffset d)) (int n) (da_base d))) (\<lambda>_ s.
      (Inr (), set_applier ((ds_applier s)\<lparr>da_written := da_written d + n\<rparr>) s))))) s)"

text \<open>\<open>while (copyBit <= 0x40 && (copyCommand & copyBit) === 0) copyBit *= 2\<close>\<close>

function next_bit :: "byte \<Rightarrow> nat \<Rightarrow> nat" where
  "next_bit command k = (if k \<le> 6 \<and> command AND 2 ^ k = 0 then next_bit command (k + 1) else k)"
  by pat_completeness auto
termination by (relation "measure (\<lambda>(command, k). 7 - k)") auto

declare next_bit.simps [simp del]

definition skip_bits :: "DeltaApplier \<Rightarrow> DeltaApplier" where
  "skip_bits d = d\<lparr>da_copyBit := next_bit (da_copyCommand d) (da_copyBit d)\<rparr>"

text \<open>\<open>this.#applyCopy(); this.#phase = "opcode"\<close>\<close>

definition finish_copy :: "(delta_state, unit) action" where
  "finish_copy = bindS applyCopy (\<lambda>_ s. (Inr (), set_applier ((ds_applier s)\<lparr>da_phase := Opcode\<rparr>) s))"

text \<open>One round of the loop, and how many bytes of the input it consumes.\<close>

definition header_step :: "byte \<Rightarrow> (delta_state, unit) action" where
  "header_step b s =
     (case sizeByte b (ds_applier s) of
        Inl e \<Rightarrow> (Inl e, s)
      | Inr (complete, d) \<Rightarrow>
          if \<not> complete then (Inr (), set_applier d s)
          else if da_phase d = SourceSize then
            (if da_sizeValue d \<noteq> source_length (da_base d) then (Inl (CorruptError ''delta base size mismatch''), set_applier d s)
             else (Inr (), set_applier (resetSize (d\<lparr>da_phase := TargetSize\<rparr>)) s))
          else bindS (admitTarget (da_sizeValue d)) (\<lambda>_ s.
                 (Inr (), set_applier (resetSize ((ds_applier s)\<lparr>da_phase := Opcode\<rparr>)) s)) (set_applier d s))"

definition opcode_step :: "byte \<Rightarrow> (delta_state, unit) action" where
  "opcode_step command s =
     (let d = ds_applier s in
      if command AND 0x80 \<noteq> 0 then
        (Inr (), set_applier (d\<lparr>da_copyCommand := command, da_copyBit := 0, da_copyOffset := 0, da_copySize := 0, da_phase := Copy\<rparr>) s)
      else if command = 0 then (Inl (CorruptError ''invalid delta opcode 0''), s)
      else if int (da_targetSize d) - int (da_written d) < int (unat command) then (Inl (CorruptError ''delta literal overflows target''), s)
      else (Inr (), set_applier (d\<lparr>da_literalRemaining := unat command, da_phase := Literal\<rparr>) s))"

definition literal_step :: "bytes \<Rightarrow> (delta_state, unit) action" where
  "literal_step part s =
     bindS (liftS (requireTarget (ds_applier s))) (\<lambda>target.
     bindS (on_memory (cb_write (int (da_written (ds_applier s))) part target)) (\<lambda>_ s.
     let d = ds_applier s;
         d = d\<lparr>da_written := da_written d + length part, da_literalRemaining := da_literalRemaining d - length part\<rparr>;
         d = (if da_literalRemaining d = 0 then d\<lparr>da_phase := Opcode\<rparr> else d)
     in (Inr (), set_applier d s))) s"

definition push_step :: "bytes \<Rightarrow> delta_state \<Rightarrow> nat \<times> unit result \<times> delta_state" where
  "push_step input s =
     (case da_phase (ds_applier s) of
        SourceSize \<Rightarrow> (1, header_step (hd input) s)
      | TargetSize \<Rightarrow> (1, header_step (hd input) s)
      | Opcode \<Rightarrow> (1, opcode_step (hd input) s)
      | Copy \<Rightarrow>
          (let d = skip_bits (ds_applier s) in
           if 6 < da_copyBit d then (0, finish_copy (set_applier d s))
           else let d = copyByte (da_copyBit d) (hd input) d
                in (1, Inr (), set_applier (d\<lparr>da_copyBit := da_copyBit d + 1\<rparr>) s))
      | Literal \<Rightarrow>
          (let n = min (da_literalRemaining (ds_applier s)) (length input)
           in (n, literal_step (take n input) s)))"

definition busy :: "delta_state \<Rightarrow> nat" where
  "busy s = (if da_phase (ds_applier s) = Copy \<or> da_phase (ds_applier s) = Literal then 1 else 0)"

lemma applier_set_applier [simp]: "ds_applier (set_applier d s) = d" "ds_memory (set_applier d s) = ds_memory s"
  by (simp_all add: set_applier_def)

lemma finish_copy_phase: "finish_copy s = (Inr (), s') \<Longrightarrow> da_phase (ds_applier s') = Opcode"
  by (auto simp: finish_copy_def bindS_Inr_iff)

lemma literal_step_phase:
  assumes "literal_step [] s = (Inr (), s')" "da_literalRemaining (ds_applier s) = 0"
  shows "busy s' = 0"
proof -
  obtain target t where t: "on_memory (cb_write (int (da_written (ds_applier s))) [] target) s = (Inr (), t)"
      "s' = set_applier (let d = ds_applier t in if da_literalRemaining d = 0 then d\<lparr>da_phase := Opcode\<rparr> else d) t"
    using assms(1) by (auto simp: literal_step_def bindS_Inr_iff Let_def split: if_splits)
  then have "ds_applier t = ds_applier s" by (auto simp: on_memory_def split: prod.splits)
  then show ?thesis using t(2) assms(2) by (simp add: busy_def)
qed

lemma push_step_progress:
  assumes "push_step input s = (n, Inr (), s')" "input \<noteq> []"
  shows "2 * length (drop n input) + busy s' < 2 * length input + busy s"
proof -
  have len: "0 < length input" using assms(2) by simp
  have le: "busy s' \<le> 1" by (simp add: busy_def)
  consider "0 < n" | "n = 0" by auto
  then show ?thesis
  proof cases
    case 1
    then have "2 * length (drop n input) + 2 \<le> 2 * length input" using len by (cases "length input") auto
    then show ?thesis using le by linarith
  next
    case 2
    show ?thesis
    proof (cases "da_phase (ds_applier s) = Literal")
      case True
      then have "literal_step [] s = (Inr (), s')" "da_literalRemaining (ds_applier s) = 0"
        using assms 2 by (auto simp: push_step_def Let_def min_def split: if_splits)
      then show ?thesis using literal_step_phase [of s s'] 2 True by (simp add: busy_def)
    next
      case False
      then show ?thesis using assms 2
        by (auto simp: push_step_def busy_def Let_def dest: finish_copy_phase split: DeltaPhase.splits if_splits)
    qed
  qed
qed

function push_loop :: "bytes \<Rightarrow> (delta_state, unit) action" where
  "push_loop input s =
     (if input = [] then (Inr (), s)
      else case push_step input s of
        (n, Inl e, s') \<Rightarrow> (Inl e, s')
      | (n, Inr _, s') \<Rightarrow> push_loop (drop n input) s')"
  by pat_completeness auto
termination
  by (relation "measure (\<lambda>(input, s). 2 * length input + busy s)") (auto dest!: push_step_progress [OF sym])

declare push_loop.simps [simp del]

definition push_all :: "bytes \<Rightarrow> (delta_state, unit) action" where
  "push_all input = bindS (push_loop input) (\<lambda>_ s.
     if da_phase (ds_applier s) = Copy then
       (let s = set_applier (skip_bits (ds_applier s)) s
        in if 6 < da_copyBit (ds_applier s) then finish_copy s else (Inr (), s))
     else (Inr (), s))"

definition releaseTarget :: "(delta_state, unit) action" where
  "releaseTarget s =
     (case da_target (ds_applier s) of
        None \<Rightarrow> (Inr (), s)
      | Some cb \<Rightarrow>
          (case cb_release cb (ds_memory s) of
             (Inl e, cb', m) \<Rightarrow> (Inl e, \<lparr>ds_memory = m, ds_applier = (ds_applier s)\<lparr>da_target := Some cb'\<rparr>\<rparr>)
           | (Inr _, cb', m) \<Rightarrow> (Inr (), \<lparr>ds_memory = m, ds_applier = (ds_applier s)\<lparr>da_target := None\<rparr>\<rparr>)))"

text \<open>\<open>this.#failed = true; this.#releaseTarget()\<close>\<close>

definition fail_applier :: "(delta_state, unit) action" where
  "fail_applier s = releaseTarget (set_applier ((ds_applier s)\<lparr>da_failed := True\<rparr>) s)"

definition assertUsable :: "DeltaApplier \<Rightarrow> unit result" where
  "assertUsable d =
     bindR (guardR (\<not> da_failed d) (JsError ''delta applier has failed'')) (\<lambda>_.
     guardR (\<not> da_finished d) (JsError ''delta applier is finished''))"

definition da_push :: "bytes \<Rightarrow> (delta_state, unit) action" where
  "da_push input s =
     bindS (liftS (assertUsable (ds_applier s)))
       (\<lambda>_. cleanupS
          (\<lambda>s. if int (da_maxInstruction (ds_applier s)) - int (da_instructionBytes (ds_applier s)) < int (length input)
               then (Inl (CorruptError ''delta instruction stream too large''), s)
               else push_all input (set_applier
                      ((ds_applier s)\<lparr>da_instructionBytes := da_instructionBytes (ds_applier s) + length input\<rparr>) s))
          fail_applier) s"

definition da_finish :: "(delta_state, ChunkedBytes) action" where
  "da_finish s =
     bindS (liftS (assertUsable (ds_applier s)))
       (\<lambda>_. cleanupS
          (\<lambda>s. let d = ds_applier s in
             if da_phase d = Literal then (Inl (CorruptError ''delta literal truncated''), s)
             else if da_phase d \<noteq> Opcode then (Inl (CorruptError ''delta truncated''), s)
             else if da_written d \<noteq> da_targetSize d then (Inl (CorruptError ''delta target size mismatch''), s)
             else bindS (liftS (requireTarget d)) (\<lambda>target s.
                    (Inr target, set_applier (d\<lparr>da_target := None, da_finished := True\<rparr>) s)) s)
          fail_applier) s"

definition da_abort :: "(delta_state, unit) action" where
  "da_abort s = (if da_finished (ds_applier s) then (Inr (), s) else fail_applier s)"

section \<open>What a delta means\<close>

text \<open>The size fields as the applier accepts them, and the instructions as the bytes they produce.\<close>

fun size_from :: "nat \<Rightarrow> nat \<Rightarrow> bytes \<Rightarrow> (nat \<times> bytes) option" where
  "size_from v mult [] = None"
| "size_from v mult (b # bs) =
     (let addition = unat (b AND 0x7f) * mult in
      if is_safe addition \<and> is_safe (v + addition)
      then if b AND 0x80 = 0 then Some (v + addition, bs)
           else if is_safe (mult * 128) then size_from (v + addition) (mult * 128) bs else None
      else None)"

definition copy_add :: "nat \<Rightarrow> byte \<Rightarrow> nat \<times> nat \<Rightarrow> nat \<times> nat" where
  "copy_add k b flds = (case flds of (off, n) \<Rightarrow>
     if k \<le> 3 then (off + unat b * 256 ^ k, n) else (off, n + unat b * 256 ^ (k - 4)))"

fun copy_fields :: "byte \<Rightarrow> nat \<Rightarrow> nat \<times> nat \<Rightarrow> bytes \<Rightarrow> ((nat \<times> nat) \<times> bytes) option" where
  "copy_fields command k flds [] = (if 6 < next_bit command k then Some (flds, []) else None)"
| "copy_fields command k flds (b # bs) =
     (let j = next_bit command k in
      if 6 < j then Some (flds, b # bs) else copy_fields command (j + 1) (copy_add j b flds) bs)"

definition copy_out :: "bytes \<Rightarrow> nat \<times> nat \<Rightarrow> bytes option \<Rightarrow> bytes option" where
  "copy_out base flds r = (case flds of (off, n) \<Rightarrow>
     let n = (if n = 0 then 0x10000 else n) in
     if off + n \<le> length base then map_option ((@) (take n (drop off base))) r else None)"

lemma copy_fields_shorter: "copy_fields command k flds bs = Some (flds', rest) \<Longrightarrow> length rest \<le> length bs"
proof (induction bs arbitrary: k flds)
  case (Cons b bs)
  then show ?case by (fastforce simp: Let_def split: if_splits)
qed (simp split: if_splits)

function run_instructions :: "bytes \<Rightarrow> bytes \<Rightarrow> bytes option" where
  "run_instructions base [] = Some []"
| "run_instructions base (c # bs) =
     (if c AND 0x80 \<noteq> 0 then
        (case copy_fields c 0 (0, 0) bs of
           None \<Rightarrow> None
         | Some (flds, rest) \<Rightarrow> copy_out base flds (run_instructions base rest))
      else if c = 0 \<or> length bs < unat c then None
      else map_option ((@) (take (unat c) bs)) (run_instructions base (drop (unat c) bs)))"
  by pat_completeness auto
termination
  by (relation "measure (\<lambda>(base, bs). length bs)") (auto dest: copy_fields_shorter)

definition sized :: "nat \<Rightarrow> bytes option \<Rightarrow> bytes option" where
  "sized n r = (case r of None \<Rightarrow> None | Some bs \<Rightarrow> if length bs = n then Some bs else None)"

end
