(* ===== verification/DeltaCorrect.thy ===== *)
theory DeltaCorrect
  imports Delta
begin

text \<open>
  Correctness of the delta readers of \<open>Delta\<close>. A state of the applier and the bytes still to come determine the
  result of the whole delta; every step of the loop keeps that result, so chunk boundaries do not matter, and at the
  end it is what \<open>applyDelta\<close> computes.
\<close>

section \<open>The outcome of a state\<close>

definition remaining :: "bytes \<Rightarrow> DeltaApplier \<Rightarrow> bytes \<Rightarrow> bytes option" where
  "remaining base d input =
     (case da_phase d of
        Copy \<Rightarrow> (case copy_fields (da_copyCommand d) (da_copyBit d) (da_copyOffset d, da_copySize d) input of
                  None \<Rightarrow> None
                | Some (flds, rest) \<Rightarrow> copy_out base flds (run_instructions base rest))
      | Literal \<Rightarrow> (if length input < da_literalRemaining d then None
                   else map_option ((@) (take (da_literalRemaining d) input))
                          (run_instructions base (drop (da_literalRemaining d) input)))
      | _ \<Rightarrow> run_instructions base input)"

definition admitted :: "delta_state \<Rightarrow> nat \<Rightarrow> bool" where
  "admitted s n \<longleftrightarrow> (let d = ds_applier s; b = chunks_for (source_length (da_base d)) * PACK_CHUNK_BYTES;
       t = chunks_for n * PACK_CHUNK_BYTES in
     n \<le> MAX_DELTA_TARGET \<and> (da_expected d = None \<or> da_expected d = Some n) \<and> b + t \<le> da_maxWorking d
     \<and> is_safe b \<and> is_safe t \<and> chunks_for n \<le> room (ds_memory s))"

definition target_outcome :: "bytes \<Rightarrow> delta_state \<Rightarrow> (nat \<times> bytes) option \<Rightarrow> bytes option" where
  "target_outcome base s r = (case r of
      None \<Rightarrow> None
    | Some (n, rest) \<Rightarrow> if admitted s n then sized n (run_instructions base rest) else None)"

definition outcome :: "bytes \<Rightarrow> delta_state \<Rightarrow> bytes \<Rightarrow> bytes option" where
  "outcome base s input =
     (let d = ds_applier s in
      case da_phase d of
        SourceSize \<Rightarrow> (case size_from (da_sizeValue d) (da_sizeMultiplier d) input of
            None \<Rightarrow> None
          | Some (n, rest) \<Rightarrow> if n = source_length (da_base d) then target_outcome base s (size_from 0 1 rest) else None)
      | TargetSize \<Rightarrow> target_outcome base s (size_from (da_sizeValue d) (da_sizeMultiplier d) input)
      | _ \<Rightarrow> sized (da_targetSize d)
          (map_option ((@) (take (da_written d) (contents (ds_memory s) (the (da_target d))))) (remaining base d input)))"

definition headed :: "DeltaApplier \<Rightarrow> bool" where
  "headed d \<longleftrightarrow> da_phase d = SourceSize \<or> da_phase d = TargetSize"

text \<open>
  The invariant: the bytes of the base stay \<open>base\<close>, and the chunks lent out are those lent before (\<open>owned\<close>) and
  those of the target.
\<close>

definition target_ok :: "nat set \<Rightarrow> delta_state \<Rightarrow> bool" where
  "target_ok owned s \<longleftrightarrow> memory_ok (ds_memory s) \<and> (case da_target (ds_applier s) of
      None \<Rightarrow> pool_checkedOut (pool (ds_memory s)) = owned
    | Some cb \<Rightarrow> cb_ok (ds_memory s) cb \<and> pool_checkedOut (pool (ds_memory s)) = owned \<union> set (cb_chunks cb)
        \<and> owned \<inter> set (cb_chunks cb) = {})"

definition applier_ok :: "bytes \<Rightarrow> nat set \<Rightarrow> delta_state \<Rightarrow> bool" where
  "applier_ok base owned s \<longleftrightarrow> (let d = ds_applier s; m = ds_memory s in
     target_ok owned s \<and> source_valid m (da_base d) \<and> source_bytes m (da_base d) = base \<and> \<not> da_failed d \<and> \<not> da_finished d
     \<and> (if headed d then da_target d = None \<and> da_written d = 0
        else da_written d \<le> da_targetSize d
          \<and> (da_phase d = Literal \<longrightarrow> 0 < da_literalRemaining d \<and> da_written d + da_literalRemaining d \<le> da_targetSize d)
          \<and> (case da_target d of None \<Rightarrow> False
             | Some cb \<Rightarrow> cb_length cb = da_targetSize d \<and> source_separate cb (da_base d))))"

text \<open>A step keeps the outcome, or fails where no continuation of the input has one.\<close>

definition keeps :: "bytes \<Rightarrow> nat set \<Rightarrow> delta_state \<Rightarrow> bytes \<Rightarrow> bytes \<Rightarrow> unit result \<times> delta_state \<Rightarrow> bool" where
  "keeps base owned s before after r = (case r of
      (Inr _, s') \<Rightarrow> applier_ok base owned s' \<and> outcome base s before = outcome base s' after
        \<and> da_instructionBytes (ds_applier s') = da_instructionBytes (ds_applier s)
        \<and> da_maxInstruction (ds_applier s') = da_maxInstruction (ds_applier s)
    | (Inl e, s') \<Rightarrow> target_ok owned s' \<and> outcome base s before = None)"

lemmas header_defs = keeps_def applier_ok_def target_ok_def outcome_def headed_def

lemma sized_map_None [simp]: "sized n None = None" by (simp add: sized_def)

lemma map_append_Nil [simp]: "map_option ((@) []) r = r"
  by (cases r) simp_all

lemma sized_Some: "sized n (Some bs) = (if length bs = n then Some bs else None)" by (simp add: sized_def)

subsection \<open>The size fields\<close>

lemma sizeByte_spec:
  "sizeByte b d =
     (let addition = unat (b AND 0x7f) * da_sizeMultiplier d in
      if is_safe addition \<and> is_safe (da_sizeValue d + addition)
      then if b AND 0x80 = 0 then Inr (True, d\<lparr>da_sizeValue := da_sizeValue d + addition\<rparr>)
           else if is_safe (da_sizeMultiplier d * 128)
                then Inr (False, d\<lparr>da_sizeValue := da_sizeValue d + addition, da_sizeMultiplier := da_sizeMultiplier d * 128\<rparr>)
                else Inl (CorruptError ''delta size is invalid'')
      else Inl (CorruptError ''delta size is invalid''))"
  by (simp add: sizeByte_def Let_def guardR_def)

lemma source_valid_safe: "source_valid m s \<Longrightarrow> is_safe (source_length s)"
  by (cases s) (auto simp: source_valid_def source_length_def cb_ok_def)

lemma chunkFootprint_spec:
  "is_safe n \<Longrightarrow> chunkFootprint (int n) =
     (if is_safe (chunks_for n * PACK_CHUNK_BYTES) then Inr (chunks_for n * PACK_CHUNK_BYTES)
      else Inl (RangeError ''chunked byte length is too large''))"
  by (simp add: chunkFootprint_def safe_nonneg_def is_safe_def Let_def)

lemma separate_fresh:
  assumes "source_valid m src" "grown (cb_chunks cb) m m'"
  shows "source_separate cb src \<and> source_valid m' src \<and> source_bytes m' src = source_bytes m src"
proof (cases src)
  case (Chunked c)
  then have c: "cb_ok m c" using assms(1) by (simp add: source_valid_def)
  then have "apart cb c" using assms(2) by (auto simp: grown_def cb_ok_def apart_def)
  then show ?thesis using Chunked grown_contents [OF assms(2) c] assms(2) by (simp add: source_cases grown_def)
qed (use assms(1) in \<open>simp add: source_cases\<close>)

lemma budget_iff: "(b \<le> w \<and> int t \<le> int w - int b) = (b + t \<le> w)"
  by linarith

lemma admitTarget_spec:
  assumes ok: "target_ok owned s" "da_target (ds_applier s) = None" "source_valid (ds_memory s) (da_base (ds_applier s))"
    and n: "is_safe n"
  shows "if admitted s n
    then \<exists>cb m. admitTarget n s = (Inr (), s\<lparr>ds_memory := m, ds_applier := (ds_applier s)\<lparr>da_targetSize := n, da_target := Some cb\<rparr>\<rparr>)
           \<and> cb_length cb = n \<and> cb_ok m cb \<and> grown (cb_chunks cb) (ds_memory s) m
    else \<exists>e s'. admitTarget n s = (Inl e, s') \<and> target_ok owned s'"
proof -
  have mem: "memory_ok (ds_memory s)" using ok(1) by (simp add: target_ok_def)
  have base: "is_safe (source_length (da_base (ds_applier s)))" using ok(3) by (rule source_valid_safe)
  have frame: "target_ok owned (set_applier ((ds_applier s)\<lparr>da_targetSize := n\<rparr>) s)"
    using ok(1) by (simp add: target_ok_def split: option.splits)
  show ?thesis
  proof (cases "chunks_for n \<le> room (ds_memory s)")
    case True
    from cb_allocate_ok [OF mem n True] obtain cb m where cb: "cb_allocate (int n) (ds_memory s) = (Inr cb, m)"
      "cb_length cb = n \<and> cb_ok m cb \<and> grown (cb_chunks cb) (ds_memory s) m" by blast
    have "if admitted s n
      then admitTarget n s = (Inr (), s\<lparr>ds_memory := m, ds_applier := (ds_applier s)\<lparr>da_targetSize := n, da_target := Some cb\<rparr>\<rparr>)
      else \<exists>e s'. admitTarget n s = (Inl e, s') \<and> target_ok owned s'"
      unfolding admitTarget_def budget_iff using ok(1) base n True
      by (auto simp: admitted_def Let_def bindS_def guardR_def chunkFootprint_spec on_memory_def set_applier_def cb(1))
    then show ?thesis using cb(2) by (auto split: if_splits)
  next
    case False
    then have "cb_allocate (int n) (ds_memory s) = (Inl (RangeError ''chunk pool allocation limit exceeded''), ds_memory s)"
      using cb_allocate_refused [OF mem n] by simp
    then show ?thesis
      unfolding admitTarget_def budget_iff using ok(1) base n frame False
      by (auto simp: admitted_def Let_def bindS_def guardR_def chunkFootprint_spec on_memory_def set_applier_def)
  qed
qed

lemma header_step_keeps:
  assumes ok: "applier_ok base owned s" and h: "headed (ds_applier s)"
  shows "keeps base owned s (b # rest) rest (header_step b s)"
proof -
  let ?d = "ds_applier s" and ?add = "unat (b AND 0x7f) * da_sizeMultiplier (ds_applier s)"
  have t: "target_ok owned s" "da_target ?d = None" "source_valid (ds_memory s) (da_base ?d)" "source_bytes (ds_memory s) (da_base ?d) = base"
      "\<not> da_failed ?d" "\<not> da_finished ?d" "da_written ?d = 0"
    using ok h by (auto simp: applier_ok_def Let_def)
  have unsafe: ?thesis if "\<not> (is_safe ?add \<and> is_safe (da_sizeValue ?d + ?add))"
    using that h t by (auto simp: header_step_def sizeByte_spec keeps_def outcome_def headed_def target_outcome_def Let_def)
  moreover have continued: ?thesis if "is_safe ?add \<and> is_safe (da_sizeValue ?d + ?add)" "b AND 0x80 \<noteq> 0"
    using that h t
    by (auto simp: header_step_def sizeByte_spec keeps_def outcome_def headed_def target_outcome_def applier_ok_def target_ok_def admitted_def Let_def
             split: option.split)
  moreover have ?thesis if a: "is_safe ?add \<and> is_safe (da_sizeValue ?d + ?add)" "b AND 0x80 = 0" "da_phase ?d = SourceSize"
    using that t
    by (auto simp: header_step_def sizeByte_spec resetSize_def keeps_def outcome_def headed_def applier_ok_def target_ok_def target_outcome_def admitted_def Let_def
             split: option.split)
  moreover have ?thesis if a: "is_safe ?add \<and> is_safe (da_sizeValue ?d + ?add)" "b AND 0x80 = 0" "da_phase ?d = TargetSize"
  proof -
    define n where "n = da_sizeValue ?d + ?add"
    let ?s1 = "set_applier (?d\<lparr>da_sizeValue := n\<rparr>) s"
    have s1: "target_ok owned ?s1" "da_target (ds_applier ?s1) = None" "source_valid (ds_memory ?s1) (da_base (ds_applier ?s1))"
      using t by (simp_all add: target_ok_def)
    have adm: "admitted ?s1 n = admitted s n" by (simp add: admitted_def Let_def)
    have step: "header_step b s = bindS (admitTarget n) (\<lambda>_ s. (Inr (), set_applier (resetSize ((ds_applier s)\<lparr>da_phase := Opcode\<rparr>)) s)) ?s1"
      using a by (simp add: header_step_def sizeByte_spec Let_def n_def)
    have out: "outcome base s (b # rest) = (if admitted s n then sized n (run_instructions base rest) else None)"
      using a by (simp add: outcome_def target_outcome_def Let_def n_def)
    show ?thesis
    proof (cases "admitted s n")
      case True
      then obtain cb m where cb: "admitTarget n ?s1 = (Inr (), ?s1\<lparr>ds_memory := m, ds_applier := (ds_applier ?s1)\<lparr>da_targetSize := n, da_target := Some cb\<rparr>\<rparr>)"
          "cb_length cb = n" "cb_ok m cb" "grown (cb_chunks cb) (ds_memory s) m"
        using admitTarget_spec [OF s1, of n] a(1) adm by (auto simp: n_def)
      let ?s2 = "?s1\<lparr>ds_memory := m, ds_applier := (ds_applier ?s1)\<lparr>da_targetSize := n, da_target := Some cb\<rparr>\<rparr>"
      let ?s' = "set_applier (resetSize ((ds_applier ?s2)\<lparr>da_phase := Opcode\<rparr>)) ?s2"
      have "outcome base ?s' rest = sized n (run_instructions base rest)"
        using t(7) by (simp add: outcome_def remaining_def resetSize_def)
      moreover have "applier_ok base owned ?s'"
        using cb t separate_fresh [OF t(3) cb(4)]
        by (auto simp: applier_ok_def target_ok_def headed_def resetSize_def Let_def grown_def)
      ultimately show ?thesis
        using True by (simp add: step bindS_Inr [where m = "admitTarget n", OF cb(1)] keeps_def out) (simp add: resetSize_def)
    next
      case False
      then show ?thesis using admitTarget_spec [OF s1, of n] a(1) adm
        by (auto simp: step bindS_Inl keeps_def out n_def)
    qed
  qed
  ultimately show ?thesis using h unfolding headed_def by blast
qed

subsection \<open>Instructions\<close>

text \<open>What the invariant says once the target is allocated.\<close>

lemma applier_target:
  assumes "applier_ok base owned s" "\<not> headed (ds_applier s)"
  obtains cb where "da_target (ds_applier s) = Some cb" "cb_ok (ds_memory s) cb" "cb_length cb = da_targetSize (ds_applier s)"
    "source_separate cb (da_base (ds_applier s))" "memory_ok (ds_memory s)" "source_valid (ds_memory s) (da_base (ds_applier s))"
    "source_bytes (ds_memory s) (da_base (ds_applier s)) = base" "da_written (ds_applier s) \<le> da_targetSize (ds_applier s)"
    "requireTarget (ds_applier s) = Inr cb" "source_length (da_base (ds_applier s)) = length base"
proof -
  obtain cb where cb: "da_target (ds_applier s) = Some cb"
    using assms by (auto simp: applier_ok_def Let_def split: option.splits)
  then show ?thesis
    using assms that [OF cb] src.bytes_length [of "ds_memory s" "da_base (ds_applier s)"]
    by (auto simp: applier_ok_def target_ok_def Let_def requireTarget_def)
qed

lemma outcome_body:
  assumes "\<not> headed (ds_applier s)"
  shows "outcome base s input = sized (da_targetSize (ds_applier s))
     (map_option ((@) (take (da_written (ds_applier s)) (contents (ds_memory s) (the (da_target (ds_applier s)))))) (remaining base (ds_applier s) input))"
  using assms by (auto simp: outcome_def headed_def Let_def split: DeltaPhase.split)

lemma opcode_step_keeps:
  assumes ok: "applier_ok base owned s" and ph: "da_phase (ds_applier s) = Opcode"
  shows "keeps base owned s (b # rest) rest (opcode_step b s)"
proof -
  let ?d = "ds_applier s"
  have nh: "\<not> headed ?d" using ph by (simp add: headed_def)
  from applier_target [OF ok nh] obtain cb where cb: "da_target ?d = Some cb" "cb_length cb = da_targetSize ?d"
      "da_written ?d \<le> da_targetSize ?d" by metis
  have t: "target_ok owned s" using ok by (simp add: applier_ok_def Let_def)
  have over: "outcome base s (b # rest) = None" if "da_targetSize ?d < da_written ?d + unat b" "b AND 0x80 = 0" "b \<noteq> 0"
    using that cb ph by (auto simp: outcome_body [OF nh] remaining_def sized_def map_option_case split: option.split)
  have room_iff: "int (da_targetSize ?d) - int (da_written ?d) < int (unat b) \<longleftrightarrow> da_targetSize ?d < da_written ?d + unat b"
    by linarith
  show ?thesis
    unfolding opcode_step_def Let_def room_iff using ok ph cb t over unat_gt_0 [of b]
    by (auto simp: keeps_def applier_ok_def target_ok_def headed_def outcome_def remaining_def Let_def
             split: option.splits)
qed

lemma map_append: "map_option ((@) (a @ b)) r = map_option ((@) a) (map_option ((@) b) r)"
  by (cases r) simp_all

lemma take_set_at: "w + length part \<le> length v \<Longrightarrow> take (w + length part) (set_at v w part) = take w v @ part"
  by (simp add: set_at_def)

text \<open>Splicing bytes at the write position advances the output by them.\<close>

lemma written_keeps:
  assumes ok: "applier_ok base owned s" and nh: "\<not> headed (ds_applier s)"
    and fits: "da_written (ds_applier s) + length part \<le> da_targetSize (ds_applier s)"
    and sp: "spliced (the (da_target (ds_applier s))) (da_written (ds_applier s)) part (ds_memory s) m"
    and s': "ds_memory s' = m" "ds_applier s' = (ds_applier s)\<lparr>da_written := da_written (ds_applier s) + length part, da_literalRemaining := k, da_phase := p\<rparr>"
    and p: "p = Opcode \<or> p = Literal \<and> 0 < k \<and> da_written (ds_applier s) + length part + k \<le> da_targetSize (ds_applier s)"
    and out: "remaining base (ds_applier s) before = map_option ((@) part) (remaining base (ds_applier s') after)"
  shows "keeps base owned s before after (Inr (), s')"
proof -
  from applier_target [OF ok nh] obtain cb where cb: "da_target (ds_applier s) = Some cb" "cb_ok (ds_memory s) cb"
      "cb_length cb = da_targetSize (ds_applier s)" "source_separate cb (da_base (ds_applier s))"
      "source_valid (ds_memory s) (da_base (ds_applier s))" "source_bytes (ds_memory s) (da_base (ds_applier s)) = base" by metis
  have fr: "frame cb (ds_memory s) m" "contents m cb = set_at (contents (ds_memory s) cb) (da_written (ds_applier s)) part"
    using sp cb(1) by (auto simp: spliced_def)
  have nh': "\<not> headed (ds_applier s')" using p s' by (auto simp: headed_def)
  have "outcome base s before = outcome base s' after"
    using take_set_at [of "da_written (ds_applier s)" part "contents (ds_memory s) cb"] fits cb(1,3) s'
    by (simp add: outcome_body [OF nh] outcome_body [OF nh'] out fr(2) map_append del: option.map_comp)
  moreover have "target_ok owned s'"
    using ok cb(1,2) fr(1) frame_cb_ok [OF fr(1), of cb] s' by (auto simp: applier_ok_def target_ok_def frame_def Let_def)
  ultimately show ?thesis
    using ok nh nh' cb src.frame_keeps [OF fr(1) cb(5,4)] s' p fits by (auto simp: keeps_def applier_ok_def Let_def)
qed

lemma literal_step_keeps:
  assumes ok: "applier_ok base owned s" and ph: "da_phase (ds_applier s) = Literal"
    and n: "n = min (da_literalRemaining (ds_applier s)) (length input)"
  shows "keeps base owned s (input @ more_input) (drop n input @ more_input) (literal_step (take n input) s)"
proof -
  let ?d = "ds_applier s"
  have nh: "\<not> headed ?d" using ph by (simp add: headed_def)
  from applier_target [OF ok nh] obtain cb where cb: "da_target ?d = Some cb" "cb_ok (ds_memory s) cb" "cb_length cb = da_targetSize ?d"
      "memory_ok (ds_memory s)" "requireTarget ?d = Inr cb" by metis
  have len: "length (take n input) = n" using n by simp
  have rem: "0 < da_literalRemaining ?d" "da_written ?d + da_literalRemaining ?d \<le> da_targetSize ?d" "n \<le> da_literalRemaining ?d"
    using ok ph n by (auto simp: applier_ok_def headed_def Let_def)
  obtain m where m: "cb_write (int (da_written ?d)) (take n input) cb (ds_memory s) = (Inr (), m)"
      "spliced cb (da_written ?d) (take n input) (ds_memory s) m"
    using cb_write_ok [OF cb(4,2), of "da_written ?d" "take n input"] len rem cb(3) by auto
  let ?k = "da_literalRemaining ?d - n"
  let ?s' = "s\<lparr>ds_memory := m, ds_applier := ?d\<lparr>da_written := da_written ?d + length (take n input), da_literalRemaining := ?k,
      da_phase := (if ?k = 0 then Opcode else Literal)\<rparr>\<rparr>"
  have step: "literal_step (take n input) s = (Inr (), ?s')"
    using cb(5) m(1) len ph by (simp add: literal_step_def bindS_def on_memory_def set_applier_def Let_def)
  show ?thesis unfolding step
  proof (rule written_keeps [OF ok nh])
    show "remaining base ?d (input @ more_input) = map_option ((@) (take n input)) (remaining base (ds_applier ?s') (drop n input @ more_input))"
    proof (cases "?k = 0")
      case True
      then have "da_literalRemaining ?d = n" "n \<le> length input" using rem(3) n by auto
      then show ?thesis using ph by (simp add: remaining_def)
    next
      case False
      then have n': "n = length input" using n rem(3) by (auto simp: min_def split: if_splits)
      then show ?thesis using ph False by (auto simp: remaining_def map_append simp del: option.map_comp)
    qed
  qed (use rem len m(2) cb(1) in \<open>auto split: if_splits\<close>)
qed

lemma copyByte_fields:
  "k \<le> 6 \<Longrightarrow> copyByte k b d = d\<lparr>da_copyOffset := fst (copy_add k b (da_copyOffset d, da_copySize d)),
      da_copySize := snd (copy_add k b (da_copyOffset d, da_copySize d))\<rparr>"
proof -
  assume "k \<le> 6"
  then have "k \<in> {0, 1, 2, 3, 4, 5, 6}" by auto
  then show ?thesis by (elim insertE emptyE) (simp_all add: copyByte_def copy_add_def)
qed

lemma next_bit_idem [simp]: "next_bit command (next_bit command k) = next_bit command k"
proof (induction command k rule: next_bit.induct)
  case (1 command k)
  then show ?case
  proof (cases "k \<le> 6 \<and> command AND 2 ^ k = 0")
    case True
    then have "next_bit command k = next_bit command (k + 1)" by (subst next_bit.simps) simp
    then show ?thesis using 1 True by simp
  next
    case False
    then have "next_bit command k = k" by (subst next_bit.simps) (simp only: if_False)
    then show ?thesis by simp
  qed
qed

lemma copy_fields_next: "copy_fields command (next_bit command k) flds input = copy_fields command k flds input"
  by (cases input) simp_all

lemma skip_bits_simps [simp]:
  "da_phase (skip_bits d) = da_phase d" "da_copyCommand (skip_bits d) = da_copyCommand d"
  "da_instructionBytes (skip_bits d) = da_instructionBytes d" "da_maxInstruction (skip_bits d) = da_maxInstruction d"
  "da_copyBit (skip_bits d) = next_bit (da_copyCommand d) (da_copyBit d)"
  by (simp_all add: skip_bits_def)

lemma skip_bits_keeps:
  assumes ok: "applier_ok base owned s" and ph: "da_phase (ds_applier s) = Copy"
  shows "applier_ok base owned (set_applier (skip_bits (ds_applier s)) s)
     \<and> outcome base (set_applier (skip_bits (ds_applier s)) s) input = outcome base s input"
proof -
  have "applier_ok base owned (set_applier (skip_bits (ds_applier s)) s)"
    using ok ph by (auto simp: applier_ok_def target_ok_def headed_def skip_bits_def Let_def split: option.splits)
  moreover have "remaining base (skip_bits (ds_applier s)) input = remaining base (ds_applier s) input"
    using ph by (simp add: remaining_def skip_bits_def copy_fields_next)
  then have "outcome base (set_applier (skip_bits (ds_applier s)) s) input = outcome base s input"
    using ph outcome_body [of s base input] outcome_body [of "set_applier (skip_bits (ds_applier s)) s" base input]
    by (simp add: headed_def skip_bits_def)
  ultimately show ?thesis ..
qed

lemma copy_byte_keeps:
  assumes ok: "applier_ok base owned s" and ph: "da_phase (ds_applier s) = Copy"
    and k: "next_bit (da_copyCommand (ds_applier s)) (da_copyBit (ds_applier s)) = k" "k \<le> 6"
    and s': "s' = set_applier ((copyByte k b (skip_bits (ds_applier s)))\<lparr>da_copyBit := k + 1\<rparr>) s"
  shows "keeps base owned s (b # rest) rest (Inr (), s')"
proof -
  have nh: "\<not> headed (ds_applier s)" "\<not> headed (ds_applier s')"
    using ph k by (auto simp: headed_def s' copyByte_fields skip_bits_def)
  have "remaining base (ds_applier s') rest = remaining base (ds_applier s) (b # rest)"
    using ph k by (simp add: remaining_def s' copyByte_fields skip_bits_def Let_def)
  then have "outcome base s (b # rest) = outcome base s' rest"
    using k by (simp add: outcome_body nh) (simp add: s' copyByte_fields skip_bits_def)
  moreover have "applier_ok base owned s'"
    using ok nh k by (auto simp: applier_ok_def target_ok_def s' copyByte_fields skip_bits_def headed_def Let_def split: option.splits)
  ultimately show ?thesis using k by (simp add: keeps_def s' copyByte_fields skip_bits_def)
qed

lemma finish_copy_keeps:
  assumes ok: "applier_ok base owned s" and ph: "da_phase (ds_applier s) = Copy"
    and k: "6 < next_bit (da_copyCommand (ds_applier s)) (da_copyBit (ds_applier s))"
  shows "keeps base owned s input input (finish_copy s)"
proof -
  let ?d = "ds_applier s" and ?n = "if da_copySize (ds_applier s) = 0 then 0x10000 else da_copySize (ds_applier s)"
  have nh: "\<not> headed ?d" using ph by (simp add: headed_def)
  from applier_target [OF ok nh] obtain cb where cb: "da_target ?d = Some cb" "cb_ok (ds_memory s) cb" "cb_length cb = da_targetSize ?d"
      "source_separate cb (da_base ?d)" "memory_ok (ds_memory s)" "source_valid (ds_memory s) (da_base ?d)"
      "source_bytes (ds_memory s) (da_base ?d) = base" "da_written ?d \<le> da_targetSize ?d" "requireTarget ?d = Inr cb"
      "source_length (da_base ?d) = length base" by metis
  have t: "target_ok owned s" using ok by (simp add: applier_ok_def Let_def)
  have fields: "copy_fields (da_copyCommand ?d) (da_copyBit ?d) flds input = Some (flds, input)" for flds
    using k by (cases input) (simp_all add: Let_def)
  have rem: "remaining base ?d input = (if da_copyOffset ?d + ?n \<le> length base
      then map_option ((@) (take ?n (drop (da_copyOffset ?d) base))) (run_instructions base input) else None)"
    using ph by (simp add: remaining_def fields copy_out_def Let_def)
  have guards: "(int (da_copyOffset ?d) \<le> int (source_length (da_base ?d)) - int ?n) = (da_copyOffset ?d + ?n \<le> length base)"
      "(int ?n \<le> int (da_targetSize ?d) - int (da_written ?d)) = (da_written ?d + ?n \<le> da_targetSize ?d)"
    unfolding cb(10) by linarith+
  note step = finish_copy_def bindS_def applyCopy_def Let_def guards cb(9) liftS_def
  consider "length base < da_copyOffset ?d + ?n" | "da_targetSize ?d < da_written ?d + ?n"
    | "da_copyOffset ?d + ?n \<le> length base" "da_written ?d + ?n \<le> da_targetSize ?d" by linarith
  then show ?thesis
  proof cases
    case 1
    then have "outcome base s input = None" by (simp add: outcome_body [OF nh] rem)
    moreover have "finish_copy s = (Inl (CorruptError ''delta copy out of range''), s)" unfolding step using 1 by simp
    ultimately show ?thesis using t by (simp add: keeps_def)
  next
    case 2
    then have "outcome base s input = None"
      using cb(1,3,8) by (auto simp: outcome_body [OF nh] rem sized_def split: option.split)
    moreover have "\<exists>e. finish_copy s = (Inl e, s)"
      unfolding step using 2 by (cases "da_copyOffset ?d + ?n \<le> length base") simp_all
    ultimately show ?thesis using t by (auto simp: keeps_def)
  next
    case 3
    let ?part = "take ?n (drop (da_copyOffset ?d) base)"
    have len: "length ?part = ?n" using 3 by simp
    obtain m where m: "source_copyTo cb (int (da_written ?d)) (int (da_copyOffset ?d)) (int ?n) (da_base ?d) (ds_memory s) = (Inr (), m)"
        "spliced cb (da_written ?d) ?part (ds_memory s) m"
      using src.copyTo_splices [OF cb(5,6,2,4), of "da_copyOffset ?d" ?n "da_written ?d"] 3 cb(3,7,10) by auto
    let ?s' = "s\<lparr>ds_memory := m, ds_applier := ?d\<lparr>da_written := da_written ?d + length ?part, da_literalRemaining := da_literalRemaining ?d, da_phase := Opcode\<rparr>\<rparr>"
    have "finish_copy s = (Inr (), ?s')"
      unfolding step using 3 len m(1) by (simp add: on_memory_def set_applier_def)
    moreover have "keeps base owned s input input (Inr (), ?s')"
    proof (rule written_keeps [OF ok nh, where k = "da_literalRemaining ?d" and p = Opcode and m = m])
      show "remaining base ?d input = map_option ((@) ?part) (remaining base (ds_applier ?s') input)"
        unfolding rem using 3 by (simp add: remaining_def)
    qed (use 3 len m(2) cb(1) in auto)
    ultimately show ?thesis by simp
  qed
qed

subsection \<open>The loop\<close>

lemma push_step_keeps:
  assumes ok: "applier_ok base owned s" and ne: "input \<noteq> []" and step: "push_step input s = (n, r, s')"
  shows "keeps base owned s (input @ rest) (drop n input @ rest) (r, s')"
proof -
  obtain b bs where input: "input = b # bs" using ne by (cases input) auto
  show ?thesis
  proof (cases "da_phase (ds_applier s)")
    case Copy
    let ?k = "next_bit (da_copyCommand (ds_applier s)) (da_copyBit (ds_applier s))"
    have skip: "applier_ok base owned (set_applier (skip_bits (ds_applier s)) s)"
        "outcome base (set_applier (skip_bits (ds_applier s)) s) x = outcome base s x" for x
      using skip_bits_keeps [OF ok Copy] by auto
    show ?thesis
    proof (cases "6 < ?k")
      case True
      then have fin: "finish_copy (set_applier (skip_bits (ds_applier s)) s) = (r, s')" "n = 0"
        using step Copy by (auto simp: push_step_def Let_def)
      have "keeps base owned (set_applier (skip_bits (ds_applier s)) s) (input @ rest) (input @ rest) (r, s')"
        using finish_copy_keeps [OF skip(1), of "input @ rest"] True Copy unfolding fin(1) by simp
      then show ?thesis using fin(2) by (simp add: keeps_def skip(2) split: sum.splits)
    next
      case False
      then have "n = 1" "r = Inr ()" "s' = set_applier ((copyByte ?k b (skip_bits (ds_applier s)))\<lparr>da_copyBit := ?k + 1\<rparr>) s"
        using step Copy input by (auto simp: push_step_def Let_def copyByte_fields)
      then show ?thesis using copy_byte_keeps [OF ok Copy refl, of s' b "bs @ rest"] False input by simp
    qed
  next
    case Literal
    then show ?thesis using step literal_step_keeps [OF ok Literal refl, of input rest] by (auto simp: push_step_def Let_def)
  qed (use step input ok header_step_keeps [OF ok, of b "bs @ rest"] opcode_step_keeps [OF ok, of b "bs @ rest"]
       in \<open>auto simp: push_step_def headed_def\<close>)
qed

lemma push_loop_keeps:
  assumes "applier_ok base owned s"
  shows "keeps base owned s (input @ rest) rest (push_loop input s)"
  using assms
proof (induction input s rule: push_loop.induct)
  case (1 input s)
  show ?case
  proof (cases "input = []")
    case True
    then show ?thesis using "1.prems" by (subst push_loop.simps) (simp add: keeps_def)
  next
    case False
    obtain n r s' where step: "push_step input s = (n, r, s')" by (cases "push_step input s") auto
    have k: "keeps base owned s (input @ rest) (drop n input @ rest) (r, s')"
      by (rule push_step_keeps [OF "1.prems" False step])
    show ?thesis
    proof (cases r)
      case (Inl e)
      then show ?thesis using False step k by (subst push_loop.simps) (simp add: keeps_def)
    next
      case (Inr u)
      then have "keeps base owned s' (drop n input @ rest) rest (push_loop (drop n input) s')"
        using "1.IH" [OF False step [symmetric]] k by (simp add: keeps_def)
      then have "keeps base owned s (input @ rest) rest (push_loop (drop n input) s')"
        using k Inr by (auto simp: keeps_def split: prod.splits sum.splits)
      then show ?thesis using False step Inr by (subst push_loop.simps) simp
    qed
  qed
qed

text \<open>Between two pushes a copy that needs no more bytes is never pending.\<close>

definition settled :: "DeltaApplier \<Rightarrow> bool" where
  "settled d \<longleftrightarrow> (da_phase d = Copy \<longrightarrow> next_bit (da_copyCommand d) (da_copyBit d) \<le> 6)"

lemma push_all_keeps:
  assumes ok: "applier_ok base owned s"
  shows "keeps base owned s (input @ rest) rest (push_all input s)
    \<and> (case push_all input s of (Inr _, s') \<Rightarrow> settled (ds_applier s') | _ \<Rightarrow> True)"
proof -
  obtain r s1 where loop: "push_loop input s = (r, s1)" by (cases "push_loop input s") auto
  have k: "keeps base owned s (input @ rest) rest (r, s1)" using push_loop_keeps [OF ok, of input rest] loop by simp
  show ?thesis
  proof (cases "\<exists>u. r = Inr u \<and> da_phase (ds_applier s1) = Copy")
    case True
    let ?s2 = "set_applier (skip_bits (ds_applier s1)) s1"
    from True have ok1: "applier_ok base owned s1" and ph: "da_phase (ds_applier s1) = Copy" "r = Inr ()"
      using k by (auto simp: keeps_def)
    have skip: "applier_ok base owned ?s2" "outcome base ?s2 rest = outcome base s1 rest"
      using skip_bits_keeps [OF ok1 ph(1)] by auto
    show ?thesis
    proof (cases "6 < da_copyBit (skip_bits (ds_applier s1))")
      case big: True
      have "keeps base owned ?s2 rest rest (finish_copy ?s2)"
        using finish_copy_keeps [OF skip(1), of rest] ph(1) big by simp
      then have "keeps base owned s (input @ rest) rest (finish_copy ?s2)"
        using k ph(2) skip(2) by (auto simp: keeps_def split: prod.splits sum.splits)
      moreover have "settled (ds_applier s')" if "finish_copy ?s2 = (Inr u, s')" for u s'
        using finish_copy_phase [of ?s2 s'] that by (simp add: settled_def)
      ultimately show ?thesis using loop ph big by (auto simp: push_all_def bindS_def Let_def split: prod.splits sum.splits)
    next
      case False
      then have "keeps base owned s (input @ rest) rest (Inr (), ?s2)"
        using k ph(2) skip by (auto simp: keeps_def)
      then show ?thesis using loop ph False by (simp add: push_all_def bindS_def Let_def settled_def)
    qed
  next
    case False
    then show ?thesis using k loop by (auto simp: push_all_def bindS_def settled_def split: sum.splits)
  qed
qed

subsection \<open>Pushes and the end\<close>

text \<open>The calls of a client: the chunks of a delta in order, then \<open>finish\<close>.\<close>

fun push_chunks :: "bytes list \<Rightarrow> (delta_state, unit) action" where
  "push_chunks [] = returnS ()"
| "push_chunks (c # cs) = bindS (da_push c) (\<lambda>_. push_chunks cs)"

definition delta_run :: "bytes list \<Rightarrow> (delta_state, ChunkedBytes) action" where
  "delta_run cs = bindS (push_chunks cs) (\<lambda>_. da_finish)"

text \<open>A failed call gives back what it took from the pool.\<close>

definition failed_clean :: "nat set \<Rightarrow> 'a result \<times> delta_state \<Rightarrow> bool" where
  "failed_clean owned r = (case r of (Inl e, s') \<Rightarrow> memory_ok (ds_memory s') \<and> pool_checkedOut (pool (ds_memory s')) = owned | _ \<Rightarrow> False)"

lemma fail_applier_clean:
  assumes "target_ok owned s"
  shows "\<exists>s'. fail_applier s = (Inr (), s') \<and> memory_ok (ds_memory s') \<and> pool_checkedOut (pool (ds_memory s')) = owned"
proof (cases "da_target (ds_applier s)")
  case None
  then show ?thesis using assms by (simp add: fail_applier_def releaseTarget_def target_ok_def)
next
  case (Some cb)
  then have cb: "memory_ok (ds_memory s)" "cb_ok (ds_memory s) cb" "pool_checkedOut (pool (ds_memory s)) = owned \<union> set (cb_chunks cb)"
      "owned \<inter> set (cb_chunks cb) = {}"
    using assms by (auto simp: target_ok_def)
  obtain m' where "cb_release cb (ds_memory s) = (Inr (), cb\<lparr>cb_released := True, cb_chunks := []\<rparr>, m')" "memory_ok m'"
      "pool_checkedOut (pool m') = pool_checkedOut (pool (ds_memory s)) - set (cb_chunks cb)"
    using cb_release_ok [OF cb(1,2)] by auto
  then show ?thesis using Some cb(3,4) by (auto simp: fail_applier_def releaseTarget_def)
qed

lemma cleanup_clean:
  assumes "m s = (Inl e, s1)" "target_ok owned s1"
  shows "failed_clean owned (cleanupS m fail_applier s)"
  using fail_applier_clean [OF assms(2)] assms(1) by (auto simp: cleanupS_def failed_clean_def)

definition chunk_admitted :: "bytes \<Rightarrow> delta_state \<Rightarrow> bool" where
  "chunk_admitted c s \<longleftrightarrow> da_instructionBytes (ds_applier s) + length c \<le> da_maxInstruction (ds_applier s)"

lemma usable: "applier_ok base owned s \<Longrightarrow> assertUsable (ds_applier s) = Inr ()"
  by (simp add: applier_ok_def assertUsable_def Let_def)

lemma outcome_instruction_bytes:
  "applier_ok base owned s \<Longrightarrow> applier_ok base owned (set_applier ((ds_applier s)\<lparr>da_instructionBytes := k\<rparr>) s)
     \<and> outcome base (set_applier ((ds_applier s)\<lparr>da_instructionBytes := k\<rparr>) s) x = outcome base s x"
proof -
  have "admitted (set_applier ((ds_applier s)\<lparr>da_instructionBytes := k\<rparr>) s) = admitted s"
    by (rule ext) (simp add: admitted_def Let_def)
  then have t: "target_outcome base (set_applier ((ds_applier s)\<lparr>da_instructionBytes := k\<rparr>) s) = target_outcome base s"
    by (intro ext) (simp add: target_outcome_def split: option.split)
  have r: "remaining base ((ds_applier s)\<lparr>da_instructionBytes := k\<rparr>) x = remaining base (ds_applier s) x"
    by (simp add: remaining_def split: DeltaPhase.split)
  have h: "headed ((ds_applier s)\<lparr>da_instructionBytes := k\<rparr>) = headed (ds_applier s)" by (simp add: headed_def)
  assume "applier_ok base owned s"
  then have "applier_ok base owned (set_applier ((ds_applier s)\<lparr>da_instructionBytes := k\<rparr>) s)"
    by (cases "da_target (ds_applier s)") (auto simp: applier_ok_def target_ok_def h Let_def split: if_splits)
  moreover have "outcome base (set_applier ((ds_applier s)\<lparr>da_instructionBytes := k\<rparr>) s) x = outcome base s x"
    by (simp add: outcome_def t r Let_def split: DeltaPhase.split option.split)
  ultimately show ?thesis ..
qed

lemma da_push_ok:
  assumes ok: "applier_ok base owned s"
  shows "(\<exists>s'. da_push c s = (Inr (), s') \<and> chunk_admitted c s \<and> applier_ok base owned s' \<and> settled (ds_applier s')
       \<and> da_instructionBytes (ds_applier s') = da_instructionBytes (ds_applier s) + length c
       \<and> da_maxInstruction (ds_applier s') = da_maxInstruction (ds_applier s)
       \<and> (\<forall>rest. outcome base s (c @ rest) = outcome base s' rest))
    \<or> (failed_clean owned (da_push c s) \<and> (chunk_admitted c s \<longrightarrow> (\<forall>rest. outcome base s (c @ rest) = None)))"
proof -
  let ?s1 = "set_applier ((ds_applier s)\<lparr>da_instructionBytes := da_instructionBytes (ds_applier s) + length c\<rparr>) s"
  let ?body = "\<lambda>s. if int (da_maxInstruction (ds_applier s)) - int (da_instructionBytes (ds_applier s)) < int (length c)
      then (Inl (CorruptError ''delta instruction stream too large''), s)
      else push_all c (set_applier ((ds_applier s)\<lparr>da_instructionBytes := da_instructionBytes (ds_applier s) + length c\<rparr>) s)"
  have push: "da_push c s = cleanupS ?body fail_applier s" unfolding da_push_def usable [OF ok] by simp
  have guard: "int (da_maxInstruction (ds_applier s)) - int (da_instructionBytes (ds_applier s)) < int (length c) \<longleftrightarrow> \<not> chunk_admitted c s"
    unfolding chunk_admitted_def by linarith
  show ?thesis
  proof (cases "chunk_admitted c s")
    case False
    then have "?body s = (Inl (CorruptError ''delta instruction stream too large''), s)" using guard by simp
    moreover have "target_ok owned s" using ok by (simp add: applier_ok_def Let_def)
    ultimately show ?thesis using cleanup_clean [of ?body s] push False by auto
  next
    case True
    have s1: "applier_ok base owned ?s1" "outcome base ?s1 x = outcome base s x" for x
      using outcome_instruction_bytes [OF ok] by auto
    obtain r s' where run: "push_all c ?s1 = (r, s')" by (cases "push_all c ?s1") auto
    have k: "keeps base owned ?s1 (c @ rest) rest (r, s')" "\<And>u. r = Inr u \<Longrightarrow> settled (ds_applier s')" for rest
      using push_all_keeps [OF s1(1), of c rest] run by auto
    have body: "?body s = (r, s')" using True guard run by simp
    show ?thesis
    proof (cases r)
      case (Inl e)
      then have "target_ok owned s'" "outcome base s (c @ rest) = None" for rest using k(1) s1(2) by (simp_all add: keeps_def)
      then show ?thesis using cleanup_clean [of ?body s e s' owned] body Inl push by simp
    next
      case (Inr u)
      then have "da_push c s = (Inr (), s')" using cleanupS_Inr [of ?body s u s' fail_applier] body push by simp
      moreover have "applier_ok base owned s' \<and> outcome base s (c @ rest) = outcome base s' rest
          \<and> da_instructionBytes (ds_applier s') = da_instructionBytes (ds_applier s) + length c
          \<and> da_maxInstruction (ds_applier s') = da_maxInstruction (ds_applier s)" for rest
        using k(1) [of rest] s1(2) Inr by (simp add: keeps_def)
      ultimately show ?thesis using True k(2) [OF Inr] by blast
    qed
  qed
qed

lemma da_finish_ok:
  assumes ok: "applier_ok base owned s" and st: "settled (ds_applier s)"
  shows "case outcome base s [] of
      Some out \<Rightarrow> \<exists>cb s'. da_finish s = (Inr cb, s') \<and> cb_ok (ds_memory s') cb \<and> memory_ok (ds_memory s') \<and> contents (ds_memory s') cb = out
    | None \<Rightarrow> failed_clean owned (da_finish s)"
proof -
  let ?d = "ds_applier s"
  let ?body = "\<lambda>s. let d = ds_applier s in
             if da_phase d = Literal then (Inl (CorruptError ''delta literal truncated''), s)
             else if da_phase d \<noteq> Opcode then (Inl (CorruptError ''delta truncated''), s)
             else if da_written d \<noteq> da_targetSize d then (Inl (CorruptError ''delta target size mismatch''), s)
             else bindS (liftS (requireTarget d)) (\<lambda>target s.
                    (Inr target, set_applier (d\<lparr>da_target := None, da_finished := True\<rparr>) s)) s"
  have fin: "da_finish s = cleanupS ?body fail_applier s" unfolding da_finish_def usable [OF ok] by simp
  have t: "target_ok owned s" using ok by (simp add: applier_ok_def Let_def)
  have failing: ?thesis if "?body s = (Inl e, s)" "outcome base s [] = None" for e
    using cleanup_clean [of ?body, OF that(1) t] that(2) fin by simp
  show ?thesis
  proof (cases "da_phase ?d")
    case Opcode
    then have nh: "\<not> headed ?d" by (simp add: headed_def)
    from applier_target [OF ok nh] obtain cb where cb: "da_target ?d = Some cb" "cb_ok (ds_memory s) cb" "cb_length cb = da_targetSize ?d"
        "memory_ok (ds_memory s)" "requireTarget ?d = Inr cb" "da_written ?d \<le> da_targetSize ?d" by metis
    have out: "outcome base s [] = (if da_written ?d = da_targetSize ?d then Some (contents (ds_memory s) cb) else None)"
      using Opcode cb(1,3,6) by (auto simp: outcome_body [OF nh] remaining_def sized_Some)
    show ?thesis
    proof (cases "da_written ?d = da_targetSize ?d")
      case True
      then have "?body s = (Inr cb, set_applier (?d\<lparr>da_target := None, da_finished := True\<rparr>) s)" using Opcode cb(5) by simp
      then show ?thesis using cleanupS_Inr [of ?body s] True out cb(2,4) fin by simp
    qed (rule failing, use Opcode out in simp_all)
  next
    case Copy
    then show ?thesis using st
      by (intro failing [of "CorruptError ''delta truncated''"]) (simp_all add: settled_def outcome_body headed_def remaining_def)
  next
    case Literal
    then show ?thesis using ok
      by (intro failing [of "CorruptError ''delta literal truncated''"]) (simp_all add: outcome_body headed_def remaining_def applier_ok_def Let_def)
  next
    case SourceSize
    then show ?thesis by (intro failing [of "CorruptError ''delta truncated''"]) (simp_all add: outcome_def)
  next
    case TargetSize
    then show ?thesis by (intro failing [of "CorruptError ''delta truncated''"]) (simp_all add: outcome_def target_outcome_def)
  qed
qed

definition ends :: "nat set \<Rightarrow> bytes option \<Rightarrow> ChunkedBytes result \<times> delta_state \<Rightarrow> bool" where
  "ends owned r res = (case r of
      Some out \<Rightarrow> (case res of (Inr cb, s') \<Rightarrow> memory_ok (ds_memory s') \<and> cb_ok (ds_memory s') cb \<and> contents (ds_memory s') cb = out
                  | _ \<Rightarrow> False)
    | None \<Rightarrow> failed_clean owned res)"

lemma ends_simps:
  "ends owned None res \<longleftrightarrow> failed_clean owned res"
  "ends owned (Some out) res \<longleftrightarrow>
     (\<exists>cb s'. res = (Inr cb, s') \<and> memory_ok (ds_memory s') \<and> cb_ok (ds_memory s') cb \<and> contents (ds_memory s') cb = out)"
  by (simp_all add: ends_def split: prod.split sum.split)

lemma delta_run_ok:
  assumes "applier_ok base owned s" "settled (ds_applier s)" "da_instructionBytes (ds_applier s) \<le> da_maxInstruction (ds_applier s)"
  shows "ends owned (if da_instructionBytes (ds_applier s) + length (concat cs) \<le> da_maxInstruction (ds_applier s)
          then outcome base s (concat cs) else None) (delta_run cs s)"
  using assms
proof (induction cs arbitrary: s)
  case Nil
  have "delta_run [] = da_finish" by (rule ext) (simp add: delta_run_def)
  then show ?case using da_finish_ok [OF Nil(1,2)] Nil(3) by (auto simp: ends_def split: option.splits)
next
  case (Cons c cs)
  consider (ok) s' where "da_push c s = (Inr (), s')" "chunk_admitted c s" "applier_ok base owned s'" "settled (ds_applier s')"
      "da_instructionBytes (ds_applier s') = da_instructionBytes (ds_applier s) + length c"
      "da_maxInstruction (ds_applier s') = da_maxInstruction (ds_applier s)" "\<And>rest. outcome base s (c @ rest) = outcome base s' rest"
    | (bad) "failed_clean owned (da_push c s)" "chunk_admitted c s \<longrightarrow> (\<forall>rest. outcome base s (c @ rest) = None)"
    using da_push_ok [OF Cons.prems(1), of c] by blast
  then show ?case
  proof cases
    case ok
    have "delta_run (c # cs) s = delta_run cs s'" by (simp add: delta_run_def bindS_assoc bindS_Inr [where m = "da_push c", OF ok(1)])
    then show ?thesis using Cons.IH [OF ok(3,4)] ok(2,5-7) by (auto simp: add.assoc chunk_admitted_def split: if_splits)
  next
    case bad
    then obtain e s' where e: "da_push c s = (Inl e, s')"
      by (cases "da_push c s"; cases "fst (da_push c s)") (auto simp: failed_clean_def)
    have "delta_run (c # cs) s = (Inl e, s')" by (simp add: delta_run_def bindS_assoc bindS_Inl [where m = "da_push c", OF e])
    then show ?thesis using bad e by (auto simp: ends_def failed_clean_def chunk_admitted_def)
  qed
qed

section \<open>The buffered reader\<close>

subsection \<open>Copy arguments\<close>

lemma bindR_cong: "r = r' \<Longrightarrow> (\<And>x. r' = Inr x \<Longrightarrow> f x = g x) \<Longrightarrow> bindR r f = bindR r' g"
  by (cases r') simp_all

lemma opt_next_small: "opt_next delta pos f = Inr (a, pos') \<Longrightarrow> a < 256"
  by (auto simp: opt_next_def split: if_splits)

lemma opt_next_drop:
  "opt_next delta pos f = (if f then case drop pos delta of [] \<Rightarrow> Inl (CorruptError ''delta truncated'') | b # bs \<Rightarrow> Inr (unat b, pos + 1)
     else Inr (0, pos))"
  by (auto simp: opt_next_def delta_next_def hd_drop_conv_nth split: list.split) (metis hd_drop_conv_nth list.sel(1) not_less)

definition nonzero_size :: "nat \<Rightarrow> nat" where
  "nonzero_size n = (if n = 0 then 0x10000 else n)"

definition args_from :: "bytes \<Rightarrow> byte \<Rightarrow> nat \<Rightarrow> nat \<times> nat \<Rightarrow> nat \<Rightarrow> (nat \<times> nat \<times> nat) result" where
  "args_from delta c k flds pos = (case copy_fields c k flds (drop pos delta) of
      None \<Rightarrow> Inl (CorruptError ''delta truncated'')
    | Some ((off, n), rest) \<Rightarrow> Inr (off, nonzero_size n, pos + (length delta - pos - length rest)))"

definition field_add :: "nat \<Rightarrow> nat \<Rightarrow> nat \<times> nat \<Rightarrow> nat \<times> nat" where
  "field_add k a flds = (case flds of (off, n) \<Rightarrow> if k \<le> 3 then (off + a * 256 ^ k, n) else (off, n + a * 256 ^ (k - 4)))"

lemma field_add_0 [simp]: "field_add k 0 flds = flds" by (cases flds) (simp add: field_add_def)

lemma args_from_step:
  assumes "k \<le> 6"
  shows "args_from delta c k flds pos =
    bindR (opt_next delta pos (c AND 2 ^ k \<noteq> 0)) (\<lambda>(a, pos'). args_from delta c (k + 1) (field_add k a flds) pos')"
proof (cases "c AND 2 ^ k = 0")
  case True
  then have "next_bit c k = next_bit c (k + 1)" using assms by (subst next_bit.simps) simp
  then have "copy_fields c k flds xs = copy_fields c (k + 1) flds xs" for xs by (cases xs) simp_all
  then show ?thesis using True by (simp add: args_from_def opt_next_def)
next
  case False
  then have k: "next_bit c k = k" by (subst next_bit.simps) simp
  show ?thesis
  proof (cases "drop pos delta")
    case Nil
    then show ?thesis using False assms k by (simp add: args_from_def opt_next_drop)
  next
    case (Cons b bs)
    then have bs: "drop (pos + 1) delta = bs" by (metis add.commute drop_drop drop_Suc_Cons drop_0 plus_1_eq_Suc)
    have add: "copy_add k b flds = field_add k (unat b) flds" by (simp add: copy_add_def field_add_def)
    have len: "length delta - pos = Suc (length bs)" using Cons by (metis length_Cons length_drop)
    show ?thesis
    proof (cases "copy_fields c (k + 1) (field_add k (unat b) flds) bs")
      case (Some r)
      then show ?thesis using copy_fields_shorter [of c "k + 1" "field_add k (unat b) flds" bs "fst r" "snd r"] len
        using False assms k Cons bs by (auto simp: args_from_def opt_next_drop add split: prod.split)
    qed (use False assms k Cons bs in \<open>simp add: args_from_def opt_next_drop add\<close>)
  qed
qed

lemma args_from_end: "args_from delta c 7 (off, n) pos = Inr (off, nonzero_size n, pos)"
proof -
  have "next_bit c 7 = 7" by (subst next_bit.simps) simp
  then have "copy_fields c 7 (off, n) (drop pos delta) = Some ((off, n), drop pos delta)"
    by (cases "drop pos delta") simp_all
  then show ?thesis by (simp add: args_from_def)
qed

lemma or_push_bit: "a < 2 ^ n \<Longrightarrow> a OR push_bit n b = a + b * 2 ^ n" for a b :: nat
proof -
  assume "a < 2 ^ n"
  then have a: "take_bit n a = a" by (simp add: take_bit_nat_eq_self)
  have "take_bit n a AND push_bit n b = 0" by (simp add: bit_eq_iff bit_simps)
  then have "a + push_bit n b = a OR push_bit n b" unfolding a by (rule disjunctive_add_eq_or)
  then show ?thesis by (simp add: push_bit_eq_mult)
qed

lemma or_bytes:
  fixes a b c :: nat
  assumes "a < 256" "b < 256"
  shows "a OR push_bit 8 b OR push_bit 16 c = a + b * 256 + c * 65536"
proof -
  have "push_bit 8 b OR push_bit 16 c = push_bit 8 (b OR push_bit 8 c)" by (simp add: push_bit_or)
  then show ?thesis using or_push_bit [of a 8 "b OR push_bit 8 c"] or_push_bit [of b 8 c] assms by simp
qed

lemma copy_args_eq: "copy_args delta pos c = args_from delta c 0 (0, 0) pos"
proof -
  note st = args_from_step [of _ delta c]
  have e: "args_from delta c 0 f p = bindR (opt_next delta p (c AND 0x01 \<noteq> 0)) (\<lambda>(a, p). args_from delta c 1 (field_add 0 a f) p)"
    "args_from delta c 2 f p = bindR (opt_next delta p (c AND 0x04 \<noteq> 0)) (\<lambda>(a, p). args_from delta c 3 (field_add 2 a f) p)"
    "args_from delta c 3 f p = bindR (opt_next delta p (c AND 0x08 \<noteq> 0)) (\<lambda>(a, p). args_from delta c 4 (field_add 3 a f) p)"
    "args_from delta c 4 f p = bindR (opt_next delta p (c AND 0x10 \<noteq> 0)) (\<lambda>(a, p). args_from delta c 5 (field_add 4 a f) p)"
    "args_from delta c 5 f p = bindR (opt_next delta p (c AND 0x20 \<noteq> 0)) (\<lambda>(a, p). args_from delta c 6 (field_add 5 a f) p)"
    "args_from delta c 6 f p = bindR (opt_next delta p (c AND 0x40 \<noteq> 0)) (\<lambda>(a, p). args_from delta c 7 (field_add 6 a f) p)"
    for f p
    using st [of 0 f p] st [of 2 f p] st [of 3 f p] st [of 4 f p] st [of 5 f p] st [of 6 f p]
    by simp_all
  have e1: "args_from delta c 1 f p = bindR (opt_next delta p (c AND 0x02 \<noteq> 0)) (\<lambda>(a, p). args_from delta c 2 (field_add 1 a f) p)" for f p
    using st [of 1 f p] by (simp add: numeral_2_eq_2)
  have end7: "args_from delta c 7 f p = Inr (fst f, nonzero_size (snd f), p)" for f p by (cases f) (simp add: args_from_end)
  show ?thesis
    unfolding copy_args_def e e1 end7
    apply (rule bindR_cong, rule refl, clarify)+
    by (auto dest!: opt_next_small simp: Let_def field_add_def nonzero_size_def or_bytes)
qed

lemma copy_fields_suffix: "copy_fields c k flds bs = Some (flds', rest) \<Longrightarrow> \<exists>n. rest = drop n bs \<and> n \<le> length bs"
proof (induction bs arbitrary: k flds)
  case (Cons b bs)
  show ?case
  proof (cases "6 < next_bit c k")
    case True
    then show ?thesis using Cons.prems by (intro exI [of _ 0]) simp
  next
    case False
    then obtain n where "rest = drop n bs" "n \<le> length bs" 
      using Cons.prems Cons.IH [of "Suc (next_bit c k)" "copy_add (next_bit c k) b flds"] by (auto simp: Let_def)
    then show ?thesis by (intro exI [of _ "Suc n"]) simp
  qed
qed (simp split: if_splits)

lemma args_from_Some:
  assumes "copy_fields c 0 (0, 0) (drop pos delta) = Some ((off, n), rest)" "pos \<le> length delta"
  shows "\<exists>pos'. copy_args delta pos c = Inr (off, nonzero_size n, pos') \<and> drop pos' delta = rest"
proof -
  obtain k where k: "rest = drop k (drop pos delta)" "k \<le> length (drop pos delta)" using copy_fields_suffix [OF assms(1)] by blast
  then have "pos + (length delta - pos - length rest) = pos + k" using assms(2) by simp
  then show ?thesis using assms(1) k by (simp add: copy_args_eq args_from_def add.commute)
qed

text \<open>Writing a part that fits moves it from what is to come to what is written; one that does not ends in nothing.\<close>

lemma sized_step:
  assumes "length part = n" "w + n \<le> length out"
  shows "sized t (map_option ((@) (take (w + n) (set_at out w part))) r) = sized t (map_option ((@) (take w out)) (map_option ((@) part) r))"
  using take_set_at [of w part out] assms by (cases r) simp_all

lemma sized_over:
  assumes "t < w + length part" "w \<le> length out"
  shows "sized t (map_option ((@) (take w out)) (map_option ((@) part) r)) = None"
  using assms by (cases r) (simp_all add: sized_Some)

lemma apply_literal_spec:
  assumes "length out = t" "w \<le> t" "pos \<le> length delta"
  shows "if n \<le> length (drop pos delta) \<and> w + n \<le> t
    then apply_literal (Fin t) delta pos n out w = Inr (set_at out w (take n (drop pos delta))) \<and> length (take n (drop pos delta)) = n
    else (\<exists>e. apply_literal (Fin t) delta pos n out w = Inl e)
      \<and> (length (drop pos delta) < n \<or> sized t (map_option ((@) (take w out)) (map_option ((@) (take n (drop pos delta))) r)) = None)"
  using assms sized_over [of t w "take n (drop pos delta)" out r]
  by (auto simp: apply_literal_def out_set_def guardR_def)

lemma apply_copy_spec:
  assumes "length out = t" "w \<le> t"
  shows "if off + n \<le> length base \<and> w + n \<le> t
    then apply_copy base (Fin t) off n out w = Inr (set_at out w (take n (drop off base))) \<and> length (take n (drop off base)) = n
    else (\<exists>e. apply_copy base (Fin t) off n out w = Inl e)
      \<and> (length base < off + n \<or> sized t (map_option ((@) (take w out)) (map_option ((@) (take n (drop off base))) r)) = None)"
  using assms sized_over [of t w "take n (drop off base)" out r]
  by (auto simp: apply_copy_def out_set_def guardR_def)

text \<open>The statement the induction proves of a position: the loop ends with the target full exactly when the instructions do.\<close>

definition loop_agrees :: "bytes \<Rightarrow> bytes \<Rightarrow> nat \<Rightarrow> nat \<Rightarrow> bytes \<Rightarrow> nat \<Rightarrow> bytes \<Rightarrow> bool" where
  "loop_agrees base delta t pos out w out' \<longleftrightarrow>
     (apply_loop base delta (Fin t) pos out w = Inr (out', t))
     = (sized t (map_option ((@) (take w out)) (run_instructions base (drop pos delta))) = Some out')"

lemma loop_literal:
  assumes pos: "pos < length delta" and c: "delta ! pos AND 0x80 = 0" "delta ! pos \<noteq> 0" and out: "length out = t" "w \<le> t"
    and IH: "\<And>out1. apply_literal (Fin t) delta (Suc pos) (unat (delta ! pos)) out w = Inr out1 \<Longrightarrow> length out1 = t \<Longrightarrow> w + unat (delta ! pos) \<le> t \<Longrightarrow>
      loop_agrees base delta t (Suc pos + unat (delta ! pos)) out1 (w + unat (delta ! pos)) out'"
  shows "loop_agrees base delta t pos out w out'"
proof -
  let ?n = "unat (delta ! pos)" and ?part = "take (unat (delta ! pos)) (drop (Suc pos) delta)"
  have run: "run_instructions base (drop pos delta) = (if length (drop (Suc pos) delta) < ?n then None
      else map_option ((@) ?part) (run_instructions base (drop (Suc pos + ?n) delta)))"
    using pos c by (simp add: Cons_nth_drop_Suc [symmetric] add.commute)
  have loop: "apply_loop base delta (Fin t) pos out w = (case apply_literal (Fin t) delta (Suc pos) ?n out w of
      Inl e \<Rightarrow> Inl e | Inr out1 \<Rightarrow> apply_loop base delta (Fin t) (Suc pos + ?n) out1 (w + ?n))"
    using pos c by (subst apply_loop.simps) (simp add: Let_def)
  note spec = apply_literal_spec [OF out, of "Suc pos" delta ?n "run_instructions base (drop (Suc pos + ?n) delta)"]
  show ?thesis
  proof (cases "?n \<le> length (drop (Suc pos) delta) \<and> w + ?n \<le> t")
    case True
    then have al: "apply_literal (Fin t) delta (Suc pos) ?n out w = Inr (set_at out w ?part)" "length ?part = ?n"
      using spec pos by (auto simp del: length_drop length_take)
    have "loop_agrees base delta t (Suc pos + ?n) (set_at out w ?part) (w + ?n) out'"
      using IH [OF al(1)] al(2) True out by simp
    then show ?thesis using al True out by (simp add: loop_agrees_def loop run sized_step del: length_drop length_take option.map_comp)
  next
    case False
    then show ?thesis using spec pos by (auto simp: loop_agrees_def loop run simp del: option.map_comp)
  qed
qed

lemma loop_copy:
  assumes pos: "pos < length delta" and c: "delta ! pos AND 0x80 \<noteq> 0" and out: "length out = t" "w \<le> t"
    and IH: "\<And>off n pos' out1. copy_args delta (Suc pos) (delta ! pos) = Inr (off, n, pos') \<Longrightarrow> apply_copy base (Fin t) off n out w = Inr out1 \<Longrightarrow>
      length out1 = t \<Longrightarrow> w + n \<le> t \<Longrightarrow> loop_agrees base delta t pos' out1 (w + n) out'"
  shows "loop_agrees base delta t pos out w out'"
proof (cases "copy_fields (delta ! pos) 0 (0, 0) (drop (Suc pos) delta)")
  case None
  then have "copy_args delta (Suc pos) (delta ! pos) = Inl (CorruptError ''delta truncated'')" by (simp add: copy_args_eq args_from_def)
  then show ?thesis using pos c None
    by (simp add: loop_agrees_def apply_loop.simps [of base delta _ pos] Cons_nth_drop_Suc [symmetric] Let_def)
next
  case (Some r)
  then obtain off k rest where cf: "copy_fields (delta ! pos) 0 (0, 0) (drop (Suc pos) delta) = Some ((off, k), rest)" by (cases r) auto
  then obtain pos' where ca: "copy_args delta (Suc pos) (delta ! pos) = Inr (off, nonzero_size k, pos')" "drop pos' delta = rest"
    using args_from_Some [of _ "Suc pos" delta off k rest] pos by auto
  let ?n = "nonzero_size k" and ?part = "take (nonzero_size k) (drop off base)"
  have run: "run_instructions base (drop pos delta) = (if off + ?n \<le> length base then map_option ((@) ?part) (run_instructions base rest) else None)"
    using pos c cf by (simp add: Cons_nth_drop_Suc [symmetric] copy_out_def nonzero_size_def Let_def)
  have loop: "apply_loop base delta (Fin t) pos out w = (case apply_copy base (Fin t) off ?n out w of
      Inl e \<Rightarrow> Inl e | Inr out1 \<Rightarrow> apply_loop base delta (Fin t) pos' out1 (w + ?n))"
    using pos c ca by (subst apply_loop.simps) (simp add: Let_def)
  note spec = apply_copy_spec [OF out, of off ?n base "run_instructions base rest"]
  show ?thesis
  proof (cases "off + ?n \<le> length base \<and> w + ?n \<le> t")
    case True
    then have ac: "apply_copy base (Fin t) off ?n out w = Inr (set_at out w ?part)" "length ?part = ?n"
      using spec by (auto simp del: length_drop length_take)
    have "loop_agrees base delta t pos' (set_at out w ?part) (w + ?n) out'"
      using IH [OF ca(1) ac(1)] ac(2) True out by simp
    then show ?thesis using ac True out ca(2) by (simp add: loop_agrees_def loop run sized_step del: length_drop length_take option.map_comp)
  next
    case False
    then show ?thesis using spec by (auto simp: loop_agrees_def loop run simp del: option.map_comp)
  qed
qed

lemma apply_loop_agrees:
  assumes "targetSize = Fin t" "length out = t" "w \<le> t"
  shows "loop_agrees base delta t pos out w out'"
  using assms
proof (induction base delta targetSize pos out w rule: apply_loop.induct)
  case (1 base delta targetSize pos out w)
  consider (stop) "length delta \<le> pos" | (copy) "pos < length delta" "delta ! pos AND 0x80 \<noteq> 0"
    | (zero) "pos < length delta" "delta ! pos = 0" | (lit) "pos < length delta" "delta ! pos AND 0x80 = 0" "delta ! pos \<noteq> 0"
    by fastforce
  then show ?case
  proof cases
    case stop
    then show ?thesis using "1.prems" by (auto simp: loop_agrees_def apply_loop.simps [of base delta _ pos] sized_Some)
  next
    case zero
    then show ?thesis by (simp add: loop_agrees_def apply_loop.simps [of base delta _ pos] Cons_nth_drop_Suc [symmetric] Let_def)
  next
    case copy
    show ?thesis
    proof (rule loop_copy [OF copy "1.prems"(2,3)])
      fix off n pos' out1
      assume args: "copy_args delta (Suc pos) (delta ! pos) = Inr (off, n, pos')" and ac: "apply_copy base (Fin t) off n out w = Inr out1"
        and fits: "length out1 = t" "w + n \<le> t"
      show "loop_agrees base delta t pos' out1 (w + n) out'"
        by (rule "1.IH"(1) [OF copy(1) refl refl copy(2) _ refl refl _ "1.prems"(1) fits]) (use args ac "1.prems"(1) in simp_all)
    qed
  next
    case lit
    show ?thesis
    proof (rule loop_literal [OF lit "1.prems"(2,3)])
      fix out1
      assume al: "apply_literal (Fin t) delta (Suc pos) (unat (delta ! pos)) out w = Inr out1"
        and fits: "length out1 = t" "w + unat (delta ! pos) \<le> t"
      have "loop_agrees base delta t (pos + 1 + unat (delta ! pos)) out1 (w + unat (delta ! pos)) out'"
        by (rule "1.IH"(2) [OF lit(1) refl refl _ lit(3) _ "1.prems"(1) fits]) (use lit(2) al "1.prems"(1) in simp_all)
      then show "loop_agrees base delta t (Suc pos + unat (delta ! pos)) out1 (w + unat (delta ! pos)) out'" by simp
    qed
  qed
qed

subsection \<open>Size fields\<close>

definition field_length :: "bytes \<Rightarrow> nat" where
  "field_length bs = Suc (length (takeWhile (\<lambda>b. b AND 0x80 \<noteq> 0) bs))"

text \<open>Both size fields take at most eight bytes.\<close>

definition short_header :: "bytes \<Rightarrow> bool" where
  "short_header delta \<longleftrightarrow> field_length delta \<le> 8 \<and> field_length (drop (field_length delta) delta) \<le> 8"

definition big :: "jsnum \<Rightarrow> bool" where
  "big r \<longleftrightarrow> (case r of Fin k \<Rightarrow> 2 ^ 53 \<le> k | _ \<Rightarrow> True)"

lemma big_to_num: "2 ^ 53 \<le> n \<Longrightarrow> big (to_num n)"
  using double_of_nat_ge [of n] by (simp add: to_num_def big_def)

lemma big_add: "big r \<Longrightarrow> big (num_add r x)" "big x \<Longrightarrow> big (num_add r x)"
  by (cases r; cases x; auto simp: big_def intro!: big_to_num [unfolded big_def])+

lemma num_scale_small: "k < 1024 \<Longrightarrow> is_safe (x * 2 ^ k) \<Longrightarrow> num_scale x k = Fin (x * 2 ^ k)"
  by (simp add: num_scale_def is_safe_def max_safe_integer_def to_num_def)

lemma varint_step:
  assumes "pos < length delta"
  shows "apply_varint delta pos res k =
    (let res' = num_add res (num_scale (unat (delta ! pos AND 0x7f)) k)
     in if delta ! pos AND 0x80 \<noteq> 0 then apply_varint delta (Suc pos) res' (k + 7) else Inr (res', Suc pos))"
  using assms by (subst apply_varint.simps) (simp add: delta_next_def)

lemma varint_end: "length delta \<le> pos \<Longrightarrow> apply_varint delta pos res k = Inl (CorruptError ''delta truncated'')"
  by (subst apply_varint.simps) (simp add: delta_next_def)

lemma field_length_step:
  assumes "pos < length delta"
  shows "field_length (drop pos delta) = (if delta ! pos AND 0x80 \<noteq> 0 then Suc (field_length (drop (Suc pos) delta)) else 1)"
  using assms by (simp add: field_length_def Cons_nth_drop_Suc [symmetric])

lemma varint_result:
  assumes "apply_varint delta pos r k = Inr (x, pos')"
  shows "pos' = pos + field_length (drop pos delta) \<and> (big r \<longrightarrow> big x)"
  using assms
proof (induction delta pos r k rule: apply_varint.induct)
  case (1 delta pos r k)
  show ?case
  proof (cases "pos < length delta")
    case True
    let ?r' = "num_add r (num_scale (unat (delta ! pos AND 0x7f)) k)"
    show ?thesis
    proof (cases "delta ! pos AND 0x80 = 0")
      case True
      then show ?thesis using "1.prems" \<open>pos < length delta\<close> by (auto simp: varint_step field_length_step big_add)
    next
      case False
      have "pos' = Suc pos + field_length (drop (Suc pos) delta) \<and> (big ?r' \<longrightarrow> big x)"
        by (rule "1.IH" [of "(delta ! pos, Suc pos)" "delta ! pos" "Suc pos"])
           (use False True "1.prems" in \<open>simp_all add: delta_next_def varint_step\<close>)
      then show ?thesis using True False by (simp add: field_length_step big_add)
    qed
  qed (use "1.prems" in \<open>simp add: varint_end\<close>)
qed

lemma size_from_varint:
  assumes "size_from v (2 ^ (7 * i)) (drop pos delta) = Some (n, rest)" "is_safe v" "is_safe (2 ^ (7 * i))"
  shows "apply_varint delta pos (Fin v) (7 * i) = Inr (Fin n, pos + field_length (drop pos delta))
    \<and> rest = drop (pos + field_length (drop pos delta)) delta \<and> is_safe n"
  using assms
proof (induction "drop pos delta" arbitrary: v i pos)
  case (Cons b bs)
  then have pos: "pos < length delta" by (metis drop_eq_Nil2 list.distinct(1) not_less)
  have b: "b = delta ! pos" "bs = drop (Suc pos) delta" using Cons.hyps(2) pos by (simp_all add: Cons_nth_drop_Suc [symmetric])
  have i: "7 * i < 1024"
  proof (rule ccontr)
    assume "\<not> ?thesis"
    then have "(2::nat) ^ 53 \<le> 2 ^ (7 * i)" by (intro power_increasing) auto
    then show False using Cons.prems(3) by (simp add: is_safe_def max_safe_integer_def)
  qed
  let ?a = "unat (b AND 0x7f) * 2 ^ (7 * i)"
  have safe: "is_safe ?a" "is_safe (v + ?a)" using Cons.prems(1) unfolding Cons.hyps(2) [symmetric] by (auto simp: Let_def split: if_splits)
  have add: "num_add (Fin v) (num_scale (unat (b AND 0x7f)) (7 * i)) = Fin (v + ?a)"
    using num_scale_small [OF i safe(1)] safe(2) by (simp add: is_safe_def max_safe_integer_def to_num_def)
  show ?case
  proof (cases "b AND 0x80 = 0")
    case True
    then have "n = v + ?a" "rest = bs" using Cons.prems(1) unfolding Cons.hyps(2) [symmetric] by (auto simp: Let_def split: if_splits)
    then show ?thesis using True pos safe b add
      by (auto simp: varint_step field_length_step Let_def split: if_splits)
  next
    case False
    have mult: "2 ^ (7 * i) * 128 = (2::nat) ^ (7 * Suc i)" by (simp add: power_add)
    have rec: "is_safe (2 ^ (7 * Suc i))" "size_from (v + ?a) (2 ^ (7 * Suc i)) (drop (Suc pos) delta) = Some (n, rest)"
      using Cons.prems(1) False unfolding Cons.hyps(2) [symmetric] b(2) [symmetric] by (auto simp: Let_def mult split: if_splits)
    then show ?thesis using Cons.hyps(1) [OF b(2) rec(2) safe(2) rec(1)] False pos b add
      by (simp add: varint_step field_length_step add.commute)
  qed
qed simp

lemma small_not_big: "is_safe n \<Longrightarrow> \<not> big (Fin n)"
  by (simp add: big_def is_safe_def max_safe_integer_def)

lemma safe_iff: "is_safe n \<longleftrightarrow> n < 2 ^ 53"
  by (auto simp: is_safe_def max_safe_integer_def)

lemma varint_size_from:
  assumes "apply_varint delta pos (Fin v) (7 * i) = Inr (Fin n, pos')" "is_safe n" "field_length (drop pos delta) + i \<le> 8"
  shows "size_from v (2 ^ (7 * i)) (drop pos delta) = Some (n, drop pos' delta)"
  using assms
proof (induction "drop pos delta" arbitrary: v i pos)
  case Nil
  then show ?case by (simp add: varint_end)
next
  case (Cons b bs)
  then have pos: "pos < length delta" by (metis drop_eq_Nil2 list.distinct(1) not_less)
  have b: "b = delta ! pos" "bs = drop (Suc pos) delta" using Cons.hyps(2) pos by (simp_all add: Cons_nth_drop_Suc [symmetric])
  have i: "i \<le> 7" using Cons.prems(3) by (simp add: field_length_def)
  let ?a = "unat (b AND 0x7f) * 2 ^ (7 * i)"
  let ?r = "num_add (Fin v) (num_scale (unat (b AND 0x7f)) (7 * i))"
  have scale: "num_scale (unat (b AND 0x7f)) (7 * i) = to_num ?a" using i by (simp add: num_scale_def)
  have run: "(if b AND 0x80 \<noteq> 0 then apply_varint delta (Suc pos) ?r (7 * Suc i) else Inr (?r, Suc pos)) = Inr (Fin n, pos')"
    using Cons.prems(1) pos b(1) by (auto simp: varint_step Let_def add.commute split: if_splits)
  then have nb: "\<not> big ?r"
    using varint_result [of delta "Suc pos" ?r "7 * Suc i" "Fin n" pos'] small_not_big [OF Cons.prems(2)] by (auto split: if_splits)
  have safe: "is_safe ?a" using nb big_add(2) [of "to_num ?a" "Fin v"] big_to_num [of ?a] unfolding scale safe_iff by linarith
  then have "?r = to_num (v + ?a)" unfolding scale by (simp add: safe_iff)
  then have safe2: "is_safe (v + ?a)" using nb big_to_num [of "v + ?a"] unfolding safe_iff by force
  then have r: "?r = Fin (v + ?a)" using \<open>?r = to_num (v + ?a)\<close> by (simp add: safe_iff)
  show ?case
  proof (cases "b AND 0x80 = 0")
    case True
    then show ?thesis unfolding Cons.hyps(2) [symmetric] using run r safe safe2 b by simp
  next
    case False
    have mult: "2 ^ (7 * i) * 128 = (2::nat) ^ (7 * Suc i)" by (simp add: power_add)
    have fl: "field_length (drop (Suc pos) delta) + Suc i \<le> 8" using Cons.prems(3) False pos b(1) by (simp add: field_length_step)
    then have "7 * Suc i \<le> 49" by (simp add: field_length_def)
    then have "(2::nat) ^ (7 * Suc i) \<le> 2 ^ 49" by (intro power_increasing) simp_all
    then have ms: "is_safe ((2::nat) ^ (7 * Suc i))" by (simp add: safe_iff)
    have "size_from (v + ?a) (2 ^ (7 * Suc i)) (drop (Suc pos) delta) = Some (n, drop pos' delta)"
      using run False r by (intro Cons.hyps(1) [OF b(2) _ Cons.prems(2) fl]) simp
    then show ?thesis unfolding Cons.hyps(2) [symmetric] b(2) using False safe safe2 ms by (simp add: mult Let_def)
  qed
qed

section \<open>The two readers agree\<close>

text \<open>The state of an applier that has seen nothing.\<close>

definition fresh_applier :: "DeltaApplier \<Rightarrow> bool" where
  "fresh_applier d \<longleftrightarrow> da_phase d = SourceSize \<and> da_sizeValue d = 0 \<and> da_sizeMultiplier d = 1 \<and> da_target d = None
     \<and> da_written d = 0 \<and> da_instructionBytes d = 0 \<and> \<not> da_failed d \<and> \<not> da_finished d"

lemma newDeltaApplier_fresh: "newDeltaApplier src limits = Inr d \<Longrightarrow> fresh_applier d \<and> da_base d = src"
  by (auto simp: newDeltaApplier_def fresh_applier_def Let_def)

lemma outcome_Some_applyDelta:
  assumes "fresh_applier (ds_applier s)" "source_length (da_base (ds_applier s)) = length base"
    and out: "outcome base s delta = Some out"
  shows "applyDelta base delta = Inr out \<and> admitted s (length out)"
proof -
  obtain rest1 t rest2 where f: "size_from 0 1 delta = Some (length base, rest1)" "size_from 0 1 rest1 = Some (t, rest2)"
      "admitted s t" "run_instructions base rest2 = Some out" "length out = t"
    using out assms(1,2)
    by (auto simp: outcome_def fresh_applier_def target_outcome_def sized_def Let_def split: option.splits prod.splits if_splits)
  have one: "is_safe 0" "is_safe (2 ^ (7 * 0))" by (simp_all add: safe_iff)
  note v1 = size_from_varint [of 0 0 0 delta "length base" rest1, OF _ one]
  then have v1: "apply_varint delta 0 (Fin 0) 0 = Inr (Fin (length base), field_length delta)" "rest1 = drop (field_length delta) delta"
    using f(1) by simp_all
  have v2: "apply_varint delta (field_length delta) (Fin 0) 0 = Inr (Fin t, field_length delta + field_length rest1)"
      "rest2 = drop (field_length delta + field_length rest1) delta"
    using size_from_varint [of 0 0 "field_length delta" delta t rest2, OF _ one] f(2) v1(2) by simp_all
  have "apply_loop base delta (Fin t) (field_length delta + field_length rest1) (replicate t 0) 0 = Inr (out, t)"
    using apply_loop_agrees [of "Fin t" t "replicate t 0" 0 base delta "field_length delta + field_length rest1" out] f(4,5) v2(2)
    by (simp add: loop_agrees_def sized_Some)
  then show ?thesis using v1(1) v2(1) f(3,5) by (simp add: applyDelta_def typed_length_def admitted_def Let_def)
qed

lemma applyDelta_outcome:
  assumes "fresh_applier (ds_applier s)" "source_length (da_base (ds_applier s)) = length base" "is_safe (length base)"
    and run: "applyDelta base delta = Inr out" and adm: "admitted s (length out)" and short: "short_header delta"
  shows "outcome base s delta = Some out"
proof -
  obtain p1 p2 t where a: "apply_varint delta 0 (Fin 0) 0 = Inr (Fin (length base), p1)" "apply_varint delta p1 (Fin 0) 0 = Inr (Fin t, p2)"
      "apply_loop base delta (Fin t) p2 (replicate t 0) 0 = Inr (out, t)" "t \<le> MAX_DELTA_TARGET"
    using run by (auto simp: applyDelta_def typed_length_def)
  have p1: "p1 = field_length delta" using varint_result [OF a(1)] by simp
  have "is_safe t" using a(4) by (simp add: safe_iff MAX_DELTA_TARGET_def)
  then have s2: "size_from 0 1 (drop p1 delta) = Some (t, drop p2 delta)"
    using varint_size_from [of delta p1 0 0 t p2] a(2) short p1 by (simp add: short_header_def)
  have s1: "size_from 0 1 delta = Some (length base, drop p1 delta)"
    using varint_size_from [of delta 0 0 0 "length base" p1] a(1) short assms(3) by (simp add: short_header_def)
  have "sized t (run_instructions base (drop p2 delta)) = Some out"
    using apply_loop_agrees [of "Fin t" t "replicate t 0" 0 base delta p2 out] a(3) by (simp add: loop_agrees_def)
  moreover from this have "length out = t" by (auto simp: sized_def split: option.splits if_splits)
  ultimately show ?thesis using s1 s2 adm assms(1,2) by (simp add: outcome_def fresh_applier_def target_outcome_def)
qed

lemma fresh_applier_ok:
  assumes "memory_ok m" "source_valid m src" "newDeltaApplier src limits = Inr d"
  shows "applier_ok (source_bytes m src) (pool_checkedOut (pool m)) \<lparr>ds_memory = m, ds_applier = d\<rparr>" "settled d"
    "fresh_applier d" "source_length (da_base d) = length (source_bytes m src)"
  using newDeltaApplier_fresh [OF assms(3)] assms(1,2) src.bytes_length [OF assms(2)]
  by (auto simp: applier_ok_def target_ok_def headed_def settled_def fresh_applier_def)

lemma outcome_applyDelta:
  assumes "fresh_applier (ds_applier s)" "source_length (da_base (ds_applier s)) = length base" "is_safe (length base)" "short_header delta"
  shows "outcome base s delta = (case applyDelta base delta of Inl e \<Rightarrow> None | Inr out \<Rightarrow> if admitted s (length out) then Some out else None)"
proof (cases "outcome base s delta")
  case (Some out)
  then show ?thesis using outcome_Some_applyDelta [OF assms(1,2) Some] by simp
next
  case None
  then show ?thesis using applyDelta_outcome [OF assms(1-3) _ _ assms(4)] by (auto split: sum.split)
qed

section \<open>Properties\<close>

text \<open>
  C2: whatever chunks a delta arrives in, and whatever the reused chunks of the pool held before, \<open>DeltaApplier\<close>
  accepts the delta exactly when \<open>applyDelta\<close> does on the whole of it and the target is admitted by the limits, and
  the sequence it returns holds the same bytes; otherwise it fails and every chunk it took is back in the pool. Both
  size fields are taken to be at most eight bytes long, the longest the applier reads.
\<close>

theorem delta_applier_agrees:
  assumes "memory_ok m" "source_valid m src" "newDeltaApplier src limits = Inr d"
    and "short_header (concat cs)" "length (concat cs) \<le> da_maxInstruction d"
  shows "let s = \<lparr>ds_memory = m, ds_applier = d\<rparr> in
    case applyDelta (source_bytes m src) (concat cs) of
      Inr out \<Rightarrow> if admitted s (length out)
        then \<exists>cb s'. delta_run cs s = (Inr cb, s') \<and> cb_ok (ds_memory s') cb \<and> contents (ds_memory s') cb = out
        else failed_clean (pool_checkedOut (pool m)) (delta_run cs s)
    | Inl e \<Rightarrow> failed_clean (pool_checkedOut (pool m)) (delta_run cs s)"
proof -
  let ?s = "\<lparr>ds_memory = m, ds_applier = d\<rparr>" and ?base = "source_bytes m src"
  note fresh = fresh_applier_ok [OF assms(1-3)]
  have safe: "is_safe (length ?base)" using source_valid_safe [OF assms(2)] src.bytes_length [OF assms(2)] by simp
  have "ends (pool_checkedOut (pool m)) (outcome ?base ?s (concat cs)) (delta_run cs ?s)"
    using delta_run_ok [OF fresh(1), of cs] fresh(2,3) assms(5) by (simp add: fresh_applier_def)
  moreover have "outcome ?base ?s (concat cs)
      = (case applyDelta ?base (concat cs) of Inl e \<Rightarrow> None | Inr out \<Rightarrow> if admitted ?s (length out) then Some out else None)"
    using fresh(3,4) assms(4) safe by (intro outcome_applyDelta) simp_all
  ultimately show ?thesis by (auto simp: ends_simps Let_def split: sum.splits)
qed

lemma sample_delta: "applyDelta [1, 2, 3] [3, 2, 0x90, 2] = Inr [1, 2]"
  by (simp add: applyDelta_def apply_varint.simps delta_next_def num_scale_def apply_loop.simps copy_args_def opt_next_def
      typed_length_def MAX_DELTA_TARGET_def apply_copy_def out_set_def set_at_def)

theorem delta_applier_agrees_witness:
  "\<exists>m d cb s'. newDeltaApplier (Flat [1, 2, 3]) \<lparr>expectedTargetSize = None, maxWorkingBytes = None, maxInstructionBytes = None\<rparr> = Inr d
     \<and> delta_run [[3, 2], [0x90], [2]] \<lparr>ds_memory = m, ds_applier = d\<rparr> = (Inr cb, s') \<and> contents (ds_memory s') cb = [1, 2]"
proof -
  let ?m = "\<lparr>arrays = [], pool = \<lparr>pool_free = [], pool_checkedOut = {}, pool_allocatedBytes = 0,
    pool_maxAllocatedBytes = max_safe_integer\<rparr>\<rparr>" and ?cs = "[[3, 2], [0x90], [2]] :: bytes list"
  let ?limits = "\<lparr>expectedTargetSize = None, maxWorkingBytes = None, maxInstructionBytes = None\<rparr>"
  obtain d where d: "newDeltaApplier (Flat [1, 2, 3]) ?limits = Inr d" "da_maxInstruction d = MAX_DELTA_INSTRUCTION_BYTES"
      "da_maxWorking d = MAX_DELTA_WORKING_BYTES" "da_expected d = None" "da_base d = Flat [1, 2, 3]"
    by (simp add: newDeltaApplier_def safe_nonneg_def max_safe_integer_def MAX_DELTA_WORKING_BYTES_def MAX_DELTA_INSTRUCTION_BYTES_def)
  have ok: "memory_ok ?m" using chunk_run_inv [OF start [OF fresh_pool]] by (simp add: chunk_inv_def)
  have hyps: "source_valid ?m (Flat [1, 2, 3])" "short_header (concat ?cs)" "length (concat ?cs) \<le> da_maxInstruction d"
    by (simp_all add: source_valid_def safe_iff short_header_def field_length_def d(2) MAX_DELTA_INSTRUCTION_BYTES_def)
  have one: "chunks_for (Suc (Suc (Suc 0))) = 1" "chunks_for (Suc (Suc 0)) = 1" by (simp_all add: chunks_for_def PACK_CHUNK_BYTES_def)
  have "admitted \<lparr>ds_memory = ?m, ds_applier = d\<rparr> (length [1, 2 :: byte])"
    using fresh_room d by (simp add: admitted_def one source_length_def PACK_CHUNK_BYTES_def MAX_DELTA_TARGET_def MAX_DELTA_WORKING_BYTES_def safe_iff)
  then have "\<exists>cb s'. delta_run ?cs \<lparr>ds_memory = ?m, ds_applier = d\<rparr> = (Inr cb, s') \<and> contents (ds_memory s') cb = [1, 2]"
    using delta_applier_agrees [OF ok hyps(1) d(1) hyps(2,3)] sample_delta by (auto simp: source_bytes_def Let_def)
  then show ?thesis using d(1) by blast
qed

lemma encode_size_cons:
  "encode_size n = (if n < 128 then [word_of_nat n] else (word_of_nat (n mod 128) + 0x80) # encode_size (n div 128))"
  by (subst encode_size.simps) (auto simp: Let_def div_greater_zero_iff)

lemma encoded_byte:
  "unat ((word_of_nat (n mod 128) + 0x80 :: byte) AND 0x7f) = n mod 128" "(word_of_nat (n mod 128) + 0x80 :: byte) AND 0x80 \<noteq> 0"
  "n < 128 \<Longrightarrow> unat ((word_of_nat n :: byte) AND 0x7f) = n" "n < 128 \<Longrightarrow> (word_of_nat n :: byte) AND 0x80 = 0"
proof -
  have "unat (word_of_nat (n mod 128 + 0x80) :: byte) = n mod 128 + 0x80" by (rule unat_word_of_nat_byte) simp
  then have b: "unat (word_of_nat (n mod 128) + 0x80 :: byte) = n mod 128 + 0x80" by simp
  show "unat ((word_of_nat (n mod 128) + 0x80 :: byte) AND 0x7f) = n mod 128" "(word_of_nat (n mod 128) + 0x80 :: byte) AND 0x80 \<noteq> 0"
    unfolding byte_simps b by simp_all
qed (simp_all add: byte_simps)

text \<open>Reading an encoded size adds it, scaled, to the value read so far.\<close>

lemma size_from_encoded:
  assumes "is_safe (v + n * 2 ^ (7 * i))" "n \<noteq> 0 \<or> i = 0"
  shows "size_from v (2 ^ (7 * i)) (encode_size n @ rest) = Some (v + n * 2 ^ (7 * i), rest)"
  using assms
proof (induction n arbitrary: v i rule: less_induct)
  case (less n)
  show ?case
  proof (cases "n < 128")
    case True
    then show ?thesis using less.prems(1) is_safe_mono [OF less.prems(1)]
      by (subst encode_size_cons) (simp add: encoded_byte Let_def)
  next
    case False
    have n: "n = n mod 128 + 128 * (n div 128)" by simp
    have mult: "2 ^ (7 * i) * 128 = (2::nat) ^ (7 * Suc i)" by (simp add: power_add)
    have sum: "v + n * 2 ^ (7 * i) = v + n mod 128 * 2 ^ (7 * i) + n div 128 * 2 ^ (7 * Suc i)"
      by (subst n, simp only: add_mult_distrib mult [symmetric])
    have safe: "is_safe (v + n mod 128 * 2 ^ (7 * i) + n div 128 * 2 ^ (7 * Suc i))" using less.prems(1) sum by simp
    have "1 \<le> n div 128" using False by (simp add: Suc_le_eq div_greater_zero_iff)
    then have "2 ^ (7 * Suc i) \<le> n div 128 * 2 ^ (7 * Suc i)" by simp
    then have "2 ^ (7 * Suc i) \<le> v + n mod 128 * 2 ^ (7 * i) + n div 128 * 2 ^ (7 * Suc i)" by (rule trans_le_add2)
    then have parts: "is_safe (n mod 128 * 2 ^ (7 * i))" "is_safe (v + n mod 128 * 2 ^ (7 * i))" "is_safe ((2::nat) ^ (7 * Suc i))"
      by (auto intro: is_safe_mono [OF safe])
    have "size_from (v + n mod 128 * 2 ^ (7 * i)) (2 ^ (7 * Suc i)) (encode_size (n div 128) @ rest) = Some (v + n * 2 ^ (7 * i), rest)"
      unfolding sum using safe \<open>1 \<le> n div 128\<close> False by (intro less.IH) auto
    then show ?thesis using False parts by (subst encode_size_cons) (simp add: encoded_byte mult Let_def)
  qed
qed

text \<open>
  C33: on a delta whose header \<open>encodeDeltaHeader\<close> wrote, \<open>applyDelta\<close> returns exactly the bytes its instructions
  produce, when they are as many as the header says and no more than the largest target.
\<close>

theorem applyDelta_instructions:
  assumes "is_safe (length base)" "n \<le> MAX_DELTA_TARGET"
  shows "applyDelta base (encodeDeltaHeader (length base) n @ instructions) = Inr out
    \<longleftrightarrow> run_instructions base instructions = Some out \<and> length out = n"
proof -
  let ?delta = "encodeDeltaHeader (length base) n @ instructions"
  have one: "is_safe 0" "is_safe (2 ^ (7 * 0))" "is_safe n" using assms(2) by (simp_all add: safe_iff MAX_DELTA_TARGET_def)
  have f1: "size_from 0 (2 ^ (7 * 0)) (drop 0 ?delta) = Some (length base, encode_size n @ instructions)"
    using size_from_encoded [of 0 "length base" 0] assms(1) by (simp add: encodeDeltaHeader_def)
  note v1 = size_from_varint [OF f1 one(1,2)]
  let ?p = "field_length ?delta"
  have rest: "drop ?p ?delta = encode_size n @ instructions" using v1 by simp
  have f2: "size_from 0 (2 ^ (7 * 0)) (drop ?p ?delta) = Some (n, instructions)"
    unfolding rest using size_from_encoded [of 0 n 0] one(3) by simp
  note v2 = size_from_varint [OF f2 one(1,2)]
  let ?q = "?p + field_length (drop ?p ?delta)"
  have "applyDelta base ?delta = Inr out \<longleftrightarrow> apply_loop base ?delta (Fin n) ?q (replicate n 0) 0 = Inr (out, n)"
    using v1 v2 assms(2) by (auto simp: applyDelta_def typed_length_def)
  also have "\<dots> \<longleftrightarrow> sized n (run_instructions base instructions) = Some out"
    using apply_loop_agrees [of "Fin n" n "replicate n 0" 0 base ?delta ?q out] v2 by (simp add: loop_agrees_def)
  finally show ?thesis by (auto simp: sized_def split: option.splits)
qed

theorem applyDelta_instructions_witness:
  "applyDelta [7, 8, 9] (encodeDeltaHeader (length [7, 8, 9 :: byte]) 2 @ [2, 65, 66]) = Inr [65, 66]"
  using applyDelta_instructions [of "[7, 8, 9]" 2 "[2, 65, 66]" "[65, 66]"] by (simp add: safe_iff MAX_DELTA_TARGET_def)

subsection \<open>The header probe\<close>

fun probe_updates :: "bytes list \<Rightarrow> (DeltaHeaderProbe, unit) action" where
  "probe_updates [] = returnS ()"
| "probe_updates (c # cs) = bindS (probe_update c) (\<lambda>_. probe_updates cs)"

lemma probe_loop_append:
  "pr_targetSize p = None \<Longrightarrow> probe_loop (a @ b) p = bindS (probe_loop a) (\<lambda>_. probe_update b) p"
proof (induction a arbitrary: p)
  case Nil
  then show ?case by (simp add: bindS_def probe_update_def)
next
  case (Cons x a)
  then show ?case by (simp add: bindS_def Let_def) (simp add: probe_update_def)
qed

lemma probe_updates_concat: "probe_updates cs p = probe_update (concat cs) p"
proof (induction cs arbitrary: p)
  case Nil
  then show ?case by (simp add: probe_update_def)
next
  case (Cons c cs)
  have "probe_updates (c # cs) p = bindS (probe_update c) (\<lambda>_. probe_update (concat cs)) p"
    using Cons by (simp add: bindS_def split: prod.split sum.split)
  also have "\<dots> = probe_update (concat (c # cs)) p"
    by (cases "pr_targetSize p") (simp_all add: probe_update_def probe_loop_append bindS_def)
  finally show ?case .
qed

text \<open>What the probe does with a complete field.\<close>

definition probe_field :: "nat \<Rightarrow> DeltaHeaderProbe \<Rightarrow> DeltaHeaderProbe" where
  "probe_field n p = (if pr_field p = 0 then p\<lparr>pr_sourceSize := Some (Fin n)\<rparr> else p\<lparr>pr_targetSize := Some (Fin n)\<rparr>)
     \<lparr>pr_field := pr_field p + 1, pr_value := Fin 0, pr_shift := 0\<rparr>"

lemma shift_bound: "is_safe (v + n * 2 ^ k) \<Longrightarrow> 0 < n \<Longrightarrow> k < 53"
proof (rule ccontr)
  assume a: "is_safe (v + n * 2 ^ k)" "0 < n" "\<not> k < 53"
  have "(2::nat) ^ 53 \<le> 2 ^ k" using a(3) by (intro power_increasing) auto
  also have "\<dots> \<le> n * 2 ^ k" using a(2) by simp
  also have "\<dots> \<le> v + n * 2 ^ k" by simp
  finally show False using a(1) by (simp add: safe_iff)
qed

lemma probe_size:
  assumes "is_safe (v + n * 2 ^ (7 * i))" "n \<noteq> 0 \<or> i = 0" "pr_value p = Fin v" "pr_shift p = 7 * i" "pr_targetSize p = None"
  shows "probe_loop (encode_size n @ rest) p =
    (let p' = probe_field (v + n * 2 ^ (7 * i)) p in if pr_targetSize p' \<noteq> None then (Inr (), p') else probe_loop rest p')"
  using assms
proof (induction n arbitrary: v i p rule: less_induct)
  case (less n)
  have k: "7 * i < 53" using shift_bound [OF less.prems(1)] less.prems(2) by auto
  show ?case
  proof (cases "n < 128")
    case True
    have "is_safe (n * 2 ^ (7 * i))" using less.prems(1) by (rule is_safe_mono) simp
    then have "num_add (Fin v) (num_scale n (7 * i)) = Fin (v + n * 2 ^ (7 * i))"
      using k num_scale_small [of "7 * i" n] less.prems(1) by (simp add: safe_iff)
    then show ?thesis using True less.prems k
      by (subst encode_size_cons) (simp add: encoded_byte Let_def safe_num_def probe_field_def)
  next
    case False
    have n: "n = n mod 128 + 128 * (n div 128)" by simp
    have sum: "v + n * 2 ^ (7 * i) = v + n mod 128 * 2 ^ (7 * i) + n div 128 * 2 ^ (7 * Suc i)"
      by (subst n, simp only: add_mult_distrib) (simp add: power_add)
    let ?v = "v + n mod 128 * 2 ^ (7 * i)"
    let ?p = "p\<lparr>pr_value := Fin ?v, pr_shift := pr_shift p + 7\<rparr>"
    have d: "0 < n div 128" using False by (simp add: div_greater_zero_iff)
    have safe: "is_safe (?v + n div 128 * 2 ^ (7 * Suc i))" using less.prems(1) sum by simp
    have "is_safe ?v" "is_safe (n mod 128 * 2 ^ (7 * i))" by (rule is_safe_mono [OF safe], simp)+
    then have add: "num_add (Fin v) (num_scale (n mod 128) (7 * i)) = Fin ?v"
      using k num_scale_small [of "7 * i" "n mod 128"] by (simp add: safe_iff)
    have k': "7 * Suc i < 53" by (rule shift_bound [OF safe d])
    have "probe_loop (encode_size (n div 128) @ rest) ?p =
        (let p' = probe_field (?v + n div 128 * 2 ^ (7 * Suc i)) ?p in if pr_targetSize p' \<noteq> None then (Inr (), p') else probe_loop rest p')"
      using d False less.prems safe by (intro less.IH) auto
    also have "probe_field (?v + n div 128 * 2 ^ (7 * Suc i)) ?p = probe_field (v + n * 2 ^ (7 * i)) p"
      unfolding sum by (simp add: probe_field_def)
    finally show ?thesis using False less.prems(3,4) add \<open>is_safe ?v\<close> k'
      by (subst encode_size_cons) (simp add: encoded_byte Let_def safe_num_def)
  qed
qed

text \<open>
  fed a delta whose header \<open>encodeDeltaHeader\<close> wrote, in any chunks and with anything after it, the header
  probe finishes with the two sizes that were written.
\<close>

theorem delta_header_roundtrip:
  assumes "is_safe m" "is_safe n" "concat cs = encodeDeltaHeader m n @ rest"
  shows "\<exists>p. probe_updates cs newDeltaHeaderProbe = (Inr (), p) \<and> probe_finish p = Inr (Fin m, Fin n)"
proof -
  let ?p1 = "probe_field m newDeltaHeaderProbe"
  have p1: "pr_value ?p1 = Fin 0" "pr_shift ?p1 = 0" "pr_targetSize ?p1 = None" "pr_field ?p1 = 1" "pr_sourceSize ?p1 = Some (Fin m)"
    by (simp_all add: probe_field_def newDeltaHeaderProbe_def)
  have "probe_updates cs newDeltaHeaderProbe = probe_loop (encode_size m @ encode_size n @ rest) newDeltaHeaderProbe"
    unfolding probe_updates_concat assms(3) by (simp add: probe_update_def newDeltaHeaderProbe_def encodeDeltaHeader_def)
  also have "\<dots> = probe_loop (encode_size n @ rest) ?p1"
    using probe_size [of 0 m 0 newDeltaHeaderProbe "encode_size n @ rest"] assms(1) p1(3) by (simp add: newDeltaHeaderProbe_def)
  also have "\<dots> = (Inr (), probe_field n ?p1)"
    using probe_size [of 0 n 0 ?p1 rest] assms(2) p1 by (simp add: probe_field_def [of n])
  finally show ?thesis using p1 by (simp add: probe_finish_def probe_field_def [of n])
qed

theorem delta_header_roundtrip_witness:
  "\<exists>p. probe_updates [encode_size 300, encode_size 5 @ [1]] newDeltaHeaderProbe = (Inr (), p) \<and> probe_finish p = Inr (Fin 300, Fin 5)"
  by (rule delta_header_roundtrip [of 300 5 _ "[1]"]) (simp_all add: safe_iff encodeDeltaHeader_def)

end
