(* ===== verification/Refspec.thy ===== *)
theory Refspec
  imports RefName Sorting Bytes
begin

text \<open>
  Refspecs (\<open>packages/git/src/ops/refs/refspec-types.ts\<close>, \<open>refspec-validation.ts\<close>, \<open>refspec-compile.ts\<close>,
  \<open>refspec-leases.ts\<close>): the compilation of fetch and push mappings, their expansion against a set of refs, and the
  leases of a push. The refspecs are typed, so the run-time type guards of the compiler are no branches here; the
  leases come in as an untyped value and keep theirs. A \<open>Map\<close> is the list of its pairs in insertion order, a \<open>Set\<close>
  the list of its elements.
\<close>

section \<open>Types\<close>

definition MAX_REFSPEC_MAPPINGS :: nat where
  "MAX_REFSPEC_MAPPINGS = 1024"

definition MAX_REFSPEC_EXPANDED_DESTINATIONS :: nat where
  "MAX_REFSPEC_EXPANDED_DESTINATIONS = 1024"

definition MAX_PUSH_LEASES :: nat where
  "MAX_PUSH_LEASES = 1024"

text \<open>\<open>FetchRefspec\<close> and \<open>PushRefspec\<close>: a push may have no source, which deletes.\<close>

record Refspec =
  rs_source :: "jstring option"
  rs_destination :: jstring
  rs_force :: "bool option"

record RefspecSourceRef =
  ref_name :: jstring
  ref_oid :: jstring

record ExpandedFetchRefspec =
  ef_source :: jstring
  ef_destination :: jstring
  ef_oid :: jstring
  ef_force :: bool

record ExpandedPushRefspec =
  ep_source :: "jstring option"
  ep_destination :: jstring
  ep_oid :: "jstring option"
  ep_force :: bool

section \<open>Validation\<close>

definition malformed :: "string \<Rightarrow> error" where
  "malformed message = GitError ''EINVAL'' message"

definition invalidRef :: error where
  "invalidRef = GitError ''EINVALIDREF'' ''not a canonical full ref''"

definition REFS :: jstring where
  "REFS = units ''refs/''"

definition canonicalRefText :: "jstring \<Rightarrow> unit result" where
  "canonicalRefText v = guardR (rt_problem (checkRefText v None) = None) invalidRef"

definition requireFullRef :: "jstring \<Rightarrow> unit result" where
  "requireFullRef v =
     bindR (canonicalRefText v) (\<lambda>_.
     guardR (startsWith v REFS \<and> hasCanonicalRefSyntax_whole v) invalidRef)"

section \<open>Compilation\<close>

record CompiledMapping =
  cm_source :: "jstring option"
  cm_destination :: jstring
  cm_sourceStar :: int
  cm_destinationStar :: int
  cm_oidSource :: bool
  cm_force :: bool

definition STAR :: jstring where
  "STAR = [0x2a]"

definition starIndex :: "jstring \<Rightarrow> int" where
  "starIndex v =
     (case indexOf v STAR of
        None \<Rightarrow> -1
      | Some first \<Rightarrow> if indexOf_from v STAR (first + 1) = None then int first else -2)"

definition requirePattern :: "jstring \<Rightarrow> int \<Rightarrow> unit result" where
  "requirePattern v star =
     bindR (canonicalRefText v) (\<lambda>_.
     bindR (guardR (0 \<le> star) (malformed ''must contain exactly one wildcard'')) (\<lambda>_.
     guardR (startsWith v REFS \<and> hasCanonicalRefPatternSyntax v (Some (nat star))) invalidRef))"

definition requireForce :: "bool option \<Rightarrow> bool" where
  "requireForce force \<longleftrightarrow> force = Some True"

definition validateMappingCount :: "'a list \<Rightarrow> unit result" where
  "validateMappingCount refspecs =
     bindR (guardR (refspecs \<noteq> []) (malformed ''refspec list must not be empty'')) (\<lambda>_.
     guardR (length refspecs \<le> MAX_REFSPEC_MAPPINGS) (GitError ''E2BIG'' ''refspec list exceeds its mappings''))"

definition compileMapping :: "jstring option \<Rightarrow> jstring \<Rightarrow> bool \<Rightarrow> bool \<Rightarrow> CompiledMapping result" where
  "compileMapping source destination force allowOid =
     (let sourceIsOid = (case source of None \<Rightarrow> False | Some s \<Rightarrow> allowOid \<and> isOid s);
          sourceStar = (case source of None \<Rightarrow> -1 | Some s \<Rightarrow> if sourceIsOid then -1 else starIndex s);
          destinationStar = starIndex destination;
          mapping = \<lparr>cm_source = source, cm_destination = destination, cm_sourceStar = sourceStar,
                     cm_destinationStar = destinationStar, cm_oidSource = sourceIsOid, cm_force = force\<rparr>
      in if source = None \<or> sourceIsOid then
           bindR (guardR (destinationStar = -1) (malformed ''deletion and object-id refspecs cannot contain wildcards'')) (\<lambda>_.
           bindR (requireFullRef destination) (\<lambda>_. Inr mapping))
         else if sourceStar = -1 \<and> destinationStar = -1 then
           bindR (requireFullRef (the source)) (\<lambda>_.
           bindR (requireFullRef destination) (\<lambda>_. Inr mapping))
         else
           bindR (guardR (0 \<le> sourceStar \<and> 0 \<le> destinationStar)
             (malformed ''transfer refspecs require exactly one wildcard on each side'')) (\<lambda>_.
           bindR (requirePattern (the source) sourceStar) (\<lambda>_.
           bindR (requirePattern destination destinationStar) (\<lambda>_. Inr mapping))))"

datatype direction = Fetch | Push

definition compile_step :: "direction \<Rightarrow> Refspec \<Rightarrow> CompiledMapping list \<times> jstring list \<Rightarrow> (CompiledMapping list \<times> jstring list) result" where
  "compile_step direction refspec st =
     (case st of (compiled, exactDestinations) \<Rightarrow>
        bindR (guardR (\<not> (direction = Fetch \<and> rs_source refspec = None)) (malformed ''fetch refspec source must be a string'')) (\<lambda>_.
        bindR (guardR (\<not> (direction = Push \<and> rs_source refspec = None \<and> rs_force refspec \<noteq> None))
          (malformed ''deletion refspec cannot set force'')) (\<lambda>_.
        bindR (compileMapping (rs_source refspec) (rs_destination refspec) (requireForce (rs_force refspec)) (direction = Push)) (\<lambda>mapping.
        if cm_destinationStar mapping < 0 then
          bindR (guardR (cm_destination mapping \<notin> set exactDestinations) (malformed ''duplicate exact refspec destination'')) (\<lambda>_.
          Inr (compiled @ [mapping], exactDestinations @ [cm_destination mapping]))
        else Inr (compiled @ [mapping], exactDestinations)))))"

definition compile :: "Refspec list \<Rightarrow> direction \<Rightarrow> CompiledMapping list result" where
  "compile refspecs direction =
     bindR (validateMappingCount refspecs) (\<lambda>_.
     bindR (foldR (compile_step direction) refspecs ([], [])) (\<lambda>(compiled, exactDestinations). Inr compiled))"

definition HEAD :: jstring where
  "HEAD = units ''HEAD''"

definition PEELED :: jstring where
  "PEELED = [0x5e, 0x7b, 0x7d]"

definition REFS_TAGS :: jstring where
  "REFS_TAGS = units ''refs/tags/''"

definition source_step :: "RefspecSourceRef \<Rightarrow> (jstring \<times> jstring) list \<times> jstring list \<Rightarrow> ((jstring \<times> jstring) list \<times> jstring list) result" where
  "source_step ref st =
     (case st of (actual, seen) \<Rightarrow>
        bindR (guardR (isOid (ref_oid ref)) (CorruptError ''refspec source set contains a malformed row'')) (\<lambda>_.
        bindR (guardR (rt_problem (checkRefText (ref_name ref) None) = None) (CorruptError ''invalid refspec source'')) (\<lambda>_.
        bindR (if endsWith (ref_name ref) PEELED then
                 let base = take (length (ref_name ref) - 3) (ref_name ref) in
                 bindR (guardR (startsWith base REFS_TAGS \<and> hasCanonicalRefSyntax_whole base)
                   (CorruptError ''invalid peeled refspec source'')) (\<lambda>_. Inr True)
               else
                 bindR (guardR (ref_name ref = HEAD \<or> startsWith (ref_name ref) REFS \<and> hasCanonicalRefSyntax_whole (ref_name ref))
                   (CorruptError ''invalid refspec source'')) (\<lambda>_. Inr (ref_name ref = HEAD))) (\<lambda>metadata.
        bindR (guardR (ref_name ref \<notin> set seen) (CorruptError ''duplicate refspec source'')) (\<lambda>_.
        Inr (if metadata then actual else actual @ [(ref_name ref, ref_oid ref)], seen @ [ref_name ref]))))))"

definition actualSourceRefs :: "RefspecSourceRef list \<Rightarrow> (jstring \<times> jstring) list result" where
  "actualSourceRefs refs = bindR (foldR source_step refs ([], [])) (\<lambda>(actual, seen). Inr actual)"

section \<open>Wildcards\<close>

definition wildcardCapture :: "jstring \<Rightarrow> jstring \<Rightarrow> nat \<Rightarrow> (nat \<times> nat) option" where
  "wildcardCapture source pattern star =
     (let suffixUnits = length pattern - star - 1 in
      if length source < star + suffixUnits then None
      else if \<not> list_all (\<lambda>index. charCodeAt source index = charCodeAt pattern index) [0..<star] then None
      else if \<not> list_all (\<lambda>index. charCodeAt source (length source - suffixUnits + index) = charCodeAt pattern (star + 1 + index)) [0..<suffixUnits]
      then None
      else Some (star, length source - suffixUnits))"

definition substitute :: "jstring \<Rightarrow> nat \<Rightarrow> jstring \<Rightarrow> nat \<times> nat \<Rightarrow> jstring" where
  "substitute pattern star source capture =
     (case capture of (start, stop) \<Rightarrow> take star pattern @ take (stop - start) (drop start source) @ drop (star + 1) pattern)"

definition requireExpandedDestination :: "jstring \<Rightarrow> unit result" where
  "requireExpandedDestination v =
     guardR (rt_problem (checkRefText v None) = None \<and> startsWith v REFS \<and> hasCanonicalRefSyntax_whole v) invalidRef"

section \<open>Expansion\<close>

text \<open>The state of an expansion: the budget's counter, the destinations seen, the result so far.\<close>

record 'e expansion =
  ex_destinations :: nat
  ex_seen :: "jstring list"
  ex_result :: "'e list"

definition too_many :: error where
  "too_many = GitError ''E2BIG'' ''expanded refspec set exceeds its destinations''"

definition prechargeDerived :: "'e expansion \<Rightarrow> unit result" where
  "prechargeDerived x = guardR (ex_destinations x < MAX_REFSPEC_EXPANDED_DESTINATIONS) too_many"

definition budget_add :: "'e expansion \<Rightarrow> 'e expansion result" where
  "budget_add x =
     bindR (guardR (ex_destinations x < MAX_REFSPEC_EXPANDED_DESTINATIONS) too_many) (\<lambda>_.
     Inr (x\<lparr>ex_destinations := ex_destinations x + 1\<rparr>))"

definition destinationGuard :: "jstring \<Rightarrow> 'e expansion \<Rightarrow> 'e expansion result" where
  "destinationGuard destination x =
     bindR (guardR (destination \<notin> set (ex_seen x)) (malformed ''expanded refspecs have duplicate destination'')) (\<lambda>_.
     Inr (x\<lparr>ex_seen := ex_seen x @ [destination]\<rparr>))"

text \<open>\<open>expansion.add(); destinationGuard(...); result.push(...)\<close>\<close>

definition push_item :: "jstring \<Rightarrow> 'e \<Rightarrow> 'e expansion \<Rightarrow> 'e expansion result" where
  "push_item destination item x =
     bindR (budget_add x) (\<lambda>x. bindR (destinationGuard destination x) (\<lambda>x. Inr (x\<lparr>ex_result := ex_result x @ [item]\<rparr>)))"

definition wildcard_step :: "(jstring \<Rightarrow> jstring \<Rightarrow> jstring \<Rightarrow> 'e) \<Rightarrow> jstring \<Rightarrow> CompiledMapping \<Rightarrow> jstring \<times> jstring \<Rightarrow> 'e expansion \<Rightarrow> 'e expansion result" where
  "wildcard_step item source mapping row x =
     (case row of (name, oid) \<Rightarrow>
        case wildcardCapture name source (nat (cm_sourceStar mapping)) of
          None \<Rightarrow> Inr x
        | Some capture \<Rightarrow>
            bindR (prechargeDerived x) (\<lambda>_.
            let destination = substitute (cm_destination mapping) (nat (cm_destinationStar mapping)) name capture in
            bindR (requireExpandedDestination destination) (\<lambda>_.
            push_item destination (item name destination oid) x)))"

definition fetch_item :: "bool \<Rightarrow> jstring \<Rightarrow> jstring \<Rightarrow> jstring \<Rightarrow> ExpandedFetchRefspec" where
  "fetch_item force source destination oid = \<lparr>ef_source = source, ef_destination = destination, ef_oid = oid, ef_force = force\<rparr>"

definition fetch_step :: "(jstring \<times> jstring) list \<Rightarrow> CompiledMapping \<Rightarrow> ExpandedFetchRefspec expansion \<Rightarrow> ExpandedFetchRefspec expansion result" where
  "fetch_step sources mapping x =
     (case cm_source mapping of
        None \<Rightarrow> Inl (JsError ''compiled fetch deletion is impossible'')
      | Some source \<Rightarrow>
          if cm_sourceStar mapping < 0 then
            (case map_of sources source of
               None \<Rightarrow> Inl (GitError ''EREFNOTFOUND'' ''remote ref not found'')
             | Some oid \<Rightarrow> push_item (cm_destination mapping) (fetch_item (cm_force mapping) source (cm_destination mapping) oid) x)
          else foldR (wildcard_step (fetch_item (cm_force mapping)) source mapping) sources x)"

definition no_expansion :: "'e expansion" where
  "no_expansion = \<lparr>ex_destinations = 0, ex_seen = [], ex_result = []\<rparr>"

definition fetch_expand :: "CompiledMapping list \<Rightarrow> RefspecSourceRef list \<Rightarrow> ExpandedFetchRefspec list result" where
  "fetch_expand mappings refs =
     bindR (actualSourceRefs refs) (\<lambda>sources.
     bindR (foldR (fetch_step sources) mappings no_expansion) (\<lambda>x.
     Inr (sort_cmp (by_path ef_destination) (ex_result x))))"

definition push_value :: "bool \<Rightarrow> jstring \<Rightarrow> jstring \<Rightarrow> jstring \<Rightarrow> ExpandedPushRefspec" where
  "push_value force source destination oid = \<lparr>ep_source = Some source, ep_destination = destination, ep_oid = Some oid, ep_force = force\<rparr>"

definition push_step :: "(jstring \<times> jstring) list \<Rightarrow> CompiledMapping \<Rightarrow> ExpandedPushRefspec expansion \<Rightarrow> ExpandedPushRefspec expansion result" where
  "push_step sources mapping x =
     (case cm_source mapping of
        None \<Rightarrow> push_item (cm_destination mapping)
          \<lparr>ep_source = None, ep_destination = cm_destination mapping, ep_oid = None, ep_force = False\<rparr> x
      | Some source \<Rightarrow>
          if cm_oidSource mapping then push_item (cm_destination mapping) (push_value (cm_force mapping) source (cm_destination mapping) source) x
          else if cm_sourceStar mapping < 0 then
            (case map_of sources source of
               None \<Rightarrow> Inl (GitError ''EREFNOTFOUND'' ''local ref not found'')
             | Some oid \<Rightarrow> push_item (cm_destination mapping) (push_value (cm_force mapping) source (cm_destination mapping) oid) x)
          else foldR (wildcard_step (push_value (cm_force mapping)) source mapping) sources x)"

definition push_expand :: "CompiledMapping list \<Rightarrow> RefspecSourceRef list \<Rightarrow> ExpandedPushRefspec list result" where
  "push_expand mappings refs =
     bindR (actualSourceRefs refs) (\<lambda>sources.
     bindR (foldR (push_step sources) mappings no_expansion) (\<lambda>x.
     Inr (sort_cmp (by_path ep_destination) (ex_result x))))"

definition compileFetchRefspecs :: "Refspec list \<Rightarrow> (RefspecSourceRef list \<Rightarrow> ExpandedFetchRefspec list result) result" where
  "compileFetchRefspecs refspecs = bindR (compile refspecs Fetch) (\<lambda>mappings. Inr (fetch_expand mappings))"

definition compilePushRefspecs :: "Refspec list \<Rightarrow> (RefspecSourceRef list \<Rightarrow> ExpandedPushRefspec list result) result" where
  "compilePushRefspecs refspecs = bindR (compile refspecs Push) (\<lambda>mappings. Inr (push_expand mappings))"

section \<open>Leases\<close>

text \<open>An untyped value as far as the lease reader looks into it. A key of an object is a string or a symbol.\<close>

datatype js_key = StringKey jstring | SymbolKey

datatype js_value =
    JUndefined | JNull | JTrue | JString jstring | JArray | JObject "(js_key \<times> js_value) list" | JOther

datatype PushLeaseExpectation = Expected "jstring option" | Tracking

record NormalizedPushLease =
  nl_destination :: jstring
  nl_expectation :: PushLeaseExpectation

definition normalizeLeaseDestination :: "jstring \<Rightarrow> jstring result" where
  "normalizeLeaseDestination v =
     (let destination = (if startsWith v REFS then v else units ''refs/heads/'' @ v)
      in bindR (requireFullRef destination) (\<lambda>_. Inr destination))"

definition pushLeaseExpectation :: "js_value \<Rightarrow> PushLeaseExpectation result" where
  "pushLeaseExpectation v =
     (case v of
        JObject [(StringKey key, field)] \<Rightarrow>
          if key = units ''expected'' then
            (case field of
               JNull \<Rightarrow> Inr (Expected None)
             | JString s \<Rightarrow> if isOid s then Inr (Expected (Some s))
                 else Inl (malformed ''push lease expected must be an object id or null'')
             | _ \<Rightarrow> Inl (malformed ''push lease expected must be an object id or null''))
          else if key = units ''tracking'' \<and> field = JTrue then Inr Tracking
          else Inl (malformed ''push lease has an invalid expectation'')
      | JObject _ \<Rightarrow> Inl (malformed ''push lease must contain exactly one expectation'')
      | _ \<Rightarrow> Inl (malformed ''push lease must be an expectation object''))"

definition lease_step :: "jstring list \<Rightarrow> js_key \<times> js_value \<Rightarrow> NormalizedPushLease list \<times> jstring list \<Rightarrow> (NormalizedPushLease list \<times> jstring list) result" where
  "lease_step destinations entry st =
     (case (entry, st) of ((key, v), (leases, seen)) \<Rightarrow>
        (case key of
           SymbolKey \<Rightarrow> Inl (malformed ''push lease keys must be strings'')
         | StringKey text \<Rightarrow>
             bindR (normalizeLeaseDestination text) (\<lambda>destination.
             bindR (guardR (destination \<notin> set seen) (malformed ''push lease keys collide at destination'')) (\<lambda>_.
             bindR (guardR (destination \<in> set destinations) (malformed ''push lease destination is not used by this push'')) (\<lambda>_.
             bindR (pushLeaseExpectation v) (\<lambda>expectation.
             Inr (leases @ [\<lparr>nl_destination = destination, nl_expectation = expectation\<rparr>], seen @ [destination])))))))"

definition normalizePushLeases :: "js_value \<Rightarrow> ExpandedPushRefspec list \<Rightarrow> NormalizedPushLease list result" where
  "normalizePushLeases v mappings =
     (case v of
        JUndefined \<Rightarrow> Inr []
      | JObject entries \<Rightarrow>
          bindR (guardR (length entries \<le> MAX_PUSH_LEASES) (GitError ''E2BIG'' ''push lease set exceeds its destinations'')) (\<lambda>_.
          bindR (foldR (lease_step (map ep_destination mappings)) entries ([], [])) (\<lambda>(leases, seen).
          Inr (sort_cmp (by_path nl_destination) leases)))
      | _ \<Rightarrow> Inl (malformed ''push leases must be an object''))"

section \<open>Wildcards capture and substitute\<close>

lemma indexOf_single: "indexOf v [c] = Some k \<longleftrightarrow> k < length v \<and> v ! k = c \<and> c \<notin> set (take k v)"
proof (induction v arbitrary: k)
  case (Cons x xs)
  show ?case
  proof (cases "x = c")
    case True
    then show ?thesis by (cases k) auto
  next
    case False
    then show ?thesis using Cons.IH by (cases k) auto
  qed
qed simp

lemma starIndex_nonneg:
  assumes "starIndex v = int k"
  shows "k < length v \<and> v = take k v @ [0x2a] @ drop (Suc k) v"
proof -
  obtain f where f: "indexOf v STAR = Some f" "f = k"
    using assms by (auto simp: starIndex_def split: option.splits if_splits)
  then have "k < length v" "v ! k = 0x2a" by (auto simp: STAR_def indexOf_single)
  then show ?thesis using id_take_nth_drop [of k v] by simp
qed

lemma prefix_agrees:
  "list_all (\<lambda>i. charCodeAt s (a + i) = charCodeAt p (b + i)) [0..<n] \<longleftrightarrow> take n (drop a s) = take n (drop b p)"
  if "a + n \<le> length s" "b + n \<le> length p"
proof -
  have "list_all (\<lambda>i. charCodeAt s (a + i) = charCodeAt p (b + i)) [0..<n] \<longleftrightarrow> (\<forall>i<n. s ! (a + i) = p ! (b + i))"
    using that by (auto simp: list_all_iff charCodeAt_def)
  also have "\<dots> \<longleftrightarrow> take n (drop a s) = take n (drop b p)"
    using that by (simp add: list_eq_iff_nth_eq)
  finally show ?thesis .
qed

lemma wildcardCapture_iff:
  assumes "k < length pattern"
  shows "wildcardCapture name pattern k =
    (if length name < length pattern - 1 \<or> take k name \<noteq> take k pattern
        \<or> drop (length name - (length pattern - k - 1)) name \<noteq> drop (k + 1) pattern
     then None else Some (k, length name - (length pattern - k - 1)))"
proof (cases "length name < length pattern - 1")
  case True
  then show ?thesis using assms by (auto simp: wildcardCapture_def Let_def)
next
  case False
  let ?n = "length pattern - k - 1"
  have "list_all (\<lambda>i. charCodeAt name i = charCodeAt pattern i) [0..<k] \<longleftrightarrow> take k name = take k pattern"
    using prefix_agrees [of 0 k name 0 pattern] assms False by simp
  moreover have "list_all (\<lambda>i. charCodeAt name (length name - ?n + i) = charCodeAt pattern (k + 1 + i)) [0..<?n]
      \<longleftrightarrow> drop (length name - ?n) name = drop (k + 1) pattern"
    using prefix_agrees [of "length name - ?n" ?n name "k + 1" pattern] assms False by simp
  ultimately show ?thesis using assms False by (simp add: wildcardCapture_def Let_def)
qed

section \<open>What an expansion collects\<close>

definition fits :: "('e \<Rightarrow> jstring) \<Rightarrow> 'e list \<Rightarrow> bool" where
  "fits key xs \<longleftrightarrow> length xs \<le> MAX_REFSPEC_EXPANDED_DESTINATIONS \<and> distinct (map key xs)"

definition collected :: "('e \<Rightarrow> jstring) \<Rightarrow> 'e list \<Rightarrow> 'e expansion" where
  "collected key xs = \<lparr>ex_destinations = length xs, ex_seen = map key xs, ex_result = xs\<rparr>"

lemma fits_prefix: "fits key (xs @ ys) \<Longrightarrow> fits key xs"
  by (simp add: fits_def)

lemma push_item_iff:
  assumes "fits key xs" "key i = d"
  shows "push_item d i (collected key xs) = Inr s' \<longleftrightarrow> fits key (xs @ [i]) \<and> s' = collected key (xs @ [i])"
  using assms by (auto simp: push_item_def budget_add_def destinationGuard_def collected_def fits_def)

text \<open>The rows of a source set a wildcard mapping turns into items; none of them may have an invalid destination.\<close>

definition matches :: "(jstring \<Rightarrow> jstring \<Rightarrow> jstring \<Rightarrow> 'e) \<Rightarrow> jstring \<Rightarrow> CompiledMapping \<Rightarrow> (jstring \<times> jstring) list \<Rightarrow> 'e list" where
  "matches item source m rows = List.map_filter (\<lambda>(name, oid).
     map_option (\<lambda>c. item name (substitute (cm_destination m) (nat (cm_destinationStar m)) name c) oid)
       (wildcardCapture name source (nat (cm_sourceStar m)))) rows"

lemma wildcard_fold_iff:
  assumes "fits key xs" and key: "\<And>name d oid. key (item name d oid) = d"
  shows "foldR (wildcard_step item source m) rows (collected key xs) = Inr s' \<longleftrightarrow>
    fits key (xs @ matches item source m rows)
    \<and> list_all (\<lambda>e. requireExpandedDestination (key e) = Inr ()) (matches item source m rows)
    \<and> s' = collected key (xs @ matches item source m rows)"
  using assms(1)
proof (induction rows arbitrary: xs)
  case Nil
  then show ?case by (auto simp: matches_def)
next
  case (Cons row rows)
  obtain name oid where row: "row = (name, oid)" by (cases row)
  show ?case
  proof (cases "wildcardCapture name source (nat (cm_sourceStar m))")
    case None
    then have "matches item source m (row # rows) = matches item source m rows"
      by (simp add: matches_def row List.map_filter_simps)
    then show ?thesis using Cons None by (simp add: wildcard_step_def row)
  next
    case (Some c)
    let ?d = "substitute (cm_destination m) (nat (cm_destinationStar m)) name c"
    let ?i = "item name ?d oid"
    have new: "matches item source m (row # rows) = ?i # matches item source m rows"
      using Some by (simp add: matches_def row List.map_filter_simps)
    have pre: "prechargeDerived (collected key xs) = Inr () \<longleftrightarrow> length xs < MAX_REFSPEC_EXPANDED_DESTINATIONS"
      by (simp add: prechargeDerived_def collected_def)
    have step: "wildcard_step item source m row (collected key xs) = Inr t \<longleftrightarrow>
        requireExpandedDestination ?d = Inr () \<and> fits key (xs @ [?i]) \<and> t = collected key (xs @ [?i])" for t
      using push_item_iff [OF Cons.prems, of ?i ?d] key Some pre
      by (auto simp: wildcard_step_def row fits_def Let_def)
    show ?thesis
    proof (cases "requireExpandedDestination ?d = Inr () \<and> fits key (xs @ [?i])")
      case True
      then show ?thesis using Cons.IH [of "xs @ [?i]"] step new key by simp
    next
      case False
      have "fits key (xs @ ?i # rest) \<Longrightarrow> fits key (xs @ [?i])" for rest using fits_prefix [of key "xs @ [?i]" rest] by simp
      then show ?thesis using False step new key by auto
    qed
  qed
qed

text \<open>
  The contract of one expansion step: it adds the items the mapping stands for, and fails where there are none to
  add, too many, or two with one destination. Both compilers keep it.
\<close>

locale expander =
  fixes key :: "'e \<Rightarrow> jstring"
    and step :: "(jstring \<times> jstring) list \<Rightarrow> CompiledMapping \<Rightarrow> 'e expansion \<Rightarrow> 'e expansion result"
    and meaning :: "(jstring \<times> jstring) list \<Rightarrow> CompiledMapping \<Rightarrow> 'e list option"
  assumes step_iff: "fits key xs \<Longrightarrow> step sources m (collected key xs) = Inr s' \<longleftrightarrow>
    (\<exists>new. meaning sources m = Some new \<and> fits key (xs @ new) \<and> s' = collected key (xs @ new))"
begin

lemma run_iff:
  assumes "fits key xs"
  shows "foldR (step sources) ms (collected key xs) = Inr s' \<longleftrightarrow>
    (\<exists>groups. those (map (meaning sources) ms) = Some groups \<and> fits key (xs @ concat groups) \<and> s' = collected key (xs @ concat groups))"
  using assms
proof (induction ms arbitrary: xs)
  case (Cons m ms)
  show ?case
  proof (cases "\<exists>new. meaning sources m = Some new \<and> fits key (xs @ new)")
    case True
    then obtain new where new: "meaning sources m = Some new" "fits key (xs @ new)" by blast
    then have "step sources m (collected key xs) = Inr (collected key (xs @ new))" using step_iff [OF Cons.prems] by auto
    then have "foldR (step sources) (m # ms) (collected key xs) = foldR (step sources) ms (collected key (xs @ new))" by simp
    then show ?thesis using Cons.IH [OF new(2)] new(1) by (cases "those (map (meaning sources) ms)") simp_all
  next
    case False
    then have no: "step sources m (collected key xs) \<noteq> Inr t" for t using step_iff [OF Cons.prems] by auto
    have "\<not> fits key (xs @ new @ rest)" if "meaning sources m = Some new" for new rest
      using False that fits_prefix [of key "xs @ new" rest] by auto
    then show ?thesis using no by (auto split: option.splits)
  qed
qed auto

lemma expand_iff:
  "bindR (foldR (step sources) ms no_expansion) (\<lambda>x. Inr (sort_cmp (by_path key) (ex_result x))) = Inr res \<longleftrightarrow>
    (\<exists>groups. those (map (meaning sources) ms) = Some groups \<and> fits key (concat groups) \<and> res = sort_cmp (by_path key) (concat groups))"
proof -
  have "fits key []" "no_expansion = collected key []" by (simp_all add: fits_def no_expansion_def collected_def)
  then show ?thesis using run_iff [of "[]" sources ms] by (auto simp: collected_def)
qed

end

text \<open>What a mapping stands for, given the refs there are.\<close>

definition all_expandable :: "('e \<Rightarrow> jstring) \<Rightarrow> 'e list \<Rightarrow> 'e list option" where
  "all_expandable key xs = (if list_all (\<lambda>e. requireExpandedDestination (key e) = Inr ()) xs then Some xs else None)"

definition fetch_meaning :: "(jstring \<times> jstring) list \<Rightarrow> CompiledMapping \<Rightarrow> ExpandedFetchRefspec list option" where
  "fetch_meaning sources m = (case cm_source m of
      None \<Rightarrow> None
    | Some source \<Rightarrow>
        if cm_sourceStar m < 0 then map_option (\<lambda>oid. [fetch_item (cm_force m) source (cm_destination m) oid]) (map_of sources source)
        else all_expandable ef_destination (matches (fetch_item (cm_force m)) source m sources))"

definition push_meaning :: "(jstring \<times> jstring) list \<Rightarrow> CompiledMapping \<Rightarrow> ExpandedPushRefspec list option" where
  "push_meaning sources m = (case cm_source m of
      None \<Rightarrow> Some [\<lparr>ep_source = None, ep_destination = cm_destination m, ep_oid = None, ep_force = False\<rparr>]
    | Some source \<Rightarrow>
        if cm_oidSource m then Some [push_value (cm_force m) source (cm_destination m) source]
        else if cm_sourceStar m < 0 then map_option (\<lambda>oid. [push_value (cm_force m) source (cm_destination m) oid]) (map_of sources source)
        else all_expandable ep_destination (matches (push_value (cm_force m)) source m sources))"

interpretation fetch: expander ef_destination fetch_step fetch_meaning
  by unfold_locales
     (auto simp: fetch_step_def fetch_meaning_def all_expandable_def wildcard_fold_iff push_item_iff fetch_item_def split: option.split)

interpretation push: expander ep_destination push_step push_meaning
  by unfold_locales
     (auto simp: push_step_def push_meaning_def all_expandable_def wildcard_fold_iff push_item_iff push_value_def split: option.split)

section \<open>Compiled mappings\<close>

lemma full_iff_expandable: "requireFullRef v = Inr () \<longleftrightarrow> requireExpandedDestination v = Inr ()"
  by (auto simp: requireFullRef_def requireExpandedDestination_def canonicalRefText_def)

text \<open>A compiled mapping without a wildcard has a full destination, and a fetch has a source.\<close>

definition mapping_ok :: "direction \<Rightarrow> CompiledMapping \<Rightarrow> bool" where
  "mapping_ok dir m \<longleftrightarrow> (cm_sourceStar m < 0 \<longrightarrow> requireFullRef (cm_destination m) = Inr ()) \<and> (dir = Fetch \<longrightarrow> cm_source m \<noteq> None)
     \<and> (cm_source m = None \<or> cm_oidSource m \<longrightarrow> cm_sourceStar m < 0)"

lemma compileMapping_ok:
  assumes "compileMapping source destination force allowOid = Inr m" "dir = Fetch \<longrightarrow> source \<noteq> None"
  shows "mapping_ok dir m"
  using assms by (auto simp: compileMapping_def mapping_ok_def Let_def split: if_splits option.splits)

lemma compile_ok:
  assumes "compile refspecs dir = Inr ms"
  shows "list_all (mapping_ok dir) ms"
proof -
  obtain seen where run: "foldR (compile_step dir) refspecs ([], []) = Inr (ms, seen)"
    using assms by (auto simp: compile_def)
  have "list_all (mapping_ok dir) (fst (ms, seen))"
  proof (rule foldR_invariant [OF run])
    fix r st st'
    assume "list_all (mapping_ok dir) (fst st)" "compile_step dir r st = Inr st'"
    then show "list_all (mapping_ok dir) (fst st')"
      by (cases st) (auto simp: compile_step_def compileMapping_ok split: if_splits)
  qed simp
  then show ?thesis by simp
qed

lemma fetch_meaning_full:
  "mapping_ok Fetch m \<Longrightarrow> fetch_meaning sources m = Some new \<Longrightarrow> list_all (\<lambda>e. requireFullRef (ef_destination e) = Inr ()) new"
  by (auto simp: fetch_meaning_def mapping_ok_def all_expandable_def full_iff_expandable fetch_item_def split: option.splits if_splits)

lemma push_meaning_full:
  "mapping_ok Push m \<Longrightarrow> push_meaning sources m = Some new \<Longrightarrow> list_all (\<lambda>e. requireFullRef (ep_destination e) = Inr ()) new"
  by (auto simp: push_meaning_def mapping_ok_def all_expandable_def full_iff_expandable push_value_def split: option.splits if_splits)

lemma those_list_all:
  assumes "those (map f xs) = Some groups" "list_all P xs" "\<And>x new. P x \<Longrightarrow> f x = Some new \<Longrightarrow> list_all Q new"
  shows "list_all Q (concat groups)"
  using assms(1,2)
proof (induction xs arbitrary: groups)
  case (Cons x xs)
  then show ?case using assms(3) by (auto split: option.splits)
qed simp

definition well_expanded :: "('e \<Rightarrow> jstring) \<Rightarrow> 'e list \<Rightarrow> bool" where
  "well_expanded key res \<longleftrightarrow> list_all (\<lambda>e. requireFullRef (key e) = Inr ()) res \<and> distinct (map key res)
     \<and> sorted_wrt (\<lambda>a b. comparePaths (key a) (key b) \<le> 0) res \<and> length res \<le> MAX_REFSPEC_EXPANDED_DESTINATIONS"

lemma well_expanded_sort:
  assumes "fits key xs" "list_all (\<lambda>e. requireFullRef (key e) = Inr ()) xs"
  shows "well_expanded key (sort_cmp (by_path key) xs)"
proof -
  have m: "mset (sort_cmp (by_path key) xs) = mset xs" by simp
  have "distinct (map key (sort_cmp (by_path key) xs))"
    using assms(1) m by (metis fits_def mset_eq_imp_distinct_iff mset_map)
  moreover have "length (sort_cmp (by_path key) xs) = length xs" using m by (metis size_mset)
  moreover have "sorted_wrt (\<lambda>a b. comparePaths (key a) (key b) \<le> 0) (sort_cmp (by_path key) xs)"
    using paths.sort_sorted [of key xs] by (simp add: by_path_def)
  ultimately show ?thesis using assms by (simp add: well_expanded_def fits_def list_all_iff)
qed

section \<open>Properties\<close>

text \<open>
  C34: expanding compiled refspecs returns, sorted by destination, exactly the items the mappings stand for: one for an
  exact mapping whose source exists, one per matching ref for a wildcard mapping, for a push also deletions and object
  ids. It succeeds exactly when every exact source exists, every derived destination is a canonical full ref, no two
  destinations are equal and there are at most 1,024 of them.
\<close>

theorem refspec_expand_exact:
  "(fetch_expand ms refs = Inr res \<longleftrightarrow> (\<exists>sources groups. actualSourceRefs refs = Inr sources
      \<and> those (map (fetch_meaning sources) ms) = Some groups \<and> fits ef_destination (concat groups)
      \<and> res = sort_cmp (by_path ef_destination) (concat groups)))
   \<and> (push_expand ms refs = Inr res' \<longleftrightarrow> (\<exists>sources groups. actualSourceRefs refs = Inr sources
      \<and> those (map (push_meaning sources) ms) = Some groups \<and> fits ep_destination (concat groups)
      \<and> res' = sort_cmp (by_path ep_destination) (concat groups)))"
  using fetch.expand_iff push.expand_iff unfolding fetch_expand_def push_expand_def bindR_Inr_iff by blast

text \<open>
  C35: whatever refs a remote or the local store offers, the expansion of refspecs that compiled has only canonical full
  refs as destinations, no two of them equal, in path order, and at most 1,024 of them.
\<close>

theorem refspec_result_canonical:
  "(compileFetchRefspecs rs = Inr f \<and> f refs = Inr res \<longrightarrow> well_expanded ef_destination res)
   \<and> (compilePushRefspecs rs = Inr g \<and> g refs = Inr res' \<longrightarrow> well_expanded ep_destination res')"
proof (intro conjI impI; elim conjE)
  assume f: "compileFetchRefspecs rs = Inr f" "f refs = Inr res"
  then obtain ms where ms: "compile rs Fetch = Inr ms" "fetch_expand ms refs = Inr res" by (auto simp: compileFetchRefspecs_def)
  obtain sources groups where g: "those (map (fetch_meaning sources) ms) = Some groups" "fits ef_destination (concat groups)"
      "res = sort_cmp (by_path ef_destination) (concat groups)"
    using ms(2) fetch.expand_iff unfolding fetch_expand_def bindR_Inr_iff by blast
  have "list_all (\<lambda>e. requireFullRef (ef_destination e) = Inr ()) (concat groups)"
    using those_list_all [OF g(1) compile_ok [OF ms(1)] fetch_meaning_full] .
  then show "well_expanded ef_destination res" using well_expanded_sort [OF g(2)] g(3) by simp
next
  assume f: "compilePushRefspecs rs = Inr g" "g refs = Inr res'"
  then obtain ms where ms: "compile rs Push = Inr ms" "push_expand ms refs = Inr res'" by (auto simp: compilePushRefspecs_def)
  obtain sources groups where g: "those (map (push_meaning sources) ms) = Some groups" "fits ep_destination (concat groups)"
      "res' = sort_cmp (by_path ep_destination) (concat groups)"
    using ms(2) push.expand_iff unfolding push_expand_def bindR_Inr_iff by blast
  have "list_all (\<lambda>e. requireFullRef (ep_destination e) = Inr ()) (concat groups)"
    using those_list_all [OF g(1) compile_ok [OF ms(1)] push_meaning_full] .
  then show "well_expanded ep_destination res'" using well_expanded_sort [OF g(2)] g(3) by simp
qed

lemma sample_full_ref: "requireFullRef (units ''refs/a'') = Inr ()"
  by (simp add: requireFullRef_def canonicalRefText_def checkRefText_def units_def is_high_def is_low_def over_limit_def REFS_def
      hasCanonicalRefSyntax_whole_def hasCanonicalRefSyntax_def hasCanonicalRefSyntaxWithWildcard_def max_safe_integer_def
      ref_syntax_loop.simps charCodeAt_def endsWith_def LOCK_def FORBIDDEN_def startsWith_def)

theorem refspec_result_canonical_witness:
  "\<exists>g res. compilePushRefspecs [\<lparr>rs_source = None, rs_destination = units ''refs/a'', rs_force = None\<rparr>] = Inr g \<and> g [] = Inr res
     \<and> well_expanded ep_destination res"
proof -
  let ?rs = "[\<lparr>rs_source = None, rs_destination = units ''refs/a'', rs_force = None\<rparr>]"
  have "starIndex (units ''refs/a'') = -1" by (simp add: starIndex_def STAR_def units_def)
  then obtain g where g: "compilePushRefspecs ?rs = Inr g" "\<exists>res. g [] = Inr res"
    using sample_full_ref
    by (auto simp: compilePushRefspecs_def compile_def validateMappingCount_def compile_step_def compileMapping_def MAX_REFSPEC_MAPPINGS_def
        push_expand_def actualSourceRefs_def push_step_def push_item_def budget_add_def destinationGuard_def no_expansion_def
        MAX_REFSPEC_EXPANDED_DESTINATIONS_def Let_def)
  then show ?thesis using refspec_result_canonical [of ?rs _ "[]" _ g] by blast
qed

text \<open>
  a wildcard pattern captures exactly the refs that begin and end like it, and substitution puts the captured
  middle in place of the destination's wildcard.
\<close>

theorem wildcard_exact:
  assumes "starIndex pattern = int k" "starIndex target = int j"
  shows "case wildcardCapture name pattern k of
      Some capture \<Rightarrow> \<exists>mid. name = take k pattern @ mid @ drop (k + 1) pattern
        \<and> substitute target j name capture = take j target @ mid @ drop (j + 1) target
    | None \<Rightarrow> \<nexists>mid. name = take k pattern @ mid @ drop (k + 1) pattern"
proof -
  have k: "k < length pattern" using starIndex_nonneg [OF assms(1)] by simp
  let ?n = "length pattern - k - 1"
  show ?thesis
  proof (cases "wildcardCapture name pattern k")
    case None
    have "False" if name: "name = take k pattern @ mid @ drop (k + 1) pattern" for mid
      using None k by (auto simp: wildcardCapture_iff name split: if_splits)
    then show ?thesis using None by auto
  next
    case (Some c)
    then have c: "c = (k, length name - ?n)" "\<not> length name < length pattern - 1" "take k name = take k pattern"
        "drop (length name - ?n) name = drop (k + 1) pattern"
      using k by (auto simp: wildcardCapture_iff split: if_splits)
    let ?mid = "take (length name - ?n - k) (drop k name)"
    have "name = take k name @ ?mid @ drop (length name - ?n - k) (drop k name)"
      by (simp only: append_take_drop_id)
    also have "drop (length name - ?n - k) (drop k name) = drop (length name - ?n) name" using c(2) k by simp
    finally have "name = take k pattern @ ?mid @ drop (k + 1) pattern" using c(3,4) by simp
    then show ?thesis using Some c(1) by (simp add: substitute_def)
  qed
qed

theorem wildcard_exact_witness:
  "\<exists>mid. units ''refs/x/b'' = take 5 (units ''refs/*/b'') @ mid @ drop (5 + 1) (units ''refs/*/b'')
     \<and> substitute (units ''o/*'') 2 (units ''refs/x/b'') (5, 6) = take 2 (units ''o/*'') @ mid @ drop (2 + 1) (units ''o/*'')"
proof -
  have s: "starIndex (units ''refs/*/b'') = int 5" "starIndex (units ''o/*'') = int 2"
    by (simp_all add: starIndex_def STAR_def units_def indexOf_from_def)
  have "wildcardCapture (units ''refs/x/b'') (units ''refs/*/b'') 5 = Some (5, 6)"
    by (simp add: wildcardCapture_def units_def charCodeAt_def Let_def upt_rec numeral_eq_Suc)
  then show ?thesis using wildcard_exact [OF s, of "units ''refs/x/b''"] by simp
qed

end
