(* ===== verification/Packets.thy ===== *)
theory Packets
  imports Pktline Actions
begin

text \<open>
  Loops over pkt-lines. Every protocol reader of the program has one shape: read a packet, leave or throw at the
  end of the stream, otherwise let a body change the state and go on or leave. That shape is one function here,
  total because every packet takes at least its four length bytes from the source; the readers supply
  the body. \<open>reads\<close> relates a reader to the packets it delivers, which is how the round trips meet the loops.
\<close>

section \<open>The loop\<close>

text \<open>The bytes a reader can still deliver.\<close>

definition queued :: "source_event list \<Rightarrow> nat" where
  "queued es = sum_list (map (\<lambda>ev. case ev of Chunk c \<Rightarrow> length c | _ \<Rightarrow> 0) es)"

definition backlog :: "ByteReader \<Rightarrow> nat" where
  "backlog r = length (br_chunk r) - br_offset r + queued (br_source r)"

lemma queued_simps [simp]:
  "queued [] = 0" "queued (Chunk c # es) = length c + queued es"
  "queued (SourceFails e # es) = queued es" "queued (SignalAborts # es) = queued es"
  by (simp_all add: queued_def)

lemma advance_loop_backlog:
  "advance_loop es r = (res, r') \<Longrightarrow> backlog r' \<le> length (br_chunk r) - br_offset r + queued es"
  by (induction es r rule: advance_loop.induct) (auto simp: backlog_def split: if_splits)

lemma br_advance_backlog: "br_advance r = (res, r') \<Longrightarrow> backlog r' \<le> backlog r"
  using advance_loop_backlog [of "br_source r" r res r'] by (auto simp: br_advance_def backlog_def split: if_splits)

lemma take_across_backlog:
  "take_across len out written r = (Inr (Some x), r') \<Longrightarrow> backlog r' + (len - written) \<le> backlog r"
proof (induction "length (br_source r)" arbitrary: out written r rule: less_induct)
  case less
  show ?case
  proof (cases "written < len")
    case False
    then show ?thesis using less.prems by (subst (asm) take_across.simps) simp
  next
    case True
    define n where "n = min (length (br_chunk r) - br_offset r) (len - written)"
    define part where "part = take n (drop (br_offset r) (br_chunk r))"
    define r1 where "r1 = r\<lparr>br_offset := br_offset r + n\<rparr>"
    have size: "backlog r1 + n \<le> backlog r" by (auto simp: backlog_def r1_def n_def)
    note step = take_across_step [OF True n_def part_def r1_def, of out]
    show ?thesis
    proof (cases "written + n < len")
      case False
      then show ?thesis using less.prems size step by auto
    next
      case more: True
      obtain r2 where adv: "br_advance r1 = (Inr True, r2)"
        and rec: "take_across len (set_at out written part) (written + n) r2 = (Inr (Some x), r')"
        using less.prems step more by (auto split: prod.splits sum.splits bool.splits)
      have "length (br_source r2) < length (br_source r)" using br_advance_shorter [OF adv] by (simp add: r1_def)
      then have "backlog r' + (len - (written + n)) \<le> backlog r2" using less.hyps rec by blast
      then show ?thesis using br_advance_backlog [OF adv] size more by linarith
    qed
  qed
qed

lemma takeExact_backlog:
  assumes "takeExact len r = (Inr (Some x), r')"
  shows "backlog r' + len \<le> backlog r"
proof (cases "len = 0")
  case True
  then show ?thesis using assms by (simp add: takeExact_def)
next
  case False
  define start where "start = (if br_offset r = length (br_chunk r) then br_advance r else (Inr True, r))"
  obtain r1 where r1: "start = (Inr True, r1)"
    using assms False by (auto simp: takeExact_def start_def split: if_splits prod.splits sum.splits bool.splits)
  have "backlog r1 \<le> backlog r"
    using r1 br_advance_backlog by (auto simp: start_def split: if_splits)
  moreover have "backlog r' + len \<le> backlog r1"
    using assms False r1 take_across_backlog [of len _ 0 r1 x r']
    by (auto simp: takeExact_def start_def [symmetric] backlog_def split: if_splits)
  ultimately show ?thesis by simp
qed

lemma takeExact_length:
  assumes "takeExact len r = (Inr (Some x), r')" "reader_ok r"
  shows "length x = len"
proof -
  obtain bs e where u: "unread r = (bs, e)" by (cases "unread r") auto
  show ?thesis using takeExact_payload [OF assms(2) u, of len] assms(1) by (auto split: if_splits)
qed

lemma readPkt_backlog:
  assumes "readPkt r = (Inr (Some p), r')"
  shows "backlog r' + 4 \<le> backlog r"
proof -
  have run: "read_frame r = (Inr (Some p), r')"
    using assms by (auto simp: readPkt_def split: prod.splits sum.splits)
  obtain h r1 where h: "takeExact 4 r = (Inr (Some h), r1)" and tail: "r' = r1 \<or> (\<exists>n x. takeExact n r1 = (Inr (Some x), r'))"
    using run by (auto simp: read_frame_def split: prod.splits sum.splits option.splits if_splits)
  show ?thesis using takeExact_backlog [OF h] tail takeExact_backlog [of _ r1 _ r'] by fastforce
qed

function packet_loop ::
    "('s, 'a) action \<Rightarrow> (Pkt \<Rightarrow> ('s, 'a option) action) \<Rightarrow> 's \<Rightarrow> ByteReader \<Rightarrow> 'a result \<times> 's \<times> ByteReader" where
  "packet_loop on_end body s r =
     (case readPkt r of
        (Inl e, r1) \<Rightarrow> (Inl e, s, r1)
      | (Inr None, r1) \<Rightarrow> (case on_end s of (res, s1) \<Rightarrow> (res, s1, r1))
      | (Inr (Some p), r1) \<Rightarrow>
          (case body p s of
             (Inl e, s1) \<Rightarrow> (Inl e, s1, r1)
           | (Inr (Some a), s1) \<Rightarrow> (Inr a, s1, r1)
           | (Inr None, s1) \<Rightarrow> packet_loop on_end body s1 r1))"
  by pat_completeness auto
termination
  by (relation "measure (\<lambda>(_, _, _, r). backlog r)") (auto dest!: readPkt_backlog [OF sym])

declare packet_loop.simps [simp del]

lemma packet_loop_invariant:
  assumes "packet_loop on_end body s r = (Inr a, s', r')" and "P s"
    and step: "\<And>p s s1. P s \<Longrightarrow> body p s = (Inr None, s1) \<Longrightarrow> P s1"
    and leave: "\<And>p s s1 a. P s \<Longrightarrow> body p s = (Inr (Some a), s1) \<Longrightarrow> Q a s1"
    and stop: "\<And>s s1 a. P s \<Longrightarrow> on_end s = (Inr a, s1) \<Longrightarrow> Q a s1"
  shows "Q a s'"
  using assms(1,2)
proof (induction "backlog r" arbitrary: s r rule: less_induct)
  case less
  obtain p r1 where rd: "readPkt r = (Inr p, r1)"
    using less.prems(1) by (subst (asm) packet_loop.simps) (auto split: prod.splits sum.splits option.splits)
  show ?case
  proof (cases p)
    case None
    then show ?thesis using less.prems rd stop by (subst (asm) packet_loop.simps) (auto split: prod.splits)
  next
    case (Some k)
    obtain res s1 where b: "body k s = (res, s1)" by (cases "body k s") auto
    consider x where "res = Inl x" | "res = Inr None" | y where "res = Inr (Some y)"
      by (cases res) (auto split: option.splits)
    then show ?thesis
    proof cases
      case 1
      then show ?thesis using less.prems rd Some b by (subst (asm) packet_loop.simps) simp
    next
      case 2
      have "backlog r1 < backlog r" using readPkt_backlog rd Some by fastforce
      moreover have "packet_loop on_end body s1 r1 = (Inr a, s', r')"
        using less.prems(1) rd Some b 2 by (subst (asm) packet_loop.simps) simp
      ultimately show ?thesis using less.hyps step less.prems(2) b 2 by blast
    next
      case 3
      then show ?thesis using less.prems rd Some b leave by (subst (asm) packet_loop.simps) auto
    qed
  qed
qed

section \<open>Delivered packets\<close>

inductive reads :: "ByteReader \<Rightarrow> Pkt list \<Rightarrow> ByteReader \<Rightarrow> bool" where
  reads_none: "reads r [] r"
| reads_packet: "readPkt r = (Inr (Some p), r1) \<Longrightarrow> reads r1 ps r2 \<Longrightarrow> reads r (p # ps) r2"

inductive_cases reads_ConsE: "reads r (p # ps) r'"
inductive_simps reads_Nil [simp]: "reads r [] r'"

lemma reads_append: "reads r ps r1 \<Longrightarrow> reads r1 qs r2 \<Longrightarrow> reads r (ps @ qs) r2"
  by (induction rule: reads.induct) (auto intro: reads.intros)

lemma reads_appendD: "reads r (ps @ qs) r2 \<Longrightarrow> \<exists>r1. reads r ps r1 \<and> reads r1 qs r2"
  by (induction ps arbitrary: r) (auto intro: reads.intros elim!: reads_ConsE, metis reads_packet)

lemma readPkt_ok: "readPkt r = (Inr p, r') \<Longrightarrow> reader_ok r \<Longrightarrow> reader_ok r'"
  using readPkt_frame [of r "fst (unread r)" "snd (unread r)"] by (auto split: sum.splits prod.splits)

lemma reads_ok: "reads r ps r' \<Longrightarrow> reader_ok r \<Longrightarrow> reader_ok r'"
  by (induction rule: reads.induct) (auto dest: readPkt_ok)

text \<open>A body that goes on over each of a list of packets.\<close>

fun goes_on :: "(Pkt \<Rightarrow> ('s, 'a option) action) \<Rightarrow> Pkt list \<Rightarrow> 's \<Rightarrow> 's \<Rightarrow> bool" where
  "goes_on body [] s s' \<longleftrightarrow> s' = s"
| "goes_on body (p # ps) s s' \<longleftrightarrow> (\<exists>s1. body p s = (Inr None, s1) \<and> goes_on body ps s1 s')"

lemma goes_on_append: "goes_on body (ps @ qs) s s' \<longleftrightarrow> (\<exists>s1. goes_on body ps s s1 \<and> goes_on body qs s1 s')"
  by (induction ps arbitrary: s) auto

lemma packet_loop_reads:
  "reads r ps r1 \<Longrightarrow> goes_on body ps s s1 \<Longrightarrow> packet_loop on_end body s r = packet_loop on_end body s1 r1"
proof (induction arbitrary: s rule: reads.induct)
  case (reads_packet r p r1 ps r2)
  then obtain s2 where s2: "body p s = (Inr None, s2)" "goes_on body ps s2 s1" by auto
  have "packet_loop on_end body s r = packet_loop on_end body s2 r1"
    using reads_packet.hyps(1) s2(1) by (subst packet_loop.simps) simp
  then show ?case using reads_packet.IH [OF s2(2)] by simp
qed simp

lemma packet_loop_leave:
  "readPkt r = (Inr (Some p), r1) \<Longrightarrow> body p s = (Inr (Some a), s1) \<Longrightarrow> packet_loop on_end body s r = (Inr a, s1, r1)"
  by (subst packet_loop.simps) simp

text \<open>The packets a run of encoded frames delivers.\<close>

fun wire :: "Pkt \<Rightarrow> bytes result" where
  "wire (Line bs) = pkt (BytesPayload bs)"
| "wire Flush = Inr FLUSH"
| "wire Delim = Inr DELIM"

lemma wire_pkt: "wire (Line (payload_body p)) = pkt p"
  by (simp add: pkt_def payload_body_def)

lemma wire_frame: "wire p = Inr bs \<Longrightarrow> frame_of (bs @ rest) e = Inr (Some p, rest)"
  using pkt_frame [of "BytesPayload _"] control_frames by (cases p) (fastforce simp: payload_body_def)+

lemma wire_reads:
  "list_all2 (\<lambda>p bs. wire p = Inr bs) ps bss \<Longrightarrow> reader_ok r \<Longrightarrow> unread r = (concat bss @ rest, e) \<Longrightarrow>
     \<exists>r'. reads r ps r' \<and> reader_ok r' \<and> unread r' = (rest, e)"
proof (induction ps bss arbitrary: r rule: list_all2_induct)
  case (Cons p ps bs bss)
  obtain r1 where r1: "readPkt r = (Inr (Some p), r1)" "reader_ok r1" "unread r1 = (concat bss @ rest, e)"
    using readPkt_frame [OF Cons.prems] wire_frame [OF Cons.hyps(1), of "concat bss @ rest" e] by auto
  then show ?case using Cons.IH by (meson reads_packet)
qed auto

lemma end_of_stream: "reader_ok r \<Longrightarrow> unread r = ([], Ended) \<Longrightarrow>
    \<exists>r'. readPkt r = (Inr None, r') \<and> reader_ok r' \<and> unread r' = ([], Ended)"
  using readPkt_frame [of r "[]" Ended] by (simp add: frame_of_def)

lemma unread_newByteReader: "unread (newByteReader (map Chunk cs) None False) = (concat cs, Ended)"
proof -
  have "stream_of (map Chunk cs) = (concat cs, Ended)" by (induction cs) simp_all
  then show ?thesis by (simp add: unread_def newByteReader_def)
qed

lemma reader_ok_newByteReader [simp]: "reader_ok (newByteReader es None False)"
  by (simp add: reader_ok_def newByteReader_def)

section \<open>Properties\<close>

text \<open>
  C29: every packet a reader delivers takes at least its four length bytes from what the source has queued, whatever
  the source does and however it fails: a reader of \<open>n\<close> bytes delivers at most \<open>n / 4\<close> packets, so every packet
  loop of the protocol ends.
\<close>

theorem packets_bounded:
  assumes "reads (newByteReader es ret aborted) ps r"
  shows "4 * length ps + backlog r \<le> queued es"
proof -
  have "reads q ps r \<Longrightarrow> 4 * length ps + backlog r \<le> backlog q" for q
    by (induction rule: reads.induct) (auto dest: readPkt_backlog)
  from this [OF assms] show ?thesis by (simp add: backlog_def newByteReader_def)
qed

theorem packets_bounded_witness:
  "\<exists>r. reads (newByteReader [Chunk [0x30, 0x30], Chunk [0x30, 0x30]] None False) [Flush] r
     \<and> 4 * length [Flush] + backlog r \<le> queued [Chunk [0x30, 0x30], Chunk [0x30, 0x30]]"
proof -
  let ?r = "newByteReader [Chunk [0x30, 0x30], Chunk [0x30, 0x30]] None False"
  have "frame_of [0x30, 0x30, 0x30, 0x30] Ended = Inr (Some Flush, [])"
    by (simp add: frame_of_def parseLength_def length_digit_def)
  then obtain r where "readPkt ?r = (Inr (Some Flush), r)"
    using readPkt_frame [of ?r "[0x30, 0x30, 0x30, 0x30]" Ended] by (auto simp: unread_def newByteReader_def reader_ok_def)
  then have "reads ?r [Flush] r" by (auto intro: reads.intros)
  then show ?thesis using packets_bounded [of "[Chunk [0x30, 0x30], Chunk [0x30, 0x30]]" None False "[Flush]" r] by blast
qed

end
