(* ===== verification/ReceivePack.thy ===== *)
theory ReceivePack
  imports Packets RefName "HOL-Library.AList"
begin

text \<open>
  The push side of the protocol client (\<open>packages/git/src/protocol/receive-pack-types.ts\<close>, \<open>receive-pack-request.ts\<close>,
  \<open>receive-pack-status.ts\<close>): building a request, its body, and reading the status the server reports, plain or
  through a side band.

  The request is typed, so the run-time type guards on its fields are no branches here; push options come in
  untyped where the code checks them. The pack is what iterating it delivers. A callback is a function that may
  throw; the calls made are logged in the state. A \<open>Map\<close> is an association list in insertion order.
\<close>

section \<open>Types\<close>

definition MAX_RECEIVE_PACK_COMMANDS :: nat where
  "MAX_RECEIVE_PACK_COMMANDS = 1024"

definition MAX_PUSH_OPTIONS :: nat where
  "MAX_PUSH_OPTIONS = 64"

definition MAX_RECEIVE_PACK_STATUS_PACKETS :: nat where
  "MAX_RECEIVE_PACK_STATUS_PACKETS = 16384"

record ReceivePackCommand =
  cmd_oldOid :: jstring
  cmd_newOid :: jstring
  cmd_ref :: jstring

text \<open>What a generator delivers: its chunks, and the error that ends it, if one does.\<close>

type_synonym generated = "bytes list \<times> error option"

type_synonym message_callback = "jstring \<Rightarrow> unit result"

record ReceivePackRequest =
  rq_commands :: "ReceivePackCommand list"
  rq_advertised :: "jstring list"
  rq_atomic :: "bool option"
  rq_pushOptions :: "jstring list option"
  rq_pack :: "generated option"
  rq_onProgress :: "message_callback option"
  rq_onMessage :: "message_callback option"

datatype ReceivePackRefStatus = RefOk | RefError jstring

record ReceivePackStatus =
  st_unpack :: jstring
  st_refs :: "(jstring \<times> ReceivePackRefStatus) list"

record PreparedRequest =
  pr_commands :: "ReceivePackCommand list"
  pr_commandFrames :: "bytes list"
  pr_optionFrames :: "bytes list"
  pr_hasNonDeletion :: bool
  pr_sideband :: bool
  pr_atomic :: bool
  pr_pack :: "generated option"
  pr_onProgress :: "message_callback option"
  pr_onMessage :: "message_callback option"

record ProtocolMemoryLimits =
  pl_retainedBytes :: "int option"
  pl_inputBytes :: "int option"
  pl_entries :: "int option"
  pl_lineBytes :: "int option"

record ResolvedStatusLimits =
  sl_retainedBytes :: "nat option"
  sl_inputBytes :: "nat option"
  sl_entries :: nat
  sl_lineBytes :: nat

section \<open>The request\<close>

definition requireBranchRef :: "jstring \<Rightarrow> jstring result" where
  "requireBranchRef ref =
     (if rt_problem (checkRefText ref None) \<noteq> None \<or> \<not> startsWith ref (units ''refs/heads/'')
         \<or> length ref = length (units ''refs/heads/'') \<or> \<not> hasCanonicalRefSyntax_whole ref
      then Inl (GitError ''EINVALIDREF'' ''invalid branch ref'')
      else Inr ref)"

definition validateCommand :: "ReceivePackCommand \<Rightarrow> ReceivePackCommand result" where
  "validateCommand command =
     (if \<not> isOid (cmd_oldOid command) \<or> \<not> isOid (cmd_newOid command)
      then Inl (GitError ''EINVAL'' ''receive-pack command has an invalid object id'')
      else if rt_problem (checkRefText (cmd_ref command) None) \<noteq> None
         \<or> \<not> startsWith (cmd_ref command) (units ''refs/'') \<or> length (cmd_ref command) = length (units ''refs/'')
         \<or> \<not> hasCanonicalRefSyntax_whole (cmd_ref command)
      then Inl (GitError ''EINVALIDREF'' ''invalid receive-pack destination'')
      else Inr \<lparr>cmd_oldOid = cmd_oldOid command, cmd_newOid = cmd_newOid command, cmd_ref = cmd_ref command\<rparr>)"

definition invalid_text :: error where
  "invalid_text = GitError ''EINVAL'' ''push option contains invalid text''"

definition malformed_utf16 :: error where
  "malformed_utf16 = GitError ''EINVAL'' ''push option contains malformed UTF-16''"

definition option_too_long :: error where
  "option_too_long = GitError ''E2BIG'' ''push option exceeds the pkt-line payload limit''"

fun push_option_loop :: "nat \<Rightarrow> jstring \<Rightarrow> nat result" where
  "push_option_loop bytes [] = Inr bytes"
| "push_option_loop bytes (u # us) =
     (if u = 0 \<or> u = 0x0a then Inl invalid_text
      else if is_high u then
        (case us of
           low # rest \<Rightarrow>
             if is_low low then
               (if bytes + 4 > MAX_PKT_PAYLOAD_BYTES then Inl option_too_long else push_option_loop (bytes + 4) rest)
             else Inl malformed_utf16
         | [] \<Rightarrow> Inl malformed_utf16)
      else if is_low u then Inl malformed_utf16
      else
        let bytes' = bytes + (if u < 0x80 then 1 else if u < 0x800 then 2 else 3)
        in if bytes' > MAX_PKT_PAYLOAD_BYTES then Inl option_too_long else push_option_loop bytes' us)"

definition pushOptionBytes :: "jstring \<Rightarrow> nat result" where
  "pushOptionBytes option = push_option_loop 0 option"

datatype option_value = OptionText jstring | OtherOption

datatype option_list = NoOptions | NotAnArray | OptionArray "option_value list"

definition has_code :: "error \<Rightarrow> string \<Rightarrow> bool" where
  "has_code e code = (case e of GitError c _ \<Rightarrow> c = code | RemoteError c _ \<Rightarrow> c = code | _ \<Rightarrow> False)"

definition validatePushOption :: "option_value \<Rightarrow> nat result" where
  "validatePushOption option =
     (case option of
        OtherOption \<Rightarrow> Inl (GitError ''EINVAL'' ''push option must be a string'')
      | OptionText t \<Rightarrow>
          (case pushOptionBytes t of
             Inr bytes \<Rightarrow> Inr bytes
           | Inl cause \<Rightarrow>
               if has_code cause ''E2BIG'' then Inl (GitError ''E2BIG'' ''push option exceeds the pkt-line payload limit'')
               else Inl (GitError ''EINVAL'' ''push option contains invalid text'')))"

definition validatePushOptionList :: "option_list \<Rightarrow> unit result" where
  "validatePushOptionList options =
     (case options of
        NoOptions \<Rightarrow> Inr ()
      | NotAnArray \<Rightarrow> Inl (GitError ''EINVAL'' ''receive-pack push options must be an array'')
      | OptionArray xs \<Rightarrow> guardR (length xs \<le> MAX_PUSH_OPTIONS) (GitError ''E2BIG'' ''push option count exceeds 64''))"

definition validatePushOptions :: "option_list \<Rightarrow> nat list result" where
  "validatePushOptions options =
     bindR (validatePushOptionList options) (\<lambda>_.
       case options of OptionArray xs \<Rightarrow> mapR validatePushOption xs | _ \<Rightarrow> Inr [])"

definition requireCapability :: "jstring list \<Rightarrow> string \<Rightarrow> unit result" where
  "requireCapability advertised capability =
     guardR (units capability \<in> set advertised) (GitError ''EUNSUPPORTED'' ''remote does not support receive-pack capability'')"

text \<open>The command loop: the commands kept, and whether one deletes and one does not.\<close>

definition command_step ::
    "ReceivePackCommand \<Rightarrow> ReceivePackCommand list \<times> bool \<times> bool \<Rightarrow> (ReceivePackCommand list \<times> bool \<times> bool) result" where
  "command_step input st =
     (case st of (commands, deleting, hasNonDeletion) \<Rightarrow>
        bindR (validateCommand input) (\<lambda>command.
        if cmd_ref command \<in> set (map cmd_ref commands)
        then Inl (GitError ''EINVAL'' ''duplicate receive-pack destination'')
        else if cmd_newOid command = ZERO_OID then Inr (commands @ [command], True, hasNonDeletion)
        else Inr (commands @ [command], deleting, True)))"

definition command_text :: "jstring \<Rightarrow> ReceivePackCommand \<Rightarrow> jstring" where
  "command_text tail command =
     cmd_oldOid command @ units '' '' @ cmd_newOid command @ units '' '' @ cmd_ref command @ tail @ [0x0a]"

definition command_frame :: "jstring \<Rightarrow> ReceivePackCommand \<Rightarrow> bytes result" where
  "command_frame tail command =
     (let refBytes = rt_bytes (checkRefText (cmd_ref command) None);
          payloadBytes = 40 + 1 + 40 + 1 + refBytes + length (utf8_encode tail) + 1
      in if payloadBytes > MAX_PKT_PAYLOAD_BYTES
         then Inl (GitError ''E2BIG'' ''receive-pack command exceeds the pkt-line payload limit'')
         else pkt (TextPayload (command_text tail command)))"

definition command_frames :: "jstring list \<Rightarrow> ReceivePackCommand list \<Rightarrow> bytes list result" where
  "command_frames capabilities commands =
     (case commands of
        [] \<Rightarrow> Inr []
      | c # cs \<Rightarrow>
          bindR (command_frame (0 # join_with (units '' '') capabilities) c) (\<lambda>frame.
          bindR (mapR (command_frame []) cs) (\<lambda>frames. Inr (frame # frames))))"

definition request_capabilities :: "ReceivePackRequest \<Rightarrow> jstring list \<Rightarrow> jstring list" where
  "request_capabilities request pushOptions =
     [units ''report-status'']
     @ (if units ''side-band-64k'' \<in> set (rq_advertised request) then [units ''side-band-64k''] else [])
     @ (if rq_atomic request = Some True then [units ''atomic''] else [])
     @ (if length pushOptions > 0 then [units ''push-options''] else [])"

definition prepareRequest :: "ReceivePackRequest \<Rightarrow> PreparedRequest result" where
  "prepareRequest request =
     bindR (guardR (length (rq_commands request) \<noteq> 0) (GitError ''EINVAL'' ''receive-pack requires at least one command'')) (\<lambda>_.
     bindR (guardR (length (rq_commands request) \<le> MAX_RECEIVE_PACK_COMMANDS)
              (GitError ''E2BIG'' ''receive-pack command count exceeds 1024'')) (\<lambda>_.
     bindR (validatePushOptionList
              (case rq_pushOptions request of None \<Rightarrow> NoOptions | Some xs \<Rightarrow> OptionArray (map OptionText xs))) (\<lambda>_.
     let pushOptions = (case rq_pushOptions request of None \<Rightarrow> [] | Some xs \<Rightarrow> xs)
     in bindR (foldR command_step (rq_commands request) ([], False, False)) (\<lambda>(commands, deleting, hasNonDeletion).
     bindR (validatePushOptions (OptionArray (map OptionText pushOptions))) (\<lambda>_.
     bindR (requireCapability (rq_advertised request) ''report-status'') (\<lambda>_.
     bindR (if deleting then requireCapability (rq_advertised request) ''delete-refs'' else Inr ()) (\<lambda>_.
     bindR (if rq_atomic request = Some True then requireCapability (rq_advertised request) ''atomic'' else Inr ()) (\<lambda>_.
     bindR (if length pushOptions > 0 then requireCapability (rq_advertised request) ''push-options'' else Inr ()) (\<lambda>_.
     let capabilities = request_capabilities request pushOptions
     in bindR (command_frames capabilities commands) (\<lambda>commandFrames.
     bindR (mapR (\<lambda>option. pkt (TextPayload option)) pushOptions) (\<lambda>optionFrames.
     Inr \<lparr>pr_commands = commands, pr_commandFrames = commandFrames, pr_optionFrames = optionFrames,
          pr_hasNonDeletion = hasNonDeletion, pr_sideband = (units ''side-band-64k'' \<in> set capabilities),
          pr_atomic = (rq_atomic request = Some True), pr_pack = rq_pack request,
          pr_onProgress = rq_onProgress request, pr_onMessage = rq_onMessage request\<rparr>)))))))))))"

text \<open>The body as the events its iterator delivers; an error of the pack ends it as a local failure.\<close>

definition local_pack_error :: error where
  "local_pack_error = JsError ''local pack generation failed''"

definition pack_body :: "generated \<Rightarrow> source_event list" where
  "pack_body g = map Chunk (fst g) @ (case snd g of None \<Rightarrow> [] | Some _ \<Rightarrow> [SourceFails local_pack_error])"

definition requestBody :: "PreparedRequest \<Rightarrow> generated option \<Rightarrow> source_event list" where
  "requestBody prepared pack =
     map Chunk (pr_commandFrames prepared) @ [Chunk FLUSH]
     @ (if length (pr_optionFrames prepared) > 0 then map Chunk (pr_optionFrames prepared) @ [Chunk FLUSH] else [])
     @ (if \<not> pr_hasNonDeletion prepared then [] else case pack of None \<Rightarrow> [] | Some g \<Rightarrow> pack_body g)"

text \<open>An error's cause chain: objects by address, which may form a cycle; reading \<open>cause\<close> may itself throw.\<close>

datatype error_value = ErrorObject nat | Primitive

datatype cause_field = NoCause | Cause error_value | CauseThrows

record error_object =
  eo_local :: bool
  eo_cause :: cause_field

fun find_failure_loop :: "(nat \<Rightarrow> error_object) \<Rightarrow> nat \<Rightarrow> nat list \<Rightarrow> error_value \<Rightarrow> error_value option result" where
  "find_failure_loop heap 0 seen current = Inr None"
| "find_failure_loop heap (Suc depth) seen current =
     (case current of
        Primitive \<Rightarrow> Inr None
      | ErrorObject a \<Rightarrow>
          if a \<in> set seen then Inr None
          else if eo_local (heap a) then
            (case eo_cause (heap a) of
               NoCause \<Rightarrow> Inr (Some current)
             | Cause v \<Rightarrow> Inr (Some v)
             | CauseThrows \<Rightarrow> Inl (JsError ''cause getter threw''))
          else
            (case eo_cause (heap a) of
               NoCause \<Rightarrow> Inr None
             | Cause v \<Rightarrow> find_failure_loop heap depth (a # seen) v
             | CauseThrows \<Rightarrow> Inr None))"

definition findLocalPackFailure :: "(nat \<Rightarrow> error_object) \<Rightarrow> error_value \<Rightarrow> error_value option result" where
  "findLocalPackFailure heap error = find_failure_loop heap 16 [] error"

section \<open>Status limits\<close>

definition RESULT_FIXED_BYTES :: nat where
  "RESULT_FIXED_BYTES = 192"

definition STATUS_FIXED_BYTES :: nat where
  "STATUS_FIXED_BYTES = 96"

definition ERROR_PREFIX_BYTES :: nat where
  "ERROR_PREFIX_BYTES = 800"

definition ERROR_PREFIX_CHARACTERS :: nat where
  "ERROR_PREFIX_CHARACTERS = 200"

definition resultStringBytes :: "jstring \<Rightarrow> nat" where
  "resultStringBytes v = 48 + length v * 2"

record StatusWireBudget =
  wb_entries :: nat
  wb_inputBytes :: nat

definition wire_too_large :: "string \<Rightarrow> error" where
  "wire_too_large part = GitError ''E2BIG'' (''receive-pack '' @ part @ '' exceeds its bounded limit'')"

definition budget_packet :: "ResolvedStatusLimits \<Rightarrow> Pkt \<Rightarrow> StatusWireBudget \<Rightarrow> StatusWireBudget result" where
  "budget_packet limits p b =
     (case p of
        Line payload \<Rightarrow>
          if length payload > sl_lineBytes limits then Inl (wire_too_large ''pkt-line text'')
          else if wb_entries b \<ge> sl_entries limits then Inl (wire_too_large ''packet count'')
          else
            let bytes = length payload + 4
            in (case sl_inputBytes limits of
                  None \<Rightarrow> Inr (b\<lparr>wb_entries := wb_entries b + 1\<rparr>)
                | Some limit \<Rightarrow>
                    if int bytes > int limit - int (wb_inputBytes b) then Inl (wire_too_large ''input'')
                    else Inr (b\<lparr>wb_entries := wb_entries b + 1, wb_inputBytes := wb_inputBytes b + bytes\<rparr>))
      | _ \<Rightarrow> Inr b)"

definition no_packets :: StatusWireBudget where
  "no_packets = \<lparr>wb_entries = 0, wb_inputBytes = 0\<rparr>"

definition validateLogical :: "nat option \<Rightarrow> nat \<Rightarrow> unit result" where
  "validateLogical limit bytes =
     (case limit of
        None \<Rightarrow> Inr ()
      | Some l \<Rightarrow> guardR (bytes \<le> l) (GitError ''E2BIG'' ''receive-pack result exceeds its bounded retained-state limit''))"

definition limit_error :: error where
  "limit_error = RangeError ''receive-pack protocol limits must be positive safe integers''"

definition positiveLimit :: "int \<Rightarrow> nat result" where
  "positiveLimit v = (if \<bar>v\<bar> > int max_safe_integer \<or> v < 1 then Inl limit_error else Inr (nat v))"

definition boundedLimit :: "int option \<Rightarrow> nat \<Rightarrow> nat result" where
  "boundedLimit v ceiling =
     (case v of
        None \<Rightarrow> Inr ceiling
      | Some n \<Rightarrow> if \<bar>n\<bar> > int max_safe_integer \<or> n < 1 then Inl limit_error else Inr (min (nat n) ceiling))"

definition optional_limit :: "int option \<Rightarrow> nat option result" where
  "optional_limit v = (case v of None \<Rightarrow> Inr None | Some n \<Rightarrow> bindR (positiveLimit n) (\<lambda>k. Inr (Some k)))"

definition resolvedStatusLimits :: "ProtocolMemoryLimits \<Rightarrow> ResolvedStatusLimits result" where
  "resolvedStatusLimits overrides =
     bindR (optional_limit (pl_retainedBytes overrides)) (\<lambda>retained.
     bindR (optional_limit (pl_inputBytes overrides)) (\<lambda>input.
     bindR (boundedLimit (pl_entries overrides) MAX_RECEIVE_PACK_STATUS_PACKETS) (\<lambda>entries.
     bindR (boundedLimit (pl_lineBytes overrides) MAX_PKT_PAYLOAD_BYTES) (\<lambda>line.
     Inr \<lparr>sl_retainedBytes = retained, sl_inputBytes = input, sl_entries = entries, sl_lineBytes = line\<rparr>))))"

section \<open>Status lines\<close>

definition decodeLine :: "Pkt \<Rightarrow> jstring result" where
  "decodeLine p =
     (case p of
        Line payload \<Rightarrow>
          if length payload = 0 then Inl (CorruptError ''receive-pack status contains an unexpected pkt-line control'')
          else if last payload \<noteq> 0x0a then Inl (CorruptError ''receive-pack status line is missing its newline'')
          else (case utf8_decode_fatal (butlast payload) of
                  None \<Rightarrow> Inl (CorruptError ''receive-pack status contains malformed UTF-8'')
                | Some t \<Rightarrow>
                    if 0 \<in> set t \<or> 0x0d \<in> set t \<or> 0x0a \<in> set t
                    then Inl (CorruptError ''receive-pack status contains invalid text'')
                    else Inr t)
      | _ \<Rightarrow> Inl (CorruptError ''receive-pack status contains an unexpected pkt-line control''))"

datatype ParsedStatusLine = UnpackLine jstring | OkLine jstring | NgLine jstring jstring

definition parseStatusLine :: "jstring \<Rightarrow> ParsedStatusLine result" where
  "parseStatusLine t =
     (if startsWith t (units ''unpack '') then
        (let result = drop (length (units ''unpack '')) t
         in if result = [] then Inl (CorruptError ''malformed receive-pack unpack status'') else Inr (UnpackLine result))
      else if startsWith t (units ''ok '') then
        (let ref = drop 3 t
         in if ref = [] \<or> 0x20 \<in> set ref then Inl (CorruptError ''malformed receive-pack ref status'')
            else Inr (OkLine ref))
      else if startsWith t (units ''ng '') then
        (case indexOf_from t [0x20] 3 of
           None \<Rightarrow> Inl (CorruptError ''malformed receive-pack rejection'')
         | Some separator \<Rightarrow>
             if separator < 4 \<or> separator = length t - 1 then Inl (CorruptError ''malformed receive-pack rejection'')
             else Inr (NgLine (drop 3 (take separator t)) (drop (separator + 1) t)))
      else Inl (CorruptError ''unexpected receive-pack status''))"

definition requireStreamEnd :: "ByteReader \<Rightarrow> unit result \<times> ByteReader" where
  "requireStreamEnd r =
     (case readPkt r of
        (Inl e, r1) \<Rightarrow> (Inl e, r1)
      | (Inr None, r1) \<Rightarrow> (Inr (), r1)
      | (Inr (Some _), r1) \<Rightarrow> (Inl (CorruptError ''receive-pack has trailing packets''), r1))"

text \<open>The \<open>finally\<close> of both readers: a release that throws replaces the result.\<close>

definition finally_release :: "'a result \<Rightarrow> ByteReader \<Rightarrow> 'a result \<times> ByteReader" where
  "finally_release res r = (case br_release r of (Inl e, r1) \<Rightarrow> (Inl e, r1) | (Inr _, r1) \<Rightarrow> (res, r1))"

section \<open>The side band\<close>

datatype delivery = Progress jstring | Message jstring

record SidebandState =
  sb_budget :: StatusWireBudget
  sb_yielded :: "bytes list"
  sb_log :: "delivery list"

definition notify :: "(jstring \<Rightarrow> delivery) \<Rightarrow> message_callback option \<Rightarrow> jstring \<Rightarrow> (SidebandState, unit) action" where
  "notify tag callback message s =
     (case callback of None \<Rightarrow> (Inr (), s) | Some f \<Rightarrow> (f message, s\<lparr>sb_log := sb_log s @ [tag message]\<rparr>))"

definition band_frame ::
    "message_callback option \<Rightarrow> message_callback option \<Rightarrow> bytes \<Rightarrow> (SidebandState, bool option) action" where
  "band_frame onProgress onMessage frame s =
     (let band = hd frame; payload = tl frame
      in if band = 1 then
           (if length payload > 0 then (Inr None, s\<lparr>sb_yielded := sb_yielded s @ [payload]\<rparr>) else (Inr None, s))
         else if band = 2 then
           (case utf8_decode_fatal payload of
              None \<Rightarrow> (Inl (CorruptError ''receive-pack progress contains malformed UTF-8''), s)
            | Some message \<Rightarrow>
                bindS (notify Progress onProgress message) (\<lambda>_.
                bindS (notify Message onMessage message) (\<lambda>_. returnS None)) s)
         else if band = 3 then
           (case utf8_decode_fatal payload of
              None \<Rightarrow> (Inl (CorruptError ''receive-pack fatal message contains malformed UTF-8''), s)
            | Some decoded \<Rightarrow>
                let message = trim decoded
                in (Inl (if message = [] then GitError ''EPUSHREJECTED'' ''receive-pack fatal error''
                         else RemoteError ''EPUSHREJECTED'' message), s))
         else (Inl (CorruptError ''receive-pack returned an invalid sideband''), s))"

definition sideband_step ::
    "ResolvedStatusLimits \<Rightarrow> message_callback option \<Rightarrow> message_callback option \<Rightarrow> Pkt \<Rightarrow> (SidebandState, bool option) action" where
  "sideband_step limits onProgress onMessage p s =
     (if p = Flush then (Inr (Some True), s)
      else case budget_packet limits p (sb_budget s) of
        Inl e \<Rightarrow> (Inl e, s)
      | Inr b \<Rightarrow>
          let s1 = s\<lparr>sb_budget := b\<rparr>
          in (case p of
                Line frame \<Rightarrow>
                  if length frame = 0 then (Inl (CorruptError ''receive-pack returned an invalid sideband frame''), s1)
                  else band_frame onProgress onMessage frame s1
              | _ \<Rightarrow> (Inl (CorruptError ''receive-pack returned an invalid sideband frame''), s1)))"

text \<open>The whole run of the generator: the chunks it yields, how it ends, and the callbacks made.\<close>

definition sidebandBody ::
    "ResolvedStatusLimits \<Rightarrow> message_callback option \<Rightarrow> message_callback option \<Rightarrow> ByteReader \<Rightarrow> generated \<times> delivery list \<times> ByteReader" where
  "sidebandBody limits onProgress onMessage reader =
     (case packet_loop (returnS False) (sideband_step limits onProgress onMessage)
             \<lparr>sb_budget = no_packets, sb_yielded = [], sb_log = []\<rparr> reader of
        (flushed, s, r1) \<Rightarrow>
          let (ended, r2) =
                (case flushed of
                   Inl e \<Rightarrow> (Inl e, r1)
                 | Inr False \<Rightarrow> (Inl (CorruptError ''truncated receive-pack sideband''), r1)
                 | Inr True \<Rightarrow> requireStreamEnd r1);
              (res, r3) = finally_release ended r2
          in ((sb_yielded s, case res of Inl e \<Rightarrow> Some e | Inr _ \<Rightarrow> None), sb_log s, r3))"

section \<open>The status\<close>

record StatusState =
  ps_budget :: StatusWireBudget
  ps_unpack :: "jstring option"
  ps_received :: "(jstring \<times> ReceivePackRefStatus) list"

definition status_line :: "jstring set \<Rightarrow> ParsedStatusLine \<Rightarrow> StatusState \<Rightarrow> StatusState result" where
  "status_line expected status s =
     (let ref_status = (\<lambda>ref st.
            if ps_unpack s = None then Inl (CorruptError ''receive-pack ref status precedes unpack status'')
            else if ref \<notin> expected then Inl (CorruptError ''unexpected receive-pack status'')
            else if map_of (ps_received s) ref \<noteq> None then Inl (CorruptError ''duplicate receive-pack status'')
            else Inr (s\<lparr>ps_received := AList.update ref st (ps_received s)\<rparr>))
      in (case status of
            UnpackLine t \<Rightarrow>
              if ps_unpack s \<noteq> None then Inl (CorruptError ''duplicate receive-pack unpack status'')
              else if length (ps_received s) > 0 then Inl (CorruptError ''receive-pack unpack status is out of order'')
              else Inr (s\<lparr>ps_unpack := Some t\<rparr>)
          | OkLine ref \<Rightarrow> ref_status ref RefOk
          | NgLine ref t \<Rightarrow> ref_status ref (RefError t)))"

definition status_step :: "ResolvedStatusLimits \<Rightarrow> jstring set \<Rightarrow> Pkt \<Rightarrow> (StatusState, bool option) action" where
  "status_step limits expected p s =
     (if p = Flush then (Inr (Some True), s)
      else case bindR (budget_packet limits p (ps_budget s)) (\<lambda>b.
                bindR (decodeLine p) (\<lambda>line.
                bindR (parseStatusLine line) (\<lambda>status.
                status_line expected status (s\<lparr>ps_budget := b\<rparr>)))) of
        Inl e \<Rightarrow> (Inl e, s)
      | Inr s1 \<Rightarrow> (Inr None, s1))"

definition omitted_status :: error where
  "omitted_status = CorruptError ''receive-pack omitted status''"

text \<open>One command of the summing loop: successes, failures, and the logical size of the result.\<close>

definition count_step ::
    "(jstring \<times> ReceivePackRefStatus) list \<Rightarrow> ReceivePackCommand \<Rightarrow> nat \<times> nat \<times> nat \<Rightarrow> (nat \<times> nat \<times> nat) result" where
  "count_step received command st =
     (case (st, map_of received (cmd_ref command)) of
        ((successes, failures, bytes), None) \<Rightarrow> Inl omitted_status
      | ((successes, failures, bytes), Some RefOk) \<Rightarrow>
          Inr (successes + 1, failures, bytes + (STATUS_FIXED_BYTES + 0 + resultStringBytes (cmd_ref command)))
      | ((successes, failures, bytes), Some (RefError t)) \<Rightarrow>
          Inr (successes, failures + 1, bytes + (STATUS_FIXED_BYTES + resultStringBytes t + resultStringBytes (cmd_ref command))))"

definition collect_step ::
    "(jstring \<times> ReceivePackRefStatus) list \<Rightarrow> ReceivePackCommand \<Rightarrow> (jstring \<times> ReceivePackRefStatus) list
       \<Rightarrow> (jstring \<times> ReceivePackRefStatus) list result" where
  "collect_step received command refs =
     (case map_of received (cmd_ref command) of
        None \<Rightarrow> Inl omitted_status
      | Some status \<Rightarrow> Inr (AList.update (cmd_ref command) status refs))"

definition finish_status ::
    "ReceivePackCommand list \<Rightarrow> bool \<Rightarrow> ResolvedStatusLimits \<Rightarrow> StatusState \<Rightarrow> ReceivePackStatus result" where
  "finish_status commands atomic limits s =
     (case ps_unpack s of
        None \<Rightarrow> Inl (CorruptError ''receive-pack omitted unpack status'')
      | Some unpack \<Rightarrow>
          bindR (guardR (length (ps_received s) = length commands)
                   (case find (\<lambda>c. map_of (ps_received s) (cmd_ref c) = None) commands of
                      None \<Rightarrow> CorruptError ''receive-pack returned an invalid status count''
                    | Some _ \<Rightarrow> omitted_status)) (\<lambda>_.
          bindR (foldR (count_step (ps_received s)) commands (0, 0, RESULT_FIXED_BYTES + resultStringBytes unpack))
            (\<lambda>(successes, failures, logicalResultBytes).
          bindR (guardR (\<not> (unpack \<noteq> units ''ok'' \<and> successes > 0))
                   (CorruptError ''receive-pack reported successful refs after unpack failure'')) (\<lambda>_.
          bindR (guardR (\<not> (atomic \<and> successes > 0 \<and> failures > 0))
                   (CorruptError ''atomic receive-pack returned mixed ref statuses'')) (\<lambda>_.
          bindR (validateLogical (sl_retainedBytes limits) logicalResultBytes) (\<lambda>_.
          bindR (foldR (collect_step (ps_received s)) commands []) (\<lambda>refs.
          Inr \<lparr>st_unpack = unpack, st_refs = refs\<rparr>)))))))"

definition parseStatus ::
    "ReceivePackCommand list \<Rightarrow> bool \<Rightarrow> ResolvedStatusLimits \<Rightarrow> ByteReader \<Rightarrow> ReceivePackStatus result \<times> ByteReader" where
  "parseStatus commands atomic limits reader =
     (case packet_loop (returnS False) (status_step limits (set (map cmd_ref commands)))
             \<lparr>ps_budget = no_packets, ps_unpack = None, ps_received = []\<rparr> reader of
        (flushed, s, r1) \<Rightarrow>
          (case flushed of
             Inl e \<Rightarrow> finally_release (Inl e) r1
           | Inr False \<Rightarrow> finally_release (Inl (CorruptError ''truncated receive-pack status'')) r1
           | Inr True \<Rightarrow>
               (case requireStreamEnd r1 of
                  (Inl e, r2) \<Rightarrow> finally_release (Inl e) r2
                | (Inr _, r2) \<Rightarrow> finally_release (finish_status commands atomic limits s) r2)))"

section \<open>The prefix of an error response\<close>

definition prefix_step :: "nat option \<Rightarrow> bytes \<Rightarrow> bytes \<times> nat \<times> nat \<Rightarrow> (bytes \<times> nat \<times> nat) result" where
  "prefix_step inputLimit chunk st =
     (case st of (buffer, retained, input) \<Rightarrow>
        if (case inputLimit of None \<Rightarrow> False | Some limit \<Rightarrow> int (length chunk) > int limit - int input)
        then Inl (GitError ''E2BIG'' ''receive-pack error response exceeds its bounded input limit'')
        else
          let input1 = (if inputLimit = None then input else input + length chunk)
          in if retained \<ge> length buffer then Inr (buffer, retained, input1)
             else
               let n = min (length chunk) (length buffer - retained)
               in Inr (set_at buffer retained (take n chunk), retained + n, input1))"

definition readResponsePrefix :: "nat option \<Rightarrow> ByteReader \<Rightarrow> jstring result \<times> ByteReader" where
  "readResponsePrefix inputLimit reader =
     (case br_rest reader of
        (chunks, failure, r1) \<Rightarrow>
          finally_release
            (case foldR (prefix_step inputLimit) chunks (replicate ERROR_PREFIX_BYTES 0, 0, 0) of
               Inl e \<Rightarrow> Inl e
             | Inr (buffer, retained, input) \<Rightarrow>
                 (case failure of
                    Some e \<Rightarrow> Inl e
                  | None \<Rightarrow> Inr (take ERROR_PREFIX_CHARACTERS (utf8_decode (take retained buffer))))) r1)"

end
