(* ===== verification/Remote.thy ===== *)
theory Remote
  imports ReceivePack
begin

text \<open>
  The ref advertisement of a server as the client reads it (\<open>packages/git/src/protocol/remote-base.ts\<close>,
  \<open>discovery.ts\<close>), and the entry budget of a negotiation. The HTTP exchange itself is outside: the readers start
  at the response body.
\<close>

section \<open>remote-base\<close>

definition AGENT :: jstring where
  "AGENT = units ''kompjutr/0.0.0''"

datatype Service = UploadPackService | ReceivePackService

definition MAX_PROTOCOL_NEGOTIATION_ENTRIES :: nat where
  "MAX_PROTOCOL_NEGOTIATION_ENTRIES = 16384"

record NegotiationBudget =
  nb_entries :: nat
  nb_entryLimit :: nat

definition newNegotiationBudget :: "nat \<Rightarrow> NegotiationBudget" where
  "newNegotiationBudget limit = \<lparr>nb_entries = 0, nb_entryLimit = limit\<rparr>"

definition entries_too_large :: error where
  "entries_too_large = GitError ''E2BIG'' ''protocol entry count exceeds its bounded limit''"

definition countEntry :: "NegotiationBudget \<Rightarrow> NegotiationBudget result" where
  "countEntry b =
     (if nb_entries b \<ge> nb_entryLimit b then Inl entries_too_large else Inr (b\<lparr>nb_entries := nb_entries b + 1\<rparr>))"

definition reserveEntries :: "nat \<Rightarrow> NegotiationBudget \<Rightarrow> NegotiationBudget result" where
  "reserveEntries n b =
     (if int n > int (nb_entryLimit b) - int (nb_entries b) then Inl entries_too_large
      else Inr (b\<lparr>nb_entries := nb_entries b + n\<rparr>))"

definition resolvedProtocolEntryLimit :: "int option \<Rightarrow> nat result" where
  "resolvedProtocolEntryLimit v =
     (case v of
        None \<Rightarrow> Inr MAX_PROTOCOL_NEGOTIATION_ENTRIES
      | Some n \<Rightarrow> if \<bar>n\<bar> > int max_safe_integer \<or> n < 1 then Inl (RangeError ''entries must be a positive safe integer'')
          else Inr (min (nat n) MAX_PROTOCOL_NEGOTIATION_ENTRIES))"

definition error_prefix_step :: "bytes \<Rightarrow> bytes \<times> nat \<Rightarrow> bytes \<times> nat" where
  "error_prefix_step chunk st =
     (case st of (buffer, len) \<Rightarrow>
        if len \<ge> length buffer then st
        else let n = min (length chunk) (length buffer - len) in (set_at buffer len (take n chunk), len + n))"

definition readErrorPrefix :: "ByteReader \<Rightarrow> jstring result" where
  "readErrorPrefix reader =
     (case br_rest reader of
        (chunks, failure, r1) \<Rightarrow>
          (case foldl (\<lambda>st c. error_prefix_step c st) (replicate ERROR_PREFIX_BYTES 0, 0) chunks of
             (buffer, len) \<Rightarrow>
               (case failure of
                  Some e \<Rightarrow>
                    if br_aborted r1 then Inl e
                    else Inr (take ERROR_PREFIX_CHARACTERS (utf8_decode (take len buffer)))
                | None \<Rightarrow> Inr (take ERROR_PREFIX_CHARACTERS (utf8_decode (take len buffer))))))"

definition normalizeRemoteUrl :: "jstring \<Rightarrow> jstring result" where
  "normalizeRemoteUrl url =
     (if startsWith url (units ''http://'') \<or> startsWith url (units ''https://'')
      then Inr (rev (dropWhile (\<lambda>c. c = slash) (rev url)))
      else Inl (GitError ''EURLSCHEME'' ''unsupported URL scheme''))"

definition releaseReader :: "ByteReader \<Rightarrow> ByteReader" where
  "releaseReader reader = snd (br_release reader)"

definition ownedPktText :: "Pkt \<Rightarrow> jstring" where
  "ownedPktText packet = pktText packet"

definition drainBody :: "ByteReader \<Rightarrow> unit result" where
  "drainBody reader =
     (case br_rest reader of
        (chunks, Some e, r1) \<Rightarrow> if br_aborted r1 then Inl e else Inr ()
      | (chunks, None, r1) \<Rightarrow> Inr ())"

section \<open>Discovery\<close>

record RemoteRef =
  rr_name :: jstring
  rr_oid :: jstring

record Advertisement =
  ad_refs :: "RemoteRef list"
  ad_capabilities :: "jstring list"
  ad_headRef :: "jstring option"

definition serviceError :: "Service \<Rightarrow> jstring \<Rightarrow> error" where
  "serviceError service message =
     RemoteError (if service = ReceivePackService then ''EPUSHREJECTED'' else ''EFETCHFAIL'') message"

definition HEAD :: jstring where
  "HEAD = units ''HEAD''"

definition advertisedRefName :: "jstring \<Rightarrow> bool" where
  "advertisedRefName name =
     (if name = HEAD then True
      else if endsWith name (units ''^{}'') then
        (let baseEnd = length name - 3
         in startsWith name (units ''refs/tags/'') \<and> hasCanonicalRefSyntax name 0 (int baseEnd))
      else startsWith name (units ''refs/'') \<and> hasCanonicalRefSyntax_whole name)"

record AdvertisementState =
  as_budget :: NegotiationBudget
  as_refs :: "RemoteRef list"
  as_capabilities :: "jstring list"
  as_refNames :: "jstring list"
  as_headRef :: "jstring option"
  as_headOid :: "jstring option"
  as_first :: bool

definition malformed_symref :: error where
  "malformed_symref = CorruptError ''ref advertisement has a malformed HEAD symref''"

text \<open>One capability of the first row.\<close>

definition capability_step :: "jstring \<Rightarrow> AdvertisementState \<Rightarrow> AdvertisementState result" where
  "capability_step capability s =
     bindR (countEntry (as_budget s)) (\<lambda>b.
     if 0 \<in> set capability then Inl (CorruptError ''ref advertisement has malformed capabilities'')
     else
       bindR (if startsWith capability (units ''symref=HEAD'') then
                (if \<not> startsWith capability (units ''symref=HEAD:'') then Inl malformed_symref
                 else
                   let symref = drop (length (units ''symref=HEAD:'')) capability
                   in if rt_problem (checkRefText symref None) \<noteq> None \<or> \<not> startsWith symref (units ''refs/'')
                         \<or> \<not> hasCanonicalRefSyntax_whole symref
                      then Inl malformed_symref
                      else (case as_headRef s of
                              None \<Rightarrow> Inr (Some symref)
                            | Some h \<Rightarrow> if h \<noteq> symref then Inl (CorruptError ''ref advertisement has conflicting HEAD symrefs'')
                                else Inr (Some h)))
              else Inr (as_headRef s)) (\<lambda>headRef.
       Inr (s\<lparr>as_budget := b, as_headRef := headRef, as_capabilities := set_add capability (as_capabilities s)\<rparr>)))"

lemma indexOf_from_ge: "indexOf_from t p i = Some k \<Longrightarrow> i \<le> k"
  by (auto simp: indexOf_from_def)

text \<open>The scan of the capability text: runs of spaces are skipped.\<close>

function capability_loop :: "jstring \<Rightarrow> nat \<Rightarrow> AdvertisementState \<Rightarrow> AdvertisementState result" where
  "capability_loop t start s =
     (if start < length t then
        let begin = start + length (takeWhile (\<lambda>c. c = 0x20) (drop start t))
        in if begin \<ge> length t then Inr s
           else
             let stop = (case indexOf_from t [0x20] begin of None \<Rightarrow> length t | Some k \<Rightarrow> k)
             in (case capability_step (take (stop - begin) (drop begin t)) s of
                   Inl e \<Rightarrow> Inl e
                 | Inr s1 \<Rightarrow> capability_loop t (stop + 1) s1)
      else Inr s)"
  by pat_completeness auto
termination
  by (relation "measure (\<lambda>(t, start, _). length t - start)")
    (auto split: option.splits dest!: indexOf_from_ge)

declare capability_loop.simps [simp del]

definition malformed_row :: error where
  "malformed_row = CorruptError ''ref advertisement has a malformed row''"

definition ref_row :: "Service \<Rightarrow> jstring \<Rightarrow> AdvertisementState \<Rightarrow> AdvertisementState result" where
  "ref_row service t s =
     (if startsWith t (units ''ERR '') then Inl (serviceError service (drop 4 t))
      else case indexOf t [0x20] of
        None \<Rightarrow> Inl malformed_row
      | Some space \<Rightarrow>
          let nameStart = space + 1;
              synthetic = (space = length ZERO_OID \<and> startsWith t ZERO_OID
                 \<and> length t - nameStart = length (units ''capabilities^{}'')
                 \<and> startsWith (drop nameStart t) (units ''capabilities^{}''));
              oid = take space t;
              name = drop nameStart t
          in if \<not> isOid oid then Inl (CorruptError ''ref advertisement has an invalid oid'')
             else if name \<in> set (as_refNames s) then Inl (CorruptError ''ref advertisement has duplicate row'')
             else
               let s1 = s\<lparr>as_refNames := as_refNames s @ [name]\<rparr>
               in if synthetic then Inr s1
                  else bindR (countEntry (as_budget s1)) (\<lambda>b.
                    if rt_problem (checkRefText name None) \<noteq> None \<or> \<not> advertisedRefName name
                    then Inl (CorruptError ''ref advertisement has an invalid ref name'')
                    else Inr (s1\<lparr>as_budget := b, as_refs := as_refs s1 @ [\<lparr>rr_name = name, rr_oid = oid\<rparr>],
                               as_headOid := (if name = HEAD then Some oid else as_headOid s1)\<rparr>)))"

definition first_row :: "jstring \<Rightarrow> AdvertisementState \<Rightarrow> (jstring \<times> AdvertisementState) result" where
  "first_row t s =
     (if as_first s then
        let s1 = s\<lparr>as_first := False\<rparr>
        in (case indexOf t [0] of
              None \<Rightarrow> Inr (t, s1)
            | Some nul \<Rightarrow> bindR (capability_loop t (nul + 1) s1) (\<lambda>s2. Inr (take nul t, s2)))
      else Inr (t, s))"

definition advertisement_step :: "Service \<Rightarrow> Pkt \<Rightarrow> (AdvertisementState, bool option) action" where
  "advertisement_step service p s =
     (case p of
        Flush \<Rightarrow> (Inr (Some True), s)
      | Delim \<Rightarrow> (Inl (CorruptError ''ref advertisement contains an unexpected pkt-line control''), s)
      | Line payload \<Rightarrow>
          (case utf8_decode_fatal payload of
             None \<Rightarrow> (Inl (CorruptError ''ref advertisement contains malformed UTF-8''), s)
           | Some decoded \<Rightarrow>
               let t = (if endsWith decoded [0x0a] then butlast decoded else decoded)
               in (case bindR (first_row t s) (\<lambda>(row, s1). ref_row service row s1) of
                     Inl e \<Rightarrow> (Inl e, s)
                   | Inr s1 \<Rightarrow> (Inr None, s1))))"

definition empty_advertisement :: "NegotiationBudget \<Rightarrow> AdvertisementState" where
  "empty_advertisement budget =
     \<lparr>as_budget = budget, as_refs = [], as_capabilities = [], as_refNames = [], as_headRef = None, as_headOid = None,
      as_first = True\<rparr>"

definition finish_advertisement :: "AdvertisementState \<Rightarrow> Advertisement result" where
  "finish_advertisement s =
     (let target = (case as_headRef s of None \<Rightarrow> None
                    | Some h \<Rightarrow> map_option rr_oid (find (\<lambda>ref. rr_name ref = h) (as_refs s)))
      in (case (as_headRef s, as_headOid s, target) of
            (Some h, Some oid, Some targetOid) \<Rightarrow>
              if targetOid \<noteq> oid then Inl (CorruptError ''advertised HEAD does not match its symref target'')
              else Inr \<lparr>ad_refs = as_refs s, ad_capabilities = as_capabilities s, ad_headRef = as_headRef s\<rparr>
          | _ \<Rightarrow> Inr \<lparr>ad_refs = as_refs s, ad_capabilities = as_capabilities s, ad_headRef = as_headRef s\<rparr>))"

definition parseAdvertisement :: "Service \<Rightarrow> NegotiationBudget \<Rightarrow> ByteReader \<Rightarrow> Advertisement result \<times> ByteReader" where
  "parseAdvertisement service budget reader =
     (case packet_loop (returnS False) (advertisement_step service) (empty_advertisement budget) reader of
        (Inl e, s, r1) \<Rightarrow> (Inl e, r1)
      | (Inr False, s, r1) \<Rightarrow> (Inl (CorruptError ''truncated ref advertisement''), r1)
      | (Inr True, s, r1) \<Rightarrow> (finish_advertisement s, r1))"

text \<open>The part of \<open>discover\<close> that reads the response body: the service header, a flush, the advertisement.\<close>

definition discover_body :: "Service \<Rightarrow> NegotiationBudget \<Rightarrow> ByteReader \<Rightarrow> Advertisement result \<times> ByteReader" where
  "discover_body service budget reader =
     (let (res, r) =
        (case readPkt reader of
           (Inl e, r1) \<Rightarrow> (Inl e, r1)
         | (Inr None, r1) \<Rightarrow> (Inl (CorruptError ''empty ref advertisement''), r1)
         | (Inr (Some first), r1) \<Rightarrow>
             let header = (case first of Line _ \<Rightarrow> ownedPktText first | _ \<Rightarrow> [])
             in if startsWith header (units ''ERR '') then (Inl (serviceError service (drop 4 header)), r1)
                else if \<not> startsWith header (units ''# service='')
                then (Inl (CorruptError ''not a smart HTTP ref advertisement''), r1)
                else (case readPkt r1 of
                        (Inl e, r2) \<Rightarrow> (Inl e, r2)
                      | (Inr (Some Flush), r2) \<Rightarrow> parseAdvertisement service budget r2
                      | (Inr _, r2) \<Rightarrow> (Inl (CorruptError ''malformed ref advertisement header''), r2)))
      in (res, releaseReader r))"

end
