(* ===== verification/UploadPack.thy ===== *)
theory UploadPack
  imports Remote
begin

text \<open>
  Fetching a pack (\<open>packages/git/src/protocol/upload-pack.ts\<close>): the negotiation request, the acknowledgement and
  shallow section of the response, and the pack behind it, raw or in side band frames. The HTTP exchange between
  request and response is outside; \<open>uploadPack_response\<close> starts at the body of a 200 response.
\<close>

section \<open>The request\<close>

definition BLOB_NONE :: jstring where
  "BLOB_NONE = units ''blob:none''"

record UploadPackRequest =
  up_wants :: "jstring list"
  up_haves :: "jstring list option"
  up_shallows :: "jstring list option"
  up_depth :: "int option"
  up_deepenRelative :: "bool option"
  up_includeTag :: "bool option"
  up_filter :: "jstring option"
  up_advertised :: "jstring list"
  up_onProgress :: "message_callback option"

definition negotiate :: "jstring list \<Rightarrow> jstring list \<Rightarrow> jstring list" where
  "negotiate advertised wanted = filter (\<lambda>capability. capability \<in> set advertised) wanted"

definition uploadPackFilter :: "jstring option \<Rightarrow> jstring option result" where
  "uploadPackFilter f =
     (if f = None \<or> f = Some BLOB_NONE then Inr f else Inl (GitError ''EUNSUPPORTED'' ''unsupported upload-pack filter''))"

definition up_shallow_list :: "UploadPackRequest \<Rightarrow> jstring list" where
  "up_shallow_list request = (case up_shallows request of None \<Rightarrow> [] | Some xs \<Rightarrow> xs)"

definition up_have_list :: "UploadPackRequest \<Rightarrow> jstring list" where
  "up_have_list request = (case up_haves request of None \<Rightarrow> [] | Some xs \<Rightarrow> xs)"

definition shallowRequested :: "UploadPackRequest \<Rightarrow> bool" where
  "shallowRequested request \<longleftrightarrow> up_depth request \<noteq> None \<or> length (up_shallow_list request) > 0"

definition needs :: "jstring list \<Rightarrow> string \<Rightarrow> string \<Rightarrow> unit result" where
  "needs advertised capability message = guardR (units capability \<in> set advertised) (GitError ''EUNSUPPORTED'' message)"

definition upload_capabilities :: "UploadPackRequest \<Rightarrow> jstring list result" where
  "upload_capabilities request =
     bindR (uploadPackFilter (up_filter request)) (\<lambda>f.
     bindR (if f \<noteq> None then needs (up_advertised request) ''filter'' ''remote does not support upload-pack filter'' else Inr ()) (\<lambda>_.
     bindR (if shallowRequested request
            then needs (up_advertised request) ''shallow'' ''remote does not support shallow fetches'' else Inr ()) (\<lambda>_.
     bindR (if up_deepenRelative request = Some True then
              (if up_depth request = None then Inl (GitError ''EINVAL'' ''relative deepening requires an upload-pack depth'')
               else needs (up_advertised request) ''deepen-relative'' ''remote does not support relative deepening'')
            else Inr ()) (\<lambda>_.
     let wanted = [units ''side-band-64k'', units ''ofs-delta'', units ''no-done'']
           @ (if up_includeTag request = Some True then [units ''include-tag''] else [])
           @ (if shallowRequested request then [units ''shallow''] else [])
           @ (if up_deepenRelative request = Some True then [units ''deepen-relative''] else [])
           @ (if up_onProgress request = None then [units ''no-progress''] else [])
           @ (if f \<noteq> None then [units ''filter''] else [])
     in Inr (negotiate (up_advertised request) wanted @ [units ''agent='' @ AGENT])))))"

definition text_line :: "jstring list \<Rightarrow> pkt_payload" where
  "text_line parts = TextPayload (concat parts @ [0x0a])"

text \<open>The payloads before the flush, and those after it.\<close>

definition want_lines :: "jstring list \<Rightarrow> jstring list \<Rightarrow> pkt_payload list" where
  "want_lines capabilities wants =
     (case wants of
        [] \<Rightarrow> []
      | oid # oids \<Rightarrow>
          text_line [units ''want '', oid, units '' '', join_with (units '' '') capabilities]
          # map (\<lambda>oid. text_line [units ''want '', oid]) oids)"

definition upload_lines :: "UploadPackRequest \<Rightarrow> jstring list \<Rightarrow> pkt_payload list \<times> pkt_payload list" where
  "upload_lines request capabilities =
     (want_lines capabilities (up_wants request)
        @ map (\<lambda>oid. text_line [units ''shallow '', oid]) (up_shallow_list request)
        @ (case up_depth request of None \<Rightarrow> [] | Some d \<Rightarrow> [text_line [units ''deepen '', to_radix 10 (nat d)]])
        @ (case up_filter request of None \<Rightarrow> [] | Some f \<Rightarrow> [text_line [units ''filter '', f]]),
      map (\<lambda>oid. text_line [units ''have '', oid]) (up_have_list request) @ [text_line [units ''done'']])"

definition concatBody :: "bytes list \<Rightarrow> bytes" where
  "concatBody parts = concat_into (replicate (foldl (\<lambda>len part. len + length part) 0 parts) 0) 0 parts"

definition uploadPack_request :: "nat \<Rightarrow> UploadPackRequest \<Rightarrow> (bytes \<times> jstring list) result" where
  "uploadPack_request entryLimit request =
     bindR (upload_capabilities request) (\<lambda>capabilities.
     bindR (guardR (length (up_wants request) \<noteq> 0) (GitError ''ENOWANT'' ''nothing to fetch'')) (\<lambda>_.
     bindR (guardR (length (up_wants request) + length (up_shallow_list request) + length (up_have_list request) \<le> entryLimit)
              entries_too_large) (\<lambda>_.
     bindR (guardR (list_all isOid (up_wants request @ up_shallow_list request @ up_have_list request))
              (CorruptError ''invalid upload-pack object id'')) (\<lambda>_.
     bindR (case up_depth request of
              None \<Rightarrow> Inr ()
            | Some d \<Rightarrow> guardR (\<bar>d\<bar> \<le> int max_safe_integer \<and> 0 < d)
                (RangeError ''upload-pack depth must be a positive safe integer'')) (\<lambda>_.
     case upload_lines request capabilities of (before, after) \<Rightarrow>
       bindR (mapR pkt before) (\<lambda>frames.
       bindR (mapR pkt after) (\<lambda>frames'.
       Inr (concatBody (frames @ [FLUSH] @ frames'), capabilities))))))))"

section \<open>The response\<close>

record ShallowState =
  sh_budget :: NegotiationBudget
  sh_shallow :: "jstring list"
  sh_unshallow :: "jstring list"

datatype pack_start = SidebandStarts bytes | RawStarts

definition isBandFrame :: "bytes \<Rightarrow> bool" where
  "isBandFrame payload = (case payload of [] \<Rightarrow> False | band # _ \<Rightarrow> 1 \<le> band \<and> band \<le> 3)"

definition both_ways :: error where
  "both_ways = CorruptError ''upload-pack both shallowed and unshallowed''"

definition shallow_line :: "bool \<Rightarrow> jstring \<Rightarrow> ShallowState \<Rightarrow> ShallowState result" where
  "shallow_line requested oid s =
     bindR (countEntry (sh_budget s)) (\<lambda>b.
     if \<not> isOid oid then Inl (CorruptError ''invalid shallow object id'')
     else if \<not> requested then Inl (CorruptError ''unsolicited shallow response'')
     else if oid \<in> set (sh_unshallow s) then Inl both_ways
     else Inr (s\<lparr>sh_budget := b, sh_shallow := sh_shallow s @ [oid]\<rparr>))"

definition unshallow_line :: "jstring list \<Rightarrow> jstring \<Rightarrow> ShallowState \<Rightarrow> ShallowState result" where
  "unshallow_line requestedShallows oid s =
     bindR (countEntry (sh_budget s)) (\<lambda>b.
     if \<not> isOid oid then Inl (CorruptError ''invalid unshallow object id'')
     else if oid \<notin> set requestedShallows then Inl (CorruptError ''upload-pack unshallowed an uncaptured object id'')
     else if oid \<in> set (sh_shallow s) then Inl both_ways
     else Inr (s\<lparr>sh_budget := b, sh_unshallow := sh_unshallow s @ [oid]\<rparr>))"

definition keep_on :: "'s result \<Rightarrow> 's \<Rightarrow> 'a option result \<times> 's" where
  "keep_on r s = (case r of Inl e \<Rightarrow> (Inl e, s) | Inr s1 \<Rightarrow> (Inr None, s1))"

definition response_step :: "UploadPackRequest \<Rightarrow> bool \<Rightarrow> Pkt \<Rightarrow> (ShallowState, pack_start option) action" where
  "response_step request useSideband p s =
     (case p of
        Line payload \<Rightarrow>
          if useSideband \<and> isBandFrame payload then (Inr (Some (SidebandStarts payload)), s)
          else
            let t = ownedPktText p
            in if startsWith t (units ''shallow '') then keep_on (shallow_line (shallowRequested request) (drop 8 t) s) s
               else if startsWith t (units ''unshallow '') then keep_on (unshallow_line (up_shallow_list request) (drop 10 t) s) s
               else if startsWith t (units ''ERR '') then (Inl (RemoteError ''EFETCHFAIL'' (drop 4 t)), s)
               else if startsWith t (units ''ACK'') \<or> startsWith t (units ''NAK'') then
                 (if useSideband then (Inr None, s) else (Inr (Some RawStarts), s))
               else (Inl (CorruptError ''unexpected upload-pack response''), s)
      | _ \<Rightarrow> (Inr None, s))"

record PackState =
  pk_yielded :: "bytes list"
  pk_log :: "jstring list"

definition pack_frame :: "message_callback option \<Rightarrow> bytes \<Rightarrow> (PackState, unit) action" where
  "pack_frame onProgress frame s =
     (case frame of
        [] \<Rightarrow> (Inl (CorruptError ''sideband response contains an invalid band''), s)
      | band # payload \<Rightarrow>
          if band = 1 then
            (if length payload > 0 then (Inr (), s\<lparr>pk_yielded := pk_yielded s @ [payload]\<rparr>) else (Inr (), s))
          else if band = 2 then
            (case onProgress of
               None \<Rightarrow> (Inr (), s)
             | Some f \<Rightarrow>
                 let message = utf8_decode payload;
                     s1 = s\<lparr>pk_log := pk_log s @ [message]\<rparr>
                 in (case f message of Inl e \<Rightarrow> (Inl e, s1) | Inr _ \<Rightarrow> (Inr (), s1)))
          else if band = 3 then (Inl (RemoteError ''EFETCHFAIL'' (trim (utf8_decode payload))), s)
          else (Inl (CorruptError ''sideband response contains an invalid band''), s))"

text \<open>
  The loop, which looks at the abort signal before every frame, from the iteration that reads a frame
  (\<open>frame === null\<close>); reading a packet leaves less in the reader.
\<close>

function sideband_loop ::
    "message_callback option \<Rightarrow> PackState \<Rightarrow> ByteReader \<Rightarrow> unit result \<times> PackState \<times> ByteReader" where
  "sideband_loop onProgress s r =
     (case throwIfAborted r of
        Inl e \<Rightarrow> (Inl e, s, r)
      | Inr _ \<Rightarrow>
          (case readPkt r of
             (Inl e, r1) \<Rightarrow> (Inl e, s, r1)
           | (Inr None, r1) \<Rightarrow> (Inl (CorruptError ''sideband response ended before its flush''), s, r1)
           | (Inr (Some p), r1) \<Rightarrow>
               (case p of
                  Flush \<Rightarrow> (Inr (), s, r1)
                | Delim \<Rightarrow> sideband_loop onProgress s r1
                | Line frame \<Rightarrow>
                    (case pack_frame onProgress frame s of
                       (Inl e, s1) \<Rightarrow> (Inl e, s1, r1)
                     | (Inr _, s1) \<Rightarrow> sideband_loop onProgress s1 r1))))"
  by pat_completeness auto
termination
  by (relation "measure (\<lambda>(_, _, r). backlog r)") (auto dest!: readPkt_backlog [OF sym])

declare sideband_loop.simps [simp del]

text \<open>
  The whole run of the generator, its messages included; the frame that started the pack comes first. The
  release at the end swallows its own error.
\<close>

definition sideband :: "message_callback option \<Rightarrow> bytes \<Rightarrow> ByteReader \<Rightarrow> generated \<times> jstring list" where
  "sideband onProgress first reader =
     (let s0 = \<lparr>pk_yielded = [], pk_log = []\<rparr>;
          (res, s) =
            (case throwIfAborted reader of
               Inl e \<Rightarrow> (Inl e, s0)
             | Inr _ \<Rightarrow>
                 (case pack_frame onProgress first s0 of
                    (Inl e, s1) \<Rightarrow> (Inl e, s1)
                  | (Inr _, s1) \<Rightarrow> (case sideband_loop onProgress s1 reader of (r, s2, r1) \<Rightarrow> (r, s2))))
      in ((pk_yielded s, case res of Inl e \<Rightarrow> Some e | Inr _ \<Rightarrow> None), pk_log s))"

definition rawPack :: "ByteReader \<Rightarrow> generated" where
  "rawPack reader = (case br_rest reader of (chunks, failure, r1) \<Rightarrow> (chunks, failure))"

record UploadPackResult =
  ur_shallow :: "jstring list"
  ur_unshallow :: "jstring list"
  ur_pack :: generated

definition uploadPack_response :: "nat \<Rightarrow> UploadPackRequest \<Rightarrow> jstring list \<Rightarrow> ByteReader \<Rightarrow> UploadPackResult result" where
  "uploadPack_response entryLimit request capabilities reader =
     (case packet_loop (throwS (CorruptError ''upload-pack response ended before the pack''))
             (response_step request (units ''side-band-64k'' \<in> set capabilities))
             \<lparr>sh_budget = newNegotiationBudget entryLimit, sh_shallow = [], sh_unshallow = []\<rparr> reader of
        (Inl e, s, r1) \<Rightarrow> Inl e
      | (Inr (SidebandStarts first), s, r1) \<Rightarrow>
          Inr \<lparr>ur_shallow = sh_shallow s, ur_unshallow = sh_unshallow s,
               ur_pack = fst (sideband (up_onProgress request) first r1)\<rparr>
      | (Inr RawStarts, s, r1) \<Rightarrow>
          Inr \<lparr>ur_shallow = sh_shallow s, ur_unshallow = sh_unshallow s, ur_pack = rawPack r1\<rparr>)"

end
