(* ===== verification/Server.thy ===== *)
theory Server
  imports UploadPack
begin

text \<open>
  The server side of the protocol (\<open>packages/git/src/protocol/server\<close>): validation, the ref advertisement, the
  receive-pack and upload-pack request parsers, and the encoders of status, acknowledgement and pack. A generator
  is the frames it yields and the error that ends it.
\<close>

section \<open>Validation\<close>

text \<open>\<open>new TextDecoder("utf-8", { fatal: true, ignoreBOM: true }).decode\<close>: a byte order mark is kept.\<close>

definition utf8_decode_exact :: "bytes \<Rightarrow> jstring option" where
  "utf8_decode_exact bs =
     (let ps = decode_from fresh bs
      in if None \<in> set ps then None else Some (concat (map (\<lambda>p. point_units (the p)) ps)))"

definition serverPacketText :: "Pkt \<Rightarrow> jstring result" where
  "serverPacketText packet =
     (case packet of
        Line payload \<Rightarrow>
          (case utf8_decode_exact payload of
             None \<Rightarrow> Inl (CorruptError ''server request contains malformed UTF-8'')
           | Some decoded \<Rightarrow>
               let t = (if endsWith decoded [0x0a] then butlast decoded else decoded)
               in if 0x0a \<in> set t \<or> 0x0d \<in> set t then Inl (CorruptError ''server request contains multiple command lines'')
                  else Inr t)
      | _ \<Rightarrow> Inl (CorruptError ''unexpected server request control packet''))"

definition requireServerRef :: "jstring \<Rightarrow> unit result" where
  "requireServerRef ref =
     (let checked = checkRefText ref (Some MAX_REF_NAME_BYTES)
      in if rt_problem checked = Some TooLong then Inl (GitError ''E2BIG'' ''server ref exceeds stored ref-name capacity'')
         else if rt_problem checked \<noteq> None
              \<or> \<not> (startsWith ref (units ''refs/heads/'') \<or> startsWith ref (units ''refs/tags/''))
              \<or> \<not> hasCanonicalRefSyntax_whole ref
         then Inl (GitError ''EINVALIDREF'' ''server accepts only canonical heads and tags'')
         else Inr ())"

definition requireServerOid :: "bool \<Rightarrow> jstring \<Rightarrow> unit result" where
  "requireServerOid allowZero oid =
     (if \<not> isOid oid \<or> (\<not> allowZero \<and> oid = ZERO_OID)
      then Inl (CorruptError ''server request contains an invalid SHA-1 object id'') else Inr ())"

definition strip_spaces :: "jstring \<Rightarrow> jstring" where
  "strip_spaces t = rev (dropWhile (\<lambda>c. c = 0x20) (rev (dropWhile (\<lambda>c. c = 0x20) t)))"

definition capability_token :: "jstring list \<Rightarrow> jstring \<Rightarrow> jstring list \<Rightarrow> jstring list result" where
  "capability_token supported token selected =
     (if token = [] \<or> token \<in> set selected
      then Inl (CorruptError ''server request contains duplicate or malformed capabilities'')
      else if token \<notin> set supported then Inl (GitError ''EUNSUPPORTED'' ''unsupported server capability'')
      else Inr (selected @ [token]))"

definition parseCapabilities :: "jstring \<Rightarrow> jstring list \<Rightarrow> jstring list result" where
  "parseCapabilities t supported =
     (if t = [] then Inr []
      else foldR (capability_token supported) (split_at 0x20 (strip_spaces t)) [])"

section \<open>The advertisement\<close>

definition RECEIVE_SERVER_CAPABILITIES :: "jstring list" where
  "RECEIVE_SERVER_CAPABILITIES = [units ''report-status'', units ''delete-refs'', units ''no-thin'']"

definition UPLOAD_SERVER_CAPABILITIES :: "jstring list" where
  "UPLOAD_SERVER_CAPABILITIES = [units ''multi_ack_detailed'', units ''side-band-64k'']"

record ServerAdvertisedRef =
  sa_name :: jstring
  sa_oid :: jstring
  sa_peeledOid :: "jstring option"

record ServerHead =
  hd_ref :: jstring
  hd_oid :: "jstring option"

record ServerAdvertisement =
  sv_refs :: "ServerAdvertisedRef list"
  sv_head :: "ServerHead option"

text \<open>\<open>yield\<close> of a frame: the frames yielded so far are the state.\<close>

definition yield_frame :: "bytes result \<Rightarrow> (bytes list, unit) action" where
  "yield_frame frame s = (case frame of Inl e \<Rightarrow> (Inl e, s) | Inr bs \<Rightarrow> (Inr (), s @ [bs]))"

definition yield_text :: "jstring list \<Rightarrow> (bytes list, unit) action" where
  "yield_text parts = yield_frame (pkt (text_line parts))"

definition service_name :: "Service \<Rightarrow> jstring" where
  "service_name service =
     (case service of UploadPackService \<Rightarrow> units ''git-upload-pack'' | ReceivePackService \<Rightarrow> units ''git-receive-pack'')"

definition require_head :: "ServerHead option \<Rightarrow> unit result" where
  "require_head head =
     (case head of
        None \<Rightarrow> Inr ()
      | Some h \<Rightarrow>
          bindR (requireServerRef (hd_ref h)) (\<lambda>_.
          bindR (guardR (startsWith (hd_ref h) (units ''refs/heads/''))
                   (GitError ''EINVALIDREF'' ''server HEAD must target a branch'')) (\<lambda>_.
          case hd_oid h of None \<Rightarrow> Inr () | Some oid \<Rightarrow> requireServerOid False oid)))"

definition server_capabilities :: "Service \<Rightarrow> ServerHead option \<Rightarrow> jstring list" where
  "server_capabilities service head =
     (if service = UploadPackService
      then UPLOAD_SERVER_CAPABILITIES @ (case head of None \<Rightarrow> [] | Some h \<Rightarrow> [units ''symref=HEAD:'' @ hd_ref h])
      else RECEIVE_SERVER_CAPABILITIES)"

definition capability_suffix :: "jstring list \<Rightarrow> jstring" where
  "capability_suffix capabilities = 0 # join_with (units '' '') capabilities"

definition advertise_ref ::
    "Service \<Rightarrow> ServerHead option \<Rightarrow> jstring list \<Rightarrow> bool \<Rightarrow> jstring option \<Rightarrow> ServerAdvertisedRef \<Rightarrow> (bytes list, unit) action" where
  "advertise_ref service head capabilities first previous ref =
     bindS (liftS (requireServerRef (sa_name ref))) (\<lambda>_.
     bindS (liftS (requireServerOid False (sa_oid ref))) (\<lambda>_.
     bindS (liftS (case previous of
                     None \<Rightarrow> Inr ()
                   | Some p \<Rightarrow> guardR (comparePaths p (sa_name ref) < 0)
                       (GitError ''EINVAL'' ''advertised refs must be unique and ordered by UTF-8 bytes''))) (\<lambda>_.
     bindS (liftS (case head of
                     None \<Rightarrow> Inr ()
                   | Some h \<Rightarrow> guardR (\<not> (sa_name ref = hd_ref h \<and> Some (sa_oid ref) \<noteq> hd_oid h))
                       (GitError ''EINVAL'' ''advertised HEAD differs from its branch''))) (\<lambda>_.
     bindS (yield_text [sa_oid ref, units '' '', sa_name ref, if first then capability_suffix capabilities else []]) (\<lambda>_.
     case sa_peeledOid ref of
       None \<Rightarrow> returnS ()
     | Some peeled \<Rightarrow>
         bindS (liftS (guardR (startsWith (sa_name ref) (units ''refs/tags/''))
                         (GitError ''EINVAL'' ''only advertised tags may have peeled targets''))) (\<lambda>_.
         bindS (liftS (requireServerOid False peeled)) (\<lambda>_.
         if service = UploadPackService then yield_text [peeled, units '' '', sa_name ref, units ''^{}''] else returnS ())))))))"

fun advertise_refs ::
    "Service \<Rightarrow> ServerHead option \<Rightarrow> jstring list \<Rightarrow> bool \<Rightarrow> jstring option \<Rightarrow> ServerAdvertisedRef list \<Rightarrow> (bytes list, bool) action" where
  "advertise_refs service head capabilities first previous [] = returnS first"
| "advertise_refs service head capabilities first previous (ref # refs) =
     bindS (advertise_ref service head capabilities first previous ref) (\<lambda>_.
     advertise_refs service head capabilities False (Some (sa_name ref)) refs)"

definition generated_by :: "(bytes list, unit) action \<Rightarrow> generated" where
  "generated_by run = (case run [] of (res, frames) \<Rightarrow> (frames, case res of Inl e \<Rightarrow> Some e | Inr _ \<Rightarrow> None))"

definition encodeAdvertisement :: "Service \<Rightarrow> ServerAdvertisement \<Rightarrow> generated" where
  "encodeAdvertisement service advertisement =
     (let head = sv_head advertisement;
          capabilities = server_capabilities service head;
          head_oid = (if service = UploadPackService then (case head of None \<Rightarrow> None | Some h \<Rightarrow> hd_oid h) else None)
      in generated_by (
        bindS (liftS (require_head head)) (\<lambda>_.
        bindS (yield_text [units ''# service='', service_name service]) (\<lambda>_.
        bindS (yield_frame (Inr FLUSH)) (\<lambda>_.
        bindS (case head_oid of
                 None \<Rightarrow> returnS True
               | Some oid \<Rightarrow>
                   bindS (yield_text [oid, units '' HEAD'', capability_suffix capabilities]) (\<lambda>_. returnS False)) (\<lambda>first0.
        bindS (advertise_refs service head capabilities first0 None (sv_refs advertisement)) (\<lambda>first.
        bindS (if first then yield_text [ZERO_OID, units '' capabilities^{}'', capability_suffix capabilities]
               else returnS ()) (\<lambda>_.
        yield_frame (Inr FLUSH)))))))))"

section \<open>The receive-pack request\<close>

record ReceiveState =
  rc_commands :: "ReceivePackCommand list"
  rc_reportStatus :: bool

text \<open>The set of refs seen is the set of the commands' refs.\<close>

definition receive_line :: "jstring \<Rightarrow> ReceiveState \<Rightarrow> ReceiveState result" where
  "receive_line line s =
     bindR (case indexOf line [0] of
              None \<Rightarrow> Inr (line, rc_reportStatus s)
            | Some nul \<Rightarrow>
                if length (rc_commands s) \<noteq> 0 then Inl (CorruptError ''receive capabilities occur after the first command'')
                else bindR (parseCapabilities (drop (nul + 1) line) RECEIVE_SERVER_CAPABILITIES) (\<lambda>capabilities.
                  Inr (take nul line, units ''report-status'' \<in> set capabilities))) (\<lambda>(t, reportStatus).
     case split_at 0x20 t of
       [oldOid, newOid, ref] \<Rightarrow>
         bindR (requireServerOid True oldOid) (\<lambda>_.
         bindR (requireServerOid True newOid) (\<lambda>_.
         bindR (guardR (\<not> (oldOid = ZERO_OID \<and> newOid = ZERO_OID))
                  (CorruptError ''receive command cannot both create and delete a ref'')) (\<lambda>_.
         bindR (requireServerRef ref) (\<lambda>_.
         bindR (guardR (ref \<notin> set (map cmd_ref (rc_commands s))) (CorruptError ''duplicate receive destination'')) (\<lambda>_.
         Inr \<lparr>rc_commands = rc_commands s @ [\<lparr>cmd_oldOid = oldOid, cmd_newOid = newOid, cmd_ref = ref\<rparr>],
              rc_reportStatus = reportStatus\<rparr>)))))
     | _ \<Rightarrow> Inl (CorruptError ''malformed receive command''))"

definition receive_step :: "Pkt \<Rightarrow> (ReceiveState, unit option) action" where
  "receive_step p s =
     (if p = Flush then (Inr (Some ()), s)
      else if length (rc_commands s) = MAX_RECEIVE_PACK_COMMANDS
      then (Inl (GitError ''E2BIG'' ''receive commands exceed the bounded publication set''), s)
      else keep_on (bindR (serverPacketText p) (\<lambda>line. receive_line line s)) s)"

fun read_pack_loop :: "nat \<Rightarrow> bool \<Rightarrow> nat \<Rightarrow> bytes list \<Rightarrow> error option \<Rightarrow> generated" where
  "read_pack_loop maxBytes acceptsPack bytes [] failure = ([], failure)"
| "read_pack_loop maxBytes acceptsPack bytes (chunk # chunks) failure =
     (if \<not> acceptsPack then ([], Some (CorruptError ''pack bytes follow a delete-only or empty receive request''))
      else if int (length chunk) > int maxBytes - int bytes
      then ([], Some (GitError ''E2BIG'' ''incoming pack exceeds the deployment storage limit''))
      else (case read_pack_loop maxBytes acceptsPack (bytes + length chunk) chunks failure of
              (cs, e) \<Rightarrow> (chunk # cs, e)))"

definition readPack :: "ByteReader \<Rightarrow> nat \<Rightarrow> bool \<Rightarrow> generated" where
  "readPack reader maxBytes acceptsPack =
     (case br_rest reader of (chunks, failure, r1) \<Rightarrow> read_pack_loop maxBytes acceptsPack 0 chunks failure)"

record ServerReceiveRequest =
  sr_commands :: "ReceivePackCommand list"
  sr_reportStatus :: bool
  sr_pack :: generated

definition parseReceivePackRequest :: "int \<Rightarrow> ByteReader \<Rightarrow> ServerReceiveRequest result" where
  "parseReceivePackRequest maxPackBytes reader =
     (if \<bar>maxPackBytes\<bar> > int max_safe_integer \<or> maxPackBytes < 0
      then Inl (GitError ''EINVAL'' ''maxPackBytes must be a nonnegative safe integer'')
      else case packet_loop (throwS (CorruptError ''receive commands ended before flush'')) receive_step
                  \<lparr>rc_commands = [], rc_reportStatus = False\<rparr> reader of
        (Inl e, s, r1) \<Rightarrow> Inl e
      | (Inr _, s, r1) \<Rightarrow>
          Inr \<lparr>sr_commands = rc_commands s, sr_reportStatus = rc_reportStatus s,
               sr_pack = readPack r1 (nat maxPackBytes) (list_ex (\<lambda>c. cmd_newOid c \<noteq> ZERO_OID) (rc_commands s))\<rparr>)"

section \<open>The upload-pack request\<close>

record UploadState =
  us_wants :: "jstring list"
  us_haves :: "jstring list"
  us_capabilities :: "jstring list"
  us_wantsEnded :: bool
  us_entries :: nat

record ServerUploadRequest =
  su_wants :: "jstring list"
  su_haves :: "jstring list"
  su_done :: bool
  su_detailedAck :: bool
  su_sideband :: bool

definition upload_line :: "jstring \<Rightarrow> UploadState \<Rightarrow> UploadState result" where
  "upload_line t s =
     (case split_at 0x20 t of
        command # oid # extra \<Rightarrow>
          if command \<noteq> (if us_wantsEnded s then units ''have'' else units ''want'')
          then Inl (CorruptError ''unexpected upload command or command order'')
          else
            bindR (requireServerOid False oid) (\<lambda>_.
            bindR (if \<not> us_wantsEnded s \<and> length (us_wants s) = 0
                   then parseCapabilities (join_with (units '' '') extra) UPLOAD_SERVER_CAPABILITIES
                   else if length extra \<noteq> 0 then Inl (CorruptError ''upload capabilities occur after the first want'')
                   else Inr (us_capabilities s)) (\<lambda>capabilities.
            if us_entries s = MAX_PROTOCOL_NEGOTIATION_ENTRIES
            then Inl (GitError ''E2BIG'' ''upload negotiation exceeds the bounded object-id set'')
            else
              let s1 = s\<lparr>us_capabilities := capabilities, us_entries := us_entries s + 1\<rparr>
              in Inr (if us_wantsEnded s then s1\<lparr>us_haves := set_add oid (us_haves s)\<rparr>
                      else s1\<lparr>us_wants := set_add oid (us_wants s)\<rparr>)))
      | _ \<Rightarrow> Inl (CorruptError ''unexpected upload command or command order''))"

text \<open>The loop leaves with whether \<open>done\<close> was read.\<close>

definition upload_step :: "Pkt \<Rightarrow> (UploadState, bool option) action" where
  "upload_step p s =
     (if p = Flush then (if us_wantsEnded s then (Inr (Some False), s) else (Inr None, s\<lparr>us_wantsEnded := True\<rparr>))
      else case serverPacketText p of
        Inl e \<Rightarrow> (Inl e, s)
      | Inr t \<Rightarrow> if t = units ''done'' \<and> us_wantsEnded s then (Inr (Some True), s) else keep_on (upload_line t s) s)"

definition parseUploadPackRequest :: "ByteReader \<Rightarrow> ServerUploadRequest result" where
  "parseUploadPackRequest reader =
     (case packet_loop (throwS (CorruptError ''upload request ended before its terminal packet'')) upload_step
             \<lparr>us_wants = [], us_haves = [], us_capabilities = [], us_wantsEnded = False, us_entries = 0\<rparr> reader of
        (Inl e, s, r1) \<Rightarrow> Inl e
      | (Inr finished, s, r1) \<Rightarrow>
          if length (us_wants s) = 0 then Inl (CorruptError ''upload request contains no wants'')
          else (case readPkt r1 of
                  (Inl e, r2) \<Rightarrow> Inl e
                | (Inr (Some _), r2) \<Rightarrow> Inl (CorruptError ''bytes follow the upload request terminal packet'')
                | (Inr None, r2) \<Rightarrow>
                    Inr \<lparr>su_wants = us_wants s, su_haves = us_haves s, su_done = finished,
                         su_detailedAck = (units ''multi_ack_detailed'' \<in> set (us_capabilities s)),
                         su_sideband = (units ''side-band-64k'' \<in> set (us_capabilities s))\<rparr>))"

section \<open>Responses\<close>

datatype AckKind = Common | Ready

definition encodeAck :: "jstring option \<Rightarrow> AckKind option \<Rightarrow> bytes result" where
  "encodeAck oid kind =
     (case oid of
        None \<Rightarrow> if kind \<noteq> None then Inl (GitError ''EINVAL'' ''NAK cannot carry an ACK kind'')
          else pkt (text_line [units ''NAK''])
      | Some target \<Rightarrow>
          bindR (requireServerOid False target) (\<lambda>_.
          pkt (text_line [units ''ACK '', target,
            case kind of None \<Rightarrow> [] | Some Common \<Rightarrow> units '' common'' | Some Ready \<Rightarrow> units '' ready''])))"

record ServerRefStatus =
  ss_ref :: jstring
  ss_error :: "jstring option"

definition requireStatusText :: "jstring \<Rightarrow> unit result" where
  "requireStatusText t =
     (if length t = 0 \<or> 0 \<in> set t \<or> 0x0d \<in> set t \<or> 0x0a \<in> set t
      then Inl (GitError ''EINVAL'' ''receive status must contain a single nonempty line'') else Inr ())"

definition encode_status :: "ServerRefStatus \<Rightarrow> (bytes list, unit) action" where
  "encode_status status =
     bindS (liftS (requireServerRef (ss_ref status))) (\<lambda>_.
     case ss_error status of
       None \<Rightarrow> yield_text [units ''ok '', ss_ref status]
     | Some t \<Rightarrow>
         bindS (liftS (requireStatusText t)) (\<lambda>_. yield_text [units ''ng '', ss_ref status, units '' '', t]))"

fun encode_statuses :: "ServerRefStatus list \<Rightarrow> (bytes list, unit) action" where
  "encode_statuses [] = returnS ()"
| "encode_statuses (status # statuses) = bindS (encode_status status) (\<lambda>_. encode_statuses statuses)"

definition encodeReceiveStatus :: "jstring \<Rightarrow> ServerRefStatus list \<Rightarrow> generated" where
  "encodeReceiveStatus unpack statuses =
     generated_by (
       bindS (liftS (requireStatusText unpack)) (\<lambda>_.
       bindS (yield_text [units ''unpack '', unpack]) (\<lambda>_.
       bindS (encode_statuses statuses) (\<lambda>_.
       yield_frame (Inr FLUSH)))))"

function band_chunks :: "bytes \<Rightarrow> nat \<Rightarrow> (bytes list, unit) action" where
  "band_chunks chunk offset =
     (if offset < length chunk then
        bindS (yield_frame (pkt (BytesPayload (1 # take (MAX_PKT_PAYLOAD_BYTES - 1) (drop offset chunk))))) (\<lambda>_.
        band_chunks chunk (offset + (MAX_PKT_PAYLOAD_BYTES - 1)))
      else returnS ())"
  by pat_completeness auto
termination
  by (relation "measure (\<lambda>(chunk, offset). length chunk - offset)")
    (auto simp: MAX_PKT_PAYLOAD_BYTES_def MAX_PKT_FRAME_BYTES_def)

declare band_chunks.simps [simp del]

fun response_chunks :: "bool \<Rightarrow> bytes list \<Rightarrow> (bytes list, unit) action" where
  "response_chunks useSideband [] = returnS ()"
| "response_chunks useSideband (chunk # chunks) =
     bindS (if useSideband then band_chunks chunk 0 else yield_frame (Inr chunk)) (\<lambda>_.
     response_chunks useSideband chunks)"

definition encodePackResponse :: "generated \<Rightarrow> bool \<Rightarrow> generated" where
  "encodePackResponse pack useSideband =
     generated_by (
       bindS (response_chunks useSideband (fst pack)) (\<lambda>_.
       case snd pack of
         Some e \<Rightarrow> throwS e
       | None \<Rightarrow> if useSideband then yield_frame (Inr FLUSH) else returnS ()))"

end
