(* ===== verification/Protocol.thy ===== *)
theory Protocol
  imports Server
begin

text \<open>
  Client and server against each other: what one side writes, the other reads back. The generators of the server
  are reduced to the packets they emit, the readers of both sides to what their loops do with a list of packets.
\<close>

section \<open>Emitted packets\<close>

definition emitted :: "bytes list \<Rightarrow> Pkt list \<Rightarrow> bytes list \<Rightarrow> bool" where
  "emitted s ps t \<longleftrightarrow> (\<exists>bss. t = s @ bss \<and> list_all2 (\<lambda>p bs. wire p = Inr bs) ps bss)"

lemma emitted_refl [simp]: "emitted s [] s"
  by (simp add: emitted_def)

lemma emitted_trans: "emitted s ps t \<Longrightarrow> emitted t qs u \<Longrightarrow> emitted s (ps @ qs) u"
  by (auto simp: emitted_def intro!: list_all2_appendI)

lemma emitted_Cons: "emitted s [p] t \<Longrightarrow> emitted t qs u \<Longrightarrow> emitted s (p # qs) u"
  using emitted_trans [of s "[p]" t qs u] by simp

definition text_packet :: "jstring list \<Rightarrow> Pkt" where
  "text_packet parts = Line (utf8_encode (concat parts @ [0x0a]))"

lemma wire_text_packet: "wire (text_packet parts) = pkt (text_line parts)"
  using wire_pkt [of "text_line parts"] by (simp add: text_packet_def text_line_def payload_body_def)

lemma yield_text_emitted: "yield_text parts s = (Inr x, t) \<Longrightarrow> emitted s [text_packet parts] t"
  by (auto simp: yield_text_def yield_frame_def emitted_def wire_text_packet split: sum.splits)

lemma yield_flush_emitted: "yield_frame (Inr FLUSH) s = (Inr x, t) \<Longrightarrow> emitted s [Flush] t"
  by (auto simp: yield_frame_def emitted_def)

lemma generated_by_emitted:
  "generated_by run = (frames, None) \<Longrightarrow> (\<And>t x. run [] = (Inr x, t) \<Longrightarrow> emitted [] ps t) \<Longrightarrow>
     list_all2 (\<lambda>p bs. wire p = Inr bs) ps frames"
  by (auto simp: generated_by_def emitted_def split: prod.splits sum.splits)

lemma generated_reads:
  assumes "list_all2 (\<lambda>p bs. wire p = Inr bs) ps frames" "reader_ok r" "unread r = (concat frames, Ended)"
  shows "\<exists>r'. reads r ps r' \<and> reader_ok r' \<and> unread r' = ([], Ended)"
  using wire_reads [OF assms(1,2), of "[]" Ended] assms(3) by simp

section \<open>Text\<close>

lemma utf8_decode_exact_encode: "well_formed s \<Longrightarrow> utf8_decode_exact (utf8_encode s) = Some s"
  using points_units_inverse [of s] by (auto simp: utf8_decode_exact_def decode_utf8_encode Let_def comp_def)

lemma well_formed_append [simp]: "well_formed p \<Longrightarrow> well_formed (p @ q) \<longleftrightarrow> well_formed q"
  by (induction p rule: units_induct) (auto simp: well_formed.simps(2) split: list.splits)

lemma well_formed_ascii: "\<forall>u \<in> set s. unat u < 0x80 \<Longrightarrow> well_formed s"
  by (induction s) (auto simp: well_formed.simps(2) high_unat low_unat split: list.splits)

lemma well_formed_Cons [simp]: "unat u < 0x80 \<Longrightarrow> well_formed (u # s) \<longleftrightarrow> well_formed s"
  by (simp add: well_formed.simps(2) high_unat low_unat)

lemma units_ascii: "\<forall>c \<in> set s. of_char c < (128 :: nat) \<Longrightarrow> \<forall>u \<in> set (units s). unat u < 0x80"
  by (auto simp: units_def)

lemma well_formed_units: "\<forall>c \<in> set s. of_char c < (128 :: nat) \<Longrightarrow> well_formed (units s)"
  by (intro well_formed_ascii units_ascii)

lemma isOid_ascii: "isOid v \<Longrightarrow> \<forall>u \<in> set v. unat u < 0x80"
  by (auto simp: isOid_def list_all_iff is_lower_hex_def word_le_nat_alt)

lemma isOid_well_formed: "isOid v \<Longrightarrow> well_formed v"
  by (intro well_formed_ascii isOid_ascii)

lemma isOid_no_space: "isOid v \<Longrightarrow> 0x20 \<notin> set v \<and> 0 \<notin> set v \<and> 0x0a \<notin> set v \<and> 0x0d \<notin> set v"
  by (auto simp: isOid_def list_all_iff is_lower_hex_def)

section \<open>The pack response\<close>

lemma band_frame_emitted:
  assumes "length piece \<le> MAX_PKT_PAYLOAD_BYTES - 1"
  shows "\<exists>t. yield_frame (pkt (BytesPayload (1 # piece))) s = (Inr (), t) \<and> emitted s [Line (1 # piece)] t"
  using assms
  by (auto simp: pkt_def payload_body_def yield_frame_def emitted_def MAX_PKT_PAYLOAD_BYTES_def MAX_PKT_FRAME_BYTES_def)

definition bands :: "bytes list \<Rightarrow> Pkt list" where
  "bands pieces = map (\<lambda>piece. Line (1 # piece)) pieces"

lemma band_chunks_emitted:
  "\<exists>t pieces. band_chunks chunk offset s = (Inr (), t) \<and> emitted s (bands pieces) t
     \<and> concat pieces = drop offset chunk \<and> [] \<notin> set pieces"
proof (induction chunk offset arbitrary: s rule: band_chunks.induct)
  case (1 chunk offset)
  show ?case
  proof (cases "offset < length chunk")
    case False
    then show ?thesis by (subst band_chunks.simps) (auto simp: bands_def intro!: exI [of _ "[]"])
  next
    case True
    let ?n = "MAX_PKT_PAYLOAD_BYTES - 1"
    define piece where "piece = take ?n (drop offset chunk)"
    obtain t where t: "yield_frame (pkt (BytesPayload (1 # piece))) s = (Inr (), t)" "emitted s [Line (1 # piece)] t"
      using band_frame_emitted [of piece s] by (auto simp: piece_def)
    obtain u pieces where u: "band_chunks chunk (offset + ?n) t = (Inr (), u)" "emitted t (bands pieces) u"
      "concat pieces = drop (offset + ?n) chunk" "[] \<notin> set pieces"
      using "1.IH" [OF True] by blast
    have "band_chunks chunk offset s = (Inr (), u)"
      using True t(1) u(1) by (subst band_chunks.simps) (simp add: bindS_def piece_def)
    moreover have "emitted s (bands (piece # pieces)) u" using emitted_Cons t(2) u(2) by (simp add: bands_def)
    moreover have "concat (piece # pieces) = drop offset chunk"
      by (metis append_take_drop_id concat.simps(2) drop_drop add.commute piece_def u(3))
    moreover have "piece \<noteq> []" using True by (simp add: piece_def MAX_PKT_PAYLOAD_BYTES_def MAX_PKT_FRAME_BYTES_def)
    ultimately show ?thesis using u(4) by (intro exI [of _ u] exI [of _ "piece # pieces"]) auto
  qed
qed

lemma response_chunks_emitted:
  "\<exists>t pieces. response_chunks True chunks s = (Inr (), t) \<and> emitted s (bands pieces) t
     \<and> concat pieces = concat chunks \<and> [] \<notin> set pieces"
proof (induction chunks arbitrary: s)
  case Nil
  then show ?case by (auto simp: bands_def intro!: exI [of _ "[]"])
next
  case (Cons chunk chunks)
  obtain t pieces where t: "band_chunks chunk 0 s = (Inr (), t)" "emitted s (bands pieces) t"
    "concat pieces = chunk" "[] \<notin> set pieces" using band_chunks_emitted [of chunk 0 s] by auto
  obtain u more where u: "response_chunks True chunks t = (Inr (), u)" "emitted t (bands more) u"
    "concat more = concat chunks" "[] \<notin> set more" using Cons.IH by blast
  have "emitted s (bands (pieces @ more)) u" using emitted_trans [OF t(2) u(2)] by (simp add: bands_def)
  then show ?case using t u
    by (intro exI [of _ u] exI [of _ "pieces @ more"]) (auto simp: bindS_def)
qed

lemma encodePackResponse_sideband:
  "\<exists>frames pieces. encodePackResponse (chunks, None) True = (frames, None)
     \<and> list_all2 (\<lambda>p bs. wire p = Inr bs) (bands pieces @ [Flush]) frames
     \<and> concat pieces = concat chunks \<and> [] \<notin> set pieces"
proof -
  obtain t pieces where t: "response_chunks True chunks [] = (Inr (), t)" "emitted [] (bands pieces) t"
    "concat pieces = concat chunks" "[] \<notin> set pieces" using response_chunks_emitted by blast
  have "list_all2 (\<lambda>p bs. wire p = Inr bs) (bands pieces @ [Flush]) (t @ [FLUSH])"
    using t(2) by (auto simp: emitted_def intro!: list_all2_appendI)
  then show ?thesis using t
    by (intro exI [of _ "t @ [FLUSH]"] exI [of _ pieces])
      (simp add: encodePackResponse_def generated_by_def bindS_def yield_frame_def)
qed

lemma encodePackResponse_raw: "encodePackResponse (chunks, None) False = (chunks, None)"
proof -
  have "response_chunks False chunks s = (Inr (), s @ chunks)" for s
    by (induction chunks arbitrary: s) (simp_all add: bindS_def yield_frame_def)
  then show ?thesis by (simp add: encodePackResponse_def generated_by_def bindS_def)
qed

text \<open>A packet is read only before the signal fires.\<close>

lemma readPkt_not_aborted: "readPkt r = (Inr x, r1) \<Longrightarrow> throwIfAborted r = Inr ()"
  by (auto simp: readPkt_def read_frame_def throwIfAborted_def split: prod.splits sum.splits if_splits)

lemma sideband_loop_bands:
  "reads r ps r' \<Longrightarrow> ps = bands pieces @ [Flush] \<Longrightarrow> [] \<notin> set pieces \<Longrightarrow>
     sideband_loop onProgress s r = (Inr (), s\<lparr>pk_yielded := pk_yielded s @ pieces\<rparr>, r')"
proof (induction arbitrary: pieces s rule: reads.induct)
  case (reads_packet r p r1 ps r2)
  note alive = readPkt_not_aborted [OF reads_packet.hyps(1)]
  show ?case
  proof (cases pieces)
    case Nil
    then have "p = Flush" "ps = []" using reads_packet.prems(1) by (simp_all add: bands_def)
    then show ?thesis using reads_packet.hyps alive Nil by (subst sideband_loop.simps) simp
  next
    case (Cons piece more)
    let ?s = "s\<lparr>pk_yielded := pk_yielded s @ [piece]\<rparr>"
    have p: "p = Line (1 # piece)" "ps = bands more @ [Flush]" "[] \<notin> set more" "piece \<noteq> []"
      using reads_packet.prems Cons by (auto simp: bands_def)
    have "sideband_loop onProgress s r = sideband_loop onProgress ?s r1"
      using reads_packet.hyps(1) alive p by (subst sideband_loop.simps) (simp add: pack_frame_def)
    then show ?thesis using reads_packet.IH [OF p(2,3), of ?s] Cons by simp
  qed
qed (simp add: bands_def)

lemma sideband_bands:
  assumes "reads r (bands pieces @ [Flush]) r'" "reader_ok r" "piece \<noteq> []" "[] \<notin> set pieces"
  shows "sideband onProgress (1 # piece) r = ((piece # pieces, None), [])"
  using sideband_loop_bands [OF assms(1) refl assms(4), of onProgress "\<lparr>pk_yielded = [piece], pk_log = []\<rparr>"] assms(2,3)
  by (simp add: sideband_def pack_frame_def throwIfAborted_def reader_ok_def)

text \<open>The acknowledgement line in front of the pack.\<close>

lemma nak_frame:
  assumes "encodeAck None None = Inr ack"
  shows "wire (text_packet [units ''NAK'']) = Inr ack"
  using assms by (simp add: encodeAck_def wire_text_packet)

lemma nak_text: "text_packet [units ''NAK''] = Line [0x4e, 0x41, 0x4b, 0x0a]" "pktText (Line [0x4e, 0x41, 0x4b, 0x0a]) = units ''NAK''"
proof -
  have b: "utf8_encode (units ''NAK'' @ [0x0a]) = [0x4e, 0x41, 0x4b, 0x0a]"
    using utf8_encode_ascii [of "units ''NAK'' @ [0x0a]"] by (simp add: units_def)
  then show "text_packet [units ''NAK''] = Line [0x4e, 0x41, 0x4b, 0x0a]" by (simp add: text_packet_def)
  have "utf8_decode [0x4e, 0x41, 0x4b, 0x0a] = units ''NAK'' @ [0x0a]"
    using utf8_decode_encode [of "units ''NAK'' @ [0x0a]"] b
    by (simp add: has_bom_def units_def well_formed.simps(2) is_high_def is_low_def)
  then show "pktText (Line [0x4e, 0x41, 0x4b, 0x0a]) = units ''NAK''" by (simp add: pktText_def pkt_bytes_def endsWith_def units_def)
qed

lemma nak_step:
  "response_step request useSideband (text_packet [units ''NAK'']) s =
     (if useSideband then (Inr None, s) else (Inr (Some RawStarts), s))"
  by (simp add: nak_text response_step_def isBandFrame_def ownedPktText_def)
    (simp add: units_def)

text \<open>
  C27: a pack sent by the server arrives: after the acknowledgement, the client yields exactly the bytes of the pack
  and no error, in side band frames when it asked for them and raw otherwise, wherever the transport cuts its chunks.
\<close>

theorem pack_response_roundtrip:
  assumes "encodeAck None None = Inr ack" "concat pack \<noteq> []" "reader_ok r"
    and "unread r = (ack @ concat (fst (encodePackResponse (pack, None) (units ''side-band-64k'' \<in> set capabilities))), Ended)"
  shows "\<exists>chunks. concat chunks = concat pack \<and>
     uploadPack_response entryLimit request capabilities r =
       Inr \<lparr>ur_shallow = [], ur_unshallow = [], ur_pack = (chunks, None)\<rparr>"
proof (cases "units ''side-band-64k'' \<in> set capabilities")
  case True
  obtain frames pieces where f: "encodePackResponse (pack, None) True = (frames, None)"
    "list_all2 (\<lambda>p bs. wire p = Inr bs) (bands pieces @ [Flush]) frames" "concat pieces = concat pack" "[] \<notin> set pieces"
    using encodePackResponse_sideband by blast
  obtain piece rest where p: "pieces = piece # rest" using f(3) assms(2) by (cases pieces) auto
  let ?nak = "text_packet [units ''NAK'']"
  have "list_all2 (\<lambda>p bs. wire p = Inr bs) (?nak # bands pieces @ [Flush]) (ack # frames)"
    using f(2) nak_frame [OF assms(1)] by simp
  from generated_reads [OF this assms(3)] obtain r' where "reads r (?nak # bands pieces @ [Flush]) r'"
    using assms(4) f(1) True by auto
  then obtain r1 r2 where r1: "readPkt r = (Inr (Some ?nak), r1)" "readPkt r1 = (Inr (Some (Line (1 # piece))), r2)"
    "reads r2 (bands rest @ [Flush]) r'"
    unfolding p bands_def by (auto elim!: reads_ConsE)
  have ok: "reader_ok r2" using r1 assms(3) by (blast dest: readPkt_ok)
  let ?s = "\<lparr>sh_budget = newNegotiationBudget entryLimit, sh_shallow = [], sh_unshallow = []\<rparr>"
  let ?step = "response_step request True"
  have start: "?step (Line (1 # piece)) ?s = (Inr (Some (SidebandStarts (1 # piece))), ?s)"
    by (simp add: response_step_def isBandFrame_def)
  have go: "goes_on ?step [?nak] ?s ?s" by (simp add: nak_step)
  have "reads r [?nak] r1" using r1(1) by (auto intro: reads.intros)
  from packet_loop_reads [OF this go] packet_loop_leave [OF r1(2), of ?step, OF start]
  have "packet_loop e ?step ?s r = (Inr (SidebandStarts (1 # piece)), ?s, r2)" for e by simp
  moreover have "sideband (up_onProgress request) (1 # piece) r2 = ((piece # rest, None), [])"
    using sideband_bands [OF r1(3) ok] f(4) p by auto
  ultimately show ?thesis using True f(3) p by (auto simp: uploadPack_response_def)
next
  case False
  let ?nak = "text_packet [units ''NAK'']"
  let ?s = "\<lparr>sh_budget = newNegotiationBudget entryLimit, sh_shallow = [], sh_unshallow = []\<rparr>"
  have "frame_of (ack @ concat pack) Ended = Inr (Some ?nak, concat pack)"
    by (rule wire_frame) (rule nak_frame [OF assms(1)])
  moreover have "unread r = (ack @ concat pack, Ended)" using assms(4) False by (simp add: encodePackResponse_raw)
  ultimately obtain r1 where r1: "readPkt r = (Inr (Some ?nak), r1)" "reader_ok r1" "unread r1 = (concat pack, Ended)"
    using readPkt_frame [OF assms(3)] by force
  have "packet_loop e (response_step request False) ?s r = (Inr RawStarts, ?s, r1)" for e
    by (rule packet_loop_leave [OF r1(1)]) (simp add: nak_step)
  moreover obtain cs err r2 where rest: "br_rest r1 = (cs, err, r2)" by (cases "br_rest r1") auto
  ultimately show ?thesis using False br_rest_unread [OF r1(2,3) rest]
    by (auto simp: uploadPack_response_def rawPack_def)
qed

lemma pkt_short: "length (payload_body p) \<le> MAX_PKT_PAYLOAD_BYTES \<Longrightarrow> \<exists>bs. pkt p = Inr bs"
  by (simp add: pkt_def Let_def)

lemma encodeAck_nak: "\<exists>ack. encodeAck None None = Inr ack"
  using nak_text(1) pkt_short [of "text_line [units ''NAK'']"]
  by (simp add: encodeAck_def text_packet_def text_line_def payload_body_def MAX_PKT_PAYLOAD_BYTES_def MAX_PKT_FRAME_BYTES_def)

theorem pack_response_roundtrip_witness:
  "\<exists>ack chunks. encodeAck None None = Inr ack \<and> concat chunks = [7, 8] \<and>
     uploadPack_response 16384
       \<lparr>up_wants = [], up_haves = None, up_shallows = None, up_depth = None, up_deepenRelative = None,
        up_includeTag = None, up_filter = None, up_advertised = [], up_onProgress = None\<rparr>
       [units ''side-band-64k'']
       (newByteReader (map Chunk [ack, concat (fst (encodePackResponse ([[7], [8]], None) True))]) None False)
     = Inr \<lparr>ur_shallow = [], ur_unshallow = [], ur_pack = (chunks, None)\<rparr>"
proof -
  obtain ack where ack: "encodeAck None None = Inr ack" using encodeAck_nak by blast
  let ?cs = "[ack, concat (fst (encodePackResponse ([[7], [8]], None) True))]"
  have "unread (newByteReader (map Chunk ?cs) None False) =
      (ack @ concat (fst (encodePackResponse ([[7], [8]], None) (units ''side-band-64k'' \<in> set [units ''side-band-64k'']))), Ended)"
    using unread_newByteReader [of ?cs] by simp
  from pack_response_roundtrip [OF ack _ _ this] show ?thesis using ack by simp
qed

section \<open>Refs on the wire\<close>

lemma canonical_ref_units:
  assumes "hasCanonicalRefSyntax_whole v"
  shows "v \<noteq> []" "0x20 \<notin> set v" "0 \<notin> set v" "0x0a \<notin> set v" "0x0d \<notin> set v"
proof -
  have "length v \<le> max_safe_integer"
    using assms by (auto simp: hasCanonicalRefSyntax_whole_def hasCanonicalRefSyntax_def hasCanonicalRefSyntaxWithWildcard_def split: if_splits)
  then have "v \<noteq> []" and good: "\<forall>u \<in> set v. good_unit u"
    using assms ref_syntax_whole [of v] by (auto simp: ref_format_def)
  then show "v \<noteq> []" by simp
  have bad: "\<not> good_unit 0x20" "\<not> good_unit 0" "\<not> good_unit 0x0a" "\<not> good_unit 0x0d"
    by (simp_all add: good_unit_def FORBIDDEN_def)
  then show "0x20 \<notin> set v" "0 \<notin> set v" "0x0a \<notin> set v" "0x0d \<notin> set v" using good by blast+
qed

lemma checkRefText_plain:
  "rt_problem (checkRefText v limit) = None \<Longrightarrow> plain_text v \<and> rt_bytes (checkRefText v limit) = length (utf8_encode v)"
  using check_ref_loop_ok [of limit 0 v] by (simp add: checkRefText_def)

lemma requireServerRef_ok:
  assumes "requireServerRef ref = Inr u"
  shows "hasCanonicalRefSyntax_whole ref" "plain_text ref" "well_formed ref"
  using assms checkRefText_plain [of ref "Some MAX_REF_NAME_BYTES"]
  by (auto simp: requireServerRef_def Let_def plain_text_def split: if_splits)

section \<open>The status report\<close>

definition ref_status :: "ServerRefStatus \<Rightarrow> ReceivePackRefStatus" where
  "ref_status status = (case ss_error status of None \<Rightarrow> RefOk | Some t \<Rightarrow> RefError t)"

definition status_parts :: "ServerRefStatus \<Rightarrow> jstring list" where
  "status_parts status =
     (case ss_error status of
        None \<Rightarrow> [units ''ok '', ss_ref status]
      | Some t \<Rightarrow> [units ''ng '', ss_ref status, units '' '', t])"

definition line_text :: "jstring \<Rightarrow> bool" where
  "line_text t \<longleftrightarrow> t \<noteq> [] \<and> well_formed t \<and> 0 \<notin> set t \<and> 0x0d \<notin> set t \<and> 0x0a \<notin> set t"

definition good_status :: "ServerRefStatus \<Rightarrow> bool" where
  "good_status status \<longleftrightarrow> requireServerRef (ss_ref status) = Inr ()
     \<and> (case ss_error status of None \<Rightarrow> True | Some t \<Rightarrow> requireStatusText t = Inr ())"

lemma encode_statuses_emitted:
  "encode_statuses statuses s = (Inr x, t) \<Longrightarrow>
     emitted s (map (\<lambda>st. text_packet (status_parts st)) statuses) t \<and> list_all good_status statuses"
proof (induction statuses arbitrary: s)
  case (Cons st statuses)
  then obtain s1 y where s1: "encode_status st s = (Inr y, s1)" "encode_statuses statuses s1 = (Inr x, t)"
    by (auto simp: bindS_Inr_iff)
  have "emitted s [text_packet (status_parts st)] s1 \<and> good_status st"
    using s1(1)
    by (auto simp: encode_status_def bindS_Inr_iff status_parts_def good_status_def
        split: option.splits dest!: yield_text_emitted)
  then show ?case using Cons.IH [OF s1(2)] emitted_Cons by auto
qed simp

lemma encodeReceiveStatus_emitted:
  assumes "encodeReceiveStatus unpack statuses = (frames, None)"
  shows "list_all2 (\<lambda>p bs. wire p = Inr bs)
     (text_packet [units ''unpack '', unpack] # map (\<lambda>st. text_packet (status_parts st)) statuses @ [Flush]) frames"
    and "list_all good_status statuses" "requireStatusText unpack = Inr ()"
proof -
  from assms obtain x t where run: "requireStatusText unpack = Inr ()" "frames = t"
    "bindS (yield_text [units ''unpack '', unpack]) (\<lambda>_. bindS (encode_statuses statuses) (\<lambda>_. yield_frame (Inr FLUSH))) []
       = (Inr x, t)"
    by (cases "requireStatusText unpack") (auto simp: encodeReceiveStatus_def generated_by_def split: prod.splits sum.splits)
  then obtain s1 s2 where s: "yield_text [units ''unpack '', unpack] [] = (Inr (), s1)"
    "encode_statuses statuses s1 = (Inr (), s2)" "yield_frame (Inr FLUSH) s2 = (Inr x, t)"
    by (auto simp: bindS_Inr_iff)
  note st = encode_statuses_emitted [OF s(2)]
  have "emitted [] (text_packet [units ''unpack '', unpack] # map (\<lambda>st. text_packet (status_parts st)) statuses @ [Flush]) t"
    using emitted_Cons [OF yield_text_emitted [OF s(1)]] emitted_trans [of s1 _ s2] st yield_flush_emitted [OF s(3)] by blast
  then show "list_all2 (\<lambda>p bs. wire p = Inr bs)
     (text_packet [units ''unpack '', unpack] # map (\<lambda>st. text_packet (status_parts st)) statuses @ [Flush]) frames"
    using run(2) by (auto simp: emitted_def)
  show "list_all good_status statuses" "requireStatusText unpack = Inr ()" using st run(1) by auto
qed

lemma decodeLine_text_packet:
  assumes "line_text (concat parts)" "\<not> has_bom (concat parts)"
  shows "decodeLine (text_packet parts) = Inr (concat parts)"
proof -
  have "utf8_encode (concat parts @ [0x0a]) = utf8_encode (concat parts) @ [0x0a]"
    using utf8_encode_append [of "concat parts" "[0x0a]"] utf8_encode_ascii [of "[0x0a]"] assms(1) by (simp add: line_text_def)
  then show ?thesis using utf8_decode_fatal_encode [of "concat parts"] assms
    by (simp add: text_packet_def decodeLine_def line_text_def)
qed

lemma parse_unpack_line: "t \<noteq> [] \<Longrightarrow> parseStatusLine (units ''unpack '' @ t) = Inr (UnpackLine t)"
  by (simp add: parseStatusLine_def)

lemma parse_ok_line: "ref \<noteq> [] \<Longrightarrow> 0x20 \<notin> set ref \<Longrightarrow> parseStatusLine (units ''ok '' @ ref) = Inr (OkLine ref)"
  by (simp add: parseStatusLine_def units_def)

lemma parse_ng_line:
  assumes "ref \<noteq> []" "0x20 \<notin> set ref" "t \<noteq> []"
  shows "parseStatusLine (units ''ng '' @ ref @ units '' '' @ t) = Inr (NgLine ref t)"
proof -
  have n: "length (units ''ng '') = 3" by (simp add: units_def)
  let ?w = "units ''ng '' @ ref @ 0x20 # t"
  have "indexOf_from ?w [0x20] 3 = Some (3 + length ref)"
    using n assms(2) by (simp add: indexOf_from_def indexOf_unit_append)
  moreover have "drop 3 (take (3 + length ref) ?w) = ref" "drop (3 + length ref + 1) ?w = t" using n by simp_all
  moreover have "3 + length ref \<noteq> length ?w - 1" "\<not> 3 + length ref < 4" using assms n by auto
  moreover have "\<not> startsWith ?w (units ''unpack '')" "\<not> startsWith ?w (units ''ok '')" "units '' '' = [0x20]"
    by (simp_all add: units_def)
  ultimately show ?thesis by (simp add: parseStatusLine_def)
qed

text \<open>A line within the limits, with the default budget: neither input nor retained bytes are limited.\<close>

definition default_limits :: "nat \<Rightarrow> ResolvedStatusLimits" where
  "default_limits entries =
     \<lparr>sl_retainedBytes = None, sl_inputBytes = None, sl_entries = entries, sl_lineBytes = MAX_PKT_PAYLOAD_BYTES\<rparr>"

lemma wire_payload: "wire (Line bs) = Inr w \<Longrightarrow> length bs \<le> MAX_PKT_PAYLOAD_BYTES"
  by (auto simp: pkt_def payload_body_def Let_def split: if_splits)

lemma status_step_text:
  assumes "wire (text_packet parts) = Inr w" "line_text (concat parts)" "\<not> has_bom (concat parts)"
    "parseStatusLine (concat parts) = Inr status" "wb_entries (ps_budget s) < entries"
    "status_line expected status (s\<lparr>ps_budget := (ps_budget s)\<lparr>wb_entries := wb_entries (ps_budget s) + 1\<rparr>\<rparr>) = Inr s1"
  shows "status_step (default_limits entries) expected (text_packet parts) s = (Inr None, s1)"
proof -
  have "text_packet parts \<noteq> Flush" by (simp add: text_packet_def)
  moreover have "budget_packet (default_limits entries) (text_packet parts) (ps_budget s)
      = Inr ((ps_budget s)\<lparr>wb_entries := wb_entries (ps_budget s) + 1\<rparr>)"
    using assms(1,5) wire_payload [of "utf8_encode (concat parts @ [0x0a])" w]
    by (auto simp: text_packet_def budget_packet_def default_limits_def)
  ultimately show ?thesis using decodeLine_text_packet [OF assms(2,3)] assms(4,6) by (simp add: status_step_def)
qed

definition after_statuses :: "ServerRefStatus list \<Rightarrow> StatusState \<Rightarrow> StatusState" where
  "after_statuses statuses s =
     s\<lparr>ps_budget := (ps_budget s)\<lparr>wb_entries := wb_entries (ps_budget s) + length statuses\<rparr>,
       ps_received := ps_received s @ map (\<lambda>st. (ss_ref st, ref_status st)) statuses\<rparr>"

lemma update_new: "k \<notin> fst ` set xs \<Longrightarrow> AList.update k v xs = xs @ [(k, v)]"
  by (induction xs) auto

lemma status_parts_ok:
  assumes "good_status st" "case ss_error st of None \<Rightarrow> True | Some t \<Rightarrow> well_formed t"
  shows "line_text (concat (status_parts st))" "\<not> has_bom (concat (status_parts st))"
    "parseStatusLine (concat (status_parts st)) =
       Inr (case ss_error st of None \<Rightarrow> OkLine (ss_ref st) | Some t \<Rightarrow> NgLine (ss_ref st) t)"
proof -
  have ref: "hasCanonicalRefSyntax_whole (ss_ref st)" "well_formed (ss_ref st)"
    using assms(1) requireServerRef_ok by (auto simp: good_status_def)
  note u = canonical_ref_units [OF ref(1)]
  have err: "t \<noteq> [] \<and> 0 \<notin> set t \<and> 0x0d \<notin> set t \<and> 0x0a \<notin> set t" if "ss_error st = Some t" for t
    using assms(1) that by (auto simp: good_status_def requireStatusText_def split: if_splits)
  have w: "well_formed (units ''ok '')" "well_formed (units ''ng '')" "well_formed (units '' '')"
    by (rule well_formed_units; simp)+
  have "well_formed (concat (status_parts st))"
    using w ref(2) assms(2) by (auto simp: status_parts_def split: option.splits)
  then show "line_text (concat (status_parts st))"
    using u err by (auto simp: line_text_def) (auto simp: status_parts_def units_def split: option.splits)
  show "\<not> has_bom (concat (status_parts st))"
    by (auto simp: has_bom_def status_parts_def units_def split: option.splits)
  show "parseStatusLine (concat (status_parts st)) =
       Inr (case ss_error st of None \<Rightarrow> OkLine (ss_ref st) | Some t \<Rightarrow> NgLine (ss_ref st) t)"
    using parse_ok_line [OF u(1,2)] parse_ng_line [OF u(1,2)] err
    by (auto simp: status_parts_def split: option.splits)
qed

lemma statuses_go_on:
  assumes "list_all good_status statuses"
    "list_all (\<lambda>st. case ss_error st of None \<Rightarrow> True | Some t \<Rightarrow> well_formed t) statuses"
    "list_all2 (\<lambda>p bs. wire p = Inr bs) (map (\<lambda>st. text_packet (status_parts st)) statuses) frames"
    "set (map ss_ref statuses) \<subseteq> expected" "ps_unpack s \<noteq> None"
    "distinct (map fst (ps_received s) @ map ss_ref statuses)"
    "wb_entries (ps_budget s) + length statuses \<le> entries"
  shows "goes_on (status_step (default_limits entries) expected)
     (map (\<lambda>st. text_packet (status_parts st)) statuses) s (after_statuses statuses s)"
  using assms
proof (induction statuses arbitrary: s frames)
  case Nil
  then show ?case by (simp add: after_statuses_def)
next
  case (Cons st statuses)
  obtain w fs where w: "wire (text_packet (status_parts st)) = Inr w"
    "list_all2 (\<lambda>p bs. wire p = Inr bs) (map (\<lambda>st. text_packet (status_parts st)) statuses) fs"
    using Cons.prems(3) by (auto simp: list_all2_Cons1)
  have parts: "line_text (concat (status_parts st))" "\<not> has_bom (concat (status_parts st))"
    "parseStatusLine (concat (status_parts st)) =
       Inr (case ss_error st of None \<Rightarrow> OkLine (ss_ref st) | Some t \<Rightarrow> NgLine (ss_ref st) t)"
    using status_parts_ok [of st] Cons.prems(1,2) by simp_all
  define s1 where "s1 = after_statuses [st] s"
  have new: "ss_ref st \<notin> fst ` set (ps_received s)" using Cons.prems(6) by auto
  have "status_line expected (case ss_error st of None \<Rightarrow> OkLine (ss_ref st) | Some t \<Rightarrow> NgLine (ss_ref st) t)
      (s\<lparr>ps_budget := (ps_budget s)\<lparr>wb_entries := wb_entries (ps_budget s) + 1\<rparr>\<rparr>) = Inr s1"
    using Cons.prems(4,5) new update_new [OF new]
    by (auto simp: status_line_def s1_def after_statuses_def ref_status_def map_of_eq_None_iff split: option.splits)
  then have step: "status_step (default_limits entries) expected (text_packet (status_parts st)) s = (Inr None, s1)"
    using status_step_text [OF w(1) parts] Cons.prems(7) by simp
  have "goes_on (status_step (default_limits entries) expected)
      (map (\<lambda>st. text_packet (status_parts st)) statuses) s1 (after_statuses statuses s1)"
    by (rule Cons.IH [OF _ _ w(2)]) (use Cons.prems in \<open>auto simp: s1_def after_statuses_def\<close>)
  moreover have "after_statuses statuses s1 = after_statuses (st # statuses) s" by (simp add: s1_def after_statuses_def)
  ultimately show ?case using step by auto
qed

lemma count_step_run:
  "\<forall>c \<in> set cs. map_of recv (cmd_ref c) \<noteq> None \<Longrightarrow>
     \<exists>k. foldR (count_step recv) cs (a, b, n) =
       Inr (a + length (filter (\<lambda>c. map_of recv (cmd_ref c) = Some RefOk) cs),
            b + length (filter (\<lambda>c. map_of recv (cmd_ref c) \<noteq> Some RefOk) cs), k)"
proof (induction cs arbitrary: a b n)
  case (Cons c cs)
  then obtain st where st: "map_of recv (cmd_ref c) = Some st" by auto
  obtain a' b' n' where step: "count_step recv c (a, b, n) = Inr (a', b', n')"
    "a' = a + (if st = RefOk then 1 else 0)" "b' = b + (if st = RefOk then 0 else 1)"
    using st by (cases st) (auto simp: count_step_def)
  have "\<exists>k. foldR (count_step recv) cs (a', b', n') =
       Inr (a' + length (filter (\<lambda>c. map_of recv (cmd_ref c) = Some RefOk) cs),
            b' + length (filter (\<lambda>c. map_of recv (cmd_ref c) \<noteq> Some RefOk) cs), k)"
    using Cons.IH [of a' b' n'] Cons.prems by simp
  then show ?case using step st by auto
qed simp

lemma count_step_total:
  "foldR (count_step recv) cs st = Inr st' \<Longrightarrow> \<forall>c \<in> set cs. map_of recv (cmd_ref c) \<noteq> None"
proof (induction cs arbitrary: st)
  case (Cons c cs)
  then obtain st1 where st1: "count_step recv c st = Inr st1" "foldR (count_step recv) cs st1 = Inr st'" by auto
  have "map_of recv (cmd_ref c) \<noteq> None" using st1(1) by (auto simp: count_step_def split: prod.splits option.splits)
  then show ?case using Cons.IH [OF st1(2)] by simp
qed simp

lemma collect_step_run:
  "\<forall>c \<in> set cs. map_of recv (cmd_ref c) \<noteq> None \<Longrightarrow> distinct (map fst refs @ map cmd_ref cs) \<Longrightarrow>
     foldR (collect_step recv) cs refs = Inr (refs @ map (\<lambda>c. (cmd_ref c, the (map_of recv (cmd_ref c)))) cs)"
proof (induction cs arbitrary: refs)
  case (Cons c cs)
  then obtain st where st: "map_of recv (cmd_ref c) = Some st" by auto
  have "cmd_ref c \<notin> fst ` set refs" using Cons.prems(2) by auto
  then have "collect_step recv c refs = Inr (refs @ [(cmd_ref c, st)])" using st by (simp add: collect_step_def update_new)
  then show ?case using Cons.IH [of "refs @ [(cmd_ref c, st)]"] Cons.prems st by simp
qed simp

definition all_or_none :: "(jstring \<times> ReceivePackRefStatus) list \<Rightarrow> bool" where
  "all_or_none refs \<longleftrightarrow> list_all (\<lambda>(_, st). st = RefOk) refs \<or> list_all (\<lambda>(_, st). st \<noteq> RefOk) refs"

lemma finish_status_ok:
  assumes "\<forall>c \<in> set commands. map_of (ps_received s) (cmd_ref c) \<noteq> None" "distinct (map cmd_ref commands)"
    "length (ps_received s) = length commands" "ps_unpack s = Some unpack" "sl_retainedBytes limits = None"
  defines "refs \<equiv> map (\<lambda>c. (cmd_ref c, the (map_of (ps_received s) (cmd_ref c)))) commands"
  assumes "unpack = units ''ok'' \<or> list_all (\<lambda>(_, st). st \<noteq> RefOk) refs" "atomic \<longrightarrow> all_or_none refs"
  shows "finish_status commands atomic limits s = Inr \<lparr>st_unpack = unpack, st_refs = refs\<rparr>"
proof -
  let ?ok = "filter (\<lambda>c. map_of (ps_received s) (cmd_ref c) = Some RefOk) commands"
  let ?ng = "filter (\<lambda>c. map_of (ps_received s) (cmd_ref c) \<noteq> Some RefOk) commands"
  obtain k where k: "foldR (count_step (ps_received s)) commands (0, 0, RESULT_FIXED_BYTES + resultStringBytes unpack)
      = Inr (length ?ok, length ?ng, k)"
    using count_step_run [OF assms(1), of 0 0] by auto
  have none: "?ok = [] \<longleftrightarrow> list_all (\<lambda>(_, st). st \<noteq> RefOk) refs" "?ng = [] \<longleftrightarrow> list_all (\<lambda>(_, st). st = RefOk) refs"
    using assms(1) by (force simp: refs_def list_all_iff filter_empty_conv)+
  have "\<not> (unpack \<noteq> units ''ok'' \<and> length ?ok > 0)" "\<not> (atomic \<and> length ?ok > 0 \<and> length ?ng > 0)"
    using assms(7,8) none by (auto simp: all_or_none_def)
  then show ?thesis using collect_step_run [OF assms(1), of "[]"] assms(2-5) k
    by (simp add: finish_status_def validateLogical_def refs_def)
qed

lemma finish_status_safe:
  assumes "finish_status commands atomic limits s = Inr st" "distinct (map fst (ps_received s))"
    "set (map fst (ps_received s)) \<subseteq> set (map cmd_ref commands)"
  shows "map fst (st_refs st) = map cmd_ref commands \<and> distinct (map cmd_ref commands)
     \<and> (st_unpack st \<noteq> units ''ok'' \<longrightarrow> list_all (\<lambda>(_, x). x \<noteq> RefOk) (st_refs st))
     \<and> (atomic \<longrightarrow> all_or_none (st_refs st))"
proof -
  let ?recv = "ps_received s"
  obtain unpack a b k where run: "ps_unpack s = Some unpack" "length ?recv = length commands"
    "foldR (count_step ?recv) commands (0, 0, RESULT_FIXED_BYTES + resultStringBytes unpack) = Inr (a, b, k)"
    "\<not> (unpack \<noteq> units ''ok'' \<and> a > 0)" "\<not> (atomic \<and> a > 0 \<and> b > 0)"
    "foldR (collect_step ?recv) commands [] = Inr (st_refs st)" "st_unpack st = unpack"
    using assms(1) by (auto simp: finish_status_def split: option.splits)
  note total = count_step_total [OF run(3)]
  have dist: "distinct (map cmd_ref commands)"
  proof -
    have "length commands \<le> card (set (map cmd_ref commands))"
      using card_mono [OF _ assms(3)] distinct_card [OF assms(2)] run(2) by simp
    then show ?thesis by (metis card_distinct card_length le_antisym length_map)
  qed
  have refs: "st_refs st = map (\<lambda>c. (cmd_ref c, the (map_of ?recv (cmd_ref c)))) commands"
    using collect_step_run [OF total, of "[]"] dist run(6) by simp
  have "a = length (filter (\<lambda>c. map_of ?recv (cmd_ref c) = Some RefOk) commands)"
    "b = length (filter (\<lambda>c. map_of ?recv (cmd_ref c) \<noteq> Some RefOk) commands)"
    using count_step_run [OF total, of 0 0 "RESULT_FIXED_BYTES + resultStringBytes unpack"] run(3) by force+
  then have "a = 0 \<longleftrightarrow> list_all (\<lambda>(_, x). x \<noteq> RefOk) (st_refs st)" "b = 0 \<longleftrightarrow> list_all (\<lambda>(_, x). x = RefOk) (st_refs st)"
    using total by (force simp: refs list_all_iff filter_empty_conv)+
  then show ?thesis using run(4,5,7) refs dist by (auto simp: all_or_none_def)
qed

lemma status_line_received:
  assumes "status_line expected status s = Inr s1"
  shows "ps_received s1 = ps_received s
     \<or> (\<exists>ref x. ref \<in> expected \<and> ref \<notin> fst ` set (ps_received s) \<and> ps_received s1 = ps_received s @ [(ref, x)])"
proof (cases status)
  case (UnpackLine t)
  then show ?thesis using assms by (auto simp: status_line_def split: if_splits)
next
  case (OkLine ref)
  then show ?thesis using assms
    by (auto simp: status_line_def Let_def map_of_eq_None_iff update_new split: if_splits)
next
  case (NgLine ref t)
  then show ?thesis using assms
    by (auto simp: status_line_def Let_def map_of_eq_None_iff update_new split: if_splits)
qed

lemma status_step_line:
  "status_step limits expected p s = (Inr None, s1) \<Longrightarrow>
     \<exists>status b. status_line expected status (s\<lparr>ps_budget := b\<rparr>) = Inr s1"
  by (auto simp: status_step_def split: if_splits sum.splits)

lemma status_step_invariant:
  assumes "status_step limits expected p s = (Inr None, s1)" "distinct (map fst (ps_received s))"
    "set (map fst (ps_received s)) \<subseteq> expected"
  shows "distinct (map fst (ps_received s1)) \<and> set (map fst (ps_received s1)) \<subseteq> expected"
  using status_step_line [OF assms(1)] assms(2,3) by (fastforce dest!: status_line_received)

lemma status_step_leave: "status_step limits expected p s = (Inr (Some x), s1) \<Longrightarrow> s1 = s"
  by (auto simp: status_step_def split: if_splits sum.splits)

text \<open>
  C25: whatever bytes a server sends, a status report the client accepts has exactly one status for each command, in the
  order of the commands; no command succeeded unless the pack was unpacked, and in an atomic push either every command
  succeeded or none did.
\<close>

theorem parseStatus_safe:
  assumes "fst (parseStatus commands atomic limits r) = Inr st"
  shows "map fst (st_refs st) = map cmd_ref commands \<and> distinct (map cmd_ref commands)
     \<and> (st_unpack st \<noteq> units ''ok'' \<longrightarrow> list_all (\<lambda>(_, x). x \<noteq> RefOk) (st_refs st))
     \<and> (atomic \<longrightarrow> all_or_none (st_refs st))"
proof -
  let ?expected = "set (map cmd_ref commands)"
  let ?inv = "\<lambda>s. distinct (map fst (ps_received s)) \<and> set (map fst (ps_received s)) \<subseteq> ?expected"
  obtain s r1 where loop: "packet_loop (returnS False) (status_step limits ?expected)
      \<lparr>ps_budget = no_packets, ps_unpack = None, ps_received = []\<rparr> r = (Inr True, s, r1)"
    and fin: "finish_status commands atomic limits s = Inr st"
    using assms by (auto simp: parseStatus_def finally_release_def split: prod.splits sum.splits bool.splits)
  have "?inv s"
  proof (rule packet_loop_invariant [OF loop, where P = ?inv and Q = "\<lambda>_. ?inv"])
    show "?inv s1" if "?inv s" "status_step limits ?expected p s = (Inr None, s1)" for p s s1
      using status_step_invariant that by blast
    show "?inv s1" if "?inv s" "status_step limits ?expected p s = (Inr (Some a), s1)" for p s s1 a
      using status_step_leave that by blast
  qed auto
  then show ?thesis using finish_status_safe [OF fin] by simp
qed

lemma map_of_pairs:
  "distinct (map f xs) \<Longrightarrow> x \<in> set xs \<Longrightarrow> map_of (map (\<lambda>x. (f x, g x)) xs) (f x) = Some (g x)"
  by (induction xs) (auto simp: rev_image_eqI)

lemma unpack_go_on:
  assumes "requireStatusText unpack = Inr ()" "well_formed unpack" "wire (text_packet [units ''unpack '', unpack]) = Inr w"
    "0 < entries"
  shows "status_step (default_limits entries) expected (text_packet [units ''unpack '', unpack])
      \<lparr>ps_budget = no_packets, ps_unpack = None, ps_received = []\<rparr> =
    (Inr None, \<lparr>ps_budget = no_packets\<lparr>wb_entries := 1\<rparr>, ps_unpack = Some unpack, ps_received = []\<rparr>)"
proof (rule status_step_text [OF assms(3)])
  have u: "unpack \<noteq> []" "0 \<notin> set unpack" "0x0d \<notin> set unpack" "0x0a \<notin> set unpack"
    using assms(1) by (auto simp: requireStatusText_def split: if_splits)
  have "well_formed (units ''unpack '' @ unpack)" using assms(2) well_formed_units [of "''unpack ''"] by simp
  then show "line_text (concat [units ''unpack '', unpack])" using u by (auto simp: line_text_def units_def)
  show "\<not> has_bom (concat [units ''unpack '', unpack])" by (simp add: has_bom_def units_def)
  show "parseStatusLine (concat [units ''unpack '', unpack]) = Inr (UnpackLine unpack)" using parse_unpack_line [OF u(1)] by simp
qed (use assms(4) in \<open>simp_all add: status_line_def no_packets_def\<close>)

text \<open>What the client's loop has collected at the flush.\<close>

lemma status_report_loop:
  assumes "encodeReceiveStatus unpack statuses = (frames, None)" "well_formed unpack"
    and "list_all (\<lambda>st. case ss_error st of None \<Rightarrow> True | Some t \<Rightarrow> well_formed t) statuses"
    and "set (map ss_ref statuses) \<subseteq> expected" "distinct (map ss_ref statuses)" "length statuses < entries"
    and "reader_ok r" "unread r = (concat frames, Ended)"
  shows "\<exists>s r'. packet_loop on_end (status_step (default_limits entries) expected)
       \<lparr>ps_budget = no_packets, ps_unpack = None, ps_received = []\<rparr> r = (Inr True, s, r')
     \<and> ps_unpack s = Some unpack \<and> ps_received s = map (\<lambda>st. (ss_ref st, ref_status st)) statuses
     \<and> reader_ok r' \<and> unread r' = ([], Ended)"
proof -
  let ?ps = "map (\<lambda>st. text_packet (status_parts st)) statuses"
  let ?first = "text_packet [units ''unpack '', unpack]"
  let ?step = "status_step (default_limits entries) expected"
  let ?s1 = "\<lparr>ps_budget = no_packets\<lparr>wb_entries := 1\<rparr>, ps_unpack = Some unpack, ps_received = []\<rparr>"
  note enc = encodeReceiveStatus_emitted [OF assms(1)]
  obtain r' where r': "reads r (?first # ?ps @ [Flush]) r'" "reader_ok r'" "unread r' = ([], Ended)"
    using generated_reads [OF enc(1) assms(7,8)] by blast
  obtain r1 where rd: "reads r (?first # ?ps) r1" "readPkt r1 = (Inr (Some Flush), r')"
    using reads_appendD [of r "?first # ?ps" "[Flush]" r'] r'(1) by (auto elim!: reads_ConsE [of _ Flush])
  obtain w fs where w: "wire ?first = Inr w" "list_all2 (\<lambda>p bs. wire p = Inr bs) ?ps fs"
    using enc(1) by (auto simp: list_all2_Cons1 list_all2_append1)
  have "goes_on ?step ?ps ?s1 (after_statuses statuses ?s1)"
    by (rule statuses_go_on [OF enc(2) assms(3) w(2)]) (use assms in \<open>auto simp: no_packets_def\<close>)
  then have "goes_on ?step (?first # ?ps) \<lparr>ps_budget = no_packets, ps_unpack = None, ps_received = []\<rparr> (after_statuses statuses ?s1)"
    using unpack_go_on [OF enc(3) assms(2) w(1)] assms(6) by simp
  from packet_loop_reads [OF rd(1) this, of on_end]
    packet_loop_leave [OF rd(2), of ?step "after_statuses statuses ?s1" True "after_statuses statuses ?s1" on_end]
  show ?thesis using r'(2,3) by (auto simp: status_step_def after_statuses_def)
qed

lemma parse_encoded_status:
  assumes "encodeReceiveStatus unpack statuses = (frames, None)" "well_formed unpack"
    and "list_all (\<lambda>st. case ss_error st of None \<Rightarrow> True | Some t \<Rightarrow> well_formed t) statuses"
    and "map ss_ref statuses = map cmd_ref commands" "distinct (map cmd_ref commands)"
    and "unpack = units ''ok'' \<or> list_all (\<lambda>st. ss_error st \<noteq> None) statuses"
    and "atomic \<longrightarrow> list_all (\<lambda>st. ss_error st = None) statuses \<or> list_all (\<lambda>st. ss_error st \<noteq> None) statuses"
    and "resolvedStatusLimits \<lparr>pl_retainedBytes = None, pl_inputBytes = None, pl_entries = None, pl_lineBytes = None\<rparr> = Inr limits"
    and "length commands \<le> MAX_RECEIVE_PACK_COMMANDS" "reader_ok r" "unread r = (concat frames, Ended)"
  shows "fst (parseStatus commands atomic limits r) =
     Inr \<lparr>st_unpack = unpack, st_refs = map (\<lambda>st. (ss_ref st, ref_status st)) statuses\<rparr>"
proof -
  let ?n = MAX_RECEIVE_PACK_STATUS_PACKETS
  have limits: "limits = default_limits ?n"
    using assms(8) by (auto simp: resolvedStatusLimits_def optional_limit_def boundedLimit_def default_limits_def)
  have len: "length statuses = length commands" using assms(4) by (metis length_map)
  have "length statuses < ?n"
    using len assms(9) by (simp add: MAX_RECEIVE_PACK_COMMANDS_def MAX_RECEIVE_PACK_STATUS_PACKETS_def)
  then obtain s r' where loop: "packet_loop (returnS False) (status_step limits (set (map cmd_ref commands)))
       \<lparr>ps_budget = no_packets, ps_unpack = None, ps_received = []\<rparr> r = (Inr True, s, r')"
    "ps_unpack s = Some unpack" "ps_received s = map (\<lambda>st. (ss_ref st, ref_status st)) statuses"
    "reader_ok r'" "unread r' = ([], Ended)"
    using status_report_loop [OF assms(1-3), of "set (map cmd_ref commands)" ?n r "returnS False"] assms(4,5,10,11) limits by auto
  have got: "map_of (ps_received s) (ss_ref st) = Some (ref_status st)" if "st \<in> set statuses" for st
    using map_of_pairs [of ss_ref statuses st ref_status] assms(4,5) that loop(3) by simp
  have refs: "map (\<lambda>c. (cmd_ref c, the (map_of (ps_received s) (cmd_ref c)))) commands
      = map (\<lambda>st. (ss_ref st, ref_status st)) statuses"
  proof -
    have "map (\<lambda>k. (k, the (map_of (ps_received s) k))) (map cmd_ref commands)
      = map (\<lambda>st. (ss_ref st, ref_status st)) statuses"
      unfolding assms(4) [symmetric] using got by simp
    then show ?thesis by (simp add: comp_def)
  qed
  have "finish_status commands atomic limits s = Inr \<lparr>st_unpack = unpack,
      st_refs = map (\<lambda>c. (cmd_ref c, the (map_of (ps_received s) (cmd_ref c)))) commands\<rparr>"
  proof (rule finish_status_ok)
    show "\<forall>c \<in> set commands. map_of (ps_received s) (cmd_ref c) \<noteq> None"
      using loop(3) arg_cong [OF assms(4), of set] by (auto simp: map_of_eq_None_iff image_image)
    show "length (ps_received s) = length commands" using loop(3) len by simp
    show "sl_retainedBytes limits = None" using limits by (simp add: default_limits_def)
    show "unpack = units ''ok'' \<or> list_all (\<lambda>(_, st). st \<noteq> RefOk)
        (map (\<lambda>c. (cmd_ref c, the (map_of (ps_received s) (cmd_ref c)))) commands)"
      unfolding refs using assms(6) by (auto simp: list_all_iff ref_status_def split: option.splits)
    show "atomic \<longrightarrow> all_or_none (map (\<lambda>c. (cmd_ref c, the (map_of (ps_received s) (cmd_ref c)))) commands)"
      unfolding refs using assms(7) by (auto simp: all_or_none_def list_all_iff ref_status_def split: option.splits)
  qed (use assms(5) loop(2) in simp_all)
  moreover obtain r2 where "readPkt r' = (Inr None, r2)" "reader_ok r2" using end_of_stream [OF loop(4,5)] by blast
  ultimately show ?thesis using loop(1) refs
    by (simp add: parseStatus_def requireStreamEnd_def finally_release_def br_release_def reader_ok_def)
qed

text \<open>
  C26: the status report the server encodes is the one the client reads: for every list of per-ref results the server can
  encode for the client's commands, within the client's default limits, the client returns the unpack result and the
  results in order.
\<close>

theorem receive_status_roundtrip:
  assumes "encodeReceiveStatus unpack statuses = (frames, None)" "well_formed unpack"
    and "list_all (\<lambda>st. case ss_error st of None \<Rightarrow> True | Some t \<Rightarrow> well_formed t) statuses"
    and "map ss_ref statuses = map cmd_ref commands" "distinct (map cmd_ref commands)"
    and "unpack = units ''ok'' \<or> list_all (\<lambda>st. ss_error st \<noteq> None) statuses"
    and "atomic \<longrightarrow> list_all (\<lambda>st. ss_error st = None) statuses \<or> list_all (\<lambda>st. ss_error st \<noteq> None) statuses"
    and "resolvedStatusLimits \<lparr>pl_retainedBytes = None, pl_inputBytes = None, pl_entries = None, pl_lineBytes = None\<rparr> = Inr limits"
    and "length commands \<le> MAX_RECEIVE_PACK_COMMANDS" "concat chunks = concat frames"
  shows "fst (parseStatus commands atomic limits (newByteReader (map Chunk chunks) None False)) =
     Inr \<lparr>st_unpack = unpack, st_refs = map (\<lambda>st. (ss_ref st, ref_status st)) statuses\<rparr>"
  by (rule parse_encoded_status [OF assms(1-9)]) (simp_all add: unread_newByteReader assms(10))

lemma sample_ref: "requireServerRef (units ''refs/heads/a'') = Inr ()"
proof -
  have "hasCanonicalRefSyntax_whole (units ''refs/heads/a'')"
    using ref_syntax_whole [of "units ''refs/heads/a''"]
    by (simp add: max_safe_integer_def units_def ref_format_def good_component_def endsWith_def LOCK_def good_unit_def FORBIDDEN_def
        sublist_Cons_right)
  then show ?thesis
    by (simp add: requireServerRef_def checkRefText_def units_def is_high_def is_low_def over_limit_def MAX_REF_NAME_BYTES_def)
qed

lemma short_text:
  assumes "\<forall>u \<in> set (concat parts). unat u < 0x80" "length (concat parts) < 1000"
  shows "\<exists>bs. yield_text parts s = (Inr (), s @ [bs]) \<and> pkt (text_line parts) = Inr bs"
proof -
  have "length (payload_body (text_line parts)) \<le> MAX_PKT_PAYLOAD_BYTES"
    using utf8_encode_ascii [of "concat parts @ [0x0a]"] assms
    by (simp add: text_line_def payload_body_def MAX_PKT_PAYLOAD_BYTES_def MAX_PKT_FRAME_BYTES_def)
  from pkt_short [OF this] show ?thesis by (auto simp: yield_text_def yield_frame_def)
qed

definition sample_status :: "ServerRefStatus list" where
  "sample_status = [\<lparr>ss_ref = units ''refs/heads/a'', ss_error = None\<rparr>]"

definition sample_command :: ReceivePackCommand where
  "sample_command = \<lparr>cmd_oldOid = ZERO_OID, cmd_newOid = replicate 40 0x61, cmd_ref = units ''refs/heads/a''\<rparr>"

lemma sample_frames: "\<exists>frames. encodeReceiveStatus (units ''ok'') sample_status = (frames, None)"
proof -
  obtain u where u: "yield_text [units ''unpack '', units ''ok''] [] = (Inr (), [u])"
    using short_text [of "[units ''unpack '', units ''ok'']" "[]"] by (auto simp: units_def)
  obtain v where v: "yield_text [units ''ok '', units ''refs/heads/a''] [u] = (Inr (), [u, v])"
    using short_text [of "[units ''ok '', units ''refs/heads/a'']" "[u]"] by (auto simp: units_def)
  have "requireStatusText (units ''ok'') = Inr ()" by (simp add: requireStatusText_def units_def)
  then show ?thesis using u v sample_ref
    by (simp add: encodeReceiveStatus_def generated_by_def bindS_def encode_status_def sample_status_def yield_frame_def)
qed

definition sample_limits :: ResolvedStatusLimits where
  "sample_limits = default_limits MAX_RECEIVE_PACK_STATUS_PACKETS"

lemma sample_limits_resolved:
  "resolvedStatusLimits \<lparr>pl_retainedBytes = None, pl_inputBytes = None, pl_entries = None, pl_lineBytes = None\<rparr> = Inr sample_limits"
  by (simp add: resolvedStatusLimits_def optional_limit_def boundedLimit_def default_limits_def sample_limits_def)

theorem receive_status_roundtrip_witness:
  "\<exists>frames. encodeReceiveStatus (units ''ok'') sample_status = (frames, None) \<and>
     fst (parseStatus [sample_command] True sample_limits (newByteReader (map Chunk [concat frames]) None False)) =
       Inr \<lparr>st_unpack = units ''ok'', st_refs = [(units ''refs/heads/a'', RefOk)]\<rparr>"
proof -
  obtain frames where f: "encodeReceiveStatus (units ''ok'') sample_status = (frames, None)" using sample_frames by blast
  have w: "well_formed (units ''ok'')" by (rule well_formed_units) simp
  from receive_status_roundtrip [OF f w _ _ _ _ _ sample_limits_resolved, of "[sample_command]" True "[concat frames]"]
  show ?thesis using f by (simp add: sample_status_def sample_command_def ref_status_def MAX_RECEIVE_PACK_COMMANDS_def)
qed

theorem parseStatus_safe_witness:
  "\<exists>frames st. fst (parseStatus [sample_command] True sample_limits (newByteReader (map Chunk [concat frames]) None False)) = Inr st
     \<and> map fst (st_refs st) = [units ''refs/heads/a''] \<and> all_or_none (st_refs st)"
proof -
  obtain frames where f: "encodeReceiveStatus (units ''ok'') sample_status = (frames, None)" using sample_frames by blast
  have w: "well_formed (units ''ok'')" by (rule well_formed_units) simp
  let ?r = "newByteReader (map Chunk [concat frames]) None False"
  have u: "unread ?r = (concat frames, Ended)" using unread_newByteReader [of "[concat frames]"] by simp
  have run: "fst (parseStatus [sample_command] True sample_limits ?r) =
      Inr \<lparr>st_unpack = units ''ok'', st_refs = map (\<lambda>st. (ss_ref st, ref_status st)) sample_status\<rparr>"
    by (rule parse_encoded_status [OF f w _ _ _ _ _ sample_limits_resolved _ _ u])
      (simp_all add: sample_status_def sample_command_def MAX_RECEIVE_PACK_COMMANDS_def)
  have "cmd_ref sample_command = units ''refs/heads/a''" by (simp add: sample_command_def)
  moreover obtain st where st: "fst (parseStatus [sample_command] True sample_limits ?r) = Inr st" using run by blast
  ultimately have "map fst (st_refs st) = [units ''refs/heads/a''] \<and> all_or_none (st_refs st)"
    using parseStatus_safe [OF st] by simp
  then show ?thesis using st by (intro exI [of _ frames] exI [of _ st]) simp
qed

section \<open>The push request\<close>

lemma command_step_run:
  "foldR command_step cs (acc, d, h) = Inr (acc', d', h') \<Longrightarrow> distinct (map cmd_ref acc) \<Longrightarrow>
     acc' = acc @ cs \<and> h' = (h \<or> list_ex (\<lambda>c. cmd_newOid c \<noteq> ZERO_OID) cs) \<and> distinct (map cmd_ref acc')
     \<and> list_all (\<lambda>c. isOid (cmd_oldOid c) \<and> isOid (cmd_newOid c) \<and> plain_text (cmd_ref c) \<and> hasCanonicalRefSyntax_whole (cmd_ref c)) cs"
proof (induction cs arbitrary: acc d h)
  case (Cons c cs)
  then obtain a1 d1 h1 where st: "command_step c (acc, d, h) = Inr (a1, d1, h1)"
    "foldR command_step cs (a1, d1, h1) = Inr (acc', d', h')" by (auto split: prod.splits)
  have c: "isOid (cmd_oldOid c)" "isOid (cmd_newOid c)" "plain_text (cmd_ref c)" "hasCanonicalRefSyntax_whole (cmd_ref c)"
    "a1 = acc @ [c]" "cmd_ref c \<notin> set (map cmd_ref acc)" "h1 = (h \<or> cmd_newOid c \<noteq> ZERO_OID)"
    using st(1) checkRefText_plain [of "cmd_ref c" None]
    by (auto simp: command_step_def validateCommand_def split: if_splits)
  then have "distinct (map cmd_ref a1)" using Cons.prems(2) by simp
  note ih = Cons.IH [OF st(2) this]
  show ?case
  proof (intro conjI)
    show "distinct (map cmd_ref acc')" using ih by blast
  qed (use ih c in auto)
qed simp

definition command_parts :: "jstring \<Rightarrow> ReceivePackCommand \<Rightarrow> jstring list" where
  "command_parts tail c = [cmd_oldOid c, units '' '', cmd_newOid c, units '' '', cmd_ref c, tail]"

lemma command_frame_wire: "command_frame tail c = Inr bs \<Longrightarrow> wire (text_packet (command_parts tail c)) = Inr bs"
  by (auto simp: command_frame_def wire_text_packet text_line_def command_parts_def command_text_def Let_def split: if_splits)

lemma mapR_all2: "mapR f xs = Inr ys \<Longrightarrow> list_all2 (\<lambda>x y. f x = Inr y) xs ys"
  by (induction xs arbitrary: ys) auto

lemma command_frames_wire:
  assumes "command_frames capabilities (c # cs) = Inr frames"
  shows "list_all2 (\<lambda>p bs. wire p = Inr bs)
     (text_packet (command_parts (capability_suffix capabilities) c) # map (\<lambda>c. text_packet (command_parts [] c)) cs) frames"
proof -
  obtain f fs where f: "command_frame (capability_suffix capabilities) c = Inr f" "mapR (command_frame []) cs = Inr fs" "frames = f # fs"
    using assms by (auto simp: command_frames_def capability_suffix_def)
  then have "list_all2 (\<lambda>p bs. wire p = Inr bs) (map (\<lambda>c. text_packet (command_parts [] c)) cs) fs"
    using mapR_all2 [OF f(2)] by (auto simp: list_all2_map1 elim!: list_all2_mono intro: command_frame_wire)
  then show ?thesis using f command_frame_wire by simp
qed

lemma serverPacketText_text_packet:
  assumes "well_formed (concat parts)" "0x0a \<notin> set (concat parts)" "0x0d \<notin> set (concat parts)"
  shows "serverPacketText (text_packet parts) = Inr (concat parts)"
proof -
  have "well_formed (concat parts @ [0x0a])" using assms(1) well_formed_ascii [of "[0x0a]"] by simp
  then show ?thesis using utf8_decode_exact_encode [of "concat parts @ [0x0a]"] assms(2,3)
    by (simp add: text_packet_def serverPacketText_def endsWith_def)
qed

definition sendable :: "ReceivePackCommand \<Rightarrow> bool" where
  "sendable c \<longleftrightarrow> isOid (cmd_oldOid c) \<and> isOid (cmd_newOid c) \<and> requireServerRef (cmd_ref c) = Inr ()
     \<and> \<not> (cmd_oldOid c = ZERO_OID \<and> cmd_newOid c = ZERO_OID)"

lemma split_command:
  assumes "sendable c"
  shows "split_at 0x20 (cmd_oldOid c @ 0x20 # cmd_newOid c @ 0x20 # cmd_ref c) = [cmd_oldOid c, cmd_newOid c, cmd_ref c]"
  using assms isOid_no_space [of "cmd_oldOid c"] isOid_no_space [of "cmd_newOid c"]
    canonical_ref_units(2) [OF requireServerRef_ok(1), of "cmd_ref c" "()"]
  by (simp add: sendable_def split_at_append split_at_no_sep)

lemma command_text_packet:
  assumes "sendable c" "\<forall>u \<in> set tail. unat u < 0x80" "0x0a \<notin> set tail" "0x0d \<notin> set tail"
  shows "serverPacketText (text_packet (command_parts tail c)) =
     Inr (cmd_oldOid c @ 0x20 # cmd_newOid c @ 0x20 # cmd_ref c @ tail)"
proof -
  have o: "isOid (cmd_oldOid c)" "isOid (cmd_newOid c)" and ref: "requireServerRef (cmd_ref c) = Inr ()"
    using assms(1) by (auto simp: sendable_def)
  note r = canonical_ref_units [OF requireServerRef_ok(1) [OF ref]]
  have sp: "units '' '' = [0x20]" by (simp add: units_def)
  have "well_formed (concat (command_parts tail c))"
    using isOid_well_formed o requireServerRef_ok(3) [OF ref] well_formed_ascii [OF assms(2)]
    by (simp add: command_parts_def sp)
  moreover have "0x0a \<notin> set (concat (command_parts tail c))" "0x0d \<notin> set (concat (command_parts tail c))"
    using isOid_no_space [OF o(1)] isOid_no_space [OF o(2)] r assms(3,4) by (auto simp: command_parts_def sp)
  ultimately show ?thesis using serverPacketText_text_packet by (simp add: command_parts_def sp)
qed

lemma requireServerOid_ok [simp]: "requireServerOid True oid = Inr () \<longleftrightarrow> isOid oid"
  by (simp add: requireServerOid_def)

lemma take_drop_around: "drop (length xs + 1) (xs @ x # ys) = ys" "take (length xs) (xs @ x # ys) = xs"
  by simp_all

lemma receive_fields:
  assumes "sendable c" "cmd_ref c \<notin> set (map cmd_ref (rc_commands s))"
    "(case indexOf line [0] of
        None \<Rightarrow> Inr (line, rc_reportStatus s)
      | Some nul \<Rightarrow>
          if length (rc_commands s) \<noteq> 0 then Inl (CorruptError ''receive capabilities occur after the first command'')
          else bindR (parseCapabilities (drop (nul + 1) line) RECEIVE_SERVER_CAPABILITIES) (\<lambda>capabilities.
            Inr (take nul line, units ''report-status'' \<in> set capabilities))) =
      Inr (cmd_oldOid c @ 0x20 # cmd_newOid c @ 0x20 # cmd_ref c, report)"
  shows "receive_line line s = Inr \<lparr>rc_commands = rc_commands s @ [c], rc_reportStatus = report\<rparr>"
proof -
  have "isOid (cmd_oldOid c)" "isOid (cmd_newOid c)" "requireServerRef (cmd_ref c) = Inr ()"
    "\<not> (cmd_oldOid c = ZERO_OID \<and> cmd_newOid c = ZERO_OID)"
    using assms(1) by (auto simp: sendable_def)
  then show ?thesis using assms(2) split_command [OF assms(1)] unfolding receive_line_def assms(3) by simp
qed

lemma command_no_nul:
  assumes "sendable c"
  shows "0 \<notin> set (cmd_oldOid c @ 0x20 # cmd_newOid c @ 0x20 # cmd_ref c)"
  using assms isOid_no_space canonical_ref_units(3) [OF requireServerRef_ok(1)] by (auto simp: sendable_def)

text \<open>The first command carries the capabilities, the others none.\<close>

lemma receive_first:
  assumes "sendable c"
  shows "receive_step (text_packet (command_parts (capability_suffix [units ''report-status'']) c))
      \<lparr>rc_commands = [], rc_reportStatus = False\<rparr> = (Inr None, \<lparr>rc_commands = [c], rc_reportStatus = True\<rparr>)"
proof -
  let ?line = "cmd_oldOid c @ 0x20 # cmd_newOid c @ 0x20 # cmd_ref c"
  let ?caps = "units ''report-status''"
  let ?s = "\<lparr>rc_commands = [], rc_reportStatus = False\<rparr>"
  have nul: "indexOf (?line @ 0 # ?caps) [0] = Some (length ?line)"
    by (rule indexOf_unit_append) (rule command_no_nul [OF assms])
  have caps: "parseCapabilities ?caps RECEIVE_SERVER_CAPABILITIES = Inr [?caps]"
    by (simp add: parseCapabilities_def strip_spaces_def capability_token_def RECEIVE_SERVER_CAPABILITIES_def units_def)
  have "serverPacketText (text_packet (command_parts (capability_suffix [?caps]) c)) = Inr (?line @ 0 # ?caps)"
    using command_text_packet [OF assms, of "capability_suffix [?caps]"] by (simp add: capability_suffix_def units_def)
  moreover have "drop (length ?line + 1) (?line @ 0 # ?caps) = ?caps" "take (length ?line) (?line @ 0 # ?caps) = ?line"
    by (rule take_drop_around)+
  then have "receive_line (?line @ 0 # ?caps) ?s = Inr \<lparr>rc_commands = rc_commands ?s @ [c], rc_reportStatus = True\<rparr>"
    using nul caps by (intro receive_fields [OF assms]) (simp_all del: append_assoc)
  moreover have "text_packet (command_parts t c) \<noteq> Flush" for t by (simp add: text_packet_def)
  ultimately show ?thesis by (simp add: receive_step_def keep_on_def MAX_RECEIVE_PACK_COMMANDS_def)
qed

lemma receive_more:
  assumes "sendable c" "rc_commands s \<noteq> []" "cmd_ref c \<notin> set (map cmd_ref (rc_commands s))"
    "length (rc_commands s) < MAX_RECEIVE_PACK_COMMANDS"
  shows "receive_step (text_packet (command_parts [] c)) s = (Inr None, s\<lparr>rc_commands := rc_commands s @ [c]\<rparr>)"
proof -
  let ?line = "cmd_oldOid c @ 0x20 # cmd_newOid c @ 0x20 # cmd_ref c"
  have nul: "indexOf ?line [0] = None" by (rule indexOf_unit_None) (rule command_no_nul [OF assms(1)])
  have "serverPacketText (text_packet (command_parts [] c)) = Inr ?line" using command_text_packet [OF assms(1), of "[]"] by simp
  moreover have "receive_line ?line s = Inr \<lparr>rc_commands = rc_commands s @ [c], rc_reportStatus = rc_reportStatus s\<rparr>"
    using nul by (intro receive_fields [OF assms(1,3)]) simp
  moreover have "text_packet (command_parts [] c) \<noteq> Flush" by (simp add: text_packet_def)
  ultimately show ?thesis using assms(4) by (simp add: receive_step_def keep_on_def)
qed

lemma receive_commands:
  "list_all sendable cs \<Longrightarrow> rc_commands s \<noteq> [] \<Longrightarrow> distinct (map cmd_ref (rc_commands s @ cs)) \<Longrightarrow>
     length (rc_commands s @ cs) \<le> MAX_RECEIVE_PACK_COMMANDS \<Longrightarrow>
     goes_on receive_step (map (\<lambda>c. text_packet (command_parts [] c)) cs) s (s\<lparr>rc_commands := rc_commands s @ cs\<rparr>)"
proof (induction cs arbitrary: s)
  case (Cons c cs)
  let ?s = "s\<lparr>rc_commands := rc_commands s @ [c]\<rparr>"
  have "goes_on receive_step (map (\<lambda>c. text_packet (command_parts [] c)) cs) ?s (?s\<lparr>rc_commands := rc_commands ?s @ cs\<rparr>)"
    using Cons.IH [of ?s] Cons.prems by simp
  then show ?case using receive_more [of c s] Cons.prems by auto
qed simp

lemma prepared_for_server:
  assumes "prepareRequest request = Inr prepared" "rq_advertised request = RECEIVE_SERVER_CAPABILITIES"
  shows "rq_commands request \<noteq> []" "length (rq_commands request) \<le> MAX_RECEIVE_PACK_COMMANDS"
    "distinct (map cmd_ref (rq_commands request))" "pr_optionFrames prepared = []"
    "command_frames [units ''report-status''] (rq_commands request) = Inr (pr_commandFrames prepared)"
    "pr_hasNonDeletion prepared = list_ex (\<lambda>c. cmd_newOid c \<noteq> ZERO_OID) (rq_commands request)"
    "list_all (\<lambda>c. isOid (cmd_oldOid c) \<and> isOid (cmd_newOid c)) (rq_commands request)"
proof -
  let ?options = "case rq_pushOptions request of None \<Rightarrow> [] | Some xs \<Rightarrow> xs"
  have missing: "requireCapability RECEIVE_SERVER_CAPABILITIES ''atomic'' \<noteq> Inr ()"
    "requireCapability RECEIVE_SERVER_CAPABILITIES ''push-options'' \<noteq> Inr ()"
    "units ''side-band-64k'' \<notin> set RECEIVE_SERVER_CAPABILITIES"
    by (simp_all add: requireCapability_def RECEIVE_SERVER_CAPABILITIES_def units_def)
  obtain commands d h frames oframes where run: "rq_commands request \<noteq> []" "length (rq_commands request) \<le> MAX_RECEIVE_PACK_COMMANDS"
    "foldR command_step (rq_commands request) ([], False, False) = Inr (commands, d, h)"
    "rq_atomic request \<noteq> Some True" "?options = []"
    "command_frames (request_capabilities request ?options) commands = Inr frames"
    "mapR (\<lambda>option. pkt (TextPayload option)) ?options = Inr oframes"
    "pr_commandFrames prepared = frames" "pr_optionFrames prepared = oframes" "pr_hasNonDeletion prepared = h"
    using assms missing by (auto simp: prepareRequest_def Let_def split: if_splits prod.splits)
  have caps: "request_capabilities request ?options = [units ''report-status'']"
    using run(4,5) missing(3) assms(2) by (simp add: request_capabilities_def)
  have cmds: "commands = rq_commands request \<and> h = list_ex (\<lambda>c. cmd_newOid c \<noteq> ZERO_OID) (rq_commands request)
      \<and> distinct (map cmd_ref commands) \<and> list_all (\<lambda>c. isOid (cmd_oldOid c) \<and> isOid (cmd_newOid c)) (rq_commands request)"
    using command_step_run [OF run(3)] by (auto simp: list_all_iff)
  show "rq_commands request \<noteq> []" "length (rq_commands request) \<le> MAX_RECEIVE_PACK_COMMANDS" by (fact run(1), fact run(2))
  show "distinct (map cmd_ref (rq_commands request))" "pr_optionFrames prepared = []"
    "command_frames [units ''report-status''] (rq_commands request) = Inr (pr_commandFrames prepared)"
    "pr_hasNonDeletion prepared = list_ex (\<lambda>c. cmd_newOid c \<noteq> ZERO_OID) (rq_commands request)"
    "list_all (\<lambda>c. isOid (cmd_oldOid c) \<and> isOid (cmd_newOid c)) (rq_commands request)"
    using cmds run(5-10) caps by auto
qed

lemma read_pack_all:
  "bytes + length (concat chunks) \<le> maxBytes \<Longrightarrow> read_pack_loop maxBytes True bytes chunks failure = (chunks, failure)"
  by (induction chunks arbitrary: bytes) auto

lemma br_advance_nonempty: "br_advance r = (Inr True, r') \<Longrightarrow> br_chunk r' \<noteq> []"
proof -
  have "advance_loop es r = (Inr True, r') \<Longrightarrow> br_chunk r' \<noteq> []" for es
    by (induction es r rule: advance_loop.induct) (auto split: if_splits)
  then show "br_advance r = (Inr True, r') \<Longrightarrow> br_chunk r' \<noteq> []" by (auto simp: br_advance_def split: if_splits)
qed

lemma rest_loop_nonempty: "[] \<notin> set (fst (rest_loop r))"
proof (induction r rule: rest_loop.induct)
  case (1 r)
  obtain res r1 where adv: "br_advance r = (res, r1)" by (cases "br_advance r") auto
  show ?case
  proof (cases "res = Inr True")
    case True
    have "[] \<notin> set (fst (rest_loop (r1\<lparr>br_offset := length (br_chunk r1)\<rparr>)))" using 1 adv True by simp
    moreover have "br_chunk r1 \<noteq> []" using br_advance_nonempty adv True by simp
    ultimately show ?thesis using adv True by (subst rest_loop.simps) (auto split: prod.splits)
  next
    case False
    then show ?thesis using adv by (subst rest_loop.simps) (auto split: sum.splits bool.splits)
  qed
qed

lemma br_rest_nonempty: "br_rest r = (cs, e, r') \<Longrightarrow> [] \<notin> set cs"
  using rest_loop_nonempty [of r] rest_loop_nonempty [of "r\<lparr>br_offset := length (br_chunk r)\<rparr>"]
  by (cases "throwIfAborted r") (auto simp: br_rest_def Let_def split: prod.splits if_splits)

text \<open>
  C24: a push request the client prepares for what the server advertises arrives intact: the server parses the
  client's request body into the same commands, sees that a status report is wanted, and reads back the bytes of the
  pack, or none when every command deletes.
\<close>

theorem push_request_roundtrip:
  assumes "prepareRequest request = Inr prepared" "rq_advertised request = RECEIVE_SERVER_CAPABILITIES"
    and "list_all (\<lambda>c. requireServerRef (cmd_ref c) = Inr () \<and> \<not> (cmd_oldOid c = ZERO_OID \<and> cmd_newOid c = ZERO_OID))
           (rq_commands request)"
    and "rq_pack request = Some (pack, None)" "length (concat pack) \<le> maxPackBytes" "maxPackBytes \<le> max_safe_integer"
  shows "\<exists>chunks. parseReceivePackRequest (int maxPackBytes) (newByteReader (requestBody prepared (rq_pack request)) None False)
       = Inr \<lparr>sr_commands = rq_commands request, sr_reportStatus = True, sr_pack = (chunks, None)\<rparr>
     \<and> concat chunks = (if list_ex (\<lambda>c. cmd_newOid c \<noteq> ZERO_OID) (rq_commands request) then concat pack else [])"
proof -
  note prep = prepared_for_server [OF assms(1,2)]
  let ?accepts = "list_ex (\<lambda>c. cmd_newOid c \<noteq> ZERO_OID) (rq_commands request)"
  let ?rest = "if ?accepts then concat pack else []"
  obtain c cs where c: "rq_commands request = c # cs" using prep(1) by (cases "rq_commands request") auto
  let ?ps = "text_packet (command_parts (capability_suffix [units ''report-status'']) c) # map (\<lambda>c. text_packet (command_parts [] c)) cs"
  let ?start = "\<lparr>rc_commands = [], rc_reportStatus = False\<rparr>"
  let ?s = "\<lparr>rc_commands = rq_commands request, rc_reportStatus = True\<rparr>"
  let ?r = "newByteReader (requestBody prepared (rq_pack request)) None False"
  have send: "list_all sendable (rq_commands request)" using assms(3) prep(7) by (auto simp: list_all_iff sendable_def)
  have body: "requestBody prepared (rq_pack request) = map Chunk (pr_commandFrames prepared @ [FLUSH] @ (if ?accepts then pack else []))"
    using prep(4,6) assms(4) by (simp add: requestBody_def pack_body_def)
  have unread: "unread ?r = (concat (pr_commandFrames prepared @ [FLUSH]) @ ?rest, Ended)"
    unfolding body unread_newByteReader by simp
  have wires: "list_all2 (\<lambda>p bs. wire p = Inr bs) (?ps @ [Flush]) (pr_commandFrames prepared @ [FLUSH])"
    using list_all2_appendI [OF command_frames_wire [OF prep(5) [unfolded c]], of "[Flush]" "[FLUSH]"] by simp
  obtain r2 where r2: "reads ?r (?ps @ [Flush]) r2" "reader_ok r2" "unread r2 = (?rest, Ended)"
    using wire_reads [OF wires reader_ok_newByteReader unread] by blast
  obtain r1 where rd: "reads ?r ?ps r1" "readPkt r1 = (Inr (Some Flush), r2)"
    using reads_appendD [OF r2(1)] by (auto elim!: reads_ConsE [of _ Flush])
  have "goes_on receive_step ?ps ?start ?s"
    using receive_first [of c] receive_commands [of cs "\<lparr>rc_commands = [c], rc_reportStatus = True\<rparr>"] send c prep(2,3) by simp
  from packet_loop_reads [OF rd(1) this] packet_loop_leave [OF rd(2), of receive_step ?s "()" ?s]
  have loop: "packet_loop e receive_step ?start ?r = (Inr (), ?s, r2)" for e by (simp add: receive_step_def)
  obtain chunks err r3 where rest: "br_rest r2 = (chunks, err, r3)" by (cases "br_rest r2") auto
  note got = br_rest_unread [OF r2(2,3) rest]
  have "readPack r2 maxPackBytes ?accepts = (chunks, None)"
  proof (cases ?accepts)
    case True
    then show ?thesis using got rest read_pack_all [of 0 chunks maxPackBytes err] assms(5) by (simp add: readPack_def)
  next
    case False
    then have "chunks = []" using got br_rest_nonempty [OF rest] by (cases chunks) auto
    then show ?thesis using got rest by (simp add: readPack_def)
  qed
  then show ?thesis using loop got assms(6) by (intro exI [of _ chunks]) (simp add: parseReceivePackRequest_def)
qed

definition sample_request :: ReceivePackRequest where
  "sample_request = \<lparr>rq_commands = [sample_command], rq_advertised = RECEIVE_SERVER_CAPABILITIES, rq_atomic = None,
     rq_pushOptions = None, rq_pack = Some ([[1], [2]], None), rq_onProgress = None, rq_onMessage = None\<rparr>"

lemma sample_command_valid: "validateCommand sample_command = Inr sample_command"
proof -
  have "isOid ZERO_OID" "isOid (replicate 40 0x61)" by (simp_all add: isOid_def ZERO_OID_def list_all_iff is_lower_hex_def)
  moreover have "rt_problem (checkRefText (units ''refs/heads/a'') None) = None"
    by (simp add: checkRefText_def units_def is_high_def is_low_def over_limit_def)
  moreover have "startsWith (units ''refs/heads/a'') (units ''refs/'')" "length (units ''refs/heads/a'') \<noteq> length (units ''refs/'')"
    by (simp_all add: units_def)
  ultimately show ?thesis using requireServerRef_ok(1) [OF sample_ref] by (simp add: validateCommand_def sample_command_def)
qed

lemma sample_request_prepared: "\<exists>prepared. prepareRequest sample_request = Inr prepared"
proof -
  have "rt_bytes (checkRefText (units ''refs/heads/a'') None) = 12"
    by (simp add: checkRefText_def units_def is_high_def is_low_def over_limit_def)
  moreover have "length (utf8_encode (0 # units ''report-status'')) = 14"
    using utf8_encode_ascii [of "0 # units ''report-status''"] by (simp add: units_def)
  moreover have "\<exists>bs. pkt (TextPayload (command_text (0 # units ''report-status'') sample_command)) = Inr bs"
    by (rule pkt_short, subst payload_body_def, simp,
        subst utf8_encode_ascii, auto simp: command_text_def sample_command_def ZERO_OID_def units_def
          MAX_PKT_PAYLOAD_BYTES_def MAX_PKT_FRAME_BYTES_def)
  ultimately have "\<exists>frames. command_frames [units ''report-status''] [sample_command] = Inr frames"
    by (auto simp: command_frames_def command_frame_def sample_command_def MAX_PKT_PAYLOAD_BYTES_def MAX_PKT_FRAME_BYTES_def)
  moreover have "units ''side-band-64k'' \<notin> set RECEIVE_SERVER_CAPABILITIES" "units ''report-status'' \<in> set RECEIVE_SERVER_CAPABILITIES"
    by (simp_all add: RECEIVE_SERVER_CAPABILITIES_def units_def)
  moreover have "cmd_newOid sample_command \<noteq> ZERO_OID" by (simp add: sample_command_def ZERO_OID_def)
  ultimately show ?thesis
    by (auto simp: prepareRequest_def sample_request_def command_step_def sample_command_valid validatePushOptionList_def
        validatePushOptions_def requireCapability_def request_capabilities_def MAX_RECEIVE_PACK_COMMANDS_def MAX_PUSH_OPTIONS_def)
qed

theorem push_request_roundtrip_witness:
  "\<exists>prepared chunks. prepareRequest sample_request = Inr prepared \<and> concat chunks = [1, 2] \<and>
     parseReceivePackRequest 2 (newByteReader (requestBody prepared (rq_pack sample_request)) None False)
       = Inr \<lparr>sr_commands = [sample_command], sr_reportStatus = True, sr_pack = (chunks, None)\<rparr>"
proof -
  obtain prepared where p: "prepareRequest sample_request = Inr prepared" using sample_request_prepared by blast
  have "cmd_newOid sample_command \<noteq> ZERO_OID" by (simp add: sample_command_def ZERO_OID_def)
  moreover have "requireServerRef (cmd_ref sample_command) = Inr ()" using sample_ref by (simp add: sample_command_def)
  ultimately show ?thesis using p push_request_roundtrip [OF p, of "[[1], [2]]" 2]
    by (auto simp: sample_request_def max_safe_integer_def)
qed

section \<open>The fetch request\<close>

lemma concatBody_concat: "concatBody parts = concat parts"
  using concat_chunks_concat [of parts] by (simp add: concatBody_def concat_chunks_def)

lemma upload_capabilities_for_server:
  assumes "upload_capabilities request = Inr capabilities" "up_advertised request = server_capabilities UploadPackService head"
  shows "capabilities = [units ''side-band-64k'', units ''agent='' @ AGENT]"
proof -
  let ?adv = "up_advertised request"
  have adv: "units c \<notin> set ?adv" if "c \<in> {''filter'', ''shallow'', ''deepen-relative'', ''ofs-delta'', ''no-done'', ''include-tag'', ''no-progress''}" for c
    using that assms(2) by (auto simp: server_capabilities_def UPLOAD_SERVER_CAPABILITIES_def units_def split: option.splits)
  have side: "units ''side-band-64k'' \<in> set ?adv"
    using assms(2) by (simp add: server_capabilities_def UPLOAD_SERVER_CAPABILITIES_def)
  show ?thesis using assms(1) adv side
    by (auto simp: upload_capabilities_def needs_def negotiate_def split: if_splits)
qed

lemma upload_first_want:
  assumes "isOid oid" "oid \<noteq> ZERO_OID"
  shows "upload_step (text_packet [units ''want '', oid, units '' '', units ''side-band-64k'' @ units '' '' @ units ''agent='' @ AGENT])
      \<lparr>us_wants = [], us_haves = [], us_capabilities = [], us_wantsEnded = False, us_entries = 0\<rparr>
    = (Inl (GitError ''EUNSUPPORTED'' ''unsupported server capability''),
       \<lparr>us_wants = [], us_haves = [], us_capabilities = [], us_wantsEnded = False, us_entries = 0\<rparr>)"
proof -
  let ?side = "units ''side-band-64k''"
  let ?agent = "units ''agent='' @ AGENT"
  let ?parts = "[units ''want '', oid, units '' '', ?side @ units '' '' @ ?agent]"
  let ?line = "units ''want'' @ 0x20 # oid @ 0x20 # ?side @ 0x20 # ?agent"
  have line: "concat ?parts = ?line" by (simp add: units_def)
  have ascii: "\<forall>u \<in> set (concat ?parts). unat u < 0x80" using isOid_ascii [OF assms(1)] by (auto simp: units_def AGENT_def)
  have "0x0a \<notin> set (concat ?parts)" "0x0d \<notin> set (concat ?parts)"
    using isOid_no_space [OF assms(1)] by (simp_all add: units_def AGENT_def)
  then have packet: "serverPacketText (text_packet ?parts) = Inr ?line"
    using serverPacketText_text_packet [OF well_formed_ascii [OF ascii]] line by simp
  have nospace: "0x20 \<notin> set (units ''want'')" "0x20 \<notin> set oid" "0x20 \<notin> set ?side" "0x20 \<notin> set ?agent"
    using isOid_no_space [OF assms(1)] by (simp_all add: units_def AGENT_def)
  have fields: "split_at 0x20 ?line = [units ''want'', oid, ?side, ?agent]"
    using nospace by (simp add: split_at_append split_at_no_sep del: set_append)
  have caps: "parseCapabilities (?side @ 0x20 # ?agent) UPLOAD_SERVER_CAPABILITIES
      = Inl (GitError ''EUNSUPPORTED'' ''unsupported server capability'')"
    using nospace(3,4)
    by (simp add: parseCapabilities_def strip_spaces_def split_at_append split_at_no_sep capability_token_def
        UPLOAD_SERVER_CAPABILITIES_def units_def AGENT_def)
  have "?line \<noteq> units ''done''" by (simp add: units_def)
  moreover have "upload_line ?line \<lparr>us_wants = [], us_haves = [], us_capabilities = [], us_wantsEnded = False, us_entries = 0\<rparr>
      = Inl (GitError ''EUNSUPPORTED'' ''unsupported server capability'')"
    unfolding upload_line_def fields using assms caps
    by (simp add: requireServerOid_def) (simp add: units_def)
  ultimately show ?thesis using packet by (simp add: upload_step_def keep_on_def text_packet_def [of ?parts])
qed

text \<open>
  C28: the client cannot fetch from this server. Whatever it asks for, a request built from the server's own
  advertisement names the capability \<open>agent=kompjutr/0.0.0\<close>, which the server never advertised, and the
  server answers that it does not support it.
\<close>

theorem fetch_request_refused:
  assumes "uploadPack_request entryLimit request = Inr (body, capabilities)" "ZERO_OID \<notin> set (up_wants request)"
    and "up_advertised request = server_capabilities UploadPackService head" "concat chunks = body"
  shows "parseUploadPackRequest (newByteReader (map Chunk chunks) None False)
     = Inl (GitError ''EUNSUPPORTED'' ''unsupported server capability'')"
proof -
  obtain frames frames' where run: "upload_capabilities request = Inr capabilities" "up_wants request \<noteq> []"
    "list_all isOid (up_wants request)"
    "mapR pkt (fst (upload_lines request capabilities)) = Inr frames" "body = concatBody (frames @ [FLUSH] @ frames')"
    using assms(1) by (auto simp: uploadPack_request_def case_prod_beta)
  obtain oid oids where oid: "up_wants request = oid # oids" using run(2) by (cases "up_wants request") auto
  note caps = upload_capabilities_for_server [OF run(1) assms(3)]
  let ?parts = "[units ''want '', oid, units '' '', units ''side-band-64k'' @ units '' '' @ units ''agent='' @ AGENT]"
  have "\<exists>others. fst (upload_lines request capabilities) = text_line ?parts # others"
    by (simp add: upload_lines_def want_lines_def oid caps)
  then obtain f fs where f: "pkt (text_line ?parts) = Inr f" "frames = f # fs" using run(4) by auto
  let ?r = "newByteReader (map Chunk chunks) None False"
  let ?start = "\<lparr>us_wants = [], us_haves = [], us_capabilities = [], us_wantsEnded = False, us_entries = 0\<rparr>"
  have "frame_of (f @ concat (fs @ [FLUSH] @ frames')) Ended = Inr (Some (text_packet ?parts), concat (fs @ [FLUSH] @ frames'))"
    by (rule wire_frame) (use f(1) in \<open>simp add: wire_text_packet\<close>)
  moreover have "unread ?r = (f @ concat (fs @ [FLUSH] @ frames'), Ended)"
    using run(5) f(2) assms(4) by (simp add: unread_newByteReader concatBody_concat)
  ultimately obtain r1 where "readPkt ?r = (Inr (Some (text_packet ?parts)), r1)"
    using readPkt_frame [OF reader_ok_newByteReader, of "map Chunk chunks"] by force
  moreover have "upload_step (text_packet ?parts) ?start = (Inl (GitError ''EUNSUPPORTED'' ''unsupported server capability''), ?start)"
    using upload_first_want [of oid] run(3) assms(2) oid by auto
  ultimately have "packet_loop e upload_step ?start ?r = (Inl (GitError ''EUNSUPPORTED'' ''unsupported server capability''), ?start, r1)" for e
    by (subst packet_loop.simps) simp
  then show ?thesis by (simp add: parseUploadPackRequest_def)
qed

definition sample_fetch :: UploadPackRequest where
  "sample_fetch = \<lparr>up_wants = [replicate 40 0x61], up_haves = None, up_shallows = None, up_depth = None, up_deepenRelative = None,
     up_includeTag = None, up_filter = None, up_advertised = server_capabilities UploadPackService None, up_onProgress = None\<rparr>"

lemma sample_fetch_built: "\<exists>body capabilities. uploadPack_request 16384 sample_fetch = Inr (body, capabilities)"
proof -
  have "\<exists>c. upload_capabilities sample_fetch = Inr c"
    by (simp add: upload_capabilities_def sample_fetch_def uploadPackFilter_def shallowRequested_def up_shallow_list_def Let_def)
  then have caps: "upload_capabilities sample_fetch = Inr [units ''side-band-64k'', units ''agent='' @ AGENT]"
    using upload_capabilities_for_server [of sample_fetch _ None] by (auto simp: sample_fetch_def)
  have "isOid (replicate 40 0x61)" by (simp add: isOid_def list_all_iff is_lower_hex_def)
  moreover obtain f where "pkt (text_line [units ''want '', replicate 40 0x61, units '' '',
      units ''side-band-64k'' @ units '' '' @ units ''agent='' @ AGENT]) = Inr f"
    using short_text [of "[units ''want '', replicate 40 0x61, units '' '', units ''side-band-64k'' @ units '' '' @ units ''agent='' @ AGENT]"]
    by (auto simp: units_def AGENT_def)
  moreover obtain g where "pkt (text_line [units ''done'']) = Inr g" using short_text [of "[units ''done'']"] by (auto simp: units_def)
  ultimately show ?thesis unfolding uploadPack_request_def caps
    by (simp add: sample_fetch_def up_shallow_list_def up_have_list_def upload_lines_def want_lines_def)
qed

theorem fetch_request_refused_witness:
  "\<exists>body capabilities. uploadPack_request 16384 sample_fetch = Inr (body, capabilities) \<and>
     parseUploadPackRequest (newByteReader (map Chunk [body]) None False)
       = Inl (GitError ''EUNSUPPORTED'' ''unsupported server capability'')"
proof -
  obtain body capabilities where b: "uploadPack_request 16384 sample_fetch = Inr (body, capabilities)" using sample_fetch_built by blast
  have "ZERO_OID \<notin> set (up_wants sample_fetch)" by (simp add: sample_fetch_def ZERO_OID_def)
  from fetch_request_refused [OF b this, of None "[body]"] show ?thesis using b by (simp add: sample_fetch_def)
qed

end
