(* ===== verification/MergeBase.thy ===== *)
theory MergeBase
  imports Objects Sorting "HOL-Library.AList"
begin

text \<open>
  Best common ancestors (\<open>packages/git/src/ops/merge/merge-base.ts\<close>): the bounded graph of both histories, the
  selection of the best common ancestors by a child-first pass over it, and the counts of what is ahead and behind.

  The repository is what the module reads from it: object types, the walk of a history (the commits it delivers and
  the error that ends it), the tree roots of a history, the shallow boundary and revision lookup. A \<open>Map\<close> is an
  association list in insertion order, a \<open>Set\<close> the list of its elements.
\<close>

section \<open>The graph\<close>

definition MAX_LOG_COMMITS :: nat where
  "MAX_LOG_COMMITS = 50000"

definition MAX_MERGE_BASE_COMMITS :: nat where
  "MAX_MERGE_BASE_COMMITS = MAX_LOG_COMMITS"

definition MAX_MERGE_BASES :: nat where
  "MAX_MERGE_BASES = 64"

definition CURRENT :: nat where
  "CURRENT = 1"

definition INCOMING :: nat where
  "INCOMING = 2"

definition BOTH :: nat where
  "BOTH = CURRENT OR INCOMING"

datatype MergeBaseKind = AlreadyMerged | FastForward | Divergent | Unrelated | Shallow

record MergeBaseSelection =
  ms_kind :: MergeBaseKind
  ms_bases :: "jstring list"
  ms_commits :: nat

record MergeBaseLimits =
  ml_maxCommits :: "int option"
  ml_maxBases :: "int option"

record MergeBaseInput =
  mi_currentOid :: jstring
  mi_incomingOid :: jstring
  mi_limits :: "MergeBaseLimits option"

record ResolvedLimits =
  rl_maxCommits :: nat
  rl_maxBases :: nat

record GraphNode =
  gn_commit :: CommitData
  gn_sides :: nat

type_synonym graph = "(jstring \<times> GraphNode) list"

record GraphState =
  gs_nodes :: graph
  gs_shallow :: "jstring list"

record MergeRepository =
  mr_typeOf :: "jstring \<Rightarrow> jstring result"
  mr_walk :: "jstring \<Rightarrow> nat \<Rightarrow> (jstring \<times> CommitData) list \<times> error option"
  mr_treeRoots :: "jstring \<Rightarrow> jstring list \<times> error option"
  mr_shallow :: "jstring list"
  mr_revision :: "jstring \<Rightarrow> jstring result"

definition boundedLimit :: "int option \<Rightarrow> nat \<Rightarrow> nat result" where
  "boundedLimit v ceiling =
     (case v of
        None \<Rightarrow> Inr ceiling
      | Some n \<Rightarrow> if \<bar>n\<bar> > int max_safe_integer \<or> n < 1 \<or> n > int ceiling then Inl (RangeError ''invalid merge-base limit'')
          else Inr (nat n))"

definition resolveLimits :: "MergeBaseLimits option \<Rightarrow> ResolvedLimits result" where
  "resolveLimits limits =
     bindR (boundedLimit (case limits of None \<Rightarrow> None | Some l \<Rightarrow> ml_maxCommits l) MAX_MERGE_BASE_COMMITS) (\<lambda>commits.
     bindR (boundedLimit (case limits of None \<Rightarrow> None | Some l \<Rightarrow> ml_maxBases l) MAX_MERGE_BASES) (\<lambda>bases.
     Inr \<lparr>rl_maxCommits = commits, rl_maxBases = bases\<rparr>))"

fun same_from :: "jstring list \<Rightarrow> jstring list \<Rightarrow> bool" where
  "same_from (l # ls) (r # rs) = (if l \<noteq> r then False else same_from ls rs)"
| "same_from _ _ = True"

definition sameParents :: "jstring list \<Rightarrow> jstring list \<Rightarrow> bool" where
  "sameParents left right = (if length left \<noteq> length right then False else same_from left right)"

definition too_many_commits :: error where
  "too_many_commits = GitError ''E2BIG'' ''merge-base graph exceeds its unique commits''"

definition reachable_step :: "nat \<Rightarrow> nat \<Rightarrow> jstring \<times> CommitData \<Rightarrow> graph \<Rightarrow> graph result" where
  "reachable_step side maxCommits entry nodes =
     (case entry of (oid, commit) \<Rightarrow>
        (case map_of nodes oid of
           Some existing \<Rightarrow>
             if commit_tree (gn_commit existing) \<noteq> commit_tree commit \<or> \<not> sameParents (parent (gn_commit existing)) (parent commit)
             then Inl (CorruptError ''indexed graph returned inconsistent commit identities'')
             else Inr (AList.update oid (existing\<lparr>gn_sides := gn_sides existing OR side\<rparr>) nodes)
         | None \<Rightarrow>
             if length nodes \<ge> maxCommits then Inl too_many_commits
             else Inr (AList.update oid \<lparr>gn_commit = commit, gn_sides = side\<rparr> nodes)))"

definition addReachable :: "MergeRepository \<Rightarrow> jstring \<Rightarrow> nat \<Rightarrow> ResolvedLimits \<Rightarrow> graph \<Rightarrow> graph result" where
  "addReachable repo root side limits nodes =
     (case mr_walk repo root (rl_maxCommits limits) of
        (entries, failure) \<Rightarrow>
          bindR (foldR (reachable_step side (rl_maxCommits limits)) entries nodes) (\<lambda>nodes1.
          case failure of Some e \<Rightarrow> Inl e | None \<Rightarrow> Inr nodes1))"

section \<open>Best common ancestors\<close>

definition compareOids :: "jstring \<Rightarrow> jstring \<Rightarrow> int" where
  "compareOids left right = (if left = right then 0 else if lex_cmp left right < 0 then -1 else 1)"

definition common_commits :: "graph \<Rightarrow> jstring list" where
  "common_commits nodes = map fst (filter (\<lambda>(oid, node). gn_sides node = BOTH) nodes)"

text \<open>The edge of one parent, counted against the parent; a missing parent is allowed at the shallow boundary only.\<close>

definition count_parent :: "graph \<Rightarrow> jstring list \<Rightarrow> jstring \<Rightarrow> jstring \<Rightarrow> (jstring \<times> int) list \<Rightarrow> (jstring \<times> int) list result" where
  "count_parent nodes shallow oid p counts =
     (if map_of nodes p = None then
        (if oid \<notin> set shallow then Inl (CorruptError ''merge-base graph is missing a parent row'') else Inr counts)
      else Inr (AList.update p ((case map_of counts p of None \<Rightarrow> 0 | Some n \<Rightarrow> n) + 1) counts))"

definition count_node :: "graph \<Rightarrow> jstring list \<Rightarrow> jstring \<times> GraphNode \<Rightarrow> (jstring \<times> int) list \<Rightarrow> (jstring \<times> int) list result" where
  "count_node nodes shallow entry =
     (case entry of (oid, node) \<Rightarrow> foldR (count_parent nodes shallow oid) (parent (gn_commit node)))"

definition child_counts :: "graph \<Rightarrow> jstring list \<Rightarrow> (jstring \<times> int) list result" where
  "child_counts nodes shallow = foldR (count_node nodes shallow) nodes (map (\<lambda>(oid, _). (oid, 0)) nodes)"

record PassState =
  ps_ready :: "jstring list"
  ps_counts :: "(jstring \<times> int) list"
  ps_descendant :: "jstring list"
  ps_dominated :: "jstring list"
  ps_processed :: nat

definition pass_parent :: "jstring list \<Rightarrow> bool \<Rightarrow> jstring \<Rightarrow> PassState \<Rightarrow> PassState" where
  "pass_parent common propagates p s =
     (case map_of (ps_counts s) p of
        None \<Rightarrow> s
      | Some children \<Rightarrow>
          let s1 = (if propagates
                    then s\<lparr>ps_descendant := set_add p (ps_descendant s),
                           ps_dominated := (if p \<in> set common then set_add p (ps_dominated s) else ps_dominated s)\<rparr>
                    else s);
              remaining = children - 1;
              s2 = s1\<lparr>ps_counts := AList.update p remaining (ps_counts s1)\<rparr>
          in if remaining = 0 then s2\<lparr>ps_ready := ps_ready s2 @ [p]\<rparr> else s2)"

text \<open>What bounds the pass: commits ready, and commits that still wait for a child.\<close>

definition waiting :: "(jstring \<times> int) list \<Rightarrow> nat" where
  "waiting counts = length (filter (\<lambda>(_, n). n > 0) counts)"

lemma waiting_update:
  "map_of counts p = Some n \<Longrightarrow> n \<noteq> 1 \<Longrightarrow> waiting (AList.update p (n - 1) counts) \<le> waiting counts"
  "map_of counts p = Some 1 \<Longrightarrow> waiting (AList.update p 0 counts) + 1 \<le> waiting counts"
  by (induction counts) (auto simp: waiting_def split: if_splits)

lemma pass_parent_measure:
  "length (ps_ready (pass_parent common b p s)) + waiting (ps_counts (pass_parent common b p s))
     \<le> length (ps_ready s) + waiting (ps_counts s)"
  using waiting_update [of "ps_counts s" p]
  by (cases "map_of (ps_counts s) p") (auto simp: pass_parent_def Let_def)

lemma pass_parents_measure:
  "length (ps_ready (fold (pass_parent common b) ps s)) + waiting (ps_counts (fold (pass_parent common b) ps s))
     \<le> length (ps_ready s) + waiting (ps_counts s)"
proof (induction ps arbitrary: s)
  case (Cons p ps)
  show ?case using Cons [of "pass_parent common b p s"] pass_parent_measure [of common b p s] by simp
qed simp

function pass_loop :: "graph \<Rightarrow> jstring list \<Rightarrow> PassState \<Rightarrow> PassState result" where
  "pass_loop nodes common s =
     (if length (ps_ready s) > 0 then
        let oid = last (ps_ready s)
        in (case map_of nodes oid of
              None \<Rightarrow> Inl (CorruptError ''merge-base graph lost a ready commit'')
            | Some node \<Rightarrow>
                let s1 = s\<lparr>ps_ready := butlast (ps_ready s), ps_processed := ps_processed s + 1\<rparr>;
                    propagates = (oid \<in> set common \<or> oid \<in> set (ps_descendant s))
                in pass_loop nodes common (fold (pass_parent common propagates) (parent (gn_commit node)) s1))
      else Inr s)"
  by pat_completeness auto
termination
proof (relation "measure (\<lambda>(_, _, s). length (ps_ready s) + waiting (ps_counts s))", goal_cases)
  case (2 nodes common s oid node s1 propagates)
  then show ?case
    using pass_parents_measure [of common propagates "parent (gn_commit node)" s1] by (cases "ps_ready s") auto
qed simp

declare pass_loop.simps [simp del]

definition bestCommonAncestors :: "graph \<Rightarrow> jstring list \<Rightarrow> jstring list result" where
  "bestCommonAncestors nodes shallow =
     (let common = common_commits nodes
      in bindR (child_counts nodes shallow) (\<lambda>counts.
         bindR (pass_loop nodes common
                  \<lparr>ps_ready = map fst (filter (\<lambda>(_, children). children = 0) counts), ps_counts = counts,
                   ps_descendant = [], ps_dominated = [], ps_processed = 0\<rparr>) (\<lambda>s.
         if ps_processed s \<noteq> length nodes then Inl (CorruptError ''merge-base graph contains a cycle'')
         else Inr (sort_cmp compareOids (filter (\<lambda>oid. oid \<notin> set (ps_dominated s)) common)))))"

section \<open>Selection\<close>

definition selection :: "MergeBaseKind \<Rightarrow> jstring list \<Rightarrow> GraphState \<Rightarrow> MergeBaseSelection" where
  "selection kind bases state = \<lparr>ms_kind = kind, ms_bases = bases, ms_commits = length (gs_nodes state)\<rparr>"

definition require_commit :: "MergeRepository \<Rightarrow> jstring \<Rightarrow> unit result" where
  "require_commit repo oid =
     bindR (mr_typeOf repo oid) (\<lambda>t. guardR (t = units ''commit'') (CorruptError ''object is not a commit''))"

definition reachableGraphOwned :: "MergeRepository \<Rightarrow> MergeBaseInput \<Rightarrow> GraphState result" where
  "reachableGraphOwned repo input =
     bindR (guardR (isOid (mi_currentOid input) \<and> isOid (mi_incomingOid input))
              (GitError ''EINVAL'' ''merge-base inputs must be full object ids'')) (\<lambda>_.
     bindR (resolveLimits (mi_limits input)) (\<lambda>limits.
     bindR (require_commit repo (mi_currentOid input)) (\<lambda>_.
     bindR (require_commit repo (mi_incomingOid input)) (\<lambda>_.
     bindR (addReachable repo (mi_currentOid input) CURRENT limits []) (\<lambda>nodes.
     bindR (addReachable repo (mi_incomingOid input) INCOMING limits nodes) (\<lambda>nodes1.
     Inr \<lparr>gs_nodes = nodes1, gs_shallow = mr_shallow repo\<rparr>))))))"

definition withReachableGraph ::
    "MergeRepository \<Rightarrow> MergeBaseInput \<Rightarrow> (GraphState \<Rightarrow> ResolvedLimits \<Rightarrow> 'a result) \<Rightarrow> 'a result" where
  "withReachableGraph repo input body =
     bindR (reachableGraphOwned repo input) (\<lambda>state. bindR (resolveLimits (mi_limits input)) (\<lambda>limits. body state limits))"

definition sides_of :: "GraphState \<Rightarrow> jstring \<Rightarrow> nat option" where
  "sides_of state oid = map_option gn_sides (map_of (gs_nodes state) oid)"

text \<open>A shallow commit that only one side reaches: what lies beyond it is unknown.\<close>

definition one_sided_boundary :: "GraphState \<Rightarrow> bool" where
  "one_sided_boundary state =
     list_ex (\<lambda>oid. case sides_of state oid of None \<Rightarrow> False | Some n \<Rightarrow> n \<noteq> BOTH) (gs_shallow state)"

definition selectMergeBases :: "MergeRepository \<Rightarrow> MergeBaseInput \<Rightarrow> MergeBaseSelection result" where
  "selectMergeBases repo input =
     withReachableGraph repo input (\<lambda>state limits.
       if sides_of state (mi_incomingOid input) = Some BOTH then Inr (selection AlreadyMerged [mi_incomingOid input] state)
       else if sides_of state (mi_currentOid input) = Some BOTH then Inr (selection FastForward [mi_currentOid input] state)
       else if one_sided_boundary state then Inr (selection Shallow [] state)
       else
         bindR (bestCommonAncestors (gs_nodes state) (gs_shallow state)) (\<lambda>bases.
         if length bases = 0 then Inr (selection Unrelated [] state)
         else if length bases > rl_maxBases limits then Inl (GitError ''E2BIG'' ''merge-base result exceeds its best bases'')
         else Inr (selection Divergent bases state)))"

definition mergeBase :: "MergeRepository \<Rightarrow> jstring \<Rightarrow> jstring \<Rightarrow> (MergeBaseKind \<times> jstring list) result" where
  "mergeBase repo current incoming =
     bindR (mr_revision repo current) (\<lambda>currentOid.
     bindR (mr_revision repo incoming) (\<lambda>incomingOid.
     bindR (selectMergeBases repo \<lparr>mi_currentOid = currentOid, mi_incomingOid = incomingOid, mi_limits = None\<rparr>) (\<lambda>sel.
     Inr (ms_kind sel, ms_bases sel))))"

section \<open>Ahead and behind\<close>

record AheadBehindResult =
  ab_ahead :: nat
  ab_behind :: nat
  ab_commits :: nat

definition side_step :: "nat \<Rightarrow> nat \<Rightarrow> jstring \<Rightarrow> (jstring \<times> nat) list \<Rightarrow> (jstring \<times> nat) list result" where
  "side_step side maxCommits oid sides =
     (if map_of sides oid = None \<and> length sides \<ge> maxCommits then Inl too_many_commits
      else Inr (AList.update oid ((case map_of sides oid of None \<Rightarrow> 0 | Some n \<Rightarrow> n) OR side) sides))"

definition side_roots :: "MergeRepository \<Rightarrow> nat \<Rightarrow> jstring \<Rightarrow> nat \<Rightarrow> (jstring \<times> nat) list \<Rightarrow> (jstring \<times> nat) list result" where
  "side_roots repo maxCommits root side sides =
     bindR (require_commit repo root) (\<lambda>_.
     case mr_treeRoots repo root of
       (oids, failure) \<Rightarrow>
         bindR (foldR (side_step side maxCommits) oids sides) (\<lambda>sides1.
         case failure of Some e \<Rightarrow> Inl e | None \<Rightarrow> Inr sides1))"

definition countAheadBehind :: "MergeRepository \<Rightarrow> MergeBaseInput \<Rightarrow> AheadBehindResult result" where
  "countAheadBehind repo input =
     bindR (guardR (isOid (mi_currentOid input) \<and> isOid (mi_incomingOid input))
              (GitError ''EINVAL'' ''merge-base inputs must be full object ids'')) (\<lambda>_.
     bindR (resolveLimits (mi_limits input)) (\<lambda>limits.
     bindR (side_roots repo (rl_maxCommits limits) (mi_currentOid input) CURRENT []) (\<lambda>sides.
     bindR (side_roots repo (rl_maxCommits limits) (mi_incomingOid input) INCOMING sides) (\<lambda>sides1.
     Inr \<lparr>ab_ahead = length (filter (\<lambda>(_, side). side = CURRENT) sides1),
          ab_behind = length (filter (\<lambda>(_, side). side = INCOMING) sides1),
          ab_commits = length sides1\<rparr>))))"

datatype DivergenceRelationship = Identical | Ahead | Behind | Diverged | UnrelatedHistories | ShallowHistory

record DivergenceResult =
  dv_relationship :: DivergenceRelationship
  dv_ahead :: nat
  dv_behind :: nat

definition divergence :: "MergeRepository \<Rightarrow> jstring \<Rightarrow> jstring \<Rightarrow> DivergenceResult result" where
  "divergence repo current upstream =
     bindR (mr_revision repo current) (\<lambda>currentOid.
     bindR (mr_revision repo upstream) (\<lambda>upstreamOid.
     withReachableGraph repo \<lparr>mi_currentOid = currentOid, mi_incomingOid = upstreamOid, mi_limits = None\<rparr> (\<lambda>state limits.
       let ahead = length (filter (\<lambda>(_, node). gn_sides node = CURRENT) (gs_nodes state));
           behind = length (filter (\<lambda>(_, node). gn_sides node \<noteq> CURRENT \<and> gn_sides node = INCOMING) (gs_nodes state));
           related = list_ex (\<lambda>(_, node). gn_sides node \<noteq> CURRENT \<and> gn_sides node \<noteq> INCOMING) (gs_nodes state);
           relationship =
             (if one_sided_boundary state then ShallowHistory
              else if \<not> related then UnrelatedHistories
              else if ahead = 0 \<and> behind = 0 then Identical
              else if behind = 0 then Ahead
              else if ahead = 0 then Behind
              else Diverged)
       in Inr \<lparr>dv_relationship = relationship, dv_ahead = ahead, dv_behind = behind\<rparr>)))"

end
