(* ===== verification/MergeBaseCorrect.thy ===== *)
theory MergeBaseCorrect
  imports MergeBase
begin

text \<open>
  Correctness of the child-first pass of \<open>bestCommonAncestors\<close>: on a graph without cycles whose parents are all
  known it returns exactly the common commits no other common commit descends to, and on any other graph it throws.
  The invariant of the pass is over the set of commits processed so far. The graph the code builds is then shown to be
  that of the commits the two history walks deliver, which gives the decision of \<open>selectMergeBases\<close> in full.
\<close>

section \<open>The graph\<close>

definition edges :: "graph \<Rightarrow> (jstring \<times> jstring) set" where
  "edges nodes = {(u, v). \<exists>node. map_of nodes u = Some node \<and> v \<in> set (parent (gn_commit node)) \<and> map_of nodes v \<noteq> None}"

definition commons :: "graph \<Rightarrow> jstring set" where
  "commons nodes = {u. \<exists>node. map_of nodes u = Some node \<and> gn_sides node = BOTH}"

text \<open>The best common ancestors: common commits that are not proper ancestors of a common commit.\<close>

definition best :: "graph \<Rightarrow> jstring set" where
  "best nodes = {c \<in> commons nodes. \<not> (\<exists>d \<in> commons nodes. (d, c) \<in> (edges nodes)\<^sup>+)}"

definition parents_known :: "graph \<Rightarrow> jstring list \<Rightarrow> bool" where
  "parents_known nodes shallow \<longleftrightarrow>
     (\<forall>(oid, node) \<in> set nodes. \<forall>p \<in> set (parent (gn_commit node)). map_of nodes p \<noteq> None \<or> oid \<in> set shallow)"

definition keys :: "graph \<Rightarrow> jstring set" where
  "keys nodes = fst ` set nodes"

lemma keys_map_of: "u \<in> keys nodes \<longleftrightarrow> map_of nodes u \<noteq> None"
  by (simp add: keys_def map_of_eq_None_iff)

lemma finite_edges: "finite (edges nodes)"
proof -
  have "edges nodes \<subseteq> keys nodes \<times> keys nodes" by (auto simp: edges_def keys_map_of)
  then show ?thesis by (rule finite_subset) (simp add: keys_def)
qed

text \<open>The edges into a commit from commits that are not processed yet, with multiplicity.\<close>

definition open_edges :: "graph \<Rightarrow> jstring set \<Rightarrow> jstring \<Rightarrow> nat" where
  "open_edges nodes P v = (\<Sum>(u, node) \<leftarrow> filter (\<lambda>(u, _). u \<notin> P) nodes. count_list (parent (gn_commit node)) v)"

lemma open_edges_insert:
  assumes "distinct (map fst nodes)" "map_of nodes u = Some node" "u \<notin> P"
  shows "open_edges nodes P v = open_edges nodes (insert u P) v + count_list (parent (gn_commit node)) v"
  using assms
proof (induction nodes)
  case (Cons n nodes)
  obtain w m where n: "n = (w, m)" by (cases n) auto
  show ?case
  proof (cases "w = u")
    case True
    then have "filter (\<lambda>(x, _). x \<notin> insert u P) nodes = filter (\<lambda>(x, _). x \<notin> P) nodes"
      using Cons.prems(1) n by (intro filter_cong) (auto simp: image_iff)
    then show ?thesis using Cons.prems n True by (simp add: open_edges_def)
  next
    case False
    then show ?thesis using Cons n by (simp add: open_edges_def)
  qed
qed simp

lemma open_edges_zero:
  assumes "distinct (map fst nodes)" "v \<in> keys nodes"
  shows "open_edges nodes P v = 0 \<longleftrightarrow> (\<forall>u. (u, v) \<in> edges nodes \<longrightarrow> u \<in> P)"
proof -
  have "open_edges nodes P v = 0 \<longleftrightarrow> (\<forall>(u, node) \<in> set nodes. u \<notin> P \<longrightarrow> v \<notin> set (parent (gn_commit node)))"
    by (auto simp: open_edges_def count_list_0_iff)
  also have "\<dots> \<longleftrightarrow> (\<forall>u node. map_of nodes u = Some node \<longrightarrow> u \<notin> P \<longrightarrow> v \<notin> set (parent (gn_commit node)))"
    using map_of_eq_Some_iff [OF assms(1)] by auto
  finally show ?thesis using assms(2) by (auto simp: edges_def keys_map_of)
qed

section \<open>Counting the children\<close>

lemma map_of_update_same: "fst ` set (AList.update k v xs) = insert k (fst ` set xs)"
  by (induction xs) auto

lemma update_keys: "k \<in> fst ` set xs \<Longrightarrow> map fst (AList.update k v xs) = map fst xs"
  by (induction xs) auto

definition bumps :: "graph \<Rightarrow> jstring list \<Rightarrow> (jstring \<times> int) list \<Rightarrow> (jstring \<times> int) list \<Rightarrow> bool" where
  "bumps nodes ps counts counts' \<longleftrightarrow> map fst counts' = map fst counts \<and>
     (\<forall>v \<in> keys nodes. map_of counts' v = map_option (\<lambda>n. n + int (count_list ps v)) (map_of counts v))"

lemma bumps_trans: "bumps nodes ps a b \<Longrightarrow> bumps nodes qs b c \<Longrightarrow> bumps nodes (ps @ qs) a c"
  by (auto simp: bumps_def option.map_comp comp_def algebra_simps)

lemma count_parent_bumps:
  assumes "map fst counts = map fst nodes"
  shows "case count_parent nodes shallow oid p counts of
      Inl e \<Rightarrow> map_of nodes p = None \<and> oid \<notin> set shallow
    | Inr counts' \<Rightarrow> (map_of nodes p \<noteq> None \<or> oid \<in> set shallow) \<and> bumps nodes [p] counts counts'"
proof (cases "map_of nodes p")
  case None
  then show ?thesis by (auto simp: count_parent_def bumps_def keys_map_of option.map_ident)
next
  case (Some node)
  then have p: "p \<in> fst ` set counts" using assms by (metis keys_def keys_map_of list.set_map option.distinct(1))
  then obtain n where "map_of counts p = Some n" by (metis map_of_eq_None_iff not_None_eq)
  then show ?thesis using Some update_keys [OF p] by (auto simp: count_parent_def bumps_def update_conv' option.map_ident)
qed

lemma count_parents_bumps:
  "map fst counts = map fst nodes \<Longrightarrow>
   case foldR (count_parent nodes shallow oid) ps counts of
      Inl e \<Rightarrow> \<exists>p \<in> set ps. map_of nodes p = None \<and> oid \<notin> set shallow
    | Inr counts' \<Rightarrow> (\<forall>p \<in> set ps. map_of nodes p \<noteq> None \<or> oid \<in> set shallow) \<and> bumps nodes ps counts counts'"
proof (induction ps arbitrary: counts)
  case Nil
  then show ?case by (simp add: bumps_def option.map_ident)
next
  case (Cons p ps)
  show ?case
  proof (cases "count_parent nodes shallow oid p counts")
    case (Inl e)
    then show ?thesis using count_parent_bumps [OF Cons.prems, where shallow = shallow and oid = oid and p = p] by simp
  next
    case (Inr c1)
    then have c1: "map_of nodes p \<noteq> None \<or> oid \<in> set shallow" "bumps nodes [p] counts c1"
      using count_parent_bumps [OF Cons.prems, where shallow = shallow and oid = oid and p = p] by auto
    have "map fst c1 = map fst nodes" using c1(2) Cons.prems by (simp add: bumps_def)
    from Cons.IH [OF this] show ?thesis using Inr c1 bumps_trans [OF c1(2), of ps]
      by (auto split: sum.splits)
  qed
qed

lemma count_nodes_bumps:
  "map fst counts = map fst nodes \<Longrightarrow>
   case foldR (count_node nodes shallow) ns counts of
      Inl e \<Rightarrow> \<exists>(oid, node) \<in> set ns. \<exists>p \<in> set (parent (gn_commit node)). map_of nodes p = None \<and> oid \<notin> set shallow
    | Inr counts' \<Rightarrow>
        (\<forall>(oid, node) \<in> set ns. \<forall>p \<in> set (parent (gn_commit node)). map_of nodes p \<noteq> None \<or> oid \<in> set shallow)
        \<and> bumps nodes (concat (map (\<lambda>(oid, node). parent (gn_commit node)) ns)) counts counts'"
proof (induction ns arbitrary: counts)
  case Nil
  then show ?case by (simp add: bumps_def option.map_ident)
next
  case (Cons n ns)
  obtain oid node where n: "n = (oid, node)" by (cases n) auto
  note step = count_parents_bumps [OF Cons.prems, where shallow = shallow and oid = oid and ps = "parent (gn_commit node)"]
  show ?case
  proof (cases "foldR (count_parent nodes shallow oid) (parent (gn_commit node)) counts")
    case (Inl e)
    then show ?thesis using step n by (simp add: count_node_def)
  next
    case (Inr c1)
    then have c1: "bumps nodes (parent (gn_commit node)) counts c1" using step by simp
    have "map fst c1 = map fst nodes" using c1 Cons.prems by (simp add: bumps_def)
    from Cons.IH [OF this] show ?thesis using Inr step n bumps_trans [OF c1]
      by (auto simp: count_node_def split: sum.splits)
  qed
qed

lemma open_edges_all: "open_edges nodes {} v = count_list (concat (map (\<lambda>(oid, node). parent (gn_commit node)) nodes)) v"
  by (induction nodes) (auto simp: open_edges_def)

lemma child_counts_correct:
  assumes "distinct (map fst nodes)"
  shows "case child_counts nodes shallow of
      Inl e \<Rightarrow> \<not> parents_known nodes shallow
    | Inr counts \<Rightarrow> parents_known nodes shallow \<and> map fst counts = map fst nodes
        \<and> (\<forall>v \<in> keys nodes. map_of counts v = Some (int (open_edges nodes {} v)))"
proof -
  let ?zero = "map (\<lambda>(oid, _). (oid, 0)) nodes :: (jstring \<times> int) list"
  have z: "map fst ?zero = map fst nodes" by (induction nodes) auto
  have z0: "map_of ?zero v = Some 0" if "v \<in> keys nodes" for v
    using that by (induction nodes) (auto simp: keys_def)
  note run = count_nodes_bumps [OF z, where shallow = shallow and ns = nodes]
  show ?thesis
  proof (cases "child_counts nodes shallow")
    case (Inl e)
    then show ?thesis using run by (force simp: child_counts_def parents_known_def)
  next
    case (Inr counts)
    then show ?thesis using run by (auto simp: child_counts_def parents_known_def bumps_def z z0 open_edges_all)
  qed
qed

section \<open>One commit of the pass\<close>

definition pass_result ::
    "graph \<Rightarrow> jstring list \<Rightarrow> bool \<Rightarrow> (jstring \<Rightarrow> nat) \<Rightarrow> jstring list \<Rightarrow> PassState \<Rightarrow> PassState \<Rightarrow> bool" where
  "pass_result nodes common b c ps s t \<longleftrightarrow>
     map fst (ps_counts t) = map fst nodes
     \<and> (\<forall>v \<in> keys nodes. map_of (ps_counts t) v = Some (int (c v - count_list ps v)))
     \<and> distinct (ps_ready t)
     \<and> set (ps_ready t) = set (ps_ready s) \<union> {v \<in> keys nodes. v \<in> set ps \<and> c v = count_list ps v}
     \<and> set (ps_descendant t) = set (ps_descendant s) \<union> (if b then set ps \<inter> keys nodes else {})
     \<and> set (ps_dominated t) = set (ps_dominated s) \<union> (if b then set ps \<inter> keys nodes \<inter> set common else {})
     \<and> ps_processed t = ps_processed s"

lemma pass_parent_absent: "p \<notin> keys nodes \<Longrightarrow> map fst (ps_counts s) = map fst nodes \<Longrightarrow> pass_parent common b p s = s"
proof -
  assume "p \<notin> keys nodes" "map fst (ps_counts s) = map fst nodes"
  then have "map_of (ps_counts s) p = None" by (metis keys_def list.set_map map_of_eq_None_iff)
  then show ?thesis by (simp add: pass_parent_def)
qed

lemma pass_parent_present:
  assumes "p \<in> keys nodes" "map fst (ps_counts s) = map fst nodes" "map_of (ps_counts s) p = Some (int (c p))" "1 \<le> c p"
    and t_def: "t = pass_parent common b p s"
  shows "map fst (ps_counts t) = map fst nodes" "map_of (ps_counts t) = (map_of (ps_counts s))(p \<mapsto> int (c p - 1))"
    "ps_ready t = ps_ready s @ (if c p = 1 then [p] else [])"
    "set (ps_descendant t) = set (ps_descendant s) \<union> (if b then {p} else {})"
    "set (ps_dominated t) = set (ps_dominated s) \<union> (if b \<and> p \<in> set common then {p} else {})"
    "ps_processed t = ps_processed s"
proof -
  have "p \<in> fst ` set (ps_counts s)" using assms(1,2) by (metis keys_def list.set_map)
  then have "map fst (AList.update p x (ps_counts s)) = map fst nodes" for x using update_keys assms(2) by metis
  then show "map fst (ps_counts t) = map fst nodes" "map_of (ps_counts t) = (map_of (ps_counts s))(p \<mapsto> int (c p - 1))"
    "ps_ready t = ps_ready s @ (if c p = 1 then [p] else [])"
    "set (ps_descendant t) = set (ps_descendant s) \<union> (if b then {p} else {})"
    "set (ps_dominated t) = set (ps_dominated s) \<union> (if b \<and> p \<in> set common then {p} else {})"
    "ps_processed t = ps_processed s"
    using assms(3,4) by (auto simp: t_def pass_parent_def Let_def update_conv' of_nat_diff)
qed

lemma pass_parents:
  "map fst (ps_counts s) = map fst nodes \<Longrightarrow> \<forall>v \<in> keys nodes. map_of (ps_counts s) v = Some (int (c v)) \<Longrightarrow>
   \<forall>v \<in> keys nodes. count_list ps v \<le> c v \<Longrightarrow> distinct (ps_ready s) \<Longrightarrow> set (ps_ready s) \<inter> set ps = {} \<Longrightarrow>
   pass_result nodes common b c ps s (fold (pass_parent common b) ps s)"
proof (induction ps arbitrary: s c)
  case Nil
  then show ?case by (auto simp: pass_result_def)
next
  case (Cons p ps)
  show ?case
  proof (cases "p \<in> keys nodes")
    case False
    have "pass_result nodes common b c ps s (fold (pass_parent common b) ps s)"
      using Cons.prems False by (intro Cons.IH) (auto split: if_splits)
    then show ?thesis using False pass_parent_absent [OF False Cons.prems(1)]
      by (auto simp: pass_result_def)
  next
    case True
    let ?c = "c(p := c p - 1)"
    let ?s = "pass_parent common b p s"
    let ?t = "fold (pass_parent common b) ps ?s"
    have c: "count_list ps p + 1 \<le> c p" using Cons.prems(3) True by fastforce
    have t': "map fst (ps_counts ?s) = map fst nodes" "map_of (ps_counts ?s) = (map_of (ps_counts s))(p \<mapsto> int (c p - 1))"
      "ps_ready ?s = ps_ready s @ (if c p = 1 then [p] else [])"
      "set (ps_descendant ?s) = set (ps_descendant s) \<union> (if b then {p} else {})"
      "set (ps_dominated ?s) = set (ps_dominated s) \<union> (if b \<and> p \<in> set common then {p} else {})"
      "ps_processed ?s = ps_processed s"
      using pass_parent_present [OF True Cons.prems(1) _ _ refl, of c common b] Cons.prems(2) True c by auto
    have "pass_result nodes common b ?c ps ?s (fold (pass_parent common b) ps ?s)"
    proof (rule Cons.IH)
      show "\<forall>v \<in> keys nodes. map_of (ps_counts ?s) v = Some (int (?c v))" using Cons.prems(2) t'(2) by simp
      show "\<forall>v \<in> keys nodes. count_list ps v \<le> ?c v" using Cons.prems(3) c by (auto split: if_splits)
      show "distinct (ps_ready ?s)" "set (ps_ready ?s) \<inter> set ps = {}"
        using Cons.prems(4,5) c t'(3) count_list_0_iff [of ps p] by (auto split: if_splits)
    qed (rule t'(1))
    then have r: "map fst (ps_counts ?t) = map fst nodes"
      "\<forall>v \<in> keys nodes. map_of (ps_counts ?t) v = Some (int (?c v - count_list ps v))" "distinct (ps_ready ?t)"
      "set (ps_ready ?t) = set (ps_ready ?s) \<union> {v \<in> keys nodes. v \<in> set ps \<and> ?c v = count_list ps v}"
      "set (ps_descendant ?t) = set (ps_descendant ?s) \<union> (if b then set ps \<inter> keys nodes else {})"
      "set (ps_dominated ?t) = set (ps_dominated ?s) \<union> (if b then set ps \<inter> keys nodes \<inter> set common else {})"
      "ps_processed ?t = ps_processed ?s"
      unfolding pass_result_def by blast+
    have "\<forall>v \<in> keys nodes. map_of (ps_counts ?t) v = Some (int (c v - count_list (p # ps) v))" using r(2) by auto
    moreover have "set (ps_ready ?t) = set (ps_ready s) \<union> {v \<in> keys nodes. v \<in> set (p # ps) \<and> c v = count_list (p # ps) v}"
      unfolding r(4) t'(3) using True c count_list_0_iff [of ps p] by (auto split: if_splits)
    ultimately show ?thesis using r t' True by (auto simp: pass_result_def)
  qed
qed

section \<open>The invariant of the pass\<close>

definition descends :: "graph \<Rightarrow> jstring \<Rightarrow> bool" where
  "descends nodes u \<longleftrightarrow> (\<exists>d \<in> commons nodes. (d, u) \<in> (edges nodes)\<^sup>*)"

definition pass_inv :: "graph \<Rightarrow> jstring set \<Rightarrow> PassState \<Rightarrow> bool" where
  "pass_inv nodes P s \<longleftrightarrow>
     P \<subseteq> keys nodes \<and> map fst (ps_counts s) = map fst nodes
     \<and> (\<forall>v \<in> keys nodes. map_of (ps_counts s) v = Some (int (open_edges nodes P v)))
     \<and> distinct (ps_ready s) \<and> set (ps_ready s) = {v \<in> keys nodes. v \<notin> P \<and> open_edges nodes P v = 0}
     \<and> ps_processed s = card P
     \<and> (\<exists>rank :: jstring \<Rightarrow> nat. (\<forall>v \<in> P. rank v < card P) \<and> (\<forall>w v. (w, v) \<in> edges nodes \<and> v \<in> P \<longrightarrow> w \<in> P \<and> rank w < rank v))
     \<and> set (ps_descendant s) = {v. \<exists>u \<in> P. (u, v) \<in> edges nodes \<and> descends nodes u}
     \<and> set (ps_dominated s) = set (ps_descendant s) \<inter> commons nodes"

lemma common_commits_set: "distinct (map fst nodes) \<Longrightarrow> set (common_commits nodes) = commons nodes"
  by (force simp: common_commits_def commons_def)

lemma commons_keys: "commons nodes \<subseteq> keys nodes"
  by (auto simp: commons_def keys_map_of)

text \<open>A commit is ready when every commit above it was processed; then it descends from a common commit exactly when
  the pass has marked it.\<close>

lemma ready_propagates:
  assumes "\<forall>w. (w, u) \<in> edges nodes \<longrightarrow> w \<in> P"
  shows "(u \<in> commons nodes \<or> (\<exists>w \<in> P. (w, u) \<in> edges nodes \<and> descends nodes w)) \<longleftrightarrow> descends nodes u"
proof
  assume "descends nodes u"
  then obtain d where d: "d \<in> commons nodes" "(d, u) \<in> (edges nodes)\<^sup>*" by (auto simp: descends_def)
  from d(2) show "u \<in> commons nodes \<or> (\<exists>w \<in> P. (w, u) \<in> edges nodes \<and> descends nodes w)"
  proof (cases rule: rtranclE)
    case base
    then show ?thesis using d(1) by simp
  next
    case (step w)
    then show ?thesis using d(1) assms by (auto simp: descends_def)
  qed
next
  assume "u \<in> commons nodes \<or> (\<exists>w \<in> P. (w, u) \<in> edges nodes \<and> descends nodes w)"
  then show "descends nodes u" by (auto simp: descends_def intro: rtrancl_into_rtrancl)
qed

lemma set_butlast: "distinct xs \<Longrightarrow> xs \<noteq> [] \<Longrightarrow> set (butlast xs) = set xs - {last xs}"
  by (cases xs rule: rev_cases) auto

definition above_closed :: "graph \<Rightarrow> jstring set \<Rightarrow> bool" where
  "above_closed nodes P \<longleftrightarrow> (\<forall>w v. (w, v) \<in> edges nodes \<and> v \<in> P \<longrightarrow> w \<in> P)"

lemma ready_after:
  assumes "distinct (map fst nodes)" "map_of nodes u = Some node" "u \<notin> P" "open_edges nodes P u = 0" "above_closed nodes P"
  shows "{v \<in> keys nodes. v \<notin> P \<and> open_edges nodes P v = 0} - {u}
       \<union> {v \<in> keys nodes. v \<in> set (parent (gn_commit node)) \<and> open_edges nodes P v = count_list (parent (gn_commit node)) v}
     = {v \<in> keys nodes. v \<notin> insert u P \<and> open_edges nodes (insert u P) v = 0}"
proof -
  let ?ps = "parent (gn_commit node)"
  have opened: "open_edges nodes P v = open_edges nodes (insert u P) v + count_list ?ps v" for v
    by (rule open_edges_insert [OF assms(1-3)])
  have new: "v \<notin> insert u P" if "v \<in> set ?ps" "v \<in> keys nodes" for v
  proof -
    have "(u, v) \<in> edges nodes" using that assms(2) by (auto simp: edges_def keys_map_of)
    moreover have "count_list ?ps v \<noteq> 0" using that(1) by (simp add: count_list_0_iff)
    ultimately show ?thesis using assms(3-5) opened [of u] by (auto simp: above_closed_def)
  qed
  then show ?thesis using opened by (auto simp: count_list_0_iff)
qed

text \<open>The commit taken: not processed, with every commit above it processed.\<close>

lemma taken_commit:
  assumes "distinct (map fst nodes)" "pass_inv nodes P s" "ps_ready s \<noteq> []" "u = last (ps_ready s)"
  shows "u \<in> keys nodes" "u \<notin> P" "open_edges nodes P u = 0" "\<forall>w. (w, u) \<in> edges nodes \<longrightarrow> w \<in> P"
    "set (butlast (ps_ready s)) = {v \<in> keys nodes. v \<notin> P \<and> open_edges nodes P v = 0} - {u}"
proof -
  have inv: "distinct (ps_ready s)" "set (ps_ready s) = {v \<in> keys nodes. v \<notin> P \<and> open_edges nodes P v = 0}"
    using assms(2) unfolding pass_inv_def by blast+
  show u: "u \<in> keys nodes" "u \<notin> P" "open_edges nodes P u = 0" using inv(2) assms(3,4) last_in_set by auto
  show "\<forall>w. (w, u) \<in> edges nodes \<longrightarrow> w \<in> P" using open_edges_zero [OF assms(1) u(1)] u(3) by blast
  show "set (butlast (ps_ready s)) = {v \<in> keys nodes. v \<notin> P \<and> open_edges nodes P v = 0} - {u}"
    using set_butlast [OF inv(1) assms(3)] assms(4) inv(2) by simp
qed

lemma pass_step_result:
  assumes "distinct (map fst nodes)" "pass_inv nodes P s" "ps_ready s \<noteq> []" "u = last (ps_ready s)" "map_of nodes u = Some node"
    and s1: "s1 = s\<lparr>ps_ready := butlast (ps_ready s), ps_processed := ps_processed s + 1\<rparr>"
  shows "pass_result nodes common b (open_edges nodes P) (parent (gn_commit node)) s1
     (fold (pass_parent common b) (parent (gn_commit node)) s1)"
proof (rule pass_parents)
  note u = taken_commit [OF assms(1-4)]
  have opened: "open_edges nodes P v = open_edges nodes (insert u P) v + count_list (parent (gn_commit node)) v" for v
    by (rule open_edges_insert [OF assms(1,5) u(2)])
  show "\<forall>v \<in> keys nodes. count_list (parent (gn_commit node)) v \<le> open_edges nodes P v" using opened by simp
  show "set (ps_ready s1) \<inter> set (parent (gn_commit node)) = {}"
    using u(5) opened count_list_0_iff by (fastforce simp: s1)
  show "map fst (ps_counts s1) = map fst nodes" "distinct (ps_ready s1)"
    "\<forall>v \<in> keys nodes. map_of (ps_counts s1) v = Some (int (open_edges nodes P v))"
    using assms(2) by (simp_all add: s1 pass_inv_def distinct_butlast)
qed

lemma pass_step:
  assumes "distinct (map fst nodes)" "pass_inv nodes P s" "ps_ready s \<noteq> []" "u = last (ps_ready s)" "map_of nodes u = Some node"
    and s1: "s1 = s\<lparr>ps_ready := butlast (ps_ready s), ps_processed := ps_processed s + 1\<rparr>"
    and b_def: "b \<longleftrightarrow> u \<in> set (common_commits nodes) \<or> u \<in> set (ps_descendant s)"
    and t_def: "t = fold (pass_parent (common_commits nodes) b) (parent (gn_commit node)) s1"
  shows "pass_inv nodes (insert u P) t"
proof -
  let ?ps = "parent (gn_commit node)"
  obtain rank where inv: "P \<subseteq> keys nodes" "ps_processed s = card P" "\<forall>v \<in> P. rank v < card P"
    "\<forall>w v. (w, v) \<in> edges nodes \<and> v \<in> P \<longrightarrow> w \<in> P \<and> rank w < rank v"
    "set (ps_descendant s) = {v. \<exists>u \<in> P. (u, v) \<in> edges nodes \<and> descends nodes u}"
    "set (ps_dominated s) = set (ps_descendant s) \<inter> commons nodes"
    using assms(2) unfolding pass_inv_def by (elim conjE exE) (rule that)
  note u = taken_commit [OF assms(1-4)]
  have fin: "finite P" using inv(1) by (rule finite_subset) (simp add: keys_def)
  have out: "(u, v) \<in> edges nodes \<longleftrightarrow> v \<in> set ?ps \<and> v \<in> keys nodes" for v using assms(5) by (auto simp: edges_def keys_map_of)
  note opened = open_edges_insert [OF assms(1,5) u(2)]
  have t: "map fst (ps_counts t) = map fst nodes"
    "\<forall>v \<in> keys nodes. map_of (ps_counts t) v = Some (int (open_edges nodes P v - count_list ?ps v))" "distinct (ps_ready t)"
    "set (ps_ready t) = set (ps_ready s1) \<union> {v \<in> keys nodes. v \<in> set ?ps \<and> open_edges nodes P v = count_list ?ps v}"
    "set (ps_descendant t) = set (ps_descendant s) \<union> (if b then set ?ps \<inter> keys nodes else {})"
    "set (ps_dominated t) = set (ps_dominated s) \<union> (if b then set ?ps \<inter> keys nodes \<inter> commons nodes else {})"
    "ps_processed t = ps_processed s + 1"
    using pass_step_result [OF assms(1-5) s1, of "common_commits nodes" b] common_commits_set [OF assms(1)]
    unfolding pass_result_def t_def [symmetric] by (simp_all add: s1)
  have b: "b \<longleftrightarrow> descends nodes u"
    using ready_propagates [OF u(4)] inv(5) common_commits_set [OF assms(1)] by (auto simp: b_def)
  have "set (ps_descendant t) = {v. \<exists>w \<in> insert u P. (w, v) \<in> edges nodes \<and> descends nodes w}"
    using t(5) inv(5) b out by auto
  moreover have "set (ps_ready t) = {v \<in> keys nodes. v \<notin> insert u P \<and> open_edges nodes (insert u P) v = 0}"
    unfolding t(4) using ready_after [OF assms(1,5) u(2,3)] inv(4) u(5) by (simp add: above_closed_def s1)
  moreover have "set (ps_dominated t) = set (ps_descendant t) \<inter> commons nodes" using t(5,6) inv(6) by auto
  moreover have "\<exists>rank' :: jstring \<Rightarrow> nat. (\<forall>v \<in> insert u P. rank' v < card (insert u P))
      \<and> (\<forall>w v. (w, v) \<in> edges nodes \<and> v \<in> insert u P \<longrightarrow> w \<in> insert u P \<and> rank' w < rank' v)"
    by (rule exI [of _ "rank(u := card P)"]) (use inv(3,4) u(2,4) fin in \<open>auto simp: less_SucI\<close>)
  ultimately show ?thesis unfolding pass_inv_def using inv(1,2) t u(1,2) fin opened by (auto simp: card_insert_disjoint)
qed

lemma pass_loop_inv:
  "distinct (map fst nodes) \<Longrightarrow> pass_inv nodes P s \<Longrightarrow>
     \<exists>Q t. pass_loop nodes (common_commits nodes) s = Inr t \<and> pass_inv nodes Q t \<and> ps_ready t = []"
proof (induction nodes "common_commits nodes" s arbitrary: P rule: pass_loop.induct)
  case (1 nodes s)
  show ?case
  proof (cases "ps_ready s = []")
    case True
    then show ?thesis using 1(3) by (subst pass_loop.simps) auto
  next
    case False
    let ?u = "last (ps_ready s)"
    obtain node where node: "map_of nodes ?u = Some node"
      using taken_commit(1) [OF "1.prems" False refl] by (auto simp: keys_map_of)
    note step = pass_step [OF "1.prems" False refl node refl refl refl]
    show ?thesis using "1.hyps" [OF _ refl node refl refl "1.prems"(1) step] False node
      by (subst pass_loop.simps) (simp add: Let_def)
  qed
qed

interpretation oids: comparator compareOids
proof
  fix a b c :: jstring
  show "compareOids b a = - compareOids a b" using lex_cmp_swap [of a b] by (auto simp: compareOids_def)
  show "compareOids a b \<le> 0 \<Longrightarrow> compareOids b c \<le> 0 \<Longrightarrow> compareOids a c \<le> 0"
    using lex_cmp_trans [of a b c] by (auto simp: compareOids_def split: if_splits)
qed

lemma sort_oids_strict: "distinct xs \<Longrightarrow> sorted_wrt (\<lambda>a b. compareOids a b < 0) (sort_cmp compareOids xs)"
proof -
  assume "distinct xs"
  then have "distinct (sort_cmp compareOids xs)" by (metis mset_eq_imp_distinct_iff sort_cmp_mset)
  then show ?thesis using oids.sort_sorted [of xs]
    by (induction "sort_cmp compareOids xs" rule: list.induct)
      (auto simp: sorted_wrt_iff_nth_less compareOids_def nth_eq_iff_index_eq split: if_splits)
qed

lemma sorted_oids_distinct:
  assumes "sorted_wrt (\<lambda>a b. compareOids a b < 0) xs"
  shows "distinct xs"
proof -
  have "compareOids a a = 0" for a by (simp add: compareOids_def)
  then show ?thesis using assms by (induction xs) force+
qed

lemma pass_start:
  assumes "distinct (map fst nodes)" "map fst counts = map fst nodes"
    "\<forall>v \<in> keys nodes. map_of counts v = Some (int (open_edges nodes {} v))"
  shows "pass_inv nodes {} \<lparr>ps_ready = map fst (filter (\<lambda>(_, children). children = 0) counts), ps_counts = counts,
     ps_descendant = [], ps_dominated = [], ps_processed = 0\<rparr>"
proof -
  have d: "distinct (map fst counts)" using assms(1,2) by simp
  have k: "v \<in> keys nodes \<longleftrightarrow> v \<in> fst ` set counts" for v using assms(2) by (metis keys_def list.set_map)
  have "v \<in> fst ` set (filter (\<lambda>(_, children). children = 0) counts) \<longleftrightarrow> v \<in> keys nodes \<and> open_edges nodes {} v = 0" for v
  proof -
    have "v \<in> fst ` set (filter (\<lambda>(_, children). children = 0) counts) \<longleftrightarrow> map_of counts v = Some 0"
      using d by (force simp: map_of_eq_Some_iff)
    moreover have "map_of counts v = None" if "v \<notin> keys nodes" using that k by (simp add: map_of_eq_None_iff)
    ultimately show ?thesis using assms(3) by (cases "v \<in> keys nodes") auto
  qed
  moreover have "distinct (map fst (filter (\<lambda>(_, children). children = 0) counts))" using d by (rule distinct_map_filter)
  ultimately show ?thesis using assms(2,3) by (auto simp: pass_inv_def)
qed

lemma pass_end:
  assumes "distinct (map fst nodes)" "pass_inv nodes Q t" "ps_ready t = []"
  shows "ps_processed t = length nodes \<longleftrightarrow> acyclic (edges nodes)"
    "ps_processed t = length nodes \<Longrightarrow> set (ps_dominated t) = {c \<in> commons nodes. \<exists>d \<in> commons nodes. (d, c) \<in> (edges nodes)\<^sup>+}"
proof -
  let ?E = "edges nodes"
  obtain rank where rank: "\<forall>w v. (w, v) \<in> ?E \<and> v \<in> Q \<longrightarrow> w \<in> Q \<and> rank w < (rank v :: nat)"
    using assms(2) unfolding pass_inv_def by blast
  have inv: "Q \<subseteq> keys nodes" "ps_processed t = card Q"
    "set (ps_descendant t) = {v. \<exists>u \<in> Q. (u, v) \<in> ?E \<and> descends nodes u}" "set (ps_dominated t) = set (ps_descendant t) \<inter> commons nodes"
    "\<forall>v \<in> keys nodes. v \<notin> Q \<longrightarrow> open_edges nodes Q v \<noteq> 0"
    using assms(2,3) unfolding pass_inv_def by auto
  have "card (keys nodes) = length nodes" using distinct_card [OF assms(1)] by (simp add: keys_def)
  then have all: "ps_processed t = length nodes \<longleftrightarrow> Q = keys nodes"
    using inv(1,2) card_subset_eq [of "keys nodes" Q] by (auto simp: keys_def)
  have dom: "(w, v) \<in> ?E \<Longrightarrow> w \<in> keys nodes \<and> v \<in> keys nodes" for w v by (auto simp: edges_def keys_map_of)
  show "ps_processed t = length nodes \<longleftrightarrow> acyclic ?E"
  proof
    assume "ps_processed t = length nodes"
    then have "?E \<subseteq> measure rank" using rank all dom by auto
    then show "acyclic ?E" using wf_acyclic [OF wf_subset [OF wf_measure]] by blast
  next
    assume "acyclic ?E"
    then have wf: "wf ?E" using finite_acyclic_wf [OF finite_edges] by blast
    show "ps_processed t = length nodes"
    proof (rule ccontr)
      assume "\<not> ?thesis"
      then obtain v where "v \<in> keys nodes - Q" using inv(1) all by auto
      from wfE_min [OF wf this] obtain z where "z \<in> keys nodes - Q" "\<And>y. (y, z) \<in> ?E \<Longrightarrow> y \<notin> keys nodes - Q" by blast
      then show False using inv(5) open_edges_zero [OF assms(1), of z Q] dom by blast
    qed
  qed
  show "set (ps_dominated t) = {c \<in> commons nodes. \<exists>d \<in> commons nodes. (d, c) \<in> ?E\<^sup>+}" if "ps_processed t = length nodes"
  proof -
    have "(\<exists>u \<in> Q. (u, v) \<in> ?E \<and> descends nodes u) \<longleftrightarrow> (\<exists>d \<in> commons nodes. (d, v) \<in> ?E\<^sup>+)" for v
    proof
      assume "\<exists>d \<in> commons nodes. (d, v) \<in> ?E\<^sup>+"
      then show "\<exists>u \<in> Q. (u, v) \<in> ?E \<and> descends nodes u" using that all dom by (meson descends_def tranclD2)
    qed (auto simp: descends_def intro: rtrancl_into_trancl1)
    then show ?thesis using inv(3,4) by auto
  qed
qed

section \<open>The graph of both histories\<close>

definition history :: "MergeRepository \<Rightarrow> jstring \<Rightarrow> nat \<Rightarrow> jstring set" where
  "history repo root maxCommits = fst ` set (fst (mr_walk repo root maxCommits))"

lemma update_distinct: "distinct (map fst xs) \<Longrightarrow> distinct (map fst (AList.update k v xs))"
  by (rule distinct_update)

lemma reachable_steps:
  "foldR (reachable_step side m) entries nodes = Inr nodes' \<Longrightarrow> distinct (map fst nodes) \<Longrightarrow>
     distinct (map fst nodes') \<and> (\<forall>u. map_option gn_sides (map_of nodes' u) =
       (if u \<in> fst ` set entries then Some ((case map_of nodes u of None \<Rightarrow> 0 | Some n \<Rightarrow> gn_sides n) OR side)
        else map_option gn_sides (map_of nodes u)))"
proof (induction entries arbitrary: nodes)
  case (Cons entry entries)
  obtain oid commit where e: "entry = (oid, commit)" by (cases entry) auto
  obtain n1 where n1: "reachable_step side m entry nodes = Inr n1" "foldR (reachable_step side m) entries n1 = Inr nodes'"
    using Cons.prems(1) by auto
  obtain node where node: "n1 = AList.update oid node nodes"
    "gn_sides node = (case map_of nodes oid of None \<Rightarrow> 0 | Some n \<Rightarrow> gn_sides n) OR side"
    using n1(1) e by (auto simp: reachable_step_def split: option.splits if_splits)
  have ih: "distinct (map fst nodes') \<and> (\<forall>u. map_option gn_sides (map_of nodes' u) =
       (if u \<in> fst ` set entries then Some ((case map_of n1 u of None \<Rightarrow> 0 | Some n \<Rightarrow> gn_sides n) OR side)
        else map_option gn_sides (map_of n1 u)))"
    using Cons.IH [OF n1(2)] Cons.prems(2) node(1) by (simp add: update_distinct)
  have "map_of n1 u = (if u = oid then Some node else map_of nodes u)" for u using node(1) by (simp add: update_conv')
  then show ?case using ih node(2) e by (auto simp: or.assoc)
qed simp

lemma both_histories:
  assumes "addReachable repo c CURRENT limits [] = Inr n1" "addReachable repo i INCOMING limits n1 = Inr nodes"
  shows "distinct (map fst nodes)" "keys nodes = history repo c (rl_maxCommits limits) \<union> history repo i (rl_maxCommits limits)"
    "commons nodes = history repo c (rl_maxCommits limits) \<inter> history repo i (rl_maxCommits limits)"
    "map_of nodes u \<noteq> None \<Longrightarrow> gn_sides (the (map_of nodes u)) = BOTH \<longleftrightarrow> u \<in> commons nodes"
proof -
  let ?m = "rl_maxCommits limits"
  obtain cs ins where w: "fst (mr_walk repo c ?m) = cs" "fst (mr_walk repo i ?m) = ins" by simp
  have run: "foldR (reachable_step CURRENT ?m) cs [] = Inr n1" "foldR (reachable_step INCOMING ?m) ins n1 = Inr nodes"
    using assms w by (auto simp: addReachable_def split: prod.splits option.splits)
  have one: "distinct (map fst n1)" "\<And>u. map_option gn_sides (map_of n1 u) = (if u \<in> fst ` set cs then Some 1 else None)"
    using reachable_steps [OF run(1)] by (simp_all add: CURRENT_def)
  have two: "distinct (map fst nodes)" "\<And>u. map_option gn_sides (map_of nodes u) =
      (if u \<in> fst ` set ins then Some ((case map_of n1 u of None \<Rightarrow> 0 | Some n \<Rightarrow> gn_sides n) OR 2)
        else map_option gn_sides (map_of n1 u))"
    using reachable_steps [OF run(2) one(1)] by (simp_all add: INCOMING_def)
  define C I where "C = fst ` set cs" and "I = fst ` set ins"
  have h: "history repo c ?m = C" "history repo i ?m = I" by (simp_all add: history_def w C_def I_def)
  have sides: "map_option gn_sides (map_of nodes u) =
      (if u \<in> C then Some (if u \<in> I then 3 else 1) else if u \<in> I then Some 2 else None)" for u
    using one(2) [of u] two(2) [of u] unfolding C_def I_def by (auto split: if_splits option.splits)
  have both: "BOTH = 3" by (simp add: BOTH_def CURRENT_def INCOMING_def)
  show "distinct (map fst nodes)" by (fact two(1))
  have "u \<in> keys nodes \<longleftrightarrow> u \<in> C \<union> I" for u
  proof -
    have "u \<in> keys nodes \<longleftrightarrow> map_option gn_sides (map_of nodes u) \<noteq> None" by (simp add: keys_map_of)
    then show ?thesis unfolding sides by simp
  qed
  then show "keys nodes = history repo c ?m \<union> history repo i ?m" unfolding h by blast
  have "u \<in> commons nodes \<longleftrightarrow> u \<in> C \<inter> I" for u
  proof -
    have "u \<in> commons nodes \<longleftrightarrow> map_option gn_sides (map_of nodes u) = Some BOTH" by (auto simp: commons_def)
    then show ?thesis unfolding sides both by simp
  qed
  then show "commons nodes = history repo c ?m \<inter> history repo i ?m" unfolding h by blast
  show "gn_sides (the (map_of nodes u)) = BOTH \<longleftrightarrow> u \<in> commons nodes" if "map_of nodes u \<noteq> None"
    using that by (auto simp: commons_def)
qed

text \<open>
  The commits the two walks deliver, and what they say by themselves: parent edges between delivered
  commits, which parents are accounted for, and the best of a set of commits.
\<close>

definition walked :: "MergeRepository \<Rightarrow> MergeBaseInput \<Rightarrow> nat \<Rightarrow> (jstring \<times> CommitData) set" where
  "walked repo input m =
     set (fst (mr_walk repo (mi_currentOid input) m)) \<union> set (fst (mr_walk repo (mi_incomingOid input) m))"

definition walk_edges :: "(jstring \<times> CommitData) set \<Rightarrow> (jstring \<times> jstring) set" where
  "walk_edges W = {(u, v). v \<in> fst ` W \<and> (\<exists>commit. (u, commit) \<in> W \<and> v \<in> set (parent commit))}"

definition walk_complete :: "(jstring \<times> CommitData) set \<Rightarrow> jstring set \<Rightarrow> bool" where
  "walk_complete W shallow \<longleftrightarrow>
     (\<forall>(oid, commit) \<in> W. oid \<in> shallow \<or> set (parent commit) \<subseteq> fst ` W) \<and> acyclic (walk_edges W)"

definition best_of :: "(jstring \<times> CommitData) set \<Rightarrow> jstring set \<Rightarrow> jstring set" where
  "best_of W S = {x \<in> S. \<not> (\<exists>d \<in> S. (d, x) \<in> (walk_edges W)\<^sup>+)}"

lemma same_from_eq: "length ls = length rs \<Longrightarrow> same_from ls rs \<longleftrightarrow> ls = rs"
  by (induction ls rs rule: same_from.induct) auto

lemma sameParents_eq: "sameParents ls rs \<longleftrightarrow> ls = rs"
  by (auto simp: sameParents_def same_from_eq)

text \<open>Every commit keeps the parents it was first met with, and is only met with those.\<close>

lemma reachable_steps_commits:
  "foldR (reachable_step side m) entries nodes = Inr nodes' \<Longrightarrow>
     (\<forall>u node. map_of nodes u = Some node \<longrightarrow>
        (\<exists>node'. map_of nodes' u = Some node' \<and> gn_commit node' = gn_commit node))
     \<and> (\<forall>(u, commit) \<in> set entries.
        \<exists>node'. map_of nodes' u = Some node' \<and> parent (gn_commit node') = parent commit)"
proof (induction entries arbitrary: nodes)
  case (Cons entry entries)
  obtain oid commit where e: "entry = (oid, commit)" by (cases entry) auto
  obtain n1 where n1: "reachable_step side m entry nodes = Inr n1" "foldR (reachable_step side m) entries n1 = Inr nodes'"
    using Cons.prems by auto
  obtain node where node: "n1 = AList.update oid node nodes" "parent (gn_commit node) = parent commit"
    "\<And>old. map_of nodes oid = Some old \<Longrightarrow> gn_commit node = gn_commit old"
    using n1(1) e by (auto simp: reachable_step_def sameParents_eq split: option.splits if_splits)
  have at: "map_of n1 u = (if u = oid then Some node else map_of nodes u)" for u using node(1) by (simp add: update_conv')
  note ih = Cons.IH [OF n1(2)]
  have kept: "\<exists>node'. map_of nodes' u = Some node' \<and> gn_commit node' = gn_commit x" if "map_of n1 u = Some x" for u x
    using ih that by blast
  have "\<exists>node'. map_of nodes' u = Some node' \<and> gn_commit node' = gn_commit old" if "map_of nodes u = Some old" for u old
    using kept [of u "if u = oid then node else old"] node(3) [of old] at [of u] that by (cases "u = oid") auto
  moreover have "\<exists>node'. map_of nodes' oid = Some node' \<and> parent (gn_commit node') = parent commit"
    using kept [of oid node] at [of oid] node(2) by auto
  ultimately show ?case using ih e by auto
qed simp

lemma walked_commits:
  assumes "addReachable repo (mi_currentOid input) CURRENT limits [] = Inr n1"
    "addReachable repo (mi_incomingOid input) INCOMING limits n1 = Inr nodes"
    "(u, commit) \<in> walked repo input (rl_maxCommits limits)"
  shows "\<exists>node. map_of nodes u = Some node \<and> parent (gn_commit node) = parent commit"
proof -
  let ?m = "rl_maxCommits limits"
  have run: "foldR (reachable_step CURRENT ?m) (fst (mr_walk repo (mi_currentOid input) ?m)) [] = Inr n1"
    "foldR (reachable_step INCOMING ?m) (fst (mr_walk repo (mi_incomingOid input) ?m)) n1 = Inr nodes"
    using assms(1,2) by (auto simp: addReachable_def split: prod.splits option.splits)
  show ?thesis
    using assms(3) reachable_steps_commits [OF run(1)] reachable_steps_commits [OF run(2)]
    unfolding walked_def by fastforce
qed

lemma fst_walked:
  "fst ` walked repo input m = history repo (mi_currentOid input) m \<union> history repo (mi_incomingOid input) m"
  by (auto simp: walked_def history_def)

text \<open>The graph the code builds is the graph of the two walks.\<close>

lemma graph_of_walks:
  assumes add: "addReachable repo (mi_currentOid input) CURRENT limits [] = Inr n1"
    "addReachable repo (mi_incomingOid input) INCOMING limits n1 = Inr nodes"
    and W: "W = walked repo input (rl_maxCommits limits)"
  shows "edges nodes = walk_edges W"
    and "parents_known nodes shallow \<longleftrightarrow> (\<forall>(oid, commit) \<in> W. oid \<in> set shallow \<or> set (parent commit) \<subseteq> fst ` W)"
proof -
  note g = both_histories [OF add]
  have keys: "keys nodes = fst ` W" unfolding W fst_walked by (rule g(2))
  have in_keys: "map_of nodes u \<noteq> None \<longleftrightarrow> u \<in> fst ` W" for u using keys keys_map_of [of u nodes] by simp
  have there: "\<exists>node. map_of nodes u = Some node \<and> parent (gn_commit node) = parent commit" if "(u, commit) \<in> W" for u commit
    using walked_commits [OF add] that W by blast
  have behind: "\<exists>commit. (u, commit) \<in> W \<and> parent (gn_commit node) = parent commit" if "map_of nodes u = Some node" for u node
  proof -
    have "u \<in> fst ` W" using in_keys [of u] that by simp
    then obtain commit where "(u, commit) \<in> W" by auto
    then show ?thesis using there [of u commit] that by auto
  qed
  have "(u, v) \<in> edges nodes \<longleftrightarrow> (u, v) \<in> walk_edges W" for u v
  proof
    assume "(u, v) \<in> edges nodes"
    then obtain node where n: "map_of nodes u = Some node" "v \<in> set (parent (gn_commit node))" "map_of nodes v \<noteq> None"
      by (auto simp: edges_def)
    then show "(u, v) \<in> walk_edges W" using behind [OF n(1)] in_keys [of v] by (auto simp: walk_edges_def)
  next
    assume "(u, v) \<in> walk_edges W"
    then obtain commit where w: "v \<in> fst ` W" "(u, commit) \<in> W" "v \<in> set (parent commit)"
      by (auto simp: walk_edges_def)
    then show "(u, v) \<in> edges nodes" using there [OF w(2)] in_keys [of v] by (auto simp: edges_def)
  qed
  then show "edges nodes = walk_edges W" by auto
  have "parents_known nodes shallow \<longleftrightarrow>
      (\<forall>u node. map_of nodes u = Some node \<longrightarrow> u \<in> set shallow \<or> set (parent (gn_commit node)) \<subseteq> fst ` W)"
    unfolding parents_known_def in_keys using g(1) by (auto simp: map_of_eq_Some_iff)
  also have "\<dots> \<longleftrightarrow> (\<forall>(oid, commit) \<in> W. oid \<in> set shallow \<or> set (parent commit) \<subseteq> fst ` W)"
  proof
    assume all: "\<forall>u node. map_of nodes u = Some node \<longrightarrow> u \<in> set shallow \<or> set (parent (gn_commit node)) \<subseteq> fst ` W"
    have "u \<in> set shallow \<or> set (parent commit) \<subseteq> fst ` W" if "(u, commit) \<in> W" for u commit
      using there [OF that] all by metis
    then show "\<forall>(oid, commit) \<in> W. oid \<in> set shallow \<or> set (parent commit) \<subseteq> fst ` W" by blast
  next
    assume all: "\<forall>(oid, commit) \<in> W. oid \<in> set shallow \<or> set (parent commit) \<subseteq> fst ` W"
    have "u \<in> set shallow \<or> set (parent (gn_commit node)) \<subseteq> fst ` W" if n: "map_of nodes u = Some node" for u node
    proof -
      obtain commit where "(u, commit) \<in> W" "parent (gn_commit node) = parent commit" using behind [OF n] by blast
      then show ?thesis using all by auto
    qed
    then show "\<forall>u node. map_of nodes u = Some node \<longrightarrow> u \<in> set shallow \<or> set (parent (gn_commit node)) \<subseteq> fst ` W"
      by blast
  qed
  finally show "parents_known nodes shallow \<longleftrightarrow>
    (\<forall>(oid, commit) \<in> W. oid \<in> set shallow \<or> set (parent commit) \<subseteq> fst ` W)" .
qed

text \<open>Without a cycle, common commits have a best one.\<close>

lemma best_empty: "acyclic (edges nodes) \<Longrightarrow> best nodes = {} \<longleftrightarrow> commons nodes = {}"
proof
  assume ac: "acyclic (edges nodes)" and none: "best nodes = {}"
  have "wf ((edges nodes)\<^sup>+)" using finite_acyclic_wf [OF finite_edges ac] by (rule wf_trancl)
  show "commons nodes = {}"
  proof (rule ccontr)
    assume "commons nodes \<noteq> {}"
    then obtain c where c: "c \<in> commons nodes" by blast
    obtain z where "z \<in> commons nodes" "\<forall>y. (y, z) \<in> (edges nodes)\<^sup>+ \<longrightarrow> y \<notin> commons nodes"
      by (rule wfE_min [OF \<open>wf ((edges nodes)\<^sup>+)\<close> c]) blast
    then have "z \<in> best nodes" by (auto simp: best_def)
    then show False using none by simp
  qed
qed (simp add: best_def)

lemma best_common_ancestors:
  assumes "distinct (map fst nodes)"
  shows "case bestCommonAncestors nodes shallow of
      Inl e \<Rightarrow> \<not> (parents_known nodes shallow \<and> acyclic (edges nodes))
    | Inr bases \<Rightarrow> parents_known nodes shallow \<and> acyclic (edges nodes) \<and> set bases = best nodes
        \<and> sorted_wrt (\<lambda>a b. compareOids a b < 0) bases"
proof (cases "child_counts nodes shallow")
  case (Inl e)
  then show ?thesis using child_counts_correct [OF assms, of shallow] by (simp add: bestCommonAncestors_def)
next
  case (Inr counts)
  then have counts: "parents_known nodes shallow" "map fst counts = map fst nodes"
    "\<forall>v \<in> keys nodes. map_of counts v = Some (int (open_edges nodes {} v))"
    using child_counts_correct [OF assms, of shallow] by simp_all
  obtain Q t where t: "pass_loop nodes (common_commits nodes)
      \<lparr>ps_ready = map fst (filter (\<lambda>(_, children). children = 0) counts), ps_counts = counts,
       ps_descendant = [], ps_dominated = [], ps_processed = 0\<rparr> = Inr t" "pass_inv nodes Q t" "ps_ready t = []"
    using pass_loop_inv [OF assms pass_start [OF assms counts(2,3)]] by blast
  note fin = pass_end [OF assms t(2,3)]
  have "distinct (common_commits nodes)" using assms unfolding common_commits_def by (rule distinct_map_filter)
  then have "sorted_wrt (\<lambda>a b. compareOids a b < 0) (sort_cmp compareOids (filter (\<lambda>oid. oid \<notin> set (ps_dominated t)) (common_commits nodes)))"
    by (intro sort_oids_strict) simp
  moreover have "{x \<in> commons nodes. x \<notin> set (ps_dominated t)} = best nodes" if "ps_processed t = length nodes"
    using fin(2) [OF that] by (auto simp: best_def)
  ultimately show ?thesis using Inr t(1) fin(1) counts(1) common_commits_set [OF assms]
    by (auto simp: bestCommonAncestors_def)
qed

lemma sides_commons: "distinct (map fst (gs_nodes state)) \<Longrightarrow> sides_of state u = Some BOTH \<longleftrightarrow> u \<in> commons (gs_nodes state)"
  by (auto simp: sides_of_def commons_def)

lemma length_keys: "distinct (map fst nodes) \<Longrightarrow> length nodes = card (keys nodes)"
  using distinct_card [of "map fst nodes"] by (simp add: keys_def)

lemma one_sided_shallow:
  assumes "distinct (map fst (gs_nodes state))" "keys (gs_nodes state) = C \<union> I" "commons (gs_nodes state) = C \<inter> I"
  shows "one_sided_boundary state \<longleftrightarrow> set (gs_shallow state) \<inter> (C \<union> I) - (C \<inter> I) \<noteq> {}"
proof -
  have "(case sides_of state u of None \<Rightarrow> False | Some n \<Rightarrow> n \<noteq> BOTH) \<longleftrightarrow> u \<in> (C \<union> I) - (C \<inter> I)" for u
    using sides_commons [OF assms(1), of u] keys_map_of [of u "gs_nodes state"] assms(2,3)
    by (auto simp: sides_of_def split: option.splits)
  then show ?thesis by (auto simp: one_sided_boundary_def list_ex_iff)
qed

lemma graph_state:
  assumes "reachableGraphOwned repo input = Inr state" "resolveLimits (mi_limits input) = Inr limits"
  obtains n1 where "addReachable repo (mi_currentOid input) CURRENT limits [] = Inr n1"
    "addReachable repo (mi_incomingOid input) INCOMING limits n1 = Inr (gs_nodes state)" "gs_shallow state = mr_shallow repo"
  using assms by (auto simp: reachableGraphOwned_def)

section \<open>Properties\<close>

text \<open>
  C6: \<open>bestCommonAncestors\<close> returns exactly the best common ancestors, the commits of both histories that no other
  commit of both histories has as a proper ancestor, once each and in the order of their ids; and it throws
  exactly when a parent is missing outside the shallow boundary or the graph has a cycle.
\<close>

theorem bestCommonAncestors_exact:
  assumes "distinct (map fst nodes)"
  shows "case bestCommonAncestors nodes shallow of
      Inl e \<Rightarrow> \<not> (parents_known nodes shallow \<and> acyclic (edges nodes))
    | Inr bases \<Rightarrow> parents_known nodes shallow \<and> acyclic (edges nodes) \<and> set bases = best nodes
        \<and> sorted_wrt (\<lambda>a b. compareOids a b < 0) bases"
  by (rule best_common_ancestors [OF assms])

definition nobody :: Person where
  "nobody = \<lparr>person_name = [], email = [], timestamp = 0, timezoneOffset = 0\<rparr>"

definition sample_commit :: "jstring list \<Rightarrow> nat \<Rightarrow> GraphNode" where
  "sample_commit parents sides =
     \<lparr>gn_commit = \<lparr>commit_tree = [], parent = parents, author = nobody, committer = nobody, gpgsig = None,
        commit_message = []\<rparr>, gn_sides = sides\<rparr>"

text \<open>Two histories \<open>3\<close> and \<open>4\<close> with the common history \<open>2 - 1\<close>: the best common ancestor is \<open>2\<close>.\<close>

definition sample_graph :: graph where
  "sample_graph = [([3], sample_commit [[2]] CURRENT), ([2], sample_commit [[1]] BOTH), ([1], sample_commit [] BOTH),
     ([4], sample_commit [[2]] INCOMING)]"

theorem bestCommonAncestors_exact_witness: "bestCommonAncestors sample_graph [] = Inr [[2]] \<and> best sample_graph = {[2]}"
proof -
  have sides: "BOTH = 3" "CURRENT = 1" "INCOMING = 2" by (simp_all add: BOTH_def CURRENT_def INCOMING_def)
  have run: "bestCommonAncestors sample_graph [] = Inr [[2]]"
    by (simp add: bestCommonAncestors_def sample_graph_def sample_commit_def common_commits_def child_counts_def count_node_def
        count_parent_def sides pass_loop.simps pass_parent_def set_add_def sort_cmp_def Let_def)
  have "distinct (map fst sample_graph)" by (simp add: sample_graph_def)
  from bestCommonAncestors_exact [OF this, of "[]"] show ?thesis using run by simp
qed

text \<open>
  C7: the whole decision of \<open>selectMergeBases\<close>, in terms of the commits that the walks of the two
  histories deliver. It is already merged exactly when the incoming commit lies in both histories; else
  fast-forward exactly when the current one does; else shallow exactly when a shallow commit lies in one
  history only. Otherwise it fails when a parent outside the shallow boundary is missing or the parents
  form a cycle; it is unrelated when the histories share nothing; it fails when there are more best
  common ancestors than the limit; and else it is divergent, with exactly the best common ancestors, in
  the order of their ids.
\<close>

theorem selectMergeBases_correct:
  assumes "reachableGraphOwned repo input = Inr state" "resolveLimits (mi_limits input) = Inr limits"
    and "C = history repo (mi_currentOid input) (rl_maxCommits limits)"
    and "I = history repo (mi_incomingOid input) (rl_maxCommits limits)"
    and "W = walked repo input (rl_maxCommits limits)"
  shows "if mi_incomingOid input \<in> C \<inter> I then
       selectMergeBases repo input =
         Inr \<lparr>ms_kind = AlreadyMerged, ms_bases = [mi_incomingOid input], ms_commits = card (C \<union> I)\<rparr>
     else if mi_currentOid input \<in> C \<inter> I then
       selectMergeBases repo input =
         Inr \<lparr>ms_kind = FastForward, ms_bases = [mi_currentOid input], ms_commits = card (C \<union> I)\<rparr>
     else if set (mr_shallow repo) \<inter> (C \<union> I) - (C \<inter> I) \<noteq> {} then
       selectMergeBases repo input = Inr \<lparr>ms_kind = Shallow, ms_bases = [], ms_commits = card (C \<union> I)\<rparr>
     else if \<not> walk_complete W (set (mr_shallow repo)) then \<exists>e. selectMergeBases repo input = Inl e
     else if C \<inter> I = {} then
       selectMergeBases repo input = Inr \<lparr>ms_kind = Unrelated, ms_bases = [], ms_commits = card (C \<union> I)\<rparr>
     else if card (best_of W (C \<inter> I)) > rl_maxBases limits then
       selectMergeBases repo input = Inl (GitError ''E2BIG'' ''merge-base result exceeds its best bases'')
     else \<exists>bases. set bases = best_of W (C \<inter> I) \<and> sorted_wrt (\<lambda>a b. compareOids a b < 0) bases
       \<and> selectMergeBases repo input = Inr \<lparr>ms_kind = Divergent, ms_bases = bases, ms_commits = card (C \<union> I)\<rparr>"
proof -
  obtain n1 where add: "addReachable repo (mi_currentOid input) CURRENT limits [] = Inr n1"
    "addReachable repo (mi_incomingOid input) INCOMING limits n1 = Inr (gs_nodes state)" "gs_shallow state = mr_shallow repo"
    using graph_state [OF assms(1,2)] .
  note g = both_histories [OF add(1,2), folded assms(3,4)]
  note w = graph_of_walks [OF add(1,2) assms(5)]
  have complete: "parents_known (gs_nodes state) (gs_shallow state) \<and> acyclic (edges (gs_nodes state))
      \<longleftrightarrow> walk_complete W (set (mr_shallow repo))"
    unfolding w add(3) walk_complete_def ..
  have best: "best (gs_nodes state) = best_of W (C \<inter> I)" by (simp add: best_def best_of_def w(1) g(3))
  have count: "selection kind bases state = \<lparr>ms_kind = kind, ms_bases = bases, ms_commits = card (C \<union> I)\<rparr>" for kind bases
    using length_keys [OF g(1)] g(2) by (simp add: selection_def)
  note exact = best_common_ancestors [OF g(1), of "gs_shallow state", unfolded conj_assoc [symmetric] complete best]
  have none: "best_of W (C \<inter> I) = {} \<longleftrightarrow> C \<inter> I = {}" if "walk_complete W (set (mr_shallow repo))"
    using best_empty [of "gs_nodes state"] that best g(3) complete by simp
  have len: "length bases = card (set bases)" if "sorted_wrt (\<lambda>a b. compareOids a b < 0) bases" for bases
    using sorted_oids_distinct [OF that] by (simp add: distinct_card)
  have run: "selectMergeBases repo input =
      (if mi_incomingOid input \<in> C \<inter> I then Inr (selection AlreadyMerged [mi_incomingOid input] state)
       else if mi_currentOid input \<in> C \<inter> I then Inr (selection FastForward [mi_currentOid input] state)
       else if set (mr_shallow repo) \<inter> (C \<union> I) - (C \<inter> I) \<noteq> {} then Inr (selection Shallow [] state)
       else bindR (bestCommonAncestors (gs_nodes state) (gs_shallow state)) (\<lambda>bases.
         if length bases = 0 then Inr (selection Unrelated [] state)
         else if length bases > rl_maxBases limits then Inl (GitError ''E2BIG'' ''merge-base result exceeds its best bases'')
         else Inr (selection Divergent bases state)))"
    unfolding selectMergeBases_def withReachableGraph_def assms(1,2)
    by (simp only: bindR_simps sides_commons [OF g(1)] g(3) one_sided_shallow [OF g(1-3)] add(3))
  show ?thesis
  proof (cases "bestCommonAncestors (gs_nodes state) (gs_shallow state)")
    case (Inl e)
    then show ?thesis using exact unfolding run count by simp
  next
    case (Inr bases)
    then show ?thesis using exact none len [of bases] unfolding run count by auto
  qed
qed

definition oid_a :: jstring where "oid_a = replicate 40 0x61"
definition oid_b :: jstring where "oid_b = replicate 40 0x62"
definition oid_c :: jstring where "oid_c = replicate 40 0x63"

definition sample_repo :: MergeRepository where
  "sample_repo = \<lparr>mr_typeOf = (\<lambda>_. Inr (units ''commit'')),
     mr_walk = (\<lambda>root _. ([(root, gn_commit (sample_commit [oid_c] 0)), (oid_c, gn_commit (sample_commit [] 0))], None)),
     mr_treeRoots = (\<lambda>root. ([root, oid_c], None)), mr_shallow = [], mr_revision = Inr\<rparr>"

definition sample_input :: MergeBaseInput where
  "sample_input = \<lparr>mi_currentOid = oid_a, mi_incomingOid = oid_b, mi_limits = None\<rparr>"

lemma sample_oids: "isOid oid_a" "isOid oid_b" "oid_a \<noteq> oid_b" "oid_a \<noteq> oid_c" "oid_b \<noteq> oid_c"
  by (simp_all add: oid_a_def oid_b_def oid_c_def isOid_def list_all_iff is_lower_hex_def)

theorem selectMergeBases_correct_witness:
  "selectMergeBases sample_repo sample_input =
     Inr \<lparr>ms_kind = Divergent, ms_bases = [oid_c], ms_commits = 3\<rparr>"
proof -
  have sides: "BOTH = 3" "CURRENT = 1" "INCOMING = 2" by (simp_all add: BOTH_def CURRENT_def INCOMING_def)
  have limits: "resolveLimits (mi_limits sample_input) = Inr \<lparr>rl_maxCommits = 50000, rl_maxBases = 64\<rparr>"
    by (simp add: resolveLimits_def boundedLimit_def sample_input_def MAX_MERGE_BASE_COMMITS_def MAX_LOG_COMMITS_def MAX_MERGE_BASES_def)
  define nodes where "nodes = [(oid_a, sample_commit [oid_c] 1), (oid_c, sample_commit [] 3), (oid_b, sample_commit [oid_c] 2)]"
  have graph: "reachableGraphOwned sample_repo sample_input = Inr \<lparr>gs_nodes = nodes, gs_shallow = []\<rparr>"
    using sample_oids unfolding reachableGraphOwned_def limits
    by (simp add: require_commit_def addReachable_def reachable_step_def sample_repo_def sample_input_def sample_commit_def
        sameParents_def sides nodes_def)
  define W where "W = walked sample_repo sample_input 50000"
  have W: "W = {(oid_a, gn_commit (sample_commit [oid_c] 0)), (oid_b, gn_commit (sample_commit [oid_c] 0)),
      (oid_c, gn_commit (sample_commit [] 0))}"
    by (auto simp: W_def walked_def sample_repo_def sample_input_def)
  have ps: "parent (gn_commit (sample_commit ps n)) = ps" for ps n by (simp add: sample_commit_def)
  have edges: "walk_edges W = {(oid_a, oid_c), (oid_b, oid_c)}"
    unfolding W walk_edges_def by (auto simp: ps)
  have closed: "(walk_edges W)\<^sup>+ = {(oid_a, oid_c), (oid_b, oid_c)}"
    unfolding edges using sample_oids by (intro trancl_id) (auto simp: trans_def)
  have "acyclic (walk_edges W)" unfolding acyclic_def closed using sample_oids by auto
  moreover have "fst ` W = {oid_a, oid_b, oid_c}" by (simp add: W)
  ultimately have complete: "walk_complete W {}" unfolding walk_complete_def by (simp add: W ps)
  have best: "best_of W {oid_c} = {oid_c}" unfolding best_of_def closed using sample_oids by auto
  have C: "history sample_repo oid_a 50000 = {oid_a, oid_c}"
    and I: "history sample_repo oid_b 50000 = {oid_b, oid_c}"
    by (auto simp: history_def sample_repo_def sample_input_def)
  have ids: "mi_incomingOid sample_input = oid_b" "mi_currentOid sample_input = oid_a" by (simp_all add: sample_input_def)
  have both: "{oid_a, oid_c} \<inter> {oid_b, oid_c} = {oid_c}" "{oid_a, oid_c} \<union> {oid_b, oid_c} = {oid_a, oid_b, oid_c}"
    "card {oid_a, oid_b, oid_c} = 3" "mr_shallow sample_repo = []"
    using sample_oids by (auto simp: sample_repo_def)
  have one: "bases = [oid_c]" if "set bases = {oid_c}" "sorted_wrt (\<lambda>a b. compareOids a b < 0) bases" for bases
    using sorted_oids_distinct [OF that(2)] that(1) by (cases bases) (auto simp: subset_singleton_iff)
  note correct = selectMergeBases_correct [OF graph limits refl refl refl,
      unfolded ResolvedLimits.simps W_def [symmetric] ids C I both]
  have "\<not> oid_b \<in> {oid_c}" "\<not> oid_a \<in> {oid_c}" "{oid_c} \<noteq> {}" "set [] \<inter> {oid_a, oid_b, oid_c} - {oid_c} = {}"
    "\<not> card {oid_c} > 64" "walk_complete W (set [])" using sample_oids complete by auto
  note no = this
  from correct have "\<exists>bases. set bases = {oid_c} \<and> sorted_wrt (\<lambda>a b. compareOids a b < 0) bases \<and>
      selectMergeBases sample_repo sample_input = Inr \<lparr>ms_kind = Divergent, ms_bases = bases, ms_commits = 3\<rparr>"
    unfolding if_not_P [OF no(1)] if_not_P [OF no(2)] best using no(3-6)
    by (simp only: if_False if_True not_True_eq_False not_False_eq_True simp_thms split: if_split_asm)
  then show ?thesis using one by blast
qed

end
