(* ===== verification/IgnoreTokens.thy ===== *)
theory IgnoreTokens
  imports Text
begin

text \<open>
  Patterns of ignore rules as tokens (\<open>packages/git/src/ignore/pattern-types.ts\<close> and \<open>pattern-tokens.ts\<close>): byte sets of
  eight 32-bit words, bracket expressions, the tokens of a glob and the states of the automaton a pattern with
  \<open>**\<close> compiles to.

  An index read of a typed array is an option, \<open>None\<close> past the end; a write past the end changes nothing, as
  \<open>list_update\<close> does.
\<close>

abbreviation byte_at :: "bytes \<Rightarrow> nat \<Rightarrow> byte option" where
  "byte_at \<equiv> charCodeAt"

section \<open>Types\<close>

definition SLASH :: byte where "SLASH = 0x2f"
definition STAR :: byte where "STAR = 0x2a"
definition QUESTION :: byte where "QUESTION = 0x3f"
definition OPEN_CLASS :: byte where "OPEN_CLASS = 0x5b"
definition CLOSE_CLASS :: byte where "CLOSE_CLASS = 0x5d"
definition BACKSLASH :: byte where "BACKSLASH = 0x5c"

lemmas byte_names = SLASH_def STAR_def QUESTION_def OPEN_CLASS_def CLOSE_CLASS_def BACKSLASH_def

type_synonym words = "32 word list"

datatype TokenKind = Literal | Any | Star | Class

record Token =
  tk_kind :: TokenKind
  tk_byte :: byte
  tk_bits :: "words option"

datatype NfaKind = NLiteral | NAny | NStar | NClass | GlobBoundary | GlobBody | StarAny

record NfaState =
  ns_kind :: NfaKind
  ns_byte :: byte
  ns_bits :: "words option"

section \<open>Bit sets\<close>

definition word_at :: "words \<Rightarrow> nat \<Rightarrow> 32 word" where
  "word_at ws i = (case charCodeAt ws i of None \<Rightarrow> 0 | Some w \<Rightarrow> w)"

definition has_bit :: "words \<Rightarrow> nat \<Rightarrow> bool" where
  "has_bit ws i = (word_at ws (i div 32) AND push_bit (i mod 32) 1 \<noteq> 0)"

definition set_bit_at :: "words \<Rightarrow> nat \<Rightarrow> words" where
  "set_bit_at ws i = ws[i div 32 := word_at ws (i div 32) OR push_bit (i mod 32) 1]"

definition bitHas :: "words \<Rightarrow> byte \<Rightarrow> bool" where
  "bitHas ws b = has_bit ws (unat b)"

definition bitSet :: "words \<Rightarrow> byte \<Rightarrow> words" where
  "bitSet ws b = set_bit_at ws (unat b)"

definition fillRange :: "words \<Rightarrow> byte \<Rightarrow> byte \<Rightarrow> words" where
  "fillRange ws lo hi =
     (if lo > hi then ws else fold (\<lambda>n ws. bitSet ws (word_of_nat n)) [unat lo..<Suc (unat hi)] ws)"

definition fillRanges :: "(byte \<times> byte) list \<Rightarrow> words \<Rightarrow> words" where
  "fillRanges rs ws = fold (\<lambda>(lo, hi) ws. fillRange ws lo hi) rs ws"

text \<open>The named classes; \<open>None\<close> is an unknown name, which leaves the set as it is.\<close>

definition addPosix :: "words \<Rightarrow> bytes \<Rightarrow> words option" where
  "addPosix ws name =
     (let t = map (\<lambda>b. word_of_nat (unat b)) name :: jstring
      in if t = units ''alnum'' then Some (fillRanges [(0x30, 0x39), (0x41, 0x5a), (0x61, 0x7a)] ws)
      else if t = units ''alpha'' then Some (fillRanges [(0x41, 0x5a), (0x61, 0x7a)] ws)
      else if t = units ''blank'' then Some (bitSet (bitSet ws 0x09) 0x20)
      else if t = units ''cntrl'' then Some (bitSet (fillRange ws 0x00 0x1f) 0x7f)
      else if t = units ''digit'' then Some (fillRange ws 0x30 0x39)
      else if t = units ''graph'' then Some (fillRange ws 0x21 0x7e)
      else if t = units ''lower'' then Some (fillRange ws 0x61 0x7a)
      else if t = units ''print'' then Some (fillRange ws 0x20 0x7e)
      else if t = units ''punct'' then Some (fillRanges [(0x21, 0x2f), (0x3a, 0x40), (0x5b, 0x60), (0x7b, 0x7e)] ws)
      else if t = units ''space'' then Some (fold (\<lambda>b ws. bitSet ws b) [0x09, 0x0a, 0x0b, 0x0c, 0x0d, 0x20] ws)
      else if t = units ''upper'' then Some (fillRange ws 0x41 0x5a)
      else if t = units ''xdigit'' then Some (fillRanges [(0x30, 0x39), (0x41, 0x46), (0x61, 0x66)] ws)
      else None)"

section \<open>Bracket expressions\<close>

record ParsedClass =
  pc_bits :: words
  pc_end :: nat

definition classByte :: "bytes \<Rightarrow> nat \<Rightarrow> (byte \<times> nat) option" where
  "classByte bs at =
     (case byte_at bs at of
        None \<Rightarrow> None
      | Some b \<Rightarrow>
          if b = BACKSLASH then (case byte_at bs (at + 1) of None \<Rightarrow> None | Some e \<Rightarrow> Some (e, at + 2))
          else Some (b, at + 1))"

lemma classByte_end: "classByte bs at = Some (b, k) \<Longrightarrow> at < k \<and> at < length bs"
  by (auto simp: classByte_def charCodeAt_def split: option.splits if_splits)

text \<open>The end of a named class: the position of \<open>:]\<close>, or one with nothing after it.\<close>

function find_close :: "bytes \<Rightarrow> nat \<Rightarrow> nat" where
  "find_close bs close =
     (if close + 1 < length bs \<and> \<not> (byte_at bs close = Some 0x3a \<and> byte_at bs (close + 1) = Some CLOSE_CLASS)
      then find_close bs (close + 1) else close)"
  by pat_completeness auto
termination by (relation "measure (\<lambda>(bs, close). length bs - close)") auto

declare find_close.simps [simp del]

lemma find_close_ge: "close \<le> find_close bs close"
proof (induction bs close rule: find_close.induct)
  case (1 bs close)
  then show ?case by (subst find_close.simps) auto
qed

definition close_class :: "bool \<Rightarrow> bool \<Rightarrow> words \<Rightarrow> words" where
  "close_class negated slashSensitive ws =
     (let ws1 = (if negated then map (\<lambda>w. NOT w) ws else ws)
      in if slashSensitive
         then ws1[unat SLASH div 32 := word_at ws1 (unat SLASH div 32) AND NOT (push_bit (unat SLASH mod 32) 1)]
         else ws1)"

definition posix_class :: "bytes \<Rightarrow> nat \<Rightarrow> words \<Rightarrow> (words \<times> nat) option" where
  "posix_class bs index ws =
     (if byte_at bs index = Some OPEN_CLASS \<and> byte_at bs (index + 1) = Some 0x3a then
        let close = find_close bs (index + 2)
        in if close + 1 < length bs
           then map_option (\<lambda>ws1. (ws1, close + 2)) (addPosix ws (take (close - (index + 2)) (drop (index + 2) bs)))
           else None
      else None)"

lemma posix_class_end: "posix_class bs index ws = Some (ws1, k) \<Longrightarrow> index < k"
  using find_close_ge [of "index + 2" bs] by (auto simp: posix_class_def Let_def split: if_splits)

definition starts_range :: "bytes \<Rightarrow> byte option \<Rightarrow> byte \<Rightarrow> nat \<Rightarrow> bool" where
  "starts_range bs prior b k = (b = 0x2d \<and> prior \<noteq> None \<and> byte_at bs k \<noteq> Some CLOSE_CLASS \<and> k < length bs)"

function class_loop :: "bytes \<Rightarrow> bool \<Rightarrow> bool \<Rightarrow> nat \<Rightarrow> words \<Rightarrow> bool \<Rightarrow> byte option \<Rightarrow> ParsedClass option" where
  "class_loop bs negated slashSensitive index ws first prior =
     (if index < length bs then
        if byte_at bs index = Some CLOSE_CLASS \<and> \<not> first
        then Some \<lparr>pc_bits = close_class negated slashSensitive ws, pc_end = index + 1\<rparr>
        else
          (case posix_class bs index ws of
             Some (ws1, k) \<Rightarrow> class_loop bs negated slashSensitive k ws1 False None
           | None \<Rightarrow>
               (case classByte bs index of
                  None \<Rightarrow> None
                | Some (b, k) \<Rightarrow>
                    if starts_range bs prior b k then
                      (case classByte bs k of
                         None \<Rightarrow> None
                       | Some (hi, k1) \<Rightarrow>
                           class_loop bs negated slashSensitive k1 (fillRange ws (the prior) hi) False None)
                    else class_loop bs negated slashSensitive k (bitSet ws b) False (Some b)))
      else None)"
  by pat_completeness auto
termination
proof (relation "measure (\<lambda>(bs, _, _, index, _). length bs - index)", goal_cases)
  case (2 bs negated slashSensitive index ws first prior x b k y hi k1)
  then show ?case using classByte_end [of bs index b k] classByte_end [of bs k hi k1] by auto
next
  case (3 bs negated slashSensitive index ws first prior x b k)
  then show ?case using classByte_end [of bs index b k] by auto
next
  case (4 bs negated slashSensitive index ws first prior x ws1 k)
  then show ?case using posix_class_end [of bs index ws ws1 k] by auto
qed simp

declare class_loop.simps [simp del]

definition is_negation :: "byte option \<Rightarrow> bool" where
  "is_negation b = (b = Some 0x21 \<or> b = Some 0x5e)"

definition parseClass :: "bytes \<Rightarrow> nat \<Rightarrow> bool \<Rightarrow> ParsedClass option" where
  "parseClass bs start slashSensitive =
     (let negated = is_negation (byte_at bs (start + 1))
      in class_loop bs negated slashSensitive (if negated then start + 2 else start + 1) (replicate 8 0) True None)"

text \<open>A bracket expression that parses was closed somewhere at or after its first byte.\<close>

lemma class_loop_Some:
  "class_loop bs negated ss index ws first prior = Some p \<Longrightarrow>
   \<exists>k ws'. index \<le> k \<and> k < length bs \<and> p = \<lparr>pc_bits = close_class negated ss ws', pc_end = k + 1\<rparr>"
proof (induction bs negated ss index ws first prior rule: class_loop.induct)
  case (1 bs negated ss index ws first prior)
  from "1.prems" consider
      (close) "index < length bs" "p = \<lparr>pc_bits = close_class negated ss ws, pc_end = index + 1\<rparr>"
    | (posix) ws1 k where "index < length bs" "\<not> (byte_at bs index = Some CLOSE_CLASS \<and> \<not> first)"
        "posix_class bs index ws = Some (ws1, k)" "class_loop bs negated ss k ws1 False None = Some p"
    | (range) b k hi k1 where "index < length bs" "\<not> (byte_at bs index = Some CLOSE_CLASS \<and> \<not> first)"
        "posix_class bs index ws = None" "classByte bs index = Some (b, k)" "starts_range bs prior b k"
        "classByte bs k = Some (hi, k1)" "class_loop bs negated ss k1 (fillRange ws (the prior) hi) False None = Some p"
    | (single) b k where "index < length bs" "\<not> (byte_at bs index = Some CLOSE_CLASS \<and> \<not> first)"
        "posix_class bs index ws = None" "classByte bs index = Some (b, k)" "\<not> starts_range bs prior b k"
        "class_loop bs negated ss k (bitSet ws b) False (Some b) = Some p"
    by (subst (asm) class_loop.simps) (auto split: if_splits option.splits)
  then show ?case
  proof cases
    case posix
    then show ?thesis using "1.IH"(3) posix_class_end [OF posix(3)] by (force intro: le_trans)
  next
    case range
    then show ?thesis using "1.IH"(1) classByte_end [OF range(4)] classByte_end [OF range(6)] by (force intro: le_trans)
  next
    case single
    then show ?thesis using "1.IH"(2) classByte_end [OF single(4)] by (force intro: le_trans)
  qed auto
qed

lemma parseClass_Some:
  "parseClass bs start ss = Some p \<Longrightarrow>
   \<exists>k negated ws. start < k \<and> k < length bs \<and> p = \<lparr>pc_bits = close_class negated ss ws, pc_end = k + 1\<rparr>"
  by (auto simp: parseClass_def Let_def dest!: class_loop_Some split: if_splits) blast+

lemma parseClass_end: "parseClass bs start ss = Some p \<Longrightarrow> start < pc_end p"
  by (auto dest!: parseClass_Some)

section \<open>Tokens\<close>

fun backslashes_before :: "bytes \<Rightarrow> nat \<Rightarrow> nat" where
  "backslashes_before bs 0 = 0"
| "backslashes_before bs (Suc at) = (if byte_at bs at = Some BACKSLASH then Suc (backslashes_before bs at) else 0)"

definition escaped :: "bytes \<Rightarrow> nat \<Rightarrow> bool" where
  "escaped bs index = (backslashes_before bs index mod 2 = 1)"

record TokenOptions =
  to_slashSensitive :: "bool option"
  to_unmatchedClassLiteral :: "bool option"

definition no_options :: TokenOptions where
  "no_options = \<lparr>to_slashSensitive = None, to_unmatchedClassLiteral = None\<rparr>"

record ParsedTokens =
  pt_tokens :: "Token list"
  pt_valid :: bool
  pt_hasStar :: bool

definition literal_token :: "byte \<Rightarrow> Token" where
  "literal_token b = \<lparr>tk_kind = Literal, tk_byte = b, tk_bits = None\<rparr>"

definition any_token :: Token where
  "any_token = \<lparr>tk_kind = Any, tk_byte = 0, tk_bits = None\<rparr>"

definition star_token :: Token where
  "star_token = \<lparr>tk_kind = Star, tk_byte = 0, tk_bits = None\<rparr>"

definition class_token :: "words \<Rightarrow> Token" where
  "class_token ws = \<lparr>tk_kind = Class, tk_byte = 0, tk_bits = Some ws\<rparr>"

lemmas token_defs = literal_token_def any_token_def star_token_def class_token_def

function skip_stars :: "bytes \<Rightarrow> nat \<Rightarrow> nat" where
  "skip_stars bs index = (if byte_at bs (index + 1) = Some STAR then skip_stars bs (index + 1) else index)"
  by pat_completeness auto
termination by (relation "measure (\<lambda>(bs, index). length bs - index)") (auto simp: charCodeAt_def split: if_splits)

declare skip_stars.simps [simp del]

lemma skip_stars_ge: "index \<le> skip_stars bs index"
proof (induction bs index rule: skip_stars.induct)
  case (1 bs index)
  then show ?case by (subst skip_stars.simps) auto
qed

function tokens_loop :: "bytes \<Rightarrow> TokenOptions \<Rightarrow> nat \<Rightarrow> Token list \<Rightarrow> bool \<Rightarrow> ParsedTokens" where
  "tokens_loop bs options index tokens hasStar =
     (case byte_at bs index of
        None \<Rightarrow> \<lparr>pt_tokens = tokens, pt_valid = True, pt_hasStar = hasStar\<rparr>
      | Some b \<Rightarrow>
          if b = BACKSLASH then
            (case byte_at bs (index + 1) of
               None \<Rightarrow> \<lparr>pt_tokens = tokens, pt_valid = False, pt_hasStar = hasStar\<rparr>
             | Some literal \<Rightarrow> tokens_loop bs options (index + 2) (tokens @ [literal_token literal]) hasStar)
          else if b = STAR then tokens_loop bs options (skip_stars bs index + 1) (tokens @ [star_token]) True
          else if b = QUESTION then tokens_loop bs options (index + 1) (tokens @ [any_token]) hasStar
          else if b = OPEN_CLASS then
            (case parseClass bs index (case to_slashSensitive options of None \<Rightarrow> True | Some s \<Rightarrow> s) of
               None \<Rightarrow>
                 if to_unmatchedClassLiteral options \<noteq> Some True
                 then \<lparr>pt_tokens = tokens, pt_valid = False, pt_hasStar = hasStar\<rparr>
                 else tokens_loop bs options (index + 1) (tokens @ [literal_token b]) hasStar
             | Some parsed \<Rightarrow> tokens_loop bs options (pc_end parsed) (tokens @ [class_token (pc_bits parsed)]) hasStar)
          else tokens_loop bs options (index + 1) (tokens @ [literal_token b]) hasStar)"
  by pat_completeness auto
termination
proof (relation "measure (\<lambda>(bs, _, index, _). length bs - index)", goal_cases)
  case (3 bs options index tokens hasStar b)
  then show ?case using skip_stars_ge [of index bs] by (auto simp: charCodeAt_def split: if_splits)
next
  case (6 bs options index tokens hasStar b parsed)
  then show ?case by (auto simp: charCodeAt_def dest!: parseClass_end split: if_splits)
qed (auto simp: charCodeAt_def split: if_splits)

declare tokens_loop.simps [simp del]

definition tokensOf :: "bytes \<Rightarrow> TokenOptions \<Rightarrow> ParsedTokens" where
  "tokensOf bs options = tokens_loop bs options 0 [] False"

fun literal_from :: "Token list \<Rightarrow> bytes option" where
  "literal_from [] = Some []"
| "literal_from (t # ts) = (if tk_kind t \<noteq> Literal then None else map_option ((#) (tk_byte t)) (literal_from ts))"

definition literalOf :: "Token list \<Rightarrow> bytes option" where
  "literalOf tokens = literal_from tokens"

function edge_length :: "Token list \<Rightarrow> bool \<Rightarrow> nat \<Rightarrow> nat" where
  "edge_length tokens fromStart len =
     (if len < length tokens \<and> tk_kind (tokens ! (if fromStart then len else length tokens - len - 1)) = Literal
      then edge_length tokens fromStart (len + 1) else len)"
  by pat_completeness auto
termination by (relation "measure (\<lambda>(tokens, _, len). length tokens - len)") auto

declare edge_length.simps [simp del]

definition literalEdge :: "Token list \<Rightarrow> bool \<Rightarrow> bytes" where
  "literalEdge tokens fromStart =
     (let len = edge_length tokens fromStart 0
      in map (\<lambda>index. tk_byte (tokens ! (if fromStart then index else length tokens - len + index))) [0..<len])"

definition targetSegments :: "Token list \<Rightarrow> nat" where
  "targetSegments tokens =
     fold (\<lambda>t segments. if tk_kind t = Literal \<and> tk_byte t = SLASH then segments + 1 else segments) tokens 1"

section \<open>Segments with \<open>**\<close>\<close>

definition all_stars :: "bytes \<Rightarrow> nat \<Rightarrow> nat \<Rightarrow> bool" where
  "all_stars bs lo hi = (hi - lo \<ge> 2 \<and> list_all (\<lambda>at. byte_at bs at = Some STAR) [lo..<hi])"

definition within_segment :: "bytes \<Rightarrow> nat \<Rightarrow> bool" where
  "within_segment bs index = (index < length bs \<and> (byte_at bs index \<noteq> Some SLASH \<or> escaped bs index))"

function globstar_loop :: "bytes \<Rightarrow> nat \<Rightarrow> nat \<Rightarrow> bool" where
  "globstar_loop bs index segmentStart =
     (if index \<le> length bs then
        if within_segment bs index then globstar_loop bs (index + 1) segmentStart
        else if all_stars bs segmentStart index then True
        else globstar_loop bs (index + 1) (index + 1)
      else False)"
  by pat_completeness auto
termination by (relation "measure (\<lambda>(bs, index, _). Suc (length bs) - index)") auto

declare globstar_loop.simps [simp del]

definition hasGlobstar :: "bytes \<Rightarrow> bool" where
  "hasGlobstar bs = globstar_loop bs 0 0"

function first_slash :: "bytes \<Rightarrow> nat \<Rightarrow> nat" where
  "first_slash bs slash = (if within_segment bs slash then first_slash bs (slash + 1) else slash)"
  by pat_completeness auto
termination by (relation "measure (\<lambda>(bs, slash). length bs - slash)") (auto simp: within_segment_def)

declare first_slash.simps [simp del]

definition leadingGlobstarBasename :: "bytes \<Rightarrow> bytes option" where
  "leadingGlobstarBasename bs =
     (let slash = first_slash bs 0
      in if slash < 2 \<or> slash \<ge> length bs then None
         else if list_ex (\<lambda>index. byte_at bs index \<noteq> Some STAR) [0..<slash] then None
         else if list_ex (\<lambda>index. byte_at bs index = Some SLASH \<and> \<not> escaped bs index) [slash + 1..<length bs] then None
         else Some (drop (slash + 1) bs))"

fun nfa_kind :: "TokenKind \<Rightarrow> NfaKind" where
  "nfa_kind Literal = NLiteral"
| "nfa_kind Any = NAny"
| "nfa_kind Star = NStar"
| "nfa_kind Class = NClass"

definition state_of_token :: "Token \<Rightarrow> NfaState" where
  "state_of_token t = \<lparr>ns_kind = nfa_kind (tk_kind t), ns_byte = tk_byte t, ns_bits = tk_bits t\<rparr>"

definition glob_state :: "NfaKind \<Rightarrow> NfaState" where
  "glob_state k = \<lparr>ns_kind = k, ns_byte = 0, ns_bits = None\<rparr>"

definition slash_state :: NfaState where
  "slash_state = \<lparr>ns_kind = NLiteral, ns_byte = SLASH, ns_bits = None\<rparr>"

text \<open>The states of one segment \<open>[lo, hi)\<close>; \<open>None\<close> when its tokens are not valid.\<close>

definition segment_states :: "bytes \<Rightarrow> nat \<Rightarrow> nat \<Rightarrow> NfaState list option" where
  "segment_states bs lo hi =
     (if all_stars bs lo hi then
        Some (if hi < length bs then [glob_state GlobBoundary, glob_state GlobBody] else [glob_state StarAny])
      else
        let parsed = tokensOf (take (hi - lo) (drop lo bs)) no_options
        in if \<not> pt_valid parsed then None
           else Some (map state_of_token (pt_tokens parsed) @ (if hi < length bs then [slash_state] else [])))"

function nfa_loop :: "bytes \<Rightarrow> nat \<Rightarrow> nat \<Rightarrow> NfaState list \<Rightarrow> NfaState list option" where
  "nfa_loop bs index segmentStart states =
     (if index \<le> length bs then
        if within_segment bs index then nfa_loop bs (index + 1) segmentStart states
        else
          (case segment_states bs segmentStart index of
             None \<Rightarrow> None
           | Some new \<Rightarrow> nfa_loop bs (index + 1) (index + 1) (states @ new))
      else Some states)"
  by pat_completeness auto
termination by (relation "measure (\<lambda>(bs, index, _). Suc (length bs) - index)") auto

declare nfa_loop.simps [simp del]

definition compileNfa :: "bytes \<Rightarrow> NfaState list option" where
  "compileNfa bs = nfa_loop bs 0 0 []"

definition nfaLiteralPrefix :: "NfaState list \<Rightarrow> bytes" where
  "nfaLiteralPrefix states = map ns_byte (takeWhile (\<lambda>s. ns_kind s = NLiteral) states)"

end
