(* ===== verification/IgnoreMatch.thy ===== *)
theory IgnoreMatch
  imports IgnoreTokens
begin

text \<open>
  Evaluation of compiled patterns (\<open>packages/git/src/ignore/pattern-match.ts\<close>): the glob matcher that backtracks to its
  last star, the automaton on bit masks, the literal prefilters, and the depths of a path a pattern matches.

  Every evaluator counts its steps and gives up past \<open>maxWork\<close>. A result \<open>{ matched, work }\<close> is a pair; the
  callback of \<open>matchPatternDepths\<close> is the list of the depths it is called with.
\<close>

type_synonym match_result = "bool \<times> int"

record DetProgram =
  dp_anchored :: bool
  dp_tokens :: "Token list"
  dp_literalPrefix :: bytes
  dp_literalSuffix :: bytes
  dp_hasStar :: bool
  dp_targetSegments :: nat

datatype Compiled =
    LiteralBasename bytes
  | LiteralPath bytes
  | Deterministic DetProgram
  | Nfa "NfaState list" bytes
  | Never

record IgnorePattern =
  ip_negated :: bool
  ip_directoryOnly :: bool
  ip_iterative :: bool
  ip_compiled :: Compiled

record EncodedPath =
  ep_bytes :: bytes
  ep_starts :: "nat list"
  ep_ends :: "nat list"
  ep_segments :: nat

definition unlimited :: int where
  "unlimited = int max_safe_integer"

section \<open>Globs\<close>

definition matchToken :: "Token \<Rightarrow> byte \<Rightarrow> bool \<Rightarrow> bool" where
  "matchToken t b slashSensitive =
     (case tk_kind t of
        Literal \<Rightarrow> tk_byte t = b
      | Any \<Rightarrow> \<not> slashSensitive \<or> b \<noteq> SLASH
      | Class \<Rightarrow> (case tk_bits t of None \<Rightarrow> False | Some bits \<Rightarrow> bitHas bits b)
      | Star \<Rightarrow> False)"

function star_tail :: "Token list \<Rightarrow> int \<Rightarrow> nat \<Rightarrow> int \<Rightarrow> match_result" where
  "star_tail tokens maxWork tokenIndex work =
     (if map_option tk_kind (charCodeAt tokens tokenIndex) = Some Star then
        if work + 1 > maxWork then (False, work + 1) else star_tail tokens maxWork (tokenIndex + 1) (work + 1)
      else (tokenIndex = length tokens, work))"
  by pat_completeness auto
termination
  by (relation "measure (\<lambda>(tokens, _, i, _). length tokens - i)") (auto simp: charCodeAt_def split: if_splits)

declare star_tail.simps [simp del]

definition token_matches :: "Token list \<Rightarrow> bytes \<Rightarrow> bool \<Rightarrow> nat \<Rightarrow> nat \<Rightarrow> bool" where
  "token_matches tokens bs slashSensitive tokenIndex byteIndex =
     (case (charCodeAt tokens tokenIndex, byte_at bs byteIndex) of
        (Some t, Some b) \<Rightarrow> tk_kind t \<noteq> Star \<and> matchToken t b slashSensitive
      | _ \<Rightarrow> False)"

text \<open>
  What a step of the matcher leaves to do: bytes a retry can still skip, and tokens ahead. The first component
  covers states no run reaches, a retry position past the current byte.
\<close>

definition remaining_work :: "Token list \<Rightarrow> nat \<Rightarrow> nat \<Rightarrow> nat \<Rightarrow> nat" where
  "remaining_work tokens stop tokenIndex retry = (stop - retry) * (length tokens + 1) + (length tokens - tokenIndex)"

lemma remaining_token: "tokenIndex < length tokens \<Longrightarrow>
    remaining_work tokens stop (tokenIndex + 1) retry < remaining_work tokens stop tokenIndex retry"
  by (simp add: remaining_work_def)

lemma remaining_star: "tokenIndex < length tokens \<Longrightarrow> retry \<le> byteIndex \<Longrightarrow>
    remaining_work tokens stop (tokenIndex + 1) byteIndex < remaining_work tokens stop tokenIndex retry"
proof -
  assume *: "tokenIndex < length tokens" "retry \<le> byteIndex"
  have "(stop - byteIndex) * (length tokens + 1) \<le> (stop - retry) * (length tokens + 1)"
    using *(2) by (intro mult_le_mono1) simp
  then show ?thesis using *(1) unfolding remaining_work_def by linarith
qed

lemma remaining_retry: "retry < stop \<Longrightarrow>
    remaining_work tokens stop (star + 1) (retry + 1) < remaining_work tokens stop tokenIndex retry"
proof -
  assume "retry < stop"
  then have "stop - retry = Suc (stop - (retry + 1))" by simp
  then have "(stop - retry) * (length tokens + 1) = (length tokens + 1) + (stop - (retry + 1)) * (length tokens + 1)"
    by (simp only: mult_Suc)
  then show ?thesis unfolding remaining_work_def by linarith
qed

function det_loop :: "Token list \<Rightarrow> bytes \<Rightarrow> nat \<Rightarrow> int \<Rightarrow> bool \<Rightarrow> nat \<Rightarrow> nat \<Rightarrow> nat option \<Rightarrow> nat \<Rightarrow> int \<Rightarrow> match_result" where
  "det_loop tokens bs stop maxWork slashSensitive tokenIndex byteIndex starIndex retry work =
     (if byteIndex < stop then
        if work + 1 > maxWork then (False, work + 1)
        else if token_matches tokens bs slashSensitive tokenIndex byteIndex
        then det_loop tokens bs stop maxWork slashSensitive (tokenIndex + 1) (byteIndex + 1) starIndex retry (work + 1)
        else if map_option tk_kind (charCodeAt tokens tokenIndex) = Some Star
        then det_loop tokens bs stop maxWork slashSensitive (tokenIndex + 1) byteIndex (Some tokenIndex) byteIndex (work + 1)
        else
          (case starIndex of
             Some star \<Rightarrow>
               if retry < stop \<and> (\<not> slashSensitive \<or> byte_at bs retry \<noteq> Some SLASH)
               then det_loop tokens bs stop maxWork slashSensitive (star + 1) (retry + 1) starIndex (retry + 1) (work + 1)
               else (False, work + 1)
           | None \<Rightarrow> (False, work + 1))
      else star_tail tokens maxWork tokenIndex work)"
  by pat_completeness auto
termination
proof (relation "measures [\<lambda>(_, _, _, _, _, _, byteIndex, _, retry, _). if retry \<le> byteIndex then 0 else 1,
      \<lambda>(tokens, _, stop, _, _, tokenIndex, _, _, retry, _). remaining_work tokens stop tokenIndex retry]", goal_cases)
  case (2 tokens bs stop maxWork slashSensitive tokenIndex byteIndex starIndex retry work)
  then have "tokenIndex < length tokens" by (auto simp: token_matches_def charCodeAt_def split: option.splits if_splits)
  then show ?case using remaining_token [of tokenIndex tokens stop retry] by auto
next
  case (3 tokens bs stop maxWork slashSensitive tokenIndex byteIndex starIndex retry work)
  then have "tokenIndex < length tokens" by (auto simp: charCodeAt_def split: if_splits)
  then show ?case using remaining_star [of tokenIndex tokens retry byteIndex stop] by auto
next
  case (4 tokens bs stop maxWork slashSensitive tokenIndex byteIndex starIndex retry work star)
  then show ?case using remaining_retry [of retry stop tokens star tokenIndex] by auto
qed simp

declare det_loop.simps [simp del]

definition matchDeterministic :: "Token list \<Rightarrow> bytes \<Rightarrow> nat \<Rightarrow> nat \<Rightarrow> int \<Rightarrow> bool \<Rightarrow> match_result" where
  "matchDeterministic tokens bs start stop maxWork slashSensitive =
     det_loop tokens bs stop maxWork slashSensitive 0 start None start 0"

section \<open>Bit masks\<close>

abbreviation maskHas :: "words \<Rightarrow> nat \<Rightarrow> bool" where
  "maskHas \<equiv> has_bit"

abbreviation maskSet :: "words \<Rightarrow> nat \<Rightarrow> words" where
  "maskSet \<equiv> set_bit_at"

text \<open>\<open>Math.clz32\<close>, and the number of the only bit of \<open>pending & -pending\<close>.\<close>

definition clz32 :: "32 word \<Rightarrow> nat" where
  "clz32 w = length (takeWhile (\<lambda>i. \<not> bit w (31 - i)) [0..<32])"

definition low_bit :: "32 word \<Rightarrow> 32 word" where
  "low_bit w = w AND - w"

definition low_index :: "32 word \<Rightarrow> nat" where
  "low_index w = 31 - clz32 (low_bit w)"

lemma word_low_bit_ex: "(w :: 32 word) \<noteq> 0 \<Longrightarrow> \<exists>k < 32. bit w k \<and> (\<forall>j < k. \<not> bit w j)"
proof -
  assume "w \<noteq> 0"
  then obtain n where n: "bit w n" using bit_eqI [of w 0] by auto
  define k where "k = (LEAST k. bit w k)"
  have "bit w k" unfolding k_def using n by (rule LeastI)
  moreover have "\<not> bit w j" if "j < k" for j using that not_less_Least unfolding k_def by blast
  moreover have "k < 32" using bit_imp_le_length [OF \<open>bit w k\<close>] by simp
  ultimately show ?thesis by blast
qed

lemma low_bit_exp:
  assumes "bit (w :: 32 word) k" "\<And>j. j < k \<Longrightarrow> \<not> bit w j"
  shows "low_bit w = push_bit k 1"
proof -
  have k: "k < 32" using bit_imp_le_length [OF assms(1)] by simp
  define v where "v = drop_bit k w"
  have w: "w = push_bit k v"
  proof (rule bit_eqI)
    fix n
    show "bit w n = bit (push_bit k v) n"
      using assms(2) [of n] bit_imp_le_length [of w n] by (cases "n < k") (auto simp: v_def bit_push_bit_iff bit_drop_bit_eq)
  qed
  have v: "odd v" using assms(1) by (simp add: v_def bit_iff_odd_drop_bit)
  have "- w = push_bit k (- v)" by (simp add: w push_bit_minus)
  moreover have "v AND - v = 1"
  proof (rule bit_eqI)
    fix n
    have "\<not> bit (v - 1) 0" using v by (simp add: bit_0)
    then show "bit (v AND - v) n = bit (1 :: 32 word) n"
      using odd_bit_iff_bit_pred [OF v, of n] bit_imp_le_length [of v n]
      by (cases "n = 0") (auto simp: bit_and_iff bit_minus_iff bit_1_iff bit_0 even_and_iff)
  qed
  ultimately show ?thesis by (simp add: low_bit_def w flip: push_bit_and)
qed

lemma clz32_exp: "k < 32 \<Longrightarrow> clz32 (2 ^ k) = 31 - k"
proof -
  assume k: "k < 32"
  then have "[0..<32] = [0..<31 - k] @ (31 - k) # [Suc (31 - k)..<32]"
    using upt_add_eq_append [of 0 "31 - k" "Suc k"] by (simp add: upt_conv_Cons)
  moreover have "takeWhile P ([0..<31 - k] @ (31 - k) # zs) = [0..<31 - k]"
    if "P = (\<lambda>i. \<not> bit (2 ^ k :: 32 word) (31 - i))" for P zs
    using k that by (subst takeWhile_append2) (auto simp: bit_exp_iff)
  ultimately show ?thesis by (simp add: clz32_def)
qed

lemma low_index_props:
  assumes "w \<noteq> 0"
  shows "low_index w < 32" "bit w (low_index w)" "\<And>j. j < low_index w \<Longrightarrow> \<not> bit w j" "low_bit w = push_bit (low_index w) 1"
proof -
  obtain k where k: "k < 32" "bit w k" "\<And>j. j < k \<Longrightarrow> \<not> bit w j" using word_low_bit_ex [OF assms] by blast
  have b: "low_bit w = push_bit k 1" by (rule low_bit_exp [OF k(2,3)])
  then have i: "low_index w = k" using k(1) by (simp add: low_index_def clz32_exp)
  show "low_index w < 32" "bit w (low_index w)" "\<And>j. j < low_index w \<Longrightarrow> \<not> bit w j" "low_bit w = push_bit (low_index w) 1"
    using k b by (simp_all add: i)
qed

lemma bit_clear_low: "w \<noteq> 0 \<Longrightarrow> bit (w AND NOT (low_bit w)) n \<longleftrightarrow> bit w n \<and> n \<noteq> low_index w"
  using low_index_props [of w] bit_imp_le_length [of w n]
  by (auto simp: bit_and_iff bit_not_iff bit_exp_iff)

text \<open>The bits above the lowest are the ones a step leaves, so the lowest bit moves up.\<close>

lemma low_index_up:
  assumes "w \<noteq> 0" "w' \<noteq> 0" "\<And>n. bit w' n \<Longrightarrow> low_index w < n"
  shows "32 - low_index w' < 32 - low_index w"
proof -
  have "low_index w < low_index w'" using assms(3) low_index_props(2) [OF assms(2)] by simp
  then show ?thesis using low_index_props(1) [OF assms(2)] by simp
qed

definition pending_left :: "32 word \<Rightarrow> nat" where
  "pending_left w = (if w = 0 then 0 else 32 - low_index w)"

lemma pending_left_less: "w \<noteq> 0 \<Longrightarrow> (\<And>n. bit w' n \<Longrightarrow> low_index w < n) \<Longrightarrow> pending_left w' < pending_left w"
  using low_index_up [of w w'] low_index_props(1) [of w] by (auto simp: pending_left_def)

lemma clear_low_up: "w \<noteq> 0 \<Longrightarrow> bit (w AND NOT (low_bit w)) n \<Longrightarrow> low_index w < n"
  using low_index_props(3) [of w n] by (auto simp: bit_clear_low) (metis linorder_neqE_nat)

section \<open>The automaton\<close>

definition eps_target :: "NfaState list \<Rightarrow> nat \<Rightarrow> nat option" where
  "eps_target states index =
     (case map_option ns_kind (charCodeAt states index) of
        Some NStar \<Rightarrow> Some (index + 1)
      | Some StarAny \<Rightarrow> Some (index + 1)
      | Some GlobBoundary \<Rightarrow> Some (index + 2)
      | _ \<Rightarrow> None)"

lemma eps_target_up: "eps_target states index = Some target \<Longrightarrow> index < target"
  by (auto simp: eps_target_def split: option.splits NfaKind.splits)

definition mark_pending :: "nat \<Rightarrow> nat \<Rightarrow> 32 word \<Rightarrow> 32 word" where
  "mark_pending word target pending =
     (if target div 32 = word then pending OR push_bit (target mod 32) 1 else pending)"

lemma bit_mark_pending: "bit (mark_pending word target pending) n \<longleftrightarrow> bit pending n \<or> target = word * 32 + n \<and> n < 32"
proof -
  have "target = word * 32 + n \<and> n < 32 \<longleftrightarrow> target div 32 = word \<and> n = target mod 32"
    using div_mult_mod_eq [of target 32] by auto
  then show ?thesis by (auto simp: mark_pending_def bit_or_iff bit_exp_iff)
qed

text \<open>The bits of one word: the mask, the work done, and whether the limit stopped it.\<close>

function eps_word :: "NfaState list \<Rightarrow> int \<Rightarrow> nat \<Rightarrow> 32 word \<Rightarrow> words \<Rightarrow> int \<Rightarrow> words \<times> int \<times> bool" where
  "eps_word states maxWork word pending msk work =
     (if pending \<noteq> 0 then
        let pending1 = pending AND NOT (low_bit pending)
        in if work + 1 > maxWork then (msk, work + 1, True)
           else
             (case eps_target states (word * 32 + low_index pending) of
                None \<Rightarrow> eps_word states maxWork word pending1 msk (work + 1)
              | Some target \<Rightarrow>
                  if maskHas msk target then eps_word states maxWork word pending1 msk (work + 1)
                  else eps_word states maxWork word (mark_pending word target pending1) (maskSet msk target) (work + 1))
      else (msk, work, False))"
  by pat_completeness auto
termination
proof (relation "measure (\<lambda>(_, _, _, pending, _, _). pending_left pending)", goal_cases)
  case (4 states maxWork word pending msk work x target)
  then show ?case
    by (auto simp: bit_mark_pending dest: clear_low_up dest!: eps_target_up intro!: pending_left_less)
qed (auto intro!: pending_left_less dest: clear_low_up)

declare eps_word.simps [simp del]

fun eps_from :: "NfaState list \<Rightarrow> int \<Rightarrow> nat list \<Rightarrow> words \<Rightarrow> int \<Rightarrow> words \<times> int" where
  "eps_from states maxWork [] msk work = (msk, work)"
| "eps_from states maxWork (word # ws) msk work =
     (case eps_word states maxWork word (word_at msk word) msk work of
        (msk1, work1, stopped) \<Rightarrow> if stopped then (msk1, work1) else eps_from states maxWork ws msk1 work1)"

definition epsilon :: "NfaState list \<Rightarrow> words \<Rightarrow> int \<Rightarrow> words \<times> int" where
  "epsilon states msk maxWork = eps_from states maxWork [0..<length msk] msk 0"

text \<open>The states one byte leads to; a write below index 0 is lost like every write out of range.\<close>

definition step_state :: "NfaState \<Rightarrow> nat \<Rightarrow> byte \<Rightarrow> words \<Rightarrow> words" where
  "step_state state index b nxt =
     (case ns_kind state of
        NStar \<Rightarrow> if b \<noteq> SLASH then maskSet nxt index else nxt
      | StarAny \<Rightarrow> maskSet nxt index
      | GlobBoundary \<Rightarrow> if b = SLASH then maskSet nxt index else maskSet nxt (index + 1)
      | GlobBody \<Rightarrow> if b = SLASH then (if index = 0 then nxt else maskSet nxt (index - 1)) else maskSet nxt index
      | NLiteral \<Rightarrow> if ns_byte state = b then maskSet nxt (index + 1) else nxt
      | NAny \<Rightarrow> if b \<noteq> SLASH then maskSet nxt (index + 1) else nxt
      | NClass \<Rightarrow>
          (case ns_bits state of
             None \<Rightarrow> nxt
           | Some bits \<Rightarrow> if bitHas bits b then maskSet nxt (index + 1) else nxt))"

function step_word :: "NfaState list \<Rightarrow> int \<Rightarrow> nat \<Rightarrow> byte \<Rightarrow> 32 word \<Rightarrow> words \<Rightarrow> int \<Rightarrow> words \<times> int \<times> bool" where
  "step_word states maxWork word b pending nxt work =
     (if pending \<noteq> 0 then
        let pending1 = pending AND NOT (low_bit pending); index = word * 32 + low_index pending
        in if work + 1 > maxWork then (nxt, work + 1, True)
           else
             (case charCodeAt states index of
                None \<Rightarrow> step_word states maxWork word b pending1 nxt (work + 1)
              | Some state \<Rightarrow> step_word states maxWork word b pending1 (step_state state index b nxt) (work + 1))
      else (nxt, work, False))"
  by pat_completeness auto
termination
  by (relation "measure (\<lambda>(_, _, _, _, pending, _, _). pending_left pending)")
    (auto intro!: pending_left_less dest: clear_low_up)

declare step_word.simps [simp del]

fun step_from :: "NfaState list \<Rightarrow> int \<Rightarrow> byte \<Rightarrow> nat list \<Rightarrow> words \<Rightarrow> words \<Rightarrow> int \<Rightarrow> words \<times> int \<times> bool" where
  "step_from states maxWork b [] current nxt work = (nxt, work, False)"
| "step_from states maxWork b (word # ws) current nxt work =
     (case step_word states maxWork word b (word_at current word) nxt work of
        (next1, work1, stopped) \<Rightarrow>
          if stopped then (next1, work1, True) else step_from states maxWork b ws current next1 work1)"

definition nfaStep :: "NfaState list \<Rightarrow> words \<Rightarrow> words \<Rightarrow> byte \<Rightarrow> int \<Rightarrow> words \<times> int" where
  "nfaStep states current nxt b maxWork =
     (case step_from states maxWork b [0..<length current] current (replicate (length nxt) 0) 0 of
        (next1, work, stopped) \<Rightarrow>
          if stopped then (next1, work)
          else (case epsilon states next1 (maxWork - work) of (next2, more_work) \<Rightarrow> (next2, work + more_work)))"

definition nfaMask :: "NfaState list \<Rightarrow> words" where
  "nfaMask states = replicate ((length states + 1 + 31) div 32) 0"

section \<open>Literals\<close>

fun compare_run :: "bytes \<Rightarrow> nat \<Rightarrow> bytes \<Rightarrow> bool" where
  "compare_run left at [] = True"
| "compare_run left at (r # right) = (if byte_at left at \<noteq> Some r then False else compare_run left (at + 1) right)"

definition equal_range :: "bytes \<Rightarrow> nat \<Rightarrow> nat \<Rightarrow> bytes \<Rightarrow> bool" where
  "equal_range left leftStart leftEnd right =
     (if int leftEnd - int leftStart \<noteq> int (length right) then False else compare_run left leftStart right)"

text \<open>A bounded comparison from a position on, one step per byte.\<close>

fun compare_work :: "bytes \<Rightarrow> nat \<Rightarrow> bytes \<Rightarrow> int \<Rightarrow> int \<Rightarrow> match_result" where
  "compare_work bs at [] maxWork work = (True, work)"
| "compare_work bs at (r # right) maxWork work =
     (if work + 1 > maxWork then (False, work + 1)
      else if byte_at bs at \<noteq> Some r then (False, work + 1)
      else compare_work bs (at + 1) right maxWork (work + 1))"

definition prefixMatch :: "bytes \<Rightarrow> bytes \<Rightarrow> nat \<Rightarrow> int \<Rightarrow> match_result" where
  "prefixMatch prefix bs start maxWork =
     (if 1 > maxWork \<or> int (length bs) - int start < int (length prefix) then (False, 1)
      else compare_work bs start prefix maxWork 1)"

definition suffixMatch :: "bytes \<Rightarrow> bytes \<Rightarrow> nat \<Rightarrow> int \<Rightarrow> match_result" where
  "suffixMatch suff bs stop maxWork =
     (if 1 > maxWork \<or> stop < length suff then (False, 1)
      else compare_work bs (stop - length suff) suff maxWork 1)"

definition compareLiteralBytes :: "bytes \<Rightarrow> nat \<Rightarrow> nat \<Rightarrow> bytes \<Rightarrow> int \<Rightarrow> match_result" where
  "compareLiteralBytes path start stop literal maxWork =
     (if 1 > maxWork \<or> int stop - int start \<noteq> int (length literal) then (False, 1)
      else compare_work path start literal maxWork 1)"

text \<open>A prefilter runs only when it has bytes to compare; what follows it runs only when it matched within the limit.\<close>

definition after_filter :: "match_result \<Rightarrow> int \<Rightarrow> int \<Rightarrow> (int \<Rightarrow> match_result) \<Rightarrow> match_result" where
  "after_filter filtered work maxWork go =
     (case filtered of (m, w) \<Rightarrow> if \<not> m \<or> work + w > maxWork then (False, work + w) else go (work + w))"

definition then_match :: "DetProgram \<Rightarrow> bytes \<Rightarrow> nat \<Rightarrow> nat \<Rightarrow> int \<Rightarrow> bool \<Rightarrow> int \<Rightarrow> match_result" where
  "then_match compiled bs start stop maxWork slashSensitive work =
     (case matchDeterministic (dp_tokens compiled) bs start stop (maxWork - work) slashSensitive of (m, w) \<Rightarrow> (m, work + w))"

definition then_suffix :: "DetProgram \<Rightarrow> bytes \<Rightarrow> nat \<Rightarrow> nat \<Rightarrow> int \<Rightarrow> bool \<Rightarrow> int \<Rightarrow> match_result" where
  "then_suffix compiled bs start stop maxWork slashSensitive work =
     (if length (dp_literalSuffix compiled) > 0
      then after_filter (suffixMatch (dp_literalSuffix compiled) bs stop (maxWork - work)) work maxWork
             (then_match compiled bs start stop maxWork slashSensitive)
      else then_match compiled bs start stop maxWork slashSensitive work)"

definition deterministicMatch :: "DetProgram \<Rightarrow> bytes \<Rightarrow> nat \<Rightarrow> nat \<Rightarrow> int \<Rightarrow> bool \<Rightarrow> match_result" where
  "deterministicMatch compiled bs start stop maxWork slashSensitive =
     (if length (dp_literalPrefix compiled) > 0
      then after_filter (prefixMatch (dp_literalPrefix compiled) bs start maxWork) 0 maxWork
             (then_suffix compiled bs start stop maxWork slashSensitive)
      else then_suffix compiled bs start stop maxWork slashSensitive 0)"

section \<open>Paths\<close>

definition nat_at :: "nat list \<Rightarrow> nat \<Rightarrow> nat \<Rightarrow> nat" where
  "nat_at xs i otherwise = (case charCodeAt xs i of None \<Rightarrow> otherwise | Some n \<Rightarrow> n)"

fun nfa_run :: "NfaState list \<Rightarrow> bytes \<Rightarrow> words \<Rightarrow> words \<Rightarrow> words" where
  "nfa_run states [] current nxt = current"
| "nfa_run states (b # bs) current nxt = nfa_run states bs (fst (nfaStep states current nxt b unlimited)) current"

definition finalMatch :: "Compiled \<Rightarrow> EncodedPath \<Rightarrow> bool" where
  "finalMatch compiled path =
     (if compiled = Never \<or> ep_segments path = 0 then False
      else
        let last = ep_segments path - 1;
            start = nat_at (ep_starts path) last 0;
            stop = nat_at (ep_ends path) last (length (ep_bytes path))
        in case compiled of
             LiteralBasename literal \<Rightarrow> equal_range (ep_bytes path) start stop literal
           | LiteralPath literal \<Rightarrow> equal_range (ep_bytes path) 0 (length (ep_bytes path)) literal
           | Deterministic p \<Rightarrow>
               fst (if dp_anchored p then deterministicMatch p (ep_bytes path) 0 (length (ep_bytes path)) unlimited True
                    else deterministicMatch p (ep_bytes path) start stop unlimited True)
           | Nfa states prefix \<Rightarrow>
               if \<not> fst (prefixMatch prefix (ep_bytes path) 0 unlimited) then False
               else
                 let current = fst (epsilon states (maskSet (nfaMask states) 0) unlimited)
                 in maskHas (nfa_run states (ep_bytes path) current (nfaMask states)) (length states)
           | Never \<Rightarrow> False)"

definition slice :: "'a list \<Rightarrow> nat \<Rightarrow> nat \<Rightarrow> 'a list" where
  "slice xs lo hi = take (hi - lo) (drop lo xs)"

text \<open>A bounded run of the automaton: both buffers, the work, and whether the limit stopped it.\<close>

fun nfa_bytes :: "NfaState list \<Rightarrow> int \<Rightarrow> bytes \<Rightarrow> words \<Rightarrow> words \<Rightarrow> int \<Rightarrow> words \<times> words \<times> int \<times> bool" where
  "nfa_bytes states maxWork [] current nxt work = (current, nxt, work, False)"
| "nfa_bytes states maxWork (b # bs) current nxt work =
     (case nfaStep states current nxt b (maxWork - work) of
        (next1, w) \<Rightarrow>
          if work + w > maxWork then (current, next1, work + w, True)
          else nfa_bytes states maxWork bs next1 current (work + w))"

definition depth_accepted :: "IgnorePattern \<Rightarrow> EncodedPath \<Rightarrow> bool \<Rightarrow> nat \<Rightarrow> bool" where
  "depth_accepted pattern path isDirectory depth =
     (\<not> ip_directoryOnly pattern \<or> depth < ep_segments path \<or> isDirectory)"

definition accepts :: "IgnorePattern \<Rightarrow> EncodedPath \<Rightarrow> bool \<Rightarrow> nat \<Rightarrow> nat list" where
  "accepts pattern path isDirectory depth = (if depth_accepted pattern path isDirectory depth then [depth] else [])"

definition basename_depths :: "IgnorePattern \<Rightarrow> EncodedPath \<Rightarrow> bool \<Rightarrow> bytes \<Rightarrow> nat list \<Rightarrow> nat list" where
  "basename_depths pattern path isDirectory literal depths =
     concat (map (\<lambda>depth.
       if equal_range (ep_bytes path) (nat_at (ep_starts path) (depth - 1) 0) (nat_at (ep_ends path) (depth - 1) 0) literal
       then accepts pattern path isDirectory depth else []) depths)"

fun glob_depths :: "DetProgram \<Rightarrow> IgnorePattern \<Rightarrow> EncodedPath \<Rightarrow> bool \<Rightarrow> int \<Rightarrow> nat list \<Rightarrow> nat list \<Rightarrow> int \<Rightarrow> nat list \<times> int" where
  "glob_depths p pattern path isDirectory maxWork [] found work = (found, work)"
| "glob_depths p pattern path isDirectory maxWork (depth # depths) found work =
     (case deterministicMatch p (ep_bytes path) (nat_at (ep_starts path) (depth - 1) 0) (nat_at (ep_ends path) (depth - 1) 0)
             (maxWork - work) True of
        (m, w) \<Rightarrow>
          if work + w > maxWork then (found, work + w)
          else glob_depths p pattern path isDirectory maxWork depths
                 (if m then found @ accepts pattern path isDirectory depth else found) (work + w))"

text \<open>The bytes the automaton reads for a depth: the separator, but before the first, and the segment.\<close>

definition depth_bytes :: "EncodedPath \<Rightarrow> nat \<Rightarrow> nat \<Rightarrow> nat \<Rightarrow> bytes" where
  "depth_bytes path start firstDepth depth =
     (let stop = nat_at (ep_ends path) (depth - 1) (length (ep_bytes path));
          lo = (if depth = firstDepth then start else nat_at (ep_starts path) (depth - 1) stop)
      in (if depth > firstDepth then [SLASH] else []) @ slice (ep_bytes path) lo stop)"

fun nfa_depths :: "NfaState list \<Rightarrow> IgnorePattern \<Rightarrow> EncodedPath \<Rightarrow> bool \<Rightarrow> int \<Rightarrow> nat \<Rightarrow> nat \<Rightarrow> nat list \<Rightarrow>
    words \<Rightarrow> words \<Rightarrow> nat list \<Rightarrow> int \<Rightarrow> nat list \<times> int" where
  "nfa_depths states pattern path isDirectory maxWork start firstDepth [] current nxt found work = (found, work)"
| "nfa_depths states pattern path isDirectory maxWork start firstDepth (depth # depths) current nxt found work =
     (case nfa_bytes states maxWork (depth_bytes path start firstDepth depth) current nxt work of
        (current1, next1, work1, stopped) \<Rightarrow>
          if stopped then (found, work1)
          else nfa_depths states pattern path isDirectory maxWork start firstDepth depths current1 next1
                 (if maskHas current1 (length states) then found @ accepts pattern path isDirectory depth else found) work1)"

definition count_slashes :: "bytes \<Rightarrow> nat" where
  "count_slashes bs = length (filter (\<lambda>b. b = SLASH) bs)"

definition matchPatternDepths :: "IgnorePattern \<Rightarrow> EncodedPath \<Rightarrow> nat \<Rightarrow> bool \<Rightarrow> int \<Rightarrow> nat list \<times> int" where
  "matchPatternDepths pattern path sourceDepth isDirectory maxWork =
     (let firstDepth = sourceDepth + 1; depths = [firstDepth..<ep_segments path + 1];
          start = nat_at (ep_starts path) sourceDepth 0
      in if ip_compiled pattern = Never \<or> firstDepth > ep_segments path then ([], 0)
         else case ip_compiled pattern of
           Never \<Rightarrow> ([], 0)
         | LiteralBasename literal \<Rightarrow> (basename_depths pattern path isDirectory literal depths, 0)
         | LiteralPath literal \<Rightarrow>
             let depth = sourceDepth + (count_slashes literal + 1)
             in (case charCodeAt (ep_ends path) (depth - 1) of
                   None \<Rightarrow> ([], 0)
                 | Some stop \<Rightarrow>
                     (if equal_range (ep_bytes path) start stop literal then accepts pattern path isDirectory depth else [], 0))
         | Deterministic p \<Rightarrow>
             if \<not> dp_anchored p then glob_depths p pattern path isDirectory maxWork depths [] 0
             else
               let depth = sourceDepth + dp_targetSegments p
               in (case charCodeAt (ep_ends path) (depth - 1) of
                     None \<Rightarrow> ([], 0)
                   | Some stop \<Rightarrow>
                       (case deterministicMatch p (ep_bytes path) start stop maxWork True of
                          (m, w) \<Rightarrow> (if m then accepts pattern path isDirectory depth else [], w)))
         | Nfa states prefix \<Rightarrow>
             (case prefixMatch prefix (ep_bytes path) start maxWork of
                (m, w) \<Rightarrow>
                  if \<not> m \<or> w > maxWork then ([], w)
                  else
                    (case epsilon states (maskSet (nfaMask states) 0) (maxWork - w) of
                       (current, w1) \<Rightarrow>
                         if w + w1 > maxWork then ([], w + w1)
                         else nfa_depths states pattern path isDirectory maxWork start firstDepth depths current
                                (nfaMask states) [] (w + w1))))"

end
