(* ===== verification/IgnoreCompile.thy ===== *)
theory IgnoreCompile
  imports IgnoreMatch Utf8
begin

text \<open>
  Compilation of rule lines (\<open>packages/git/src/ignore/pattern-compile.ts\<close>) and of whole-path globs
  (\<open>byte-glob.ts\<close>). The compiled program the module keeps in a weak map for each pattern is a field of the pattern.
\<close>

section \<open>Encoded paths\<close>

text \<open>The boundaries of the segments: where each starts and ends, the last one at the end of the path.\<close>

fun segment_bounds :: "bytes \<Rightarrow> nat \<Rightarrow> nat \<Rightarrow> nat list \<times> nat list" where
  "segment_bounds [] index start = ([start], [index])"
| "segment_bounds (b # bs) index start =
     (if b \<noteq> SLASH then segment_bounds bs (index + 1) start
      else (case segment_bounds bs (index + 1) (index + 1) of (starts, ends) \<Rightarrow> (start # starts, index # ends)))"

definition encoded :: "bytes \<Rightarrow> EncodedPath" where
  "encoded bs =
     (case segment_bounds bs 0 0 of
        (starts, ends) \<Rightarrow> \<lparr>ep_bytes = bs, ep_starts = starts, ep_ends = ends, ep_segments = count_slashes bs + 1\<rparr>)"

definition encodePath :: "jstring \<Rightarrow> EncodedPath" where
  "encodePath path = encoded (utf8_encode path)"

section \<open>Rule lines\<close>

function trim_spaces :: "bytes \<Rightarrow> nat \<Rightarrow> nat" where
  "trim_spaces line stop =
     (if stop > 0 \<and> byte_at line (stop - 1) = Some 0x20 \<and> \<not> escaped line (stop - 1) then trim_spaces line (stop - 1) else stop)"
  by pat_completeness auto
termination by (relation "measure snd") auto

declare trim_spaces.simps [simp del]

text \<open>A slash between \<open>index\<close> and \<open>stop\<close>, escaped or not, anchors a pattern.\<close>

function anchored_from :: "bytes \<Rightarrow> nat \<Rightarrow> nat \<Rightarrow> bool" where
  "anchored_from line index stop =
     (if index < stop then
        if byte_at line index = Some SLASH \<or> byte_at line index = Some BACKSLASH \<and> byte_at line (index + 1) = Some SLASH
        then True
        else if byte_at line index = Some BACKSLASH then anchored_from line (index + 2) stop
        else anchored_from line (index + 1) stop
      else False)"
  by pat_completeness auto
termination by (relation "measure (\<lambda>(_, index, stop). stop - index)") auto

declare anchored_from.simps [simp del]

definition det_program :: "bool \<Rightarrow> ParsedTokens \<Rightarrow> nat \<Rightarrow> DetProgram" where
  "det_program anchored parsed segments =
     \<lparr>dp_anchored = anchored, dp_tokens = pt_tokens parsed, dp_literalPrefix = literalEdge (pt_tokens parsed) True,
      dp_literalSuffix = literalEdge (pt_tokens parsed) False, dp_hasStar = pt_hasStar parsed, dp_targetSegments = segments\<rparr>"

definition compile_body :: "bool \<Rightarrow> bytes \<Rightarrow> Compiled" where
  "compile_body anchored body =
     (case (if anchored then leadingGlobstarBasename body else None) of
        Some globstarBasename \<Rightarrow>
          let parsed = tokensOf globstarBasename no_options
          in if \<not> pt_valid parsed then Never
             else (case literalOf (pt_tokens parsed) of
                     Some literal \<Rightarrow> LiteralBasename literal
                   | None \<Rightarrow> Deterministic (det_program False parsed 1))
      | None \<Rightarrow>
          if anchored \<and> hasGlobstar body then
            (case compileNfa body of None \<Rightarrow> Never | Some states \<Rightarrow> Nfa states (nfaLiteralPrefix states))
          else
            let parsed = tokensOf body no_options
            in if \<not> pt_valid parsed then Never
               else (case literalOf (pt_tokens parsed) of
                       Some literal \<Rightarrow> if anchored then LiteralPath literal else LiteralBasename literal
                     | None \<Rightarrow> Deterministic (det_program anchored parsed (targetSegments (pt_tokens parsed)))))"

definition is_iterative :: "Compiled \<Rightarrow> bool" where
  "is_iterative compiled =
     (case compiled of Nfa _ _ \<Rightarrow> True | Deterministic p \<Rightarrow> dp_hasStar p | _ \<Rightarrow> False)"

text \<open>The part of a line without its \<open>!\<close> and its trailing slash: where it starts and ends, and whether only directories match.\<close>

definition strip_slash :: "bytes \<Rightarrow> nat \<Rightarrow> nat \<Rightarrow> bool \<times> nat" where
  "strip_slash line start stop =
     (if byte_at line (stop - 1) = Some SLASH
      then (True, if stop - 1 > start \<and> byte_at line (stop - 2) = Some BACKSLASH \<and> escaped line (stop - 1)
                  then stop - 2 else stop - 1)
      else (False, stop))"

definition leading_slash :: "bytes \<Rightarrow> nat \<Rightarrow> nat" where
  "leading_slash line start =
     (if byte_at line start = Some SLASH then 1
      else if byte_at line start = Some BACKSLASH \<and> byte_at line (start + 1) = Some SLASH then 2 else 0)"

definition compilePatternBytes :: "bytes \<Rightarrow> IgnorePattern option" where
  "compilePatternBytes line =
     (let stop = trim_spaces line (length line)
      in if stop \<le> 0 \<or> byte_at line 0 = Some 0x23 then None
         else
           let negated = (byte_at line 0 = Some 0x21); start = (if negated then 1 else 0)
           in if stop \<le> start then None
              else
                let (directoryOnly, stop1) = strip_slash line start stop
                in if stop1 \<le> start then None
                   else
                     let lead = leading_slash line start; start1 = start + lead;
                         anchored = (lead > 0 \<or> anchored_from line start1 stop1);
                         compiled = compile_body anchored (slice line start1 stop1)
                     in Some \<lparr>ip_negated = negated, ip_directoryOnly = directoryOnly,
                              ip_iterative = is_iterative compiled, ip_compiled = compiled\<rparr>)"

definition pattern_test :: "IgnorePattern \<Rightarrow> jstring \<Rightarrow> bool" where
  "pattern_test pattern relative = finalMatch (ip_compiled pattern) (encodePath relative)"

definition compilePattern :: "jstring \<Rightarrow> IgnorePattern option" where
  "compilePattern line = compilePatternBytes (utf8_encode line)"

definition patternLiteral :: "IgnorePattern \<Rightarrow> (bool \<times> bytes) option" where
  "patternLiteral pattern =
     (case ip_compiled pattern of
        LiteralBasename literal \<Rightarrow> Some (True, literal)
      | LiteralPath literal \<Rightarrow> Some (False, literal)
      | _ \<Rightarrow> None)"

definition patternMatchesNever :: "IgnorePattern \<Rightarrow> bool" where
  "patternMatchesNever pattern = (ip_compiled pattern = Never)"

section \<open>Whole-path globs\<close>

record ByteGlobPattern =
  bg_literal :: "bytes option"
  bg_literalPrefix :: bytes
  bg_tokenCount :: nat
  bg_wildcardTokens :: nat
  bg_match :: "bytes \<Rightarrow> int option \<Rightarrow> match_result"

definition glob_match :: "DetProgram \<Rightarrow> bool \<Rightarrow> bytes \<Rightarrow> int option \<Rightarrow> match_result" where
  "glob_match compiled slashSensitive path maxWork =
     deterministicMatch compiled path 0 (length path) (case maxWork of None \<Rightarrow> unlimited | Some n \<Rightarrow> n) slashSensitive"

definition compileByteGlob :: "bytes \<Rightarrow> TokenOptions \<Rightarrow> ByteGlobPattern option" where
  "compileByteGlob bs options =
     (let slashSensitive = (case to_slashSensitive options of None \<Rightarrow> True | Some s \<Rightarrow> s);
          parsed = tokensOf bs (options\<lparr>to_slashSensitive := Some slashSensitive\<rparr>)
      in if \<not> pt_valid parsed then None
         else Some
           \<lparr>bg_literal = literalOf (pt_tokens parsed),
            bg_literalPrefix = literalEdge (pt_tokens parsed) True,
            bg_tokenCount = length (pt_tokens parsed),
            bg_wildcardTokens = length (filter (\<lambda>t. tk_kind t \<noteq> Literal) (pt_tokens parsed)),
            bg_match = glob_match (det_program True parsed 1) slashSensitive\<rparr>)"

end
