(* ===== verification/IgnoreGlob.thy ===== *)
theory IgnoreGlob
  imports IgnoreCompile
begin

text \<open>
  The glob matcher against the meaning of a glob: a star stands for any bytes, none of them a slash where slashes
  matter, and every other token for one byte. The matcher retries its last star only; that this loses nothing, that
  the literal prefilters refuse nothing, and how many steps it can take at most, is shown here.
\<close>

section \<open>The meaning of a glob\<close>

fun glob :: "bool \<Rightarrow> Token list \<Rightarrow> bytes \<Rightarrow> bool" where
  "glob ss [] bs = (bs = [])"
| "glob ss (t # ts) [] = (tk_kind t = Star \<and> glob ss ts [])"
| "glob ss (t # ts) (b # bs) =
     (if tk_kind t = Star then glob ss ts (b # bs) \<or> (ss \<longrightarrow> b \<noteq> SLASH) \<and> glob ss (t # ts) bs
      else matchToken t b ss \<and> glob ss ts bs)"

definition no_slash :: "bool \<Rightarrow> bytes \<Rightarrow> bool" where
  "no_slash ss bs = (ss \<longrightarrow> SLASH \<notin> set bs)"

lemma no_slash_simps [simp]:
  "no_slash ss []" "no_slash ss (b # bs) \<longleftrightarrow> (ss \<longrightarrow> b \<noteq> SLASH) \<and> no_slash ss bs"
  "no_slash ss (u @ v) \<longleftrightarrow> no_slash ss u \<and> no_slash ss v"
  by (auto simp: no_slash_def)

lemma ex_append_Cons: "(\<exists>u v. b # bs = u @ v \<and> P u v) \<longleftrightarrow> P [] (b # bs) \<or> (\<exists>u v. bs = u @ v \<and> P (b # u) v)"
  by (auto simp: Cons_eq_append_conv)

lemma glob_star:
  "tk_kind t = Star \<Longrightarrow> glob ss (t # ts) bs \<longleftrightarrow> (\<exists>u v. bs = u @ v \<and> no_slash ss u \<and> glob ss ts v)"
proof (induction bs)
  case (Cons b bs)
  show ?case
  proof (cases "glob ss ts (b # bs)")
    case True
    then show ?thesis using Cons.prems by (auto intro: exI [of _ "[]"])
  next
    case False
    have "(\<exists>u v. b # bs = u @ v \<and> no_slash ss u \<and> glob ss ts v) \<longleftrightarrow>
        (ss \<longrightarrow> b \<noteq> SLASH) \<and> (\<exists>u v. bs = u @ v \<and> no_slash ss u \<and> glob ss ts v)"
      using False by (simp only: ex_append_Cons) auto
    then show ?thesis using Cons False by simp
  qed
qed simp

lemma glob_star_skip: "tk_kind t = Star \<Longrightarrow> no_slash ss u \<Longrightarrow> glob ss (t # ts) v \<Longrightarrow> glob ss (t # ts) (u @ v)"
  by (induction u) auto

abbreviation plain :: "Token list \<Rightarrow> bool" where
  "plain w \<equiv> \<forall>t \<in> set w. tk_kind t \<noteq> Star"

definition tokens_at :: "bool \<Rightarrow> Token list \<Rightarrow> bytes \<Rightarrow> bool" where
  "tokens_at ss w bs = list_all2 (\<lambda>t b. matchToken t b ss) w bs"

lemma tokens_at_length: "tokens_at ss w bs \<Longrightarrow> length bs = length w"
  by (auto simp: tokens_at_def dest: list_all2_lengthD)

lemma glob_plain:
  "plain w \<Longrightarrow> glob ss (w @ ts) bs \<longleftrightarrow> (\<exists>u v. bs = u @ v \<and> tokens_at ss w u \<and> glob ss ts v)"
proof (induction w arbitrary: bs)
  case Nil
  then show ?case by (simp add: tokens_at_def)
next
  case (Cons t w)
  then show ?case
    by (cases bs) (auto simp: tokens_at_def list_all2_Cons1 Cons_eq_append_conv; blast)+
qed

text \<open>A bracket expression of a slash-sensitive pattern never holds the slash.\<close>

definition slash_safe :: "bool \<Rightarrow> Token list \<Rightarrow> bool" where
  "slash_safe ss tokens =
     (ss \<longrightarrow> (\<forall>t \<in> set tokens. tk_kind t = Class \<longrightarrow> \<not> matchToken t SLASH ss))"

lemma slash_token:
  "slash_safe True tokens \<Longrightarrow> t \<in> set tokens \<Longrightarrow> matchToken t SLASH True \<longleftrightarrow> tk_kind t = Literal \<and> tk_byte t = SLASH"
  by (auto simp: slash_safe_def matchToken_def split: TokenKind.splits)

lemma slash_alike:
  assumes "slash_safe True tokens" "t \<in> set tokens" "matchToken t a True" "matchToken t b True"
  shows "a = SLASH \<longleftrightarrow> b = SLASH"
proof (cases "tk_kind t = Literal")
  case True
  then show ?thesis using assms(3,4) by (simp add: matchToken_def)
next
  case False
  then show ?thesis using slash_token [OF assms(1,2)] assms(3,4) by auto
qed

text \<open>
  Where tokens match twice, the second time after skipped bytes without a slash, there is no slash before the end of the
  second match.
\<close>

lemma tokens_twice:
  assumes "slash_safe True w" "tokens_at True w (take (length w) bs)" "tokens_at True w v"
    and "bs = u @ v @ v'" "SLASH \<notin> set u" "u \<noteq> []"
  shows "SLASH \<notin> set (u @ v)"
proof -
  have len: "length v = length w" by (rule tokens_at_length [OF assms(3)])
  have "i < length u + length w \<Longrightarrow> bs ! i \<noteq> SLASH" for i
  proof (induction i rule: less_induct)
    case (less i)
    show ?case
    proof (cases "i < length u")
      case True
      then show ?thesis using assms(4,5) by (auto simp: nth_append in_set_conv_nth)
    next
      case False
      define j where "j = i - length u"
      have j: "j < length w" "j < i" "i = length u + j" using False less.prems assms(6) by (cases u; auto simp: j_def)+
      have "matchToken (w ! j) (bs ! j) True"
        using assms(2) j(1) by (auto simp: tokens_at_def list_all2_conv_all_nth)
      moreover have "matchToken (w ! j) (bs ! i) True"
        using assms(3) j(1,3) len assms(4) by (simp add: tokens_at_def list_all2_conv_all_nth nth_append)
      ultimately have "bs ! j = SLASH \<longleftrightarrow> bs ! i = SLASH"
        using slash_alike [OF assms(1) nth_mem [OF j(1)]] by blast
      then show ?thesis using less.IH [OF j(2)] j less.prems by simp
    qed
  qed
  then have "\<forall>i < length (u @ v). (u @ v) ! i \<noteq> SLASH" using assms(4) len by (metis append_assoc length_append nth_append_left)
  then show ?thesis unfolding in_set_conv_nth by blast
qed

section \<open>The last star is enough\<close>

text \<open>
  The star-free tokens \<open>w\<close> after a star match at the front of \<open>bs\<close>. If the pattern matches after the star took more
  bytes, a star after \<open>w\<close> can take the difference.
\<close>

lemma earlier_star_subsumed:
  assumes "slash_safe ss w" "plain w" "tk_kind s = Star" "tk_kind s' = Star"
    and "tokens_at ss w x" "glob ss (s # w @ s' # ts) bs'" "x @ y = b # bs'" "no_slash ss [b]"
  shows "glob ss (s' # ts) y"
proof -
  obtain u v v' where g: "bs' = u @ v @ v'" "no_slash ss u" "tokens_at ss w v" "glob ss (s' # ts) v'"
    using assms(6) unfolding glob_star [OF assms(3)] glob_plain [OF assms(2)] by auto
  have len: "length x = length w" "length v = length w"
    using assms(5) g(3) by (simp_all add: tokens_at_length)
  have all: "x @ y = (b # u) @ v @ v'" using assms(7) g(1) by simp
  define z where "z = drop (length x) ((b # u) @ v)"
  have "length x \<le> length ((b # u) @ v)" using len by simp
  then have "drop (length x) (((b # u) @ v) @ v') = z @ v'" unfolding z_def by (simp only: drop_append) simp
  then have "drop (length x) (x @ y) = z @ v'" unfolding all by simp
  then have y: "y = z @ v'" by simp
  have "no_slash ss z"
  proof (cases ss)
    case True
    have "tokens_at True w (take (length w) (x @ y))" "tokens_at True w v" "slash_safe True w"
      using assms(1,5) g(3) len True by simp_all
    then have "SLASH \<notin> set ((b # u) @ v)"
      using tokens_twice [of w "x @ y" v "b # u" v'] all g(2) assms(8) True by (simp add: no_slash_def)
    then show ?thesis unfolding no_slash_def z_def by (meson in_set_dropD)
  qed (simp add: no_slash_def)
  then show ?thesis unfolding y using glob_star_skip [OF assms(4)] g(4) by blast
qed

lemma no_longer_match:
  assumes "plain w" "tk_kind s = Star" "length w = length x" "glob ss (s # w @ ts) bs'" "x = b # bs'"
  shows False
proof -
  obtain u v v' where "bs' = u @ v @ v'" "tokens_at ss w v"
    using assms(4) unfolding glob_star [OF assms(2)] glob_plain [OF assms(1)] by blast
  then have "length w \<le> length bs'" by (auto dest: tokens_at_length)
  then show False using assms(3,5) by simp
qed

section \<open>The matcher\<close>

text \<open>
  The state of the matcher over the bytes \<open>B\<close> up to its end: the tokens since the last star match the bytes since its
  retry position; what is left to hope for is a match of the tokens ahead, or one after the star takes another byte.
\<close>

definition det_inv :: "Token list \<Rightarrow> bytes \<Rightarrow> bool \<Rightarrow> nat \<Rightarrow> nat \<Rightarrow> nat option \<Rightarrow> nat \<Rightarrow> bool" where
  "det_inv tokens B ss ti bi si r =
     (r \<le> bi \<and> bi \<le> length B \<and> ti \<le> length tokens \<and>
      (case si of
         None \<Rightarrow> True
       | Some s \<Rightarrow> s < ti \<and> tk_kind (tokens ! s) = Star \<and> plain (slice tokens (s + 1) ti) \<and>
           tokens_at ss (slice tokens (s + 1) ti) (slice B r bi)))"

definition hope :: "Token list \<Rightarrow> bytes \<Rightarrow> bool \<Rightarrow> nat \<Rightarrow> nat \<Rightarrow> nat option \<Rightarrow> nat \<Rightarrow> bool" where
  "hope tokens B ss ti bi si r =
     (glob ss (drop ti tokens) (drop bi B) \<or>
      (case si of
         None \<Rightarrow> False
       | Some s \<Rightarrow> r < length B \<and> (ss \<longrightarrow> B ! r \<noteq> SLASH) \<and> glob ss (drop s tokens) (drop (r + 1) B)))"

lemma slice_snoc: "lo \<le> hi \<Longrightarrow> hi < length xs \<Longrightarrow> slice xs lo (Suc hi) = slice xs lo hi @ [xs ! hi]"
  by (simp add: slice_def Suc_diff_le take_Suc_conv_app_nth)

lemma drop_slice: "lo \<le> hi \<Longrightarrow> drop lo xs = slice xs lo hi @ drop hi xs"
  by (metis append_take_drop_id drop_drop le_add_diff_inverse2 slice_def)

lemma drop_around: "lo < hi \<Longrightarrow> hi \<le> length xs \<Longrightarrow> drop lo xs = xs ! lo # slice xs (lo + 1) hi @ drop hi xs"
  using drop_slice [of "lo + 1" hi xs] Cons_nth_drop_Suc [of lo xs] by simp

lemma length_slice: "hi \<le> length xs \<Longrightarrow> length (slice xs lo hi) = hi - lo"
  by (simp add: slice_def)

lemma drop_of_slice: "drop k (slice xs lo hi) = slice xs (lo + k) hi"
  by (simp add: slice_def drop_take add.commute)

lemma slice_empty [simp]: "slice xs lo lo = []"
  by (simp add: slice_def)

lemma set_slice: "set (slice xs lo hi) \<subseteq> set xs"
  unfolding slice_def by (meson order_trans set_take_subset set_drop_subset)

lemma hope_match:
  assumes "det_inv tokens B ss ti bi si r" "ti < length tokens" "bi < length B" "tk_kind (tokens ! ti) \<noteq> Star"
    and "matchToken (tokens ! ti) (B ! bi) ss"
  shows "det_inv tokens B ss (ti + 1) (bi + 1) si r" "hope tokens B ss (ti + 1) (bi + 1) si r = hope tokens B ss ti bi si r"
  using assms
  by (auto simp: det_inv_def hope_def slice_snoc tokens_at_def list_all2_appendI Cons_nth_drop_Suc [symmetric]
      split: option.splits)

lemma hope_miss:
  assumes "ti \<le> length tokens" "bi < length B" "\<not> (ti < length tokens \<and> tk_kind (tokens ! ti) = Star)"
    and "\<not> (ti < length tokens \<and> tk_kind (tokens ! ti) \<noteq> Star \<and> matchToken (tokens ! ti) (B ! bi) ss)"
  shows "\<not> glob ss (drop ti tokens) (drop bi B)"
  using assms by (cases "ti < length tokens") (auto simp: Cons_nth_drop_Suc [symmetric])

lemma hope_star:
  assumes "det_inv tokens B ss ti bi si r" "slash_safe ss tokens" "ti < length tokens" "bi < length B"
    and "tk_kind (tokens ! ti) = Star"
  shows "det_inv tokens B ss (ti + 1) bi (Some ti) bi" "hope tokens B ss (ti + 1) bi (Some ti) bi = hope tokens B ss ti bi si r"
proof -
  show "det_inv tokens B ss (ti + 1) bi (Some ti) bi" using assms by (auto simp: det_inv_def tokens_at_def)
  have split: "hope tokens B ss (ti + 1) bi (Some ti) bi = glob ss (drop ti tokens) (drop bi B)"
    using assms(3-5) by (auto simp: hope_def Cons_nth_drop_Suc [symmetric])
  have "glob ss (drop ti tokens) (drop bi B)"
    if s: "si = Some s" and r: "r < length B" "ss \<longrightarrow> B ! r \<noteq> SLASH" "glob ss (drop s tokens) (drop (r + 1) B)" for s
  proof -
    note inv = assms(1) [unfolded det_inv_def s, simplified]
    have rest: "drop s tokens = tokens ! s # slice tokens (s + 1) ti @ tokens ! ti # drop (ti + 1) tokens"
      using inv assms(3) drop_around [of s ti tokens] by (simp add: Cons_nth_drop_Suc)
    have "slash_safe ss (slice tokens (s + 1) ti)"
      using assms(2) set_slice [of tokens "s + 1" ti] by (auto simp: slash_safe_def)
    moreover have "slice B r bi @ drop bi B = B ! r # drop (r + 1) B"
      using inv r(1) drop_slice [of r bi B] by (simp add: Cons_nth_drop_Suc)
    ultimately have "glob ss (tokens ! ti # drop (ti + 1) tokens) (drop bi B)"
      using earlier_star_subsumed [of ss "slice tokens (s + 1) ti" "tokens ! s" "tokens ! ti" "slice B r bi" "drop (ti + 1) tokens" "drop (r + 1) B" "drop bi B" "B ! r"]
        inv r assms(5) unfolding rest by auto
    then show ?thesis using assms(3) by (simp add: Cons_nth_drop_Suc)
  qed
  then show "hope tokens B ss (ti + 1) bi (Some ti) bi = hope tokens B ss ti bi si r"
    unfolding split by (auto simp: hope_def split: option.splits)
qed

lemma hope_retry:
  assumes "det_inv tokens B ss ti bi (Some s) r" "\<not> glob ss (drop ti tokens) (drop bi B)" "r < length B" "ss \<longrightarrow> B ! r \<noteq> SLASH"
  shows "det_inv tokens B ss (s + 1) (r + 1) (Some s) (r + 1)"
    "hope tokens B ss (s + 1) (r + 1) (Some s) (r + 1) = hope tokens B ss ti bi (Some s) r"
proof -
  have s: "s < length tokens" "tk_kind (tokens ! s) = Star" using assms(1) by (auto simp: det_inv_def)
  show "det_inv tokens B ss (s + 1) (r + 1) (Some s) (r + 1)"
    using assms s by (auto simp: det_inv_def tokens_at_def)
  have tokens: "drop s tokens = tokens ! s # drop (s + 1) tokens" using s(1) by (simp add: Cons_nth_drop_Suc)
  have "glob ss (drop s tokens) (drop (r + 1) B) \<longleftrightarrow>
      glob ss (drop (s + 1) tokens) (drop (r + 1) B) \<or>
      r + 1 < length B \<and> (ss \<longrightarrow> B ! (r + 1) \<noteq> SLASH) \<and> glob ss (drop s tokens) (drop (r + 2) B)"
    using s(2) unfolding tokens
    by (cases "r + 1 < length B") (simp_all add: Cons_nth_drop_Suc [symmetric])
  then show "hope tokens B ss (s + 1) (r + 1) (Some s) (r + 1) = hope tokens B ss ti bi (Some s) r"
    using assms(2-4) by (simp add: hope_def)
qed

lemma hope_end:
  assumes "det_inv tokens B ss ti (length B) si r"
  shows "hope tokens B ss ti (length B) si r = glob ss (drop ti tokens) []"
proof -
  have False if s: "si = Some s" and r: "r < length B" "glob ss (drop s tokens) (drop (r + 1) B)" for s
  proof -
    note inv = assms(1) [unfolded det_inv_def s, simplified]
    have rest: "drop s tokens = tokens ! s # slice tokens (s + 1) ti @ drop ti tokens"
      using inv drop_around [of s ti tokens] by simp
    have "slice B r (length B) = B ! r # drop (r + 1) B"
      using r(1) drop_slice [of r "length B" B] by (simp add: Cons_nth_drop_Suc)
    moreover have "length (slice tokens (s + 1) ti) = length (slice B r (length B))"
      using inv by (auto dest: tokens_at_length)
    ultimately show False
      using no_longer_match [of "slice tokens (s + 1) ti" "tokens ! s" "slice B r (length B)" ss "drop ti tokens"]
        inv r(2) unfolding rest by auto
  qed
  then show ?thesis by (auto simp: hope_def split: option.splits)
qed

text \<open>A result within the limit is the answer; past the limit it is a refusal. Its work lies between two bounds.\<close>

definition answers :: "match_result \<Rightarrow> int \<Rightarrow> int \<Rightarrow> int \<Rightarrow> bool \<Rightarrow> bool" where
  "answers res maxWork lo hi P = (case res of (m, w) \<Rightarrow> lo \<le> w \<and> w \<le> hi \<and> (if w \<le> maxWork then m = P else \<not> m))"

lemma answers_widen:
  "answers res maxWork lo hi P \<Longrightarrow> lo' \<le> lo \<Longrightarrow> hi \<le> hi' \<Longrightarrow> P' = P \<Longrightarrow> answers res maxWork lo' hi' P'"
  by (auto simp: answers_def split: prod.splits)

lemma star_tail_exact:
  "ti \<le> length tokens \<Longrightarrow> work \<le> maxWork \<Longrightarrow>
   answers (star_tail tokens maxWork ti work) maxWork work (work + int (length tokens - ti)) (glob ss (drop ti tokens) [])"
proof (induction tokens maxWork ti work rule: star_tail.induct)
  case (1 tokens maxWork ti work)
  show ?case
  proof (cases "ti < length tokens \<and> tk_kind (tokens ! ti) = Star")
    case True
    then have step: "map_option tk_kind (charCodeAt tokens ti) = Some Star" by (simp add: charCodeAt_def)
    have same: "glob ss (drop ti tokens) [] = glob ss (drop (ti + 1) tokens) []"
      using True by (simp add: Cons_nth_drop_Suc [symmetric])
    show ?thesis
    proof (cases "work + 1 > maxWork")
      case False
      have "answers (star_tail tokens maxWork (ti + 1) (work + 1)) maxWork (work + 1)
          (work + 1 + int (length tokens - (ti + 1))) (glob ss (drop (ti + 1) tokens) [])"
        using "1.IH" [OF step False] True False by simp
      then show ?thesis
        by (subst star_tail.simps) (use step False True same in \<open>auto elim!: answers_widen\<close>)
    qed (use True step in \<open>subst star_tail.simps, simp add: answers_def\<close>)
  next
    case False
    then have "glob ss (drop ti tokens) [] \<longleftrightarrow> ti = length tokens"
      using "1.prems"(1) by (cases "ti < length tokens") (auto simp: Cons_nth_drop_Suc [symmetric])
    then show ?thesis
      using False "1.prems" by (subst star_tail.simps) (auto simp: answers_def charCodeAt_def)
  qed
qed

lemma token_matches_iff:
  "token_matches tokens bs ss ti bi \<longleftrightarrow>
     ti < length tokens \<and> bi < length bs \<and> tk_kind (tokens ! ti) \<noteq> Star \<and> matchToken (tokens ! ti) (bs ! bi) ss"
  by (auto simp: token_matches_def charCodeAt_def)

lemma star_at_iff:
  "map_option tk_kind (charCodeAt tokens ti) = Some Star \<longleftrightarrow> ti < length tokens \<and> tk_kind (tokens ! ti) = Star"
  by (auto simp: charCodeAt_def)

lemma det_loop_exact:
  "stop \<le> length bs \<Longrightarrow> slash_safe ss tokens \<Longrightarrow> det_inv tokens (take stop bs) ss ti bi si r \<Longrightarrow> work \<le> maxWork \<Longrightarrow>
   answers (det_loop tokens bs stop maxWork ss ti bi si r work) maxWork work
     (work + int (remaining_work tokens stop ti r) + 1) (hope tokens (take stop bs) ss ti bi si r)"
proof (induction tokens bs stop maxWork ss ti bi si r work rule: det_loop.induct)
  case (1 tokens bs stop maxWork ss ti bi si r work)
  note inv = "1.prems"(3) and unfold = det_loop.simps [of tokens bs stop maxWork ss ti bi si r work]
  let ?B = "take stop bs"
  let ?hi = "work + int (remaining_work tokens stop ti r) + 1"
  have len: "length ?B = stop" using "1.prems"(1) by simp
  have bounds: "r \<le> bi" "bi \<le> stop" "ti \<le> length tokens" using inv len by (auto simp: det_inv_def)
  show ?case
  proof (cases "bi < stop")
    case False
    then have b: "bi = length ?B" using bounds len by simp
    have "answers (star_tail tokens maxWork ti work) maxWork work (work + int (length tokens - ti)) (glob ss (drop ti tokens) [])"
      by (rule star_tail_exact [OF bounds(3) "1.prems"(4)])
    then show ?thesis
      using False hope_end [of tokens ?B ss ti si r] inv b unfold
      by (auto simp: remaining_work_def elim!: answers_widen)
  next
    case bi: True
    show ?thesis
    proof (cases "work + 1 > maxWork")
      case True
      then show ?thesis using bi unfold "1.prems"(4) by (simp add: answers_def)
    next
      case room: False
      show ?thesis
      proof (cases "token_matches tokens bs ss ti bi")
        case True
        then have m: "ti < length tokens" "tk_kind (tokens ! ti) \<noteq> Star" "matchToken (tokens ! ti) (?B ! bi) ss"
          using bi by (auto simp: token_matches_iff)
        note h = hope_match [OF inv m(1) _ m(2,3)]
        have "answers (det_loop tokens bs stop maxWork ss (ti + 1) (bi + 1) si r (work + 1)) maxWork (work + 1)
            (work + 1 + int (remaining_work tokens stop (ti + 1) r) + 1) (hope tokens ?B ss (ti + 1) (bi + 1) si r)"
          using "1.IH"(1) bi room True "1.prems"(1,2) h len by simp
        then show ?thesis
          using bi room True unfold h(2) len remaining_token [OF m(1), of stop r] by (auto elim!: answers_widen)
      next
        case nomatch: False
        show ?thesis
        proof (cases "map_option tk_kind (charCodeAt tokens ti) = Some Star")
          case True
          then have m: "ti < length tokens" "tk_kind (tokens ! ti) = Star" unfolding star_at_iff by simp_all
          note h = hope_star [OF inv "1.prems"(2) m(1) _ m(2)]
          have "answers (det_loop tokens bs stop maxWork ss (ti + 1) bi (Some ti) bi (work + 1)) maxWork (work + 1)
              (work + 1 + int (remaining_work tokens stop (ti + 1) bi) + 1) (hope tokens ?B ss (ti + 1) bi (Some ti) bi)"
            using "1.IH"(2) bi room nomatch True "1.prems"(1,2) h len by simp
          then show ?thesis
            using bi room nomatch True unfold h(2) len remaining_star [OF m(1) bounds(1), of stop] by (auto elim!: answers_widen)
        next
          case nostar: False
          have miss: "\<not> glob ss (drop ti tokens) (drop bi ?B)"
            using nomatch nostar bi len bounds "1.prems"(1) unfolding token_matches_iff star_at_iff by (intro hope_miss) auto
          show ?thesis
          proof (cases "si \<noteq> None \<and> r < stop \<and> (\<not> ss \<or> byte_at bs r \<noteq> Some SLASH)")
            case True
            then obtain s where s: "si = Some s" "r < stop" "\<not> ss \<or> byte_at bs r \<noteq> Some SLASH" by auto
            have h: "det_inv tokens ?B ss (s + 1) (r + 1) (Some s) (r + 1)"
              "hope tokens ?B ss (s + 1) (r + 1) (Some s) (r + 1) = hope tokens ?B ss ti bi (Some s) r"
              using hope_retry [of tokens ?B ss ti bi s r] inv s miss len "1.prems"(1) by (auto simp: charCodeAt_def)
            have "answers (det_loop tokens bs stop maxWork ss (s + 1) (r + 1) si (r + 1) (work + 1)) maxWork (work + 1)
                (work + 1 + int (remaining_work tokens stop (s + 1) (r + 1)) + 1) (hope tokens ?B ss (s + 1) (r + 1) si (r + 1))"
              using "1.IH"(3) bi room nomatch nostar s "1.prems"(1,2) h by simp
            then show ?thesis
              using bi room nomatch nostar s unfold h(2) remaining_retry [OF s(2), of tokens s ti] by (auto elim!: answers_widen)
          next
            case False
            then have "\<not> hope tokens ?B ss ti bi si r"
              using miss len "1.prems"(1) by (auto simp: hope_def charCodeAt_def split: option.splits)
            then show ?thesis
              using bi room nomatch nostar False unfold by (auto simp: answers_def split: option.splits)
          qed
        qed
      qed
    qed
  qed
qed

lemma matchDeterministic_answers:
  assumes "stop \<le> length bs" "start \<le> stop" "slash_safe ss tokens" "0 \<le> maxWork"
  shows "answers (matchDeterministic tokens bs start stop maxWork ss) maxWork 0
    (int ((stop - start + 1) * (length tokens + 1))) (glob ss tokens (slice bs start stop))"
proof -
  have "det_inv tokens (take stop bs) ss 0 start None start" using assms by (simp add: det_inv_def)
  from det_loop_exact [OF assms(1,3) this assms(4)]
  show ?thesis unfolding matchDeterministic_def
    by (rule answers_widen) (simp_all add: remaining_work_def hope_def slice_def drop_take algebra_simps)
qed

section \<open>Prefilters\<close>

lemma glob_append:
  "glob ss (p @ q) bs \<longleftrightarrow> (\<exists>u v. bs = u @ v \<and> glob ss p u \<and> glob ss q v)"
proof (induction p arbitrary: bs)
  case (Cons t p)
  show ?case
  proof (cases "tk_kind t = Star")
    case True
    have "glob ss ((t # p) @ q) bs \<longleftrightarrow> (\<exists>a u v. bs = a @ u @ v \<and> no_slash ss a \<and> glob ss p u \<and> glob ss q v)"
      using Cons.IH glob_star [OF True, of ss "p @ q" bs] by auto
    also have "\<dots> \<longleftrightarrow> (\<exists>u v. bs = u @ v \<and> glob ss (t # p) u \<and> glob ss q v)"
      unfolding glob_star [OF True] by (metis append.assoc)
    finally show ?thesis .
  next
    case False
    show ?thesis
    proof (cases bs)
      case (Cons b bs')
      have "(\<exists>u v. bs = u @ v \<and> glob ss (t # p) u \<and> glob ss q v) \<longleftrightarrow>
          matchToken t b ss \<and> (\<exists>u v. bs' = u @ v \<and> glob ss p u \<and> glob ss q v)"
        unfolding Cons by (simp only: ex_append_Cons) (use False in auto)
      then show ?thesis using Cons.IH False Cons by simp
    qed (use False in auto)
  qed
qed simp

abbreviation literal :: "Token \<Rightarrow> bool" where
  "literal t \<equiv> tk_kind t = Literal"

lemma glob_literals: "\<forall>t \<in> set w. literal t \<Longrightarrow> glob ss w bs \<longleftrightarrow> bs = map tk_byte w"
proof (induction w arbitrary: bs)
  case (Cons t w)
  then show ?case by (cases bs) (auto simp: matchToken_def)
qed simp

lemma edge_length_ge: "len \<le> edge_length tokens b len"
proof (induction tokens b len rule: edge_length.induct)
  case (1 tokens b len)
  then show ?case by (subst edge_length.simps) auto
qed

lemma edge_length_le: "len \<le> length tokens \<Longrightarrow> edge_length tokens b len \<le> length tokens"
proof (induction tokens b len rule: edge_length.induct)
  case (1 tokens b len)
  then show ?case by (subst edge_length.simps) auto
qed

lemma edge_length_literal:
  "len \<le> i \<Longrightarrow> i < edge_length tokens b len \<Longrightarrow> literal (tokens ! (if b then i else length tokens - i - 1))"
proof (induction tokens b len rule: edge_length.induct)
  case (1 tokens b len)
  show ?case
  proof (cases "len < length tokens \<and> literal (tokens ! (if b then len else length tokens - len - 1))")
    case True
    then have "edge_length tokens b len = edge_length tokens b (len + 1)" by (subst edge_length.simps) simp
    then show ?thesis using "1.IH" [OF True] "1.prems" True by (cases "i = len") auto
  next
    case False
    have "edge_length tokens b len = len" by (subst edge_length.simps) (rule if_not_P [OF False])
    then show ?thesis using "1.prems" by simp
  qed
qed

text \<open>The edges are literal tokens at the front and at the back.\<close>

lemma literalEdge_front:
  obtains w rest where "tokens = w @ rest" "\<forall>t \<in> set w. literal t" "literalEdge tokens True = map tk_byte w"
proof -
  define n where "n = edge_length tokens True 0"
  have n: "n \<le> length tokens" using edge_length_le [of 0 tokens True] by (simp add: n_def)
  have "literalEdge tokens True = map tk_byte (take n tokens)"
    using n by (simp add: literalEdge_def n_def [symmetric] Let_def list_eq_iff_nth_eq)
  moreover have "\<forall>t \<in> set (take n tokens). literal t"
    using edge_length_literal [of 0 _ tokens True] n by (auto simp: n_def in_set_conv_nth)
  ultimately show thesis using that [of "take n tokens" "drop n tokens"] by simp
qed

lemma literalEdge_back:
  obtains w rest where "tokens = rest @ w" "\<forall>t \<in> set w. literal t" "literalEdge tokens False = map tk_byte w"
proof -
  define n where "n = edge_length tokens False 0"
  define k where "k = length tokens - n"
  have n: "n \<le> length tokens" using edge_length_le [of 0 tokens False] by (simp add: n_def)
  have "literalEdge tokens False = map tk_byte (drop k tokens)"
    using n by (simp add: literalEdge_def n_def [symmetric] Let_def list_eq_iff_nth_eq k_def)
  moreover have "\<forall>t \<in> set (drop k tokens). literal t"
  proof
    fix t assume "t \<in> set (drop k tokens)"
    then obtain i where i: "i < n" "t = tokens ! (k + i)" using n by (auto simp: in_set_conv_nth k_def)
    then have "literal (tokens ! (length tokens - (n - i - 1) - 1))"
      using edge_length_literal [of 0 "n - i - 1" tokens False] by (simp add: n_def)
    moreover have "length tokens - (n - i - 1) - 1 = k + i" using i(1) n by (simp add: k_def)
    ultimately show "literal t" using i(2) by simp
  qed
  ultimately show thesis using that [of "take k tokens" "drop k tokens"] by simp
qed

lemma compare_work_exact:
  "work \<le> maxWork \<Longrightarrow>
   answers (compare_work bs at right maxWork work) maxWork work (work + int (length right)) (slice bs at (at + length right) = right)"
proof (induction right arbitrary: at work)
  case Nil
  then show ?case by (simp add: answers_def)
next
  case (Cons r right)
  have slice: "slice bs at (at + length (r # right)) = r # right \<longleftrightarrow>
      byte_at bs at = Some r \<and> slice bs (at + 1) (at + 1 + length right) = right"
    by (cases "at < length bs") (auto simp: slice_def charCodeAt_def Cons_nth_drop_Suc [symmetric])
  show ?case
  proof (cases "work + 1 > maxWork \<or> byte_at bs at \<noteq> Some r")
    case True
    then show ?thesis using Cons.prems unfolding slice by (auto simp: answers_def)
  next
    case False
    then have "answers (compare_work bs (at + 1) right maxWork (work + 1)) maxWork (work + 1) (work + 1 + int (length right))
        (slice bs (at + 1) (at + 1 + length right) = right)"
      using Cons.IH [of "work + 1" "at + 1"] by simp
    then show ?thesis unfolding slice using False by (auto elim!: answers_widen)
  qed
qed

lemma prefixMatch_exact:
  assumes "0 \<le> maxWork" "start \<le> length bs"
  shows "answers (prefixMatch prefix bs start maxWork) maxWork 1 (1 + int (length prefix)) (slice bs start (start + length prefix) = prefix)"
proof (cases "1 > maxWork \<or> int (length bs) - int start < int (length prefix)")
  case True
  moreover have "slice bs start (start + length prefix) \<noteq> prefix" if "int (length bs) - int start < int (length prefix)"
    using that assms by (auto simp: slice_def dest!: arg_cong [where f = length])
  ultimately show ?thesis by (auto simp: prefixMatch_def answers_def)
next
  case False
  then show ?thesis using compare_work_exact [of 1 maxWork bs start prefix] by (simp add: prefixMatch_def)
qed

lemma suffixMatch_exact:
  assumes "0 \<le> maxWork" "stop \<le> length bs"
  shows "answers (suffixMatch suff bs stop maxWork) maxWork 1 (1 + int (length suff))
    (length suff \<le> stop \<and> slice bs (stop - length suff) stop = suff)"
proof (cases "1 > maxWork \<or> stop < length suff")
  case True
  then show ?thesis by (auto simp: suffixMatch_def answers_def)
next
  case False
  then show ?thesis using compare_work_exact [of 1 maxWork bs "stop - length suff" suff] by (simp add: suffixMatch_def)
qed

lemma compareLiteralBytes_exact:
  assumes "0 \<le> maxWork" "start \<le> stop" "stop \<le> length bs"
  shows "answers (compareLiteralBytes bs start stop lit maxWork) maxWork 1 (1 + int (length lit)) (slice bs start stop = lit)"
proof (cases "1 > maxWork \<or> int stop - int start \<noteq> int (length lit)")
  case True
  moreover have "slice bs start stop \<noteq> lit" if "int stop - int start \<noteq> int (length lit)"
    using that assms by (auto simp: length_slice)
  ultimately show ?thesis by (auto simp: compareLiteralBytes_def answers_def)
next
  case False
  then have "stop = start + length lit" using assms(2) by simp
  then show ?thesis using False compare_work_exact [of 1 maxWork bs start lit] by (simp add: compareLiteralBytes_def)
qed

section \<open>Compiled globs\<close>

text \<open>What compilation promises of a program: its edges are those of its tokens, and its brackets spare the slash.\<close>

definition det_wf :: "bool \<Rightarrow> DetProgram \<Rightarrow> bool" where
  "det_wf ss p =
     (dp_literalPrefix p = literalEdge (dp_tokens p) True \<and> dp_literalSuffix p = literalEdge (dp_tokens p) False \<and>
      slash_safe ss (dp_tokens p))"

lemma glob_prefix:
  assumes "glob ss tokens (slice bs start stop)" "stop \<le> length bs"
  shows "slice bs start (start + length (literalEdge tokens True)) = literalEdge tokens True"
proof -
  obtain w rest where w: "tokens = w @ rest" "\<forall>t \<in> set w. literal t" "literalEdge tokens True = map tk_byte w"
    by (rule literalEdge_front)
  then obtain v where v: "slice bs start stop = map tk_byte w @ v"
    using assms(1) by (auto simp: glob_append glob_literals)
  then have "take (length w) (slice bs start stop) = map tk_byte w" by simp
  moreover have "length w \<le> stop - start" using arg_cong [OF v, of length] assms(2) by (simp add: length_slice)
  ultimately show ?thesis unfolding w(3) by (simp add: slice_def min_absorb1)
qed

lemma glob_suffix:
  assumes "glob ss tokens (slice bs start stop)" "start \<le> stop" "stop \<le> length bs"
  shows "length (literalEdge tokens False) \<le> stop"
    "slice bs (stop - length (literalEdge tokens False)) stop = literalEdge tokens False"
proof -
  obtain w rest where w: "tokens = rest @ w" "\<forall>t \<in> set w. literal t" "literalEdge tokens False = map tk_byte w"
    by (rule literalEdge_back)
  then obtain u where u: "slice bs start stop = u @ map tk_byte w"
    using assms(1) by (auto simp: glob_append glob_literals)
  have len: "length u + length w = stop - start" using arg_cong [OF u, of length] assms(3) by (simp add: length_slice)
  then show "length (literalEdge tokens False) \<le> stop" unfolding w(3) by simp
  have "slice bs (start + length u) stop = map tk_byte w" using u drop_of_slice [of "length u" bs start stop] by simp
  moreover have "start + length u = stop - length w" using len assms(2) by simp
  ultimately show "slice bs (stop - length (literalEdge tokens False)) stop = literalEdge tokens False"
    unfolding w(3) by simp
qed

lemma after_filter_answers:
  assumes first: "answers filtered (maxWork - work) 0 n Q" and need: "P \<Longrightarrow> Q" and "0 \<le> work"
    and next_step: "\<And>w. 0 \<le> w \<Longrightarrow> w \<le> n \<Longrightarrow> work + w \<le> maxWork \<Longrightarrow> answers (go (work + w)) maxWork 0 (work + w + k) P"
    and "0 \<le> k"
  shows "answers (after_filter filtered work maxWork go) maxWork 0 (work + n + k) P"
proof (cases filtered)
  case (Pair m w)
  have w: "0 \<le> w" "w \<le> n" "work + w \<le> maxWork \<Longrightarrow> m = Q" using first Pair by (auto simp: answers_def split: if_splits)
  show ?thesis
  proof (cases "\<not> m \<or> work + w > maxWork")
    case True
    then show ?thesis using Pair w assms(3,5) need by (auto simp: after_filter_def answers_def)
  next
    case False
    then have "answers (go (work + w)) maxWork 0 (work + w + k) P" using next_step w by simp
    then have "answers (go (work + w)) maxWork 0 (work + n + k) P" by (rule answers_widen) (use w in auto)
    then show ?thesis using False Pair by (simp add: after_filter_def)
  qed
qed

definition det_bound :: "DetProgram \<Rightarrow> nat \<Rightarrow> int" where
  "det_bound p n =
     int (length (dp_literalPrefix p) + length (dp_literalSuffix p) + 2 + (n + 1) * (length (dp_tokens p) + 1))"

lemma deterministicMatch_answers:
  assumes wf: "det_wf ss p" and range: "start \<le> stop" "stop \<le> length bs" and "0 \<le> maxWork"
  shows "answers (deterministicMatch p bs start stop maxWork ss) maxWork 0 (det_bound p (stop - start))
    (glob ss (dp_tokens p) (slice bs start stop))"
proof -
  let ?P = "glob ss (dp_tokens p) (slice bs start stop)"
  define k where "k = int ((stop - start + 1) * (length (dp_tokens p) + 1))"
  define l where "l = int (length (dp_literalPrefix p))"
  define s where "s = int (length (dp_literalSuffix p))"
  have main: "answers (then_match p bs start stop maxWork ss work) maxWork 0 (work + k) ?P" if "0 \<le> work" "work \<le> maxWork" for work
    using matchDeterministic_answers [of stop bs start ss "dp_tokens p" "maxWork - work"] wf range that
    by (auto simp: then_match_def answers_def det_wf_def k_def split: prod.splits if_splits)
  have suffix: "answers (then_suffix p bs start stop maxWork ss work) maxWork 0 (work + (1 + s) + k) ?P"
    if "0 \<le> work" "work \<le> maxWork" for work
  proof (cases "length (dp_literalSuffix p) > 0")
    case True
    have "answers (suffixMatch (dp_literalSuffix p) bs stop (maxWork - work)) (maxWork - work) 0 (1 + s)
        (length (dp_literalSuffix p) \<le> stop \<and> slice bs (stop - length (dp_literalSuffix p)) stop = dp_literalSuffix p)"
      by (rule answers_widen [OF suffixMatch_exact]) (use that range in \<open>auto simp: s_def\<close>)
    then have "answers (after_filter (suffixMatch (dp_literalSuffix p) bs stop (maxWork - work)) work maxWork
        (then_match p bs start stop maxWork ss)) maxWork 0 (work + (1 + s) + k) ?P"
      by (rule after_filter_answers)
        (use glob_suffix [OF _ range, of ss "dp_tokens p"] wf main that in \<open>auto simp: det_wf_def k_def\<close>)
    then show ?thesis using True by (simp add: then_suffix_def)
  next
    case False
    then show ?thesis using main [OF that] by (auto simp: then_suffix_def s_def elim!: answers_widen)
  qed
  have "answers (deterministicMatch p bs start stop maxWork ss) maxWork 0 (0 + (1 + l) + (1 + s + k)) ?P"
  proof (cases "length (dp_literalPrefix p) > 0")
    case True
    have "answers (prefixMatch (dp_literalPrefix p) bs start maxWork) (maxWork - 0) 0 (1 + l)
        (slice bs start (start + length (dp_literalPrefix p)) = dp_literalPrefix p)"
      using answers_widen [OF prefixMatch_exact [of maxWork start bs "dp_literalPrefix p"]] assms by (simp add: l_def)
    then have "answers (after_filter (prefixMatch (dp_literalPrefix p) bs start maxWork) 0 maxWork
        (then_suffix p bs start stop maxWork ss)) maxWork 0 (0 + (1 + l) + (1 + s + k)) ?P"
      by (rule after_filter_answers)
        (use glob_prefix [OF _ range(2), of ss "dp_tokens p" start] wf suffix in
          \<open>auto simp: det_wf_def k_def s_def add.assoc\<close>)
    then show ?thesis using True by (simp add: deterministicMatch_def)
  next
    case False
    then show ?thesis using suffix [of 0] assms(4) by (auto simp: deterministicMatch_def l_def elim!: answers_widen)
  qed
  then show ?thesis by (rule answers_widen) (auto simp: det_bound_def k_def l_def s_def)
qed

section \<open>Compilation keeps the promise\<close>

lemma has_bit_iff: "has_bit ws i \<longleftrightarrow> bit (word_at ws (i div 32)) (i mod 32)"
  by (simp add: has_bit_def word_and_exp)

lemma word_at_update: "word_at (ws[i := w]) j = (if i = j \<and> i < length ws then w else word_at ws j)"
  by (auto simp: word_at_def charCodeAt_def)

lemma close_class_slash: "\<not> bitHas (close_class negated True ws) SLASH"
proof -
  have "unat SLASH = 47" by (simp add: SLASH_def)
  then show ?thesis
    by (auto simp: bitHas_def has_bit_iff close_class_def Let_def word_at_update bit_and_iff bit_not_iff bit_exp_iff)
      (auto simp: word_at_def charCodeAt_def split: if_splits)
qed

lemma parseClass_slash: "parseClass bs start True = Some p \<Longrightarrow> \<not> bitHas (pc_bits p) SLASH"
  by (auto simp: close_class_slash dest!: parseClass_Some)

definition sensitive :: "TokenOptions \<Rightarrow> bool" where
  "sensitive options = (case to_slashSensitive options of None \<Rightarrow> True | Some s \<Rightarrow> s)"

lemma skip_stars_le: "index < length bs \<Longrightarrow> skip_stars bs index + 1 \<le> length bs"
proof (induction bs index rule: skip_stars.induct)
  case (1 bs index)
  then show ?case by (subst skip_stars.simps) (auto simp: charCodeAt_def split: if_splits)
qed

lemma parseClass_within: "parseClass bs start ss = Some p \<Longrightarrow> pc_end p \<le> length bs"
  by (auto dest!: parseClass_Some)

text \<open>Every token takes at least one byte, and brackets of slash-sensitive patterns spare the slash.\<close>

lemma slash_safe_simps [simp]:
  "slash_safe ss []"
  "slash_safe ss (tokens @ tokens') \<longleftrightarrow> slash_safe ss tokens \<and> slash_safe ss tokens'"
  "slash_safe ss [literal_token b]" "slash_safe ss [any_token]" "slash_safe ss [star_token]"
  by (auto simp: slash_safe_def token_defs)

lemma slash_safe_class: "parseClass bs start ss = Some p \<Longrightarrow> slash_safe ss [class_token (pc_bits p)]"
  by (auto simp: slash_safe_def class_token_def matchToken_def parseClass_slash)

lemma tokens_loop_props:
  "slash_safe (sensitive options) tokens \<Longrightarrow> length tokens \<le> index \<Longrightarrow>
   slash_safe (sensitive options) (pt_tokens (tokens_loop bs options index tokens hasStar)) \<and>
   length (pt_tokens (tokens_loop bs options index tokens hasStar)) \<le> max index (length bs)"
proof (induction bs options index tokens hasStar rule: tokens_loop.induct)
  case (1 bs options index tokens hasStar)
  note unfold = tokens_loop.simps [of bs options index tokens hasStar]
  show ?case
  proof (cases "byte_at bs index")
    case None
    then show ?thesis using "1.prems" unfold by simp
  next
    case (Some b)
    then have idx: "index < length bs" by (auto simp: charCodeAt_def split: if_splits)
    consider (escape) "b = BACKSLASH" | (star) "b = STAR" | (any) "b = QUESTION" | (bracket) "b = OPEN_CLASS"
      | (other) "b \<noteq> BACKSLASH" "b \<noteq> STAR" "b \<noteq> QUESTION" "b \<noteq> OPEN_CLASS" by blast
    then show ?thesis
    proof cases
      case escape
      then show ?thesis
      proof (cases "byte_at bs (index + 1)")
        case (Some l)
        then have "index + 1 < length bs" by (auto simp: charCodeAt_def split: if_splits)
        then show ?thesis using "1.IH"(1) \<open>byte_at bs index = Some b\<close> escape Some "1.prems" unfold by simp
      qed (use \<open>byte_at bs index = Some b\<close> escape "1.prems" unfold in auto)
    next
      case star
      have "skip_stars bs index + 1 \<le> length bs" using idx by (rule skip_stars_le)
      then show ?thesis using "1.IH"(2) Some star "1.prems" unfold skip_stars_ge [of index bs] by (simp add: byte_names)
    next
      case any
      then show ?thesis using "1.IH"(3) Some "1.prems" unfold idx by (simp add: byte_names)
    next
      case bracket
      show ?thesis
      proof (cases "parseClass bs index (sensitive options)")
        case None
        then show ?thesis using "1.IH"(4) Some bracket "1.prems" unfold idx by (auto simp: byte_names sensitive_def)
      next
        case (Some p)
        have "slash_safe (sensitive options) [class_token (pc_bits p)]" by (rule slash_safe_class [OF Some])
        then have "slash_safe (sensitive options) (pt_tokens (tokens_loop bs options (pc_end p) (tokens @ [class_token (pc_bits p)]) hasStar)) \<and>
            length (pt_tokens (tokens_loop bs options (pc_end p) (tokens @ [class_token (pc_bits p)]) hasStar)) \<le> max (pc_end p) (length bs)"
          using "1.prems" parseClass_end [OF Some] Some bracket
          by (intro "1.IH"(5) [OF \<open>byte_at bs index = Some b\<close>]) (simp_all add: byte_names sensitive_def)
        then show ?thesis
          using \<open>byte_at bs index = Some b\<close> Some bracket unfold parseClass_within [OF Some] idx
          by (simp add: byte_names sensitive_def)
      qed
    next
      case other
      then show ?thesis using "1.IH"(6) Some "1.prems" unfold idx by simp
    qed
  qed
qed

lemma tokensOf_props:
  "slash_safe (sensitive options) (pt_tokens (tokensOf bs options))" "length (pt_tokens (tokensOf bs options)) \<le> length bs"
  using tokens_loop_props [of options "[]" 0 bs False] by (simp_all add: tokensOf_def)

lemma det_wf_program: "det_wf (sensitive options) (det_program anchored (tokensOf bs options) n)"
  by (simp add: det_wf_def det_program_def tokensOf_props)

lemma literalEdge_length: "length (literalEdge tokens b) \<le> length tokens"
  using edge_length_le [of 0 tokens b] by (simp add: literalEdge_def Let_def)

lemma det_bound_program:
  "det_bound (det_program anchored (tokensOf bs options) k) n \<le> int ((n + 3) * (length bs + 1))"
proof -
  let ?t = "pt_tokens (tokensOf bs options)"
  have t: "length ?t \<le> length bs" by (rule tokensOf_props(2))
  have "(n + 1) * (length ?t + 1) \<le> (n + 1) * (length bs + 1)" using t by (intro mult_le_mono) simp_all
  then have "length (literalEdge ?t True) + length (literalEdge ?t False) + 2 + (n + 1) * (length ?t + 1)
      \<le> (n + 3) * (length bs + 1)"
    using literalEdge_length [of ?t True] literalEdge_length [of ?t False] t by (simp add: algebra_simps)
  then show ?thesis unfolding det_bound_def det_program_def by (simp only: DetProgram.simps of_nat_le_iff)
qed

section \<open>Properties\<close>

definition glob_language :: "bytes \<Rightarrow> TokenOptions \<Rightarrow> bytes \<Rightarrow> bool" where
  "glob_language pattern options path =
     (let parsed = tokensOf pattern options in pt_valid parsed \<and> glob (sensitive options) (pt_tokens parsed) path)"

lemma compileByteGlob_program:
  "compileByteGlob pattern options = Some g \<Longrightarrow>
   pt_valid (tokensOf pattern (options\<lparr>to_slashSensitive := Some (sensitive options)\<rparr>)) \<and>
   bg_match g = glob_match (det_program True (tokensOf pattern (options\<lparr>to_slashSensitive := Some (sensitive options)\<rparr>)) 1)
     (sensitive options)"
  by (auto simp: compileByteGlob_def sensitive_def Let_def split: if_splits)

lemma tokens_loop_sensitive:
  "tokens_loop bs (options\<lparr>to_slashSensitive := Some (sensitive options)\<rparr>) index tokens hasStar = tokens_loop bs options index tokens hasStar"
proof (induction bs options index tokens hasStar rule: tokens_loop.induct)
  case (1 bs options index tokens hasStar)
  have sens: "(case to_slashSensitive options of None \<Rightarrow> True | Some s \<Rightarrow> s) = sensitive options" by (simp add: sensitive_def)
  show ?case
    unfolding tokens_loop.simps [of bs _ index tokens hasStar] sens
    using "1.IH"
    by (auto simp: sens byte_names split: option.splits)
qed

lemma tokensOf_sensitive: "tokensOf bs (options\<lparr>to_slashSensitive := Some (sensitive options)\<rparr>) = tokensOf bs options"
  by (simp add: tokensOf_def tokens_loop_sensitive)

lemma byte_glob_answers:
  assumes "compileByteGlob pattern options = Some g" "0 \<le> maxWork"
  shows "answers (bg_match g path (Some maxWork)) maxWork 0 (int ((length path + 3) * (length pattern + 1)))
    (glob_language pattern options path)"
proof -
  let ?p = "det_program True (tokensOf pattern options) 1"
  note g = compileByteGlob_program [OF assms(1), unfolded tokensOf_sensitive]
  have "answers (deterministicMatch ?p path 0 (length path) maxWork (sensitive options)) maxWork 0 (det_bound ?p (length path - 0))
      (glob (sensitive options) (dp_tokens ?p) (slice path 0 (length path)))"
    by (rule deterministicMatch_answers) (simp_all add: det_wf_program assms)
  then show ?thesis
    using det_bound_program [of True pattern options 1 "length path"] g
    by (auto simp: glob_match_def glob_language_def det_program_def slice_def elim!: answers_widen)
qed

text \<open>
  C14: a compiled byte glob answers exactly the meaning of its pattern, whatever its prefilters and its backtracking to
  the last star do: within the limit of steps the answer is right, past it the answer is no.
\<close>

theorem byte_glob_exact:
  assumes "compileByteGlob pattern options = Some g" "0 \<le> maxWork"
  shows "case bg_match g path (Some maxWork) of
      (m, w) \<Rightarrow> if w \<le> maxWork then m \<longleftrightarrow> glob_language pattern options path else \<not> m"
  using byte_glob_answers [OF assms, of path] by (auto simp: answers_def split: prod.splits)

theorem byte_glob_exact_witness:
  "\<exists>g. compileByteGlob [0x2a, 0x61, 0x2a, 0x62] no_options = Some g \<and> bg_match g [0x61, 0x61, 0x63, 0x62] (Some 100) = (True, 8)
     \<and> glob_language [0x2a, 0x61, 0x2a, 0x62] no_options [0x61, 0x61, 0x63, 0x62]"
proof -
  have "pt_valid (tokensOf [0x2a, 0x61, 0x2a, 0x62] no_options)" by code_simp
  then obtain g where g: "compileByteGlob [0x2a, 0x61, 0x2a, 0x62] no_options = Some g"
    using tokensOf_sensitive [of "[0x2a, 0x61, 0x2a, 0x62]" no_options] by (auto simp: compileByteGlob_def sensitive_def Let_def)
  have "bg_match (the (compileByteGlob [0x2a, 0x61, 0x2a, 0x62] no_options)) [0x61, 0x61, 0x63, 0x62] (Some 100) = (True, 8)"
    by code_simp
  then show ?thesis using g byte_glob_exact [OF g, of 100 "[0x61, 0x61, 0x63, 0x62]"] by simp
qed

text \<open>
  C15: matching never takes more steps than the path is long times the pattern is long, however many stars the
  pattern has and whatever the limit is.
\<close>

theorem byte_glob_work:
  assumes "compileByteGlob pattern options = Some g" "0 \<le> maxWork"
  shows "0 \<le> snd (bg_match g path (Some maxWork)) \<and>
    snd (bg_match g path (Some maxWork)) \<le> int ((length path + 3) * (length pattern + 1))"
  using byte_glob_answers [OF assms, of path] by (auto simp: answers_def split: prod.splits)

theorem byte_glob_work_witness:
  "\<exists>g. compileByteGlob [0x2a, 0x61] no_options = Some g \<and> snd (bg_match g [0x62, 0x62] (Some 100)) \<le> 15"
proof -
  have "pt_valid (tokensOf [0x2a, 0x61] no_options)" by code_simp
  then obtain g where g: "compileByteGlob [0x2a, 0x61] no_options = Some g"
    using tokensOf_sensitive [of "[0x2a, 0x61]" no_options] by (auto simp: compileByteGlob_def sensitive_def Let_def)
  then show ?thesis using byte_glob_work [OF g, of 100 "[0x62, 0x62]"] by simp
qed

end
