(* ===== verification/IgnoreNfa.thy ===== *)
theory IgnoreNfa
  imports IgnoreGlob
begin

text \<open>
  The automaton of patterns with \<open>**\<close> against the meaning of its states. A mask is the set of its bits; \<open>epsilon\<close>
  closes it under the silent moves in one pass, because they only lead forward, \<open>nfaStep\<close> computes the states a byte
  leads to, and a run accepts exactly the bytes the states stand for: a globstar before a slash stands for nothing or for bytes
  that end with a slash, a globstar at the end for anything.
\<close>

section \<open>The meaning of states\<close>

definition state_matches :: "NfaState \<Rightarrow> byte \<Rightarrow> bool" where
  "state_matches s b =
     (case ns_kind s of
        NLiteral \<Rightarrow> ns_byte s = b
      | NAny \<Rightarrow> b \<noteq> SLASH
      | NClass \<Rightarrow> (case ns_bits s of None \<Rightarrow> False | Some bits \<Rightarrow> bitHas bits b)
      | _ \<Rightarrow> False)"

fun nfa_lang :: "NfaState list \<Rightarrow> bytes \<Rightarrow> bool" where
  "nfa_lang [] bs = (bs = [])"
| "nfa_lang (s # ss) bs =
     (case ns_kind s of
        NStar \<Rightarrow> \<exists>u v. bs = u @ v \<and> SLASH \<notin> set u \<and> nfa_lang ss v
      | StarAny \<Rightarrow> \<exists>u v. bs = u @ v \<and> nfa_lang ss v
      | GlobBoundary \<Rightarrow> \<exists>u v. bs = u @ v \<and> (u = [] \<or> last u = SLASH) \<and> nfa_lang (tl ss) v
      | GlobBody \<Rightarrow> \<exists>u v. bs = u @ v \<and> u \<noteq> [] \<and> last u = SLASH \<and> nfa_lang ss v
      | _ \<Rightarrow> \<exists>b v. bs = b # v \<and> state_matches s b \<and> nfa_lang ss v)"

text \<open>A boundary is always followed by its body, and a body preceded by its boundary.\<close>

definition nfa_wf :: "NfaState list \<Rightarrow> bool" where
  "nfa_wf states =
     (\<forall>i < length states.
        (ns_kind (states ! i) = GlobBoundary \<longrightarrow> i + 1 < length states \<and> ns_kind (states ! (i + 1)) = GlobBody) \<and>
        (ns_kind (states ! i) = GlobBody \<longrightarrow> 0 < i \<and> ns_kind (states ! (i - 1)) = GlobBoundary))"

definition moves :: "NfaState list \<Rightarrow> byte \<Rightarrow> nat \<Rightarrow> nat set" where
  "moves states b i =
     (if i < length states then
        case ns_kind (states ! i) of
          NStar \<Rightarrow> if b \<noteq> SLASH then {i} else {}
        | StarAny \<Rightarrow> {i}
        | GlobBoundary \<Rightarrow> if b = SLASH then {i} else {i + 1}
        | GlobBody \<Rightarrow> if b = SLASH then (if i = 0 then {} else {i - 1}) else {i}
        | _ \<Rightarrow> if state_matches (states ! i) b then {i + 1} else {}
      else {})"

definition silent :: "NfaState list \<Rightarrow> (nat \<times> nat) set" where
  "silent states = {(i, j). eps_target states i = Some j}"

definition closure :: "NfaState list \<Rightarrow> nat set \<Rightarrow> nat set" where
  "closure states S = (silent states)\<^sup>* `` S"

definition accepts_at :: "NfaState list \<Rightarrow> nat \<Rightarrow> bytes \<Rightarrow> bool" where
  "accepts_at states i bs = nfa_lang (drop i states) bs"

definition direct :: "NfaState list \<Rightarrow> nat \<Rightarrow> bytes \<Rightarrow> bool" where
  "direct states i bs =
     (case bs of [] \<Rightarrow> i = length states | b # bs' \<Rightarrow> \<exists>k \<in> moves states b i. accepts_at states k bs')"

lemma eps_target_nth:
  "eps_target states i =
     (if i < length states then
        case ns_kind (states ! i) of NStar \<Rightarrow> Some (i + 1) | StarAny \<Rightarrow> Some (i + 1) | GlobBoundary \<Rightarrow> Some (i + 2) | _ \<Rightarrow> None
      else None)"
  by (auto simp: eps_target_def charCodeAt_def split: NfaKind.splits)

lemma ex_split: "(\<exists>u v. bs = u @ v \<and> P u v) \<longleftrightarrow>
    (case bs of [] \<Rightarrow> P [] [] | b # bs' \<Rightarrow> P [] bs \<or> (\<exists>u v. bs' = u @ v \<and> P (b # u) v))"
  by (cases bs) (auto simp: ex_append_Cons)

lemma last_Cons_iff: "last (b # u) = c \<longleftrightarrow> (if b = c then u = [] \<or> last u = c else u \<noteq> [] \<and> last u = c)"
  by auto

text \<open>One step of the meaning: a byte, or a silent move.\<close>

lemma accepts_step:
  assumes "nfa_wf states" "i \<le> length states"
  shows "accepts_at states i bs \<longleftrightarrow> direct states i bs \<or> (\<exists>t. eps_target states i = Some t \<and> accepts_at states t bs)"
proof (cases "i < length states")
  case False
  then show ?thesis using assms(2) by (cases bs) (auto simp: accepts_at_def direct_def moves_def eps_target_nth)
next
  case True
  let ?s = "states ! i"
  have d: "drop i states = ?s # drop (i + 1) states" using True by (simp add: Cons_nth_drop_Suc)
  have wf: "ns_kind ?s = GlobBoundary \<Longrightarrow> i + 1 < length states \<and> ns_kind (states ! (i + 1)) = GlobBody"
    "ns_kind ?s = GlobBody \<Longrightarrow> 0 < i \<and> ns_kind (states ! (i - 1)) = GlobBoundary"
    using assms(1) True by (auto simp: nfa_wf_def)
  show ?thesis
  proof (cases "ns_kind ?s")
    case NStar
    show ?thesis
      using NStar True by (cases bs) (auto simp: accepts_at_def direct_def moves_def eps_target_nth d ex_append_Cons)
  next
    case StarAny
    show ?thesis
      using StarAny True by (cases bs) (auto simp: accepts_at_def direct_def moves_def eps_target_nth d ex_append_Cons)
  next
    case GlobBoundary
    then have i1: "i + 1 < length states" "ns_kind (states ! (i + 1)) = GlobBody" using wf(1) by auto
    then have d1: "drop (i + 1) states = states ! (i + 1) # drop (i + 2) states" by (simp add: Cons_nth_drop_Suc)
    have at: "accepts_at states i xs \<longleftrightarrow> (\<exists>u v. xs = u @ v \<and> (u = [] \<or> last u = SLASH) \<and> accepts_at states (i + 2) v)" for xs
      using GlobBoundary unfolding accepts_at_def d d1 by simp
    have body: "accepts_at states (i + 1) xs \<longleftrightarrow> (\<exists>u v. xs = u @ v \<and> u \<noteq> [] \<and> last u = SLASH \<and> accepts_at states (i + 2) v)" for xs
      using i1(2) unfolding accepts_at_def d1 by simp
    have eps: "eps_target states i = Some (i + 2)" using GlobBoundary True by (simp add: eps_target_nth)
    show ?thesis
    proof (cases bs)
      case Nil
      then show ?thesis using True eps at by (simp add: direct_def)
    next
      case (Cons b bs')
      have "accepts_at states i bs \<longleftrightarrow>
          accepts_at states (i + 2) bs \<or> (\<exists>u v. bs' = u @ v \<and> last (b # u) = SLASH \<and> accepts_at states (i + 2) v)"
        unfolding at Cons by (simp only: ex_append_Cons) simp
      also have "(\<exists>u v. bs' = u @ v \<and> last (b # u) = SLASH \<and> accepts_at states (i + 2) v) \<longleftrightarrow>
          (if b = SLASH then accepts_at states i bs' else accepts_at states (i + 1) bs')"
        unfolding at body last_Cons_iff by simp
      finally show ?thesis
        using True GlobBoundary Cons eps by (cases "b = SLASH") (simp_all add: direct_def moves_def disj_commute)
    qed
  next
    case GlobBody
    then have i1: "0 < i" "ns_kind (states ! (i - 1)) = GlobBoundary" using wf(2) by auto
    then have d1: "drop (i - 1) states = states ! (i - 1) # ?s # drop (i + 1) states"
      using True Cons_nth_drop_Suc [of "i - 1" states] d by simp
    have at: "accepts_at states i xs \<longleftrightarrow> (\<exists>u v. xs = u @ v \<and> u \<noteq> [] \<and> last u = SLASH \<and> nfa_lang (drop (i + 1) states) v)" for xs
      using GlobBody by (simp add: accepts_at_def d)
    have before: "accepts_at states (i - 1) xs \<longleftrightarrow>
        (\<exists>u v. xs = u @ v \<and> (u = [] \<or> last u = SLASH) \<and> nfa_lang (drop (i + 1) states) v)" for xs
      using i1(2) unfolding accepts_at_def d1 by simp
    have eps: "eps_target states i = None" using GlobBody by (simp add: eps_target_nth)
    show ?thesis
    proof (cases bs)
      case Nil
      then show ?thesis using True eps at by (simp add: direct_def)
    next
      case (Cons b bs')
      have "accepts_at states i bs \<longleftrightarrow>
          (\<exists>u v. bs' = u @ v \<and> last (b # u) = SLASH \<and> nfa_lang (drop (i + 1) states) v)"
        unfolding at Cons by (simp only: ex_append_Cons) simp
      also have "\<dots> \<longleftrightarrow> (if b = SLASH then accepts_at states (i - 1) bs' else accepts_at states i bs')"
        unfolding at before last_Cons_iff by simp
      finally show ?thesis using True GlobBody i1(1) Cons eps by (simp add: direct_def moves_def)
    qed
  qed (use True in \<open>cases bs; auto simp: accepts_at_def direct_def moves_def eps_target_nth d\<close>)+
qed

section \<open>Runs over sets of states\<close>

lemma closure_extends: "S \<subseteq> closure states S"
  by (auto simp: closure_def)

lemma closure_closed: "i \<in> closure states S \<Longrightarrow> eps_target states i = Some t \<Longrightarrow> t \<in> closure states S"
  by (auto simp: closure_def silent_def intro: rtrancl_into_rtrancl)

lemma closure_least:
  assumes "S \<subseteq> T" "\<And>i t. i \<in> T \<Longrightarrow> eps_target states i = Some t \<Longrightarrow> t \<in> T"
  shows "closure states S \<subseteq> T"
proof
  fix j assume "j \<in> closure states S"
  then obtain i where "i \<in> S" "(i, j) \<in> (silent states)\<^sup>*" by (auto simp: closure_def)
  from this(2,1) show "j \<in> T"
    by (induction rule: rtrancl_induct) (use assms in \<open>auto simp: silent_def\<close>)
qed

lemma target_within: "nfa_wf states \<Longrightarrow> eps_target states i = Some t \<Longrightarrow> i < t \<and> t \<le> length states"
  by (auto simp: eps_target_nth nfa_wf_def split: if_splits NfaKind.splits)

lemma moves_within: "nfa_wf states \<Longrightarrow> k \<in> moves states b i \<Longrightarrow> k \<le> length states"
  by (auto simp: moves_def nfa_wf_def Suc_le_eq split: if_splits NfaKind.splits)

lemma closure_within: "nfa_wf states \<Longrightarrow> S \<subseteq> {..length states} \<Longrightarrow> closure states S \<subseteq> {..length states}"
  by (rule closure_least) (auto dest: target_within)

lemma accepts_closure:
  assumes "nfa_wf states" "i \<le> length states"
  shows "accepts_at states i bs \<longleftrightarrow> (\<exists>j \<in> closure states {i}. direct states j bs)"
  using assms(2)
proof (induction "length states - i" arbitrary: i rule: less_induct)
  case less
  show ?case
  proof (cases "eps_target states i")
    case None
    then have "closure states {i} = {i}" using closure_least [of "{i}" "{i}" states] closure_extends [of "{i}"] by auto
    then show ?thesis using accepts_step [OF assms(1) less.prems] None by simp
  next
    case (Some t)
    have t: "i < t" "t \<le> length states" using target_within [OF assms(1) Some] by auto
    have "closure states {i} = insert i (closure states {t})"
    proof
      show "closure states {i} \<subseteq> insert i (closure states {t})"
        by (rule closure_least) (use Some closure_extends [of "{t}" states] in \<open>auto dest: closure_closed\<close>)
      show "insert i (closure states {t}) \<subseteq> closure states {i}"
        using closure_extends [of "{i}" states] closure_closed [OF _ Some, of "{i}"]
          closure_least [of "{t}" "closure states {i}" states] by (auto dest: closure_closed)
    qed
    then show ?thesis using accepts_step [OF assms(1) less.prems] Some less.hyps [of t] t by auto
  qed
qed

lemma accepts_silent: "nfa_wf states \<Longrightarrow> i \<le> length states \<Longrightarrow> j \<in> closure states {i} \<Longrightarrow> accepts_at states j bs \<Longrightarrow> accepts_at states i bs"
proof -
  assume *: "nfa_wf states" "i \<le> length states" "j \<in> closure states {i}" "accepts_at states j bs"
  have "closure states {j} \<subseteq> closure states {i}" using *(3) by (intro closure_least) (auto dest: closure_closed)
  moreover have "j \<le> length states" using closure_within [OF *(1), of "{i}"] *(2,3) by auto
  ultimately show ?thesis using * accepts_closure [OF *(1)] by blast
qed

fun run :: "NfaState list \<Rightarrow> nat set \<Rightarrow> bytes \<Rightarrow> nat set" where
  "run states S [] = S"
| "run states S (b # bs) = run states (closure states (\<Union>i \<in> S. moves states b i)) bs"

lemma run_append: "run states S (xs @ ys) = run states (run states S xs) ys"
  by (induction xs arbitrary: S) simp_all

lemma run_within:
  "nfa_wf states \<Longrightarrow> S \<subseteq> {..length states} \<Longrightarrow> run states S bs \<subseteq> {..length states}"
proof (induction bs arbitrary: S)
  case (Cons b bs)
  have "closure states (\<Union>i \<in> S. moves states b i) \<subseteq> {..length states}"
    using Cons.prems(1) by (intro closure_within) (auto dest: moves_within)
  then show ?case using Cons by simp
qed simp

lemma closure_mem: "j \<in> closure states S \<longleftrightarrow> (\<exists>i \<in> S. j \<in> closure states {i})"
  by (auto simp: closure_def)

lemma direct_accepts:
  assumes "nfa_wf states" "S \<subseteq> {..length states}" "\<And>i t. i \<in> S \<Longrightarrow> eps_target states i = Some t \<Longrightarrow> t \<in> S"
  shows "(\<exists>i \<in> S. direct states i bs) \<longleftrightarrow> (\<exists>i \<in> S. accepts_at states i bs)"
proof
  assume "\<exists>i \<in> S. direct states i bs"
  then obtain i where "i \<in> S" "direct states i bs" by blast
  moreover have "i \<in> closure states {i}" using closure_extends by blast
  ultimately show "\<exists>i \<in> S. accepts_at states i bs"
    using accepts_closure [OF assms(1), of i] assms(2) by blast
next
  assume "\<exists>i \<in> S. accepts_at states i bs"
  then obtain i where i: "i \<in> S" "accepts_at states i bs" by blast
  then obtain j where "j \<in> closure states {i}" "direct states j bs"
    using accepts_closure [OF assms(1), of i] assms(2) by blast
  moreover have "closure states {i} \<subseteq> S" using i(1) assms(3) by (intro closure_least) auto
  ultimately show "\<exists>i \<in> S. direct states i bs" by blast
qed

text \<open>A run accepts exactly when the meaning of one of its states holds the bytes.\<close>

lemma run_accepts:
  assumes "nfa_wf states" "S \<subseteq> {..length states}" "\<And>i t. i \<in> S \<Longrightarrow> eps_target states i = Some t \<Longrightarrow> t \<in> S"
  shows "length states \<in> run states S bs \<longleftrightarrow> (\<exists>i \<in> S. accepts_at states i bs)"
  using assms(2,3)
proof (induction bs arbitrary: S)
  case Nil
  show ?case using direct_accepts [OF assms(1) Nil.prems, where bs = "[]"] by (simp add: direct_def)
next
  case (Cons b bs)
  define M where "M = (\<Union>i \<in> S. moves states b i)"
  have M: "M \<subseteq> {..length states}" unfolding M_def using moves_within [OF assms(1)] by auto
  have "length states \<in> run states S (b # bs) \<longleftrightarrow> (\<exists>i \<in> closure states M. accepts_at states i bs)"
    using Cons.IH [of "closure states M"] closure_within [OF assms(1) M] closure_closed by (auto simp: M_def)
  also have "\<dots> \<longleftrightarrow> (\<exists>i \<in> M. accepts_at states i bs)"
    using accepts_silent [OF assms(1)] M closure_mem closure_extends by (meson atMost_iff subsetD)
  also have "\<dots> \<longleftrightarrow> (\<exists>i \<in> S. direct states i (b # bs))" by (auto simp: M_def direct_def)
  also have "\<dots> \<longleftrightarrow> (\<exists>i \<in> S. accepts_at states i (b # bs))" by (rule direct_accepts [OF assms(1) Cons.prems])
  finally show ?case .
qed

lemma run_from_start:
  assumes "nfa_wf states"
  shows "length states \<in> run states (closure states {0}) bs \<longleftrightarrow> nfa_lang states bs"
proof -
  have "length states \<in> run states (closure states {0}) bs \<longleftrightarrow> (\<exists>i \<in> closure states {0}. accepts_at states i bs)"
    by (rule run_accepts) (use assms closure_within [OF assms, of "{0}"] in \<open>auto dest: closure_closed\<close>)
  also have "\<dots> \<longleftrightarrow> accepts_at states 0 bs"
    using accepts_silent [OF assms, of 0] closure_extends [of "{0}" states] by blast
  finally show ?thesis by (simp add: accepts_at_def)
qed

section \<open>Masks\<close>

definition mask_set :: "words \<Rightarrow> nat set" where
  "mask_set m = {i. has_bit m i}"

lemma mask_set_update: "t < 32 * length m \<Longrightarrow> mask_set (set_bit_at m t) = insert t (mask_set m)"
proof (rule set_eqI)
  fix i assume t: "t < 32 * length m"
  have "i = t" if "i div 32 = t div 32" "i mod 32 = t mod 32" using that by (metis div_mult_mod_eq)
  then show "i \<in> mask_set (set_bit_at m t) \<longleftrightarrow> i \<in> insert t (mask_set m)"
    using t by (auto simp: mask_set_def has_bit_iff set_bit_at_def word_at_update bit_or_iff bit_exp_iff)
qed

lemma length_set_bit_at [simp]: "length (set_bit_at m t) = length m"
  by (simp add: set_bit_at_def)

lemma mask_set_zeros [simp]: "mask_set (replicate n 0) = {}"
  by (auto simp: mask_set_def has_bit_iff word_at_def charCodeAt_def)

lemma mask_set_bit: "bit (word_at m w) k \<longleftrightarrow> k < 32 \<and> w * 32 + k \<in> mask_set m"
  using bit_imp_le_length [of "word_at m w" k] by (cases "k < 32") (auto simp: mask_set_def has_bit_iff)

lemma mask_set_bound: "i \<in> mask_set m \<Longrightarrow> i div 32 < length m"
  by (auto simp: mask_set_def has_bit_iff word_at_def charCodeAt_def split: if_splits)

text \<open>What a pass over the bits of one word leaves, from the mask \<open>m\<close> with the bits \<open>pending\<close> to the mask \<open>m'\<close>.\<close>

definition eps_post :: "NfaState list \<Rightarrow> int \<Rightarrow> nat \<Rightarrow> 32 word \<Rightarrow> words \<Rightarrow> int \<Rightarrow> words \<times> int \<times> bool \<Rightarrow> bool" where
  "eps_post states maxWork word pending m work res =
     (case res of (m', work', stopped) \<Rightarrow>
        length m' = length m \<and> (stopped \<longleftrightarrow> maxWork < work') \<and> work \<le> work' \<and> work' \<le> work + int (pending_left pending) \<and>
        mask_set m \<subseteq> mask_set m' \<and> mask_set m' \<subseteq> closure states (mask_set m) \<and>
        (\<forall>i \<in> mask_set m'. i \<notin> mask_set m \<longrightarrow> word * 32 < i) \<and>
        (\<not> stopped \<longrightarrow> (\<forall>i \<in> mask_set m'. i div 32 = word \<longrightarrow>
           (i \<in> mask_set m \<and> \<not> bit pending (i mod 32)) \<or> (\<forall>t. eps_target states i = Some t \<longrightarrow> t \<in> mask_set m'))))"

lemma closure_mono: "S \<subseteq> T \<Longrightarrow> closure states S \<subseteq> closure states T"
  by (auto simp: closure_def)

lemma closure_insert_target:
  assumes "i \<in> S" "eps_target states i = Some t"
  shows "closure states (insert t S) \<subseteq> closure states S"
proof (rule closure_least)
  have "i \<in> closure states S" using assms(1) closure_extends by blast
  then show "insert t S \<subseteq> closure states S" using closure_closed [OF _ assms(2)] closure_extends by blast
qed (rule closure_closed)

lemma bit_pending_index: "w \<noteq> 0 \<Longrightarrow> bit w n \<Longrightarrow> \<not> bit (w AND NOT (low_bit w)) n \<Longrightarrow> n = low_index w"
  by (simp add: bit_clear_low)

lemma eps_post_skip:
  assumes post: "eps_post states maxWork word (pending AND NOT (low_bit pending)) m (work + 1) res"
    and "pending \<noteq> 0"
    and closed: "\<And>t. eps_target states (word * 32 + low_index pending) = Some t \<Longrightarrow> t \<in> mask_set m"
  shows "eps_post states maxWork word pending m work res"
proof -
  have "pending_left (pending AND NOT (low_bit pending)) < pending_left pending"
    by (rule pending_left_less [OF assms(2) clear_low_up [OF assms(2)]])
  moreover have idx: "i = word * 32 + low_index pending"
    if "i div 32 = word" "bit pending (i mod 32)" "\<not> bit (pending AND NOT (low_bit pending)) (i mod 32)" for i
    using bit_pending_index [OF assms(2) that(2,3)] that(1) by (metis div_mult_mod_eq)
  moreover obtain m' work' stopped where res: "res = (m', work', stopped)" by (cases res)
  moreover note p = post [unfolded eps_post_def res, simplified]
  moreover have "(i \<in> mask_set m \<and> \<not> bit pending (i mod 32)) \<or> (\<forall>t. eps_target states i = Some t \<longrightarrow> t \<in> mask_set m')"
    if "\<not> stopped" "i \<in> mask_set m'" "i div 32 = word" for i
  proof (cases "bit pending (i mod 32) \<and> \<not> bit (pending AND NOT (low_bit pending)) (i mod 32)")
    case True
    then have "i = word * 32 + low_index pending" using idx [of i] that(3) by blast
    then show ?thesis using closed p by blast
  next
    case False
    then show ?thesis using p that by (auto simp: bit_clear_low [OF assms(2)])
  qed
  ultimately show ?thesis unfolding eps_post_def res by auto
qed

lemma eps_post_mark:
  assumes post: "eps_post states maxWork word (mark_pending word t (pending AND NOT (low_bit pending))) (set_bit_at m t) (work + 1) res"
    and "pending \<noteq> 0" and target: "eps_target states (word * 32 + low_index pending) = Some t" "t < 32 * length m"
    and bit: "word * 32 + low_index pending \<in> mask_set m"
  shows "eps_post states maxWork word pending m work res"
proof -
  let ?p = "mark_pending word t (pending AND NOT (low_bit pending))"
  have up: "word * 32 + low_index pending < t" by (rule eps_target_up [OF target(1)])
  have left: "pending_left ?p < pending_left pending"
    using up by (intro pending_left_less [OF assms(2)]) (auto simp: bit_mark_pending dest: clear_low_up [OF assms(2)])
  have idx: "i = word * 32 + low_index pending"
    if "i \<noteq> t" "i div 32 = word" "bit pending (i mod 32)" "\<not> bit ?p (i mod 32)" for i
    using bit_pending_index [OF assms(2) that(3)] that by (auto simp: bit_mark_pending) (metis div_mult_mod_eq)
  have marked: "bit ?p (t mod 32)" if "t div 32 = word"
    using that by (auto simp: bit_mark_pending)
  have set: "mask_set (set_bit_at m t) = insert t (mask_set m)" by (rule mask_set_update [OF target(2)])
  obtain m' work' stopped where res: "res = (m', work', stopped)" by (cases res)
  note p = post [unfolded eps_post_def res, simplified, unfolded set]
  have "closure states (insert t (mask_set m)) \<subseteq> closure states (mask_set m)"
    by (rule closure_insert_target [OF bit target(1)])
  moreover have "(i \<in> mask_set m \<and> \<not> bit pending (i mod 32)) \<or> (\<forall>t. eps_target states i = Some t \<longrightarrow> t \<in> mask_set m')"
    if "\<not> stopped" "i \<in> mask_set m'" "i div 32 = word" for i
  proof (cases "\<forall>t. eps_target states i = Some t \<longrightarrow> t \<in> mask_set m'")
    case False
    then have "i \<in> insert t (mask_set m)" "\<not> bit ?p (i mod 32)" using p that by auto
    moreover have "i \<noteq> t" using calculation(2) marked that(3) by auto
    ultimately show ?thesis using idx [of i] that(3) False target(1) p by auto
  qed simp
  ultimately show ?thesis using p left up unfolding eps_post_def res by auto
qed

lemma eps_word_exact:
  "nfa_wf states \<Longrightarrow> work \<le> maxWork \<Longrightarrow> length states < 32 * length m \<Longrightarrow>
   (\<And>k. bit pending k \<Longrightarrow> word * 32 + k \<in> mask_set m) \<Longrightarrow>
   eps_post states maxWork word pending m work (eps_word states maxWork word pending m work)"
proof (induction states maxWork word pending m work rule: eps_word.induct)
  case (1 states maxWork word pending m work)
  note unfold = eps_word.simps [of states maxWork word pending m work]
  show ?case
  proof (cases "pending = 0")
    case True
    then show ?thesis
      using unfold "1.prems"(2) closure_extends [of "mask_set m" states] by (auto simp: eps_post_def)
  next
    case nonzero: False
    let ?p = "pending AND NOT (low_bit pending)"
    have low: "word * 32 + low_index pending \<in> mask_set m" using "1.prems"(4) low_index_props(2) [OF nonzero] by blast
    have sub: "bit ?p k \<Longrightarrow> bit pending k" for k by (simp add: bit_clear_low [OF nonzero])
    show ?thesis
    proof (cases "work + 1 > maxWork")
      case True
      then show ?thesis
        using unfold nonzero "1.prems"(2) closure_extends [of "mask_set m" states] low_index_props(1) [OF nonzero]
        by (auto simp: eps_post_def pending_left_def)
    next
      case room: False
      show ?thesis
      proof (cases "eps_target states (word * 32 + low_index pending)")
        case None
        have "eps_post states maxWork word ?p m (work + 1) (eps_word states maxWork word ?p m (work + 1))"
          using "1.IH"(1) [OF nonzero refl room None] "1.prems" room sub by simp
        then have "eps_post states maxWork word pending m work (eps_word states maxWork word ?p m (work + 1))"
          by (rule eps_post_skip) (use nonzero None in auto)
        then show ?thesis using None unfold nonzero room by (simp add: Let_def)
      next
        case (Some t)
        have t: "t < 32 * length m" using target_within [OF "1.prems"(1) Some] "1.prems"(3) by simp
        show ?thesis
        proof (cases "has_bit m t")
          case True
          have "eps_post states maxWork word ?p m (work + 1) (eps_word states maxWork word ?p m (work + 1))"
            using "1.IH"(2) [OF nonzero refl room Some True] "1.prems" room sub by simp
          then have "eps_post states maxWork word pending m work (eps_word states maxWork word ?p m (work + 1))"
            by (rule eps_post_skip) (use nonzero Some True in \<open>auto simp: mask_set_def\<close>)
          then show ?thesis using Some True unfold nonzero room by (simp add: Let_def)
        next
          case False
          have "word * 32 + k \<in> mask_set (set_bit_at m t)" if "bit (mark_pending word t ?p) k" for k
            using that "1.prems"(4) sub mask_set_update [OF t] by (auto simp: bit_mark_pending)
          then have "eps_post states maxWork word (mark_pending word t ?p) (set_bit_at m t) (work + 1)
              (eps_word states maxWork word (mark_pending word t ?p) (set_bit_at m t) (work + 1))"
            using "1.IH"(3) [OF nonzero refl room Some False] "1.prems"(1-3) room by simp
          then show ?thesis
            using eps_post_mark [OF _ nonzero Some t low] Some False unfold nonzero room by (simp add: Let_def)
        qed
      qed
    qed
  qed
qed

lemma eps_from_exact:
  assumes "nfa_wf states"
  shows "eps_from states maxWork [w..<length m] m work = (m', work') \<Longrightarrow> work \<le> maxWork \<Longrightarrow> length states < 32 * length m \<Longrightarrow>
    w \<le> length m \<Longrightarrow> (\<And>i t. i \<in> mask_set m \<Longrightarrow> i < w * 32 \<Longrightarrow> eps_target states i = Some t \<Longrightarrow> t \<in> mask_set m) \<Longrightarrow>
    length m' = length m \<and> work \<le> work' \<and> work' \<le> work + 32 * int (length m - w) \<and>
    (work' \<le> maxWork \<longrightarrow> mask_set m' = closure states (mask_set m))"
proof (induction "length m - w" arbitrary: w m work)
  case 0
  have "closure states (mask_set m) \<subseteq> mask_set m"
  proof (rule closure_least)
    fix i t assume i: "i \<in> mask_set m" "eps_target states i = Some t"
    then have "i < w * 32" using mask_set_bound [OF i(1)] 0 by simp
    then show "t \<in> mask_set m" using 0 i by blast
  qed simp
  then show ?case using 0 closure_extends [of "mask_set m" states] by auto
next
  case (Suc n)
  obtain m1 work1 stopped where r: "eps_word states maxWork w (word_at m w) m work = (m1, work1, stopped)"
    using prod_cases3 by blast
  have w: "[w..<length m] = w # [w + 1..<length m]" using Suc.hyps(2) by (simp add: upt_conv_Cons)
  have p: "eps_post states maxWork w (word_at m w) m work (m1, work1, stopped)"
    unfolding r [symmetric]
    by (rule eps_word_exact [OF assms Suc.prems(2,3)]) (simp add: mask_set_bit)
  note q = p [unfolded eps_post_def, simplified]
  have "pending_left (word_at m w) \<le> 32" by (simp add: pending_left_def)
  then have bound: "work \<le> work1" "work1 \<le> work + 32" using q by auto
  have len: "length m1 = length m" using q by simp
  have same: "closure states (mask_set m1) = closure states (mask_set m)"
    using q closure_mono [of "mask_set m" "mask_set m1"] closure_least [of "mask_set m1" "closure states (mask_set m)"] closure_closed
    by blast
  show ?case
  proof (cases stopped)
    case True
    then have "m' = m1" "work' = work1" using Suc.prems(1) r unfolding w by simp_all
    then show ?thesis using len bound q True Suc.hyps(2) by auto
  next
    case False
    then have run: "eps_from states maxWork [w + 1..<length m1] m1 work1 = (m', work')"
      using Suc.prems(1) r len unfolding w by simp
    have closed: "t \<in> mask_set m1"
      if i: "i \<in> mask_set m1" "i < (w + 1) * 32" "eps_target states i = Some t" for i t
    proof (cases "i < w * 32")
      case True
      then have "i \<in> mask_set m" using q i(1) by force
      then show ?thesis using Suc.prems(5) True i(3) q by blast
    next
      case False
      then have d: "i div 32 = w" using i(2) by auto
      have "bit (word_at m w) (i mod 32)" if "i \<in> mask_set m" using that d mask_set_bit [of m w "i mod 32"] by auto
      then show ?thesis using q i(1,3) d \<open>\<not> stopped\<close> by blast
    qed
    have "length m' = length m1 \<and> work1 \<le> work' \<and> work' \<le> work1 + 32 * int (length m1 - (w + 1)) \<and>
        (work' \<le> maxWork \<longrightarrow> mask_set m' = closure states (mask_set m1))"
      using Suc.hyps(1) [OF _ run] q False closed Suc.hyps(2) Suc.prems(3) len by simp
    then show ?thesis using bound len same Suc.hyps(2) by auto
  qed
qed

text \<open>Room for the states and the accepting one.\<close>

abbreviation fits :: "NfaState list \<Rightarrow> words \<Rightarrow> bool" where
  "fits states m \<equiv> length states < 32 * length m"

lemma epsilon_exact:
  assumes "nfa_wf states" "fits states m" "0 \<le> maxWork" "epsilon states m maxWork = (m', w)"
  shows "length m' = length m" "0 \<le> w" "w \<le> 32 * int (length m)" "w \<le> maxWork \<Longrightarrow> mask_set m' = closure states (mask_set m)"
  using eps_from_exact [OF assms(1), of maxWork 0 m 0 m' w] assms by (auto simp: epsilon_def)

lemma mask_set_step_state:
  assumes "nfa_wf states" "fits states m" "i < length states"
  shows "mask_set (step_state (states ! i) i b m) = mask_set m \<union> moves states b i" "length (step_state (states ! i) i b m) = length m"
proof -
  have "i + 1 < 32 * length m" "i < 32 * length m" "i - 1 < 32 * length m" using assms(2,3) by auto
  note upd = this [THEN mask_set_update]
  show "mask_set (step_state (states ! i) i b m) = mask_set m \<union> moves states b i"
    using assms(3) upd
    by (auto simp: step_state_def moves_def state_matches_def split: NfaKind.splits option.splits if_splits)
  show "length (step_state (states ! i) i b m) = length m"
    by (auto simp: step_state_def split: NfaKind.splits option.splits)
qed

lemma step_word_exact:
  "nfa_wf states \<Longrightarrow> fits states nxt \<Longrightarrow> work \<le> maxWork \<Longrightarrow>
   (case step_word states maxWork word b pending nxt work of (nxt', work', stopped) \<Rightarrow>
      length nxt' = length nxt \<and> (stopped \<longleftrightarrow> maxWork < work') \<and> work \<le> work' \<and> work' \<le> work + int (pending_left pending) \<and>
      (\<not> stopped \<longrightarrow> mask_set nxt' = mask_set nxt \<union> (\<Union>k \<in> {k. bit pending k}. moves states b (word * 32 + k))))"
proof (induction states maxWork word b pending nxt work rule: step_word.induct)
  case (1 states maxWork word b pending nxt work)
  note unfold = step_word.simps [of states maxWork word b pending nxt work]
  show ?case
  proof (cases "pending = 0")
    case True
    then show ?thesis using unfold "1.prems" by simp
  next
    case nonzero: False
    let ?p = "pending AND NOT (low_bit pending)"
    let ?i = "word * 32 + low_index pending"
    have left: "pending_left ?p < pending_left pending"
      by (rule pending_left_less [OF nonzero clear_low_up [OF nonzero]])
    have bits: "{k. bit pending k} = insert (low_index pending) {k. bit ?p k}"
      using low_index_props(2) [OF nonzero] by (auto simp: bit_clear_low [OF nonzero])
    show ?thesis
    proof (cases "work + 1 > maxWork")
      case True
      then show ?thesis using unfold nonzero "1.prems"(3) left by simp
    next
      case room: False
      show ?thesis
      proof (cases "?i < length states")
        case False
        then have none: "charCodeAt states ?i = None" by (simp add: charCodeAt_def)
        have "moves states b ?i = {}" using False by (simp add: moves_def)
        then show ?thesis
          using "1.IH"(1) [OF nonzero refl refl room none] "1.prems" room left unfold nonzero none bits
          by (auto simp: Let_def split: prod.splits)
      next
        case True
        then have some: "charCodeAt states ?i = Some (states ! ?i)" by (simp add: charCodeAt_def)
        note s = mask_set_step_state [OF "1.prems"(1,2) True, of b]
        show ?thesis
          using "1.IH"(2) [OF nonzero refl refl room some] "1.prems" room left unfold nonzero some bits s
          by (auto simp: Let_def split: prod.splits)
      qed
    qed
  qed
qed

lemma step_from_exact:
  "nfa_wf states \<Longrightarrow> fits states nxt \<Longrightarrow> work \<le> maxWork \<Longrightarrow>
   (case step_from states maxWork b ws current nxt work of (nxt', work', stopped) \<Rightarrow>
      length nxt' = length nxt \<and> (stopped \<longleftrightarrow> maxWork < work') \<and> work \<le> work' \<and> work' \<le> work + 32 * int (length ws) \<and>
      (\<not> stopped \<longrightarrow> mask_set nxt' = mask_set nxt \<union> (\<Union>i \<in> {i \<in> mask_set current. i div 32 \<in> set ws}. moves states b i)))"
proof (induction ws arbitrary: nxt work)
  case (Cons w ws)
  obtain n1 work1 stopped where r: "step_word states maxWork w b (word_at current w) nxt work = (n1, work1, stopped)"
    using prod_cases3 by blast
  note q = step_word_exact [OF Cons.prems, where word = w and b = b and pending = "word_at current w", unfolded r, simplified]
  have "pending_left (word_at current w) \<le> 32" by (simp add: pending_left_def)
  then have bound: "work1 \<le> work + 32" using q by simp
  have "(\<Union>k \<in> {k. bit (word_at current w) k}. moves states b (w * 32 + k)) =
      (\<Union>i \<in> {i \<in> mask_set current. i div 32 = w}. moves states b i)"
  proof -
    have "(\<lambda>k. w * 32 + k) ` {k. bit (word_at current w) k} = {i \<in> mask_set current. i div 32 = w}"
      by (auto simp: mask_set_bit image_iff) (metis div_mult_mod_eq mod_less_divisor zero_less_numeral)
    then show ?thesis by (simp flip: image_image)
  qed
  moreover have "{i \<in> mask_set current. i div 32 \<in> set (w # ws)} =
      {i \<in> mask_set current. i div 32 = w} \<union> {i \<in> mask_set current. i div 32 \<in> set ws}" by auto
  ultimately show ?case
    using q bound Cons.IH [of n1 work1] Cons.prems r by (cases stopped) (auto split: prod.splits)
qed auto

lemma nfaStep_exact:
  assumes "nfa_wf states" "length nxt = length current" "fits states current" "0 \<le> maxWork" "nfaStep states current nxt b maxWork = (n', w)"
  shows "length n' = length current" "0 \<le> w" "w \<le> 64 * int (length current)"
    "w \<le> maxWork \<Longrightarrow> mask_set n' = closure states (\<Union>i \<in> mask_set current. moves states b i)"
proof -
  let ?z = "replicate (length nxt) (0 :: 32 word)"
  obtain n1 work stopped where r: "step_from states maxWork b [0..<length current] current ?z 0 = (n1, work, stopped)"
    using prod_cases3 by blast
  have all: "{i \<in> mask_set current. i div 32 \<in> set [0..<length current]} = mask_set current" by (auto dest: mask_set_bound)
  have q: "length n1 = length current" "stopped \<longleftrightarrow> maxWork < work" "0 \<le> work" "work \<le> 32 * int (length current)"
    "\<not> stopped \<Longrightarrow> mask_set n1 = (\<Union>i \<in> mask_set current. moves states b i)"
    using step_from_exact [OF assms(1), where nxt = ?z and work = 0 and maxWork = maxWork and b = b
        and ws = "[0..<length current]" and current = current] assms(2-4) r
    by (simp_all add: all [simplified])
  have "length n' = length current \<and> 0 \<le> w \<and> w \<le> 64 * int (length current) \<and>
    (w \<le> maxWork \<longrightarrow> mask_set n' = closure states (\<Union>i \<in> mask_set current. moves states b i))"
  proof (cases stopped)
    case True
    then have "n' = n1" "w = work" using assms(5) r by (simp_all add: nfaStep_def)
    then show ?thesis using q True by auto
  next
    case False
    obtain n2 w2 where e: "epsilon states n1 (maxWork - work) = (n2, w2)" by (cases "epsilon states n1 (maxWork - work)")
    have res: "n' = n2" "w = work + w2" using assms(5) r False e by (simp_all add: nfaStep_def)
    have "fits states n1" "0 \<le> maxWork - work" using q assms(3) False by auto
    note x = epsilon_exact [OF assms(1) this e]
    then show ?thesis using q False res by auto
  qed
  then show "length n' = length current" "0 \<le> w" "w \<le> 64 * int (length current)"
    "w \<le> maxWork \<Longrightarrow> mask_set n' = closure states (\<Union>i \<in> mask_set current. moves states b i)" by auto
qed

lemma nfa_bytes_exact:
  "nfa_wf states \<Longrightarrow> length nxt = length current \<Longrightarrow> fits states current \<Longrightarrow> work \<le> maxWork \<Longrightarrow>
   (case nfa_bytes states maxWork bs current nxt work of (current', nxt', work', stopped) \<Rightarrow>
      length current' = length current \<and> length nxt' = length current \<and> (stopped \<longleftrightarrow> maxWork < work') \<and> work \<le> work' \<and>
      work' \<le> work + 64 * int (length current) * int (length bs) \<and>
      (\<not> stopped \<longrightarrow> mask_set current' = run states (mask_set current) bs))"
proof (induction bs arbitrary: current nxt work)
  case (Cons b bs)
  obtain n1 w where r: "nfaStep states current nxt b (maxWork - work) = (n1, w)" by (cases "nfaStep states current nxt b (maxWork - work)")
  note q = nfaStep_exact [OF Cons.prems(1-3) _ r]
  show ?case
  proof (cases "work + w > maxWork")
    case True
    moreover have "w \<le> 64 * int (length current) * int (length (b # bs))"
      using q(3) Cons.prems(4) mult_left_mono [of 1 "int (length (b # bs))" "64 * int (length current)"] by simp
    ultimately show ?thesis using q r Cons.prems by simp
  next
    case False
    then show ?thesis
      using Cons.IH [of current n1 "work + w"] q r Cons.prems by (auto simp: algebra_simps split: prod.splits)
  qed
qed simp

lemma nfaMask_props: "fits states (nfaMask states)" "length (nfaMask states) \<le> length states div 32 + 1" "mask_set (nfaMask states) = {}"
  by (auto simp: nfaMask_def)

section \<open>Literal prefixes\<close>

lemma nfa_lang_prefix:
  "nfa_lang states bs \<Longrightarrow> \<exists>v. bs = nfaLiteralPrefix states @ v"
proof (induction states arbitrary: bs)
  case (Cons s ss)
  then show ?case by (cases "ns_kind s = NLiteral") (auto simp: nfaLiteralPrefix_def state_matches_def)
qed (simp add: nfaLiteralPrefix_def)

section \<open>Compiled states\<close>

text \<open>Blocks of states: one state of a token, a boundary with its body, or a final globstar.\<close>

inductive blocks :: "NfaState list \<Rightarrow> bool" where
  none: "blocks []"
| token: "ns_kind s \<notin> {GlobBoundary, GlobBody} \<Longrightarrow> blocks ss \<Longrightarrow> blocks (s # ss)"
| globstar: "ns_kind s = GlobBoundary \<Longrightarrow> ns_kind s' = GlobBody \<Longrightarrow> blocks ss \<Longrightarrow> blocks (s # s' # ss)"

lemma blocks_append: "blocks xs \<Longrightarrow> blocks ys \<Longrightarrow> blocks (xs @ ys)"
  by (induction rule: blocks.induct) (auto intro: blocks.intros)

lemma blocks_wf: "blocks states \<Longrightarrow> nfa_wf states"
proof (induction rule: blocks.induct)
  case (token s ss)
  then show ?case by (auto simp: nfa_wf_def nth_Cons' less_Suc_eq_0_disj)
next
  case (globstar s s' ss)
  then show ?case by (auto simp: nfa_wf_def nth_Cons' less_Suc_eq_0_disj)
qed (simp add: nfa_wf_def)

lemma blocks_tokens: "blocks (map state_of_token tokens)"
proof (induction tokens)
  case (Cons t tokens)
  then show ?case by (cases "tk_kind t") (auto simp: state_of_token_def intro: blocks.intros)
qed (simp add: blocks.intros)

lemma segment_states_blocks: "segment_states bs lo hi = Some new \<Longrightarrow> blocks new"
  using blocks.globstar [OF _ _ blocks.none, of "glob_state GlobBoundary" "glob_state GlobBody"]
    blocks.token [OF _ blocks.none, of "glob_state StarAny"] blocks.token [OF _ blocks.none, of slash_state]
  by (auto simp: segment_states_def Let_def glob_state_def slash_state_def blocks_tokens split: if_splits
      intro!: blocks_append)

lemma nfa_loop_blocks: "nfa_loop bs index start states = Some result \<Longrightarrow> blocks states \<Longrightarrow> blocks result"
proof (induction bs index start states rule: nfa_loop.induct)
  case (1 bs index start states)
  from "1.prems" consider (finish) "result = states"
    | (within) "index \<le> length bs" "within_segment bs index" "nfa_loop bs (index + 1) start states = Some result"
    | (segment) new where "index \<le> length bs" "\<not> within_segment bs index" "segment_states bs start index = Some new"
        "nfa_loop bs (index + 1) (index + 1) (states @ new) = Some result"
    by (subst (asm) nfa_loop.simps) (auto split: if_splits option.splits)
  then show ?case
  proof cases
    case segment
    then show ?thesis using "1.IH"(2) "1.prems"(2) segment_states_blocks blocks_append by blast
  qed (use "1.prems"(2) "1.IH"(1) in auto)
qed

lemma compileNfa_wf: "compileNfa bs = Some states \<Longrightarrow> nfa_wf states"
  by (auto simp: compileNfa_def intro!: blocks_wf nfa_loop_blocks [where states = "[]"] blocks.none)

end
