(* ===== verification/IgnoreDepths.thy ===== *)
theory IgnoreDepths
  imports IgnoreNfa
begin

text \<open>
  The depths of a path a pattern matches: the segments of an encoded path, and \<open>matchPatternDepths\<close> against the
  meaning of the compiled pattern on the path below the source, up to each depth. The optimised forms of a pattern
  are compared with the plain ones.
\<close>

section \<open>Segments\<close>

text \<open>What the arrays of an encoded path say of its bytes.\<close>

definition segmented :: "EncodedPath \<Rightarrow> bool" where
  "segmented path =
     (let n = ep_segments path; bs = ep_bytes path; starts = ep_starts path; ends = ep_ends path
      in 0 < n \<and> length starts = n \<and> length ends = n \<and> starts ! 0 = 0 \<and> ends ! (n - 1) = length bs \<and>
         (\<forall>j < n. starts ! j \<le> ends ! j \<and> ends ! j \<le> length bs \<and> SLASH \<notin> set (slice bs (starts ! j) (ends ! j))) \<and>
         (\<forall>j. j + 1 < n \<longrightarrow> ends ! j < length bs \<and> bs ! (ends ! j) = SLASH \<and> starts ! (j + 1) = ends ! j + 1))"

lemma segment_bounds_props:
  "segment_bounds bs (length pre) start = (starts, ends) \<Longrightarrow> start \<le> length pre \<Longrightarrow> SLASH \<notin> set (slice (pre @ bs) start (length pre)) \<Longrightarrow>
   whole = pre @ bs \<Longrightarrow>
   length starts = count_slashes bs + 1 \<and> length ends = count_slashes bs + 1 \<and> starts ! 0 = start \<and>
   ends ! (count_slashes bs) = length whole \<and>
   (\<forall>j \<le> count_slashes bs. starts ! j \<le> ends ! j \<and> ends ! j \<le> length whole \<and> SLASH \<notin> set (slice whole (starts ! j) (ends ! j))) \<and>
   (\<forall>j < count_slashes bs. ends ! j < length whole \<and> whole ! (ends ! j) = SLASH \<and> starts ! (j + 1) = ends ! j + 1)"
proof (induction bs arbitrary: pre start starts ends)
  case Nil
  then show ?case by (auto simp: count_slashes_def)
next
  case (Cons b bs)
  have next_slice: "slice (pre @ b # bs) start (length (pre @ [b])) = slice (pre @ b # bs) start (length pre) @ [b]"
    using slice_snoc [of start "length pre" "pre @ b # bs"] Cons.prems(2) by simp
  show ?case
  proof (cases "b = SLASH")
    case False
    have "SLASH \<notin> set (slice ((pre @ [b]) @ bs) start (length (pre @ [b])))"
      using next_slice Cons.prems(3) False by simp
    then show ?thesis
      using Cons.IH [of "pre @ [b]" start starts ends] Cons.prems False by (auto simp: count_slashes_def)
  next
    case True
    obtain starts' ends' where r: "segment_bounds bs (length pre + 1) (length pre + 1) = (starts', ends')"
      by (cases "segment_bounds bs (length pre + 1) (length pre + 1)")
    then have l: "starts = start # starts'" "ends = length pre # ends'" using Cons.prems(1) True by auto
    have IH: "length starts' = count_slashes bs + 1 \<and> length ends' = count_slashes bs + 1 \<and> starts' ! 0 = length pre + 1 \<and>
        ends' ! (count_slashes bs) = length whole \<and>
        (\<forall>j \<le> count_slashes bs. starts' ! j \<le> ends' ! j \<and> ends' ! j \<le> length whole \<and> SLASH \<notin> set (slice whole (starts' ! j) (ends' ! j))) \<and>
        (\<forall>j < count_slashes bs. ends' ! j < length whole \<and> whole ! (ends' ! j) = SLASH \<and> starts' ! (j + 1) = ends' ! j + 1)"
      using Cons.IH [of "pre @ [b]" "length pre + 1" starts' ends'] Cons.prems(4) r by simp
    have c: "count_slashes (b # bs) = Suc (count_slashes bs)" using True by (simp add: count_slashes_def)
    have first: "SLASH \<notin> set (slice whole start (length pre))" "start \<le> length pre" "length pre < length whole" "whole ! length pre = SLASH"
      using Cons.prems True by simp_all
    show ?thesis
      unfolding c l
      using IH first by (auto simp: nth_Cons' less_Suc_eq_0_disj gr0_conv_Suc le_Suc_eq split: nat.splits)
  qed
qed

lemma encoded_segmented: "segmented (encoded bs)" "ep_bytes (encoded bs) = bs" "ep_segments (encoded bs) = count_slashes bs + 1"
proof -
  obtain starts ends where r: "segment_bounds bs 0 0 = (starts, ends)" by (cases "segment_bounds bs 0 0")
  show "segmented (encoded bs)"
    using segment_bounds_props [of bs "[]" 0 starts ends bs] r
    by (auto simp: segmented_def encoded_def Let_def less_Suc_eq_le)
  show "ep_bytes (encoded bs) = bs" "ep_segments (encoded bs) = count_slashes bs + 1" using r by (simp_all add: encoded_def)
qed

text \<open>The path below depth \<open>k\<close> up to depth \<open>d\<close>, and the name at depth \<open>d\<close>.\<close>

definition below :: "EncodedPath \<Rightarrow> nat \<Rightarrow> nat \<Rightarrow> bytes" where
  "below path k d = slice (ep_bytes path) (ep_starts path ! k) (ep_ends path ! (d - 1))"

definition name_at :: "EncodedPath \<Rightarrow> nat \<Rightarrow> bytes" where
  "name_at path d = slice (ep_bytes path) (ep_starts path ! (d - 1)) (ep_ends path ! (d - 1))"

lemma slice_append: "lo \<le> mid \<Longrightarrow> mid \<le> hi \<Longrightarrow> hi \<le> length xs \<Longrightarrow> slice xs lo hi = slice xs lo mid @ slice xs mid hi"
proof -
  assume *: "lo \<le> mid" "mid \<le> hi" "hi \<le> length xs"
  have "take (hi - lo) (drop lo xs) = take ((mid - lo) + (hi - mid)) (drop lo xs)" using * by simp
  also have "\<dots> = take (mid - lo) (drop lo xs) @ take (hi - mid) (drop (mid - lo) (drop lo xs))" by (rule take_add)
  finally show ?thesis using *(1) by (simp add: slice_def)
qed

lemma slice_Cons: "lo < hi \<Longrightarrow> hi \<le> length xs \<Longrightarrow> slice xs lo hi = xs ! lo # slice xs (lo + 1) hi"
  using slice_append [of lo "lo + 1" hi xs] slice_snoc [of lo lo xs] by simp

lemma segmented_facts:
  assumes "segmented path" "j < ep_segments path"
  shows "ep_starts path ! j \<le> ep_ends path ! j" "ep_ends path ! j \<le> length (ep_bytes path)"
    "SLASH \<notin> set (slice (ep_bytes path) (ep_starts path ! j) (ep_ends path ! j))"
    "j + 1 < ep_segments path \<Longrightarrow> ep_bytes path ! (ep_ends path ! j) = SLASH"
    "j + 1 < ep_segments path \<Longrightarrow> ep_starts path ! (j + 1) = ep_ends path ! j + 1"
    "nat_at (ep_starts path) j x = ep_starts path ! j" "nat_at (ep_ends path) j x = ep_ends path ! j"
  using assms by (auto simp: segmented_def Let_def nat_at_def charCodeAt_def)

lemma starts_le_ends:
  assumes "segmented path" "k \<le> j" "j < ep_segments path"
  shows "ep_starts path ! k \<le> ep_ends path ! j"
  using assms(2,3)
proof (induction j rule: dec_induct)
  case base
  then show ?case using segmented_facts(1) [OF assms(1)] by simp
next
  case (step j)
  then show ?case
    using segmented_facts(5) [OF assms(1), of j] segmented_facts(1) [OF assms(1), of "Suc j"] by simp
qed

lemma below_first: "below path k (k + 1) = name_at path (k + 1)"
  by (simp add: below_def name_at_def)

lemma below_step:
  assumes "segmented path" "k < d" "d < ep_segments path"
  shows "below path k (d + 1) = below path k d @ SLASH # name_at path (d + 1)"
proof -
  let ?e = "ep_ends path ! (d - 1)" and ?e' = "ep_ends path ! d"
  have d: "d - 1 + 1 = d" "d - 1 < ep_segments path" using assms(2,3) by auto
  note f = segmented_facts [OF assms(1) d(2), unfolded d(1)] and g = segmented_facts [OF assms(1,3)]
  have "?e < ?e'" using f(5) g(1) assms(3) by simp
  moreover have "ep_starts path ! k \<le> ?e" using starts_le_ends [OF assms(1), of k "d - 1"] assms(2,3) by simp
  ultimately show ?thesis
    using slice_append [of "ep_starts path ! k" ?e ?e' "ep_bytes path"] slice_Cons [of ?e ?e' "ep_bytes path"] f(4,5) g(2) assms(3)
    by (simp add: below_def name_at_def)
qed

lemma name_no_slash: "segmented path \<Longrightarrow> 0 < d \<Longrightarrow> d \<le> ep_segments path \<Longrightarrow> SLASH \<notin> set (name_at path d)"
  using segmented_facts(3) [of path "d - 1"] by (simp add: name_at_def)

lemma count_slashes_simps [simp]:
  "count_slashes [] = 0" "count_slashes (b # bs) = (if b = SLASH then 1 else 0) + count_slashes bs"
  "count_slashes (xs @ ys) = count_slashes xs + count_slashes ys"
  by (simp_all add: count_slashes_def)

lemma count_slashes_none: "SLASH \<notin> set bs \<longleftrightarrow> count_slashes bs = 0"
  by (auto simp: count_slashes_def filter_empty_conv)

lemma below_slashes:
  assumes "segmented path" "k < d" "d \<le> ep_segments path"
  shows "count_slashes (below path k d) = d - k - 1"
proof -
  have "count_slashes (below path k (k + 1 + m)) = m" if "k + 1 + m \<le> ep_segments path" for m
    using that
  proof (induction m)
    case 0
    then show ?case using name_no_slash [OF assms(1), of "k + 1"] below_first [of path k] by (simp add: count_slashes_none)
  next
    case (Suc m)
    have "count_slashes (name_at path (k + 1 + m + 1)) = 0"
      using name_no_slash [OF assms(1), of "k + 1 + m + 1"] Suc.prems by (simp add: count_slashes_none)
    then show ?case using Suc below_step [OF assms(1), of k "k + 1 + m"] by simp
  qed
  from this [of "d - k - 1"] show ?thesis using assms(2,3) by simp
qed

section \<open>Slashes of a match\<close>

definition slash_tokens :: "Token list \<Rightarrow> nat" where
  "slash_tokens tokens = length (filter (\<lambda>t. tk_kind t = Literal \<and> tk_byte t = SLASH) tokens)"

lemma targetSegments_count: "targetSegments tokens = slash_tokens tokens + 1"
proof -
  have "fold (\<lambda>t n. if tk_kind t = Literal \<and> tk_byte t = SLASH then n + 1 else n) tokens n = slash_tokens tokens + n" for n
    by (induction tokens arbitrary: n) (auto simp: slash_tokens_def)
  then show ?thesis by (simp add: targetSegments_def)
qed

text \<open>A star never takes a slash, so a match has as many slashes as the pattern writes.\<close>

lemma glob_slashes:
  "glob True tokens bs \<Longrightarrow> slash_safe True tokens \<Longrightarrow> count_slashes bs = slash_tokens tokens"
proof (induction True tokens bs rule: glob.induct)
  case (3 t ts b bs)
  have safe: "slash_safe True ts" using "3.prems"(2) by (auto simp: slash_safe_def)
  show ?case
  proof (cases "tk_kind t = Star")
    case True
    then show ?thesis using 3 safe by (auto simp: slash_tokens_def)
  next
    case False
    then have "matchToken t b True" "glob True ts bs" using "3.prems"(1) by auto
    moreover have "b = SLASH \<longleftrightarrow> tk_kind t = Literal \<and> tk_byte t = SLASH"
      using calculation(1) slash_token [OF "3.prems"(2), of t] by (auto simp: matchToken_def)
    ultimately show ?thesis using "3.hyps"(3) False safe by (auto simp: slash_tokens_def)
  qed
qed (auto simp: slash_tokens_def slash_safe_def)

section \<open>Matching depths\<close>

definition program_wf :: "Compiled \<Rightarrow> bool" where
  "program_wf compiled =
     (case compiled of
        Deterministic p \<Rightarrow> det_wf True p \<and> (dp_anchored p \<longrightarrow> dp_targetSegments p = targetSegments (dp_tokens p))
      | Nfa states prefix \<Rightarrow> nfa_wf states \<and> prefix = nfaLiteralPrefix states
      | _ \<Rightarrow> True)"

text \<open>The meaning of a compiled pattern, on a path below its source and the name at the end of it.\<close>

definition compiled_matches :: "Compiled \<Rightarrow> bytes \<Rightarrow> bytes \<Rightarrow> bool" where
  "compiled_matches compiled rel name =
     (case compiled of
        LiteralBasename lit \<Rightarrow> name = lit
      | LiteralPath lit \<Rightarrow> rel = lit
      | Deterministic p \<Rightarrow> glob True (dp_tokens p) (if dp_anchored p then rel else name)
      | Nfa states _ \<Rightarrow> nfa_lang states rel
      | Never \<Rightarrow> False)"

definition matched_depths :: "IgnorePattern \<Rightarrow> EncodedPath \<Rightarrow> nat \<Rightarrow> bool \<Rightarrow> nat set" where
  "matched_depths pattern path k isDirectory =
     {d. k < d \<and> d \<le> ep_segments path \<and> depth_accepted pattern path isDirectory d \<and>
         compiled_matches (ip_compiled pattern) (below path k d) (name_at path d)}"

lemma compare_run_iff: "compare_run bs at right \<longleftrightarrow> slice bs at (at + length right) = right"
proof (induction right arbitrary: at)
  case (Cons r right)
  have "slice bs at (at + length (r # right)) = r # right \<longleftrightarrow>
      byte_at bs at = Some r \<and> slice bs (at + 1) (at + 1 + length right) = right"
    by (cases "at < length bs") (auto simp: slice_def charCodeAt_def Cons_nth_drop_Suc [symmetric])
  then show ?case using Cons by simp
qed simp

lemma equal_range_iff: "start \<le> stop \<Longrightarrow> stop \<le> length bs \<Longrightarrow> equal_range bs start stop lit \<longleftrightarrow> slice bs start stop = lit"
proof -
  assume *: "start \<le> stop" "stop \<le> length bs"
  show ?thesis
  proof (cases "stop = start + length lit")
    case False
    then have "slice bs start stop \<noteq> lit" using * by (auto simp: length_slice)
    then show ?thesis using * False by (auto simp: equal_range_def)
  qed (simp add: equal_range_def compare_run_iff)
qed

lemma set_accepts: "set (accepts pattern path isDirectory d) = {d' \<in> {d}. depth_accepted pattern path isDirectory d'}"
  by (auto simp: accepts_def)

text \<open>A depth after the source: its boundaries, and the slices of the path.\<close>

lemma depth_facts:
  assumes "segmented path" "k < d" "d \<le> ep_segments path"
  shows "nat_at (ep_starts path) (d - 1) x = ep_starts path ! (d - 1)" "nat_at (ep_ends path) (d - 1) x = ep_ends path ! (d - 1)"
    "charCodeAt (ep_ends path) (d - 1) = Some (ep_ends path ! (d - 1))"
    "ep_starts path ! (d - 1) \<le> ep_ends path ! (d - 1)" "ep_ends path ! (d - 1) \<le> length (ep_bytes path)"
    "ep_starts path ! k \<le> ep_ends path ! (d - 1)" "nat_at (ep_starts path) k x = ep_starts path ! k"
  using segmented_facts [OF assms(1), of "d - 1"] starts_le_ends [OF assms(1), of k "d - 1"] segmented_facts(6) [OF assms(1), of k] assms
  by (auto simp: segmented_def Let_def charCodeAt_def)

lemma glob_depths_exact:
  assumes "segmented path" "det_wf True p"
  shows "work \<le> maxWork \<Longrightarrow> set depths \<subseteq> {1..ep_segments path} \<Longrightarrow>
    glob_depths p pattern path isDirectory maxWork depths found work = (found', work') \<Longrightarrow>
    work \<le> work' \<and> (work' \<le> maxWork \<longrightarrow> set found' = set found \<union>
      {d \<in> set depths. depth_accepted pattern path isDirectory d \<and> glob True (dp_tokens p) (name_at path d)})"
proof (induction depths arbitrary: found work)
  case (Cons d depths)
  have d: "0 < d" "d \<le> ep_segments path" using Cons.prems(2) by auto
  note f = depth_facts [OF assms(1) d]
  obtain m w where r: "deterministicMatch p (ep_bytes path) (ep_starts path ! (d - 1)) (ep_ends path ! (d - 1)) (maxWork - work) True = (m, w)"
    by fastforce
  have q: "0 \<le> w" "w \<le> maxWork - work \<Longrightarrow> m = glob True (dp_tokens p) (name_at path d)"
    using deterministicMatch_answers [OF assms(2) f(4,5), of "maxWork - work"] Cons.prems(1) r
    by (auto simp: answers_def name_at_def split: if_splits)
  show ?case
  proof (cases "work + w > maxWork")
    case True
    then show ?thesis using Cons.prems(3) r q f by simp
  next
    case False
    then have "glob_depths p pattern path isDirectory maxWork depths
        (if m then found @ accepts pattern path isDirectory d else found) (work + w) = (found', work')"
      using Cons.prems(3) r f by simp
    then show ?thesis
      using Cons.IH [of "work + w"] Cons.prems(2) q False by (fastforce simp: set_accepts split: if_splits)
  qed
qed simp

lemma depth_bytes_next:
  assumes "segmented path" "k < d" "d \<le> ep_segments path" "start = ep_starts path ! k"
  shows "below path k d = (if d = k + 1 then [] else below path k (d - 1)) @ depth_bytes path start (k + 1) d"
proof (cases "d = k + 1")
  case True
  then show ?thesis using depth_facts [OF assms(1-3)] assms(4) by (simp add: below_def depth_bytes_def Let_def)
next
  case False
  then show ?thesis
    using depth_facts [OF assms(1-3)] below_step [OF assms(1), of k "d - 1"] assms
    by (simp add: depth_bytes_def Let_def name_at_def)
qed

lemma nfa_depths_exact:
  assumes path: "segmented path" and wf: "nfa_wf states" and start: "start = ep_starts path ! k"
  shows "work \<le> maxWork \<Longrightarrow> fits states current \<Longrightarrow> length nxt = length current \<Longrightarrow> k < d \<Longrightarrow> d \<le> ep_segments path + 1 \<Longrightarrow>
    mask_set current = run states (closure states {0}) (if d = k + 1 then [] else below path k (d - 1)) \<Longrightarrow>
    nfa_depths states pattern path isDirectory maxWork start (k + 1) [d..<ep_segments path + 1] current nxt found work = (found', work') \<Longrightarrow>
    work \<le> work' \<and> (work' \<le> maxWork \<longrightarrow> set found' = set found \<union>
      {d' \<in> {d..ep_segments path}. depth_accepted pattern path isDirectory d' \<and> nfa_lang states (below path k d')})"
proof (induction "ep_segments path + 1 - d" arbitrary: d current nxt found work)
  case 0
  then show ?case by auto
next
  case (Suc n)
  have d: "d \<le> ep_segments path" and upt: "[d..<ep_segments path + 1] = d # [d + 1..<ep_segments path + 1]"
    using Suc.hyps(2) by (simp_all add: upt_conv_Cons del: upt_Suc)
  obtain c1 n1 w1 stopped where r: "nfa_bytes states maxWork (depth_bytes path start (k + 1) d) current nxt work = (c1, n1, w1, stopped)"
    using prod_cases4 by blast
  note q = nfa_bytes_exact [OF wf Suc.prems(3,2,1), of "depth_bytes path start (k + 1) d", unfolded r, simplified]
  show ?case
  proof (cases stopped)
    case True
    then show ?thesis using Suc.prems(7) r q unfolding upt by simp
  next
    case False
    have m: "mask_set c1 = run states (closure states {0}) (below path k d)"
      using q False Suc.prems(6) depth_bytes_next [OF path Suc.prems(4) d start] by (simp add: run_append split: if_splits)
    have "maskHas c1 (length states) \<longleftrightarrow> nfa_lang states (below path k d)"
      using run_from_start [OF wf, of "below path k d"] unfolding m [symmetric] by (simp add: mask_set_def)
    moreover have "nfa_depths states pattern path isDirectory maxWork start (k + 1) [d + 1..<ep_segments path + 1] c1 n1
        (if maskHas c1 (length states) then found @ accepts pattern path isDirectory d else found) w1 = (found', work')"
      using Suc.prems(7) r False unfolding upt by simp
    ultimately have "w1 \<le> work' \<and> (work' \<le> maxWork \<longrightarrow>
        set found' = set (if nfa_lang states (below path k d) then found @ accepts pattern path isDirectory d else found) \<union>
          {d' \<in> {d + 1..ep_segments path}. depth_accepted pattern path isDirectory d' \<and> nfa_lang states (below path k d')})"
      using Suc.hyps(1) [of "d + 1" w1 c1 n1] Suc.hyps(2) Suc.prems q False m d by (simp del: upt_Suc)
    moreover have "{d..ep_segments path} = insert d {d + 1..ep_segments path}" using d by auto
    ultimately show ?thesis using q by (auto simp: set_accepts)
  qed
qed

lemma slice_prefix:
  assumes "slice bs start stop = pre @ v" "stop \<le> length bs"
  shows "slice bs start (start + length pre) = pre"
proof -
  have "length pre \<le> stop - start" using arg_cong [OF assms(1), of length] assms(2) by (simp add: length_slice)
  moreover have "take (length pre) (slice bs start stop) = pre" unfolding assms(1) by simp
  ultimately show ?thesis by (simp add: slice_def min_absorb1)
qed

lemma matchPatternDepths_nfa:
  assumes path: "segmented path" and wf: "nfa_wf states" and k: "k < ep_segments path" and work: "0 \<le> maxWork"
    and compiled: "ip_compiled pattern = Nfa states (nfaLiteralPrefix states)"
    and res: "matchPatternDepths pattern path k isDirectory maxWork = (found, w)"
  shows "0 \<le> w \<and> (w \<le> maxWork \<longrightarrow> set found = matched_depths pattern path k isDirectory)"
proof -
  let ?start = "ep_starts path ! k" and ?pre = "nfaLiteralPrefix states"
  have first: "nat_at (ep_starts path) k 0 = ?start" using depth_facts(7) [OF path, of k "k + 1"] k by simp
  have le: "?start \<le> length (ep_bytes path)"
    using segmented_facts(1,2) [OF path k] by simp
  obtain m w1 where pm: "prefixMatch ?pre (ep_bytes path) ?start maxWork = (m, w1)" by fastforce
  note pq = prefixMatch_exact [OF work le, of ?pre, unfolded pm answers_def, simplified]
  have fmt: "matched_depths pattern path k isDirectory =
      {d \<in> {k + 1..ep_segments path}. depth_accepted pattern path isDirectory d \<and> nfa_lang states (below path k d)}"
    by (auto simp: matched_depths_def compiled compiled_matches_def)
  show ?thesis
  proof (cases "\<not> m \<or> w1 > maxWork")
    case True
    then have "found = []" "w = w1"
      using res first pm k by (auto simp: matchPatternDepths_def compiled Let_def split: if_splits)
    moreover have "matched_depths pattern path k isDirectory = {}" if "w1 \<le> maxWork"
    proof -
      have no: "slice (ep_bytes path) ?start (?start + length ?pre) \<noteq> ?pre" using pq True that by auto
      have "\<not> nfa_lang states (below path k d)" if "k < d" "d \<le> ep_segments path" for d
        using nfa_lang_prefix [of states "below path k d"] slice_prefix [of "ep_bytes path" ?start "ep_ends path ! (d - 1)" ?pre]
          depth_facts(5) [OF path that] no by (auto simp: below_def)
      then show ?thesis unfolding fmt by auto
    qed
    ultimately show ?thesis using pq by auto
  next
    case False
    obtain current w2 where e: "epsilon states (set_bit_at (nfaMask states) 0) (maxWork - w1) = (current, w2)" by fastforce
    have "0 < 32 * length (nfaMask states)" using nfaMask_props(1) [of states] by linarith
    then have "mask_set (set_bit_at (nfaMask states) 0) = {0}" using mask_set_update [of 0 "nfaMask states"] nfaMask_props(3) [of states] by simp
    then have eq: "length current = length (nfaMask states)" "0 \<le> w2" "w2 \<le> maxWork - w1 \<Longrightarrow> mask_set current = closure states {0}"
      using epsilon_exact [OF wf _ _ e] nfaMask_props(1) [of states] False by auto
    show ?thesis
    proof (cases "w1 + w2 > maxWork")
      case True
      then have "w = w1 + w2" using res first pm False e k by (simp add: matchPatternDepths_def compiled Let_def)
      then show ?thesis using True pq eq(2) by auto
    next
      case room: False
      have "nfa_depths states pattern path isDirectory maxWork ?start (k + 1) [k + 1..<ep_segments path + 1] current (nfaMask states) [] (w1 + w2) = (found, w)"
        using res first pm False e k room by (simp add: matchPatternDepths_def compiled Let_def del: upt_Suc)
      moreover have "w1 + w2 \<le> maxWork" "fits states current" "length (nfaMask states) = length current" "k < k + 1" "k + 1 \<le> ep_segments path + 1"
        using room eq(1) nfaMask_props(1) [of states] k by simp_all
      moreover have "mask_set current = run states (closure states {0}) (if k + 1 = k + 1 then [] else below path k (k + 1 - 1))"
        using eq(3) room by simp
      ultimately have "w1 + w2 \<le> w \<and> (w \<le> maxWork \<longrightarrow> set found = set [] \<union>
          {d \<in> {k + 1..ep_segments path}. depth_accepted pattern path isDirectory d \<and> nfa_lang states (below path k d)})"
        by (intro nfa_depths_exact [OF path wf refl])
      then show ?thesis unfolding fmt using eq(2) pq by simp
    qed
  qed
qed

lemma below_target:
  assumes "segmented path" "k < d" "d \<le> ep_segments path" "count_slashes (below path k d) + 1 = n"
  shows "d = k + n"
  using below_slashes [OF assms(1-3)] assms(2,4) by simp

text \<open>The depths the evaluator reports are the ones the pattern matches, unless it ran out of steps.\<close>

lemma matchPatternDepths_exact:
  assumes path: "segmented path" and wf: "program_wf (ip_compiled pattern)" and work: "0 \<le> maxWork"
    and res: "matchPatternDepths pattern path k isDirectory maxWork = (found, w)"
  shows "0 \<le> w \<and> (w \<le> maxWork \<longrightarrow> set found = matched_depths pattern path k isDirectory)"
proof (cases "k < ep_segments path")
  case False
  then show ?thesis using res work by (auto simp: matchPatternDepths_def matched_depths_def Let_def)
next
  case k: True
  have first: "nat_at (ep_starts path) k 0 = ep_starts path ! k" using depth_facts(7) [OF path, of k "k + 1"] k by simp
  show ?thesis
  proof (cases "ip_compiled pattern")
    case (LiteralBasename lit)
    then have "found = basename_depths pattern path isDirectory lit [k + 1..<ep_segments path + 1]" "w = 0"
      using res k by (simp_all add: matchPatternDepths_def Let_def del: upt_Suc)
    moreover have "set (basename_depths pattern path isDirectory lit [k + 1..<ep_segments path + 1]) =
        {d \<in> {k + 1..ep_segments path}. depth_accepted pattern path isDirectory d \<and> name_at path d = lit}"
    proof -
      have "equal_range (ep_bytes path) (nat_at (ep_starts path) (d - 1) 0) (nat_at (ep_ends path) (d - 1) 0) lit \<longleftrightarrow>
          name_at path d = lit" if "k < d" "d \<le> ep_segments path" for d
        using depth_facts [OF path that] by (simp add: equal_range_iff name_at_def)
      then show ?thesis by (auto simp: basename_depths_def set_accepts split: if_splits)
    qed
    moreover have "matched_depths pattern path k isDirectory =
        {d \<in> {k + 1..ep_segments path}. depth_accepted pattern path isDirectory d \<and> name_at path d = lit}"
      using LiteralBasename by (auto simp: matched_depths_def compiled_matches_def)
    ultimately show ?thesis by simp
  next
    case (LiteralPath lit)
    let ?d = "k + (count_slashes lit + 1)"
    have only: "d = ?d" if "k < d" "d \<le> ep_segments path" "below path k d = lit" for d
      using below_target [OF path that(1,2), of "count_slashes lit + 1"] that(3) by simp
    show ?thesis
    proof (cases "?d \<le> ep_segments path")
      case False
      then have "charCodeAt (ep_ends path) (?d - 1) = None" using path by (simp add: segmented_def Let_def charCodeAt_def)
      then have "found = []" "w = 0" using res k LiteralPath by (simp_all add: matchPatternDepths_def Let_def)
      then show ?thesis using only False LiteralPath by (auto simp: matched_depths_def compiled_matches_def)
    next
      case True
      note f = depth_facts [OF path _ True, of k]
      have "equal_range (ep_bytes path) (ep_starts path ! k) (ep_ends path ! (?d - 1)) lit \<longleftrightarrow> below path k ?d = lit"
        using f by (simp add: equal_range_iff below_def)
      then have "found = (if below path k ?d = lit then accepts pattern path isDirectory ?d else [])" "w = 0"
        using res k LiteralPath f(3) first by (auto simp: matchPatternDepths_def Let_def split: option.splits)
      then show ?thesis
        using only True LiteralPath by (auto simp: matched_depths_def compiled_matches_def set_accepts)
    qed
  next
    case (Deterministic p)
    have dw: "det_wf True p" using wf Deterministic by (simp add: program_wf_def)
    show ?thesis
    proof (cases "dp_anchored p")
      case False
      then have run: "glob_depths p pattern path isDirectory maxWork [k + 1..<ep_segments path + 1] [] 0 = (found, w)"
        using res k Deterministic by (simp add: matchPatternDepths_def Let_def del: upt_Suc)
      have "set [k + 1..<ep_segments path + 1] \<subseteq> {1..ep_segments path}" by auto
      note q = glob_depths_exact [OF path dw work this run]
      have "matched_depths pattern path k isDirectory = set [] \<union> {d \<in> set [k + 1..<ep_segments path + 1].
          depth_accepted pattern path isDirectory d \<and> glob True (dp_tokens p) (name_at path d)}"
        using False Deterministic by (auto simp: matched_depths_def compiled_matches_def)
      then show ?thesis using q by simp
    next
      case True
      let ?d = "k + dp_targetSegments p"
      have seg: "dp_targetSegments p = slash_tokens (dp_tokens p) + 1"
        using wf Deterministic True by (simp add: program_wf_def targetSegments_count)
      have only: "d = ?d" if "k < d" "d \<le> ep_segments path" "glob True (dp_tokens p) (below path k d)" for d
        using below_target [OF path that(1,2), of "dp_targetSegments p"] glob_slashes [OF that(3)] dw seg by (simp add: det_wf_def)
      show ?thesis
      proof (cases "?d \<le> ep_segments path")
        case False
        then have "charCodeAt (ep_ends path) (?d - 1) = None" using path by (simp add: segmented_def Let_def charCodeAt_def)
        then have "found = []" "w = 0" using res k Deterministic True by (simp_all add: matchPatternDepths_def Let_def)
        then show ?thesis using only False Deterministic True by (auto simp: matched_depths_def compiled_matches_def)
      next
        case in_path: True
        have kd: "k < ?d" using seg by simp
        note f = depth_facts [OF path kd in_path]
        obtain m w1 where dm: "deterministicMatch p (ep_bytes path) (ep_starts path ! k) (ep_ends path ! (?d - 1)) maxWork True = (m, w1)"
          by fastforce
        have q: "0 \<le> w1" "w1 \<le> maxWork \<Longrightarrow> m = glob True (dp_tokens p) (below path k ?d)"
          using deterministicMatch_answers [OF dw f(6,5) work] dm by (auto simp: answers_def below_def split: if_splits)
        have "found = (if m then accepts pattern path isDirectory ?d else [])" "w = w1"
          using res k Deterministic True f(3) first dm by (auto simp: matchPatternDepths_def Let_def split: option.splits)
        then show ?thesis
          using only in_path kd Deterministic True q by (auto simp: matched_depths_def compiled_matches_def set_accepts)
      qed
    qed
  next
    case (Nfa states prefix)
    then have "nfa_wf states" "prefix = nfaLiteralPrefix states" using wf by (simp_all add: program_wf_def)
    then show ?thesis using matchPatternDepths_nfa [OF path _ k work _ res] Nfa by simp
  next
    case Never
    then show ?thesis using res work by (auto simp: matchPatternDepths_def matched_depths_def compiled_matches_def Let_def)
  qed
qed

section \<open>Compiled patterns\<close>

lemma literal_from_Some: "literal_from tokens = Some lit \<Longrightarrow> (\<forall>t \<in> set tokens. literal t) \<and> lit = map tk_byte tokens"
  by (induction tokens arbitrary: lit) (auto split: if_splits)

lemma compile_body_wf: "program_wf (compile_body anchored body)"
proof -
  have "det_wf True (det_program a (tokensOf bs no_options) n)" for a bs n
    using det_wf_program [of no_options a bs n] by (simp add: sensitive_def no_options_def)
  then show ?thesis
    by (auto simp: compile_body_def program_wf_def Let_def det_program_def compileNfa_wf split: option.splits)
qed

lemma compilePatternBytes_wf: "compilePatternBytes line = Some p \<Longrightarrow> program_wf (ip_compiled p)"
  by (auto simp: compilePatternBytes_def Let_def compile_body_wf split: if_splits prod.splits)

text \<open>
  The meaning of the body of a rule without the optimised forms: a pattern with a globstar segment is its automaton on
  the path, any other pattern its glob, on the path when it is anchored and on the name when it is not.
\<close>

definition body_matches :: "bool \<Rightarrow> bytes \<Rightarrow> bytes \<Rightarrow> bytes \<Rightarrow> bool" where
  "body_matches anchored body rel name =
     (if anchored \<and> hasGlobstar body
      then (case compileNfa body of None \<Rightarrow> False | Some states \<Rightarrow> nfa_lang states rel)
      else let parsed = tokensOf body no_options
           in pt_valid parsed \<and> glob True (pt_tokens parsed) (if anchored then rel else name))"

definition name_of :: "bytes \<Rightarrow> bytes \<Rightarrow> bool" where
  "name_of rel name = (\<exists>dir. rel = dir @ name \<and> (dir = [] \<or> last dir = SLASH) \<and> SLASH \<notin> set name)"

lemma name_of_below:
  assumes "segmented path" "k < d" "d \<le> ep_segments path"
  shows "name_of (below path k d) (name_at path d)"
proof (cases "d = k + 1")
  case True
  then show ?thesis using below_first [of path k] name_no_slash [OF assms(1), of d] assms by (auto simp: name_of_def)
next
  case False
  have "0 < d" using assms(2) by simp
  then have n: "SLASH \<notin> set (name_at path d)" using name_no_slash [OF assms(1) _ assms(3)] by simp
  show ?thesis
    unfolding name_of_def
    by (rule exI [of _ "below path k (d - 1) @ [SLASH]"]) (use n below_step [OF assms(1), of k "d - 1"] False assms in simp)
qed

lemma after_last_slash:
  assumes "u @ v = dir @ name" "u = [] \<or> last u = SLASH" "dir = [] \<or> last dir = SLASH" "SLASH \<notin> set v" "SLASH \<notin> set name"
  shows "v = name"
proof -
  from assms(1) obtain x where "u = dir @ x \<and> x @ v = name \<or> u @ x = dir \<and> v = x @ name" by (auto simp: append_eq_append_conv2)
  then show ?thesis using assms(2-5) by (cases "x = []") (auto, (metis last_in_set)+)
qed

lemma nfa_lang_tokens: "nfa_lang (map state_of_token tokens) bs \<longleftrightarrow> glob True tokens bs"
proof (induction tokens arbitrary: bs)
  case (Cons t tokens)
  show ?case
  proof (cases "tk_kind t")
    case Star
    then show ?thesis using Cons glob_star [OF Star, of True tokens bs] by (simp add: state_of_token_def no_slash_def)
  qed (use Cons in \<open>cases bs; simp add: state_of_token_def state_matches_def matchToken_def\<close>)+
qed simp

lemma compile_body_plain:
  assumes "\<not> anchored \<or> leadingGlobstarBasename body = None"
  shows "compiled_matches (compile_body anchored body) rel name \<longleftrightarrow> body_matches anchored body rel name"
  using assms
  by (auto simp: compile_body_def body_matches_def compiled_matches_def det_program_def literalOf_def Let_def glob_literals
      split: option.splits dest: literal_from_Some)

section \<open>A leading globstar\<close>

lemma first_slash_props:
  "i \<le> first_slash bs i" "i \<le> j \<Longrightarrow> j < first_slash bs i \<Longrightarrow> within_segment bs j" "\<not> within_segment bs (first_slash bs i)"
proof (induction bs i rule: first_slash.induct)
  case (1 bs slash)
  {
    case 1
    show ?case using "1.IH"(1) by (subst first_slash.simps) auto
  next
    case 2
    then show ?case using "1.IH"(2) by (subst (asm) first_slash.simps) (cases "j = slash"; auto split: if_splits)
  next
    case 3
    show ?case using "1.IH"(3) by (subst first_slash.simps) auto
  }
qed

lemma nfa_loop_within:
  "i \<le> k \<Longrightarrow> k \<le> length bs \<Longrightarrow> (\<And>j. i \<le> j \<Longrightarrow> j < k \<Longrightarrow> within_segment bs j) \<Longrightarrow>
   nfa_loop bs i start states = nfa_loop bs k start states"
proof (induction k rule: dec_induct)
  case (step k)
  have "nfa_loop bs k start states = nfa_loop bs (Suc k) start states"
    using step.prems step.hyps by (subst nfa_loop.simps) simp
  then show ?case using step by simp
qed simp

lemma globstar_loop_within:
  "i \<le> k \<Longrightarrow> k \<le> length bs \<Longrightarrow> (\<And>j. i \<le> j \<Longrightarrow> j < k \<Longrightarrow> within_segment bs j) \<Longrightarrow>
   globstar_loop bs i start = globstar_loop bs k start"
proof (induction k rule: dec_induct)
  case (step k)
  have "globstar_loop bs k start = globstar_loop bs (Suc k) start"
    using step.prems step.hyps by (subst globstar_loop.simps) simp
  then show ?case using step by simp
qed simp

lemma skip_stars_all: "(\<And>j. i < j \<Longrightarrow> j < length bs \<Longrightarrow> bs ! j = STAR) \<Longrightarrow> i < length bs \<Longrightarrow> skip_stars bs i = length bs - 1"
proof (induction bs i rule: skip_stars.induct)
  case (1 bs i)
  then show ?case by (subst skip_stars.simps) (cases "i + 1 < length bs"; auto simp: charCodeAt_def)
qed

lemma tokensOf_stars:
  assumes "bs \<noteq> []" "\<And>j. j < length bs \<Longrightarrow> bs ! j = STAR"
  shows "tokensOf bs options = \<lparr>pt_tokens = [star_token], pt_valid = True, pt_hasStar = True\<rparr>"
proof -
  have "skip_stars bs 0 + 1 = length bs" using skip_stars_all [of 0 bs] assms by simp
  then have "tokensOf bs options = tokens_loop bs options (length bs) [star_token] True"
    unfolding tokensOf_def using assms by (subst tokens_loop.simps) (auto simp: charCodeAt_def byte_names split: option.splits)
  then show ?thesis by (subst (asm) tokens_loop.simps) (simp add: charCodeAt_def)
qed

lemma leading_states:
  assumes "leadingGlobstarBasename body = Some rest"
  defines "parsed \<equiv> tokensOf rest no_options"
  shows "hasGlobstar body"
    "(\<exists>states. compileNfa body = Some ([glob_state GlobBoundary, glob_state GlobBody] @ states) \<and> pt_valid parsed \<and>
       (states = map state_of_token (pt_tokens parsed) \<or> states = [glob_state StarAny] \<and> pt_tokens parsed = [star_token])) \<or>
     compileNfa body = None \<and> \<not> pt_valid parsed"
proof -
  define s where "s = first_slash body 0"
  have s: "2 \<le> s" "s < length body" "rest = drop (s + 1) body" "list_all (\<lambda>i. byte_at body i = Some STAR) [0..<s]"
    "\<And>i. s + 1 \<le> i \<Longrightarrow> i < length body \<Longrightarrow> within_segment body i"
    using assms(1) unfolding leadingGlobstarBasename_def s_def [symmetric]
    by (auto simp: Let_def list_ex_iff list_all_iff within_segment_def split: if_splits)
  note w = first_slash_props [where i = 0 and bs = body, folded s_def]
  have stars: "all_stars body 0 s" using s by (simp add: all_stars_def)
  have "globstar_loop body 0 0 = globstar_loop body s 0" using globstar_loop_within [of 0 s body 0] w s by simp
  then show "hasGlobstar body" unfolding hasGlobstar_def using stars s(2) w(3) by (subst (asm) (2) globstar_loop.simps) simp
  have "nfa_loop body 0 0 [] = nfa_loop body s 0 []" using nfa_loop_within [of 0 s body] w s by simp
  also have "\<dots> = nfa_loop body (s + 1) (s + 1) [glob_state GlobBoundary, glob_state GlobBody]"
    using stars s(2) w(3) by (subst nfa_loop.simps) (simp add: segment_states_def)
  also have "\<dots> = nfa_loop body (length body) (s + 1) [glob_state GlobBoundary, glob_state GlobBody]"
    using nfa_loop_within [of "s + 1" "length body" body] s by simp
  also have "\<dots> = map_option (\<lambda>new. [glob_state GlobBoundary, glob_state GlobBody] @ new) (segment_states body (s + 1) (length body))"
    by (subst nfa_loop.simps) (auto simp: within_segment_def nfa_loop.simps [of body "Suc (length body)"] split: option.splits)
  finally have c: "compileNfa body = map_option (\<lambda>new. [glob_state GlobBoundary, glob_state GlobBody] @ new) (segment_states body (s + 1) (length body))"
    by (simp add: compileNfa_def)
  show "(\<exists>states. compileNfa body = Some ([glob_state GlobBoundary, glob_state GlobBody] @ states) \<and> pt_valid parsed \<and>
       (states = map state_of_token (pt_tokens parsed) \<or> states = [glob_state StarAny] \<and> pt_tokens parsed = [star_token])) \<or>
     compileNfa body = None \<and> \<not> pt_valid parsed"
  proof (cases "all_stars body (s + 1) (length body)")
    case True
    then have stars: "byte_at body (s + 1 + j) = Some STAR" if "j < length rest" for j
      using that s(3) by (auto simp: all_stars_def list_all_iff)
    have all: "rest ! j = STAR" if "j < length rest" for j
    proof -
      have "s + 1 + j < length body" using that s(2,3) by simp
      then show ?thesis using stars [OF that] s(2,3) by (simp add: charCodeAt_def)
    qed
    moreover have "rest \<noteq> []" using True s by (auto simp: all_stars_def)
    ultimately have "pt_tokens parsed = [star_token]" "pt_valid parsed"
      using tokensOf_stars [of rest no_options] by (simp_all add: parsed_def)
    then show ?thesis using c True by (simp add: segment_states_def)
  next
    case False
    then show ?thesis using c s(3) by (auto simp: segment_states_def parsed_def Let_def)
  qed
qed

lemma leading_compiled:
  assumes "leadingGlobstarBasename body = Some rest"
  shows "compiled_matches (compile_body True body) rel name \<longleftrightarrow>
    pt_valid (tokensOf rest no_options) \<and> glob True (pt_tokens (tokensOf rest no_options)) name"
  using assms by (auto simp: compile_body_def compiled_matches_def det_program_def literalOf_def Let_def glob_literals
      split: option.splits dest: literal_from_Some)

lemma tokens_slash_safe: "slash_safe True (pt_tokens (tokensOf rest no_options))"
  using tokensOf_props(1) [of no_options rest] by (simp add: sensitive_def no_options_def)

lemma compile_body_leading:
  assumes lead: "leadingGlobstarBasename body = Some rest"
    and plain: "slash_tokens (pt_tokens (tokensOf rest no_options)) = 0" and name: "name_of rel name"
  shows "compiled_matches (compile_body True body) rel name \<longleftrightarrow> body_matches True body rel name"
proof -
  let ?parsed = "tokensOf rest no_options"
  note opt = leading_compiled [OF lead, of rel name] and safe = tokens_slash_safe [of rest]
  obtain dir where dir: "rel = dir @ name" "dir = [] \<or> last dir = SLASH" "SLASH \<notin> set name" using name by (auto simp: name_of_def)
  have tail: "(\<exists>u v. rel = u @ v \<and> (u = [] \<or> last u = SLASH) \<and> glob True (pt_tokens ?parsed) v) \<longleftrightarrow> glob True (pt_tokens ?parsed) name"
  proof
    assume "\<exists>u v. rel = u @ v \<and> (u = [] \<or> last u = SLASH) \<and> glob True (pt_tokens ?parsed) v"
    then obtain u v where uv: "rel = u @ v" "u = [] \<or> last u = SLASH" "glob True (pt_tokens ?parsed) v" by blast
    have "SLASH \<notin> set v" using glob_slashes [OF uv(3) safe] plain by (simp add: count_slashes_none)
    then have "v = name" using after_last_slash [of u v dir name] uv dir by simp
    then show "glob True (pt_tokens ?parsed) name" using uv(3) by simp
  next
    assume "glob True (pt_tokens ?parsed) name"
    then show "\<exists>u v. rel = u @ v \<and> (u = [] \<or> last u = SLASH) \<and> glob True (pt_tokens ?parsed) v" using dir by blast
  qed
  have any: "glob True [star_token] xs \<longleftrightarrow> SLASH \<notin> set xs" for xs
    using glob_star [of star_token True "[]" xs] by (simp add: star_token_def no_slash_def)
  show ?thesis
    using leading_states(2) [OF lead]
  proof (elim disjE exE conjE)
    fix states
    assume st: "compileNfa body = Some ([glob_state GlobBoundary, glob_state GlobBody] @ states)" "pt_valid ?parsed"
      "states = map state_of_token (pt_tokens ?parsed)"
    then show ?thesis using opt tail leading_states(1) [OF lead] by (simp add: body_matches_def glob_state_def nfa_lang_tokens)
  next
    fix states
    assume st: "compileNfa body = Some ([glob_state GlobBoundary, glob_state GlobBody] @ states)" "pt_valid ?parsed"
      "states = [glob_state StarAny]" "pt_tokens ?parsed = [star_token]"
    then show ?thesis using opt any dir(3) leading_states(1) [OF lead] by (auto simp: body_matches_def glob_state_def)
  next
    assume "compileNfa body = None" "\<not> pt_valid ?parsed"
    then show ?thesis using opt leading_states(1) [OF lead] by (simp add: body_matches_def)
  qed
qed

section \<open>Properties\<close>

text \<open>
  C17: the optimised forms of a rule change nothing: literal names and paths, globs on the name for a leading
  globstar segment, and the prefiltered globs match what the plain automaton and the plain glob of the rule match, as long
  as no slash after a leading globstar is escaped.
\<close>

theorem compile_body_exact:
  assumes "name_of rel name"
    and "\<And>rest. leadingGlobstarBasename body = Some rest \<Longrightarrow> slash_tokens (pt_tokens (tokensOf rest no_options)) = 0"
  shows "compiled_matches (compile_body anchored body) rel name \<longleftrightarrow> body_matches anchored body rel name"
  using compile_body_plain [of anchored body rel name] compile_body_leading [OF _ _ assms(1), of body] assms(2)
  by (cases anchored; cases "leadingGlobstarBasename body") auto

theorem compile_body_exact_witness:
  "compiled_matches (compile_body True [0x2a, 0x2a, 0x2f, 0x61]) [0x62, 0x2f, 0x61] [0x61] \<and>
   body_matches True [0x2a, 0x2a, 0x2f, 0x61] [0x62, 0x2f, 0x61] [0x61]"
proof -
  have run: "compile_body True [0x2a, 0x2a, 0x2f, 0x61] = LiteralBasename [0x61]" by code_simp
  have lead: "leadingGlobstarBasename [0x2a, 0x2a, 0x2f, 0x61] = Some [0x61]" by code_simp
  have none: "slash_tokens (pt_tokens (tokensOf [0x61] no_options)) = 0" by code_simp
  have "name_of [0x62, 0x2f, 0x61] [0x61]"
    unfolding name_of_def by (rule exI [of _ "[0x62, 0x2f]"]) (simp add: SLASH_def)
  from compile_body_exact [OF this, of "[0x2a, 0x2a, 0x2f, 0x61]" True] show ?thesis
    using run lead none by (simp add: compiled_matches_def)
qed

text \<open>
  C18: a rule loses every match when it has an escaped slash after a leading globstar. Let the rest of the
  rule, which the code takes for a name, have a slash among its tokens. Then no path matches the compiled
  rule, while the rule as written matches every path that ends, at the start of a segment, in a match of
  that rest.
\<close>

theorem leading_globstar_loses_escaped_slash:
  assumes "leadingGlobstarBasename body = Some rest" "slash_tokens (pt_tokens (tokensOf rest no_options)) \<noteq> 0"
    and "name_of rel name"
  shows "\<not> compiled_matches (compile_body True body) rel name \<and>
    (body_matches True body rel name \<longleftrightarrow> pt_valid (tokensOf rest no_options) \<and>
       (\<exists>u v. rel = u @ v \<and> (u = [] \<or> last u = SLASH) \<and> glob True (pt_tokens (tokensOf rest no_options)) v))"
proof
  have "SLASH \<notin> set name" using assms(3) by (auto simp: name_of_def)
  then have "\<not> glob True (pt_tokens (tokensOf rest no_options)) name"
    using glob_slashes [OF _ tokens_slash_safe] assms(2) count_slashes_none by metis
  then show "\<not> compiled_matches (compile_body True body) rel name" by (simp add: leading_compiled [OF assms(1)])
  have "pt_tokens (tokensOf rest no_options) \<noteq> [star_token]"
    using assms(2) by (auto simp: slash_tokens_def star_token_def)
  then consider (states) "compileNfa body =
        Some ([glob_state GlobBoundary, glob_state GlobBody] @ map state_of_token (pt_tokens (tokensOf rest no_options)))"
      "pt_valid (tokensOf rest no_options)"
    | (invalid) "compileNfa body = None" "\<not> pt_valid (tokensOf rest no_options)"
    using leading_states(2) [OF assms(1)] by auto
  then show "body_matches True body rel name \<longleftrightarrow> pt_valid (tokensOf rest no_options) \<and>
      (\<exists>u v. rel = u @ v \<and> (u = [] \<or> last u = SLASH) \<and> glob True (pt_tokens (tokensOf rest no_options)) v)"
    by cases (simp_all add: leading_states(1) [OF assms(1)] body_matches_def glob_state_def nfa_lang_tokens)
qed

theorem leading_globstar_loses_escaped_slash_witness:
  "\<not> compiled_matches (compile_body True [0x2a, 0x2a, 0x2f, 0x61, 0x5c, 0x2f, 0x62]) [0x78, 0x2f, 0x61, 0x2f, 0x62] [0x62] \<and>
   body_matches True [0x2a, 0x2a, 0x2f, 0x61, 0x5c, 0x2f, 0x62] [0x78, 0x2f, 0x61, 0x2f, 0x62] [0x62]"
proof -
  have lead: "leadingGlobstarBasename [0x2a, 0x2a, 0x2f, 0x61, 0x5c, 0x2f, 0x62] = Some [0x61, 0x5c, 0x2f, 0x62]" by code_simp
  have parsed: "tokensOf [0x61, 0x5c, 0x2f, 0x62] no_options =
      \<lparr>pt_tokens = map literal_token [0x61, 0x2f, 0x62], pt_valid = True, pt_hasStar = False\<rparr>" by code_simp
  have some: "slash_tokens (pt_tokens (tokensOf [0x61, 0x5c, 0x2f, 0x62] no_options)) \<noteq> 0"
    unfolding parsed by (simp add: slash_tokens_def literal_token_def SLASH_def)
  have name: "name_of [0x78, 0x2f, 0x61, 0x2f, 0x62] [0x62]"
    unfolding name_of_def by (rule exI [of _ "[0x78, 0x2f, 0x61, 0x2f]"]) (simp add: SLASH_def)
  have "glob True (map literal_token [0x61, 0x2f, 0x62]) [0x61, 0x2f, 0x62]"
    by (simp add: matchToken_def literal_token_def)
  then have "\<exists>u v. [0x78, 0x2f, 0x61, 0x2f, 0x62] = u @ v \<and> (u = [] \<or> last u = SLASH)
      \<and> glob True (map literal_token [0x61, 0x2f, 0x62]) v"
    by (intro exI [of _ "[0x78, 0x2f]"] exI [of _ "[0x61, 0x2f, 0x62]"]) (simp add: SLASH_def)
  then show ?thesis using leading_globstar_loses_escaped_slash [OF lead some name] unfolding parsed by simp
qed

text \<open>
  C16: evaluating a compiled rule on a path reports exactly the depths at which the path below the directory of the rule
  matches it, or more steps than allowed.
\<close>

theorem matchPatternDepths_correct:
  assumes "compilePatternBytes line = Some pattern" "0 \<le> maxWork"
  shows "case matchPatternDepths pattern (encodePath path) k isDirectory maxWork of
      (found, w) \<Rightarrow> w > maxWork \<or> set found = matched_depths pattern (encodePath path) k isDirectory"
proof -
  obtain found w where r: "matchPatternDepths pattern (encodePath path) k isDirectory maxWork = (found, w)" by fastforce
  have "segmented (encodePath path)" by (simp add: encodePath_def encoded_segmented)
  from matchPatternDepths_exact [OF this compilePatternBytes_wf [OF assms(1)] assms(2) r] show ?thesis using r by auto
qed

theorem matchPatternDepths_correct_witness:
  "\<exists>pattern. compilePatternBytes [0x61, 0x2f, 0x2a, 0x2a] = Some pattern \<and>
     matched_depths pattern (encodePath [0x61, 0x2f, 0x62, 0x2f, 0x63]) 0 False = {2, 3}"
proof -
  have "compilePatternBytes [0x61, 0x2f, 0x2a, 0x2a] \<noteq> None" by code_simp
  then obtain pattern where p: "compilePatternBytes [0x61, 0x2f, 0x2a, 0x2a] = Some pattern" by auto
  have "case matchPatternDepths (the (compilePatternBytes [0x61, 0x2f, 0x2a, 0x2a]))
      (encodePath [0x61, 0x2f, 0x62, 0x2f, 0x63]) 0 False 1000 of (found, w) \<Rightarrow> found = [2, 3] \<and> w \<le> 1000" by code_simp
  then obtain w where r: "matchPatternDepths pattern (encodePath [0x61, 0x2f, 0x62, 0x2f, 0x63]) 0 False 1000 = ([2, 3], w)" "w \<le> 1000"
    using p by (auto split: prod.splits)
  from matchPatternDepths_correct [OF p, of 1000 "[0x61, 0x2f, 0x62, 0x2f, 0x63]" 0 False] show ?thesis
    using p r by auto
qed

end
