(* ===== verification/IgnoreSource.thy ===== *)
theory IgnoreSource
  imports IgnoreCompile Paths "HOL-Library.AList"
begin

text \<open>
  Loading of ignore rules (\<open>packages/git/src/ignore/limits.ts\<close> and \<open>source.ts\<close>): the budget of raw bytes, files and
  patterns, the lines of a rule file, and the pages of rule files a worktree is searched for.

  The worktree is what the loader calls of it: \<open>realpath\<close>, \<open>discoverFiles\<close> after a cursor, and
  \<open>readFileHandles\<close>, each of which may throw. The page loop has no bound of its own, so it is a partial function:
  \<open>None\<close> is a loop that does not return.
\<close>

section \<open>Limits\<close>

definition limit_rawBytes :: nat where "limit_rawBytes = 1000000"
definition limit_fileBytes :: nat where "limit_fileBytes = 250000"
definition limit_files :: nat where "limit_files = 1024"
definition limit_patterns :: nat where "limit_patterns = 8192"
definition limit_queryBytes :: nat where "limit_queryBytes = 16384"
definition limit_requestCpuWork :: nat where "limit_requestCpuWork = 10000000"
definition limit_discoveryPage :: nat where "limit_discoveryPage = 128"

record IgnoreBudget =
  ib_rawBytes :: nat
  ib_files :: nat
  ib_patterns :: nat

definition newIgnoreBudget :: IgnoreBudget where
  "newIgnoreBudget = \<lparr>ib_rawBytes = 0, ib_files = 0, ib_patterns = 0\<rparr>"

record RegularFileHandle =
  fh_path :: jstring
  fh_ino :: nat
  fh_size :: nat
  fh_rev :: nat

definition addRaw :: "nat \<Rightarrow> IgnoreBudget \<Rightarrow> IgnoreBudget result" where
  "addRaw n budget =
     (let observed = ib_rawBytes budget + n
      in if observed > limit_rawBytes then Inl (IgnoreLimitError ''rawBytes'' limit_rawBytes observed)
         else Inr (budget\<lparr>ib_rawBytes := observed\<rparr>))"

definition addFile :: "RegularFileHandle \<Rightarrow> IgnoreBudget \<Rightarrow> IgnoreBudget result" where
  "addFile handle budget =
     (if fh_size handle > limit_fileBytes then Inl (IgnoreLimitError ''fileBytes'' limit_fileBytes (fh_size handle))
      else
        let observed = ib_files budget + 1
        in if observed > limit_files then Inl (IgnoreLimitError ''files'' limit_files observed)
           else addRaw (fh_size handle) (budget\<lparr>ib_files := observed\<rparr>))"

definition addPattern :: "IgnoreBudget \<Rightarrow> IgnoreBudget result" where
  "addPattern budget =
     (let observed = ib_patterns budget + 1
      in if observed > limit_patterns then Inl (IgnoreLimitError ''patterns'' limit_patterns observed)
         else Inr (budget\<lparr>ib_patterns := observed\<rparr>))"

section \<open>Rule files\<close>

text \<open>The UTF-8 bytes of the next character, and the units it takes.\<close>

definition char_bytes :: "unit16 \<Rightarrow> jstring \<Rightarrow> nat \<times> nat" where
  "char_bytes u rest =
     (if u < 0x80 then (1, 0)
      else if u < 0x800 then (2, 0)
      else if is_high u then (case rest of v # _ \<Rightarrow> if is_low v then (4, 1) else (3, 0) | [] \<Rightarrow> (3, 0))
      else (3, 0))"

function bounded_loop :: "nat \<Rightarrow> nat \<Rightarrow> jstring \<Rightarrow> nat" where
  "bounded_loop limit n [] = n"
| "bounded_loop limit n (u # rest) =
     (case char_bytes u rest of
        (k, skip) \<Rightarrow> if n + k > limit then limit + 1 else bounded_loop limit (n + k) (drop skip rest))"
  by pat_completeness auto
termination by (relation "measure (\<lambda>(_, _, s). length s)") auto

definition boundedUtf8Bytes :: "jstring \<Rightarrow> nat \<Rightarrow> nat" where
  "boundedUtf8Bytes v limit = bounded_loop limit 0 v"

definition ignore_load_error :: "string \<Rightarrow> error" where
  "ignore_load_error detail = JsError detail"

definition line_range :: "bytes \<Rightarrow> bool \<Rightarrow> nat \<Rightarrow> nat \<Rightarrow> nat \<times> nat" where
  "line_range contents first start stop =
     (let lineStart = (if first \<and> byte_at contents start = Some 0xef \<and> byte_at contents (start + 1) = Some 0xbb
                          \<and> byte_at contents (start + 2) = Some 0xbf then start + 3 else start);
          lineEnd = (if stop > lineStart \<and> byte_at contents (stop - 1) = Some 0x0d then stop - 1 else stop)
      in (lineStart, lineEnd))"

function source_loop :: "bytes \<Rightarrow> nat \<Rightarrow> nat \<Rightarrow> bool \<Rightarrow> IgnorePattern list \<Rightarrow> IgnoreBudget \<Rightarrow> (IgnorePattern list \<times> IgnoreBudget) result" where
  "source_loop contents stop start first patterns budget =
     (if stop \<le> length contents then
        if stop < length contents \<and> byte_at contents stop \<noteq> Some 0x0a
        then source_loop contents (stop + 1) start first patterns budget
        else
          (case line_range contents first start stop of
             (lineStart, lineEnd) \<Rightarrow>
               (case compilePatternBytes (slice contents lineStart lineEnd) of
                  None \<Rightarrow> source_loop contents (stop + 1) (stop + 1) False patterns budget
                | Some compiled \<Rightarrow>
                    (case addPattern budget of
                       Inl e \<Rightarrow> Inl e
                     | Inr budget1 \<Rightarrow> source_loop contents (stop + 1) (stop + 1) False (patterns @ [compiled]) budget1)))
      else Inr (patterns, budget))"
  by pat_completeness auto
termination by (relation "measure (\<lambda>(contents, stop, _). Suc (length contents) - stop)") auto

declare source_loop.simps [simp del]

definition compileSource :: "bytes \<Rightarrow> IgnoreBudget \<Rightarrow> (IgnorePattern list \<times> IgnoreBudget) result" where
  "compileSource contents budget = source_loop contents 0 0 True [] budget"

definition parseIgnoreFile :: "jstring \<Rightarrow> IgnorePattern list result" where
  "parseIgnoreFile contents =
     bindR (addRaw (boundedUtf8Bytes contents limit_rawBytes) newIgnoreBudget) (\<lambda>budget.
     bindR (compileSource (utf8_encode contents) budget) (\<lambda>(patterns, _). Inr patterns))"

definition directoryOfIgnoreFile :: "jstring \<Rightarrow> jstring \<Rightarrow> jstring result" where
  "directoryOfIgnoreFile root path =
     (case relativeTo root path of
        None \<Rightarrow> Inl (ignore_load_error ''path is outside the root'')
      | Some relative \<Rightarrow>
          if relative = units ''.gitignore'' then Inr []
          else if \<not> endsWith relative (units ''/.gitignore'') then Inl (ignore_load_error ''unexpected path'')
          else Inr (take (length relative - length (units ''/.gitignore'')) relative))"

definition sameHandle :: "RegularFileHandle \<Rightarrow> RegularFileHandle \<Rightarrow> bool" where
  "sameHandle left right =
     (fh_path left = fh_path right \<and> fh_ino left = fh_ino right \<and> fh_size left = fh_size right \<and> fh_rev left = fh_rev right)"

section \<open>Worktrees\<close>

type_synonym rules = "(jstring \<times> IgnorePattern list) list"

record ReadBatch =
  rb_files :: "(jstring \<times> bytes) list"
  rb_remaining :: "RegularFileHandle list"

record DiscoverFilesPage =
  fp_handles :: "RegularFileHandle list"
  fp_next :: "jstring option"

record IgnoreWorktree =
  wt_realpath :: "jstring \<Rightarrow> jstring result"
  wt_discoverFiles :: "jstring \<Rightarrow> jstring list \<Rightarrow> jstring option \<Rightarrow> DiscoverFilesPage result"
  wt_readFileHandles :: "RegularFileHandle list \<Rightarrow> ReadBatch result"

definition retry_boundary :: "RegularFileHandle list \<Rightarrow> nat \<Rightarrow> RegularFileHandle list \<Rightarrow> bool" where
  "retry_boundary remaining completed rest =
     list_all (\<lambda>index. case (charCodeAt remaining (completed + index), charCodeAt rest index) of
         (Some expected, Some actual) \<Rightarrow> sameHandle expected actual
       | _ \<Rightarrow> False) [0..<length rest]"

type_synonym page_state = "(jstring \<times> bytes) list \<times> IgnoreBudget \<times> rules"

definition handle_step :: "jstring \<Rightarrow> RegularFileHandle \<Rightarrow> page_state \<Rightarrow> page_state result" where
  "handle_step root handle st =
     (case st of (files, budget, rules) \<Rightarrow>
        (case map_of files (fh_path handle) of
           None \<Rightarrow> Inl (ignore_load_error ''readFileHandles omitted a file'')
         | Some contents \<Rightarrow>
             if length contents \<noteq> fh_size handle then Inl (ignore_load_error ''readFileHandles omitted a file'')
             else
               bindR (compileSource contents budget) (\<lambda>(patterns, budget1).
               let files1 = AList.delete (fh_path handle) files
               in if length patterns > 0
                  then bindR (directoryOfIgnoreFile root (fh_path handle)) (\<lambda>directory.
                         Inr (files1, budget1, AList.update directory patterns rules))
                  else Inr (files1, budget1, rules))))"

function compileHandlePage ::
    "IgnoreWorktree \<Rightarrow> jstring \<Rightarrow> RegularFileHandle list \<Rightarrow> IgnoreBudget \<Rightarrow> rules \<Rightarrow> (IgnoreBudget \<times> rules) result" where
  "compileHandlePage worktree root remaining budget rules =
     (if length remaining > 0 then
        (case wt_readFileHandles worktree remaining of
           Inl e \<Rightarrow> Inl e
         | Inr batch \<Rightarrow>
             if length remaining \<le> length (rb_remaining batch) then Inl (ignore_load_error ''readFileHandles made no progress'')
             else
               let completed = length remaining - length (rb_remaining batch)
               in if \<not> retry_boundary remaining completed (rb_remaining batch)
                  then Inl (ignore_load_error ''readFileHandles changed the retry boundary'')
                  else
                    (case foldR (handle_step root) (take completed remaining) (rb_files batch, budget, rules) of
                       Inl e \<Rightarrow> Inl e
                     | Inr (_, budget1, rules1) \<Rightarrow> compileHandlePage worktree root (rb_remaining batch) budget1 rules1))
      else Inr (budget, rules))"
  by pat_completeness auto
termination by (relation "measure (\<lambda>(_, _, remaining, _). length remaining)") auto

declare compileHandlePage.simps [simp del]

definition extra_step :: "nat \<times> jstring \<Rightarrow> IgnorePattern list \<times> IgnoreBudget \<Rightarrow> (IgnorePattern list \<times> IgnoreBudget) result" where
  "extra_step entry st =
     (case (entry, st) of ((index, source), (patterns, budget)) \<Rightarrow>
        bindR (if index > 0 then addRaw 1 budget else Inr budget) (\<lambda>budget1.
        bindR (addRaw (boundedUtf8Bytes source limit_rawBytes) budget1) (\<lambda>budget2.
        bindR (compileSource (utf8_encode source) budget2) (\<lambda>(new, budget3). Inr (patterns @ new, budget3)))))"

definition compileExtra :: "jstring list \<Rightarrow> IgnoreBudget \<Rightarrow> (IgnorePattern list \<times> IgnoreBudget) result" where
  "compileExtra extra budget = foldR extra_step (enumerate 0 extra) ([], budget)"

definition excluded_root :: "jstring \<Rightarrow> jstring \<Rightarrow> jstring \<Rightarrow> jstring" where
  "excluded_root root canonicalRoot path =
     (case relativeTo root path of
        None \<Rightarrow> strip_trailing slash path
      | Some relative \<Rightarrow> joinPath canonicalRoot relative)"

partial_function (option) page_loop ::
    "IgnoreWorktree \<Rightarrow> jstring \<Rightarrow> jstring list \<Rightarrow> IgnoreBudget \<Rightarrow> rules \<Rightarrow> jstring list \<Rightarrow> jstring option \<Rightarrow> rules result option" where
  "page_loop worktree root excluded budget rules cursors after =
     (case wt_discoverFiles worktree root excluded after of
        Inl e \<Rightarrow> Some (Inl e)
      | Inr page \<Rightarrow>
          (case foldR addFile (fp_handles page) budget of
             Inl e \<Rightarrow> Some (Inl e)
           | Inr budget1 \<Rightarrow>
               if fp_next page \<noteq> None \<and> ib_files budget1 = limit_files
               then Some (Inl (IgnoreLimitError ''files'' limit_files (limit_files + 1)))
               else
                 (case compileHandlePage worktree root (fp_handles page) budget1 rules of
                    Inl e \<Rightarrow> Some (Inl e)
                  | Inr (budget2, rules1) \<Rightarrow>
                      (case fp_next page of
                         None \<Rightarrow> Some (Inr rules1)
                       | Some cursor \<Rightarrow>
                           if after = Some cursor \<or> cursor \<in> set cursors
                           then Some (Inl (ignore_load_error ''discoverFiles repeated its cursor''))
                           else page_loop worktree root excluded budget2 rules1 (set_add cursor cursors) (Some cursor)))))"

definition loadRules :: "IgnoreWorktree \<Rightarrow> jstring \<Rightarrow> jstring list \<Rightarrow> jstring list \<Rightarrow> (rules \<times> IgnorePattern list) result option" where
  "loadRules worktree root extraSources excludeRoots =
     (case compileExtra extraSources newIgnoreBudget of
        Inl e \<Rightarrow> Some (Inl e)
      | Inr (extra, budget) \<Rightarrow>
          (case wt_realpath worktree root of
             Inl e \<Rightarrow> Some (Inl e)
           | Inr canonicalRoot \<Rightarrow>
               map_option (map_sum id (\<lambda>rules. (rules, extra)))
                 (page_loop worktree canonicalRoot (map (excluded_root root canonicalRoot) excludeRoots) budget [] [] None)))"

end
