(* ===== verification/IgnoreMatcher.thy ===== *)
theory IgnoreMatcher
  imports IgnoreSource
begin

text \<open>
  The matcher of a worktree (\<open>packages/git/src/ignore/matcher.ts\<close>): rules by source directory, literal rules in hash
  buckets, the sources that apply to a path found by a rolling hash, and the decision of a query under a budget of steps.

  A source is known by its place in the list of sources, which stands for the identity of the object; the constructor
  is partial, because its search for a parent directory need not end.
\<close>

section \<open>Rule sources\<close>

record IndexedRule =
  ir_pattern :: IgnorePattern
  ir_literal :: bytes
  ir_line :: nat

type_synonym hash = "32 word"
type_synonym rule_map = "(hash \<times> IndexedRule list) list"

record RuleSource =
  rs_bytes :: bytes
  rs_depth :: nat
  rs_parent :: "nat option"
  rs_basenames :: rule_map
  rs_paths :: rule_map
  rs_dynamic :: "IndexedRule list"

definition SOURCE_HASH_INITIAL :: hash where
  "SOURCE_HASH_INITIAL = 0x811c9dc5"

definition sourceHashStep :: "hash \<Rightarrow> byte \<Rightarrow> hash" where
  "sourceHashStep h b = (h XOR ucast b) * 0x01000193"

definition hashBytes :: "bytes \<Rightarrow> nat \<Rightarrow> nat \<Rightarrow> hash" where
  "hashBytes bs start stop =
     fold (\<lambda>index h. sourceHashStep h (case byte_at bs index of None \<Rightarrow> 0 | Some b \<Rightarrow> b)) [start..<stop] SOURCE_HASH_INITIAL"

text \<open>A bucket of a \<open>Map\<close> of arrays: appended to, or made.\<close>

definition addIndexed :: "(hash \<times> 'a list) list \<Rightarrow> hash \<Rightarrow> 'a \<Rightarrow> (hash \<times> 'a list) list" where
  "addIndexed m h x =
     (case map_of m h of None \<Rightarrow> AList.update h [x] m | Some bucket \<Rightarrow> AList.update h (bucket @ [x]) m)"

definition index_rule :: "nat \<times> IgnorePattern \<Rightarrow> RuleSource \<Rightarrow> RuleSource" where
  "index_rule entry source =
     (case entry of (line, pattern) \<Rightarrow>
        if patternMatchesNever pattern then source
        else
          (case patternLiteral pattern of
             None \<Rightarrow> source\<lparr>rs_dynamic := rs_dynamic source @ [\<lparr>ir_pattern = pattern, ir_literal = [], ir_line = line\<rparr>]\<rparr>
           | Some (basename, literal) \<Rightarrow>
               let rule = \<lparr>ir_pattern = pattern, ir_literal = literal, ir_line = line\<rparr>;
                   h = hashBytes literal 0 (length literal)
               in if basename then source\<lparr>rs_basenames := addIndexed (rs_basenames source) h rule\<rparr>
                  else source\<lparr>rs_paths := addIndexed (rs_paths source) h rule\<rparr>))"

definition compileRuleSource :: "bytes \<Rightarrow> nat \<Rightarrow> IgnorePattern list \<Rightarrow> RuleSource" where
  "compileRuleSource bs depth patterns =
     fold index_rule (enumerate 0 patterns)
       \<lparr>rs_bytes = bs, rs_depth = depth, rs_parent = None, rs_basenames = [], rs_paths = [], rs_dynamic = []\<rparr>"

fun equal_suffix :: "bytes \<Rightarrow> bytes \<Rightarrow> nat list \<Rightarrow> bool" where
  "equal_suffix left right [] = True"
| "equal_suffix left right (index # more_is) = (if byte_at left index \<noteq> byte_at right index then False else equal_suffix left right more_is)"

definition sourceSuffixEqual :: "bytes \<Rightarrow> bytes \<Rightarrow> nat \<Rightarrow> bool" where
  "sourceSuffixEqual left right start = equal_suffix left right [start..<length right]"

section \<open>The index of sources\<close>

record SourceIndex =
  si_sources :: "RuleSource list"
  si_buckets :: "(hash \<times> nat list) list"
  si_sourceBytes :: nat
  si_maxBucketEntries :: nat

record IgnoreSourceIndexStats =
  st_sources :: nat
  st_buckets :: nat
  st_bucketEntries :: nat
  st_sourceBytes :: nat
  st_maxBucketEntries :: nat

definition index_source :: "(hash \<Rightarrow> byte \<Rightarrow> hash) \<Rightarrow> nat \<times> RuleSource \<Rightarrow> SourceIndex \<Rightarrow> SourceIndex" where
  "index_source hashStep entry index =
     (case entry of (i, source) \<Rightarrow>
        let h = fold (\<lambda>b h. hashStep h b) (rs_bytes source) SOURCE_HASH_INITIAL;
            entries = (case map_of (si_buckets index) h of None \<Rightarrow> 1 | Some bucket \<Rightarrow> length bucket + 1)
        in index\<lparr>si_buckets := addIndexed (si_buckets index) h i,
                 si_maxBucketEntries := max (si_maxBucketEntries index) entries,
                 si_sourceBytes := si_sourceBytes index + length (rs_bytes source)\<rparr>)"

definition newSourceIndex :: "RuleSource list \<Rightarrow> (hash \<Rightarrow> byte \<Rightarrow> hash) \<Rightarrow> SourceIndex" where
  "newSourceIndex sources hashStep =
     fold (index_source hashStep) (enumerate 0 sources)
       \<lparr>si_sources = sources, si_buckets = [], si_sourceBytes = 0, si_maxBucketEntries = 0\<rparr>"

definition index_stats :: "SourceIndex \<Rightarrow> IgnoreSourceIndexStats" where
  "index_stats index =
     (let bucketEntries = sum_list (map (\<lambda>(_, bucket). length bucket) (si_buckets index))
      in \<lparr>st_sources = bucketEntries, st_buckets = length (si_buckets index), st_bucketEntries = bucketEntries,
          st_sourceBytes = si_sourceBytes index, st_maxBucketEntries = si_maxBucketEntries index\<rparr>)"

definition addWork :: "nat \<Rightarrow> nat \<Rightarrow> nat result" where
  "addWork amount work =
     (let observed = work + amount
      in if observed > limit_requestCpuWork then Inl (IgnoreLimitError ''requestCpuWork'' limit_requestCpuWork observed)
         else Inr observed)"

record FindState =
  fs_work :: nat
  fs_found :: "nat list"
  fs_hash :: hash

text \<open>
  One candidate of a bucket. The bytes of a parent that was found need no second comparison; a source is verified
  exactly when it was found.
\<close>

definition verified_bytes :: "RuleSource list \<Rightarrow> nat list \<Rightarrow> RuleSource \<Rightarrow> nat" where
  "verified_bytes sources found source =
     (case rs_parent source of
        None \<Rightarrow> 0
      | Some parent \<Rightarrow> if parent \<in> set found then length (rs_bytes (sources ! parent)) else 0)"

definition candidate_step :: "SourceIndex \<Rightarrow> bytes \<Rightarrow> nat \<Rightarrow> nat \<Rightarrow> FindState \<Rightarrow> FindState result" where
  "candidate_step index bs at i st =
     (let source = si_sources index ! i; verified = verified_bytes (si_sources index) (fs_found st) source
      in bindR (addWork (length (rs_bytes source) - verified) (fs_work st)) (\<lambda>work.
         let st1 = st\<lparr>fs_work := work\<rparr>
         in if length (rs_bytes source) \<noteq> at + 1 then Inr st1
            else if \<not> sourceSuffixEqual bs (rs_bytes source) verified then Inr st1
            else Inr (st1\<lparr>fs_found := fs_found st1 @ [i]\<rparr>)))"

definition find_step :: "SourceIndex \<Rightarrow> (hash \<Rightarrow> byte \<Rightarrow> hash) \<Rightarrow> bytes \<Rightarrow> nat \<Rightarrow> FindState \<Rightarrow> FindState result" where
  "find_step index hashStep bs at st =
     (let st1 = st\<lparr>fs_hash := hashStep (fs_hash st) (case byte_at bs at of None \<Rightarrow> 0 | Some b \<Rightarrow> b)\<rparr>
      in if byte_at bs (at + 1) \<noteq> Some SLASH then Inr st1
         else (case map_of (si_buckets index) (fs_hash st1) of
                 None \<Rightarrow> Inr st1
               | Some bucket \<Rightarrow> foldR (candidate_step index bs at) bucket st1))"

text \<open>The sources that apply to a path, and the work done so far.\<close>

definition applicable :: "SourceIndex \<Rightarrow> (hash \<Rightarrow> byte \<Rightarrow> hash) \<Rightarrow> bytes \<Rightarrow> nat \<Rightarrow> (RuleSource list \<times> nat) result" where
  "applicable index hashStep bs work =
     (if si_buckets index = [] then Inr ([], work)
      else
        bindR (addWork (length bs) work) (\<lambda>work1.
        bindR (foldR (find_step index hashStep bs) [0..<length bs]
                 \<lparr>fs_work = work1, fs_found = [], fs_hash = SOURCE_HASH_INITIAL\<rparr>) (\<lambda>st.
        Inr (map (\<lambda>i. si_sources index ! i) (fs_found st), fs_work st))))"

section \<open>Construction\<close>

record WorktreeIgnoreMatcher =
  wm_rootSource :: "RuleSource option"
  wm_sourceIndex :: SourceIndex
  wm_hashStep :: "hash \<Rightarrow> byte \<Rightarrow> hash"
  wm_extraSource :: RuleSource
  wm_hasRules :: bool

definition source_of :: "jstring \<times> IgnorePattern list \<Rightarrow> RuleSource" where
  "source_of entry =
     (case entry of (directory, patterns) \<Rightarrow>
        let bs = utf8_encode directory; slashes = count_slashes bs
        in compileRuleSource bs (if length bs > 0 then slashes + 1 else slashes) patterns)"

text \<open>\<open>directory.lastIndexOf("/", from)\<close>: a position below 0 is read as 0.\<close>

definition last_slash :: "jstring \<Rightarrow> int \<Rightarrow> nat option" where
  "last_slash directory from = lastIndexOf (take (nat from + 1) directory) slash"

partial_function (option) parent_loop :: "(jstring \<times> nat) list \<Rightarrow> jstring \<Rightarrow> nat option \<Rightarrow> nat option option" where
  "parent_loop sourcesByDirectory directory at =
     (case at of
        None \<Rightarrow> Some None
      | Some k \<Rightarrow>
          (case map_of sourcesByDirectory (take k directory) of
             Some parent \<Rightarrow> Some (Some parent)
           | None \<Rightarrow> parent_loop sourcesByDirectory directory (last_slash directory (int k - 1))))"

definition parent_of :: "(jstring \<times> nat) list \<Rightarrow> jstring \<Rightarrow> nat option option" where
  "parent_of sourcesByDirectory directory = parent_loop sourcesByDirectory directory (lastIndexOf directory slash)"

fun link_parents :: "(jstring \<times> nat) list \<Rightarrow> (jstring \<times> RuleSource) list \<Rightarrow> RuleSource list option" where
  "link_parents sourcesByDirectory [] = Some []"
| "link_parents sourcesByDirectory ((directory, source) # entries) =
     (case parent_of sourcesByDirectory directory of
        None \<Rightarrow> None
      | Some parent \<Rightarrow>
          map_option ((#) (source\<lparr>rs_parent := parent\<rparr>)) (link_parents sourcesByDirectory entries))"

definition below_root :: "(jstring \<times> IgnorePattern list) list \<Rightarrow> (jstring \<times> RuleSource) list" where
  "below_root rules = map (\<lambda>entry. (fst entry, source_of entry)) (filter (\<lambda>entry. utf8_encode (fst entry) \<noteq> []) rules)"

definition root_source :: "(jstring \<times> IgnorePattern list) list \<Rightarrow> RuleSource option" where
  "root_source rules =
     fold (\<lambda>entry root. if utf8_encode (fst entry) = [] then Some (source_of entry) else root) rules None"

definition has_rules :: "RuleSource \<Rightarrow> bool" where
  "has_rules source = (rs_paths source \<noteq> [] \<or> rs_basenames source \<noteq> [] \<or> rs_dynamic source \<noteq> [])"

definition newWorktreeIgnoreMatcher ::
    "(jstring \<times> IgnorePattern list) list \<Rightarrow> IgnorePattern list \<Rightarrow> (hash \<Rightarrow> byte \<Rightarrow> hash) \<Rightarrow> WorktreeIgnoreMatcher option" where
  "newWorktreeIgnoreMatcher rules extra hashStep =
     (let extraSource = compileRuleSource [] 0 extra;
          sourceDirectories = below_root rules;
          sourcesByDirectory = map (\<lambda>(i, directory, _). (directory, i)) (enumerate 0 sourceDirectories)
      in map_option (\<lambda>sources.
           \<lparr>wm_rootSource = root_source rules, wm_sourceIndex = newSourceIndex sources hashStep, wm_hashStep = hashStep,
            wm_extraSource = extraSource,
            wm_hasRules = (root_source rules \<noteq> None \<or> length sources > 0 \<or> has_rules extraSource)\<rparr>)
           (link_parents sourcesByDirectory sourceDirectories))"

section \<open>Queries\<close>

text \<open>The ranks are stored in \<open>Uint32Array\<close>s.\<close>

record QueryState =
  qs_work :: nat
  qs_decisions :: "nat list"
  qs_sourceRanks :: "hash list"
  qs_lineRanks :: "hash list"

definition rank_at :: "hash list \<Rightarrow> nat \<Rightarrow> nat" where
  "rank_at ranks i = (case charCodeAt ranks i of None \<Rightarrow> 0 | Some r \<Rightarrow> unat r)"

definition decide :: "EncodedPath \<Rightarrow> bool \<Rightarrow> nat \<Rightarrow> IndexedRule \<Rightarrow> nat \<Rightarrow> QueryState \<Rightarrow> QueryState" where
  "decide path isDirectory sourceRank rule depth st =
     (if ip_directoryOnly (ir_pattern rule) \<and> depth = ep_segments path \<and> \<not> isDirectory then st
      else
        let lineRank = ir_line rule + 1;
            currentSource = rank_at (qs_sourceRanks st) (depth - 1);
            currentLine = rank_at (qs_lineRanks st) (depth - 1)
        in if sourceRank < currentSource \<or> (sourceRank = currentSource \<and> lineRank < currentLine) then st
           else st\<lparr>qs_sourceRanks := (qs_sourceRanks st)[depth - 1 := word_of_nat sourceRank],
                   qs_lineRanks := (qs_lineRanks st)[depth - 1 := word_of_nat lineRank],
                   qs_decisions := (qs_decisions st)[depth - 1 := (if ip_negated (ir_pattern rule) then 1 else 2)]\<rparr>)"

definition spend :: "nat \<Rightarrow> QueryState \<Rightarrow> QueryState result" where
  "spend amount st = bindR (addWork amount (qs_work st)) (\<lambda>work. Inr (st\<lparr>qs_work := work\<rparr>))"

definition work_left :: "QueryState \<Rightarrow> int" where
  "work_left st = int limit_requestCpuWork - int (qs_work st)"

definition dynamic_step :: "EncodedPath \<Rightarrow> bool \<Rightarrow> nat \<Rightarrow> nat \<Rightarrow> IndexedRule \<Rightarrow> QueryState \<Rightarrow> QueryState result" where
  "dynamic_step path isDirectory depth sourceRank rule st =
     (case matchPatternDepths (ir_pattern rule) path depth isDirectory (work_left st) of
        (depths, w) \<Rightarrow> spend (nat w) (fold (decide path isDirectory sourceRank rule) depths st))"

definition literal_step :: "EncodedPath \<Rightarrow> bool \<Rightarrow> nat \<Rightarrow> nat \<Rightarrow> nat \<Rightarrow> nat \<Rightarrow> IndexedRule \<Rightarrow> QueryState \<Rightarrow> QueryState result" where
  "literal_step path isDirectory sourceRank start stop depth rule st =
     (case compareLiteralBytes (ep_bytes path) start stop (ir_literal rule) (work_left st) of
        (m, w) \<Rightarrow>
          bindR (spend (nat w) st) (\<lambda>st1. Inr (if m then decide path isDirectory sourceRank rule depth st1 else st1)))"

definition segment_hash :: "EncodedPath \<Rightarrow> nat \<Rightarrow> hash" where
  "segment_hash path depth =
     hashBytes (ep_bytes path) (nat_at (ep_starts path) (depth - 1) 0) (nat_at (ep_ends path) (depth - 1) 0)"

definition basename_step :: "EncodedPath \<Rightarrow> bool \<Rightarrow> RuleSource \<Rightarrow> nat \<Rightarrow> hash list \<Rightarrow> nat \<Rightarrow> QueryState \<Rightarrow> QueryState result" where
  "basename_step path isDirectory source sourceRank segmentHashes depth st =
     (case map_of (rs_basenames source) (case charCodeAt segmentHashes (depth - 1) of None \<Rightarrow> 0 | Some h \<Rightarrow> h) of
        None \<Rightarrow> Inr st
      | Some bucket \<Rightarrow>
          foldR (literal_step path isDirectory sourceRank (nat_at (ep_starts path) (depth - 1) 0)
                   (nat_at (ep_ends path) (depth - 1) 0) depth) bucket st)"

text \<open>The hash of the path below the source, continued from depth to depth.\<close>

definition extend_hash :: "bytes \<Rightarrow> hash \<Rightarrow> nat \<Rightarrow> nat \<Rightarrow> hash" where
  "extend_hash bs h at stop =
     fold (\<lambda>index h. sourceHashStep h (case byte_at bs index of None \<Rightarrow> 0 | Some b \<Rightarrow> b)) [at..<stop] h"

definition path_step :: "EncodedPath \<Rightarrow> bool \<Rightarrow> RuleSource \<Rightarrow> nat \<Rightarrow> nat \<Rightarrow> nat \<Rightarrow> hash \<times> nat \<times> QueryState \<Rightarrow> (hash \<times> nat \<times> QueryState) result" where
  "path_step path isDirectory source sourceRank start depth st =
     (case st of (h, at, q) \<Rightarrow>
        let stop = nat_at (ep_ends path) (depth - 1) 0;
            h1 = extend_hash (ep_bytes path) h at stop;
            at1 = max at stop
        in (case map_of (rs_paths source) h1 of
              None \<Rightarrow> Inr (h1, at1, q)
            | Some bucket \<Rightarrow>
                bindR (foldR (literal_step path isDirectory sourceRank start stop depth) bucket q) (\<lambda>q1. Inr (h1, at1, q1))))"

definition apply_source :: "EncodedPath \<Rightarrow> bool \<Rightarrow> hash list \<Rightarrow> nat \<times> RuleSource \<Rightarrow> QueryState \<Rightarrow> QueryState result" where
  "apply_source path isDirectory segmentHashes entry st =
     (case entry of (sourceRank, source) \<Rightarrow>
        let depths = [rs_depth source + 1..<ep_segments path + 1]; start = nat_at (ep_starts path) (rs_depth source) 0
        in bindR (foldR (dynamic_step path isDirectory (rs_depth source) sourceRank) (rs_dynamic source) st) (\<lambda>st1.
           bindR (if rs_basenames source \<noteq> []
                  then foldR (basename_step path isDirectory source sourceRank segmentHashes) depths st1 else Inr st1) (\<lambda>st2.
           if rs_paths source \<noteq> []
           then bindR (foldR (path_step path isDirectory source sourceRank start) depths (SOURCE_HASH_INITIAL, start, st2))
                  (\<lambda>(_, _, st3). Inr st3)
           else Inr st2)))"

definition relative_work :: "bytes \<Rightarrow> RuleSource \<Rightarrow> nat \<Rightarrow> nat result" where
  "relative_work bs source work =
     (if rs_paths source \<noteq> [] then addWork (length bs - length (rs_bytes source)) work else Inr work)"

definition ignores :: "WorktreeIgnoreMatcher \<Rightarrow> jstring \<Rightarrow> bool \<Rightarrow> bool result" where
  "ignores m path isDirectory =
     (if path = [] then Inr False
      else if boundedUtf8Bytes path limit_queryBytes > limit_queryBytes
      then Inl (IgnoreLimitError ''queryBytes'' limit_queryBytes (boundedUtf8Bytes path limit_queryBytes))
      else if \<not> wm_hasRules m then Inr False
      else
        let enc = encodePath path; bs = ep_bytes enc; depths = [1..<ep_segments enc + 1]
        in bindR (if rs_paths (wm_extraSource m) \<noteq> [] then addWork (length bs) 0 else Inr 0) (\<lambda>work.
           bindR (applicable (wm_sourceIndex m) (wm_hashStep m) bs work) (\<lambda>(found, work1).
           let sources = (case wm_rootSource m of None \<Rightarrow> [] | Some root \<Rightarrow> [root]) @ found
           in bindR (foldR (relative_work bs) sources work1) (\<lambda>work2.
              let hashing = list_ex (\<lambda>source. rs_basenames source \<noteq> []) (wm_extraSource m # sources);
                  zeros = replicate (ep_segments enc) 0
              in bindR (if hashing then addWork (length bs) work2 else Inr work2) (\<lambda>work3.
                 bindR (foldR (apply_source enc isDirectory (if hashing then map (segment_hash enc) depths else zeros))
                          (enumerate 1 (wm_extraSource m # sources))
                          \<lparr>qs_work = work3, qs_decisions = replicate (ep_segments enc) 0, qs_sourceRanks = zeros,
                           qs_lineRanks = zeros\<rparr>) (\<lambda>st.
                 Inr (list_ex (\<lambda>depth. charCodeAt (qs_decisions st) (depth - 1) = Some 2) depths)))))))"

definition includeEverything :: "jstring \<Rightarrow> bool \<Rightarrow> bool result" where
  "includeEverything path isDirectory = Inr False"

definition loadIgnoreMatcher :: "IgnoreWorktree \<Rightarrow> jstring \<Rightarrow> jstring list \<Rightarrow> jstring list \<Rightarrow> WorktreeIgnoreMatcher result option" where
  "loadIgnoreMatcher worktree root extra excludeRoots =
     (case loadRules worktree root extra excludeRoots of
        None \<Rightarrow> None
      | Some (Inl e) \<Rightarrow> Some (Inl e)
      | Some (Inr (rules, extraPatterns)) \<Rightarrow> map_option Inr (newWorktreeIgnoreMatcher rules extraPatterns sourceHashStep))"

end
