(* ===== verification/IgnoreCorrect.thy ===== *)
theory IgnoreCorrect
  imports IgnoreDepths IgnoreMatcher
begin

text \<open>
  The worktree matcher against the rule that git states: of the rules that match a path, or a directory on the way to it, the
  last one decides. The hash buckets, the index of sources, the order in which rules are tried and the shortcut over
  verified parents leave no trace in the answer.
\<close>

section \<open>Buckets\<close>

definition bucket_of :: "('h \<times> 'a list) list \<Rightarrow> 'h \<Rightarrow> 'a list" where
  "bucket_of m h = (case map_of m h of None \<Rightarrow> [] | Some b \<Rightarrow> b)"

lemma bucket_of_Nil [simp]: "bucket_of [] h = []"
  by (simp add: bucket_of_def)

lemma bucket_addIndexed: "bucket_of (addIndexed m h x) h' = bucket_of m h' @ (if h = h' then [x] else [])"
  by (auto simp: bucket_of_def addIndexed_def update_conv' split: option.splits)

lemma foldR_bucket: "(case map_of m h of None \<Rightarrow> Inr st | Some bucket \<Rightarrow> foldR f bucket st) = foldR f (bucket_of m h) st"
  by (simp add: bucket_of_def split: option.splits)

definition hash_list :: "(hash \<Rightarrow> byte \<Rightarrow> hash) \<Rightarrow> bytes \<Rightarrow> hash" where
  "hash_list step bs = fold (\<lambda>b h. step h b) bs SOURCE_HASH_INITIAL"

lemma fold_slice:
  assumes "stop \<le> length bs"
  shows "fold (\<lambda>i h. f h (case byte_at bs i of None \<Rightarrow> 0 | Some b \<Rightarrow> b)) [start..<stop] h = fold (\<lambda>b h. f h b) (slice bs start stop) h"
proof -
  have bytes: "slice bs start stop = map (\<lambda>i. case byte_at bs i of None \<Rightarrow> 0 | Some b \<Rightarrow> b) [start..<stop]"
    using assms by (intro nth_equalityI) (auto simp: slice_def charCodeAt_def)
  show ?thesis unfolding bytes by (simp add: fold_map comp_def)
qed

lemma hashBytes_slice: "stop \<le> length bs \<Longrightarrow> hashBytes bs start stop = hash_list sourceHashStep (slice bs start stop)"
  by (simp add: hashBytes_def hash_list_def fold_slice)

lemma extend_hash_slice:
  "stop \<le> length bs \<Longrightarrow> extend_hash bs (hash_list sourceHashStep xs) at stop = hash_list sourceHashStep (xs @ slice bs at stop)"
  by (simp add: extend_hash_def hash_list_def fold_slice)

lemma slice_full [simp]: "slice xs 0 (length xs) = xs"
  by (simp add: slice_def)

section \<open>Rule sources\<close>

definition indexed :: "nat \<times> IgnorePattern \<Rightarrow> bytes \<Rightarrow> IndexedRule" where
  "indexed entry lit = \<lparr>ir_pattern = snd entry, ir_literal = lit, ir_line = fst entry\<rparr>"

lemma indexed_simps [simp]:
  "ir_pattern (indexed e lit) = snd e" "ir_literal (indexed e lit) = lit" "ir_line (indexed e lit) = fst e"
  by (simp_all add: indexed_def)

lemma index_rule_props:
  "rs_bytes (index_rule entry src) = rs_bytes src" "rs_depth (index_rule entry src) = rs_depth src"
  "rs_parent (index_rule entry src) = rs_parent src"
  "set (rs_dynamic (index_rule entry src)) = set (rs_dynamic src) \<union>
     (if ip_compiled (snd entry) \<noteq> Never \<and> patternLiteral (snd entry) = None then {indexed entry []} else {})"
  "set (bucket_of (rs_basenames (index_rule entry src)) h) = set (bucket_of (rs_basenames src) h) \<union>
     {r. \<exists>lit. r = indexed entry lit \<and> patternLiteral (snd entry) = Some (True, lit) \<and> hash_list sourceHashStep lit = h}"
  "set (bucket_of (rs_paths (index_rule entry src)) h) = set (bucket_of (rs_paths src) h) \<union>
     {r. \<exists>lit. r = indexed entry lit \<and> patternLiteral (snd entry) = Some (False, lit) \<and> hash_list sourceHashStep lit = h}"
  by (auto simp: index_rule_def indexed_def bucket_addIndexed patternMatchesNever_def patternLiteral_def hashBytes_slice Let_def
      split: prod.splits option.splits Compiled.splits)

lemma collect_Cons:
  "{f e lit |e lit. e \<in> set (x # xs) \<and> Q e lit} = {r. \<exists>lit. r = f x lit \<and> Q x lit} \<union> {f e lit |e lit. e \<in> set xs \<and> Q e lit}"
  by auto

lemma fold_index_rule:
  "rs_bytes (fold index_rule es src) = rs_bytes src" "rs_depth (fold index_rule es src) = rs_depth src"
  "rs_parent (fold index_rule es src) = rs_parent src"
  "set (rs_dynamic (fold index_rule es src)) = set (rs_dynamic src) \<union>
     {indexed e [] | e. e \<in> set es \<and> ip_compiled (snd e) \<noteq> Never \<and> patternLiteral (snd e) = None}"
  "set (bucket_of (rs_basenames (fold index_rule es src)) h) = set (bucket_of (rs_basenames src) h) \<union>
     {indexed e lit | e lit. e \<in> set es \<and> patternLiteral (snd e) = Some (True, lit) \<and> hash_list sourceHashStep lit = h}"
  "set (bucket_of (rs_paths (fold index_rule es src)) h) = set (bucket_of (rs_paths src) h) \<union>
     {indexed e lit | e lit. e \<in> set es \<and> patternLiteral (snd e) = Some (False, lit) \<and> hash_list sourceHashStep lit = h}"
proof (induction es arbitrary: src)
  case (Cons e es)
  {
    case 1
    show ?case using Cons(1) index_rule_props(1) by simp
  next
    case 2
    show ?case using Cons(2) index_rule_props(2) by simp
  next
    case 3
    show ?case using Cons(3) index_rule_props(3) by simp
  next
    case 4
    show ?case using Cons(4) index_rule_props(4) by (cases e) (auto split: if_splits)
  next
    case 5
    show ?case unfolding fold_simps(2) Cons(5) index_rule_props(5) collect_Cons by (rule Un_assoc)
  next
    case 6
    show ?case unfolding fold_simps(2) Cons(6) index_rule_props(6) collect_Cons by (rule Un_assoc)
  }
qed simp_all

text \<open>What a compiled source holds of its patterns.\<close>

lemma compileRuleSource_props:
  "rs_bytes (compileRuleSource bs k ps) = bs" "rs_depth (compileRuleSource bs k ps) = k" "rs_parent (compileRuleSource bs k ps) = None"
  "set (rs_dynamic (compileRuleSource bs k ps)) =
     {indexed e [] | e. e \<in> set (enumerate 0 ps) \<and> ip_compiled (snd e) \<noteq> Never \<and> patternLiteral (snd e) = None}"
  "set (bucket_of (rs_basenames (compileRuleSource bs k ps)) h) =
     {indexed e lit | e lit. e \<in> set (enumerate 0 ps) \<and> patternLiteral (snd e) = Some (True, lit) \<and> hash_list sourceHashStep lit = h}"
  "set (bucket_of (rs_paths (compileRuleSource bs k ps)) h) =
     {indexed e lit | e lit. e \<in> set (enumerate 0 ps) \<and> patternLiteral (snd e) = Some (False, lit) \<and> hash_list sourceHashStep lit = h}"
  unfolding compileRuleSource_def fold_index_rule by simp_all

section \<open>Decisions\<close>

text \<open>The best of a set of ranked rules, as the three arrays of a query keep it for one depth.\<close>

definition best :: "(nat \<times> nat \<times> bool) set \<Rightarrow> nat \<Rightarrow> nat \<Rightarrow> nat \<Rightarrow> bool" where
  "best M s l dec =
     (M = {} \<and> s = 0 \<and> l = 0 \<and> dec = 0 \<or>
      (\<exists>neg. (s, l, neg) \<in> M \<and> dec = (if neg then 1 else 2) \<and> (\<forall>(s', l', neg') \<in> M. s' < s \<or> s' = s \<and> l' \<le> l)))"

lemma best_insert:
  assumes "best M s l dec"
  shows "s' < s \<or> s' = s \<and> l' < l \<Longrightarrow> best (insert (s', l', neg) M) s l dec"
    "\<not> (s' < s \<or> s' = s \<and> l' < l) \<Longrightarrow> best (insert (s', l', neg) M) s' l' (if neg then 1 else 2)"
proof -
  assume less: "s' < s \<or> s' = s \<and> l' < l"
  then have "M \<noteq> {}" using assms by (auto simp: best_def)
  then obtain n where "(s, l, n) \<in> M" "dec = (if n then 1 else 2)" "\<forall>(s', l', neg') \<in> M. s' < s \<or> s' = s \<and> l' \<le> l"
    using assms by (auto simp: best_def)
  then show "best (insert (s', l', neg) M) s l dec" using less unfolding best_def by (intro disjI2 exI [of _ n]) auto
next
  assume not_less: "\<not> (s' < s \<or> s' = s \<and> l' < l)"
  have "\<forall>(a, b, c) \<in> M. a < s' \<or> a = s' \<and> b \<le> l'" using assms not_less by (fastforce simp: best_def)
  then show "best (insert (s', l', neg) M) s' l' (if neg then 1 else 2)" unfolding best_def by (intro disjI2 exI [of _ neg]) auto
qed

definition query_inv :: "nat \<Rightarrow> QueryState \<Rightarrow> (nat \<Rightarrow> (nat \<times> nat \<times> bool) set) \<Rightarrow> bool" where
  "query_inv n st P =
     (qs_work st \<le> limit_requestCpuWork \<and>
      length (qs_decisions st) = n \<and> length (qs_sourceRanks st) = n \<and> length (qs_lineRanks st) = n \<and>
      (\<forall>d. 0 < d \<and> d \<le> n \<longrightarrow>
         best (P d) (unat (qs_sourceRanks st ! (d - 1))) (unat (qs_lineRanks st ! (d - 1))) (qs_decisions st ! (d - 1))))"

lemma unat_rank: "r < 2 ^ 32 \<Longrightarrow> unat (word_of_nat r :: hash) = r"
  by (simp add: unsigned_of_nat take_bit_nat_eq_self)

lemma decide_inv:
  assumes inv: "query_inv n st P" and n: "n = ep_segments path" and d: "0 < d" "d \<le> n"
    and ranks: "s < 2 ^ 32" "ir_line rule + 1 < 2 ^ 32"
  shows "query_inv n (decide path isDirectory s rule d st)
    (\<lambda>d'. P d' \<union> (if d' = d \<and> depth_accepted (ir_pattern rule) path isDirectory d
                  then {(s, ir_line rule + 1, ip_negated (ir_pattern rule))} else {}))"
proof (cases "depth_accepted (ir_pattern rule) path isDirectory d")
  case False
  then have "decide path isDirectory s rule d st = st" using d n by (auto simp: decide_def depth_accepted_def)
  then show ?thesis using inv False by (simp add: query_inv_def)
next
  case True
  let ?s = "unat (qs_sourceRanks st ! (d - 1))" and ?l = "unat (qs_lineRanks st ! (d - 1))"
  have skip: "\<not> (ip_directoryOnly (ir_pattern rule) \<and> d = ep_segments path \<and> \<not> isDirectory)"
    using True by (auto simp: depth_accepted_def)
  have rank: "rank_at (qs_sourceRanks st) (d - 1) = ?s" "rank_at (qs_lineRanks st) (d - 1) = ?l"
    using inv d by (auto simp: query_inv_def rank_at_def charCodeAt_def)
  have b: "best (P d) ?s ?l (qs_decisions st ! (d - 1))" using inv d by (simp add: query_inv_def)
  show ?thesis
  proof (cases "s < ?s \<or> s = ?s \<and> ir_line rule + 1 < ?l")
    case less: True
    then have "decide path isDirectory s rule d st = st" using skip rank by (auto simp: decide_def Let_def)
    then show ?thesis using inv best_insert(1) [OF b less] True by (auto simp: query_inv_def)
  next
    case not_less: False
    define st' where "st' = decide path isDirectory s rule d st"
    have st': "st' = st\<lparr>qs_sourceRanks := (qs_sourceRanks st)[d - 1 := word_of_nat s],
        qs_lineRanks := (qs_lineRanks st)[d - 1 := word_of_nat (ir_line rule + 1)],
        qs_decisions := (qs_decisions st)[d - 1 := (if ip_negated (ir_pattern rule) then 1 else 2)]\<rparr>"
      unfolding st'_def decide_def Let_def rank if_not_P [OF skip] if_not_P [OF not_less] by (rule refl)
    have len: "length (qs_decisions st) = n" "length (qs_sourceRanks st) = n" "length (qs_lineRanks st) = n" "d - 1 < n"
      using inv d by (auto simp: query_inv_def)
    have "best (P d' \<union> (if d' = d \<and> depth_accepted (ir_pattern rule) path isDirectory d then {(s, ir_line rule + 1, ip_negated (ir_pattern rule))} else {}))
        (unat (qs_sourceRanks st' ! (d' - 1))) (unat (qs_lineRanks st' ! (d' - 1))) (qs_decisions st' ! (d' - 1))"
      if "0 < d'" "d' \<le> n" for d'
    proof (cases "d' = d")
      case same: True
      have "unat (qs_sourceRanks st' ! (d - 1)) = s" "unat (qs_lineRanks st' ! (d - 1)) = ir_line rule + 1"
        "qs_decisions st' ! (d - 1) = (if ip_negated (ir_pattern rule) then 1 else 2)"
        using len unat_rank [OF ranks(1)] unat_rank [OF ranks(2)] by (simp_all add: st')
      then show ?thesis using best_insert(2) [OF b not_less, of "ip_negated (ir_pattern rule)"] same True by simp
    next
      case False
      then have "d' - 1 \<noteq> d - 1" using that d by simp
      then show ?thesis using inv that False len by (simp add: query_inv_def st')
    qed
    then show ?thesis using inv len unfolding st'_def [symmetric] query_inv_def by (simp add: st')
  qed
qed

text \<open>A loop whose every step adds to the matches of each depth.\<close>

lemma foldR_collect:
  assumes step: "\<And>x st st' P. x \<in> set xs \<Longrightarrow> f x st = Inr st' \<Longrightarrow> good st P \<Longrightarrow> good st' (\<lambda>d. P d \<union> Q x d)"
  shows "foldR f xs st = Inr st' \<Longrightarrow> good st P \<Longrightarrow> good st' (\<lambda>d. P d \<union> (\<Union>x \<in> set xs. Q x d))"
  using step
proof (induction xs arbitrary: st P)
  case (Cons x xs)
  from Cons.prems(1) obtain s where s: "f x st = Inr s" "foldR f xs s = Inr st'" by auto
  have "good s (\<lambda>d. P d \<union> Q x d)" using Cons.prems(3) [OF _ s(1) Cons.prems(2)] by simp
  then have "good st' (\<lambda>d. (P d \<union> Q x d) \<union> (\<Union>x \<in> set xs. Q x d))" using Cons.IH [OF s(2)] Cons.prems(3) by simp
  then show ?case by (simp add: Un_assoc)
qed simp

lemma fold_decide_inv:
  assumes n: "n = ep_segments path" and ranks: "s < 2 ^ 32" "ir_line rule + 1 < 2 ^ 32"
  shows "query_inv n st P \<Longrightarrow> (\<forall>d \<in> set ds. 0 < d \<and> d \<le> n \<and> depth_accepted (ir_pattern rule) path isDirectory d) \<Longrightarrow>
    query_inv n (fold (decide path isDirectory s rule) ds st)
      (\<lambda>d. P d \<union> (if d \<in> set ds then {(s, ir_line rule + 1, ip_negated (ir_pattern rule))} else {}))"
proof (induction ds arbitrary: st P)
  case (Cons d ds)
  let ?r = "(s, ir_line rule + 1, ip_negated (ir_pattern rule))"
  have "query_inv n (decide path isDirectory s rule d st) (\<lambda>d'. P d' \<union> (if d' = d then {?r} else {}))"
    using decide_inv [OF Cons.prems(1) n _ _ ranks, of d isDirectory] Cons.prems(2) by simp
  from Cons.IH [OF this] have "query_inv n (fold (decide path isDirectory s rule) ds (decide path isDirectory s rule d st))
      (\<lambda>d'. (P d' \<union> (if d' = d then {?r} else {})) \<union> (if d' \<in> set ds then {?r} else {}))" using Cons.prems(2) by simp
  moreover have "(\<lambda>d'. (P d' \<union> (if d' = d then {?r} else {})) \<union> (if d' \<in> set ds then {?r} else {})) =
      (\<lambda>d'. P d' \<union> (if d' \<in> set (d # ds) then {?r} else {}))" by (intro ext) auto
  ultimately show ?case by simp
qed simp

lemma spend_inv: "spend w st = Inr st' \<Longrightarrow> query_inv n st P \<Longrightarrow> query_inv n st' P \<and> qs_work st + w \<le> limit_requestCpuWork"
  by (auto simp: spend_def addWork_def query_inv_def Let_def split: if_splits)

lemma decide_work: "qs_work (fold (decide path isDirectory s rule) ds st) = qs_work st"
  by (induction ds arbitrary: st) (auto simp: decide_def Let_def)

text \<open>What a rule of a source adds at a depth.\<close>

definition hit :: "EncodedPath \<Rightarrow> bool \<Rightarrow> nat \<Rightarrow> nat \<Rightarrow> nat \<times> IgnorePattern \<Rightarrow> nat \<Rightarrow> (nat \<times> nat \<times> bool) set" where
  "hit path isDirectory s k entry d =
     (if d \<in> matched_depths (snd entry) path k isDirectory then {(s, fst entry + 1, ip_negated (snd entry))} else {})"

lemma dynamic_step_inv:
  assumes path: "segmented path" and wf: "program_wf (ip_compiled (snd e))" and ranks: "s < 2 ^ 32" "fst e + 1 < 2 ^ 32"
    and run: "dynamic_step path isDirectory k s (indexed e lit) st = Inr st'" and inv: "query_inv (ep_segments path) st P"
  shows "query_inv (ep_segments path) st' (\<lambda>d. P d \<union> hit path isDirectory s k e d)"
proof -
  obtain ds w where m: "matchPatternDepths (snd e) path k isDirectory (work_left st) = (ds, w)" by fastforce
  have left: "0 \<le> work_left st" using inv by (simp add: work_left_def query_inv_def)
  have run': "spend (nat w) (fold (decide path isDirectory s (indexed e lit)) ds st) = Inr st'"
    using run m by (simp add: dynamic_step_def indexed_def)
  have exact: "0 \<le> w" "w \<le> work_left st \<Longrightarrow> set ds = matched_depths (snd e) path k isDirectory"
    using matchPatternDepths_exact [OF path wf left m] by auto
  have "qs_work (fold (decide path isDirectory s (indexed e lit)) ds st) + nat w \<le> limit_requestCpuWork"
    using run' by (auto simp: spend_def addWork_def Let_def split: if_splits)
  then have ds: "set ds = matched_depths (snd e) path k isDirectory" using exact by (simp add: decide_work work_left_def)
  have "query_inv (ep_segments path) (fold (decide path isDirectory s (indexed e lit)) ds st)
      (\<lambda>d. P d \<union> (if d \<in> set ds then {(s, fst e + 1, ip_negated (snd e))} else {}))"
    using fold_decide_inv [where rule = "indexed e lit" and n = "ep_segments path", OF refl ranks(1) _ inv,
        where ds = ds and isDirectory = isDirectory, unfolded indexed_simps] ranks(2) ds
    by (simp add: matched_depths_def)
  then show ?thesis using spend_inv [OF run'] ds by (simp add: hit_def)
qed

lemma literal_step_inv:
  assumes range: "start \<le> stop" "stop \<le> length (ep_bytes path)" and d: "0 < d" "d \<le> ep_segments path"
    and ranks: "s < 2 ^ 32" "ir_line rule + 1 < 2 ^ 32"
    and run: "literal_step path isDirectory s start stop d rule st = Inr st'" and inv: "query_inv (ep_segments path) st P"
  shows "query_inv (ep_segments path) st' (\<lambda>d'. P d' \<union>
    (if d' = d \<and> slice (ep_bytes path) start stop = ir_literal rule \<and> depth_accepted (ir_pattern rule) path isDirectory d
     then {(s, ir_line rule + 1, ip_negated (ir_pattern rule))} else {}))"
proof -
  obtain m w where c: "compareLiteralBytes (ep_bytes path) start stop (ir_literal rule) (work_left st) = (m, w)" by fastforce
  obtain st1 where sp: "spend (nat w) st = Inr st1" "st' = (if m then decide path isDirectory s rule d st1 else st1)"
    using run c by (auto simp: literal_step_def)
  have left: "0 \<le> work_left st" using inv by (simp add: work_left_def query_inv_def)
  note q = compareLiteralBytes_exact [OF left range, of "ir_literal rule", unfolded c answers_def, simplified]
  note inv1 = spend_inv [OF sp(1) inv, THEN conjunct1]
  have "int (qs_work st + nat w) \<le> int limit_requestCpuWork"
    using spend_inv [OF sp(1) inv] by (simp only: of_nat_le_iff)
  then have "w \<le> work_left st" using q by (simp add: work_left_def)
  then have m: "m = (slice (ep_bytes path) start stop = ir_literal rule)" using q by simp
  show ?thesis
  proof (cases m)
    case True
    then show ?thesis using decide_inv [OF inv1 refl d ranks, of isDirectory] sp(2) m by simp
  next
    case False
    then show ?thesis using inv1 sp(2) m by simp
  qed
qed

text \<open>The rules of one source, tried in the order of the code: globs first, then names, then paths.\<close>

lemma hit_literal:
  assumes "patternLiteral (snd e) = Some (basename, lit)"
  shows "hit path isDirectory s k e d =
    (if k < d \<and> d \<le> ep_segments path \<and> depth_accepted (snd e) path isDirectory d \<and>
        (if basename then name_at path d else below path k d) = lit
     then {(s, fst e + 1, ip_negated (snd e))} else {})"
proof -
  have "ip_compiled (snd e) = (if basename then LiteralBasename lit else LiteralPath lit)"
    using assms by (auto simp: patternLiteral_def split: Compiled.splits)
  then show ?thesis by (auto simp: hit_def matched_depths_def compiled_matches_def)
qed

lemma hit_never: "ip_compiled (snd e) = Never \<Longrightarrow> hit path isDirectory s k e d = {}"
  by (simp add: hit_def matched_depths_def compiled_matches_def)

lemma hit_range: "r \<in> hit path isDirectory s k e d \<Longrightarrow> k < d \<and> d \<le> ep_segments path"
  by (auto simp: hit_def matched_depths_def split: if_splits)

lemma hit_outside: "\<not> (k < d \<and> d \<le> ep_segments path) \<Longrightarrow> hit path isDirectory s k e d = {}"
  using hit_range by (metis all_not_in_conv)

definition source_ok :: "RuleSource \<Rightarrow> IgnorePattern list \<Rightarrow> bool" where
  "source_ok source ps =
     (\<exists>bs k. source\<lparr>rs_parent := None\<rparr> = compileRuleSource bs k ps \<and> rs_depth source = k \<and>
       length ps < 2 ^ 32 - 1 \<and> (\<forall>p \<in> set ps. program_wf (ip_compiled p)))"

lemma source_ok_props:
  assumes "source_ok source ps"
  shows "set (rs_dynamic source) =
     {indexed e [] | e. e \<in> set (enumerate 0 ps) \<and> ip_compiled (snd e) \<noteq> Never \<and> patternLiteral (snd e) = None}"
  "set (bucket_of (rs_basenames source) h) =
     {indexed e lit | e lit. e \<in> set (enumerate 0 ps) \<and> patternLiteral (snd e) = Some (True, lit) \<and> hash_list sourceHashStep lit = h}"
  "set (bucket_of (rs_paths source) h) =
     {indexed e lit | e lit. e \<in> set (enumerate 0 ps) \<and> patternLiteral (snd e) = Some (False, lit) \<and> hash_list sourceHashStep lit = h}"
  "e \<in> set (enumerate 0 ps) \<Longrightarrow> fst e + 1 < 2 ^ 32 \<and> program_wf (ip_compiled (snd e))"
proof -
  obtain bs k where c: "source\<lparr>rs_parent := None\<rparr> = compileRuleSource bs k ps" "length ps < 2 ^ 32 - 1"
    "\<forall>p \<in> set ps. program_wf (ip_compiled p)" using assms by (auto simp: source_ok_def)
  have f: "rs_dynamic source = rs_dynamic (compileRuleSource bs k ps)" "rs_basenames source = rs_basenames (compileRuleSource bs k ps)"
    "rs_paths source = rs_paths (compileRuleSource bs k ps)" by (simp_all flip: c(1))
  show "set (rs_dynamic source) =
     {indexed e [] | e. e \<in> set (enumerate 0 ps) \<and> ip_compiled (snd e) \<noteq> Never \<and> patternLiteral (snd e) = None}"
    unfolding f by (rule compileRuleSource_props)
  show "set (bucket_of (rs_basenames source) h) =
     {indexed e lit | e lit. e \<in> set (enumerate 0 ps) \<and> patternLiteral (snd e) = Some (True, lit) \<and> hash_list sourceHashStep lit = h}"
    unfolding f by (rule compileRuleSource_props)
  show "set (bucket_of (rs_paths source) h) =
     {indexed e lit | e lit. e \<in> set (enumerate 0 ps) \<and> patternLiteral (snd e) = Some (False, lit) \<and> hash_list sourceHashStep lit = h}"
    unfolding f by (rule compileRuleSource_props)
  show "fst e + 1 < 2 ^ 32 \<and> program_wf (ip_compiled (snd e))" if "e \<in> set (enumerate 0 ps)"
    using that c(2,3) nth_mem [of "fst e" ps] by (auto simp: in_set_enumerate_eq)
qed

definition dynamic_rules :: "IgnorePattern list \<Rightarrow> (nat \<times> IgnorePattern) set" where
  "dynamic_rules ps = {e \<in> set (enumerate 0 ps). ip_compiled (snd e) \<noteq> Never \<and> patternLiteral (snd e) = None}"

definition literal_rules :: "IgnorePattern list \<Rightarrow> bool \<Rightarrow> (nat \<times> IgnorePattern) set" where
  "literal_rules ps basename = {e \<in> set (enumerate 0 ps). \<exists>lit. patternLiteral (snd e) = Some (basename, lit)}"

lemma all_rules: "(\<Union>e \<in> dynamic_rules ps. hit path isDirectory s k e d) \<union> (\<Union>e \<in> literal_rules ps True. hit path isDirectory s k e d) \<union>
    (\<Union>e \<in> literal_rules ps False. hit path isDirectory s k e d) = (\<Union>e \<in> set (enumerate 0 ps). hit path isDirectory s k e d)"
  (is "?l = ?r")
proof
  show "?l \<subseteq> ?r" by (auto simp: dynamic_rules_def literal_rules_def)
  show "?r \<subseteq> ?l"
  proof
    fix r assume "r \<in> ?r"
    then obtain e where e: "e \<in> set (enumerate 0 ps)" "r \<in> hit path isDirectory s k e d" by blast
    then have "ip_compiled (snd e) \<noteq> Never" using hit_never by fastforce
    moreover have "patternLiteral (snd e) = None \<or> (\<exists>b lit. patternLiteral (snd e) = Some (b, lit))" by (cases "patternLiteral (snd e)") auto
    ultimately have "e \<in> dynamic_rules ps \<or> e \<in> literal_rules ps True \<or> e \<in> literal_rules ps False"
      using e(1) by (auto simp: dynamic_rules_def literal_rules_def)
    then show "r \<in> ?l" using e(2) by blast
  qed
qed

lemma dynamic_stage:
  assumes path: "segmented path" and ok: "source_ok source ps" and s: "s < 2 ^ 32"
    and run: "foldR (dynamic_step path isDirectory k s) (rs_dynamic source) st = Inr st'"
    and inv: "query_inv (ep_segments path) st P"
  shows "query_inv (ep_segments path) st' (\<lambda>d. P d \<union> (\<Union>e \<in> dynamic_rules ps. hit path isDirectory s k e d))"
proof -
  let ?Q = "\<lambda>r. hit path isDirectory s k (ir_line r, ir_pattern r)"
  have "query_inv (ep_segments path) st' (\<lambda>d. P d \<union> (\<Union>r \<in> set (rs_dynamic source). ?Q r d))"
  proof (rule foldR_collect [where good = "query_inv (ep_segments path)", OF _ run inv])
    fix r st st' P assume r: "r \<in> set (rs_dynamic source)" "dynamic_step path isDirectory k s r st = Inr st'" "query_inv (ep_segments path) st P"
    obtain e where e: "r = indexed e []" "e \<in> set (enumerate 0 ps)" using r(1) source_ok_props(1) [OF ok] by auto
    show "query_inv (ep_segments path) st' (\<lambda>d. P d \<union> ?Q r d)"
      using dynamic_step_inv [OF path _ s _ r(2) [unfolded e(1)] r(3)] source_ok_props(4) [OF ok e(2)] e(1) by simp
  qed
  moreover have "set (rs_dynamic source) = (\<lambda>e. indexed e []) ` dynamic_rules ps"
    unfolding source_ok_props(1) [OF ok] dynamic_rules_def by blast
  ultimately show ?thesis by simp
qed

text \<open>One bucket of literal rules, compared with the name or the path at one depth.\<close>

lemma bucket_stage:
  assumes range: "start \<le> stop" "stop \<le> length (ep_bytes path)" and d: "k < d" "d \<le> ep_segments path" and s: "s < 2 ^ 32"
    and here: "slice (ep_bytes path) start stop = (if basename then name_at path d else below path k d)"
    and bucket: "set bucket = {indexed e lit | e lit. e \<in> set (enumerate 0 ps) \<and> patternLiteral (snd e) = Some (basename, lit) \<and>
      hash_list sourceHashStep lit = hash_list sourceHashStep (slice (ep_bytes path) start stop)}"
    and lines: "\<And>e. e \<in> set (enumerate 0 ps) \<Longrightarrow> fst e + 1 < 2 ^ 32"
    and run: "foldR (literal_step path isDirectory s start stop d) bucket st = Inr st'"
    and inv: "query_inv (ep_segments path) st P"
  shows "query_inv (ep_segments path) st'
    (\<lambda>d'. P d' \<union> (if d' = d then \<Union>e \<in> literal_rules ps basename. hit path isDirectory s k e d else {}))"
proof -
  let ?Q = "\<lambda>r d'. if d' = d \<and> slice (ep_bytes path) start stop = ir_literal r \<and> depth_accepted (ir_pattern r) path isDirectory d
     then {(s, ir_line r + 1, ip_negated (ir_pattern r))} else {}"
  have "query_inv (ep_segments path) st' (\<lambda>d'. P d' \<union> (\<Union>r \<in> set bucket. ?Q r d'))"
  proof (rule foldR_collect [where good = "query_inv (ep_segments path)", OF _ run inv])
    fix r st st' P assume r: "r \<in> set bucket" "literal_step path isDirectory s start stop d r st = Inr st'" "query_inv (ep_segments path) st P"
    have "ir_line r + 1 < 2 ^ 32" using r(1) bucket lines by auto
    from literal_step_inv [OF range _ d(2) s this r(2,3)] show "query_inv (ep_segments path) st' (\<lambda>d'. P d' \<union> ?Q r d')"
      using d(1) by simp
  qed
  moreover have "(\<Union>r \<in> set bucket. ?Q r d') = (if d' = d then \<Union>e \<in> literal_rules ps basename. hit path isDirectory s k e d else {})" for d'
  proof (cases "d' = d")
    case True
    have hit_eq: "hit path isDirectory s k e d = ?Q (indexed e lit) d"
      if "patternLiteral (snd e) = Some (basename, lit)" for e lit
      using hit_literal [OF that, of path isDirectory s k d] d here by auto
    have "(\<Union>r \<in> set bucket. ?Q r d) = (\<Union>e \<in> literal_rules ps basename. hit path isDirectory s k e d)"
    proof
      show "(\<Union>r \<in> set bucket. ?Q r d) \<subseteq> (\<Union>e \<in> literal_rules ps basename. hit path isDirectory s k e d)"
      proof
        fix x assume "x \<in> (\<Union>r \<in> set bucket. ?Q r d)"
        then obtain e lit where e: "e \<in> set (enumerate 0 ps)" "patternLiteral (snd e) = Some (basename, lit)" "x \<in> ?Q (indexed e lit) d"
          unfolding bucket by blast
        then have "e \<in> literal_rules ps basename" "x \<in> hit path isDirectory s k e d"
          using hit_eq [OF e(2)] by (auto simp: literal_rules_def)
        then show "x \<in> (\<Union>e \<in> literal_rules ps basename. hit path isDirectory s k e d)" by blast
      qed
      show "(\<Union>e \<in> literal_rules ps basename. hit path isDirectory s k e d) \<subseteq> (\<Union>r \<in> set bucket. ?Q r d)"
      proof
        fix x assume "x \<in> (\<Union>e \<in> literal_rules ps basename. hit path isDirectory s k e d)"
        then obtain e lit where e: "e \<in> set (enumerate 0 ps)" "patternLiteral (snd e) = Some (basename, lit)" "x \<in> ?Q (indexed e lit) d"
          using hit_eq by (auto simp: literal_rules_def)
        then have "lit = slice (ep_bytes path) start stop" by (auto split: if_splits)
        then have "indexed e lit \<in> set bucket" unfolding bucket using e by blast
        then show "x \<in> (\<Union>r \<in> set bucket. ?Q r d)" using e(3) by blast
      qed
    qed
    then show ?thesis using True by simp
  qed simp
  ultimately show ?thesis by simp
qed

lemma UN_single: "d \<in> A \<Longrightarrow> (\<Union>x \<in> A. if d = x then H x else {}) = H d"
  by (auto split: if_splits)

lemma basename_stage:
  assumes path: "segmented path" and ok: "source_ok source ps" and s: "s < 2 ^ 32"
    and hashes: "\<And>d. k < d \<Longrightarrow> d \<le> ep_segments path \<Longrightarrow> charCodeAt segmentHashes (d - 1) = Some (segment_hash path d)"
    and run: "foldR (basename_step path isDirectory source s segmentHashes) [k + 1..<ep_segments path + 1] st = Inr st'"
    and inv: "query_inv (ep_segments path) st P"
  shows "query_inv (ep_segments path) st' (\<lambda>d. P d \<union> (\<Union>e \<in> literal_rules ps True. hit path isDirectory s k e d))"
proof -
  let ?H = "\<lambda>d. \<Union>e \<in> literal_rules ps True. hit path isDirectory s k e d"
  have "query_inv (ep_segments path) st' (\<lambda>d. P d \<union> (\<Union>x \<in> set [k + 1..<ep_segments path + 1]. if d = x then ?H x else {}))"
  proof (rule foldR_collect [where good = "query_inv (ep_segments path)", OF _ run inv])
    fix d st st' P
    assume r: "d \<in> set [k + 1..<ep_segments path + 1]" "basename_step path isDirectory source s segmentHashes d st = Inr st'"
      "query_inv (ep_segments path) st P"
    have d: "k < d" "d \<le> ep_segments path" using r(1) by auto
    note f = depth_facts [OF path d]
    have h: "segment_hash path d = hash_list sourceHashStep (slice (ep_bytes path) (ep_starts path ! (d - 1)) (ep_ends path ! (d - 1)))"
      using f by (simp add: segment_hash_def hashBytes_slice)
    have run': "foldR (literal_step path isDirectory s (ep_starts path ! (d - 1)) (ep_ends path ! (d - 1)) d)
        (bucket_of (rs_basenames source) (segment_hash path d)) st = Inr st'"
      using r(2) unfolding basename_step_def hashes [OF d] option.case foldR_bucket f(1,2) .
    show "query_inv (ep_segments path) st' (\<lambda>d'. P d' \<union> (if d' = d then ?H d else {}))"
      by (rule bucket_stage [OF f(4,5) d s _ _ _ run' r(3)])
        (use source_ok_props(2,4) [OF ok] h in \<open>auto simp: name_at_def\<close>)
  qed
  moreover have "(\<Union>x \<in> set [k + 1..<ep_segments path + 1]. if d = x then ?H x else {}) = ?H d" for d
  proof (cases "k < d \<and> d \<le> ep_segments path")
    case True
    then have "d \<in> set [k + 1..<ep_segments path + 1]" by auto
    then show ?thesis by (rule UN_single)
  next
    case False
    then have "?H d = {}" using hit_outside by simp
    then show ?thesis by auto
  qed
  ultimately show ?thesis by simp
qed

lemma from_next:
  "(\<lambda>d'. (P d' \<union> (if d' = d then H d else {})) \<union> (if d + 1 \<le> d' then H d' else {})) = (\<lambda>d'. P d' \<union> (if (d :: nat) \<le> d' then H d' else {}))"
proof (rule ext)
  show "(P d' \<union> (if d' = d then H d else {})) \<union> (if d + 1 \<le> d' then H d' else {}) = P d' \<union> (if d \<le> d' then H d' else {})" for d'
    by (cases "d' = d") auto
qed

lemma path_step_bucket:
  "path_step path isDirectory source s start d (h, at, q) =
     (let stop = nat_at (ep_ends path) (d - 1) 0; h1 = extend_hash (ep_bytes path) h at stop
      in bindR (foldR (literal_step path isDirectory s start stop d) (bucket_of (rs_paths source) h1) q) (\<lambda>q1. Inr (h1, max at stop, q1)))"
  by (simp add: path_step_def bucket_of_def Let_def split: option.splits)

lemma path_stage:
  assumes path: "segmented path" and ok: "source_ok source ps" and s: "s < 2 ^ 32" and start: "start = ep_starts path ! k"
  shows "k < d \<Longrightarrow> d \<le> ep_segments path + 1 \<Longrightarrow> at = (if d = k + 1 then start else ep_ends path ! (d - 2)) \<Longrightarrow>
    h = hash_list sourceHashStep (slice (ep_bytes path) start at) \<Longrightarrow>
    foldR (path_step path isDirectory source s start) [d..<ep_segments path + 1] (h, at, q) = Inr (h', at', q') \<Longrightarrow>
    query_inv (ep_segments path) q P \<Longrightarrow>
    query_inv (ep_segments path) q' (\<lambda>d'. P d' \<union> (if d \<le> d' then \<Union>e \<in> literal_rules ps False. hit path isDirectory s k e d' else {}))"
proof (induction "ep_segments path + 1 - d" arbitrary: d at h q P)
  case 0
  then have none: "hit path isDirectory s k e d' = {}" if "d \<le> d'" for d' e using hit_outside [of k d' path] that by simp
  have "q' = q" using 0 by simp
  moreover have "(\<lambda>d'. P d' \<union> (if d \<le> d' then \<Union>e \<in> literal_rules ps False. hit path isDirectory s k e d' else {})) = P"
    using none by (intro ext) simp
  ultimately show ?case using "0.prems"(6) by simp
next
  case (Suc m)
  let ?H = "\<lambda>d. \<Union>e \<in> literal_rules ps False. hit path isDirectory s k e d"
  let ?stop = "ep_ends path ! (d - 1)"
  have d: "k < d" "d \<le> ep_segments path" using Suc.hyps(2) Suc.prems(1) by auto
  note f = depth_facts [OF path d]
  have le: "start \<le> at" "at \<le> ?stop"
  proof -
    show "start \<le> at" using Suc.prems(3) d starts_le_ends [OF path, of k "d - 2"] start by auto
    show "at \<le> ?stop"
    proof (cases "d = k + 1")
      case False
      then have "ep_starts path ! (d - 1) = ep_ends path ! (d - 2) + 1"
        using path d False spec [of "\<lambda>j. j + 1 < ep_segments path \<longrightarrow> ep_starts path ! (j + 1) = ep_ends path ! j + 1" "d - 2"]
        by (auto simp: segmented_def Let_def Suc_diff_Suc numeral_2_eq_2)
      then show ?thesis using Suc.prems(3) False f(4) by simp
    qed (use Suc.prems(3) f(6) start in simp)
  qed
  define h1 where "h1 = extend_hash (ep_bytes path) h at ?stop"
  have h1: "h1 = hash_list sourceHashStep (slice (ep_bytes path) start ?stop)"
    unfolding h1_def Suc.prems(4) extend_hash_slice [OF f(5)] using slice_append [OF le f(5)] by simp
  have upt: "[d..<ep_segments path + 1] = d # [d + 1..<ep_segments path + 1]" using d by (simp add: upt_rec)
  obtain q1 where q1: "foldR (literal_step path isDirectory s start ?stop d) (bucket_of (rs_paths source) h1) q = Inr q1"
    "foldR (path_step path isDirectory source s start) [d + 1..<ep_segments path + 1] (h1, ?stop, q1) = Inr (h', at', q')"
    using Suc.prems(5) unfolding upt foldR.simps path_step_bucket f(2) Let_def h1_def [symmetric] max_absorb2 [OF le(2)] by auto
  have "query_inv (ep_segments path) q1 (\<lambda>d'. P d' \<union> (if d' = d then ?H d else {}))"
    by (rule bucket_stage [OF _ f(5) d s _ _ _ q1(1) Suc.prems(6)])
      (use le source_ok_props(3,4) [OF ok] h1 start in \<open>auto simp: below_def\<close>)
  moreover have "?stop = (if d + 1 = k + 1 then start else ep_ends path ! (d + 1 - 2))" using d by (simp add: numeral_2_eq_2)
  moreover have "m = ep_segments path + 1 - (d + 1)" using Suc.hyps(2) by simp
  moreover have "(\<lambda>d'. (P d' \<union> (if d' = d then ?H d else {})) \<union> (if d + 1 \<le> d' then ?H d' else {})) =
      (\<lambda>d'. P d' \<union> (if d \<le> d' then ?H d' else {}))" by (rule from_next)
  ultimately show ?case using Suc.hyps(1) [of "d + 1" ?stop h1 q1 "\<lambda>d'. P d' \<union> (if d' = d then ?H d else {})"] d h1 q1(2) by simp
qed

text \<open>A source adds what its rules match, and no more.\<close>

definition source_hits :: "EncodedPath \<Rightarrow> bool \<Rightarrow> nat \<Rightarrow> nat \<Rightarrow> IgnorePattern list \<Rightarrow> nat \<Rightarrow> (nat \<times> nat \<times> bool) set" where
  "source_hits path isDirectory s k ps d = (\<Union>e \<in> set (enumerate 0 ps). hit path isDirectory s k e d)"

lemma no_literal_rules:
  assumes ok: "source_ok source ps"
  shows "rs_basenames source = [] \<Longrightarrow> literal_rules ps True = {}" "rs_paths source = [] \<Longrightarrow> literal_rules ps False = {}"
  using source_ok_props(2,3) [OF ok] by (fastforce simp: literal_rules_def)+

lemma apply_source_inv:
  assumes path: "segmented path" and ok: "source_ok source ps" and s: "s < 2 ^ 32"
    and hashes: "\<And>d. rs_basenames source \<noteq> [] \<Longrightarrow> rs_depth source < d \<Longrightarrow> d \<le> ep_segments path \<Longrightarrow>
      charCodeAt segmentHashes (d - 1) = Some (segment_hash path d)"
    and run: "apply_source path isDirectory segmentHashes (s, source) st = Inr st'"
    and inv: "query_inv (ep_segments path) st P"
  shows "query_inv (ep_segments path) st' (\<lambda>d. P d \<union> source_hits path isDirectory s (rs_depth source) ps d)"
proof -
  let ?k = "rs_depth source" and ?n = "ep_segments path"
  let ?D = "\<lambda>d. \<Union>e \<in> dynamic_rules ps. hit path isDirectory s ?k e d"
  let ?L = "\<lambda>b d. \<Union>e \<in> literal_rules ps b. hit path isDirectory s ?k e d"
  let ?start = "nat_at (ep_starts path) ?k 0"
  obtain st1 st2 where r: "foldR (dynamic_step path isDirectory ?k s) (rs_dynamic source) st = Inr st1"
    "(if rs_basenames source \<noteq> [] then foldR (basename_step path isDirectory source s segmentHashes) [?k + 1..<?n + 1] st1 else Inr st1) = Inr st2"
    "(if rs_paths source \<noteq> [] then bindR (foldR (path_step path isDirectory source s ?start) [?k + 1..<?n + 1] (SOURCE_HASH_INITIAL, ?start, st2))
        (\<lambda>(_, _, st3). Inr st3) else Inr st2) = Inr st'"
    using run unfolding apply_source_def Let_def prod.case bindR_Inr_iff by blast
  have i1: "query_inv ?n st1 (\<lambda>d. P d \<union> ?D d)" by (rule dynamic_stage [OF path ok s r(1) inv])
  have i2: "query_inv ?n st2 (\<lambda>d. (P d \<union> ?D d) \<union> ?L True d)"
  proof (cases "rs_basenames source = []")
    case True
    then show ?thesis using r(2) i1 no_literal_rules(1) [OF ok] by simp
  next
    case False
    then have "foldR (basename_step path isDirectory source s segmentHashes) [?k + 1..<?n + 1] st1 = Inr st2" using r(2) by (simp del: upt_Suc)
    from basename_stage [OF path ok s hashes [OF False] this i1] show ?thesis by simp
  qed
  have "query_inv ?n st' (\<lambda>d. ((P d \<union> ?D d) \<union> ?L True d) \<union> ?L False d)"
  proof (cases "rs_paths source = []")
    case True
    then show ?thesis using r(3) i2 no_literal_rules(2) [OF ok] by simp
  next
    case False
    then obtain h at where run3: "foldR (path_step path isDirectory source s ?start) [?k + 1..<?n + 1] (SOURCE_HASH_INITIAL, ?start, st2) = Inr (h, at, st')"
      using r(3) by (auto simp del: upt_Suc)
    show ?thesis
    proof (cases "?k < ?n")
      case True
      have start: "?start = ep_starts path ! ?k" using depth_facts(7) [OF path, of ?k "?k + 1" 0] True by simp
      have "query_inv ?n st' (\<lambda>d. ((P d \<union> ?D d) \<union> ?L True d) \<union> (if ?k + 1 \<le> d then ?L False d else {}))"
        by (rule path_stage [OF path ok s start _ _ _ _ run3 i2]) (use True in \<open>auto simp: hash_list_def slice_def\<close>)
      moreover have "(if ?k + 1 \<le> d then ?L False d else {}) = ?L False d" for d
        using hit_outside [of ?k d path] by simp
      ultimately show ?thesis by simp
    next
      case False
      then have "st' = st2" using run3 by simp
      moreover have "?L False d = {}" for d using hit_outside [of ?k d path] False by simp
      ultimately show ?thesis using i2 by simp
    qed
  qed
  moreover have "((P d \<union> ?D d) \<union> ?L True d) \<union> ?L False d = P d \<union> source_hits path isDirectory s ?k ps d" for d
    unfolding source_hits_def all_rules [symmetric] by (simp add: Un_assoc)
  ultimately show ?thesis by simp
qed

end
