(* ===== verification/IgnoreVerdict.thy ===== *)
theory IgnoreVerdict
  imports IgnoreCorrect
begin

text \<open>
  Queries of the worktree matcher from end to end. The sources that apply to a path are the rule files of the directories
  on the way to it, although the index finds them by hash and skips the bytes of a parent it has verified; of all their
  rules that match at a depth the last one decides; and a loaded matcher has only rules the compiler made.
\<close>

section \<open>Directories\<close>

lemma code_points_append_plain:
  "\<not> is_high c \<Longrightarrow> \<not> is_low c \<Longrightarrow> code_points (p @ c # q) = code_points p @ code_points (c # q)"
proof (induction p rule: units_induct)
  case (LoneHigh u us)
  then have "\<And>v vs. us @ c # q = v # vs \<Longrightarrow> \<not> is_low v" by (cases us) auto
  then show ?case using LoneHigh by (simp add: code_points_cases(2))
qed (simp_all add: code_points_cases)

lemma utf8_encode_append_slash: "utf8_encode (p @ slash # q) = utf8_encode p @ SLASH # utf8_encode q"
proof -
  have s: "\<not> is_high slash" "\<not> is_low slash" by (simp_all add: is_high_def is_low_def)
  have "encode_point (unat slash) = [SLASH]" by (simp add: encode_point_def SLASH_def)
  then show ?thesis using code_points_append_plain [OF s, of p q] by (simp add: utf8_encode_def code_points_cases(4) [OF s])
qed

lemma utf8_encode_eq_Nil [simp]: "utf8_encode s = [] \<longleftrightarrow> s = []"
proof
  assume "utf8_encode s = []"
  then have "code_points s = []" by (cases "code_points s") (auto simp: utf8_encode_def encode_point_def split: if_splits)
  then show "s = []" by (induction s rule: units_induct) (simp_all add: code_points_cases)
qed simp

lemma lastIndexOf_Some: "lastIndexOf xs c = Some k \<Longrightarrow> k < length xs \<and> xs ! k = c"
  by (induction xs arbitrary: k) (auto split: option.splits if_splits)

lemma last_slash_Some: "last_slash dir from = Some k \<Longrightarrow> k < length dir \<and> dir ! k = slash"
  unfolding last_slash_def by (drule lastIndexOf_Some) auto

lemma parent_loop_found:
  assumes "parent_loop by_dir dir at = Some r" "\<And>k. at = Some k \<Longrightarrow> k < length dir \<and> dir ! k = slash" "r = Some i"
  shows "\<exists>k < length dir. dir ! k = slash \<and> map_of by_dir (take k dir) = Some i"
proof -
  have "(\<forall>k. at = Some k \<longrightarrow> k < length dir \<and> dir ! k = slash) \<longrightarrow>
      (\<forall>i. r = Some i \<longrightarrow> (\<exists>k < length dir. dir ! k = slash \<and> map_of by_dir (take k dir) = Some i))"
  proof (rule parent_loop.raw_induct [OF _ assms(1), where P = "\<lambda>by_dir dir at r. (\<forall>k. at = Some k \<longrightarrow> k < length dir \<and> dir ! k = slash) \<longrightarrow>
      (\<forall>i. r = Some i \<longrightarrow> (\<exists>k < length dir. dir ! k = slash \<and> map_of by_dir (take k dir) = Some i))"], goal_cases)
    case (1 loop by_dir dir at r)
    then show ?case using last_slash_Some by (cases at) (auto split: option.splits)
  qed
  then show ?thesis using assms(2,3) by blast
qed

text \<open>The parent of a source is a directory above it.\<close>

lemma parent_of_prefix:
  assumes "parent_of by_dir dir = Some (Some i)"
  shows "\<exists>parent rest. map_of by_dir parent = Some i \<and> utf8_encode dir = utf8_encode parent @ SLASH # rest"
proof -
  obtain k where k: "k < length dir" "dir ! k = slash" "map_of by_dir (take k dir) = Some i"
    using parent_loop_found [OF assms [unfolded parent_of_def] lastIndexOf_Some refl] by blast
  have "dir = take k dir @ slash # drop (Suc k) dir" using id_take_nth_drop [OF k(1)] k(2) by simp
  then show ?thesis using k(3) utf8_encode_append_slash by metis
qed

section \<open>The index\<close>

lemma index_source_buckets:
  "bucket_of (si_buckets (fold (index_source hs) es ix)) h =
     bucket_of (si_buckets ix) h @ map fst (filter (\<lambda>(i, source). hash_list hs (rs_bytes source) = h) es)"
  "si_sources (fold (index_source hs) es ix) = si_sources ix"
proof (induction es arbitrary: ix)
  case (Cons e es)
  {
    case 1
    show ?case using Cons(1) by (cases e) (simp add: index_source_def Let_def bucket_addIndexed hash_list_def)
  next
    case 2
    show ?case using Cons(2) by (cases e) (simp add: index_source_def Let_def)
  }
qed simp_all

lemma enumerate_nth: "enumerate 0 xs = map (\<lambda>i. (i, xs ! i)) [0..<length xs]"
  by (rule nth_equalityI) (simp_all add: nth_enumerate_eq)

lemma newSourceIndex_bucket:
  "bucket_of (si_buckets (newSourceIndex sources hs)) h = filter (\<lambda>i. hash_list hs (rs_bytes (sources ! i)) = h) [0..<length sources]"
  "si_sources (newSourceIndex sources hs) = sources"
  unfolding newSourceIndex_def index_source_buckets by (simp_all add: enumerate_nth filter_map comp_def)

text \<open>The parent of every source holds a prefix of its bytes.\<close>

definition linked :: "RuleSource list \<Rightarrow> bool" where
  "linked sources = (\<forall>i < length sources. \<forall>p. rs_parent (sources ! i) = Some p \<longrightarrow>
     p < length sources \<and> (\<exists>rest. rs_bytes (sources ! i) = rs_bytes (sources ! p) @ rest))"

lemma equal_suffix_iff: "equal_suffix left right is = (\<forall>i \<in> set is. byte_at left i = byte_at right i)"
  by (induction "is") auto

lemma sourceSuffixEqual_iff:
  assumes "length right \<le> length left" "start \<le> length right" "take start left = take start right"
  shows "sourceSuffixEqual left right start \<longleftrightarrow> right = take (length right) left"
proof -
  have "sourceSuffixEqual left right start \<longleftrightarrow> (\<forall>i \<in> {start..<length right}. left ! i = right ! i)"
    using assms(1) by (auto simp: sourceSuffixEqual_def equal_suffix_iff charCodeAt_def)
  moreover have "left ! i = right ! i" if "i < start" for i
    using assms that by (metis nth_take)
  ultimately have "sourceSuffixEqual left right start \<longleftrightarrow> (\<forall>i < length right. left ! i = right ! i)"
    by (auto simp: not_less)
  also have "\<dots> \<longleftrightarrow> right = take (length right) left" using assms(1) by (auto simp: list_eq_iff_nth_eq)
  finally show ?thesis .
qed

definition prefix_found :: "RuleSource list \<Rightarrow> bytes \<Rightarrow> nat list \<Rightarrow> bool" where
  "prefix_found sources bs found =
     (\<forall>i \<in> set found. i < length sources \<and> (\<exists>rest. bs = rs_bytes (sources ! i) @ rest))"

lemma candidate_step_found:
  assumes index: "si_sources index = sources" "linked sources" and i: "i < length sources" and at: "at < length bs"
    and found: "prefix_found sources bs (fs_found st)" and run: "candidate_step index bs at i st = Inr st'"
  shows "fs_found st' = fs_found st @ (if rs_bytes (sources ! i) = take (at + 1) bs then [i] else [])"
    "fs_hash st' = fs_hash st"
proof -
  let ?bytes = "rs_bytes (sources ! i)" and ?v = "verified_bytes sources (fs_found st) (sources ! i)"
  have v: "?v \<le> length ?bytes \<and> take ?v bs = take ?v ?bytes"
  proof (cases "rs_parent (sources ! i)")
    case (Some p)
    then obtain rest where "?bytes = rs_bytes (sources ! p) @ rest" using index(2) i by (auto simp: linked_def)
    moreover have "\<exists>rest. bs = rs_bytes (sources ! p) @ rest" if "p \<in> set (fs_found st)" using found that by (simp add: prefix_found_def)
    ultimately show ?thesis using Some by (auto simp: verified_bytes_def)
  qed (simp add: verified_bytes_def)
  have "sourceSuffixEqual bs ?bytes ?v \<longleftrightarrow> ?bytes = take (at + 1) bs" if "length ?bytes = at + 1"
    using sourceSuffixEqual_iff [of ?bytes bs ?v] v that at by simp
  then show "fs_found st' = fs_found st @ (if rs_bytes (sources ! i) = take (at + 1) bs then [i] else [])" "fs_hash st' = fs_hash st"
    using run at unfolding candidate_step_def index(1) Let_def by (auto simp: addWork_def Let_def split: if_splits)
qed

lemma candidates_found:
  assumes index: "si_sources index = sources" "linked sources" and at: "at < length bs"
  shows "(\<forall>i \<in> set is. i < length sources) \<Longrightarrow> prefix_found sources bs (fs_found st) \<Longrightarrow>
    foldR (candidate_step index bs at) is st = Inr st' \<Longrightarrow>
    fs_found st' = fs_found st @ filter (\<lambda>i. rs_bytes (sources ! i) = take (at + 1) bs) is \<and> fs_hash st' = fs_hash st \<and>
    prefix_found sources bs (fs_found st')"
proof (induction "is" arbitrary: st)
  case (Cons i "is")
  from Cons.prems(3) obtain s where s: "candidate_step index bs at i st = Inr s" "foldR (candidate_step index bs at) is s = Inr st'" by auto
  have i: "i < length sources" using Cons.prems(1) by simp
  note c = candidate_step_found [OF index i at Cons.prems(2) s(1)]
  have "prefix_found sources bs (fs_found s)"
    using Cons.prems(2) c(1) i by (auto simp: prefix_found_def intro: exI [of _ "drop (at + 1) bs"])
  from Cons.IH [OF _ this s(2)] c Cons.prems(1) show ?case by auto
qed simp

text \<open>The sources found are those of the directories on the way, from the top down.\<close>

definition dirs_above :: "bytes \<Rightarrow> bytes list" where
  "dirs_above bs = map (\<lambda>i. take i bs) (filter (\<lambda>i. bs ! i = SLASH) [1..<length bs])"

definition found_at :: "RuleSource list \<Rightarrow> bytes \<Rightarrow> nat \<Rightarrow> nat list" where
  "found_at sources bs at =
     (if byte_at bs (at + 1) = Some SLASH then filter (\<lambda>i. rs_bytes (sources ! i) = take (at + 1) bs) [0..<length sources] else [])"

lemma find_step_found:
  assumes index: "index = newSourceIndex sources hs" "linked sources" and at: "at < length bs"
    and h: "fs_hash st = hash_list hs (take at bs)" and found: "prefix_found sources bs (fs_found st)"
    and run: "find_step index hs bs at st = Inr st'"
  shows "fs_found st' = fs_found st @ found_at sources bs at \<and> fs_hash st' = hash_list hs (take (at + 1) bs) \<and>
    prefix_found sources bs (fs_found st')"
proof -
  have h1: "hs (fs_hash st) (case byte_at bs at of None \<Rightarrow> 0 | Some b \<Rightarrow> b) = hash_list hs (take (at + 1) bs)"
    using h at by (simp add: charCodeAt_def take_Suc_conv_app_nth hash_list_def)
  let ?st = "st\<lparr>fs_hash := hash_list hs (take (at + 1) bs)\<rparr>"
  let ?bucket = "bucket_of (si_buckets index) (hash_list hs (take (at + 1) bs))"
  show ?thesis
  proof (cases "byte_at bs (at + 1) = Some SLASH")
    case True
    then have "foldR (candidate_step index bs at) ?bucket ?st = Inr st'"
      using run unfolding find_step_def h1 Let_def foldR_bucket [symmetric] by simp
    from candidates_found [OF _ index(2) at _ _ this] have "fs_found st' = fs_found st @ filter (\<lambda>i. rs_bytes (sources ! i) = take (at + 1) bs) ?bucket \<and>
        fs_hash st' = hash_list hs (take (at + 1) bs) \<and> prefix_found sources bs (fs_found st')"
      using found by (auto simp: index(1) newSourceIndex_bucket)
    moreover have "filter (\<lambda>i. rs_bytes (sources ! i) = take (at + 1) bs) ?bucket = found_at sources bs at"
      using True by (simp add: index(1) newSourceIndex_bucket found_at_def conj_commute cong: conj_cong)
    ultimately show ?thesis by auto
  next
    case False
    then show ?thesis using run found h1 unfolding find_step_def Let_def by (auto simp: found_at_def)
  qed
qed

lemma find_found:
  assumes index: "index = newSourceIndex sources hs" "linked sources"
    and run: "foldR (find_step index hs bs) [0..<n] st = Inr st'" and n: "n \<le> length bs"
    and st: "fs_found st = []" "fs_hash st = SOURCE_HASH_INITIAL"
  shows "fs_found st' = concat (map (found_at sources bs) [0..<n]) \<and> fs_hash st' = hash_list hs (take n bs) \<and>
    prefix_found sources bs (fs_found st')"
  using run n
proof (induction n arbitrary: st')
  case 0
  then show ?case using st by (simp add: hash_list_def prefix_found_def)
next
  case (Suc n)
  then obtain s where s: "foldR (find_step index hs bs) [0..<n] st = Inr s" "find_step index hs bs n s = Inr st'" by auto
  have IH: "fs_found s = concat (map (found_at sources bs) [0..<n])" "fs_hash s = hash_list hs (take n bs)"
    "prefix_found sources bs (fs_found s)" using Suc.IH [OF s(1)] Suc.prems(2) by auto
  show ?case using find_step_found [OF index _ IH(2,3) s(2)] IH(1) Suc.prems(2) by auto
qed

lemma concat_if_filter: "concat (map (\<lambda>x. if P x then f x else []) xs) = concat (map f (filter P xs))"
  by (induction xs) auto

lemma found_at_dirs:
  "map ((!) sources) (concat (map (found_at sources bs) [0..<length bs])) =
     concat (map (\<lambda>dir. filter (\<lambda>source. rs_bytes source = dir) sources) (dirs_above bs))"
proof -
  have all: "map ((!) sources) [0..<length sources] = sources" by (rule map_nth)
  have one: "map ((!) sources) (filter (\<lambda>i. rs_bytes (sources ! i) = dir) [0..<length sources]) = filter (\<lambda>source. rs_bytes source = dir) sources" for dir
    using filter_map [of "\<lambda>source. rs_bytes source = dir" "(!) sources" "[0..<length sources]"] by (simp add: all comp_def)
  have "map ((!) sources) (concat (map (found_at sources bs) [0..<length bs])) =
      concat (map (\<lambda>at. if byte_at bs (at + 1) = Some SLASH then filter (\<lambda>source. rs_bytes source = take (at + 1) bs) sources else []) [0..<length bs])"
    unfolding map_concat by (auto simp: found_at_def one intro!: arg_cong [where f = concat])
  also have "\<dots> = concat (map (\<lambda>at. filter (\<lambda>source. rs_bytes source = take (at + 1) bs) sources) (filter (\<lambda>at. byte_at bs (at + 1) = Some SLASH) [0..<length bs]))"
    by (rule concat_if_filter)
  also have "filter (\<lambda>at. byte_at bs (at + 1) = Some SLASH) [0..<length bs] = filter (\<lambda>at. bs ! (at + 1) = SLASH) [0..<length bs - 1]"
  proof (cases bs)
    case (Cons b bs')
    then have "[0..<length bs] = [0..<length bs - 1] @ [length bs - 1]" by simp
    then show ?thesis using Cons by (auto simp: charCodeAt_def intro!: filter_cong)
  qed simp
  also have "concat (map (\<lambda>at. filter (\<lambda>source. rs_bytes source = take (at + 1) bs) sources) (filter (\<lambda>at. bs ! (at + 1) = SLASH) [0..<length bs - 1])) =
      concat (map (\<lambda>dir. filter (\<lambda>source. rs_bytes source = dir) sources) (dirs_above bs))"
  proof -
    have "[1..<length bs] = map Suc [0..<length bs - 1]" by (cases "length bs") (simp_all add: map_Suc_upt del: upt_Suc)
    then show ?thesis by (simp add: dirs_above_def filter_map comp_def)
  qed
  finally show ?thesis .
qed

lemma find_step_work:
  assumes "find_step index hs bs at st = Inr st'" "fs_work st \<le> limit_requestCpuWork"
  shows "fs_work st' \<le> limit_requestCpuWork"
proof -
  have candidate: "fs_work s' \<le> limit_requestCpuWork" if "candidate_step index bs at i s = Inr s'" for i s s'
    using that by (auto simp: candidate_step_def addWork_def Let_def split: if_splits)
  have "fs_work s' \<le> limit_requestCpuWork" if "foldR (candidate_step index bs at) is s = Inr s'" "fs_work s \<le> limit_requestCpuWork" for "is" s s'
    by (rule foldR_invariant [OF that(1)]) (use that(2) candidate in auto)
  then show ?thesis using assms by (auto simp: find_step_def Let_def split: if_splits option.splits)
qed

lemma applicable_dirs:
  assumes "linked sources" "applicable (newSourceIndex sources hs) hs bs work = Inr (found, work')" "work \<le> limit_requestCpuWork"
  shows "found = concat (map (\<lambda>dir. filter (\<lambda>source. rs_bytes source = dir) sources) (dirs_above bs))" "work' \<le> limit_requestCpuWork"
proof -
  let ?ix = "newSourceIndex sources hs"
  have none: "sources = []" if "si_buckets ?ix = []"
  proof (rule ccontr)
    assume "sources \<noteq> []"
    then have "0 \<in> set (bucket_of (si_buckets ?ix) (hash_list hs (rs_bytes (sources ! 0))))" by (simp add: newSourceIndex_bucket)
    then show False using that by simp
  qed
  have "found = concat (map (\<lambda>dir. filter (\<lambda>source. rs_bytes source = dir) sources) (dirs_above bs)) \<and> work' \<le> limit_requestCpuWork"
  proof (cases "si_buckets ?ix = []")
    case True
    then show ?thesis using assms(2,3) none by (simp add: applicable_def)
  next
    case False
    then obtain w st where st: "foldR (find_step ?ix hs bs) [0..<length bs] \<lparr>fs_work = w, fs_found = [], fs_hash = SOURCE_HASH_INITIAL\<rparr> = Inr st"
      "found = map ((!) sources) (fs_found st)" "work' = fs_work st" "w \<le> limit_requestCpuWork"
      using assms(2) by (auto simp: applicable_def newSourceIndex_bucket addWork_def Let_def split: if_splits)
    have "fs_work st \<le> limit_requestCpuWork"
      by (rule foldR_invariant [OF st(1)]) (use st(4) find_step_work in auto)
    then show ?thesis using find_found [OF refl assms(1) st(1)] found_at_dirs st(2,3) by simp
  qed
  then show "found = concat (map (\<lambda>dir. filter (\<lambda>source. rs_bytes source = dir) sources) (dirs_above bs))" "work' \<le> limit_requestCpuWork" by auto
qed

section \<open>Construction\<close>

lemma link_parents_props:
  "link_parents by_dir entries = Some sources \<Longrightarrow>
   list_all2 (\<lambda>(dir, source) linked_source. \<exists>parent. parent_of by_dir dir = Some parent \<and> linked_source = source\<lparr>rs_parent := parent\<rparr>) entries sources"
  by (induction by_dir entries arbitrary: sources rule: link_parents.induct) (auto split: option.splits)

lemma source_of_bytes: "rs_bytes (source_of (dir, ps)) = utf8_encode dir"
  "rs_depth (source_of (dir, ps)) = (if dir = [] then 0 else count_slashes (utf8_encode dir) + 1)"
  by (simp_all add: source_of_def Let_def compileRuleSource_props count_slashes_def)

text \<open>The linked sources keep the directories of the rules, in their order.\<close>

lemma below_root_eq: "below_root rules = map (\<lambda>entry. (fst entry, source_of entry)) (filter (\<lambda>(dir, _). dir \<noteq> []) rules)"
  by (simp add: below_root_def case_prod_unfold)

lemma map_of_enumerate: "map_of (map (\<lambda>(i, dir, _). (dir, i)) (enumerate n xs)) dir = Some i \<Longrightarrow> i - n < length xs \<and> n \<le> i \<and> fst (xs ! (i - n)) = dir"
  by (drule map_of_SomeD) (auto simp: in_set_enumerate_eq)

lemma sources_linked:
  assumes links: "link_parents (map (\<lambda>(i, dir, _). (dir, i)) (enumerate 0 entries)) entries = Some sources"
    and bytes: "\<And>dir source. (dir, source) \<in> set entries \<Longrightarrow> rs_bytes source = utf8_encode dir"
  shows "linked sources"
proof -
  note rel = link_parents_props [OF links]
  have len: "length entries = length sources" using rel by (rule list_all2_lengthD)
  have each: "\<exists>parent. parent_of (map (\<lambda>(i, dir, _). (dir, i)) (enumerate 0 entries)) (fst (entries ! i)) = Some parent \<and>
      sources ! i = (snd (entries ! i))\<lparr>rs_parent := parent\<rparr>" if "i < length sources" for i
    using list_all2_nthD2 [OF rel that] by (simp add: case_prod_unfold)
  have b: "rs_bytes (sources ! i) = utf8_encode (fst (entries ! i))" if "i < length sources" for i
    using each [OF that] bytes [of "fst (entries ! i)" "snd (entries ! i)"] that len by (auto simp: nth_mem)
  show ?thesis unfolding linked_def
  proof (intro allI impI)
    fix i p assume i: "i < length sources" and p: "rs_parent (sources ! i) = Some p"
    obtain parent rest where par: "map_of (map (\<lambda>(i, dir, _). (dir, i)) (enumerate 0 entries)) parent = Some p"
      "utf8_encode (fst (entries ! i)) = utf8_encode parent @ SLASH # rest"
      using each [OF i] p parent_of_prefix by fastforce
    have "p < length sources" "fst (entries ! p) = parent" using map_of_enumerate [OF par(1)] len by auto
    then show "p < length sources \<and> (\<exists>rest. rs_bytes (sources ! i) = rs_bytes (sources ! p) @ rest)"
      using b [OF i] b [of p] par(2) by auto
  qed
qed

lemma root_source_distinct:
  assumes "distinct (map fst rules)"
  shows "(case root_source rules of None \<Rightarrow> [] | Some root \<Rightarrow> [root]) = map source_of (filter (\<lambda>(dir, _). dir = []) rules)"
proof -
  have keep: "fold (\<lambda>entry root. if utf8_encode (fst entry) = [] then Some (source_of entry) else root) xs r = r"
    if "[] \<notin> set (map fst xs)" for xs r using that by (induction xs arbitrary: r) auto
  show ?thesis using assms
  proof (induction rules)
    case (Cons e rules)
    show ?case
    proof (cases "fst e = []")
      case True
      then have "[] \<notin> set (map fst rules)" using Cons.prems by auto
      moreover have "filter (\<lambda>(dir, _). dir = []) rules = []" using calculation by (force simp: filter_empty_conv)
      ultimately show ?thesis using keep True by (cases e) (simp add: root_source_def)
    next
      case False
      then show ?thesis using Cons by (cases e) (simp add: root_source_def)
    qed
  qed (simp add: root_source_def)
qed

section \<open>The last match decides\<close>

definition rule_sources :: "rules \<Rightarrow> IgnorePattern list \<Rightarrow> bytes \<Rightarrow> (nat \<times> IgnorePattern list) list" where
  "rule_sources rules extra bs =
     (0, extra) # map (\<lambda>(_, ps). (0, ps)) (filter (\<lambda>(dir, _). dir = []) rules) @
     concat (map (\<lambda>dir. map (\<lambda>(_, ps). (count_slashes dir + 1, ps)) (filter (\<lambda>(key, _). utf8_encode key = dir) rules)) (dirs_above bs))"

definition last_verdict :: "(nat \<times> IgnorePattern list) list \<Rightarrow> EncodedPath \<Rightarrow> bool \<Rightarrow> nat \<Rightarrow> bool" where
  "last_verdict sources path isDirectory d =
     (case rev (filter (\<lambda>(k, p). d \<in> matched_depths p path k isDirectory) (concat (map (\<lambda>(k, ps). map (Pair k) ps) sources))) of
        [] \<Rightarrow> False
      | (_, p) # _ \<Rightarrow> \<not> ip_negated p)"

text \<open>The rules of all sources with their ranks, in the order of the ranks.\<close>

definition ranked :: "nat \<Rightarrow> (nat \<times> IgnorePattern list) list \<Rightarrow> (nat \<times> nat \<times> nat \<times> IgnorePattern) list" where
  "ranked r sources = concat (map (\<lambda>(s, k, ps). map (\<lambda>(l, p). (s, l + 1, k, p)) (enumerate 0 ps)) (enumerate r sources))"

definition rank_less :: "nat \<times> nat \<times> 'a \<Rightarrow> nat \<times> nat \<times> 'a \<Rightarrow> bool" where
  "rank_less x y = (fst x < fst y \<or> fst x = fst y \<and> fst (snd x) < fst (snd y))"

lemma ranked_Nil [simp]: "ranked r [] = []"
  by (simp add: ranked_def)

lemma ranked_Cons: "ranked r ((k, ps) # sources) = map (\<lambda>(l, p). (r, l + 1, k, p)) (enumerate 0 ps) @ ranked (Suc r) sources"
  by (simp add: ranked_def)

lemma ranked_sorted: "sorted_wrt rank_less (ranked r sources)"
proof (induction sources arbitrary: r)
  case (Cons source sources)
  obtain k ps where source: "source = (k, ps)" by fastforce
  have "sorted_wrt rank_less (map (\<lambda>(l, p). (r, l + 1, k, p)) (enumerate n ps))" for n
    by (induction ps arbitrary: n) (auto simp: rank_less_def in_set_enumerate_eq)
  moreover have "r < fst x" if "x \<in> set (ranked (Suc r) sources)" for x
    using that by (auto simp: ranked_def in_set_enumerate_eq)
  ultimately show ?case
    unfolding source ranked_Cons sorted_wrt_append using Cons.IH [of "Suc r"] by (auto simp: rank_less_def [of "(_, _)"])
qed simp

lemma ranked_flat: "map (\<lambda>(s, l, k, p). (k, p)) (ranked r sources) = concat (map (\<lambda>(k, ps). map (Pair k) ps) sources)"
proof (induction sources arbitrary: r)
  case (Cons source sources)
  obtain k ps where source: "source = (k, ps)" by fastforce
  have "map (\<lambda>x. (k, snd x)) (enumerate n ps) = map (Pair k) ps" for n
    by (induction ps arbitrary: n) auto
  then show ?case using Cons.IH [of "Suc r"] by (simp add: ranked_Cons source comp_def case_prod_unfold)
qed simp

lemma rev_case_last: "(case rev (map f xs) of [] \<Rightarrow> False | (_, p) # _ \<Rightarrow> Q p) \<longleftrightarrow> xs \<noteq> [] \<and> Q (snd (f (last xs)))"
  by (cases xs rule: rev_cases) (auto split: prod.splits)

lemma last_of_sorted:
  assumes "sorted_wrt rank_less xs" "x \<in> set xs" "\<forall>y \<in> set xs. \<not> rank_less x y"
  shows "last xs = x"
proof -
  obtain ys zs where xs: "xs = ys @ x # zs" using split_list [OF assms(2)] by blast
  then have "zs = []" using assms(1,3) by (cases zs) (auto simp: sorted_wrt_append)
  then show ?thesis using xs by simp
qed

lemma hits_ranked:
  "(\<Union>(s, k, ps) \<in> set (enumerate r sources). source_hits path isDirectory s k ps d) =
     (\<lambda>(s, l, k, p). (s, l, ip_negated p)) ` set (filter (\<lambda>(s, l, k, p). d \<in> matched_depths p path k isDirectory) (ranked r sources))"
proof (induction sources arbitrary: r)
  case (Cons source sources)
  obtain k ps where source: "source = (k, ps)" by fastforce
  have "source_hits path isDirectory r k ps d = (\<lambda>(s, l, k, p). (s, l, ip_negated p)) `
      set (filter (\<lambda>(s, l, k, p). d \<in> matched_depths p path k isDirectory) (map (\<lambda>(l, p). (r, l + 1, k, p)) (enumerate 0 ps)))"
    unfolding source_hits_def hit_def by (auto simp: image_iff split: if_splits) force+
  then show ?case using Cons.IH [of "Suc r"] by (simp add: source ranked_Cons image_Un)
qed simp

lemma best_verdict:
  assumes b: "best (\<Union>(s, k, ps) \<in> set (enumerate 1 sources). source_hits path isDirectory s k ps d) s l dec"
  shows "dec = 2 \<longleftrightarrow> last_verdict sources path isDirectory d"
proof -
  let ?M = "\<Union>(s, k, ps) \<in> set (enumerate 1 sources). source_hits path isDirectory s k ps d"
  let ?Q = "\<lambda>(s, l, k, p). d \<in> matched_depths p path k isDirectory"
  let ?xs = "filter ?Q (ranked 1 sources)"
  have M: "?M = (\<lambda>(s, l, k, p). (s, l, ip_negated p)) ` set ?xs"
    by (rule hits_ranked)
  have "filter (\<lambda>(k, p). d \<in> matched_depths p path k isDirectory) (concat (map (\<lambda>(k, ps). map (Pair k) ps) sources)) = map (\<lambda>(s, l, k, p). (k, p)) ?xs"
    unfolding ranked_flat [of 1, symmetric] filter_map by (simp add: comp_def case_prod_unfold)
  then have v: "last_verdict sources path isDirectory d \<longleftrightarrow> ?xs \<noteq> [] \<and> \<not> ip_negated (snd (snd (snd (last ?xs))))"
    unfolding last_verdict_def by (simp only: rev_case_last) (simp add: case_prod_unfold)
  show ?thesis
  proof (cases "?xs = []")
    case True
    then have "?M = {}" unfolding M by simp
    then show ?thesis using b v True by (simp add: best_def)
  next
    case False
    then have "?M \<noteq> {}" unfolding M image_is_empty set_empty .
    then obtain neg where n: "(s, l, neg) \<in> ?M" "dec = (if neg then 1 else 2)" "\<forall>(s', l', neg') \<in> ?M. s' < s \<or> s' = s \<and> l' \<le> l"
      using b unfolding best_def by blast
    obtain k p where x: "(s, l, k, p) \<in> set ?xs" "neg = ip_negated p" using n(1) unfolding M by fastforce
    have "\<forall>y \<in> set ?xs. \<not> rank_less (s, l, k, p) y" using n(3) unfolding M by (fastforce simp: rank_less_def)
    then have "last ?xs = (s, l, k, p)" using last_of_sorted [OF sorted_wrt_filter [OF ranked_sorted] x(1)] by blast
    then show ?thesis using v False n(2) x(2) by simp
  qed
qed

section \<open>Queries\<close>

definition compiled_rules :: "IgnorePattern list \<Rightarrow> bool" where
  "compiled_rules ps = (length ps < 2 ^ 32 - 1 \<and> (\<forall>p \<in> set ps. program_wf (ip_compiled p)))"

lemma compileRuleSource_no_parent: "(compileRuleSource bs k ps)\<lparr>rs_parent := None\<rparr> = compileRuleSource bs k ps"
  using compileRuleSource_props(3) [of bs k ps] by (cases "compileRuleSource bs k ps") simp

lemma source_ok_compiled: "compiled_rules ps \<Longrightarrow> source_ok (compileRuleSource bs k ps) ps"
  by (auto simp: source_ok_def compiled_rules_def compileRuleSource_props compileRuleSource_no_parent)

lemma source_ok_source_of: "compiled_rules ps \<Longrightarrow> source_ok (source_of (dir, ps)) ps"
  by (simp add: source_of_def Let_def source_ok_compiled)

lemma source_ok_parent: "source_ok (source\<lparr>rs_parent := parent\<rparr>) ps = source_ok source ps"
  by (simp add: source_ok_def)

text \<open>A source of the query stands for a rule file: its depth and its patterns.\<close>

definition stands :: "RuleSource \<Rightarrow> nat \<times> IgnorePattern list \<Rightarrow> bool" where
  "stands source entry = (rs_depth source = fst entry \<and> source_ok source (snd entry))"

lemma apply_sources_inv:
  assumes path: "segmented path" and r: "list_all2 stands sources entries" and ranks: "r + length sources < 2 ^ 32"
    and hashes: "\<And>source d. source \<in> set sources \<Longrightarrow> rs_basenames source \<noteq> [] \<Longrightarrow> 0 < d \<Longrightarrow> d \<le> ep_segments path \<Longrightarrow>
      charCodeAt segmentHashes (d - 1) = Some (segment_hash path d)"
    and run: "foldR (apply_source path isDirectory segmentHashes) (enumerate r sources) st = Inr st'"
    and inv: "query_inv (ep_segments path) st P"
  shows "query_inv (ep_segments path) st' (\<lambda>d. P d \<union> (\<Union>(s, k, ps) \<in> set (enumerate r entries). source_hits path isDirectory s k ps d))"
  using r ranks hashes run inv
proof (induction sources entries arbitrary: r st P rule: list_all2_induct)
  case (Cons source sources entry entries)
  from Cons.prems(3) obtain s where s: "apply_source path isDirectory segmentHashes (r, source) st = Inr s"
    "foldR (apply_source path isDirectory segmentHashes) (enumerate (Suc r) sources) s = Inr st'" by auto
  obtain k ps where entry: "entry = (k, ps)" by fastforce
  have k: "rs_depth source = k" "source_ok source ps" using Cons.hyps(1) by (auto simp: stands_def entry)
  have "query_inv (ep_segments path) s (\<lambda>d. P d \<union> source_hits path isDirectory r k ps d)"
    using apply_source_inv [OF path k(2) _ Cons.prems(2) [of source] s(1) Cons.prems(4)] Cons.prems(1) k(1) by simp
  from Cons.IH [OF _ Cons.prems(2) [OF list.set_intros(2)] s(2) this] Cons.prems(1)
  show ?case by (simp add: entry Un_assoc)
qed simp

lemma query_start: "work \<le> limit_requestCpuWork \<Longrightarrow>
   query_inv n \<lparr>qs_work = work, qs_decisions = replicate n 0, qs_sourceRanks = replicate n 0, qs_lineRanks = replicate n 0\<rparr> (\<lambda>_. {})"
  by (auto simp: query_inv_def best_def)

lemma addWork_le: "addWork n work = Inr work' \<Longrightarrow> work' \<le> limit_requestCpuWork"
  by (auto simp: addWork_def Let_def split: if_splits)

lemma relative_work_le: "foldR (relative_work bs) sources work = Inr work' \<Longrightarrow> work \<le> limit_requestCpuWork \<Longrightarrow> work' \<le> limit_requestCpuWork"
  by (erule foldR_invariant) (auto simp: relative_work_def dest: addWork_le split: if_splits)

lemma query_decides:
  assumes path: "segmented path" and r: "list_all2 stands sources entries" and ranks: "length sources < 2 ^ 32 - 1"
    and hashes: "\<And>source d. source \<in> set sources \<Longrightarrow> rs_basenames source \<noteq> [] \<Longrightarrow> 0 < d \<Longrightarrow> d \<le> ep_segments path \<Longrightarrow>
      charCodeAt segmentHashes (d - 1) = Some (segment_hash path d)"
    and run: "foldR (apply_source path isDirectory segmentHashes) (enumerate 1 sources) st = Inr st'"
    and inv: "query_inv (ep_segments path) st (\<lambda>_. {})"
  shows "list_ex (\<lambda>depth. charCodeAt (qs_decisions st') (depth - 1) = Some 2) [1..<ep_segments path + 1] =
    (\<exists>d. 0 < d \<and> d \<le> ep_segments path \<and> last_verdict entries path isDirectory d)"
proof -
  have "query_inv (ep_segments path) st' (\<lambda>d. {} \<union> (\<Union>(s, k, ps) \<in> set (enumerate 1 entries). source_hits path isDirectory s k ps d))"
    by (rule apply_sources_inv [OF path r _ hashes run inv]) (use ranks in auto)
  then have dec: "charCodeAt (qs_decisions st') (d - 1) = Some 2 \<longleftrightarrow> last_verdict entries path isDirectory d" if "0 < d" "d \<le> ep_segments path" for d
    using best_verdict that by (auto simp: query_inv_def charCodeAt_def)
  have "set [1..<ep_segments path + 1] = {d. 0 < d \<and> d \<le> ep_segments path}" by auto
  then show ?thesis unfolding list_ex_iff using dec by auto
qed

lemma list_all2_concat: "list_all2 (list_all2 R) xss yss \<Longrightarrow> list_all2 R (concat xss) (concat yss)"
  by (induction xss yss rule: list_all2_induct) (auto intro: list_all2_appendI)

lemma list_all2_filter:
  "list_all2 R xs ys \<Longrightarrow> (\<And>x y. R x y \<Longrightarrow> P x = Q y) \<Longrightarrow> list_all2 R (filter P xs) (filter Q ys)"
  by (induction xs ys rule: list_all2_induct) auto

text \<open>The sources of a query are the rule files named by the reference, in its order.\<close>

lemma found_stands:
  assumes links: "link_parents by_dir (below_root rules) = Some sources"
    and ok: "\<And>dir ps. (dir, ps) \<in> set rules \<Longrightarrow> compiled_rules ps"
  shows "list_all2 stands (concat (map (\<lambda>dir. filter (\<lambda>source. rs_bytes source = dir) sources) (dirs_above bs)))
    (concat (map (\<lambda>dir. map (\<lambda>(_, ps). (count_slashes dir + 1, ps)) (filter (\<lambda>(key, _). utf8_encode key = dir) rules)) (dirs_above bs)))"
proof -
  let ?R = "\<lambda>source (entry :: jstring \<times> IgnorePattern list). rs_bytes source = utf8_encode (fst entry) \<and> stands source (count_slashes (utf8_encode (fst entry)) + 1, snd entry)"
  let ?es = "filter (\<lambda>(dir, _). dir \<noteq> []) rules"
  note links' = link_parents_props [OF links, unfolded below_root_eq list_all2_map1]
  have rel: "list_all2 ?R sources ?es"
  proof (rule list_all2_all_nthI)
    show "length sources = length ?es" using list_all2_lengthD [OF links'] by simp
    fix i assume i: "i < length sources"
    then have mem: "?es ! i \<in> set ?es" using list_all2_lengthD [OF links'] by (intro nth_mem) simp
    obtain dir ps where e: "?es ! i = (dir, ps)" by fastforce
    then have "dir \<noteq> []" "(dir, ps) \<in> set rules" using mem by auto
    moreover obtain parent where "sources ! i = (source_of (dir, ps))\<lparr>rs_parent := parent\<rparr>"
      using list_all2_nthD2 [OF links' i] by (auto simp: e)
    ultimately show "?R (sources ! i) (?es ! i)"
      using ok [of dir ps] by (simp add: e stands_def source_of_bytes source_ok_parent source_ok_source_of)
  qed
  have one: "list_all2 stands (filter (\<lambda>source. rs_bytes source = dir) sources)
      (map (\<lambda>(_, ps). (count_slashes dir + 1, ps)) (filter (\<lambda>(key, _). utf8_encode key = dir) rules))" if "dir \<in> set (dirs_above bs)" for dir
  proof -
    have "dir \<noteq> []" using that by (auto simp: dirs_above_def)
    then have f: "filter (\<lambda>(key, _). utf8_encode key = dir) rules = filter (\<lambda>(key, _). utf8_encode key = dir) (filter (\<lambda>(dir, _). dir \<noteq> []) rules)"
      unfolding filter_filter by (intro filter_cong) auto
    have "list_all2 ?R (filter (\<lambda>source. rs_bytes source = dir) sources) (filter (\<lambda>(key, _). utf8_encode key = dir) rules)"
      unfolding f by (rule list_all2_filter [OF rel]) auto
    then show ?thesis unfolding list_all2_map2
    proof (rule list.rel_mono_strong)
      fix source entry assume "entry \<in> set (filter (\<lambda>(key, _). utf8_encode key = dir) rules)" "?R source entry"
      then show "stands source (case entry of (_, ps) \<Rightarrow> (count_slashes dir + 1, ps))" by (simp add: case_prod_unfold)
    qed
  qed
  then show ?thesis by (intro list_all2_concat) (auto simp: list_all2_map1 list_all2_map2 list_all2_same)
qed

text \<open>The bounded count of UTF-8 bytes.\<close>

lemma char_bytes_cases:
  "is_high u \<Longrightarrow> is_low v \<Longrightarrow> char_bytes u (v # vs) = (length (encode_point (pair_point u v)), 1)"
  "is_high u \<Longrightarrow> (\<And>v vs. us = v # vs \<Longrightarrow> \<not> is_low v) \<Longrightarrow> char_bytes u us = (length (encode_point 0xfffd), 0)"
  "\<not> is_high u \<Longrightarrow> is_low u \<Longrightarrow> char_bytes u us = (length (encode_point 0xfffd), 0)"
  "\<not> is_high u \<Longrightarrow> \<not> is_low u \<Longrightarrow> char_bytes u us = (length (encode_point (unat u)), 0)"
proof -
  have small: "u < 0x80 \<longleftrightarrow> unat u < 0x80" "u < 0x800 \<longleftrightarrow> unat u < 0x800" "unat u < 0x10000"
    using unsigned_less [of u] by (auto simp: word_less_nat_alt)
  show "char_bytes u (v # vs) = (length (encode_point (pair_point u v)), 1)" if "is_high u" "is_low v"
    using that small by (auto simp: char_bytes_def high_unat encode_point_def pair_point_def)
  show "char_bytes u us = (length (encode_point 0xfffd), 0)" if "is_high u" "\<And>v vs. us = v # vs \<Longrightarrow> \<not> is_low v"
    using that small by (auto simp: char_bytes_def high_unat encode_point_def split: list.splits)
  show "char_bytes u us = (length (encode_point 0xfffd), 0)" if "\<not> is_high u" "is_low u"
    using that small by (auto simp: char_bytes_def low_unat encode_point_def)
  show "char_bytes u us = (length (encode_point (unat u)), 0)" if "\<not> is_high u" "\<not> is_low u"
    using that small by (auto simp: char_bytes_def encode_point_def)
qed

lemma bounded_loop_exact: "n \<le> limit \<Longrightarrow> bounded_loop limit n s = min (n + length (utf8_encode s)) (limit + 1)"
  by (induction s arbitrary: n rule: units_induct) (auto simp: char_bytes_cases utf8_encode_def code_points_cases)

lemma boundedUtf8Bytes_exact: "boundedUtf8Bytes s limit = min (length (utf8_encode s)) (limit + 1)"
  by (simp add: boundedUtf8Bytes_def bounded_loop_exact)

lemma length_concat_le: "(\<And>x. x \<in> set xs \<Longrightarrow> length (f x) \<le> n) \<Longrightarrow> length (concat (map f xs)) \<le> length xs * n"
  by (induction xs) (auto intro: add_mono)

lemma sources_fit:
  assumes "length bs \<le> limit_queryBytes" "length sources \<le> limit_patterns"
  shows "length (concat (map (\<lambda>dir. filter (\<lambda>source. rs_bytes source = dir) sources) (dirs_above bs))) \<le> limit_queryBytes * limit_patterns"
proof -
  have "length (dirs_above bs) \<le> limit_queryBytes"
    using assms(1) length_filter_le [of "\<lambda>i. bs ! i = SLASH" "[1..<length bs]"] by (simp add: dirs_above_def)
  moreover have "length (concat (map (\<lambda>dir. filter (\<lambda>source. rs_bytes source = dir) sources) (dirs_above bs))) \<le> length (dirs_above bs) * limit_patterns"
    by (rule length_concat_le) (rule le_trans [OF length_filter_le assms(2)])
  ultimately show ?thesis by (meson le_trans mult_le_mono1)
qed

definition rules_wf :: "rules \<Rightarrow> IgnorePattern list \<Rightarrow> bool" where
  "rules_wf rules extra =
     (distinct (map fst rules) \<and> length rules \<le> limit_patterns \<and> compiled_rules extra \<and> (\<forall>(_, ps) \<in> set rules. compiled_rules ps))"

lemma no_rules_verdict:
  assumes "source_ok source ps" "\<not> has_rules source"
  shows "\<not> last_verdict [(k, ps)] path isDirectory d"
proof -
  have "dynamic_rules ps = {}" using assms(2) source_ok_props(1) [OF assms(1)] by (force simp: has_rules_def dynamic_rules_def)
  moreover have "literal_rules ps True = {}" "literal_rules ps False = {}"
    using no_literal_rules [OF assms(1)] assms(2) by (simp_all add: has_rules_def)
  ultimately have "source_hits path isDirectory 1 k ps d = {}" unfolding source_hits_def all_rules [symmetric] by simp
  then have "best (\<Union>(s, k, ps) \<in> set (enumerate 1 [(k, ps)]). source_hits path isDirectory s k ps d) 0 0 0" by (simp add: best_def)
  from best_verdict [OF this] show ?thesis by simp
qed

lemma matcher_sources:
  assumes m: "newWorktreeIgnoreMatcher rules extra hs = Some m" and wf: "rules_wf rules extra"
    and app: "applicable (wm_sourceIndex m) (wm_hashStep m) bs work = Inr (found, work')" and le: "work \<le> limit_requestCpuWork" "length bs \<le> limit_queryBytes"
  shows "list_all2 stands (wm_extraSource m # (case wm_rootSource m of None \<Rightarrow> [] | Some root \<Rightarrow> [root]) @ found) (rule_sources rules extra bs)"
    "work' \<le> limit_requestCpuWork" "length found \<le> limit_queryBytes * limit_patterns"
proof -
  obtain sources where links: "link_parents (map (\<lambda>(i, dir, _). (dir, i)) (enumerate 0 (below_root rules))) (below_root rules) = Some sources"
    and fields: "wm_extraSource m = compileRuleSource [] 0 extra" "wm_rootSource m = root_source rules"
      "wm_sourceIndex m = newSourceIndex sources hs" "wm_hashStep m = hs"
    using m by (auto simp: newWorktreeIgnoreMatcher_def Let_def)
  have "linked sources" by (rule sources_linked [OF links]) (auto simp: below_root_eq source_of_bytes)
  note found = applicable_dirs [OF this app [unfolded fields] le(1)]
  show "work' \<le> limit_requestCpuWork" by (rule found)
  have "length sources \<le> length rules" using list_all2_lengthD [OF link_parents_props [OF links]] length_filter_le [of "\<lambda>(dir, _). dir \<noteq> []" rules] by (simp add: below_root_eq)
  then show "length found \<le> limit_queryBytes * limit_patterns"
    unfolding found(1) using sources_fit [OF le(2), of sources] wf by (simp add: rules_wf_def)
  have "list_all2 stands found (concat (map (\<lambda>dir. map (\<lambda>(_, ps). (count_slashes dir + 1, ps)) (filter (\<lambda>(key, _). utf8_encode key = dir) rules)) (dirs_above bs)))"
    unfolding found(1) by (rule found_stands [OF links]) (use wf in \<open>auto simp: rules_wf_def\<close>)
  moreover have "list_all2 stands (map source_of (filter (\<lambda>(dir, _). dir = []) rules)) (map (\<lambda>(_, ps). (0, ps)) (filter (\<lambda>(dir, _). dir = []) rules))"
    unfolding list_all2_map1 list_all2_map2 list_all2_same using wf by (auto simp: rules_wf_def stands_def source_of_bytes source_ok_source_of)
  moreover have "stands (compileRuleSource [] 0 extra) (0, extra)"
    using wf by (simp add: stands_def rules_wf_def source_ok_compiled compileRuleSource_props)
  ultimately show "list_all2 stands (wm_extraSource m # (case wm_rootSource m of None \<Rightarrow> [] | Some root \<Rightarrow> [root]) @ found) (rule_sources rules extra bs)"
    unfolding rule_sources_def fields using root_source_distinct [of rules] wf by (simp add: rules_wf_def list_all2_appendI)
qed

lemma no_rules_sources:
  assumes m: "newWorktreeIgnoreMatcher rules extra hs = Some m" and wf: "rules_wf rules extra" and no: "\<not> wm_hasRules m"
  shows "\<not> last_verdict (rule_sources rules extra bs) path isDirectory d"
proof -
  obtain sources where links: "link_parents (map (\<lambda>(i, dir, _). (dir, i)) (enumerate 0 (below_root rules))) (below_root rules) = Some sources"
    and no': "root_source rules = None" "sources = []" "\<not> has_rules (compileRuleSource [] 0 extra)"
    using m no by (auto simp: newWorktreeIgnoreMatcher_def Let_def)
  have "below_root rules = []" using list_all2_lengthD [OF link_parents_props [OF links]] no'(2) by simp
  then have "filter (\<lambda>(dir, _). dir \<noteq> []) rules = []" by (simp add: below_root_eq)
  moreover have "filter (\<lambda>(dir, _). dir = []) rules = []" using root_source_distinct [of rules] wf no'(1) by (simp add: rules_wf_def)
  ultimately have "rules = []" by (cases rules) (auto split: if_splits)
  then have "rule_sources rules extra bs = [(0, extra)]" by (simp add: rule_sources_def)
  then show ?thesis using no_rules_verdict [OF source_ok_compiled no'(3)] wf by (simp add: rules_wf_def)
qed

lemma ignores_decides:
  assumes m: "newWorktreeIgnoreMatcher rules extra hs = Some m" and wf: "rules_wf rules extra"
    and run: "ignores m path isDirectory = Inr b" and path: "path \<noteq> []"
  shows "b = (\<exists>d. 0 < d \<and> d \<le> ep_segments (encodePath path) \<and>
    last_verdict (rule_sources rules extra (utf8_encode path)) (encodePath path) isDirectory d)"
proof (cases "wm_hasRules m")
  case False
  then show ?thesis using run path no_rules_sources [OF m wf] by (auto simp: ignores_def split: if_splits)
next
  case True
  let ?enc = "encodePath path" and ?bs = "utf8_encode path"
  have enc: "segmented ?enc" "ep_bytes ?enc = ?bs" by (simp_all add: encodePath_def encoded_segmented)
  have short: "\<not> boundedUtf8Bytes path limit_queryBytes > limit_queryBytes" using run path by (auto simp: ignores_def split: if_splits)
  let ?S = "\<lambda>found. (case wm_rootSource m of None \<Rightarrow> [] | Some root \<Rightarrow> [root]) @ found"
  let ?h = "\<lambda>found. list_ex (\<lambda>source. rs_basenames source \<noteq> []) (wm_extraSource m # ?S found)"
  let ?hashes = "\<lambda>found. if ?h found then map (segment_hash ?enc) [1..<ep_segments ?enc + 1] else replicate (ep_segments ?enc) 0"
  let ?st = "\<lambda>work. \<lparr>qs_work = work, qs_decisions = replicate (ep_segments ?enc) 0, qs_sourceRanks = replicate (ep_segments ?enc) 0,
          qs_lineRanks = replicate (ep_segments ?enc) 0\<rparr>"
  obtain work found work1 work2 work3 st where
      w: "(if rs_paths (wm_extraSource m) \<noteq> [] then addWork (length ?bs) 0 else Inr 0) = Inr work"
      and app: "applicable (wm_sourceIndex m) (wm_hashStep m) ?bs work = Inr (found, work1)"
      and w2: "foldR (relative_work ?bs) (?S found) work1 = Inr work2"
      and w3: "(if ?h found then addWork (length ?bs) work2 else Inr work2) = Inr work3"
      and st: "foldR (apply_source ?enc isDirectory (?hashes found)) (enumerate 1 (wm_extraSource m # ?S found)) (?st work3) = Inr st"
      and b: "b = list_ex (\<lambda>depth. charCodeAt (qs_decisions st) (depth - 1) = Some 2) [1..<ep_segments ?enc + 1]"
    using run unfolding ignores_def if_not_P [OF path] if_not_P [OF short] not_not if_P [OF True] if_not_P [of "\<not> wm_hasRules m", unfolded not_not, OF True]
      Let_def enc(2) bindR_Inr_iff split_paired_Ex prod.case sum.inject by blast
  have le: "work \<le> limit_requestCpuWork" using w addWork_le by (auto split: if_splits)
  have bs: "length ?bs \<le> limit_queryBytes" using short by (auto simp: boundedUtf8Bytes_exact)
  note s = matcher_sources [OF m wf app le bs]
  have "work3 \<le> limit_requestCpuWork" using w3 addWork_le relative_work_le [OF w2 s(2)] by (auto split: if_splits)
  note start = query_start [OF this, of "ep_segments ?enc"]
  have "length (wm_extraSource m # ?S found) < 2 ^ 32 - 1"
    using s(3) by (auto simp: limit_queryBytes_def limit_patterns_def split: option.splits)
  moreover have "charCodeAt (?hashes found) (d - 1) = Some (segment_hash ?enc d)"
    if "source \<in> set (wm_extraSource m # ?S found)" "rs_basenames source \<noteq> []" "0 < d" "d \<le> ep_segments ?enc" for source d
  proof -
    have "?h found" using that(1,2) unfolding list_ex_iff by blast
    then show ?thesis unfolding if_P [OF \<open>?h found\<close>] using that(3,4) by (simp add: charCodeAt_def del: upt_Suc)
  qed
  ultimately show ?thesis unfolding b by (intro query_decides [OF enc(1) s(1) _ _ st start])
qed

end
