(* ===== verification/IgnoreLoad.thy ===== *)
theory IgnoreLoad
  imports IgnoreVerdict "HOL-Library.Code_Target_Nat"
begin

text \<open>
  Loading of a worktree matcher from end to end: the rules that were loaded are compiled rules within the limits, the
  page loop and the search for parent directories return, and a query of the loaded matcher answers by the last match.
\<close>

section \<open>Loading\<close>

lemma source_loop_wf:
  "source_loop contents stop start first ps budget = Inr (ps', budget') \<Longrightarrow> \<forall>p \<in> set ps. program_wf (ip_compiled p) \<Longrightarrow>
   ib_patterns budget \<le> limit_patterns \<Longrightarrow>
   (\<forall>p \<in> set ps'. program_wf (ip_compiled p)) \<and> length ps' + ib_patterns budget = length ps + ib_patterns budget' \<and>
   length ps \<le> length ps' \<and> ib_patterns budget' \<le> limit_patterns"
proof (induction contents stop start first ps budget rule: source_loop.induct)
  case (1 contents stop start first ps budget)
  show ?case
  proof (cases "stop \<le> length contents")
    case False
    then show ?thesis using "1.prems" by (simp add: source_loop.simps)
  next
    case here: True
    show ?thesis
    proof (cases "stop < length contents \<and> byte_at contents stop \<noteq> Some 0x0a")
      case True
      then show ?thesis using "1.IH"(1) [OF here True] "1.prems" source_loop.simps [of contents stop start first ps budget] here by simp
    next
      case line: False
      obtain lo hi where r: "line_range contents first start stop = (lo, hi)" by fastforce
      show ?thesis
      proof (cases "compilePatternBytes (slice contents lo hi)")
        case None
        then show ?thesis
          using "1.IH"(2) [OF here line r [symmetric] None] "1.prems" source_loop.simps [of contents stop start first ps budget] here line r by simp
      next
        case (Some p)
        then obtain budget1 where a: "addPattern budget = Inr budget1"
          using "1.prems"(1) source_loop.simps [of contents stop start first ps budget] here line r by (auto split: sum.splits)
        then have "ib_patterns budget1 = ib_patterns budget + 1" "ib_patterns budget1 \<le> limit_patterns"
          by (auto simp: addPattern_def Let_def split: if_splits)
        then show ?thesis
          using "1.IH"(3) [OF here line r [symmetric] Some a] "1.prems" source_loop.simps [of contents stop start first ps budget]
            here line r Some a compilePatternBytes_wf [OF Some] by auto
      qed
    qed
  qed
qed

lemma compileSource_wf:
  assumes "compileSource contents budget = Inr (ps, budget')" "ib_patterns budget \<le> limit_patterns"
  shows "compiled_rules ps" "ib_patterns budget' = ib_patterns budget + length ps" "ib_patterns budget' \<le> limit_patterns"
  using source_loop_wf [OF assms(1) [unfolded compileSource_def] _ assms(2)] by (auto simp: compiled_rules_def limit_patterns_def)

text \<open>A directory relative to the root: it does not begin with a slash.\<close>

definition relative_dir :: "jstring \<Rightarrow> bool" where
  "relative_dir dir = (\<forall>rest. dir \<noteq> slash # rest)"

lemma relativeTo_relative:
  assumes "relativeTo root path = Some relative"
  shows "relative_dir relative"
proof -
  obtain ss where r: "relative = join_with [slash] ss" "\<forall>s \<in> set ss. normal_segment s"
    using assms segments_normal [of _ path] by (auto simp: relativeTo_segments split: if_splits dest: in_set_dropD)
  show ?thesis
  proof (cases ss)
    case (Cons s ss')
    then obtain u us where "s = u # us" "u \<noteq> slash" using r(2) by (cases s) (auto simp: normal_segment_def)
    then show ?thesis using r(1) Cons by (cases ss') (simp_all add: relative_dir_def)
  qed (use r(1) in \<open>simp add: relative_dir_def\<close>)
qed

lemma directoryOfIgnoreFile_relative: "directoryOfIgnoreFile root path = Inr dir \<Longrightarrow> relative_dir dir"
  by (auto simp: directoryOfIgnoreFile_def relative_dir_def take_Cons' split: option.splits if_splits
      dest!: relativeTo_relative [unfolded relative_dir_def])
    (metis append_take_drop_id append_Cons)

definition loading :: "IgnoreBudget \<Rightarrow> rules \<Rightarrow> bool" where
  "loading budget rules = (distinct (map fst rules) \<and> length rules \<le> ib_patterns budget \<and> ib_patterns budget \<le> limit_patterns \<and>
     (\<forall>(dir, ps) \<in> set rules. compiled_rules ps \<and> relative_dir dir))"

lemma length_update: "length (AList.update k v xs) \<le> length xs + 1"
  by (induction xs) auto

lemma set_update: "(k', v') \<in> set (AList.update k v xs) \<Longrightarrow> (k', v') = (k, v) \<or> (k', v') \<in> set xs"
  by (induction xs) (auto split: if_splits)

lemma handle_step_loading:
  assumes "handle_step root handle (files, budget, rules) = Inr (files', budget', rules')" "loading budget rules"
  shows "loading budget' rules'"
proof -
  obtain contents ps where ps: "compileSource contents budget = Inr (ps, budget')"
    "length ps > 0 \<and> (\<exists>dir path. directoryOfIgnoreFile root path = Inr dir \<and> rules' = AList.update dir ps rules) \<or> rules' = rules"
    using assms(1) by (auto simp: handle_step_def Let_def split: option.splits if_splits)
  note c = compileSource_wf [OF ps(1)]
  from ps(2) show ?thesis
  proof
    assume "rules' = rules"
    then show ?thesis using assms(2) c by (auto simp: loading_def)
  next
    assume "length ps > 0 \<and> (\<exists>dir path. directoryOfIgnoreFile root path = Inr dir \<and> rules' = AList.update dir ps rules)"
    then obtain dir where d: "length ps > 0" "rules' = AList.update dir ps rules" "relative_dir dir"
      using directoryOfIgnoreFile_relative by blast
    have "compiled_rules qs \<and> relative_dir k" if "(k, qs) \<in> set rules'" for k qs
      using set_update [OF that [unfolded d(2)]] c(1) d(3) assms(2) by (auto simp: loading_def)
    moreover have "length rules' \<le> length rules + length ps" using d(1) length_update [of dir ps rules] unfolding d(2) by linarith
    ultimately show ?thesis using d assms(2) c by (auto simp: loading_def distinct_update)
  qed
qed

lemma handles_loading:
  assumes "foldR (handle_step root) handles (files, budget, rules) = Inr (files', budget', rules')" "loading budget rules"
  shows "loading budget' rules'"
  using foldR_invariant [OF assms(1), of "\<lambda>(_, budget, rules). loading budget rules"] assms(2) handle_step_loading by fastforce

lemma compileHandlePage_loading:
  "compileHandlePage worktree root handles budget rules = Inr (budget', rules') \<Longrightarrow> loading budget rules \<Longrightarrow> loading budget' rules'"
proof (induction worktree root handles budget rules rule: compileHandlePage.induct)
  case (1 worktree root handles budget rules)
  note unf = compileHandlePage.simps [of worktree root handles budget rules]
  show ?case
  proof (cases "length handles > 0")
    case True
    then obtain batch files1 budget1 rules1 where b: "wt_readFileHandles worktree handles = Inr batch" "\<not> length handles \<le> length (rb_remaining batch)"
      "\<not> \<not> retry_boundary handles (length handles - length (rb_remaining batch)) (rb_remaining batch)"
      "foldR (handle_step root) (take (length handles - length (rb_remaining batch)) handles) (rb_files batch, budget, rules) = Inr (files1, budget1, rules1)"
      "compileHandlePage worktree root (rb_remaining batch) budget1 rules1 = Inr (budget', rules')"
      using "1.prems"(1) unf by (auto simp: Let_def split: sum.splits if_splits)
    from "1.IH" [OF True b(1,2) refl b(3,4) refl refl b(5) handles_loading [OF b(4) "1.prems"(2)]] show ?thesis .
  qed (use "1.prems" unf in simp)
qed

lemma addFiles_patterns: "foldR addFile handles budget = Inr budget' \<Longrightarrow> ib_patterns budget' = ib_patterns budget"
  by (erule foldR_invariant) (auto simp: addFile_def addRaw_def Let_def split: if_splits)

lemma page_loop_loading:
  assumes "page_loop worktree root excluded budget rules cursors after = Some (Inr rules')" "loading budget rules"
  shows "\<exists>budget'. loading budget' rules'"
proof -
  let ?P = "\<lambda>worktree root excluded budget rules cursors after r.
    loading budget rules \<longrightarrow> (\<forall>rules'. r = Inr rules' \<longrightarrow> (\<exists>budget'. loading budget' rules'))"
  have "?P worktree root excluded budget rules cursors after (Inr rules' :: rules result)"
  proof (rule page_loop.raw_induct [OF _ assms(1), where P = ?P], goal_cases)
    case (1 loop worktree root excluded budget rules cursors after r)
    have "loading budget1 rules" if "foldR addFile handles budget = Inr budget1" "loading budget rules" for handles budget1
      using that addFiles_patterns [OF that(1)] by (simp add: loading_def)
    then show ?case using 1 compileHandlePage_loading
      by (auto split: sum.splits if_splits option.splits prod.splits) blast+
  qed
  then show ?thesis using assms(2) by simp
qed

lemma extra_step_wf:
  assumes "extra_step entry (ps, budget) = Inr (ps', budget')" "ib_patterns budget \<le> limit_patterns"
    "\<forall>p \<in> set ps. program_wf (ip_compiled p)" "length ps = ib_patterns budget"
  shows "ib_patterns budget' \<le> limit_patterns \<and> (\<forall>p \<in> set ps'. program_wf (ip_compiled p)) \<and> length ps' = ib_patterns budget'"
proof -
  obtain contents budget2 new where c: "compileSource contents budget2 = Inr (new, budget')" "ib_patterns budget2 = ib_patterns budget" "ps' = ps @ new"
    using assms(1) by (cases entry) (auto simp: extra_step_def addRaw_def Let_def split: if_splits)
  then show ?thesis using compileSource_wf [OF c(1)] assms by (auto simp: compiled_rules_def)
qed

lemma compileExtra_wf:
  assumes "compileExtra extra newIgnoreBudget = Inr (ps, budget)"
  shows "compiled_rules ps" "loading budget []"
proof -
  have "case (ps, budget) of (ps, budget) \<Rightarrow>
      ib_patterns budget \<le> limit_patterns \<and> (\<forall>p \<in> set ps. program_wf (ip_compiled p)) \<and> length ps = ib_patterns budget"
    by (rule foldR_invariant [OF assms [unfolded compileExtra_def]]) (auto simp: newIgnoreBudget_def dest: extra_step_wf)
  then show "compiled_rules ps" "loading budget []" by (auto simp: compiled_rules_def loading_def limit_patterns_def)
qed

lemma map_sum_Inr_iff: "map_sum f g x = Inr y \<longleftrightarrow> (\<exists>z. x = Inr z \<and> g z = y)"
  by (cases x) auto

lemma loadRules_wf:
  assumes "loadRules worktree root extra excluded = Some (Inr (rules, ps))"
  shows "rules_wf rules ps" "\<forall>(dir, _) \<in> set rules. relative_dir dir"
proof -
  obtain budget canonicalRoot where l: "compileExtra extra newIgnoreBudget = Inr (ps, budget)"
    "page_loop worktree canonicalRoot (map (excluded_root root canonicalRoot) excluded) budget [] [] None = Some (Inr rules)"
    using assms by (auto simp: loadRules_def map_sum_Inr_iff split: sum.splits)
  obtain budget' where "loading budget' rules" using page_loop_loading [OF l(2) compileExtra_wf(2) [OF l(1)]] by blast
  then show "rules_wf rules ps" "\<forall>(dir, _) \<in> set rules. relative_dir dir"
    using compileExtra_wf(1) [OF l(1)] by (auto simp: rules_wf_def loading_def)
qed

text \<open>
  C8: the ignore decision of a loaded matcher. When a query answers, the answer is yes exactly if at some depth of the
  path, its own or that of a directory above it, the last rule that matches there is not negated, where the rules are
  taken source by source: the extra ones, those of the root, and those of each directory on the way. The hash
  buckets, the index of sources and the order of evaluation do not show.
\<close>

theorem ignores_last_match:
  assumes "loadIgnoreMatcher worktree root extra excludeRoots = Some (Inr m)"
    and "ignores m path isDirectory = Inr answer" and "path \<noteq> []"
  shows "\<exists>rules extraPatterns. loadRules worktree root extra excludeRoots = Some (Inr (rules, extraPatterns)) \<and>
    answer = (\<exists>d. 0 < d \<and> d \<le> ep_segments (encodePath path) \<and>
      last_verdict (rule_sources rules extraPatterns (utf8_encode path)) (encodePath path) isDirectory d)"
proof -
  obtain rules extraPatterns where l: "loadRules worktree root extra excludeRoots = Some (Inr (rules, extraPatterns))"
    "newWorktreeIgnoreMatcher rules extraPatterns sourceHashStep = Some m"
    using assms(1) by (auto simp: loadIgnoreMatcher_def split: option.splits sum.splits prod.splits)
  from ignores_decides [OF l(2) loadRules_wf(1) [OF l(1)] assms(2,3)] l(1) show ?thesis by blast
qed

declare page_loop.simps [code] parent_loop.simps [code]

text \<open>A worktree with one rule file: all objects are ignored but \<open>a.o\<close>.\<close>

definition one_file_worktree :: "bytes \<Rightarrow> IgnoreWorktree" where
  "one_file_worktree contents =
     (let path = units ''/w/.gitignore''; handle = \<lparr>fh_path = path, fh_ino = 1, fh_size = length contents, fh_rev = 1\<rparr>
      in \<lparr>wt_realpath = Inr, wt_discoverFiles = (\<lambda>_ _ _. Inr \<lparr>fp_handles = [handle], fp_next = None\<rparr>),
          wt_readFileHandles = (\<lambda>_. Inr \<lparr>rb_files = [(path, contents)], rb_remaining = []\<rparr>)\<rparr>)"

definition object_rules :: IgnoreWorktree where
  "object_rules = one_file_worktree (utf8_encode (units ''*.o'' @ [0x0a] @ units ''!a.o''))"

lemma one_file_matcher:
  "case loadIgnoreMatcher object_rules (units ''/w'') [] [] of
     Some (Inr m) \<Rightarrow> ignores m (units ''d/b.o'') False = Inr True \<and> ignores m (units ''d/a.o'') False = Inr False
   | _ \<Rightarrow> False"
  by code_simp

theorem ignores_last_match_witness:
  "\<exists>rules extraPatterns. loadRules object_rules (units ''/w'') [] [] = Some (Inr (rules, extraPatterns)) \<and>
    (\<exists>d. 0 < d \<and> d \<le> ep_segments (encodePath (units ''d/b.o'')) \<and>
      last_verdict (rule_sources rules extraPatterns (utf8_encode (units ''d/b.o''))) (encodePath (units ''d/b.o'')) False d) \<and>
    \<not> (\<exists>d. 0 < d \<and> d \<le> ep_segments (encodePath (units ''d/a.o'')) \<and>
      last_verdict (rule_sources rules extraPatterns (utf8_encode (units ''d/a.o''))) (encodePath (units ''d/a.o'')) False d)"
proof -
  obtain m where m: "loadIgnoreMatcher object_rules (units ''/w'') [] [] = Some (Inr m)"
    "ignores m (units ''d/b.o'') False = Inr True" "ignores m (units ''d/a.o'') False = Inr False"
    using one_file_matcher by (auto split: option.splits sum.splits)
  have "units ''d/b.o'' \<noteq> []" "units ''d/a.o'' \<noteq> []" by (simp_all add: units_def)
  then show ?thesis using ignores_last_match [OF m(1,2)] ignores_last_match [OF m(1,3)] by auto
qed

section \<open>Loading returns\<close>

text \<open>A page that is not the last one holds a file.\<close>

definition advancing :: "IgnoreWorktree \<Rightarrow> bool" where
  "advancing worktree =
     (\<forall>root excluded after page. wt_discoverFiles worktree root excluded after = Inr page \<longrightarrow> fp_next page \<noteq> None \<longrightarrow> fp_handles page \<noteq> [])"

lemma addFiles_count: "foldR addFile handles budget = Inr budget' \<Longrightarrow> ib_files budget \<le> limit_files \<Longrightarrow>
   ib_files budget' = ib_files budget + length handles \<and> ib_files budget' \<le> limit_files"
proof (induction handles arbitrary: budget)
  case (Cons h hs)
  then obtain b where b: "addFile h budget = Inr b" "foldR addFile hs b = Inr budget'" by auto
  have "ib_files b = ib_files budget + 1" "ib_files b \<le> limit_files"
    using b(1) by (auto simp: addFile_def addRaw_def Let_def split: if_splits)
  then show ?case using Cons.IH [OF b(2)] by simp
qed simp

lemma source_loop_files: "source_loop contents stop start first ps budget = Inr (ps', budget') \<Longrightarrow> ib_files budget' = ib_files budget"
proof (induction contents stop start first ps budget rule: source_loop.induct)
  case (1 contents stop start first ps budget)
  show ?case
    using 1 source_loop.simps [of contents stop start first ps budget]
    by (auto simp: addPattern_def Let_def split: if_splits prod.splits option.splits sum.splits)
qed

lemma compileHandlePage_files:
  "compileHandlePage worktree root handles budget rules = Inr (budget', rules') \<Longrightarrow> ib_files budget' = ib_files budget"
proof (induction worktree root handles budget rules rule: compileHandlePage.induct)
  case (1 worktree root handles budget rules)
  note unf = compileHandlePage.simps [of worktree root handles budget rules]
  show ?case
  proof (cases "length handles > 0")
    case True
    then obtain batch files1 budget1 rules1 where b: "wt_readFileHandles worktree handles = Inr batch" "\<not> length handles \<le> length (rb_remaining batch)"
      "\<not> \<not> retry_boundary handles (length handles - length (rb_remaining batch)) (rb_remaining batch)"
      "foldR (handle_step root) (take (length handles - length (rb_remaining batch)) handles) (rb_files batch, budget, rules) = Inr (files1, budget1, rules1)"
      "compileHandlePage worktree root (rb_remaining batch) budget1 rules1 = Inr (budget', rules')"
      using "1.prems"(1) unf by (auto simp: Let_def split: sum.splits if_splits)
    have "case (files1, budget1, rules1) of (_, b, _) \<Rightarrow> ib_files b = ib_files budget"
      by (rule foldR_invariant [OF b(4)])
        (auto simp: handle_step_def compileSource_def Let_def dest!: source_loop_files split: option.splits if_splits)
    then show ?thesis using "1.IH" [OF True b(1,2) refl b(3,4) refl refl b(5)] by simp
  qed (use "1.prems" unf in simp)
qed

lemma page_loop_returns:
  assumes "advancing worktree"
  shows "ib_files budget \<le> limit_files \<Longrightarrow> \<exists>r. page_loop worktree root excluded budget rules cursors after = Some r"
proof (induction "limit_files - ib_files budget" arbitrary: budget rules cursors after rule: less_induct)
  case less
  note unf = page_loop.simps [of worktree root excluded budget rules cursors after]
  show ?case
  proof (cases "wt_discoverFiles worktree root excluded after")
    case (Inr page)
    show ?thesis
    proof (cases "foldR addFile (fp_handles page) budget")
      case files: (Inr budget1)
      note count = addFiles_count [OF files less.prems]
      show ?thesis
      proof (cases "fp_next page \<noteq> None \<and> ib_files budget1 \<noteq> limit_files")
        case True
        have "fp_handles page \<noteq> []" using assms Inr True by (auto simp: advancing_def)
        then have "0 < length (fp_handles page)" by simp
        then have smaller: "limit_files - ib_files budget2 < limit_files - ib_files budget" "ib_files budget2 \<le> limit_files"
          if "compileHandlePage worktree root (fp_handles page) budget1 rules = Inr (budget2, rules1)" for budget2 rules1
          using compileHandlePage_files [OF that] count True by linarith+
        show ?thesis
        proof (cases "compileHandlePage worktree root (fp_handles page) budget1 rules")
          case next_page: (Inr r)
          then show ?thesis
            using unf Inr files True less.hyps smaller by (cases r) (auto split: option.splits)
        qed (use unf Inr files True in auto)
      next
        case False
        then show ?thesis using unf Inr files by (auto split: sum.splits prod.splits)
      qed
    qed (use unf Inr in simp)
  qed (use unf in simp)
qed

text \<open>The search for a parent directory.\<close>

lemma lastIndexOf_last: "lastIndexOf xs c = Some k \<Longrightarrow> j < length xs \<Longrightarrow> xs ! j = c \<Longrightarrow> j \<le> k"
proof (induction xs arbitrary: j k)
  case (Cons x xs)
  then show ?case by (cases j) (auto split: option.splits if_splits)
qed simp

lemma parent_loop_None: "parent_loop by_dir dir None = Some None"
  using parent_loop.simps [of by_dir dir None] by simp

lemma parent_loop_returns:
  assumes "\<forall>rest. dir = slash # rest \<longrightarrow> (\<exists>j \<le> k. j < length dir \<and> dir ! j = slash \<and> map_of by_dir (take j dir) \<noteq> None)"
    and "k < length dir" "dir ! k = slash"
  shows "\<exists>r. parent_loop by_dir dir (Some k) = Some r"
  using assms
proof (induction k rule: less_induct)
  case (less k)
  show ?case
  proof (cases "map_of by_dir (take k dir)")
    case None
    have "k \<noteq> 0"
    proof
      assume "k = 0"
      then have "dir = slash # tl dir" using less.prems(2,3) by (cases dir) auto
      with less.prems(1) \<open>k = 0\<close> None show False by (metis le_zero_eq option.distinct(1))
    qed
    then have from_k: "last_slash dir (int k - 1) = lastIndexOf (take k dir) slash" by (simp add: last_slash_def nat_diff_distrib)
    show ?thesis
    proof (cases "lastIndexOf (take k dir) slash")
      case stop: None
      then show ?thesis using None from_k parent_loop.simps [of by_dir dir "Some k"] parent_loop_None by (simp del: lastIndexOf_None)
    next
      case (Some k')
      have k': "k' < k" "k' < length dir" "dir ! k' = slash" using lastIndexOf_Some [OF Some] less.prems(2) by auto
      have "\<exists>j \<le> k'. j < length dir \<and> dir ! j = slash \<and> map_of by_dir (take j dir) \<noteq> None" if abs: "dir = slash # rest" for rest
      proof -
        obtain j where j: "j \<le> k" "j < length dir" "dir ! j = slash" "map_of by_dir (take j dir) \<noteq> None" using less.prems(1) [rule_format, OF abs] by blast
        then have "j < k" using None by (cases "j = k") auto
        then have "j \<le> k'" using lastIndexOf_last [OF Some, of j] j(2,3) by simp
        then show ?thesis using j by blast
      qed
      then have "\<exists>r. parent_loop by_dir dir (Some k') = Some r" using less.IH [OF k'(1)] k'(2,3) by blast
      then show ?thesis using None from_k Some parent_loop.simps [of by_dir dir "Some k"] by simp
    qed
  qed (use parent_loop.simps [of by_dir dir "Some k"] in simp)
qed

lemma parent_loop_slash:
  assumes "parent_loop by_dir dir at = Some r" "dir = slash # rest" "\<And>k. at = Some k \<Longrightarrow> k < length dir \<and> dir ! k = slash" "at \<noteq> None"
  shows "\<exists>k < length dir. dir ! k = slash \<and> map_of by_dir (take k dir) \<noteq> None"
proof -
  let ?P = "\<lambda>by_dir dir at (r :: nat option). (\<exists>rest. dir = slash # rest) \<longrightarrow> (\<exists>k. at = Some k \<and> k < length dir \<and> dir ! k = slash) \<longrightarrow>
    (\<exists>k < length dir. dir ! k = slash \<and> map_of by_dir (take k dir) \<noteq> None)"
  have "?P by_dir dir at r"
  proof (rule parent_loop.raw_induct [OF _ assms(1), where P = ?P], goal_cases)
    case (1 loop by_dir dir at r)
    have "\<exists>j. last_slash dir from = Some j \<and> j < length dir \<and> dir ! j = slash" if "dir = slash # rest" for "from" rest
    proof -
      have "slash \<in> set (take (nat from + 1) dir)" using that by simp
      then obtain j where "last_slash dir from = Some j" unfolding last_slash_def by (metis lastIndexOf_None not_None_eq)
      then show ?thesis using last_slash_Some by blast
    qed
    note found = this
    show ?case
    proof (intro impI)
      assume "\<exists>rest. dir = slash # rest" "\<exists>k. at = Some k \<and> k < length dir \<and> dir ! k = slash"
      then obtain rest k where k: "dir = slash # rest" "at = Some k" "k < length dir" "dir ! k = slash" by blast
      show "\<exists>k < length dir. dir ! k = slash \<and> map_of by_dir (take k dir) \<noteq> None"
      proof (cases "map_of by_dir (take k dir)")
        case None
        then have "loop by_dir dir (last_slash dir (int k - 1)) = Some r" using 1(2) k(2) by simp
        from 1(1) [OF this] show ?thesis using found [OF k(1)] k(1) by blast
      qed (use k(3,4) in auto)
    qed
  qed
  then show ?thesis using assms(2-4) by blast
qed

lemma parent_of_returns:
  "(\<exists>r. parent_of by_dir dir = Some r) \<longleftrightarrow>
     relative_dir dir \<or> (\<exists>k < length dir. dir ! k = slash \<and> map_of by_dir (take k dir) \<noteq> None)"
proof (cases "lastIndexOf dir slash")
  case None
  moreover have "relative_dir dir" using None by (auto simp: relative_dir_def)
  ultimately show ?thesis using parent_loop_None unfolding parent_of_def None by blast
next
  case (Some k)
  note k = lastIndexOf_Some [OF Some]
  show ?thesis
  proof
    assume "\<exists>r. parent_of by_dir dir = Some r"
    then show "relative_dir dir \<or> (\<exists>k < length dir. dir ! k = slash \<and> map_of by_dir (take k dir) \<noteq> None)"
      using parent_loop_slash [of by_dir dir "Some k"] k Some by (fastforce simp: parent_of_def relative_dir_def)
  next
    assume a: "relative_dir dir \<or> (\<exists>k < length dir. dir ! k = slash \<and> map_of by_dir (take k dir) \<noteq> None)"
    have "\<exists>j \<le> k. j < length dir \<and> dir ! j = slash \<and> map_of by_dir (take j dir) \<noteq> None" if "dir = slash # rest" for rest
      using a that lastIndexOf_last [OF Some] unfolding relative_dir_def by blast
    then have "\<exists>r. parent_loop by_dir dir (Some k) = Some r" using k by (intro parent_loop_returns) auto
    then show "\<exists>r. parent_of by_dir dir = Some r" using Some by (simp add: parent_of_def)
  qed
qed

lemma link_parents_returns:
  "(\<exists>sources. link_parents by_dir entries = Some sources) \<longleftrightarrow> (\<forall>(dir, _) \<in> set entries. \<exists>r. parent_of by_dir dir = Some r)"
  by (induction by_dir entries rule: link_parents.induct) (auto split: option.splits)

lemma newWorktreeIgnoreMatcher_returns:
  "(\<exists>m. newWorktreeIgnoreMatcher rules extra hs = Some m) \<longleftrightarrow>
     (\<forall>dir \<in> fst ` set rules. relative_dir dir \<or> (\<exists>k. 0 < k \<and> k < length dir \<and> dir ! k = slash \<and> take k dir \<in> fst ` set rules))"
proof -
  let ?by = "map (\<lambda>(i, dir, _). (dir, i)) (enumerate 0 (below_root rules))"
  have below_dirs: "fst ` set (below_root rules) = {dir \<in> fst ` set rules. dir \<noteq> []}"
  proof -
    have "fst ` set (below_root rules) = fst ` {entry \<in> set rules. fst entry \<noteq> []}" by (simp add: below_root_eq image_image case_prod_unfold)
    moreover have "fst ` {entry \<in> S. fst entry \<noteq> []} = {dir \<in> fst ` S. dir \<noteq> []}" for S :: "(jstring \<times> IgnorePattern list) set" by force
    ultimately show ?thesis by simp
  qed
  have "fst ` set ?by = fst ` set (below_root rules)"
  proof -
    have "map fst ?by = map fst (below_root rules)" by (rule nth_equalityI) (simp_all add: nth_enumerate_eq case_prod_unfold)
    then show ?thesis by (metis image_set)
  qed
  then have by_dir: "map_of ?by key \<noteq> None \<longleftrightarrow> key \<noteq> [] \<and> key \<in> fst ` set rules" for key
    unfolding map_of_eq_None_iff using below_dirs by auto
  have "(\<exists>m. newWorktreeIgnoreMatcher rules extra hs = Some m) \<longleftrightarrow> (\<exists>sources. link_parents ?by (below_root rules) = Some sources)"
    by (auto simp: newWorktreeIgnoreMatcher_def Let_def)
  also have "\<dots> \<longleftrightarrow> (\<forall>dir \<in> fst ` set (below_root rules). relative_dir dir \<or> (\<exists>k < length dir. dir ! k = slash \<and> map_of ?by (take k dir) \<noteq> None))"
    unfolding link_parents_returns parent_of_returns by force
  also have "\<dots> \<longleftrightarrow> (\<forall>dir \<in> fst ` set rules. dir \<noteq> [] \<longrightarrow> relative_dir dir \<or> (\<exists>k < length dir. dir ! k = slash \<and> take k dir \<noteq> [] \<and> take k dir \<in> fst ` set rules))"
    unfolding by_dir below_dirs by blast
  also have "\<dots> \<longleftrightarrow> (\<forall>dir \<in> fst ` set rules. relative_dir dir \<or> (\<exists>k. 0 < k \<and> k < length dir \<and> dir ! k = slash \<and> take k dir \<in> fst ` set rules))"
    by (rule ball_cong [OF refl]) (auto simp: relative_dir_def)
  finally show ?thesis .
qed

text \<open>
  C9: loading a matcher returns, with a matcher or with an error, for every worktree that does not hand out empty pages
  before the last one: the page loop is cut off by the limit of files, and the directories of rule files are relative
  paths, for which the search for a parent ends.
\<close>

theorem loadIgnoreMatcher_returns:
  assumes "advancing worktree"
  shows "\<exists>r. loadIgnoreMatcher worktree root extra excludeRoots = Some r"
proof -
  have rules: "\<exists>r. loadRules worktree root extra excludeRoots = Some r"
  proof (cases "compileExtra extra newIgnoreBudget")
    case (Inr r)
    obtain ps budget where r: "r = (ps, budget)" by fastforce
    have "ib_files budget \<le> limit_files"
    proof -
      have "case (ps, budget) of (_, b) \<Rightarrow> ib_files b = 0"
        by (rule foldR_invariant [OF Inr [unfolded r compileExtra_def]])
          (auto simp: newIgnoreBudget_def extra_step_def compileSource_def addRaw_def Let_def dest!: source_loop_files split: if_splits)
      then show ?thesis by simp
    qed
    then show ?thesis using Inr r page_loop_returns [OF assms] by (auto simp: loadRules_def split: sum.splits)
  qed (simp add: loadRules_def)
  then obtain r where r: "loadRules worktree root extra excludeRoots = Some r" by blast
  show ?thesis
  proof (cases r)
    case (Inr loaded)
    obtain rules ps where l: "loaded = (rules, ps)" by fastforce
    have "\<forall>dir \<in> fst ` set rules. relative_dir dir" using loadRules_wf(2) r Inr l by fastforce
    then obtain m where "newWorktreeIgnoreMatcher rules ps sourceHashStep = Some m" 
      using newWorktreeIgnoreMatcher_returns [of rules ps sourceHashStep, THEN iffD2] by blast
    then show ?thesis using r Inr l by (simp add: loadIgnoreMatcher_def)
  qed (use r in \<open>simp add: loadIgnoreMatcher_def\<close>)
qed

theorem loadIgnoreMatcher_returns_witness:
  "advancing object_rules \<and> (\<exists>r. loadIgnoreMatcher object_rules (units ''/w'') [] [] = Some r)"
proof
  show a: "advancing object_rules" by (simp add: advancing_def object_rules_def one_file_worktree_def Let_def)
  show "\<exists>r. loadIgnoreMatcher object_rules (units ''/w'') [] [] = Some r" by (rule loadIgnoreMatcher_returns [OF a])
qed

text \<open>
  C19: the constructor of the matcher itself returns exactly if every directory that begins with a slash has rules in a
  directory above it: on any other such directory the search for a parent asks for the last slash up to position -1,
  which is read as position 0, and finds the same slash again and again.
\<close>

theorem matcher_constructor_loops:
  "newWorktreeIgnoreMatcher rules extra hashStep = None \<longleftrightarrow>
     (\<exists>dir rest. dir \<in> fst ` set rules \<and> dir = slash # rest \<and>
        \<not> (\<exists>k. 0 < k \<and> k < length dir \<and> dir ! k = slash \<and> take k dir \<in> fst ` set rules))"
proof -
  have "newWorktreeIgnoreMatcher rules extra hashStep = None \<longleftrightarrow> \<not> (\<exists>m. newWorktreeIgnoreMatcher rules extra hashStep = Some m)" by simp
  also have "\<dots> \<longleftrightarrow> (\<exists>dir \<in> fst ` set rules. \<not> relative_dir dir \<and> \<not> (\<exists>k. 0 < k \<and> k < length dir \<and> dir ! k = slash \<and> take k dir \<in> fst ` set rules))"
    unfolding newWorktreeIgnoreMatcher_returns by simp
  finally show ?thesis unfolding relative_dir_def by simp
qed

end
