(* ===== verification/DiffPrepare.thy ===== *)
theory DiffPrepare
  imports Text "HOL-Library.AList"
begin

text \<open>
  The preparation of a line diff (\<open>packages/git/src/diff\<close>: \<open>lines.ts\<close>, \<open>myers-state.ts\<close>, \<open>myers-prepare.ts\<close>): lines
  with their equality classes, the changed-line flags, the common head and tail, and the lines dropped before the search.

  A \<open>Map\<close> from lines to ids is an association list. The key of a bucket of byte records is the triple its string is
  printed from.
\<close>

section \<open>Lines\<close>

abbreviation newline :: unit16 where "newline \<equiv> 0x0a"

lemma indexOf_from_unit: "indexOf_from s [c] start = Some at \<Longrightarrow> start \<le> at \<and> at < length s"
  by (auto simp: indexOf_from_def dest!: indexOf_Some)

function split_loop :: "jstring \<Rightarrow> nat \<Rightarrow> jstring list \<Rightarrow> jstring list" where
  "split_loop contents start lines =
     (case indexOf_from contents [newline] start of
        None \<Rightarrow> lines @ [drop start contents]
      | Some at \<Rightarrow>
          let lines1 = lines @ [take (at + 1 - start) (drop start contents)]
          in if at + 1 = length contents then lines1 else split_loop contents (at + 1) lines1)"
  by pat_completeness auto
termination
  by (relation "measure (\<lambda>(contents, start, _). length contents - start)") (auto dest: indexOf_from_unit)

declare split_loop.simps [simp del]

definition splitLines :: "jstring \<Rightarrow> jstring list" where
  "splitLines contents = (if contents = [] then [] else split_loop contents 0 [])"

definition FIRST_FEW_BYTES :: nat where "FIRST_FEW_BYTES = 8000"

definition isBinary :: "bytes \<Rightarrow> bool" where
  "isBinary bs = list_ex (\<lambda>i. charCodeAt bs i = Some 0) [0..<min (length bs) FIRST_FEW_BYTES]"

section \<open>State\<close>

record ChangeGroup =
  cg_oldStart :: int
  cg_oldCount :: int
  cg_newStart :: int
  cg_newCount :: int

text \<open>The flags of \<open>length + 2\<close> lines: position -1 is the first flag. A write outside the array is dropped.\<close>

type_synonym Marks = "bool list"

definition newMarks :: "nat \<Rightarrow> Marks" where
  "newMarks n = replicate (n + 2) False"

definition marks_get :: "Marks \<Rightarrow> int \<Rightarrow> bool" where
  "marks_get flags i = (0 \<le> i + 1 \<and> charCodeAt flags (nat (i + 1)) = Some True)"

definition marks_set :: "Marks \<Rightarrow> int \<Rightarrow> bool \<Rightarrow> Marks" where
  "marks_set flags i v = (if 0 \<le> i + 1 then flags[nat (i + 1) := v] else flags)"

record ByteRecord =
  br_bytes :: bytes
  br_start :: nat
  br_end :: nat

datatype LineRecord = TextLine jstring | ByteLine ByteRecord

record Side =
  sd_lines :: "LineRecord list"
  sd_classes :: "nat list"
  sd_changed :: Marks
  sd_reference :: "nat list"
  sd_dstart :: nat
  sd_dend :: int

section \<open>Equality classes\<close>

function bogosqrt_loop :: "nat \<Rightarrow> nat \<Rightarrow> nat" where
  "bogosqrt_loop res remaining = (if remaining > 0 then bogosqrt_loop (res * 2) (remaining div 4) else res)"
  by pat_completeness auto
termination by (relation "measure snd") auto

declare bogosqrt_loop.simps [simp del]

definition bogosqrt :: "nat \<Rightarrow> nat" where
  "bogosqrt n = bogosqrt_loop 1 n"

record Classes =
  cl_oldClasses :: "nat list"
  cl_newClasses :: "nat list"
  cl_inOld :: "nat list"
  cl_inNew :: "nat list"

definition bump :: "nat list \<Rightarrow> nat \<Rightarrow> nat list" where
  "bump counts i = counts[i := (case charCodeAt counts i of None \<Rightarrow> 0 | Some n \<Rightarrow> n) + 1]"

text \<open>The ids given so far: the map from lines to ids, and the number of ids.\<close>

definition idFor :: "(jstring \<times> nat) list \<times> nat \<Rightarrow> jstring \<Rightarrow> nat \<times> (jstring \<times> nat) list \<times> nat" where
  "idFor st line =
     (case st of (ids, n) \<Rightarrow>
        (case map_of ids line of
           Some existing \<Rightarrow> (existing, ids, n)
         | None \<Rightarrow> (n, AList.update line n ids, n + 1)))"

text \<open>
  One side of a classification, for any way to give ids: its ids, the state, and the count of each id on this side. A new
  id is counted as 0 on both sides.
\<close>

fun class_side :: "('s \<Rightarrow> 'l \<Rightarrow> nat \<times> 's) \<Rightarrow> ('s \<Rightarrow> nat) \<Rightarrow> 'l list \<Rightarrow> 's \<Rightarrow> nat list \<Rightarrow> nat list \<Rightarrow> nat list \<times> 's \<times> nat list \<times> nat list" where
  "class_side give known [] st here there = ([], st, here, there)"
| "class_side give known (line # lines) st here there =
     (case give st line of
        (i, st1) \<Rightarrow>
          let new = known st1 - known st; here1 = here @ replicate new 0; there1 = there @ replicate new 0
          in case class_side give known lines st1 (bump here1 i) there1 of
               (classes, st2, here2, there2) \<Rightarrow> (i # classes, st2, here2, there2))"

definition classify_with :: "('s \<Rightarrow> 'l \<Rightarrow> nat \<times> 's) \<Rightarrow> ('s \<Rightarrow> nat) \<Rightarrow> 's \<Rightarrow> 'l list \<Rightarrow> 'l list \<Rightarrow> Classes" where
  "classify_with give known st oldLines newLines =
     (case class_side give known oldLines st [] [] of
        (oldClasses, st1, inOld, inNew) \<Rightarrow>
          (case class_side give known newLines st1 inNew inOld of
             (newClasses, _, inNew1, inOld1) \<Rightarrow>
               \<lparr>cl_oldClasses = oldClasses, cl_newClasses = newClasses, cl_inOld = inOld1, cl_inNew = inNew1\<rparr>))"

definition classify :: "jstring list \<Rightarrow> jstring list \<Rightarrow> Classes" where
  "classify oldLines newLines = classify_with idFor snd ([], 0) oldLines newLines"

type_synonym record_key = "int \<times> 32 word \<times> 32 word"

definition record_byte :: "ByteRecord \<Rightarrow> nat \<Rightarrow> byte option" where
  "record_byte r i = charCodeAt (br_bytes r) i"

definition byteRecordHash :: "ByteRecord \<Rightarrow> record_key" where
  "byteRecordHash r =
     (case fold (\<lambda>i (left, right).
               let b = (case record_byte r i of None \<Rightarrow> 0 | Some b \<Rightarrow> ucast b)
               in ((left XOR b) * 0x01000193, (right XOR b) * 0x85ebca6b))
             [br_start r..<br_end r] (0x811c9dc5, 0x9e3779b9) of
        (left, right) \<Rightarrow> (int (br_end r) - int (br_start r), left, right))"

definition byteRecordsEqual :: "ByteRecord \<Rightarrow> ByteRecord \<Rightarrow> bool" where
  "byteRecordsEqual left right =
     (let n = int (br_end left) - int (br_start left)
      in int (br_end right) - int (br_start right) = n \<and>
         list_all (\<lambda>i. record_byte left (br_start left + i) = record_byte right (br_start right + i)) [0..<nat n])"

type_synonym byte_ids = "(record_key \<times> nat list) list \<times> ByteRecord list"

definition byteIdFor :: "byte_ids \<Rightarrow> ByteRecord \<Rightarrow> nat \<times> byte_ids" where
  "byteIdFor st line =
     (case st of (buckets, representatives) \<Rightarrow>
        let key = byteRecordHash line; bucket = map_of buckets key;
            same = (case bucket of None \<Rightarrow> None
                    | Some ids \<Rightarrow> List.find (\<lambda>i. byteRecordsEqual (representatives ! i) line) ids)
        in case same of
             Some i \<Rightarrow> (i, buckets, representatives)
           | None \<Rightarrow>
               let i = length representatives
               in (i, AList.update key (case bucket of None \<Rightarrow> [i] | Some ids \<Rightarrow> ids @ [i]) buckets, representatives @ [line]))"

definition classifyBytes :: "ByteRecord list \<Rightarrow> ByteRecord list \<Rightarrow> Classes" where
  "classifyBytes oldLines newLines = classify_with byteIdFor (\<lambda>(_, representatives). length representatives) ([], []) oldLines newLines"

section \<open>Trimming and cleanup\<close>

definition KPDIS_RUN :: nat where "KPDIS_RUN = 4"
definition MAX_EQLIMIT :: nat where "MAX_EQLIMIT = 1024"
definition SIMSCAN_WINDOW :: nat where "SIMSCAN_WINDOW = 100"

datatype action = DISCARD | KEEP | INVESTIGATE

function head_loop :: "nat list \<Rightarrow> nat list \<Rightarrow> nat \<Rightarrow> nat \<Rightarrow> nat" where
  "head_loop left right limit index =
     (if index < limit \<and> charCodeAt left index = charCodeAt right index then head_loop left right limit (index + 1) else index)"
  by pat_completeness auto
termination by (relation "measure (\<lambda>(_, _, limit, index). limit - index)") auto

function tail_loop :: "nat list \<Rightarrow> nat list \<Rightarrow> nat \<Rightarrow> nat \<Rightarrow> nat \<Rightarrow> nat \<Rightarrow> nat" where
  "tail_loop left right leftLength rightLength tail back =
     (if back < tail \<and> charCodeAt left (leftLength - 1 - back) = charCodeAt right (rightLength - 1 - back)
      then tail_loop left right leftLength rightLength tail (back + 1) else back)"
  by pat_completeness auto
termination by (relation "measure (\<lambda>(_, _, _, _, tail, back). tail - back)") auto

declare head_loop.simps [simp del] tail_loop.simps [simp del]

definition trimEnds :: "Side \<Rightarrow> Side \<Rightarrow> Side \<times> Side" where
  "trimEnds left right =
     (let leftLength = length (sd_lines left); rightLength = length (sd_lines right);
          limit = min leftLength rightLength;
          index = head_loop (sd_classes left) (sd_classes right) limit 0;
          back = tail_loop (sd_classes left) (sd_classes right) leftLength rightLength (limit - index) 0
      in (left\<lparr>sd_dstart := index, sd_dend := int leftLength - int back - 1\<rparr>,
          right\<lparr>sd_dstart := index, sd_dend := int rightLength - int back - 1\<rparr>))"

definition actionsFor :: "Side \<Rightarrow> nat \<Rightarrow> int \<Rightarrow> nat list \<Rightarrow> action list" where
  "actionsFor side offset len other =
     (let limit = min (bogosqrt (length (sd_lines side))) MAX_EQLIMIT
      in map (\<lambda>i. let matches = (case charCodeAt (sd_classes side) (i + offset) of None \<Rightarrow> 0
                                 | Some c \<Rightarrow> (case charCodeAt other c of None \<Rightarrow> 0 | Some n \<Rightarrow> n))
                  in if matches = 0 then DISCARD else if matches < limit then KEEP else INVESTIGATE) [0..<nat len])"

text \<open>The run of dropped and repeated lines beside a line: how many of each, up to the first line that is kept.\<close>

fun count_run :: "action list \<Rightarrow> nat \<times> nat \<Rightarrow> nat \<times> nat" where
  "count_run [] counts = counts"
| "count_run (DISCARD # actions) (unmatched, repeated) = count_run actions (unmatched + 1, repeated)"
| "count_run (INVESTIGATE # actions) (unmatched, repeated) = count_run actions (unmatched, repeated + 1)"
| "count_run (KEEP # actions) counts = counts"

definition isMultiMatchNoise :: "action list \<Rightarrow> nat \<Rightarrow> bool" where
  "isMultiMatchNoise actions index =
     (let first = index - SIMSCAN_WINDOW; last = min (length actions - 1) (index + SIMSCAN_WINDOW);
          (unmatchedBefore, repeatedBefore) = count_run (map (\<lambda>step. actions ! (index - step)) [1..<index - first + 1]) (0, 1)
      in if unmatchedBefore = 0 then False
         else
           let (unmatchedAfter, repeatedAfter) = count_run (map (\<lambda>step. actions ! (index + step)) [1..<last - index + 1]) (0, 1)
           in if unmatchedAfter = 0 then False
              else
                let unmatched = unmatchedAfter + unmatchedBefore; repeated = repeatedAfter + repeatedBefore
                in repeated * KPDIS_RUN < repeated + unmatched)"

definition apply_action :: "nat \<Rightarrow> action list \<Rightarrow> nat \<Rightarrow> nat list \<times> Marks \<Rightarrow> nat list \<times> Marks" where
  "apply_action offset actions i st =
     (case st of (reference, changed) \<Rightarrow>
        let action = (if actions ! i = INVESTIGATE then if isMultiMatchNoise actions i then DISCARD else KEEP else actions ! i)
        in if action = KEEP then (reference @ [i + offset], changed)
           else (reference, marks_set changed (int (i + offset)) True))"

definition applyActions :: "Side \<Rightarrow> nat \<Rightarrow> action list \<Rightarrow> Side" where
  "applyActions side offset actions =
     (case fold (apply_action offset actions) [0..<length actions] ([], sd_changed side) of
        (reference, changed) \<Rightarrow> side\<lparr>sd_reference := reference, sd_changed := changed\<rparr>)"

definition cleanupRecords :: "Side \<Rightarrow> Side \<Rightarrow> nat list \<Rightarrow> nat list \<Rightarrow> Side \<times> Side" where
  "cleanupRecords left right inRight inLeft =
     (let offset = sd_dstart left;
          leftLength = sd_dend left - int offset + 1; rightLength = sd_dend right - int offset + 1;
          leftActions = actionsFor left offset leftLength inRight;
          rightActions = actionsFor right offset rightLength inLeft
      in (applyActions left offset leftActions, applyActions right offset rightActions))"

end
