(* ===== verification/DiffSearch.thy ===== *)
theory DiffSearch
  imports DiffPrepare "HOL-Library.Monad_Syntax"
begin

text \<open>
  The search of a line diff (\<open>packages/git/src/diff/myers-search.ts\<close>): the box of two line ranges is divided at a middle
  snake, found by a scan from both corners with git's cost heuristics, and the parts are compared in turn.

  Coordinates and diagonals are integers. The scan and the recursion are partial functions: \<open>None\<close> is a search that does
  not return. The two k-vectors are shared by all calls and passed along.
\<close>

section \<open>Diagonals\<close>

definition MAX_COST_MIN :: int where "MAX_COST_MIN = 256"
definition HEUR_MIN_COST :: int where "HEUR_MIN_COST = 256"
definition SNAKE_CNT :: int where "SNAKE_CNT = 20"
definition K_HEUR :: int where "K_HEUR = 4"
definition LINE_MAX :: int where "LINE_MAX = 9007199254740991"

record Diagonals =
  dg_values :: "int list"
  dg_offset :: int

definition newDiagonals :: "nat \<Rightarrow> int \<Rightarrow> Diagonals" where
  "newDiagonals n offset = \<lparr>dg_values = replicate n 0, dg_offset = offset\<rparr>"

text \<open>A read outside the array would be \<open>undefined\<close>; it is read as 0 here, and the search never does it.\<close>

definition dg_get :: "Diagonals \<Rightarrow> int \<Rightarrow> int" where
  "dg_get k d =
     (let i = d + dg_offset k in if 0 \<le> i \<and> nat i < length (dg_values k) then dg_values k ! nat i else 0)"

definition dg_set :: "Diagonals \<Rightarrow> int \<Rightarrow> int \<Rightarrow> Diagonals" where
  "dg_set k d v =
     (let i = d + dg_offset k in if 0 \<le> i then k\<lparr>dg_values := (dg_values k)[nat i := v]\<rparr> else k)"

record Environment =
  env_maxCost :: int
  env_snakeCount :: int
  env_heuristicMinimum :: int

record Split =
  sp_i1 :: int
  sp_i2 :: int
  sp_minimalLow :: bool
  sp_minimalHigh :: bool

definition hashAt :: "Side \<Rightarrow> int \<Rightarrow> nat option" where
  "hashAt side index =
     (if index < 0 then None
      else case charCodeAt (sd_reference side) (nat index) of None \<Rightarrow> None | Some r \<Rightarrow> charCodeAt (sd_classes side) r)"

text \<open>The values of a loop \<open>for (let d = high; d >= low; d -= 2)\<close>.\<close>

function diagonals_down :: "int \<Rightarrow> int \<Rightarrow> int list" where
  "diagonals_down high low = (if high \<ge> low then high # diagonals_down (high - 2) low else [])"
  by pat_completeness auto
termination by (relation "measure (\<lambda>(high, low). nat (high - low + 1))") auto

declare diagonals_down.simps [simp del]

text \<open>The run of equal lines from a point, towards the high and towards the low corner.\<close>

function snake_up :: "Side \<Rightarrow> Side \<Rightarrow> int \<Rightarrow> int \<Rightarrow> int \<Rightarrow> int \<Rightarrow> int \<times> int" where
  "snake_up left right lim1 lim2 i1 i2 =
     (if i1 < lim1 \<and> i2 < lim2 \<and> hashAt left i1 = hashAt right i2 then snake_up left right lim1 lim2 (i1 + 1) (i2 + 1) else (i1, i2))"
  by pat_completeness auto
termination by (relation "measure (\<lambda>(_, _, lim1, _, i1, _). nat (lim1 - i1))") auto

function snake_down :: "Side \<Rightarrow> Side \<Rightarrow> int \<Rightarrow> int \<Rightarrow> int \<Rightarrow> int \<Rightarrow> int \<times> int" where
  "snake_down left right off1 off2 i1 i2 =
     (if i1 > off1 \<and> i2 > off2 \<and> hashAt left (i1 - 1) = hashAt right (i2 - 1) then snake_down left right off1 off2 (i1 - 1) (i2 - 1) else (i1, i2))"
  by pat_completeness auto
termination by (relation "measure (\<lambda>(_, _, off1, _, i1, _). nat (i1 - off1))") auto

declare snake_up.simps [simp del] snake_down.simps [simp del]

section \<open>The scan\<close>

record Box =
  bx_off1 :: int
  bx_lim1 :: int
  bx_off2 :: int
  bx_lim2 :: int

record Scan =
  sc_forward :: Diagonals
  sc_backward :: Diagonals
  sc_forwardMin :: int
  sc_forwardMax :: int
  sc_backwardMin :: int
  sc_backwardMax :: int
  sc_sawSnake :: bool

definition forwardMid :: "Box \<Rightarrow> int" where "forwardMid b = bx_off1 b - bx_off2 b"
definition backwardMid :: "Box \<Rightarrow> int" where "backwardMid b = bx_lim1 b - bx_lim2 b"
definition dmin :: "Box \<Rightarrow> int" where "dmin b = bx_off1 b - bx_lim2 b"
definition dmax :: "Box \<Rightarrow> int" where "dmax b = bx_lim1 b - bx_off2 b"
definition odd_box :: "Box \<Rightarrow> bool" where "odd_box b = odd (forwardMid b - backwardMid b)"

text \<open>The range of forward diagonals grows by one on each side, or steps back at the edge of the box.\<close>

definition widen_forward :: "Box \<Rightarrow> Scan \<Rightarrow> Scan" where
  "widen_forward b sc =
     (let sc1 = (if sc_forwardMin sc > dmin b
                 then sc\<lparr>sc_forwardMin := sc_forwardMin sc - 1, sc_forward := dg_set (sc_forward sc) (sc_forwardMin sc - 2) (-1)\<rparr>
                 else sc\<lparr>sc_forwardMin := sc_forwardMin sc + 1\<rparr>)
      in if sc_forwardMax sc1 < dmax b
         then sc1\<lparr>sc_forwardMax := sc_forwardMax sc1 + 1, sc_forward := dg_set (sc_forward sc1) (sc_forwardMax sc1 + 2) (-1)\<rparr>
         else sc1\<lparr>sc_forwardMax := sc_forwardMax sc1 - 1\<rparr>)"

definition widen_backward :: "Box \<Rightarrow> Scan \<Rightarrow> Scan" where
  "widen_backward b sc =
     (let sc1 = (if sc_backwardMin sc > dmin b
                 then sc\<lparr>sc_backwardMin := sc_backwardMin sc - 1, sc_backward := dg_set (sc_backward sc) (sc_backwardMin sc - 2) LINE_MAX\<rparr>
                 else sc\<lparr>sc_backwardMin := sc_backwardMin sc + 1\<rparr>)
      in if sc_backwardMax sc1 < dmax b
         then sc1\<lparr>sc_backwardMax := sc_backwardMax sc1 + 1, sc_backward := dg_set (sc_backward sc1) (sc_backwardMax sc1 + 2) LINE_MAX\<rparr>
         else sc1\<lparr>sc_backwardMax := sc_backwardMax sc1 - 1\<rparr>)"

text \<open>One pass over the diagonals: a split where the two scans meet, or the scan after the pass.\<close>

fun forward_pass :: "Side \<Rightarrow> Side \<Rightarrow> Environment \<Rightarrow> Box \<Rightarrow> int list \<Rightarrow> Scan \<Rightarrow> Split option \<times> Scan" where
  "forward_pass left right env b [] sc = (None, sc)"
| "forward_pass left right env b (d # ds) sc =
     (let forward = sc_forward sc;
          previous = (if dg_get forward (d - 1) \<ge> dg_get forward (d + 1) then dg_get forward (d - 1) + 1 else dg_get forward (d + 1));
          (i1, i2) = snake_up left right (bx_lim1 b) (bx_lim2 b) previous (previous - d);
          sc1 = sc\<lparr>sc_sawSnake := (sc_sawSnake sc \<or> i1 - previous > env_snakeCount env), sc_forward := dg_set forward d i1\<rparr>
      in if odd_box b \<and> sc_backwardMin sc1 \<le> d \<and> d \<le> sc_backwardMax sc1 \<and> dg_get (sc_backward sc1) d \<le> i1
         then (Some \<lparr>sp_i1 = i1, sp_i2 = i2, sp_minimalLow = True, sp_minimalHigh = True\<rparr>, sc1)
         else forward_pass left right env b ds sc1)"

fun backward_pass :: "Side \<Rightarrow> Side \<Rightarrow> Environment \<Rightarrow> Box \<Rightarrow> int list \<Rightarrow> Scan \<Rightarrow> Split option \<times> Scan" where
  "backward_pass left right env b [] sc = (None, sc)"
| "backward_pass left right env b (d # ds) sc =
     (let backward = sc_backward sc;
          previous = (if dg_get backward (d - 1) < dg_get backward (d + 1) then dg_get backward (d - 1) else dg_get backward (d + 1) - 1);
          (i1, i2) = snake_down left right (bx_off1 b) (bx_off2 b) previous (previous - d);
          sc1 = sc\<lparr>sc_sawSnake := (sc_sawSnake sc \<or> previous - i1 > env_snakeCount env), sc_backward := dg_set backward d i1\<rparr>
      in if \<not> odd_box b \<and> sc_forwardMin sc1 \<le> d \<and> d \<le> sc_forwardMax sc1 \<and> i1 \<le> dg_get (sc_forward sc1) d
         then (Some \<lparr>sp_i1 = i1, sp_i2 = i2, sp_minimalLow = True, sp_minimalHigh = True\<rparr>, sc1)
         else backward_pass left right env b ds sc1)"

section \<open>Heuristics\<close>

text \<open>
  Whether the lines before a point, or from it on, are equal over the length of a snake. The loop of the source leaves
  at the first pair that differs or at the snake's length, which is positive.
\<close>

definition equal_before :: "Side \<Rightarrow> Side \<Rightarrow> int \<Rightarrow> int \<Rightarrow> int \<Rightarrow> bool" where
  "equal_before left right snakeCount i1 i2 = list_all (\<lambda>k. hashAt left (i1 - k) = hashAt right (i2 - k)) [1..snakeCount]"

definition equal_after :: "Side \<Rightarrow> Side \<Rightarrow> int \<Rightarrow> int \<Rightarrow> int \<Rightarrow> bool" where
  "equal_after left right snakeCount i1 i2 = list_all (\<lambda>k. hashAt left (i1 + k) = hashAt right (i2 + k)) [0..snakeCount - 1]"

definition forward_reach :: "Box \<Rightarrow> int \<Rightarrow> int \<Rightarrow> int" where
  "forward_reach b d i1 =
     (let distance = (if d > forwardMid b then d - forwardMid b else forwardMid b - d); i2 = i1 - d
      in i1 - bx_off1 b + (i2 - bx_off2 b) - distance)"

definition backward_reach :: "Box \<Rightarrow> int \<Rightarrow> int \<Rightarrow> int" where
  "backward_reach b d i1 =
     (let distance = (if d > backwardMid b then d - backwardMid b else backwardMid b - d); i2 = i1 - d
      in bx_lim1 b - i1 + (bx_lim2 b - i2) - distance)"

definition forward_candidate ::
    "Side \<Rightarrow> Side \<Rightarrow> Environment \<Rightarrow> Box \<Rightarrow> int \<Rightarrow> Diagonals \<Rightarrow> int \<Rightarrow> int \<times> Split option \<Rightarrow> int \<times> Split option" where
  "forward_candidate left right env b cost forward d st =
     (case st of (best, candidate) \<Rightarrow>
        let i1 = dg_get forward d; i2 = i1 - d; reach = forward_reach b d i1
        in if reach > K_HEUR * cost \<and> reach > best \<and> bx_off1 b + env_snakeCount env \<le> i1 \<and> i1 < bx_lim1 b \<and>
              bx_off2 b + env_snakeCount env \<le> i2 \<and> i2 < bx_lim2 b \<and> equal_before left right (env_snakeCount env) i1 i2
           then (reach, Some \<lparr>sp_i1 = i1, sp_i2 = i2, sp_minimalLow = True, sp_minimalHigh = False\<rparr>)
           else (best, candidate))"

definition backward_candidate ::
    "Side \<Rightarrow> Side \<Rightarrow> Environment \<Rightarrow> Box \<Rightarrow> int \<Rightarrow> Diagonals \<Rightarrow> int \<Rightarrow> int \<times> Split option \<Rightarrow> int \<times> Split option" where
  "backward_candidate left right env b cost backward d st =
     (case st of (best, candidate) \<Rightarrow>
        let i1 = dg_get backward d; i2 = i1 - d; reach = backward_reach b d i1
        in if reach > K_HEUR * cost \<and> reach > best \<and> bx_off1 b < i1 \<and> i1 \<le> bx_lim1 b - env_snakeCount env \<and>
              bx_off2 b < i2 \<and> i2 \<le> bx_lim2 b - env_snakeCount env \<and> equal_after left right (env_snakeCount env) i1 i2
           then (reach, Some \<lparr>sp_i1 = i1, sp_i2 = i2, sp_minimalLow = False, sp_minimalHigh = True\<rparr>)
           else (best, candidate))"

definition forward_diagonals :: "Scan \<Rightarrow> int list" where
  "forward_diagonals sc = diagonals_down (sc_forwardMax sc) (sc_forwardMin sc)"

definition backward_diagonals :: "Scan \<Rightarrow> int list" where
  "backward_diagonals sc = diagonals_down (sc_backwardMax sc) (sc_backwardMin sc)"

definition long_snake :: "Side \<Rightarrow> Side \<Rightarrow> Environment \<Rightarrow> Box \<Rightarrow> int \<Rightarrow> Scan \<Rightarrow> Split option" where
  "long_snake left right env b cost sc =
     (if sc_sawSnake sc \<and> cost > env_heuristicMinimum env then
        (case snd (fold (forward_candidate left right env b cost (sc_forward sc)) (forward_diagonals sc) (0, None)) of
           Some candidate \<Rightarrow> Some candidate
         | None \<Rightarrow> snd (fold (backward_candidate left right env b cost (sc_backward sc)) (backward_diagonals sc) (0, None)))
      else None)"

text \<open>The furthest reaching path of either scan, cut off at the box.\<close>

definition forward_clip :: "Box \<Rightarrow> Diagonals \<Rightarrow> int \<Rightarrow> int \<times> int" where
  "forward_clip b forward d =
     (let i1 = min (dg_get forward d) (bx_lim1 b); i2 = i1 - d
      in if bx_lim2 b < i2 then (bx_lim2 b + d, bx_lim2 b) else (i1, i2))"

definition forward_furthest :: "Box \<Rightarrow> Diagonals \<Rightarrow> int \<Rightarrow> int \<times> int \<Rightarrow> int \<times> int" where
  "forward_furthest b forward d st =
     (case st of (best, best1) \<Rightarrow>
        (case forward_clip b forward d of (i1, i2) \<Rightarrow> if best < i1 + i2 then (i1 + i2, i1) else (best, best1)))"

definition backward_clip :: "Box \<Rightarrow> Diagonals \<Rightarrow> int \<Rightarrow> int \<times> int" where
  "backward_clip b backward d =
     (let i1 = max (bx_off1 b) (dg_get backward d); i2 = i1 - d
      in if i2 < bx_off2 b then (bx_off2 b + d, bx_off2 b) else (i1, i2))"

definition backward_furthest :: "Box \<Rightarrow> Diagonals \<Rightarrow> int \<Rightarrow> int \<times> int \<Rightarrow> int \<times> int" where
  "backward_furthest b backward d st =
     (case st of (best, best1) \<Rightarrow>
        (case backward_clip b backward d of (i1, i2) \<Rightarrow> if i1 + i2 < best then (i1 + i2, i1) else (best, best1)))"

definition furthest :: "Box \<Rightarrow> Scan \<Rightarrow> Split" where
  "furthest b sc =
     (let (forwardBest, forwardBest1) = fold (forward_furthest b (sc_forward sc)) (forward_diagonals sc) (-1, -1);
          (backwardBest, backwardBest1) = fold (backward_furthest b (sc_backward sc)) (backward_diagonals sc) (LINE_MAX, LINE_MAX)
      in if bx_lim1 b + bx_lim2 b - backwardBest < forwardBest - (bx_off1 b + bx_off2 b)
         then \<lparr>sp_i1 = forwardBest1, sp_i2 = forwardBest - forwardBest1, sp_minimalLow = True, sp_minimalHigh = False\<rparr>
         else \<lparr>sp_i1 = backwardBest1, sp_i2 = backwardBest - backwardBest1, sp_minimalLow = False, sp_minimalHigh = True\<rparr>)"

section \<open>The search\<close>

partial_function (option) split_loop_at ::
    "Side \<Rightarrow> Side \<Rightarrow> Environment \<Rightarrow> Box \<Rightarrow> bool \<Rightarrow> int \<Rightarrow> Scan \<Rightarrow> (Split \<times> Scan) option" where
  "split_loop_at left right env b needMinimal cost sc =
     (let sc1 = widen_forward b (sc\<lparr>sc_sawSnake := False\<rparr>)
      in case forward_pass left right env b (forward_diagonals sc1) sc1 of
           (Some split, sc2) \<Rightarrow> Some (split, sc2)
         | (None, sc2) \<Rightarrow>
             (let sc3 = widen_backward b sc2
              in case backward_pass left right env b (backward_diagonals sc3) sc3 of
                   (Some split, sc4) \<Rightarrow> Some (split, sc4)
                 | (None, sc4) \<Rightarrow>
                     if needMinimal then split_loop_at left right env b needMinimal (cost + 1) sc4
                     else (case long_snake left right env b cost sc4 of
                             Some split \<Rightarrow> Some (split, sc4)
                           | None \<Rightarrow>
                               if cost \<ge> env_maxCost env then Some (furthest b sc4, sc4)
                               else split_loop_at left right env b needMinimal (cost + 1) sc4)))"

definition start_scan :: "Box \<Rightarrow> Diagonals \<Rightarrow> Diagonals \<Rightarrow> Scan" where
  "start_scan b forward backward =
     \<lparr>sc_forward = dg_set forward (forwardMid b) (bx_off1 b), sc_backward = dg_set backward (backwardMid b) (bx_lim1 b),
      sc_forwardMin = forwardMid b, sc_forwardMax = forwardMid b,
      sc_backwardMin = backwardMid b, sc_backwardMax = backwardMid b, sc_sawSnake = False\<rparr>"

definition findSplit ::
    "Side \<Rightarrow> Side \<Rightarrow> Environment \<Rightarrow> Box \<Rightarrow> bool \<Rightarrow> Diagonals \<Rightarrow> Diagonals \<Rightarrow> (Split \<times> Diagonals \<times> Diagonals) option" where
  "findSplit left right env b needMinimal forward backward =
     map_option (\<lambda>(split, sc). (split, sc_forward sc, sc_backward sc))
       (split_loop_at left right env b needMinimal 1 (start_scan b forward backward))"

text \<open>What the recursion changes: the flags of both sides and the two k-vectors.\<close>

record Search =
  se_left :: Side
  se_right :: Side
  se_forward :: Diagonals
  se_backward :: Diagonals

definition mark_range :: "Side \<Rightarrow> int \<Rightarrow> int \<Rightarrow> Side" where
  "mark_range side low high =
     fold (\<lambda>i s. s\<lparr>sd_changed := (case charCodeAt (sd_reference s) (nat i) of
                      None \<Rightarrow> sd_changed s | Some r \<Rightarrow> marks_set (sd_changed s) (int r) True)\<rparr>) [low..high - 1] side"

partial_function (option) compare_box :: "Environment \<Rightarrow> Box \<Rightarrow> bool \<Rightarrow> Search \<Rightarrow> Search option" where
  "compare_box env b needMinimal se =
     (let (low1, low2) = snake_up (se_left se) (se_right se) (bx_lim1 b) (bx_lim2 b) (bx_off1 b) (bx_off2 b);
          (high1, high2) = snake_down (se_left se) (se_right se) low1 low2 (bx_lim1 b) (bx_lim2 b)
      in if low1 = high1 then Some (se\<lparr>se_right := mark_range (se_right se) low2 high2\<rparr>)
         else if low2 = high2 then Some (se\<lparr>se_left := mark_range (se_left se) low1 high1\<rparr>)
         else
           let b1 = \<lparr>bx_off1 = low1, bx_lim1 = high1, bx_off2 = low2, bx_lim2 = high2\<rparr>
           in Option.bind (findSplit (se_left se) (se_right se) env b1 needMinimal (se_forward se) (se_backward se))
                (\<lambda>(split, forward, backward).
                   Option.bind (compare_box env \<lparr>bx_off1 = low1, bx_lim1 = sp_i1 split, bx_off2 = low2, bx_lim2 = sp_i2 split\<rparr>
                                  (sp_minimalLow split) (se\<lparr>se_forward := forward, se_backward := backward\<rparr>))
                     (\<lambda>se1. compare_box env \<lparr>bx_off1 = sp_i1 split, bx_lim1 = high1, bx_off2 = sp_i2 split, bx_lim2 = high2\<rparr>
                              (sp_minimalHigh split) se1)))"

declare split_loop_at.simps [code] compare_box.simps [code]

end
