(* ===== verification/DiffCompact.thy ===== *)
theory DiffCompact
  imports DiffSearch
begin

text \<open>
  The last steps of a line diff (\<open>packages/git/src/diff\<close>: \<open>myers-compact.ts\<close>, \<open>myers.ts\<close>): change groups are slid to
  where they read best, and the marked runs of both sides become the script.

  The ends of a group are natural numbers: no position below 0 is marked, so no walk goes below 0. The loops that end
  only because of what the groups look like are partial functions, where \<open>None\<close> is a loop that does not end.
\<close>

section \<open>Groups\<close>

definition MAX_INDENT :: int where "MAX_INDENT = 200"
definition MAX_BLANKS :: int where "MAX_BLANKS = 20"
definition INDENT_HEURISTIC_MAX_SLIDING :: nat where "INDENT_HEURISTIC_MAX_SLIDING = 100"

definition START_OF_FILE_PENALTY :: int where "START_OF_FILE_PENALTY = 1"
definition END_OF_FILE_PENALTY :: int where "END_OF_FILE_PENALTY = 21"
definition TOTAL_BLANK_WEIGHT :: int where "TOTAL_BLANK_WEIGHT = - 30"
definition POST_BLANK_WEIGHT :: int where "POST_BLANK_WEIGHT = 6"
definition RELATIVE_INDENT_PENALTY :: int where "RELATIVE_INDENT_PENALTY = - 4"
definition RELATIVE_INDENT_WITH_BLANK_PENALTY :: int where "RELATIVE_INDENT_WITH_BLANK_PENALTY = 10"
definition RELATIVE_OUTDENT_PENALTY :: int where "RELATIVE_OUTDENT_PENALTY = 24"
definition RELATIVE_OUTDENT_WITH_BLANK_PENALTY :: int where "RELATIVE_OUTDENT_WITH_BLANK_PENALTY = 17"
definition RELATIVE_DEDENT_PENALTY :: int where "RELATIVE_DEDENT_PENALTY = 23"
definition RELATIVE_DEDENT_WITH_BLANK_PENALTY :: int where "RELATIVE_DEDENT_WITH_BLANK_PENALTY = 17"
definition INDENT_WEIGHT :: int where "INDENT_WEIGHT = 60"

record Group =
  gr_start :: nat
  gr_end :: nat

text \<open>The walks over marked lines: to the first unmarked one at or after a position, and to the start of a run before it.\<close>

lemma marks_get_bounds: "marks_get flags i \<Longrightarrow> 0 \<le> i + 1 \<and> nat (i + 1) < length flags"
  by (auto simp: marks_get_def charCodeAt_def split: if_splits)

function run_end :: "Marks \<Rightarrow> nat \<Rightarrow> nat" where
  "run_end flags i = (if marks_get flags (int i) then run_end flags (i + 1) else i)"
  by pat_completeness auto
termination by (relation "measure (\<lambda>(flags, i). length flags - i)") (auto dest!: marks_get_bounds)

function run_start :: "Marks \<Rightarrow> int \<Rightarrow> int" where
  "run_start flags i = (if marks_get flags (i - 1) then run_start flags (i - 1) else i)"
  by pat_completeness auto
termination by (relation "measure (\<lambda>(flags, i). nat (i + 1))") (auto dest!: marks_get_bounds)

declare run_end.simps [simp del] run_start.simps [simp del]

definition groupInit :: "Side \<Rightarrow> Group" where
  "groupInit side = \<lparr>gr_start = 0, gr_end = run_end (sd_changed side) 0\<rparr>"

definition groupNext :: "Side \<Rightarrow> Group \<Rightarrow> bool \<times> Group" where
  "groupNext side g =
     (if gr_end g = length (sd_lines side) then (False, g)
      else (True, \<lparr>gr_start = gr_end g + 1, gr_end = run_end (sd_changed side) (gr_end g + 1)\<rparr>))"

definition groupPrevious :: "Side \<Rightarrow> Group \<Rightarrow> bool \<times> Group" where
  "groupPrevious side g =
     (if gr_start g = 0 then (False, g)
      else (True, \<lparr>gr_start = nat (run_start (sd_changed side) (int (gr_start g - 1))), gr_end = gr_start g - 1\<rparr>))"

definition groupSlideDown :: "Side \<Rightarrow> Group \<Rightarrow> bool \<times> Side \<times> Group" where
  "groupSlideDown side g =
     (if gr_end g \<ge> length (sd_lines side) then (False, side, g)
      else if charCodeAt (sd_classes side) (gr_start g) \<noteq> charCodeAt (sd_classes side) (gr_end g) then (False, side, g)
      else
        let changed = marks_set (marks_set (sd_changed side) (int (gr_start g)) False) (int (gr_end g)) True
        in (True, side\<lparr>sd_changed := changed\<rparr>, \<lparr>gr_start = gr_start g + 1, gr_end = run_end changed (gr_end g + 1)\<rparr>))"

definition groupSlideUp :: "Side \<Rightarrow> Group \<Rightarrow> bool \<times> Side \<times> Group" where
  "groupSlideUp side g =
     (if gr_start g = 0 then (False, side, g)
      else if charCodeAt (sd_classes side) (gr_start g - 1) \<noteq> charCodeAt (sd_classes side) (gr_end g - 1) then (False, side, g)
      else
        let changed = marks_set (marks_set (sd_changed side) (int (gr_start g - 1)) True) (int (gr_end g - 1)) False
        in (True, side\<lparr>sd_changed := changed\<rparr>,
            \<lparr>gr_start = nat (run_start changed (int (gr_start g - 1))), gr_end = gr_end g - 1\<rparr>))"

section \<open>The indent heuristic\<close>

record Score =
  sr_effectiveIndent :: int
  sr_penalty :: int

record Measurement =
  me_endOfFile :: bool
  me_indent :: int
  me_preBlank :: int
  me_preIndent :: int
  me_postBlank :: int
  me_postIndent :: int

definition isSpace :: "int option \<Rightarrow> bool" where
  "isSpace char = (char \<in> {Some 0x20, Some 0x09, Some 0x0a, Some 0x0b, Some 0x0c, Some 0x0d})"

text \<open>The codes of a line, a byte past the end of its array being \<open>undefined\<close>.\<close>

definition line_codes :: "LineRecord \<Rightarrow> int option list" where
  "line_codes line =
     (case line of
        TextLine s \<Rightarrow> map (\<lambda>u. Some (uint u)) s
      | ByteLine r \<Rightarrow> map (\<lambda>i. map_option uint (record_byte r (br_start r + i))) [0..<br_end r - br_start r])"

fun indent_loop :: "int option list \<Rightarrow> int \<Rightarrow> int" where
  "indent_loop [] indent = - 1"
| "indent_loop (char # chars) indent =
     (if char \<noteq> Some 0x20 \<and> char \<noteq> Some 0x09 \<and> \<not> isSpace char then indent
      else
        let indent1 = (if char = Some 0x20 then indent + 1 else if char = Some 0x09 then indent + (8 - indent mod 8) else indent)
        in if indent1 \<ge> MAX_INDENT then MAX_INDENT else indent_loop chars indent1)"

definition indentOf :: "LineRecord \<Rightarrow> int" where
  "indentOf line = indent_loop (line_codes line) 0"

text \<open>The blank lines up to the first line with an indent, or up to \<open>MAX_BLANKS\<close> of them, and that indent.\<close>

fun blank_run :: "LineRecord list \<Rightarrow> int \<Rightarrow> int \<times> int" where
  "blank_run [] blanks = (blanks, - 1)"
| "blank_run (line # lines) blanks =
     (if indentOf line \<noteq> - 1 then (blanks, indentOf line)
      else if blanks + 1 = MAX_BLANKS then (blanks + 1, 0)
      else blank_run lines (blanks + 1))"

definition measureSplit :: "Side \<Rightarrow> nat \<Rightarrow> Measurement" where
  "measureSplit side split =
     (let lines = sd_lines side;
          (preBlank, preIndent) = blank_run (rev (take split lines)) 0;
          (postBlank, postIndent) = blank_run (drop (split + 1) lines) 0
      in \<lparr>me_endOfFile = (split \<ge> length lines), me_indent = (if split \<ge> length lines then - 1 else indentOf (lines ! split)),
          me_preBlank = preBlank, me_preIndent = preIndent, me_postBlank = postBlank, me_postIndent = postIndent\<rparr>)"

definition addSplitScore :: "Measurement \<Rightarrow> Score \<Rightarrow> Score" where
  "addSplitScore m score =
     (let postBlank = (if me_indent m = - 1 then 1 + me_postBlank m else 0);
          totalBlank = me_preBlank m + postBlank;
          penalty = sr_penalty score + (if me_preIndent m = - 1 \<and> me_preBlank m = 0 then START_OF_FILE_PENALTY else 0)
            + (if me_endOfFile m then END_OF_FILE_PENALTY else 0) + TOTAL_BLANK_WEIGHT * totalBlank + POST_BLANK_WEIGHT * postBlank;
          indent = (if me_indent m \<noteq> - 1 then me_indent m else me_postIndent m);
          anyBlanks = (totalBlank \<noteq> 0);
          relative =
            (if indent = - 1 \<or> me_preIndent m = - 1 \<or> indent = me_preIndent m then 0
             else if indent > me_preIndent m then (if anyBlanks then RELATIVE_INDENT_WITH_BLANK_PENALTY else RELATIVE_INDENT_PENALTY)
             else if me_postIndent m \<noteq> - 1 \<and> me_postIndent m > indent
               then (if anyBlanks then RELATIVE_OUTDENT_WITH_BLANK_PENALTY else RELATIVE_OUTDENT_PENALTY)
             else (if anyBlanks then RELATIVE_DEDENT_WITH_BLANK_PENALTY else RELATIVE_DEDENT_PENALTY))
      in \<lparr>sr_effectiveIndent = sr_effectiveIndent score + indent, sr_penalty = penalty + relative\<rparr>)"

definition compareScores :: "Score \<Rightarrow> Score \<Rightarrow> int" where
  "compareScores left right =
     (let indents = (if sr_effectiveIndent left > sr_effectiveIndent right then 1 else 0)
            - (if sr_effectiveIndent left < sr_effectiveIndent right then 1 else 0)
      in INDENT_WEIGHT * indents + (sr_penalty left - sr_penalty right))"

text \<open>The last of the shifts with the best score, of those in reach of the group; \<open>None\<close> before the first.\<close>

definition better_shift :: "Side \<Rightarrow> nat \<Rightarrow> nat \<Rightarrow> (nat \<times> Score) option \<Rightarrow> (nat \<times> Score) option" where
  "better_shift side groupSize shift best =
     (let score = addSplitScore (measureSplit side (shift - groupSize)) (addSplitScore (measureSplit side shift) \<lparr>sr_effectiveIndent = 0, sr_penalty = 0\<rparr>)
      in case best of
           None \<Rightarrow> Some (shift, score)
         | Some (_, bestScore) \<Rightarrow> if compareScores score bestScore \<le> 0 then Some (shift, score) else best)"

definition first_shift :: "nat \<Rightarrow> nat \<Rightarrow> nat \<Rightarrow> nat" where
  "first_shift earliestEnd groupSize end1 =
     (let shift = earliestEnd;
          shift1 = (if int end1 - int groupSize - 1 > int shift then end1 - groupSize - 1 else shift)
      in if int end1 - int INDENT_HEURISTIC_MAX_SLIDING > int shift1 then end1 - INDENT_HEURISTIC_MAX_SLIDING else shift1)"

definition best_shift :: "Side \<Rightarrow> nat \<Rightarrow> nat \<Rightarrow> nat \<Rightarrow> int" where
  "best_shift side groupSize earliestEnd end1 =
     (case fold (better_shift side groupSize) [first_shift earliestEnd groupSize end1..<end1 + 1] None of
        None \<Rightarrow> - 1 | Some (shift, _) \<Rightarrow> int shift)"

section \<open>Compaction\<close>

lemma run_start_le: "run_start flags i \<le> i"
proof (induction flags i rule: run_start.induct)
  case (1 flags i)
  then show ?case by (auto simp: run_start.simps [of flags i])
qed

lemma run_end_ge: "i \<le> run_end flags i"
proof (induction flags i rule: run_end.induct)
  case (1 flags i)
  then show ?case by (auto simp: run_end.simps [of flags i])
qed

lemma groupSlideUp_start: "groupSlideUp side g = (True, side', g') \<Longrightarrow> gr_start g' < gr_start g"
  using run_start_le [of "sd_changed side'" "int (gr_start g - 1)"] by (auto simp: groupSlideUp_def Let_def split: if_splits)

lemma groupSlideDown_end:
  "groupSlideDown side g = (True, side', g') \<Longrightarrow> gr_end g < gr_end g' \<and> gr_end g < length (sd_lines side) \<and> sd_lines side' = sd_lines side"
  using run_end_ge [of "gr_end g + 1" "sd_changed side'"] by (auto simp: groupSlideDown_def Let_def split: if_splits)

text \<open>The group of this side slides as far as it can; the group of the other side follows.\<close>

function slide_up_all :: "Side \<Rightarrow> Group \<Rightarrow> Side \<Rightarrow> Group \<Rightarrow> Side \<times> Group \<times> Group" where
  "slide_up_all side g other og =
     (case groupSlideUp side g of
        (True, side1, g1) \<Rightarrow> slide_up_all side1 g1 other (snd (groupPrevious other og))
      | (False, _, _) \<Rightarrow> (side, g, og))"
  by pat_completeness auto
termination by (relation "measure (\<lambda>(_, g, _, _). gr_start g)") (auto dest: groupSlideUp_start [OF sym])

function slide_down_all :: "Side \<Rightarrow> Group \<Rightarrow> Side \<Rightarrow> Group \<Rightarrow> int \<Rightarrow> Side \<times> Group \<times> Group \<times> int" where
  "slide_down_all side g other og endMatchingOther =
     (case groupSlideDown side g of
        (True, side1, g1) \<Rightarrow>
          let og1 = snd (groupNext other og)
          in slide_down_all side1 g1 other og1 (if gr_end og1 > gr_start og1 then int (gr_end g1) else endMatchingOther)
      | (False, _, _) \<Rightarrow> (side, g, og, endMatchingOther))"
  by pat_completeness auto
termination by (relation "measure (\<lambda>(side, g, _, _, _). length (sd_lines side) - gr_end g)") (auto dest!: groupSlideDown_end [OF sym])

declare slide_up_all.simps [simp del] slide_down_all.simps [simp del]

record Settled =
  st_side :: Side
  st_group :: Group
  st_other :: Group
  st_size :: nat
  st_earliestEnd :: nat
  st_endMatchingOther :: int

text \<open>Up and down until the group does not grow.\<close>

partial_function (option) settle :: "Side \<Rightarrow> Group \<Rightarrow> Side \<Rightarrow> Group \<Rightarrow> Settled option" where
  "settle side g other og =
     (let groupSize = gr_end g - gr_start g;
          (side1, g1, og1) = slide_up_all side g other og;
          endMatchingOther = (if gr_end og1 > gr_start og1 then int (gr_end g1) else - 1);
          (side2, g2, og2, endMatchingOther2) = slide_down_all side1 g1 other og1 endMatchingOther
      in if groupSize \<noteq> gr_end g2 - gr_start g2 then settle side2 g2 other og2
         else Some \<lparr>st_side = side2, st_group = g2, st_other = og2, st_size = groupSize, st_earliestEnd = gr_end g1,
                    st_endMatchingOther = endMatchingOther2\<rparr>)"

definition step_up :: "Side \<Rightarrow> Side \<Rightarrow> Group \<Rightarrow> Group \<Rightarrow> Side \<times> Group \<times> Group" where
  "step_up other side g og = (case groupSlideUp side g of (_, side1, g1) \<Rightarrow> (side1, g1, snd (groupPrevious other og)))"

partial_function (option) align_other :: "Side \<Rightarrow> Side \<Rightarrow> Group \<Rightarrow> Group \<Rightarrow> (Side \<times> Group \<times> Group) option" where
  "align_other other side g og =
     (if gr_end og = gr_start og then (case step_up other side g og of (side1, g1, og1) \<Rightarrow> align_other other side1 g1 og1)
      else Some (side, g, og))"

partial_function (option) align_shift :: "Side \<Rightarrow> int \<Rightarrow> Side \<Rightarrow> Group \<Rightarrow> Group \<Rightarrow> (Side \<times> Group \<times> Group) option" where
  "align_shift other bestShift side g og =
     (if int (gr_end g) > bestShift then (case step_up other side g og of (side1, g1, og1) \<Rightarrow> align_shift other bestShift side1 g1 og1)
      else Some (side, g, og))"

definition compact_group :: "bool \<Rightarrow> Side \<Rightarrow> Side \<Rightarrow> Group \<Rightarrow> Group \<Rightarrow> (Side \<times> Group \<times> Group) option" where
  "compact_group indentHeuristic other side g og =
     (if gr_end g = gr_start g then Some (side, g, og)
      else
        Option.bind (settle side g other og)
          (\<lambda>st.
             let side1 = st_side st; g1 = st_group st; og1 = st_other st
             in if gr_end g1 = st_earliestEnd st then Some (side1, g1, og1)
                else if st_endMatchingOther st \<noteq> - 1 then align_other other side1 g1 og1
                else if indentHeuristic then align_shift other (best_shift side1 (st_size st) (st_earliestEnd st) (gr_end g1)) side1 g1 og1
                else Some (side1, g1, og1)))"

partial_function (option) compact_loop :: "bool \<Rightarrow> Side \<Rightarrow> Side \<Rightarrow> Group \<Rightarrow> Group \<Rightarrow> Side option" where
  "compact_loop indentHeuristic other side g og =
     Option.bind (compact_group indentHeuristic other side g og)
       (\<lambda>(side1, g1, og1).
          case groupNext side1 g1 of
            (advanced, g2) \<Rightarrow>
              if \<not> advanced then Some side1 else compact_loop indentHeuristic other side1 g2 (snd (groupNext other og1)))"

definition compact :: "Side \<Rightarrow> Side \<Rightarrow> bool \<Rightarrow> Side option" where
  "compact side other indentHeuristic = compact_loop indentHeuristic other side (groupInit side) (groupInit other)"

declare settle.simps [code] align_other.simps [code] align_shift.simps [code] compact_loop.simps [code]

section \<open>The script\<close>

function script_loop :: "Side \<Rightarrow> Side \<Rightarrow> int option \<Rightarrow> int \<Rightarrow> int \<Rightarrow> ChangeGroup list \<Rightarrow> ChangeGroup list result" where
  "script_loop left right maxChanges i1 i2 groups =
     (if i1 \<ge> 0 \<or> i2 \<ge> 0 then
        if marks_get (sd_changed left) (i1 - 1) \<or> marks_get (sd_changed right) (i2 - 1) then
          if (case maxChanges of None \<Rightarrow> False | Some m \<Rightarrow> int (length groups) \<ge> m) then Inl (GitError ''E2BIG'' ''xdiff change list'')
          else
            let j1 = run_start (sd_changed left) i1; j2 = run_start (sd_changed right) i2
            in script_loop left right maxChanges (j1 - 1) (j2 - 1)
                 (groups @ [\<lparr>cg_oldStart = j1, cg_oldCount = i1 - j1, cg_newStart = j2, cg_newCount = i2 - j2\<rparr>])
        else script_loop left right maxChanges (i1 - 1) (i2 - 1) groups
      else Inr (rev groups))"
  by pat_completeness auto
termination
proof (relation "measure (\<lambda>(_, _, _, i1, i2, _). nat (i1 + 1) + nat (i2 + 1))", goal_cases)
  case (2 left right maxChanges i1 i2 groups j1 j2)
  then show ?case using run_start_le [of "sd_changed left" i1] run_start_le [of "sd_changed right" i2] by auto
qed auto

declare script_loop.simps [simp del]

definition buildScript :: "Side \<Rightarrow> Side \<Rightarrow> int option \<Rightarrow> ChangeGroup list result" where
  "buildScript left right maxChanges =
     script_loop left right maxChanges (int (length (sd_lines left))) (int (length (sd_lines right))) []"

section \<open>The diff\<close>

record DiffLinesOptions =
  do_indentHeuristic :: "bool option"
  do_maxChanges :: "int option"

definition newSide :: "LineRecord list \<Rightarrow> nat list \<Rightarrow> Side" where
  "newSide lines classes =
     \<lparr>sd_lines = lines, sd_classes = classes, sd_changed = newMarks (length lines), sd_reference = [], sd_dstart = 0,
      sd_dend = int (length lines) - 1\<rparr>"

definition diff_environment :: "nat \<Rightarrow> Environment" where
  "diff_environment diagonalCount =
     \<lparr>env_maxCost = max (int (bogosqrt diagonalCount)) MAX_COST_MIN, env_snakeCount = SNAKE_CNT, env_heuristicMinimum = HEUR_MIN_COST\<rparr>"

definition run_compare :: "Side \<Rightarrow> Side \<Rightarrow> (Side \<times> Side) option" where
  "run_compare left right =
     (let n1 = length (sd_reference left); n2 = length (sd_reference right);
          diagonalCount = n1 + n2 + 3; slots = 2 * diagonalCount + 2; offset = int n2 + 2
      in map_option (\<lambda>se. (se_left se, se_right se))
           (compare_box (diff_environment diagonalCount) \<lparr>bx_off1 = 0, bx_lim1 = int n1, bx_off2 = 0, bx_lim2 = int n2\<rparr> False
              \<lparr>se_left = left, se_right = right, se_forward = newDiagonals slots offset, se_backward = newDiagonals slots offset\<rparr>))"

text \<open>\<open>None\<close> is a diff that does not return.\<close>

definition diffClassified :: "LineRecord list \<Rightarrow> LineRecord list \<Rightarrow> Classes \<Rightarrow> DiffLinesOptions \<Rightarrow> ChangeGroup list result option" where
  "diffClassified oldLines newLines cl options =
     (let (left, right) = trimEnds (newSide oldLines (cl_oldClasses cl)) (newSide newLines (cl_newClasses cl));
          (left1, right1) = cleanupRecords left right (cl_inNew cl) (cl_inOld cl);
          indentHeuristic = (do_indentHeuristic options \<noteq> Some False)
      in Option.bind (run_compare left1 right1)
           (\<lambda>(left2, right2). Option.bind (compact left2 right2 indentHeuristic)
              (\<lambda>left3. map_option (\<lambda>right3. buildScript left3 right3 (do_maxChanges options)) (compact right2 left3 indentHeuristic))))"

definition diffLines :: "jstring list \<Rightarrow> jstring list \<Rightarrow> DiffLinesOptions \<Rightarrow> ChangeGroup list result option" where
  "diffLines oldLines newLines options =
     diffClassified (map TextLine oldLines) (map TextLine newLines) (classify oldLines newLines) options"

definition diffByteRecords :: "ByteRecord list \<Rightarrow> ByteRecord list \<Rightarrow> DiffLinesOptions \<Rightarrow> ChangeGroup list result option" where
  "diffByteRecords oldLines newLines options =
     diffClassified (map ByteLine oldLines) (map ByteLine newLines) (classifyBytes oldLines newLines) options"

end
