(* ===== verification/DiffWave.thy ===== *)
theory DiffWave
  imports DiffSearch
begin

text \<open>
  The geometry of the bidirectional scan. A wave gives each diagonal the furthest point reached at a cost. A point may
  lie outside the box, because an edit step is not stopped at its edge; but as long as the two scans have not met, a
  point outside is too far from the opposite corner for its diagonal to be one the opposite scan has reached. This is
  why a split is always taken inside the box, and why the scans meet.

  The backward scan is a forward scan of the mirrored box.
\<close>

section \<open>Waves\<close>

definition box_ok :: "Box \<Rightarrow> bool" where
  "box_ok b = (bx_off1 b < bx_lim1 b \<and> bx_off2 b < bx_lim2 b)"

definition region :: "Box \<Rightarrow> int \<Rightarrow> int set" where
  "region b c = {e. dmin b \<le> e \<and> e \<le> dmax b \<and> \<bar>e - forwardMid b\<bar> \<le> c \<and> even (e - forwardMid b - c)}"

lemmas box_defs = dmin_def dmax_def forwardMid_def backwardMid_def

text \<open>Exchanging the two sides turns a diagonal round and exchanges the steps to the right and down.\<close>

definition swap_box :: "Box \<Rightarrow> Box" where
  "swap_box b = \<lparr>bx_off1 = bx_off2 b, bx_lim1 = bx_lim2 b, bx_off2 = bx_off1 b, bx_lim2 = bx_lim1 b\<rparr>"

definition swap_wave :: "(int \<Rightarrow> int) \<Rightarrow> int \<Rightarrow> int" where
  "swap_wave F e = F (- e) + e"

lemma swap_box_simps [simp]:
  "bx_off1 (swap_box b) = bx_off2 b" "bx_lim1 (swap_box b) = bx_lim2 b" "bx_off2 (swap_box b) = bx_off1 b"
  "bx_lim2 (swap_box b) = bx_lim1 b" "box_ok (swap_box b) = box_ok b" "swap_box (swap_box b) = b"
  by (auto simp: swap_box_def box_ok_def)

lemma swap_wave_swap [simp]: "swap_wave (swap_wave F) = F"
  by (rule ext) (simp add: swap_wave_def)

lemma region_swap: "e \<in> region (swap_box b) c \<longleftrightarrow> - e \<in> region b c"
proof -
  have "even (e - forwardMid (swap_box b) - c) \<longleftrightarrow> even (- e - forwardMid b - c)"
    by (simp add: forwardMid_def) (metis (no_types, opaque_lifting) add.commute even_add even_minus uminus_add_conv_diff)
  moreover have "\<bar>e - forwardMid (swap_box b)\<bar> = \<bar>- e - forwardMid b\<bar>" by (simp add: forwardMid_def)
  ultimately show ?thesis by (auto simp: region_def box_defs)
qed

text \<open>
  One step of a wave: every diagonal takes the better of its two neighbours by one edit, and then possibly a run of
  equal lines, which ends inside the box and not at its far corner.
\<close>

definition wave_step :: "Box \<Rightarrow> int \<Rightarrow> (int \<Rightarrow> int) \<Rightarrow> (int \<Rightarrow> int) \<Rightarrow> bool" where
  "wave_step b c F G =
     (\<forall>e \<in> region b (c + 1).
        (e - 1 \<in> region b c \<longrightarrow> F (e - 1) + 1 \<le> G e) \<and> (e + 1 \<in> region b c \<longrightarrow> F (e + 1) \<le> G e) \<and>
        (e - 1 \<in> region b c \<and> G e = F (e - 1) + 1 \<or> e + 1 \<in> region b c \<and> G e = F (e + 1) \<or>
         G e \<le> bx_lim1 b \<and> G e - e \<le> bx_lim2 b \<and> (G e < bx_lim1 b \<or> G e - e < bx_lim2 b)))"

definition wave_low :: "Box \<Rightarrow> int \<Rightarrow> (int \<Rightarrow> int) \<Rightarrow> bool" where
  "wave_low b c F =
     (\<forall>e \<in> region b c. bx_off1 b \<le> F e \<and> bx_off2 b \<le> F e - e \<and> bx_off1 b + bx_off2 b + c \<le> 2 * F e - e)"

definition outside :: "Box \<Rightarrow> (int \<Rightarrow> int) \<Rightarrow> int \<Rightarrow> bool" where
  "outside b F e = (bx_lim1 b \<le> F e \<or> bx_lim2 b \<le> F e - e)"

text \<open>What holds of a wave while the scans have not met.\<close>

definition right_edge :: "Box \<Rightarrow> int \<Rightarrow> (int \<Rightarrow> int) \<Rightarrow> bool" where
  "right_edge b c F =
     (\<forall>e \<in> region b c. bx_lim1 b \<le> F e \<longrightarrow> (\<exists>e' \<in> region b c. e' \<le> e - 2 * (F e - bx_lim1 b) \<and> bx_lim1 b \<le> F e'))"

definition wave_inv :: "Box \<Rightarrow> int \<Rightarrow> (int \<Rightarrow> int) \<Rightarrow> bool" where
  "wave_inv b c F =
     (wave_low b c F \<and> right_edge b c F \<and> right_edge (swap_box b) c (swap_wave F) \<and>
      (\<forall>e \<in> region b c. outside b F e \<longrightarrow> 1 \<le> c \<and> 2 * F e - e \<le> bx_lim1 b + bx_lim2 b - c - 1))"

definition apart :: "Box \<Rightarrow> int \<Rightarrow> (int \<Rightarrow> int) \<Rightarrow> bool" where
  "apart b c F = (\<forall>e \<in> region b c. \<bar>e - backwardMid b\<bar> \<le> c \<longrightarrow> \<not> outside b F e)"

lemma outside_swap: "outside (swap_box b) (swap_wave F) e \<longleftrightarrow> outside b F (- e)"
  by (auto simp: outside_def swap_wave_def)

lemma wave_low_swap: "wave_low (swap_box b) c (swap_wave F) \<longleftrightarrow> wave_low b c F"
proof -
  have "wave_low (swap_box b) c (swap_wave F)" if "wave_low b c F" for b F
    using that by (fastforce simp: wave_low_def region_swap swap_wave_def)
  then show ?thesis by (metis swap_box_simps(6) swap_wave_swap)
qed

lemma wave_step_swap: "wave_step b c F G \<Longrightarrow> wave_step (swap_box b) c (swap_wave F) (swap_wave G)"
  unfolding wave_step_def
proof
  fix e assume w: "\<forall>e \<in> region b (c + 1). (e - 1 \<in> region b c \<longrightarrow> F (e - 1) + 1 \<le> G e) \<and> (e + 1 \<in> region b c \<longrightarrow> F (e + 1) \<le> G e) \<and>
        (e - 1 \<in> region b c \<and> G e = F (e - 1) + 1 \<or> e + 1 \<in> region b c \<and> G e = F (e + 1) \<or>
         G e \<le> bx_lim1 b \<and> G e - e \<le> bx_lim2 b \<and> (G e < bx_lim1 b \<or> G e - e < bx_lim2 b))"
    and e: "e \<in> region (swap_box b) (c + 1)"
  have turn: "- (e - 1) = - e + 1" "- (e + 1) = - e - 1" by simp_all
  have "- e \<in> region b (c + 1)" using e by (simp add: region_swap)
  from w [rule_format, OF this]
  show "(e - 1 \<in> region (swap_box b) c \<longrightarrow> swap_wave F (e - 1) + 1 \<le> swap_wave G e) \<and>
      (e + 1 \<in> region (swap_box b) c \<longrightarrow> swap_wave F (e + 1) \<le> swap_wave G e) \<and>
      (e - 1 \<in> region (swap_box b) c \<and> swap_wave G e = swap_wave F (e - 1) + 1 \<or>
       e + 1 \<in> region (swap_box b) c \<and> swap_wave G e = swap_wave F (e + 1) \<or>
       swap_wave G e \<le> bx_lim1 (swap_box b) \<and> swap_wave G e - e \<le> bx_lim2 (swap_box b) \<and>
       (swap_wave G e < bx_lim1 (swap_box b) \<or> swap_wave G e - e < bx_lim2 (swap_box b)))"
    unfolding region_swap swap_wave_def turn by auto
qed

lemma wave_inv_swap: "wave_inv b c F \<Longrightarrow> wave_inv (swap_box b) c (swap_wave F)"
  by (auto simp: wave_inv_def wave_low_swap outside_swap region_swap) (auto simp: swap_wave_def)

lemma apart_swap: "apart b c F \<Longrightarrow> apart (swap_box b) c (swap_wave F)"
  unfolding apart_def
proof
  fix e assume a: "\<forall>e \<in> region b c. \<bar>e - backwardMid b\<bar> \<le> c \<longrightarrow> \<not> outside b F e" and e: "e \<in> region (swap_box b) c"
  have "\<bar>e - backwardMid (swap_box b)\<bar> = \<bar>- e - backwardMid b\<bar>" by (simp add: backwardMid_def)
  then show "\<bar>e - backwardMid (swap_box b)\<bar> \<le> c \<longrightarrow> \<not> outside (swap_box b) (swap_wave F) e"
    using a e by (simp add: region_swap outside_swap)
qed

section \<open>Steps of a wave\<close>

text \<open>Every diagonal of the next step has a neighbour in this one.\<close>

lemma region_parent:
  assumes ok: "box_ok b" and c: "0 \<le> c" and e: "e \<in> region b (c + 1)"
  shows "forwardMid b \<le> e \<Longrightarrow> e - 1 \<in> region b c" "e < forwardMid b \<Longrightarrow> e + 1 \<in> region b c"
proof -
  have p: "even (e - forwardMid b - (c + 1))" "\<bar>e - forwardMid b\<bar> \<le> c + 1" "dmin b \<le> e" "e \<le> dmax b"
    using e by (auto simp: region_def)
  have m: "dmin b < forwardMid b" "forwardMid b < dmax b" using ok by (auto simp: box_ok_def box_defs)
  show "e - 1 \<in> region b c" if le: "forwardMid b \<le> e"
  proof (cases "e = forwardMid b")
    case True
    then have "c \<noteq> 0" using p(1) by auto
    then show ?thesis using True c p m by (simp add: region_def)
  next
    case False
    then show ?thesis using p m le by (auto simp: region_def)
  qed
  show "e + 1 \<in> region b c" if "e < forwardMid b" using p m that by (auto simp: region_def)
qed

lemma region_lower: "q \<in> region b c \<Longrightarrow> q \<noteq> dmin b \<Longrightarrow> q - 1 \<in> region b (c + 1)"
  by (auto simp: region_def)

lemma wave_step_cases:
  assumes "wave_step b c F G" "e \<in> region b (c + 1)"
  obtains (right) "e - 1 \<in> region b c" "G e = F (e - 1) + 1" | (down) "e + 1 \<in> region b c" "G e = F (e + 1)"
    | (snake) "G e \<le> bx_lim1 b" "G e - e \<le> bx_lim2 b" "G e < bx_lim1 b \<or> G e - e < bx_lim2 b"
  using assms unfolding wave_step_def by blast

lemma wave_low_step:
  assumes ok: "box_ok b" and c: "0 \<le> c" and low: "wave_low b c F" and step: "wave_step b c F G"
  shows "wave_low b (c + 1) G"
  unfolding wave_low_def
proof
  fix e assume e: "e \<in> region b (c + 1)"
  have "e - 1 \<in> region b c \<or> e + 1 \<in> region b c" using region_parent [OF ok c e] by linarith
  then show "bx_off1 b \<le> G e \<and> bx_off2 b \<le> G e - e \<and> bx_off1 b + bx_off2 b + (c + 1) \<le> 2 * G e - e"
  proof
    assume p: "e - 1 \<in> region b c"
    then have "F (e - 1) + 1 \<le> G e" using step e by (simp add: wave_step_def)
    then show ?thesis using low [unfolded wave_low_def, rule_format, OF p] by linarith
  next
    assume p: "e + 1 \<in> region b c"
    then have "F (e + 1) \<le> G e" using step e by (simp add: wave_step_def)
    then show ?thesis using low [unfolded wave_low_def, rule_format, OF p] by linarith
  qed
qed

text \<open>A point outside has come from a point outside, or from a point at the edge.\<close>

lemma outside_parent:
  assumes inv: "wave_inv b c F" and step: "wave_step b c F G" and e: "e \<in> region b (c + 1)"
    and out: "bx_lim1 b < G e \<or> bx_lim2 b < G e - e \<or> bx_lim1 b \<le> G e \<and> bx_lim2 b \<le> G e - e"
  shows "1 \<le> c \<and> 2 * G e - e \<le> bx_lim1 b + bx_lim2 b - c"
proof -
  have bound: "1 \<le> c \<and> 2 * F e' - e' \<le> bx_lim1 b + bx_lim2 b - c - 1" if "e' \<in> region b c" "outside b F e'" for e'
    using inv that by (simp add: wave_inv_def)
  from step e show ?thesis
  proof (cases rule: wave_step_cases)
    case right
    then have "outside b F (e - 1)" using out by (auto simp: outside_def)
    from bound [OF right(1) this] right(2) show ?thesis by simp
  next
    case down
    then have "outside b F (e + 1)" using out by (auto simp: outside_def)
    from bound [OF down(1) this] down(2) show ?thesis by simp
  next
    case snake
    then show ?thesis using out by linarith
  qed
qed

lemma never_both:
  assumes "wave_inv b c F" "wave_step b c F G" "e \<in> region b (c + 1)"
  shows "\<not> (bx_lim1 b \<le> G e \<and> bx_lim2 b \<le> G e - e)"
  using outside_parent [OF assms] by fastforce

text \<open>On a diagonal that the opposite scan may have reached, the point is inside.\<close>

lemma near_inside:
  assumes "wave_inv b c F" "wave_step b c F G" "e \<in> region b (c + 1)" "\<bar>e - backwardMid b\<bar> \<le> c + 1"
  shows "G e \<le> bx_lim1 b" "G e - e \<le> bx_lim2 b"
proof -
  show "G e \<le> bx_lim1 b"
  proof (rule ccontr)
    assume "\<not> ?thesis"
    then have o: "bx_lim1 b < G e" by simp
    then show False using outside_parent [OF assms(1-3)] assms(4) by (simp add: backwardMid_def)
  qed
  show "G e - e \<le> bx_lim2 b"
  proof (rule ccontr)
    assume "\<not> ?thesis"
    then have "bx_lim2 b < G e - e" by simp
    then show False using outside_parent [OF assms(1-3)] assms(4) by (simp add: backwardMid_def)
  qed
qed

text \<open>A point beyond the right edge leaves a trail of points at the edge, on lower and lower diagonals.\<close>

lemma right_edge_step:
  assumes ok: "box_ok b" and inv: "wave_inv b c F" and step: "wave_step b c F G" and c: "0 \<le> c"
  shows "right_edge b (c + 1) G"
  unfolding right_edge_def
proof (intro ballI impI)
  fix e assume e: "e \<in> region b (c + 1)" and edge: "bx_lim1 b \<le> G e"
  have trail: "\<exists>e' \<in> region b (c + 1). e' \<le> p - 1 - 2 * (F p - bx_lim1 b) \<and> bx_lim1 b \<le> G e'"
    if p: "p \<in> region b c" "bx_lim1 b \<le> F p" for p
  proof -
    obtain q where q: "q \<in> region b c" "q \<le> p - 2 * (F p - bx_lim1 b)" "bx_lim1 b \<le> F q"
      using inv p unfolding wave_inv_def right_edge_def by blast
    have "1 \<le> c \<and> 2 * F q - q \<le> bx_lim1 b + bx_lim2 b - c - 1" using inv q by (simp add: wave_inv_def outside_def)
    then have "q \<noteq> dmin b" using q(3) ok by (auto simp: dmin_def box_ok_def)
    then have "q - 1 \<in> region b (c + 1)" using region_lower [OF q(1)] by simp
    moreover have "F q \<le> G (q - 1)"
      using step calculation q(1) unfolding wave_step_def by (metis diff_add_cancel)
    ultimately show ?thesis using q(2,3) by (intro bexI [of _ "q - 1"]) auto
  qed
  from step e show "\<exists>e' \<in> region b (c + 1). e' \<le> e - 2 * (G e - bx_lim1 b) \<and> bx_lim1 b \<le> G e'"
  proof (cases rule: wave_step_cases)
    case right
    show ?thesis
    proof (cases "G e = bx_lim1 b")
      case False
      then have "bx_lim1 b \<le> F (e - 1)" using right(2) edge by linarith
      from trail [OF right(1) this] obtain e' where
        "e' \<in> region b (c + 1)" "e' \<le> e - 1 - 1 - 2 * (F (e - 1) - bx_lim1 b)" "bx_lim1 b \<le> G e'" by blast
      then show ?thesis using right(2) by (intro bexI [of _ e']) auto
    qed (use e edge in auto)
  next
    case down
    then show ?thesis using trail [OF down(1)] edge by auto
  next
    case snake
    then show ?thesis using e edge by (intro bexI [of _ e]) auto
  qed
qed

lemma edge_sum:
  assumes edge: "right_edge b c F" and apart: "apart b c F" and e: "e \<in> region b c" "bx_lim1 b \<le> F e"
    and both: "\<And>e. e \<in> region b c \<Longrightarrow> \<not> (bx_lim1 b \<le> F e \<and> bx_lim2 b \<le> F e - e)"
  shows "2 * F e - e \<le> bx_lim1 b + bx_lim2 b - c - 1"
proof -
  obtain q where q: "q \<in> region b c" "q \<le> e - 2 * (F e - bx_lim1 b)" "bx_lim1 b \<le> F q"
    using edge e unfolding right_edge_def by blast
  have "\<not> \<bar>q - backwardMid b\<bar> \<le> c" using apart q(1,3) by (auto simp: apart_def outside_def)
  moreover have "backwardMid b < q" using both [OF q(1)] q(3) by (simp add: backwardMid_def)
  ultimately show ?thesis using q(2) by (simp add: backwardMid_def)
qed

theorem wave_advance:
  assumes ok: "box_ok b" and inv: "wave_inv b c F" and step: "wave_step b c F G" and c: "0 \<le> c" and apart: "apart b (c + 1) G"
  shows "wave_inv b (c + 1) G"
proof -
  note inv' = wave_inv_swap [OF inv] and step' = wave_step_swap [OF step]
  have ok': "box_ok (swap_box b)" using ok by simp
  have edges: "right_edge b (c + 1) G" "right_edge (swap_box b) (c + 1) (swap_wave G)"
    using right_edge_step [OF ok inv step c] right_edge_step [OF ok' inv' step' c] .
  have "1 \<le> c + 1 \<and> 2 * G e - e \<le> bx_lim1 b + bx_lim2 b - (c + 1) - 1" if e: "e \<in> region b (c + 1)" and out: "outside b G e" for e
  proof (cases "bx_lim1 b \<le> G e")
    case True
    then show ?thesis using edge_sum [OF edges(1) apart e True never_both [OF inv step]] c by simp
  next
    case False
    then have "bx_lim1 (swap_box b) \<le> swap_wave G (- e)" "- e \<in> region (swap_box b) (c + 1)"
      using out e by (simp_all add: outside_def swap_wave_def region_swap)
    from edge_sum [OF edges(2) apart_swap [OF apart] this(2,1) never_both [OF inv' step']]
    show ?thesis using c by (simp add: swap_wave_def)
  qed
  then show ?thesis using edges wave_low_step [OF ok c _ step] inv by (auto simp: wave_inv_def)
qed

end
