(* ===== verification/DiffScan.thy ===== *)
theory DiffScan
  imports DiffWave
begin

text \<open>
  The scan of \<open>findSplit\<close> as two waves: the arrays hold the points of the last two costs, the ranges of diagonals are
  the regions, and a scan that goes on keeps the invariant of both waves. It follows that the scan returns, and that
  its split lies inside the box and at neither of its two corners.
\<close>

section \<open>Arrays\<close>

definition covers :: "Diagonals \<Rightarrow> Box \<Rightarrow> bool" where
  "covers k b = (0 \<le> dmin b - 1 + dg_offset k \<and> dmax b + 1 + dg_offset k < int (length (dg_values k)))"

definition near :: "Box \<Rightarrow> int \<Rightarrow> bool" where
  "near b e = (dmin b - 1 \<le> e \<and> e \<le> dmax b + 1)"

definition same_shape :: "Diagonals \<Rightarrow> Diagonals \<Rightarrow> bool" where
  "same_shape k k' = (dg_offset k' = dg_offset k \<and> length (dg_values k') = length (dg_values k))"

lemma same_shape_refl [simp]: "same_shape k k"
  by (simp add: same_shape_def)

lemma same_shape_trans: "same_shape k k' \<Longrightarrow> same_shape k' k'' \<Longrightarrow> same_shape k k''"
  by (simp add: same_shape_def)

lemma same_shape_set [simp]: "same_shape k (dg_set k d v)"
  by (simp add: same_shape_def dg_set_def Let_def)

lemma covers_shape: "same_shape k k' \<Longrightarrow> covers k' b = covers k b"
  by (simp add: same_shape_def covers_def)

lemma get_set:
  assumes "covers k b" "near b d" "near b e"
  shows "dg_get (dg_set k d v) e = (if e = d then v else dg_get k e)"
proof -
  have "0 \<le> d + dg_offset k" "nat (d + dg_offset k) < length (dg_values k)" "0 \<le> e + dg_offset k" "nat (e + dg_offset k) < length (dg_values k)"
    using assms by (auto simp: covers_def near_def)
  then show ?thesis by (auto simp: dg_get_def dg_set_def Let_def nth_list_update eq_nat_nat_iff)
qed

section \<open>Ranges\<close>

definition region_at :: "Box \<Rightarrow> int \<Rightarrow> int \<Rightarrow> int set" where
  "region_at b mid c = {e. dmin b \<le> e \<and> e \<le> dmax b \<and> \<bar>e - mid\<bar> \<le> c \<and> even (e - mid - c)}"

lemma region_at_forward: "region_at b (forwardMid b) c = region b c"
  by (simp add: region_at_def region_def)

definition low_end :: "Box \<Rightarrow> int \<Rightarrow> int \<Rightarrow> int" where
  "low_end b mid c = (if dmin b \<le> mid - c then mid - c else if even (dmin b - mid - c) then dmin b else dmin b + 1)"

definition high_end :: "Box \<Rightarrow> int \<Rightarrow> int \<Rightarrow> int" where
  "high_end b mid c = (if mid + c \<le> dmax b then mid + c else if even (dmax b - mid - c) then dmax b else dmax b - 1)"

lemma low_end_step: "low_end b mid (c + 1) = (if low_end b mid c > dmin b then low_end b mid c - 1 else low_end b mid c + 1)"
  by (cases "dmin b = mid - c") (auto simp: low_end_def)

lemma high_end_step: "high_end b mid (c + 1) = (if high_end b mid c < dmax b then high_end b mid c + 1 else high_end b mid c - 1)"
  by (cases "dmax b = mid + c") (auto simp: high_end_def)

lemma set_diagonals_down: "set (diagonals_down high low) = {e. low \<le> e \<and> e \<le> high \<and> even (high - e)}"
proof (induction high low rule: diagonals_down.induct)
  case (1 high low)
  show ?case
  proof (cases "low \<le> high")
    case True
    have split: "{e. low \<le> e \<and> e \<le> high \<and> even (high - e)} = insert high {e. low \<le> e \<and> e \<le> high - 2 \<and> even (high - 2 - e)}"
    proof -
      have "e = high \<or> e \<le> high - 2" if "even (high - e)" "e \<le> high" for e
      proof -
        have "e \<noteq> high - 1" using that(1) by auto
        then show ?thesis using that(2) by linarith
      qed
      moreover have "even (high - 2 - e) = even (high - e)" for e by simp
      ultimately show ?thesis using True by (auto simp del: even_diff)
    qed
    show ?thesis using 1 [OF True] True split by (simp add: diagonals_down.simps [of high low])
  qed (auto simp: diagonals_down.simps [of high low])
qed

lemma distinct_diagonals_down: "distinct (diagonals_down high low)"
  by (induction high low rule: diagonals_down.induct) (subst diagonals_down.simps, auto simp: set_diagonals_down)

lemma even_ends: "even (high_end b mid c - mid - c)" "even (low_end b mid c - mid - c)"
  by (auto simp: low_end_def high_end_def)

lemma region_ends:
  assumes "dmin b < mid" "mid < dmax b" "0 \<le> c"
  shows "e \<in> region_at b mid c \<longleftrightarrow> low_end b mid c \<le> e \<and> e \<le> high_end b mid c \<and> even (high_end b mid c - e)"
proof -
  have par: "even (high_end b mid c - e) \<longleftrightarrow> even (e - mid - c)" using even_ends(1) [of b mid c] by auto
  have low: "low_end b mid c \<le> e \<longleftrightarrow> dmin b \<le> e \<and> mid - c \<le> e" if "even (e - mid - c)"
    using that by (cases "e = dmin b") (auto simp: low_end_def)
  have high: "e \<le> high_end b mid c \<longleftrightarrow> e \<le> dmax b \<and> e \<le> mid + c" if "even (e - mid - c)"
    using that by (cases "e = dmax b") (auto simp: high_end_def)
  show ?thesis using low high par by (auto simp: region_at_def)
qed

lemma ends_in_box:
  assumes "dmin b < mid" "mid < dmax b" "0 \<le> c"
  shows "dmin b \<le> low_end b mid c" "high_end b mid c \<le> dmax b" "low_end b mid c \<le> high_end b mid c"
proof -
  show "dmin b \<le> low_end b mid c" "high_end b mid c \<le> dmax b" by (simp_all add: low_end_def high_end_def)
  have "low_end b mid c \<le> mid" "mid \<le> high_end b mid c" using assms by (auto simp: low_end_def high_end_def)
  then show "low_end b mid c \<le> high_end b mid c" by simp
qed

lemma region_nonempty:
  assumes "dmin b < mid" "mid < dmax b" "0 \<le> c"
  shows "high_end b mid c \<in> region_at b mid c"
  using region_ends [OF assms] ends_in_box [OF assms] by simp

section \<open>Snakes\<close>

lemma snake_up_props:
  "snake_up left right lim1 lim2 i1 i2 = (j1, j2) \<Longrightarrow>
   j1 - j2 = i1 - i2 \<and> i1 \<le> j1 \<and> (i1 < j1 \<longrightarrow> j1 \<le> lim1 \<and> j2 \<le> lim2 \<and> hashAt left (j1 - 1) = hashAt right (j2 - 1)) \<and>
   (\<forall>k. 0 \<le> k \<and> k < j1 - i1 \<longrightarrow> hashAt left (i1 + k) = hashAt right (i2 + k)) \<and>
   \<not> (j1 < lim1 \<and> j2 < lim2 \<and> hashAt left j1 = hashAt right j2)"
proof (induction left right lim1 lim2 i1 i2 rule: snake_up.induct)
  case (1 left right lim1 lim2 i1 i2)
  show ?case
  proof (cases "i1 < lim1 \<and> i2 < lim2 \<and> hashAt left i1 = hashAt right i2")
    case True
    have IH: "j1 - j2 = i1 - i2" "i1 + 1 \<le> j1" "i1 + 1 < j1 \<longrightarrow> j1 \<le> lim1 \<and> j2 \<le> lim2 \<and> hashAt left (j1 - 1) = hashAt right (j2 - 1)"
      "\<And>k. 0 \<le> k \<Longrightarrow> k < j1 - (i1 + 1) \<Longrightarrow> hashAt left (i1 + 1 + k) = hashAt right (i2 + 1 + k)"
      "\<not> (j1 < lim1 \<and> j2 < lim2 \<and> hashAt left j1 = hashAt right j2)"
      using 1 True snake_up.simps [of left right lim1 lim2 i1 i2] by auto
    have "hashAt left (i1 + k) = hashAt right (i2 + k)" if "0 \<le> k" "k < j1 - i1" for k
    proof (cases "k = 0")
      case False
      then show ?thesis using IH(4) [of "k - 1"] that by simp
    qed (use True in simp)
    moreover have "j1 \<le> lim1 \<and> j2 \<le> lim2 \<and> hashAt left (j1 - 1) = hashAt right (j2 - 1)"
    proof (cases "i1 + 1 = j1")
      case True': True
      then have "j2 = i2 + 1" using IH(1) by simp
      then show ?thesis using True True' by auto
    qed (use IH(2,3) in simp)
    ultimately show ?thesis using IH(1,2,5) by simp
  next
    case False
    then show ?thesis using 1(2) snake_up.simps [of left right lim1 lim2 i1 i2] by auto
  qed
qed

lemma snake_down_props:
  "snake_down left right off1 off2 i1 i2 = (j1, j2) \<Longrightarrow>
   j1 - j2 = i1 - i2 \<and> j1 \<le> i1 \<and> (j1 < i1 \<longrightarrow> off1 \<le> j1 \<and> off2 \<le> j2 \<and> hashAt left j1 = hashAt right j2) \<and>
   (\<forall>k. 0 \<le> k \<and> k < i1 - j1 \<longrightarrow> hashAt left (j1 + k) = hashAt right (j2 + k)) \<and>
   \<not> (off1 < j1 \<and> off2 < j2 \<and> hashAt left (j1 - 1) = hashAt right (j2 - 1))"
proof (induction left right off1 off2 i1 i2 rule: snake_down.induct)
  case (1 left right off1 off2 i1 i2)
  show ?case
  proof (cases "i1 > off1 \<and> i2 > off2 \<and> hashAt left (i1 - 1) = hashAt right (i2 - 1)")
    case True
    have IH: "j1 - j2 = i1 - i2" "j1 \<le> i1 - 1" "j1 < i1 - 1 \<longrightarrow> off1 \<le> j1 \<and> off2 \<le> j2 \<and> hashAt left j1 = hashAt right j2"
      "\<And>k. 0 \<le> k \<Longrightarrow> k < i1 - 1 - j1 \<Longrightarrow> hashAt left (j1 + k) = hashAt right (j2 + k)"
      "\<not> (off1 < j1 \<and> off2 < j2 \<and> hashAt left (j1 - 1) = hashAt right (j2 - 1))"
      using 1 True snake_down.simps [of left right off1 off2 i1 i2] by auto
    have "j1 + (i1 - 1 - j1) = i1 - 1" "j2 + (i1 - 1 - j1) = i2 - 1" using IH(1) by simp_all
    then have last: "hashAt left (j1 + (i1 - 1 - j1)) = hashAt right (j2 + (i1 - 1 - j1))" using True by (simp only:)
    have "hashAt left (j1 + k) = hashAt right (j2 + k)" if "0 \<le> k" "k < i1 - j1" for k
    proof (cases "k = i1 - 1 - j1")
      case False
      then show ?thesis using IH(4) [of k] that by simp
    qed (use last in simp)
    moreover have "off1 \<le> j1 \<and> off2 \<le> j2 \<and> hashAt left j1 = hashAt right j2"
    proof (cases "j1 = i1 - 1")
      case True': True
      then have "j2 = i2 - 1" using IH(1) by simp
      then show ?thesis using True True' by auto
    qed (use IH(2,3) in simp)
    ultimately show ?thesis using IH(1,2,5) by simp
  next
    case False
    then show ?thesis using 1(2) snake_down.simps [of left right off1 off2 i1 i2] by auto
  qed
qed

section \<open>Passes\<close>

definition next_forward :: "Side \<Rightarrow> Side \<Rightarrow> Box \<Rightarrow> (int \<Rightarrow> int) \<Rightarrow> int \<Rightarrow> int" where
  "next_forward left right b F d =
     (let p = (if F (d - 1) \<ge> F (d + 1) then F (d - 1) + 1 else F (d + 1)) in fst (snake_up left right (bx_lim1 b) (bx_lim2 b) p (p - d)))"

definition next_backward :: "Side \<Rightarrow> Side \<Rightarrow> Box \<Rightarrow> (int \<Rightarrow> int) \<Rightarrow> int \<Rightarrow> int" where
  "next_backward left right b F d =
     (let p = (if F (d - 1) < F (d + 1) then F (d - 1) else F (d + 1) - 1) in fst (snake_down left right (bx_off1 b) (bx_off2 b) p (p - d)))"

definition split_at_point :: "int \<Rightarrow> int \<Rightarrow> Split" where
  "split_at_point i1 d = \<lparr>sp_i1 = i1, sp_i2 = i1 - d, sp_minimalLow = True, sp_minimalHigh = True\<rparr>"

definition meets_forward :: "Side \<Rightarrow> Side \<Rightarrow> Box \<Rightarrow> Scan \<Rightarrow> (int \<Rightarrow> int) \<Rightarrow> int \<Rightarrow> bool" where
  "meets_forward left right b sc F d =
     (odd_box b \<and> sc_backwardMin sc \<le> d \<and> d \<le> sc_backwardMax sc \<and> dg_get (sc_backward sc) d \<le> next_forward left right b F d)"

definition meets_backward :: "Side \<Rightarrow> Side \<Rightarrow> Box \<Rightarrow> Scan \<Rightarrow> (int \<Rightarrow> int) \<Rightarrow> int \<Rightarrow> bool" where
  "meets_backward left right b sc F d =
     (\<not> odd_box b \<and> sc_forwardMin sc \<le> d \<and> d \<le> sc_forwardMax sc \<and> next_backward left right b F d \<le> dg_get (sc_forward sc) d)"

lemma forward_pass_step:
  "\<exists>saw. forward_pass left right env b (d # ds) sc =
     (let i1 = next_forward left right b (dg_get (sc_forward sc)) d;
          sc1 = sc\<lparr>sc_sawSnake := saw, sc_forward := dg_set (sc_forward sc) d i1\<rparr>
      in if meets_forward left right b sc (dg_get (sc_forward sc)) d then (Some (split_at_point i1 d), sc1)
         else forward_pass left right env b ds sc1)"
proof -
  define p where "p = (if dg_get (sc_forward sc) (d - 1) \<ge> dg_get (sc_forward sc) (d + 1) then dg_get (sc_forward sc) (d - 1) + 1
      else dg_get (sc_forward sc) (d + 1))"
  obtain i1 i2 where s: "snake_up left right (bx_lim1 b) (bx_lim2 b) p (p - d) = (i1, i2)" by fastforce
  then have i2: "i2 = i1 - d" using snake_up_props [OF s] by simp
  have n: "next_forward left right b (dg_get (sc_forward sc)) d = i1" by (simp add: next_forward_def Let_def s flip: p_def)
  show ?thesis
    unfolding forward_pass.simps Let_def p_def [symmetric] s prod.case n meets_forward_def split_at_point_def
    by (intro exI [of _ "sc_sawSnake sc \<or> i1 - p > env_snakeCount env"]) (simp add: i2)
qed

lemma backward_pass_step:
  "\<exists>saw. backward_pass left right env b (d # ds) sc =
     (let i1 = next_backward left right b (dg_get (sc_backward sc)) d;
          sc1 = sc\<lparr>sc_sawSnake := saw, sc_backward := dg_set (sc_backward sc) d i1\<rparr>
      in if meets_backward left right b sc (dg_get (sc_backward sc)) d then (Some (split_at_point i1 d), sc1)
         else backward_pass left right env b ds sc1)"
proof -
  define p where "p = (if dg_get (sc_backward sc) (d - 1) < dg_get (sc_backward sc) (d + 1) then dg_get (sc_backward sc) (d - 1)
      else dg_get (sc_backward sc) (d + 1) - 1)"
  obtain i1 i2 where s: "snake_down left right (bx_off1 b) (bx_off2 b) p (p - d) = (i1, i2)" by fastforce
  then have i2: "i2 = i1 - d" using snake_down_props [OF s] by simp
  have n: "next_backward left right b (dg_get (sc_backward sc)) d = i1" by (simp add: next_backward_def Let_def s flip: p_def)
  show ?thesis
    unfolding backward_pass.simps Let_def p_def [symmetric] s prod.case n meets_backward_def split_at_point_def
    by (intro exI [of _ "sc_sawSnake sc \<or> p - i1 > env_snakeCount env"]) (simp add: i2)
qed

lemma forward_pass_spec:
  assumes "covers (sc_forward sc) b" "\<forall>d \<in> set ds. dmin b \<le> d \<and> d \<le> dmax b \<and> even (d - p)" "distinct ds"
    "forward_pass left right env b ds sc = (r, sc')"
  shows "\<exists>k saw. sc' = sc\<lparr>sc_forward := k, sc_sawSnake := saw\<rparr> \<and> same_shape (sc_forward sc) k \<and>
    (case r of
       None \<Rightarrow> (\<forall>e. near b e \<longrightarrow> dg_get k e = (if e \<in> set ds then next_forward left right b (dg_get (sc_forward sc)) e else dg_get (sc_forward sc) e)) \<and>
               (\<forall>d \<in> set ds. \<not> meets_forward left right b sc (dg_get (sc_forward sc)) d)
     | Some split \<Rightarrow> (\<exists>d \<in> set ds. meets_forward left right b sc (dg_get (sc_forward sc)) d \<and>
               split = split_at_point (next_forward left right b (dg_get (sc_forward sc)) d) d))"
  using assms
proof (induction ds arbitrary: sc)
  case Nil
  then show ?case by (auto intro!: exI [of _ "sc_forward sc"] exI [of _ "sc_sawSnake sc"])
next
  case (Cons d ds)
  let ?F = "dg_get (sc_forward sc)"
  define i1 where "i1 = next_forward left right b ?F d"
  obtain saw1 where step: "forward_pass left right env b (d # ds) sc =
     (if meets_forward left right b sc ?F d then (Some (split_at_point i1 d), sc\<lparr>sc_sawSnake := saw1, sc_forward := dg_set (sc_forward sc) d i1\<rparr>)
      else forward_pass left right env b ds (sc\<lparr>sc_sawSnake := saw1, sc_forward := dg_set (sc_forward sc) d i1\<rparr>))"
    using forward_pass_step [of left right env b d ds sc] unfolding Let_def i1_def [symmetric] by blast
  define sc1 where "sc1 = sc\<lparr>sc_sawSnake := saw1, sc_forward := dg_set (sc_forward sc) d i1\<rparr>"
  have run: "(if meets_forward left right b sc ?F d then (Some (split_at_point i1 d), sc1) else forward_pass left right env b ds sc1) = (r, sc')"
    using Cons.prems(4) step unfolding sc1_def by simp
  show ?case
  proof (cases "meets_forward left right b sc ?F d")
    case True
    then show ?thesis using run by (intro exI [of _ "sc_forward sc1"] exI [of _ saw1]) (auto simp: sc1_def i1_def)
  next
    case False
    have nd: "near b d" using Cons.prems(2) by (simp add: near_def)
    have get1: "dg_get (sc_forward sc1) e = (if e = d then i1 else ?F e)" if "near b e" for e
      using get_set [OF Cons.prems(1) nd that] by (simp add: sc1_def)
    have other: "dg_get (sc_forward sc1) (e - 1) = ?F (e - 1)" "dg_get (sc_forward sc1) (e + 1) = ?F (e + 1)" if "e \<in> set ds" for e
    proof -
      have "even (e - p)" "even (d - p)" "dmin b \<le> e" "e \<le> dmax b" using Cons.prems(2) that by auto
      then have "e - 1 \<noteq> d" "e + 1 \<noteq> d" "near b (e - 1)" "near b (e + 1)" by (auto simp: near_def)
      then show "dg_get (sc_forward sc1) (e - 1) = ?F (e - 1)" "dg_get (sc_forward sc1) (e + 1) = ?F (e + 1)" using get1 by auto
    qed
    have same: "next_forward left right b (dg_get (sc_forward sc1)) e = next_forward left right b ?F e" if "e \<in> set ds" for e
      unfolding next_forward_def other [OF that] ..
    have meets: "meets_forward left right b sc1 (dg_get (sc_forward sc1)) e = meets_forward left right b sc ?F e" if "e \<in> set ds" for e
      unfolding meets_forward_def same [OF that] by (simp add: sc1_def)
    have shape: "same_shape (sc_forward sc) (sc_forward sc1)" by (simp add: sc1_def)
    obtain k saw where IH: "sc' = sc1\<lparr>sc_forward := k, sc_sawSnake := saw\<rparr>" "same_shape (sc_forward sc1) k"
      "case r of
         None \<Rightarrow> (\<forall>e. near b e \<longrightarrow> dg_get k e = (if e \<in> set ds then next_forward left right b (dg_get (sc_forward sc1)) e else dg_get (sc_forward sc1) e)) \<and>
               (\<forall>d \<in> set ds. \<not> meets_forward left right b sc1 (dg_get (sc_forward sc1)) d)
       | Some split \<Rightarrow> (\<exists>d \<in> set ds. meets_forward left right b sc1 (dg_get (sc_forward sc1)) d \<and>
               split = split_at_point (next_forward left right b (dg_get (sc_forward sc1)) d) d)"
      using Cons.IH [of sc1] Cons.prems(1-3) run False covers_shape [OF shape, of b] by auto
    have "sc' = sc\<lparr>sc_forward := k, sc_sawSnake := saw\<rparr>" "same_shape (sc_forward sc) k"
      using IH(1,2) same_shape_trans [OF shape] by (simp_all add: sc1_def)
    then show ?thesis
      using IH(3) same meets False get1 Cons.prems(3)
      by (intro exI [of _ k] exI [of _ saw]) (auto simp: i1_def split: option.splits)
  qed
qed

lemma backward_pass_spec:
  assumes "covers (sc_backward sc) b" "\<forall>d \<in> set ds. dmin b \<le> d \<and> d \<le> dmax b \<and> even (d - p)" "distinct ds"
    "backward_pass left right env b ds sc = (r, sc')"
  shows "\<exists>k saw. sc' = sc\<lparr>sc_backward := k, sc_sawSnake := saw\<rparr> \<and> same_shape (sc_backward sc) k \<and>
    (case r of
       None \<Rightarrow> (\<forall>e. near b e \<longrightarrow> dg_get k e = (if e \<in> set ds then next_backward left right b (dg_get (sc_backward sc)) e else dg_get (sc_backward sc) e)) \<and>
               (\<forall>d \<in> set ds. \<not> meets_backward left right b sc (dg_get (sc_backward sc)) d)
     | Some split \<Rightarrow> (\<exists>d \<in> set ds. meets_backward left right b sc (dg_get (sc_backward sc)) d \<and>
               split = split_at_point (next_backward left right b (dg_get (sc_backward sc)) d) d))"
  using assms
proof (induction ds arbitrary: sc)
  case Nil
  then show ?case by (auto intro!: exI [of _ "sc_backward sc"] exI [of _ "sc_sawSnake sc"])
next
  case (Cons d ds)
  let ?F = "dg_get (sc_backward sc)"
  define i1 where "i1 = next_backward left right b ?F d"
  obtain saw1 where step: "backward_pass left right env b (d # ds) sc =
     (if meets_backward left right b sc ?F d then (Some (split_at_point i1 d), sc\<lparr>sc_sawSnake := saw1, sc_backward := dg_set (sc_backward sc) d i1\<rparr>)
      else backward_pass left right env b ds (sc\<lparr>sc_sawSnake := saw1, sc_backward := dg_set (sc_backward sc) d i1\<rparr>))"
    using backward_pass_step [of left right env b d ds sc] unfolding Let_def i1_def [symmetric] by blast
  define sc1 where "sc1 = sc\<lparr>sc_sawSnake := saw1, sc_backward := dg_set (sc_backward sc) d i1\<rparr>"
  have run: "(if meets_backward left right b sc ?F d then (Some (split_at_point i1 d), sc1) else backward_pass left right env b ds sc1) = (r, sc')"
    using Cons.prems(4) step unfolding sc1_def by simp
  show ?case
  proof (cases "meets_backward left right b sc ?F d")
    case True
    then show ?thesis using run by (intro exI [of _ "sc_backward sc1"] exI [of _ saw1]) (auto simp: sc1_def i1_def)
  next
    case False
    have nd: "near b d" using Cons.prems(2) by (simp add: near_def)
    have get1: "dg_get (sc_backward sc1) e = (if e = d then i1 else ?F e)" if "near b e" for e
      using get_set [OF Cons.prems(1) nd that] by (simp add: sc1_def)
    have other: "dg_get (sc_backward sc1) (e - 1) = ?F (e - 1)" "dg_get (sc_backward sc1) (e + 1) = ?F (e + 1)" if "e \<in> set ds" for e
    proof -
      have "even (e - p)" "even (d - p)" "dmin b \<le> e" "e \<le> dmax b" using Cons.prems(2) that by auto
      then have "e - 1 \<noteq> d" "e + 1 \<noteq> d" "near b (e - 1)" "near b (e + 1)" by (auto simp: near_def)
      then show "dg_get (sc_backward sc1) (e - 1) = ?F (e - 1)" "dg_get (sc_backward sc1) (e + 1) = ?F (e + 1)" using get1 by auto
    qed
    have same: "next_backward left right b (dg_get (sc_backward sc1)) e = next_backward left right b ?F e" if "e \<in> set ds" for e
      unfolding next_backward_def other [OF that] ..
    have meets: "meets_backward left right b sc1 (dg_get (sc_backward sc1)) e = meets_backward left right b sc ?F e" if "e \<in> set ds" for e
      unfolding meets_backward_def same [OF that] by (simp add: sc1_def)
    have shape: "same_shape (sc_backward sc) (sc_backward sc1)" by (simp add: sc1_def)
    obtain k saw where IH: "sc' = sc1\<lparr>sc_backward := k, sc_sawSnake := saw\<rparr>" "same_shape (sc_backward sc1) k"
      "case r of
         None \<Rightarrow> (\<forall>e. near b e \<longrightarrow> dg_get k e = (if e \<in> set ds then next_backward left right b (dg_get (sc_backward sc1)) e else dg_get (sc_backward sc1) e)) \<and>
               (\<forall>d \<in> set ds. \<not> meets_backward left right b sc1 (dg_get (sc_backward sc1)) d)
       | Some split \<Rightarrow> (\<exists>d \<in> set ds. meets_backward left right b sc1 (dg_get (sc_backward sc1)) d \<and>
               split = split_at_point (next_backward left right b (dg_get (sc_backward sc1)) d) d)"
      using Cons.IH [of sc1] Cons.prems(1-3) run False covers_shape [OF shape, of b] by auto
    have "sc' = sc\<lparr>sc_backward := k, sc_sawSnake := saw\<rparr>" "same_shape (sc_backward sc) k"
      using IH(1,2) same_shape_trans [OF shape] by (simp_all add: sc1_def)
    then show ?thesis
      using IH(3) same meets False get1 Cons.prems(3)
      by (intro exI [of _ k] exI [of _ saw]) (auto simp: i1_def split: option.splits)
  qed
qed

end
