(* ===== verification/DiffSplit.thy ===== *)
theory DiffSplit
  imports DiffScan
begin

text \<open>
  \<open>findSplit\<close> returns, and the split it returns lies in the box and at neither corner, so that both parts are smaller
  than the box: the invariant of the scan, one round of it, and the ways it ends.
\<close>

section \<open>The mirrored box\<close>

definition mirror_box :: "Box \<Rightarrow> Box" where
  "mirror_box b = \<lparr>bx_off1 = - bx_lim1 b, bx_lim1 = - bx_off1 b, bx_off2 = - bx_lim2 b, bx_lim2 = - bx_off2 b\<rparr>"

definition mirror_wave :: "(int \<Rightarrow> int) \<Rightarrow> int \<Rightarrow> int" where
  "mirror_wave F e = - F (- e)"

lemma mirror_box_simps [simp]:
  "bx_off1 (mirror_box b) = - bx_lim1 b" "bx_lim1 (mirror_box b) = - bx_off1 b" "bx_off2 (mirror_box b) = - bx_lim2 b"
  "bx_lim2 (mirror_box b) = - bx_off2 b" "box_ok (mirror_box b) = box_ok b"
  "backwardMid (mirror_box b) = - forwardMid b" "forwardMid (mirror_box b) = - backwardMid b"
  by (auto simp: mirror_box_def box_ok_def box_defs)

lemma region_mirror: "e \<in> region (mirror_box b) c \<longleftrightarrow> - e \<in> region_at b (backwardMid b) c"
proof -
  have "even (e + backwardMid b - c) \<longleftrightarrow> even (- e - backwardMid b - c)" by auto
  moreover have "\<bar>e + backwardMid b\<bar> = \<bar>- e - backwardMid b\<bar>" by simp
  ultimately show ?thesis unfolding region_def region_at_def mirror_box_simps by (auto simp: box_defs mirror_box_def)
qed

lemma mids:
  assumes "box_ok b"
  shows "dmin b < forwardMid b" "forwardMid b < dmax b" "dmin b < backwardMid b" "backwardMid b < dmax b"
  using assms by (auto simp: box_ok_def box_defs)

section \<open>A pass is a step of a wave\<close>

definition walled :: "Box \<Rightarrow> int \<Rightarrow> int \<Rightarrow> int \<Rightarrow> (int \<Rightarrow> int) \<Rightarrow> bool" where
  "walled b mid c wall F =
     (\<forall>e \<in> region_at b mid (c + 1). (e - 1 \<notin> region_at b mid c \<longrightarrow> F (e - 1) = wall) \<and> (e + 1 \<notin> region_at b mid c \<longrightarrow> F (e + 1) = wall))"

lemma next_forward_cases:
  fixes F b d
  defines "p \<equiv> (if F (d - 1) \<ge> F (d + 1) then F (d - 1) + 1 else F (d + 1))"
  shows "p \<le> next_forward left right b F d" "next_forward left right b F d \<noteq> p \<Longrightarrow>
    next_forward left right b F d \<le> bx_lim1 b \<and> next_forward left right b F d - d \<le> bx_lim2 b \<and>
    hashAt left (next_forward left right b F d - 1) = hashAt right (next_forward left right b F d - d - 1)"
proof -
  obtain i1 i2 where s: "snake_up left right (bx_lim1 b) (bx_lim2 b) p (p - d) = (i1, i2)" by fastforce
  have n: "next_forward left right b F d = i1" by (simp add: next_forward_def Let_def p_def [symmetric] s)
  have "i2 = i1 - d" using snake_up_props [OF s] by simp
  then show "p \<le> next_forward left right b F d" "next_forward left right b F d \<noteq> p \<Longrightarrow>
    next_forward left right b F d \<le> bx_lim1 b \<and> next_forward left right b F d - d \<le> bx_lim2 b \<and>
    hashAt left (next_forward left right b F d - 1) = hashAt right (next_forward left right b F d - d - 1)"
    using snake_up_props [OF s] unfolding n by auto
qed

lemma next_backward_cases:
  fixes F b d
  defines "p \<equiv> (if F (d - 1) < F (d + 1) then F (d - 1) else F (d + 1) - 1)"
  shows "next_backward left right b F d \<le> p" "next_backward left right b F d \<noteq> p \<Longrightarrow>
    bx_off1 b \<le> next_backward left right b F d \<and> bx_off2 b \<le> next_backward left right b F d - d \<and>
    hashAt left (next_backward left right b F d) = hashAt right (next_backward left right b F d - d)"
proof -
  obtain i1 i2 where s: "snake_down left right (bx_off1 b) (bx_off2 b) p (p - d) = (i1, i2)" by fastforce
  have n: "next_backward left right b F d = i1" by (simp add: next_backward_def Let_def p_def [symmetric] s)
  have "i2 = i1 - d" using snake_down_props [OF s] by simp
  then show "next_backward left right b F d \<le> p" "next_backward left right b F d \<noteq> p \<Longrightarrow>
    bx_off1 b \<le> next_backward left right b F d \<and> bx_off2 b \<le> next_backward left right b F d - d \<and>
    hashAt left (next_backward left right b F d) = hashAt right (next_backward left right b F d - d)"
    using snake_down_props [OF s] unfolding n by auto
qed

lemma forward_wave_step:
  assumes ok: "box_ok b" and c: "0 \<le> c" and pos: "0 \<le> bx_off1 b" and low: "wave_low b c F"
    and wall: "walled b (forwardMid b) c (- 1) F"
    and last: "hashAt left (bx_lim1 b - 1) \<noteq> hashAt right (bx_lim2 b - 1)"
  shows "wave_step b c F (next_forward left right b F)"
  unfolding wave_step_def
proof
  fix e assume e: "e \<in> region b (c + 1)"
  let ?n = "next_forward left right b F e"
  have val: "0 \<le> F e'" if "e' \<in> region b c" for e' using low pos that by (auto simp: wave_low_def)
  have walls: "e - 1 \<notin> region b c \<Longrightarrow> F (e - 1) = - 1" "e + 1 \<notin> region b c \<Longrightarrow> F (e + 1) = - 1"
    using wall e by (auto simp: walled_def region_at_forward)
  have one: "e - 1 \<in> region b c \<or> e + 1 \<in> region b c" using region_parent [OF ok c e] by linarith
  let ?p = "if F (e - 1) \<ge> F (e + 1) then F (e - 1) + 1 else F (e + 1)"
  have p: "(e - 1 \<in> region b c \<and> ?p = F (e - 1) + 1 \<or> e + 1 \<in> region b c \<and> ?p = F (e + 1))"
    "e - 1 \<in> region b c \<Longrightarrow> F (e - 1) + 1 \<le> ?p" "e + 1 \<in> region b c \<Longrightarrow> F (e + 1) \<le> ?p"
    using one walls val [of "e - 1"] val [of "e + 1"] by (cases "e - 1 \<in> region b c"; cases "e + 1 \<in> region b c"; auto)+
  note n = next_forward_cases [where F = F and d = e and left = left and right = right and b = b]
  show "(e - 1 \<in> region b c \<longrightarrow> F (e - 1) + 1 \<le> ?n) \<and> (e + 1 \<in> region b c \<longrightarrow> F (e + 1) \<le> ?n) \<and>
      (e - 1 \<in> region b c \<and> ?n = F (e - 1) + 1 \<or> e + 1 \<in> region b c \<and> ?n = F (e + 1) \<or>
       ?n \<le> bx_lim1 b \<and> ?n - e \<le> bx_lim2 b \<and> (?n < bx_lim1 b \<or> ?n - e < bx_lim2 b))"
  proof (cases "?n = ?p")
    case True
    show ?thesis unfolding True using p by blast
  next
    case False
    from n(2) [OF this] have s: "?n \<le> bx_lim1 b" "?n - e \<le> bx_lim2 b" "hashAt left (?n - 1) = hashAt right (?n - e - 1)" by auto
    have "?n < bx_lim1 b \<or> ?n - e < bx_lim2 b"
    proof (rule ccontr)
      assume "\<not> ?thesis"
      then have "?n = bx_lim1 b" "?n - e = bx_lim2 b" using s(1,2) by linarith+
      then show False using s(3) last by metis
    qed
    then show ?thesis using s(1,2) p(2,3) n(1) by (meson order_trans)
  qed
qed

lemma backward_wave_step:
  assumes ok: "box_ok b" and c: "0 \<le> c" and fin: "bx_lim1 b < LINE_MAX" and low: "wave_low (mirror_box b) c (mirror_wave F)"
    and wall: "walled b (backwardMid b) c LINE_MAX F"
    and first: "hashAt left (bx_off1 b) \<noteq> hashAt right (bx_off2 b)"
  shows "wave_step (mirror_box b) c (mirror_wave F) (mirror_wave (next_backward left right b F))"
  unfolding wave_step_def
proof
  fix e' assume e': "e' \<in> region (mirror_box b) (c + 1)"
  define e where "e = - e'"
  let ?R = "\<lambda>x. x \<in> region_at b (backwardMid b) c"
  let ?n = "next_backward left right b F e"
  have e: "e \<in> region_at b (backwardMid b) (c + 1)" using e' by (simp add: region_mirror e_def)
  have val: "F x < LINE_MAX" if "?R x" for x
    using low fin that unfolding wave_low_def by (auto simp: region_mirror mirror_wave_def dest!: bspec [of _ _ "- x"])
  have walls: "\<not> ?R (e - 1) \<Longrightarrow> F (e - 1) = LINE_MAX" "\<not> ?R (e + 1) \<Longrightarrow> F (e + 1) = LINE_MAX"
    using wall e by (auto simp: walled_def)
  have one: "?R (e - 1) \<or> ?R (e + 1)"
    using region_parent [of "mirror_box b" c e'] ok c e'
    by (cases "- backwardMid b \<le> e'") (auto simp: region_mirror e_def)
  let ?p = "if F (e - 1) < F (e + 1) then F (e - 1) else F (e + 1) - 1"
  have p: "(?R (e - 1) \<and> ?p = F (e - 1) \<or> ?R (e + 1) \<and> ?p = F (e + 1) - 1)"
    "?R (e - 1) \<Longrightarrow> ?p \<le> F (e - 1)" "?R (e + 1) \<Longrightarrow> ?p \<le> F (e + 1) - 1"
    using one walls val [of "e - 1"] val [of "e + 1"] by (cases "?R (e - 1)"; cases "?R (e + 1)"; auto)+
  note n = next_backward_cases [where F = F and d = e and left = left and right = right and b = b]
  have main: "(?R (e - 1) \<longrightarrow> ?n \<le> F (e - 1)) \<and> (?R (e + 1) \<longrightarrow> ?n \<le> F (e + 1) - 1) \<and>
      (?R (e - 1) \<and> ?n = F (e - 1) \<or> ?R (e + 1) \<and> ?n = F (e + 1) - 1 \<or>
       bx_off1 b \<le> ?n \<and> bx_off2 b \<le> ?n - e \<and> (bx_off1 b < ?n \<or> bx_off2 b < ?n - e))"
  proof (cases "?n = ?p")
    case True
    show ?thesis unfolding True using p by blast
  next
    case False
    from n(2) [OF this] have s: "bx_off1 b \<le> ?n" "bx_off2 b \<le> ?n - e" "hashAt left ?n = hashAt right (?n - e)" by auto
    have "bx_off1 b < ?n \<or> bx_off2 b < ?n - e"
    proof (rule ccontr)
      assume "\<not> ?thesis"
      then have "?n = bx_off1 b" "?n - e = bx_off2 b" using s(1,2) by linarith+
      then show False using s(3) first by metis
    qed
    then show ?thesis using s(1,2) p(2,3) n(1) by (meson order_trans)
  qed
  have turn: "e' - 1 \<in> region (mirror_box b) c \<longleftrightarrow> ?R (e + 1)" "e' + 1 \<in> region (mirror_box b) c \<longleftrightarrow> ?R (e - 1)"
    "mirror_wave F (e' - 1) = - F (e + 1)" "mirror_wave F (e' + 1) = - F (e - 1)" "mirror_wave (next_backward left right b F) e' = - ?n"
    by (simp_all add: region_mirror mirror_wave_def e_def)
  show "(e' - 1 \<in> region (mirror_box b) c \<longrightarrow> mirror_wave F (e' - 1) + 1 \<le> mirror_wave (next_backward left right b F) e') \<and>
      (e' + 1 \<in> region (mirror_box b) c \<longrightarrow> mirror_wave F (e' + 1) \<le> mirror_wave (next_backward left right b F) e') \<and>
      (e' - 1 \<in> region (mirror_box b) c \<and> mirror_wave (next_backward left right b F) e' = mirror_wave F (e' - 1) + 1 \<or>
       e' + 1 \<in> region (mirror_box b) c \<and> mirror_wave (next_backward left right b F) e' = mirror_wave F (e' + 1) \<or>
       mirror_wave (next_backward left right b F) e' \<le> bx_lim1 (mirror_box b) \<and>
       mirror_wave (next_backward left right b F) e' - e' \<le> bx_lim2 (mirror_box b) \<and>
       (mirror_wave (next_backward left right b F) e' < bx_lim1 (mirror_box b) \<or>
        mirror_wave (next_backward left right b F) e' - e' < bx_lim2 (mirror_box b)))"
    unfolding turn mirror_box_simps using main by (auto simp: e_def)
qed

section \<open>The invariant of the scan\<close>

definition wave_pre :: "Box \<Rightarrow> int \<Rightarrow> (int \<Rightarrow> int) \<Rightarrow> bool" where
  "wave_pre b c G = (wave_inv b c G \<or> 1 \<le> c \<and> (\<exists>F. wave_inv b (c - 1) F \<and> wave_step b (c - 1) F G))"

lemma wave_pre_low: "box_ok b \<Longrightarrow> wave_pre b c G \<Longrightarrow> wave_low b c G"
  using wave_low_step [of b "c - 1"] by (auto simp: wave_pre_def wave_inv_def)

lemma wave_pre_inv: "box_ok b \<Longrightarrow> wave_pre b c G \<Longrightarrow> apart b c G \<Longrightarrow> wave_inv b c G"
  using wave_advance [of b "c - 1"] by (auto simp: wave_pre_def)

lemma wave_pre_both:
  assumes "wave_pre b c G" "0 \<le> c" "e \<in> region b c"
  shows "\<not> (bx_lim1 b \<le> G e \<and> bx_lim2 b \<le> G e - e)"
  using assms never_both [of b "c - 1" _ G e] by (auto simp: wave_pre_def wave_inv_def outside_def)

lemma wave_pre_step: "0 \<le> c \<Longrightarrow> wave_inv b c F \<Longrightarrow> wave_step b c F G \<Longrightarrow> wave_pre b (c + 1) G"
  by (auto simp: wave_pre_def)

lemma wave_step_cong: "wave_step b c F G \<Longrightarrow> (\<And>e. e \<in> region b c \<Longrightarrow> F' e = F e) \<Longrightarrow> (\<And>e. e \<in> region b (c + 1) \<Longrightarrow> G' e = G e) \<Longrightarrow> wave_step b c F' G'"
  by (simp add: wave_step_def cong: conj_cong)

lemma wave_inv_cong: "wave_inv b c F \<Longrightarrow> (\<And>e. e \<in> region b c \<Longrightarrow> F' e = F e) \<Longrightarrow> wave_inv b c F'"
proof -
  assume inv: "wave_inv b c F" and eq: "\<And>e. e \<in> region b c \<Longrightarrow> F' e = F e"
  have eq': "swap_wave F' e = swap_wave F e" if "e \<in> region (swap_box b) c" for e
    using eq that by (simp add: region_swap swap_wave_def)
  show ?thesis using inv eq eq' by (auto simp: wave_inv_def wave_low_def right_edge_def outside_def)
qed

lemma wave_pre_cong:
  assumes pre: "wave_pre b c F" and eq: "\<And>e. e \<in> region b c \<Longrightarrow> F' e = F e"
  shows "wave_pre b c F'"
proof -
  have "wave_step b (c - 1) H F \<Longrightarrow> wave_step b (c - 1) H F'" for H using eq by (auto intro: wave_step_cong)
  then show ?thesis using pre wave_inv_cong [of b c F F'] eq by (auto simp: wave_pre_def)
qed

definition scan_shape :: "Box \<Rightarrow> int \<Rightarrow> int \<Rightarrow> Scan \<Rightarrow> bool" where
  "scan_shape b cf cb sc =
     (covers (sc_forward sc) b \<and> covers (sc_backward sc) b \<and>
      sc_forwardMin sc = low_end b (forwardMid b) cf \<and> sc_forwardMax sc = high_end b (forwardMid b) cf \<and>
      sc_backwardMin sc = low_end b (backwardMid b) cb \<and> sc_backwardMax sc = high_end b (backwardMid b) cb)"

definition scan_inv :: "Box \<Rightarrow> int \<Rightarrow> Scan \<Rightarrow> bool" where
  "scan_inv b c sc =
     (scan_shape b c c sc \<and> wave_inv b c (dg_get (sc_forward sc)) \<and>
      wave_pre (mirror_box b) c (mirror_wave (dg_get (sc_backward sc))) \<and>
      (\<not> odd_box b \<longrightarrow> wave_inv (mirror_box b) c (mirror_wave (dg_get (sc_backward sc)))))"

text \<open>Widening keeps the points and puts up the walls.\<close>

lemma end_near:
  assumes "box_ok b" "0 \<le> c" "mid = forwardMid b \<or> mid = backwardMid b"
  shows "low_end b mid c > dmin b \<Longrightarrow> near b (low_end b mid c - 2)" "high_end b mid c < dmax b \<Longrightarrow> near b (high_end b mid c + 2)"
    "low_end b mid c - 2 \<notin> region_at b mid c" "high_end b mid c + 2 \<notin> region_at b mid c" "low_end b mid c \<le> high_end b mid c"
proof -
  have m: "dmin b < mid" "mid < dmax b" using mids [OF assms(1)] assms(3) by auto
  note e = ends_in_box [OF m assms(2)]
  show "low_end b mid c > dmin b \<Longrightarrow> near b (low_end b mid c - 2)" "high_end b mid c < dmax b \<Longrightarrow> near b (high_end b mid c + 2)"
    using e by (auto simp: near_def)
  show "low_end b mid c - 2 \<notin> region_at b mid c" "high_end b mid c + 2 \<notin> region_at b mid c" "low_end b mid c \<le> high_end b mid c"
    using region_ends [OF m assms(2)] e by auto
qed

lemma walled_ends:
  assumes ok: "box_ok b" "0 \<le> c" "mid = forwardMid b \<or> mid = backwardMid b"
    and walls: "low_end b mid c > dmin b \<Longrightarrow> F (low_end b mid c - 2) = wall" "high_end b mid c < dmax b \<Longrightarrow> F (high_end b mid c + 2) = wall"
  shows "walled b mid c wall F"
  unfolding walled_def
proof (intro ballI conjI impI)
  have m: "dmin b < mid" "mid < dmax b" using mids [OF ok(1)] ok(3) by auto
  note r = region_ends [OF m ok(2)] and r1 = region_ends [OF m, of "c + 1"] and e0 = even_ends [of b mid c] even_ends [of b mid "c + 1"]
  fix e assume e: "e \<in> region_at b mid (c + 1)"
  then have e': "low_end b mid (c + 1) \<le> e" "e \<le> high_end b mid (c + 1)" "even (e - mid - (c + 1))" using r1 ok(2) by (auto simp: region_at_def)
  show "F (e - 1) = wall" if "e - 1 \<notin> region_at b mid c"
  proof -
    have "e - 1 < low_end b mid c" using that r [of "e - 1"] e' e0 high_end_step [of b mid c] by (auto split: if_splits)
    moreover have "e \<noteq> low_end b mid c" using e'(3) e0(2) by auto
    ultimately have "low_end b mid c > dmin b" "e = low_end b mid c - 1" using e'(1) low_end_step [of b mid c] by (auto split: if_splits)
    then show ?thesis using walls(1) by simp
  qed
  show "F (e + 1) = wall" if "e + 1 \<notin> region_at b mid c"
  proof -
    have "e + 1 > high_end b mid c" using that r [of "e + 1"] e' e0 low_end_step [of b mid c] by (auto split: if_splits)
    moreover have "e \<noteq> high_end b mid c" using e'(3) e0(1) by auto
    ultimately have "high_end b mid c < dmax b" "e = high_end b mid c + 1" using e'(2) high_end_step [of b mid c] by (auto split: if_splits)
    then show ?thesis using walls(2) by (simp add: add.commute)
  qed
qed

lemma widen_forward_spec:
  assumes ok: "box_ok b" "0 \<le> c" and shape: "scan_shape b c cb sc"
  shows "scan_shape b (c + 1) cb (widen_forward b sc)" "sc_backward (widen_forward b sc) = sc_backward sc"
    "same_shape (sc_forward sc) (sc_forward (widen_forward b sc))"
    "\<And>e. e \<in> region_at b (forwardMid b) c \<Longrightarrow> dg_get (sc_forward (widen_forward b sc)) e = dg_get (sc_forward sc) e"
    "walled b (forwardMid b) c (- 1) (dg_get (sc_forward (widen_forward b sc)))"
proof -
  let ?lo = "low_end b (forwardMid b) c" and ?hi = "high_end b (forwardMid b) c" and ?k = "sc_forward sc"
  define k1 where "k1 = (if ?lo > dmin b then dg_set ?k (?lo - 2) (- 1) else ?k)"
  define k2 where "k2 = (if ?hi < dmax b then dg_set k1 (?hi + 2) (- 1) else k1)"
  have mid: "forwardMid b = forwardMid b \<or> forwardMid b = backwardMid b" by simp
  note near = end_near [OF ok mid]
  have cov: "covers ?k b" using shape by (simp add: scan_shape_def)
  have sh1: "same_shape ?k k1" by (simp add: k1_def)
  have sh2: "same_shape ?k k2" using same_shape_trans [OF sh1, of k2] by (simp add: k2_def)
  have cov1: "covers k1 b" "covers k2 b" using cov covers_shape [OF sh1] covers_shape [OF sh2] by simp_all
  have w: "sc_forward (widen_forward b sc) = k2" "sc_backward (widen_forward b sc) = sc_backward sc"
    "sc_forwardMin (widen_forward b sc) = low_end b (forwardMid b) (c + 1)" "sc_forwardMax (widen_forward b sc) = high_end b (forwardMid b) (c + 1)"
    "sc_backwardMin (widen_forward b sc) = sc_backwardMin sc" "sc_backwardMax (widen_forward b sc) = sc_backwardMax sc"
    using shape by (auto simp: widen_forward_def scan_shape_def Let_def k1_def k2_def low_end_step high_end_step)
  show "scan_shape b (c + 1) cb (widen_forward b sc)" using shape cov1 w by (simp add: scan_shape_def)
  show "sc_backward (widen_forward b sc) = sc_backward sc" by (rule w)
  show "same_shape (sc_forward sc) (sc_forward (widen_forward b sc))" using sh2 w(1) by simp
  have inbox: "near b e" if "e \<in> region_at b (forwardMid b) c" for e using that by (auto simp: region_at_def near_def)
  have get1: "dg_get k1 e = (if ?lo > dmin b \<and> e = ?lo - 2 then - 1 else dg_get ?k e)" if "near b e" for e
    using get_set [OF cov near(1) that] by (auto simp: k1_def)
  have get2: "dg_get k2 e = (if ?hi < dmax b \<and> e = ?hi + 2 then - 1 else dg_get k1 e)" if "near b e" for e
    using get_set [OF cov1(1) near(2) that] by (auto simp: k2_def)
  show "dg_get (sc_forward (widen_forward b sc)) e = dg_get (sc_forward sc) e" if "e \<in> region_at b (forwardMid b) c" for e
    using get1 [OF inbox [OF that]] get2 [OF inbox [OF that]] near(3,4) that w(1) by auto
  show "walled b (forwardMid b) c (- 1) (dg_get (sc_forward (widen_forward b sc)))"
    unfolding w(1)
  proof (rule walled_ends [OF ok mid])
    assume "dmin b < ?lo"
    then show "dg_get k2 (?lo - 2) = - 1" using get2 [OF near(1)] get1 [OF near(1)] near(5) by simp
  next
    assume "?hi < dmax b"
    then show "dg_get k2 (?hi + 2) = - 1" using get2 [OF near(2)] by simp
  qed
qed

lemma widen_backward_spec:
  assumes ok: "box_ok b" "0 \<le> c" and shape: "scan_shape b cf c sc"
  shows "scan_shape b cf (c + 1) (widen_backward b sc)" "sc_forward (widen_backward b sc) = sc_forward sc"
    "same_shape (sc_backward sc) (sc_backward (widen_backward b sc))"
    "\<And>e. e \<in> region_at b (backwardMid b) c \<Longrightarrow> dg_get (sc_backward (widen_backward b sc)) e = dg_get (sc_backward sc) e"
    "walled b (backwardMid b) c LINE_MAX (dg_get (sc_backward (widen_backward b sc)))"
proof -
  let ?lo = "low_end b (backwardMid b) c" and ?hi = "high_end b (backwardMid b) c" and ?k = "sc_backward sc"
  define k1 where "k1 = (if ?lo > dmin b then dg_set ?k (?lo - 2) LINE_MAX else ?k)"
  define k2 where "k2 = (if ?hi < dmax b then dg_set k1 (?hi + 2) LINE_MAX else k1)"
  have mid: "backwardMid b = forwardMid b \<or> backwardMid b = backwardMid b" by simp
  note near = end_near [OF ok mid]
  have cov: "covers ?k b" using shape by (simp add: scan_shape_def)
  have sh1: "same_shape ?k k1" by (simp add: k1_def)
  have sh2: "same_shape ?k k2" using same_shape_trans [OF sh1, of k2] by (simp add: k2_def)
  have cov1: "covers k1 b" "covers k2 b" using cov covers_shape [OF sh1] covers_shape [OF sh2] by simp_all
  have w: "sc_backward (widen_backward b sc) = k2" "sc_forward (widen_backward b sc) = sc_forward sc"
    "sc_backwardMin (widen_backward b sc) = low_end b (backwardMid b) (c + 1)" "sc_backwardMax (widen_backward b sc) = high_end b (backwardMid b) (c + 1)"
    "sc_forwardMin (widen_backward b sc) = sc_forwardMin sc" "sc_forwardMax (widen_backward b sc) = sc_forwardMax sc"
    using shape by (auto simp: widen_backward_def scan_shape_def Let_def k1_def k2_def low_end_step high_end_step)
  show "scan_shape b cf (c + 1) (widen_backward b sc)" using shape cov1 w by (simp add: scan_shape_def)
  show "sc_forward (widen_backward b sc) = sc_forward sc" by (rule w)
  show "same_shape (sc_backward sc) (sc_backward (widen_backward b sc))" using sh2 w(1) by simp
  have inbox: "near b e" if "e \<in> region_at b (backwardMid b) c" for e using that by (auto simp: region_at_def near_def)
  have get1: "dg_get k1 e = (if ?lo > dmin b \<and> e = ?lo - 2 then LINE_MAX else dg_get ?k e)" if "near b e" for e
    using get_set [OF cov near(1) that] by (auto simp: k1_def)
  have get2: "dg_get k2 e = (if ?hi < dmax b \<and> e = ?hi + 2 then LINE_MAX else dg_get k1 e)" if "near b e" for e
    using get_set [OF cov1(1) near(2) that] by (auto simp: k2_def)
  show "dg_get (sc_backward (widen_backward b sc)) e = dg_get (sc_backward sc) e" if "e \<in> region_at b (backwardMid b) c" for e
    using get1 [OF inbox [OF that]] get2 [OF inbox [OF that]] near(3,4) that w(1) by auto
  show "walled b (backwardMid b) c LINE_MAX (dg_get (sc_backward (widen_backward b sc)))"
    unfolding w(1)
  proof (rule walled_ends [OF ok mid])
    assume "dmin b < ?lo"
    then show "dg_get k2 (?lo - 2) = LINE_MAX" using get2 [OF near(1)] get1 [OF near(1)] near(5) by simp
  next
    assume "?hi < dmax b"
    then show "dg_get k2 (?hi + 2) = LINE_MAX" using get2 [OF near(2)] by simp
  qed
qed

lemma forward_round:
  assumes ok: "box_ok b" "0 \<le> c" and pos: "0 \<le> bx_off1 b" and shape: "scan_shape b c cb sc"
    and last: "hashAt left (bx_lim1 b - 1) \<noteq> hashAt right (bx_lim2 b - 1)"
    and inv: "wave_low b c (dg_get (sc_forward sc))"
    and run: "forward_pass left right env b (forward_diagonals (widen_forward b sc)) (widen_forward b sc) = (r, sc2)"
  obtains G where "wave_step b c (dg_get (sc_forward sc)) G" "scan_shape b (c + 1) cb sc2" "sc_backward sc2 = sc_backward sc"
    "same_shape (sc_forward sc) (sc_forward sc2)"
    "r = None \<Longrightarrow> (\<forall>e \<in> region b (c + 1). dg_get (sc_forward sc2) e = G e \<and>
       \<not> (odd_box b \<and> sc_backwardMin sc \<le> e \<and> e \<le> sc_backwardMax sc \<and> dg_get (sc_backward sc) e \<le> G e))"
    "\<And>split. r = Some split \<Longrightarrow> \<exists>d \<in> region b (c + 1). odd_box b \<and> sc_backwardMin sc \<le> d \<and> d \<le> sc_backwardMax sc \<and>
       dg_get (sc_backward sc) d \<le> G d \<and> split = split_at_point (G d) d"
proof -
  let ?sc1 = "widen_forward b sc"
  note w = widen_forward_spec [OF ok shape]
  let ?F = "dg_get (sc_forward sc)" and ?F1 = "dg_get (sc_forward ?sc1)"
  have low1: "wave_low b c ?F1" using inv w(4) by (simp add: wave_low_def region_at_forward)
  have step1: "wave_step b c ?F1 (next_forward left right b ?F1)"
    by (rule forward_wave_step [OF ok pos low1 w(5) last])
  have step: "wave_step b c ?F (next_forward left right b ?F1)"
    using step1 by (rule wave_step_cong) (use w(4) in \<open>auto simp: region_at_forward\<close>)
  have m: "dmin b < forwardMid b" "forwardMid b < dmax b" using mids [OF ok(1)] by auto
  have ds: "set (forward_diagonals ?sc1) = region b (c + 1)" "distinct (forward_diagonals ?sc1)"
    using w(1) region_ends [OF m, of "c + 1"] ok(2)
    by (auto simp: forward_diagonals_def scan_shape_def set_diagonals_down distinct_diagonals_down region_at_forward)
  have cov: "covers (sc_forward ?sc1) b" using w(1) by (simp add: scan_shape_def)
  have par: "\<forall>d \<in> set (forward_diagonals ?sc1). dmin b \<le> d \<and> d \<le> dmax b \<and> even (d - (forwardMid b + (c + 1)))"
    unfolding ds(1) by (auto simp: region_def)
  obtain k saw where sc2: "sc2 = ?sc1\<lparr>sc_forward := k, sc_sawSnake := saw\<rparr>" "same_shape (sc_forward ?sc1) k"
    "case r of
       None \<Rightarrow> (\<forall>e. near b e \<longrightarrow> dg_get k e = (if e \<in> region b (c + 1) then next_forward left right b ?F1 e else ?F1 e)) \<and>
               (\<forall>d \<in> region b (c + 1). \<not> meets_forward left right b ?sc1 ?F1 d)
     | Some split \<Rightarrow> (\<exists>d \<in> region b (c + 1). meets_forward left right b ?sc1 ?F1 d \<and> split = split_at_point (next_forward left right b ?F1 d) d)"
    using forward_pass_spec [OF cov par ds(2) run] unfolding ds(1) by blast
  have b1: "sc_backwardMin ?sc1 = sc_backwardMin sc" "sc_backwardMax ?sc1 = sc_backwardMax sc"
    using w(1) shape by (simp_all add: scan_shape_def)
  show ?thesis
  proof (rule that [OF step])
    show "scan_shape b (c + 1) cb sc2" using w(1) sc2(1) covers_shape [OF sc2(2), of b] by (simp add: scan_shape_def)
    show "sc_backward sc2 = sc_backward sc" using sc2(1) w(2) by simp
    show "same_shape (sc_forward sc) (sc_forward sc2)" using same_shape_trans [OF w(3) sc2(2)] sc2(1) by simp
    show "\<forall>e \<in> region b (c + 1). dg_get (sc_forward sc2) e = next_forward left right b ?F1 e \<and>
       \<not> (odd_box b \<and> sc_backwardMin sc \<le> e \<and> e \<le> sc_backwardMax sc \<and> dg_get (sc_backward sc) e \<le> next_forward left right b ?F1 e)"
      if "r = None"
    proof
      fix e assume e: "e \<in> region b (c + 1)"
      then have "near b e" by (auto simp: region_def near_def)
      then show "dg_get (sc_forward sc2) e = next_forward left right b ?F1 e \<and>
         \<not> (odd_box b \<and> sc_backwardMin sc \<le> e \<and> e \<le> sc_backwardMax sc \<and> dg_get (sc_backward sc) e \<le> next_forward left right b ?F1 e)"
        using sc2(1,3) that e by (auto simp: meets_forward_def b1 w(2))
    qed
    show "\<exists>d \<in> region b (c + 1). odd_box b \<and> sc_backwardMin sc \<le> d \<and> d \<le> sc_backwardMax sc \<and>
       dg_get (sc_backward sc) d \<le> next_forward left right b ?F1 d \<and> split = split_at_point (next_forward left right b ?F1 d) d" if "r = Some split" for split
      using sc2(3) that by (auto simp: meets_forward_def b1 w(2))
  qed
qed

lemma backward_round:
  assumes ok: "box_ok b" "0 \<le> c" and fin: "bx_lim1 b < LINE_MAX" and shape: "scan_shape b cf c sc"
    and first: "hashAt left (bx_off1 b) \<noteq> hashAt right (bx_off2 b)"
    and inv: "wave_low (mirror_box b) c (mirror_wave (dg_get (sc_backward sc)))"
    and run: "backward_pass left right env b (backward_diagonals (widen_backward b sc)) (widen_backward b sc) = (r, sc2)"
  obtains G where "wave_step (mirror_box b) c (mirror_wave (dg_get (sc_backward sc))) (mirror_wave G)" "scan_shape b cf (c + 1) sc2"
    "sc_forward sc2 = sc_forward sc" "same_shape (sc_backward sc) (sc_backward sc2)"
    "r = None \<Longrightarrow> (\<forall>e \<in> region_at b (backwardMid b) (c + 1). dg_get (sc_backward sc2) e = G e \<and>
       \<not> (\<not> odd_box b \<and> sc_forwardMin sc \<le> e \<and> e \<le> sc_forwardMax sc \<and> G e \<le> dg_get (sc_forward sc) e))"
    "\<And>split. r = Some split \<Longrightarrow> \<exists>d \<in> region_at b (backwardMid b) (c + 1). \<not> odd_box b \<and> sc_forwardMin sc \<le> d \<and> d \<le> sc_forwardMax sc \<and>
       G d \<le> dg_get (sc_forward sc) d \<and> split = split_at_point (G d) d"
proof -
  let ?sc1 = "widen_backward b sc"
  let ?R = "region_at b (backwardMid b) (c + 1)"
  note w = widen_backward_spec [OF ok shape]
  let ?F = "dg_get (sc_backward sc)" and ?F1 = "dg_get (sc_backward ?sc1)"
  have low1: "wave_low (mirror_box b) c (mirror_wave ?F1)" using inv w(4) by (simp add: wave_low_def region_mirror mirror_wave_def)
  have step1: "wave_step (mirror_box b) c (mirror_wave ?F1) (mirror_wave (next_backward left right b ?F1))"
    by (rule backward_wave_step [OF ok fin low1 w(5) first])
  have step: "wave_step (mirror_box b) c (mirror_wave ?F) (mirror_wave (next_backward left right b ?F1))"
    using step1 by (rule wave_step_cong) (use w(4) in \<open>auto simp: region_mirror mirror_wave_def\<close>)
  have m: "dmin b < backwardMid b" "backwardMid b < dmax b" using mids [OF ok(1)] by auto
  have ds: "set (backward_diagonals ?sc1) = ?R" "distinct (backward_diagonals ?sc1)"
    using w(1) region_ends [OF m, of "c + 1"] ok(2)
    by (auto simp: backward_diagonals_def scan_shape_def set_diagonals_down distinct_diagonals_down)
  have cov: "covers (sc_backward ?sc1) b" using w(1) by (simp add: scan_shape_def)
  have par: "\<forall>d \<in> set (backward_diagonals ?sc1). dmin b \<le> d \<and> d \<le> dmax b \<and> even (d - (backwardMid b + (c + 1)))"
    unfolding ds(1) by (auto simp: region_at_def)
  obtain k saw where sc2: "sc2 = ?sc1\<lparr>sc_backward := k, sc_sawSnake := saw\<rparr>" "same_shape (sc_backward ?sc1) k"
    "case r of
       None \<Rightarrow> (\<forall>e. near b e \<longrightarrow> dg_get k e = (if e \<in> ?R then next_backward left right b ?F1 e else ?F1 e)) \<and>
               (\<forall>d \<in> ?R. \<not> meets_backward left right b ?sc1 ?F1 d)
     | Some split \<Rightarrow> (\<exists>d \<in> ?R. meets_backward left right b ?sc1 ?F1 d \<and> split = split_at_point (next_backward left right b ?F1 d) d)"
    using backward_pass_spec [OF cov par ds(2) run] unfolding ds(1) by blast
  have b1: "sc_forwardMin ?sc1 = sc_forwardMin sc" "sc_forwardMax ?sc1 = sc_forwardMax sc"
    using w(1) shape by (simp_all add: scan_shape_def)
  show ?thesis
  proof (rule that [OF step])
    show "scan_shape b cf (c + 1) sc2" using w(1) sc2(1) covers_shape [OF sc2(2), of b] by (simp add: scan_shape_def)
    show "sc_forward sc2 = sc_forward sc" using sc2(1) w(2) by simp
    show "same_shape (sc_backward sc) (sc_backward sc2)" using same_shape_trans [OF w(3) sc2(2)] sc2(1) by simp
    show "\<forall>e \<in> ?R. dg_get (sc_backward sc2) e = next_backward left right b ?F1 e \<and>
       \<not> (\<not> odd_box b \<and> sc_forwardMin sc \<le> e \<and> e \<le> sc_forwardMax sc \<and> next_backward left right b ?F1 e \<le> dg_get (sc_forward sc) e)"
      if "r = None"
    proof
      fix e assume e: "e \<in> ?R"
      then have "near b e" by (auto simp: region_at_def near_def)
      then show "dg_get (sc_backward sc2) e = next_backward left right b ?F1 e \<and>
         \<not> (\<not> odd_box b \<and> sc_forwardMin sc \<le> e \<and> e \<le> sc_forwardMax sc \<and> next_backward left right b ?F1 e \<le> dg_get (sc_forward sc) e)"
        using sc2(1,3) that e by (auto simp: meets_backward_def b1 w(2))
    qed
    show "\<exists>d \<in> ?R. \<not> odd_box b \<and> sc_forwardMin sc \<le> d \<and> d \<le> sc_forwardMax sc \<and>
       next_backward left right b ?F1 d \<le> dg_get (sc_forward sc) d \<and> split = split_at_point (next_backward left right b ?F1 d) d" if "r = Some split" for split
      using sc2(3) that by (auto simp: meets_backward_def b1 w(2))
  qed
qed

section \<open>Where the scans meet\<close>

definition split_ok :: "Box \<Rightarrow> Split \<Rightarrow> bool" where
  "split_ok b split =
     (bx_off1 b \<le> sp_i1 split \<and> sp_i1 split \<le> bx_lim1 b \<and> bx_off2 b \<le> sp_i2 split \<and> sp_i2 split \<le> bx_lim2 b \<and>
      bx_off1 b + bx_off2 b < sp_i1 split + sp_i2 split \<and> sp_i1 split + sp_i2 split < bx_lim1 b + bx_lim2 b)"

lemma forward_meet_ok:
  assumes ok: "box_ok b" "0 \<le> c" and inv: "wave_inv b c F" and step: "wave_step b c F G" and d: "d \<in> region b (c + 1)" "\<bar>d - backwardMid b\<bar> \<le> c + 1"
  shows "split_ok b (split_at_point (G d) d)"
proof -
  have low: "bx_off1 b \<le> G d \<and> bx_off2 b \<le> G d - d \<and> bx_off1 b + bx_off2 b + (c + 1) \<le> 2 * G d - d"
    using wave_low_step [OF ok _ step] inv d(1) by (auto simp: wave_inv_def wave_low_def)
  show ?thesis using low ok near_inside [OF inv step d] never_both [OF inv step d(1)]
    by (auto simp: split_ok_def split_at_point_def)
qed

lemma backward_meet_ok:
  assumes ok: "box_ok b" "0 \<le> c" and inv: "wave_inv (mirror_box b) c F" and step: "wave_step (mirror_box b) c F (mirror_wave G)"
    and d: "d \<in> region_at b (backwardMid b) (c + 1)" "\<bar>d - forwardMid b\<bar> \<le> c + 1"
  shows "split_ok b (split_at_point (G d) d)"
proof -
  have r: "- d \<in> region (mirror_box b) (c + 1)" "\<bar>- d - backwardMid (mirror_box b)\<bar> \<le> c + 1" using d by (simp_all add: region_mirror)
  from forward_meet_ok [OF _ ok(2) inv step r] ok(1) show ?thesis
    by (simp add: split_ok_def split_at_point_def mirror_wave_def)
qed

text \<open>Scans that have not met are apart.\<close>

lemma apart_forward:
  assumes low: "wave_low (mirror_box b) cb (mirror_wave B)" and cb: "cb = c \<or> odd_box b \<and> cb = c - 1" and par: "odd_box b = (cb \<noteq> c)"
    and less: "\<And>e. e \<in> region b c \<Longrightarrow> e \<in> region_at b (backwardMid b) cb \<Longrightarrow> F e < B e"
  shows "apart b c F"
  unfolding apart_def
proof (intro ballI impI)
  fix e assume e: "e \<in> region b c" and near: "\<bar>e - backwardMid b\<bar> \<le> c"
  have p: "even (e - forwardMid b - c)" using e by (simp add: region_def)
  have "e \<in> region_at b (backwardMid b) cb"
  proof (cases "cb = c")
    case True
    then have "even (forwardMid b - backwardMid b)" using par by (simp add: odd_box_def)
    then have "even (e - backwardMid b - c)" using p by auto
    then show ?thesis using e near True by (auto simp: region_def region_at_def)
  next
    case False
    then have "odd (forwardMid b - backwardMid b)" "cb = c - 1" using par cb by (auto simp: odd_box_def)
    then have o: "odd (e - backwardMid b - c)" using p by auto
    have "\<bar>e - backwardMid b\<bar> \<noteq> c"
    proof
      assume "\<bar>e - backwardMid b\<bar> = c"
      then have "e - backwardMid b - c = 0 \<or> e - backwardMid b - c = - 2 * c" by linarith
      then have "even (e - backwardMid b - c)" by (elim disjE) (erule ssubst, simp)+
      then show False using o by simp
    qed
    then show ?thesis using e near o \<open>cb = c - 1\<close> by (auto simp: region_def region_at_def)
  qed
  then have "F e < B e" "B e \<le> bx_lim1 b \<and> B e - e \<le> bx_lim2 b"
    using less [OF e] low by (auto simp: wave_low_def region_mirror mirror_wave_def dest!: bspec [of _ _ "- e"])
  then show "\<not> outside b F e" by (auto simp: outside_def)
qed

lemma apart_backward:
  assumes low: "wave_low b cf F" and cf: "cf = c \<or> cf = c + 1" and par: "odd_box b = (cf \<noteq> c)"
    and less: "\<And>e. e \<in> region b cf \<Longrightarrow> e \<in> region_at b (backwardMid b) c \<Longrightarrow> F e < B e"
  shows "apart (mirror_box b) c (mirror_wave B)"
  unfolding apart_def
proof (intro ballI impI)
  fix e' assume e': "e' \<in> region (mirror_box b) c" and near: "\<bar>e' - backwardMid (mirror_box b)\<bar> \<le> c"
  define e where "e = - e'"
  have e: "e \<in> region_at b (backwardMid b) c" "\<bar>e - forwardMid b\<bar> \<le> c" using e' near by (auto simp: region_mirror e_def)
  have "even (e - backwardMid b - c)" using e(1) by (simp add: region_at_def)
  then have "even (e - forwardMid b - cf)" using par cf by (auto simp: odd_box_def)
  then have r: "e \<in> region b cf" using e cf by (auto simp: region_def region_at_def)
  have "bx_off1 b \<le> F e \<and> bx_off2 b \<le> F e - e" using low r by (auto simp: wave_low_def)
  then show "\<not> outside (mirror_box b) (mirror_wave B) e'" using less [OF r e(1)] by (auto simp: outside_def mirror_wave_def e_def)
qed

section \<open>The other ends of a scan\<close>

lemma long_snake_ok:
  assumes "long_snake left right env b cost sc = Some split" "0 < env_snakeCount env"
  shows "split_ok b split"
proof -
  have fwd: "split_ok b s" if "snd (fold (forward_candidate left right env b cost k) ds (best, cand)) = Some s"
    "\<And>s. cand = Some s \<Longrightarrow> split_ok b s" for k ds best cand s
    using that
  proof (induction ds arbitrary: best cand)
    case (Cons d ds)
    obtain best' cand' where c: "forward_candidate left right env b cost k d (best, cand) = (best', cand')" by fastforce
    have "split_ok b s" if "cand' = Some s" for s
      using c that Cons.prems(2) assms(2) by (auto simp: forward_candidate_def Let_def split_ok_def split: if_splits)
    then show ?case using Cons.IH [of best' cand'] Cons.prems(1) c by simp
  qed simp
  have bwd: "split_ok b s" if "snd (fold (backward_candidate left right env b cost k) ds (best, cand)) = Some s"
    "\<And>s. cand = Some s \<Longrightarrow> split_ok b s" for k ds best cand s
    using that
  proof (induction ds arbitrary: best cand)
    case (Cons d ds)
    obtain best' cand' where c: "backward_candidate left right env b cost k d (best, cand) = (best', cand')" by fastforce
    have "split_ok b s" if "cand' = Some s" for s
      using c that Cons.prems(2) assms(2) by (auto simp: backward_candidate_def Let_def split_ok_def split: if_splits)
    then show ?case using Cons.IH [of best' cand'] Cons.prems(1) c by simp
  qed simp
  from assms(1) consider "snd (fold (forward_candidate left right env b cost (sc_forward sc)) (forward_diagonals sc) (0, None)) = Some split"
    | "snd (fold (backward_candidate left right env b cost (sc_backward sc)) (backward_diagonals sc) (0, None)) = Some split"
    by (auto simp: long_snake_def split: if_splits option.splits)
  then show ?thesis by cases (erule fwd bwd, simp)+
qed

definition good_point :: "Box \<Rightarrow> int \<times> int \<Rightarrow> bool" where
  "good_point b p = (case p of (s, i1) \<Rightarrow> split_ok b \<lparr>sp_i1 = i1, sp_i2 = s - i1, sp_minimalLow = True, sp_minimalHigh = True\<rparr>)"

lemma forward_clip_good:
  assumes ok: "box_ok b" "1 \<le> c" and low: "wave_low b c (dg_get k)" and d: "d \<in> region b c"
    and both: "\<not> (bx_lim1 b \<le> dg_get k d \<and> bx_lim2 b \<le> dg_get k d - d)" and p: "forward_clip b k d = (i1, i2)"
  shows "good_point b (i1 + i2, i1)"
proof -
  have l: "bx_off1 b \<le> dg_get k d" "bx_off2 b \<le> dg_get k d - d" "bx_off1 b + bx_off2 b + c \<le> 2 * dg_get k d - d" "dmin b \<le> d" "d \<le> dmax b"
    using low d by (auto simp: wave_low_def region_def)
  then show ?thesis using p both ok
    by (auto simp: good_point_def split_ok_def forward_clip_def Let_def min_def box_ok_def box_defs split: if_splits)
qed

lemma backward_clip_good:
  assumes ok: "box_ok b" "1 \<le> c" and low: "wave_low (mirror_box b) c (mirror_wave (dg_get k))" and d: "d \<in> region_at b (backwardMid b) c"
    and both: "\<not> (dg_get k d \<le> bx_off1 b \<and> dg_get k d - d \<le> bx_off2 b)" and p: "backward_clip b k d = (i1, i2)"
  shows "good_point b (i1 + i2, i1)"
proof -
  have "- d \<in> region (mirror_box b) c" using d by (simp add: region_mirror)
  then have l: "dg_get k d \<le> bx_lim1 b" "dg_get k d - d \<le> bx_lim2 b" "2 * dg_get k d - d \<le> bx_lim1 b + bx_lim2 b - c" "dmin b \<le> d" "d \<le> dmax b"
    using low d by (auto simp: wave_low_def region_at_def mirror_wave_def dest!: bspec [of _ _ "- d"])
  then show ?thesis using p both ok
    by (auto simp: good_point_def split_ok_def backward_clip_def Let_def max_def box_ok_def box_defs split: if_splits)
qed

lemma fold_good:
  "(\<And>d st. d \<in> set ds \<Longrightarrow> f d st = st \<or> good (f d st)) \<Longrightarrow> good st \<Longrightarrow> good (fold f ds st)"
proof (induction ds arbitrary: st)
  case (Cons d ds)
  then have "good (f d st)" by (metis list.set_intros(1))
  then show ?case using Cons by simp
qed simp

lemma furthest_ok:
  assumes ok: "box_ok b" "1 \<le> c" and pos: "0 \<le> bx_off1 b" "0 \<le> bx_off2 b" and fin: "bx_lim1 b + bx_lim2 b < LINE_MAX" and inv: "scan_inv b c sc"
  shows "split_ok b (furthest b sc)"
proof -
  let ?k = "sc_forward sc" and ?l = "sc_backward sc"
  let ?f = "fold (forward_furthest b ?k) (forward_diagonals sc) (- 1, - 1)"
  let ?g = "fold (backward_furthest b ?l) (backward_diagonals sc) (LINE_MAX, LINE_MAX)"
  have shape: "scan_shape b c c sc" and finv: "wave_inv b c (dg_get ?k)" and bpre: "wave_pre (mirror_box b) c (mirror_wave (dg_get ?l))"
    using inv by (auto simp: scan_inv_def)
  have m: "dmin b < forwardMid b" "forwardMid b < dmax b" "dmin b < backwardMid b" "backwardMid b < dmax b" using mids [OF ok(1)] by auto
  have c0: "0 \<le> c" using ok(2) by simp
  have ds: "set (forward_diagonals sc) = region b c" "set (backward_diagonals sc) = region_at b (backwardMid b) c"
    using shape region_ends [OF m(1,2) c0] region_ends [OF m(3,4) c0]
    by (auto simp: forward_diagonals_def backward_diagonals_def scan_shape_def set_diagonals_down region_at_forward)
  have fclip: "good_point b (i1 + i2, i1)" if "d \<in> region b c" "forward_clip b ?k d = (i1, i2)" for d i1 i2
    using forward_clip_good [OF ok _ that(1) _ that(2)] finv that(1) c0 wave_pre_both [of b c "dg_get ?k" d]
    by (auto simp: wave_inv_def wave_pre_def)
  have bclip: "good_point b (i1 + i2, i1)" if d: "d \<in> region_at b (backwardMid b) c" "backward_clip b ?l d = (i1, i2)" for d i1 i2
  proof -
    have "- d \<in> region (mirror_box b) c" using d(1) by (simp add: region_mirror)
    from wave_pre_both [OF bpre c0 this] have "\<not> (dg_get ?l d \<le> bx_off1 b \<and> dg_get ?l d - d \<le> bx_off2 b)"
      by (auto simp: mirror_wave_def)
    from backward_clip_good [OF ok wave_pre_low [OF _ bpre] d(1) this d(2)] ok(1) show ?thesis by simp
  qed
  have fstep: "forward_furthest b ?k d st = st \<or> good_point b (forward_furthest b ?k d st)" if "d \<in> region b c" for d st
    using fclip [OF that] by (cases st) (auto simp: forward_furthest_def split: prod.splits)
  have bstep: "backward_furthest b ?l d st = st \<or> good_point b (backward_furthest b ?l d st)" if "d \<in> region_at b (backwardMid b) c" for d st
    using bclip [OF that] by (cases st) (auto simp: backward_furthest_def split: prod.splits)
  have sums: "good_point b (s, i) \<Longrightarrow> - 1 < s \<and> s < LINE_MAX" for s i using pos fin by (auto simp: good_point_def split_ok_def)
  have "good_point b ?f"
  proof -
    have "forward_diagonals sc \<noteq> []" using region_nonempty [OF m(1,2) c0] ds(1) by (auto simp: region_at_forward)
    then obtain d ds' where l: "forward_diagonals sc = d # ds'" by (cases "forward_diagonals sc") auto
    obtain i1 i2 where p: "forward_clip b ?k d = (i1, i2)" by fastforce
    have dr: "d \<in> region b c" "\<And>e. e \<in> set ds' \<Longrightarrow> e \<in> region b c" using l ds(1) by auto
    have "good_point b (forward_furthest b ?k d (- 1, - 1))"
      using fclip [OF dr(1) p] sums [of "i1 + i2" i1] p by (simp add: forward_furthest_def)
    then show ?thesis unfolding l fold_simps using fstep dr(2) by (intro fold_good [where good = "good_point b"]) blast+
  qed
  moreover have "good_point b ?g"
  proof -
    have "backward_diagonals sc \<noteq> []" using region_nonempty [OF m(3,4) c0] ds(2) by auto
    then obtain d ds' where l: "backward_diagonals sc = d # ds'" by (cases "backward_diagonals sc") auto
    obtain i1 i2 where p: "backward_clip b ?l d = (i1, i2)" by fastforce
    have dr: "d \<in> region_at b (backwardMid b) c" "\<And>e. e \<in> set ds' \<Longrightarrow> e \<in> region_at b (backwardMid b) c" using l ds(2) by auto
    have "good_point b (backward_furthest b ?l d (LINE_MAX, LINE_MAX))"
      using bclip [OF dr(1) p] sums [of "i1 + i2" i1] p by (simp add: backward_furthest_def)
    then show ?thesis unfolding l fold_simps using bstep dr(2) by (intro fold_good [where good = "good_point b"]) blast+
  qed
  ultimately show ?thesis by (auto simp: furthest_def good_point_def split_ok_def Let_def split: prod.splits)
qed

section \<open>The loop\<close>

lemma start_scan_inv:
  assumes ok: "box_ok b" and cov: "covers k b" "covers l b"
  shows "scan_inv b 0 (start_scan b k l)"
proof -
  have near: "near b (forwardMid b)" "near b (backwardMid b)" using mids [OF ok] by (auto simp: near_def)
  have r0: "e \<in> region b 0 \<longleftrightarrow> e = forwardMid b" "e \<in> region_at b (backwardMid b) 0 \<longleftrightarrow> e = backwardMid b" for e
    using mids [OF ok] by (auto simp: region_def region_at_def)
  have r: "e \<in> region (mirror_box b) 0 \<longleftrightarrow> e = - backwardMid b"
    "e \<in> region (swap_box b) 0 \<longleftrightarrow> e = - forwardMid b" "e \<in> region (swap_box (mirror_box b)) 0 \<longleftrightarrow> e = backwardMid b" for e
    by (auto simp: region_swap region_mirror r0)
  have F: "dg_get (dg_set k (forwardMid b) (bx_off1 b)) (forwardMid b) = bx_off1 b" using get_set [OF cov(1) near(1) near(1)] by simp
  have B: "dg_get (dg_set l (backwardMid b) (bx_lim1 b)) (backwardMid b) = bx_lim1 b" using get_set [OF cov(2) near(2) near(2)] by simp
  have "wave_inv b 0 (dg_get (dg_set k (forwardMid b) (bx_off1 b)))"
    using ok F by (auto simp: wave_inv_def wave_low_def right_edge_def outside_def r0 r swap_wave_def box_ok_def) (auto simp: forwardMid_def)
  moreover have "wave_inv (mirror_box b) 0 (mirror_wave (dg_get (dg_set l (backwardMid b) (bx_lim1 b))))"
    using ok B by (auto simp: wave_inv_def wave_low_def right_edge_def outside_def r0 r swap_wave_def mirror_wave_def box_ok_def) (auto simp: backwardMid_def)
  moreover have "scan_shape b 0 0 (start_scan b k l)"
    using cov mids [OF ok] by (auto simp: covers_shape [OF same_shape_set] scan_shape_def start_scan_def low_end_def high_end_def)
  ultimately show ?thesis by (simp add: scan_inv_def wave_pre_def start_scan_def)
qed

text \<open>A scan that has not met bounds its cost.\<close>

lemma scan_cost_bound:
  assumes ok: "box_ok b" "0 \<le> c" and inv: "scan_inv b c sc"
  shows "c \<le> bx_lim1 b - bx_off1 b + (bx_lim2 b - bx_off2 b) - 2"
proof -
  let ?F = "dg_get (sc_forward sc)" and ?e = "high_end b (forwardMid b) c"
  have e: "?e \<in> region b c" using region_nonempty [OF mids(1,2) [OF ok(1)] ok(2)] by (simp add: region_at_forward)
  have w: "wave_inv b c ?F" using inv by (simp add: scan_inv_def)
  have "bx_off1 b + bx_off2 b + c \<le> 2 * ?F ?e - ?e" using w e by (simp add: wave_inv_def wave_low_def)
  moreover have "outside b ?F ?e \<longrightarrow> 2 * ?F ?e - ?e \<le> bx_lim1 b + bx_lim2 b - c - 1" using w e by (simp add: wave_inv_def)
  ultimately show ?thesis using ok by (cases "outside b ?F ?e") (auto simp: outside_def box_ok_def)
qed

definition box_fits :: "Side \<Rightarrow> Side \<Rightarrow> Box \<Rightarrow> bool" where
  "box_fits left right b =
     (box_ok b \<and> 0 \<le> bx_off1 b \<and> 0 \<le> bx_off2 b \<and> bx_lim1 b + bx_lim2 b < LINE_MAX \<and>
      hashAt left (bx_off1 b) \<noteq> hashAt right (bx_off2 b) \<and> hashAt left (bx_lim1 b - 1) \<noteq> hashAt right (bx_lim2 b - 1))"

lemma region_range:
  assumes "box_ok b" "0 \<le> c" "mid = forwardMid b \<or> mid = backwardMid b" "low_end b mid c \<le> e" "e \<le> high_end b mid c"
  shows "\<bar>e - mid\<bar> \<le> c" and "dmin b \<le> e" and "e \<le> dmax b"
  using assms mids [OF assms(1)] by (auto simp: low_end_def high_end_def abs_le_iff split: if_splits)

lemma scan_round:
  assumes fits: "box_fits left right b" and c: "0 \<le> c" and inv: "scan_inv b c sc"
    and fwd: "forward_pass left right env b (forward_diagonals (widen_forward b sc)) (widen_forward b sc) = (r, sc2)"
    and bwd: "r = None \<Longrightarrow> backward_pass left right env b (backward_diagonals (widen_backward b sc2)) (widen_backward b sc2) = (r', sc4)"
  shows "r = Some split \<Longrightarrow> split_ok b split" "r = None \<Longrightarrow> r' = Some split \<Longrightarrow> split_ok b split"
    "r = None \<Longrightarrow> r' = None \<Longrightarrow> scan_inv b (c + 1) sc4"
    "same_shape (sc_forward sc) (sc_forward sc2) \<and> same_shape (sc_backward sc) (sc_backward sc2)"
    "r = None \<Longrightarrow> same_shape (sc_forward sc) (sc_forward sc4) \<and> same_shape (sc_backward sc) (sc_backward sc4)"
proof -
  have ok: "box_ok b" and pos: "0 \<le> bx_off1 b" and fin: "bx_lim1 b < LINE_MAX"
    and first: "hashAt left (bx_off1 b) \<noteq> hashAt right (bx_off2 b)" and last: "hashAt left (bx_lim1 b - 1) \<noteq> hashAt right (bx_lim2 b - 1)"
    using fits by (auto simp: box_fits_def box_ok_def)
  let ?F = "dg_get (sc_forward sc)" and ?B = "dg_get (sc_backward sc)"
  have shape: "scan_shape b c c sc" and finv: "wave_inv b c ?F" and bpre: "wave_pre (mirror_box b) c (mirror_wave ?B)"
    and beven: "\<not> odd_box b \<Longrightarrow> wave_inv (mirror_box b) c (mirror_wave ?B)" using inv by (auto simp: scan_inv_def)
  have flow: "wave_low b c ?F" using finv by (simp add: wave_inv_def)
  have okm: "box_ok (mirror_box b)" using ok by simp
  have blow: "wave_low (mirror_box b) c (mirror_wave ?B)" using wave_pre_low [OF okm bpre] .
  obtain G where G: "wave_step b c ?F G" "scan_shape b (c + 1) c sc2" "sc_backward sc2 = sc_backward sc" "same_shape (sc_forward sc) (sc_forward sc2)"
    "r = None \<longrightarrow> (\<forall>e \<in> region b (c + 1). dg_get (sc_forward sc2) e = G e \<and>
       \<not> (odd_box b \<and> sc_backwardMin sc \<le> e \<and> e \<le> sc_backwardMax sc \<and> ?B e \<le> G e))"
    "\<forall>split. r = Some split \<longrightarrow> (\<exists>d \<in> region b (c + 1). odd_box b \<and> sc_backwardMin sc \<le> d \<and> d \<le> sc_backwardMax sc \<and>
       ?B d \<le> G d \<and> split = split_at_point (G d) d)"
  proof -
    show thesis by (rule forward_round [OF ok c pos shape last flow fwd]) (rule that; fast)
  qed
  have range_b: "low_end b (backwardMid b) c = sc_backwardMin sc" "high_end b (backwardMid b) c = sc_backwardMax sc"
    using shape by (auto simp: scan_shape_def)
  show "split_ok b split" if some: "r = Some split"
  proof -
    obtain d where d: "d \<in> region b (c + 1)" "sc_backwardMin sc \<le> d" "d \<le> sc_backwardMax sc" "split = split_at_point (G d) d" using G(6) some by blast
    have "\<bar>d - backwardMid b\<bar> \<le> c + 1" using region_range(1) [OF ok c, of "backwardMid b" d] d(2,3) range_b by simp
    then show ?thesis using forward_meet_ok [OF ok c finv G(1) d(1)] d(4) by simp
  qed
  show "same_shape (sc_forward sc) (sc_forward sc2) \<and> same_shape (sc_backward sc) (sc_backward sc2)" using G(3,4) by simp
  have glow: "wave_low b (c + 1) G" by (rule wave_low_step [OF ok c flow G(1)])
  show "r = None \<Longrightarrow> r' = Some split \<Longrightarrow> split_ok b split" "r = None \<Longrightarrow> r' = None \<Longrightarrow> scan_inv b (c + 1) sc4"
    "r = None \<Longrightarrow> same_shape (sc_forward sc) (sc_forward sc4) \<and> same_shape (sc_backward sc) (sc_backward sc4)"
  proof -
    assume none: "r = None"
    have eqG: "dg_get (sc_forward sc2) e = G e" if "e \<in> region b (c + 1)" for e using G(5) none that by blast
    obtain H where H: "wave_step (mirror_box b) c (mirror_wave (dg_get (sc_backward sc2))) (mirror_wave H)" "scan_shape b (c + 1) (c + 1) sc4"
      "sc_forward sc4 = sc_forward sc2" "same_shape (sc_backward sc2) (sc_backward sc4)"
      "r' = None \<longrightarrow> (\<forall>e \<in> region_at b (backwardMid b) (c + 1). dg_get (sc_backward sc4) e = H e \<and>
         \<not> (\<not> odd_box b \<and> sc_forwardMin sc2 \<le> e \<and> e \<le> sc_forwardMax sc2 \<and> H e \<le> dg_get (sc_forward sc2) e))"
      "\<forall>split. r' = Some split \<longrightarrow> (\<exists>d \<in> region_at b (backwardMid b) (c + 1). \<not> odd_box b \<and> sc_forwardMin sc2 \<le> d \<and> d \<le> sc_forwardMax sc2 \<and>
         H d \<le> dg_get (sc_forward sc2) d \<and> split = split_at_point (H d) d)"
    proof -
      have blow2: "wave_low (mirror_box b) c (mirror_wave (dg_get (sc_backward sc2)))" using blow G(3) by simp
      show thesis by (rule backward_round [OF ok c fin G(2) first blow2 bwd [OF none]]) (rule that; fast)
    qed
    note step = H(1) [unfolded G(3)]
    have range_f: "low_end b (forwardMid b) (c + 1) = sc_forwardMin sc2" "high_end b (forwardMid b) (c + 1) = sc_forwardMax sc2"
      using G(2) by (auto simp: scan_shape_def)
    show "same_shape (sc_forward sc) (sc_forward sc4) \<and> same_shape (sc_backward sc) (sc_backward sc4)" using G(3,4) H(3,4) by simp
    show "split_ok b split" if some: "r' = Some split"
    proof -
      obtain d where d: "d \<in> region_at b (backwardMid b) (c + 1)" "\<not> odd_box b" "sc_forwardMin sc2 \<le> d" "d \<le> sc_forwardMax sc2" "split = split_at_point (H d) d"
        using H(6) some by blast
      have "\<bar>d - forwardMid b\<bar> \<le> c + 1" using region_range(1) [OF ok, of "c + 1" "forwardMid b" d] c d(3,4) range_f by simp
      then show ?thesis using backward_meet_ok [OF ok c beven [OF d(2)] step d(1)] d(5) by simp
    qed
    have hlow: "wave_low (mirror_box b) (c + 1) (mirror_wave H)" by (rule wave_low_step [OF okm c blow step])
    show "scan_inv b (c + 1) sc4" if none': "r' = None"
    proof -
      have eqH: "dg_get (sc_backward sc4) e = H e" if "e \<in> region_at b (backwardMid b) (c + 1)" for e using H(5) none' that by blast
      have mfwd: "dmin b < forwardMid b" "forwardMid b < dmax b" and mbwd: "dmin b < backwardMid b" "backwardMid b < dmax b" using mids [OF ok] by auto
      have waves: "wave_inv b (c + 1) G \<and> wave_pre (mirror_box b) (c + 1) (mirror_wave H) \<and> (\<not> odd_box b \<longrightarrow> wave_inv (mirror_box b) (c + 1) (mirror_wave H))"
      proof (cases "odd_box b")
        case True
        have less: "G e < ?B e" if "e \<in> region b (c + 1)" "e \<in> region_at b (backwardMid b) c" for e
          using G(5) none that True region_ends [OF mbwd c] range_b by fastforce
        have "apart b (c + 1) G" by (rule apart_forward [OF blow _ _ less]) (use True in auto)
        then have "wave_inv b (c + 1) G" by (rule wave_advance [OF ok finv G(1) c])
        moreover have "apart (mirror_box b) c (mirror_wave ?B)" by (rule apart_backward [OF glow _ _ less]) (use True in auto)
        then have "wave_inv (mirror_box b) c (mirror_wave ?B)" by (rule wave_pre_inv [OF okm bpre])
        ultimately show ?thesis using wave_pre_step [OF c _ step] True by simp
      next
        case False
        have less: "G e < H e" if "e \<in> region b (c + 1)" "e \<in> region_at b (backwardMid b) (c + 1)" for e
          using H(5) none' that False region_ends [OF mfwd, of "c + 1"] c range_f eqG by (fastforce simp: region_at_forward)
        have "apart b (c + 1) G" by (rule apart_forward [OF hlow _ _ less]) (use False in auto)
        then have "wave_inv b (c + 1) G" by (rule wave_advance [OF ok finv G(1) c])
        moreover have "apart (mirror_box b) (c + 1) (mirror_wave H)" by (rule apart_backward [OF glow _ _ less]) (use False in auto)
        then have "wave_inv (mirror_box b) (c + 1) (mirror_wave H)" by (rule wave_advance [OF okm beven [OF False] step c])
        ultimately show ?thesis by (simp add: wave_pre_def)
      qed
      have "wave_inv b (c + 1) (dg_get (sc_forward sc4))" using waves wave_inv_cong [of b "c + 1" G "dg_get (sc_forward sc4)"] eqG H(3) by simp
      moreover have m: "mirror_wave (dg_get (sc_backward sc4)) e = mirror_wave H e" if "e \<in> region (mirror_box b) (c + 1)" for e
        using eqH that by (simp add: region_mirror mirror_wave_def)
      ultimately show ?thesis using waves H(2) wave_inv_cong [OF _ m] wave_pre_cong [OF _ m] by (simp add: scan_inv_def)
    qed
  qed
qed

end
