(* ===== verification/DiffCompare.thy ===== *)
theory DiffCompare
  imports DiffSplit
begin

text \<open>
  The search of a line diff returns, and the lines it leaves unmarked are the same on both sides: \<open>findSplit\<close> always
  divides a box into two smaller ones, and the recursion of \<open>compare\<close> marks only lines of its box.
\<close>

section \<open>A split is found\<close>

lemma split_loop_returns:
  assumes fits: "box_fits left right b" and env: "0 < env_snakeCount env"
    and "1 \<le> cost" "scan_inv b (cost - 1) sc"
  shows "\<exists>split sc'. split_loop_at left right env b m cost sc = Some (split, sc') \<and> split_ok b split \<and>
    same_shape (sc_forward sc) (sc_forward sc') \<and> same_shape (sc_backward sc) (sc_backward sc')"
  using assms(3,4)
proof (induction "nat (bx_lim1 b - bx_off1 b + (bx_lim2 b - bx_off2 b) - cost)" arbitrary: cost sc rule: less_induct)
  case less
  let ?sc0 = "sc\<lparr>sc_sawSnake := False\<rparr>"
  have inv: "scan_inv b (cost - 1) ?sc0" using less.prems(2) by (simp add: scan_inv_def scan_shape_def)
  have ok: "box_ok b" using fits by (simp add: box_fits_def)
  obtain r sc2 where fwd: "forward_pass left right env b (forward_diagonals (widen_forward b ?sc0)) (widen_forward b ?sc0) = (r, sc2)" by fastforce
  obtain r' sc4 where bwd: "backward_pass left right env b (backward_diagonals (widen_backward b sc2)) (widen_backward b sc2) = (r', sc4)" by fastforce
  note round = scan_round [OF fits _ inv fwd bwd, simplified]
  note unfold = split_loop_at.simps [of left right env b m cost sc] Let_def fwd bwd
  show ?case
  proof (cases r)
    case (Some split)
    then show ?thesis using round(1,4) less.prems(1) by (auto simp: unfold)
  next
    case None
    note round2 = round(2-3,5) [OF _ None]
    show ?thesis
    proof (cases r')
      case (Some split)
      then show ?thesis using round2 less.prems(1) None by (auto simp: unfold)
    next
      case None': None
      have inv4: "scan_inv b cost sc4" and shape: "same_shape (sc_forward sc) (sc_forward sc4)" "same_shape (sc_backward sc) (sc_backward sc4)"
        using round2 None' less.prems(1) by auto
      have "cost \<le> bx_lim1 b - bx_off1 b + (bx_lim2 b - bx_off2 b) - 2" using scan_cost_bound [OF ok _ inv4] less.prems(1) by simp
      then have again: "\<exists>split sc'. split_loop_at left right env b m (cost + 1) sc4 = Some (split, sc') \<and> split_ok b split \<and>
          same_shape (sc_forward sc) (sc_forward sc') \<and> same_shape (sc_backward sc) (sc_backward sc')"
      proof -
        have "nat (bx_lim1 b - bx_off1 b + (bx_lim2 b - bx_off2 b) - (cost + 1)) < nat (bx_lim1 b - bx_off1 b + (bx_lim2 b - bx_off2 b) - cost)"
          using \<open>cost \<le> _\<close> by simp
        from less.hyps [OF this, of sc4] show ?thesis using less.prems(1) inv4 shape by (auto dest: same_shape_trans)
      qed
      have far: "split_ok b (furthest b sc4)" using furthest_ok [OF ok _ _ _ _ inv4] fits less.prems(1) by (auto simp: box_fits_def)
      show ?thesis
        using None None' again far shape long_snake_ok [OF _ env, of left right b cost sc4] by (auto simp: unfold split: option.splits)
    qed
  qed
qed

theorem findSplit_returns:
  assumes "box_fits left right b" "0 < env_snakeCount env" "covers k b" "covers l b"
  obtains split k' l' where "findSplit left right env b m k l = Some (split, k', l')" "split_ok b split" "same_shape k k'" "same_shape l l'"
proof -
  have ok: "box_ok b" using assms(1) by (simp add: box_fits_def)
  obtain split sc' where "split_loop_at left right env b m 1 (start_scan b k l) = Some (split, sc')" "split_ok b split"
    "same_shape (sc_forward (start_scan b k l)) (sc_forward sc')" "same_shape (sc_backward (start_scan b k l)) (sc_backward sc')"
    using split_loop_returns [OF assms(1,2), of 1 "start_scan b k l" m] start_scan_inv [OF ok assms(3,4)] by auto
  moreover have "same_shape k (sc_forward (start_scan b k l))" "same_shape l (sc_backward (start_scan b k l))"
    by (simp_all add: start_scan_def)
  ultimately show thesis using that by (simp add: findSplit_def) (meson same_shape_trans)
qed

section \<open>Marked and unmarked lines\<close>

text \<open>The lines of a side between two positions of its reference: their marks, and the classes of the unmarked ones.\<close>

definition marked :: "Side \<Rightarrow> int \<Rightarrow> bool" where
  "marked s i = marks_get (sd_changed s) (int (sd_reference s ! nat i))"

definition shown :: "Side \<Rightarrow> int \<Rightarrow> int \<Rightarrow> nat option list" where
  "shown s low high = map (hashAt s) (filter (\<lambda>i. \<not> marked s i) [low..high - 1])"

definition refs :: "Side \<Rightarrow> int \<Rightarrow> int \<Rightarrow> nat set" where
  "refs s low high = (\<lambda>i. sd_reference s ! nat i) ` {low..<high}"

text \<open>A step marks lines of a range of the reference only.\<close>

definition touched :: "int \<Rightarrow> int \<Rightarrow> Side \<Rightarrow> Side \<Rightarrow> bool" where
  "touched low high s s' =
     (s' = s\<lparr>sd_changed := sd_changed s'\<rparr> \<and> length (sd_changed s') = length (sd_changed s) \<and>
      (\<forall>p. (p < 0 \<or> nat p \<notin> refs s low high) \<longrightarrow> marks_get (sd_changed s') p = marks_get (sd_changed s) p))"

definition side_ok :: "Side \<Rightarrow> bool" where
  "side_ok s =
     (distinct (sd_reference s) \<and> (\<forall>p \<in> set (sd_reference s). p + 1 < length (sd_changed s)))"

lemma touched_refl [simp]: "touched low high s s"
  by (simp add: touched_def)

lemma touched_same:
  assumes "touched low high s s'"
  shows "sd_reference s' = sd_reference s" "sd_classes s' = sd_classes s" "sd_lines s' = sd_lines s" "length (sd_changed s') = length (sd_changed s)"
    "hashAt s' = hashAt s" "side_ok s' = side_ok s" "refs s' = refs s"
proof -
  have eq: "s' = s\<lparr>sd_changed := sd_changed s'\<rparr>" and len: "length (sd_changed s') = length (sd_changed s)" using assms by (auto simp: touched_def)
  from eq show r: "sd_reference s' = sd_reference s" "sd_classes s' = sd_classes s" "sd_lines s' = sd_lines s" by (metis Side.ext_inject Side.surjective Side.update_convs(3))+
  show "length (sd_changed s') = length (sd_changed s)" by (rule len)
  show "hashAt s' = hashAt s" "side_ok s' = side_ok s" "refs s' = refs s" by (auto simp: fun_eq_iff hashAt_def side_ok_def refs_def r len split: option.split)
qed

lemma refs_mono: "low \<le> low' \<Longrightarrow> high' \<le> high \<Longrightarrow> refs s low' high' \<subseteq> refs s low high"
  by (auto simp: refs_def)

lemma touched_mono: "touched low' high' s s' \<Longrightarrow> low \<le> low' \<Longrightarrow> high' \<le> high \<Longrightarrow> touched low high s s'"
  using refs_mono [of low low' high' high s] by (auto simp: touched_def)

lemma touched_trans: "touched low high s s' \<Longrightarrow> touched low high s' s'' \<Longrightarrow> touched low high s s''"
  using touched_same(7) [of low high s s'] by (auto simp: touched_def) (metis Side.surjective Side.update_convs(3))

text \<open>A range that a step does not touch keeps its marks.\<close>

lemma touched_outside:
  assumes t: "touched low high s s'" and ok: "side_ok s" and i: "0 \<le> i" "i < int (length (sd_reference s))" "i < low \<or> high \<le> i"
    and box: "0 \<le> low" "high \<le> int (length (sd_reference s))"
  shows "marked s' i = marked s i"
proof -
  have "sd_reference s ! nat i \<notin> refs s low high"
  proof
    assume "sd_reference s ! nat i \<in> refs s low high"
    then obtain j where j: "low \<le> j" "j < high" "sd_reference s ! nat i = sd_reference s ! nat j" by (auto simp: refs_def)
    moreover have "nat j < length (sd_reference s)" using j box by linarith
    ultimately have "nat i = nat j" using ok i by (simp add: side_ok_def nth_eq_iff_index_eq)
    then show False using j i box by linarith
  qed
  then show ?thesis using t touched_same(1) [OF t] by (simp add: touched_def marked_def)
qed

lemma shown_cong: "(\<And>i. low \<le> i \<Longrightarrow> i < high \<Longrightarrow> marked s i = marked s' i) \<Longrightarrow> hashAt s = hashAt s' \<Longrightarrow> shown s low high = shown s' low high"
  unfolding shown_def by (auto intro!: arg_cong2 [where f = map] filter_cong)

lemma shown_split:
  assumes "low \<le> mid" "mid \<le> high"
  shows "shown s low high = shown s low mid @ shown s mid high"
proof -
  have "[low..high - 1] = [low..mid - 1] @ [mid..high - 1]" using assms upto_split1 [of low mid "high - 1"] by (cases "mid = high") auto
  then show ?thesis by (simp add: shown_def)
qed

lemma shown_unmarked: "(\<And>i. low \<le> i \<Longrightarrow> i < high \<Longrightarrow> \<not> marked s i) \<Longrightarrow> shown s low high = map (hashAt s) [low..high - 1]"
  unfolding shown_def by (subst filter_True) auto

lemma shown_marked: "(\<And>i. low \<le> i \<Longrightarrow> i < high \<Longrightarrow> marked s i) \<Longrightarrow> shown s low high = []"
  unfolding shown_def by (auto simp: filter_empty_conv)

lemma shift_upto: "[a + c..b + c] = map (\<lambda>k. k + c) [a..(b::int)]"
proof (induction a b rule: upto.induct)
  case (1 a b)
  show ?case
  proof (cases "a \<le> b")
    case True
    with 1 show ?thesis by (simp add: upto_rec1 [of a b] upto_rec1 [of "a + c" "b + c"] algebra_simps)
  qed simp
qed

lemma shown_equal:
  assumes "\<And>i. low1 \<le> i \<Longrightarrow> i < high1 \<Longrightarrow> \<not> marked s i" "\<And>i. low2 \<le> i \<Longrightarrow> i < high2 \<Longrightarrow> \<not> marked s' i"
    and d: "high1 - high2 = low1 - low2" and same: "\<And>k. 0 \<le> k \<Longrightarrow> k < high1 - low1 \<Longrightarrow> hashAt s (low1 + k) = hashAt s' (low2 + k)"
  shows "shown s low1 high1 = shown s' low2 high2"
proof -
  have e1: "[low1..high1 - 1] = map (\<lambda>k. k + low1) [0..high1 - low1 - 1]" using shift_upto [of 0 low1 "high1 - low1 - 1"] by simp
  have e2: "[low2..high2 - 1] = map (\<lambda>k. k + low2) [0..high1 - low1 - 1]" using shift_upto [of 0 low2 "high1 - low1 - 1"] d by (simp add: algebra_simps)
  have "shown s low1 high1 = map (hashAt s) [low1..high1 - 1]" "shown s' low2 high2 = map (hashAt s') [low2..high2 - 1]"
    using assms(1,2) by (auto intro: shown_unmarked)
  then show ?thesis unfolding e1 e2 using same by (simp add: add.commute)
qed

lemma marks_get_set:
  assumes "0 \<le> p" "nat p + 1 < length flags"
  shows "marks_get (marks_set flags p v) q = (if q = p then v else marks_get flags q)"
  using assms by (auto simp: marks_get_def marks_set_def charCodeAt_def nth_list_update nat_add_distrib split: if_splits)

lemma length_marks_set [simp]: "length (marks_set flags p v) = length flags"
  by (simp add: marks_set_def)

text \<open>Marking a range marks exactly its lines.\<close>

lemma mark_range_marks:
  assumes "side_ok s" "0 \<le> low" "high \<le> int (length (sd_reference s))"
  shows "touched low high s (mark_range s low high) \<and> (\<forall>i. low \<le> i \<and> i < high \<longrightarrow> marked (mark_range s low high) i)"
  using assms
proof (induction "nat (high - low)" arbitrary: low s)
  case (Suc n)
  let ?r = "sd_reference s ! nat low"
  let ?s1 = "s\<lparr>sd_changed := marks_set (sd_changed s) (int ?r) True\<rparr>"
  have l: "low < high" "nat low < length (sd_reference s)" using Suc.hyps(2) Suc.prems by linarith+
  then have r: "?r + 1 < length (sd_changed s)" using Suc.prems(1) by (simp add: side_ok_def)
  have run: "mark_range s low high = mark_range ?s1 (low + 1) high"
    using l by (simp add: mark_range_def upto_rec1 charCodeAt_def)
  have "sd_reference s ! nat low \<in> refs s low (low + 1)" by (auto simp: refs_def)
  then have t1: "touched low (low + 1) s ?s1" using r by (auto simp: touched_def marks_get_set)
  have IH: "touched (low + 1) high ?s1 (mark_range ?s1 (low + 1) high)" "\<And>i. low + 1 \<le> i \<Longrightarrow> i < high \<Longrightarrow> marked (mark_range ?s1 (low + 1) high) i"
    using Suc.hyps(1) [of "low + 1" ?s1] Suc.hyps(2) Suc.prems touched_same(6) [OF t1] by auto
  have "marked ?s1 low" using r by (simp add: marked_def marks_get_set)
  then have "marked (mark_range ?s1 (low + 1) high) low"
    using touched_outside [OF IH(1), of low] touched_same(6) [OF t1] Suc.prems l by auto
  then have "\<forall>i. low \<le> i \<and> i < high \<longrightarrow> marked (mark_range ?s1 (low + 1) high) i" using IH(2) by (metis add1_zle_eq order_le_less)
  moreover have "touched low high s (mark_range ?s1 (low + 1) high)"
    using touched_trans touched_mono [OF t1, of low high] touched_mono [OF IH(1), of low high] l by simp
  ultimately show ?case unfolding run by simp
qed (auto simp: mark_range_def)

section \<open>The recursion\<close>

definition compare_post :: "Box \<Rightarrow> Search \<Rightarrow> Search \<Rightarrow> bool" where
  "compare_post b se se' =
     (touched (bx_off1 b) (bx_lim1 b) (se_left se) (se_left se') \<and> touched (bx_off2 b) (bx_lim2 b) (se_right se) (se_right se') \<and>
      same_shape (se_forward se) (se_forward se') \<and> same_shape (se_backward se) (se_backward se') \<and>
      shown (se_left se') (bx_off1 b) (bx_lim1 b) = shown (se_right se') (bx_off2 b) (bx_lim2 b))"

definition compare_pre :: "Box \<Rightarrow> Search \<Rightarrow> bool" where
  "compare_pre b se =
     (side_ok (se_left se) \<and> side_ok (se_right se) \<and> 0 \<le> bx_off1 b \<and> 0 \<le> bx_off2 b \<and> bx_off1 b \<le> bx_lim1 b \<and> bx_off2 b \<le> bx_lim2 b \<and>
      bx_lim1 b \<le> int (length (sd_reference (se_left se))) \<and> bx_lim2 b \<le> int (length (sd_reference (se_right se))) \<and>
      bx_lim1 b + bx_lim2 b < LINE_MAX \<and> covers (se_forward se) b \<and> covers (se_backward se) b \<and>
      (\<forall>i. bx_off1 b \<le> i \<and> i < bx_lim1 b \<longrightarrow> \<not> marked (se_left se) i) \<and>
      (\<forall>i. bx_off2 b \<le> i \<and> i < bx_lim2 b \<longrightarrow> \<not> marked (se_right se) i))"

text \<open>The ends of a box that the two sides share: what is left of the box, and the shared lines.\<close>

definition within :: "Box \<Rightarrow> Box \<Rightarrow> bool" where
  "within b b' =
     (bx_off1 b' \<le> bx_off1 b \<and> bx_lim1 b \<le> bx_lim1 b' \<and> bx_off2 b' \<le> bx_off2 b \<and> bx_lim2 b \<le> bx_lim2 b' \<and>
      bx_off1 b \<le> bx_lim1 b \<and> bx_off2 b \<le> bx_lim2 b)"

lemma compare_pre_within: "compare_pre b' se \<Longrightarrow> within b b' \<Longrightarrow> compare_pre b se"
  by (auto simp: compare_pre_def within_def covers_def box_defs)

lemma compare_pre_after:
  assumes pre: "compare_pre b se" and off1: "0 \<le> o1" "l1 \<le> bx_off1 b" and off2: "0 \<le> o2" "l2 \<le> bx_off2 b"
    and t: "touched o1 l1 (se_left se) (se_left se')" "touched o2 l2 (se_right se) (se_right se')"
      "same_shape (se_forward se) (se_forward se')" "same_shape (se_backward se) (se_backward se')"
  shows "compare_pre b se'"
proof -
  have "marked (se_left se') i = marked (se_left se) i" if "bx_off1 b \<le> i" "i < bx_lim1 b" for i
    using touched_outside [OF t(1), of i] pre off1 that by (auto simp: compare_pre_def)
  moreover have "marked (se_right se') i = marked (se_right se) i" if "bx_off2 b \<le> i" "i < bx_lim2 b" for i
    using touched_outside [OF t(2), of i] pre off2 that by (auto simp: compare_pre_def)
  ultimately show ?thesis
    using pre touched_same [OF t(1)] touched_same [OF t(2)] covers_shape [OF t(3)] covers_shape [OF t(4)] by (auto simp: compare_pre_def)
qed

text \<open>The lines two boxes share with the result of the middle one.\<close>

lemma shown_outside:
  assumes "touched o1 l1 s s'" "side_ok s" "0 \<le> o1" "l1 \<le> int (length (sd_reference s))" "0 \<le> low" "high \<le> int (length (sd_reference s))" "high \<le> o1 \<or> l1 \<le> low"
  shows "shown s' low high = shown s low high"
proof (rule shown_cong)
  show "marked s' i = marked s i" if "low \<le> i" "i < high" for i using touched_outside [OF assms(1,2), of i] assms(3-) that by auto
qed (rule touched_same [OF assms(1)])

lemma compare_ends:
  assumes pre: "compare_pre b se"
    and up: "snake_up (se_left se) (se_right se) (bx_lim1 b) (bx_lim2 b) (bx_off1 b) (bx_off2 b) = (low1, low2)"
    and down: "snake_down (se_left se) (se_right se) low1 low2 (bx_lim1 b) (bx_lim2 b) = (high1, high2)"
  defines "b1 \<equiv> \<lparr>bx_off1 = low1, bx_lim1 = high1, bx_off2 = low2, bx_lim2 = high2\<rparr>"
  shows "within b1 b" "compare_post b1 se se' \<Longrightarrow> compare_post b se se'"
    "low1 \<noteq> high1 \<Longrightarrow> low2 \<noteq> high2 \<Longrightarrow> box_fits (se_left se) (se_right se) b1"
proof -
  let ?L = "se_left se" and ?R = "se_right se"
  note u = snake_up_props [OF up] and d = snake_down_props [OF down]
  have box: "bx_off1 b \<le> bx_lim1 b" "bx_off2 b \<le> bx_lim2 b" "0 \<le> bx_off1 b" "0 \<le> bx_off2 b" "bx_lim1 b + bx_lim2 b < LINE_MAX" using pre by (auto simp: compare_pre_def)
  have low: "bx_off1 b \<le> low1" "bx_off2 b \<le> low2" "low1 \<le> bx_lim1 b" "low2 \<le> bx_lim2 b" using u box by linarith+
  have high: "low1 \<le> high1" "low2 \<le> high2" "high1 \<le> bx_lim1 b" "high2 \<le> bx_lim2 b" using d low by linarith+
  show w: "within b1 b" using low high by (simp add: within_def b1_def)
  show "box_fits ?L ?R b1" if "low1 \<noteq> high1" "low2 \<noteq> high2"
    using that low high box u d by (auto simp: box_fits_def box_ok_def b1_def)
  assume post: "compare_post b1 se se'"
  have t: "touched low1 high1 ?L (se_left se')" "touched low2 high2 ?R (se_right se')" and mid: "shown (se_left se') low1 high1 = shown (se_right se') low2 high2"
    using post by (auto simp: compare_post_def b1_def)
  have head: "shown (se_left se') (bx_off1 b) low1 = shown (se_right se') (bx_off2 b) low2"
  proof -
    have "shown (se_left se') (bx_off1 b) low1 = shown ?L (bx_off1 b) low1" "shown (se_right se') (bx_off2 b) low2 = shown ?R (bx_off2 b) low2"
      using pre low high by (auto simp: compare_pre_def intro!: shown_outside [OF t(1)] shown_outside [OF t(2)])
    moreover have "shown ?L (bx_off1 b) low1 = shown ?R (bx_off2 b) low2" using pre u low by (intro shown_equal) (auto simp: compare_pre_def)
    ultimately show ?thesis by simp
  qed
  have tail: "shown (se_left se') high1 (bx_lim1 b) = shown (se_right se') high2 (bx_lim2 b)"
  proof -
    have "shown (se_left se') high1 (bx_lim1 b) = shown ?L high1 (bx_lim1 b)" "shown (se_right se') high2 (bx_lim2 b) = shown ?R high2 (bx_lim2 b)"
      using pre low high by (auto simp: compare_pre_def intro!: shown_outside [OF t(1)] shown_outside [OF t(2)])
    moreover have "shown ?L high1 (bx_lim1 b) = shown ?R high2 (bx_lim2 b)" using pre d low high by (intro shown_equal) (auto simp: compare_pre_def)
    ultimately show ?thesis by simp
  qed
  have split3: "shown s (bx_off1 b) (bx_lim1 b) = shown s (bx_off1 b) low1 @ shown s low1 high1 @ shown s high1 (bx_lim1 b)"
    "shown s (bx_off2 b) (bx_lim2 b) = shown s (bx_off2 b) low2 @ shown s low2 high2 @ shown s high2 (bx_lim2 b)" for s
    using shown_split [of "bx_off1 b" low1 "bx_lim1 b" s] shown_split [of low1 high1 "bx_lim1 b" s]
      shown_split [of "bx_off2 b" low2 "bx_lim2 b" s] shown_split [of low2 high2 "bx_lim2 b" s] low high by simp_all
  show "compare_post b se se'"
    using post t [THEN touched_mono] low high head mid tail split3 by (auto simp: compare_post_def b1_def)
qed

lemma compare_join:
  assumes pre: "compare_pre b se"
    and low: "compare_post \<lparr>bx_off1 = bx_off1 b, bx_lim1 = i1, bx_off2 = bx_off2 b, bx_lim2 = i2\<rparr> se se1"
    and high: "compare_post \<lparr>bx_off1 = i1, bx_lim1 = bx_lim1 b, bx_off2 = i2, bx_lim2 = bx_lim2 b\<rparr> se1 se2"
    and i: "bx_off1 b \<le> i1" "i1 \<le> bx_lim1 b" "bx_off2 b \<le> i2" "i2 \<le> bx_lim2 b"
  shows "compare_post b se se2"
proof -
  have t: "touched (bx_off1 b) i1 (se_left se) (se_left se1)" "touched (bx_off2 b) i2 (se_right se) (se_right se1)"
    "touched i1 (bx_lim1 b) (se_left se1) (se_left se2)" "touched i2 (bx_lim2 b) (se_right se1) (se_right se2)"
    using low high by (auto simp: compare_post_def)
  have "shown (se_left se2) (bx_off1 b) i1 = shown (se_left se1) (bx_off1 b) i1" "shown (se_right se2) (bx_off2 b) i2 = shown (se_right se1) (bx_off2 b) i2"
    using pre i touched_same [OF t(1)] touched_same [OF t(2)]
    by (auto simp: compare_pre_def intro!: shown_outside [OF t(3)] shown_outside [OF t(4)])
  then have "shown (se_left se2) (bx_off1 b) (bx_lim1 b) = shown (se_right se2) (bx_off2 b) (bx_lim2 b)"
    using shown_split [of "bx_off1 b" i1 "bx_lim1 b" "se_left se2"] shown_split [of "bx_off2 b" i2 "bx_lim2 b" "se_right se2"] i low high
    by (simp add: compare_post_def)
  moreover have "touched (bx_off1 b) (bx_lim1 b) (se_left se) (se_left se2)" "touched (bx_off2 b) (bx_lim2 b) (se_right se) (se_right se2)"
    using t [THEN touched_mono, of "bx_off1 b" "bx_lim1 b"] t [THEN touched_mono, of "bx_off2 b" "bx_lim2 b"] i by (auto intro: touched_trans)
  ultimately show ?thesis using low high by (auto simp: compare_post_def intro: same_shape_trans)
qed

theorem compare_box_returns:
  assumes env: "0 < env_snakeCount env"
  shows "compare_pre b se \<Longrightarrow> \<exists>se'. compare_box env b m se = Some se' \<and> compare_post b se se'"
proof (induction "nat (bx_lim1 b - bx_off1 b + (bx_lim2 b - bx_off2 b))" arbitrary: b m se rule: less_induct)
  case less
  let ?L = "se_left se" and ?R = "se_right se"
  obtain low1 low2 where up: "snake_up ?L ?R (bx_lim1 b) (bx_lim2 b) (bx_off1 b) (bx_off2 b) = (low1, low2)" by fastforce
  obtain high1 high2 where down: "snake_down ?L ?R low1 low2 (bx_lim1 b) (bx_lim2 b) = (high1, high2)" by fastforce
  define b1 where "b1 = \<lparr>bx_off1 = low1, bx_lim1 = high1, bx_off2 = low2, bx_lim2 = high2\<rparr>"
  note ends = compare_ends [OF less.prems up down, folded b1_def]
  note unfold = compare_box.simps [of env b m se] Let_def up down prod.case
  have pre1: "compare_pre b1 se" by (rule compare_pre_within [OF less.prems ends(1)])
  have le: "low1 \<le> high1" "low2 \<le> high2" using ends(1) by (simp_all add: within_def b1_def)
  consider "low1 = high1" | "low1 \<noteq> high1" "low2 = high2" | "low1 \<noteq> high1" "low2 \<noteq> high2" by blast
  then show ?case
  proof cases
    case 1
    have m: "touched low2 high2 ?R (mark_range ?R low2 high2)" "\<And>i. low2 \<le> i \<Longrightarrow> i < high2 \<Longrightarrow> marked (mark_range ?R low2 high2) i"
      using mark_range_marks [of ?R low2 high2] pre1 by (auto simp: compare_pre_def b1_def)
    have "shown ?L low1 high1 = []" "shown (mark_range ?R low2 high2) low2 high2 = []" using m(2) 1 by (auto intro: shown_marked)
    then have "compare_post b1 se (se\<lparr>se_right := mark_range ?R low2 high2\<rparr>)" using m(1) by (simp add: compare_post_def b1_def)
    moreover have "compare_box env b m se = Some (se\<lparr>se_right := mark_range ?R low2 high2\<rparr>)" unfolding unfold using 1 by simp
    ultimately show ?thesis using ends(2) by blast
  next
    case 2
    have m: "touched low1 high1 ?L (mark_range ?L low1 high1)" "\<And>i. low1 \<le> i \<Longrightarrow> i < high1 \<Longrightarrow> marked (mark_range ?L low1 high1) i"
      using mark_range_marks [of ?L low1 high1] pre1 by (auto simp: compare_pre_def b1_def)
    have "shown ?R low2 high2 = []" "shown (mark_range ?L low1 high1) low1 high1 = []" using m(2) 2(2) by (auto intro: shown_marked)
    then have "compare_post b1 se (se\<lparr>se_left := mark_range ?L low1 high1\<rparr>)" using m(1) by (simp add: compare_post_def b1_def)
    moreover have "compare_box env b m se = Some (se\<lparr>se_left := mark_range ?L low1 high1\<rparr>)" unfolding unfold using 2 by simp
    ultimately show ?thesis using ends(2) by blast
  next
    case 3
    obtain split k l where found: "findSplit ?L ?R env b1 m (se_forward se) (se_backward se) = Some (split, k, l)" "split_ok b1 split"
      and shape: "same_shape (se_forward se) k" "same_shape (se_backward se) l"
      using findSplit_returns [OF ends(3) [OF 3] env, of "se_forward se" "se_backward se" m] pre1 by (auto simp: compare_pre_def)
    let ?se = "se\<lparr>se_forward := k, se_backward := l\<rparr>"
    define bl where "bl = \<lparr>bx_off1 = low1, bx_lim1 = sp_i1 split, bx_off2 = low2, bx_lim2 = sp_i2 split\<rparr>"
    define bh where "bh = \<lparr>bx_off1 = sp_i1 split, bx_lim1 = high1, bx_off2 = sp_i2 split, bx_lim2 = high2\<rparr>"
    have i: "low1 \<le> sp_i1 split" "sp_i1 split \<le> high1" "low2 \<le> sp_i2 split" "sp_i2 split \<le> high2"
      "low1 + low2 < sp_i1 split + sp_i2 split" "sp_i1 split + sp_i2 split < high1 + high2"
      using found(2) by (auto simp: split_ok_def b1_def)
    have pre: "compare_pre b1 ?se" using pre1 covers_shape [OF shape(1)] covers_shape [OF shape(2)] by (simp add: compare_pre_def)
    have w: "within bl b1" "within bh b1" using i by (auto simp: within_def bl_def bh_def b1_def)
    have less_l: "nat (bx_lim1 bl - bx_off1 bl + (bx_lim2 bl - bx_off2 bl)) < nat (bx_lim1 b - bx_off1 b + (bx_lim2 b - bx_off2 b))"
      and less_h: "nat (bx_lim1 bh - bx_off1 bh + (bx_lim2 bh - bx_off2 bh)) < nat (bx_lim1 b - bx_off1 b + (bx_lim2 b - bx_off2 b))"
      using i ends(1) by (auto simp: bl_def bh_def b1_def within_def)
    obtain se1 where se1: "compare_box env bl (sp_minimalLow split) ?se = Some se1" "compare_post bl ?se se1"
      using less.hyps [OF less_l compare_pre_within [OF pre w(1)]] by blast
    have "compare_pre bh se1"
      using se1(2) i pre by (intro compare_pre_after [OF compare_pre_within [OF pre w(2)], where se' = se1 and ?o1.0 = low1 and ?l1.0 = "sp_i1 split" and ?o2.0 = low2 and ?l2.0 = "sp_i2 split"])
        (auto simp: compare_post_def bl_def bh_def compare_pre_def b1_def)
    then obtain se2 where se2: "compare_box env bh (sp_minimalHigh split) se1 = Some se2" "compare_post bh se1 se2"
      using less.hyps [OF less_h] by blast
    have "compare_post b1 ?se se2" using compare_join [OF pre, of "sp_i1 split" "sp_i2 split" se1 se2] se1(2) se2(2) i by (simp add: bl_def bh_def b1_def)
    then have "compare_post b1 se se2" using shape by (auto simp: compare_post_def dest: same_shape_trans)
    moreover have "compare_box env b m se = Some se2"
      unfolding unfold using 3 found(1) se1(1) se2(1) by (simp add: bl_def bh_def b1_def)
    ultimately show ?thesis using ends(2) by blast
  qed
qed

end
