(* ===== verification/DiffSlide.thy ===== *)
theory DiffSlide
  imports DiffCompact DiffCompare
begin

text \<open>
  Compaction returns and keeps the diff a diff: a slide exchanges two lines of the same class, so the classes of the
  unmarked lines never change, and every loop of the compaction ends.
\<close>

section \<open>Marked lines\<close>

definition hot :: "Side \<Rightarrow> nat \<Rightarrow> bool" where
  "hot s i = marks_get (sd_changed s) (int i)"

definition side_wf :: "Side \<Rightarrow> bool" where
  "side_wf s =
     (length (sd_classes s) = length (sd_lines s) \<and> length (sd_changed s) = length (sd_lines s) + 2 \<and>
      \<not> marks_get (sd_changed s) (- 1) \<and> \<not> hot s (length (sd_lines s)))"

text \<open>The classes of the lines a side keeps.\<close>

definition kept :: "Side \<Rightarrow> nat list" where
  "kept s = map ((!) (sd_classes s)) (filter (\<lambda>i. \<not> hot s i) [0..<length (sd_lines s)])"

definition at_group :: "Side \<Rightarrow> Group \<Rightarrow> bool" where
  "at_group s g =
     (gr_start g \<le> gr_end g \<and> gr_end g \<le> length (sd_lines s) \<and> (\<forall>p. gr_start g \<le> p \<and> p < gr_end g \<longrightarrow> hot s p) \<and>
      \<not> hot s (gr_end g) \<and> (0 < gr_start g \<longrightarrow> \<not> hot s (gr_start g - 1)))"

lemma hot_bound:
  assumes "side_wf s" "hot s p"
  shows "p < length (sd_lines s)"
proof -
  have "p \<noteq> length (sd_lines s)" using assms by (auto simp: side_wf_def)
  then show ?thesis using assms marks_get_bounds [of "sd_changed s" "int p"] by (auto simp: side_wf_def hot_def)
qed

lemma run_end_props:
  "(\<forall>p. i \<le> p \<and> p < run_end flags i \<longrightarrow> marks_get flags (int p)) \<and> \<not> marks_get flags (int (run_end flags i))"
proof (induction flags i rule: run_end.induct)
  case (1 flags i)
  show ?case
  proof (cases "marks_get flags (int i)")
    case True
    with 1 show ?thesis by (auto simp: run_end.simps [of flags i] Suc_le_eq) (metis Suc_leI le_neq_implies_less)
  qed (auto simp: run_end.simps [of flags i])
qed

lemma run_start_props:
  "(\<forall>p. run_start flags i \<le> p \<and> p < i \<longrightarrow> marks_get flags p) \<and> \<not> marks_get flags (run_start flags i - 1)"
proof (induction flags i rule: run_start.induct)
  case (1 flags i)
  show ?case
  proof (cases "marks_get flags (i - 1)")
    case True
    with 1 show ?thesis by (auto simp: run_start.simps [of flags i]) (metis linorder_neqE_linordered_idom zle_diff1_eq not_less)
  qed (auto simp: run_start.simps [of flags i])
qed

lemma run_end_group:
  assumes "side_wf s" "i \<le> length (sd_lines s)" "0 < i \<Longrightarrow> \<not> hot s (i - 1)"
  shows "at_group s \<lparr>gr_start = i, gr_end = run_end (sd_changed s) i\<rparr>"
proof -
  have "run_end (sd_changed s) i \<le> length (sd_lines s)"
  proof (rule ccontr)
    assume "\<not> ?thesis"
    then have "hot s (length (sd_lines s))" using run_end_props [of i "sd_changed s"] assms(2) by (auto simp: hot_def)
    then show False using assms(1) by (simp add: side_wf_def)
  qed
  then show ?thesis using run_end_props [of i "sd_changed s"] run_end_ge [of i "sd_changed s"] assms(3) by (auto simp: at_group_def hot_def)
qed

lemma run_start_group:
  assumes "side_wf s" "i \<le> e" "e \<le> length (sd_lines s)" "\<And>p. i \<le> p \<Longrightarrow> p < e \<Longrightarrow> hot s p" "\<not> hot s e"
  shows "at_group s \<lparr>gr_start = nat (run_start (sd_changed s) (int i)), gr_end = e\<rparr>"
proof -
  let ?j = "run_start (sd_changed s) (int i)"
  have j: "0 \<le> ?j"
  proof (rule ccontr)
    assume "\<not> ?thesis"
    then have "marks_get (sd_changed s) (- 1)" using run_start_props [of "sd_changed s" "int i"] by auto
    then show False using assms(1) by (simp add: side_wf_def)
  qed
  have "hot s p" if "nat ?j \<le> p" "p < e" for p
    using that j assms(4) run_start_props [of "sd_changed s" "int i"] by (cases "i \<le> p") (auto simp: hot_def)
  moreover have "\<not> hot s (nat ?j - 1)" if "0 < nat ?j"
    using that j run_start_props [of "sd_changed s" "int i"] by (auto simp: hot_def of_nat_diff)
  moreover have "nat ?j \<le> e" using run_start_le [of "sd_changed s" "int i"] assms(2) by linarith
  ultimately show ?thesis using assms(3,5) by (simp add: at_group_def)
qed

lemma groupInit_group: "side_wf s \<Longrightarrow> at_group s (groupInit s)"
  using run_end_group [of s 0] by (simp add: groupInit_def)

lemma groupNext_group:
  assumes "side_wf s" "at_group s g"
  shows "at_group s (snd (groupNext s g))" "fst (groupNext s g) \<Longrightarrow> gr_end g < gr_start (snd (groupNext s g))"
    "gr_end g \<le> gr_end (snd (groupNext s g))" "fst (groupNext s g) = (gr_end g \<noteq> length (sd_lines s))"
  using assms run_end_group [OF assms(1), of "gr_end g + 1"] run_end_ge [of "gr_end g + 1" "sd_changed s"]
  by (auto simp: groupNext_def at_group_def [of s g])

lemma groupPrevious_group:
  assumes "side_wf s" "at_group s g"
  shows "at_group s (snd (groupPrevious s g))" "0 < gr_start g \<Longrightarrow> gr_end (snd (groupPrevious s g)) = gr_start g - 1"
  using assms run_start_group [OF assms(1), of "gr_start g - 1" "gr_start g - 1"] by (auto simp: groupPrevious_def at_group_def [of s g])

section \<open>Slides\<close>

text \<open>Exchanging the line before a run of marked lines with its last line keeps the classes that are left.\<close>

lemma kept_exchange:
  assumes ab: "a < b" "b < n" and run: "\<And>p. a \<le> p \<Longrightarrow> p < b \<Longrightarrow> m p" "\<not> m b"
    and m': "\<And>p. m' p = (if p = a then False else if p = b then True else m p)" and same: "c a = c b"
  shows "map c (filter (\<lambda>i. \<not> m' i) [0..<n]) = map c (filter (\<lambda>i. \<not> m i) [0..<n])"
proof -
  have split: "[0..<n] = [0..<a] @ a # [a + 1..<b] @ b # [b + 1..<n]"
  proof -
    have "[0..<n] = [0..<a] @ [a..<n]" using upt_add_eq_append [of 0 a "n - a"] ab by simp
    moreover have "[a..<n] = [a..<b] @ [b..<n]" using upt_add_eq_append [of a b "n - b"] ab by simp
    ultimately show ?thesis using ab by (simp add: upt_conv_Cons)
  qed
  have "filter (\<lambda>i. \<not> m i) [0..<n] = filter (\<lambda>i. \<not> m i) [0..<a] @ b # filter (\<lambda>i. \<not> m i) [b + 1..<n]"
    unfolding split using run ab by (auto simp: filter_empty_conv)
  moreover have "filter (\<lambda>i. \<not> m' i) [0..<n] = filter (\<lambda>i. \<not> m i) [0..<a] @ a # filter (\<lambda>i. \<not> m i) [b + 1..<n]"
  proof -
    have "filter (\<lambda>i. \<not> m' i) [0..<a] = filter (\<lambda>i. \<not> m i) [0..<a]" "filter (\<lambda>i. \<not> m' i) [b + 1..<n] = filter (\<lambda>i. \<not> m i) [b + 1..<n]"
      using ab by (auto simp: m' intro!: filter_cong)
    then show ?thesis unfolding split using run ab by (auto simp: filter_empty_conv m')
  qed
  ultimately show ?thesis using same by simp
qed

definition after :: "Side \<Rightarrow> Group \<Rightarrow> nat" where
  "after s g = length (filter (hot s) [gr_end g..<length (sd_lines s)])"

abbreviation extent :: "Group \<Rightarrow> nat" where
  "extent g \<equiv> gr_end g - gr_start g"

text \<open>What a sequence of slides of a group keeps.\<close>

definition group_ok :: "Side \<Rightarrow> Group \<Rightarrow> bool" where
  "group_ok s g = (side_wf s \<and> at_group s g \<and> gr_start g < gr_end g)"

definition slid :: "Side \<Rightarrow> Group \<Rightarrow> Side \<Rightarrow> Group \<Rightarrow> bool" where
  "slid s g s' g' =
     (group_ok s' g' \<and> s' = s\<lparr>sd_changed := sd_changed s'\<rparr> \<and> kept s' = kept s \<and> extent g \<le> extent g' \<and> after s' g' \<le> after s g)"

lemma slid_refl: "group_ok s g \<Longrightarrow> slid s g s g"
  by (simp add: slid_def)

lemma slid_trans: "slid s g s' g' \<Longrightarrow> slid s' g' s'' g'' \<Longrightarrow> slid s g s'' g''"
  unfolding slid_def by (metis (no_types, lifting) Side.surjective Side.update_convs(3) order_trans)

lemma slid_same: "slid s g s' g' \<Longrightarrow> sd_lines s' = sd_lines s \<and> sd_classes s' = sd_classes s \<and> sd_reference s' = sd_reference s"
  unfolding slid_def by (metis Side.ext_inject Side.surjective Side.update_convs(3))

lemma hot_set:
  assumes "side_wf s" "a < length (sd_lines s)" "b < length (sd_lines s)" "s' = s\<lparr>sd_changed := marks_set (marks_set (sd_changed s) (int a) u) (int b) v\<rparr>"
  shows "hot s' p = (if p = b then v else if p = a then u else hot s p)" "marks_get (sd_changed s') (- 1) = marks_get (sd_changed s) (- 1)"
    "length (sd_changed s') = length (sd_changed s)"
  using assms by (auto simp: hot_def side_wf_def marks_get_set)

lemma side_wf_set:
  assumes "side_wf s" "a < length (sd_lines s)" "b < length (sd_lines s)" "s' = s\<lparr>sd_changed := marks_set (marks_set (sd_changed s) (int a) u) (int b) v\<rparr>"
  shows "side_wf s'"
  using assms hot_set(1) [OF assms, of "length (sd_lines s)"] hot_set(2,3) [OF assms] by (simp add: side_wf_def)

lemma slide_down_step:
  assumes ok: "group_ok s g" and step: "groupSlideDown s g = (True, s', g')"
  shows "slid s g s' g'" "gr_start g' = gr_start g + 1" "gr_end g < gr_end g'"
    "\<And>p. hot s' p = (if p = gr_start g then False else if p = gr_end g then True else hot s p)"
    "sd_classes s ! gr_start g = sd_classes s ! gr_end g"
proof -
  let ?a = "gr_start g" and ?b = "gr_end g"
  have wf: "side_wf s" and at: "at_group s g" and ab: "?a < ?b" using ok by (auto simp: group_ok_def)
  have b: "?b < length (sd_lines s)" and s': "s' = s\<lparr>sd_changed := marks_set (marks_set (sd_changed s) (int ?a) False) (int ?b) True\<rparr>"
    and g': "g' = \<lparr>gr_start = ?a + 1, gr_end = run_end (sd_changed s') (?b + 1)\<rparr>"
    and eq: "charCodeAt (sd_classes s) ?a = charCodeAt (sd_classes s) ?b"
    using step by (auto simp: groupSlideDown_def Let_def split: if_splits)
  have al: "?a < length (sd_lines s)" using ab b by simp
  note h = hot_set [OF wf al b s']
  have hot: "hot s' p = (if p = ?a then False else if p = ?b then True else hot s p)" for p using h(1) [of p] ab by auto
  have wf': "side_wf s'" by (rule side_wf_set [OF wf al b s'])
  show c: "sd_classes s ! ?a = sd_classes s ! ?b" using eq b al wf by (simp add: charCodeAt_def side_wf_def)
  show "gr_start g' = ?a + 1" by (simp add: g')
  let ?e = "run_end (sd_changed s') (?b + 1)"
  have e: "?b + 1 \<le> ?e" by (rule run_end_ge)
  then show "gr_end g < gr_end g'" by (simp add: g')
  show "hot s' p = (if p = ?a then False else if p = ?b then True else hot s p)" for p by (rule hot)
  have lines: "sd_lines s' = sd_lines s" "sd_classes s' = sd_classes s" by (simp_all add: s')
  have run: "\<And>p. ?a \<le> p \<Longrightarrow> p < ?b \<Longrightarrow> hot s p" "\<not> hot s ?b" using at by (auto simp: at_group_def)
  have "kept s' = kept s" unfolding kept_def lines
    by (rule kept_exchange [of ?a ?b]) (use ab b run hot c in auto)
  moreover have "at_group s' g'"
  proof -
    have "hot s' p" if "?a + 1 \<le> p" "p < ?e" for p
      using that run hot [of p] run_end_props [of "?b + 1" "sd_changed s'"] by (cases "p < ?b"; cases "p = ?b") (auto simp: hot_def [of s'])
    moreover have "\<not> hot s' ?e" using run_end_props [of "?b + 1" "sd_changed s'"] by (simp add: hot_def)
    moreover have "?e \<le> length (sd_lines s')"
    proof (rule ccontr)
      assume "\<not> ?thesis"
      then have "hot s' (length (sd_lines s'))" using calculation(1) al lines by (simp add: Suc_le_eq)
      then show False using wf' by (simp add: side_wf_def)
    qed
    ultimately show ?thesis using e ab hot [of ?a] by (simp add: at_group_def g')
  qed
  moreover have "after s' g' \<le> after s g"
  proof -
    have "filter (hot s') [?e..<length (sd_lines s)] = filter (hot s) [?e..<length (sd_lines s)]"
      using e ab by (intro filter_cong) (auto simp: hot)
    moreover have "[?b..<length (sd_lines s)] = [?b..<?e] @ [?e..<length (sd_lines s)]"
      using e upt_add_eq_append [of ?b ?e "length (sd_lines s) - ?e"] \<open>at_group s' g'\<close> by (simp add: at_group_def g' lines)
    ultimately show ?thesis by (simp add: after_def g' lines)
  qed
  moreover have "gr_start g' < gr_end g'" "extent g \<le> extent g'" using e ab by (simp_all add: g')
  moreover have "s' = s\<lparr>sd_changed := sd_changed s'\<rparr>" using s' by (metis Side.surjective Side.update_convs(3))
  ultimately show "slid s g s' g'" using wf' unfolding slid_def group_ok_def by simp
qed

lemma slide_up_step:
  assumes ok: "group_ok s g" and step: "groupSlideUp s g = (True, s', g')"
  shows "slid s g s' g'" "gr_end g' = gr_end g - 1" "gr_start g' < gr_start g"
    "\<And>p. hot s' p = (if p = gr_end g - 1 then False else if p = gr_start g - 1 then True else hot s p)"
proof -
  let ?a = "gr_start g - 1" and ?b = "gr_end g - 1"
  have wf: "side_wf s" and at: "at_group s g" and se: "gr_start g < gr_end g" using ok by (auto simp: group_ok_def)
  have pos: "0 < gr_start g" and s': "s' = s\<lparr>sd_changed := marks_set (marks_set (sd_changed s) (int ?a) True) (int ?b) False\<rparr>"
    and g': "g' = \<lparr>gr_start = nat (run_start (sd_changed s') (int ?a)), gr_end = ?b\<rparr>"
    and eq: "charCodeAt (sd_classes s) ?a = charCodeAt (sd_classes s) ?b"
    using step by (auto simp: groupSlideUp_def Let_def split: if_splits)
  have ab: "?a < ?b" using pos se by simp
  have bl: "?b < length (sd_lines s)" and al: "?a < length (sd_lines s)" using at se pos by (auto simp: at_group_def)
  note h = hot_set [OF wf al bl s']
  have hot: "hot s' p = (if p = ?b then False else if p = ?a then True else hot s p)" for p using h(1) [of p] .
  then show "hot s' p = (if p = gr_end g - 1 then False else if p = gr_start g - 1 then True else hot s p)" for p .
  have wf': "side_wf s'" by (rule side_wf_set [OF wf al bl s'])
  have c: "sd_classes s ! ?a = sd_classes s ! ?b" using eq bl al wf by (simp add: charCodeAt_def side_wf_def)
  show "gr_end g' = gr_end g - 1" by (simp add: g')
  have le: "gr_start g' \<le> ?a" using run_start_le [of "sd_changed s'" "int ?a"] by (simp add: g')
  then show "gr_start g' < gr_start g" using pos by simp
  have lines: "sd_lines s' = sd_lines s" "sd_classes s' = sd_classes s" by (simp_all add: s')
  have run: "\<And>p. gr_start g \<le> p \<Longrightarrow> p < gr_end g \<Longrightarrow> hot s p" "\<not> hot s ?a" "\<not> hot s (gr_end g)" using at pos by (auto simp: at_group_def)
  have run': "hot s' p" if "?a \<le> p" "p < ?b" for p using that hot [of p] run(1) [of p] by (cases "p = ?a") auto
  have "map ((!) (sd_classes s)) (filter (\<lambda>i. \<not> hot s i) [0..<length (sd_lines s)]) = map ((!) (sd_classes s)) (filter (\<lambda>i. \<not> hot s' i) [0..<length (sd_lines s)])"
  proof (rule kept_exchange [OF ab bl run'])
    show "hot s p = (if p = ?a then False else if p = ?b then True else hot s' p)" for p
      using hot [of p] run(1) [of ?b] run(2) se by auto
  qed (use hot [of ?b] c in auto)
  then have "kept s' = kept s" by (simp add: kept_def lines)
  moreover have "at_group s' g'" unfolding g'
    using run' hot [of ?b] by (intro run_start_group [OF wf']) (use ab bl lines in auto)
  moreover have "after s' g' = after s g"
  proof -
    have "[?b..<length (sd_lines s)] = ?b # [gr_end g..<length (sd_lines s)]" using bl se by (simp add: upt_conv_Cons)
    moreover have "filter (hot s') [gr_end g..<length (sd_lines s)] = filter (hot s) [gr_end g..<length (sd_lines s)]"
      using se by (intro filter_cong) (auto simp: hot)
    ultimately show ?thesis using hot [of ?b] by (simp add: after_def g' lines)
  qed
  moreover have "extent g \<le> extent g'" using le pos by (simp add: g')
  moreover have "gr_start g' < gr_end g'" using le ab by (simp add: g')
  moreover have "s' = s\<lparr>sd_changed := sd_changed s'\<rparr>" using s' by (metis Side.surjective Side.update_convs(3))
  ultimately show "slid s g s' g'" using wf' unfolding slid_def group_ok_def by simp
qed

lemma step_false: "groupSlideUp s g = (False, s', g') \<Longrightarrow> s' = s \<and> g' = g" "groupSlideDown s g = (False, s', g') \<Longrightarrow> s' = s \<and> g' = g"
  by (auto simp: groupSlideUp_def groupSlideDown_def Let_def split: if_splits)

section \<open>The loops\<close>

lemma slide_up_all_slid:
  assumes "group_ok s g" "side_wf other" "at_group other og" "slide_up_all s g other og = (s', g', og')"
  shows "slid s g s' g' \<and> at_group other og'"
  using assms
proof (induction s g other og rule: slide_up_all.induct)
  case (1 s g other og)
  obtain b s1 g1 where step: "groupSlideUp s g = (b, s1, g1)" by (cases "groupSlideUp s g") auto
  show ?case
  proof (cases b)
    case True
    have step': "groupSlideUp s g = (True, s1, g1)" using step True by simp
    note st = slide_up_step(1) [OF "1.prems"(1) step']
    have "slid s1 g1 s' g' \<and> at_group other og'"
      using "1.IH" [OF step' [symmetric] refl refl] "1.prems" step' st groupPrevious_group(1) [OF "1.prems"(2,3)]
      by (simp add: slide_up_all.simps [of s g] slid_def)
    then show ?thesis using slid_trans [OF st] by simp
  next
    case False
    then show ?thesis using "1.prems" step slid_refl by (auto simp: slide_up_all.simps [of s g])
  qed
qed

text \<open>The other side has a group at or before the one that follows.\<close>

definition matched :: "Side \<Rightarrow> Group \<Rightarrow> bool" where
  "matched other og = (\<exists>p < gr_end og. hot other p)"

text \<open>The positions a group has slid down over: sliding up goes back over them.\<close>

definition retrace :: "Side \<Rightarrow> Group \<Rightarrow> nat \<Rightarrow> bool" where
  "retrace s g lo =
     (extent g \<le> lo \<and> lo \<le> gr_end g \<and>
      (\<forall>q. lo \<le> q \<and> q < gr_end g \<longrightarrow> sd_classes s ! (q - extent g) = sd_classes s ! q \<and> \<not> hot s (q - extent g)))"

lemma matched_nonempty: "at_group other og \<Longrightarrow> gr_start og < gr_end og \<Longrightarrow> matched other og"
  by (auto simp: matched_def at_group_def)

lemma matched_next: "side_wf other \<Longrightarrow> at_group other og \<Longrightarrow> matched other og \<Longrightarrow> matched other (snd (groupNext other og))"
  using groupNext_group(3) [of other og] by (auto simp: matched_def intro: less_le_trans)

lemma retrace_down:
  assumes ok: "group_ok s g" and step: "groupSlideDown s g = (True, s', g')" and r: "retrace s g lo" and e: "extent g' = extent g"
  shows "retrace s' g' lo"
proof -
  note st = slide_down_step [OF ok step]
  have ext: "gr_start g < gr_end g" "gr_end g' = gr_end g + 1" using ok st(2,3) e by (auto simp: group_ok_def)
  have c: "sd_classes s' = sd_classes s" using slid_same [OF st(1)] by simp
  show ?thesis unfolding retrace_def e
  proof (intro conjI allI impI)
    fix q assume q: "lo \<le> q \<and> q < gr_end g'"
    have "q = gr_end g \<or> q < gr_end g \<and> q - extent g < gr_start g" using q r ext by (auto simp: retrace_def)
    then show "sd_classes s' ! (q - extent g) = sd_classes s' ! q" "\<not> hot s' (q - extent g)"
      using q r ext st(4) [of "q - extent g"] st(5) by (auto simp: retrace_def c)
  qed (use r ext in \<open>auto simp: retrace_def\<close>)
qed

lemma slide_down_all_slid:
  assumes "group_ok s g" "side_wf other" "at_group other og" "em \<noteq> - 1 \<longrightarrow> matched other og" "slide_down_all s g other og em = (s', g', og', em')"
  shows "slid s g s' g' \<and> at_group other og' \<and> (em' \<noteq> - 1 \<longrightarrow> matched other og') \<and> (retrace s g lo \<and> extent g' = extent g \<longrightarrow> retrace s' g' lo)"
  using assms
proof (induction s g other og em rule: slide_down_all.induct)
  case (1 s g other og em)
  obtain b s1 g1 where step: "groupSlideDown s g = (b, s1, g1)" by (cases "groupSlideDown s g") auto
  show ?case
  proof (cases b)
    case True
    let ?og = "snd (groupNext other og)"
    let ?em = "if gr_end ?og > gr_start ?og then int (gr_end g1) else em"
    have step': "groupSlideDown s g = (True, s1, g1)" using step True by simp
    note st = slide_down_step(1) [OF "1.prems"(1) step']
    have og: "at_group other ?og" by (rule groupNext_group(1) [OF "1.prems"(2,3)])
    have m: "?em \<noteq> - 1 \<longrightarrow> matched other ?og" using "1.prems"(2-4) matched_nonempty [OF og] matched_next by auto
    have IH: "slid s1 g1 s' g' \<and> at_group other og' \<and> (em' \<noteq> - 1 \<longrightarrow> matched other og') \<and> (retrace s1 g1 lo \<and> extent g' = extent g1 \<longrightarrow> retrace s' g' lo)"
      using "1.IH" [OF step' [symmetric] refl refl refl] "1.prems" step' st og m
      by (simp add: slide_down_all.simps [of s g] slid_def Let_def)
    have "extent g' = extent g \<Longrightarrow> extent g1 = extent g" using st IH by (simp add: slid_def)
    then show ?thesis using IH slid_trans [OF st] retrace_down [OF "1.prems"(1) step'] by metis
  next
    case False
    then show ?thesis using "1.prems" step slid_refl by (auto simp: slide_down_all.simps [of s g])
  qed
qed

lemma extent_bound: "group_ok s g \<Longrightarrow> extent g \<le> length (sd_lines s)"
  by (auto simp: group_ok_def at_group_def)

lemma settle_returns:
  assumes "group_ok s g" "side_wf other" "at_group other og"
  shows "\<exists>st. settle s g other og = Some st \<and> slid s g (st_side st) (st_group st) \<and> at_group other (st_other st) \<and>
    (st_endMatchingOther st \<noteq> - 1 \<longrightarrow> matched other (st_other st)) \<and> retrace (st_side st) (st_group st) (st_earliestEnd st)"
  using assms
proof (induction "length (sd_lines s) - extent g" arbitrary: s g og rule: less_induct)
  case less
  obtain s1 g1 og1 where up: "slide_up_all s g other og = (s1, g1, og1)" by (cases "slide_up_all s g other og") auto
  note u = slide_up_all_slid [OF less.prems up]
  define em where "em = (if gr_end og1 > gr_start og1 then int (gr_end g1) else - 1)"
  obtain s2 g2 og2 em2 where down: "slide_down_all s1 g1 other og1 em = (s2, g2, og2, em2)" by (cases "slide_down_all s1 g1 other og1 em") auto
  have ok1: "group_ok s1 g1" using u by (simp add: slid_def)
  have m: "em \<noteq> - 1 \<longrightarrow> matched other og1" using u matched_nonempty by (simp add: em_def)
  note d = slide_down_all_slid [OF ok1 less.prems(2) conjunct2 [OF u] m down, where lo = "gr_end g1"]
  have both: "slid s g s2 g2" using u d slid_trans by blast
  note unfold = settle.simps [of s g other og] Let_def up prod.case em_def [symmetric] down
  show ?case
  proof (cases "extent g = extent g2")
    case True
    then have "extent g1 = extent g2" using u d by (simp add: slid_def)
    moreover have "retrace s1 g1 (gr_end g1)" by (auto simp: retrace_def)
    ultimately show ?thesis using True both d by (simp add: unfold)
  next
    case False
    have ok2: "group_ok s2 g2" using both by (simp add: slid_def)
    have "extent g < extent g2" using False both by (simp add: slid_def)
    then have "length (sd_lines s2) - extent g2 < length (sd_lines s) - extent g" using slid_same [OF both] extent_bound [OF ok2] by simp
    from less.hyps [OF this ok2 less.prems(2)] d obtain st where "settle s2 g2 other og2 = Some st" "slid s2 g2 (st_side st) (st_group st)" "at_group other (st_other st)"
      "st_endMatchingOther st \<noteq> - 1 \<longrightarrow> matched other (st_other st)" "retrace (st_side st) (st_group st) (st_earliestEnd st)" by blast
    then show ?thesis using False slid_trans [OF both] by (simp add: unfold)
  qed
qed

lemma step_up_slid:
  assumes "group_ok s g" "side_wf other" "at_group other og" "step_up other s g og = (s', g', og')"
  shows "slid s g s' g' \<and> og' = snd (groupPrevious other og)"
  using assms slide_up_step(1) [OF assms(1)] slid_refl [OF assms(1)] step_false(1) [of s g]
  by (cases "groupSlideUp s g"; cases "fst (groupSlideUp s g)") (auto simp: step_up_def)

lemma align_other_returns:
  assumes "group_ok s g" "side_wf other" "at_group other og" "matched other og"
  shows "\<exists>s' g' og'. align_other other s g og = Some (s', g', og') \<and> slid s g s' g' \<and> at_group other og'"
  using assms
proof (induction "gr_end og" arbitrary: s g og rule: less_induct)
  case less
  show ?case
  proof (cases "gr_end og = gr_start og")
    case True
    obtain s1 g1 og1 where step: "step_up other s g og = (s1, g1, og1)" by (cases "step_up other s g og") auto
    note st = step_up_slid [OF less.prems(1-3) step]
    obtain p where p: "p < gr_end og" "hot other p" using less.prems(4) by (auto simp: matched_def)
    have pos: "0 < gr_start og" using p True by simp
    have og1: "at_group other og1" "gr_end og1 = gr_start og - 1" using st groupPrevious_group [OF less.prems(2,3)] pos by auto
    have "p \<noteq> gr_start og - 1" using p less.prems(3) pos by (auto simp: at_group_def)
    then have "matched other og1" using p True og1(2) by (auto simp: matched_def intro!: exI [of _ p])
    moreover have "group_ok s1 g1" using st by (simp add: slid_def)
    ultimately obtain s' g' og' where "align_other other s1 g1 og1 = Some (s', g', og')" "slid s1 g1 s' g'" "at_group other og'"
      using less.hyps [of og1 s1 g1] less.prems(2) og1 pos True by auto
    then show ?thesis using st slid_trans True by (auto simp: align_other.simps [of other s g og] step)
  next
    case False
    then show ?thesis using less.prems slid_refl by (auto simp: align_other.simps [of other s g og])
  qed
qed

lemma retrace_up:
  assumes ok: "group_ok s g" and r: "retrace s g lo" and lo: "lo < gr_end g"
  obtains s' g' where "groupSlideUp s g = (True, s', g')" "gr_end g' = gr_end g - 1" "lo < gr_end g' \<Longrightarrow> retrace s' g' lo"
proof -
  have wf: "side_wf s" and at: "at_group s g" and se: "gr_start g < gr_end g" using ok by (auto simp: group_ok_def)
  have start: "gr_start g = gr_end g - extent g" "0 < gr_start g" "extent g \<le> lo" using r lo se by (auto simp: retrace_def)
  have last: "gr_end g - 1 - extent g = gr_start g - 1" using start se by simp
  have "sd_classes s ! (gr_start g - 1) = sd_classes s ! (gr_end g - 1)" using r lo last by (auto simp: retrace_def dest: spec [of _ "gr_end g - 1"])
  then have "charCodeAt (sd_classes s) (gr_start g - 1) = charCodeAt (sd_classes s) (gr_end g - 1)"
    using wf at start se by (auto simp: charCodeAt_def side_wf_def at_group_def)
  then obtain s' g' where step: "groupSlideUp s g = (True, s', g')" using start(2) by (auto simp: groupSlideUp_def Let_def)
  note st = slide_up_step [OF ok step]
  have "retrace s' g' lo" if "lo < gr_end g'"
  proof -
    have two: "gr_end g - 2 - extent g = gr_start g - 2" "2 \<le> gr_start g" using that st(2) start se by linarith+
    have "lo \<le> gr_end g - 2 \<and> gr_end g - 2 < gr_end g" using that st(2) se by linarith
    then have "\<not> hot s (gr_end g - 2 - extent g)" using r unfolding retrace_def by blast
    then have cold: "\<not> hot s (gr_start g - 2)" unfolding two(1) .
    have g'start: "gr_start g' = gr_start g - 1"
    proof (rule ccontr)
      assume "\<not> ?thesis"
      then have "gr_start g' \<le> gr_start g - 2 \<and> gr_start g - 2 < gr_end g'" using st(2,3) se two(2) by linarith
      then have "hot s' (gr_start g - 2)" using st(1) by (auto simp: slid_def group_ok_def at_group_def)
      then show False using st(4) [of "gr_start g - 2"] cold two(2) by (auto split: if_splits)
    qed
    have ext: "extent g' = extent g" using g'start st(2) start(2) se by linarith
    have cls: "sd_classes s' = sd_classes s" using slid_same [OF st(1)] by simp
    show ?thesis unfolding retrace_def ext
    proof (intro conjI allI impI)
      fix q assume q: "lo \<le> q \<and> q < gr_end g'"
      then have q': "lo \<le> q \<and> q < gr_end g" "q - extent g \<noteq> gr_start g - 1" using st(2) start se by auto
      then show "sd_classes s' ! (q - extent g) = sd_classes s' ! q" "\<not> hot s' (q - extent g)"
        using r st(4) [of "q - extent g"] by (auto simp: retrace_def cls)
    qed (use start that in auto)
  qed
  then show thesis using that step st(2) by blast
qed

lemma align_shift_returns:
  assumes "group_ok s g" "side_wf other" "at_group other og" "retrace s g lo" "int lo \<le> best"
  shows "\<exists>s' g' og'. align_shift other best s g og = Some (s', g', og') \<and> slid s g s' g' \<and> at_group other og'"
  using assms
proof (induction "gr_end g" arbitrary: s g og rule: less_induct)
  case less
  show ?case
  proof (cases "int (gr_end g) > best")
    case True
    then have lo: "lo < gr_end g" using less.prems(5) by linarith
    obtain s1 g1 where up: "groupSlideUp s g = (True, s1, g1)" "gr_end g1 = gr_end g - 1" "lo < gr_end g1 \<Longrightarrow> retrace s1 g1 lo"
      using retrace_up [OF less.prems(1,4) lo] by blast
    let ?og = "snd (groupPrevious other og)"
    note st = slide_up_step(1) [OF less.prems(1) up(1)]
    have og: "at_group other ?og" by (rule groupPrevious_group(1) [OF less.prems(2,3)])
    have ok1: "group_ok s1 g1" using st by (simp add: slid_def)
    have "\<exists>s' g' og'. align_shift other best s1 g1 ?og = Some (s', g', og') \<and> slid s1 g1 s' g' \<and> at_group other og'"
    proof (cases "lo < gr_end g1")
      case True
      then show ?thesis using less.hyps [of g1 s1 ?og] up lo ok1 less.prems(2,5) og by simp
    next
      case False
      then have "\<not> int (gr_end g1) > best" using less.prems(5) by linarith
      then show ?thesis using slid_refl [OF ok1] og by (simp add: align_shift.simps [of other best s1])
    qed
    then show ?thesis using True slid_trans [OF st] by (auto simp: align_shift.simps [of other best s g og] step_up_def up(1))
  next
    case False
    then show ?thesis using less.prems slid_refl by (auto simp: align_shift.simps [of other best s g og])
  qed
qed

lemma better_shift_some:
  "\<forall>x \<in> set xs. lo \<le> x \<Longrightarrow> lo \<le> b \<Longrightarrow> \<exists>x sc. fold (better_shift s n) xs (Some (b, score)) = Some (x, sc) \<and> lo \<le> x"
proof (induction xs arbitrary: b score)
  case (Cons x xs)
  then show ?case by (auto simp: better_shift_def Let_def)
qed simp

lemma best_shift_ge:
  assumes "lo \<le> e"
  shows "int lo \<le> best_shift s n lo e"
proof -
  have f: "lo \<le> first_shift lo n e" "first_shift lo n e \<le> e" using assms by (auto simp: first_shift_def Let_def)
  then have "[first_shift lo n e..<e + 1] = first_shift lo n e # [first_shift lo n e + 1..<e + 1]" by (simp add: upt_conv_Cons)
  moreover obtain score where "better_shift s n (first_shift lo n e) None = Some (first_shift lo n e, score)" by (auto simp: better_shift_def Let_def)
  ultimately show ?thesis
    using better_shift_some [of "[first_shift lo n e + 1..<e + 1]" lo "first_shift lo n e" s n score] f by (auto simp: best_shift_def)
qed

lemma compact_group_returns:
  assumes "side_wf s" "at_group s g" "side_wf other" "at_group other og"
  shows "\<exists>s' g' og'. compact_group ind other s g og = Some (s', g', og') \<and> at_group other og' \<and>
    (if gr_end g = gr_start g then s' = s \<and> g' = g else slid s g s' g')"
proof (cases "gr_end g = gr_start g")
  case True
  then show ?thesis using assms by (simp add: compact_group_def)
next
  case False
  then have ok: "group_ok s g" using assms(1,2) by (auto simp: group_ok_def at_group_def)
  obtain st where st: "settle s g other og = Some st" "slid s g (st_side st) (st_group st)" "at_group other (st_other st)"
      "st_endMatchingOther st \<noteq> - 1 \<longrightarrow> matched other (st_other st)" "retrace (st_side st) (st_group st) (st_earliestEnd st)"
    using settle_returns [OF ok assms(3,4)] by blast
  have ok1: "group_ok (st_side st) (st_group st)" using st(2) by (simp add: slid_def)
  have "int (st_earliestEnd st) \<le> best_shift (st_side st) (st_size st) (st_earliestEnd st) (gr_end (st_group st))"
    using st(5) by (intro best_shift_ge) (simp add: retrace_def)
  note shift = align_shift_returns [OF ok1 assms(3) st(3,5) this]
  note align = align_other_returns [OF ok1 assms(3) st(3)]
  have "\<exists>s' g' og'. compact_group ind other s g og = Some (s', g', og') \<and> at_group other og' \<and> slid s g s' g'"
    using False st shift align slid_trans [OF st(2)] by (auto simp: compact_group_def Let_def)
  then show ?thesis using False by simp
qed

text \<open>What compaction leaves: the marks may move, the classes of the unmarked lines do not.\<close>

definition compacted :: "Side \<Rightarrow> Side \<Rightarrow> bool" where
  "compacted s s' = (side_wf s' \<and> s' = s\<lparr>sd_changed := sd_changed s'\<rparr> \<and> kept s' = kept s)"

lemma compacted_trans: "compacted s s' \<Longrightarrow> compacted s' s'' \<Longrightarrow> compacted s s''"
  unfolding compacted_def by (metis (no_types, lifting) Side.surjective Side.update_convs(3))

lemma after_next:
  assumes wf: "side_wf s" and at: "at_group s g" and next_g: "groupNext s g = (True, g')"
  shows "after s g' + (if gr_start g' < gr_end g' then 1 else 0) \<le> after s g" "gr_end g < gr_end g'" "gr_end g' \<le> length (sd_lines s)"
proof -
  have g': "at_group s g'" "gr_end g < gr_start g'" using groupNext_group(1,2) [OF wf at] next_g by auto
  then show le: "gr_end g < gr_end g'" "gr_end g' \<le> length (sd_lines s)" by (auto simp: at_group_def)
  have "[gr_end g..<length (sd_lines s)] = [gr_end g..<gr_end g'] @ [gr_end g'..<length (sd_lines s)]"
    using upt_add_eq_append [of "gr_end g" "gr_end g'" "length (sd_lines s) - gr_end g'"] le by simp
  moreover have "filter (hot s) [gr_end g..<gr_end g'] \<noteq> []" if "gr_start g' < gr_end g'"
    using that g' by (auto simp: filter_empty_conv at_group_def intro!: exI [of _ "gr_start g'"])
  ultimately show "after s g' + (if gr_start g' < gr_end g' then 1 else 0) \<le> after s g"
    by (auto simp: after_def Suc_le_eq)
qed

lemma compact_loop_returns:
  assumes "side_wf s" "at_group s g" "side_wf other" "at_group other og"
  shows "\<exists>s'. compact_loop ind other s g og = Some s' \<and> compacted s s'"
  using assms
proof (induction "(2 * after s g + (if gr_start g < gr_end g then 1 else 0), length (sd_lines s) - gr_end g)"
    arbitrary: s g og rule: wf_induct_rule [OF wf_lex_prod [OF wf_less_than wf_less_than], consumes 0, case_names less])
  case (less s g og)
  obtain s1 g1 og1 where body: "compact_group ind other s g og = Some (s1, g1, og1)" "at_group other og1"
    and cases: "if gr_end g = gr_start g then s1 = s \<and> g1 = g else slid s g s1 g1"
    using compact_group_returns [OF less.prems, of ind] by blast
  have wf1: "side_wf s1" and at1: "at_group s1 g1" and c1: "compacted s s1" and a1: "after s1 g1 \<le> after s g"
    using cases less.prems(1,2) by (auto simp: slid_def group_ok_def compacted_def split: if_splits)
  have lines: "sd_lines s1 = sd_lines s" using cases slid_same by (auto split: if_splits)
  obtain adv g2 where next_g: "groupNext s1 g1 = (adv, g2)" by fastforce
  show ?case
  proof (cases adv)
    case True
    have next_g': "groupNext s1 g1 = (True, g2)" using next_g True by simp
    have at2: "at_group s1 g2" using groupNext_group(1) [OF wf1 at1] next_g' by simp
    have at_og: "at_group other (snd (groupNext other og1))" by (rule groupNext_group(1) [OF less.prems(3) body(2)])
    have "gr_start g \<le> gr_end g" using less.prems(2) by (simp add: at_group_def)
    then have "((2 * after s1 g2 + (if gr_start g2 < gr_end g2 then 1 else 0), length (sd_lines s1) - gr_end g2),
           (2 * after s g + (if gr_start g < gr_end g then 1 else 0), length (sd_lines s) - gr_end g)) \<in> less_than <*lex*> less_than"
      using after_next [OF wf1 at1 next_g'] a1 cases lines by (auto split: if_splits)
    from less.hyps [OF this wf1 at2 less.prems(3) at_og] obtain s' where "compact_loop ind other s1 g2 (snd (groupNext other og1)) = Some s'" "compacted s1 s'" by blast
    then show ?thesis using compacted_trans [OF c1] body(1) next_g' by (simp add: compact_loop.simps [of ind other s g og])
  next
    case False
    then show ?thesis using c1 body(1) next_g by (simp add: compact_loop.simps [of ind other s g og])
  qed
qed

theorem compact_returns:
  assumes "side_wf s" "side_wf other"
  obtains s' where "compact s other ind = Some s'" "compacted s s'"
  using compact_loop_returns [OF assms(1) groupInit_group [OF assms(1)] assms(2) groupInit_group [OF assms(2)], of ind] by (auto simp: compact_def)

end
