(* ===== verification/DiffClasses.thy ===== *)
theory DiffClasses
  imports DiffPrepare
begin

text \<open>
  The equality classes of a line diff: two lines have the same class exactly when they are equal, for text lines and for
  records of bytes, whatever their hashes. The two ways to give ids satisfy one contract.
\<close>

section \<open>Giving ids\<close>

text \<open>
  What a classification relies on: \<open>ids\<close> is the map of the ids given so far, \<open>key\<close> what two lines of one class share. A
  line of a known key gets its id, another one gets an id of its own.
\<close>

locale id_giver =
  fixes give :: "'s \<Rightarrow> 'l \<Rightarrow> nat \<times> 's" and known :: "'s \<Rightarrow> nat" and ids :: "'s \<Rightarrow> 'k \<Rightarrow> nat option"
    and key :: "'l \<Rightarrow> 'k" and ok :: "'s \<Rightarrow> bool"
  assumes give_ok: "ok st \<Longrightarrow> give st l = (i, st') \<Longrightarrow> ok st'"
    and give_ids: "ok st \<Longrightarrow> give st l = (i, st') \<Longrightarrow> ids st' = (ids st)(key l \<mapsto> i)"
    and give_known: "ok st \<Longrightarrow> give st l = (i, st') \<Longrightarrow> ids st (key l) = Some j \<Longrightarrow> i = j"
    and ids_inj: "ok st \<Longrightarrow> ids st k = Some i \<Longrightarrow> ids st k' = Some i \<Longrightarrow> k = k'"
begin

lemma class_side_ids:
  assumes "ok st" "class_side give known lines st here there = (classes, st', here', there')"
  shows "ok st' \<and> ids st \<subseteq>\<^sub>m ids st' \<and> map Some classes = map (\<lambda>l. ids st' (key l)) lines"
  using assms
proof (induction lines arbitrary: st here there classes here' there')
  case (Cons l lines)
  obtain i st1 where g: "give st l = (i, st1)" by fastforce
  note facts = give_ok [OF Cons.prems(1) g] give_ids [OF Cons.prems(1) g] give_known [OF Cons.prems(1) g]
  have "ids st \<subseteq>\<^sub>m ids st1" using facts(2,3) by (auto simp: map_le_def)
  moreover obtain cs where cs: "classes = i # cs" and run: "\<exists>h t. class_side give known lines st1 h t = (cs, st', here', there')"
    using Cons.prems(2) by (auto simp: g Let_def split: prod.splits)
  then have IH: "ok st' \<and> ids st1 \<subseteq>\<^sub>m ids st' \<and> map Some cs = map (\<lambda>l. ids st' (key l)) lines" using Cons.IH [OF facts(1)] by blast
  moreover have "ids st1 (key l) = Some i" using facts(2) by simp
  then have "ids st' (key l) = Some i" using IH by (metis domI map_le_def)
  ultimately show ?case using cs map_le_trans by auto
qed (simp add: map_le_def)

lemma classify_with_classes:
  assumes "ok st" "classify_with give known st oldLines newLines = cl"
  shows "length (cl_oldClasses cl) = length oldLines" "length (cl_newClasses cl) = length newLines"
    "i < length oldLines \<Longrightarrow> j < length newLines \<Longrightarrow> cl_oldClasses cl ! i = cl_newClasses cl ! j \<longleftrightarrow> key (oldLines ! i) = key (newLines ! j)"
proof -
  obtain oc st1 a b where old: "class_side give known oldLines st [] [] = (oc, st1, a, b)" by (cases "class_side give known oldLines st [] []") auto
  obtain nc st2 c d where new: "class_side give known newLines st1 b a = (nc, st2, c, d)" by (cases "class_side give known newLines st1 b a") auto
  have o: "ok st1" "map Some oc = map (\<lambda>l. ids st1 (key l)) oldLines" using class_side_ids [OF assms(1) old] by auto
  have n: "ok st2" "ids st1 \<subseteq>\<^sub>m ids st2" "map Some nc = map (\<lambda>l. ids st2 (key l)) newLines" using class_side_ids [OF o(1) new] by auto
  have cl: "cl_oldClasses cl = oc" "cl_newClasses cl = nc" using assms(2) by (auto simp: classify_with_def old new)
  have len: "length oc = length oldLines" "length nc = length newLines" using o(2) n(3) map_eq_imp_length_eq by metis+
  then show "length (cl_oldClasses cl) = length oldLines" "length (cl_newClasses cl) = length newLines" by (simp_all add: cl)
  assume ij: "i < length oldLines" "j < length newLines"
  have "ids st1 (key (oldLines ! i)) = Some (oc ! i)" using o(2) ij(1) len(1) by (metis nth_map)
  then have "ids st2 (key (oldLines ! i)) = Some (oc ! i)" using n(2) by (metis domI map_le_def)
  moreover have "ids st2 (key (newLines ! j)) = Some (nc ! j)" using n(3) ij(2) len(2) by (metis nth_map)
  ultimately show "cl_oldClasses cl ! i = cl_newClasses cl ! j \<longleftrightarrow> key (oldLines ! i) = key (newLines ! j)"
    using ids_inj [OF n(1)] by (auto simp: cl)
qed

end

section \<open>Text lines\<close>

definition text_ids_ok :: "(jstring \<times> nat) list \<times> nat \<Rightarrow> bool" where
  "text_ids_ok st = (case st of (m, n) \<Rightarrow> (\<forall>k i. map_of m k = Some i \<longrightarrow> i < n) \<and> (\<forall>k k' i. map_of m k = Some i \<longrightarrow> map_of m k' = Some i \<longrightarrow> k = k'))"

lemma idFor_cases:
  assumes "idFor (m, n) l = (i, m', n')"
  shows "map_of m l = Some i \<and> m' = m \<and> n' = n \<or> map_of m l = None \<and> i = n \<and> map_of m' = (map_of m)(l \<mapsto> n) \<and> n' = n + 1"
  using assms by (auto simp: idFor_def update_conv' split: option.splits)

interpretation text_ids: id_giver idFor snd "\<lambda>st. map_of (fst st)" "\<lambda>l. l" text_ids_ok
proof (unfold_locales, goal_cases)
  case (1 st l i st')
  obtain m n m' n' where st: "st = (m, n)" "st' = (m', n')" by (cases st; cases st') auto
  show ?case using 1(1) idFor_cases [OF 1(2) [unfolded st]] unfolding st text_ids_ok_def
    by (auto split: if_splits) (metis less_SucI less_irrefl)+
next
  case (2 st l i st')
  then show ?case using idFor_cases [of "fst st" "snd st" l i "fst st'" "snd st'"] by (cases st; cases st') auto
next
  case (3 st l i st' j)
  then show ?case using idFor_cases [of "fst st" "snd st" l i "fst st'" "snd st'"] by (cases st; cases st') auto
next
  case (4 st k i k')
  then show ?case unfolding text_ids_ok_def by (cases st) auto
qed

section \<open>Byte records\<close>

text \<open>What two equal records share: their length and their bytes.\<close>

definition record_key_of :: "ByteRecord \<Rightarrow> int \<times> byte option list" where
  "record_key_of r = (int (br_end r) - int (br_start r), map (record_byte r) [br_start r..<br_end r])"

lemma byteRecordsEqual_key: "byteRecordsEqual l r \<longleftrightarrow> record_key_of l = record_key_of r"
proof -
  have m: "map (record_byte r) [br_start r..<br_end r] = map (\<lambda>i. record_byte r (br_start r + i)) [0..<br_end r - br_start r]" for r
    by (intro nth_equalityI) auto
  show ?thesis unfolding record_key_of_def m byteRecordsEqual_def Let_def
    by (auto simp: list_all_iff list_eq_iff_nth_eq)
qed

definition key_hash :: "int \<times> byte option list \<Rightarrow> record_key" where
  "key_hash k =
     (case fold (\<lambda>c (left, right). let b = (case c of None \<Rightarrow> 0 | Some b \<Rightarrow> ucast b) in ((left XOR b) * 0x01000193, (right XOR b) * 0x85ebca6b))
             (snd k) (0x811c9dc5, 0x9e3779b9) of (left, right) \<Rightarrow> (fst k, left, right))"

lemma byteRecordHash_key: "byteRecordHash r = key_hash (record_key_of r)"
  by (simp add: byteRecordHash_def key_hash_def record_key_of_def fold_map comp_def)

definition byte_ids_of :: "byte_ids \<Rightarrow> int \<times> byte option list \<Rightarrow> nat option" where
  "byte_ids_of st k = (case st of (_, reps) \<Rightarrow> List.find (\<lambda>i. record_key_of (reps ! i) = k) [0..<length reps])"

definition byte_ids_ok :: "byte_ids \<Rightarrow> bool" where
  "byte_ids_ok st =
     (case st of (buckets, reps) \<Rightarrow>
        distinct (map record_key_of reps) \<and>
        (\<forall>h is. map_of buckets h = Some is \<longrightarrow> (\<forall>i \<in> set is. i < length reps)) \<and>
        (\<forall>i < length reps. \<exists>is. map_of buckets (byteRecordHash (reps ! i)) = Some is \<and> i \<in> set is))"

lemma find_upt:
  assumes "distinct (map f xs)"
  shows "List.find (\<lambda>i. f (xs ! i) = k) [0..<length xs] = Some i \<longleftrightarrow> i < length xs \<and> f (xs ! i) = k"
proof
  assume "List.find (\<lambda>i. f (xs ! i) = k) [0..<length xs] = Some i"
  then show "i < length xs \<and> f (xs ! i) = k" by (auto simp: find_Some_iff)
next
  assume i: "i < length xs \<and> f (xs ! i) = k"
  then have "f (xs ! j) \<noteq> k" if "j < i" for j using assms that by (auto simp: distinct_conv_nth)
  then show "List.find (\<lambda>i. f (xs ! i) = k) [0..<length xs] = Some i" using i by (auto simp: find_Some_iff intro!: exI [of _ i])
qed

lemma byteIdFor_cases:
  assumes ok: "byte_ids_ok (buckets, reps)" and run: "byteIdFor (buckets, reps) l = (i, buckets', reps')"
  shows "i < length reps \<and> record_key_of (reps ! i) = record_key_of l \<and> buckets' = buckets \<and> reps' = reps \<or>
    record_key_of l \<notin> record_key_of ` set reps \<and> i = length reps \<and> reps' = reps @ [l] \<and>
    map_of buckets' = (map_of buckets)(byteRecordHash l \<mapsto> (case map_of buckets (byteRecordHash l) of None \<Rightarrow> [i] | Some is \<Rightarrow> is @ [i]))"
proof -
  define same where "same = (case map_of buckets (byteRecordHash l) of None \<Rightarrow> None | Some ids \<Rightarrow> List.find (\<lambda>i. byteRecordsEqual (reps ! i) l) ids)"
  show ?thesis
  proof (cases same)
    case None
    have "record_key_of l \<noteq> record_key_of (reps ! j)" if "j < length reps" for j
    proof
      assume eq: "record_key_of l = record_key_of (reps ! j)"
      then have "byteRecordHash (reps ! j) = byteRecordHash l" by (simp add: byteRecordHash_key)
      with ok that obtain "is" where "map_of buckets (byteRecordHash l) = Some is" "j \<in> set is" by (auto simp: byte_ids_ok_def)
      with None eq show False by (auto simp: same_def find_None_iff byteRecordsEqual_key)
    qed
    then have "record_key_of l \<notin> record_key_of ` set reps" by (metis imageE in_set_conv_nth)
    then show ?thesis using run None by (auto simp: byteIdFor_def Let_def same_def [symmetric] update_conv')
  next
    case (Some j)
    then obtain "is" where "map_of buckets (byteRecordHash l) = Some is" "j \<in> set is" "byteRecordsEqual (reps ! j) l"
      by (auto simp: same_def find_Some_iff split: option.splits)
    moreover have "i = j \<and> buckets' = buckets \<and> reps' = reps" using run Some by (simp add: byteIdFor_def Let_def same_def [symmetric])
    ultimately show ?thesis using ok unfolding byte_ids_ok_def prod.case byteRecordsEqual_key by blast
  qed
qed

lemma byteIdFor_ok:
  assumes ok: "byte_ids_ok (buckets, reps)" and run: "byteIdFor (buckets, reps) l = (i, buckets', reps')"
  shows "byte_ids_ok (buckets', reps')"
  using byteIdFor_cases [OF assms]
proof (elim disjE conjE)
  assume new: "record_key_of l \<notin> record_key_of ` set reps" "i = length reps" "reps' = reps @ [l]"
    and b: "map_of buckets' = (map_of buckets)(byteRecordHash l \<mapsto> (case map_of buckets (byteRecordHash l) of None \<Rightarrow> [i] | Some is \<Rightarrow> is @ [i]))"
  have "distinct (map record_key_of reps')" using ok new by (simp add: byte_ids_ok_def)
  moreover have "\<forall>j \<in> set is. j < length reps'" if "map_of buckets' h = Some is" for h "is"
  proof (cases "h = byteRecordHash l")
    case True
    then have "set is \<subseteq> insert (length reps) (case map_of buckets h of None \<Rightarrow> {} | Some old \<Rightarrow> set old)"
      using that by (auto simp: b new(2) split: option.splits)
    moreover have "\<forall>j \<in> (case map_of buckets h of None \<Rightarrow> {} | Some old \<Rightarrow> set old). j < length reps"
      using ok by (cases h; cases "map_of buckets h") (auto simp: byte_ids_ok_def)
    ultimately show ?thesis unfolding new(3) by (auto simp: less_Suc_eq)
  next
    case False
    then show ?thesis using ok that unfolding b new(3) byte_ids_ok_def prod.case by (metis fun_upd_other length_append_singleton less_SucI)
  qed
  moreover have "\<exists>is. map_of buckets' (byteRecordHash (reps' ! j)) = Some is \<and> j \<in> set is" if "j < length reps'" for j
  proof (cases "j < length reps")
    case True
    then obtain "is" where "map_of buckets (byteRecordHash (reps ! j)) = Some is" "j \<in> set is" using ok by (auto simp: byte_ids_ok_def)
    then show ?thesis using True unfolding b new(3) by (auto simp: nth_append)
  next
    case False
    then have "j = length reps" using that new(3) by simp
    then show ?thesis unfolding b new(2,3) by (auto simp: nth_append split: option.splits)
  qed
  ultimately show ?thesis by (auto simp: byte_ids_ok_def)
qed (use ok in simp)

lemma byte_ids_of_iff: "byte_ids_ok (buckets, reps) \<Longrightarrow> byte_ids_of (buckets, reps) k = Some i \<longleftrightarrow> i < length reps \<and> record_key_of (reps ! i) = k"
  unfolding byte_ids_of_def by (simp add: byte_ids_ok_def find_upt)

interpretation byte_ids: id_giver byteIdFor "\<lambda>(_, representatives). length representatives" byte_ids_of record_key_of byte_ids_ok
proof (unfold_locales, goal_cases)
  case (1 st l i st')
  then show ?case using byteIdFor_ok by (cases st; cases st') auto
next
  case (2 st l i st')
  obtain b r b' r' where st: "st = (b, r)" "st' = (b', r')" by (cases st; cases st') auto
  have ok: "byte_ids_ok (b, r)" "byte_ids_ok (b', r')" using 2 byteIdFor_ok by (auto simp: st)
  have "byte_ids_of (b', r') k = Some j \<longleftrightarrow> ((byte_ids_of (b, r))(record_key_of l \<mapsto> i)) k = Some j" for k j
    using byteIdFor_cases [OF ok(1) 2(2) [unfolded st]]
  proof (elim disjE conjE)
    assume old: "i < length r" "record_key_of (r ! i) = record_key_of l" "b' = b" "r' = r"
    then have "byte_ids_of (b, r) (record_key_of l) = Some i" using byte_ids_of_iff [OF ok(1)] by simp
    then show ?thesis using old by auto
  next
    assume new: "record_key_of l \<notin> record_key_of ` set r" "i = length r" "r' = r @ [l]"
    have "record_key_of (r ! j) \<noteq> record_key_of l" if "j < length r" for j using new(1) that by (metis imageI nth_mem)
    with new show ?thesis using byte_ids_of_iff [OF ok(1)] byte_ids_of_iff [OF ok(2)] by (auto simp: nth_append less_Suc_eq)
  qed
  then show ?case unfolding st by (intro ext) (metis not_Some_eq)
next
  case (3 st l i st' j)
  obtain b r b' r' where st: "st = (b, r)" "st' = (b', r')" by (cases st; cases st') auto
  have ok: "byte_ids_ok (b, r)" using 3 by (simp add: st)
  have j: "j < length r" "record_key_of (r ! j) = record_key_of l" using 3(3) byte_ids_of_iff [OF ok] by (auto simp: st)
  then have "record_key_of l \<in> record_key_of ` set r" by (metis imageI nth_mem)
  then have "byte_ids_of (b, r) (record_key_of l) = Some i" using byteIdFor_cases [OF ok 3(2) [unfolded st]] byte_ids_of_iff [OF ok] by auto
  then show ?case using 3(3) by (simp add: st)
next
  case (4 st k i k')
  then show ?case by (cases st) (auto simp: byte_ids_of_iff)
qed

lemmas classify_classes = text_ids.classify_with_classes [of "([], 0)", folded classify_def]
lemmas classifyBytes_classes = byte_ids.classify_with_classes [of "([], [])", folded classifyBytes_def]

end
