(* ===== verification/DiffScript.thy ===== *)
theory DiffScript
  imports DiffSlide DiffClasses
begin

text \<open>
  A line diff is right: for any two lists of lines it returns a script whose change groups, applied to the old lines,
  give the new ones. The lines that trimming, cleanup, search and compaction leave unmarked are the same on both sides.
\<close>

section \<open>Trimming\<close>

lemma head_loop_props:
  "index \<le> limit \<Longrightarrow> index \<le> head_loop l r limit index \<and> head_loop l r limit index \<le> limit \<and>
    (\<forall>p. index \<le> p \<and> p < head_loop l r limit index \<longrightarrow> charCodeAt l p = charCodeAt r p)"
proof (induction l r limit index rule: head_loop.induct)
  case (1 l r limit index)
  show ?case
  proof (cases "index < limit \<and> charCodeAt l index = charCodeAt r index")
    case True
    then have IH: "index + 1 \<le> head_loop l r limit (index + 1)" "head_loop l r limit (index + 1) \<le> limit"
      "\<And>p. index + 1 \<le> p \<Longrightarrow> p < head_loop l r limit (index + 1) \<Longrightarrow> charCodeAt l p = charCodeAt r p" using 1 by auto
    have "charCodeAt l p = charCodeAt r p" if "index \<le> p" "p < head_loop l r limit (index + 1)" for p
      using that IH(3) [of p] True by (cases "p = index") auto
    then show ?thesis using IH(1,2) True by (simp add: head_loop.simps [of l r limit index])
  qed (use 1 in \<open>auto simp: head_loop.simps [of l r limit index]\<close>)
qed

lemma tail_loop_props:
  "bk \<le> tail \<Longrightarrow> bk \<le> tail_loop l r n m tail bk \<and> tail_loop l r n m tail bk \<le> tail \<and>
    (\<forall>p. bk \<le> p \<and> p < tail_loop l r n m tail bk \<longrightarrow> charCodeAt l (n - 1 - p) = charCodeAt r (m - 1 - p))"
proof (induction l r n m tail bk rule: tail_loop.induct)
  case (1 l r n m tail bk)
  show ?case
  proof (cases "bk < tail \<and> charCodeAt l (n - 1 - bk) = charCodeAt r (m - 1 - bk)")
    case True
    then have IH: "bk + 1 \<le> tail_loop l r n m tail (bk + 1)" "tail_loop l r n m tail (bk + 1) \<le> tail"
      "\<And>p. bk + 1 \<le> p \<Longrightarrow> p < tail_loop l r n m tail (bk + 1) \<Longrightarrow> charCodeAt l (n - 1 - p) = charCodeAt r (m - 1 - p)" using 1 by auto
    have "charCodeAt l (n - 1 - p) = charCodeAt r (m - 1 - p)" if "bk \<le> p" "p < tail_loop l r n m tail (bk + 1)" for p
      using that IH(3) [of p] True by (cases "p = bk") auto
    then show ?thesis using IH(1,2) True by (simp add: tail_loop.simps [of l r n m tail bk])
  qed (use 1 in \<open>auto simp: tail_loop.simps [of l r n m tail bk]\<close>)
qed

lemma charCodeAt_eqD: "charCodeAt xs i = charCodeAt ys j \<Longrightarrow> i < length xs \<Longrightarrow> j < length ys \<Longrightarrow> xs ! i = ys ! j"
  by (simp add: charCodeAt_def)

lemma trimEnds_ends:
  assumes len: "length (sd_classes l) = length (sd_lines l)" "length (sd_classes r) = length (sd_lines r)"
  obtains ds b where
    "trimEnds l r = (l\<lparr>sd_dstart := ds, sd_dend := int (length (sd_lines l)) - int b - 1\<rparr>, r\<lparr>sd_dstart := ds, sd_dend := int (length (sd_lines r)) - int b - 1\<rparr>)"
    "ds + b \<le> length (sd_lines l)" "ds + b \<le> length (sd_lines r)" "take ds (sd_classes l) = take ds (sd_classes r)"
    "drop (length (sd_lines l) - b) (sd_classes l) = drop (length (sd_lines r) - b) (sd_classes r)"
proof -
  let ?n = "length (sd_lines l)" and ?m = "length (sd_lines r)"
  define ds where "ds = head_loop (sd_classes l) (sd_classes r) (min ?n ?m) 0"
  define b where "b = tail_loop (sd_classes l) (sd_classes r) ?n ?m (min ?n ?m - ds) 0"
  have d: "ds \<le> min ?n ?m" "\<And>p. p < ds \<Longrightarrow> charCodeAt (sd_classes l) p = charCodeAt (sd_classes r) p"
    using head_loop_props [of 0 "min ?n ?m" "sd_classes l" "sd_classes r"] by (auto simp: ds_def)
  have t: "b \<le> min ?n ?m - ds" "\<And>p. p < b \<Longrightarrow> charCodeAt (sd_classes l) (?n - 1 - p) = charCodeAt (sd_classes r) (?m - 1 - p)"
    using tail_loop_props [of 0 "min ?n ?m - ds" "sd_classes l" "sd_classes r" ?n ?m] by (auto simp: b_def)
  have bn: "b \<le> ?n" "b \<le> ?m" using t(1) by auto
  have "take ds (sd_classes l) = take ds (sd_classes r)"
    using d(1) len charCodeAt_eqD [OF d(2)] by (intro nth_equalityI) auto
  moreover have "drop (?n - b) (sd_classes l) = drop (?m - b) (sd_classes r)"
  proof (rule nth_equalityI)
    show "length (drop (?n - b) (sd_classes l)) = length (drop (?m - b) (sd_classes r))" using bn len by simp
    fix i assume "i < length (drop (?n - b) (sd_classes l))"
    then have i: "i < b" using len bn by simp
    then have pos: "?n - b + i = ?n - 1 - (b - 1 - i)" "?m - b + i = ?m - 1 - (b - 1 - i)" using bn by linarith+
    have "sd_classes l ! (?n - 1 - (b - 1 - i)) = sd_classes r ! (?m - 1 - (b - 1 - i))"
    proof (rule charCodeAt_eqD [OF t(2)])
      show "b - 1 - i < b" "?n - 1 - (b - 1 - i) < length (sd_classes l)" "?m - 1 - (b - 1 - i) < length (sd_classes r)" using i bn len by linarith+
    qed
    then have eq: "sd_classes l ! (?n - b + i) = sd_classes r ! (?m - b + i)" unfolding pos .
    have "drop (?n - b) (sd_classes l) ! i = sd_classes l ! (?n - b + i)" "drop (?m - b) (sd_classes r) ! i = sd_classes r ! (?m - b + i)"
      by (rule nth_drop; simp add: len)+
    then show "drop (?n - b) (sd_classes l) ! i = drop (?m - b) (sd_classes r) ! i" using eq by metis
  qed
  moreover have "trimEnds l r = (l\<lparr>sd_dstart := ds, sd_dend := int ?n - int b - 1\<rparr>, r\<lparr>sd_dstart := ds, sd_dend := int ?m - int b - 1\<rparr>)"
    unfolding trimEnds_def Let_def ds_def [symmetric] b_def [symmetric] by (rule refl)
  moreover have "ds + b \<le> ?n" "ds + b \<le> ?m" using d(1) t(1) by auto
  ultimately show thesis by (intro that)
qed

section \<open>Cleanup\<close>

definition keeps :: "action list \<Rightarrow> nat \<Rightarrow> bool" where
  "keeps actions i = (if actions ! i = INVESTIGATE then \<not> isMultiMatchNoise actions i else actions ! i = KEEP)"

lemma apply_action_keeps:
  "apply_action offset actions i (ref, changed) =
     (if keeps actions i then (ref @ [i + offset], changed) else (ref, marks_set changed (int (i + offset)) True))"
  by (auto simp: apply_action_def keeps_def Let_def)

lemma length_newMarks: "length (newMarks n) = n + 2"
  by (simp add: newMarks_def)

lemma newMarks_get [simp]: "\<not> marks_get (newMarks n) p"
proof -
  have "length (newMarks n) = n + 2" "\<And>i. i < n + 2 \<Longrightarrow> \<not> newMarks n ! i" unfolding newMarks_def by (simp_all only: length_replicate nth_replicate not_False_eq_True)
  then show ?thesis by (auto simp: marks_get_def charCodeAt_def split: if_splits)
qed

text \<open>After cleanup the lines of the middle are either in the reference or marked.\<close>

definition cleaned :: "nat \<Rightarrow> nat \<Rightarrow> Side \<Rightarrow> bool" where
  "cleaned ds m s =
     (\<exists>K. sd_reference s = filter K [ds..<ds + m] \<and> (\<forall>p. marks_get (sd_changed s) (int p) = (ds \<le> p \<and> p < ds + m \<and> \<not> K p)) \<and>
        \<not> marks_get (sd_changed s) (- 1) \<and> ds + m \<le> length (sd_lines s) \<and> length (sd_changed s) = length (sd_lines s) + 2 \<and>
        length (sd_classes s) = length (sd_lines s))"

lemma applyActions_fold:
  assumes "ds + k \<le> n"
  shows "\<exists>ref changed. fold (apply_action ds actions) [0..<k] ([], newMarks n) = (ref, changed) \<and> length changed = n + 2 \<and>
    ref = filter (\<lambda>p. keeps actions (p - ds)) [ds..<ds + k] \<and>
    (\<forall>p. marks_get changed p = (int ds \<le> p \<and> p < int (ds + k) \<and> \<not> keeps actions (nat p - ds)))"
  using assms
proof (induction k)
  case (Suc k)
  then obtain ref changed where IH: "fold (apply_action ds actions) [0..<k] ([], newMarks n) = (ref, changed)" "length changed = n + 2"
    "ref = filter (\<lambda>p. keeps actions (p - ds)) [ds..<ds + k]"
    "\<And>p. marks_get changed p = (int ds \<le> p \<and> p < int (ds + k) \<and> \<not> keeps actions (nat p - ds))" by auto
  have run: "fold (apply_action ds actions) [0..<Suc k] ([], newMarks n) = apply_action ds actions k (ref, changed)" using IH(1) by simp
  have up: "[ds..<ds + Suc k] = [ds..<ds + k] @ [ds + k]" by simp
  show ?case
  proof (cases "keeps actions k")
    case True
    have "marks_get changed p = (int ds \<le> p \<and> p < int (ds + Suc k) \<and> \<not> keeps actions (nat p - ds))" for p
      using IH(4) [of p] True by (cases "p = int (ds + k)") (auto simp: nat_int_add)
    then show ?thesis unfolding run up using True IH(2,3) by (auto simp: apply_action_keeps add.commute)
  next
    case False
    have "marks_get (marks_set changed (int (k + ds)) True) p = (int ds \<le> p \<and> p < int (ds + Suc k) \<and> \<not> keeps actions (nat p - ds))" for p
      using IH(2) IH(4) [of p] False Suc.prems by (cases "p = int (k + ds)") (auto simp: marks_get_set nat_int_add)
    then show ?thesis unfolding run up using False IH(2,3) by (auto simp: apply_action_keeps)
  qed
qed (auto simp: length_newMarks)

lemma applyActions_cleaned:
  assumes "sd_changed s = newMarks (length (sd_lines s))" "ds + length actions \<le> length (sd_lines s)" "length (sd_classes s) = length (sd_lines s)"
  shows "cleaned ds (length actions) (applyActions s ds actions)"
proof -
  obtain ref changed where f: "fold (apply_action ds actions) [0..<length actions] ([], sd_changed s) = (ref, changed)" "length changed = length (sd_lines s) + 2"
    "ref = filter (\<lambda>p. keeps actions (p - ds)) [ds..<ds + length actions]"
    "\<And>p. marks_get changed p = (int ds \<le> p \<and> p < int (ds + length actions) \<and> \<not> keeps actions (nat p - ds))"
    using applyActions_fold [OF assms(2), of actions] assms(1) by auto
  have eq: "applyActions s ds actions = s\<lparr>sd_reference := ref, sd_changed := changed\<rparr>" by (simp add: applyActions_def f(1))
  have "marks_get changed (int p) = (ds \<le> p \<and> p < ds + length actions \<and> \<not> keeps actions (p - ds))" for p using f(4) [of "int p"] by auto
  moreover have "\<not> marks_get changed (- 1)" using f(4) [of "- 1"] by simp
  ultimately show ?thesis unfolding cleaned_def eq using f(2,3) assms(2,3) by (intro exI [of _ "\<lambda>p. keeps actions (p - ds)"]) simp
qed

text \<open>What the search leaves unmarked, beside the trimmed ends.\<close>

lemma kept_searched:
  assumes clean: "cleaned ds m s" and t: "touched 0 (int (length (sd_reference s))) s s'"
  shows "map Some (kept s') = map Some (take ds (sd_classes s)) @ shown s' 0 (int (length (sd_reference s))) @ map Some (drop (ds + m) (sd_classes s))"
proof -
  let ?n = "length (sd_lines s)" and ?R = "sd_reference s" and ?C = "sd_classes s"
  obtain K where K: "?R = filter K [ds..<ds + m]" "\<And>p. marks_get (sd_changed s) (int p) = (ds \<le> p \<and> p < ds + m \<and> \<not> K p)" "ds + m \<le> ?n" "length ?C = ?n"
    using clean by (auto simp: cleaned_def)
  note same = touched_same [OF t]
  have refs: "refs s 0 (int (length ?R)) = set ?R"
  proof -
    have "{0..<int (length ?R)} = int ` {..<length ?R}" by (auto simp: image_iff intro!: bexI [of _ "nat x" for x])
    then show ?thesis by (simp add: refs_def image_image set_conv_nth) auto
  qed
  have hot: "hot s' p = (ds \<le> p \<and> p < ds + m \<and> \<not> K p)" if "p \<notin> set ?R" for p
    using t that K(2) unfolding hot_def touched_def refs by simp
  have "[0..<?n] = [0..<ds] @ [ds..<ds + m] @ [ds + m..<?n]"
    using upt_add_eq_append [of 0 ds "?n - ds"] upt_add_eq_append [of ds "ds + m" "?n - (ds + m)"] K(3) by simp
  moreover have "filter (\<lambda>i. \<not> hot s' i) [0..<ds] = [0..<ds]" "filter (\<lambda>i. \<not> hot s' i) [ds + m..<?n] = [ds + m..<?n]"
    using hot K(1) by (auto simp: filter_id_conv)
  moreover have "filter (\<lambda>i. \<not> hot s' i) [ds..<ds + m] = filter (\<lambda>i. \<not> hot s' i) ?R"
    unfolding K(1) filter_filter using hot K(1) by (intro filter_cong) auto
  ultimately have kept: "kept s' = map ((!) ?C) [0..<ds] @ map ((!) ?C) (filter (\<lambda>i. \<not> hot s' i) ?R) @ map ((!) ?C) [ds + m..<?n]"
    by (simp add: kept_def same)
  have ends: "map ((!) ?C) [0..<ds] = take ds ?C" "map ((!) ?C) [ds + m..<?n] = drop (ds + m) ?C"
    using K(3,4) by (auto intro!: nth_equalityI)
  have list: "?R = map (\<lambda>i. ?R ! nat i) [0..int (length ?R) - 1]"
    by (rule nth_equalityI) auto
  have bound: "p < ?n" if "p \<in> set ?R" for p using that K(1,3) by auto
  have "map Some (map ((!) ?C) (filter (\<lambda>i. \<not> hot s' i) ?R)) = map (\<lambda>i. Some (?C ! (?R ! nat i))) (filter (\<lambda>i. \<not> hot s' (?R ! nat i)) [0..int (length ?R) - 1])"
    by (subst list) (simp add: filter_map comp_def)
  also have "\<dots> = shown s' 0 (int (length ?R))"
    using bound K(4) unfolding shown_def marked_def hot_def
    by (auto simp: same hashAt_def charCodeAt_def nat_less_iff)
  finally show ?thesis unfolding kept ends by simp
qed

section \<open>Scripts\<close>

text \<open>
  A script from position \<open>p\<close> of the old and \<open>q\<close> of the new lines on: before each group, and after the last one, the two
  sides have the same lines; groups are in order, not empty and not adjacent. And what applying it gives.
\<close>

fun valid_script :: "'a list \<Rightarrow> 'a list \<Rightarrow> nat \<Rightarrow> nat \<Rightarrow> ChangeGroup list \<Rightarrow> bool" where
  "valid_script old new p q [] = (drop p old = drop q new)"
| "valid_script old new p q (g # gs) =
     (let p1 = nat (cg_oldStart g); q1 = nat (cg_newStart g); p2 = nat (cg_oldStart g + cg_oldCount g); q2 = nat (cg_newStart g + cg_newCount g)
      in int p \<le> cg_oldStart g \<and> int q \<le> cg_newStart g \<and> 0 \<le> cg_oldCount g \<and> 0 \<le> cg_newCount g \<and> 0 < cg_oldCount g + cg_newCount g \<and>
         p2 \<le> length old \<and> q2 \<le> length new \<and> take (p1 - p) (drop p old) = take (q1 - q) (drop q new) \<and> p1 - p = q1 - q \<and>
         (case gs of [] \<Rightarrow> True | h # _ \<Rightarrow> cg_oldStart g + cg_oldCount g < cg_oldStart h) \<and> valid_script old new p2 q2 gs)"

fun apply_script :: "'a list \<Rightarrow> 'a list \<Rightarrow> nat \<Rightarrow> ChangeGroup list \<Rightarrow> 'a list" where
  "apply_script old new p [] = drop p old"
| "apply_script old new p (g # gs) =
     take (nat (cg_oldStart g) - p) (drop p old) @ take (nat (cg_newCount g)) (drop (nat (cg_newStart g)) new) @
     apply_script old new (nat (cg_oldStart g + cg_oldCount g)) gs"

lemma take_drop_three: "q \<le> q1 \<Longrightarrow> q1 \<le> q2 \<Longrightarrow> take (q1 - q) (drop q xs) @ take (q2 - q1) (drop q1 xs) @ drop q2 xs = drop q xs"
  by (metis append_assoc append_take_drop_id drop_drop le_add_diff_inverse2)

theorem apply_valid_script: "valid_script old new p q gs \<Longrightarrow> apply_script old new p gs = drop q new"
proof (induction gs arbitrary: p q)
  case (Cons g gs)
  let ?q1 = "nat (cg_newStart g)" and ?q2 = "nat (cg_newStart g + cg_newCount g)"
  have v: "take (nat (cg_oldStart g) - p) (drop p old) = take (?q1 - q) (drop q new)" "int q \<le> cg_newStart g" "0 \<le> cg_newCount g"
    "valid_script old new (nat (cg_oldStart g + cg_oldCount g)) ?q2 gs" using Cons.prems by (auto simp: Let_def)
  have "nat (cg_newCount g) = ?q2 - ?q1" "q \<le> ?q1" "?q1 \<le> ?q2" using v(2,3) by linarith+
  then show ?case using Cons.IH [OF v(4)] v(1) take_drop_three [of q ?q1 ?q2 new] by simp
qed simp

text \<open>The classes of the unmarked lines before a position.\<close>

definition kept_to :: "Side \<Rightarrow> nat \<Rightarrow> nat list" where
  "kept_to s i = map ((!) (sd_classes s)) (filter (\<lambda>i. \<not> hot s i) [0..<i])"

lemma kept_to_simps [simp]:
  "kept_to s 0 = []" "kept_to s (Suc i) = kept_to s i @ (if hot s i then [] else [sd_classes s ! i])"
  by (simp_all add: kept_to_def)

lemma run_start_kept:
  assumes "side_wf s"
  shows "0 \<le> run_start (sd_changed s) (int i)" "kept_to s (nat (run_start (sd_changed s) (int i))) = kept_to s i"
    "nat (run_start (sd_changed s) (int i)) > 0 \<Longrightarrow> \<not> hot s (nat (run_start (sd_changed s) (int i)) - 1)"
proof -
  let ?j = "run_start (sd_changed s) (int i)"
  show j: "0 \<le> ?j"
  proof (rule ccontr)
    assume "\<not> ?thesis"
    then have "marks_get (sd_changed s) (- 1)" using run_start_props [of "sd_changed s" "int i"] by auto
    then show False using assms by (simp add: side_wf_def)
  qed
  have le: "nat ?j \<le> i" using run_start_le [of "sd_changed s" "int i"] by simp
  have "hot s p" if "nat ?j \<le> p" "p < i" for p using that j run_start_props [of "sd_changed s" "int i"] by (auto simp: hot_def)
  then have "filter (\<lambda>i. \<not> hot s i) [nat ?j..<i] = []" by (auto simp: filter_empty_conv)
  moreover have "[0..<i] = [0..<nat ?j] @ [nat ?j..<i]" using upt_add_eq_append [of 0 "nat ?j" "i - nat ?j"] le by simp
  ultimately show "kept_to s (nat ?j) = kept_to s i" by (simp add: kept_to_def)
  show "\<not> hot s (nat ?j - 1)" if "nat ?j > 0"
    using that j run_start_props [of "sd_changed s" "int i"] by (auto simp: hot_def of_nat_diff)
qed

text \<open>Where two sides have kept the same lines and the last ones are unmarked, those are equal, and one side ends with the other.\<close>

lemma kept_to_back:
  assumes "kept_to l i = kept_to r j" "0 < i \<Longrightarrow> \<not> hot l (i - 1)" "0 < j \<Longrightarrow> \<not> hot r (j - 1)"
  shows "i = 0 \<longleftrightarrow> j = 0" "0 < i \<Longrightarrow> kept_to l (i - 1) = kept_to r (j - 1) \<and> sd_classes l ! (i - 1) = sd_classes r ! (j - 1)"
  using assms by (cases i; cases j; auto)+

lemma valid_script_cons:
  assumes "valid_script old new (Suc p) (Suc q) gs" "p < length old" "q < length new" "old ! p = new ! q"
  shows "valid_script old new p q gs"
proof -
  have d: "drop p old = old ! p # drop (Suc p) old" "drop q new = old ! p # drop (Suc q) new" using assms(2-4) by (metis Cons_nth_drop_Suc)+
  show ?thesis
  proof (cases gs)
    case (Cons g gs')
    have "int p < cg_oldStart g" "int q < cg_newStart g" using assms(1) by (auto simp: Cons Let_def)
    then have "nat (cg_oldStart g) - p = Suc (nat (cg_oldStart g) - Suc p)" "nat (cg_newStart g) - q = Suc (nat (cg_newStart g) - Suc q)" by linarith+
    then show ?thesis using assms(1) d by (auto simp: Cons Let_def)
  qed (use assms(1) d in simp)
qed

text \<open>A script none of whose groups starts at \<open>p\<close>, so that a group that ends there is not adjacent to the next one.\<close>

definition starts_after :: "nat \<Rightarrow> ChangeGroup list \<Rightarrow> bool" where
  "starts_after p gs = (case gs of [] \<Rightarrow> True | h # _ \<Rightarrow> int p < cg_oldStart h)"

lemma valid_script_group:
  assumes "valid_script old new i1 i2 gs" "starts_after i1 gs" "j1 \<le> i1" "j2 \<le> i2" "j1 < i1 \<or> j2 < i2" "i1 \<le> length old" "i2 \<le> length new"
  shows "valid_script old new j1 j2 (\<lparr>cg_oldStart = int j1, cg_oldCount = int i1 - int j1, cg_newStart = int j2, cg_newCount = int i2 - int j2\<rparr> # gs)"
  using assms by (cases gs) (auto simp: Let_def starts_after_def)

lemma script_loop_valid:
  assumes wf: "side_wf l" "side_wf r"
    and "i1 \<le> length (sd_lines l)" "i2 \<le> length (sd_lines r)" "kept_to l i1 = kept_to r i2"
    and "valid_script (sd_classes l) (sd_classes r) i1 i2 (rev groups)" "starts_after i1 (rev groups)"
  shows "\<exists>gs. valid_script (sd_classes l) (sd_classes r) 0 0 gs \<and> length groups \<le> length gs \<and>
    script_loop l r None (int i1) (int i2) groups = Inr gs \<and>
    script_loop l r (Some m) (int i1) (int i2) groups =
      (if length groups = length gs \<or> int (length gs) \<le> m then Inr gs else Inl (GitError ''E2BIG'' ''xdiff change list''))"
  using assms(3-)
proof (induction "i1 + i2" arbitrary: i1 i2 groups rule: less_induct)
  case less
  let ?V = "valid_script (sd_classes l) (sd_classes r)"
  have len: "length (sd_classes l) = length (sd_lines l)" "length (sd_classes r) = length (sd_lines r)" using wf by (auto simp: side_wf_def)
  note unfold = script_loop.simps [of l r _ "int i1" "int i2" groups]
  have stop: "script_loop l r max (- 1) (- 1) gs = Inr (rev gs)" for max gs by (simp add: script_loop.simps)
  show ?case
  proof (cases "marks_get (sd_changed l) (int i1 - 1) \<or> marks_get (sd_changed r) (int i2 - 1)")
    case False
    have cold: "0 < i1 \<Longrightarrow> \<not> hot l (i1 - 1)" "0 < i2 \<Longrightarrow> \<not> hot r (i2 - 1)" using False by (auto simp: hot_def of_nat_diff)
    note behind = kept_to_back [OF less.prems(3) cold]
    show ?thesis
    proof (cases "i1 = 0")
      case True
      then have "i2 = 0" using behind(1) by simp
      then show ?thesis using True less.prems(4) False unfolding unfold by (intro exI [of _ "rev groups"]) (simp add: stop)
    next
      case pos: False
      then have p: "0 < i1" "0 < i2" using behind(1) by auto
      have eqs: "kept_to l (i1 - 1) = kept_to r (i2 - 1)" "sd_classes l ! (i1 - 1) = sd_classes r ! (i2 - 1)" using behind(2) p by auto
      have v: "?V (i1 - 1) (i2 - 1) (rev groups)" by (rule valid_script_cons) (use less.prems(1,2,4) p eqs(2) len in auto)
      have s: "starts_after (i1 - 1) (rev groups)" using less.prems(5) by (auto simp: starts_after_def split: list.splits)
      have run: "script_loop l r max (int i1) (int i2) groups = script_loop l r max (int (i1 - 1)) (int (i2 - 1)) groups" for max
        unfolding unfold using False p by (simp add: of_nat_diff)
      show ?thesis unfolding run by (rule less.hyps [OF _ _ _ eqs(1) v s]) (use less.prems(1,2) p in auto)
    qed
  next
    case True
    define j1 where "j1 = nat (run_start (sd_changed l) (int i1))"
    define j2 where "j2 = nat (run_start (sd_changed r) (int i2))"
    have j: "run_start (sd_changed l) (int i1) = int j1" "run_start (sd_changed r) (int i2) = int j2"
      using run_start_kept(1) [OF wf(1), of i1] run_start_kept(1) [OF wf(2), of i2] by (simp_all add: j1_def j2_def)
    have le: "j1 \<le> i1" "j2 \<le> i2" using run_start_le [of "sd_changed l" "int i1"] run_start_le [of "sd_changed r" "int i2"] j by auto
    have step: "j1 < i1 \<or> j2 < i2"
      using True run_start_props [of "sd_changed l" "int i1"] run_start_props [of "sd_changed r" "int i2"] j le by (metis le_neq_implies_less)
    define g where "g = \<lparr>cg_oldStart = int j1, cg_oldCount = int i1 - int j1, cg_newStart = int j2, cg_newCount = int i2 - int j2\<rparr>"
    have kj: "kept_to l j1 = kept_to r j2" using run_start_kept(2) [OF wf(1), of i1] run_start_kept(2) [OF wf(2), of i2] less.prems(3) by (simp add: j1_def j2_def)
    have cold: "0 < j1 \<Longrightarrow> \<not> hot l (j1 - 1)" "0 < j2 \<Longrightarrow> \<not> hot r (j2 - 1)"
      using run_start_kept(3) [OF wf(1), of i1] run_start_kept(3) [OF wf(2), of i2] by (simp_all add: j1_def j2_def)
    have v: "?V j1 j2 (rev (groups @ [g]))" using valid_script_group [OF less.prems(4,5) le step] less.prems(1,2) len by (simp add: g_def)
    note behind = kept_to_back [OF kj cold]
    have run: "script_loop l r max (int i1) (int i2) groups =
        (if (case max of None \<Rightarrow> False | Some m \<Rightarrow> int (length groups) \<ge> m) then Inl (GitError ''E2BIG'' ''xdiff change list'')
         else script_loop l r max (int j1 - 1) (int j2 - 1) (groups @ [g]))" for max
      unfolding unfold using True by (simp add: j Let_def g_def)
    show ?thesis
    proof (cases "j1 = 0")
      case True
      then have "j2 = 0" using behind(1) by simp
      then show ?thesis using True v unfolding run by (intro exI [of _ "rev (groups @ [g])"]) (auto simp: stop)
    next
      case False
      then have p: "0 < j1" "0 < j2" using behind(1) by auto
      have eqs: "kept_to l (j1 - 1) = kept_to r (j2 - 1)" "sd_classes l ! (j1 - 1) = sd_classes r ! (j2 - 1)" using behind(2) p by auto
      have v': "?V (j1 - 1) (j2 - 1) (rev (groups @ [g]))" by (rule valid_script_cons) (use less.prems(1,2) v p le eqs(2) len in auto)
      have s: "starts_after (j1 - 1) (rev (groups @ [g]))" using p by (simp add: starts_after_def g_def)
      have less': "j1 - 1 + (j2 - 1) < i1 + i2" using p le by simp
      have bounds: "j1 - 1 \<le> length (sd_lines l)" "j2 - 1 \<le> length (sd_lines r)" using le less.prems(1,2) by auto
      obtain gs where "?V 0 0 gs" "length groups < length gs" "script_loop l r None (int (j1 - 1)) (int (j2 - 1)) (groups @ [g]) = Inr gs"
        "script_loop l r (Some m) (int (j1 - 1)) (int (j2 - 1)) (groups @ [g]) =
          (if length (groups @ [g]) = length gs \<or> int (length gs) \<le> m then Inr gs else Inl (GitError ''E2BIG'' ''xdiff change list''))"
        using less.hyps [OF less' bounds eqs(1) v' s] by (auto simp: Suc_le_eq)
      then show ?thesis unfolding run using p by (intro exI [of _ gs]) (auto simp: of_nat_diff)
    qed
  qed
qed

section \<open>The diff\<close>

lemma cleaned_facts:
  assumes "cleaned ds m s"
  shows "side_ok s" "length (sd_reference s) \<le> length (sd_lines s)" "\<And>i. 0 \<le> i \<Longrightarrow> i < int (length (sd_reference s)) \<Longrightarrow> \<not> marked s i"
    "touched 0 (int (length (sd_reference s))) s s' \<Longrightarrow> side_wf s'"
proof -
  obtain K where K: "sd_reference s = filter K [ds..<ds + m]" "\<And>p. marks_get (sd_changed s) (int p) = (ds \<le> p \<and> p < ds + m \<and> \<not> K p)"
    "\<not> marks_get (sd_changed s) (- 1)" "ds + m \<le> length (sd_lines s)" "length (sd_changed s) = length (sd_lines s) + 2" "length (sd_classes s) = length (sd_lines s)"
    using assms by (auto simp: cleaned_def)
  show "side_ok s" using K(1,4,5) by (auto simp: side_ok_def)
  have "length (sd_reference s) \<le> m" unfolding K(1) using length_filter_le [of K "[ds..<ds + m]"] by simp
  then show "length (sd_reference s) \<le> length (sd_lines s)" using K(4) by simp
  show "\<not> marked s i" if "0 \<le> i" "i < int (length (sd_reference s))" for i
  proof -
    have "sd_reference s ! nat i \<in> set (sd_reference s)" using that by simp
    then have "K (sd_reference s ! nat i)" unfolding K(1) by simp
    then show ?thesis by (simp add: marked_def K(2))
  qed
  assume t: "touched 0 (int (length (sd_reference s))) s s'"
  have "refs s 0 (int (length (sd_reference s))) \<subseteq> set (sd_reference s)" by (auto simp: refs_def)
  then have "length (sd_lines s) \<notin> refs s 0 (int (length (sd_reference s)))" using K(1,4) by auto
  then have "\<not> hot s' (length (sd_lines s))" "\<not> marks_get (sd_changed s') (- 1)" using t K(2,3,4) by (auto simp: touched_def hot_def)
  then show "side_wf s'" using touched_same [OF t] K(5,6) by (simp add: side_wf_def)
qed

lemma run_compare_kept:
  assumes l: "cleaned ds m1 l" and r: "cleaned ds m2 r" and fits: "int (length (sd_lines l)) + int (length (sd_lines r)) < LINE_MAX"
    and ends: "take ds (sd_classes l) = take ds (sd_classes r)" "drop (ds + m1) (sd_classes l) = drop (ds + m2) (sd_classes r)"
  obtains l' r' where "run_compare l r = Some (l', r')" "side_wf l'" "side_wf r'" "kept l' = kept r'"
    "sd_lines l' = sd_lines l" "sd_classes l' = sd_classes l" "sd_lines r' = sd_lines r" "sd_classes r' = sd_classes r"
proof -
  let ?n = "int (length (sd_reference l))" and ?m = "int (length (sd_reference r))"
  define b where "b = \<lparr>bx_off1 = 0, bx_lim1 = ?n, bx_off2 = 0, bx_lim2 = ?m\<rparr>"
  define count where "count = length (sd_reference l) + length (sd_reference r) + 3"
  define k where "k = newDiagonals (2 * count + 2) (?m + 2)"
  define se where "se = \<lparr>se_left = l, se_right = r, se_forward = k, se_backward = k\<rparr>"
  have "covers k b" by (simp add: covers_def box_defs b_def k_def newDiagonals_def count_def)
  then have pre: "compare_pre b se"
    using cleaned_facts(1-3) [OF l] cleaned_facts(1-3) [OF r] fits by (auto simp: compare_pre_def b_def se_def)
  have env: "0 < env_snakeCount (diff_environment count)" by (simp add: diff_environment_def SNAKE_CNT_def)
  obtain se' where se': "compare_box (diff_environment count) b False se = Some se'" "compare_post b se se'"
    using compare_box_returns [OF env pre] by blast
  let ?l = "se_left se'" and ?r = "se_right se'"
  have t: "touched 0 ?n l ?l" "touched 0 ?m r ?r" "shown ?l 0 ?n = shown ?r 0 ?m" using se'(2) by (auto simp: compare_post_def b_def se_def)
  have "map Some (kept ?l) = map Some (kept ?r)" unfolding kept_searched [OF l t(1)] kept_searched [OF r t(2)] using t(3) ends by simp
  then have "kept ?l = kept ?r" by (simp add: inj_map_eq_map)
  moreover have "run_compare l r = Some (?l, ?r)"
    using se'(1) by (simp add: run_compare_def Let_def b_def se_def k_def count_def)
  ultimately show thesis
    using that cleaned_facts(4) [OF l t(1)] cleaned_facts(4) [OF r t(2)] touched_same(2,3) [OF t(1)] touched_same(2,3) [OF t(2)] by metis
qed

lemma compacted_same: "compacted s s' \<Longrightarrow> sd_lines s' = sd_lines s \<and> sd_classes s' = sd_classes s \<and> kept s' = kept s \<and> side_wf s'"
  unfolding compacted_def by (metis Side.ext_inject Side.surjective Side.update_convs(3))

abbreviation change_limit :: "int option \<Rightarrow> ChangeGroup list \<Rightarrow> ChangeGroup list result" where
  "change_limit mx gs \<equiv>
     (case mx of None \<Rightarrow> Inr gs
      | Some m \<Rightarrow> if gs = [] \<or> int (length gs) \<le> m then Inr gs else Inl (GitError ''E2BIG'' ''xdiff change list''))"

lemma buildScript_valid:
  assumes "side_wf l" "side_wf r" "kept l = kept r"
  obtains gs where "valid_script (sd_classes l) (sd_classes r) 0 0 gs" "\<And>max. buildScript l r max = change_limit max gs"
proof -
  let ?n = "length (sd_lines l)" and ?m = "length (sd_lines r)"
  have "kept_to l ?n = kept_to r ?m" using assms(3) by (simp add: kept_def kept_to_def)
  moreover have "valid_script (sd_classes l) (sd_classes r) ?n ?m (rev [])" "starts_after ?n (rev [])"
    using assms(1,2) by (simp_all add: side_wf_def starts_after_def)
  ultimately have ex: "\<exists>gs. valid_script (sd_classes l) (sd_classes r) 0 0 gs \<and> script_loop l r None (int ?n) (int ?m) [] = Inr gs \<and>
      script_loop l r (Some m) (int ?n) (int ?m) [] = (if gs = [] \<or> int (length gs) \<le> m then Inr gs else Inl (GitError ''E2BIG'' ''xdiff change list''))" for m
    using script_loop_valid [OF assms(1,2), of ?n ?m "[]" m] by auto
  then obtain gs where gs: "valid_script (sd_classes l) (sd_classes r) 0 0 gs" "script_loop l r None (int ?n) (int ?m) [] = Inr gs" by blast
  have "buildScript l r max = change_limit max gs" for max
    using ex gs(2) by (cases max) (auto simp: buildScript_def)
  then show thesis using that gs(1) by blast
qed

theorem diffClassified_valid:
  assumes len: "length (cl_oldClasses cl) = length old" "length (cl_newClasses cl) = length new" and fits: "int (length old) + int (length new) < LINE_MAX"
  obtains gs where "valid_script (cl_oldClasses cl) (cl_newClasses cl) 0 0 gs"
    "\<And>max. diffClassified old new cl \<lparr>do_indentHeuristic = ind, do_maxChanges = max\<rparr> = Some (change_limit max gs)"
proof -
  let ?l = "newSide old (cl_oldClasses cl)" and ?r = "newSide new (cl_newClasses cl)"
  obtain ds b where trim: "trimEnds ?l ?r = (?l\<lparr>sd_dstart := ds, sd_dend := int (length old) - int b - 1\<rparr>, ?r\<lparr>sd_dstart := ds, sd_dend := int (length new) - int b - 1\<rparr>)"
    and le: "ds + b \<le> length old" "ds + b \<le> length new" and ends: "take ds (cl_oldClasses cl) = take ds (cl_newClasses cl)"
      "drop (length old - b) (cl_oldClasses cl) = drop (length new - b) (cl_newClasses cl)"
  proof -
    have len': "length (sd_classes ?l) = length (sd_lines ?l)" "length (sd_classes ?r) = length (sd_lines ?r)" using len by (simp_all add: newSide_def)
    show thesis by (rule trimEnds_ends [OF len']) (rule that; simp add: newSide_def)
  qed
  obtain l1 r1 where trimmed: "trimEnds ?l ?r = (l1, r1)" by fastforce
  have l1: "sd_lines l1 = old" "sd_classes l1 = cl_oldClasses cl" "sd_changed l1 = newMarks (length old)" "sd_dstart l1 = ds" "sd_dend l1 = int (length old) - int b - 1"
    and r1: "sd_lines r1 = new" "sd_classes r1 = cl_newClasses cl" "sd_changed r1 = newMarks (length new)" "sd_dstart r1 = ds" "sd_dend r1 = int (length new) - int b - 1"
    using trim trimmed by (auto simp: newSide_def)
  define al where "al = actionsFor l1 ds (int (length old) - int b - int ds) (cl_inNew cl)"
  define ar where "ar = actionsFor r1 ds (int (length new) - int b - int ds) (cl_inOld cl)"
  have alen: "length al = length old - b - ds" "length ar = length new - b - ds" using le by (auto simp: al_def ar_def actionsFor_def Let_def)
  define l2 where "l2 = applyActions l1 ds al"
  define r2 where "r2 = applyActions r1 ds ar"
  have clean: "cleanupRecords l1 r1 (cl_inNew cl) (cl_inOld cl) = (l2, r2)"
    by (simp add: cleanupRecords_def Let_def l1 r1 l2_def r2_def al_def ar_def algebra_simps)
  have cl2: "cleaned ds (length al) l2" unfolding l2_def using l1 le alen len by (intro applyActions_cleaned) auto
  have cr2: "cleaned ds (length ar) r2" unfolding r2_def using r1 le alen len by (intro applyActions_cleaned) auto
  have l2: "sd_lines l2 = old" "sd_classes l2 = cl_oldClasses cl" and r2: "sd_lines r2 = new" "sd_classes r2 = cl_newClasses cl"
    by (simp_all add: l2_def r2_def applyActions_def l1 r1 split: prod.splits)
  have "ds + length al = length old - b" "ds + length ar = length new - b" using alen le by auto
  then have drops: "drop (ds + length al) (sd_classes l2) = drop (ds + length ar) (sd_classes r2)" using ends(2) l2 r2 by simp
  obtain l3 r3 where cmp: "run_compare l2 r2 = Some (l3, r3)" "side_wf l3" "side_wf r3" "kept l3 = kept r3"
    and same: "sd_lines l3 = old" "sd_classes l3 = cl_oldClasses cl" "sd_lines r3 = new" "sd_classes r3 = cl_newClasses cl"
  proof -
    have pre: "int (length (sd_lines l2)) + int (length (sd_lines r2)) < LINE_MAX" "take ds (sd_classes l2) = take ds (sd_classes r2)" using fits ends(1) l2 r2 by simp_all
    show thesis by (rule run_compare_kept [OF cl2 cr2 pre drops]) (rule that; simp add: l2 r2)
  qed
  obtain l4 where l4: "compact l3 r3 (ind \<noteq> Some False) = Some l4" "compacted l3 l4" using compact_returns [OF cmp(2,3)] by blast
  note l4s = compacted_same [OF l4(2)]
  obtain r4 where r4: "compact r3 l4 (ind \<noteq> Some False) = Some r4" "compacted r3 r4" using compact_returns [OF cmp(3), of l4] l4s by blast
  note r4s = compacted_same [OF r4(2)]
  obtain gs where gs: "valid_script (sd_classes l4) (sd_classes r4) 0 0 gs" "\<And>max. buildScript l4 r4 max = change_limit max gs"
    using buildScript_valid [of l4 r4] l4s r4s cmp(4) by metis
  have "diffClassified old new cl \<lparr>do_indentHeuristic = ind, do_maxChanges = max\<rparr> = Some (change_limit max gs)" for max
    by (simp add: diffClassified_def Let_def trimmed clean cmp(1) l4(1) r4(1) gs(2))
  moreover have "valid_script (cl_oldClasses cl) (cl_newClasses cl) 0 0 gs" using gs(1) l4s r4s same by simp
  ultimately show thesis using that by blast
qed

text \<open>A script of classes is a script of the lines.\<close>

lemma valid_script_lines:
  assumes len: "length c = length old" "length d = length new" and same: "\<And>i j. i < length old \<Longrightarrow> j < length new \<Longrightarrow> c ! i = d ! j \<Longrightarrow> old ! i = new ! j"
  shows "valid_script c d p q gs \<Longrightarrow> valid_script old new p q gs"
proof (induction gs arbitrary: p q)
  case Nil
  then have eq: "drop p c = drop q d" by simp
  then have l: "length (drop p old) = length (drop q new)" using len by (metis length_drop)
  have "drop p old ! i = drop q new ! i" if "i < length (drop p old)" for i
    using same [of "p + i" "q + i"] that l arg_cong [OF eq, of "\<lambda>xs. xs ! i"] len by simp
  then show ?case unfolding valid_script.simps by (intro nth_equalityI l)
next
  case (Cons g gs)
  let ?a = "nat (cg_oldStart g) - p" and ?b = "nat (cg_newStart g) - q"
  have eq: "take ?a (drop p c) = take ?b (drop q d)" "?a = ?b" using Cons.prems by (auto simp: Let_def)
  have "take ?a (drop p old) = take ?b (drop q new)"
  proof (rule nth_equalityI)
    show l: "length (take ?a (drop p old)) = length (take ?b (drop q new))" using arg_cong [OF eq(1), of length] len by simp
    fix i assume i: "i < length (take ?a (drop p old))"
    have i': "i < length (take ?b (drop q new))" using i unfolding l .
    have b: "i < ?a" "i < ?b" "p + i < length old" "q + i < length new" using i i' by auto
    then have "c ! (p + i) = d ! (q + i)" using arg_cong [OF eq(1), of "\<lambda>xs. xs ! i"] len by simp
    then show "take ?a (drop p old) ! i = take ?b (drop q new) ! i" using same b by simp
  qed
  then show ?case using Cons len by (simp add: Let_def)
qed

text \<open>The limit of a diff: the empty options, and a limit on the groups.\<close>

definition diff_options :: "bool option \<Rightarrow> int option \<Rightarrow> DiffLinesOptions" where
  "diff_options indentHeuristic maxChanges = \<lparr>do_indentHeuristic = indentHeuristic, do_maxChanges = maxChanges\<rparr>"

lemma diffLines_script:
  assumes "int (length old) + int (length new) < LINE_MAX"
  obtains gs where "valid_script old new 0 0 gs" "\<And>max. diffLines old new (diff_options ind max) = Some (change_limit max gs)"
proof -
  define cl where "cl = classify old new"
  have ok: "text_ids_ok ([], 0)" by (simp add: text_ids_ok_def)
  note c = classify_classes [OF ok cl_def [symmetric]]
  obtain gs where gs: "valid_script (cl_oldClasses cl) (cl_newClasses cl) 0 0 gs"
    "\<And>max. diffClassified (map TextLine old) (map TextLine new) cl \<lparr>do_indentHeuristic = ind, do_maxChanges = max\<rparr> = Some (change_limit max gs)"
    using diffClassified_valid [of cl "map TextLine old" "map TextLine new" ind] c assms by auto
  have "valid_script old new 0 0 gs" by (rule valid_script_lines [OF c(1,2) _ gs(1)]) (use c(3) in auto)
  then show thesis using that gs(2) by (simp add: diffLines_def diff_options_def cl_def)
qed

lemma diffByteRecords_script:
  assumes "int (length old) + int (length new) < LINE_MAX"
  obtains gs where "valid_script (map record_key_of old) (map record_key_of new) 0 0 gs"
    "\<And>max. diffByteRecords old new (diff_options ind max) = Some (change_limit max gs)"
proof -
  define cl where "cl = classifyBytes old new"
  have ok: "byte_ids_ok ([], [])" by (simp add: byte_ids_ok_def)
  note c = classifyBytes_classes [OF ok cl_def [symmetric]]
  obtain gs where gs: "valid_script (cl_oldClasses cl) (cl_newClasses cl) 0 0 gs"
    "\<And>max. diffClassified (map ByteLine old) (map ByteLine new) cl \<lparr>do_indentHeuristic = ind, do_maxChanges = max\<rparr> = Some (change_limit max gs)"
    using diffClassified_valid [of cl "map ByteLine old" "map ByteLine new" ind] c assms by auto
  have "valid_script (map record_key_of old) (map record_key_of new) 0 0 gs" by (rule valid_script_lines [OF _ _ _ gs(1)]) (use c in auto)
  then show thesis using that gs(2) by (simp add: diffByteRecords_def diff_options_def cl_def)
qed

section \<open>Properties\<close>

text \<open>
  C10: a line diff returns for any two lists of lines, with any setting of the indent heuristic: its groups are in order,
  not empty and not adjacent, the lines between them are the same on both sides, and applying them to the old lines gives
  the new ones.
\<close>

theorem diffLines_patches:
  assumes "int (length old) + int (length new) < LINE_MAX"
  shows "\<exists>gs. diffLines old new (diff_options ind None) = Some (Inr gs) \<and> valid_script old new 0 0 gs \<and> apply_script old new 0 gs = new"
  by (rule diffLines_script [OF assms, of ind]) (auto simp: apply_valid_script)

theorem diffLines_patches_witness:
  "\<exists>gs. diffLines [units ''a'', units ''b''] [units ''b'', units ''c''] (diff_options None None) = Some (Inr gs) \<and>
     valid_script [units ''a'', units ''b''] [units ''b'', units ''c''] 0 0 gs \<and>
     apply_script [units ''a'', units ''b''] [units ''b'', units ''c''] 0 gs = [units ''b'', units ''c'']"
  by (rule diffLines_patches) (simp add: LINE_MAX_def)

text \<open>
  C12: the limit on change groups is exact: a diff with a limit fails with \<open>E2BIG\<close> when the script has more groups than the
  limit, and otherwise gives the script it gives without a limit.
\<close>

theorem diffLines_limit:
  assumes "int (length old) + int (length new) < LINE_MAX"
  shows "\<exists>gs. diffLines old new (diff_options ind None) = Some (Inr gs) \<and>
    diffLines old new (diff_options ind (Some m)) =
      Some (if gs = [] \<or> int (length gs) \<le> m then Inr gs else Inl (GitError ''E2BIG'' ''xdiff change list''))"
  by (rule diffLines_script [OF assms, of ind]) auto

theorem diffLines_limit_witness:
  "\<exists>gs. diffLines [units ''a'', units ''b''] [units ''b'', units ''c''] (diff_options None None) = Some (Inr gs) \<and>
    diffLines [units ''a'', units ''b''] [units ''b'', units ''c''] (diff_options None (Some 1)) =
      Some (if gs = [] \<or> int (length gs) \<le> 1 then Inr gs else Inl (GitError ''E2BIG'' ''xdiff change list''))"
  by (rule diffLines_limit) (simp add: LINE_MAX_def)

text \<open>
  C11: a diff of byte records returns too, and its script turns the contents of the old records into those of the new ones,
  whatever collisions the record hash has.
\<close>

theorem diffByteRecords_patches:
  assumes "int (length old) + int (length new) < LINE_MAX"
  shows "\<exists>gs. diffByteRecords old new (diff_options ind None) = Some (Inr gs) \<and>
    valid_script (map record_key_of old) (map record_key_of new) 0 0 gs \<and>
    apply_script (map record_key_of old) (map record_key_of new) 0 gs = map record_key_of new"
  by (rule diffByteRecords_script [OF assms, of ind]) (auto simp: apply_valid_script)

theorem diffByteRecords_patches_witness:
  fixes bs :: bytes
  defines "bs \<equiv> [0x61, 10, 0x62]"
  shows "\<exists>gs. diffByteRecords [\<lparr>br_bytes = bs, br_start = 0, br_end = 2\<rparr>] [\<lparr>br_bytes = bs, br_start = 2, br_end = 3\<rparr>] (diff_options None None) = Some (Inr gs) \<and>
    valid_script (map record_key_of [\<lparr>br_bytes = bs, br_start = 0, br_end = 2\<rparr>]) (map record_key_of [\<lparr>br_bytes = bs, br_start = 2, br_end = 3\<rparr>]) 0 0 gs \<and>
    apply_script (map record_key_of [\<lparr>br_bytes = bs, br_start = 0, br_end = 2\<rparr>]) (map record_key_of [\<lparr>br_bytes = bs, br_start = 2, br_end = 3\<rparr>]) 0 gs =
      map record_key_of [\<lparr>br_bytes = bs, br_start = 2, br_end = 3\<rparr>]"
  by (rule diffByteRecords_patches) (simp add: LINE_MAX_def)

end
