(* ===== verification/DiffUnified.thy ===== *)
theory DiffUnified
  imports DiffScript
begin

text \<open>
  Unified diffs (\<open>packages/git/src/diff\<close>: \<open>unified.ts\<close>, \<open>index.ts\<close>): the hunks of a script with their context, headers
  and function names, and the text diff made of all parts. The hunks are right as a patch: the old side of each is what the
  old text has there, and replacing every old side by its new side gives the new text.
\<close>

section \<open>Hunks\<close>

definition FUNC_NAME_LIMIT :: nat where "FUNC_NAME_LIMIT = 80"

record UnifiedOptions =
  uo_context :: "int option"
  uo_functionNames :: "bool option"

definition emitRecord :: "unit16 \<Rightarrow> jstring \<Rightarrow> jstring" where
  "emitRecord prefix line =
     (if endsWith line [newline] then prefix # line
      else prefix # line @ newline # 0x5c # units '' No newline at end of file'' @ [newline])"

definition hunk_range :: "int \<Rightarrow> int \<Rightarrow> jstring" where
  "hunk_range start count =
     (if count = 1 then to_radix 10 (nat start)
      else to_radix 10 (nat (if count = 0 then start - 1 else start)) @ 0x2c # to_radix 10 (nat count))"

definition hunkHeader :: "int \<Rightarrow> int \<Rightarrow> int \<Rightarrow> int \<Rightarrow> jstring \<Rightarrow> jstring" where
  "hunkHeader start1 count1 start2 count2 functionName =
     units ''@@ -'' @ hunk_range start1 count1 @ units '' +'' @ hunk_range start2 count2 @ units '' @@'' @
     (if functionName = [] then [] else 0x20 # functionName) @ [newline]"

definition is_name_start :: "unit16 \<Rightarrow> bool" where
  "is_name_start u = (0x41 \<le> u \<and> u \<le> 0x5a \<or> 0x61 \<le> u \<and> u \<le> 0x7a \<or> u = 0x5f \<or> u = 0x24)"

definition function_name :: "jstring \<Rightarrow> jstring" where
  "function_name line = rev (dropWhile is_space (rev (take FUNC_NAME_LIMIT line)))"

function function_loop :: "jstring list \<Rightarrow> int \<Rightarrow> bool \<Rightarrow> int \<Rightarrow> jstring option" where
  "function_loop lines limit down line =
     (if line \<noteq> limit \<and> line \<ge> 0 \<and> line < int (length lines) then
        (case lines ! nat line of
           first # _ \<Rightarrow>
             if is_name_start first then Some (function_name (lines ! nat line))
             else function_loop lines limit down (if down then line - 1 else line + 1)
         | [] \<Rightarrow> function_loop lines limit down (if down then line - 1 else line + 1))
      else None)"
  by pat_completeness auto
termination
  by (relation "measure (\<lambda>(lines, limit, down, line). if down then nat (line + 1) else nat (int (length lines) - line))") auto

declare function_loop.simps [simp del]

definition findFunctionLine :: "jstring list \<Rightarrow> int \<Rightarrow> int \<Rightarrow> jstring option" where
  "findFunctionLine lines start limit = function_loop lines limit (start > limit) start"

text \<open>
  A hunk: the lines it covers on both sides, its function name, and its records with their prefixes. The code
  prints header and records as it goes; here they are collected first and printed by \<open>print_hunk\<close>.
\<close>

record Hunk =
  hk_start1 :: int
  hk_end1 :: int
  hk_start2 :: int
  hk_end2 :: int
  hk_name :: jstring
  hk_records :: "(unit16 \<times> jstring) list"

definition lines_between :: "'a list \<Rightarrow> int \<Rightarrow> int \<Rightarrow> 'a list" where
  "lines_between lines low high = take (nat (high - low)) (drop (nat low) lines)"

definition records_between :: "unit16 \<Rightarrow> jstring list \<Rightarrow> int \<Rightarrow> int \<Rightarrow> (unit16 \<times> jstring) list" where
  "records_between prefix lines low high = map (Pair prefix) (lines_between lines low high)"

definition change_records :: "jstring list \<Rightarrow> jstring list \<Rightarrow> ChangeGroup \<Rightarrow> (unit16 \<times> jstring) list" where
  "change_records oldLines newLines g =
     records_between 0x2d oldLines (cg_oldStart g) (cg_oldStart g + cg_oldCount g) @
     records_between 0x2b newLines (cg_newStart g) (cg_newStart g + cg_newCount g)"

text \<open>The changes after the first one of a hunk, each after the lines between it and the one before.\<close>

fun later_records :: "jstring list \<Rightarrow> jstring list \<Rightarrow> ChangeGroup \<Rightarrow> ChangeGroup list \<Rightarrow> (unit16 \<times> jstring) list" where
  "later_records oldLines newLines previous [] = []"
| "later_records oldLines newLines previous (g # gs) =
     records_between 0x20 newLines (cg_newStart previous + cg_newCount previous) (cg_newStart g) @
     change_records oldLines newLines g @ later_records oldLines newLines g gs"

text \<open>The changes that share a hunk with the one before, and the others.\<close>

fun close_changes :: "int \<Rightarrow> ChangeGroup \<Rightarrow> ChangeGroup list \<Rightarrow> ChangeGroup list \<times> ChangeGroup list" where
  "close_changes maxCommon previous [] = ([], [])"
| "close_changes maxCommon previous (g # gs) =
     (if cg_oldStart g - (cg_oldStart previous + cg_oldCount previous) > maxCommon then ([], g # gs)
      else case close_changes maxCommon g gs of (nearby, far) \<Rightarrow> (g # nearby, far))"

lemma close_changes_length: "length (snd (close_changes m p gs)) \<le> length gs"
  by (induction m p gs rule: close_changes.induct) (auto split: prod.splits)

definition hunk_of :: "jstring list \<Rightarrow> jstring list \<Rightarrow> int \<Rightarrow> jstring \<Rightarrow> ChangeGroup \<Rightarrow> ChangeGroup list \<Rightarrow> Hunk" where
  "hunk_of oldLines newLines context functionName first rest =
     (let final = last (first # rest);
          start1 = max (cg_oldStart first - context) 0; start2 = max (cg_newStart first - context) 0;
          trailing = min context (min (int (length oldLines) - (cg_oldStart final + cg_oldCount final)) (int (length newLines) - (cg_newStart final + cg_newCount final)));
          end1 = cg_oldStart final + cg_oldCount final + trailing; end2 = cg_newStart final + cg_newCount final + trailing
      in \<lparr>hk_start1 = start1, hk_end1 = end1, hk_start2 = start2, hk_end2 = end2, hk_name = functionName,
          hk_records =
            records_between 0x20 newLines start2 (cg_newStart first) @ change_records oldLines newLines first @
            later_records oldLines newLines first rest @ records_between 0x20 newLines (cg_newStart final + cg_newCount final) end2\<rparr>)"

text \<open>The hunks, with the position of the last search for a function name and the last name found.\<close>

function hunk_loop :: "jstring list \<Rightarrow> jstring list \<Rightarrow> int \<Rightarrow> bool \<Rightarrow> int \<Rightarrow> jstring \<Rightarrow> ChangeGroup list \<Rightarrow> Hunk list" where
  "hunk_loop oldLines newLines context functionNames previousSearch functionName [] = []"
| "hunk_loop oldLines newLines context functionNames previousSearch functionName (first # changes) =
     (let (nearby, far) = close_changes (context * 2) first changes;
          start1 = max (cg_oldStart first - context) 0;
          name = (if functionNames then (case findFunctionLine oldLines (start1 - 1) previousSearch of None \<Rightarrow> functionName | Some found \<Rightarrow> found)
                  else functionName);
          search = (if functionNames then start1 - 1 else previousSearch)
      in hunk_of oldLines newLines context name first nearby #
         hunk_loop oldLines newLines context functionNames search name far)"
  by pat_completeness auto
termination
proof (relation "measure (\<lambda>(_, _, _, _, _, _, changes). length changes)", goal_cases)
  case (2 o n c f p m g gs x nb far)
  then have "far = snd (close_changes (c * 2) g gs)" by (metis snd_conv)
  then show ?case using close_changes_length [of "c * 2" g gs] by (simp add: less_Suc_eq_le)
qed simp

declare hunk_loop.simps(2) [simp del]

definition hunks_of :: "jstring list \<Rightarrow> jstring list \<Rightarrow> ChangeGroup list \<Rightarrow> UnifiedOptions \<Rightarrow> Hunk list" where
  "hunks_of oldLines newLines changes options =
     hunk_loop oldLines newLines (case uo_context options of None \<Rightarrow> 3 | Some c \<Rightarrow> c) (uo_functionNames options \<noteq> Some False) (- 1) [] changes"

definition print_hunk :: "Hunk \<Rightarrow> jstring" where
  "print_hunk h =
     hunkHeader (hk_start1 h + 1) (hk_end1 h - hk_start1 h) (hk_start2 h + 1) (hk_end2 h - hk_start2 h) (hk_name h) @
     concat (map (\<lambda>(prefix, line). emitRecord prefix line) (hk_records h))"

definition unifiedHunks :: "jstring list \<Rightarrow> jstring list \<Rightarrow> ChangeGroup list \<Rightarrow> UnifiedOptions \<Rightarrow> jstring" where
  "unifiedHunks oldLines newLines changes options = concat (map print_hunk (hunks_of oldLines newLines changes options))"

section \<open>Text diffs\<close>

record TextDiff =
  td_changes :: "ChangeGroup list"
  td_insertions :: int
  td_deletions :: int
  td_hunks :: jstring

definition diffText :: "jstring \<Rightarrow> jstring \<Rightarrow> UnifiedOptions \<Rightarrow> TextDiff result option" where
  "diffText oldText newText options =
     (let oldLines = splitLines oldText; newLines = splitLines newText
      in map_option
           (\<lambda>r. bindR r (\<lambda>changes. Inr
              \<lparr>td_changes = changes, td_insertions = sum_list (map cg_newCount changes), td_deletions = sum_list (map cg_oldCount changes),
               td_hunks = (if changes = [] then [] else unifiedHunks oldLines newLines changes options)\<rparr>))
           (diffLines oldLines newLines \<lparr>do_indentHeuristic = None, do_maxChanges = None\<rparr>))"

definition eitherIsBinary :: "bytes option \<Rightarrow> bytes option \<Rightarrow> bool" where
  "eitherIsBinary before after1 =
     ((case before of None \<Rightarrow> False | Some bs \<Rightarrow> isBinary bs) \<or> (case after1 of None \<Rightarrow> False | Some bs \<Rightarrow> isBinary bs))"

section \<open>Segments\<close>

definition seg :: "'a list \<Rightarrow> nat \<Rightarrow> nat \<Rightarrow> 'a list" where
  "seg xs a b = take (b - a) (drop a xs)"

lemma lines_between_seg [simp]: "lines_between xs (int a) (int b) = seg xs a b"
proof -
  have "nat (int b - int a) = b - a" by linarith
  then show ?thesis by (simp add: lines_between_def seg_def)
qed

lemma seg_append: "a \<le> b \<Longrightarrow> b \<le> c \<Longrightarrow> seg xs a b @ seg xs b c = seg xs a c"
proof -
  assume "a \<le> b" "b \<le> c"
  then have "c - a = (b - a) + (c - b)" "b = (b - a) + a" by auto
  then show ?thesis unfolding seg_def by (metis add.commute drop_drop take_add)
qed

lemma seg_append_drop: "a \<le> b \<Longrightarrow> seg xs a b @ drop b xs = drop a xs"
  unfolding seg_def by (metis append_take_drop_id drop_drop le_add_diff_inverse2)

text \<open>Two sides that run along for \<open>n\<close> lines.\<close>

definition along :: "'a list \<Rightarrow> 'a list \<Rightarrow> nat \<Rightarrow> nat \<Rightarrow> nat \<Rightarrow> bool" where
  "along old new p q n = (take n (drop p old) = take n (drop q new) \<and> p + n \<le> length old \<and> q + n \<le> length new)"

lemma along_seg:
  assumes "along old new p q n" "a \<le> b" "b \<le> n"
  shows "seg old (p + a) (p + b) = seg new (q + a) (q + b)"
proof -
  have "seg xs (r + a) (r + b) = take (b - a) (drop a (take n (drop r xs)))" for xs :: "'a list" and r
  proof -
    have "drop a (take n (drop r xs)) = take (n - a) (drop (r + a) xs)" by (simp add: drop_take add.commute)
    moreover have "min (b - a) (n - a) = b - a" "r + b - (r + a) = b - a" using assms(2,3) by auto
    ultimately show ?thesis unfolding seg_def by (metis take_take)
  qed
  then show ?thesis using assms(1) by (simp add: along_def)
qed

text \<open>The positions of the first group of a script.\<close>

lemma valid_group:
  assumes "valid_script old new p q (g # gs)"
  obtains n p2 q2 where "cg_oldStart g = int (p + n)" "cg_newStart g = int (q + n)" "cg_oldStart g + cg_oldCount g = int p2" "cg_newStart g + cg_newCount g = int q2"
    "along old new p q n" "p + n \<le> p2" "q + n \<le> q2" "p2 \<le> length old" "q2 \<le> length new" "valid_script old new p2 q2 gs"
proof -
  let ?n = "nat (cg_oldStart g) - p" and ?p2 = "nat (cg_oldStart g + cg_oldCount g)" and ?q2 = "nat (cg_newStart g + cg_newCount g)"
  have v: "int p \<le> cg_oldStart g" "int q \<le> cg_newStart g" "0 \<le> cg_oldCount g" "0 \<le> cg_newCount g" "?p2 \<le> length old" "?q2 \<le> length new"
    "take ?n (drop p old) = take (nat (cg_newStart g) - q) (drop q new)" "?n = nat (cg_newStart g) - q" "valid_script old new ?p2 ?q2 gs"
    using assms by (auto simp: Let_def)
  show thesis
  proof (rule that [of ?n ?p2 ?q2])
    show "along old new p q ?n" using v by (auto simp: along_def)
  qed (use v in auto)
qed

section \<open>The sides of a hunk\<close>

definition old_side :: "(unit16 \<times> jstring) list \<Rightarrow> jstring list" where
  "old_side records = map snd (filter (\<lambda>r. fst r \<noteq> 0x2b) records)"

definition new_side :: "(unit16 \<times> jstring) list \<Rightarrow> jstring list" where
  "new_side records = map snd (filter (\<lambda>r. fst r \<noteq> 0x2d) records)"

lemma side_append [simp]: "old_side (xs @ ys) = old_side xs @ old_side ys" "new_side (xs @ ys) = new_side xs @ new_side ys"
  by (simp_all add: old_side_def new_side_def)

lemma side_records [simp]:
  "old_side (records_between 0x20 xs a b) = lines_between xs a b" "new_side (records_between 0x20 xs a b) = lines_between xs a b"
  "old_side (records_between 0x2d xs a b) = lines_between xs a b" "new_side (records_between 0x2d xs a b) = []"
  "old_side (records_between 0x2b xs a b) = []" "new_side (records_between 0x2b xs a b) = lines_between xs a b"
  "old_side [] = []" "new_side [] = []"
  by (simp_all add: old_side_def new_side_def records_between_def filter_map comp_def)

lemma change_sides:
  assumes "cg_oldStart g = int p1" "cg_oldStart g + cg_oldCount g = int p2" "cg_newStart g = int q1" "cg_newStart g + cg_newCount g = int q2"
  shows "old_side (change_records old new g) = seg old p1 p2" "new_side (change_records old new g) = seg new q1 q2"
proof -
  have "cg_oldStart g + cg_oldCount g = int p2" "cg_newStart g + cg_newCount g = int q2" using assms by auto
  then show "old_side (change_records old new g) = seg old p1 p2" "new_side (change_records old new g) = seg new q1 q2"
    unfolding change_records_def assms(1,3) [symmetric] by (simp_all only: side_append side_records append_Nil append_Nil2) (simp_all add: assms(1,3) flip: lines_between_seg)
qed

lemma later_sides:
  assumes "valid_script old new p q (nearby @ far)" "cg_oldStart g + cg_oldCount g = int p" "cg_newStart g + cg_newCount g = int q"
    "p \<le> length old" "q \<le> length new"
  obtains P Q where "cg_oldStart (last (g # nearby)) + cg_oldCount (last (g # nearby)) = int P" "cg_newStart (last (g # nearby)) + cg_newCount (last (g # nearby)) = int Q"
    "p \<le> P" "q \<le> Q" "P \<le> length old" "Q \<le> length new" "valid_script old new P Q far"
    "old_side (later_records old new g nearby) = seg old p P" "new_side (later_records old new g nearby) = seg new q Q"
  using assms
proof (induction nearby arbitrary: g p q thesis)
  case Nil
  then show ?case by (simp add: seg_def)
next
  case (Cons h nearby)
  obtain n p2 q2 where h: "cg_oldStart h = int (p + n)" "cg_newStart h = int (q + n)" "cg_oldStart h + cg_oldCount h = int p2" "cg_newStart h + cg_newCount h = int q2"
    "along old new p q n" "p + n \<le> p2" "q + n \<le> q2" "p2 \<le> length old" "q2 \<le> length new" "valid_script old new p2 q2 (nearby @ far)"
    using valid_group [of old new p q h "nearby @ far"] Cons.prems(2) by auto
  obtain P Q where IH: "cg_oldStart (last (h # nearby)) + cg_oldCount (last (h # nearby)) = int P" "cg_newStart (last (h # nearby)) + cg_newCount (last (h # nearby)) = int Q"
    "p2 \<le> P" "q2 \<le> Q" "P \<le> length old" "Q \<le> length new" "valid_script old new P Q far"
    "old_side (later_records old new h nearby) = seg old p2 P" "new_side (later_records old new h nearby) = seg new q2 Q"
    using Cons.IH [OF _ h(10,3,4,8,9)] by blast
  have gap: "seg new q (q + n) = seg old p (p + n)" using along_seg [OF h(5), of 0 n] by simp
  have "old_side (later_records old new g (h # nearby)) = seg old p P" "new_side (later_records old new g (h # nearby)) = seg new q Q"
  proof -
    have three: "seg xs a b @ seg xs b c @ seg xs c d = seg xs a d" if "a \<le> b" "b \<le> c" "c \<le> d" for a b c d and xs :: "jstring list"
      using that seg_append [of a b c xs] seg_append [of a c d xs] by (metis append_assoc order_trans)
    have "old_side (later_records old new g (h # nearby)) = seg new q (q + n) @ seg old (p + n) p2 @ seg old p2 P"
      "new_side (later_records old new g (h # nearby)) = seg new q (q + n) @ seg new (q + n) q2 @ seg new q2 Q"
      unfolding later_records.simps side_append side_records change_sides [OF h(1,3,2,4)] IH(8,9) Cons.prems(3,4) h(2) lines_between_seg by (rule refl)+
    then show "old_side (later_records old new g (h # nearby)) = seg old p P" "new_side (later_records old new g (h # nearby)) = seg new q Q"
      using gap three [of p "p + n" p2 P old] three [of q "q + n" q2 Q new] h(6,7) IH(3,4) by simp_all
  qed
  then show ?case using Cons.prems(1) [of P Q] IH h(6,7) by simp
qed

lemma close_changes_props:
  "close_changes m g gs = (nearby, far) \<Longrightarrow> gs = nearby @ far \<and>
    (far \<noteq> [] \<longrightarrow> cg_oldStart (hd far) - (cg_oldStart (last (g # nearby)) + cg_oldCount (last (g # nearby))) > m)"
  by (induction m g gs arbitrary: nearby far rule: close_changes.induct) (auto split: if_splits prod.splits)

section \<open>Hunks as a patch\<close>

text \<open>
  What it means to apply hunks to a text: the lines up to a hunk are kept, the lines it covers have to be its
  old side, and its new side takes their place. \<open>reverse_hunk\<close> swaps the sides.
\<close>

fun apply_hunks :: "jstring list \<Rightarrow> nat \<Rightarrow> Hunk list \<Rightarrow> jstring list option" where
  "apply_hunks old p [] = Some (drop p old)"
| "apply_hunks old p (h # hs) =
     (if int p \<le> hk_start1 h \<and> hk_start1 h \<le> hk_end1 h \<and> hk_end1 h \<le> int (length old)
         \<and> old_side (hk_records h) = lines_between old (hk_start1 h) (hk_end1 h)
      then map_option (\<lambda>rest. lines_between old (int p) (hk_start1 h) @ new_side (hk_records h) @ rest)
             (apply_hunks old (nat (hk_end1 h)) hs)
      else None)"

definition flip_prefix :: "unit16 \<Rightarrow> unit16" where
  "flip_prefix c = (if c = 0x2b then 0x2d else if c = 0x2d then 0x2b else c)"

definition reverse_hunk :: "Hunk \<Rightarrow> Hunk" where
  "reverse_hunk h = h\<lparr>hk_start1 := hk_start2 h, hk_end1 := hk_end2 h, hk_start2 := hk_start1 h, hk_end2 := hk_end1 h,
     hk_records := map (\<lambda>(c, line). (flip_prefix c, line)) (hk_records h)\<rparr>"

lemma flip_sides:
  "old_side (map (\<lambda>(c, line). (flip_prefix c, line)) rs) = new_side rs"
  "new_side (map (\<lambda>(c, line). (flip_prefix c, line)) rs) = old_side rs"
  by (induction rs) (auto simp: old_side_def new_side_def flip_prefix_def split: if_splits)

lemma reverse_hunk_sides [simp]:
  "hk_start1 (reverse_hunk h) = hk_start2 h" "hk_end1 (reverse_hunk h) = hk_end2 h"
  "hk_start2 (reverse_hunk h) = hk_start1 h" "hk_end2 (reverse_hunk h) = hk_end1 h"
  "old_side (hk_records (reverse_hunk h)) = new_side (hk_records h)"
  "new_side (hk_records (reverse_hunk h)) = old_side (hk_records h)"
  by (simp_all add: reverse_hunk_def flip_sides)

text \<open>Hunks that cover matching stretches of the two texts, from \<open>p\<close> and \<open>q\<close> on.\<close>

inductive hunks_match :: "jstring list \<Rightarrow> jstring list \<Rightarrow> nat \<Rightarrow> nat \<Rightarrow> Hunk list \<Rightarrow> bool" for old new where
  match_end: "drop p old = drop q new \<Longrightarrow> hunks_match old new p q []"
| match_hunk: "hk_start1 h = int a \<Longrightarrow> hk_end1 h = int b \<Longrightarrow> hk_start2 h = int c \<Longrightarrow> hk_end2 h = int d \<Longrightarrow>
     p \<le> a \<Longrightarrow> a \<le> b \<Longrightarrow> b \<le> length old \<Longrightarrow> q \<le> c \<Longrightarrow> c \<le> d \<Longrightarrow> d \<le> length new \<Longrightarrow> seg old p a = seg new q c \<Longrightarrow>
     old_side (hk_records h) = seg old a b \<Longrightarrow> new_side (hk_records h) = seg new c d \<Longrightarrow>
     hunks_match old new b d hs \<Longrightarrow> hunks_match old new p q (h # hs)"

lemma hunks_match_apply: "hunks_match old new p q hs \<Longrightarrow> apply_hunks old p hs = Some (drop q new)"
proof (induction rule: hunks_match.induct)
  case (match_hunk h a b c d p q hs)
  have "seg new q c @ seg new c d @ drop d new = drop q new"
    using seg_append_drop [of c d new] seg_append_drop [of q c new] match_hunk.hyps(8,9) by simp
  then show ?case using match_hunk by (simp del: of_nat_le_iff add: of_nat_mono)
qed simp

lemma hunks_match_reverse: "hunks_match old new p q hs \<Longrightarrow> hunks_match new old q p (map reverse_hunk hs)"
proof (induction rule: hunks_match.induct)
  case (match_hunk h a b c d p q hs)
  show ?case unfolding list.map
    by (rule hunks_match.match_hunk [of _ c d a b]) (use match_hunk in simp_all)
qed (simp add: hunks_match.match_end)

text \<open>The lines after the last change of a hunk run along as far as its trailing context.\<close>

lemma trailing_along:
  assumes "valid_script old new P Q far" "P \<le> length old" "Q \<le> length new" "0 \<le> ctx"
    and "far \<noteq> [] \<Longrightarrow> cg_oldStart (hd far) - int P > ctx * 2"
    and "int t = min ctx (min (int (length old) - int P) (int (length new) - int Q))"
  shows "along old new P Q t"
proof (cases far)
  case Nil
  then have eq: "drop P old = drop Q new" using assms(1) by simp
  have "P + t \<le> length old" "Q + t \<le> length new" using assms(2,3,6) by linarith+
  then show ?thesis using eq by (simp add: along_def)
next
  case (Cons g gs)
  obtain n where n: "cg_oldStart g = int (P + n)" "along old new P Q n"
    using valid_group [of old new P Q g gs] assms(1) Cons by metis
  have "int t \<le> ctx" using assms(6) by simp
  moreover have "int n > ctx * 2" using assms(5) Cons n(1) by simp
  ultimately have "t \<le> n" using assms(4) by linarith
  then have "take t (drop P old) = take t (drop Q new)"
    using n(2) unfolding along_def by (metis min.absorb1 take_take)
  then show ?thesis using n(2) \<open>t \<le> n\<close> by (simp add: along_def)
qed

text \<open>One hunk covers the same stretch on both sides.\<close>

lemma hunk_of_sides:
  assumes g: "cg_oldStart g = int (P + n)" "cg_newStart g = int (Q + n)"
      "cg_oldStart g + cg_oldCount g = int p2" "cg_newStart g + cg_newCount g = int q2"
    and run: "along old new P Q n" "P + n \<le> p2" "Q + n \<le> q2"
    and k: "max (cg_oldStart g - ctx) 0 = int (P + k)" "max (cg_newStart g - ctx) 0 = int (Q + k)" "k \<le> n"
    and final: "cg_oldStart (last (g # nearby)) + cg_oldCount (last (g # nearby)) = int P'"
      "cg_newStart (last (g # nearby)) + cg_newCount (last (g # nearby)) = int Q'" "p2 \<le> P'" "q2 \<le> Q'"
    and later: "old_side (later_records old new g nearby) = seg old p2 P'" "new_side (later_records old new g nearby) = seg new q2 Q'"
    and t: "int t = min ctx (min (int (length old) - int P') (int (length new) - int Q'))" "along old new P' Q' t"
    and h: "h = hunk_of old new ctx m g nearby"
  shows "hk_start1 h = int (P + k)" "hk_end1 h = int (P' + t)" "hk_start2 h = int (Q + k)" "hk_end2 h = int (Q' + t)"
    "old_side (hk_records h) = seg old (P + k) (P' + t)" "new_side (hk_records h) = seg new (Q + k) (Q' + t)"
proof -
  have ends: "int P' + int t = int (P' + t)" "int Q' + int t = int (Q' + t)" by simp_all
  show "hk_start1 h = int (P + k)" "hk_end1 h = int (P' + t)" "hk_start2 h = int (Q + k)" "hk_end2 h = int (Q' + t)"
    unfolding h hunk_of_def Let_def final(1,2) t(1) [symmetric] ends using k(1,2) by simp_all
  have recs: "hk_records h = records_between 0x20 new (int (Q + k)) (int (Q + n)) @ change_records old new g @
      later_records old new g nearby @ records_between 0x20 new (int Q') (int (Q' + t))"
    unfolding h hunk_of_def Let_def final(1,2) t(1) [symmetric] ends using k(2) g(2) by simp
  have lead: "seg new (Q + k) (Q + n) = seg old (P + k) (P + n)" using along_seg [OF run(1) k(3)] by simp
  have trail: "seg new Q' (Q' + t) = seg old P' (P' + t)" using along_seg [OF t(2), of 0 t] by simp
  note steps = change_sides [OF g(1,3,2,4), of old new] later
  have five: "seg xs a b @ seg xs b c @ seg xs c d @ seg xs d e = seg xs a e" if "a \<le> b" "b \<le> c" "c \<le> d" "d \<le> e"
    for a b c d e and xs :: "jstring list"
    using that by (simp add: seg_append)
  show "old_side (hk_records h) = seg old (P + k) (P' + t)" "new_side (hk_records h) = seg new (Q + k) (Q' + t)"
    unfolding recs side_append side_records steps lines_between_seg
    using lead trail five [of "P + k" "P + n" p2 P' "P' + t" old] five [of "Q + k" "Q + n" q2 Q' "Q' + t" new] run(2,3) k(3) final(3,4)
    by simp_all
qed

lemma hunk_loop_match:
  "valid_script old new P Q changes \<Longrightarrow> 0 \<le> ctx \<Longrightarrow> along old new P Q t \<Longrightarrow>
   P = 0 \<and> Q = 0 \<and> t = 0 \<or> int t \<le> ctx \<and> (changes \<noteq> [] \<longrightarrow> cg_oldStart (hd changes) - int P > ctx * 2) \<Longrightarrow>
   hunks_match old new (P + t) (Q + t) (hunk_loop old new ctx names search name changes)"
proof (induction changes arbitrary: P Q t search name rule: length_induct)
  case (1 changes)
  show ?case
  proof (cases changes)
    case Nil
    then have "drop P old = drop Q new" using "1.prems" by simp
    then have "drop (P + t) old = drop (Q + t) new" by (metis add.commute drop_drop)
    then show ?thesis using Nil by (simp add: hunks_match.match_end)
  next
    case (Cons g gs)
    note prems = "1.prems" [unfolded Cons]
    obtain nearby far where close: "close_changes (ctx * 2) g gs = (nearby, far)" by fastforce
    obtain n p2 q2 where g: "cg_oldStart g = int (P + n)" "cg_newStart g = int (Q + n)"
        "cg_oldStart g + cg_oldCount g = int p2" "cg_newStart g + cg_newCount g = int q2"
        "along old new P Q n" "P + n \<le> p2" "Q + n \<le> q2" "p2 \<le> length old" "q2 \<le> length new" "valid_script old new p2 q2 gs"
      using valid_group [OF prems(1)] by blast
    obtain P' Q' where f: "cg_oldStart (last (g # nearby)) + cg_oldCount (last (g # nearby)) = int P'"
        "cg_newStart (last (g # nearby)) + cg_newCount (last (g # nearby)) = int Q'"
        "p2 \<le> P'" "q2 \<le> Q'" "P' \<le> length old" "Q' \<le> length new" "valid_script old new P' Q' far"
        "old_side (later_records old new g nearby) = seg old p2 P'" "new_side (later_records old new g nearby) = seg new q2 Q'"
      using later_sides [of old new p2 q2 nearby far g] g(3,4,8-10) close_changes_props [OF close] by metis
    have far: "far \<noteq> [] \<Longrightarrow> cg_oldStart (hd far) - int P' > ctx * 2" using close_changes_props [OF close] f(1) by simp
    define t' where "t' = nat (min ctx (min (int (length old) - int P') (int (length new) - int Q')))"
    have t': "int t' = min ctx (min (int (length old) - int P') (int (length new) - int Q'))"
      using prems(2) f(5,6) by (simp add: t'_def)
    note trail = trailing_along [OF f(7,5,6) prems(2) far t']
    define k where "k = nat (int n - ctx)"
    have k: "max (cg_oldStart g - ctx) 0 = int (P + k)" "max (cg_newStart g - ctx) 0 = int (Q + k)" "k \<le> n" "t \<le> k"
      using prems(2,4) g(1,2) by (auto simp: k_def)
    have h: "hk_start1 h = int (P + k)" "hk_end1 h = int (P' + t')" "hk_start2 h = int (Q + k)" "hk_end2 h = int (Q' + t')"
        "old_side (hk_records h) = seg old (P + k) (P' + t')" "new_side (hk_records h) = seg new (Q + k) (Q' + t')"
      if "h = hunk_of old new ctx m g nearby" for h m
      using hunk_of_sides [OF g(1-7) k(1-3) f(1-4,8,9) t' trail that] by simp_all
    have next_ok: "hunks_match old new (P' + t') (Q' + t') (hunk_loop old new ctx names s m far)" for s m
    proof -
      have "length far < length changes" using close_changes_props [OF close] Cons by simp
      then show ?thesis using "1.IH" f(7) prems(2) trail t' far by simp
    qed
    show ?thesis unfolding Cons hunk_loop.simps(2) Let_def close prod.case
      by (rule hunks_match.match_hunk [OF h(1-4) [OF refl]])
        (use k(3,4) g(5-7) f(3-6) t' h(5,6) [OF refl] along_seg [OF g(5) k(4,3)] next_ok in auto)
  qed
qed

section \<open>Counting records\<close>

definition prefixed :: "unit16 \<Rightarrow> (unit16 \<times> jstring) list \<Rightarrow> int" where
  "prefixed c records = int (length (filter (\<lambda>r. fst r = c) records))"

lemma prefixed_simps [simp]:
  "prefixed c [] = 0" "prefixed c (xs @ ys) = prefixed c xs + prefixed c ys"
  "prefixed c (records_between d ls a b) = (if c = d then int (length (lines_between ls a b)) else 0)"
  by (simp_all add: prefixed_def records_between_def filter_map comp_def)

definition group_within :: "'a list \<Rightarrow> 'a list \<Rightarrow> ChangeGroup \<Rightarrow> bool" where
  "group_within old new g \<longleftrightarrow> 0 \<le> cg_oldStart g \<and> 0 \<le> cg_oldCount g \<and> cg_oldStart g + cg_oldCount g \<le> int (length old)
     \<and> 0 \<le> cg_newStart g \<and> 0 \<le> cg_newCount g \<and> cg_newStart g + cg_newCount g \<le> int (length new)"

lemma valid_script_within: "valid_script old new p q gs \<Longrightarrow> g \<in> set gs \<Longrightarrow> group_within old new g"
  by (induction gs arbitrary: p q) (auto simp: Let_def group_within_def)

lemma length_between: "0 \<le> a \<Longrightarrow> 0 \<le> n \<Longrightarrow> a + n \<le> int (length xs) \<Longrightarrow> int (length (lines_between xs a (a + n))) = n"
  by (simp add: lines_between_def)

lemma change_prefixed:
  assumes "group_within old new g"
  shows "prefixed 0x2b (change_records old new g) = cg_newCount g" "prefixed 0x2d (change_records old new g) = cg_oldCount g"
  using assms by (auto simp: change_records_def group_within_def length_between)

lemma later_prefixed:
  "\<forall>g \<in> set gs. group_within old new g \<Longrightarrow>
     prefixed 0x2b (later_records old new g0 gs) = sum_list (map cg_newCount gs) \<and>
     prefixed 0x2d (later_records old new g0 gs) = sum_list (map cg_oldCount gs)"
  by (induction old new g0 gs rule: later_records.induct) (auto simp: change_prefixed)

lemma hunk_prefixed:
  assumes "\<forall>x \<in> set (g # nearby). group_within old new x"
  shows "prefixed 0x2b (hk_records (hunk_of old new ctx m g nearby)) = sum_list (map cg_newCount (g # nearby))"
    "prefixed 0x2d (hk_records (hunk_of old new ctx m g nearby)) = sum_list (map cg_oldCount (g # nearby))"
  using assms change_prefixed [of old new g] later_prefixed [of nearby old new g]
  by (simp_all add: hunk_of_def Let_def)

lemma hunks_prefixed:
  "\<forall>x \<in> set changes. group_within old new x \<Longrightarrow>
     sum_list (map (\<lambda>h. prefixed 0x2b (hk_records h)) (hunk_loop old new ctx names s m changes)) = sum_list (map cg_newCount changes) \<and>
     sum_list (map (\<lambda>h. prefixed 0x2d (hk_records h)) (hunk_loop old new ctx names s m changes)) = sum_list (map cg_oldCount changes)"
proof (induction changes arbitrary: s m rule: length_induct)
  case (1 changes)
  show ?case
  proof (cases changes)
    case (Cons g gs)
    obtain nearby far where close: "close_changes (ctx * 2) g gs = (nearby, far)" by fastforce
    have gs: "gs = nearby @ far" using close_changes_props [OF close] by simp
    have "length far < length changes" "\<And>x. x \<in> set far \<Longrightarrow> group_within old new x" using "1.prems" gs Cons by auto
    note ih = "1.IH" [rule_format, OF this]
    have "\<forall>x \<in> set (g # nearby). group_within old new x" using "1.prems" gs Cons by auto
    note here = hunk_prefixed [OF this]
    show ?thesis unfolding Cons hunk_loop.simps(2) Let_def close prod.case using here ih by (simp add: gs)
  qed simp
qed

lemma concat_split_loop: "start \<le> length contents \<Longrightarrow> concat (split_loop contents start lines) = concat lines @ drop start contents"
proof (induction contents start lines rule: split_loop.induct)
  case (1 contents start lines)
  show ?case
  proof (cases "indexOf_from contents [newline] start")
    case None
    then show ?thesis by (subst split_loop.simps) simp
  next
    case (Some at)
    have at: "start \<le> at" "at < length contents" using indexOf_from_unit [OF Some] by simp_all
    then have rest: "take (at + 1 - start) (drop start contents) @ drop (at + 1) contents = drop start contents"
      using seg_append_drop [of start "at + 1" contents] by (simp add: seg_def)
    show ?thesis
    proof (cases "at + 1 = length contents")
      case True
      then show ?thesis using Some rest by (subst split_loop.simps) simp
    next
      case False
      then show ?thesis using Some rest at "1.IH" [OF Some refl False] by (subst split_loop.simps) simp
    qed
  qed
qed

lemma concat_splitLines: "concat (splitLines contents) = contents"
  by (simp add: splitLines_def concat_split_loop)

section \<open>Properties\<close>

text \<open>
  C13: a text diff is a right patch. It returns for any two texts; its text prints hunks that apply to the old
  lines, each finding its old side in the lines it covers, and give the new text; turned around they apply to the
  new lines and give the old text; and the numbers of inserted and deleted lines are those of the records
  marked with a plus and a minus.
\<close>

theorem diffText_patch:
  assumes "int (length (splitLines oldText)) + int (length (splitLines newText)) < LINE_MAX"
    and "\<And>c. uo_context options = Some c \<Longrightarrow> 0 \<le> c"
  shows "\<exists>d hs. diffText oldText newText options = Some (Inr d) \<and>
     hs = hunks_of (splitLines oldText) (splitLines newText) (td_changes d) options \<and>
     td_hunks d = concat (map print_hunk hs) \<and>
     map_option concat (apply_hunks (splitLines oldText) 0 hs) = Some newText \<and>
     map_option concat (apply_hunks (splitLines newText) 0 (map reverse_hunk hs)) = Some oldText \<and>
     td_insertions d = sum_list (map (\<lambda>h. prefixed 0x2b (hk_records h)) hs) \<and>
     td_deletions d = sum_list (map (\<lambda>h. prefixed 0x2d (hk_records h)) hs)"
proof -
  let ?old = "splitLines oldText" and ?new = "splitLines newText"
  obtain gs where gs: "valid_script ?old ?new 0 0 gs" "diffLines ?old ?new (diff_options None None) = Some (Inr gs)"
    by (rule diffLines_script [OF assms(1), of None]) simp
  define hs where "hs = hunks_of ?old ?new gs options"
  have ctx: "0 \<le> (case uo_context options of None \<Rightarrow> 3 | Some c \<Rightarrow> c)" using assms(2) by (simp split: option.split)
  have m: "hunks_match ?old ?new 0 0 hs"
    using hunk_loop_match [OF gs(1) ctx, of 0] unfolding hs_def hunks_of_def by (simp add: along_def)
  have "apply_hunks ?old 0 hs = Some ?new" "apply_hunks ?new 0 (map reverse_hunk hs) = Some ?old"
    using hunks_match_apply [OF m] hunks_match_apply [OF hunks_match_reverse [OF m]] by simp_all
  moreover have "sum_list (map (\<lambda>h. prefixed 0x2b (hk_records h)) hs) = sum_list (map cg_newCount gs)"
    "sum_list (map (\<lambda>h. prefixed 0x2d (hk_records h)) hs) = sum_list (map cg_oldCount gs)"
    using hunks_prefixed [of gs ?old ?new] valid_script_within [OF gs(1)] unfolding hs_def hunks_of_def by auto
  moreover have "concat (map print_hunk hs) = (if gs = [] then [] else unifiedHunks ?old ?new gs options)"
    by (simp add: hs_def unifiedHunks_def hunks_of_def)
  ultimately show ?thesis using gs(2)
    by (simp add: diffText_def diff_options_def hs_def concat_splitLines)
qed

theorem diffText_patch_witness:
  "\<exists>d hs. diffText (units ''a'') (units ''b'') \<lparr>uo_context = Some 1, uo_functionNames = None\<rparr> = Some (Inr d) \<and>
     td_hunks d = concat (map print_hunk hs) \<and>
     map_option concat (apply_hunks (splitLines (units ''a'')) 0 hs) = Some (units ''b'')"
proof -
  have one: "splitLines (units ''a'') = [units ''a'']" "splitLines (units ''b'') = [units ''b'']" by code_simp+
  show ?thesis
    using diffText_patch [of "units ''a''" "units ''b''" "\<lparr>uo_context = Some 1, uo_functionNames = None\<rparr>"]
    unfolding one by (auto simp: LINE_MAX_def)
qed

end
