(* ===== verification/Spec2Isabelle.thy ===== *)
theory Spec2Isabelle
  imports Joins Paths RefName Trees Lru Pktline DeltaCorrect Refspec Protocol MergeBaseCorrect
    IgnoreLoad DiffUnified
begin

text \<open>
  A verification development for the Git engine of kompjutr (\<open>src/packages/git/src\<close>): an implementation of Git in
  TypeScript that keeps its objects in SQL, talks the smart HTTP protocol as client and as server, and works on a
  virtual file system. The engine is layered. \<open>common\<close> holds the object formats, paths, ref names, the path order
  and the sorted joins every walk uses; \<open>store/pack\<close> the chunk pool and the deltas of packs; \<open>protocol\<close> the wire
  format, the client and the server; \<open>ignore\<close> the ignore rules of a worktree; \<open>diff\<close> the line diff; \<open>ops\<close> the
  operations over all of them, of which merge bases and refspecs are modelled here. File names below are relative to
  \<open>src/packages/git/src\<close>.

  \<^bold>\<open>Values.\<close> \<open>Prelude\<close>, \<open>Text\<close>, \<open>Utf8\<close>, \<open>Actions\<close> and \<open>Sorting\<close> model what the code uses of the language: a byte array
  is a list of 8-bit words, a string a list of UTF-16 code units, with their search, split, number and UTF-8
  operations; a number is a natural number or an integer where the code keeps it below \<open>2 ^ 53\<close>, and a rounded
  double where it does not (\<open>jsnum\<close> for the sizes of deltas, \<open>double_of_int\<close> for the byte count of the cache).
  Code that throws returns \<open>error + 'a\<close>; code that changes a state returns the state it leaves also when it throws
  (\<open>Actions\<close>), so that cleanup in \<open>catch\<close> and \<open>finally\<close> is part of the model. A generator is what it yields and
  the error that ends it; an asynchronous source is the list of the events its iterator delivers. Shared mutable
  objects (the chunks of the pool, the nodes of the cache) are addresses of an explicit store.

  \<^bold>\<open>Objects.\<close> \<open>Bytes\<close> (\<open>common/bytes.ts\<close>) has hexadecimal text and object ids. \<open>Objects\<close> (\<open>common/objects.ts\<close>) has
  commits, tags and identities; reading inverts writing, folded signature headers included. \<open>Trees\<close>
  (\<open>common/trees.ts\<close>) has the whole-buffer reader, the incremental \<open>TreeParser\<close> with its growing byte fields, the
  tree order and the writer: the two readers agree except on modes of more than six bytes, which is said exactly;
  reading inverts writing; and decoding a name loses exactly a leading byte order mark.

  \<^bold>\<open>Paths, refs and order.\<close> \<open>Streams\<close> and \<open>Joins\<close> (\<open>common/streams.ts\<close>): path order is UTF-8 order, and the two- and
  three-way joins lose and invent nothing, pair equal keys and ascend. \<open>Paths\<close> (\<open>common/paths.ts\<close>) and \<open>RefName\<close>
  (\<open>common/ref-name.ts\<close>) compare the optimised scanners with declarative descriptions. \<open>Refspec\<close>
  (\<open>ops/refs/refspec-*.ts\<close>) has compilation, expansion and push leases; an expansion succeeds exactly when the
  mappings have an unambiguous meaning.

  \<^bold>\<open>Cache.\<close> \<open>Lru\<close> (\<open>common/lru.ts\<close>) is the byte-bounded cache over linked nodes; it implements a list in recency
  order within its budget, as long as doubles hold its byte counts exactly.

  \<^bold>\<open>Packs.\<close> \<open>Chunks\<close> (\<open>store/pack/chunks.ts\<close>, \<open>FlatByteSource\<close> of \<open>store/pack/shared.ts\<close>) has the chunk pool and the
  byte sources; in every reachable state the sequences in use share no chunk. \<open>Delta\<close> (\<open>store/pack/delta.ts\<close>,
  \<open>shared-delta.ts\<close>) has the delta appliers and \<open>DeltaCorrect\<close> their proofs: the incremental applier gives what
  \<open>applyDelta\<close> gives, for every chunking, and \<open>applyDelta\<close> follows the instructions of the delta.

  \<^bold>\<open>Protocol.\<close> \<open>Pktline\<close> (\<open>protocol/pktline.ts\<close>, \<open>stream.ts\<close>) has framing and the pull reader, \<open>Packets\<close> the loop
  that every reader of packets has. \<open>ReceivePack\<close> (\<open>receive-pack-*.ts\<close>) is the push client, \<open>Remote\<close> and \<open>UploadPack\<close>
  (\<open>remote-base.ts\<close>, \<open>discovery.ts\<close>, \<open>upload-pack.ts\<close>) the fetch client, \<open>Server\<close> (\<open>protocol/server\<close>) the server.
  \<open>Protocol\<close> runs one side against the other: push requests, status reports and packs arrive as sent; a status
  report is only accepted when it is consistent; and a fetch request of this client is refused by this server.

  \<^bold>\<open>Merge bases.\<close> \<open>MergeBase\<close> (\<open>ops/merge/merge-base.ts\<close>) has the bounded graph of two histories, the best common
  ancestors, the selection, and the ahead and behind counts; \<open>MergeBaseCorrect\<close> characterises ancestors and selection
  by reachability over the walked commits. The repository is a parameter: object types, history walks, tree roots,
  the shallow boundary and revision lookup, each of which may fail.

  \<^bold>\<open>Ignore rules.\<close> \<open>IgnoreTokens\<close>, \<open>IgnoreMatch\<close>, \<open>IgnoreCompile\<close>, \<open>IgnoreSource\<close> and \<open>IgnoreMatcher\<close> model \<open>ignore/*.ts\<close>
  from the tokens of a pattern to the queries of a worktree; the worktree is a parameter. \<open>IgnoreGlob\<close> shows what a
  glob matches and in how many steps, \<open>IgnoreNfa\<close> and \<open>IgnoreDepths\<close> what the automaton and a compiled rule match,
  \<open>IgnoreCorrect\<close>, \<open>IgnoreVerdict\<close> and \<open>IgnoreLoad\<close> that a loaded matcher answers by the last matching rule.

  \<^bold>\<open>Diff.\<close> \<open>DiffPrepare\<close>, \<open>DiffSearch\<close> and \<open>DiffCompact\<close> model \<open>diff/lines.ts\<close> and \<open>diff/myers*.ts\<close>: equality classes,
  trimming and cleanup, the bidirectional search with its heuristics, compaction with the indent heuristic, and the
  script. \<open>DiffClasses\<close> is about the classes; \<open>DiffWave\<close>, \<open>DiffScan\<close> and \<open>DiffSplit\<close> show that a search finds a split
  inside its box, \<open>DiffCompare\<close> that the recursion returns and leaves only equal lines unmarked, \<open>DiffSlide\<close> the same
  of compaction, and \<open>DiffScript\<close> that the script turns the old lines into the new ones. \<open>DiffUnified\<close>
  (\<open>diff/unified.ts\<close>, \<open>diff/index.ts\<close>) prints hunks that apply in both directions.

  \<^bold>\<open>Interfaces.\<close> What a component relies on is a locale that is interpreted on the model: \<open>byte_buffer\<close> (byte fields),
  \<open>byte_source\<close> (flat and chunked bytes and their union), \<open>lookahead\<close> (peekable streams), \<open>comparator\<close> (the
  comparison of a sort: tree entries, object ids, paths), \<open>recency_cache\<close> (the cache), \<open>expander\<close> (fetch and push
  refspecs), \<open>id_giver\<close> (text lines and byte records).

  \<^bold>\<open>Loops and bounds.\<close> No definition uses fuel. Loops whose measure is plain are total functions. The others are
  partial functions in which not returning is \<open>None\<close>, and returning is proved: the eviction loop of the cache on every
  well-formed cache; the page loop and the search for parents of the ignore matcher under conditions on the worktree
  and the directories, which are exact for the latter; the search and the compaction of the line diff for all inputs
  with fewer than \<open>LINE_MAX\<close> lines together, the sentinel of the search arrays. The largest typed array of the engine
  is a parameter of the tree parser.

  \<^bold>\<open>Not modelled.\<close> The SQL store and the operations over it, the file system bridge, the command line and the other
  packages (workspace file system, shell, drive, local, SQLite) are bindings to a database or a host. The HTTP
  exchange is outside the protocol readers, which start at a response body; run-time type guards on typed values are
  left out; the parts of error messages interpolated at run time are left out except for text of the other side.
  SHA-1 is a parameter. The three-way text merge (\<open>diff/xmerge*.ts\<close>) is not modelled.
\<close>

end
